(* ===== verification/Prelude.thy ===== *)
theory Prelude
  imports Main "HOL-Library.Word"
begin

text \<open>
  Shared vocabulary of the development: the machine integer types of the C sources, the error
  numbers they return, the arithmetic macros of \<^verbatim>\<open>utils/defs.h\<close>, the build-time constants of
  \<^verbatim>\<open>params.h.in\<close>, and generic lemmas on words, arrays (functions from indices) and lists that
  the component theories share.
\<close>

unbundle bit_operations_syntax

named_theorems ring_simps
  \<open>index and length facts of the power-of-two rings\<close>

named_theorems sky_defs
  \<open>definitions the component proofs unfold together\<close>

section \<open>Machine integers\<close>

type_synonym u8 = "8 word"
type_synonym u16 = "16 word"
type_synonym u32 = "32 word"
type_synonym u64 = "64 word"

text \<open>Error numbers of \<^verbatim>\<open>errno.h\<close> (Linux) that the sources return negated.\<close>

abbreviation EAGAIN :: int where "EAGAIN \<equiv> 11"
abbreviation ENOMEM :: int where "ENOMEM \<equiv> 12"
abbreviation EINVAL :: int where "EINVAL \<equiv> 22"
abbreviation EOVERFLOW :: int where "EOVERFLOW \<equiv> 75"

text \<open>The arithmetic macros of \<^verbatim>\<open>utils/defs.h\<close>; \<open>align_up\<close> and \<open>align_down\<close> are the bit
  manipulations of the macros, at the type of the first argument.\<close>

definition is_power_of_two :: "'a::len word \<Rightarrow> bool" where
  "is_power_of_two x \<longleftrightarrow> x \<noteq> 0 \<and> x AND (x - 1) = 0"

definition align_up :: "'a::len word \<Rightarrow> 'a word \<Rightarrow> 'a word" where
  "align_up x a = ((x - 1) OR (a - 1)) + 1"

definition align_down :: "'a::len word \<Rightarrow> 'a word \<Rightarrow> 'a word" where
  "align_down x a = x AND NOT (a - 1)"

definition div_up :: "'a::len word \<Rightarrow> 'a word \<Rightarrow> 'a word" where
  "div_up x d = (x + d - 1) div d"

definition wraps_lt :: "u32 \<Rightarrow> u32 \<Rightarrow> bool" where
  "wraps_lt a b \<longleftrightarrow> sint (a - b) < 0"

definition wraps_lte :: "u32 \<Rightarrow> u32 \<Rightarrow> bool" where
  "wraps_lte a b \<longleftrightarrow> sint (a - b) \<le> 0"

definition wraps_gt :: "u32 \<Rightarrow> u32 \<Rightarrow> bool" where
  "wraps_gt a b \<longleftrightarrow> sint (b - a) < 0"

definition wraps_gte :: "u32 \<Rightarrow> u32 \<Rightarrow> bool" where
  "wraps_gte a b \<longleftrightarrow> sint (b - a) \<le> 0"

section \<open>Build-time constants of params.h.in\<close>

definition USED_CPUS :: nat where "USED_CPUS = 24"
definition MAX_TASKS :: nat where "MAX_TASKS = 1024 * 64"
definition MAX_TIMERS :: nat where "MAX_TIMERS = 4096"
definition SOFTIRQ_MAX_BUDGET :: nat where "SOFTIRQ_MAX_BUDGET = 16"
definition RUNTIME_RQ_SIZE :: u32 where "RUNTIME_RQ_SIZE = 32"
definition PREEMPT_QUAN :: nat where "PREEMPT_QUAN = 5"

section \<open>Words\<close>

lemma unat_mask_lt:
  fixes x :: "'a::len word"
  assumes "k < LENGTH('a)"
  shows "unat (x AND (2 ^ k - 1)) = unat x mod 2 ^ k"
proof -
  have "x AND (2 ^ k - 1) = take_bit k x"
    by (simp only: take_bit_eq_mask mask_eq_exp_minus_1)
  then have "unat (x AND (2 ^ k - 1)) = take_bit k (unat x)"
    using assms by (simp only: unsigned_take_bit_eq)
  then show ?thesis by (simp only: take_bit_eq_mod)
qed

lemma unat_add_of_nat:
  fixes x :: "'a::len word"
  shows "unat (x + of_nat i) = (unat x + i) mod 2 ^ LENGTH('a)"
  by (simp add: unat_word_ariths unat_of_nat mod_add_right_eq)

lemma mod_mod_pow2:
  assumes "k \<le> n"
  shows "(a mod (2::nat) ^ n) mod 2 ^ k = a mod 2 ^ k"
  using assms by (simp add: mod_mod_cancel le_imp_power_dvd)

text \<open>The slot of the \<open>i\<close>-th element of a ring that starts at \<open>h\<close>.\<close>

lemma unat_ring_slot [ring_simps]:
  fixes h :: "'a::len word"
  assumes "k < LENGTH('a)"
  shows "unat ((h + of_nat i) AND (2 ^ k - 1)) = (unat h + i) mod 2 ^ k"
  using assms by (simp add: unat_mask_lt unat_add_of_nat mod_mod_pow2)

lemma ring_slot_inj:
  assumes "(a + i) mod m = (a + j) mod (m::nat)" "i < m" "j < m"
  shows "i = j"
proof -
  have "int i mod int m = int j mod int m"
    using assms(1)
    by (metis add_diff_cancel_left' mod_diff_left_eq of_nat_add of_nat_mod)
  then show ?thesis using assms(2,3) by simp
qed

lemma sint_nonneg:
  fixes x :: "'a::len word"
  assumes "unat x < 2 ^ (LENGTH('a) - 1)"
  shows "sint x = int (unat x)"
proof -
  have u: "uint x = int (unat x)" by simp
  have "signed_take_bit (LENGTH('a) - 1) (uint x) = uint x"
  proof (rule signed_take_bit_int_eq_self)
    show "- (2 ^ (LENGTH('a) - 1)) \<le> uint x"
      by (rule order_trans [of _ 0]) simp_all
    show "uint x < 2 ^ (LENGTH('a) - 1)"
      unfolding u using assms by (metis of_nat_less_iff of_nat_numeral of_nat_power)
  qed
  with sint_uint [of x] u show ?thesis by (simp only: One_nat_def)
qed

lemma unat_plus_one_minus:
  fixes t h :: "'a::len word"
  assumes "Suc (unat (t - h)) < 2 ^ LENGTH('a)"
  shows "unat (t + 1 - h) = Suc (unat (t - h))"
proof -
  have "unat (d + 1) = Suc (unat d)" if "Suc (unat d) < 2 ^ LENGTH('a)" for d :: "'a word"
    using that by (simp add: unat_word_ariths)
  from this [OF assms] show ?thesis by (simp add: algebra_simps)
qed

lemma unat_minus_plus_one:
  fixes t h :: "'a::len word"
  assumes "t \<noteq> h"
  shows "unat (t - (h + 1)) = unat (t - h) - 1"
proof -
  have "t - (h + 1) = (t - h) - 1" by simp
  moreover have "t - h \<noteq> 0" using assms by simp
  ultimately show ?thesis by (metis unat_minus_one)
qed

lemma unat_succ_less:
  fixes x y :: "'a::len word"
  assumes "x < y"
  shows "unat (x + 1) = unat x + 1"
proof -
  have "Suc (unat x) < 2 ^ LENGTH('a)"
    using assms order_le_less_trans [OF Suc_leI unsigned_less [of y, where ?'a = nat]]
    by (simp add: word_less_nat_alt)
  then show ?thesis by (simp add: unat_word_ariths)
qed

text \<open>The signed difference of two numbers in the lower half of the range.\<close>

lemma sint_diff:
  fixes x y :: "'a::len word"
  assumes "unat x < 2 ^ (LENGTH('a) - 1)" "unat y < 2 ^ (LENGTH('a) - 1)"
  shows "sint (x - y) = int (unat x) - int (unat y)"
proof -
  have e: "x - y = word_of_int (int (unat x) - int (unat y))" by (simp add: of_int_diff)
  have "sint (x - y) = signed_take_bit (LENGTH('a) - 1) (int (unat x) - int (unat y))"
    unfolding e by (simp only: signed_of_int of_int_eq_id id_apply One_nat_def)
  also have "\<dots> = int (unat x) - int (unat y)"
  proof (rule signed_take_bit_int_eq_self)
    have "int (unat x) < 2 ^ (LENGTH('a) - 1)" "int (unat y) < 2 ^ (LENGTH('a) - 1)"
      using assms by (metis of_nat_less_iff of_nat_numeral of_nat_power)+
    then show "- (2 ^ (LENGTH('a) - 1)) \<le> int (unat x) - int (unat y)" "int (unat x) - int (unat y) < 2 ^ (LENGTH('a) - 1)"
      using of_nat_0_le_iff [of "unat x", where ?'a = int] of_nat_0_le_iff [of "unat y", where ?'a = int] by linarith+
  qed
  finally show ?thesis .
qed

lemma insert_Int_left:
  assumes "x \<notin> S" "G \<subseteq> S" "X \<inter> insert x S = insert x G"
  shows "X \<inter> S = G"
proof -
  have "y \<in> X \<and> y \<in> S \<longleftrightarrow> y \<in> G" for y using assms by (metis Int_iff insert_iff subsetD)
  then show ?thesis by auto
qed

end
