(* ===== verification/Queue_Ring.thy ===== *)
theory Queue_Ring
  imports Prelude
begin

text \<open>
  The rings of \<^verbatim>\<open>utils/include/utils/queue.h\<close>: the unsynchronised \<^verbatim>\<open>queue_t\<close> that holds the
  pending tasks of the centralised schedulers, and the single-producer single-consumer
  \<^verbatim>\<open>spsc_queue_t\<close>. Both keep 32-bit head and tail counters that run freely and wrap; the slot of a
  counter is its low 20 bits. The interface they promise to their clients, a bounded FIFO, is the
  locale \<open>bounded_fifo\<close>; it is stated once here and interpreted for each ring of the development.
\<close>

section \<open>Bounded FIFO queues\<close>

text \<open>
  The contract: \<open>fifo_of\<close> reads the queued elements oldest first, \<open>put\<close> appends exactly when there
  is room, \<open>take_front\<close> removes the oldest element, and a full or empty queue is left alone.
\<close>

datatype 'a fifo_op = Put 'a | Take

datatype 'a fifo_out = PutOk | PutFull | Took "'a option"

fun spec_step :: "nat \<Rightarrow> 'a list \<Rightarrow> 'a fifo_op \<Rightarrow> 'a fifo_out \<times> 'a list" where
  "spec_step cap xs (Put x) = (if length xs < cap then (PutOk, xs @ [x]) else (PutFull, xs))"
| "spec_step cap [] Take = (Took None, [])"
| "spec_step cap (x # xs) Take = (Took (Some x), xs)"

fun spec_run :: "nat \<Rightarrow> 'a list \<Rightarrow> 'a fifo_op list \<Rightarrow> 'a fifo_out list \<times> 'a list" where
  "spec_run cap xs [] = ([], xs)"
| "spec_run cap xs (c # cs) =
     (case spec_step cap xs c of (r, ys) \<Rightarrow>
       (case spec_run cap ys cs of (rs, zs) \<Rightarrow> (r # rs, zs)))"

fun impl_step ::
  "('q \<Rightarrow> 'a \<Rightarrow> bool \<times> 'q) \<Rightarrow> ('q \<Rightarrow> 'a option \<times> 'q) \<Rightarrow> 'q \<Rightarrow> 'a fifo_op \<Rightarrow> 'a fifo_out \<times> 'q"
where
  "impl_step put tk q (Put x) = (case put q x of (ok, q') \<Rightarrow> (if ok then PutOk else PutFull, q'))"
| "impl_step put tk q Take = (case tk q of (r, q') \<Rightarrow> (Took r, q'))"

fun impl_run ::
  "('q \<Rightarrow> 'a \<Rightarrow> bool \<times> 'q) \<Rightarrow> ('q \<Rightarrow> 'a option \<times> 'q) \<Rightarrow> 'q \<Rightarrow> 'a fifo_op list \<Rightarrow>
     'a fifo_out list \<times> 'q"
where
  "impl_run put tk q [] = ([], q)"
| "impl_run put tk q (c # cs) =
     (case impl_step put tk q c of (r, q') \<Rightarrow>
       (case impl_run put tk q' cs of (rs, q'') \<Rightarrow> (r # rs, q'')))"

text \<open>The elements a run puts satisfy the precondition of \<open>put\<close>.\<close>

fun ops_ok :: "('a \<Rightarrow> bool) \<Rightarrow> 'a fifo_op list \<Rightarrow> bool" where
  "ops_ok ok [] = True"
| "ops_ok ok (Put x # cs) = (ok x \<and> ops_ok ok cs)"
| "ops_ok ok (Take # cs) = ops_ok ok cs"

locale bounded_fifo =
  fixes put :: "'q \<Rightarrow> 'a \<Rightarrow> bool \<times> 'q"
    and take_front :: "'q \<Rightarrow> 'a option \<times> 'q"
    and fifo_of :: "'q \<Rightarrow> 'a list"
    and cap :: nat
    and invar :: "'q \<Rightarrow> bool"
    and elem :: "'a \<Rightarrow> bool"
  assumes room: "invar q \<Longrightarrow> length (fifo_of q) \<le> cap"
    and put_room: "\<lbrakk>invar q; elem x; length (fifo_of q) < cap; put q x = (ok, q')\<rbrakk>
          \<Longrightarrow> ok \<and> fifo_of q' = fifo_of q @ [x]"
    and put_full: "\<lbrakk>invar q; length (fifo_of q) = cap; put q x = (ok, q')\<rbrakk>
          \<Longrightarrow> \<not> ok \<and> fifo_of q' = fifo_of q"
    and put_invar: "\<lbrakk>invar q; elem x; put q x = (ok, q')\<rbrakk> \<Longrightarrow> invar q'"
    and take_nil: "\<lbrakk>invar q; fifo_of q = []; take_front q = (r, q')\<rbrakk>
          \<Longrightarrow> r = None \<and> fifo_of q' = []"
    and take_cons: "\<lbrakk>invar q; fifo_of q = x # xs; take_front q = (r, q')\<rbrakk>
          \<Longrightarrow> r = Some x \<and> fifo_of q' = xs"
    and take_invar: "\<lbrakk>invar q; take_front q = (r, q')\<rbrakk> \<Longrightarrow> invar q'"
begin

lemma step_refines:
  assumes "invar q" "ops_ok elem [c]" "impl_step put take_front q c = (r, q')"
  shows "spec_step cap (fifo_of q) c = (r, fifo_of q') \<and> invar q'"
proof (cases c)
  case (Put x)
  obtain ok p where p: "put q x = (ok, p)" by (cases "put q x")
  with assms Put have r: "r = (if ok then PutOk else PutFull)" "q' = p" and e: "elem x" by simp_all
  show ?thesis
  proof (cases "length (fifo_of q) < cap")
    case True
    with put_room [OF assms(1) e True p] put_invar [OF assms(1) e p] Put r show ?thesis by simp
  next
    case False
    with room [OF assms(1)] have "length (fifo_of q) = cap" by simp
    with put_full [OF assms(1) this p] put_invar [OF assms(1) e p] Put r show ?thesis by simp
  qed
next
  case Take
  obtain y p where p: "take_front q = (y, p)" by (cases "take_front q")
  with assms Take have r: "r = Took y" "q' = p" by simp_all
  show ?thesis
  proof (cases "fifo_of q")
    case Nil
    with take_nil [OF assms(1) Nil p] take_invar [OF assms(1) p] Take r show ?thesis by simp
  next
    case (Cons x xs)
    with take_cons [OF assms(1) Cons p] take_invar [OF assms(1) p] Take r show ?thesis by simp
  qed
qed

text \<open>Every sequence of operations returns what the abstract queue returns.\<close>

lemma run_refines:
  assumes "invar q" "ops_ok elem cs" "impl_run put take_front q cs = (rs, q')"
  shows "spec_run cap (fifo_of q) cs = (rs, fifo_of q') \<and> invar q'"
  using assms
proof (induction cs arbitrary: q rs q')
  case Nil
  then show ?case by simp
next
  case (Cons c cs)
  obtain r p where p: "impl_step put take_front q c = (r, p)"
    by (cases "impl_step put take_front q c")
  obtain rs2 p2 where p2: "impl_run put take_front p cs = (rs2, p2)"
    by (cases "impl_run put take_front p cs")
  have c: "ops_ok elem [c]" and cs: "ops_ok elem cs"
    using Cons.prems(2) by (cases c; simp)+
  from step_refines [OF Cons.prems(1) c p] have sp: "spec_step cap (fifo_of q) c = (r, fifo_of p)"
    and "invar p" by simp_all
  with Cons.IH [OF _ cs p2] Cons.prems(3) p p2 show ?case by auto
qed

end

section \<open>Rings of a power-of-two size\<close>

text \<open>
  The elements between two free-running counters of a ring whose slots are the low \<open>k\<close> bits, and
  the lemmas that append at the tail and remove at the head. A ring of the sources is an array
  indexed by the masked counter; the array is a function on slot numbers.
\<close>

definition ring_slot :: "nat \<Rightarrow> u32 \<Rightarrow> nat" where
  "ring_slot k c = unat (c AND (2 ^ k - 1))"

definition ring_list :: "nat \<Rightarrow> (nat \<Rightarrow> 'a) \<Rightarrow> u32 \<Rightarrow> u32 \<Rightarrow> 'a list" where
  "ring_list k buf h t = map (\<lambda>i. buf (ring_slot k (h + of_nat i))) [0..<unat (t - h)]"

lemma length_ring_list [simp]: "length (ring_list k buf h t) = unat (t - h)"
  by (simp add: ring_list_def)

lemma ring_slot_add [ring_simps]:
  "k < 32 \<Longrightarrow> ring_slot k (h + of_nat i) = (unat h + i) mod 2 ^ k"
  unfolding ring_slot_def by (rule unat_ring_slot) simp

lemma ring_slot_bound: "k < 32 \<Longrightarrow> ring_slot k c < 2 ^ k"
  unfolding ring_slot_def by (subst unat_mask_lt) simp_all

lemma tail_as_offset: "(t::u32) = h + of_nat (unat (t - h))"
  by (simp add: word_of_nat_eq_iff)

text \<open>Two counters less than a ring apart have different slots.\<close>

lemma ring_slot_neq:
  assumes "k < 32" "i < 2 ^ k" "j < 2 ^ k" "i \<noteq> j"
  shows "ring_slot k (h + of_nat i) \<noteq> ring_slot k (h + of_nat j)"
  using assms ring_slot_inj [of "unat h" i "2 ^ k" j] by (auto simp: ring_slot_add)

lemma pow2_lt_u32: "k < 32 \<Longrightarrow> (2::nat) ^ k < 2 ^ 32"
  by (rule power_strict_increasing) simp_all

lemma ring_list_put:
  assumes "k < 32" "unat (t - h) < 2 ^ k"
  shows "ring_list k (buf(ring_slot k t := x)) h (t + 1) = ring_list k buf h t @ [x]"
proof -
  let ?n = "unat (t - h)"
  have t: "t = h + of_nat ?n" by (rule tail_as_offset)
  have n: "unat (t + 1 - h) = Suc ?n"
    using assms pow2_lt_u32 [OF assms(1)] by (intro unat_plus_one_minus) simp
  have old: "(buf(ring_slot k t := x)) (ring_slot k (h + of_nat i)) = buf (ring_slot k (h + of_nat i))"
    if "i < ?n" for i
    using that assms ring_slot_neq [of k i ?n h] t by auto
  have new: "(buf(ring_slot k t := x)) (ring_slot k (h + of_nat ?n)) = x"
    using t by simp
  show ?thesis
    unfolding ring_list_def n upt_Suc_append [OF le0] map_append
    using old new by simp
qed

lemma ring_list_take:
  assumes "t \<noteq> h"
  shows "ring_list k buf h t = buf (ring_slot k h) # ring_list k buf (h + 1) t"
proof -
  have n: "unat (t - h) = Suc (unat (t - (h + 1)))"
    using unat_minus_plus_one [OF assms] assms by (simp add: unat_gt_0)
  have "[0..<unat (t - h)] = 0 # map Suc [0..<unat (t - (h + 1))]"
    unfolding n by (simp add: upt_conv_Cons map_Suc_upt del: upt_Suc)
  then show ?thesis
    by (simp add: ring_list_def algebra_simps)
qed

lemma ring_list_empty [simp]: "ring_list k buf h h = []"
  by (simp add: ring_list_def)

lemma ring_list_eq_Nil: "ring_list k buf h t = [] \<longleftrightarrow> t = h"
  by (cases "t = h") (simp_all add: ring_list_take)

section \<open>queue.h\<close>

definition QUEUE_CAP :: u32 where "QUEUE_CAP = 2 ^ 20"
definition QUEUE_CAP_MASK :: u32 where "QUEUE_CAP_MASK = QUEUE_CAP - 1"

text \<open>The queue holds task pointers; NULL as a result is \<open>None\<close>. \<open>queue_len\<close> converts the unsigned
  difference of the counters to a C \<open>int\<close>, as the source does.\<close>

record 'a queue_t =
  q_head :: u32
  q_tail :: u32
  q_buf :: "nat \<Rightarrow> 'a"

definition queue_init :: "'a queue_t \<Rightarrow> 'a queue_t" where
  "queue_init q = q\<lparr>q_head := 0, q_tail := 0\<rparr>"

definition queue_len :: "'a queue_t \<Rightarrow> int" where
  "queue_len q = sint (q_tail q - q_head q)"

definition queue_is_empty :: "'a queue_t \<Rightarrow> bool" where
  "queue_is_empty q \<longleftrightarrow> queue_len q = 0"

definition queue_is_full :: "'a queue_t \<Rightarrow> bool" where
  "queue_is_full q \<longleftrightarrow> queue_len q \<ge> uint QUEUE_CAP"

definition queue_head :: "'a queue_t \<Rightarrow> 'a" where
  "queue_head q = q_buf q (unat (q_head q AND QUEUE_CAP_MASK))"

definition queue_push :: "'a queue_t \<Rightarrow> 'a \<Rightarrow> int \<times> 'a queue_t" where
  "queue_push q item =
     (if queue_is_full q then (- EOVERFLOW, q)
      else (0, q\<lparr>q_buf := (q_buf q)(unat (q_tail q AND QUEUE_CAP_MASK) := item),
                 q_tail := q_tail q + 1\<rparr>))"

definition queue_pop :: "'a queue_t \<Rightarrow> 'a option \<times> 'a queue_t" where
  "queue_pop q =
     (if queue_is_empty q then (None, q)
      else (Some (queue_head q), q\<lparr>q_head := q_head q + 1\<rparr>))"

text \<open>The single-producer single-consumer ring: same layout, its own full and empty tests.\<close>

record 'a spsc_queue_t =
  s_head :: u32
  s_tail :: u32
  s_buf :: "nat \<Rightarrow> 'a"

definition spsc_queue_len :: "'a spsc_queue_t \<Rightarrow> int" where
  "spsc_queue_len q = sint (s_tail q - s_head q)"

definition spsc_queue_is_empty :: "'a spsc_queue_t \<Rightarrow> bool" where
  "spsc_queue_is_empty q \<longleftrightarrow> spsc_queue_len q = 0"

definition spsc_queue_is_full :: "'a spsc_queue_t \<Rightarrow> bool" where
  "spsc_queue_is_full q \<longleftrightarrow> spsc_queue_len q \<ge> uint QUEUE_CAP"

definition spsc_queue_head :: "'a spsc_queue_t \<Rightarrow> 'a" where
  "spsc_queue_head q = s_buf q (unat (s_head q AND QUEUE_CAP_MASK))"

definition spsc_queue_push :: "'a spsc_queue_t \<Rightarrow> 'a \<Rightarrow> int \<times> 'a spsc_queue_t" where
  "spsc_queue_push q item =
     (let tail = s_tail q in
      if tail = s_head q + QUEUE_CAP then (- EOVERFLOW, q)
      else (0, q\<lparr>s_buf := (s_buf q)(unat (tail AND QUEUE_CAP_MASK) := item),
                 s_tail := tail + 1\<rparr>))"

definition spsc_queue_pop :: "'a spsc_queue_t \<Rightarrow> 'a option \<times> 'a spsc_queue_t" where
  "spsc_queue_pop q =
     (let head = s_head q in
      if head = s_tail q then (None, q)
      else (Some (s_buf q (unat (head AND QUEUE_CAP_MASK))), q\<lparr>s_head := head + 1\<rparr>))"

subsection \<open>Invariant and abstraction\<close>

definition queue_inv :: "'a queue_t \<Rightarrow> bool" where
  "queue_inv q \<longleftrightarrow> unat (q_tail q - q_head q) \<le> 2 ^ 20"

definition queue_list :: "'a queue_t \<Rightarrow> 'a list" where
  "queue_list q = ring_list 20 (q_buf q) (q_head q) (q_tail q)"

definition spsc_inv :: "'a spsc_queue_t \<Rightarrow> bool" where
  "spsc_inv q \<longleftrightarrow> unat (s_tail q - s_head q) \<le> 2 ^ 20"

definition spsc_list :: "'a spsc_queue_t \<Rightarrow> 'a list" where
  "spsc_list q = ring_list 20 (s_buf q) (s_head q) (s_tail q)"

lemma cap_slot: "unat (c AND QUEUE_CAP_MASK) = ring_slot 20 c"
  by (simp add: QUEUE_CAP_MASK_def QUEUE_CAP_def ring_slot_def)

lemma sint_small: "unat (x :: u32) \<le> 2 ^ 20 \<Longrightarrow> sint x = int (unat x)"
  by (rule sint_nonneg) simp

lemma queue_len_eq: "queue_inv q \<Longrightarrow> queue_len q = int (length (queue_list q))"
  by (simp add: queue_inv_def queue_len_def queue_list_def sint_small)

lemma queue_is_empty_iff: "queue_inv q \<Longrightarrow> queue_is_empty q \<longleftrightarrow> queue_list q = []"
  by (simp add: queue_is_empty_def queue_len_eq)

lemma queue_is_full_iff: "queue_inv q \<Longrightarrow> queue_is_full q \<longleftrightarrow> length (queue_list q) = 2 ^ 20"
proof -
  assume inv: "queue_inv q"
  then have "length (queue_list q) \<le> 2 ^ 20" by (simp add: queue_inv_def queue_list_def)
  then show ?thesis
    unfolding queue_is_full_def queue_len_eq [OF inv] QUEUE_CAP_def by auto
qed

lemmas queue_ring_defs = queue_inv_def queue_list_def queue_push_def queue_pop_def queue_head_def

text \<open>\<open>queue_push\<close> succeeds with 0 or fails with \<open>-EOVERFLOW\<close>; the interface counts only whether it
  succeeded.\<close>

definition queue_put :: "'a queue_t \<Rightarrow> 'a \<Rightarrow> bool \<times> 'a queue_t" where
  "queue_put q x = (case queue_push q x of (r, q') \<Rightarrow> (r = 0, q'))"

definition spsc_put :: "'a spsc_queue_t \<Rightarrow> 'a \<Rightarrow> bool \<times> 'a spsc_queue_t" where
  "spsc_put q x = (case spsc_queue_push q x of (r, q') \<Rightarrow> (r = 0, q'))"

lemma queue_push_room:
  assumes "queue_inv q" "length (queue_list q) < 2 ^ 20"
  shows "fst (queue_push q x) = 0" "queue_list (snd (queue_push q x)) = queue_list q @ [x]"
    "queue_inv (snd (queue_push q x))"
proof -
  have nf: "\<not> queue_is_full q" using assms by (simp add: queue_is_full_iff)
  have lt: "unat (q_tail q - q_head q) < 2 ^ 20" using assms(2) by (simp add: queue_list_def)
  have "unat (q_tail q + 1 - q_head q) = Suc (unat (q_tail q - q_head q))"
    by (rule unat_plus_one_minus) (use lt in simp)
  with lt show "queue_inv (snd (queue_push q x))"
    by (simp add: queue_ring_defs nf)
  show "queue_list (snd (queue_push q x)) = queue_list q @ [x]"
    using ring_list_put [of 20 "q_tail q" "q_head q" "q_buf q" x] lt
    by (simp add: queue_ring_defs nf cap_slot)
  show "fst (queue_push q x) = 0" by (simp add: queue_push_def nf)
qed

lemma queue_push_full:
  assumes "queue_inv q" "length (queue_list q) = 2 ^ 20"
  shows "queue_push q x = (- EOVERFLOW, q)"
  using assms by (simp add: queue_push_def queue_is_full_iff)

lemma queue_pop_nil: "queue_inv q \<Longrightarrow> queue_list q = [] \<Longrightarrow> queue_pop q = (None, q)"
  by (simp add: queue_pop_def queue_is_empty_iff)

lemma queue_pop_cons:
  assumes "queue_inv q" "queue_list q = x # xs"
  shows "fst (queue_pop q) = Some x" "queue_list (snd (queue_pop q)) = xs"
    "queue_inv (snd (queue_pop q))"
proof -
  have ne: "\<not> queue_is_empty q" using assms by (simp add: queue_is_empty_iff)
  have neq: "q_tail q \<noteq> q_head q" using assms(2) by (auto simp: queue_list_def)
  from ring_list_take [OF neq, of 20 "q_buf q"] assms(2)
  show "fst (queue_pop q) = Some x" "queue_list (snd (queue_pop q)) = xs"
    by (simp_all add: queue_ring_defs ne cap_slot)
  show "queue_inv (snd (queue_pop q))"
    using assms(1) unat_minus_plus_one [OF neq] by (simp add: queue_ring_defs ne)
qed

interpretation queue_fifo: bounded_fifo queue_put queue_pop queue_list "2 ^ 20" queue_inv "\<lambda>_. True"
proof unfold_locales
  fix q :: "'a queue_t" and x xs ok q' r
  show "queue_inv q \<Longrightarrow> length (queue_list q) \<le> 2 ^ 20"
    by (simp add: queue_inv_def queue_list_def)
  show "ok \<and> queue_list q' = queue_list q @ [x]"
    if "queue_inv q" "length (queue_list q) < 2 ^ 20" "queue_put q x = (ok, q')"
    using queue_push_room [OF that(1,2), of x] that(3) by (auto simp: queue_put_def split: prod.splits)
  show "\<not> ok \<and> queue_list q' = queue_list q"
    if "queue_inv q" "length (queue_list q) = 2 ^ 20" "queue_put q x = (ok, q')"
    using queue_push_full [OF that(1,2), of x] that(3) by (auto simp: queue_put_def)
  show "queue_inv q'" if "queue_inv q" "queue_put q x = (ok, q')"
  proof (cases "length (queue_list q) < 2 ^ 20")
    case True
    with queue_push_room(3) [OF that(1) True, of x] that(2) show ?thesis
      by (auto simp: queue_put_def split: prod.splits)
  next
    case False
    with that(1) have "length (queue_list q) = 2 ^ 20" by (simp add: queue_inv_def queue_list_def)
    with queue_push_full [OF that(1) this, of x] that show ?thesis by (auto simp: queue_put_def)
  qed
  show "r = None \<and> queue_list q' = []"
    if "queue_inv q" "queue_list q = []" "queue_pop q = (r, q')"
    using queue_pop_nil [OF that(1,2)] that(2,3) by simp
  show "r = Some x \<and> queue_list q' = xs"
    if "queue_inv q" "queue_list q = x # xs" "queue_pop q = (r, q')"
    using queue_pop_cons [OF that(1,2)] that(3) by simp
  show "queue_inv q'" if "queue_inv q" "queue_pop q = (r, q')"
    using queue_pop_nil [OF that(1)] queue_pop_cons(3) [OF that(1)] that
    by (cases "queue_list q") auto
qed

subsection \<open>The SPSC ring is the same queue\<close>

definition spsc_as_queue :: "'a spsc_queue_t \<Rightarrow> 'a queue_t" where
  "spsc_as_queue q = \<lparr>q_head = s_head q, q_tail = s_tail q, q_buf = s_buf q\<rparr>"

lemma spsc_as_queue_inv [simp]: "queue_inv (spsc_as_queue q) = spsc_inv q"
  and spsc_as_queue_list [simp]: "queue_list (spsc_as_queue q) = spsc_list q"
  by (simp_all add: queue_inv_def spsc_inv_def queue_list_def spsc_list_def spsc_as_queue_def)

lemma spsc_full_iff:
  assumes "spsc_inv q"
  shows "s_tail q = s_head q + QUEUE_CAP \<longleftrightarrow> queue_is_full (spsc_as_queue q)"
proof -
  have "s_tail q = s_head q + QUEUE_CAP \<longleftrightarrow> s_tail q - s_head q = QUEUE_CAP" by (auto simp: algebra_simps)
  also have "\<dots> \<longleftrightarrow> unat (s_tail q - s_head q) = 2 ^ 20" by (simp add: QUEUE_CAP_def word_unat_eq_iff)
  finally show ?thesis using assms by (simp add: queue_is_full_iff spsc_list_def)
qed

lemma spsc_push_eq:
  assumes "spsc_inv q"
  shows "queue_push (spsc_as_queue q) x = map_prod id spsc_as_queue (spsc_queue_push q x)"
  using spsc_full_iff [OF assms] by (simp add: queue_push_def spsc_queue_push_def Let_def spsc_as_queue_def)

lemma spsc_pop_eq:
  assumes "spsc_inv q"
  shows "queue_pop (spsc_as_queue q) = map_prod id spsc_as_queue (spsc_queue_pop q)"
proof -
  have "queue_is_empty (spsc_as_queue q) \<longleftrightarrow> s_head q = s_tail q"
    using assms queue_is_empty_iff [of "spsc_as_queue q"] by (auto simp: spsc_list_def ring_list_eq_Nil)
  then show ?thesis by (simp add: queue_pop_def spsc_queue_pop_def Let_def spsc_as_queue_def queue_head_def)
qed

lemma spsc_put_eq:
  assumes "spsc_inv q" "spsc_put q x = (ok, q')"
  shows "queue_put (spsc_as_queue q) x = (ok, spsc_as_queue q')"
  using assms spsc_push_eq [OF assms(1), of x] by (auto simp: spsc_put_def queue_put_def split: prod.splits)

interpretation spsc_fifo: bounded_fifo spsc_put spsc_queue_pop spsc_list "2 ^ 20" spsc_inv "\<lambda>_. True"
proof unfold_locales
  fix q :: "'a spsc_queue_t" and x xs ok q' r
  note Q = spsc_put_eq [of q x ok q'] spsc_pop_eq [of q]
  show "spsc_inv q \<Longrightarrow> length (spsc_list q) \<le> 2 ^ 20"
    using queue_fifo.room [of "spsc_as_queue q"] by simp
  show "ok \<and> spsc_list q' = spsc_list q @ [x]"
    if "spsc_inv q" "length (spsc_list q) < 2 ^ 20" "spsc_put q x = (ok, q')"
    using queue_fifo.put_room [of "spsc_as_queue q"] Q(1) that by fastforce
  show "\<not> ok \<and> spsc_list q' = spsc_list q"
    if "spsc_inv q" "length (spsc_list q) = 2 ^ 20" "spsc_put q x = (ok, q')"
    using queue_fifo.put_full [of "spsc_as_queue q"] Q(1) that by fastforce
  show "spsc_inv q'" if "spsc_inv q" "spsc_put q x = (ok, q')"
    using queue_fifo.put_invar [of "spsc_as_queue q"] Q(1) that by fastforce
  show "r = None \<and> spsc_list q' = []"
    if "spsc_inv q" "spsc_list q = []" "spsc_queue_pop q = (r, q')"
    using queue_fifo.take_nil [of "spsc_as_queue q"] Q(2) that by fastforce
  show "r = Some x \<and> spsc_list q' = xs"
    if "spsc_inv q" "spsc_list q = x # xs" "spsc_queue_pop q = (r, q')"
    using queue_fifo.take_cons [of "spsc_as_queue q"] Q(2) that by fastforce
  show "spsc_inv q'" if "spsc_inv q" "spsc_queue_pop q = (r, q')"
    using queue_fifo.take_invar [of "spsc_as_queue q"] Q(2) that by fastforce
qed

section \<open>Properties\<close>

lemma ops_ok_True [simp]: "ops_ok (\<lambda>_. True) cs"
  by (induction "\<lambda>_ :: 'a. True" cs rule: ops_ok.induct) simp_all

text \<open>C21: from a freshly initialised \<^verbatim>\<open>queue_t\<close>, whatever its buffer holds, every sequence of pushes
  and pops returns exactly what an unbounded-counter FIFO of capacity \<open>2 ^ 20\<close> returns, and leaves the
  same elements queued: the 32-bit counters may wrap any number of times.\<close>

theorem queue_refines_fifo:
  "case impl_run queue_put queue_pop (queue_init q) cs of
     (rs, q') \<Rightarrow> spec_run (2 ^ 20) [] cs = (rs, queue_list q')"
proof -
  obtain rs q' where r: "impl_run queue_put queue_pop (queue_init q) cs = (rs, q')"
    by (cases "impl_run queue_put queue_pop (queue_init q) cs")
  have "queue_inv (queue_init q)" "queue_list (queue_init q) = []"
    by (simp_all add: queue_inv_def queue_init_def queue_list_def)
  with queue_fifo.run_refines [OF _ _ r] show ?thesis by (simp add: r)
qed

text \<open>the same for the single-producer single-consumer ring started with equal counters, at any
  counter value, so in particular just before both counters wrap to zero.\<close>

theorem spsc_refines_fifo:
  "case impl_run spsc_put spsc_queue_pop \<lparr>s_head = h, s_tail = h, s_buf = b\<rparr> cs of
     (rs, q') \<Rightarrow> spec_run (2 ^ 20) [] cs = (rs, spsc_list q')"
proof -
  let ?q = "\<lparr>s_head = h, s_tail = h, s_buf = b\<rparr>"
  obtain rs q' where r: "impl_run spsc_put spsc_queue_pop ?q cs = (rs, q')"
    by (cases "impl_run spsc_put spsc_queue_pop ?q cs")
  have "spsc_inv ?q" "spsc_list ?q = []" by (simp_all add: spsc_inv_def spsc_list_def)
  with spsc_fifo.run_refines [OF _ _ r] show ?thesis by (simp add: r)
qed

end
