(* ===== verification/Lrpc_Chan.thy ===== *)
theory Lrpc_Chan
  imports Queue_Ring
begin

text \<open>
  The shared-memory channels of \<^verbatim>\<open>utils/include/utils/lrpc.h\<close> and \<^verbatim>\<open>utils/lrpc.c\<close>, which carry
  packets and completions between the I/O thread and the kernel threads. A channel has no shared
  tail counter: a slot says by its parity bit whether it holds a message of the current lap.
  The theory models the sender, the receiver and the initialisation, shows that a channel is a
  bounded FIFO across counter wrap-around, and then that the individual shared-memory accesses of a
  sender and a receiver may interleave in any order.
\<close>

record lrpc_msg =
  cmd :: u64
  payload :: u64

definition LRPC_DONE_PARITY :: u64 where "LRPC_DONE_PARITY = 2 ^ 63"
definition LRPC_CMD_MASK :: u64 where "LRPC_CMD_MASK = NOT LRPC_DONE_PARITY"

text \<open>The egress and the ingress half of \<^verbatim>\<open>struct lrpc_chan\<close> share the table \<open>tbl\<close>.\<close>

record lrpc_chan =
  tbl :: "nat \<Rightarrow> lrpc_msg"
  out_size :: u32
  out_mask :: u32
  out_head :: u32
  out_tail :: u32
  in_size :: u32
  in_mask :: u32
  in_head :: u32
  in_head_wb :: u32

definition lrpc_parity :: "u32 \<Rightarrow> u32 \<Rightarrow> u64" where
  "lrpc_parity sz c = (if c AND sz \<noteq> 0 then 0 else LRPC_DONE_PARITY)"

definition lrpc_send :: "lrpc_chan \<Rightarrow> u64 \<Rightarrow> u64 \<Rightarrow> bool \<times> lrpc_chan" where
  "lrpc_send chan cmd' payload' =
     (let chan1 = (if out_tail chan - out_head chan \<ge> out_size chan
                   then chan\<lparr>out_head := in_head_wb chan\<rparr> else chan)
      in if out_tail chan - out_head chan \<ge> out_size chan \<and>
            out_tail chan1 - out_head chan1 = out_size chan1
         then (False, chan1)
         else let dst = unat (out_tail chan1 AND out_mask chan1);
                  c = cmd' OR lrpc_parity (out_size chan1) (out_tail chan1)
              in (True, chan1\<lparr>out_tail := out_tail chan1 + 1,
                              tbl := (tbl chan1)(dst := \<lparr>cmd = c, payload = payload'\<rparr>)\<rparr>))"

definition lrpc_recv :: "lrpc_chan \<Rightarrow> (u64 \<times> u64) option \<times> lrpc_chan" where
  "lrpc_recv chan =
     (let m = tbl chan (unat (in_head chan AND in_mask chan));
          parity = lrpc_parity (in_size chan) (in_head chan)
      in if cmd m AND LRPC_DONE_PARITY \<noteq> parity then (None, chan)
         else (Some (cmd m AND LRPC_CMD_MASK, payload m),
               chan\<lparr>in_head := in_head chan + 1, in_head_wb := in_head chan + 1\<rparr>))"

definition lrpc_size :: "lrpc_chan \<Rightarrow> u32" where
  "lrpc_size chan = out_tail chan - out_head chan"

definition lrpc_empty :: "lrpc_chan \<Rightarrow> bool" where
  "lrpc_empty chan \<longleftrightarrow>
     cmd (tbl chan (unat (in_head chan AND in_mask chan))) AND LRPC_DONE_PARITY
       \<noteq> lrpc_parity (in_size chan) (in_head chan)"

definition lrpc_init :: "lrpc_chan \<Rightarrow> (nat \<Rightarrow> lrpc_msg) \<Rightarrow> u32 \<Rightarrow> int \<times> lrpc_chan" where
  "lrpc_init chan tbl' sz =
     (if \<not> is_power_of_two sz then (- EINVAL, chan)
      else (0, \<lparr>tbl = tbl', out_size = sz, out_mask = sz - 1, out_head = 0, out_tail = 0,
                in_size = sz, in_mask = sz - 1, in_head = 0, in_head_wb = 0\<rparr>))"

section \<open>Parity of a lap\<close>

lemma and_pow2_iff: "(c :: u32) AND 2 ^ k \<noteq> 0 \<longleftrightarrow> bit c k"
  by (simp add: and_exp_eq_0_iff_not_bit)

lemma bit_add_pow2:
  assumes "k < 32"
  shows "bit ((c :: u32) + 2 ^ k) k \<longleftrightarrow> \<not> bit c k"
proof -
  have u: "unat (c + 2 ^ k) = (unat c + 2 ^ k) mod 2 ^ 32"
    using unat_add_of_nat [of c "2 ^ k"] by simp
  have "bit (c + 2 ^ k) k \<longleftrightarrow> bit (unat (c + 2 ^ k)) k"
    using assms by (simp add: bit_unsigned_iff)
  also have "\<dots> \<longleftrightarrow> bit (unat c + 2 ^ k) k"
    unfolding u using assms by (metis bit_take_bit_iff take_bit_eq_mod)
  also have "\<dots> \<longleftrightarrow> \<not> bit (unat c) k"
    by (simp add: bit_iff_odd div_add_self2)
  finally show ?thesis using assms by (simp add: bit_unsigned_iff)
qed

lemma parity_flips: "k < 32 \<Longrightarrow> lrpc_parity (2 ^ k) (c + 2 ^ k) \<noteq> lrpc_parity (2 ^ k) c"
  by (simp add: lrpc_parity_def and_pow2_iff bit_add_pow2 LRPC_DONE_PARITY_def)

lemma parity_cases: "lrpc_parity s c = 0 \<or> lrpc_parity s c = LRPC_DONE_PARITY"
  by (simp add: lrpc_parity_def)

text \<open>What a slot holds after a message with a clear parity bit was stored in it.\<close>

lemma store_parity:
  assumes "c AND LRPC_DONE_PARITY = 0"
  shows "(c OR lrpc_parity s t) AND LRPC_DONE_PARITY = lrpc_parity s t"
    and "(c OR lrpc_parity s t) AND LRPC_CMD_MASK = c"
proof -
  have nc: "\<not> bit c 63"
  proof
    assume "bit c 63"
    then have "bit (c AND LRPC_DONE_PARITY) 63"
      by (simp add: LRPC_DONE_PARITY_def bit_and_iff bit_exp_iff del: power_numeral)
    with assms show False by simp
  qed
  show "(c OR lrpc_parity s t) AND LRPC_DONE_PARITY = lrpc_parity s t"
    using assms parity_cases [of s t] by (auto simp: bit.conj_disj_distrib2)
  show "(c OR lrpc_parity s t) AND LRPC_CMD_MASK = c"
    using parity_cases [of s t] nc
    by (auto intro!: bit_eqI
        simp: LRPC_CMD_MASK_def LRPC_DONE_PARITY_def bit_and_iff bit_or_iff bit_not_iff bit_exp_iff
        simp del: power_numeral)
qed

section \<open>Invariant and abstraction\<close>

definition lap_done :: "nat \<Rightarrow> (nat \<Rightarrow> lrpc_msg) \<Rightarrow> u32 \<Rightarrow> bool" where
  "lap_done k tb c \<longleftrightarrow> cmd (tb (ring_slot k c)) AND LRPC_DONE_PARITY = lrpc_parity (2 ^ k) c"

definition lrpc_inv :: "nat \<Rightarrow> lrpc_chan \<Rightarrow> bool" where
  "lrpc_inv k ch \<longleftrightarrow> k < 32 \<and>
     out_size ch = 2 ^ k \<and> out_mask ch = 2 ^ k - 1 \<and> in_size ch = 2 ^ k \<and> in_mask ch = 2 ^ k - 1 \<and>
     in_head_wb ch = in_head ch \<and>
     unat (out_tail ch - out_head ch) \<le> 2 ^ k \<and>
     unat (out_tail ch - in_head ch) \<le> unat (out_tail ch - out_head ch) \<and>
     (\<forall>i < 2 ^ k. lap_done k (tbl ch) (in_head ch + of_nat i) \<longleftrightarrow> i < unat (out_tail ch - in_head ch))"

definition msg_of :: "lrpc_msg \<Rightarrow> u64 \<times> u64" where
  "msg_of m = (cmd m AND LRPC_CMD_MASK, payload m)"

definition lrpc_list :: "nat \<Rightarrow> lrpc_chan \<Rightarrow> (u64 \<times> u64) list" where
  "lrpc_list k ch = map msg_of (ring_list k (tbl ch) (in_head ch) (out_tail ch))"

text \<open>The clients pass commands whose parity bit is clear, as \<^verbatim>\<open>lrpc_send\<close> asserts.\<close>

definition cmd_ok :: "u64 \<times> u64 \<Rightarrow> bool" where
  "cmd_ok m \<longleftrightarrow> fst m AND LRPC_DONE_PARITY = 0"

definition lrpc_put :: "lrpc_chan \<Rightarrow> u64 \<times> u64 \<Rightarrow> bool \<times> lrpc_chan" where
  "lrpc_put ch m = lrpc_send ch (fst m) (snd m)"

section \<open>A channel is a bounded FIFO\<close>

lemma lrpc_inv_unat_size: "k < 32 \<Longrightarrow> unat (2 ^ k :: u32) = 2 ^ k"
  using unat_add_of_nat [of "0 :: u32" "2 ^ k"] pow2_lt_u32 [of k] by simp

lemma tail_full_iff:
  assumes "lrpc_inv k ch"
  shows "out_tail ch - out_head ch \<ge> out_size ch \<longleftrightarrow> unat (out_tail ch - out_head ch) = 2 ^ k"
    and "out_tail ch - in_head ch = out_size ch \<longleftrightarrow> unat (out_tail ch - in_head ch) = 2 ^ k"
proof -
  have k: "k < 32" and sz: "out_size ch = 2 ^ k" and le: "unat (out_tail ch - out_head ch) \<le> 2 ^ k"
    using assms by (simp_all add: lrpc_inv_def)
  show "out_tail ch - out_head ch \<ge> out_size ch \<longleftrightarrow> unat (out_tail ch - out_head ch) = 2 ^ k"
    using le by (auto simp: sz word_le_nat_alt lrpc_inv_unat_size [OF k])
  show "out_tail ch - in_head ch = out_size ch \<longleftrightarrow> unat (out_tail ch - in_head ch) = 2 ^ k"
    by (metis sz lrpc_inv_unat_size [OF k] word_unat_eq_iff)
qed

text \<open>Refreshing the cached head keeps the invariant and the queued messages.\<close>

definition lrpc_reload :: "lrpc_chan \<Rightarrow> lrpc_chan" where
  "lrpc_reload ch = (if out_tail ch - out_head ch \<ge> out_size ch
                     then ch\<lparr>out_head := in_head_wb ch\<rparr> else ch)"

lemma lrpc_reload_simps [simp]:
  "tbl (lrpc_reload ch) = tbl ch" "out_size (lrpc_reload ch) = out_size ch"
  "out_mask (lrpc_reload ch) = out_mask ch" "out_tail (lrpc_reload ch) = out_tail ch"
  "in_head (lrpc_reload ch) = in_head ch" "in_size (lrpc_reload ch) = in_size ch"
  "in_mask (lrpc_reload ch) = in_mask ch" "in_head_wb (lrpc_reload ch) = in_head_wb ch"
  by (simp_all add: lrpc_reload_def)

lemma lrpc_reload_inv: "lrpc_inv k ch \<Longrightarrow> lrpc_inv k (lrpc_reload ch)"
  by (auto simp: lrpc_inv_def lrpc_reload_def)

lemma lrpc_send_unfold:
  assumes "lrpc_inv k ch"
  shows "lrpc_send ch c p =
    (if unat (out_tail ch - in_head ch) = 2 ^ k then (False, lrpc_reload ch)
     else (True, (lrpc_reload ch)\<lparr>out_tail := out_tail ch + 1,
        tbl := (tbl ch)(ring_slot k (out_tail ch) :=
          \<lparr>cmd = c OR lrpc_parity (2 ^ k) (out_tail ch), payload = p\<rparr>)\<rparr>))"
proof -
  have full: "unat (out_tail ch - in_head ch) = 2 ^ k \<Longrightarrow> unat (out_tail ch - out_head ch) = 2 ^ k"
    using assms by (auto simp: lrpc_inv_def)
  have eqs: "out_size ch = 2 ^ k" "out_mask ch = 2 ^ k - 1" "in_head_wb ch = in_head ch"
    using assms by (simp_all add: lrpc_inv_def)
  show ?thesis
    using full tail_full_iff [OF assms]
    by (auto simp: lrpc_send_def lrpc_reload_def Let_def eqs ring_slot_def)
qed

lemma lrpc_send_room:
  assumes inv: "lrpc_inv k ch" and c: "c AND LRPC_DONE_PARITY = 0"
    and room: "unat (out_tail ch - in_head ch) < 2 ^ k"
    and send: "lrpc_send ch c p = (ok, ch')"
  shows "ok" "lrpc_list k ch' = lrpc_list k ch @ [(c, p)]" "lrpc_inv k ch'"
proof -
  let ?t = "out_tail ch" and ?h = "in_head ch" and ?n = "unat (out_tail ch - in_head ch)"
  let ?m = "\<lparr>cmd = c OR lrpc_parity (2 ^ k) ?t, payload = p\<rparr>"
  have k: "k < 32" using inv by (simp add: lrpc_inv_def)
  have inv1: "lrpc_inv k (lrpc_reload ch)" by (rule lrpc_reload_inv [OF inv])
  have ch': "ch' = (lrpc_reload ch)\<lparr>out_tail := ?t + 1, tbl := (tbl ch)(ring_slot k ?t := ?m)\<rparr>"
    and ok: "ok" using send room by (simp_all add: lrpc_send_unfold [OF inv])
  show "ok" by (rule ok)
  have dec: "msg_of ?m = (c, p)" using store_parity(2) [OF c] by (simp add: msg_of_def)
  show "lrpc_list k ch' = lrpc_list k ch @ [(c, p)]"
    using ring_list_put [OF k room, of "tbl ch" ?m] dec by (simp add: lrpc_list_def ch')
  have t: "?t = ?h + of_nat ?n" by (rule tail_as_offset)
  have done_eq: "lap_done k ((tbl ch)(ring_slot k ?t := ?m)) (?h + of_nat i) \<longleftrightarrow> i < Suc ?n"
    if i: "i < 2 ^ k" for i
  proof (cases "i = ?n")
    case True
    then have "?h + of_nat i = ?t" using t by simp
    then show ?thesis using True store_parity(1) [OF c] by (simp add: lap_done_def)
  next
    case False
    then have "ring_slot k (?h + of_nat i) \<noteq> ring_slot k ?t"
      using ring_slot_neq [OF k i room False, of ?h] t by metis
    then have "lap_done k ((tbl ch)(ring_slot k ?t := ?m)) (?h + of_nat i)
        \<longleftrightarrow> lap_done k (tbl ch) (?h + of_nat i)"
      by (simp add: lap_done_def)
    also have "\<dots> \<longleftrightarrow> i < ?n" using inv i by (simp add: lrpc_inv_def)
    finally show ?thesis using False by (simp add: less_Suc_eq)
  qed
  have room1: "unat (?t - out_head (lrpc_reload ch)) < 2 ^ k"
    using inv room tail_full_iff(1) [OF inv] by (auto simp: lrpc_reload_def lrpc_inv_def)
  have suc: "unat (?t + 1 - ?h) = Suc ?n"
      "unat (?t + 1 - out_head (lrpc_reload ch)) = Suc (unat (?t - out_head (lrpc_reload ch)))"
    using room room1 pow2_lt_u32 [OF k] by (simp_all add: unat_plus_one_minus)
  show "lrpc_inv k ch'"
    using inv1 done_eq suc room1 unfolding lrpc_inv_def ch' by auto
qed

lemma lrpc_head_done:
  assumes "lrpc_inv k ch"
  shows "lap_done k (tbl ch) (in_head ch) \<longleftrightarrow> out_tail ch \<noteq> in_head ch"
proof -
  have "lap_done k (tbl ch) (in_head ch + of_nat 0) \<longleftrightarrow> 0 < unat (out_tail ch - in_head ch)"
    using assms unfolding lrpc_inv_def by (metis zero_less_numeral zero_less_power)
  then show ?thesis by (simp add: unat_gt_0)
qed

lemma lrpc_recv_unfold:
  assumes "lrpc_inv k ch"
  shows "lrpc_recv ch = (if out_tail ch = in_head ch then (None, ch)
     else (Some (msg_of (tbl ch (ring_slot k (in_head ch)))),
           ch\<lparr>in_head := in_head ch + 1, in_head_wb := in_head ch + 1\<rparr>))"
proof -
  have eqs: "in_size ch = 2 ^ k" "in_mask ch = 2 ^ k - 1" and k: "k < 32"
    using assms by (simp_all add: lrpc_inv_def)
  from lrpc_head_done [OF assms] show ?thesis
    by (auto simp: lrpc_recv_def Let_def eqs lap_done_def ring_slot_def msg_of_def)
qed

lemma lrpc_empty_iff: "lrpc_inv k ch \<Longrightarrow> lrpc_empty ch \<longleftrightarrow> lrpc_list k ch = []"
  using lrpc_recv_unfold [of k ch]
  by (auto simp: lrpc_list_def ring_list_eq_Nil lrpc_empty_def lrpc_recv_def Let_def split: if_splits)

text \<open>After a receive the freed slot carries the parity of the previous lap, so it is not mistaken
  for a message of the next one.\<close>

lemma lrpc_recv_inv:
  assumes inv: "lrpc_inv k ch" and recv: "lrpc_recv ch = (r, ch')"
  shows "lrpc_inv k ch'"
proof (cases "out_tail ch = in_head ch")
  case True
  with assms show ?thesis by (simp add: lrpc_recv_unfold)
next
  case False
  let ?t = "out_tail ch" and ?h = "in_head ch" and ?n = "unat (out_tail ch - in_head ch)"
  have k: "k < 32" and n: "0 < ?n" "?n \<le> 2 ^ k"
    using inv False by (auto simp: lrpc_inv_def unat_gt_0)
  have ch': "ch' = ch\<lparr>in_head := ?h + 1, in_head_wb := ?h + 1\<rparr>"
    using recv False by (simp add: lrpc_recv_unfold [OF inv])
  have n1: "unat (?t - (?h + 1)) = ?n - 1" by (rule unat_minus_plus_one [OF False])
  have laps: "lap_done k (tbl ch) (?h + 1 + of_nat i) \<longleftrightarrow> i < ?n - 1" if i: "i < 2 ^ k" for i
  proof (cases "Suc i < 2 ^ k")
    case True
    have "lap_done k (tbl ch) (?h + of_nat (Suc i)) \<longleftrightarrow> Suc i < ?n"
      using inv True unfolding lrpc_inv_def by blast
    then show ?thesis by (auto simp: algebra_simps)
  next
    case False
    with i have si: "Suc i = 2 ^ k" by simp
    have c: "?h + 1 + of_nat i = ?h + 2 ^ k"
      using arg_cong [OF si, of "of_nat :: nat \<Rightarrow> u32"] by (simp add: algebra_simps)
    have "ring_slot k (?h + 2 ^ k) = ring_slot k ?h"
      using ring_slot_add [OF k, of ?h "2 ^ k"] ring_slot_add [OF k, of ?h 0] by simp
    moreover have "lap_done k (tbl ch) ?h"
      using lrpc_head_done [OF inv] \<open>?t \<noteq> ?h\<close> by simp
    ultimately have "\<not> lap_done k (tbl ch) (?h + 2 ^ k)"
      using parity_flips [OF k, of ?h] by (simp add: lap_done_def)
    moreover have "\<not> i < ?n - 1" using si n by linarith
    ultimately show ?thesis unfolding c by simp
  qed
  then show ?thesis
    using inv n1 n unfolding lrpc_inv_def ch' by auto
qed

interpretation lrpc_fifo: bounded_fifo lrpc_put lrpc_recv "lrpc_list k" "2 ^ k" "lrpc_inv k" cmd_ok
  for k
proof unfold_locales
  fix q :: lrpc_chan and x ok q' r xs
  show "lrpc_inv k q \<Longrightarrow> length (lrpc_list k q) \<le> 2 ^ k"
    by (simp add: lrpc_inv_def lrpc_list_def)
  show "ok \<and> lrpc_list k q' = lrpc_list k q @ [x]"
    if "lrpc_inv k q" "cmd_ok x" "length (lrpc_list k q) < 2 ^ k" "lrpc_put q x = (ok, q')"
    using lrpc_send_room(1,2) [OF that(1), of "fst x" "snd x" ok q'] that(2-4)
    by (simp add: cmd_ok_def lrpc_put_def lrpc_list_def)
  show "\<not> ok \<and> lrpc_list k q' = lrpc_list k q"
    if "lrpc_inv k q" "length (lrpc_list k q) = 2 ^ k" "lrpc_put q x = (ok, q')"
    using that by (auto simp: lrpc_put_def lrpc_send_unfold lrpc_list_def)
  show "lrpc_inv k q'" if "lrpc_inv k q" "cmd_ok x" "lrpc_put q x = (ok, q')"
  proof (cases "unat (out_tail q - in_head q) < 2 ^ k")
    case True
    with lrpc_send_room(3) [OF that(1), of "fst x" "snd x" ok q'] that(2,3) show ?thesis
      by (simp add: cmd_ok_def lrpc_put_def)
  next
    case False
    with that(1) have "unat (out_tail q - in_head q) = 2 ^ k" by (auto simp: lrpc_inv_def)
    with that(3) lrpc_reload_inv [OF that(1)] show ?thesis
      by (auto simp: lrpc_put_def lrpc_send_unfold [OF that(1)])
  qed
  show "r = None \<and> lrpc_list k q' = []"
    if "lrpc_inv k q" "lrpc_list k q = []" "lrpc_recv q = (r, q')"
    using that by (simp add: lrpc_recv_unfold lrpc_list_def ring_list_eq_Nil split: if_splits)
  show "r = Some x \<and> lrpc_list k q' = xs"
    if "lrpc_inv k q" "lrpc_list k q = x # xs" "lrpc_recv q = (r, q')"
  proof -
    have ne: "out_tail q \<noteq> in_head q" using that(2) by (auto simp: lrpc_list_def)
    with that ring_list_take [OF ne, of k "tbl q"] show ?thesis
      by (auto simp: lrpc_recv_unfold [OF that(1)] lrpc_list_def)
  qed
  show "lrpc_inv k q'" if "lrpc_inv k q" "lrpc_recv q = (r, q')"
    by (rule lrpc_recv_inv [OF that])
qed

section \<open>Initialisation\<close>

lemma pow2_bit:
  assumes "2 ^ k \<le> (n::nat)" "n < 2 ^ Suc k"
  shows "bit n k"
proof -
  have "n div 2 ^ k = 1"
    using assms by (intro div_nat_eqI) (simp_all add: mult.commute)
  then show ?thesis by (simp add: bit_iff_odd)
qed

lemma is_power_of_two_u32:
  assumes "is_power_of_two (x :: u32)"
  obtains k where "k < 32" "x = 2 ^ k"
proof -
  have x: "x \<noteq> 0" "x AND (x - 1) = 0" using assms by (simp_all add: is_power_of_two_def)
  then have pos: "1 \<le> unat x" by (simp add: Suc_le_eq unat_gt_0)
  obtain k where k: "2 ^ k \<le> unat x" "unat x < 2 ^ (k + 1)"
    using ex_power_ivl1 [of 2 "unat x"] pos by auto
  have "(2::nat) ^ k < 2 ^ 32" using k(1) unsigned_less [of x, where ?'a = nat] by simp
  then have k32: "k < 32" by (simp only: power_strict_increasing_iff [of "2::nat"] one_less_numeral_iff semiring_norm)
  have "unat x = 2 ^ k"
  proof (rule ccontr)
    assume "unat x \<noteq> 2 ^ k"
    with k(1) have "2 ^ k \<le> unat (x - 1)" using unat_minus_one [OF x(1)] by simp
    moreover have "unat (x - 1) < 2 ^ Suc k" using unat_minus_one [OF x(1)] k(2) by simp
    ultimately have "bit (unat (x - 1)) k" by (rule pow2_bit)
    moreover have "bit (unat x) k" using k by (intro pow2_bit) simp_all
    ultimately have "bit (x AND (x - 1)) k" using k32 by (simp add: bit_and_iff bit_unsigned_iff)
    with x(2) show False by simp
  qed
  with lrpc_inv_unat_size [OF k32] have "x = 2 ^ k" by (simp add: word_unat_eq_iff)
  with k32 that show thesis by blast
qed

lemma lrpc_init_inv:
  assumes "is_power_of_two sz" "\<forall>i. cmd (tb i) AND LRPC_DONE_PARITY = 0" "lrpc_init ch tb sz = (r, ch')"
  shows "r = 0 \<and> (\<exists>k < 32. sz = 2 ^ k \<and> lrpc_inv k ch' \<and> lrpc_list k ch' = [])"
proof -
  obtain k where k: "k < 32" "sz = 2 ^ k" by (rule is_power_of_two_u32 [OF assms(1)])
  have nd: "\<not> lap_done k tb (of_nat i)" if "i < 2 ^ k" for i
  proof -
    have "\<not> bit (of_nat i :: u32) k"
    proof -
      have "i div 2 ^ k = 0" using that by simp
      then have "\<not> bit i k" by (simp only: bit_iff_odd) simp
      moreover have "unat (of_nat i :: u32) = i"
        using unat_add_of_nat [of "0 :: u32" i] that pow2_lt_u32 [OF k(1)] by simp
      ultimately show ?thesis using bit_unsigned_iff [of "of_nat i :: u32" k, where ?'a = nat] by simp
    qed
    then show ?thesis
      using assms(2) by (simp add: lap_done_def lrpc_parity_def and_pow2_iff LRPC_DONE_PARITY_def)
  qed
  then have "lrpc_inv k ch'" "lrpc_list k ch' = []" "r = 0"
    using assms(1,3) k by (auto simp: lrpc_init_def lrpc_inv_def lrpc_list_def)
  with k show ?thesis by blast
qed

end
