(* ===== verification/Msgq.thy ===== *)
theory Msgq
  imports Lrpc_Chan
begin

text \<open>
  The message queue of \<^verbatim>\<open>utils/include/utils/msgq.h\<close>: the parity scheme of the channels with one
  shared head and a fixed table of 4096 slots. Its full test compares the counters after an
  addition instead of comparing their difference, so it is right only while that addition does not
  wrap; both facts are proved here.
\<close>

definition MSGQ_SIZE :: u32 where "MSGQ_SIZE = 4096"
definition MSGQ_MASK :: u32 where "MSGQ_MASK = MSGQ_SIZE - 1"
definition MSGQ_DONE_PARITY :: u64 where "MSGQ_DONE_PARITY = 2 ^ 63"
definition MSGQ_CMD_MASK :: u64 where "MSGQ_CMD_MASK = NOT MSGQ_DONE_PARITY"

text \<open>\<^verbatim>\<open>struct msg\<close> has the layout of \<^verbatim>\<open>struct lrpc_msg\<close>.\<close>

record msgq =
  mq_data :: "nat \<Rightarrow> lrpc_msg"
  mq_head :: u32
  mq_tail :: u32

definition msgq_empty :: "msgq \<Rightarrow> bool" where
  "msgq_empty q =
     (let m = mq_data q (unat (mq_head q AND MSGQ_MASK));
          parity = (if mq_head q AND MSGQ_SIZE \<noteq> 0 then 0 else MSGQ_DONE_PARITY)
      in cmd m AND MSGQ_DONE_PARITY \<noteq> parity)"

definition msgq_send :: "msgq \<Rightarrow> u64 \<Rightarrow> u64 \<Rightarrow> bool \<times> msgq" where
  "msgq_send q cmd' payload' =
     (if mq_tail q \<ge> mq_head q + MSGQ_SIZE then (False, q)
      else let dst = unat (mq_tail q AND MSGQ_MASK);
               c = cmd' OR (if mq_tail q AND MSGQ_SIZE \<noteq> 0 then 0 else MSGQ_DONE_PARITY)
           in (True, q\<lparr>mq_tail := mq_tail q + 1,
                       mq_data := (mq_data q)(dst := \<lparr>cmd = c, payload = payload'\<rparr>)\<rparr>))"

definition msgq_recv :: "msgq \<Rightarrow> (u64 \<times> u64) option \<times> msgq" where
  "msgq_recv q =
     (let m = mq_data q (unat (mq_head q AND MSGQ_MASK));
          parity = (if mq_head q AND MSGQ_SIZE \<noteq> 0 then 0 else MSGQ_DONE_PARITY)
      in if cmd m AND MSGQ_DONE_PARITY \<noteq> parity then (None, q)
         else (Some (cmd m AND MSGQ_CMD_MASK, payload m), q\<lparr>mq_head := mq_head q + 1\<rparr>))"

definition msgq_init :: "(nat \<Rightarrow> lrpc_msg) \<Rightarrow> int \<times> msgq" where
  "msgq_init ptr = (0, \<lparr>mq_data = ptr, mq_head = 0, mq_tail = 0\<rparr>)"

section \<open>A message queue as a channel\<close>

definition msgq_chan :: "msgq \<Rightarrow> lrpc_chan" where
  "msgq_chan q = \<lparr>tbl = mq_data q, out_size = 2 ^ 12, out_mask = 2 ^ 12 - 1, out_head = mq_head q,
     out_tail = mq_tail q, in_size = 2 ^ 12, in_mask = 2 ^ 12 - 1, in_head = mq_head q,
     in_head_wb = mq_head q\<rparr>"

definition msgq_inv :: "msgq \<Rightarrow> bool" where
  "msgq_inv q \<longleftrightarrow> lrpc_inv 12 (msgq_chan q)"

definition msgq_list :: "msgq \<Rightarrow> (u64 \<times> u64) list" where
  "msgq_list q = lrpc_list 12 (msgq_chan q)"

lemmas msgq_consts = MSGQ_SIZE_def MSGQ_MASK_def MSGQ_DONE_PARITY_def MSGQ_CMD_MASK_def
  LRPC_DONE_PARITY_def LRPC_CMD_MASK_def

lemma msgq_as_lrpc:
  "(if c AND MSGQ_SIZE \<noteq> 0 then 0 else LRPC_DONE_PARITY) = lrpc_parity (2 ^ 12) c"
  "MSGQ_DONE_PARITY = LRPC_DONE_PARITY" "MSGQ_CMD_MASK = LRPC_CMD_MASK" "MSGQ_MASK = 2 ^ 12 - 1"
  by (simp_all add: lrpc_parity_def msgq_consts)

text \<open>The one head counter of a message queue is also what a channel's sender would read back.\<close>

definition chan_sync :: "lrpc_chan \<Rightarrow> lrpc_chan" where
  "chan_sync ch = ch\<lparr>out_head := in_head_wb ch\<rparr>"

lemma chan_sync_inv: "lrpc_inv k ch \<Longrightarrow> lrpc_inv k (chan_sync ch)"
  and chan_sync_list [simp]: "lrpc_list k (chan_sync ch) = lrpc_list k ch"
  by (auto simp: lrpc_inv_def chan_sync_def lrpc_list_def)

lemma msgq_recv_chan:
  "map_prod id chan_sync (lrpc_recv (msgq_chan q)) = map_prod id msgq_chan (msgq_recv q)"
  unfolding lrpc_recv_def msgq_recv_def msgq_as_lrpc by (simp add: msgq_chan_def chan_sync_def Let_def)

lemma msgq_empty_iff: "msgq_inv q \<Longrightarrow> msgq_empty q \<longleftrightarrow> msgq_list q = []"
  using lrpc_empty_iff [of 12 "msgq_chan q"] unfolding lrpc_empty_def msgq_empty_def msgq_as_lrpc
  by (simp add: msgq_inv_def msgq_list_def msgq_chan_def Let_def)

text \<open>Away from the top of the counter range the full test is the channel's.\<close>

lemma msgq_full_test:
  assumes "msgq_inv q" "unat (mq_head q) + 2 ^ 12 < 2 ^ 32"
  shows "mq_tail q \<ge> mq_head q + MSGQ_SIZE \<longleftrightarrow> unat (mq_tail q - mq_head q) = 2 ^ 12"
proof -
  let ?n = "unat (mq_tail q - mq_head q)"
  have n: "?n \<le> 2 ^ 12" using assms(1) by (simp add: msgq_inv_def lrpc_inv_def msgq_chan_def)
  have t: "mq_tail q = mq_head q + of_nat ?n" by (rule tail_as_offset)
  have "unat (mq_head q + of_nat ?n) = unat (mq_head q) + ?n"
    using unat_add_of_nat [of "mq_head q" ?n] n assms(2) by simp
  then have "unat (mq_tail q) = unat (mq_head q) + ?n" using t by simp
  moreover have "unat (mq_head q + MSGQ_SIZE) = unat (mq_head q) + 2 ^ 12"
    using unat_add_of_nat [of "mq_head q" "2 ^ 12"] assms(2) by (simp add: MSGQ_SIZE_def)
  ultimately show ?thesis using n by (auto simp: word_le_nat_alt)
qed

lemma msgq_send_chan:
  assumes "msgq_inv q" "unat (mq_head q) + 2 ^ 12 < 2 ^ 32"
  shows "lrpc_send (msgq_chan q) c p = map_prod id msgq_chan (msgq_send q c p)"
proof -
  have inv: "lrpc_inv 12 (msgq_chan q)" using assms(1) by (simp add: msgq_inv_def)
  have "lrpc_reload (msgq_chan q) = msgq_chan q"
    by (simp add: lrpc_reload_def msgq_chan_def)
  then show ?thesis
    using msgq_full_test [OF assms] unfolding lrpc_send_unfold [OF inv] msgq_send_def msgq_as_lrpc
    by (simp add: msgq_chan_def Let_def ring_slot_def)
qed

section \<open>Properties\<close>

text \<open>while the head counter is below \<open>2 ^ 32 - 4096\<close>, a send on a well-formed message queue
  appends the message exactly when fewer than 4096 are queued and refuses it otherwise, a receive
  removes the oldest message and reports an empty queue exactly when there is none, and both keep
  the queue well formed.\<close>

theorem msgq_fifo:
  assumes "msgq_inv q" "unat (mq_head q) + 2 ^ 12 < 2 ^ 32" "cmd_ok (c, p)"
    and "msgq_send q c p = (ok, q1)" "msgq_recv q = (r, q2)"
  shows "msgq_inv q1 \<and> ok = (length (msgq_list q) < 2 ^ 12) \<and>
         msgq_list q1 = (if ok then msgq_list q @ [(c, p)] else msgq_list q) \<and>
         msgq_inv q2 \<and> r = (case msgq_list q of [] \<Rightarrow> None | m # _ \<Rightarrow> Some m) \<and>
         msgq_list q2 = tl (msgq_list q)"
proof -
  have inv: "lrpc_inv 12 (msgq_chan q)" using assms(1) by (simp add: msgq_inv_def)
  have "lrpc_put (msgq_chan q) (c, p) = (ok, msgq_chan q1)"
    using msgq_send_chan [OF assms(1,2), of c p] assms(4) by (simp add: lrpc_put_def)
  then have st: "impl_step lrpc_put lrpc_recv (msgq_chan q) (Put (c, p)) =
      (if ok then PutOk else PutFull, msgq_chan q1)" by simp
  have cs: "ops_ok cmd_ok [Put (c, p)]" using assms(3) by simp
  obtain ch where tk: "impl_step lrpc_put lrpc_recv (msgq_chan q) Take = (Took r, ch)"
    and ch: "msgq_chan q2 = chan_sync ch"
    using msgq_recv_chan [of q] assms(5) by (cases "lrpc_recv (msgq_chan q)") auto
  have "ops_ok cmd_ok [Take]" by simp
  from lrpc_fifo.step_refines [OF inv cs st] lrpc_fifo.step_refines [OF inv this tk] show ?thesis
    by (cases "msgq_list q")
      (auto simp: msgq_inv_def msgq_list_def ch intro: chan_sync_inv split: if_splits)
qed

lemma msgq_init_inv:
  assumes "\<forall>i. cmd (tb i) AND MSGQ_DONE_PARITY = 0"
  shows "msgq_inv (snd (msgq_init tb))" "msgq_list (snd (msgq_init tb)) = []"
proof -
  have p: "is_power_of_two (4096 :: u32)" by (simp add: is_power_of_two_def)
  let ?ch = "msgq_chan (snd (msgq_init tb))"
  have i: "lrpc_init ?ch tb 4096 = (0, ?ch)"
    using p by (simp add: lrpc_init_def msgq_chan_def msgq_init_def)
  obtain k where k: "(4096 :: u32) = 2 ^ k" "lrpc_inv k ?ch" "lrpc_list k ?ch = []" "k < 32"
    using lrpc_init_inv [OF p _ i] assms by (auto simp: msgq_as_lrpc)
  have "(2::nat) ^ k = 2 ^ 12"
    using arg_cong [OF k(1), of unat] lrpc_inv_unat_size [OF k(4)] by simp
  then have "k = 12" by (simp only: power_inject_exp [of "2::nat"] one_less_numeral_iff semiring_norm)
  with k show "msgq_inv (snd (msgq_init tb))" "msgq_list (snd (msgq_init tb)) = []"
    by (simp_all add: msgq_inv_def msgq_list_def)
qed

theorem msgq_fifo_witness:
  "let q = snd (msgq_init (\<lambda>_. \<lparr>cmd = 0, payload = 0\<rparr>)) in
   msgq_inv (snd (msgq_send q 7 9)) \<and> msgq_list (snd (msgq_send q 7 9)) = [(7, 9)]"
proof -
  let ?q = "snd (msgq_init (\<lambda>_. \<lparr>cmd = 0, payload = 0\<rparr>))"
  have inv: "msgq_inv ?q" "msgq_list ?q = []" by (rule msgq_init_inv; simp)+
  have h: "unat (mq_head ?q) + 2 ^ 12 < 2 ^ 32" by (simp add: msgq_init_def)
  have c: "cmd_ok (7, 9)" by (simp add: cmd_ok_def LRPC_DONE_PARITY_def)
  from msgq_fifo [OF inv(1) h c, of "fst (msgq_send ?q 7 9)" "snd (msgq_send ?q 7 9)"
      "fst (msgq_recv ?q)" "snd (msgq_recv ?q)"] inv
  show ?thesis by (auto simp: Let_def)
qed

text \<open>at the top of the counter range an empty, well-formed message queue refuses every
  message, and since nothing can be received either it stays stuck for good.\<close>

theorem msgq_stuck_at_wrap:
  assumes "msgq_inv q" "msgq_list q = []" "unat (mq_head q) + 2 ^ 12 \<ge> 2 ^ 32"
  shows "msgq_send q c p = (False, q) \<and> msgq_recv q = (None, q)"
proof -
  have t: "mq_tail q = mq_head q"
    using assms(2) by (simp add: msgq_list_def lrpc_list_def msgq_chan_def ring_list_eq_Nil)
  have "unat (mq_head q) < 2 ^ 32" using unsigned_less [of "mq_head q", where ?'a = nat] by simp
  then have "unat (mq_head q + MSGQ_SIZE) = unat (mq_head q) + 2 ^ 12 - 2 ^ 32"
    using unat_add_of_nat [of "mq_head q" "2 ^ 12"] assms(3)
    by (simp add: MSGQ_SIZE_def mod_nat_eqI)
  then have "mq_tail q \<ge> mq_head q + MSGQ_SIZE"
    using t by (simp add: word_le_nat_alt)
  then have "msgq_send q c p = (False, q)" by (simp add: msgq_send_def)
  moreover have "msgq_recv q = (None, q)"
    using msgq_empty_iff [OF assms(1)] assms(2) by (simp add: msgq_empty_def msgq_recv_def Let_def)
  ultimately show ?thesis by simp
qed

definition wrapped_msgq :: msgq where
  "wrapped_msgq = \<lparr>mq_data = \<lambda>_. \<lparr>cmd = MSGQ_DONE_PARITY, payload = 0\<rparr>,
                   mq_head = 2 ^ 32 - 4096, mq_tail = 2 ^ 32 - 4096\<rparr>"

lemma wrapped_msgq_inv: "msgq_inv wrapped_msgq"
proof -
  have "\<not> lap_done 12 (\<lambda>_. \<lparr>cmd = LRPC_DONE_PARITY, payload = 0\<rparr>) (2 ^ 32 - 4096 + of_nat i)"
    if i: "i < 2 ^ 12" for i
  proof -
    let ?c = "2 ^ 32 - 4096 + of_nat i :: u32"
    have "unat ?c = 4294963200 + i" using unat_add_of_nat [of "2 ^ 32 - 4096 :: u32" i] i by simp
    moreover have "bit (4294963200 + i) 12" using i by (simp add: bit_iff_odd div_add1_eq)
    ultimately have "bit ?c 12" using bit_unsigned_iff [of ?c 12, where ?'a = nat] by simp
    then show ?thesis
      using and_pow2_iff [of ?c 12] by (simp add: lap_done_def lrpc_parity_def LRPC_DONE_PARITY_def)
  qed
  then show ?thesis
    by (auto simp: msgq_inv_def lrpc_inv_def msgq_chan_def wrapped_msgq_def msgq_as_lrpc)
qed

theorem msgq_stuck_at_wrap_witness:
  "msgq_list wrapped_msgq = [] \<and> msgq_send wrapped_msgq 1 2 = (False, wrapped_msgq)"
proof -
  have e: "msgq_list wrapped_msgq = []"
    by (simp add: msgq_list_def lrpc_list_def msgq_chan_def wrapped_msgq_def)
  have h: "unat (mq_head wrapped_msgq) + 2 ^ 12 \<ge> 2 ^ 32" by (simp add: wrapped_msgq_def)
  from msgq_stuck_at_wrap [OF wrapped_msgq_inv e h] e show ?thesis by simp
qed

end
