(* ===== verification/Lrpc_Concurrent.thy ===== *)
theory Lrpc_Concurrent
  imports Lrpc_Chan "HOL-Library.Sublist"
begin

text \<open>
  The sender and the receiver of a channel run on different cores. Here each shared-memory access
  of \<^verbatim>\<open>lrpc_send\<close> and \<^verbatim>\<open>lrpc_recv\<close> is a step of its own: the reload of the consumer's head, the
  store of the payload, the releasing store of the command, the acquiring load of the command, the
  load of the payload and the store of the head write-back. The counters and locals that only one
  side touches travel with the step that uses them. The steps of the two sides interleave freely
  (sequential consistency, which the release and acquire accesses give for this data).
\<close>

datatype send_pc =
    S_Idle
  | S_Write u64 u64
  | S_Publish nat u64 "u64 \<times> u64"

datatype recv_pc =
    R_Idle
  | R_Read nat u64
  | R_Wb

record lrpc_sys =
  chan :: lrpc_chan
  spc :: send_pc
  rpc :: recv_pc
  sent :: "(u64 \<times> u64) list"
  rcvd :: "(u64 \<times> u64) list"

inductive lrpc_step :: "lrpc_sys \<Rightarrow> lrpc_sys \<Rightarrow> bool" where
  send_space:
    "\<lbrakk>spc s = S_Idle; c AND LRPC_DONE_PARITY = 0;
      \<not> out_tail (chan s) - out_head (chan s) \<ge> out_size (chan s)\<rbrakk>
     \<Longrightarrow> lrpc_step s (s\<lparr>spc := S_Write c p\<rparr>)"
| send_reload:
    "\<lbrakk>spc s = S_Idle; c AND LRPC_DONE_PARITY = 0;
      out_tail (chan s) - out_head (chan s) \<ge> out_size (chan s);
      out_tail (chan s) - in_head_wb (chan s) \<noteq> out_size (chan s)\<rbrakk>
     \<Longrightarrow> lrpc_step s (s\<lparr>chan := (chan s)\<lparr>out_head := in_head_wb (chan s)\<rparr>, spc := S_Write c p\<rparr>)"
| send_full:
    "\<lbrakk>spc s = S_Idle;
      out_tail (chan s) - out_head (chan s) \<ge> out_size (chan s);
      out_tail (chan s) - in_head_wb (chan s) = out_size (chan s)\<rbrakk>
     \<Longrightarrow> lrpc_step s (s\<lparr>chan := (chan s)\<lparr>out_head := in_head_wb (chan s)\<rparr>\<rparr>)"
| send_payload:
    "\<lbrakk>spc s = S_Write c p; dst = unat (out_tail (chan s) AND out_mask (chan s));
      c' = c OR lrpc_parity (out_size (chan s)) (out_tail (chan s))\<rbrakk>
     \<Longrightarrow> lrpc_step s (s\<lparr>chan := (chan s)\<lparr>out_tail := out_tail (chan s) + 1,
             tbl := (tbl (chan s))(dst := (tbl (chan s) dst)\<lparr>payload := p\<rparr>)\<rparr>,
           spc := S_Publish dst c' (c, p)\<rparr>)"
| send_cmd:
    "spc s = S_Publish dst c' m
     \<Longrightarrow> lrpc_step s (s\<lparr>chan := (chan s)\<lparr>tbl := (tbl (chan s))(dst := (tbl (chan s) dst)\<lparr>cmd := c'\<rparr>)\<rparr>,
           spc := S_Idle, sent := sent s @ [m]\<rparr>)"
| recv_cmd:
    "\<lbrakk>rpc s = R_Idle; src = unat (in_head (chan s) AND in_mask (chan s));
      c = cmd (tbl (chan s) src);
      c AND LRPC_DONE_PARITY = lrpc_parity (in_size (chan s)) (in_head (chan s))\<rbrakk>
     \<Longrightarrow> lrpc_step s (s\<lparr>chan := (chan s)\<lparr>in_head := in_head (chan s) + 1\<rparr>, rpc := R_Read src c\<rparr>)"
| recv_payload:
    "rpc s = R_Read src c
     \<Longrightarrow> lrpc_step s (s\<lparr>rpc := R_Wb,
           rcvd := rcvd s @ [(c AND LRPC_CMD_MASK, payload (tbl (chan s) src))]\<rparr>)"
| recv_wb:
    "rpc s = R_Wb
     \<Longrightarrow> lrpc_step s (s\<lparr>chan := (chan s)\<lparr>in_head_wb := in_head (chan s)\<rparr>, rpc := R_Idle\<rparr>)"

definition lrpc_start :: "lrpc_chan \<Rightarrow> (nat \<Rightarrow> lrpc_msg) \<Rightarrow> u32 \<Rightarrow> lrpc_sys" where
  "lrpc_start ch tb sz = \<lparr>chan = snd (lrpc_init ch tb sz), spc = S_Idle, rpc = R_Idle,
                       sent = [], rcvd = []\<rparr>"

inductive lrpc_reach :: "lrpc_chan \<Rightarrow> (nat \<Rightarrow> lrpc_msg) \<Rightarrow> u32 \<Rightarrow> lrpc_sys \<Rightarrow> bool" for ch tb sz where
  init: "lrpc_reach ch tb sz (lrpc_start ch tb sz)"
| step: "lrpc_reach ch tb sz s \<Longrightarrow> lrpc_step s t \<Longrightarrow> lrpc_reach ch tb sz t"

section \<open>Counters as numbers of messages\<close>

text \<open>The positions of the two sides, counted in messages since the start.\<close>

definition tail_pos :: "lrpc_sys \<Rightarrow> nat" where
  "tail_pos s = length (sent s) + (case spc s of S_Publish _ _ _ \<Rightarrow> 1 | _ \<Rightarrow> 0)"

definition head_pos :: "lrpc_sys \<Rightarrow> nat" where
  "head_pos s = length (rcvd s) + (case rpc s of R_Read _ _ \<Rightarrow> 1 | _ \<Rightarrow> 0)"

definition wb_pos :: "lrpc_sys \<Rightarrow> nat" where
  "wb_pos s = length (rcvd s) - (case rpc s of R_Wb \<Rightarrow> 1 | _ \<Rightarrow> 0)"

definition enc :: "nat \<Rightarrow> nat \<Rightarrow> u64 \<times> u64 \<Rightarrow> lrpc_msg" where
  "enc k j m = \<lparr>cmd = fst m OR lrpc_parity (2 ^ k) (of_nat j), payload = snd m\<rparr>"

definition free_at :: "nat \<Rightarrow> (nat \<Rightarrow> lrpc_msg) \<Rightarrow> nat \<Rightarrow> bool" where
  "free_at k tb j \<longleftrightarrow> cmd (tb (j mod 2 ^ k)) AND LRPC_DONE_PARITY \<noteq> lrpc_parity (2 ^ k) (of_nat j)"

definition sizes_ok :: "nat \<Rightarrow> lrpc_chan \<Rightarrow> bool" where
  "sizes_ok k ch \<longleftrightarrow> out_size ch = 2 ^ k \<and> out_mask ch = 2 ^ k - 1 \<and> in_size ch = 2 ^ k \<and> in_mask ch = 2 ^ k - 1"

definition counters_ok :: "nat \<Rightarrow> lrpc_sys \<Rightarrow> bool" where
  "counters_ok k s \<longleftrightarrow>
     out_tail (chan s) = of_nat (tail_pos s) \<and> in_head (chan s) = of_nat (head_pos s) \<and>
     in_head_wb (chan s) = of_nat (wb_pos s) \<and> head_pos s \<le> length (sent s) \<and>
     (rpc s = R_Wb \<longrightarrow> rcvd s \<noteq> []) \<and>
     (\<exists>d. out_head (chan s) = of_nat d \<and> d \<le> wb_pos s \<and> tail_pos s \<le> d + 2 ^ k \<and>
          (\<forall>c p. spc s = S_Write c p \<longrightarrow> tail_pos s < d + 2 ^ k))"

definition data_ok :: "nat \<Rightarrow> lrpc_sys \<Rightarrow> bool" where
  "data_ok k s \<longleftrightarrow>
     rcvd s = take (length (rcvd s)) (sent s) \<and> (\<forall>m \<in> set (sent s). cmd_ok m) \<and>
     (\<forall>j. wb_pos s \<le> j \<and> j < length (sent s) \<longrightarrow> tbl (chan s) (j mod 2 ^ k) = enc k j (sent s ! j)) \<and>
     (\<forall>j. length (sent s) \<le> j \<and> j < wb_pos s + 2 ^ k \<longrightarrow> free_at k (tbl (chan s)) j)"

definition local_ok :: "nat \<Rightarrow> lrpc_sys \<Rightarrow> bool" where
  "local_ok k s \<longleftrightarrow>
     (\<forall>c p. spc s = S_Write c p \<longrightarrow> c AND LRPC_DONE_PARITY = 0) \<and>
     (\<forall>dst c' m. spc s = S_Publish dst c' m \<longrightarrow>
        cmd_ok m \<and> dst = length (sent s) mod 2 ^ k \<and> c' = cmd (enc k (length (sent s)) m) \<and>
        payload (tbl (chan s) dst) = snd m) \<and>
     (\<forall>src c. rpc s = R_Read src c \<longrightarrow>
        src = length (rcvd s) mod 2 ^ k \<and> c = cmd (tbl (chan s) src))"

definition conc_inv :: "nat \<Rightarrow> lrpc_sys \<Rightarrow> bool" where
  "conc_inv k s \<longleftrightarrow> k < 32 \<and> sizes_ok k (chan s) \<and> counters_ok k s \<and> data_ok k s \<and> local_ok k s"

lemmas pos_defs = tail_pos_def head_pos_def wb_pos_def

lemma conc_inv_simps:
  assumes "conc_inv k s"
  shows "k < 32" "out_size (chan s) = 2 ^ k" "out_mask (chan s) = 2 ^ k - 1"
    "in_size (chan s) = 2 ^ k" "in_mask (chan s) = 2 ^ k - 1"
    "out_tail (chan s) = of_nat (tail_pos s)" "in_head (chan s) = of_nat (head_pos s)"
    "in_head_wb (chan s) = of_nat (wb_pos s)" "head_pos s \<le> length (sent s)"
    "wb_pos s \<le> head_pos s"
  using assms by (auto simp: conc_inv_def sizes_ok_def counters_ok_def pos_defs split: recv_pc.splits)

lemma slot_of_nat: "k < 32 \<Longrightarrow> unat (of_nat j AND (2 ^ k - 1 :: u32)) = j mod 2 ^ k"
  using unat_ring_slot [of k "0 :: u32" j] by simp

lemma unat_diff_of_nat:
  assumes "k < 32" "a \<le> b" "b \<le> a + 2 ^ k"
  shows "unat (of_nat b - of_nat a :: u32) = b - a"
proof -
  have "of_nat b - of_nat a = (of_nat (b - a) :: u32)" using assms(2) by (simp add: of_nat_diff)
  moreover have "b - a < 2 ^ 32" using assms pow2_lt_u32 [OF assms(1)] by linarith
  ultimately show ?thesis using unat_add_of_nat [of "0 :: u32" "b - a"] by simp
qed

lemma full_test:
  assumes "k < 32" "a \<le> b" "b \<le> a + 2 ^ k"
  shows "of_nat b - of_nat a \<ge> (2 ^ k :: u32) \<longleftrightarrow> b = a + 2 ^ k"
    and "of_nat b - of_nat a = (2 ^ k :: u32) \<longleftrightarrow> b = a + 2 ^ k"
  using unat_diff_of_nat [OF assms] lrpc_inv_unat_size [OF assms(1)] assms(2,3)
  by (auto simp: word_le_nat_alt word_unat_eq_iff)

lemma mod_window_neq:
  assumes "(i::nat) < j" "j < i + m"
  shows "i mod m \<noteq> j mod m"
proof
  assume "i mod m = j mod m"
  then have "m dvd j - i" using assms(1) by (metis less_imp_le mod_eq_dvd_iff_nat)
  then show False using assms by (auto dest: dvd_imp_le)
qed

lemma enc_parity: "cmd_ok m \<Longrightarrow> cmd (enc k j m) AND LRPC_DONE_PARITY = lrpc_parity (2 ^ k) (of_nat j)"
  by (simp add: enc_def cmd_ok_def store_parity(1))

lemma enc_decode: "cmd_ok m \<Longrightarrow> (cmd (enc k j m) AND LRPC_CMD_MASK, payload (enc k j m)) = m"
  by (cases m) (simp add: enc_def cmd_ok_def store_parity(2))

lemma free_next_lap:
  assumes "k < 32" "cmd_ok m" "tb (j mod 2 ^ k) = enc k j m"
  shows "free_at k tb (j + 2 ^ k)"
  using assms parity_flips [OF assms(1), of "of_nat j"]
  by (simp add: free_at_def enc_parity)

section \<open>Every access keeps the invariant\<close>

lemma space_test:
  assumes inv: "conc_inv k s"
  obtains d where "out_head (chan s) = of_nat d" "d \<le> wb_pos s" "tail_pos s \<le> d + 2 ^ k"
    "d \<le> tail_pos s" "\<And>c p. spc s = S_Write c p \<Longrightarrow> tail_pos s < d + 2 ^ k"
    "out_tail (chan s) - out_head (chan s) \<ge> out_size (chan s) \<longleftrightarrow> tail_pos s = d + 2 ^ k"
    "out_tail (chan s) - in_head_wb (chan s) = out_size (chan s) \<longleftrightarrow> tail_pos s = wb_pos s + 2 ^ k"
proof -
  note S = conc_inv_simps [OF inv]
  from inv obtain d where d: "out_head (chan s) = of_nat d" "d \<le> wb_pos s" "tail_pos s \<le> d + 2 ^ k"
    "\<And>c p. spc s = S_Write c p \<Longrightarrow> tail_pos s < d + 2 ^ k"
    by (auto simp: conc_inv_def counters_ok_def)
  have le: "wb_pos s \<le> tail_pos s" using S by (auto simp: tail_pos_def)
  with d have "d \<le> tail_pos s" "tail_pos s \<le> wb_pos s + 2 ^ k" by simp_all
  with d le that [of d] full_test [OF S(1), of d "tail_pos s"] full_test [OF S(1), of "wb_pos s" "tail_pos s"] S
  show thesis by auto
qed

lemma inv_send_space:
  assumes inv: "conc_inv k s" and s: "spc s = S_Idle" "c AND LRPC_DONE_PARITY = 0"
    and sp: "\<not> out_tail (chan s) - out_head (chan s) \<ge> out_size (chan s)"
  shows "conc_inv k (s\<lparr>spc := S_Write c p\<rparr>)"
proof -
  obtain d where d: "out_head (chan s) = of_nat d" "d \<le> wb_pos s" "tail_pos s \<le> d + 2 ^ k"
    "out_tail (chan s) - out_head (chan s) \<ge> out_size (chan s) \<longleftrightarrow> tail_pos s = d + 2 ^ k"
    by (rule space_test [OF inv])
  have "tail_pos s < d + 2 ^ k" using d(3,4) sp by simp
  with inv s d(1,2,3) show ?thesis
    unfolding conc_inv_def counters_ok_def data_ok_def local_ok_def by (auto simp: pos_defs)
qed

lemma inv_send_reload:
  assumes inv: "conc_inv k s" and s: "spc s = S_Idle" "c AND LRPC_DONE_PARITY = 0"
    and sp: "out_tail (chan s) - in_head_wb (chan s) \<noteq> out_size (chan s)"
  shows "conc_inv k (s\<lparr>chan := (chan s)\<lparr>out_head := in_head_wb (chan s)\<rparr>, spc := S_Write c p\<rparr>)"
proof -
  obtain d where d: "d \<le> wb_pos s" "tail_pos s \<le> d + 2 ^ k"
    "out_tail (chan s) - in_head_wb (chan s) = out_size (chan s) \<longleftrightarrow> tail_pos s = wb_pos s + 2 ^ k"
    by (rule space_test [OF inv])
  have "tail_pos s < wb_pos s + 2 ^ k" using d sp by simp
  with inv s show ?thesis
    unfolding conc_inv_def counters_ok_def data_ok_def local_ok_def
    by (auto simp: pos_defs sizes_ok_def intro!: exI [of _ "wb_pos s"])
qed

lemma inv_send_full:
  assumes inv: "conc_inv k s" and s: "spc s = S_Idle"
  shows "conc_inv k (s\<lparr>chan := (chan s)\<lparr>out_head := in_head_wb (chan s)\<rparr>\<rparr>)"
proof -
  obtain d where d: "d \<le> wb_pos s" "tail_pos s \<le> d + 2 ^ k" by (rule space_test [OF inv])
  then have "tail_pos s \<le> wb_pos s + 2 ^ k" by simp
  with inv s show ?thesis
    unfolding conc_inv_def counters_ok_def data_ok_def local_ok_def
    by (auto simp: pos_defs sizes_ok_def intro!: exI [of _ "wb_pos s"])
qed

lemma inv_send_payload:
  assumes inv: "conc_inv k s" and s: "spc s = S_Write c p"
    and dst: "dst = unat (out_tail (chan s) AND out_mask (chan s))"
    and c': "c' = c OR lrpc_parity (out_size (chan s)) (out_tail (chan s))"
  shows "conc_inv k (s\<lparr>chan := (chan s)\<lparr>out_tail := out_tail (chan s) + 1,
             tbl := (tbl (chan s))(dst := (tbl (chan s) dst)\<lparr>payload := p\<rparr>)\<rparr>,
           spc := S_Publish dst c' (c, p)\<rparr>)" (is "conc_inv k ?t")
proof -
  note S = conc_inv_simps [OF inv]
  let ?n = "length (sent s)"
  have n: "tail_pos s = ?n" using s by (simp add: tail_pos_def)
  obtain d where d: "out_head (chan s) = of_nat d" "d \<le> wb_pos s" "tail_pos s < d + 2 ^ k"
    using space_test [OF inv] s by metis
  have dst': "dst = ?n mod 2 ^ k" using dst S n by (simp add: slot_of_nat)
  have c'': "c' = cmd (enc k ?n (c, p))" using c' S n by (simp add: enc_def)
  have other: "j mod 2 ^ k \<noteq> dst" if "wb_pos s \<le> j" "j < ?n" for j
    using that d n unfolding dst' by (intro mod_window_neq) simp_all
  have pos: "tail_pos ?t = Suc ?n" "head_pos ?t = head_pos s" "wb_pos ?t = wb_pos s"
    by (simp_all add: pos_defs)
  have "counters_ok k ?t"
    using inv d n unfolding conc_inv_def counters_ok_def pos by (auto intro!: exI [of _ d])
  moreover have "data_ok k ?t"
    using inv other unfolding conc_inv_def data_ok_def pos free_at_def by auto
  moreover have "local_ok k ?t"
    using inv s dst' c'' unfolding conc_inv_def local_ok_def by (auto simp: cmd_ok_def)
  ultimately show ?thesis using inv by (simp add: conc_inv_def sizes_ok_def)
qed

lemma inv_send_cmd:
  assumes inv: "conc_inv k s" and s: "spc s = S_Publish dst c' m"
  shows "conc_inv k (s\<lparr>chan := (chan s)\<lparr>tbl := (tbl (chan s))(dst := (tbl (chan s) dst)\<lparr>cmd := c'\<rparr>)\<rparr>,
           spc := S_Idle, sent := sent s @ [m]\<rparr>)" (is "conc_inv k ?t")
proof -
  note S = conc_inv_simps [OF inv]
  let ?n = "length (sent s)" and ?tb = "tbl (chan s)"
  have n: "tail_pos s = Suc ?n" using s by (simp add: tail_pos_def)
  obtain d where d: "out_head (chan s) = of_nat d" "d \<le> wb_pos s" "tail_pos s \<le> d + 2 ^ k"
    by (rule space_test [OF inv])
  have loc: "cmd_ok m" "dst = ?n mod 2 ^ k" "c' = cmd (enc k ?n m)" "payload (?tb dst) = snd m"
    using inv s unfolding conc_inv_def local_ok_def by blast+
  have new: "(?tb dst)\<lparr>cmd := c'\<rparr> = enc k ?n m"
    using loc by (cases "?tb dst") (simp add: enc_def)
  have wb: "wb_pos s \<le> ?n" using S by simp
  have before: "j mod 2 ^ k \<noteq> dst" if "wb_pos s \<le> j" "j < ?n" for j
    using that d n unfolding loc(2) by (intro mod_window_neq) simp_all
  have after: "j mod 2 ^ k \<noteq> dst" if "?n < j" "j < wb_pos s + 2 ^ k" for j
    using that wb mod_window_neq [of ?n j "2 ^ k"] unfolding loc(2) by simp
  have pos: "tail_pos ?t = Suc ?n" "head_pos ?t = head_pos s" "wb_pos ?t = wb_pos s"
    by (simp_all add: pos_defs)
  have "counters_ok k ?t"
    using inv d n unfolding conc_inv_def counters_ok_def pos by (auto intro!: exI [of _ d])
  moreover have "data_ok k ?t"
    using inv before after new loc(1,2) S(9) unfolding conc_inv_def data_ok_def pos free_at_def
    by (auto simp: nth_append less_Suc_eq head_pos_def Suc_le_eq)
  moreover have "local_ok k ?t"
  proof -
    have "src \<noteq> dst" if "rpc s = R_Read src c" for src c
      using that inv before [of "length (rcvd s)"] S(9)
      by (auto simp: conc_inv_def local_ok_def pos_defs)
    with inv s show ?thesis unfolding conc_inv_def local_ok_def by auto
  qed
  ultimately show ?thesis using inv by (simp add: conc_inv_def sizes_ok_def)
qed

lemma inv_recv_cmd:
  assumes inv: "conc_inv k s" and s: "rpc s = R_Idle"
    and src: "src = unat (in_head (chan s) AND in_mask (chan s))" and c: "c = cmd (tbl (chan s) src)"
    and par: "c AND LRPC_DONE_PARITY = lrpc_parity (in_size (chan s)) (in_head (chan s))"
  shows "conc_inv k (s\<lparr>chan := (chan s)\<lparr>in_head := in_head (chan s) + 1\<rparr>, rpc := R_Read src c\<rparr>)"
    (is "conc_inv k ?t")
proof -
  note S = conc_inv_simps [OF inv]
  let ?r = "length (rcvd s)"
  have h: "head_pos s = ?r" "wb_pos s = ?r" using s by (simp_all add: pos_defs)
  have src': "src = ?r mod 2 ^ k" using src S h by (simp add: slot_of_nat)
  have "\<not> free_at k (tbl (chan s)) ?r"
    using par c src' S h by (simp add: free_at_def)
  then have "?r < length (sent s)"
    using inv h unfolding conc_inv_def data_ok_def by (metis less_add_same_cancel1 not_le_imp_less zero_less_numeral zero_less_power)
  moreover have pos: "tail_pos ?t = tail_pos s" "head_pos ?t = Suc ?r" "wb_pos ?t = ?r"
    using s by (simp_all add: pos_defs)
  ultimately have "counters_ok k ?t"
    using inv h unfolding conc_inv_def counters_ok_def pos by auto
  moreover have "data_ok k ?t"
    using inv h unfolding conc_inv_def data_ok_def pos by simp
  moreover have "local_ok k ?t"
    using inv src' c unfolding conc_inv_def local_ok_def by simp
  ultimately show ?thesis using inv by (simp add: conc_inv_def sizes_ok_def)
qed

lemma inv_recv_payload:
  assumes inv: "conc_inv k s" and s: "rpc s = R_Read src c"
  shows "conc_inv k (s\<lparr>rpc := R_Wb,
           rcvd := rcvd s @ [(c AND LRPC_CMD_MASK, payload (tbl (chan s) src))]\<rparr>)" (is "conc_inv k ?t")
proof -
  note S = conc_inv_simps [OF inv]
  let ?r = "length (rcvd s)"
  have h: "head_pos s = Suc ?r" "wb_pos s = ?r" using s by (simp_all add: pos_defs)
  have lt: "?r < length (sent s)" using S(9) h by simp
  have "src = ?r mod 2 ^ k" "c = cmd (tbl (chan s) src)"
    using inv s by (auto simp: conc_inv_def local_ok_def)
  moreover have "tbl (chan s) (?r mod 2 ^ k) = enc k ?r (sent s ! ?r)" "cmd_ok (sent s ! ?r)"
    using inv lt h unfolding conc_inv_def data_ok_def by auto
  ultimately have got: "(c AND LRPC_CMD_MASK, payload (tbl (chan s) src)) = sent s ! ?r"
    using enc_decode [of "sent s ! ?r" k ?r] by simp
  have pos: "tail_pos ?t = tail_pos s" "head_pos ?t = Suc ?r" "wb_pos ?t = ?r"
    by (simp_all add: pos_defs)
  have "counters_ok k ?t"
    using inv h unfolding conc_inv_def counters_ok_def pos by auto
  moreover have "data_ok k ?t"
    using inv h got take_Suc_conv_app_nth [OF lt] unfolding conc_inv_def data_ok_def pos by auto
  moreover have "local_ok k ?t"
    using inv unfolding conc_inv_def local_ok_def by simp
  ultimately show ?thesis using inv by (simp add: conc_inv_def sizes_ok_def)
qed

lemma inv_recv_wb:
  assumes inv: "conc_inv k s" and s: "rpc s = R_Wb"
  shows "conc_inv k (s\<lparr>chan := (chan s)\<lparr>in_head_wb := in_head (chan s)\<rparr>, rpc := R_Idle\<rparr>)"
    (is "conc_inv k ?t")
proof -
  note S = conc_inv_simps [OF inv]
  let ?r = "length (rcvd s)"
  have h: "head_pos s = ?r" "wb_pos s = ?r - 1" and ne: "0 < ?r"
    using s inv by (auto simp: pos_defs conc_inv_def counters_ok_def)
  have pos: "tail_pos ?t = tail_pos s" "head_pos ?t = ?r" "wb_pos ?t = ?r"
    using s by (simp_all add: pos_defs)
  have lt: "?r - 1 < length (sent s)" using S(9) h(1) ne by linarith
  have "free_at k (tbl (chan s)) (?r - 1 + 2 ^ k)"
    using inv lt h S(1) unfolding conc_inv_def data_ok_def
    by (intro free_next_lap [where m = "sent s ! (?r - 1)"]) auto
  then have "free_at k (tbl (chan s)) j" if "length (sent s) \<le> j" "j < ?r + 2 ^ k" for j
    using that inv h unfolding conc_inv_def data_ok_def
    by (cases "j = ?r - 1 + 2 ^ k") auto
  then have "data_ok k ?t"
    using inv h unfolding conc_inv_def data_ok_def pos by auto
  moreover have "counters_ok k ?t"
    using inv h unfolding conc_inv_def counters_ok_def pos by force
  moreover have "local_ok k ?t"
    using inv unfolding conc_inv_def local_ok_def by simp
  ultimately show ?thesis using inv by (simp add: conc_inv_def sizes_ok_def)
qed

lemma lrpc_step_inv: "lrpc_step s t \<Longrightarrow> conc_inv k s \<Longrightarrow> conc_inv k t"
  by (induction rule: lrpc_step.induct)
    (blast intro: inv_send_space inv_send_reload inv_send_full inv_send_payload inv_send_cmd
      inv_recv_cmd inv_recv_payload inv_recv_wb)+

lemma lrpc_start_inv:
  assumes "is_power_of_two sz" "\<forall>i. cmd (tb i) AND LRPC_DONE_PARITY = 0"
  obtains k where "sz = 2 ^ k" "conc_inv k (lrpc_start ch tb sz)"
proof -
  obtain ch' where i: "lrpc_init ch tb sz = (0, ch')"
    using assms(1) by (simp add: lrpc_init_def)
  obtain k where k: "k < 32" "sz = 2 ^ k" "lrpc_inv k ch'"
    using lrpc_init_inv [OF assms i] by blast
  have f: "free_at k tb j" if "j < 2 ^ k" for j
    using that k i unfolding lrpc_inv_def free_at_def lap_done_def
    by (auto simp: lrpc_init_def ring_slot_def slot_of_nat split: if_splits)
  have "conc_inv k (lrpc_start ch tb sz)"
    using k i f assms(1)
    by (auto simp: conc_inv_def lrpc_start_def sizes_ok_def counters_ok_def data_ok_def local_ok_def
        pos_defs lrpc_init_def split: if_splits)
  with k(2) that show thesis by blast
qed

lemma lrpc_reach_inv:
  assumes "is_power_of_two sz" "\<forall>i. cmd (tb i) AND LRPC_DONE_PARITY = 0" "lrpc_reach ch tb sz s"
  obtains k where "sz = 2 ^ k" "conc_inv k s"
proof -
  obtain k where k: "sz = 2 ^ k" "conc_inv k (lrpc_start ch tb sz)"
    by (rule lrpc_start_inv [OF assms(1,2)])
  from assms(3) have "conc_inv k s"
    by (induction rule: lrpc_reach.induct) (auto intro: k lrpc_step_inv)
  with k(1) that show thesis by blast
qed

text \<open>A concrete run: one message is sent on a channel of two slots.\<close>

definition blank_tbl :: "nat \<Rightarrow> lrpc_msg" where
  "blank_tbl = (\<lambda>_. \<lparr>cmd = 0, payload = 0\<rparr>)"

definition blank_chan :: lrpc_chan where
  "blank_chan = \<lparr>tbl = blank_tbl, out_size = 0, out_mask = 0, out_head = 0, out_tail = 0,
                 in_size = 0, in_mask = 0, in_head = 0, in_head_wb = 0\<rparr>"

lemma two_power: "is_power_of_two (2 :: u32)"
  by (simp add: is_power_of_two_def)

lemma blank_fresh: "\<forall>i. cmd (blank_tbl i) AND LRPC_DONE_PARITY = 0"
  by (simp add: blank_tbl_def)

lemma one_message_run:
  "\<exists>s. lrpc_reach blank_chan blank_tbl 2 s \<and> sent s = [(7, 9)] \<and> rcvd s = [] \<and>
       spc s = S_Idle \<and> rpc s = R_Idle"
proof -
  let ?R = "lrpc_reach blank_chan blank_tbl 2" and ?s0 = "lrpc_start blank_chan blank_tbl 2"
  have c0: "chan ?s0 = \<lparr>tbl = blank_tbl, out_size = 2, out_mask = 1, out_head = 0, out_tail = 0,
      in_size = 2, in_mask = 1, in_head = 0, in_head_wb = 0\<rparr>" "spc ?s0 = S_Idle" "rpc ?s0 = R_Idle"
      "sent ?s0 = []" "rcvd ?s0 = []"
    using two_power by (simp_all add: lrpc_start_def lrpc_init_def)
  have "lrpc_step ?s0 (?s0\<lparr>spc := S_Write 7 9\<rparr>)"
    by (rule lrpc_step.send_space) (simp_all add: c0 LRPC_DONE_PARITY_def)
  then have r1: "?R (?s0\<lparr>spc := S_Write 7 9\<rparr>)"
    by (rule lrpc_reach.step [OF lrpc_reach.init])
  have p1: "spc (?s0\<lparr>spc := S_Write 7 9\<rparr>) = S_Write 7 9" by simp
  note r2 = lrpc_reach.step [OF r1 lrpc_step.send_payload [OF p1 refl refl]]
  show ?thesis
    by (rule exI, rule conjI, rule lrpc_reach.step [OF r2], rule lrpc_step.send_cmd) (simp_all add: c0)
qed

section \<open>Properties\<close>

text \<open>C6: on a channel whose size is a power of two and whose table starts with clear parity bits,
  whatever way the memory accesses of the sender and the receiver interleave, the messages received
  so far are a prefix of the messages sent, and never more than the size of the channel are in
  flight.\<close>

theorem lrpc_interleaving_fifo:
  assumes "is_power_of_two sz" "\<forall>i. cmd (tb i) AND LRPC_DONE_PARITY = 0" "lrpc_reach ch tb sz s"
  shows "prefix (rcvd s) (sent s) \<and> length (sent s) \<le> length (rcvd s) + unat sz"
proof -
  obtain k where k: "sz = 2 ^ k" "conc_inv k s" by (rule lrpc_reach_inv [OF assms])
  have "prefix (rcvd s) (sent s)"
    using k(2) unfolding conc_inv_def data_ok_def by (metis take_is_prefix)
  moreover obtain d where "d \<le> wb_pos s" "tail_pos s \<le> d + 2 ^ k"
    using space_test [OF k(2)] by metis
  then have "length (sent s) \<le> length (rcvd s) + 2 ^ k"
    by (auto simp: pos_defs split: send_pc.splits)
  ultimately show ?thesis using k(1) lrpc_inv_unat_size conc_inv_simps(1) [OF k(2)] by simp
qed

theorem lrpc_interleaving_fifo_witness:
  "\<exists>s. lrpc_reach blank_chan blank_tbl 2 s \<and> sent s = [(7, 9)] \<and>
       prefix (rcvd s) (sent s) \<and> length (sent s) \<le> length (rcvd s) + unat (2 :: u32)"
  using one_message_run lrpc_interleaving_fifo [OF two_power blank_fresh, of blank_chan] by blast

text \<open>C23: in the same setting, a receiver that is about to look at its channel finds it empty exactly
  when it has received everything that was sent, and a sender that reloads the receiver's head finds
  the channel full only when the messages the receiver has not finished with fill it.\<close>

theorem lrpc_no_false_empty_or_full:
  assumes "is_power_of_two sz" "\<forall>i. cmd (tb i) AND LRPC_DONE_PARITY = 0" "lrpc_reach ch tb sz s"
  shows "(rpc s = R_Idle \<longrightarrow> (lrpc_empty (chan s) \<longleftrightarrow> rcvd s = sent s)) \<and>
         (spc s = S_Idle \<longrightarrow>
            (out_tail (chan s) - in_head_wb (chan s) = out_size (chan s) \<longleftrightarrow>
             length (sent s) = wb_pos s + unat sz))"
proof -
  obtain k where k: "sz = 2 ^ k" "conc_inv k s" by (rule lrpc_reach_inv [OF assms])
  note S = conc_inv_simps [OF k(2)]
  have "lrpc_empty (chan s) \<longleftrightarrow> rcvd s = sent s" if i: "rpc s = R_Idle"
  proof -
    let ?r = "length (rcvd s)"
    have h: "head_pos s = ?r" "wb_pos s = ?r" using i by (simp_all add: pos_defs)
    have e: "lrpc_empty (chan s) \<longleftrightarrow> free_at k (tbl (chan s)) ?r"
      using S h by (simp add: lrpc_empty_def free_at_def slot_of_nat)
    have D: "rcvd s = take ?r (sent s)" "\<forall>m \<in> set (sent s). cmd_ok m"
      "\<And>j. wb_pos s \<le> j \<Longrightarrow> j < length (sent s) \<Longrightarrow> tbl (chan s) (j mod 2 ^ k) = enc k j (sent s ! j)"
      "\<And>j. length (sent s) \<le> j \<Longrightarrow> j < wb_pos s + 2 ^ k \<Longrightarrow> free_at k (tbl (chan s)) j"
      using k(2) unfolding conc_inv_def data_ok_def by auto
    show ?thesis
    proof (cases "?r < length (sent s)")
      case True
      then have "\<not> free_at k (tbl (chan s)) ?r"
        using D(2) D(3) [of ?r] h by (simp add: free_at_def enc_parity)
      with True e show ?thesis by auto
    next
      case False
      then have "free_at k (tbl (chan s)) ?r" using D(4) [of ?r] h by simp
      with False e D(1) S(9) h show ?thesis by simp
    qed
  qed
  moreover have "out_tail (chan s) - in_head_wb (chan s) = out_size (chan s) \<longleftrightarrow>
      length (sent s) = wb_pos s + unat sz" if "spc s = S_Idle"
    using that space_test [OF k(2)] k(1) lrpc_inv_unat_size [OF S(1)] by (auto simp: tail_pos_def)
  ultimately show ?thesis by simp
qed

theorem lrpc_no_false_empty_or_full_witness:
  "\<exists>s. lrpc_reach blank_chan blank_tbl 2 s \<and> sent s = [(7, 9)] \<and> \<not> lrpc_empty (chan s)"
  using one_message_run lrpc_no_false_empty_or_full [OF two_power blank_fresh, of blank_chan] by force

end
