(* ===== verification/Tcache.thy ===== *)
theory Tcache
  imports Prelude "HOL-Library.Monad_Syntax" "HOL-Library.Multiset"
begin

text \<open>
  The magazine caches of \<^verbatim>\<open>libos/mm/tcache.c\<close> and \<^verbatim>\<open>skyloft/mm/tcache.h\<close>. A cache keeps one
  loaded and one previous magazine per CPU and a shared pool of full magazines; magazines are lists
  threaded through the free items themselves. The model keeps the item headers as a memory of their own, indexed by the addresses of the items, so a
  magazine is what following \<open>next_item\<close> finds; \<^verbatim>\<open>tcache_create\<close> asserts that an item has room for its header. The backing allocator is reached through
  \<^verbatim>\<open>struct tcache_ops\<close>: the locale \<open>tcache_backend\<close> states what the cache relies on, and the
  memory pool and the stack allocator interpret it.

  \<open>None\<close> as the outcome of an operation is a fault: a write outside an array or a \<^verbatim>\<open>BUG_ON\<close>.
\<close>

section \<open>Data\<close>

type_synonym addr = u64

abbreviation NULL :: addr where "NULL \<equiv> 0"

definition TCACHE_MAX_MAG_SIZE :: nat where "TCACHE_MAX_MAG_SIZE = 64"
definition TCACHE_DEFAULT_MAG_SIZE :: nat where "TCACHE_DEFAULT_MAG_SIZE = 8"

text \<open>The size of a header: two pointers.\<close>

definition TCACHE_MIN_ITEM_SIZE :: u64 where "TCACHE_MIN_ITEM_SIZE = 16"

record tcache_hdr =
  next_item :: addr
  next_mag :: addr

type_synonym hdrs = "addr \<Rightarrow> tcache_hdr"

text \<open>The backing operations work on their own data and on the memory of the items: \<open>alloc\<close> of
  \<open>nr\<close> items gives \<open>None\<close> for a negative result, or the filled array.\<close>

record 'p tcache_ops =
  alloc_op :: "'p \<Rightarrow> hdrs \<Rightarrow> nat \<Rightarrow> (addr list option \<times> 'p \<times> hdrs) option"
  free_op :: "'p \<Rightarrow> hdrs \<Rightarrow> addr list \<Rightarrow> ('p \<times> hdrs) option"

record tcache_percpu =
  rounds :: u32
  capacity :: u32
  loaded :: addr
  previous :: addr

record 'p tcache =
  tc_name :: string
  tc_ops :: "'p tcache_ops"
  item_size :: u64
  mags_allocated :: int
  mag_size :: u32
  shared_mags :: addr
  tc_data :: 'p

text \<open>One cache with its handles on every CPU, the memory of its items, and the per-CPU
  statistics.\<close>

record 'p tcache_sys =
  tc :: "'p tcache"
  ltc :: "nat \<Rightarrow> tcache_percpu"
  hdr :: hdrs
  mag_alloc :: "nat \<Rightarrow> u64"
  mag_free :: "nat \<Rightarrow> u64"
  pool_alloc :: "nat \<Rightarrow> u64"
  pool_free :: "nat \<Rightarrow> u64"

section \<open>Operations\<close>

definition set_next_item :: "addr \<Rightarrow> addr \<Rightarrow> hdrs \<Rightarrow> hdrs" where
  "set_next_item x y h = h(x := (h x)\<lparr>next_item := y\<rparr>)"

definition set_next_mag :: "addr \<Rightarrow> addr \<Rightarrow> hdrs \<Rightarrow> hdrs" where
  "set_next_mag x y h = h(x := (h x)\<lparr>next_mag := y\<rparr>)"

text \<open>The loop of \<^verbatim>\<open>tcache_alloc_mag\<close> that threads the array into a list.\<close>

fun link_items :: "addr list \<Rightarrow> hdrs \<Rightarrow> hdrs" where
  "link_items [] h = h"
| "link_items [x] h = set_next_item x NULL h"
| "link_items (x # y # xs) h = link_items (y # xs) (set_next_item x y h)"

definition tcache_alloc_mag :: "'p tcache_sys \<Rightarrow> nat \<Rightarrow> (addr \<times> 'p tcache_sys) option" where
  "tcache_alloc_mag s cpu =
     (let s = s\<lparr>mag_alloc := (mag_alloc s)(cpu := mag_alloc s cpu + 1)\<rparr>;
          nr = unat (mag_size (tc s))
      in if nr > TCACHE_MAX_MAG_SIZE then None
         else do {
           (items, d, h) \<leftarrow> alloc_op (tc_ops (tc s)) (tc_data (tc s)) (hdr s) nr;
           case items of
             None \<Rightarrow> Some (NULL, s\<lparr>tc := (tc s)\<lparr>tc_data := d\<rparr>, hdr := h\<rparr>)
           | Some xs \<Rightarrow>
               Some (hd xs, s\<lparr>tc := (tc s)\<lparr>tc_data := d, mags_allocated := mags_allocated (tc s) + 1\<rparr>,
                              hdr := link_items xs h\<rparr>)
         })"

text \<open>The loop of \<^verbatim>\<open>tcache_free_mag\<close> collects the list in an array of
  \<open>TCACHE_MAX_MAG_SIZE\<close> entries.\<close>

function collect_mag :: "hdrs \<Rightarrow> nat \<Rightarrow> addr \<Rightarrow> addr list option" where
  "collect_mag h nr p =
     (if nr \<ge> TCACHE_MAX_MAG_SIZE then None
      else if next_item (h p) = NULL then Some [p]
      else map_option ((#) p) (collect_mag h (nr + 1) (next_item (h p))))"
  by pat_completeness auto
termination
  by (relation "measure (\<lambda>(h, nr, p). TCACHE_MAX_MAG_SIZE - nr)") auto

declare collect_mag.simps [simp del]

definition tcache_free_mag :: "'p tcache_sys \<Rightarrow> nat \<Rightarrow> addr \<Rightarrow> 'p tcache_sys option" where
  "tcache_free_mag s cpu p =
     (let s = s\<lparr>mag_free := (mag_free s)(cpu := mag_free s cpu + 1)\<rparr>
      in do {
        items \<leftarrow> collect_mag (hdr s) 0 p;
        (d, h) \<leftarrow> free_op (tc_ops (tc s)) (tc_data (tc s)) (hdr s) items;
        Some (s\<lparr>tc := (tc s)\<lparr>tc_data := d, mags_allocated := mags_allocated (tc s) - 1\<rparr>,
                hdr := h\<rparr>)
      })"

text \<open>The label \<open>alloc:\<close> of the slow path.\<close>

definition reload_mag :: "'p tcache_sys \<Rightarrow> nat \<Rightarrow> addr \<times> 'p tcache_sys" where
  "reload_mag s cpu =
     (let l = ltc s cpu
      in (loaded l,
          s\<lparr>ltc := (ltc s)(cpu := l\<lparr>rounds := capacity l - 1,
                                     loaded := next_item (hdr s (loaded l))\<rparr>)\<rparr>))"

definition tcache_alloc_slow :: "'p tcache_sys \<Rightarrow> nat \<Rightarrow> (addr \<times> 'p tcache_sys) option" where
  "tcache_alloc_slow s cpu =
     (let l = ltc s cpu
      in if previous l \<noteq> NULL
         then Some (reload_mag
                (s\<lparr>ltc := (ltc s)(cpu := l\<lparr>loaded := previous l, previous := NULL\<rparr>)\<rparr>) cpu)
         else
           let s = s\<lparr>pool_alloc := (pool_alloc s)(cpu := pool_alloc s cpu + 1)\<rparr>;
               m = shared_mags (tc s);
               s = s\<lparr>ltc := (ltc s)(cpu := l\<lparr>loaded := m\<rparr>)\<rparr>
           in if m \<noteq> NULL
              then Some (reload_mag
                     (s\<lparr>tc := (tc s)\<lparr>shared_mags := next_mag (hdr s m)\<rparr>\<rparr>) cpu)
              else do {
                (m, s) \<leftarrow> tcache_alloc_mag s cpu;
                let s = s\<lparr>ltc := (ltc s)(cpu := (ltc s cpu)\<lparr>loaded := m\<rparr>)\<rparr>;
                if m = NULL then Some (NULL, s) else Some (reload_mag s cpu)
              })"

definition tcache_alloc :: "'p tcache_sys \<Rightarrow> nat \<Rightarrow> (addr \<times> 'p tcache_sys) option" where
  "tcache_alloc s cpu =
     (let l = ltc s cpu; item = loaded l
      in if rounds l = 0 then tcache_alloc_slow s cpu
         else Some (item,
                s\<lparr>ltc := (ltc s)(cpu := l\<lparr>rounds := rounds l - 1,
                                           loaded := next_item (hdr s (loaded l))\<rparr>)\<rparr>))"

definition tcache_free_slow :: "'p tcache_sys \<Rightarrow> nat \<Rightarrow> addr \<Rightarrow> 'p tcache_sys" where
  "tcache_free_slow s cpu item =
     (let l = ltc s cpu;
          s = (if previous l = NULL then s
               else s\<lparr>pool_free := (pool_free s)(cpu := pool_free s cpu + 1),
                      hdr := set_next_mag (previous l) (shared_mags (tc s)) (hdr s),
                      tc := (tc s)\<lparr>shared_mags := previous l\<rparr>\<rparr>)
      in s\<lparr>hdr := set_next_item item NULL (hdr s),
           ltc := (ltc s)(cpu := l\<lparr>previous := loaded l, rounds := 1, loaded := item\<rparr>)\<rparr>)"

definition tcache_free :: "'p tcache_sys \<Rightarrow> nat \<Rightarrow> addr \<Rightarrow> 'p tcache_sys" where
  "tcache_free s cpu item =
     (let l = ltc s cpu
      in if rounds l \<ge> capacity l then tcache_free_slow s cpu item
         else s\<lparr>hdr := set_next_item item (loaded l) (hdr s),
                ltc := (ltc s)(cpu := l\<lparr>rounds := rounds l + 1, loaded := item\<rparr>)\<rparr>)"

definition tcache_create ::
  "bool \<Rightarrow> string \<Rightarrow> 'p tcache_ops \<Rightarrow> u32 \<Rightarrow> u64 \<Rightarrow> 'p \<Rightarrow> 'p tcache list
     \<Rightarrow> ('p tcache option \<times> 'p tcache list) option" where
  "tcache_create malloc_ok name ops mag_size' item_size' data tcache_list =
     (if item_size' < TCACHE_MIN_ITEM_SIZE \<or> unat mag_size' > TCACHE_MAX_MAG_SIZE then None
      else if \<not> malloc_ok then Some (None, tcache_list)
      else let t = \<lparr>tc_name = name, tc_ops = ops, item_size = item_size', mags_allocated = 0,
                    mag_size = mag_size', shared_mags = NULL, tc_data = data\<rparr>
           in Some (Some t, tcache_list @ [t]))"

lemma tcache_create_some:
  assumes "tcache_create malloc_ok name ops ms sz data tcs = Some (Some t, tcs')"
  shows "t = \<lparr>tc_name = name, tc_ops = ops, item_size = sz, mags_allocated = 0, mag_size = ms, shared_mags = NULL, tc_data = data\<rparr>"
    "TCACHE_MIN_ITEM_SIZE \<le> sz" "unat ms \<le> TCACHE_MAX_MAG_SIZE"
  using assms by (auto simp: tcache_create_def Let_def split: if_splits)

definition tcache_init_percpu :: "'p tcache_sys \<Rightarrow> nat \<Rightarrow> 'p tcache_sys" where
  "tcache_init_percpu s cpu =
     s\<lparr>ltc := (ltc s)(cpu := \<lparr>rounds = 0, capacity = mag_size (tc s),
                                loaded = NULL, previous = NULL\<rparr>)\<rparr>"

text \<open>The loop of \<^verbatim>\<open>tcache_reclaim\<close>: it need not end on a cyclic list, so it is a partial function
  whose value is \<open>None\<close> then.\<close>

partial_function (option) reclaim_mags :: "'p tcache_sys \<Rightarrow> nat \<Rightarrow> addr \<Rightarrow> 'p tcache_sys option"
  where
  "reclaim_mags s cpu p =
     (if p = NULL then Some s
      else Option.bind (tcache_free_mag s cpu p)
             (\<lambda>s'. reclaim_mags s' cpu (next_mag (hdr s p))))"

definition tcache_reclaim :: "'p tcache_sys \<Rightarrow> nat \<Rightarrow> 'p tcache_sys option" where
  "tcache_reclaim s cpu =
     reclaim_mags (s\<lparr>tc := (tc s)\<lparr>shared_mags := NULL\<rparr>\<rparr>) cpu (shared_mags (tc s))"

text \<open>What \<^verbatim>\<open>tcache_print_usage\<close> logs: kilobytes per cache, and the total.\<close>

definition tcache_usage :: "'p tcache \<Rightarrow> u64" where
  "tcache_usage t = ucast (mag_size t) * item_size t * of_int (mags_allocated t)"

definition tcache_print_usage :: "'p tcache list \<Rightarrow> (u64 \<times> string) list \<times> u64" where
  "tcache_print_usage l =
     (map (\<lambda>t. (tcache_usage t div 1024, tc_name t)) l, foldl (+) 0 (map tcache_usage l) div 1024)"

text \<open>The clients of a cache: the states reached from \<open>s0\<close> when any CPU below \<open>n\<close> allocates, frees
  an item that a client holds, or reclaims; the set is what the clients hold.\<close>

inductive tc_reach :: "nat \<Rightarrow> 'p tcache_sys \<Rightarrow> 'p tcache_sys \<Rightarrow> addr set \<Rightarrow> bool"
  for n :: nat and s0 :: "'p tcache_sys" where
  start: "tc_reach n s0 s0 {}"
| alloc: "tc_reach n s0 s L \<Longrightarrow> c < n \<Longrightarrow> tcache_alloc s c = Some (x, s') \<Longrightarrow> x \<noteq> NULL \<Longrightarrow>
    tc_reach n s0 s' (insert x L)"
| fail: "tc_reach n s0 s L \<Longrightarrow> c < n \<Longrightarrow> tcache_alloc s c = Some (NULL, s') \<Longrightarrow> tc_reach n s0 s' L"
| free: "tc_reach n s0 s L \<Longrightarrow> c < n \<Longrightarrow> x \<in> L \<Longrightarrow> tc_reach n s0 (tcache_free s c x) (L - {x})"
| reclaim: "tc_reach n s0 s L \<Longrightarrow> c < n \<Longrightarrow> tcache_reclaim s c = Some s' \<Longrightarrow> tc_reach n s0 s' L"

text \<open>A new cache whose handles are initialised on the CPUs below \<open>n\<close>.\<close>

definition tcache_boot :: "'p tcache \<Rightarrow> hdrs \<Rightarrow> nat \<Rightarrow> 'p tcache_sys" where
  "tcache_boot t h n =
     fold (\<lambda>c s. tcache_init_percpu s c) [0..<n]
       \<lparr>tc = t, ltc = (\<lambda>_. \<lparr>rounds = 0, capacity = 0, loaded = NULL, previous = NULL\<rparr>), hdr = h,
        mag_alloc = (\<lambda>_. 0), mag_free = (\<lambda>_. 0), pool_alloc = (\<lambda>_. 0), pool_free = (\<lambda>_. 0)\<rparr>"

section \<open>Lists threaded through the items\<close>

fun chain :: "hdrs \<Rightarrow> addr \<Rightarrow> addr list \<Rightarrow> bool" where
  "chain h p [] \<longleftrightarrow> p = NULL"
| "chain h p (x # xs) \<longleftrightarrow> p = x \<and> x \<noteq> NULL \<and> chain h (next_item (h x)) xs"

fun mag_chain :: "hdrs \<Rightarrow> addr \<Rightarrow> addr list list \<Rightarrow> bool" where
  "mag_chain h p [] \<longleftrightarrow> p = NULL"
| "mag_chain h p (m # ms) \<longleftrightarrow> m \<noteq> [] \<and> chain h p m \<and> mag_chain h (next_mag (h p)) ms"

lemma chain_cong:
  "(\<And>x. x \<in> set xs \<Longrightarrow> next_item (h' x) = next_item (h x)) \<Longrightarrow> chain h' p xs = chain h p xs"
  by (induction xs arbitrary: p) auto

lemma chain_NULL [simp]: "chain h NULL xs \<longleftrightarrow> xs = []"
  by (cases xs) auto

lemma chain_nonNULL: "chain h p xs \<Longrightarrow> p \<noteq> NULL \<longleftrightarrow> xs \<noteq> []"
  by (cases xs) auto

lemma chain_Cons_D: "chain h p xs \<Longrightarrow> p \<noteq> NULL \<Longrightarrow> \<exists>ys. xs = p # ys \<and> chain h (next_item (h p)) ys"
  by (cases xs) auto

lemma mag_chain_cong:
  assumes "\<And>m x. m \<in> set ms \<Longrightarrow> x \<in> set m \<Longrightarrow> h' x = h x"
  shows "mag_chain h' p ms = mag_chain h p ms"
  using assms
proof (induction ms arbitrary: p)
  case (Cons m ms)
  have "chain h' p m = chain h p m"
    by (rule chain_cong) (simp add: Cons.prems [of m])
  moreover have "chain h p m \<Longrightarrow> m \<noteq> [] \<Longrightarrow> h' p = h p"
    using Cons.prems [of m p] by (cases m) auto
  moreover have "mag_chain h' q ms = mag_chain h q ms" for q
    by (rule Cons.IH) (meson Cons.prems list.set_intros(2))
  ultimately show ?case by (metis mag_chain.simps(2))
qed simp

lemma chain_set_next_item [simp]:
  "x \<notin> set xs \<Longrightarrow> chain (set_next_item x y h) p xs = chain h p xs"
  by (rule chain_cong) (auto simp: set_next_item_def)

lemma chain_set_next_mag [simp]: "chain (set_next_mag x y h) p xs = chain h p xs"
  by (rule chain_cong) (auto simp: set_next_mag_def)

lemma mag_chain_set_next_item [simp]:
  "x \<notin> \<Union> (set (map set ms)) \<Longrightarrow> mag_chain (set_next_item x y h) p ms = mag_chain h p ms"
  by (rule mag_chain_cong) (auto simp: set_next_item_def)

lemma mag_chain_set_next_mag [simp]:
  "x \<notin> \<Union> (set (map set ms)) \<Longrightarrow> mag_chain (set_next_mag x y h) p ms = mag_chain h p ms"
  by (rule mag_chain_cong) (auto simp: set_next_mag_def)

lemma link_items_other: "x \<notin> set xs \<Longrightarrow> link_items xs h x = h x"
  by (induction xs h rule: link_items.induct) (auto simp: set_next_item_def)

lemma link_items_chain:
  "distinct xs \<Longrightarrow> NULL \<notin> set xs \<Longrightarrow> xs \<noteq> [] \<Longrightarrow> chain (link_items xs h) (hd xs) xs"
proof (induction xs h rule: link_items.induct)
  case (3 x y xs h)
  then have "next_item (link_items (y # xs) (set_next_item x y h) x) = y"
    by (simp add: link_items_other set_next_item_def)
  with 3 show ?case by simp
qed (auto simp: set_next_item_def)

lemma collect_mag_chain:
  assumes "chain h p xs" "xs \<noteq> []" "nr + length xs \<le> TCACHE_MAX_MAG_SIZE"
  shows "collect_mag h nr p = Some xs"
  using assms
proof (induction xs arbitrary: p nr)
  case (Cons x xs)
  then show ?case
    by (cases xs) (auto simp: collect_mag.simps [of h nr])
qed simp

section \<open>The items a cache holds\<close>

definition cached ::
  "nat \<Rightarrow> addr list list \<Rightarrow> (nat \<Rightarrow> addr list) \<Rightarrow> (nat \<Rightarrow> addr list) \<Rightarrow> addr multiset" where
  "cached n sh lo pr = mset (concat sh) + (\<Sum>c<n. mset (lo c) + mset (pr c))"

lemma cached_upd:
  assumes "c < n"
  shows "cached n sh (lo(c := xs)) (pr(c := ys)) + (mset (lo c) + mset (pr c))
       = cached n sh lo pr + (mset xs + mset ys)"
proof -
  let ?f = "\<lambda>lo pr i. mset (lo i) + mset (pr i :: addr list) :: addr multiset"
  have split: "(\<Sum>i<n. ?f lo pr i) = ?f lo pr c + (\<Sum>i\<in>{..<n} - {c}. ?f lo pr i)" for lo pr
    using assms by (simp add: sum.remove)
  have "(\<Sum>i\<in>{..<n} - {c}. ?f (lo(c := xs)) (pr(c := ys)) i) = (\<Sum>i\<in>{..<n} - {c}. ?f lo pr i)"
    by (rule sum.cong) auto
  then show ?thesis by (simp add: cached_def split)
qed

lemma cached_split:
  assumes "c < n"
  shows "\<exists>M. cached n sh lo pr = mset (concat sh) + (mset (lo c) + mset (pr c)) + M"
proof -
  have "(\<Sum>i<n. mset (lo i) + mset (pr i))
      = (mset (lo c) + mset (pr c)) + (\<Sum>i\<in>{..<n} - {c}. mset (lo i) + mset (pr i))"
    using assms by (simp add: sum.remove)
  then show ?thesis
    by (auto simp: cached_def intro!: exI [of _ "\<Sum>i\<in>{..<n} - {c}. mset (lo i) + mset (pr i)"])
qed

lemma in_cached_iff:
  "x \<in># cached n sh lo pr \<longleftrightarrow>
     (\<exists>m\<in>set sh. x \<in> set m) \<or> (\<exists>c<n. x \<in> set (lo c) \<or> x \<in> set (pr c))"
  by (auto simp: cached_def set_mset_sum)

lemma distinct_iff_count: "distinct xs \<longleftrightarrow> (\<forall>x. count (mset xs) x \<le> 1)"
proof
  assume "\<forall>x. count (mset xs) x \<le> 1"
  moreover have "x \<in> set xs \<Longrightarrow> 1 \<le> count (mset xs) x" for x
    by (simp add: Suc_le_eq count_greater_zero_iff)
  moreover have "x \<notin> set xs \<Longrightarrow> count (mset xs) x = 0" for x by simp
  ultimately show "distinct xs" by (auto simp: distinct_count_atmost_1 intro: le_antisym)
qed (simp add: distinct_count_atmost_1)

section \<open>Invariant\<close>

text \<open>A CPU's handle: the loaded magazine has \<open>rounds\<close> items, the previous one is absent or full.\<close>

definition ltc_ok :: "u32 \<Rightarrow> hdrs \<Rightarrow> tcache_percpu \<Rightarrow> addr list \<Rightarrow> addr list \<Rightarrow> bool" where
  "ltc_ok ms h l lo pr \<longleftrightarrow>
     capacity l = ms \<and> rounds l \<le> ms \<and>
     chain h (loaded l) lo \<and> length lo = unat (rounds l) \<and>
     chain h (previous l) pr \<and> (pr \<noteq> [] \<longrightarrow> length pr = unat ms)"

definition mags_ok ::
  "nat \<Rightarrow> 'p tcache_sys \<Rightarrow> addr list list \<Rightarrow> (nat \<Rightarrow> addr list) \<Rightarrow> (nat \<Rightarrow> addr list) \<Rightarrow> bool" where
  "mags_ok n s sh lo pr \<longleftrightarrow>
     mag_chain (hdr s) (shared_mags (tc s)) sh \<and>
     (\<forall>m\<in>set sh. length m = unat (mag_size (tc s))) \<and>
     (\<forall>c<n. ltc_ok (mag_size (tc s)) (hdr s) (ltc s c) (lo c) (pr c))"

text \<open>\<open>L\<close> is the set of items that clients of the cache hold. The items that the backing allocator
  has handed out are those and the cached ones, and they are counted by \<open>mags_allocated\<close>.\<close>

definition tc_at ::
  "'p tcache_ops \<Rightarrow> ('p \<Rightarrow> bool) \<Rightarrow> ('p \<Rightarrow> addr set) \<Rightarrow> nat \<Rightarrow> 'p tcache_sys \<Rightarrow> addr set
     \<Rightarrow> addr list list \<Rightarrow> (nat \<Rightarrow> addr list) \<Rightarrow> (nat \<Rightarrow> addr list) \<Rightarrow> bool" where
  "tc_at ops pinv outst n s L sh lo pr \<longleftrightarrow>
     tc_ops (tc s) = ops \<and> pinv (tc_data (tc s)) \<and>
     0 < mag_size (tc s) \<and> unat (mag_size (tc s)) \<le> TCACHE_MAX_MAG_SIZE \<and>
     mags_ok n s sh lo pr \<and>
     (\<forall>x. count (cached n sh lo pr) x \<le> 1) \<and>
     L \<inter> set_mset (cached n sh lo pr) = {} \<and>
     outst (tc_data (tc s)) = L \<union> set_mset (cached n sh lo pr) \<and>
     NULL \<notin> L \<and>
     int (card (outst (tc_data (tc s)))) = mags_allocated (tc s) * int (unat (mag_size (tc s)))"

definition tc_inv ::
  "'p tcache_ops \<Rightarrow> ('p \<Rightarrow> bool) \<Rightarrow> ('p \<Rightarrow> addr set) \<Rightarrow> nat \<Rightarrow> 'p tcache_sys \<Rightarrow> addr set \<Rightarrow> bool" where
  "tc_inv ops pinv outst n s L \<longleftrightarrow> (\<exists>sh lo pr. tc_at ops pinv outst n s L sh lo pr)"

lemma ltc_ok_cong:
  assumes "\<And>x. x \<in> set lo \<union> set pr \<Longrightarrow> next_item (h' x) = next_item (h x)"
  shows "ltc_ok ms h' l lo pr = ltc_ok ms h l lo pr"
proof -
  have "chain h' p lo = chain h p lo" "chain h' p pr = chain h p pr" for p
    by (auto intro!: chain_cong assms)
  then show ?thesis by (simp add: ltc_ok_def)
qed

lemma mags_ok_frame:
  assumes "mags_ok n s sh lo pr"
    and "\<And>x. x \<in># cached n sh lo pr \<Longrightarrow> h' x = hdr s x"
  shows "mags_ok n (s\<lparr>hdr := h'\<rparr>) sh lo pr"
proof -
  have "mag_chain h' p sh = mag_chain (hdr s) p sh" for p
    by (rule mag_chain_cong) (auto intro!: assms(2) simp: in_cached_iff)
  moreover have "ltc_ok ms h' l (lo c) (pr c) = ltc_ok ms (hdr s) l (lo c) (pr c)" if "c < n" for ms l c
    by (rule ltc_ok_cong) (use that in \<open>auto intro!: arg_cong [where f = next_item] assms(2) simp: in_cached_iff\<close>)
  ultimately show ?thesis using assms(1) by (simp add: mags_ok_def)
qed

lemma mags_ok_ltc:
  assumes "mags_ok n s sh lo pr"
    and "ltc_ok (mag_size (tc s)) (hdr s) l xs ys"
  shows "mags_ok n (s\<lparr>ltc := (ltc s)(c := l)\<rparr>) sh (lo(c := xs)) (pr(c := ys))"
  using assms by (simp add: mags_ok_def)

lemma count_le_1_disjoint:
  assumes "\<forall>x. count (A + B) x \<le> 1"
  shows "set_mset A \<inter> set_mset B = {}"
proof (rule ccontr)
  assume "set_mset A \<inter> set_mset B \<noteq> {}"
  then obtain x where "x \<in># A" "x \<in># B" by blast
  then have "count A x \<ge> 1" "count B x \<ge> 1" by (simp_all add: Suc_le_eq)
  with assms [rule_format, of x] show False by simp
qed

lemma tc_at_card:
  "tc_at ops pinv outst n s L sh lo pr \<Longrightarrow>
     int (card (outst (tc_data (tc s)))) = mags_allocated (tc s) * int (unat (mag_size (tc s)))"
  unfolding tc_at_def by blast

definition tc_same :: "'p tcache \<Rightarrow> 'p tcache \<Rightarrow> bool" where
  "tc_same t t' \<longleftrightarrow> tc_ops t = tc_ops t' \<and> tc_data t = tc_data t' \<and> mag_size t = mag_size t' \<and>
     mags_allocated t = mags_allocated t'"

text \<open>Moving one item between the cache and its clients, without a call of the allocator.\<close>

lemma tc_at_take:
  assumes "tc_at ops pinv outst n s L sh lo pr"
    and "mags_ok n s' sh' lo' pr'"
    and "cached n sh lo pr = add_mset x (cached n sh' lo' pr')"
    and "tc_same (tc s') (tc s)" "x \<noteq> NULL"
  shows "x \<notin> L \<and> tc_at ops pinv outst n s' (insert x L) sh' lo' pr'"
proof -
  have le: "\<forall>y. count (cached n sh lo pr) y \<le> 1" using assms(1) by (simp add: tc_at_def)
  have "count (cached n sh' lo' pr') x = 0"
    using le [rule_format, of x] assms(3) by simp
  then have "x \<notin># cached n sh' lo' pr'" by (simp add: count_eq_zero_iff)
  moreover have "count (cached n sh' lo' pr') y \<le> 1" for y
    using le [rule_format, of y] assms(3) by (simp split: if_splits)
  ultimately show ?thesis
    using assms by (auto simp: tc_at_def tc_same_def)
qed

lemma tc_at_cong:
  assumes "tc_at ops pinv outst n s L sh lo pr"
    and "mags_ok n s' sh' lo' pr'"
    and "cached n sh' lo' pr' = cached n sh lo pr"
    and "tc_same (tc s') (tc s)"
  shows "tc_at ops pinv outst n s' L sh' lo' pr'"
  using assms by (auto simp: tc_at_def tc_same_def)

lemma tc_at_give:
  assumes "tc_at ops pinv outst n s L sh lo pr"
    and "mags_ok n s' sh' lo' pr'"
    and "cached n sh' lo' pr' = add_mset x (cached n sh lo pr)"
    and "tc_same (tc s') (tc s)" "x \<in> L"
  shows "tc_at ops pinv outst n s' (L - {x}) sh' lo' pr'"
proof -
  have "x \<notin># cached n sh lo pr" using assms(1,5) by (auto simp: tc_at_def)
  then have "count (cached n sh lo pr) x = 0" by (simp add: count_eq_zero_iff)
  moreover have "\<forall>y. count (cached n sh lo pr) y \<le> 1" using assms(1) by (simp add: tc_at_def)
  ultimately have "\<forall>y. count (cached n sh' lo' pr') y \<le> 1"
    using assms(3) by simp
  moreover have "L \<union> set_mset (cached n sh lo pr)
               = (L - {x}) \<union> set_mset (cached n sh' lo' pr')"
    using assms(3,5) by auto
  moreover have "(L - {x}) \<inter> set_mset (cached n sh' lo' pr') = {}"
    using assms(1,3) by (auto simp: tc_at_def)
  moreover have "outst (tc_data (tc s)) = L \<union> set_mset (cached n sh lo pr)"
    using assms(1) by (simp add: tc_at_def)
  ultimately show ?thesis
    using assms(1,2,4) unfolding tc_at_def tc_same_def by (intro conjI) auto
qed

lemma tc_at_grow:
  assumes at: "tc_at ops pinv outst n s L sh lo pr"
    and ok: "mags_ok n s' sh lo' pr"
    and ca: "cached n sh lo' pr = cached n sh lo pr + mset ys"
    and xs: "distinct (x # ys)" "NULL \<notin> set (x # ys)" "length (x # ys) = unat (mag_size (tc s))"
    and fresh: "set (x # ys) \<inter> outst (tc_data (tc s)) = {}"
    and d: "pinv d" "outst d = outst (tc_data (tc s)) \<union> set (x # ys)"
    and t: "tc s' = (tc s)\<lparr>tc_data := d, mags_allocated := mags_allocated (tc s) + 1\<rparr>"
  shows "tc_at ops pinv outst n s' (insert x L) sh lo' pr"
proof -
  let ?C = "cached n sh lo pr"
  have o: "outst (tc_data (tc s)) = L \<union> set_mset ?C" using at by (simp add: tc_at_def)
  have "count (?C + mset ys) y \<le> 1" for y
  proof (cases "y \<in> set ys")
    case True
    then have "y \<notin># ?C" using fresh(1) o by auto
    then have "count ?C y = 0" by (simp add: count_eq_zero_iff)
    moreover have "distinct ys" using xs(1) by simp
    ultimately show ?thesis by (simp add: distinct_count_atmost_1)
  next
    case False
    then have "count (mset ys) y = 0" by simp
    moreover have "count ?C y \<le> 1" using at by (simp add: tc_at_def)
    ultimately show ?thesis by (metis add.right_neutral count_union)
  qed
  moreover have "insert x L \<inter> set_mset (?C + mset ys) = {}"
    using at fresh(1) xs(1) o by (auto simp: tc_at_def)
  moreover have "card (outst d) = card (outst (tc_data (tc s))) + unat (mag_size (tc s))"
    using d(2) fresh xs(1,3) by (simp add: card_Un_disjoint Int_commute distinct_card [of "x # ys", simplified])
  then have "int (card (outst d)) = (mags_allocated (tc s) + 1) * int (unat (mag_size (tc s)))"
    using tc_at_card [OF at] by (simp add: distrib_right)
  moreover have "outst d = insert x L \<union> set_mset (?C + mset ys)"
    using d(2) o by auto
  ultimately show ?thesis
    using at ok d(1) xs(2) ca t unfolding tc_at_def by auto
qed

lemma cached_loaded:
  assumes "c < n" "lo c = x # xs"
  shows "cached n sh lo pr = add_mset x (cached n sh (lo(c := xs)) pr)"
  using cached_upd [of c n sh lo xs pr "pr c"] assms(2) assms(1) by simp

lemma cached_previous:
  assumes "c < n" "lo c = []" "pr c = x # xs"
  shows "cached n sh lo pr = add_mset x (cached n sh (lo(c := xs)) (pr(c := [])))"
  using cached_upd [of c n sh lo xs pr "[]"] assms by simp

lemma cached_shared:
  assumes "c < n" "lo c = []"
  shows "cached n ((x # xs) # sh) lo pr = add_mset x (cached n sh (lo(c := xs)) pr)"
proof -
  have "cached n ((x # xs) # sh) lo pr = add_mset x (mset xs) + cached n sh lo pr"
    by (simp add: cached_def)
  with cached_upd [of c n sh lo xs pr "pr c"] assms show ?thesis by simp
qed

lemma tcache_alloc_fast:
  assumes "tc_at ops pinv outst n s L sh lo pr" "c < n" "rounds (ltc s c) \<noteq> 0"
  shows "\<exists>x s'. tcache_alloc s c = Some (x, s') \<and> x \<noteq> NULL \<and> x \<notin> L \<and>
           tc_inv ops pinv outst n s' (insert x L)"
proof -
  let ?l = "ltc s c"
  have ok: "mags_ok n s sh lo pr" and l: "ltc_ok (mag_size (tc s)) (hdr s) ?l (lo c) (pr c)"
    using assms by (auto simp: tc_at_def mags_ok_def)
  have "lo c \<noteq> []" using l assms(3) by (auto simp: ltc_ok_def unat_eq_0)
  then obtain x xs where x: "lo c = x # xs" by (cases "lo c") auto
  then have xl: "loaded ?l = x" "x \<noteq> NULL" using l by (auto simp: ltc_ok_def)
  define l' where "l' = ?l\<lparr>rounds := rounds ?l - 1, loaded := next_item (hdr s (loaded ?l))\<rparr>"
  have le: "rounds ?l - 1 \<le> rounds ?l" using assms(3) by (simp add: word_le_nat_alt unat_minus_one)
  have "ltc_ok (mag_size (tc s)) (hdr s) l' xs (pr c)"
    using l x assms(3) le order_trans [OF le]
    by (auto simp: ltc_ok_def l'_def unat_minus_one)
  then have m: "mags_ok n (s\<lparr>ltc := (ltc s)(c := l')\<rparr>) sh (lo(c := xs)) pr"
    using mags_ok_ltc [OF ok, of l' xs "pr c" c] by simp
  have "x \<notin> L \<and> tc_at ops pinv outst n (s\<lparr>ltc := (ltc s)(c := l')\<rparr>) (insert x L) sh (lo(c := xs)) pr"
    by (rule tc_at_take [OF assms(1) m]) (use cached_loaded [of c n lo x xs sh pr, OF assms(2) x] xl in \<open>auto simp: tc_same_def\<close>)
  then show ?thesis
    using assms(3) xl unfolding tc_inv_def tcache_alloc_def l'_def Let_def by auto
qed

lemma empty_loaded:
  assumes "mags_ok n s sh lo pr" "c < n" "rounds (ltc s c) = 0"
  shows "lo c = []"
proof -
  have "length (lo c) = unat (rounds (ltc s c))"
    using assms(1,2) by (simp add: mags_ok_def ltc_ok_def)
  with assms(3) show ?thesis by simp
qed

lemma ltc_ok_reload:
  assumes "ltc_ok ms h l lo pr" "chain h p (x # xs)" "length (x # xs) = unat ms"
  shows "ltc_ok ms h (l\<lparr>rounds := capacity l - 1, loaded := next_item (h p)\<rparr>) xs pr"
    and "ltc_ok ms h (l\<lparr>previous := NULL, rounds := capacity l - 1, loaded := next_item (h p)\<rparr>) xs []"
proof -
  have "ms \<noteq> 0" using assms(3) by auto
  then have u: "unat (ms - 1) = unat ms - 1" by (rule unat_minus_one)
  show "ltc_ok ms h (l\<lparr>rounds := capacity l - 1, loaded := next_item (h p)\<rparr>) xs pr"
    using assms u by (auto simp: ltc_ok_def word_le_nat_alt)
  show "ltc_ok ms h (l\<lparr>previous := NULL, rounds := capacity l - 1, loaded := next_item (h p)\<rparr>) xs []"
    using assms u by (auto simp: ltc_ok_def word_le_nat_alt)
qed

lemma tcache_alloc_previous:
  assumes at: "tc_at ops pinv outst n s L sh lo pr" and c: "c < n"
    and r: "rounds (ltc s c) = 0" and p: "previous (ltc s c) \<noteq> NULL"
  shows "\<exists>x s'. tcache_alloc s c = Some (x, s') \<and> x \<noteq> NULL \<and> x \<notin> L \<and>
           tc_inv ops pinv outst n s' (insert x L)"
proof -
  let ?l = "ltc s c"
  have ok: "mags_ok n s sh lo pr" and l: "ltc_ok (mag_size (tc s)) (hdr s) ?l (lo c) (pr c)"
    using at c by (auto simp: tc_at_def mags_ok_def)
  obtain xs where x: "pr c = previous ?l # xs"
    using l p chain_Cons_D [of "hdr s" "previous ?l" "pr c"] by (auto simp: ltc_ok_def)
  define l' where "l' = ?l\<lparr>previous := NULL, rounds := capacity ?l - 1,
                           loaded := next_item (hdr s (previous ?l))\<rparr>"
  have "ltc_ok (mag_size (tc s)) (hdr s) l' xs []"
    unfolding l'_def by (rule ltc_ok_reload(2) [OF l]) (use l x in \<open>auto simp: ltc_ok_def\<close>)
  then have m: "mags_ok n (s\<lparr>ltc := (ltc s)(c := l')\<rparr>) sh (lo(c := xs)) (pr(c := []))"
    by (rule mags_ok_ltc [OF ok])
  have "previous ?l \<notin> L \<and> tc_at ops pinv outst n (s\<lparr>ltc := (ltc s)(c := l')\<rparr>)
          (insert (previous ?l) L) sh (lo(c := xs)) (pr(c := []))"
    by (rule tc_at_take [OF at m])
      (use cached_previous [of c n lo pr _ xs, OF c empty_loaded [OF ok c r] x] p
        in \<open>auto simp: tc_same_def\<close>)
  moreover have "tcache_alloc s c = Some (previous ?l, s\<lparr>ltc := (ltc s)(c := l')\<rparr>)"
    using r p by (simp add: tcache_alloc_def tcache_alloc_slow_def reload_mag_def l'_def Let_def)
  ultimately show ?thesis using p by (auto simp: tc_inv_def)
qed

lemma tcache_alloc_shared:
  assumes at: "tc_at ops pinv outst n s L sh lo pr" and c: "c < n"
    and r: "rounds (ltc s c) = 0" and p: "previous (ltc s c) = NULL" and m: "shared_mags (tc s) \<noteq> NULL"
  shows "\<exists>x s'. tcache_alloc s c = Some (x, s') \<and> x \<noteq> NULL \<and> x \<notin> L \<and>
           tc_inv ops pinv outst n s' (insert x L)"
proof -
  let ?l = "ltc s c" and ?x = "shared_mags (tc s)"
  have ok: "mags_ok n s sh lo pr" and l: "ltc_ok (mag_size (tc s)) (hdr s) ?l (lo c) (pr c)"
    using at c by (auto simp: tc_at_def mags_ok_def)
  obtain mg sh' where sh: "sh = mg # sh'" using ok m by (cases sh) (auto simp: mags_ok_def)
  obtain xs where x: "mg = ?x # xs"
    using ok m sh chain_Cons_D [of "hdr s" ?x mg] by (auto simp: mags_ok_def)
  define l' where "l' = ?l\<lparr>rounds := capacity ?l - 1, loaded := next_item (hdr s ?x)\<rparr>"
  define s' where "s' = s\<lparr>pool_alloc := (pool_alloc s)(c := pool_alloc s c + 1),
      tc := (tc s)\<lparr>shared_mags := next_mag (hdr s ?x)\<rparr>, ltc := (ltc s)(c := l')\<rparr>"
  have "chain (hdr s) ?x (?x # xs)" "length (?x # xs) = unat (mag_size (tc s))"
    using ok sh x by (auto simp: mags_ok_def)
  then have "ltc_ok (mag_size (tc s)) (hdr s) l' xs (pr c)"
    unfolding l'_def by (rule ltc_ok_reload(1) [OF l])
  then have m': "mags_ok n s' sh' (lo(c := xs)) pr"
    using ok sh by (auto simp: mags_ok_def s'_def)
  have "?x \<notin> L \<and> tc_at ops pinv outst n s' (insert ?x L) sh' (lo(c := xs)) pr"
    by (rule tc_at_take [OF at m'])
      (use cached_shared [of c n lo ?x xs, OF c empty_loaded [OF ok c r]] m
        in \<open>auto simp: sh x s'_def tc_same_def\<close>)
  moreover have "tcache_alloc s c = Some (?x, s')"
    using r p m
    by (simp add: tcache_alloc_def tcache_alloc_slow_def reload_mag_def l'_def s'_def Let_def)
  ultimately show ?thesis using m by (auto simp: tc_inv_def)
qed

text \<open>The free path never calls the allocator.\<close>

lemma mags_ok_set_next_item:
  assumes "mags_ok n s sh lo pr" "x \<notin># cached n sh lo pr"
  shows "mags_ok n (s\<lparr>hdr := set_next_item x y (hdr s)\<rparr>) sh lo pr"
  by (rule mags_ok_frame [OF assms(1)]) (use assms(2) in \<open>auto simp: set_next_item_def\<close>)

lemma ltc_ok_push:
  assumes "ltc_ok ms h l lo pr" "x \<notin> set lo" "x \<notin> set pr" "x \<noteq> NULL" "rounds l < capacity l"
  shows "ltc_ok ms (set_next_item x (loaded l) h) (l\<lparr>rounds := rounds l + 1, loaded := x\<rparr>) (x # lo) pr"
proof -
  have "unat (rounds l + 1) = unat (rounds l) + 1" by (rule unat_succ_less [OF assms(5)])
  with assms show ?thesis
    by (auto simp: ltc_ok_def word_le_nat_alt word_less_nat_alt set_next_item_def [of x _ h, THEN fun_cong])
qed

lemma ltc_ok_new_mag:
  assumes "ltc_ok ms h l lo pr" "x \<notin> set lo" "x \<noteq> NULL" "\<not> rounds l < capacity l" "0 < ms"
  shows "ltc_ok ms (set_next_item x NULL h) (l\<lparr>previous := loaded l, rounds := 1, loaded := x\<rparr>) [x] lo"
proof -
  have "unat ms \<ge> 1" using assms(5) by (simp add: word_less_nat_alt)
  moreover have "rounds l = ms" using assms by (auto simp: ltc_ok_def)
  ultimately show ?thesis
    using assms
    by (auto simp: ltc_ok_def word_le_nat_alt set_next_item_def [of x _ h, THEN fun_cong])
qed

lemma tcache_free_fast:
  assumes at: "tc_at ops pinv outst n s L sh lo pr" and c: "c < n" and x: "x \<in> L"
    and f: "rounds (ltc s c) < capacity (ltc s c)"
  shows "tc_inv ops pinv outst n (tcache_free s c x) (L - {x})"
proof -
  let ?l = "ltc s c"
  have ok: "mags_ok n s sh lo pr" and l: "ltc_ok (mag_size (tc s)) (hdr s) ?l (lo c) (pr c)"
    using at c by (auto simp: tc_at_def mags_ok_def)
  have fresh: "x \<notin># cached n sh lo pr" "x \<noteq> NULL" using at x by (auto simp: tc_at_def)
  then have "x \<notin> set (lo c)" "x \<notin> set (pr c)" using c by (auto simp: in_cached_iff)
  note l' = ltc_ok_push [OF l this fresh(2) f]
  have "mags_ok n (tcache_free s c x) sh (lo(c := x # lo c)) pr"
    using mags_ok_ltc [OF mags_ok_set_next_item [OF ok fresh(1), of "loaded ?l"],
        of _ "x # lo c" "pr c" c] l' f
    by (simp add: tcache_free_def Let_def not_le [symmetric])
  then have "tc_at ops pinv outst n (tcache_free s c x) (L - {x}) sh (lo(c := x # lo c)) pr"
    by (rule tc_at_give [OF at])
      (use cached_upd [of c n sh lo "x # lo c" pr "pr c", OF c] x f
        in \<open>auto simp: tc_same_def tcache_free_def Let_def not_le [symmetric]\<close>)
  then show ?thesis by (auto simp: tc_inv_def)
qed

lemma tcache_free_keep:
  assumes at: "tc_at ops pinv outst n s L sh lo pr" and c: "c < n" and x: "x \<in> L"
    and f: "\<not> rounds (ltc s c) < capacity (ltc s c)" and p: "previous (ltc s c) = NULL"
  shows "tc_inv ops pinv outst n (tcache_free s c x) (L - {x})"
proof -
  let ?l = "ltc s c"
  have ok: "mags_ok n s sh lo pr" and l: "ltc_ok (mag_size (tc s)) (hdr s) ?l (lo c) (pr c)"
    using at c by (auto simp: tc_at_def mags_ok_def)
  have fresh: "x \<notin># cached n sh lo pr" "x \<noteq> NULL" "0 < mag_size (tc s)"
    using at x by (auto simp: tc_at_def)
  then have nl: "x \<notin> set (lo c)" using c by (auto simp: in_cached_iff)
  have pr: "pr c = []" using l p by (simp add: ltc_ok_def)
  have "mags_ok n (tcache_free s c x) sh (lo(c := [x])) (pr(c := lo c))"
    using mags_ok_ltc [OF mags_ok_set_next_item [OF ok fresh(1), of NULL],
        of _ "[x]" "lo c" c] ltc_ok_new_mag [OF l nl fresh(2) f fresh(3)] f p
    by (simp add: tcache_free_def tcache_free_slow_def Let_def not_less)
  then have "tc_at ops pinv outst n (tcache_free s c x) (L - {x}) sh (lo(c := [x])) (pr(c := lo c))"
    by (rule tc_at_give [OF at])
      (use cached_upd [of c n sh lo "[x]" pr "lo c", OF c] x f p pr
        in \<open>auto simp: tc_same_def tcache_free_def tcache_free_slow_def Let_def\<close>)
  then show ?thesis by (auto simp: tc_inv_def)
qed

lemma mags_ok_push_shared:
  assumes ok: "mags_ok n s sh lo pr" and c: "c < n" and p: "previous (ltc s c) \<noteq> NULL"
    and le: "\<forall>x. count (cached n sh lo pr) x \<le> 1"
    and l': "ltc_ok (mag_size (tc s)) (hdr s) l (lo c) []"
  shows "mags_ok n (s\<lparr>hdr := set_next_mag (previous (ltc s c)) (shared_mags (tc s)) (hdr s),
                      tc := (tc s)\<lparr>shared_mags := previous (ltc s c)\<rparr>,
                      ltc := (ltc s)(c := l)\<rparr>)
           (pr c # sh) lo (pr(c := []))"
proof -
  let ?p = "previous (ltc s c)" and ?ms = "mag_size (tc s)"
  let ?h = "set_next_mag ?p (shared_mags (tc s)) (hdr s)"
  have l: "ltc_ok ?ms (hdr s) (ltc s c) (lo c) (pr c)" using ok c by (simp add: mags_ok_def)
  obtain xs where x: "pr c = ?p # xs"
    using l p chain_Cons_D [of "hdr s" ?p "pr c"] by (auto simp: ltc_ok_def)
  obtain M where M: "cached n sh lo pr = mset (concat sh) + (mset (lo c) + mset (pr c)) + M"
    using cached_split [OF c] by blast
  have "count (mset (concat sh) + mset (pr c)) x \<le> 1" for x
    using le [rule_format, of x] M by simp
  then have "?p \<notin> \<Union> (set (map set sh))"
    using count_le_1_disjoint x by fastforce
  then have "mag_chain ?h ?p (pr c # sh)"
    using ok l x by (auto simp: mags_ok_def ltc_ok_def set_next_mag_def [of ?p, THEN fun_cong])
  moreover have "ltc_ok ?ms ?h l' ys zs = ltc_ok ?ms (hdr s) l' ys zs" for l' ys zs
    by (simp add: ltc_ok_def)
  moreover have "length (pr c) = unat ?ms" using l x by (simp add: ltc_ok_def)
  ultimately show ?thesis using ok l' by (simp add: mags_ok_def)
qed

lemma tcache_free_pool:
  assumes at: "tc_at ops pinv outst n s L sh lo pr" and c: "c < n" and x: "x \<in> L"
    and f: "\<not> rounds (ltc s c) < capacity (ltc s c)" and p: "previous (ltc s c) \<noteq> NULL"
  shows "tc_inv ops pinv outst n (tcache_free s c x) (L - {x})"
proof -
  let ?l = "ltc s c"
  define s1 where "s1 = s\<lparr>pool_free := (pool_free s)(c := pool_free s c + 1),
      hdr := set_next_mag (previous ?l) (shared_mags (tc s)) (hdr s),
      tc := (tc s)\<lparr>shared_mags := previous ?l\<rparr>, ltc := (ltc s)(c := ?l\<lparr>previous := NULL\<rparr>)\<rparr>"
  have ok: "mags_ok n s sh lo pr" and l: "ltc_ok (mag_size (tc s)) (hdr s) ?l (lo c) (pr c)"
    and le: "\<forall>x. count (cached n sh lo pr) x \<le> 1"
    using at c by (auto simp: tc_at_def mags_ok_def)
  have "ltc_ok (mag_size (tc s)) (hdr s) (?l\<lparr>previous := NULL\<rparr>) (lo c) []"
    using l by (simp add: ltc_ok_def)
  from mags_ok_push_shared [OF ok c p le this]
  have ok1: "mags_ok n s1 (pr c # sh) lo (pr(c := []))"
    by (simp add: mags_ok_def s1_def)
  have "cached n (pr c # sh) lo (pr(c := [])) = cached n sh lo pr"
    using cached_upd [of c n sh lo "lo c" pr "[]", OF c] by (simp add: cached_def ac_simps)
  then have "tc_at ops pinv outst n s1 L (pr c # sh) lo (pr(c := []))"
    by (rule tc_at_cong [OF at ok1]) (simp add: s1_def tc_same_def)
  then have "tc_inv ops pinv outst n (tcache_free s1 c x) (L - {x})"
    by (rule tcache_free_keep [OF _ c x]) (use f in \<open>simp_all add: s1_def\<close>)
  moreover have "tcache_free s1 c x = tcache_free s c x"
    using f p by (simp add: tcache_free_def tcache_free_slow_def s1_def Let_def not_less)
  ultimately show ?thesis by simp
qed

lemma tcache_free_inv:
  assumes "tc_inv ops pinv outst n s L" "c < n" "x \<in> L"
  shows "tc_inv ops pinv outst n (tcache_free s c x) (L - {x})"
  using assms tcache_free_fast tcache_free_keep tcache_free_pool unfolding tc_inv_def by metis

section \<open>The interface of the backing allocator\<close>

text \<open>\<open>outst\<close> are the items handed out. A request is served whole or not at all, and no operation
  touches the memory of an item that stays handed out.\<close>

locale tcache_backend =
  fixes palloc :: "'p \<Rightarrow> hdrs \<Rightarrow> nat \<Rightarrow> (addr list option \<times> 'p \<times> hdrs) option"
    and pfree :: "'p \<Rightarrow> hdrs \<Rightarrow> addr list \<Rightarrow> ('p \<times> hdrs) option"
    and pinv :: "'p \<Rightarrow> bool"
    and outst :: "'p \<Rightarrow> addr set"
  assumes palloc_total: "pinv p \<Longrightarrow> \<exists>r. palloc p h nr = Some r"
    and palloc_none: "pinv p \<Longrightarrow> palloc p h nr = Some (None, p', h') \<Longrightarrow>
          pinv p' \<and> outst p' = outst p \<and> (\<forall>x\<in>outst p. h' x = h x)"
    and palloc_some: "pinv p \<Longrightarrow> palloc p h nr = Some (Some xs, p', h') \<Longrightarrow>
          pinv p' \<and> length xs = nr \<and> distinct xs \<and> NULL \<notin> set xs \<and> set xs \<inter> outst p = {} \<and>
          outst p' = outst p \<union> set xs \<and> (\<forall>x\<in>outst p. h' x = h x)"
    and pfree_ok: "pinv p \<Longrightarrow> distinct xs \<Longrightarrow> set xs \<subseteq> outst p \<Longrightarrow>
          \<exists>p' h'. pfree p h xs = Some (p', h') \<and> pinv p' \<and> outst p' = outst p - set xs \<and>
            (\<forall>x\<in>outst p - set xs. h' x = h x)"
begin

abbreviation ops :: "'p tcache_ops" where
  "ops \<equiv> \<lparr>alloc_op = palloc, free_op = pfree\<rparr>"

abbreviation inv :: "nat \<Rightarrow> 'p tcache_sys \<Rightarrow> addr set \<Rightarrow> bool" where
  "inv \<equiv> tc_inv ops pinv outst"

lemma tcache_alloc_new:
  assumes at: "tc_at ops pinv outst n s L sh lo pr" and c: "c < n"
    and r: "rounds (ltc s c) = 0" and p: "previous (ltc s c) = NULL" and m: "shared_mags (tc s) = NULL"
  shows "\<exists>x s'. tcache_alloc s c = Some (x, s') \<and>
           (if x = NULL then inv n s' L else x \<notin> L \<and> inv n s' (insert x L))"
proof -
  let ?l = "ltc s c" and ?ms = "mag_size (tc s)" and ?d = "tc_data (tc s)"
  have ok: "mags_ok n s sh lo pr" and l: "ltc_ok ?ms (hdr s) ?l (lo c) (pr c)"
    and pi: "pinv ?d" and ms: "0 < ?ms" "unat ?ms \<le> TCACHE_MAX_MAG_SIZE"
    and o: "outst ?d = L \<union> set_mset (cached n sh lo pr)" and op: "tc_ops (tc s) = ops"
    using at c by (auto simp: tc_at_def mags_ok_def)
  have lo: "lo c = []" by (rule empty_loaded [OF ok c r])
  then have ld: "loaded ?l = NULL" using l by (simp add: ltc_ok_def)
  obtain r d h where q: "palloc ?d (hdr s) (unat ?ms) = Some (r, d, h)"
    using palloc_total [OF pi] by (metis prod_cases3)
  show ?thesis
  proof (cases r)
    case None
    have n: "pinv d" "outst d = outst ?d" "\<forall>x\<in>outst ?d. h x = hdr s x"
      using palloc_none [OF pi] q None by auto
    define s' where "s' = s\<lparr>pool_alloc := (pool_alloc s)(c := pool_alloc s c + 1),
      ltc := (ltc s)(c := ?l\<lparr>loaded := NULL\<rparr>),
      mag_alloc := (mag_alloc s)(c := mag_alloc s c + 1),
      tc := (tc s)\<lparr>tc_data := d\<rparr>, hdr := h\<rparr>"
    have "?l\<lparr>loaded := NULL\<rparr> = ?l" using ld by simp
    then have "mags_ok n s' sh lo pr"
      using mags_ok_frame [OF ok, of h] n o by (auto simp: mags_ok_def s'_def)
    then have "tc_at ops pinv outst n s' L sh lo pr"
      using at n unfolding tc_at_def by (auto simp: s'_def)
    moreover have "tcache_alloc s c = Some (NULL, s')"
      using r p m q None op ms ld
      by (simp add: tcache_alloc_def tcache_alloc_slow_def tcache_alloc_mag_def Let_def s'_def)
    ultimately show ?thesis by (auto simp: tc_inv_def)
  next
    case (Some xs)
    have n: "pinv d" "length xs = unat ?ms" "distinct xs" "NULL \<notin> set xs" "set xs \<inter> outst ?d = {}"
      "outst d = outst ?d \<union> set xs" "\<forall>x\<in>outst ?d. h x = hdr s x"
      using palloc_some [OF pi] q Some by auto
    obtain x ys where x: "xs = x # ys" using n(2) ms(1) by (cases xs) (auto simp: word_less_nat_alt)
    define l' where "l' = ?l\<lparr>rounds := capacity ?l - 1, loaded := next_item (link_items xs h x)\<rparr>"
    define s' where "s' = s\<lparr>pool_alloc := (pool_alloc s)(c := pool_alloc s c + 1),
      mag_alloc := (mag_alloc s)(c := mag_alloc s c + 1),
      tc := (tc s)\<lparr>tc_data := d, mags_allocated := mags_allocated (tc s) + 1\<rparr>,
      hdr := link_items xs h, ltc := (ltc s)(c := l')\<rparr>"
    have "link_items xs h y = hdr s y" if "y \<in># cached n sh lo pr" for y
      using that n(5,7) o by (subst link_items_other) auto
    note ok1 = mags_ok_frame [OF ok this]
    have "ltc_ok ?ms (link_items xs h) l' ys (pr c)"
      unfolding l'_def
      by (rule ltc_ok_reload(1)) (use ok1 c n x link_items_chain [of xs h] in \<open>auto simp: mags_ok_def\<close>)
    then have ok': "mags_ok n s' sh (lo(c := ys)) pr"
      using mags_ok_ltc [OF ok1, of l' ys "pr c" c] by (simp add: mags_ok_def s'_def)
    have ca: "cached n sh (lo(c := ys)) pr = cached n sh lo pr + mset ys"
      using cached_upd [of c n sh lo ys pr "pr c", OF c] lo by simp
    have "x \<notin> L" using n(5) o x by auto
    moreover have "tc_at ops pinv outst n s' (insert x L) sh (lo(c := ys)) pr"
      by (rule tc_at_grow [OF at ok' ca _ _ _ _ n(1)])
        (use n x in \<open>auto simp: s'_def\<close>)
    moreover have "tcache_alloc s c = Some (x, s')"
      using r p m q Some op ms ld n x
      by (simp add: tcache_alloc_def tcache_alloc_slow_def tcache_alloc_mag_def reload_mag_def Let_def
          s'_def l'_def)
    ultimately show ?thesis using n(4) x by (auto simp: tc_inv_def)
  qed
qed

theorem alloc_inv:
  assumes "inv n s L" "c < n"
  shows "\<exists>x s'. tcache_alloc s c = Some (x, s') \<and>
           (if x = NULL then inv n s' L else x \<notin> L \<and> inv n s' (insert x L))"
proof -
  obtain sh lo pr where at: "tc_at ops pinv outst n s L sh lo pr"
    using assms(1) by (auto simp: tc_inv_def)
  consider "rounds (ltc s c) \<noteq> 0" | "rounds (ltc s c) = 0" "previous (ltc s c) \<noteq> NULL"
    | "rounds (ltc s c) = 0" "previous (ltc s c) = NULL" "shared_mags (tc s) \<noteq> NULL"
    | "rounds (ltc s c) = 0" "previous (ltc s c) = NULL" "shared_mags (tc s) = NULL" by blast
  then show ?thesis
  proof cases
    case 1 then show ?thesis using tcache_alloc_fast [OF at assms(2)] by metis
  next
    case 2 then show ?thesis using tcache_alloc_previous [OF at assms(2)] by metis
  next
    case 3 then show ?thesis using tcache_alloc_shared [OF at assms(2)] by metis
  next
    case 4 then show ?thesis by (rule tcache_alloc_new [OF at assms(2)])
  qed
qed

text \<open>Reclaiming returns every magazine of the shared pool.\<close>

lemma free_mag_at:
  assumes at: "tc_at ops pinv outst n s L (m # sh) lo pr" and mc: "chain (hdr s) p m"
    and mt: "mag_chain (hdr s) q sh"
  shows "\<exists>s'. tcache_free_mag s c p = Some s' \<and>
     tc_at ops pinv outst n (s'\<lparr>tc := (tc s')\<lparr>shared_mags := q\<rparr>\<rparr>) L sh lo pr \<and>
     shared_mags (tc s') = shared_mags (tc s)"
proof -
  let ?ms = "mag_size (tc s)" and ?d = "tc_data (tc s)"
  let ?C = "cached n sh lo pr"
  have ok: "mags_ok n s (m # sh) lo pr" and pi: "pinv ?d" and ms: "0 < ?ms"
    and o: "outst ?d = L \<union> set_mset (cached n (m # sh) lo pr)"
    and op: "tc_ops (tc s) = ops" and le: "\<forall>x. count (cached n (m # sh) lo pr) x \<le> 1"
    and len: "length m = unat ?ms" "length m \<le> TCACHE_MAX_MAG_SIZE"
    and dj: "L \<inter> set_mset (cached n (m # sh) lo pr) = {}"
    using at by (auto simp: tc_at_def mags_ok_def)
  have C: "cached n (m # sh) lo pr = mset m + ?C" by (simp add: cached_def)
  have mne: "m \<noteq> []" using len ms by (auto simp: word_less_nat_alt)
  have le1: "count (mset m) x \<le> 1" "count ?C x \<le> 1" for x
    using le [rule_format, of x] C by simp_all
  have dm: "distinct m" "set m \<inter> set_mset ?C = {}"
    using le1 le C count_le_1_disjoint [of "mset m" ?C] by (simp_all add: distinct_iff_count)
  obtain d h where f: "pfree ?d (hdr s) m = Some (d, h)" and d: "pinv d" "outst d = outst ?d - set m"
    and h: "\<forall>x\<in>outst ?d - set m. h x = hdr s x"
    using pfree_ok [OF pi dm(1), of "hdr s"] o C by auto
  define s' where "s' = s\<lparr>mag_free := (mag_free s)(c := mag_free s c + 1),
      tc := (tc s)\<lparr>tc_data := d, mags_allocated := mags_allocated (tc s) - 1\<rparr>, hdr := h\<rparr>"
  have fm: "tcache_free_mag s c p = Some s'"
    using collect_mag_chain [OF mc mne, of 0] len op f
    by (simp add: tcache_free_mag_def s'_def Let_def)
  have "mags_ok n (s\<lparr>tc := (tc s)\<lparr>shared_mags := q\<rparr>\<rparr>) sh lo pr"
    using ok mt by (simp add: mags_ok_def)
  then have "mags_ok n (s\<lparr>tc := (tc s)\<lparr>shared_mags := q\<rparr>, hdr := h\<rparr>) sh lo pr"
    by (rule mags_ok_frame) (use h o C dm(2) in auto)
  then have ok': "mags_ok n (s'\<lparr>tc := (tc s')\<lparr>shared_mags := q\<rparr>\<rparr>) sh lo pr"
    by (simp add: mags_ok_def s'_def)
  have od: "outst d = L \<union> set_mset ?C" using d(2) o C dm(2) dj by auto
  have "outst ?d = outst d \<union> set m" "outst d \<inter> set m = {}" using d(2) o C by auto
  then have "card (outst ?d) = card (outst d) + unat ?ms"
    using dm(1) len(1) by (simp add: card_Un_disjoint distinct_card)
  then have card: "int (card (outst d)) = (mags_allocated (tc s) - 1) * int (unat ?ms)"
    using tc_at_card [OF at] by (simp add: left_diff_distrib)
  have "tc_at ops pinv outst n (s'\<lparr>tc := (tc s')\<lparr>shared_mags := q\<rparr>\<rparr>) L sh lo pr"
    using at ok' od card d(1) le1(2) dj C unfolding tc_at_def by (auto simp: s'_def)
  with fm show ?thesis by (auto simp: s'_def)
qed

lemma reclaim_mags_at:
  assumes "tc_at ops pinv outst n (s\<lparr>tc := (tc s)\<lparr>shared_mags := p\<rparr>\<rparr>) L sh lo pr"
    "shared_mags (tc s) = NULL"
  shows "\<exists>s'. reclaim_mags s c p = Some s' \<and> tc_at ops pinv outst n s' L [] lo pr \<and>
           shared_mags (tc s') = NULL"
  using assms
proof (induction sh arbitrary: s p)
  case Nil
  then have p: "p = NULL" by (simp add: tc_at_def mags_ok_def)
  then have "(tc s)\<lparr>shared_mags := p\<rparr> = tc s" using Nil.prems(2) by (cases "tc s") simp
  then have "s\<lparr>tc := (tc s)\<lparr>shared_mags := p\<rparr>\<rparr> = s" by (cases s) simp
  then have "tc_at ops pinv outst n s L [] lo pr" using Nil.prems(1) by metis
  then show ?case using Nil.prems(2) p by (simp add: reclaim_mags.simps)
next
  case (Cons m sh)
  let ?s = "s\<lparr>tc := (tc s)\<lparr>shared_mags := p\<rparr>\<rparr>"
  have m: "m \<noteq> []" "chain (hdr s) p m" "mag_chain (hdr s) (next_mag (hdr s p)) sh"
    using Cons.prems(1) by (auto simp: tc_at_def mags_ok_def)
  then have p: "p \<noteq> NULL" by (auto simp: chain_nonNULL)
  obtain s1 where s1: "tcache_free_mag ?s c p = Some s1"
    and at1: "tc_at ops pinv outst n (s1\<lparr>tc := (tc s1)\<lparr>shared_mags := next_mag (hdr s p)\<rparr>\<rparr>) L sh lo pr"
    using free_mag_at [OF Cons.prems(1), of p "next_mag (hdr s p)" c] m by auto
  define s2 where "s2 = s1\<lparr>tc := (tc s1)\<lparr>shared_mags := NULL\<rparr>\<rparr>"
  have "tcache_free_mag s c p = Some s2"
    using s1 Cons.prems(2)
    by (auto simp: tcache_free_mag_def Let_def s2_def split: Option.bind_splits prod.splits)
  moreover have "\<exists>s'. reclaim_mags s2 c (next_mag (hdr s p)) = Some s' \<and>
      tc_at ops pinv outst n s' L [] lo pr \<and> shared_mags (tc s') = NULL"
    by (rule Cons.IH) (use at1 in \<open>simp_all add: s2_def\<close>)
  ultimately show ?case using p by (simp add: reclaim_mags.simps [of s])
qed

theorem reclaim_inv:
  assumes "inv n s L"
  shows "\<exists>s'. tcache_reclaim s c = Some s' \<and> inv n s' L \<and> shared_mags (tc s') = NULL"
proof -
  obtain sh lo pr where at: "tc_at ops pinv outst n s L sh lo pr"
    using assms(1) by (auto simp: tc_inv_def)
  then have "\<exists>s'. tcache_reclaim s c = Some s' \<and> tc_at ops pinv outst n s' L [] lo pr \<and>
      shared_mags (tc s') = NULL"
    unfolding tcache_reclaim_def by (intro reclaim_mags_at) simp_all
  then show ?thesis by (auto simp: tc_inv_def)
qed

theorem reach_inv:
  assumes "tc_reach n s0 s L" "inv n s0 {}"
  shows "inv n s L"
  using assms
proof (induction rule: tc_reach.induct)
  case (alloc s L c x s')
  then show ?case using alloc_inv [of n s L c] by auto
next
  case (fail s L c s')
  then show ?case using alloc_inv [of n s L c] by auto
next
  case (free s L c x)
  then show ?case by (simp add: tcache_free_inv)
next
  case (reclaim s L c s')
  then show ?case using reclaim_inv [of n s L c] by auto
qed

text \<open>In a reached state no operation faults, an allocated item is not held by anyone, and a reclaim
  empties the shared pool.\<close>

theorem reach_safe:
  assumes "tc_reach n s0 s L" "inv n s0 {}" "c < n"
  shows "\<exists>x s'. tcache_alloc s c = Some (x, s') \<and> x \<notin> L"
    and "\<exists>s'. tcache_reclaim s c = Some s' \<and> shared_mags (tc s') = NULL"
    and "L \<subseteq> outst (tc_data (tc s))" and "pinv (tc_data (tc s))"
    and "int (card (outst (tc_data (tc s)))) = mags_allocated (tc s) * int (unat (mag_size (tc s)))"
proof -
  have i: "inv n s L" by (rule reach_inv [OF assms(1,2)])
  then obtain sh lo pr where at: "tc_at ops pinv outst n s L sh lo pr" by (auto simp: tc_inv_def)
  then have "NULL \<notin> L" by (simp add: tc_at_def)
  then show "\<exists>x s'. tcache_alloc s c = Some (x, s') \<and> x \<notin> L"
    using alloc_inv [OF i assms(3)] by metis
  show "\<exists>s'. tcache_reclaim s c = Some s' \<and> shared_mags (tc s') = NULL"
    using reclaim_inv [OF i] by blast
  show "L \<subseteq> outst (tc_data (tc s))" "pinv (tc_data (tc s))" using at by (simp_all add: tc_at_def)
  show "int (card (outst (tc_data (tc s)))) = mags_allocated (tc s) * int (unat (mag_size (tc s)))"
    by (rule tc_at_card [OF at])
qed

end

section \<open>Start and round trip\<close>

lemma fold_init_percpu:
  "fold (\<lambda>c s. tcache_init_percpu s c) cs s =
     s\<lparr>ltc := (\<lambda>c. if c \<in> set cs then \<lparr>rounds = 0, capacity = mag_size (tc s), loaded = NULL,
                                          previous = NULL\<rparr> else ltc s c)\<rparr>"
  by (induction cs arbitrary: s) (auto simp: tcache_init_percpu_def fun_eq_iff)

lemma cached_nil: "cached n [] (\<lambda>_. []) (\<lambda>_. []) = {#}"
  by (simp add: cached_def)

lemma tcache_boot_inv:
  assumes "t = \<lparr>tc_name = nm, tc_ops = ops, item_size = isz, mags_allocated = 0, mag_size = ms,
                shared_mags = NULL, tc_data = d\<rparr>"
    and "0 < ms" "unat ms \<le> TCACHE_MAX_MAG_SIZE" "pinv d" "outst d = {}"
  shows "tc_inv ops pinv outst n (tcache_boot t h n) {}"
proof -
  have "mags_ok n (tcache_boot t h n) [] (\<lambda>_. []) (\<lambda>_. [])"
    using assms(1) by (simp add: tcache_boot_def fold_init_percpu mags_ok_def ltc_ok_def)
  then have "tc_at ops pinv outst n (tcache_boot t h n) {} [] (\<lambda>_. []) (\<lambda>_. [])"
    using assms by (simp add: tcache_boot_def fold_init_percpu tc_at_def cached_nil)
  then show ?thesis by (auto simp: tc_inv_def)
qed

text \<open>The cache is a stack per CPU: allocating right after freeing gives the freed item back.\<close>

theorem tcache_free_alloc:
  assumes "tc_inv ops pinv outst n s L" "c < n" "x \<in> L"
  shows "map_option fst (tcache_alloc (tcache_free s c x) c) = Some x"
proof -
  obtain sh lo pr where at: "tc_at ops pinv outst n s L sh lo pr"
    using assms(1) by (auto simp: tc_inv_def)
  let ?l = "ltc s c"
  have l: "ltc_ok (mag_size (tc s)) (hdr s) ?l (lo c) (pr c)"
    using at assms(2) by (auto simp: tc_at_def mags_ok_def)
  have "rounds (ltc (tcache_free s c x) c) \<noteq> 0 \<and> loaded (ltc (tcache_free s c x) c) = x"
  proof (cases "rounds ?l < capacity ?l")
    case True
    then have "rounds ?l + 1 \<noteq> 0" by (metis unat_succ_less add_is_0 one_neq_zero unsigned_0)
    then show ?thesis using True by (simp add: tcache_free_def Let_def not_le [symmetric])
  next
    case False
    then show ?thesis by (simp add: tcache_free_def tcache_free_slow_def Let_def not_less)
  qed
  then show ?thesis by (simp add: tcache_alloc_def Let_def)
qed

end
