(* ===== verification/Mempool.thy ===== *)
theory Mempool
  imports Tcache
begin

text \<open>
  The preallocated memory pools of \<^verbatim>\<open>libos/mm/mempool.c\<close> and \<^verbatim>\<open>skyloft/mm/mempool.h\<close>: a buffer is
  cut into items that do not straddle pages, and the free items are kept on a stack. The array of
  free items is a list of the length that \<^verbatim>\<open>calloc\<close> reserved, and an access outside of it is a
  fault (\<open>None\<close>). The pool is a backing allocator of magazine caches.
\<close>

section \<open>Data and operations\<close>

record mempool =
  free_items :: "addr list"
  allocated :: u64
  mp_capacity :: u64
  mp_buf :: addr
  mp_len :: u64
  pg_sz :: u64
  item_len :: u64

definition mempool_alloc :: "mempool \<Rightarrow> (addr \<times> mempool) option" where
  "mempool_alloc m =
     (if allocated m \<ge> mp_capacity m then Some (NULL, m)
      else if unat (allocated m) \<ge> length (free_items m) then None
      else Some (free_items m ! unat (allocated m), m\<lparr>allocated := allocated m + 1\<rparr>))"

definition mempool_free :: "mempool \<Rightarrow> addr \<Rightarrow> mempool option" where
  "mempool_free m item =
     (let m = m\<lparr>allocated := allocated m - 1\<rparr>
      in if unat (allocated m) \<ge> length (free_items m) then None
         else Some (m\<lparr>free_items := (free_items m)[unat (allocated m) := item]\<rparr>))"

text \<open>The two nested loops of \<^verbatim>\<open>mempool_populate\<close>.\<close>

definition populate_one :: "mempool \<Rightarrow> addr \<Rightarrow> mempool option" where
  "populate_one m item =
     (if unat (mp_capacity m) \<ge> length (free_items m) then None
      else Some (m\<lparr>free_items := (free_items m)[unat (mp_capacity m) := item],
                   mp_capacity := mp_capacity m + 1\<rparr>))"

fun populate_all :: "mempool \<Rightarrow> addr list \<Rightarrow> mempool option" where
  "populate_all m [] = Some m"
| "populate_all m (x # xs) = Option.bind (populate_one m x) (\<lambda>m. populate_all m xs)"

definition page_items :: "addr \<Rightarrow> u64 \<Rightarrow> u64 \<Rightarrow> u64 \<Rightarrow> addr list" where
  "page_items buf len pg item =
     concat (map (\<lambda>i. map (\<lambda>j. buf + pg * of_nat i + item * of_nat j) [0..<unat (pg div item)])
               [0..<unat (len div pg)])"

definition mempool_populate ::
  "bool \<Rightarrow> mempool \<Rightarrow> addr \<Rightarrow> u64 \<Rightarrow> u64 \<Rightarrow> u64 \<Rightarrow> (int \<times> mempool) option" where
  "mempool_populate calloc_ok m buf len pg item =
     (if \<not> calloc_ok then Some (- ENOMEM, m\<lparr>free_items := []\<rparr>)
      else map_option (Pair 0)
             (populate_all
                (m\<lparr>free_items := replicate (unat ((len div pg) * (pg div item))) NULL\<rparr>)
                (page_items buf len pg item)))"

definition mempool_create ::
  "bool \<Rightarrow> mempool \<Rightarrow> addr \<Rightarrow> u64 \<Rightarrow> u64 \<Rightarrow> u64 \<Rightarrow> (int \<times> mempool) option" where
  "mempool_create calloc_ok m buf len pg item =
     (if item = 0 \<or> \<not> is_power_of_two pg \<or> len mod pg \<noteq> 0 then Some (- EINVAL, m)
      else mempool_populate calloc_ok
             (m\<lparr>allocated := 0, mp_buf := buf, mp_len := len, pg_sz := pg, item_len := item\<rparr>)
             buf len pg item)"

definition mempool_destroy :: "mempool \<Rightarrow> mempool" where
  "mempool_destroy m = m\<lparr>free_items := []\<rparr>"

fun mempool_tcache_free :: "mempool \<Rightarrow> hdrs \<Rightarrow> addr list \<Rightarrow> (mempool \<times> hdrs) option" where
  "mempool_tcache_free m h [] = Some (m, h)"
| "mempool_tcache_free m h (x # xs) =
     Option.bind (mempool_free m x) (\<lambda>m. mempool_tcache_free m h xs)"

text \<open>\<open>got\<close> are the items allocated so far, the last one first.\<close>

fun mempool_tcache_alloc_loop ::
  "mempool \<Rightarrow> hdrs \<Rightarrow> nat \<Rightarrow> addr list \<Rightarrow> (addr list option \<times> mempool \<times> hdrs) option" where
  "mempool_tcache_alloc_loop m h 0 got = Some (Some (rev got), m, h)"
| "mempool_tcache_alloc_loop m h (Suc nr) got =
     do {
       (x, m) \<leftarrow> mempool_alloc m;
       if x = NULL
       then map_option (\<lambda>(m, h). (None, m, h)) (mempool_tcache_free m h (rev got))
       else mempool_tcache_alloc_loop m h nr (x # got)
     }"

definition mempool_tcache_alloc ::
  "mempool \<Rightarrow> hdrs \<Rightarrow> nat \<Rightarrow> (addr list option \<times> mempool \<times> hdrs) option" where
  "mempool_tcache_alloc m h nr = mempool_tcache_alloc_loop m h nr []"

definition mempool_tcache_ops :: "mempool tcache_ops" where
  "mempool_tcache_ops = \<lparr>alloc_op = mempool_tcache_alloc, free_op = mempool_tcache_free\<rparr>"

definition mempool_create_tcache ::
  "bool \<Rightarrow> bool \<Rightarrow> mempool \<Rightarrow> string \<Rightarrow> u32 \<Rightarrow> mempool tcache list
     \<Rightarrow> (mempool tcache option \<times> mempool tcache list) option" where
  "mempool_create_tcache malloc1_ok malloc2_ok m name mag_size' tcache_list =
     (if \<not> malloc1_ok then Some (None, tcache_list)
      else tcache_create malloc2_ok name mempool_tcache_ops mag_size' (item_len m) m tcache_list)"

section \<open>Invariant\<close>

definition mp_items :: "mempool \<Rightarrow> addr list" where
  "mp_items m = page_items (mp_buf m) (mp_len m) (pg_sz m) (item_len m)"

definition mp_free_list :: "mempool \<Rightarrow> addr list" where
  "mp_free_list m = drop (unat (allocated m)) (free_items m)"

definition mp_outst :: "mempool \<Rightarrow> addr set" where
  "mp_outst m = set (mp_items m) - set (mp_free_list m)"

definition mp_inv :: "addr list \<Rightarrow> mempool \<Rightarrow> bool" where
  "mp_inv I m \<longleftrightarrow> mp_items m = I \<and>
     length (free_items m) = unat (mp_capacity m) \<and> length (mp_items m) = unat (mp_capacity m) \<and>
     allocated m \<le> mp_capacity m \<and> distinct (mp_items m) \<and> NULL \<notin> set (mp_items m) \<and>
     distinct (mp_free_list m) \<and> set (mp_free_list m) \<subseteq> set (mp_items m)"

lemma mp_outst_card:
  assumes "mp_inv I m"
  shows "card (mp_outst m) = unat (allocated m)"
proof -
  have "card (mp_outst m) = card (set (mp_items m)) - card (set (mp_free_list m))"
    unfolding mp_outst_def using assms by (intro card_Diff_subset) (auto simp: mp_inv_def)
  also have "\<dots> = unat (mp_capacity m) - (unat (mp_capacity m) - unat (allocated m))"
    using assms by (auto simp: mp_inv_def distinct_card mp_free_list_def)
  also have "\<dots> = unat (allocated m)" using assms by (simp add: mp_inv_def word_le_nat_alt)
  finally show ?thesis .
qed

lemma mempool_alloc_none:
  assumes "mp_inv I m" "allocated m \<ge> mp_capacity m"
  shows "mempool_alloc m = Some (NULL, m)"
  using assms by (simp add: mempool_alloc_def)

lemma mempool_alloc_some:
  assumes "mp_inv I m" "allocated m < mp_capacity m"
  shows "\<exists>x m'. mempool_alloc m = Some (x, m') \<and> mp_inv I m' \<and> x \<noteq> NULL \<and> x \<notin> mp_outst m \<and>
    mp_outst m' = insert x (mp_outst m)"
proof -
  let ?x = "free_items m ! unat (allocated m)" and ?m = "m\<lparr>allocated := allocated m + 1\<rparr>"
  have u: "unat (allocated m + 1) = unat (allocated m) + 1" by (rule unat_succ_less [OF assms(2)])
  have lt: "unat (allocated m) < length (free_items m)"
    using assms by (simp add: mp_inv_def word_less_nat_alt)
  have fl: "mp_free_list m = ?x # mp_free_list ?m"
    using lt by (simp add: mp_free_list_def u Cons_nth_drop_Suc)
  have i: "mp_items ?m = mp_items m" by (simp add: mp_items_def)
  have "?x \<in> set (mp_items m)" using assms(1) fl by (auto simp: mp_inv_def)
  moreover have "?x \<notin> set (mp_free_list ?m)" using assms(1) fl by (simp add: mp_inv_def)
  ultimately have "mp_outst ?m = insert ?x (mp_outst m)" "?x \<notin> mp_outst m"
    using fl i by (auto simp: mp_outst_def)
  moreover have "mp_inv I ?m"
    using assms fl i u lt by (auto simp: mp_inv_def word_le_nat_alt)
  moreover have "?x \<noteq> NULL" using \<open>?x \<in> set (mp_items m)\<close> assms(1) by (auto simp: mp_inv_def)
  ultimately show ?thesis using assms lt by (auto simp: mempool_alloc_def)
qed

lemma mempool_free_ok:
  assumes "mp_inv I m" "x \<in> mp_outst m"
  shows "\<exists>m'. mempool_free m x = Some m' \<and> mp_inv I m' \<and> mp_outst m' = mp_outst m - {x}"
proof -
  let ?m = "m\<lparr>allocated := allocated m - 1, free_items := (free_items m)[unat (allocated m - 1) := x]\<rparr>"
  have "card (mp_outst m) > 0" using assms(2) by (auto simp: card_gt_0_iff)
  then have a: "allocated m \<noteq> 0" using mp_outst_card [OF assms(1)] by auto
  then have u: "unat (allocated m - 1) = unat (allocated m) - 1" "0 < unat (allocated m)"
    by (simp_all add: unat_minus_one unat_gt_0)
  have lt: "unat (allocated m - 1) < length (free_items m)"
    using assms(1) u by (auto simp: mp_inv_def word_le_nat_alt)
  have fl: "mp_free_list ?m = x # mp_free_list m"
    using lt u by (simp add: mp_free_list_def drop_update_swap [symmetric] Cons_nth_drop_Suc [symmetric])
  have i: "mp_items ?m = mp_items m" by (simp add: mp_items_def)
  have "mp_inv I ?m"
    using assms fl i u by (auto simp: mp_inv_def word_le_nat_alt mp_outst_def)
  moreover have "mp_outst ?m = mp_outst m - {x}" using fl i by (auto simp: mp_outst_def)
  ultimately show ?thesis using lt by (auto simp: mempool_free_def Let_def)
qed

section \<open>The pool as the backing allocator of a cache\<close>

lemma mempool_tcache_free_ok:
  assumes "mp_inv I m" "distinct xs" "set xs \<subseteq> mp_outst m"
  shows "\<exists>m'. mempool_tcache_free m h xs = Some (m', h) \<and> mp_inv I m' \<and> mp_outst m' = mp_outst m - set xs"
  using assms
proof (induction xs arbitrary: m)
  case (Cons x xs)
  then obtain m1 where m1: "mempool_free m x = Some m1" "mp_inv I m1" "mp_outst m1 = mp_outst m - {x}"
    using mempool_free_ok [of I m x] by auto
  have "distinct xs" "set xs \<subseteq> mp_outst m1" using Cons.prems m1(3) by auto
  then obtain m' where "mempool_tcache_free m1 h xs = Some (m', h)" "mp_inv I m'"
    "mp_outst m' = mp_outst m1 - set xs"
    using Cons.IH [OF m1(2)] by blast
  then show ?case using m1 by auto
qed simp

lemma mempool_alloc_loop_ok:
  assumes "mp_inv I m" "distinct got" "set got \<subseteq> mp_outst m" "NULL \<notin> set got"
  shows "\<exists>r m'. mempool_tcache_alloc_loop m h nr got = Some (r, m', h) \<and> mp_inv I m' \<and>
    (case r of
       None \<Rightarrow> mp_outst m' = mp_outst m - set got
     | Some xs \<Rightarrow> length xs = length got + nr \<and> distinct xs \<and> set got \<subseteq> set xs \<and> NULL \<notin> set xs \<and>
         set xs \<inter> mp_outst m = set got \<and> mp_outst m' = mp_outst m \<union> set xs)"
  using assms
proof (induction nr arbitrary: m got)
  case 0
  then show ?case by (auto simp: Int_absorb2)
next
  case (Suc nr)
  show ?case
  proof (cases "allocated m \<ge> mp_capacity m")
    case True
    obtain m' where "mempool_tcache_free m h (rev got) = Some (m', h)" "mp_inv I m'"
      "mp_outst m' = mp_outst m - set got"
      using mempool_tcache_free_ok [of I m "rev got" h] Suc.prems by auto
    then show ?thesis using mempool_alloc_none [OF Suc.prems(1) True] by auto
  next
    case False
    then obtain x m1 where x: "mempool_alloc m = Some (x, m1)" "mp_inv I m1" "x \<noteq> NULL" "x \<notin> mp_outst m"
      "mp_outst m1 = insert x (mp_outst m)"
      using mempool_alloc_some [OF Suc.prems(1)] by (auto simp: not_le)
    obtain r m' where r: "mempool_tcache_alloc_loop m1 h nr (x # got) = Some (r, m', h)" "mp_inv I m'"
      "case r of
         None \<Rightarrow> mp_outst m' = mp_outst m1 - set (x # got)
       | Some xs \<Rightarrow> length xs = length (x # got) + nr \<and> distinct xs \<and> set (x # got) \<subseteq> set xs \<and>
           NULL \<notin> set xs \<and> set xs \<inter> mp_outst m1 = set (x # got) \<and> mp_outst m' = mp_outst m1 \<union> set xs"
      using Suc.IH [of m1 "x # got"] Suc.prems x by auto
    have "mempool_tcache_alloc_loop m h (Suc nr) got = Some (r, m', h)"
      using x(1,3) r(1) by simp
    then show ?thesis using r(2,3) x(4,5) Suc.prems(3) by (cases r) auto
  qed
qed

interpretation mp: tcache_backend mempool_tcache_alloc mempool_tcache_free "mp_inv I" mp_outst for I
proof (unfold_locales, goal_cases)
  case (1 p h nr)
  then show ?case using mempool_alloc_loop_ok [of I p "[]" h nr] by (auto simp: mempool_tcache_alloc_def)
next
  case (2 p h nr p' h')
  then show ?case using mempool_alloc_loop_ok [of I p "[]" h nr] by (auto simp: mempool_tcache_alloc_def)
next
  case (3 p h nr xs p' h')
  then show ?case using mempool_alloc_loop_ok [of I p "[]" h nr] by (auto simp: mempool_tcache_alloc_def)
next
  case (4 p xs h)
  then show ?case using mempool_tcache_free_ok [of I p xs h] by auto
qed

section \<open>Creation\<close>

lemma populate_all_fill:
  assumes "free_items m = pre @ replicate (length xs) NULL" "unat (mp_capacity m) = length pre"
    "length pre + length xs < 2 ^ 64"
  shows "populate_all m xs =
     Some (m\<lparr>free_items := pre @ xs, mp_capacity := of_nat (length pre + length xs)\<rparr>)"
  using assms
proof (induction xs arbitrary: m pre)
  case Nil
  then have "mp_capacity m = of_nat (length pre)" by (metis of_nat_unat ucast_id)
  with Nil show ?case by (cases m) simp
next
  case (Cons x xs)
  let ?m = "m\<lparr>free_items := (free_items m)[unat (mp_capacity m) := x], mp_capacity := mp_capacity m + 1\<rparr>"
  have "free_items ?m = (pre @ [x]) @ replicate (length xs) NULL"
    using Cons.prems(1,2) by (simp add: list_update_append)
  moreover have "unat (mp_capacity ?m) = length (pre @ [x])"
    using Cons.prems(2,3) by (simp add: unat_word_ariths)
  ultimately have "populate_all ?m xs =
     Some (?m\<lparr>free_items := (pre @ [x]) @ xs, mp_capacity := of_nat (length (pre @ [x]) + length xs)\<rparr>)"
    using Cons.prems(3) by (intro Cons.IH) simp_all
  moreover have "populate_one m x = Some ?m"
    using Cons.prems(1,2) by (simp add: populate_one_def)
  ultimately show ?case by simp
qed

text \<open>The items as numbers: the offsets of the item grid.\<close>

definition item_offsets :: "nat \<Rightarrow> nat \<Rightarrow> nat \<Rightarrow> nat list" where
  "item_offsets l p t = map (\<lambda>(i, j). p * i + t * j) (List.product [0..<l div p] [0..<p div t])"

lemma item_fits:
  assumes "j < p div t"
  shows "t * j + t \<le> (p::nat)"
proof -
  have "t * Suc j \<le> t * (p div t)" using assms by (intro mult_le_mono2) simp
  also have "\<dots> \<le> p" by simp
  finally show ?thesis by simp
qed

lemma item_offset_bound:
  assumes "x \<in> set (item_offsets l p t)"
  shows "x + t \<le> l" "x mod p + t \<le> p"
proof -
  obtain i j where x: "x = p * i + t * j" and i: "i < l div p" and j: "j < p div t"
    using assms by (auto simp: item_offsets_def)
  have f: "t * j + t \<le> p" by (rule item_fits [OF j])
  have p: "p * i + p \<le> l" using item_fits [OF i] by simp
  show "x + t \<le> l" using x f p by linarith
  have "t > 0" using j by (cases t) auto
  then have "x mod p = t * j" using x f by simp
  then show "x mod p + t \<le> p" using f by simp
qed

lemma item_offsets_apart:
  assumes "x \<in> set (item_offsets l p t)" "y \<in> set (item_offsets l p t)" "x < y"
  shows "x + t \<le> y"
proof -
  obtain i j i' j' where x: "x = p * i + t * j" and y: "y = p * i' + t * j'"
    and j: "j < p div t" "j' < p div t"
    using assms(1,2) by (auto simp: item_offsets_def)
  have f: "t * j + t \<le> p" "t * j' + t \<le> p" using j by (simp_all add: item_fits)
  have "i < i' \<or> i = i' \<and> j < j'"
  proof (rule ccontr)
    assume "\<not> ?thesis"
    then consider "i' < i" | "i = i'" "j' \<le> j" by linarith
    then show False
    proof cases
      case 1
      then have "p * Suc i' \<le> p * i" by (intro mult_le_mono2) simp
      then show False using x y f(2) assms(3) by simp
    next
      case 2
      then have "t * j' \<le> t * j" by simp
      then show False using x y 2 assms(3) by simp
    qed
  qed
  then show ?thesis
  proof
    assume "i < i'"
    then have "p * Suc i \<le> p * i'" by (intro mult_le_mono2) simp
    then show ?thesis using x y f(1) by simp
  next
    assume "i = i' \<and> j < j'"
    then have "t * Suc j \<le> t * j'" by (intro mult_le_mono2) simp
    then show ?thesis using x y \<open>i = i' \<and> j < j'\<close> by simp
  qed
qed

lemma item_offsets_distinct:
  assumes "0 < t"
  shows "distinct (item_offsets l p t)"
proof -
  have "inj_on (\<lambda>(i, j). p * i + t * j) ({0..<l div p} \<times> {0..<p div t})"
  proof (rule inj_onI, clarsimp)
    fix i j i' j'
    assume eq: "p * i + t * j = p * i' + t * j'" and "j < p div t" "j' < p div t"
    then have lt: "t * j < p" "t * j' < p" using assms item_fits [of j p t] item_fits [of j' p t] by auto
    then have "i = (p * i + t * j) div p" "i' = (p * i' + t * j') div p" by simp_all
    with eq have "i = i'" by simp
    with eq assms show "i = i' \<and> j = j'" by simp
  qed
  then show ?thesis by (simp add: item_offsets_def distinct_map distinct_product)
qed

lemma page_items_offsets:
  "page_items buf len pg item =
     map (\<lambda>x. buf + of_nat x) (item_offsets (unat len) (unat pg) (unat item))"
  by (simp add: page_items_def item_offsets_def unat_div product_concat_map map_concat comp_def
      case_prod_unfold ac_simps)

lemma unat_item:
  fixes buf :: addr and len item :: u64
  assumes "unat buf + unat len \<le> 2 ^ 64" "x \<in> set (item_offsets (unat len) p (unat item))" "item \<noteq> 0"
  shows "unat (buf + of_nat x) = unat buf + x"
proof -
  have "0 < unat item" using assms(3) by (simp add: unat_gt_0)
  then have "unat buf + x < 2 ^ 64"
    using item_offset_bound(1) [OF assms(2)] assms(1) by linarith
  then show ?thesis by (simp add: unat_add_of_nat)
qed

lemma page_items_distinct:
  assumes "unat buf + unat len \<le> 2 ^ 64" "item \<noteq> 0"
  shows "distinct (page_items buf len pg item)"
proof -
  have "inj_on (\<lambda>x. buf + of_nat x) (set (item_offsets (unat len) (unat pg) (unat item)))"
    by (rule inj_onI) (metis unat_item [OF assms(1) _ assms(2)] add_left_cancel)
  then show ?thesis
    using assms(2) by (simp add: page_items_offsets distinct_map item_offsets_distinct unat_gt_0)
qed

lemma page_items_length:
  "length (page_items buf len pg item) = unat ((len div pg) * (pg div item))"
proof -
  have "unat len div unat pg * (unat pg div unat item) \<le> unat len div unat pg * unat pg"
    by (intro mult_le_mono2) (rule div_le_dividend)
  also have "\<dots> \<le> unat len" by simp
  also have "\<dots> < 2 ^ 64" using unsigned_less [of len, where ?'a = nat] by simp
  finally show ?thesis
    by (simp add: page_items_offsets item_offsets_def unat_word_ariths(2) unat_div)
qed

lemma page_items_nonNULL:
  assumes "unat buf + unat len \<le> 2 ^ 64" "item \<noteq> 0" "buf \<noteq> NULL"
  shows "NULL \<notin> set (page_items buf len pg item)"
proof
  assume "NULL \<in> set (page_items buf len pg item)"
  then obtain x where "x \<in> set (item_offsets (unat len) (unat pg) (unat item))" "buf + of_nat x = 0"
    by (auto simp: page_items_offsets)
  then have "unat buf + x = 0" using unat_item [OF assms(1) _ assms(2)] by (metis unsigned_0)
  then show False using assms(3) by (simp add: unat_eq_0)
qed

text \<open>The items do not overlap.\<close>

lemma page_items_apart:
  assumes "unat buf + unat len \<le> 2 ^ 64" "item \<noteq> 0" "x \<in> set (page_items buf len pg item)" "y \<in> set (page_items buf len pg item)" "x < y"
  shows "unat x + unat item \<le> unat y"
proof -
  note u = unat_item [OF assms(1) _ assms(2)]
  obtain a b where "a \<in> set (item_offsets (unat len) (unat pg) (unat item))" "b \<in> set (item_offsets (unat len) (unat pg) (unat item))"
      "x = buf + of_nat a" "y = buf + of_nat b"
    using assms(3,4) by (auto simp: page_items_offsets)
  then show ?thesis using assms(5) u item_offsets_apart [of a _ _ _ b] by (simp add: word_less_nat_alt)
qed

lemma mempool_create_inv:
  assumes "item \<noteq> 0" "is_power_of_two pg" "len mod pg = 0"
    and "mp_capacity m = 0" "buf \<noteq> NULL" "unat buf + unat len \<le> 2 ^ 64"
  shows "\<exists>m'. mempool_create True m buf len pg item = Some (0, m') \<and>
     mp_inv (page_items buf len pg item) m' \<and> mp_outst m' = {} \<and> mp_free_list m' = mp_items m'"
proof -
  let ?xs = "page_items buf len pg item"
  have l: "length ?xs < 2 ^ 64"
    using unsigned_less [of "len div pg * (pg div item)", where ?'a = nat]
    by (simp add: page_items_length)
  let ?m = "m\<lparr>allocated := 0, mp_buf := buf, mp_len := len, pg_sz := pg, item_len := item,
              free_items := replicate (length ?xs) NULL\<rparr>"
  have p: "populate_all ?m ?xs = Some (?m\<lparr>free_items := ?xs, mp_capacity := of_nat (length ?xs)\<rparr>)"
    using populate_all_fill [of ?m "[]" ?xs] assms(4) l by simp
  let ?m' = "?m\<lparr>free_items := ?xs, mp_capacity := of_nat (length ?xs)\<rparr>"
  have "mempool_create True m buf len pg item = Some (0, ?m')"
    using assms(1-3) p page_items_length [of buf len pg item]
    by (simp add: mempool_create_def mempool_populate_def)
  moreover have "mp_inv ?xs ?m'"
    using l page_items_distinct [OF assms(6,1), of pg] page_items_nonNULL [OF assms(6,1,5), of pg]
    by (simp add: mp_inv_def mp_items_def mp_free_list_def unat_of_nat)
  moreover have "mp_outst ?m' = {}" by (simp add: mp_outst_def mp_items_def mp_free_list_def)
  moreover have "mp_free_list ?m' = mp_items ?m'" by (simp add: mp_items_def mp_free_list_def)
  ultimately show ?thesis by (intro exI [of _ ?m']) simp
qed

text \<open>\<^verbatim>\<open>mempool_create\<close> on a zeroed pool cuts the buffer into items that lie inside the buffer, do
  not straddle a page and do not overlap; all of them are free.\<close>

theorem mempool_create_items:
  assumes "item \<noteq> 0" "is_power_of_two pg" "len mod pg = 0"
    and "mp_capacity m = 0" "buf \<noteq> NULL" "unat buf + unat len \<le> 2 ^ 64"
  shows "\<exists>m'. mempool_create True m buf len pg item = Some (0, m') \<and>
     length (mp_items m') = unat len div unat pg * (unat pg div unat item) \<and>
     mp_free_list m' = mp_items m' \<and>
     (\<forall>x\<in>set (mp_items m'). unat buf \<le> unat x \<and> unat x + unat item \<le> unat buf + unat len \<and>
        (unat x - unat buf) mod unat pg + unat item \<le> unat pg) \<and>
     (\<forall>x\<in>set (mp_items m'). \<forall>y\<in>set (mp_items m'). x < y \<longrightarrow> unat x + unat item \<le> unat y)"
proof -
  let ?os = "item_offsets (unat len) (unat pg) (unat item)"
  obtain m' where m': "mempool_create True m buf len pg item = Some (0, m')"
    "mp_inv (page_items buf len pg item) m'" "mp_free_list m' = mp_items m'"
    using mempool_create_inv [OF assms] by blast
  have it: "mp_items m' = map (\<lambda>x. buf + of_nat x) ?os"
    using m'(2) by (simp add: mp_inv_def page_items_offsets)
  note u = unat_item [OF assms(6) _ assms(1)]
  have "length (mp_items m') = unat len div unat pg * (unat pg div unat item)"
    by (simp add: it item_offsets_def)
  moreover have "\<forall>x\<in>set (mp_items m'). unat buf \<le> unat x \<and> unat x + unat item \<le> unat buf + unat len \<and>
      (unat x - unat buf) mod unat pg + unat item \<le> unat pg"
    using item_offset_bound [of _ "unat len" "unat pg" "unat item"] by (auto simp: it u)
  moreover have "unat x + unat item \<le> unat y" if "x \<in> set (mp_items m')" "y \<in> set (mp_items m')" "x < y" for x y
    using page_items_apart [OF assms(6,1), of x pg y] that m'(2) by (simp add: mp_inv_def)
  ultimately show ?thesis using m'(1,3) by blast
qed

text \<open>The pool of four items of sixteen bytes on two pages of 32 bytes.\<close>

theorem mempool_create_items_witness:
  "\<exists>m'. mempool_create True \<lparr>free_items = [], allocated = 0, mp_capacity = 0, mp_buf = 0, mp_len = 0,
       pg_sz = 0, item_len = 0\<rparr> 4096 64 32 16 = Some (0, m') \<and> length (mp_items m') = 4"
  using mempool_create_items [of 16 32 64 "\<lparr>free_items = [], allocated = 0, mp_capacity = 0, mp_buf = 0,
       mp_len = 0, pg_sz = 0, item_len = 0\<rparr>" 4096]
  by (auto simp: is_power_of_two_def)

lemma populate_item_len: "populate_all m xs = Some m' \<Longrightarrow> item_len m' = item_len m"
  by (induction m xs rule: populate_all.induct) (auto simp: populate_one_def split: Option.bind_splits if_splits)

lemma mempool_create_item_len: "mempool_create ok m buf len pg item = Some (0, m') \<Longrightarrow> item_len m' = item"
  by (auto simp: mempool_create_def mempool_populate_def dest!: populate_item_len split: if_splits option.splits)

text \<open>C13: A cache over a memory pool: whatever its clients do on the CPUs below \<open>n\<close>, no allocation and
  no reclaim faults, an item is never handed out while a client holds it, the clients hold items of
  the pool only, and the items out of the pool are those of the counted magazines. The items do not overlap and, since the creation of the
  cache has passed its assertions, each has room for the header that links it while it is free.\<close>

theorem mempool_tcache_safe:
  assumes "item \<noteq> 0" "is_power_of_two pg" "len mod pg = 0"
    and "mp_capacity m = 0" "buf \<noteq> NULL" "unat buf + unat len \<le> 2 ^ 64"
    and "mempool_create True m buf len pg item = Some (0, m')"
    and "mempool_create_tcache True True m' nm ms tcs = Some (Some t, tcs')" "0 < ms"
    and "tc_reach n (tcache_boot t h n) s L" "c < n"
  shows "(\<exists>x s'. tcache_alloc s c = Some (x, s') \<and> x \<notin> L) \<and>
     (\<exists>s'. tcache_reclaim s c = Some s' \<and> shared_mags (tc s') = NULL) \<and>
     L \<subseteq> set (page_items buf len pg item) \<and>
     TCACHE_MIN_ITEM_SIZE \<le> item \<and>
     (\<forall>x \<in> set (page_items buf len pg item). \<forall>y \<in> set (page_items buf len pg item). x < y \<longrightarrow> unat x + unat item \<le> unat y) \<and>
     int (unat (allocated (tc_data (tc s)))) = mags_allocated (tc s) * int (unat (mag_size (tc s)))"
proof -
  let ?I = "page_items buf len pg item"
  have m': "mp_inv ?I m'" "mp_outst m' = {}"
    using mempool_create_inv [OF assms(1-6)] assms(7) by auto
  have il: "item_len m' = item" by (rule mempool_create_item_len [OF assms(7)])
  note t = tcache_create_some [OF assms(8) [unfolded mempool_create_tcache_def, simplified]]
  have boot: "mp.inv ?I n (tcache_boot t h n) {}"
    using tcache_boot_inv [OF t(1) assms(9), of "mp_inv ?I" mp_outst n h] m' t(3)
    by (simp add: mempool_tcache_ops_def)
  note safe = mp.reach_safe [OF assms(10) boot assms(11)]
  have "card (mp_outst (tc_data (tc s))) = unat (allocated (tc_data (tc s)))"
    by (rule mp_outst_card [OF safe(4)])
  moreover have "L \<subseteq> set ?I" using safe(3,4) by (auto simp: mp_outst_def mp_inv_def)
  ultimately show ?thesis using safe(1,2,5) t(2) il page_items_apart [OF assms(6,1)] by simp
qed

text \<open>The cache of two-item magazines over the pool of four items, in its first state and after one
  allocation.\<close>

theorem mempool_tcache_safe_witness:
  "\<exists>m' t x s'. mempool_create True \<lparr>free_items = [], allocated = 0, mp_capacity = 0, mp_buf = 0,
       mp_len = 0, pg_sz = 0, item_len = 0\<rparr> 4096 64 32 16 = Some (0, m') \<and>
     tcache_alloc (tcache_boot t (\<lambda>_. \<lparr>next_item = 0, next_mag = 0\<rparr>) 1) 0 = Some (x, s') \<and>
     tc_data t = m' \<and> (\<exists>y s''. tcache_alloc s' 0 = Some (y, s'') \<and> y \<notin> {x} - {NULL})"
proof -
  let ?m = "\<lparr>free_items = [], allocated = 0, mp_capacity = 0, mp_buf = 0, mp_len = 0, pg_sz = 0,
            item_len = 0\<rparr>"
  let ?h = "\<lambda>_. \<lparr>next_item = 0, next_mag = 0\<rparr>"
  have h: "(16::u64) \<noteq> 0" "is_power_of_two (32::u64)" "(64::u64) mod 32 = 0" "mp_capacity ?m = 0"
    "(4096::addr) \<noteq> NULL" "unat (4096::addr) + unat (64::u64) \<le> 2 ^ 64"
    by (simp_all add: is_power_of_two_def)
  obtain m' where m': "mempool_create True ?m 4096 64 32 16 = Some (0, m')"
    using mempool_create_inv [OF h] by blast
  obtain t where t: "mempool_create_tcache True True m' [] 2 [] = Some (Some t, [t])" "tc_data t = m'"
    using mempool_create_item_len [OF m']
    by (simp add: mempool_create_tcache_def tcache_create_def Let_def TCACHE_MIN_ITEM_SIZE_def TCACHE_MAX_MAG_SIZE_def)
  let ?s = "tcache_boot t ?h 1"
  have m: "(0::u32) < 2" by simp
  note safe = mempool_tcache_safe [OF h m' t(1) m _ zero_less_one]
  have r0: "tc_reach 1 ?s ?s {}" by (rule tc_reach.start)
  obtain x s' where x: "tcache_alloc ?s 0 = Some (x, s')" using safe [OF r0] by blast
  have r1: "tc_reach 1 ?s s' ({x} - {NULL})"
    using tc_reach.alloc [OF r0 zero_less_one x] tc_reach.fail [OF r0 zero_less_one, of s'] x
    by (cases "x = NULL") auto
  obtain y s'' where "tcache_alloc s' 0 = Some (y, s'')" "y \<notin> {x} - {NULL}"
    using conjunct1 [OF safe [OF r1]] by blast
  then show ?thesis by (intro exI conjI) (rule m' x t(2) | assumption)+
qed

end
