(* ===== verification/Stack_Alloc.thy ===== *)
theory Stack_Alloc
  imports Tcache
begin

text \<open>
  The task stacks of \<^verbatim>\<open>libos/mm/stack.c\<close>: a stack of free stacks behind a magazine cache, refilled
  by \<^verbatim>\<open>mmap\<close>. The operating system is a parameter of the state: \<open>mmap i base\<close> is the answer to the
  \<open>i\<close>-th call. The array \<^verbatim>\<open>free_stacks\<close> has \<open>MAX_TASKS\<close> entries, and a write outside of it, as well
  as a failed \<^verbatim>\<open>BUG_ON\<close>, is a fault (\<open>None\<close>).
\<close>

section \<open>Data and operations\<close>

definition STACK_BASE_ADDR :: u64 where "STACK_BASE_ADDR = 0x200000000000"
definition RUNTIME_STACK_SIZE :: u64 where "RUNTIME_STACK_SIZE = 16 * 1024"

record stack_pool =
  free_stack_count :: nat
  free_stacks :: "addr list"
  stack_pos :: u64
  os_mmap :: "nat \<Rightarrow> addr \<Rightarrow> addr option"
  os_calls :: nat

text \<open>The state before the first allocation, with the answers the system will give.\<close>

definition stack_pool_init :: "(nat \<Rightarrow> addr \<Rightarrow> addr option) \<Rightarrow> stack_pool" where
  "stack_pool_init os = \<lparr>free_stack_count = 0, free_stacks = replicate MAX_TASKS NULL,
     stack_pos = STACK_BASE_ADDR, os_mmap = os, os_calls = 0\<rparr>"

definition stack_create :: "stack_pool \<Rightarrow> addr \<Rightarrow> addr option \<times> stack_pool" where
  "stack_create p base = (os_mmap p (os_calls p) base, p\<lparr>os_calls := os_calls p + 1\<rparr>)"

text \<open>\<^verbatim>\<open>madvise(MADV_DONTNEED)\<close> drops the contents: the header of the stack reads as zero.\<close>

definition stack_reclaim :: "hdrs \<Rightarrow> addr \<Rightarrow> hdrs" where
  "stack_reclaim h x = h(x := \<lparr>next_item = NULL, next_mag = NULL\<rparr>)"

fun push_stacks :: "stack_pool \<Rightarrow> addr list \<Rightarrow> stack_pool option" where
  "push_stacks p [] = Some p"
| "push_stacks p (x # xs) =
     (if free_stack_count p \<ge> MAX_TASKS then None
      else push_stacks (p\<lparr>free_stacks := (free_stacks p)[free_stack_count p := x],
                          free_stack_count := free_stack_count p + 1\<rparr>) xs)"

definition stack_tcache_free :: "stack_pool \<Rightarrow> hdrs \<Rightarrow> addr list \<Rightarrow> (stack_pool \<times> hdrs) option" where
  "stack_tcache_free p h items =
     (let h = fold (\<lambda>x h. stack_reclaim h x) items h
      in do {
        p \<leftarrow> push_stacks p items;
        if free_stack_count p \<ge> MAX_TASKS + TCACHE_DEFAULT_MAG_SIZE then None else Some (p, h)
      })"

text \<open>The two loops of \<^verbatim>\<open>stack_tcache_alloc\<close>: pop free stacks, then create new ones. \<open>got\<close> holds the
  filled part of the array, the last entry first.\<close>

fun pop_stacks :: "stack_pool \<Rightarrow> nat \<Rightarrow> addr list \<Rightarrow> addr list \<times> nat \<times> stack_pool" where
  "pop_stacks p 0 got = (got, 0, p)"
| "pop_stacks p (Suc nr) got =
     (if free_stack_count p = 0 then (got, Suc nr, p)
      else pop_stacks (p\<lparr>free_stack_count := free_stack_count p - 1\<rparr>) nr
             (free_stacks p ! (free_stack_count p - 1) # got))"

fun create_stacks ::
  "stack_pool \<Rightarrow> hdrs \<Rightarrow> nat \<Rightarrow> addr list \<Rightarrow> (addr list option \<times> stack_pool \<times> hdrs) option" where
  "create_stacks p h 0 got = Some (Some (rev got), p, h)"
| "create_stacks p h (Suc nr) got =
     (let base = stack_pos p;
          (x, p) = stack_create (p\<lparr>stack_pos := stack_pos p + RUNTIME_STACK_SIZE\<rparr>) base
      in case x of
           None \<Rightarrow> map_option (\<lambda>(p, h). (None, p, h)) (stack_tcache_free p h (rev got))
         | Some x \<Rightarrow> create_stacks p h nr (x # got))"

definition stack_tcache_alloc ::
  "stack_pool \<Rightarrow> hdrs \<Rightarrow> nat \<Rightarrow> (addr list option \<times> stack_pool \<times> hdrs) option" where
  "stack_tcache_alloc p h nr =
     (case pop_stacks p nr [] of (got, left, p) \<Rightarrow> create_stacks p h left got)"

definition stack_tcache_ops :: "stack_pool tcache_ops" where
  "stack_tcache_ops = \<lparr>alloc_op = stack_tcache_alloc, free_op = stack_tcache_free\<rparr>"

definition stack_init ::
  "bool \<Rightarrow> (nat \<Rightarrow> addr \<Rightarrow> addr option) \<Rightarrow> stack_pool tcache list
     \<Rightarrow> (int \<times> stack_pool tcache option \<times> stack_pool tcache list) option" where
  "stack_init malloc_ok os tcache_list =
     map_option (\<lambda>(t, tcache_list). (if t = None then - ENOMEM else 0, t, tcache_list))
       (tcache_create malloc_ok ''runtime_stacks'' stack_tcache_ops
          (of_nat TCACHE_DEFAULT_MAG_SIZE) RUNTIME_STACK_SIZE (stack_pool_init os) tcache_list)"

definition stack_init_percpu :: "stack_pool tcache_sys \<Rightarrow> nat \<Rightarrow> int \<times> stack_pool tcache_sys" where
  "stack_init_percpu s cpu = (0, tcache_init_percpu s cpu)"

definition stack_alloc :: "stack_pool tcache_sys \<Rightarrow> nat \<Rightarrow> (addr \<times> stack_pool tcache_sys) option" where
  "stack_alloc s cpu = tcache_alloc s cpu"

definition stack_free :: "stack_pool tcache_sys \<Rightarrow> nat \<Rightarrow> addr \<Rightarrow> stack_pool tcache_sys" where
  "stack_free s cpu x = tcache_free s cpu x"

section \<open>Invariant\<close>

text \<open>What the development relies on of \<^verbatim>\<open>mmap\<close>: an answer is never a region it gave before, nor the
  null page; and the process gets at most \<open>MAX_TASKS\<close> stacks.\<close>

definition mmap_fresh :: "(nat \<Rightarrow> addr \<Rightarrow> addr option) \<Rightarrow> bool" where
  "mmap_fresh os \<longleftrightarrow>
     (\<forall>i a x. os i a = Some x \<longrightarrow> x \<noteq> NULL) \<and>
     (\<forall>i j a b x. os i a = Some x \<longrightarrow> os j b = Some x \<longrightarrow> i = j)"

definition mmap_at_most :: "nat \<Rightarrow> (nat \<Rightarrow> addr \<Rightarrow> addr option) \<Rightarrow> bool" where
  "mmap_at_most n os \<longleftrightarrow> (\<forall>k. card {i. i < k \<and> (\<exists>a. os i a \<noteq> None)} \<le> n)"

definition call_base :: "nat \<Rightarrow> addr" where
  "call_base i = STACK_BASE_ADDR + RUNTIME_STACK_SIZE * of_nat i"

definition created :: "stack_pool \<Rightarrow> addr set" where
  "created p = {x. \<exists>i < os_calls p. os_mmap p i (call_base i) = Some x}"

definition sp_free_list :: "stack_pool \<Rightarrow> addr list" where
  "sp_free_list p = take (free_stack_count p) (free_stacks p)"

definition sp_outst :: "stack_pool \<Rightarrow> addr set" where
  "sp_outst p = created p - set (sp_free_list p)"

definition sp_inv :: "stack_pool \<Rightarrow> bool" where
  "sp_inv p \<longleftrightarrow>
     mmap_fresh (os_mmap p) \<and> mmap_at_most MAX_TASKS (os_mmap p) \<and>
     stack_pos p = call_base (os_calls p) \<and>
     length (free_stacks p) = MAX_TASKS \<and> free_stack_count p \<le> MAX_TASKS \<and>
     distinct (sp_free_list p) \<and> set (sp_free_list p) \<subseteq> created p"

lemma created_card:
  assumes "mmap_at_most n (os_mmap p)"
  shows "card (created p) \<le> n"
proof -
  let ?I = "{i. i < os_calls p \<and> (\<exists>a. os_mmap p i a \<noteq> None)}"
  have "created p \<subseteq> (\<lambda>i. the (os_mmap p i (call_base i))) ` ?I"
    by (force simp: created_def)
  then have "card (created p) \<le> card ((\<lambda>i. the (os_mmap p i (call_base i))) ` ?I)"
    by (intro card_mono) simp_all
  also have "\<dots> \<le> card ?I" by (rule card_image_le) simp
  also have "\<dots> \<le> n" using assms by (simp add: mmap_at_most_def)
  finally show ?thesis .
qed

lemma sp_inv_created: "sp_inv p \<Longrightarrow> card (created p) \<le> MAX_TASKS"
  by (simp add: sp_inv_def created_card)

lemma take_snoc_update:
  assumes "n < length xs"
  shows "take (Suc n) (xs[n := x]) = take n xs @ [x]"
  using assms by (simp add: take_Suc_conv_app_nth)

lemma push_stacks_ok:
  assumes "sp_inv p" "distinct xs" "set xs \<subseteq> sp_outst p"
  shows "\<exists>p'. push_stacks p xs = Some p' \<and> sp_inv p' \<and> sp_outst p' = sp_outst p - set xs"
  using assms
proof (induction xs arbitrary: p)
  case (Cons x xs)
  let ?p = "p\<lparr>free_stacks := (free_stacks p)[free_stack_count p := x],
              free_stack_count := free_stack_count p + 1\<rparr>"
  have x: "x \<in> created p" "x \<notin> set (sp_free_list p)" using Cons.prems(3) by (auto simp: sp_outst_def)
  have "insert x (set (sp_free_list p)) \<subseteq> created p"
    using Cons.prems(1) x by (simp add: sp_inv_def)
  then have "card (insert x (set (sp_free_list p))) \<le> card (created p)" by (intro card_mono) simp_all
  moreover have "length (sp_free_list p) = free_stack_count p"
    using Cons.prems(1) by (simp add: sp_inv_def sp_free_list_def)
  ultimately have lt: "free_stack_count p < MAX_TASKS"
    using Cons.prems(1) x(2) sp_inv_created [OF Cons.prems(1)]
    by (simp add: sp_inv_def distinct_card)
  then have fl: "sp_free_list ?p = sp_free_list p @ [x]"
    using Cons.prems(1) by (simp add: sp_free_list_def take_snoc_update sp_inv_def)
  have cr: "created ?p = created p" by (simp add: created_def)
  have "sp_inv ?p" using Cons.prems(1) fl cr x lt by (simp add: sp_inv_def)
  moreover have o: "sp_outst ?p = sp_outst p - {x}" using fl cr by (auto simp: sp_outst_def)
  moreover have "distinct xs" "set xs \<subseteq> sp_outst ?p" using Cons.prems o by auto
  ultimately obtain p' where "push_stacks ?p xs = Some p'" "sp_inv p'" "sp_outst p' = sp_outst ?p - set xs"
    using Cons.IH [of ?p] by blast
  then show ?case using lt o by auto
qed simp

lemma fold_reclaim_other: "x \<notin> set xs \<Longrightarrow> fold (\<lambda>x h. stack_reclaim h x) xs h x = h x"
  by (induction xs arbitrary: h) (auto simp: stack_reclaim_def)

lemma stack_tcache_free_ok:
  assumes "sp_inv p" "distinct xs" "set xs \<subseteq> sp_outst p"
  shows "\<exists>p' h'. stack_tcache_free p h xs = Some (p', h') \<and> sp_inv p' \<and>
           sp_outst p' = sp_outst p - set xs \<and> (\<forall>x. x \<notin> set xs \<longrightarrow> h' x = h x)"
proof -
  obtain p' where p': "push_stacks p xs = Some p'" "sp_inv p'" "sp_outst p' = sp_outst p - set xs"
    using push_stacks_ok [OF assms] by blast
  then have "free_stack_count p' < MAX_TASKS + TCACHE_DEFAULT_MAG_SIZE"
    by (simp add: sp_inv_def TCACHE_DEFAULT_MAG_SIZE_def)
  then show ?thesis
    using p' fold_reclaim_other by (simp add: stack_tcache_free_def Let_def)
qed

lemma pop_stacks_ok:
  assumes "sp_inv p" "distinct got" "set got \<subseteq> sp_outst p" "NULL \<notin> set got"
  shows "\<exists>got' left p'. pop_stacks p nr got = (got', left, p') \<and> sp_inv p' \<and> distinct got' \<and>
    length got' + left = length got + nr \<and> set got \<subseteq> set got' \<and> NULL \<notin> set got' \<and>
    set got' \<inter> sp_outst p = set got \<and> sp_outst p' = sp_outst p \<union> set got'"
  using assms
proof (induction nr arbitrary: p got)
  case 0
  then show ?case by auto
next
  case (Suc nr)
  show ?case
  proof (cases "free_stack_count p = 0")
    case True
    then show ?thesis using Suc.prems by auto
  next
    case False
    let ?p = "p\<lparr>free_stack_count := free_stack_count p - 1\<rparr>"
      and ?x = "free_stacks p ! (free_stack_count p - 1)"
    have fl: "sp_free_list p = sp_free_list ?p @ [?x]"
      using False Suc.prems(1)
      by (cases "free_stack_count p") (auto simp: sp_free_list_def sp_inv_def take_Suc_conv_app_nth)
    have cr: "created ?p = created p" by (simp add: created_def)
    have x: "?x \<in> created p" "?x \<notin> set (sp_free_list ?p)" "?x \<noteq> NULL"
      using fl Suc.prems(1) by (auto simp: sp_inv_def created_def mmap_fresh_def)
    have o: "sp_outst ?p = insert ?x (sp_outst p)" "?x \<notin> sp_outst p"
      using fl cr x by (auto simp: sp_outst_def)
    have i: "sp_inv ?p" using Suc.prems(1) fl cr by (auto simp: sp_inv_def)
    have pre: "distinct (?x # got)" "set (?x # got) \<subseteq> sp_outst ?p" "NULL \<notin> set (?x # got)"
      using Suc.prems o x by auto
    obtain got' left p' where r: "pop_stacks ?p nr (?x # got) = (got', left, p')" "sp_inv p'"
      "distinct got'" "length got' + left = length (?x # got) + nr" "set (?x # got) \<subseteq> set got'"
      "NULL \<notin> set got'" "set got' \<inter> sp_outst ?p = set (?x # got)" "sp_outst p' = sp_outst ?p \<union> set got'"
      using Suc.IH [OF i pre] by blast
    have "set got' \<inter> sp_outst p = set got"
      by (rule insert_Int_left [OF o(2) Suc.prems(3)]) (use r(7) o(1) in simp)
    moreover have "sp_outst p' = sp_outst p \<union> set got'" using r(5,8) o by auto
    ultimately show ?thesis using r False by auto
  qed
qed

lemma stack_create_some:
  assumes "sp_inv p" "os_mmap p (os_calls p) (stack_pos p) = Some x"
  defines "p' \<equiv> p\<lparr>stack_pos := stack_pos p + RUNTIME_STACK_SIZE, os_calls := os_calls p + 1\<rparr>"
  shows "sp_inv p' \<and> x \<noteq> NULL \<and> x \<notin> sp_outst p \<and> sp_outst p' = insert x (sp_outst p)"
proof -
  have cr: "created p' = insert x (created p)"
    using assms by (auto simp: created_def less_Suc_eq sp_inv_def)
  have nx: "x \<notin> created p" "x \<noteq> NULL"
    using assms(1,2) less_irrefl unfolding created_def sp_inv_def mmap_fresh_def by blast+
  have fl: "sp_free_list p' = sp_free_list p" by (simp add: p'_def sp_free_list_def)
  have "x \<notin> set (sp_free_list p)" using nx assms(1) by (auto simp: sp_inv_def)
  then have "sp_outst p' = insert x (sp_outst p)" using cr fl by (auto simp: sp_outst_def)
  moreover have "sp_inv p'"
    using assms(1) cr fl by (auto simp: sp_inv_def p'_def call_base_def algebra_simps)
  ultimately show ?thesis using nx by (simp add: sp_outst_def)
qed

lemma stack_create_none:
  assumes "sp_inv p" "os_mmap p (os_calls p) (stack_pos p) = None"
  defines "p' \<equiv> p\<lparr>stack_pos := stack_pos p + RUNTIME_STACK_SIZE, os_calls := os_calls p + 1\<rparr>"
  shows "sp_inv p' \<and> sp_outst p' = sp_outst p"
proof -
  have cr: "created p' = created p"
    using assms by (auto simp: created_def less_Suc_eq sp_inv_def)
  have fl: "sp_free_list p' = sp_free_list p" by (simp add: p'_def sp_free_list_def)
  show ?thesis
    using assms(1) cr fl by (auto simp: sp_inv_def p'_def sp_outst_def call_base_def algebra_simps)
qed

lemma create_stacks_ok:
  assumes "sp_inv p" "distinct got" "set got \<subseteq> sp_outst p" "NULL \<notin> set got"
  shows "\<exists>r p' h'. create_stacks p h nr got = Some (r, p', h') \<and> sp_inv p' \<and>
    (\<forall>x. x \<notin> set got \<longrightarrow> x \<in> sp_outst p \<longrightarrow> h' x = h x) \<and>
    (case r of
       None \<Rightarrow> sp_outst p' = sp_outst p - set got
     | Some xs \<Rightarrow> length xs = length got + nr \<and> distinct xs \<and> set got \<subseteq> set xs \<and> NULL \<notin> set xs \<and>
         set xs \<inter> sp_outst p = set got \<and> sp_outst p' = sp_outst p \<union> set xs)"
  using assms
proof (induction nr arbitrary: p got)
  case 0
  then show ?case by (auto simp: Int_absorb2)
next
  case (Suc nr)
  let ?p = "p\<lparr>stack_pos := stack_pos p + RUNTIME_STACK_SIZE, os_calls := os_calls p + 1\<rparr>"
  show ?case
  proof (cases "os_mmap p (os_calls p) (stack_pos p)")
    case None
    have n: "sp_inv ?p" "sp_outst ?p = sp_outst p" using stack_create_none [OF Suc.prems(1) None] by auto
    obtain p' h' where "stack_tcache_free ?p h (rev got) = Some (p', h')" "sp_inv p'"
      "sp_outst p' = sp_outst p - set got" "\<forall>x. x \<notin> set got \<longrightarrow> h' x = h x"
      using stack_tcache_free_ok [OF n(1), of "rev got" h] n(2) Suc.prems(2,3) by auto
    then show ?thesis using None by (simp add: stack_create_def Let_def)
  next
    case (Some x)
    have s: "sp_inv ?p" "x \<noteq> NULL" "x \<notin> sp_outst p" "sp_outst ?p = insert x (sp_outst p)"
      using stack_create_some [OF Suc.prems(1) Some] by auto
    have pre: "distinct (x # got)" "set (x # got) \<subseteq> sp_outst ?p" "NULL \<notin> set (x # got)"
      using Suc.prems s by auto
    have eq: "create_stacks p h (Suc nr) got = create_stacks ?p h nr (x # got)"
      using Some by (simp add: stack_create_def Let_def)
    obtain r p' h' where r: "create_stacks ?p h nr (x # got) = Some (r, p', h')" "sp_inv p'"
      "\<forall>y. y \<notin> set (x # got) \<longrightarrow> y \<in> sp_outst ?p \<longrightarrow> h' y = h y"
      "case r of
         None \<Rightarrow> sp_outst p' = sp_outst ?p - set (x # got)
       | Some xs \<Rightarrow> length xs = length (x # got) + nr \<and> distinct xs \<and> set (x # got) \<subseteq> set xs \<and>
           NULL \<notin> set xs \<and> set xs \<inter> sp_outst ?p = set (x # got) \<and> sp_outst p' = sp_outst ?p \<union> set xs"
      using Suc.IH [OF s(1) pre] by blast
    have "\<forall>y. y \<notin> set got \<longrightarrow> y \<in> sp_outst p \<longrightarrow> h' y = h y" using r(3) s(3,4) by auto
    then show ?thesis
      using r s(3,4) Suc.prems(3) eq insert_Int_left [OF s(3) Suc.prems(3)] by (cases r) auto
  qed
qed

lemma stack_tcache_alloc_ok:
  assumes "sp_inv p"
  shows "\<exists>r p' h'. stack_tcache_alloc p h nr = Some (r, p', h') \<and> sp_inv p' \<and>
    (\<forall>x\<in>sp_outst p. h' x = h x) \<and>
    (case r of
       None \<Rightarrow> sp_outst p' = sp_outst p
     | Some xs \<Rightarrow> length xs = nr \<and> distinct xs \<and> NULL \<notin> set xs \<and>
         set xs \<inter> sp_outst p = {} \<and> sp_outst p' = sp_outst p \<union> set xs)"
proof -
  obtain got left p1 where g: "pop_stacks p nr [] = (got, left, p1)" "sp_inv p1" "distinct got"
    "length got + left = nr" "NULL \<notin> set got" "set got \<inter> sp_outst p = {}"
    "sp_outst p1 = sp_outst p \<union> set got"
    using pop_stacks_ok [OF assms, of "[]" nr] by auto
  obtain r p' h' where r: "create_stacks p1 h left got = Some (r, p', h')" "sp_inv p'"
    "\<forall>x. x \<notin> set got \<longrightarrow> x \<in> sp_outst p1 \<longrightarrow> h' x = h x"
    "case r of
       None \<Rightarrow> sp_outst p' = sp_outst p1 - set got
     | Some xs \<Rightarrow> length xs = length got + left \<and> distinct xs \<and> set got \<subseteq> set xs \<and> NULL \<notin> set xs \<and>
         set xs \<inter> sp_outst p1 = set got \<and> sp_outst p' = sp_outst p1 \<union> set xs"
    using create_stacks_ok [OF g(2,3) _ g(5), of h left] g(7) by auto
  have "\<forall>x\<in>sp_outst p. h' x = h x" using r(3) g(6,7) by auto
  then show ?thesis
    using r g by (cases r) (auto simp: stack_tcache_alloc_def)
qed

interpretation sp: tcache_backend stack_tcache_alloc stack_tcache_free sp_inv sp_outst
proof (unfold_locales, goal_cases)
  case (1 p h nr)
  then show ?case using stack_tcache_alloc_ok [of p h nr] by auto
next
  case (2 p h nr p' h')
  then show ?case using stack_tcache_alloc_ok [of p h nr] by auto
next
  case (3 p h nr xs p' h')
  then show ?case using stack_tcache_alloc_ok [of p h nr] by auto
next
  case (4 p xs h)
  then show ?case using stack_tcache_free_ok [of p xs h] by auto
qed

section \<open>Properties\<close>

lemma stack_init_boot:
  assumes "stack_init True os tcs = Some (0, Some t, tcs')" "mmap_fresh os" "mmap_at_most MAX_TASKS os"
  shows "sp.inv n (tcache_boot t h n) {}"
proof -
  have t: "t = \<lparr>tc_name = ''runtime_stacks'', tc_ops = stack_tcache_ops, item_size = RUNTIME_STACK_SIZE,
      mags_allocated = 0, mag_size = of_nat TCACHE_DEFAULT_MAG_SIZE, shared_mags = NULL,
      tc_data = stack_pool_init os\<rparr>"
    using assms(1) by (auto simp: stack_init_def tcache_create_def Let_def split: if_splits)
  have "sp_inv (stack_pool_init os)" "sp_outst (stack_pool_init os) = {}"
    using assms(2,3)
    by (simp_all add: sp_inv_def sp_outst_def created_def sp_free_list_def stack_pool_init_def
        call_base_def)
  then show ?thesis
    using tcache_boot_inv [OF t, of sp_inv sp_outst n h]
    by (simp add: stack_tcache_ops_def TCACHE_DEFAULT_MAG_SIZE_def TCACHE_MAX_MAG_SIZE_def)
qed

text \<open>The stack allocator: as long as the system maps at most \<open>MAX_TASKS\<close> stacks and never the same
  region twice, no sequence of allocations, frees and reclaims on any CPU faults, no stack is handed
  out while a task holds it, and every stack a task holds was mapped by the system.\<close>

theorem stack_alloc_safe:
  assumes "stack_init True os tcs = Some (0, Some t, tcs')" "mmap_fresh os" "mmap_at_most MAX_TASKS os"
    and "tc_reach n (tcache_boot t h n) s L" "c < n"
  shows "(\<exists>x s'. stack_alloc s c = Some (x, s') \<and> x \<notin> L) \<and>
     (\<exists>s'. tcache_reclaim s c = Some s' \<and> shared_mags (tc s') = NULL) \<and>
     L \<subseteq> created (tc_data (tc s)) \<and> card L \<le> MAX_TASKS"
proof -
  note safe = sp.reach_safe [OF assms(4) stack_init_boot [OF assms(1-3)] assms(5)]
  have "L \<subseteq> created (tc_data (tc s))" using safe(3) by (auto simp: sp_outst_def)
  moreover have "card (created (tc_data (tc s))) \<le> MAX_TASKS" using safe(4) by (rule sp_inv_created)
  ultimately have "card L \<le> MAX_TASKS" by (meson card_mono finite le_trans)
  with safe(1,2) \<open>L \<subseteq> created (tc_data (tc s))\<close> show ?thesis by (simp add: stack_alloc_def)
qed

text \<open>A system that maps eight stacks at the addresses asked for and then runs out.\<close>

theorem stack_alloc_safe_witness:
  "\<exists>t tcs' x s'. stack_init True (\<lambda>i a. if i < 8 then Some (of_nat i + 1) else None) [] = Some (0, Some t, tcs') \<and>
     stack_alloc (tcache_boot t (\<lambda>_. \<lparr>next_item = 0, next_mag = 0\<rparr>) 2) 1 = Some (x, s')"
proof -
  let ?os = "\<lambda>(i::nat) (a::addr). if i < 8 then Some (of_nat i + 1 :: addr) else None"
  have u: "unat (of_nat i + 1 :: addr) = i + 1" if "i < 8" for i :: nat
    using that by (simp add: unat_word_ariths unat_of_nat)
  have "mmap_fresh ?os"
    unfolding mmap_fresh_def
    by (auto split: if_splits dest!: arg_cong [where f = unat] simp: u unat_of_nat)
  moreover have "mmap_at_most MAX_TASKS ?os"
    unfolding mmap_at_most_def
  proof
    fix k
    have "card {i. i < k \<and> (\<exists>a. ?os i a \<noteq> None)} \<le> card {..<8::nat}"
      by (rule card_mono) auto
    then show "card {i. i < k \<and> (\<exists>a. ?os i a \<noteq> None)} \<le> MAX_TASKS" by (simp add: MAX_TASKS_def)
  qed
  moreover obtain t tcs' where t: "stack_init True ?os [] = Some (0, Some t, tcs')"
    by (simp add: stack_init_def tcache_create_def Let_def TCACHE_MIN_ITEM_SIZE_def TCACHE_MAX_MAG_SIZE_def TCACHE_DEFAULT_MAG_SIZE_def RUNTIME_STACK_SIZE_def)
  ultimately show ?thesis
    using stack_alloc_safe [OF t _ _ tc_reach.start, where n = 2 and c = 1] t by fastforce
qed

text \<open>Without that bound the check of the array comes too late: a push on the full array writes
  beyond its end before the \<^verbatim>\<open>BUG_ON\<close>, whose limit lies a magazine above the size, is reached.\<close>

theorem stack_free_overflow:
  assumes "free_stack_count p = MAX_TASKS" "xs \<noteq> []"
  shows "stack_tcache_free p h xs = None \<and> free_stack_count p < MAX_TASKS + TCACHE_DEFAULT_MAG_SIZE"
  using assms by (cases xs) (simp_all add: stack_tcache_free_def Let_def TCACHE_DEFAULT_MAG_SIZE_def)

text \<open>A full array and one more stack.\<close>

theorem stack_free_overflow_witness:
  "stack_tcache_free \<lparr>free_stack_count = MAX_TASKS, free_stacks = [], stack_pos = 0,
     os_mmap = (\<lambda>_ _. None), os_calls = 0\<rparr> (\<lambda>_. \<lparr>next_item = 0, next_mag = 0\<rparr>) [4096] = None"
  using stack_free_overflow [of "\<lparr>free_stack_count = MAX_TASKS, free_stacks = [], stack_pos = 0,
     os_mmap = (\<lambda>_ _. None), os_calls = 0\<rparr>" "[4096]"] by simp

end
