(* ===== verification/Timer_Heap.thy ===== *)
theory Timer_Heap
  imports Prelude "HOL-Library.Multiset"
begin

text \<open>
  The 4-ary heap of \<^verbatim>\<open>libos/sync/timer.c\<close>: \<^verbatim>\<open>sift_up\<close> and \<^verbatim>\<open>sift_down\<close> on an array of
  \<^verbatim>\<open>struct timer_idx\<close>, together with the writes of the positions into the timer entries. The
  theory shows that both restore the heap order around one changed position, keep the timers and
  keep every entry's position up to date.
\<close>

section \<open>Data\<close>

definition D :: nat where "D = 4"

record timer_entry =
  armed :: bool
  idx :: nat
  fn :: nat
  arg :: u64
  tk :: nat

record timer_idx =
  deadline_us :: u64
  te :: nat

type_synonym heap = "nat \<Rightarrow> timer_idx"
type_synonym entries = "nat \<Rightarrow> timer_entry"

definition parent :: "nat \<Rightarrow> nat" where "parent i = (i - 1) div D"

definition set_idx :: "nat \<Rightarrow> nat \<Rightarrow> entries \<Rightarrow> entries" where
  "set_idx e i es = es(e := (es e)\<lparr>idx := i\<rparr>)"

section \<open>The routines\<close>

definition is_valid_heap :: "heap \<Rightarrow> nat \<Rightarrow> bool" where
  "is_valid_heap h n \<longleftrightarrow>
     list_all (\<lambda>i. \<not> deadline_us (h (parent i)) > deadline_us (h i)) (rev [2..<n])"

text \<open>The four assignments of a loop round: the element at \<open>c\<close> moves to \<open>i\<close>, and \<open>tmp\<close> to \<open>c\<close>.\<close>

definition place :: "timer_idx \<Rightarrow> nat \<Rightarrow> nat \<Rightarrow> heap \<times> entries \<Rightarrow> heap \<times> entries" where
  "place tmp i c = (\<lambda>(h, es).
     let h = h(i := h c); es = set_idx (te (h i)) i es;
         h = h(c := tmp); es = set_idx (te (h c)) c es
     in (h, es))"

lemma parent_less: "0 < i \<Longrightarrow> parent i < i"
  unfolding parent_def D_def by (rule order_le_less_trans [OF div_le_dividend]) simp

function sift_up_loop :: "timer_idx \<Rightarrow> heap \<times> entries \<Rightarrow> nat \<Rightarrow> heap \<times> entries" where
  "sift_up_loop tmp he i =
     (if i > 0
      then let p = parent i
           in if deadline_us tmp \<ge> deadline_us (fst he p) then he
              else sift_up_loop tmp (place tmp i p he) p
      else he)"
  by pat_completeness auto
termination
  by (relation "measure (\<lambda>(tmp, he, i). i)") (auto simp: parent_less)

declare sift_up_loop.simps [simp del]

definition sift_up :: "heap \<times> entries \<Rightarrow> nat \<Rightarrow> heap \<times> entries" where
  "sift_up he i = sift_up_loop (fst he i) he i"

text \<open>The inner loop of \<^verbatim>\<open>sift_down\<close> looks for the child with the least deadline below \<open>w\<close>; \<open>None\<close>
  stands for the \<^verbatim>\<open>INT_MAX\<close> that marks that there is none.\<close>

fun min_child :: "heap \<Rightarrow> nat \<Rightarrow> nat list \<Rightarrow> u64 \<Rightarrow> nat option \<Rightarrow> nat option" where
  "min_child h n [] w c = c"
| "min_child h n (j # js) w c =
     (if j \<ge> n then c
      else if deadline_us (h j) < w then min_child h n js (deadline_us (h j)) (Some j)
      else min_child h n js w c)"

definition children :: "nat \<Rightarrow> nat list" where
  "children i = [i * D + 1..<i * D + D + 1]"

lemma min_child_spec:
  assumes "min_child h n js w c = Some r" "sorted js"
  shows "r \<in> set js \<and> r < n \<and> deadline_us (h r) < w \<and>
           (\<forall>j\<in>set js. j < n \<longrightarrow> deadline_us (h r) \<le> deadline_us (h j)) \<or>
         c = Some r \<and> (\<forall>j\<in>set js. j < n \<longrightarrow> w \<le> deadline_us (h j))"
  using assms
proof (induction js arbitrary: w c)
  case (Cons j js)
  show ?case
  proof (cases "j \<ge> n")
    case True
    then have "\<forall>i\<in>set (j # js). \<not> i < n" using Cons.prems(2) by auto
    then show ?thesis using Cons.prems(1) True by auto
  next
    case False
    then show ?thesis
      using Cons.IH [of "deadline_us (h j)" "Some j"] Cons.IH [of w c] Cons.prems
      by (cases "deadline_us (h j) < w") (auto simp: not_less intro: order_trans less_imp_le)
  qed
qed simp

lemma min_child_some [simp]: "min_child h n js w (Some r) \<noteq> None"
  by (induction js arbitrary: w r) auto

lemma min_child_none:
  assumes "min_child h n js w None = None" "sorted js" "j \<in> set js" "j < n"
  shows "w \<le> deadline_us (h j)"
  using assms
proof (induction js arbitrary: w)
  case (Cons i js)
  then show ?case
    using min_child_some [of h n js "deadline_us (h i)" i] by (auto split: if_splits simp: not_less)
qed simp

lemma children_sorted: "sorted (children i)"
  unfolding children_def by (rule sorted_upt)

lemma children_iff: "j \<in> set (children i) \<longleftrightarrow> 0 < j \<and> parent j = i"
  by (auto simp: children_def parent_def D_def)

lemma min_child_child:
  assumes "min_child h n (children i) w None = Some c"
  shows "0 < c" "parent c = i" "c < n" "deadline_us (h c) < w"
    "0 < j \<Longrightarrow> parent j = i \<Longrightarrow> j < n \<Longrightarrow> deadline_us (h c) \<le> deadline_us (h j)"
proof -
  have "sorted (children i)" by (rule children_sorted)
  from min_child_spec [OF assms this]
  show "0 < c" "parent c = i" "c < n" "deadline_us (h c) < w"
    "0 < j \<Longrightarrow> parent j = i \<Longrightarrow> j < n \<Longrightarrow> deadline_us (h c) \<le> deadline_us (h j)"
    by (auto simp: children_iff)
qed

function sift_down_loop :: "timer_idx \<Rightarrow> heap \<times> entries \<Rightarrow> nat \<Rightarrow> nat \<Rightarrow> heap \<times> entries" where
  "sift_down_loop tmp he i n =
     (case min_child (fst he) n (children i) (deadline_us tmp) None of
        None \<Rightarrow> he
      | Some c \<Rightarrow> sift_down_loop tmp (place tmp i c he) c n)"
  by pat_completeness auto
termination
proof (relation "measure (\<lambda>(tmp, he, i, n). n - i)", simp, clarsimp)
  fix tmp :: timer_idx and h :: heap and i n c
  assume "min_child h n (children i) (deadline_us tmp) None = Some c"
  then have "0 < c" "parent c = i" "c < n" by (auto dest: min_child_child)
  then show "n - c < n - i" using parent_less [of c] by auto
qed

declare sift_down_loop.simps [simp del]

definition sift_down :: "heap \<times> entries \<Rightarrow> nat \<Rightarrow> nat \<Rightarrow> heap \<times> entries" where
  "sift_down he i n = sift_down_loop (fst he i) he i n"

section \<open>Heap order\<close>

text \<open>The order holds on every edge whose parent is at \<open>b\<close> or above; \<open>hole\<close> leaves out the edges at
  \<open>i\<close> and asks instead that the children of \<open>i\<close> are not before its parent.\<close>

definition edge_ok :: "heap \<Rightarrow> nat \<Rightarrow> bool" where
  "edge_ok h j \<longleftrightarrow> deadline_us (h (parent j)) \<le> deadline_us (h j)"

definition heap_from :: "heap \<Rightarrow> nat \<Rightarrow> nat \<Rightarrow> bool" where
  "heap_from h n b \<longleftrightarrow> (\<forall>j. 0 < j \<longrightarrow> j < n \<longrightarrow> b \<le> parent j \<longrightarrow> edge_ok h j)"

abbreviation heap_ok :: "heap \<Rightarrow> nat \<Rightarrow> bool" where
  "heap_ok h n \<equiv> heap_from h n 0"

definition hole :: "heap \<Rightarrow> nat \<Rightarrow> nat \<Rightarrow> nat \<Rightarrow> bool" where
  "hole h n b i \<longleftrightarrow>
     (\<forall>j. 0 < j \<longrightarrow> j < n \<longrightarrow> b \<le> parent j \<longrightarrow> j \<noteq> i \<longrightarrow> parent j \<noteq> i \<longrightarrow> edge_ok h j) \<and>
     (0 < i \<longrightarrow> b \<le> parent i \<longrightarrow>
        (\<forall>j. 0 < j \<longrightarrow> j < n \<longrightarrow> parent j = i \<longrightarrow> deadline_us (h (parent i)) \<le> deadline_us (h j)))"

definition up_ok :: "heap \<Rightarrow> nat \<Rightarrow> nat \<Rightarrow> bool" where
  "up_ok h b i \<longleftrightarrow> (0 < i \<longrightarrow> b \<le> parent i \<longrightarrow> edge_ok h i)"

definition down_ok :: "heap \<Rightarrow> nat \<Rightarrow> nat \<Rightarrow> bool" where
  "down_ok h n i \<longleftrightarrow> (\<forall>j. 0 < j \<longrightarrow> j < n \<longrightarrow> parent j = i \<longrightarrow> edge_ok h j)"

lemma heap_from_hole:
  "hole h n b i \<Longrightarrow> up_ok h b i \<Longrightarrow> down_ok h n i \<Longrightarrow> heap_from h n b"
  unfolding heap_from_def hole_def up_ok_def down_ok_def by blast

lemma hole_heap_from:
  assumes "heap_from h n b" "i < n"
  shows "hole h n b i" "up_ok h b i"
proof -
  show u: "up_ok h b i" using assms by (simp add: heap_from_def up_ok_def)
  have "deadline_us (h (parent i)) \<le> deadline_us (h j)"
    if "0 < i" "b \<le> parent i" "0 < j" "j < n" "parent j = i" for j
  proof -
    have "parent i < i" by (rule parent_less [OF that(1)])
    then have "edge_ok h j" "edge_ok h i" using that assms by (auto simp: heap_from_def)
    then show ?thesis using that by (auto simp: edge_ok_def)
  qed
  then show "hole h n b i" using assms by (auto simp: hole_def heap_from_def)
qed

lemma hole_change:
  assumes "hole h n b i"
  shows "hole (h(i := x)) n b i"
proof -
  have "parent i \<noteq> i" if "0 < i" using parent_less [OF that] by simp
  then show ?thesis using assms unfolding hole_def edge_ok_def by auto
qed

text \<open>The root of a heap is its least element.\<close>

lemma heap_root_le:
  assumes "heap_ok h n" "i < n"
  shows "deadline_us (h 0) \<le> deadline_us (h i)"
  using assms(2)
proof (induction i rule: less_induct)
  case (less i)
  show ?case
  proof (cases "i = 0")
    case False
    then have "parent i < i" by (simp add: parent_less)
    then have "deadline_us (h 0) \<le> deadline_us (h (parent i))" using less by simp
    moreover have "edge_ok h i" using assms(1) less.prems False by (simp add: heap_from_def)
    ultimately show ?thesis by (simp add: edge_ok_def)
  qed simp
qed

text \<open>One round upwards and one round downwards.\<close>

definition swapped :: "heap \<Rightarrow> nat \<Rightarrow> nat \<Rightarrow> heap" where
  "swapped h i c = h(i := h c, c := h i)"

lemma hole_up_step:
  assumes hole: "hole h n 0 i" and i: "0 < i" "i < n"
    and lt: "deadline_us (h i) < deadline_us (h (parent i))"
  shows "hole (swapped h i (parent i)) n 0 (parent i) \<and> down_ok (swapped h i (parent i)) n (parent i)"
proof -
  let ?p = "parent i" and ?h = "swapped h i (parent i)"
  have pi: "?p < i" "?p \<noteq> i" using parent_less [OF i(1)] by auto
  have pj: "parent j < j" if "0 < j" for j by (rule parent_less [OF that])
  have sib: "deadline_us (h ?p) \<le> deadline_us (h j)" if "0 < j" "j < n" "parent j = ?p" "j \<noteq> i" for j
  proof -
    have "edge_ok h j" using hole that pi by (auto simp: hole_def)
    then show ?thesis using that(3) by (simp add: edge_ok_def)
  qed
  have "edge_ok ?h j" if j: "0 < j" "j < n" "j \<noteq> ?p" "parent j \<noteq> ?p" for j
  proof (cases "parent j = i")
    case True
    then have "deadline_us (h ?p) \<le> deadline_us (h j)" using hole i j by (auto simp: hole_def)
    then show ?thesis using True j pj [OF j(1)] pi by (auto simp: edge_ok_def swapped_def)
  next
    case False
    then have "j \<noteq> i" using j(4) by auto
    then have "edge_ok h j" using hole j False by (auto simp: hole_def)
    then show ?thesis using j False \<open>j \<noteq> i\<close> by (auto simp: edge_ok_def swapped_def)
  qed
  moreover have "edge_ok ?h j" if j: "0 < j" "j < n" "parent j = ?p" for j
    using sib [OF j] j lt pi pj [OF j(1)] by (cases "j = i") (auto simp: edge_ok_def swapped_def)
  moreover have "deadline_us (?h (parent ?p)) \<le> deadline_us (?h j)"
    if j: "0 < ?p" "0 < j" "j < n" "parent j = ?p" for j
  proof -
    have "parent ?p < ?p" by (rule pj [OF j(1)])
    then have "edge_ok h ?p" using hole j pi i by (auto simp: hole_def)
    then have "deadline_us (h (parent ?p)) \<le> deadline_us (h ?p)" by (simp add: edge_ok_def)
    then show ?thesis
      using sib [OF j(2-4)] \<open>parent ?p < ?p\<close> pi pj [OF j(2)] j by (cases "j = i") (auto simp: swapped_def)
  qed
  ultimately show ?thesis by (auto simp: hole_def down_ok_def)
qed

lemma hole_down_step:
  assumes hole: "hole h n b i" and up: "up_ok h b i" and bi: "b \<le> i"
    and c: "0 < c" "parent c = i" "c < n" "deadline_us (h c) < deadline_us (h i)"
    and least: "\<And>j. 0 < j \<Longrightarrow> parent j = i \<Longrightarrow> j < n \<Longrightarrow> deadline_us (h c) \<le> deadline_us (h j)"
  shows "hole (swapped h i c) n b c \<and> up_ok (swapped h i c) b c"
proof -
  let ?h = "swapped h i c"
  have ic: "i < c" using parent_less [OF c(1)] c(2) by simp
  have pj: "parent j < j" if "0 < j" for j by (rule parent_less [OF that])
  have "edge_ok ?h j" if j: "0 < j" "j < n" "b \<le> parent j" "j \<noteq> c" "parent j \<noteq> c" for j
  proof (cases "parent j = i")
    case True
    then show ?thesis using least [OF j(1) True j(2)] j pj [OF j(1)] ic
      by (auto simp: edge_ok_def swapped_def)
  next
    case False
    show ?thesis
    proof (cases "j = i")
      case True
      then have "deadline_us (h (parent i)) \<le> deadline_us (h c)"
        using hole j c by (auto simp: hole_def)
      then show ?thesis using True j pj [OF j(1)] ic by (auto simp: edge_ok_def swapped_def)
    next
      case False
      then have "edge_ok h j" using hole j \<open>parent j \<noteq> i\<close> by (auto simp: hole_def)
      then show ?thesis using j False \<open>parent j \<noteq> i\<close> by (auto simp: edge_ok_def swapped_def)
    qed
  qed
  moreover have "deadline_us (?h (parent c)) \<le> deadline_us (?h j)"
    if j: "0 < j" "j < n" "parent j = c" for j
  proof -
    have "edge_ok h j" using hole j c bi ic pj [OF j(1)] by (auto simp: hole_def)
    then show ?thesis using j c ic pj [OF j(1)] by (auto simp: edge_ok_def swapped_def)
  qed
  moreover have "edge_ok ?h c" using c ic by (auto simp: edge_ok_def swapped_def)
  ultimately show ?thesis by (auto simp: hole_def up_ok_def)
qed

section \<open>Positions and contents\<close>

text \<open>Every timer of the heap knows its position; so no entry is in the heap twice.\<close>

definition idx_ok :: "heap \<Rightarrow> nat \<Rightarrow> entries \<Rightarrow> bool" where
  "idx_ok h n es \<longleftrightarrow> (\<forall>j<n. idx (es (te (h j))) = j)"

definition heap_mset :: "heap \<Rightarrow> nat \<Rightarrow> timer_idx multiset" where
  "heap_mset h n = mset (map h [0..<n])"

text \<open>What the sifting may change of the entries: the positions of the timers of the heap.\<close>

definition same_entries :: "heap \<Rightarrow> nat \<Rightarrow> entries \<Rightarrow> entries \<Rightarrow> bool" where
  "same_entries h n es es' \<longleftrightarrow>
     (\<forall>e. es' e = (es e)\<lparr>idx := idx (es' e)\<rparr>) \<and> (\<forall>e. e \<notin> te ` h ` {..<n} \<longrightarrow> es' e = es e)"

definition sift_ok :: "nat \<Rightarrow> heap \<times> entries \<Rightarrow> heap \<times> entries \<Rightarrow> bool" where
  "sift_ok n he he' \<longleftrightarrow>
     idx_ok (fst he') n (snd he') \<and> heap_mset (fst he') n = heap_mset (fst he) n \<and>
     same_entries (fst he) n (snd he) (snd he') \<and> (\<forall>j\<ge>n. fst he' j = fst he j)"

lemma idx_ok_inj: "idx_ok h n es \<Longrightarrow> i < n \<Longrightarrow> j < n \<Longrightarrow> te (h i) = te (h j) \<Longrightarrow> i = j"
  by (metis idx_ok_def)

lemma heap_mset_swapped:
  assumes "i < n" "c < n"
  shows "heap_mset (swapped h i c) n = heap_mset h n"
proof -
  let ?xs = "map h [0..<n]"
  have "map (swapped h i c) [0..<n] = ?xs[i := ?xs ! c, c := ?xs ! i]"
    using assms by (intro nth_equalityI) (auto simp: nth_list_update swapped_def)
  moreover have "mset (?xs[i := ?xs ! c, c := ?xs ! i]) = mset ?xs"
    by (rule mset_swap) (use assms in auto)
  ultimately show ?thesis by (simp only: heap_mset_def)
qed

lemma heap_mset_set: "set_mset (heap_mset h n) = h ` {..<n}"
  by (auto simp: heap_mset_def atLeast0LessThan)

lemma heap_mset_Suc: "heap_mset h (Suc n) = add_mset (h n) (heap_mset h n)"
  by (simp add: heap_mset_def)

lemma heap_mset_cong: "(\<And>j. j < n \<Longrightarrow> h j = h' j) \<Longrightarrow> heap_mset h n = heap_mset h' n"
  unfolding heap_mset_def by (intro arg_cong [where f = mset] map_cong) auto

lemma sift_ok_refl: "idx_ok h n es \<Longrightarrow> sift_ok n (h, es) (h, es)"
  by (simp add: sift_ok_def same_entries_def)

lemma sift_ok_trans:
  assumes "sift_ok n a b" "sift_ok n b c"
  shows "sift_ok n a c"
proof -
  have "h ` {..<n} = h' ` {..<n}" if "heap_mset h n = heap_mset h' n" for h h' :: heap
    using that heap_mset_set by metis
  then have te: "te ` fst b ` {..<n} = te ` fst a ` {..<n}" using assms(1) by (metis sift_ok_def)
  have "snd c e = (snd a e)\<lparr>idx := idx (snd c e)\<rparr>" for e
  proof -
    have "snd c e = (snd b e)\<lparr>idx := idx (snd c e)\<rparr>" "snd b e = (snd a e)\<lparr>idx := idx (snd b e)\<rparr>"
      using assms by (simp_all add: sift_ok_def same_entries_def)
    then have "snd c e = (snd a e)\<lparr>idx := idx (snd b e)\<rparr>\<lparr>idx := idx (snd c e)\<rparr>" by metis
    then show ?thesis by simp
  qed
  then show ?thesis using assms te by (simp add: sift_ok_def same_entries_def)
qed

lemma place_swapped:
  assumes "idx_ok h n es" "i < n" "c < n" "i \<noteq> c"
  shows "fst (place (h i) i c (h, es)) = swapped h i c"
    and "sift_ok n (h, es) (place (h i) i c (h, es))"
proof -
  let ?es = "set_idx (te (h i)) c (set_idx (te (h c)) i es)"
  have p: "place (h i) i c (h, es) = (swapped h i c, ?es)"
    using assms(4) by (simp add: place_def swapped_def Let_def)
  then show "fst (place (h i) i c (h, es)) = swapped h i c" by simp
  have ne: "te (h i) \<noteq> te (h c)" using idx_ok_inj [OF assms(1-3)] assms(4) by blast
  have "idx (?es (te (swapped h i c j))) = j" if "j < n" for j
    using that assms ne idx_ok_inj [OF assms(1)]
    by (auto simp: set_idx_def swapped_def idx_ok_def)
  moreover have "same_entries h n es ?es"
    using assms(2,3) by (auto simp: same_entries_def set_idx_def)
  ultimately show "sift_ok n (h, es) (place (h i) i c (h, es))"
    using p assms heap_mset_swapped [OF assms(2,3)]
    by (auto simp: sift_ok_def idx_ok_def swapped_def)
qed

section \<open>Correctness of sifting\<close>

lemma sift_up_loop_ok:
  assumes "idx_ok (fst he) n (snd he)" "i < n" "hole (fst he) n 0 i" "down_ok (fst he) n i" "fst he i = tmp"
  shows "heap_ok (fst (sift_up_loop tmp he i)) n \<and> sift_ok n he (sift_up_loop tmp he i)"
  using assms
proof (induction tmp he i rule: sift_up_loop.induct)
  case (1 tmp he i)
  let ?h = "fst he"
  show ?case
  proof (cases "0 < i \<and> deadline_us tmp < deadline_us (?h (parent i))")
    case False
    then have "sift_up_loop tmp he i = he" by (auto simp: sift_up_loop.simps [of tmp he i] Let_def not_less)
    moreover have "up_ok ?h 0 i" using False 1(6) by (auto simp: up_ok_def edge_ok_def not_less)
    ultimately show ?thesis
      using heap_from_hole [OF 1(4) _ 1(5)] sift_ok_refl [of ?h n "snd he"] 1(2) by simp
  next
    case True
    let ?p = "parent i" and ?he = "place tmp i (parent i) he"
    have p: "?p < i" using True parent_less by simp
    have pl: "fst ?he = swapped ?h i ?p" "sift_ok n he ?he"
      using place_swapped [OF 1(2), of i ?p] 1(3,6) p by (auto simp: prod.expand)
    have st: "hole (fst ?he) n 0 ?p" "down_ok (fst ?he) n ?p"
      using hole_up_step [OF 1(4), of] True 1(3,6) pl(1) by auto
    have "heap_ok (fst (sift_up_loop tmp ?he ?p)) n \<and> sift_ok n ?he (sift_up_loop tmp ?he ?p)"
    proof (rule 1(1) [OF _ refl])
      show "idx_ok (fst ?he) n (snd ?he)" using pl(2) by (simp add: sift_ok_def)
      show "fst ?he ?p = tmp" using pl(1) 1(6) by (simp add: swapped_def)
    qed (use True st 1(3) p in auto)
    moreover have "sift_up_loop tmp he i = sift_up_loop tmp ?he ?p"
      using True by (auto simp: sift_up_loop.simps [of tmp he i] Let_def dest: leD)
    ultimately show ?thesis using sift_ok_trans [OF pl(2)] by simp
  qed
qed

lemma sift_up_ok:
  assumes "idx_ok h n es" "i < n" "hole h n 0 i" "down_ok h n i"
  shows "heap_ok (fst (sift_up (h, es) i)) n \<and> sift_ok n (h, es) (sift_up (h, es) i)"
  using sift_up_loop_ok [of "(h, es)" n i] assms by (simp add: sift_up_def)

text \<open>Sifting up from a position whose children are not known to be later either leaves the heap as it
  is, with the edge above in order, or repairs the whole heap.\<close>

lemma sift_up_cases:
  assumes "idx_ok h n es" "i < n" "hole h n 0 i"
  shows "sift_up (h, es) i = (h, es) \<and> up_ok h 0 i \<or>
         heap_ok (fst (sift_up (h, es) i)) n \<and> sift_ok n (h, es) (sift_up (h, es) i)"
proof (cases "0 < i \<and> deadline_us (h i) < deadline_us (h (parent i))")
  case False
  then show ?thesis
    by (auto simp: sift_up_def sift_up_loop.simps [of _ _ i] Let_def not_less up_ok_def edge_ok_def)
next
  case True
  let ?p = "parent i" and ?he = "place (h i) i (parent i) (h, es)"
  have p: "?p < i" using True parent_less by simp
  have pl: "fst ?he = swapped h i ?p" "sift_ok n (h, es) ?he"
    using place_swapped [OF assms(1), of i ?p] assms(2) p by auto
  have st: "hole (fst ?he) n 0 ?p" "down_ok (fst ?he) n ?p"
    using hole_up_step [OF assms(3)] True assms(2) pl(1) by auto
  have "heap_ok (fst (sift_up_loop (h i) ?he ?p)) n \<and> sift_ok n ?he (sift_up_loop (h i) ?he ?p)"
    using sift_up_loop_ok [of ?he n ?p "h i"] st pl assms(2) p by (simp add: sift_ok_def swapped_def)
  moreover have "sift_up (h, es) i = sift_up_loop (h i) ?he ?p"
    using True by (auto simp: sift_up_def sift_up_loop.simps [of _ _ i] Let_def dest: leD)
  ultimately show ?thesis using sift_ok_trans [OF pl(2)] by simp
qed

lemma sift_down_loop_ok:
  assumes "idx_ok (fst he) n (snd he)" "i < n" "hole (fst he) n b i" "up_ok (fst he) b i" "b \<le> i"
    "fst he i = tmp"
  shows "heap_from (fst (sift_down_loop tmp he i n)) n b \<and> sift_ok n he (sift_down_loop tmp he i n)"
  using assms
proof (induction tmp he i n rule: sift_down_loop.induct)
  case (1 tmp he i n)
  let ?h = "fst he"
  show ?case
  proof (cases "min_child ?h n (children i) (deadline_us tmp) None")
    case None
    then have "sift_down_loop tmp he i n = he" by (simp add: sift_down_loop.simps [of tmp he i n])
    moreover have "down_ok ?h n i"
      using min_child_none [OF None children_sorted] 1(7)
      by (auto simp: down_ok_def edge_ok_def children_iff)
    ultimately show ?thesis
      using heap_from_hole [OF 1(4,5)] sift_ok_refl [of ?h n "snd he"] 1(2) by simp
  next
    case (Some c)
    let ?he = "place tmp i c he"
    note c = min_child_child [OF Some]
    have ic: "i < c" using parent_less [OF c(1)] c(2) by simp
    have pl: "fst ?he = swapped ?h i c" "sift_ok n he ?he"
      using place_swapped [OF 1(2), of i c] 1(3,7) c(3) ic by auto
    have st: "hole (fst ?he) n b c" "up_ok (fst ?he) b c"
      using hole_down_step [OF 1(4,5,6) c(1,2,3)] c(4,5) 1(7) pl(1) by auto
    have "heap_from (fst (sift_down_loop tmp ?he c n)) n b \<and> sift_ok n ?he (sift_down_loop tmp ?he c n)"
    proof (rule 1(1) [OF Some])
      show "idx_ok (fst ?he) n (snd ?he)" using pl(2) by (simp add: sift_ok_def)
      show "fst ?he c = tmp" using pl(1) 1(7) by (simp add: swapped_def)
    qed (use st c(3) ic 1(6) in auto)
    moreover have "sift_down_loop tmp he i n = sift_down_loop tmp ?he c n"
      using Some by (simp add: sift_down_loop.simps [of tmp he i n])
    ultimately show ?thesis using sift_ok_trans [OF pl(2)] by simp
  qed
qed

lemma sift_down_ok:
  assumes "idx_ok h n es" "i < n" "hole h n b i" "up_ok h b i" "b \<le> i"
  shows "heap_from (fst (sift_down (h, es) i n)) n b \<and> sift_ok n (h, es) (sift_down (h, es) i n)"
  using sift_down_loop_ok [of "(h, es)" n i b] assms by (simp add: sift_down_def)

text \<open>The last loop of \<^verbatim>\<open>timer_merge\<close>: sift down from \<open>i\<close> to the root.\<close>

fun heapify :: "heap \<times> entries \<Rightarrow> nat \<Rightarrow> nat \<Rightarrow> heap \<times> entries" where
  "heapify he 0 n = sift_down he 0 n"
| "heapify he (Suc i) n = heapify (sift_down he (Suc i) n) i n"

lemma hole_next:
  assumes "heap_from h n (Suc i)"
  shows "hole h n i i" "up_ok h i i"
  using assms parent_less [of i] by (auto simp: hole_def heap_from_def up_ok_def)

lemma heapify_step:
  assumes "idx_ok (fst he) n (snd he)" "heap_from (fst he) n (Suc i)" "i < n"
  shows "heap_from (fst (sift_down he i n)) n i \<and> sift_ok n he (sift_down he i n)"
  using sift_down_ok [of "fst he" n "snd he" i i] hole_next [OF assms(2)] assms(1,3) by simp

lemma heapify_ok:
  assumes "idx_ok (fst he) n (snd he)" "heap_from (fst he) n (Suc i)" "i < n"
  shows "heap_ok (fst (heapify he i n)) n \<and> sift_ok n he (heapify he i n)"
  using assms
proof (induction i arbitrary: he)
  case 0
  then show ?case using heapify_step [of he n 0] by simp
next
  case (Suc i)
  let ?he = "sift_down he (Suc i) n"
  have st: "heap_from (fst ?he) n (Suc i)" "sift_ok n he ?he"
    using heapify_step [OF Suc.prems] by auto
  then have "heap_ok (fst (heapify ?he i n)) n \<and> sift_ok n ?he (heapify ?he i n)"
    using Suc.IH [of ?he] Suc.prems(3) by (simp add: sift_ok_def)
  then show ?case using sift_ok_trans [OF st(2)] by simp
qed

lemma heap_from_leaves: "heap_from h n (Suc (n div D))"
  by (auto simp: heap_from_def parent_def D_def)

end
