(* ===== verification/Timer.thy ===== *)
theory Timer
  imports Timer_Heap
begin

text \<open>
  The timers of \<^verbatim>\<open>libos/sync/timer.c\<close> and \<^verbatim>\<open>skyloft/sync/timer.h\<close>: per kernel thread a heap of armed
  timers, starting, cancelling, merging the heap of another thread, and running the expired ones in
  the softirq. \<open>None\<close> is a \<^verbatim>\<open>BUG\<close> or an access outside the heap array. Locks are taken for the
  whole of an operation, except around the timer handlers, which are a parameter of
  \<open>timer_softirq\<close> and may change the timers. The preemption counter of the calling thread is part of
  the state, as \<^verbatim>\<open>spin_lock_np\<close> and \<^verbatim>\<open>putk\<close> change it.
\<close>

section \<open>State and operations\<close>

record timer_st =
  nr_timers :: "nat \<Rightarrow> nat"
  timers :: "nat \<Rightarrow> heap"
  ents :: entries
  preempt_cnt :: u32

definition preempt_disable :: "timer_st \<Rightarrow> timer_st" where
  "preempt_disable s = s\<lparr>preempt_cnt := preempt_cnt s + 1\<rparr>"

definition preempt_enable :: "timer_st \<Rightarrow> timer_st" where
  "preempt_enable s = s\<lparr>preempt_cnt := preempt_cnt s - 1\<rparr>"

definition preempt_enabled :: "timer_st \<Rightarrow> bool" where
  "preempt_enabled s \<longleftrightarrow> preempt_cnt s = 0"

definition timer_init :: "timer_st \<Rightarrow> nat \<Rightarrow> nat \<Rightarrow> u64 \<Rightarrow> timer_st" where
  "timer_init s e f a = s\<lparr>ents := (ents s)(e := (ents s e)\<lparr>armed := False, fn := f, arg := a\<rparr>)\<rparr>"

definition timer_needed :: "timer_st \<Rightarrow> nat \<Rightarrow> u64 \<Rightarrow> bool" where
  "timer_needed s k now \<longleftrightarrow> nr_timers s k > 0 \<and> deadline_us (timers s k 0) \<le> now"

definition timer_earliest_deadline :: "timer_st \<Rightarrow> nat \<Rightarrow> u64" where
  "timer_earliest_deadline s k = (if nr_timers s k = 0 then 0 else deadline_us (timers s k 0))"

definition timer_start_locked :: "timer_st \<Rightarrow> nat \<Rightarrow> nat \<Rightarrow> u64 \<Rightarrow> timer_st option" where
  "timer_start_locked s k e deadline =
     (if armed (ents s e) then None
      else let i = nr_timers s k;
               s = s\<lparr>nr_timers := (nr_timers s)(k := i + 1)\<rparr>
           in if nr_timers s k \<ge> MAX_TIMERS then None
              else let h = (timers s k)(i := \<lparr>deadline_us = deadline, te = e\<rparr>);
                       es = (ents s)(e := (ents s e)\<lparr>idx := i, tk := k\<rparr>);
                       (h, es) = sift_up (h, es) i
                   in Some (s\<lparr>timers := (timers s)(k := h), ents := es(e := (es e)\<lparr>armed := True\<rparr>)\<rparr>))"

definition timer_start :: "timer_st \<Rightarrow> nat \<Rightarrow> nat \<Rightarrow> u64 \<Rightarrow> timer_st option" where
  "timer_start s k e deadline =
     map_option (\<lambda>s. preempt_enable (preempt_enable s))
       (timer_start_locked (preempt_disable s) k e deadline)"

definition timer_cancel :: "timer_st \<Rightarrow> nat \<Rightarrow> (bool \<times> timer_st) option" where
  "timer_cancel s e =
     (let s = preempt_disable (preempt_disable s); k = tk (ents s e)
      in if \<not> armed (ents s e) then Some (False, preempt_enable s)
         else let s = s\<lparr>ents := (ents s)(e := (ents s e)\<lparr>armed := False\<rparr>)\<rparr>
              in if nr_timers s k = 0 then None
                 else let last = nr_timers s k - 1;
                          s = s\<lparr>nr_timers := (nr_timers s)(k := last)\<rparr>;
                          i = idx (ents s e)
                      in if i = last then Some (True, preempt_enable s)
                         else let h = (timers s k)(i := timers s k last);
                                  es = set_idx (te (h i)) i (ents s);
                                  he = sift_up (h, es) i;
                                  (h, es) = sift_down he (idx (snd he e)) last
                              in Some (True, preempt_enable (s\<lparr>timers := (timers s)(k := h), ents := es\<rparr>)))"

text \<open>The first loop of \<^verbatim>\<open>timer_merge\<close> appends the timers of \<open>r\<close>, from \<open>i\<close> on, to those of \<open>k\<close>.\<close>

function merge_loop :: "timer_st \<Rightarrow> nat \<Rightarrow> nat \<Rightarrow> nat \<Rightarrow> nat \<Rightarrow> timer_st option" where
  "merge_loop s k r i nr =
     (if i < nr
      then let n = nr_timers s k; x = timers s r i;
               s = s\<lparr>timers := (timers s)(k := (timers s k)(n := x)),
                     ents := (ents s)(te x := (ents s (te x))\<lparr>idx := n, tk := k\<rparr>),
                     nr_timers := (nr_timers s)(k := n + 1)\<rparr>
           in if nr_timers s k \<ge> MAX_TIMERS then None else merge_loop s k r (i + 1) nr
      else Some s)"
  by pat_completeness auto
termination
  by (relation "measure (\<lambda>(s, k, r, i, nr). nr - i)") auto

declare merge_loop.simps [simp del]

definition timer_merge :: "timer_st \<Rightarrow> nat \<Rightarrow> nat \<Rightarrow> timer_st option" where
  "timer_merge s k r =
     (if nr_timers s r = 0 then Some s
      else map_option
        (\<lambda>s. let s = s\<lparr>nr_timers := (nr_timers s)(r := 0)\<rparr>;
                 n = nr_timers s k;
                 (h, es) = heapify (timers s k, ents s) (n div D) n
             in s\<lparr>timers := (timers s)(k := h), ents := es\<rparr>)
        (merge_loop s k r 0 (nr_timers s r)))"

text \<open>The body of the softirq loop up to the handler.\<close>

definition timer_pop :: "timer_st \<Rightarrow> nat \<Rightarrow> timer_st" where
  "timer_pop s k =
     (let i = nr_timers s k - 1;
          s = s\<lparr>nr_timers := (nr_timers s)(k := i)\<rparr>
      in if i > 0
         then let h = (timers s k)(0 := timers s k i);
                  es = set_idx (te (h 0)) 0 (ents s);
                  (h, es) = sift_down (h, es) 0 i
              in s\<lparr>timers := (timers s)(k := h), ents := es\<rparr>
         else s)"

text \<open>\<open>run e\<close> is the call \<^verbatim>\<open>e->fn(e->arg)\<close> and \<open>clock t\<close> the \<open>t\<close>-th reading of \<^verbatim>\<open>now_us\<close>; the result
  lists the timers that were run.\<close>

fun softirq_loop ::
  "(nat \<Rightarrow> timer_st \<Rightarrow> timer_st option) \<Rightarrow> (nat \<Rightarrow> u64) \<Rightarrow> nat \<Rightarrow> nat \<Rightarrow> nat \<Rightarrow> timer_st
     \<Rightarrow> (timer_idx list \<times> timer_st) option" where
  "softirq_loop run clock t k 0 s = Some ([], s)"
| "softirq_loop run clock t k (Suc budget) s =
     (if timer_needed s k (clock t)
      then let x = timers s k 0
           in case run (te x) (timer_pop s k) of
                None \<Rightarrow> None
              | Some s \<Rightarrow>
                  map_option (\<lambda>(l, s). (x # l, s)) (softirq_loop run clock (t + 1) k budget s)
      else Some ([], s))"

definition timer_softirq ::
  "(nat \<Rightarrow> timer_st \<Rightarrow> timer_st option) \<Rightarrow> (nat \<Rightarrow> u64) \<Rightarrow> timer_st \<Rightarrow> nat \<Rightarrow> u32
     \<Rightarrow> (timer_idx list \<times> timer_st) option" where
  "timer_softirq run clock s k budget = softirq_loop run clock 0 k (unat budget) s"

section \<open>Invariant\<close>

definition pending :: "timer_st \<Rightarrow> nat \<Rightarrow> timer_idx multiset" where
  "pending s k = heap_mset (timers s k) (nr_timers s k)"

definition timer_inv :: "timer_st \<Rightarrow> bool" where
  "timer_inv s \<longleftrightarrow>
     (\<forall>k. nr_timers s k < MAX_TIMERS \<and> heap_ok (timers s k) (nr_timers s k) \<and>
          idx_ok (timers s k) (nr_timers s k) (ents s) \<and>
          (\<forall>x \<in># pending s k. armed (ents s (te x)) \<and> tk (ents s (te x)) = k))"

lemma timer_invD:
  assumes "timer_inv s"
  shows "nr_timers s k < MAX_TIMERS" "heap_ok (timers s k) (nr_timers s k)"
    "idx_ok (timers s k) (nr_timers s k) (ents s)"
    "x \<in># pending s k \<Longrightarrow> armed (ents s (te x))" "x \<in># pending s k \<Longrightarrow> tk (ents s (te x)) = k"
  using assms by (simp_all add: timer_inv_def)

lemma pending_iff: "x \<in># pending s k \<longleftrightarrow> (\<exists>j<nr_timers s k. x = timers s k j)"
  by (auto simp: pending_def heap_mset_set)

lemma timer_inv_slot:
  assumes "timer_inv s" "j < nr_timers s k"
  shows "armed (ents s (te (timers s k j)))" "tk (ents s (te (timers s k j))) = k"
    "idx (ents s (te (timers s k j))) = j"
  using timer_invD(3-5) [OF assms(1), where k = k] assms(2) by (auto simp: pending_iff idx_ok_def)

lemma pending_idx:
  assumes "timer_inv s" "x \<in># pending s k"
  shows "idx (ents s (te x)) < nr_timers s k \<and> timers s k (idx (ents s (te x))) = x"
  using timer_invD(3) [OF assms(1), of k] assms(2) by (auto simp: pending_iff idx_ok_def)

text \<open>Changing the heap of one thread: what has to be shown for the invariant.\<close>

lemma timer_inv_upd_slots:
  assumes inv: "timer_inv s"
    and s': "nr_timers s' = (nr_timers s)(k := n)" "\<And>k'. k' \<noteq> k \<Longrightarrow> timers s' k' = timers s k'"
    and h: "n < MAX_TIMERS" "heap_ok (timers s' k) n" "idx_ok (timers s' k) n (ents s')"
    and own: "\<And>x. x \<in># heap_mset (timers s' k) n \<Longrightarrow> armed (ents s' (te x)) \<and> tk (ents s' (te x)) = k"
    and other: "\<And>k' j. k' \<noteq> k \<Longrightarrow> j < nr_timers s k' \<Longrightarrow>
      ents s' (te (timers s k' j)) = ents s (te (timers s k' j))"
  shows "timer_inv s'"
  unfolding timer_inv_def
proof (intro allI)
  fix k'
  show "nr_timers s' k' < MAX_TIMERS \<and> heap_ok (timers s' k') (nr_timers s' k') \<and>
     idx_ok (timers s' k') (nr_timers s' k') (ents s') \<and>
     (\<forall>x \<in># pending s' k'. armed (ents s' (te x)) \<and> tk (ents s' (te x)) = k')"
  proof (cases "k' = k")
    case True
    then show ?thesis using s' h own by (auto simp: pending_def)
  next
    case False
    note d = timer_invD [OF inv, where k = k']
    note eq = other [OF False]
    have "idx_ok (timers s k') (nr_timers s k') (ents s')" using d(3) eq by (simp add: idx_ok_def)
    moreover have "\<forall>x \<in># pending s k'. armed (ents s' (te x)) \<and> tk (ents s' (te x)) = k'"
      using timer_inv_slot [OF inv, of _ k'] eq by (auto simp: pending_iff)
    ultimately show ?thesis using False s' d(1,2) by (simp add: pending_def)
  qed
qed

lemma timer_inv_upd:
  assumes inv: "timer_inv s"
    and s': "nr_timers s' = (nr_timers s)(k := n)" "timers s' = (timers s)(k := h)"
    and h: "n < MAX_TIMERS" "heap_ok h n" "idx_ok h n (ents s')"
    and own: "\<And>x. x \<in># heap_mset h n \<Longrightarrow> armed (ents s' (te x)) \<and> tk (ents s' (te x)) = k"
    and other: "\<And>e. armed (ents s e) \<Longrightarrow> tk (ents s e) \<noteq> k \<Longrightarrow> ents s' e = ents s e"
  shows "timer_inv s'"
  by (rule timer_inv_upd_slots [OF inv s'(1)])
    (use s'(2) h own other timer_inv_slot(1,2) [OF inv] in auto)

lemma pending_upd:
  assumes "nr_timers s' = (nr_timers s)(k := n)" "timers s' = (timers s)(k := h)"
  shows "pending s' k = heap_mset h n" "k' \<noteq> k \<Longrightarrow> pending s' k' = pending s k'"
  using assms by (simp_all add: pending_def)

text \<open>What a sift leaves of the entries.\<close>

lemma sift_okD:
  assumes "sift_ok n (h, es) (h', es')"
  shows "idx_ok h' n es'" "heap_mset h' n = heap_mset h n"
    "armed (es' e) = armed (es e)" "tk (es' e) = tk (es e)" "fn (es' e) = fn (es e)" "arg (es' e) = arg (es e)"
    "e \<notin> te ` h ` {..<n} \<Longrightarrow> es' e = es e"
proof -
  have e: "es' e = (es e)\<lparr>idx := idx (es' e)\<rparr>" using assms by (simp add: sift_ok_def same_entries_def)
  show "armed (es' e) = armed (es e)" by (subst e) simp
  show "tk (es' e) = tk (es e)" by (subst e) simp
  show "fn (es' e) = fn (es e)" by (subst e) simp
  show "arg (es' e) = arg (es e)" by (subst e) simp
qed (use assms in \<open>auto simp: sift_ok_def same_entries_def\<close>)

section \<open>Starting a timer\<close>

lemma hole_append:
  assumes "heap_ok h n"
  shows "hole (h(n := x)) (Suc n) 0 n" "down_ok (h(n := x)) (Suc n) n"
proof -
  have pj: "parent j < j" if "0 < j" for j by (rule parent_less [OF that])
  have "edge_ok (h(n := x)) j" if "0 < j" "j < Suc n" "j \<noteq> n" for j
    using assms that pj [OF that(1)] by (auto simp: heap_from_def edge_ok_def)
  moreover have "parent j \<noteq> n" if "0 < j" "j < Suc n" for j using that pj [OF that(1)] by simp
  ultimately show "hole (h(n := x)) (Suc n) 0 n" "down_ok (h(n := x)) (Suc n) n"
    by (auto simp: hole_def down_ok_def)
qed

lemma timer_start_locked_ok:
  assumes inv: "timer_inv s" and e: "\<not> armed (ents s e)" and room: "nr_timers s k + 1 < MAX_TIMERS"
  shows "\<exists>s'. timer_start_locked s k e d = Some s' \<and> timer_inv s' \<and> armed (ents s' e) \<and>
     pending s' k = add_mset \<lparr>deadline_us = d, te = e\<rparr> (pending s k) \<and>
     (\<forall>k'. k' \<noteq> k \<longrightarrow> pending s' k' = pending s k') \<and> preempt_cnt s' = preempt_cnt s"
proof -
  let ?n = "nr_timers s k" and ?x = "\<lparr>deadline_us = d, te = e\<rparr>"
  let ?h = "(timers s k)(?n := ?x)" and ?es = "(ents s)(e := (ents s e)\<lparr>idx := ?n, tk := k\<rparr>)"
  note d = timer_invD [OF inv, where k = k]
  have ne: "te (timers s k j) \<noteq> e" if "j < ?n" for j
    using d(4) [of "timers s k j"] that e by (auto simp: pending_iff)
  have ix: "idx_ok ?h (Suc ?n) ?es"
    using d(3) ne by (auto simp: idx_ok_def less_Suc_eq)
  obtain h' es' where r: "sift_up (?h, ?es) ?n = (h', es')" by fastforce
  have ok: "heap_ok h' (Suc ?n)" "sift_ok (Suc ?n) (?h, ?es) (h', es')"
    using sift_up_ok [OF ix _ hole_append [OF d(2)]] r by auto
  note so = sift_okD [OF ok(2)]
  have ms: "heap_mset ?h (Suc ?n) = add_mset ?x (pending s k)"
    by (simp add: heap_mset_Suc pending_def) (rule heap_mset_cong, simp)
  define s' where "s' = s\<lparr>nr_timers := (nr_timers s)(k := ?n + 1), timers := (timers s)(k := h'),
      ents := es'(e := (es' e)\<lparr>armed := True\<rparr>)\<rparr>"
  have "timer_start_locked s k e d = Some s'"
    using e room r by (simp add: timer_start_locked_def Let_def s'_def)
  moreover have "timer_inv s'"
  proof (rule timer_inv_upd [OF inv, of _ k "Suc ?n" h'])
    show "idx_ok h' (Suc ?n) (ents s')" using so(1) by (auto simp: idx_ok_def s'_def)
    show "armed (ents s' (te x)) \<and> tk (ents s' (te x)) = k" if "x \<in># heap_mset h' (Suc ?n)" for x
      using that so(2-4) ms d(4,5) [of x] by (auto simp: s'_def)
    show "ents s' e' = ents s e'" if a: "armed (ents s e')" "tk (ents s e') \<noteq> k" for e'
    proof -
      have "e' \<notin> te ` ?h ` {..<Suc ?n}"
        using a e timer_inv_slot(2) [OF inv, of _ k] by (auto simp: less_Suc_eq split: if_splits)
      then show ?thesis using so(7) a e by (auto simp: s'_def)
    qed
  qed (use room ok in \<open>auto simp: s'_def\<close>)
  moreover have "pending s' k = add_mset ?x (pending s k)" "k' \<noteq> k \<Longrightarrow> pending s' k' = pending s k'" for k'
    using pending_upd [of s' s k "Suc ?n" h'] so(2) ms by (auto simp: s'_def)
  ultimately show ?thesis by (auto simp: s'_def)
qed

section \<open>Removing a timer\<close>

text \<open>Taking the timer at \<open>i\<close> out: the last timer moves to \<open>i\<close> and is sifted into place. The same
  steps serve \<^verbatim>\<open>timer_cancel\<close> and, at the root, \<^verbatim>\<open>timer_softirq\<close>.\<close>

lemma heap_from_less:
  assumes "heap_from h n b" "m \<le> n"
  shows "heap_from h m b"
  using assms by (auto simp: heap_from_def)

lemma hole_less:
  assumes "hole h n b i" "m \<le> n"
  shows "hole h m b i"
  using assms by (auto simp: hole_def)

lemma heap_mset_remove:
  assumes "i < n"
  shows "heap_mset (h(i := h n)) n = heap_mset h (Suc n) - {#h i#}"
proof -
  have e: "heap_mset f n = add_mset (f i) (mset (map f ([0..<i] @ [Suc i..<n])))" for f :: heap
  proof -
    have "[0..<n] = [0..<i] @ i # [Suc i..<n]"
      using assms upt_add_eq_append [of 0 i "n - i"] by (simp add: upt_conv_Cons)
    then show ?thesis by (simp add: heap_mset_def)
  qed
  have "map (h(i := h n)) ([0..<i] @ [Suc i..<n]) = map h ([0..<i] @ [Suc i..<n])" by simp
  then show ?thesis by (simp add: heap_mset_Suc e del: map_append mset_map)
qed

lemma idx_ok_distinct: "idx_ok h n es \<Longrightarrow> distinct (map h [0..<n])"
  by (auto simp: distinct_map inj_on_def idx_ok_def) metis

lemma pending_other:
  assumes "timer_inv s" "x \<in># pending s k - {#y#}" "y \<in># pending s k"
  shows "te x \<noteq> te y"
proof
  assume te: "te x = te y"
  have "x \<in># pending s k" using assms(2) by (meson in_diffD)
  then have "x = y" using pending_idx [OF assms(1)] assms(3) te by metis
  then have "count (pending s k) y \<ge> 2"
    using assms(2) by (simp add: in_diff_count)
  moreover have "count (pending s k) y \<le> 1"
    using idx_ok_distinct [OF timer_invD(3) [OF assms(1)], of k]
    unfolding pending_def heap_mset_def by (simp add: distinct_count_atmost_1)
  ultimately show False by simp
qed

lemma idx_ok_remove:
  assumes "idx_ok h (Suc n) es" "i < n"
  shows "idx_ok (h(i := h n)) n (set_idx (te (h n)) i es)"
  unfolding idx_ok_def
proof (intro allI impI)
  fix j assume j: "j < n"
  have "te (h j) \<noteq> te (h n)" using idx_ok_inj [OF assms(1), of j n] j by auto
  then show "idx (set_idx (te (h n)) i es (te ((h(i := h n)) j))) = j"
    using assms(1) j by (simp add: idx_ok_def set_idx_def)
qed

lemma remove_ok:
  assumes ix: "idx_ok h (Suc n) es" and h: "heap_ok h (Suc n)" and i: "i < n"
  defines "he \<equiv> (h(i := h n), set_idx (te (h n)) i es)"
  shows "heap_ok (fst (sift_down (sift_up he i) i n)) n \<and> sift_ok n he (sift_down (sift_up he i) i n)"
proof -
  let ?h = "h(i := h n)" and ?es = "set_idx (te (h n)) i es"
  have ix': "idx_ok ?h n ?es" by (rule idx_ok_remove [OF ix i])
  have hole: "hole ?h n 0 i"
    by (rule hole_less [OF hole_change [OF hole_heap_from(1) [OF h]]]) (use i in auto)
  from sift_up_cases [OF ix' i hole]
  consider "sift_up he i = (?h, ?es)" "up_ok ?h 0 i"
    | h' es' where "sift_up he i = (h', es')" "heap_ok h' n" "sift_ok n he (h', es')"
    unfolding he_def by (metis prod.collapse)
  then show ?thesis
  proof cases
    case 1
    then show ?thesis using sift_down_ok [OF ix' i hole 1(2)] by (simp add: he_def)
  next
    case 2
    have "idx_ok h' n es'" using 2(3) by (simp add: sift_ok_def)
    from sift_down_ok [OF this i hole_heap_from [OF 2(2) i]]
    show ?thesis using 2 sift_ok_trans [OF 2(3)] by simp
  qed
qed

lemma remove_sift_up_other:
  assumes ix: "idx_ok h (Suc n) es" and h: "heap_ok h (Suc n)" and i: "i < n"
    and e: "e \<notin> te ` (h(i := h n)) ` {..<n}"
  shows "snd (sift_up (h(i := h n), set_idx (te (h n)) i es) i) e = set_idx (te (h n)) i es e"
proof -
  have "hole (h(i := h n)) n 0 i"
    by (rule hole_less [OF hole_change [OF hole_heap_from(1) [OF h]]]) (use i in auto)
  from sift_up_cases [OF idx_ok_remove [OF ix i] i this] e show ?thesis
    by (auto simp: sift_ok_def same_entries_def)
qed

lemma remove_root_ok:
  assumes ix: "idx_ok h (Suc n) es" and h: "heap_ok h (Suc n)" and n: "0 < n"
  defines "he \<equiv> (h(0 := h n), set_idx (te (h n)) 0 es)"
  shows "heap_ok (fst (sift_down he 0 n)) n \<and> sift_ok n he (sift_down he 0 n)"
proof -
  have "sift_up he 0 = he" by (simp add: sift_up_def sift_up_loop.simps)
  then show ?thesis using remove_ok [OF ix h n] by (simp add: he_def)
qed

text \<open>The state after taking out the timer at \<open>i\<close>, for both uses.\<close>

lemma timer_inv_removed:
  assumes inv: "timer_inv s" and i: "i \<le> n" and n: "nr_timers s k = Suc n"
    and s': "nr_timers s' = (nr_timers s)(k := n)" "timers s' = (timers s)(k := h')"
    and h': "heap_ok h' n" "idx_ok h' n (ents s')"
      "heap_mset h' n = pending s k - {#timers s k i#}"
    and es: "\<And>e. e \<noteq> te (timers s k i) \<Longrightarrow> armed (ents s' e) = armed (ents s e)"
      "\<And>e. tk (ents s' e) = tk (ents s e)"
      "\<And>e. e \<notin> te ` timers s k ` {..<Suc n} \<Longrightarrow> ents s' e = ents s e"
  shows "timer_inv s' \<and> pending s' k = pending s k - {#timers s k i#} \<and>
    (\<forall>k'. k' \<noteq> k \<longrightarrow> pending s' k' = pending s k')"
proof
  have own: "armed (ents s' (te x)) \<and> tk (ents s' (te x)) = k" if x: "x \<in># heap_mset h' n" for x
  proof -
    have "timers s k i \<in># pending s k"
      using i n by (auto simp: pending_iff intro!: exI [of _ i])
    then have "te x \<noteq> te (timers s k i)" using pending_other [OF inv] x h'(3) by metis
    moreover have "x \<in># pending s k" using x h'(3) by (metis in_diffD)
    ultimately show ?thesis using es(1,2) timer_invD(4,5) [OF inv] by auto
  qed
  show "timer_inv s'"
  proof (rule timer_inv_upd [OF inv s' _ h'(1,2) own])
    show "n < MAX_TIMERS" using timer_invD(1) [OF inv, of k] n by simp
    show "ents s' e = ents s e" if "armed (ents s e)" "tk (ents s e) \<noteq> k" for e
      by (rule es(3)) (use that timer_inv_slot(2) [OF inv, of _ k] n in auto)
  qed
  show "pending s' k = pending s k - {#timers s k i#} \<and> (\<forall>k'. k' \<noteq> k \<longrightarrow> pending s' k' = pending s k')"
    using pending_upd [OF s'] h'(3) by auto
qed

lemma timer_cancel_locked:
  assumes inv: "timer_inv s" and x: "x \<in># pending s k"
  shows "\<exists>s'. timer_cancel s (te x) = Some (True, s') \<and> timer_inv s' \<and> \<not> armed (ents s' (te x)) \<and>
     pending s' k = pending s k - {#x#} \<and> (\<forall>k'. k' \<noteq> k \<longrightarrow> pending s' k' = pending s k')"
proof -
  let ?e = "te x"
  define i where "i = idx (ents s ?e)"
  have i: "i < nr_timers s k" "timers s k i = x" using pending_idx [OF inv x] by (auto simp: i_def)
  have e: "armed (ents s ?e)" "tk (ents s ?e) = k" using timer_invD(4,5) [OF inv x] by auto
  obtain n where n: "nr_timers s k = Suc n" using i(1) by (cases "nr_timers s k") auto
  have ix: "idx_ok (timers s k) (Suc n) (ents s)" and hp: "heap_ok (timers s k) (Suc n)"
    using timer_invD(2,3) [OF inv, where k = k] n by auto
  let ?es = "(ents s)(?e := (ents s ?e)\<lparr>armed := False\<rparr>)"
  have ix1: "idx_ok (timers s k) (Suc n) ?es" using ix by (auto simp: idx_ok_def)
  show ?thesis
  proof (cases "i = n")
    case True
    define s' where "s' = s\<lparr>nr_timers := (nr_timers s)(k := n), ents := ?es,
        preempt_cnt := preempt_cnt s + 1\<rparr>"
    have "timer_cancel s ?e = Some (True, s')"
      using e n True
      by (simp add: timer_cancel_def Let_def preempt_disable_def preempt_enable_def s'_def i_def)
    moreover have "timer_inv s' \<and> pending s' k = pending s k - {#timers s k i#} \<and>
        (\<forall>k'. k' \<noteq> k \<longrightarrow> pending s' k' = pending s k')"
    proof (rule timer_inv_removed [OF inv _ n, where h' = "timers s k"])
      show "heap_ok (timers s k) n" using hp by (rule heap_from_less) simp
      show "idx_ok (timers s k) n (ents s')" using ix1 by (simp add: idx_ok_def s'_def)
      show "heap_mset (timers s k) n = pending s k - {#timers s k i#}"
        using True n by (simp add: pending_def heap_mset_Suc)
      show "ents s' e' = ents s e'" if "e' \<notin> te ` timers s k ` {..<Suc n}" for e'
        using that i n by (auto simp: s'_def)
    qed (use True i in \<open>auto simp: s'_def\<close>)
    ultimately show ?thesis using i(2) by (auto simp: s'_def)
  next
    case False
    then have lt: "i < n" using i(1) n by simp
    let ?h = "timers s k" and ?es1 = "set_idx (te (timers s k n)) i ?es"
    let ?he = "(?h(i := ?h n), ?es1)"
    obtain h' es' where r: "sift_down (sift_up ?he i) i n = (h', es')" by fastforce
    have ok: "heap_ok h' n" "sift_ok n ?he (h', es')" using remove_ok [OF ix1 hp lt] r by auto
    note so = sift_okD [OF ok(2)]
    have inj: "j = i" if "j < Suc n" "te (?h j) = ?e" for j
      using idx_ok_inj [OF ix, of j i] that i n by auto
    then have ne: "te (?h n) \<noteq> ?e" using lt by auto
    have e': "?e \<notin> te ` (?h(i := ?h n)) ` {..<n}"
      using inj ne by (auto simp: image_iff less_Suc_eq)
    have ie: "idx (snd (sift_up ?he i) ?e) = i"
      using remove_sift_up_other [OF ix1 hp lt e'] ne by (simp add: set_idx_def i_def)
    define s' where "s' = s\<lparr>nr_timers := (nr_timers s)(k := n), timers := (timers s)(k := h'), ents := es',
        preempt_cnt := preempt_cnt s + 1\<rparr>"
    have "timer_cancel s ?e = Some (True, s')"
      using e n False ie r i(2)
      by (simp add: timer_cancel_def Let_def preempt_disable_def preempt_enable_def s'_def i_def [symmetric])
    moreover have "timer_inv s' \<and> pending s' k = pending s k - {#timers s k i#} \<and>
        (\<forall>k'. k' \<noteq> k \<longrightarrow> pending s' k' = pending s k')"
    proof (rule timer_inv_removed [OF inv _ n, where h' = h'])
      show "heap_mset h' n = pending s k - {#timers s k i#}"
        using so(2) heap_mset_remove [OF lt, of ?h] n by (simp add: pending_def)
      show "armed (ents s' e'') = armed (ents s e'')" if "e'' \<noteq> te (timers s k i)" for e''
        using that so(3) i(2) by (simp add: s'_def set_idx_def)
      show "tk (ents s' e'') = tk (ents s e'')" for e''
        using so(4) by (simp add: s'_def set_idx_def)
      show "ents s' e'' = ents s e''" if "e'' \<notin> te ` timers s k ` {..<Suc n}" for e''
      proof -
        have "e'' \<notin> te ` (?h(i := ?h n)) ` {..<n}" "e'' \<noteq> ?e" "e'' \<noteq> te (?h n)"
          using that i lt by (auto simp: image_iff)
        then show ?thesis using so(7) by (simp add: s'_def set_idx_def)
      qed
    qed (use lt ok so(1) in \<open>auto simp: s'_def\<close>)
    moreover have "\<not> armed (ents s' ?e)" using so(3) by (simp add: s'_def set_idx_def)
    ultimately show ?thesis using i(2) by auto
  qed
qed

lemma timer_pop_ok:
  assumes inv: "timer_inv s" and n0: "0 < nr_timers s k"
  shows "timer_inv (timer_pop s k) \<and> pending (timer_pop s k) k = pending s k - {#timers s k 0#} \<and>
    (\<forall>k'. k' \<noteq> k \<longrightarrow> pending (timer_pop s k) k' = pending s k')"
proof -
  obtain n where n: "nr_timers s k = Suc n" using n0 by (cases "nr_timers s k") auto
  have ix: "idx_ok (timers s k) (Suc n) (ents s)" and hp: "heap_ok (timers s k) (Suc n)"
    using timer_invD(2,3) [OF inv, where k = k] n by auto
  show ?thesis
  proof (cases "n = 0")
    case True
    have "nr_timers (timer_pop s k) = (nr_timers s)(k := 0)"
      "timers (timer_pop s k) = (timers s)(k := timers s k)" "ents (timer_pop s k) = ents s"
      using n True by (simp_all add: timer_pop_def Let_def)
    then show ?thesis
      using timer_inv_removed [OF inv _ n, where i = 0 and h' = "timers s k" and s' = "timer_pop s k"] n True
      by (auto simp: heap_from_def idx_ok_def pending_def heap_mset_def)
  next
    case False
    let ?h = "timers s k"
    let ?he = "(?h(0 := ?h n), set_idx (te (?h n)) 0 (ents s))"
    obtain h' es' where r: "sift_down ?he 0 n = (h', es')" by fastforce
    have ok: "heap_ok h' n" "sift_ok n ?he (h', es')" using remove_root_ok [OF ix hp] r False by auto
    note so = sift_okD [OF ok(2)]
    define s' where "s' = s\<lparr>nr_timers := (nr_timers s)(k := n), timers := (timers s)(k := h'), ents := es'\<rparr>"
    have "timer_pop s k = s'" using n False r by (simp add: timer_pop_def Let_def s'_def)
    moreover have "timer_inv s' \<and> pending s' k = pending s k - {#timers s k 0#} \<and>
        (\<forall>k'. k' \<noteq> k \<longrightarrow> pending s' k' = pending s k')"
    proof (rule timer_inv_removed [OF inv _ n, where h' = h'])
      show "heap_mset h' n = pending s k - {#timers s k 0#}"
        using so(2) heap_mset_remove [of 0 n ?h] False n by (simp add: pending_def)
      show "armed (ents s' e) = armed (ents s e)" for e using so(3) by (simp add: s'_def set_idx_def)
      show "tk (ents s' e) = tk (ents s e)" for e using so(4) by (simp add: s'_def set_idx_def)
      show "ents s' e = ents s e" if "e \<notin> te ` timers s k ` {..<Suc n}" for e
      proof -
        have "e \<notin> te ` (?h(0 := ?h n)) ` {..<n}" "e \<noteq> te (?h n)"
          using that by (auto simp: image_iff)
        then show ?thesis using so(7) by (simp add: s'_def set_idx_def)
      qed
    qed (use ok so(1) in \<open>auto simp: s'_def\<close>)
    ultimately show ?thesis by simp
  qed
qed

section \<open>Merging\<close>

definition merged :: "timer_st \<Rightarrow> nat \<Rightarrow> nat \<Rightarrow> nat \<Rightarrow> nat \<Rightarrow> timer_st \<Rightarrow> bool" where
  "merged s k r i nr s' \<longleftrightarrow>
    nr_timers s' = (nr_timers s)(k := nr_timers s k + (nr - i)) \<and>
    (\<forall>k'. k' \<noteq> k \<longrightarrow> timers s' k' = timers s k') \<and>
    heap_mset (timers s' k) (nr_timers s' k) =
      heap_mset (timers s k) (nr_timers s k) + mset (map (timers s r) [i..<nr]) \<and>
    idx_ok (timers s' k) (nr_timers s' k) (ents s') \<and>
    (\<forall>j<nr_timers s' k. armed (ents s' (te (timers s' k j))) \<and> tk (ents s' (te (timers s' k j))) = k) \<and>
    (\<forall>e. tk (ents s e) \<noteq> k \<longrightarrow> tk (ents s e) \<noteq> r \<longrightarrow> ents s' e = ents s e) \<and>
    preempt_cnt s' = preempt_cnt s"

definition merge_pre :: "timer_st \<Rightarrow> nat \<Rightarrow> nat \<Rightarrow> nat \<Rightarrow> nat \<Rightarrow> bool" where
  "merge_pre s k r i nr \<longleftrightarrow>
    k \<noteq> r \<and> i \<le> nr \<and> nr_timers s k + (nr - i) < MAX_TIMERS \<and>
    idx_ok (timers s k) (nr_timers s k) (ents s) \<and>
    (\<forall>j<nr_timers s k. armed (ents s (te (timers s k j))) \<and> tk (ents s (te (timers s k j))) = k) \<and>
    (\<forall>j. i \<le> j \<longrightarrow> j < nr \<longrightarrow> armed (ents s (te (timers s r j))) \<and> tk (ents s (te (timers s r j))) = r \<and>
       idx (ents s (te (timers s r j))) = j)"

definition merge_one :: "timer_st \<Rightarrow> nat \<Rightarrow> timer_idx \<Rightarrow> timer_st" where
  "merge_one s k x =
     s\<lparr>timers := (timers s)(k := (timers s k)(nr_timers s k := x)),
       ents := (ents s)(te x := (ents s (te x))\<lparr>idx := nr_timers s k, tk := k\<rparr>),
       nr_timers := (nr_timers s)(k := nr_timers s k + 1)\<rparr>"

lemma merge_pre_step:
  assumes "merge_pre s k r i nr" "i < nr"
  shows "merge_pre (merge_one s k (timers s r i)) k r (i + 1) nr"
proof -
  let ?x = "timers s r i"
  have x: "armed (ents s (te ?x))" "tk (ents s (te ?x)) = r" "idx (ents s (te ?x)) = i" "k \<noteq> r"
    using assms by (auto simp: merge_pre_def)
  have "te (timers s k j) \<noteq> te ?x" if "j < nr_timers s k" for j
    using assms(1) that x by (auto simp: merge_pre_def)
  moreover have "te (timers s r j) \<noteq> te ?x" if "i < j" "j < nr" for j
  proof -
    have "idx (ents s (te (timers s r j))) = j" using assms(1) that by (auto simp: merge_pre_def)
    then show ?thesis using x(3) that by auto
  qed
  ultimately show ?thesis
    using assms x unfolding merge_pre_def
    by (auto simp: merge_one_def idx_ok_def less_Suc_eq)
qed

lemma merged_step:
  assumes "merged (merge_one s k (timers s r i)) k r (i + 1) nr s'" "merge_pre s k r i nr" "i < nr"
  shows "merged s k r i nr s'"
proof -
  let ?x = "timers s r i" and ?s = "merge_one s k (timers s r i)"
  have kr: "k \<noteq> r" "tk (ents s (te ?x)) = r" using assms by (auto simp: merge_pre_def)
  have m: "nr_timers s' = (nr_timers ?s)(k := nr_timers ?s k + (nr - (i + 1)))"
    "\<And>k'. k' \<noteq> k \<Longrightarrow> timers s' k' = timers ?s k'"
    "heap_mset (timers s' k) (nr_timers s' k) =
       heap_mset (timers ?s k) (nr_timers ?s k) + mset (map (timers ?s r) [i + 1..<nr])"
    "\<And>e. tk (ents ?s e) \<noteq> k \<Longrightarrow> tk (ents ?s e) \<noteq> r \<Longrightarrow> ents s' e = ents ?s e"
    using assms(1) unfolding merged_def by blast+
  have "[i..<nr] = i # [Suc i..<nr]" using assms(3) by (simp add: upt_conv_Cons)
  then have l: "map (timers s r) [i..<nr] = ?x # map (timers s r) [i + 1..<nr]" by simp
  have hm: "heap_mset (timers ?s k) (nr_timers ?s k) = add_mset ?x (heap_mset (timers s k) (nr_timers s k))"
    by (simp add: merge_one_def heap_mset_Suc) (rule heap_mset_cong, simp)
  have "timers ?s r = timers s r" using kr by (simp add: merge_one_def)
  then have "heap_mset (timers s' k) (nr_timers s' k) =
      heap_mset (timers s k) (nr_timers s k) + mset (map (timers s r) [i..<nr])"
    unfolding l m(3) hm by simp
  moreover have "nr_timers s' = (nr_timers s)(k := nr_timers s k + (nr - i))"
    using m(1) assms(3) by (simp add: merge_one_def Suc_diff_Suc)
  moreover have "ents s' e = ents s e" if "tk (ents s e) \<noteq> k" "tk (ents s e) \<noteq> r" for e
  proof -
    have "e \<noteq> te ?x" using that kr by auto
    then show ?thesis using m(4) [of e] that by (simp add: merge_one_def)
  qed
  moreover have "timers s' k' = timers s k'" if "k' \<noteq> k" for k'
    using m(2) [OF that] that by (simp add: merge_one_def)
  moreover have "preempt_cnt s' = preempt_cnt s" using assms(1) by (simp add: merged_def merge_one_def)
  ultimately show ?thesis using assms(1) unfolding merged_def by blast
qed

lemma merge_loop_ok:
  assumes "merge_pre s k r i nr"
  shows "\<exists>s'. merge_loop s k r i nr = Some s' \<and> merged s k r i nr s'"
  using assms
proof (induction s k r i nr rule: merge_loop.induct)
  case (1 s k r i nr)
  show ?case
  proof (cases "i < nr")
    case False
    then have "merge_loop s k r i nr = Some s" by (simp add: merge_loop.simps [of s k r i nr])
    moreover have "merged s k r i nr s" using 1(2) False by (auto simp: merged_def merge_pre_def)
    ultimately show ?thesis by blast
  next
    case True
    let ?s = "merge_one s k (timers s r i)"
    have "nr_timers ?s k < MAX_TIMERS" using 1(2) True by (auto simp: merge_pre_def merge_one_def)
    then have st: "merge_loop s k r i nr = merge_loop ?s k r (i + 1) nr"
      using True by (simp add: merge_loop.simps [of s k r i nr] Let_def merge_one_def)
    have "\<exists>s'. merge_loop ?s k r (i + 1) nr = Some s' \<and> merged ?s k r (i + 1) nr s'"
      unfolding merge_one_def
      by (rule 1(1) [OF True refl refl refl])
        (use merge_pre_step [OF 1(2) True] \<open>nr_timers ?s k < MAX_TIMERS\<close> in \<open>auto simp: merge_one_def\<close>)
    then show ?thesis using st merged_step [OF _ 1(2) True] by auto
  qed
qed

lemma timer_merge_ok:
  assumes inv: "timer_inv s" and kr: "k \<noteq> r" and room: "nr_timers s k + nr_timers s r < MAX_TIMERS"
  shows "\<exists>s'. timer_merge s k r = Some s' \<and> timer_inv s' \<and> pending s' k = pending s k + pending s r \<and>
    pending s' r = {#} \<and> (\<forall>k'. k' \<noteq> k \<longrightarrow> k' \<noteq> r \<longrightarrow> pending s' k' = pending s k')"
proof (cases "nr_timers s r = 0")
  case True
  then show ?thesis using inv by (auto simp: timer_merge_def pending_def heap_mset_def)
next
  case False
  let ?n = "nr_timers s k + nr_timers s r"
  have pre: "merge_pre s k r 0 (nr_timers s r)"
    using kr room timer_inv_slot [OF inv] timer_invD(3) [OF inv] by (simp add: merge_pre_def)
  obtain s1 where s1: "merge_loop s k r 0 (nr_timers s r) = Some s1" "merged s k r 0 (nr_timers s r) s1"
    using merge_loop_ok [OF pre] by blast
  note m = s1(2) [unfolded merged_def]
  obtain h' es' where r: "heapify (timers s1 k, ents s1) (?n div D) ?n = (h', es')" by fastforce
  have "?n div D < ?n" using False by (simp add: D_def)
  then have ok: "heap_ok h' ?n" "sift_ok ?n (timers s1 k, ents s1) (h', es')"
    using heapify_ok [of "(timers s1 k, ents s1)" ?n "?n div D"] m r heap_from_leaves by auto
  note so = sift_okD [OF ok(2)]
  define s0 where "s0 = s\<lparr>nr_timers := (nr_timers s)(r := 0)\<rparr>"
  define s' where "s' = s1\<lparr>nr_timers := (nr_timers s1)(r := 0), timers := (timers s1)(k := h'), ents := es'\<rparr>"
  have "timer_merge s k r = Some s'"
    using False s1(1) m r kr by (simp add: timer_merge_def Let_def s'_def)
  moreover have hm: "heap_mset h' ?n = pending s k + pending s r"
  proof -
    have "nr_timers s1 k = ?n" using m by simp
    moreover have "heap_mset (timers s1 k) (nr_timers s1 k) = pending s k + pending s r"
      using m unfolding pending_def heap_mset_def by blast
    ultimately show ?thesis using so(2) by simp
  qed
  moreover have "timer_inv s'"
  proof (rule timer_inv_upd_slots [of s0 _ k ?n])
    show "timer_inv s0"
      using inv by (auto simp: timer_inv_def s0_def pending_def heap_from_def idx_ok_def heap_mset_def MAX_TIMERS_def)
    show "armed (ents s' (te x)) \<and> tk (ents s' (te x)) = k" if "x \<in># heap_mset (timers s' k) ?n" for x
      using that so(2-4) m by (auto simp: s'_def heap_mset_set)
    show "ents s' (te (timers s0 k' j)) = ents s0 (te (timers s0 k' j))" if k': "k' \<noteq> k" "j < nr_timers s0 k'" for k' j
    proof -
      let ?e = "te (timers s k' j)"
      have "k' \<noteq> r" "j < nr_timers s k'" using k' by (auto simp: s0_def split: if_splits)
      then have e: "tk (ents s ?e) = k'" using timer_inv_slot(2) [OF inv] by simp
      then have "ents s1 ?e = ents s ?e" using m k'(1) \<open>k' \<noteq> r\<close> by simp
      moreover have "?e \<notin> te ` timers s1 k ` {..<?n}" using m e k'(1) calculation by auto
      ultimately show ?thesis using so(7) by (simp add: s'_def s0_def)
    qed
  qed (use m kr room ok so(1) in \<open>auto simp: s'_def s0_def\<close>)
  moreover have "pending s' k' = pending s k'" if "k' \<noteq> k" "k' \<noteq> r" for k'
    using that m by (simp add: pending_def s'_def)
  ultimately show ?thesis using m kr by (auto simp: pending_def s'_def heap_mset_def)
qed

section \<open>Expired timers in order\<close>

text \<open>The interface the softirq relies on: a queue that gives its earliest timer first.\<close>

fun drain ::
  "('q \<Rightarrow> timer_idx option) \<Rightarrow> ('q \<Rightarrow> 'q) \<Rightarrow> (nat \<Rightarrow> u64) \<Rightarrow> nat \<Rightarrow> nat \<Rightarrow> 'q \<Rightarrow> timer_idx list \<times> 'q" where
  "drain first pop clock t 0 q = ([], q)"
| "drain first pop clock t (Suc b) q =
     (case first q of
        Some x \<Rightarrow> if deadline_us x \<le> clock t
                  then let (l, q') = drain first pop clock (t + 1) b (pop q) in (x # l, q')
                  else ([], q)
      | None \<Rightarrow> ([], q))"

locale deadline_queue =
  fixes first :: "'q \<Rightarrow> timer_idx option" and pop :: "'q \<Rightarrow> 'q"
    and contents :: "'q \<Rightarrow> timer_idx multiset" and invar :: "'q \<Rightarrow> bool"
  assumes first_none: "invar q \<Longrightarrow> first q = None \<Longrightarrow> contents q = {#}"
    and first_some: "invar q \<Longrightarrow> first q = Some x \<Longrightarrow> x \<in># contents q"
    and first_min: "invar q \<Longrightarrow> first q = Some x \<Longrightarrow> y \<in># contents q \<Longrightarrow> deadline_us x \<le> deadline_us y"
    and pop_contents: "invar q \<Longrightarrow> first q = Some x \<Longrightarrow> contents (pop q) = contents q - {#x#}"
    and pop_invar: "invar q \<Longrightarrow> first q = Some x \<Longrightarrow> invar (pop q)"
begin

lemma drain_step:
  assumes "invar q" "first q = Some x"
  shows "contents q = add_mset x (contents (pop q))"
  using assms first_some [OF assms] by (simp add: pop_contents)

text \<open>Draining takes timers in the order of their deadlines, each of them expired when it is taken, the
  earliest ones of the queue; and stops only when the budget is used up or no timer is expired.\<close>

lemma drain_order:
  assumes "invar q" "drain first pop clock t b q = (l, q')"
  shows "invar q' \<and> mset l + contents q' = contents q \<and> length l \<le> b \<and>
    sorted (map deadline_us l) \<and>
    (\<forall>x\<in>set l. \<forall>y \<in># contents q'. deadline_us x \<le> deadline_us y) \<and>
    (\<forall>i<length l. deadline_us (l ! i) \<le> clock (t + i)) \<and>
    (length l < b \<longrightarrow> (\<forall>y \<in># contents q'. clock (t + length l) < deadline_us y))"
  using assms
proof (induction b arbitrary: q t l)
  case 0
  then show ?case by simp
next
  case (Suc b)
  show ?case
  proof (cases "first q")
    case None
    then show ?thesis using Suc.prems first_none by auto
  next
    case (Some x)
    show ?thesis
    proof (cases "deadline_us x \<le> clock t")
      case False
      then have "l = []" "q' = q" using Suc.prems(2) Some by auto
      moreover have "clock t < deadline_us y" if "y \<in># contents q" for y
        using first_min [OF Suc.prems(1) Some that] False by (simp add: not_le)
      ultimately show ?thesis using Suc.prems(1) by simp
    next
      case True
      obtain l0 where l0: "drain first pop clock (t + 1) b (pop q) = (l0, q')" "l = x # l0"
        using Suc.prems(2) Some True by (auto simp: Let_def split: prod.splits)
      note ih = Suc.IH [OF pop_invar [OF Suc.prems(1) Some] l0(1)]
      have c: "contents q = add_mset x (contents (pop q))" by (rule drain_step [OF Suc.prems(1) Some])
      have eq: "mset l + contents q' = contents q" using ih c l0(2) by simp
      have xm: "deadline_us x \<le> deadline_us y" if "y \<in> set l0 \<or> y \<in># contents q'" for y
      proof (rule first_min [OF Suc.prems(1) Some])
        show "y \<in># contents q" using that by (subst eq [symmetric]) (auto simp: l0(2))
      qed
      have "deadline_us (l ! i) \<le> clock (t + i)" if "i < length l" for i
        using that ih True l0(2) by (cases i) auto
      then show ?thesis using ih xm eq l0(2) by auto
    qed
  qed
qed

end

definition timer_top :: "nat \<Rightarrow> timer_st \<Rightarrow> timer_idx option" where
  "timer_top k s = (if nr_timers s k > 0 then Some (timers s k 0) else None)"

interpretation tq: deadline_queue "timer_top k" "\<lambda>s. timer_pop s k" "\<lambda>s. pending s k" timer_inv for k
proof (unfold_locales, goal_cases)
  case (3 q x y)
  then show ?case
    using heap_root_le [OF timer_invD(2)] by (auto simp: timer_top_def pending_iff split: if_splits)
next
  case (4 q x)
  then show ?case using timer_pop_ok by (auto simp: timer_top_def split: if_splits)
next
  case (5 q x)
  then show ?case using timer_pop_ok by (auto simp: timer_top_def split: if_splits)
qed (auto simp: timer_top_def pending_def heap_mset_def split: if_splits)

lemma softirq_drain:
  "softirq_loop (\<lambda>e. Some) clock t k b s = Some (drain (timer_top k) (\<lambda>s. timer_pop s k) clock t b s)"
  by (induction b arbitrary: s t)
    (auto simp: timer_needed_def timer_top_def Let_def split: prod.splits)

section \<open>Properties\<close>

text \<open>C24: \<^verbatim>\<open>timer_start\<close> of a timer that is not armed, on a thread with room for it, adds that timer
  to the pending ones of the thread and keeps every thread's heap a valid heap of armed timers that
  know their positions.\<close>

theorem timer_start_correct:
  assumes "timer_inv s" "\<not> armed (ents s e)" "nr_timers s k + 1 < MAX_TIMERS"
  shows "\<exists>s'. timer_start s k e d = Some s' \<and> timer_inv s' \<and> armed (ents s' e) \<and>
    pending s' k = add_mset \<lparr>deadline_us = d, te = e\<rparr> (pending s k) \<and>
    (\<forall>k'. k' \<noteq> k \<longrightarrow> pending s' k' = pending s k')"
proof -
  have pre: "timer_inv (s\<lparr>preempt_cnt := c\<rparr>) = timer_inv s" "pending (s\<lparr>preempt_cnt := c\<rparr>) j = pending s j" for s c j
    by (simp_all add: timer_inv_def pending_def)
  show ?thesis
    using timer_start_locked_ok [of "preempt_disable s" e k d] assms
    by (auto simp: timer_start_def preempt_disable_def preempt_enable_def pre)
qed

text \<open>C19: \<^verbatim>\<open>timer_cancel\<close> of a pending timer takes exactly that timer out of the heap of the thread it is
  on, wherever in the heap it is, and disarms it.\<close>

theorem timer_cancel_correct:
  assumes "timer_inv s" "x \<in># pending s k"
  shows "\<exists>s'. timer_cancel s (te x) = Some (True, s') \<and> timer_inv s' \<and> \<not> armed (ents s' (te x)) \<and>
    pending s' k = pending s k - {#x#} \<and> (\<forall>k'. k' \<noteq> k \<longrightarrow> pending s' k' = pending s k')"
  using timer_cancel_locked [OF assms] .

text \<open>\<^verbatim>\<open>timer_merge\<close> moves all timers of the other thread to the caller's heap, as long as both fit.\<close>

theorem timer_merge_correct:
  assumes "timer_inv s" "k \<noteq> r" "nr_timers s k + nr_timers s r < MAX_TIMERS"
  shows "\<exists>s'. timer_merge s k r = Some s' \<and> timer_inv s' \<and> pending s' k = pending s k + pending s r \<and>
    pending s' r = {#} \<and> (\<forall>k'. k' \<noteq> k \<longrightarrow> k' \<noteq> r \<longrightarrow> pending s' k' = pending s k')"
  using timer_merge_ok [OF assms] .

text \<open>C32: The softirq, for handlers that leave the timers alone: it runs expired timers in the order of
  their deadlines and always the earliest ones of its thread, each once, at most \<open>budget\<close> of them;
  and when it stops before that, no timer of the thread is expired.\<close>

theorem timer_softirq_order:
  assumes "timer_inv s" "timer_softirq (\<lambda>e. Some) clock s k budget = Some (l, s')"
  shows "timer_inv s' \<and> mset l + pending s' k = pending s k \<and> length l \<le> unat budget \<and>
    sorted (map deadline_us l) \<and>
    (\<forall>x\<in>set l. \<forall>y \<in># pending s' k. deadline_us x \<le> deadline_us y) \<and>
    (\<forall>i<length l. deadline_us (l ! i) \<le> clock i) \<and>
    (length l < unat budget \<longrightarrow> (\<forall>y \<in># pending s' k. clock (length l) < deadline_us y))"
  using tq.drain_order [OF assms(1), of k clock 0 "unat budget" l s'] assms(2)
  by (simp add: timer_softirq_def softirq_drain)

text \<open>With handlers that may start, cancel or merge timers but keep the invariant and return, the
  softirq returns and keeps the invariant.\<close>

theorem timer_softirq_returns:
  assumes "timer_inv s" "\<And>e s. timer_inv s \<Longrightarrow> \<exists>s'. run e s = Some s' \<and> timer_inv s'"
  shows "\<exists>l s'. timer_softirq run clock s k budget = Some (l, s') \<and> timer_inv s' \<and> length l \<le> unat budget"
proof -
  have "\<exists>l s'. softirq_loop run clock t k b s = Some (l, s') \<and> timer_inv s' \<and> length l \<le> b" for t b
    using assms(1)
  proof (induction b arbitrary: s t)
    case (Suc b)
    show ?case
    proof (cases "timer_needed s k (clock t)")
      case True
      then have "timer_inv (timer_pop s k)" using timer_pop_ok [OF Suc.prems] by (simp add: timer_needed_def)
      then obtain s1 where s1: "run (te (timers s k 0)) (timer_pop s k) = Some s1" "timer_inv s1"
        using assms(2) by blast
      then show ?thesis using Suc.IH [OF s1(2), of "t + 1"] True by (auto simp: Let_def)
    qed (use Suc.prems in auto)
  qed auto
  then show ?thesis by (simp add: timer_softirq_def)
qed

text \<open>The earliest deadline that a thread reports is the least one of its pending timers, and it
  reports that timers are due exactly when a pending one is expired.\<close>

theorem timer_earliest_is_min:
  assumes "timer_inv s" "pending s k \<noteq> {#}"
  shows "(\<exists>x \<in># pending s k. deadline_us x = timer_earliest_deadline s k) \<and>
    (\<forall>x \<in># pending s k. timer_earliest_deadline s k \<le> deadline_us x) \<and>
    (timer_needed s k now \<longleftrightarrow> (\<exists>x \<in># pending s k. deadline_us x \<le> now))"
proof -
  have n: "0 < nr_timers s k" using assms(2) by (cases "nr_timers s k") (auto simp: pending_def heap_mset_def)
  then have "timers s k 0 \<in># pending s k" by (auto simp: pending_iff)
  moreover have "deadline_us (timers s k 0) \<le> deadline_us x" if "x \<in># pending s k" for x
    using that heap_root_le [OF timer_invD(2) [OF assms(1)]] by (auto simp: pending_iff)
  ultimately show ?thesis
    using n by (auto simp: timer_earliest_deadline_def timer_needed_def intro: order_trans)
qed

text \<open>A state without timers, and one with a timer pending on thread 0, for the witnesses.\<close>

definition no_timers :: timer_st where
  "no_timers = \<lparr>nr_timers = (\<lambda>_. 0), timers = (\<lambda>_ _. \<lparr>deadline_us = 0, te = 0\<rparr>),
     ents = (\<lambda>_. \<lparr>armed = False, idx = 0, fn = 0, arg = 0, tk = 0\<rparr>), preempt_cnt = 0\<rparr>"

lemma no_timers_inv: "timer_inv no_timers"
  by (simp add: timer_inv_def no_timers_def heap_from_def idx_ok_def pending_def heap_mset_def MAX_TIMERS_def)

definition two_timers :: timer_st where
  "two_timers = no_timers
     \<lparr>nr_timers := (\<lambda>_. 0)(0 := 2),
      timers := (\<lambda>_ _. \<lparr>deadline_us = 0, te = 0\<rparr>)
        (0 := (\<lambda>_. \<lparr>deadline_us = 0, te = 0\<rparr>)
           (0 := \<lparr>deadline_us = 10, te = 5\<rparr>, 1 := \<lparr>deadline_us = 100, te = 6\<rparr>)),
      ents := (\<lambda>_. \<lparr>armed = False, idx = 0, fn = 0, arg = 0, tk = 0\<rparr>)
        (5 := \<lparr>armed = True, idx = 0, fn = 0, arg = 0, tk = 0\<rparr>,
         6 := \<lparr>armed = True, idx = 1, fn = 0, arg = 0, tk = 0\<rparr>)\<rparr>"

lemma two_timers_pending:
  "pending two_timers 0 = {#\<lparr>deadline_us = 10, te = 5\<rparr>, \<lparr>deadline_us = 100, te = 6\<rparr>#}"
  "k \<noteq> 0 \<Longrightarrow> pending two_timers k = {#}"
  by (simp_all add: pending_def two_timers_def heap_mset_def numeral_2_eq_2)

lemma two_timers_inv: "timer_inv two_timers"
  unfolding timer_inv_def
proof (intro allI)
  fix k
  have "edge_ok (timers two_timers 0) 1" by (simp add: edge_ok_def two_timers_def parent_def D_def)
  moreover have "j = 1" if "0 < j" "j < 2" for j :: nat using that by simp
  ultimately have "heap_ok (timers two_timers 0) 2" unfolding heap_from_def by metis
  moreover have "idx_ok (timers two_timers 0) 2 (ents two_timers)"
    by (auto simp: idx_ok_def two_timers_def less_Suc_eq numeral_2_eq_2)
  ultimately show "nr_timers two_timers k < MAX_TIMERS \<and>
     heap_ok (timers two_timers k) (nr_timers two_timers k) \<and>
     idx_ok (timers two_timers k) (nr_timers two_timers k) (ents two_timers) \<and>
     (\<forall>x \<in># pending two_timers k. armed (ents two_timers (te x)) \<and> tk (ents two_timers (te x)) = k)"
    by (cases "k = 0")
      (auto simp: two_timers_pending, auto simp: two_timers_def MAX_TIMERS_def heap_from_def idx_ok_def)
qed

text \<open>Starting the first timer of a thread.\<close>

theorem timer_start_correct_witness:
  "\<exists>s'. timer_start no_timers 0 1 10 = Some s' \<and> pending s' 0 = {#\<lparr>deadline_us = 10, te = 1\<rparr>#}"
  using timer_start_correct [OF no_timers_inv, of 1 0 10]
  by (auto simp: no_timers_def MAX_TIMERS_def pending_def heap_mset_def)

text \<open>Cancelling the earlier of two timers.\<close>

theorem timer_cancel_correct_witness:
  "\<exists>s'. timer_cancel two_timers 5 = Some (True, s') \<and> pending s' 0 = {#\<lparr>deadline_us = 100, te = 6\<rparr>#}"
  using timer_cancel_correct [OF two_timers_inv, of "\<lparr>deadline_us = 10, te = 5\<rparr>" 0]
  by (auto simp: two_timers_pending)

text \<open>Merging two timers of thread 0 into thread 1.\<close>

theorem timer_merge_correct_witness:
  "\<exists>s'. timer_merge two_timers 1 0 = Some s' \<and> pending s' 0 = {#} \<and>
     pending s' 1 = {#\<lparr>deadline_us = 10, te = 5\<rparr>, \<lparr>deadline_us = 100, te = 6\<rparr>#}"
proof -
  have "nr_timers two_timers 1 + nr_timers two_timers 0 < MAX_TIMERS"
    by (simp add: two_timers_def MAX_TIMERS_def)
  then show ?thesis
    using timer_merge_correct [OF two_timers_inv, of 1 0] by (auto simp: two_timers_pending)
qed

text \<open>At time 50 the softirq runs the first of two timers.\<close>

theorem timer_softirq_order_witness:
  "\<exists>l s'. timer_softirq (\<lambda>e. Some) (\<lambda>_. 50) two_timers 0 16 = Some (l, s') \<and> sorted (map deadline_us l) \<and>
     mset l + pending s' 0 = {#\<lparr>deadline_us = 10, te = 5\<rparr>, \<lparr>deadline_us = 100, te = 6\<rparr>#}"
proof -
  obtain l s' where r: "timer_softirq (\<lambda>e. Some) (\<lambda>_. 50) two_timers 0 16 = Some (l, s')"
    by (cases "drain (timer_top 0) (\<lambda>s. timer_pop s 0) (\<lambda>_. 50) 0 16 two_timers")
      (simp add: timer_softirq_def softirq_drain)
  then show ?thesis
    using timer_softirq_order [OF two_timers_inv r] by (auto simp: two_timers_pending)
qed

text \<open>The softirq returns on two timers with a handler that does nothing.\<close>

theorem timer_softirq_returns_witness:
  "\<exists>l s'. timer_softirq (\<lambda>e. Some) (\<lambda>_. 50) two_timers 0 1 = Some (l, s') \<and> length l \<le> 1"
  using timer_softirq_returns [OF two_timers_inv, of "\<lambda>e. Some" "\<lambda>_. 50" 0 1] by auto

text \<open>The earliest deadline of the two timers.\<close>

theorem timer_earliest_is_min_witness:
  "timer_earliest_deadline two_timers 0 \<le> 10 \<and> timer_needed two_timers 0 10"
  using timer_earliest_is_min [OF two_timers_inv, of 0 10]
  unfolding two_timers_pending by auto

text \<open>A timer that has fired stays marked as armed: cancelling it afterwards reports success and takes
  the earliest of the remaining timers out of the heap instead, and arming it again is a
  \<^verbatim>\<open>BUG\<close>. Here timer 5 fires at time 50 and timer 6, due at 100, is lost.\<close>

theorem timer_cancel_after_fire:
  "\<exists>l s s'. timer_softirq (\<lambda>e. Some) (\<lambda>_. 50) two_timers 0 16 = Some (l, s) \<and> map te l = [5] \<and>
     pending s 0 = {#\<lparr>deadline_us = 100, te = 6\<rparr>#} \<and>
     timer_cancel s 5 = Some (True, s') \<and> pending s' 0 = {#} \<and> armed (ents s' 6) \<and>
     timer_start s 0 5 60 = None"
proof -
  have c: "children 0 = [1, 2, 3, 4]" by (simp add: children_def D_def upt_rec)
  let ?s = "timer_pop two_timers 0"
  have s: "nr_timers ?s 0 = 1" "timers ?s 0 0 = \<lparr>deadline_us = 100, te = 6\<rparr>"
    "ents ?s 5 = \<lparr>armed = True, idx = 0, fn = 0, arg = 0, tk = 0\<rparr>" "armed (ents ?s 6)"
    by (simp_all add: timer_pop_def two_timers_def Let_def sift_down_def sift_down_loop.simps c set_idx_def)
  have "timer_softirq (\<lambda>e. Some) (\<lambda>_. 50) two_timers 0 16 = Some ([\<lparr>deadline_us = 10, te = 5\<rparr>], ?s)"
  proof -
    have "timer_needed two_timers 0 50" "timers two_timers 0 0 = \<lparr>deadline_us = 10, te = 5\<rparr>"
      by (simp_all add: timer_needed_def two_timers_def)
    moreover have "\<not> timer_needed ?s 0 50" using s by (simp add: timer_needed_def)
    moreover have "unat (16 :: u32) = Suc (Suc 14)" by simp
    ultimately show ?thesis unfolding timer_softirq_def by (simp only: softirq_loop.simps Let_def) simp
  qed
  moreover have "pending ?s 0 = {#\<lparr>deadline_us = 100, te = 6\<rparr>#}"
    using s by (simp add: pending_def heap_mset_def)
  moreover have "\<exists>s'. timer_cancel ?s 5 = Some (True, s') \<and> pending s' 0 = {#} \<and> armed (ents s' 6)"
    using s by (simp add: timer_cancel_def preempt_disable_def preempt_enable_def Let_def pending_def heap_mset_def)
  moreover have "timer_start ?s 0 5 60 = None"
    using s by (simp add: timer_start_def timer_start_locked_def preempt_disable_def)
  ultimately show ?thesis by auto
qed

text \<open>Every \<^verbatim>\<open>timer_start\<close> that returns has lowered the preemption counter of its thread by one, and
  every \<^verbatim>\<open>timer_cancel\<close> has raised it by one: neither leaves it balanced.\<close>

theorem timer_preempt_unbalanced:
  "map_option preempt_cnt (timer_start s k e d) \<in> {None, Some (preempt_cnt s - 1)} \<and>
   map_option (\<lambda>(b, s'). preempt_cnt s') (timer_cancel s e) \<in> {None, Some (preempt_cnt s + 1)}"
  by (auto simp: timer_start_def timer_start_locked_def timer_cancel_def preempt_disable_def
      preempt_enable_def Let_def split: prod.splits)

end
