(* ===== verification/Sched_Policy.thy ===== *)
theory Sched_Policy
  imports Prelude "HOL-Library.Multiset"
begin

text \<open>
  The interface between the scheduler and its policies (\<^verbatim>\<open>skyloft/sched/ops.h\<close>): a policy keeps the
  runnable tasks of all CPUs; the scheduler puts tasks on it when they are spawned, woken up or yield,
  and picks the next one. The locale states what every policy has to keep, and shows that then no task
  is lost or run twice, whatever the order of the operations.
\<close>

type_synonym task = nat

text \<open>The states a policy reaches from \<open>q0\<close>: \<open>P\<close> are the tasks that were put on it, \<open>R\<close> those that
  were picked. An internal step, such as load balancing, may bring in tasks of its own.\<close>

inductive policy_reach ::
  "('q \<Rightarrow> nat \<Rightarrow> task \<Rightarrow> 'q option) \<Rightarrow> ('q \<Rightarrow> nat \<Rightarrow> task option \<times> 'q) \<Rightarrow>
     ('q \<Rightarrow> task multiset \<Rightarrow> 'q \<Rightarrow> bool) \<Rightarrow> (nat \<Rightarrow> bool) \<Rightarrow> 'q \<Rightarrow>
     task multiset \<Rightarrow> task multiset \<Rightarrow> 'q \<Rightarrow> bool"
  for put :: "'q \<Rightarrow> nat \<Rightarrow> task \<Rightarrow> 'q option" and pick :: "'q \<Rightarrow> nat \<Rightarrow> task option \<times> 'q"
    and internal :: "'q \<Rightarrow> task multiset \<Rightarrow> 'q \<Rightarrow> bool" and cpu_ok :: "nat \<Rightarrow> bool" and q0 :: 'q where
  start: "policy_reach put pick internal cpu_ok q0 {#} {#} q0"
| put: "policy_reach put pick internal cpu_ok q0 P R q \<Longrightarrow> cpu_ok cpu \<Longrightarrow> put q cpu t = Some q' \<Longrightarrow>
    policy_reach put pick internal cpu_ok q0 (add_mset t P) R q'"
| picked: "policy_reach put pick internal cpu_ok q0 P R q \<Longrightarrow> cpu_ok cpu \<Longrightarrow> pick q cpu = (Some t, q') \<Longrightarrow>
    policy_reach put pick internal cpu_ok q0 P (add_mset t R) q'"
| idle: "policy_reach put pick internal cpu_ok q0 P R q \<Longrightarrow> cpu_ok cpu \<Longrightarrow> pick q cpu = (None, q') \<Longrightarrow>
    policy_reach put pick internal cpu_ok q0 P R q'"
| inner: "policy_reach put pick internal cpu_ok q0 P R q \<Longrightarrow> internal q X q' \<Longrightarrow>
    policy_reach put pick internal cpu_ok q0 (X + P) R q'"

locale run_queue =
  fixes put :: "'q \<Rightarrow> nat \<Rightarrow> task \<Rightarrow> 'q option"
    and pick :: "'q \<Rightarrow> nat \<Rightarrow> task option \<times> 'q"
    and internal :: "'q \<Rightarrow> task multiset \<Rightarrow> 'q \<Rightarrow> bool"
    and cpu_ok :: "nat \<Rightarrow> bool"
    and queued :: "'q \<Rightarrow> task multiset"
    and invar :: "'q \<Rightarrow> bool"
  assumes put_queued: "invar q \<Longrightarrow> cpu_ok cpu \<Longrightarrow> put q cpu t = Some q' \<Longrightarrow>
        invar q' \<and> queued q' = add_mset t (queued q)"
    and pick_some: "invar q \<Longrightarrow> cpu_ok cpu \<Longrightarrow> pick q cpu = (Some t, q') \<Longrightarrow>
        invar q' \<and> queued q = add_mset t (queued q')"
    and pick_none: "invar q \<Longrightarrow> cpu_ok cpu \<Longrightarrow> pick q cpu = (None, q') \<Longrightarrow>
        invar q' \<and> queued q' = queued q"
    and internal_queued: "invar q \<Longrightarrow> internal q X q' \<Longrightarrow> invar q' \<and> queued q' = queued q + X"
begin

lemma conservation:
  assumes "policy_reach put pick internal cpu_ok q0 P R q" "invar q0"
  shows "invar q \<and> queued q0 + P = queued q + R"
  using assms
proof (induction rule: policy_reach.induct)
  case start
  then show ?case by simp
next
  case (put P R q cpu t q')
  then show ?case using put_queued [of q cpu t q'] by simp
next
  case (picked P R q cpu t q')
  then show ?case using pick_some [of q cpu t q'] by simp
next
  case (idle P R q cpu q')
  then show ?case using pick_none [of q cpu q'] by simp
next
  case (inner P R q X q')
  then have "invar q'" "queued q' = queued q + X" "queued q0 + P = queued q + R"
    using internal_queued [of q X q'] by auto
  moreover have "queued q0 + (X + P) = X + (queued q0 + P)" by (simp add: ac_simps)
  ultimately show ?case by (simp add: ac_simps)
qed

text \<open>So a task that was put once, on a policy that did not have it, is picked at most once, and is
  still queued until then.\<close>

lemma picked_once:
  assumes "policy_reach put pick internal cpu_ok q0 P R q" "invar q0"
    and "count (queued q0) t = 0" "count P t = 1"
  shows "count R t \<le> 1 \<and> (t \<in># R \<longleftrightarrow> t \<notin># queued q)"
proof -
  have "count (queued q0 + P) t = count (queued q + R) t" using conservation [OF assms(1,2)] by simp
  then have "count (queued q) t + count R t = 1" using assms(3,4) by simp
  moreover have "t \<in># M \<longleftrightarrow> count M t \<noteq> 0" for M :: "task multiset" by (simp add: count_eq_zero_iff)
  ultimately show ?thesis by presburger
qed

end

text \<open>Sums over the CPUs when the queue of one of them changes.\<close>

lemma sum_fun_upd:
  fixes g :: "'b \<Rightarrow> 'a multiset" and c n :: nat
  assumes "c < n"
  shows "(\<Sum>i<n. g ((f(c := x)) i)) + g (f c) = (\<Sum>i<n. g (f i)) + g x"
proof -
  have split: "(\<Sum>i<n. g (f i)) = g (f c) + (\<Sum>i\<in>{..<n} - {c}. g (f i))" for f :: "nat \<Rightarrow> 'b"
    using assms by (simp add: sum.remove)
  have "(\<Sum>i\<in>{..<n} - {c}. g ((f(c := x)) i)) = (\<Sum>i\<in>{..<n} - {c}. g (f i))"
    by (rule sum.cong) auto
  then show ?thesis by (simp add: split)
qed

end
