(* ===== verification/Fifo.thy ===== *)
theory Fifo
  imports Sched_Policy Queue_Ring
begin

text \<open>
  The FIFO policy of \<^verbatim>\<open>libos/sched/policy/fifo.c\<close> and \<^verbatim>\<open>sched/policy/fifo.h\<close>: per CPU a ring of 32 tasks
  and an overflow list, with work stealing by idle CPUs. Task pointers are numbers; the softirq task
  that a stealing CPU may find is a parameter of the balancing.
\<close>

section \<open>Data and operations\<close>

record fifo_rq =
  rq_head :: u32
  rq_tail :: u32
  overflow :: "task list"
  rq_locked :: bool
  rq_tasks :: "nat \<Rightarrow> task"

type_synonym fifo_rqs = "nat \<Rightarrow> fifo_rq"

definition RQ_SIZE_MASK :: u32 where "RQ_SIZE_MASK = RUNTIME_RQ_SIZE - 1"

definition RQ_IS_EMPTY :: "fifo_rq \<Rightarrow> bool" where
  "RQ_IS_EMPTY rq \<longleftrightarrow> rq_head rq = rq_tail rq"

definition RQ_HEAD :: "fifo_rq \<Rightarrow> task" where
  "RQ_HEAD rq = rq_tasks rq (unat (rq_head rq AND RQ_SIZE_MASK))"

definition fifo_init_percpu :: "fifo_rq \<Rightarrow> fifo_rq" where
  "fifo_init_percpu rq = rq\<lparr>rq_locked := False, rq_head := 0, rq_tail := 0, overflow := []\<rparr>"

definition fifo_pick_next :: "fifo_rq \<Rightarrow> task option \<times> fifo_rq" where
  "fifo_pick_next rq =
     (if RQ_IS_EMPTY rq then (None, rq)
      else (Some (RQ_HEAD rq), rq\<lparr>rq_head := rq_head rq + 1\<rparr>))"

definition fifo_put_task :: "fifo_rq \<Rightarrow> task \<Rightarrow> fifo_rq" where
  "fifo_put_task rq task =
     (if rq_tail rq - rq_head rq \<ge> RUNTIME_RQ_SIZE
      then rq\<lparr>overflow := overflow rq @ [task]\<rparr>
      else rq\<lparr>rq_tasks := (rq_tasks rq)(unat (rq_tail rq AND RQ_SIZE_MASK) := task),
              rq_tail := rq_tail rq + 1\<rparr>)"

text \<open>\<^verbatim>\<open>fifo_sched_spawn\<close>, on \<open>this_cpu\<close>: a null task or a bad CPU number is refused; the CPU number
  is not used otherwise.\<close>

definition fifo_spawn :: "fifo_rqs \<Rightarrow> nat \<Rightarrow> task option \<Rightarrow> int \<Rightarrow> int \<times> fifo_rqs" where
  "fifo_spawn rqs this_cpu task cpu =
     (case task of
        None \<Rightarrow> (-1, rqs)
      | Some t \<Rightarrow> if cpu < 0 \<or> cpu > int USED_CPUS then (-1, rqs)
                  else (0, rqs(this_cpu := fifo_put_task (rqs this_cpu) t)))"

definition fifo_yield :: "fifo_rqs \<Rightarrow> nat \<Rightarrow> task \<Rightarrow> fifo_rqs" where
  "fifo_yield rqs this_cpu self = rqs(this_cpu := fifo_put_task (rqs this_cpu) self)"

definition fifo_wakeup :: "fifo_rqs \<Rightarrow> nat \<Rightarrow> task \<Rightarrow> fifo_rqs" where
  "fifo_wakeup rqs this_cpu task = rqs(this_cpu := fifo_put_task (rqs this_cpu) task)"

text \<open>The copying loop of \<^verbatim>\<open>steal_task\<close>: the first \<open>n\<close> entries of the thief's array become the tasks at
  the head of the victim.\<close>

fun copy_tasks :: "fifo_rq \<Rightarrow> fifo_rq \<Rightarrow> nat \<Rightarrow> nat \<Rightarrow> u32 \<Rightarrow> fifo_rq \<times> u32" where
  "copy_tasks l r i 0 h = (l, h)"
| "copy_tasks l r i (Suc n) h =
     copy_tasks (l\<lparr>rq_tasks := (rq_tasks l)(i := rq_tasks r (unat (h AND RQ_SIZE_MASK)))\<rparr>) r (i + 1) n (h + 1)"

definition steal_task :: "fifo_rq \<Rightarrow> fifo_rq \<Rightarrow> task option \<Rightarrow> bool \<times> fifo_rq \<times> fifo_rq" where
  "steal_task l r softirq =
     (if rq_locked r then (False, l, r)
      else let avail = rq_tail r - rq_head r
           in if avail \<noteq> 0
              then let avail = div_up avail 2;
                       (l, h) = copy_tasks l r 0 (unat avail) (rq_head r)
                   in (True, l\<lparr>rq_tail := avail\<rparr>, r\<lparr>rq_head := h\<rparr>)
              else
                let (task, r) = (case overflow r of
                                   t # ts \<Rightarrow> (Some t, r\<lparr>overflow := ts\<rparr>)
                                 | [] \<Rightarrow> (softirq, r))
                in case task of
                     Some t \<Rightarrow>
                       (True, l\<lparr>rq_tasks := (rq_tasks l)(unat (rq_tail l) := t), rq_tail := rq_tail l + 1\<rparr>, r)
                   | None \<Rightarrow> (False, l, r))"

text \<open>The loop of \<^verbatim>\<open>fifo_sched_balance\<close> over the worker CPUs, from a pseudo-random start. \<open>softirq idx\<close>
  is the softirq task found on the CPU \<open>idx\<close>.\<close>

fun balance_loop ::
  "fifo_rqs \<Rightarrow> nat \<Rightarrow> nat \<Rightarrow> u32 \<Rightarrow> (nat \<Rightarrow> task option) \<Rightarrow> nat \<Rightarrow> nat \<Rightarrow> fifo_rqs" where
  "balance_loop rqs cpu workers start softirq i 0 = rqs"
| "balance_loop rqs cpu workers start softirq i (Suc n) =
     (let idx = unat ((start + of_nat i) mod of_nat workers)
      in if idx \<noteq> cpu
         then let (ok, l, r) = steal_task (rqs cpu) (rqs idx) (softirq idx);
                  rqs' = rqs(cpu := l, idx := r)
              in if ok then rqs' else balance_loop rqs' cpu workers start softirq (i + 1) n
         else balance_loop rqs cpu workers start softirq (i + 1) n)"

definition fifo_balance :: "fifo_rqs \<Rightarrow> nat \<Rightarrow> nat \<Rightarrow> u32 \<Rightarrow> (nat \<Rightarrow> task option) \<Rightarrow> fifo_rqs" where
  "fifo_balance rqs cpu workers start softirq =
     balance_loop (rqs(cpu := (rqs cpu)\<lparr>rq_head := 0, rq_tail := 0\<rparr>)) cpu workers start softirq 0 workers"

section \<open>Invariant and abstraction\<close>

definition fifo_rq_inv :: "fifo_rq \<Rightarrow> bool" where
  "fifo_rq_inv rq \<longleftrightarrow> unat (rq_tail rq - rq_head rq) \<le> 32"

definition rq_ring :: "fifo_rq \<Rightarrow> task list" where
  "rq_ring rq = ring_list 5 (rq_tasks rq) (rq_head rq) (rq_tail rq)"

definition rq_mset :: "fifo_rq \<Rightarrow> task multiset" where
  "rq_mset rq = mset (rq_ring rq) + mset (overflow rq)"

definition fifo_queued :: "nat \<Rightarrow> fifo_rqs \<Rightarrow> task multiset" where
  "fifo_queued n rqs = (\<Sum>c<n. rq_mset (rqs c))"

definition fifo_inv :: "nat \<Rightarrow> fifo_rqs \<Rightarrow> bool" where
  "fifo_inv n rqs \<longleftrightarrow> (\<forall>c<n. fifo_rq_inv (rqs c))"

lemma rq_slot: "unat (c AND RQ_SIZE_MASK) = ring_slot 5 c"
  by (simp add: RQ_SIZE_MASK_def RUNTIME_RQ_SIZE_def ring_slot_def)

lemma fifo_put_task_ok:
  assumes "fifo_rq_inv rq"
  shows "fifo_rq_inv (fifo_put_task rq t)"
    and "rq_mset (fifo_put_task rq t) = add_mset t (rq_mset rq)"
    and "rq_tail rq - rq_head rq < 32 \<Longrightarrow> rq_ring (fifo_put_task rq t) = rq_ring rq @ [t]"
proof -
  have lt: "rq_tail rq - rq_head rq < 32 \<longleftrightarrow> unat (rq_tail rq - rq_head rq) < 32"
    by (simp add: word_less_nat_alt)
  have room: "rq_ring (fifo_put_task rq t) = rq_ring rq @ [t]" "fifo_rq_inv (fifo_put_task rq t)"
    "overflow (fifo_put_task rq t) = overflow rq"
    if "rq_tail rq - rq_head rq < 32"
  proof -
    have "\<not> RUNTIME_RQ_SIZE \<le> rq_tail rq - rq_head rq" using that by (simp add: RUNTIME_RQ_SIZE_def)
    moreover have "unat (rq_tail rq - rq_head rq) < 2 ^ 5" using that lt by simp
    moreover from this have "unat (rq_tail rq + 1 - rq_head rq) = Suc (unat (rq_tail rq - rq_head rq))"
      by (intro unat_plus_one_minus) simp
    ultimately show "rq_ring (fifo_put_task rq t) = rq_ring rq @ [t]" "fifo_rq_inv (fifo_put_task rq t)"
      "overflow (fifo_put_task rq t) = overflow rq"
      by (simp_all add: fifo_put_task_def rq_ring_def rq_slot ring_list_put fifo_rq_inv_def)
  qed
  have full: "fifo_put_task rq t = rq\<lparr>overflow := overflow rq @ [t]\<rparr>" if "\<not> rq_tail rq - rq_head rq < 32"
    using that by (simp add: fifo_put_task_def RUNTIME_RQ_SIZE_def)
  show "rq_tail rq - rq_head rq < 32 \<Longrightarrow> rq_ring (fifo_put_task rq t) = rq_ring rq @ [t]" by (rule room)
  show "fifo_rq_inv (fifo_put_task rq t)"
    using room(2) full assms by (cases "rq_tail rq - rq_head rq < 32") (auto simp: fifo_rq_inv_def)
  show "rq_mset (fifo_put_task rq t) = add_mset t (rq_mset rq)"
    using room(1,3) full by (cases "rq_tail rq - rq_head rq < 32") (auto simp: rq_mset_def rq_ring_def)
qed

lemma fifo_pick_ok:
  assumes "fifo_rq_inv rq"
  shows "fifo_pick_next rq = (None, rq') \<Longrightarrow> rq' = rq \<and> rq_ring rq = []"
    and "fifo_pick_next rq = (Some t, rq') \<Longrightarrow>
      fifo_rq_inv rq' \<and> rq_ring rq = t # rq_ring rq' \<and> overflow rq' = overflow rq"
proof -
  show "fifo_pick_next rq = (None, rq') \<Longrightarrow> rq' = rq \<and> rq_ring rq = []"
    by (auto simp: fifo_pick_next_def RQ_IS_EMPTY_def rq_ring_def split: if_splits)
  assume p: "fifo_pick_next rq = (Some t, rq')"
  then have ne: "rq_tail rq \<noteq> rq_head rq" by (auto simp: fifo_pick_next_def RQ_IS_EMPTY_def split: if_splits)
  have "unat (rq_tail rq - (rq_head rq + 1)) = unat (rq_tail rq - rq_head rq) - 1"
    by (rule unat_minus_plus_one [OF ne])
  with p ne assms show "fifo_rq_inv rq' \<and> rq_ring rq = t # rq_ring rq' \<and> overflow rq' = overflow rq"
    by (auto simp: fifo_pick_next_def RQ_IS_EMPTY_def rq_ring_def RQ_HEAD_def rq_slot fifo_rq_inv_def
        ring_list_take split: if_splits)
qed

section \<open>Stealing\<close>

lemma copy_tasks_eq:
  "copy_tasks l r i n h =
     (l\<lparr>rq_tasks := (\<lambda>j. if i \<le> j \<and> j < i + n then rq_tasks r (ring_slot 5 (h + of_nat (j - i)))
                         else rq_tasks l j)\<rparr>, h + of_nat n)"
proof (induction n arbitrary: l i h)
  case 0
  have "(\<lambda>j. if i \<le> j \<and> j < i + 0 then rq_tasks r (ring_slot 5 (h + of_nat (j - i))) else rq_tasks l j)
      = rq_tasks l" by auto
  then show ?case by (simp only: copy_tasks.simps) simp
next
  case (Suc n)
  let ?l = "l\<lparr>rq_tasks := (rq_tasks l)(i := rq_tasks r (ring_slot 5 h))\<rparr>"
  have "(if i + 1 \<le> j \<and> j < i + 1 + n then rq_tasks r (ring_slot 5 (h + 1 + of_nat (j - (i + 1))))
         else rq_tasks ?l j)
      = (if i \<le> j \<and> j < i + Suc n then rq_tasks r (ring_slot 5 (h + of_nat (j - i))) else rq_tasks l j)" for j
  proof (cases "i < j \<and> j < i + Suc n")
    case True
    then have "j - i = Suc (j - (i + 1))" by linarith
    then have "h + of_nat (j - i) = h + 1 + of_nat (j - (i + 1))" by (simp add: algebra_simps)
    then show ?thesis using True by simp
  qed auto
  then show ?case
    unfolding copy_tasks.simps Suc.IH rq_slot by (simp only: of_nat_Suc ac_simps) simp
qed

lemma ring_list_drop:
  assumes "n \<le> unat (t - h)"
  shows "ring_list k buf (h + of_nat n) t = drop n (ring_list k buf h t)"
  using assms
proof (induction n arbitrary: h)
  case (Suc n)
  then have ne: "t \<noteq> h" by auto
  have "unat (t - (h + 1)) = unat (t - h) - 1" by (rule unat_minus_plus_one [OF ne])
  then have "ring_list k buf (h + 1 + of_nat n) t = drop n (ring_list k buf (h + 1) t)"
    using Suc by (intro Suc.IH) simp
  then show ?case using ring_list_take [OF ne, of k buf] by (simp add: algebra_simps)
qed simp

lemma ring_list_copied:
  assumes "n \<le> 32" "n \<le> unat (t - h)"
  shows "ring_list 5 (\<lambda>j. if 0 \<le> j \<and> j < 0 + n then buf (ring_slot 5 (h + of_nat (j - 0))) else b j) 0 (of_nat n)
       = take n (ring_list 5 buf h t)"
proof (rule nth_equalityI)
  have u: "unat (of_nat n :: u32) = n" using assms(1) by (simp add: unat_of_nat)
  then show "length (ring_list 5 (\<lambda>j. if 0 \<le> j \<and> j < 0 + n then buf (ring_slot 5 (h + of_nat (j - 0))) else b j) 0 (of_nat n))
     = length (take n (ring_list 5 buf h t))"
    using assms by simp
  fix i assume "i < length (ring_list 5 (\<lambda>j. if 0 \<le> j \<and> j < 0 + n then buf (ring_slot 5 (h + of_nat (j - 0))) else b j) 0 (of_nat n))"
  then have i: "i < n" using u by simp
  have "ring_slot 5 (of_nat i) = i" using ring_slot_add [of 5 0 i] i assms(1) by simp
  then show "ring_list 5 (\<lambda>j. if 0 \<le> j \<and> j < 0 + n then buf (ring_slot 5 (h + of_nat (j - 0))) else b j) 0 (of_nat n) ! i
     = take n (ring_list 5 buf h t) ! i"
    using i u assms(2) by (simp add: ring_list_def)
qed

text \<open>The number of tasks stolen: half of the victim's, rounded up.\<close>

lemma steal_half:
  assumes "unat (a :: u32) \<le> 32"
  shows "unat (div_up a 2) = (unat a + 1) div 2"
proof -
  have "a + 2 - 1 = a + 1" by simp
  moreover have "unat (a + 1) = unat a + 1" using assms by (simp add: unat_word_ariths(1))
  moreover have "unat (2 :: u32) = 2" by simp
  ultimately show ?thesis unfolding div_up_def by (metis unat_div)
qed

lemma steal_ring:
  assumes "fifo_rq_inv r" "rq_head l = 0" "rq_tail l = 0" "\<not> rq_locked r" "rq_ring r \<noteq> []"
  shows "\<exists>l' r'. steal_task l r s = (True, l', r') \<and>
     rq_ring l' = take ((length (rq_ring r) + 1) div 2) (rq_ring r) \<and>
     rq_ring r' = drop ((length (rq_ring r) + 1) div 2) (rq_ring r) \<and>
     overflow l' = overflow l \<and> overflow r' = overflow r \<and> fifo_rq_inv l' \<and> fifo_rq_inv r'"
proof -
  let ?a = "rq_tail r - rq_head r"
  let ?n = "(unat ?a + 1) div 2"
  have a: "unat ?a \<le> 32" "?a \<noteq> 0" "0 < unat ?a"
    using assms(1,5) by (auto simp: fifo_rq_inv_def rq_ring_def ring_list_eq_Nil unat_gt_0)
  then have n: "?n \<le> 32" "?n \<le> unat ?a" by auto
  have u: "unat (div_up ?a 2) = ?n" by (rule steal_half [OF a(1)])
  then have d: "div_up ?a 2 = of_nat ?n" by (metis of_nat_unat ucast_id)
  define l' where "l' = fst (copy_tasks l r 0 ?n (rq_head r))\<lparr>rq_tail := div_up ?a 2\<rparr>"
  define r' where "r' = r\<lparr>rq_head := rq_head r + div_up ?a 2\<rparr>"
  have "steal_task l r s = (True, l', r')"
    using assms(4) a(2) u by (simp add: steal_task_def Let_def copy_tasks_eq l'_def r'_def)
  moreover have "rq_ring l' = take ?n (rq_ring r)"
    unfolding l'_def copy_tasks_eq rq_ring_def d
    using assms(2) ring_list_copied [OF n, of "rq_tasks r" "rq_tasks l"] by simp
  moreover have "rq_ring r' = drop ?n (rq_ring r)"
    unfolding r'_def rq_ring_def d using ring_list_drop [OF n(2), of 5 "rq_tasks r"] by simp
  moreover have "fifo_rq_inv l'" using assms(2) u n(1) by (simp add: fifo_rq_inv_def l'_def copy_tasks_eq)
  moreover have "fifo_rq_inv r'"
  proof -
    have "length (rq_ring r') \<le> length (rq_ring r)" using \<open>rq_ring r' = drop ?n (rq_ring r)\<close> by simp
    then show ?thesis using a(1) by (simp add: fifo_rq_inv_def r'_def rq_ring_def)
  qed
  ultimately show ?thesis
    by (simp add: l'_def r'_def copy_tasks_eq rq_ring_def)
qed

text \<open>The softirq task that a call of \<^verbatim>\<open>steal_task\<close> brings in.\<close>

definition steal_new :: "fifo_rq \<Rightarrow> task option \<Rightarrow> task multiset" where
  "steal_new r softirq =
     (if \<not> rq_locked r \<and> rq_head r = rq_tail r \<and> overflow r = []
      then (case softirq of Some t \<Rightarrow> {#t#} | None \<Rightarrow> {#}) else {#})"

lemma steal_task_ok:
  assumes "fifo_rq_inv r" "rq_head l = 0" "rq_tail l = 0" "steal_task l r s = (ok, l', r')"
  shows "fifo_rq_inv l' \<and> fifo_rq_inv r' \<and>
     rq_mset l' + rq_mset r' = rq_mset l + rq_mset r + steal_new r s \<and>
     (\<not> ok \<longrightarrow> l' = l \<and> r' = r)"
proof (cases "rq_locked r \<or> rq_ring r = []")
  case False
  let ?n = "(length (rq_ring r) + 1) div 2"
  have r: "rq_ring l' = take ?n (rq_ring r)" "rq_ring r' = drop ?n (rq_ring r)"
    "overflow l' = overflow l" "overflow r' = overflow r" "fifo_rq_inv l'" "fifo_rq_inv r'" "ok"
    using steal_ring [of r l s] assms False by auto
  have "mset (rq_ring l') + mset (rq_ring r') = mset (rq_ring r)"
    unfolding r by (metis append_take_drop_id mset_append)
  moreover have "rq_ring l = []" using assms(2,3) by (simp add: rq_ring_def)
  moreover have "steal_new r s = {#}" using False by (auto simp: steal_new_def rq_ring_def)
  ultimately show ?thesis using r by (simp add: rq_mset_def ac_simps)
next
  case True
  have l: "rq_ring l = []" using assms(2,3) by (simp add: rq_ring_def)
  have inv: "fifo_rq_inv l" using assms(2,3) by (simp add: fifo_rq_inv_def)
  have one: "rq_ring (l\<lparr>rq_tasks := (rq_tasks l)(unat (rq_tail l) := x), rq_tail := rq_tail l + 1\<rparr>) = [x]"
    "fifo_rq_inv (l\<lparr>rq_tasks := (rq_tasks l)(unat (rq_tail l) := x), rq_tail := rq_tail l + 1\<rparr>)" for x
    using assms(2,3) by (simp_all add: rq_ring_def ring_list_def ring_slot_def fifo_rq_inv_def)
  show ?thesis
  proof (cases "rq_locked r")
    case True
    then show ?thesis using assms inv by (auto simp: steal_task_def steal_new_def)
  next
    case False
    then have e: "rq_head r = rq_tail r" using True by (auto simp: rq_ring_def ring_list_eq_Nil)
    show ?thesis
      using assms(1,4) inv False e one l
      by (auto simp: steal_task_def steal_new_def Let_def rq_mset_def rq_ring_def fifo_rq_inv_def
          split: list.splits option.splits)
  qed
qed

section \<open>Load balancing\<close>

fun balance_new ::
  "fifo_rqs \<Rightarrow> nat \<Rightarrow> nat \<Rightarrow> u32 \<Rightarrow> (nat \<Rightarrow> task option) \<Rightarrow> nat \<Rightarrow> nat \<Rightarrow> task multiset" where
  "balance_new rqs cpu workers start softirq i 0 = {#}"
| "balance_new rqs cpu workers start softirq i (Suc n) =
     (let idx = unat ((start + of_nat i) mod of_nat workers)
      in if idx \<noteq> cpu
         then let (ok, l, r) = steal_task (rqs cpu) (rqs idx) (softirq idx)
              in if ok then steal_new (rqs idx) (softirq idx)
                 else balance_new (rqs(cpu := l, idx := r)) cpu workers start softirq (i + 1) n
         else balance_new rqs cpu workers start softirq (i + 1) n)"

lemma balance_idx_less:
  assumes "0 < workers" "workers < 2 ^ 32"
  shows "unat ((c :: u32) mod of_nat workers) < workers"
  using assms by (simp add: unat_mod unat_of_nat)

lemma fifo_queued_upd2:
  assumes "a < n" "b < n" "a \<noteq> b"
  shows "fifo_queued n (rqs(a := x, b := y)) + (rq_mset (rqs a) + rq_mset (rqs b))
       = fifo_queued n rqs + (rq_mset x + rq_mset y)"
proof -
  have 1: "fifo_queued n (rqs(a := x)) + rq_mset (rqs a) = fifo_queued n rqs + rq_mset x"
    unfolding fifo_queued_def by (rule sum_fun_upd [OF assms(1)])
  have 2: "fifo_queued n (rqs(a := x, b := y)) + rq_mset (rqs b) = fifo_queued n (rqs(a := x)) + rq_mset y"
    using sum_fun_upd [OF assms(2), of rq_mset "rqs(a := x)" y] assms(3) by (simp add: fifo_queued_def)
  have "fifo_queued n (rqs(a := x, b := y)) + (rq_mset (rqs a) + rq_mset (rqs b))
      = (fifo_queued n (rqs(a := x, b := y)) + rq_mset (rqs b)) + rq_mset (rqs a)" by (simp add: ac_simps)
  also have "\<dots> = (fifo_queued n (rqs(a := x)) + rq_mset (rqs a)) + rq_mset y"
    unfolding 2 by (simp add: ac_simps)
  also have "\<dots> = fifo_queued n rqs + (rq_mset x + rq_mset y)" unfolding 1 by (simp add: ac_simps)
  finally show ?thesis .
qed

lemma balance_loop_ok:
  assumes "fifo_inv N rqs" "cpu < N" "workers \<le> N" "0 < workers" "workers < 2 ^ 32"
    and "rq_head (rqs cpu) = 0" "rq_tail (rqs cpu) = 0"
  shows "fifo_inv N (balance_loop rqs cpu workers start softirq i n) \<and>
     fifo_queued N (balance_loop rqs cpu workers start softirq i n)
       = fifo_queued N rqs + balance_new rqs cpu workers start softirq i n"
  using assms
proof (induction n arbitrary: rqs i)
  case (Suc n)
  let ?idx = "unat ((start + of_nat i) mod of_nat workers)"
  have idx: "?idx < N" using balance_idx_less [OF Suc.prems(4,5), of "start + of_nat i"] Suc.prems(3) by simp
  show ?case
  proof (cases "?idx = cpu")
    case True
    then show ?thesis using Suc.IH [OF Suc.prems, of "i + 1"] by (simp add: Let_def)
  next
    case False
    obtain ok l r where st: "steal_task (rqs cpu) (rqs ?idx) (softirq ?idx) = (ok, l, r)"
      by (metis prod_cases3)
    have "fifo_rq_inv (rqs ?idx)" using Suc.prems(1) idx by (simp add: fifo_inv_def)
    note s = steal_task_ok [OF this Suc.prems(6,7) st]
    let ?rqs = "rqs(cpu := l, ?idx := r)"
    have inv: "fifo_inv N ?rqs" using Suc.prems(1) s by (simp add: fifo_inv_def)
    show ?thesis
    proof (cases ok)
      case True
      have "fifo_queued N ?rqs + (rq_mset (rqs cpu) + rq_mset (rqs ?idx))
          = fifo_queued N rqs + (rq_mset (rqs cpu) + rq_mset (rqs ?idx) + steal_new (rqs ?idx) (softirq ?idx))"
        using fifo_queued_upd2 [OF Suc.prems(2) idx] False s by metis
      then have "fifo_queued N ?rqs = fifo_queued N rqs + steal_new (rqs ?idx) (softirq ?idx)"
        by (simp add: ac_simps)
      then show ?thesis using True False st inv by (simp add: Let_def fun_upd_def)
    next
      case False
      then have "?rqs = rqs" using s by auto
      then show ?thesis
        using \<open>?idx \<noteq> cpu\<close> False st Suc.IH [OF Suc.prems, of "i + 1"] by (simp add: Let_def)
    qed
  qed
qed simp

lemma fifo_balance_ok:
  assumes "fifo_inv N rqs" "cpu < N" "workers \<le> N" "0 < workers" "workers < 2 ^ 32" "RQ_IS_EMPTY (rqs cpu)"
  defines "rqs0 \<equiv> rqs(cpu := (rqs cpu)\<lparr>rq_head := 0, rq_tail := 0\<rparr>)"
  shows "fifo_inv N (fifo_balance rqs cpu workers start softirq) \<and>
     fifo_queued N (fifo_balance rqs cpu workers start softirq)
       = fifo_queued N rqs + balance_new rqs0 cpu workers start softirq 0 workers"
proof -
  have "rq_mset ((rqs cpu)\<lparr>rq_head := 0, rq_tail := 0\<rparr>) = rq_mset (rqs cpu)"
    using assms(6) by (simp add: rq_mset_def rq_ring_def RQ_IS_EMPTY_def)
  then have "fifo_queued N rqs0 = fifo_queued N rqs"
    using sum_fun_upd [OF assms(2), of rq_mset rqs "(rqs cpu)\<lparr>rq_head := 0, rq_tail := 0\<rparr>"]
    by (simp add: fifo_queued_def rqs0_def)
  moreover have "fifo_inv N rqs0" using assms(1) by (simp add: fifo_inv_def rqs0_def fifo_rq_inv_def)
  ultimately show ?thesis
    using balance_loop_ok [of N rqs0 cpu workers start softirq 0 workers] assms(2-5)
    by (simp add: fifo_balance_def rqs0_def)
qed

section \<open>The policy interface\<close>

definition fifo_put :: "fifo_rqs \<Rightarrow> nat \<Rightarrow> task \<Rightarrow> fifo_rqs option" where
  "fifo_put rqs cpu t = Some (fifo_wakeup rqs cpu t)"

definition fifo_pick :: "fifo_rqs \<Rightarrow> nat \<Rightarrow> task option \<times> fifo_rqs" where
  "fifo_pick rqs cpu = (case fifo_pick_next (rqs cpu) of (t, rq) \<Rightarrow> (t, rqs(cpu := rq)))"

definition fifo_balances :: "nat \<Rightarrow> fifo_rqs \<Rightarrow> task multiset \<Rightarrow> fifo_rqs \<Rightarrow> bool" where
  "fifo_balances N rqs X rqs' \<longleftrightarrow>
     (\<exists>cpu workers start softirq. cpu < N \<and> workers \<le> N \<and> 0 < workers \<and> workers < 2 ^ 32 \<and>
        RQ_IS_EMPTY (rqs cpu) \<and> rqs' = fifo_balance rqs cpu workers start softirq \<and>
        X = balance_new (rqs(cpu := (rqs cpu)\<lparr>rq_head := 0, rq_tail := 0\<rparr>)) cpu workers start softirq 0 workers)"

lemma fifo_queued_upd:
  assumes "cpu < N" "rq_mset x = rq_mset (rqs cpu) + A"
  shows "fifo_queued N (rqs(cpu := x)) = fifo_queued N rqs + A"
  using sum_fun_upd [OF assms(1), of rq_mset rqs x] assms(2) by (simp add: fifo_queued_def ac_simps)

interpretation fifo: run_queue fifo_put fifo_pick "fifo_balances N" "\<lambda>c. c < N" "fifo_queued N" "fifo_inv N" for N
proof (unfold_locales, goal_cases)
  case (1 q cpu t q')
  then show ?case
    using fifo_put_task_ok(1,2) [of "q cpu" t] fifo_queued_upd [of cpu N "fifo_put_task (q cpu) t" q "{#t#}"]
    by (auto simp: fifo_put_def fifo_wakeup_def fifo_inv_def)
next
  case (2 q cpu t q')
  then obtain rq where rq: "fifo_pick_next (q cpu) = (Some t, rq)" "q' = q(cpu := rq)"
    by (auto simp: fifo_pick_def split: prod.splits)
  have p: "fifo_rq_inv rq \<and> rq_ring (q cpu) = t # rq_ring rq \<and> overflow rq = overflow (q cpu)"
    using fifo_pick_ok(2) [OF _ rq(1)] 2 by (simp add: fifo_inv_def)
  then have "rq_mset (q cpu) = add_mset t (rq_mset rq)" by (simp add: rq_mset_def)
  then have "fifo_queued N q' + add_mset t (rq_mset rq) = fifo_queued N q + rq_mset rq"
    using sum_fun_upd [OF 2(2), of rq_mset q rq] rq(2) by (simp add: fifo_queued_def)
  then show ?case using p rq(2) 2(1) by (simp add: fifo_inv_def)
next
  case (3 q cpu q')
  then show ?case
    using fifo_pick_ok(1) [of "q cpu"] by (auto simp: fifo_pick_def fifo_inv_def split: prod.splits)
next
  case (4 q X q')
  then show ?case unfolding fifo_balances_def using fifo_balance_ok by blast
qed

section \<open>Properties\<close>



text \<open>A steal takes the older half, rounded up, of the victim's ring in order, and leaves the younger
  half; nothing else of the two queues changes.\<close>

theorem fifo_steal_half:
  assumes "fifo_rq_inv r" "rq_head l = 0" "rq_tail l = 0" "\<not> rq_locked r" "rq_ring r \<noteq> []"
  shows "\<exists>l' r'. steal_task l r s = (True, l', r') \<and>
     rq_ring l' = take ((length (rq_ring r) + 1) div 2) (rq_ring r) \<and>
     rq_ring r' = drop ((length (rq_ring r) + 1) div 2) (rq_ring r) \<and>
     overflow l' = overflow l \<and> overflow r' = overflow r"
  using steal_ring [OF assms] by blast

text \<open>Stealing from a queue of one task.\<close>

theorem fifo_steal_half_witness:
  "\<exists>l' r'. steal_task \<lparr>rq_head = 0, rq_tail = 0, overflow = [], rq_locked = False, rq_tasks = (\<lambda>_. 0)\<rparr>
     \<lparr>rq_head = 5, rq_tail = 6, overflow = [], rq_locked = False, rq_tasks = (\<lambda>_. 9)\<rparr> None = (True, l', r') \<and>
     rq_ring l' = [9] \<and> rq_ring r' = []"
  using fifo_steal_half [of "\<lparr>rq_head = 5, rq_tail = 6, overflow = [], rq_locked = False, rq_tasks = (\<lambda>_. 9)\<rparr>"
    "\<lparr>rq_head = 0, rq_tail = 0, overflow = [], rq_locked = False, rq_tasks = (\<lambda>_. 0)\<rparr>" None]
  by (auto simp: fifo_rq_inv_def rq_ring_def ring_list_def)

text \<open>A CPU that picks \<open>n\<close> times.\<close>

fun pick_n :: "fifo_rq \<Rightarrow> nat \<Rightarrow> task list \<times> fifo_rq" where
  "pick_n rq 0 = ([], rq)"
| "pick_n rq (Suc n) =
     (case fifo_pick_next rq of
        (None, rq) \<Rightarrow> pick_n rq n
      | (Some t, rq) \<Rightarrow> let (ts, rq) = pick_n rq n in (t # ts, rq))"

lemma pick_n_ring:
  assumes "fifo_rq_inv rq"
  shows "overflow (snd (pick_n rq n)) = overflow rq \<and>
    mset (fst (pick_n rq n)) + mset (rq_ring (snd (pick_n rq n))) = mset (rq_ring rq)"
  using assms
proof (induction n arbitrary: rq)
  case (Suc n)
  obtain t rq' where p: "fifo_pick_next rq = (t, rq')" by fastforce
  show ?case
  proof (cases t)
    case None
    then show ?thesis using p fifo_pick_ok(1) [OF Suc.prems] Suc by auto
  next
    case (Some x)
    then have "fifo_rq_inv rq'" "rq_ring rq = x # rq_ring rq'" "overflow rq' = overflow rq"
      using p fifo_pick_ok(2) [OF Suc.prems] by auto
    then show ?thesis using Suc.IH [of rq'] p Some by (auto simp: Let_def split: prod.splits)
  qed
qed simp

text \<open>A CPU does not run the tasks on its own overflow list: \<open>n\<close> picks in a row leave the list as it
  is and give tasks of the ring only, so without another CPU that steals them those tasks starve.\<close>

theorem fifo_overflow_starves:
  assumes "fifo_rq_inv rq"
  shows "overflow (snd (pick_n rq n)) = overflow rq \<and> mset (fst (pick_n rq n)) \<subseteq># mset (rq_ring rq)"
  using pick_n_ring [OF assms, of n] by (metis mset_subset_eq_add_left)

text \<open>A task that overflowed on an otherwise drained queue is not picked.\<close>

theorem fifo_overflow_starves_witness:
  "overflow (snd (pick_n \<lparr>rq_head = 32, rq_tail = 32, overflow = [5], rq_locked = False, rq_tasks = (\<lambda>_. 0)\<rparr> 3)) = [5]"
  using fifo_overflow_starves [of "\<lparr>rq_head = 32, rq_tail = 32, overflow = [5], rq_locked = False,
    rq_tasks = (\<lambda>_. 0)\<rparr>" 3] by (simp add: fifo_rq_inv_def)

end
