(* ===== verification/Rr.thy ===== *)
theory Rr
  imports Fifo "HOL-Library.Signed_Division"
begin

text \<open>
  The round-robin policy of \<^verbatim>\<open>libos/sched/policy/rr.c\<close> and \<^verbatim>\<open>sched/policy/rr.h\<close>: per CPU a ring of 32
  slots in which an empty slot is a null pointer, new tasks dealt out to the CPUs in turn, woken tasks
  sent back to the CPU they last ran on, and a quantum of five ticks. \<open>None\<close> is a panic or an access to
  the run queue of a CPU that does not exist.
\<close>

section \<open>Data and operations\<close>

record rr_rq =
  rr_head :: u32
  rr_tail :: u32
  num_tasks :: u32
  rr_tasks :: "nat \<Rightarrow> task option"

record rr_st =
  rr_rqs :: "nat \<Rightarrow> rr_rq"
  last_run :: "task \<Rightarrow> int"
  quan :: "task \<Rightarrow> int"
  TARGET_CPU :: u32

definition rr_init_percpu :: "rr_rq \<Rightarrow> rr_rq" where
  "rr_init_percpu rq = rq\<lparr>rr_head := 0, rr_tail := 0, num_tasks := 0\<rparr>"

text \<open>The C remainder of a signed counter.\<close>

definition find_target_cpu :: "rr_st \<Rightarrow> task \<Rightarrow> bool \<Rightarrow> int \<times> rr_st" where
  "find_target_cpu s task new_task =
     (if new_task then (sint (TARGET_CPU s) smod int USED_CPUS, s\<lparr>TARGET_CPU := TARGET_CPU s + 1\<rparr>)
      else (last_run s task, s))"

definition rr_put_task :: "rr_rq \<Rightarrow> task \<Rightarrow> rr_rq option" where
  "rr_put_task rq task =
     (let tail = rr_tail rq; rq = rq\<lparr>rr_tail := tail + 1\<rparr>
      in if tail \<ge> rr_head rq + RUNTIME_RQ_SIZE then None
         else Some (rq\<lparr>rr_tasks := (rr_tasks rq)(unat (tail AND RQ_SIZE_MASK) := Some task)\<rparr>))"

definition put_on :: "rr_st \<Rightarrow> int \<Rightarrow> task \<Rightarrow> (rr_rq \<Rightarrow> rr_rq) \<Rightarrow> rr_st option" where
  "put_on s cpu task after =
     (if cpu < 0 \<or> cpu \<ge> int USED_CPUS then None
      else map_option (\<lambda>rq. s\<lparr>rr_rqs := (rr_rqs s)(nat cpu := after rq)\<rparr>)
             (rr_put_task (rr_rqs s (nat cpu)) task))"

definition rr_pick_next :: "rr_st \<Rightarrow> nat \<Rightarrow> task option \<times> rr_st" where
  "rr_pick_next s cpu =
     (let rq = rr_rqs s cpu; head = rr_head rq; slot = unat (head AND RQ_SIZE_MASK);
          task = rr_tasks rq slot; rq = rq\<lparr>rr_tasks := (rr_tasks rq)(slot := None)\<rparr>
      in case task of
           None \<Rightarrow> (None, s\<lparr>rr_rqs := (rr_rqs s)(cpu := rq)\<rparr>)
         | Some t \<Rightarrow> (Some t, s\<lparr>rr_rqs := (rr_rqs s)(cpu := rq\<lparr>rr_head := head + 1\<rparr>),
                                last_run := (last_run s)(t := int cpu)\<rparr>))"

definition rr_count :: "rr_rq \<Rightarrow> rr_rq" where
  "rr_count rq = rq\<lparr>num_tasks := num_tasks rq + 1\<rparr>"

definition rr_spawn :: "rr_st \<Rightarrow> task option \<Rightarrow> int \<Rightarrow> (int \<times> rr_st) option" where
  "rr_spawn s task cpu =
     (case task of
        None \<Rightarrow> Some (-1, s)
      | Some t \<Rightarrow> if cpu < 0 \<or> cpu > int USED_CPUS then Some (-1, s)
                  else let s = s\<lparr>quan := (quan s)(t := 0)\<rparr>; (c, s) = find_target_cpu s t True
                       in map_option (Pair 0) (put_on s c t rr_count))"

definition rr_yield :: "rr_st \<Rightarrow> nat \<Rightarrow> task \<Rightarrow> rr_st option" where
  "rr_yield s this_cpu self = put_on s (int this_cpu) self id"

definition rr_wakeup :: "rr_st \<Rightarrow> task \<Rightarrow> rr_st option" where
  "rr_wakeup s task = (let (c, s) = find_target_cpu s task False in put_on s c task rr_count)"

definition rr_preempt :: "rr_st \<Rightarrow> task \<Rightarrow> bool \<times> rr_st" where
  "rr_preempt s self =
     (let q = quan s self + 1
      in if q \<ge> int PREEMPT_QUAN then (True, s\<lparr>quan := (quan s)(self := 0)\<rparr>)
         else (False, s\<lparr>quan := (quan s)(self := q)\<rparr>))"

section \<open>Invariant\<close>

text \<open>The ring holds at most 32 tasks, and exactly its slots are not null.\<close>

definition rr_rq_inv :: "rr_rq \<Rightarrow> bool" where
  "rr_rq_inv rq \<longleftrightarrow> unat (rr_tail rq - rr_head rq) \<le> 32 \<and>
     (\<forall>i<32. rr_tasks rq (ring_slot 5 (rr_head rq + of_nat i)) \<noteq> None \<longleftrightarrow> i < unat (rr_tail rq - rr_head rq))"

definition rr_list :: "rr_rq \<Rightarrow> task list" where
  "rr_list rq = map the (ring_list 5 (rr_tasks rq) (rr_head rq) (rr_tail rq))"

lemma slot_wrap: "ring_slot 5 (h + 32) = ring_slot 5 h"
  using ring_slot_add [of 5 h 32] ring_slot_add [of 5 h 0] by simp

lemma rr_put_ok:
  assumes "rr_rq_inv rq" "rr_put_task rq t = Some rq'"
  shows "rr_rq_inv rq' \<and> rr_list rq' = rr_list rq @ [t]"
proof -
  let ?n = "unat (rr_tail rq - rr_head rq)"
  have nge: "\<not> rr_tail rq \<ge> rr_head rq + 32"
    using assms(2) by (auto simp: rr_put_task_def Let_def RUNTIME_RQ_SIZE_def split: if_splits)
  have "?n \<noteq> 32"
  proof
    assume n: "?n = 32"
    have "rr_tail rq = rr_head rq + of_nat ?n" by (rule tail_as_offset)
    then have "rr_tail rq = rr_head rq + 32" unfolding n by simp
    with nge show False by simp
  qed
  then have n: "?n < 32" using assms(1) by (simp add: rr_rq_inv_def)
  have n1: "unat (rr_tail rq + 1 - rr_head rq) = Suc ?n"
    using n by (intro unat_plus_one_minus) simp
  have rq': "rq' = rq\<lparr>rr_tail := rr_tail rq + 1, rr_tasks := (rr_tasks rq)(ring_slot 5 (rr_tail rq) := Some t)\<rparr>"
    using assms(2) nge by (simp add: rr_put_task_def Let_def RUNTIME_RQ_SIZE_def rq_slot)
  have tl: "rr_tail rq = rr_head rq + of_nat ?n" by (rule tail_as_offset)
  have "rr_tasks rq' (ring_slot 5 (rr_head rq + of_nat i)) \<noteq> None \<longleftrightarrow> i < Suc ?n" if "i < 32" for i
  proof (cases "i = ?n")
    case True
    then show ?thesis using tl by (simp add: rq')
  next
    case False
    then have "ring_slot 5 (rr_head rq + of_nat i) \<noteq> ring_slot 5 (rr_tail rq)"
      using ring_slot_neq [of 5 i ?n "rr_head rq"] that n tl by simp
    then show ?thesis using assms(1) that False by (auto simp: rq' rr_rq_inv_def)
  qed
  then have "rr_rq_inv rq'" using n n1 by (simp add: rr_rq_inv_def rq')
  moreover have "ring_list 5 ((rr_tasks rq)(ring_slot 5 (rr_tail rq) := Some t)) (rr_head rq) (rr_tail rq + 1)
      = ring_list 5 (rr_tasks rq) (rr_head rq) (rr_tail rq) @ [Some t]"
    by (rule ring_list_put) (use n in simp_all)
  ultimately show ?thesis by (simp add: rr_list_def rq')
qed

lemma rr_slot0:
  assumes "rr_rq_inv rq"
  shows "rr_tasks rq (ring_slot 5 (rr_head rq)) = None \<longleftrightarrow> rr_list rq = []"
proof -
  have "rr_tasks rq (ring_slot 5 (rr_head rq + of_nat 0)) \<noteq> None \<longleftrightarrow> 0 < unat (rr_tail rq - rr_head rq)"
    using assms unfolding rr_rq_inv_def by fastforce
  then show ?thesis
    by (cases "rr_tasks rq (ring_slot 5 (rr_head rq))") (auto simp: rr_list_def ring_list_eq_Nil unat_gt_0)
qed

text \<open>Taking the task at the head: the slot becomes null and, one lap later, free.\<close>

lemma rr_take_ok:
  assumes inv: "rr_rq_inv rq" and t: "rr_tasks rq (ring_slot 5 (rr_head rq)) = Some t"
  defines "rq' \<equiv> rq\<lparr>rr_tasks := (rr_tasks rq)(ring_slot 5 (rr_head rq) := None), rr_head := rr_head rq + 1\<rparr>"
  shows "rr_rq_inv rq' \<and> rr_list rq = t # rr_list rq'"
proof -
  let ?n = "unat (rr_tail rq - rr_head rq)"
  have "rr_list rq \<noteq> []" using rr_slot0 [OF inv] t by auto
  then have ne: "rr_tail rq \<noteq> rr_head rq" by (auto simp: rr_list_def ring_list_eq_Nil)
  have n1: "unat (rr_tail rq - (rr_head rq + 1)) = ?n - 1" by (rule unat_minus_plus_one [OF ne])
  have n: "?n \<le> 32" "0 < ?n" using inv ne by (auto simp: rr_rq_inv_def unat_gt_0)
  have sl: "ring_slot 5 (rr_head rq + of_nat (Suc i)) \<noteq> ring_slot 5 (rr_head rq)" if "Suc i < 32" for i
    using ring_slot_neq [of 5 "Suc i" 0 "rr_head rq"] that by simp
  have "rr_tasks rq' (ring_slot 5 (rr_head rq' + of_nat i)) \<noteq> None \<longleftrightarrow> i < ?n - 1" if i: "i < 32" for i
  proof (cases "Suc i < 32")
    case True
    have "rr_head rq' + of_nat i = rr_head rq + of_nat (Suc i)" by (simp add: rq'_def)
    then have "rr_tasks rq' (ring_slot 5 (rr_head rq' + of_nat i)) = rr_tasks rq (ring_slot 5 (rr_head rq + of_nat (Suc i)))"
      using sl [OF True] by (simp add: rq'_def add.assoc)
    also have "\<dots> \<noteq> None \<longleftrightarrow> Suc i < ?n" using inv True unfolding rr_rq_inv_def by blast
    finally show ?thesis by auto
  next
    case False
    then have "i = 31" using i by simp
    then have "rr_head rq' + of_nat i = rr_head rq + 32" by (simp add: rq'_def)
    then have "ring_slot 5 (rr_head rq' + of_nat i) = ring_slot 5 (rr_head rq)" by (metis slot_wrap)
    then have "rr_tasks rq' (ring_slot 5 (rr_head rq' + of_nat i)) = None" by (simp add: rq'_def)
    then show ?thesis using n \<open>i = 31\<close> by simp
  qed
  then have "rr_rq_inv rq'" using n n1 by (simp add: rr_rq_inv_def rq'_def)
  moreover have "ring_list 5 (rr_tasks rq') (rr_head rq + 1) (rr_tail rq) = ring_list 5 (rr_tasks rq) (rr_head rq + 1) (rr_tail rq)"
  proof -
    have "rr_tasks rq' (ring_slot 5 (rr_head rq + 1 + of_nat i)) = rr_tasks rq (ring_slot 5 (rr_head rq + 1 + of_nat i))"
      if "i < ?n - 1" for i
      using sl [of i] that n by (simp add: rq'_def add.assoc)
    then show ?thesis by (simp add: ring_list_def n1)
  qed
  ultimately show ?thesis using ring_list_take [OF ne, of 5 "rr_tasks rq"] t by (simp add: rr_list_def rq'_def)
qed

definition rr_queued :: "rr_st \<Rightarrow> task multiset" where
  "rr_queued s = (\<Sum>c<USED_CPUS. mset (rr_list (rr_rqs s c)))"

definition rr_inv :: "rr_st \<Rightarrow> bool" where
  "rr_inv s \<longleftrightarrow> (\<forall>c<USED_CPUS. rr_rq_inv (rr_rqs s c))"

lemma rr_count_simps [simp]: "rr_list (rr_count rq) = rr_list rq" "rr_rq_inv (rr_count rq) = rr_rq_inv rq"
  by (simp_all add: rr_count_def rr_list_def rr_rq_inv_def)

lemma put_on_ok:
  assumes "rr_inv s" "put_on s cpu t after = Some s'" "after = rr_count \<or> after = id"
  shows "rr_inv s' \<and> rr_queued s' = add_mset t (rr_queued s)"
proof -
  let ?c = "nat cpu"
  have c: "?c < USED_CPUS" using assms(2) by (auto simp: put_on_def USED_CPUS_def split: if_splits)
  obtain rq where rq: "rr_put_task (rr_rqs s ?c) t = Some rq" "s' = s\<lparr>rr_rqs := (rr_rqs s)(?c := after rq)\<rparr>"
    using assms(2) by (auto simp: put_on_def split: if_splits)
  have ok: "rr_rq_inv rq" "rr_list rq = rr_list (rr_rqs s ?c) @ [t]"
    using rr_put_ok [OF _ rq(1)] assms(1) c by (auto simp: rr_inv_def)
  then have "rr_rq_inv (after rq)" "rr_list (after rq) = rr_list (rr_rqs s ?c) @ [t]"
    using assms(3) by auto
  moreover from this have "rr_queued s' + mset (rr_list (rr_rqs s ?c)) = rr_queued s + add_mset t (mset (rr_list (rr_rqs s ?c)))"
    using sum_fun_upd [OF c, of "\<lambda>rq. mset (rr_list rq)" "rr_rqs s" "after rq"] rq(2)
    by (simp add: rr_queued_def)
  ultimately show ?thesis using assms(1) rq(2) by (simp add: rr_inv_def)
qed

lemma rr_pick_ok:
  assumes inv: "rr_inv s" and c: "cpu < USED_CPUS" and p: "rr_pick_next s cpu = (r, s')"
  shows "rr_inv s' \<and> (case r of Some t \<Rightarrow> rr_queued s = add_mset t (rr_queued s') \<and> last_run s' t = int cpu
                      | None \<Rightarrow> rr_queued s' = rr_queued s \<and> rr_list (rr_rqs s cpu) = [])"
proof -
  let ?rq = "rr_rqs s cpu"
  have rinv: "rr_rq_inv ?rq" using inv c by (simp add: rr_inv_def)
  show ?thesis
  proof (cases "rr_tasks ?rq (ring_slot 5 (rr_head ?rq))")
    case None
    then have "(rr_tasks ?rq)(ring_slot 5 (rr_head ?rq) := None) = rr_tasks ?rq" by auto
    then have "r = None" "s' = s\<lparr>rr_rqs := (rr_rqs s)(cpu := ?rq)\<rparr>"
      using p None by (simp_all add: rr_pick_next_def Let_def rq_slot)
    then show ?thesis using inv rr_slot0 [OF rinv] None by (simp add: rr_inv_def rr_queued_def)
  next
    case (Some t)
    let ?rq' = "?rq\<lparr>rr_tasks := (rr_tasks ?rq)(ring_slot 5 (rr_head ?rq) := None), rr_head := rr_head ?rq + 1\<rparr>"
    have r: "r = Some t" "rr_rqs s' = (rr_rqs s)(cpu := ?rq')" "last_run s' t = int cpu"
      using p Some by (auto simp: rr_pick_next_def Let_def rq_slot)
    have ok: "rr_rq_inv ?rq'" "rr_list ?rq = t # rr_list ?rq'" using rr_take_ok [OF rinv Some] by auto
    have "rr_queued s' + mset (rr_list ?rq) = rr_queued s + mset (rr_list ?rq')"
      using sum_fun_upd [OF c, of "\<lambda>rq. mset (rr_list rq)" "rr_rqs s" ?rq'] r(2) by (simp add: rr_queued_def)
    then show ?thesis using r ok inv by (simp add: rr_inv_def)
  qed
qed

definition rr_put :: "rr_st \<Rightarrow> nat \<Rightarrow> task \<Rightarrow> rr_st option" where
  "rr_put s cpu t = put_on s (int cpu) t rr_count"

interpretation rr: run_queue rr_put rr_pick_next "\<lambda>_ _ _. False" "\<lambda>c. c < USED_CPUS" rr_queued rr_inv
proof (unfold_locales, goal_cases)
  case (1 q cpu t q')
  then show ?case using put_on_ok [of q "int cpu" t rr_count q'] by (simp add: rr_put_def)
next
  case (2 q cpu t q')
  then show ?case using rr_pick_ok [of q cpu "Some t" q'] by simp
next
  case (3 q cpu q')
  then show ?case using rr_pick_ok [of q cpu None q'] by simp
qed auto

section \<open>Properties\<close>

text \<open>The run queues at start: memory from the loader is zero, so all slots are null.\<close>

definition rr_boot :: "rr_st" where
  "rr_boot = \<lparr>rr_rqs = (\<lambda>_. rr_init_percpu \<lparr>rr_head = 0, rr_tail = 0, num_tasks = 0, rr_tasks = (\<lambda>_. None)\<rparr>),
     last_run = (\<lambda>_. 0), quan = (\<lambda>_. 0), TARGET_CPU = 0\<rparr>"

lemma rr_boot_ok: "rr_inv rr_boot" "rr_queued rr_boot = {#}"
  by (simp_all add: rr_inv_def rr_boot_def rr_init_percpu_def rr_rq_inv_def rr_queued_def rr_list_def)

text \<open>As long as no put panics, the round-robin policy loses no task and runs none twice: the tasks
  put on its run queues are those picked and those still queued.\<close>

theorem rr_conserves_tasks:
  assumes "policy_reach rr_put rr_pick_next (\<lambda>_ _ _. False) (\<lambda>c. c < USED_CPUS) rr_boot P R s"
  shows "P = rr_queued s + R"
  using rr.conservation [OF assms rr_boot_ok(1)] rr_boot_ok(2) by simp

text \<open>One task put on the first CPU.\<close>

theorem rr_conserves_tasks_witness:
  "\<exists>s. rr_put rr_boot 0 7 = Some s \<and> rr_queued s = {#7#}"
proof -
  obtain s where s: "rr_put rr_boot 0 7 = Some s"
    by (simp add: rr_put_def put_on_def rr_put_task_def rr_boot_def rr_init_percpu_def Let_def
        USED_CPUS_def RUNTIME_RQ_SIZE_def)
  have "policy_reach rr_put rr_pick_next (\<lambda>_ _ _. False) (\<lambda>c. c < USED_CPUS) rr_boot {#7#} {#} s"
    by (rule policy_reach.put [where q = rr_boot and cpu = 0])
      (auto intro: policy_reach.start simp: s USED_CPUS_def)
  then show ?thesis using rr_conserves_tasks s by fastforce
qed

text \<open>Putting a task panics exactly when the run queue is full, while the counters are below the top
  of their range.\<close>

theorem rr_put_panics_iff_full:
  assumes "rr_rq_inv rq" "unat (rr_head rq) + 64 < 2 ^ 32"
  shows "rr_put_task rq t = None \<longleftrightarrow> length (rr_list rq) = 32"
proof -
  let ?n = "unat (rr_tail rq - rr_head rq)"
  have n: "?n \<le> 32" using assms(1) by (simp add: rr_rq_inv_def)
  have "rr_tail rq = rr_head rq + of_nat ?n" by (rule tail_as_offset)
  then have "unat (rr_tail rq) = (unat (rr_head rq) + ?n) mod 2 ^ 32"
    using unat_add_of_nat [of "rr_head rq" ?n] by simp
  then have t: "unat (rr_tail rq) = unat (rr_head rq) + ?n" using assms(2) n by simp
  have "unat (rr_head rq + 32) = unat (rr_head rq) + 32"
    using unat_add_of_nat [of "rr_head rq" 32] assms(2) by simp
  then have "rr_tail rq \<ge> rr_head rq + 32 \<longleftrightarrow> ?n \<ge> 32" using t by (simp add: word_le_nat_alt)
  then show ?thesis using n by (auto simp: rr_put_task_def Let_def RUNTIME_RQ_SIZE_def rr_list_def)
qed

text \<open>An empty run queue does not panic.\<close>

theorem rr_put_panics_iff_full_witness:
  "rr_put_task (rr_rqs rr_boot 0) 7 \<noteq> None"
proof -
  have "rr_rq_inv (rr_rqs rr_boot 0)" using rr_boot_ok(1) by (auto simp: rr_inv_def USED_CPUS_def)
  moreover have "unat (rr_head (rr_rqs rr_boot 0)) + 64 < 2 ^ 32" "length (rr_list (rr_rqs rr_boot 0)) \<noteq> 32"
    by (simp_all add: rr_boot_def rr_init_percpu_def rr_list_def)
  ultimately show ?thesis using rr_put_panics_iff_full by metis
qed

text \<open>Within 32 picks of the top of the counter range the full test overflows: putting a task on an
  empty run queue panics.\<close>

theorem rr_put_panics_at_wrap:
  assumes "rr_tail rq = rr_head rq" "unat (rr_head rq) \<ge> 2 ^ 32 - 32"
  shows "rr_list rq = [] \<and> rr_put_task rq t = None"
proof -
  have "unat (rr_head rq + 32) = (unat (rr_head rq) + 32) mod 2 ^ 32"
    using unat_add_of_nat [of "rr_head rq" 32] by simp
  also have "\<dots> = unat (rr_head rq) + 32 - 2 ^ 32"
  proof -
    have "unat (rr_head rq) < 2 ^ 32" using unsigned_less [of "rr_head rq", where ?'a = nat] by simp
    then show ?thesis using assms(2) by (simp add: mod_if)
  qed
  finally have "rr_head rq + 32 \<le> rr_head rq"
    using unsigned_less [of "rr_head rq", where ?'a = nat] by (simp add: word_le_nat_alt)
  then show ?thesis using assms(1) by (simp add: rr_put_task_def Let_def RUNTIME_RQ_SIZE_def rr_list_def)
qed

text \<open>The counter 32 below the top.\<close>

theorem rr_put_panics_at_wrap_witness:
  "rr_put_task \<lparr>rr_head = 0xFFFFFFE0, rr_tail = 0xFFFFFFE0, num_tasks = 0, rr_tasks = (\<lambda>_. None)\<rparr> 7 = None"
  using rr_put_panics_at_wrap [of "\<lparr>rr_head = 0xFFFFFFE0, rr_tail = 0xFFFFFFE0, num_tasks = 0,
    rr_tasks = (\<lambda>_. None)\<rparr>" 7] by simp

text \<open>After \<open>2 ^ 31\<close> spawned tasks the target counter is negative, its C remainder too, and the
  next spawn reaches for the run queue of a negative CPU number.\<close>

theorem rr_spawn_negative_cpu:
  "rr_spawn (rr_boot\<lparr>TARGET_CPU := 2 ^ 31\<rparr>) (Some 7) 0 = None"
  by (simp add: rr_spawn_def find_target_cpu_def put_on_def Let_def USED_CPUS_def)

end
