(* ===== verification/Sq.thy ===== *)
theory Sq
  imports Sched_Policy Queue_Ring
begin

text \<open>
  The single-queue policy of \<^verbatim>\<open>libos/sched/policy/sq.c\<close> and \<^verbatim>\<open>sched/policy/sq.h\<close>: a dispatcher on CPU 0
  hands tasks from one central queue to the workers on the other CPUs. Dispatcher and workers share
  no lock: they take turns on a worker's structure by its state word. The theory models the operations
  of both sides and the interleaving of their accesses, and shows that the hand-over is safe: every
  spawned task is at one place, and no task is lost or run by two workers.

  The model also records what the dispatcher does to the outside: the tasks it frees, the user
  interrupts it sends, and the preempted tasks that it drops because the queue is full (the result of \<^verbatim>\<open>queue_push\<close> is not looked at). \<open>None\<close> is an access to a worker that does not exist.
\<close>

section \<open>Data\<close>

datatype sq_worker_state =
  WORKER_IDLE | WORKER_QUEUING | WORKER_RUNNING | WORKER_PREEMPTED | WORKER_FINISHED

record sq_worker =
  w_state :: sq_worker_state
  cur_task :: "task option"
  start_time :: u64

record sq_dispatcher =
  pending_tasks :: "task queue_t"
  num_workers :: int
  preemption_quantum :: u32

record sq_st =
  workers :: "nat \<Rightarrow> sq_worker"
  disp :: sq_dispatcher
  worker_preempted :: "nat \<Rightarrow> bool"
  dispatcher_ready :: bool
  freed :: "task list"
  uipis :: "nat list"
  dropped :: "task list"

definition set_w :: "nat \<Rightarrow> (sq_worker \<Rightarrow> sq_worker) \<Rightarrow> sq_st \<Rightarrow> sq_st" where
  "set_w i f s = s\<lparr>workers := (workers s)(i := f (workers s i))\<rparr>"

definition set_state :: "nat \<Rightarrow> sq_worker_state \<Rightarrow> sq_st \<Rightarrow> sq_st" where
  "set_state i st s = set_w i (\<lambda>w. w\<lparr>w_state := st\<rparr>) s"

section \<open>Worker side\<close>

definition sq_preempt :: "sq_st \<Rightarrow> nat \<Rightarrow> bool \<times> sq_st" where
  "sq_preempt s cpu =
     (if w_state (workers s cpu) = WORKER_RUNNING then (True, set_state cpu WORKER_PREEMPTED s)
      else (False, s))"

definition sq_pick_next :: "sq_st \<Rightarrow> nat \<Rightarrow> u64 \<Rightarrow> task option \<times> sq_st" where
  "sq_pick_next s cpu now =
     (if w_state (workers s cpu) = WORKER_QUEUING
      then let s = set_state cpu WORKER_RUNNING (set_w cpu (\<lambda>w. w\<lparr>start_time := now\<rparr>) s)
           in (cur_task (workers s cpu), s)
      else (None, s))"

definition sq_finish_task :: "sq_st \<Rightarrow> nat \<Rightarrow> sq_st" where
  "sq_finish_task s cpu = set_state cpu WORKER_FINISHED s"

definition sq_yield :: "sq_st \<Rightarrow> nat \<Rightarrow> sq_st" where
  "sq_yield s cpu =
     (if w_state (workers s cpu) = WORKER_RUNNING then set_state cpu WORKER_QUEUING s else s)"

section \<open>Dispatcher side\<close>

definition sq_init :: "sq_st \<Rightarrow> int \<times> sq_st" where
  "sq_init s =
     (0, s\<lparr>disp := (disp s)\<lparr>num_workers := int USED_CPUS, pending_tasks := queue_init (pending_tasks (disp s))\<rparr>,
           worker_preempted := (\<lambda>_. False)\<rparr>)"

definition sq_init_worker :: "sq_st \<Rightarrow> nat \<Rightarrow> sq_st" where
  "sq_init_worker s cpu = set_w cpu (\<lambda>w. w\<lparr>cur_task := None, w_state := WORKER_IDLE\<rparr>) s"

definition sq_set_params :: "sq_st \<Rightarrow> int \<Rightarrow> u32 \<Rightarrow> int \<times> sq_st" where
  "sq_set_params s nw pq =
     (if nw \<ge> 0 \<and> nw < int USED_CPUS
      then (0, s\<lparr>disp := (disp s)\<lparr>num_workers := nw,
                                   preemption_quantum := ucast ((scast pq :: u64) * 1000)\<rparr>\<rparr>)
      else (- EINVAL, s))"

definition sq_spawn :: "sq_st \<Rightarrow> nat \<Rightarrow> task \<Rightarrow> int \<times> sq_st" where
  "sq_spawn s this_cpu task =
     (if this_cpu \<noteq> 0 then (-1, s)
      else if \<not> dispatcher_ready s
           then (0, set_state 0 WORKER_QUEUING
                      (set_w 0 (\<lambda>w. w\<lparr>cur_task := Some task\<rparr>) (s\<lparr>dispatcher_ready := True\<rparr>)))
           else let (r, q) = queue_push (pending_tasks (disp s)) task
                in (r, s\<lparr>disp := (disp s)\<lparr>pending_tasks := q\<rparr>\<rparr>))"

text \<open>The body of the loop of \<^verbatim>\<open>sq_sched_poll\<close> for worker \<open>i\<close>, after its state was loaded as \<open>st\<close>. The
  dereference of a missing task is a fault.\<close>

definition sq_assign :: "sq_st \<Rightarrow> nat \<Rightarrow> sq_st" where
  "sq_assign s i =
     (let (t, q) = queue_pop (pending_tasks (disp s));
          s = s\<lparr>disp := (disp s)\<lparr>pending_tasks := q\<rparr>\<rparr>
      in case t of
           Some t \<Rightarrow> (set_state i WORKER_QUEUING (set_w i (\<lambda>w. w\<lparr>cur_task := Some t\<rparr>) s))
                       \<lparr>worker_preempted := (worker_preempted s)(i := False)\<rparr>
         | None \<Rightarrow> set_state i WORKER_IDLE s)"

definition sq_poll_act :: "sq_st \<Rightarrow> nat \<Rightarrow> sq_worker_state \<Rightarrow> u64 \<Rightarrow> sq_st option" where
  "sq_poll_act s i st now =
     (if i \<ge> USED_CPUS then None
      else case st of
        WORKER_RUNNING \<Rightarrow>
          Some (if preemption_quantum (disp s) \<noteq> 0 \<and> \<not> worker_preempted s i \<and>
                   now > start_time (workers s i) + scast (preemption_quantum (disp s))
                then s\<lparr>uipis := i # uipis s, worker_preempted := (worker_preempted s)(i := True)\<rparr>
                else s)
      | WORKER_QUEUING \<Rightarrow> Some s
      | WORKER_FINISHED \<Rightarrow>
          (case cur_task (workers s i) of
             None \<Rightarrow> None
           | Some t \<Rightarrow> Some (sq_assign (s\<lparr>freed := t # freed s\<rparr>) i))
      | WORKER_PREEMPTED \<Rightarrow>
          (case cur_task (workers s i) of
             None \<Rightarrow> None
           | Some t \<Rightarrow>
               let (r, q) = queue_push (pending_tasks (disp s)) t
               in Some (sq_assign
                    (s\<lparr>disp := (disp s)\<lparr>pending_tasks := q\<rparr>, dropped := (if r = 0 then dropped s else t # dropped s)\<rparr>) i))
      | WORKER_IDLE \<Rightarrow> Some (sq_assign s i))"

text \<open>The whole poll when nobody interferes: the workers from 1 to \<open>num_workers\<close> in turn.\<close>

fun sq_poll_loop :: "sq_st \<Rightarrow> nat list \<Rightarrow> (nat \<Rightarrow> u64) \<Rightarrow> sq_st option" where
  "sq_poll_loop s [] clock = Some s"
| "sq_poll_loop s (i # is) clock =
     (if i \<ge> USED_CPUS then None
      else Option.bind (sq_poll_act s i (w_state (workers s i)) (clock i)) (\<lambda>s. sq_poll_loop s is clock))"

definition sq_poll :: "sq_st \<Rightarrow> nat \<Rightarrow> (nat \<Rightarrow> u64) \<Rightarrow> sq_st option" where
  "sq_poll s this_cpu clock =
     (if this_cpu = 0 then sq_poll_loop s [1..<nat (num_workers (disp s) + 1)] clock else Some s)"

section \<open>Interleaving\<close>

text \<open>The dispatcher is between two workers, or it has loaded the state of worker \<open>i\<close> and will act on it.
  Workers step at any moment; a worker preempts, yields or finishes only while it runs a task.\<close>

datatype disp_pc = Polling | Loaded nat sq_worker_state

inductive sq_step :: "nat \<Rightarrow> sq_st \<times> disp_pc \<times> task multiset \<Rightarrow> sq_st \<times> disp_pc \<times> task multiset \<Rightarrow> bool"
  for n :: nat where
  spawn: "sq_spawn s 0 t = (0, s') \<Longrightarrow> dispatcher_ready s \<Longrightarrow>
    sq_step n (s, Polling, P) (s', Polling, add_mset t P)"
| load: "1 \<le> i \<Longrightarrow> i \<le> n \<Longrightarrow> sq_step n (s, Polling, P) (s, Loaded i (w_state (workers s i)), P)"
| act: "sq_poll_act s i st now = Some s' \<Longrightarrow> sq_step n (s, Loaded i st, P) (s', Polling, P)"
| pick: "1 \<le> c \<Longrightarrow> sq_pick_next s c now = (t, s') \<Longrightarrow> sq_step n (s, pc, P) (s', pc, P)"
| preempt: "1 \<le> c \<Longrightarrow> sq_preempt s c = (b, s') \<Longrightarrow> sq_step n (s, pc, P) (s', pc, P)"
| finish: "1 \<le> c \<Longrightarrow> w_state (workers s c) = WORKER_RUNNING \<Longrightarrow>
    sq_step n (s, pc, P) (sq_finish_task s c, pc, P)"
| yield: "1 \<le> c \<Longrightarrow> sq_step n (s, pc, P) (sq_yield s c, pc, P)"

inductive sq_reach :: "nat \<Rightarrow> sq_st \<Rightarrow> sq_st \<Rightarrow> disp_pc \<Rightarrow> task multiset \<Rightarrow> bool"
  for n :: nat and s0 :: sq_st where
  start: "sq_reach n s0 s0 Polling {#}"
| step: "sq_reach n s0 s pc P \<Longrightarrow> sq_step n (s, pc, P) (s', pc', P') \<Longrightarrow> sq_reach n s0 s' pc' P'"

section \<open>Where the tasks are\<close>

definition held :: "sq_worker \<Rightarrow> task multiset" where
  "held w = (if w_state w = WORKER_IDLE then {#} else (case cur_task w of None \<Rightarrow> {#} | Some t \<Rightarrow> {#t#}))"

definition held_sum :: "nat \<Rightarrow> (nat \<Rightarrow> sq_worker) \<Rightarrow> task multiset" where
  "held_sum n ws = (\<Sum>j<n. held (ws (Suc j)))"

abbreviation pendq :: "sq_st \<Rightarrow> task list" where
  "pendq s \<equiv> queue_list (pending_tasks (disp s))"

text \<open>In these states the worker's structure belongs to the dispatcher.\<close>

definition disp_owned :: "sq_worker_state \<Rightarrow> bool" where
  "disp_owned st \<longleftrightarrow> st \<in> {WORKER_IDLE, WORKER_PREEMPTED, WORKER_FINISHED}"

definition sq_inv :: "nat \<Rightarrow> sq_st \<Rightarrow> disp_pc \<Rightarrow> task multiset \<Rightarrow> bool" where
  "sq_inv n s pc P \<longleftrightarrow>
     queue_inv (pending_tasks (disp s)) \<and>
     (\<forall>i>n. w_state (workers s i) = WORKER_IDLE) \<and>
     (\<forall>i\<ge>1. w_state (workers s i) \<noteq> WORKER_IDLE \<longrightarrow> cur_task (workers s i) \<noteq> None) \<and>
     (\<forall>i st. pc = Loaded i st \<longrightarrow> 1 \<le> i \<and> i \<le> n \<and> (disp_owned st \<longrightarrow> w_state (workers s i) = st)) \<and>
     P = mset (pendq s) + held_sum n (workers s) + mset (freed s) + mset (dropped s)"

lemma held_upd:
  assumes "1 \<le> i" "i \<le> n"
  shows "held_sum n (ws(i := w)) + held (ws i) = held_sum n ws + held w"
proof -
  have "(\<Sum>j<n. held ((ws(i := w)) (Suc j))) = (\<Sum>j<n. held (((\<lambda>j. ws (Suc j))(i - 1 := w)) j))"
    by (rule sum.cong) (use assms in auto)
  moreover have "i - 1 < n" "Suc (i - 1) = i" using assms by auto
  ultimately show ?thesis
    using sum_fun_upd [of "i - 1" n held "\<lambda>j. ws (Suc j)" w] by (simp only: held_sum_def)
qed

lemma held_same:
  assumes "held w = held (ws i)" "1 \<le> i"
  shows "held_sum n (ws(i := w)) = held_sum n ws"
proof (cases "i \<le> n")
  case True
  then show ?thesis using held_upd [OF assms(2) True, of ws w] assms(1) by simp
next
  case False
  then show ?thesis by (auto simp: held_sum_def intro!: sum.cong)
qed

text \<open>A worker changes only its own state word, and only between the states it owns or hands over.\<close>

lemma worker_step_inv:
  assumes inv: "sq_inv n s pc P" and c: "1 \<le> c" and own: "\<not> disp_owned (w_state (workers s c))"
    and w: "cur_task w = cur_task (workers s c)" "w_state w \<noteq> WORKER_IDLE"
  shows "sq_inv n (s\<lparr>workers := (workers s)(c := w)\<rparr>) pc P"
proof -
  have ni: "w_state (workers s c) \<noteq> WORKER_IDLE" using own by (auto simp: disp_owned_def)
  then have cn: "c \<le> n" using inv by (meson not_le_imp_less sq_inv_def)
  have "held w = held (workers s c)" using w ni by (simp add: held_def)
  then have "held_sum n ((workers s)(c := w)) = held_sum n (workers s)" by (rule held_same [OF _ c])
  moreover have "cur_task w \<noteq> None" using inv w ni c by (auto simp: sq_inv_def)
  ultimately show ?thesis using inv own cn by (auto simp: sq_inv_def)
qed

lemma sq_assign_inv:
  assumes q: "queue_inv (pending_tasks (disp s))" and i: "1 \<le> i" "i \<le> n"
    and out: "\<forall>j>n. w_state (workers s j) = WORKER_IDLE"
    and cur: "\<forall>j\<ge>1. w_state (workers s j) \<noteq> WORKER_IDLE \<longrightarrow> cur_task (workers s j) \<noteq> None"
    and P: "P + held (workers s i) = mset (pendq s) + held_sum n (workers s) + mset (freed s) + mset (dropped s)"
  shows "sq_inv n (sq_assign s i) Polling P"
proof (cases "pendq s")
  case Nil
  let ?w = "(workers s i)\<lparr>w_state := WORKER_IDLE\<rparr>"
  have s': "sq_assign s i = s\<lparr>disp := disp s, workers := (workers s)(i := ?w)\<rparr>"
    using queue_pop_nil [OF q Nil] by (simp add: sq_assign_def set_state_def set_w_def Let_def)
  have "held_sum n ((workers s)(i := ?w)) + held (workers s i) = held_sum n (workers s)"
    using held_upd [OF i, of "workers s" ?w] by (simp add: held_def)
  then have "P + held (workers s i) = (held_sum n ((workers s)(i := ?w)) + mset (freed s) + mset (dropped s)) + held (workers s i)"
    using P Nil by (simp add: ac_simps)
  then have "P = held_sum n ((workers s)(i := ?w)) + mset (freed s) + mset (dropped s)" by simp
  then show ?thesis using q out cur Nil s' by (simp add: sq_inv_def)
next
  case (Cons t ts)
  obtain q' where q': "queue_pop (pending_tasks (disp s)) = (Some t, q')" "queue_list q' = ts" "queue_inv q'"
    using queue_pop_cons [OF q Cons] by (metis prod.collapse)
  let ?w = "(workers s i)\<lparr>cur_task := Some t, w_state := WORKER_QUEUING\<rparr>"
  have s': "disp (sq_assign s i) = (disp s)\<lparr>pending_tasks := q'\<rparr>" "workers (sq_assign s i) = (workers s)(i := ?w)"
    "freed (sq_assign s i) = freed s" "dropped (sq_assign s i) = dropped s"
    using q' by (simp_all add: sq_assign_def set_state_def set_w_def Let_def)
  have "held_sum n ((workers s)(i := ?w)) + held (workers s i) = held_sum n (workers s) + {#t#}"
    using held_upd [OF i, of "workers s" ?w] by (simp add: held_def)
  then have "P + held (workers s i)
      = (mset ts + held_sum n ((workers s)(i := ?w)) + mset (freed s) + mset (dropped s)) + held (workers s i)"
    using P Cons by (simp add: ac_simps)
  then have "P = mset ts + held_sum n ((workers s)(i := ?w)) + mset (freed s) + mset (dropped s)" by simp
  then show ?thesis using q' out cur s' i by (simp add: sq_inv_def)
qed

lemma push_or_drop:
  assumes "queue_inv q" "queue_push q t = (e, q')"
  shows "queue_inv q' \<and> mset (queue_list q') + mset (if e = 0 then ds else t # ds) = mset (queue_list q) + mset ds + {#t#}"
proof (cases "length (queue_list q) = 2 ^ 20")
  case True
  then show ?thesis using queue_push_full [OF assms(1) True, of t] assms by simp
next
  case False
  then have "length (queue_list q) < 2 ^ 20" using assms(1) by (simp add: queue_inv_def queue_list_def)
  then show ?thesis using queue_push_room [OF assms(1), of t] assms(2) by auto
qed

lemma sq_poll_act_inv:
  assumes inv: "sq_inv n s (Loaded i st) P" and r: "sq_poll_act s i st now = Some s'"
  shows "sq_inv n s' Polling P"
proof -
  have i: "1 \<le> i" "i \<le> n" and own: "disp_owned st \<Longrightarrow> w_state (workers s i) = st"
    and q: "queue_inv (pending_tasks (disp s))"
    and out: "\<forall>j>n. w_state (workers s j) = WORKER_IDLE"
    and cur: "\<forall>j\<ge>1. w_state (workers s j) \<noteq> WORKER_IDLE \<longrightarrow> cur_task (workers s j) \<noteq> None"
    and P: "P = mset (pendq s) + held_sum n (workers s) + mset (freed s) + mset (dropped s)"
    using inv by (auto simp: sq_inv_def)
  have pol: "sq_inv n s Polling P" using inv by (simp add: sq_inv_def)
  have iu: "\<not> i \<ge> USED_CPUS" using r by (auto simp: sq_poll_act_def split: if_splits)
  show ?thesis
  proof (cases st)
    case WORKER_IDLE
    then have "held (workers s i) = {#}" using own by (simp add: disp_owned_def held_def)
    then show ?thesis using sq_assign_inv [OF q i out cur] P r iu WORKER_IDLE by (simp add: sq_poll_act_def)
  next
    case WORKER_QUEUING
    then show ?thesis using r pol iu by (simp add: sq_poll_act_def)
  next
    case WORKER_RUNNING
    then show ?thesis using r pol iu by (auto simp: sq_poll_act_def sq_inv_def)
  next
    case WORKER_FINISHED
    obtain t where t: "cur_task (workers s i) = Some t" "s' = sq_assign (s\<lparr>freed := t # freed s\<rparr>) i"
      using r iu WORKER_FINISHED by (auto simp: sq_poll_act_def split: option.splits)
    have "held (workers s i) = {#t#}" using own t WORKER_FINISHED by (simp add: disp_owned_def held_def)
    then show ?thesis
      using sq_assign_inv [of "s\<lparr>freed := t # freed s\<rparr>" i n P] q i out cur P t(2) by simp
  next
    case WORKER_PREEMPTED
    obtain t where t: "cur_task (workers s i) = Some t" using r iu WORKER_PREEMPTED by (auto simp: sq_poll_act_def split: option.splits)
    obtain e q' where q': "queue_push (pending_tasks (disp s)) t = (e, q')" by fastforce
    let ?s = "s\<lparr>disp := (disp s)\<lparr>pending_tasks := q'\<rparr>, dropped := (if e = 0 then dropped s else t # dropped s)\<rparr>"
    have s': "s' = sq_assign ?s i" using r iu t q' WORKER_PREEMPTED by (simp add: sq_poll_act_def)
    have h: "held (workers s i) = {#t#}" using own t WORKER_PREEMPTED by (simp add: disp_owned_def held_def)
    have "queue_inv q' \<and> mset (queue_list q') + mset (dropped ?s) = mset (pendq s) + mset (dropped s) + {#t#}"
      using push_or_drop [OF q q', of "dropped s"] by simp
    then show ?thesis using sq_assign_inv [of ?s i n P] i out cur P h s' by (simp add: ac_simps)
  qed
qed

lemma sq_step_inv:
  assumes "sq_step n (s, pc, P) (s', pc', P')" "sq_inv n s pc P"
  shows "sq_inv n s' pc' P'"
  using assms
proof (cases rule: sq_step.cases)
  case (spawn t)
  obtain q where q: "queue_push (pending_tasks (disp s)) t = (0, q)" "s' = s\<lparr>disp := (disp s)\<lparr>pending_tasks := q\<rparr>\<rparr>"
    using spawn by (auto simp: sq_spawn_def split: prod.splits if_splits)
  have qi: "queue_inv (pending_tasks (disp s))" using assms(2) by (simp add: sq_inv_def)
  have "length (pendq s) \<noteq> 2 ^ 20"
    using queue_push_full [OF qi, of t] q(1) by auto
  moreover have "length (pendq s) \<le> 2 ^ 20" using qi by (simp add: queue_inv_def queue_list_def)
  ultimately have "queue_list q = pendq s @ [t]" "queue_inv q"
    using queue_push_room [OF qi, of t] q(1) by (metis le_neq_implies_less snd_conv)+
  then show ?thesis using assms(2) spawn q(2) by (simp add: sq_inv_def)
next
  case (load i)
  then show ?thesis using assms(2) by (simp add: sq_inv_def)
next
  case (act i st now)
  then show ?thesis using sq_poll_act_inv assms by simp
next
  case (pick c now t)
  then show ?thesis
    using worker_step_inv [OF assms(2), of c "(workers s c)\<lparr>start_time := now, w_state := WORKER_RUNNING\<rparr>"] assms(2)
    by (auto simp: sq_pick_next_def set_state_def set_w_def disp_owned_def Let_def split: if_splits)
next
  case (preempt c b)
  then show ?thesis
    using worker_step_inv [OF assms(2), of c "(workers s c)\<lparr>w_state := WORKER_PREEMPTED\<rparr>"] assms(2)
    by (auto simp: sq_preempt_def set_state_def set_w_def disp_owned_def split: if_splits)
next
  case (finish c)
  then show ?thesis
    using worker_step_inv [OF assms(2), of c "(workers s c)\<lparr>w_state := WORKER_FINISHED\<rparr>"]
    by (auto simp: sq_finish_task_def set_state_def set_w_def disp_owned_def)
next
  case (yield c)
  then show ?thesis
    using worker_step_inv [OF assms(2), of c "(workers s c)\<lparr>w_state := WORKER_QUEUING\<rparr>"] assms(2)
    by (auto simp: sq_yield_def set_state_def set_w_def disp_owned_def)
qed

lemma sq_reach_inv: "sq_reach n s0 s pc P \<Longrightarrow> sq_inv n s0 Polling {#} \<Longrightarrow> sq_inv n s pc P"
  by (induction rule: sq_reach.induct) (auto intro: sq_step_inv)

section \<open>Properties\<close>

text \<open>The state after initialisation, when the dispatcher's own task has been spawned.\<close>

definition sq_boot :: "sq_st \<Rightarrow> bool" where
  "sq_boot s \<longleftrightarrow> queue_inv (pending_tasks (disp s)) \<and> pendq s = [] \<and> freed s = [] \<and> dropped s = [] \<and>
     (\<forall>i. w_state (workers s i) = WORKER_IDLE)"

lemma sq_boot_inv: "sq_boot s \<Longrightarrow> sq_inv n s Polling {#}"
  by (simp add: sq_boot_def sq_inv_def held_sum_def held_def)

lemma two_held:
  assumes "i < j" "1 \<le> i" "j \<le> n" "held (ws i) = {#t#}" "held (ws j) = {#t#}"
  shows "count (held_sum n ws) t \<ge> 2"
proof -
  have f: "finite ({..<n} - {i - 1})" "j - 1 \<in> {..<n} - {i - 1}" "i - 1 \<in> {..<n}" using assms by auto
  have "held_sum n ws = held (ws (Suc (i - 1))) + (\<Sum>k\<in>{..<n} - {i - 1}. held (ws (Suc k)))"
    unfolding held_sum_def using f by (intro sum.remove) auto
  also have "\<dots> = held (ws (Suc (i - 1))) + (held (ws (Suc (j - 1))) + (\<Sum>k\<in>{..<n} - {i - 1} - {j - 1}. held (ws (Suc k))))"
    using f by (simp add: sum.remove)
  finally show ?thesis using assms by simp
qed

lemma sq_poll_act_dropped:
  assumes "queue_inv (pending_tasks (disp s))" "sq_poll_act s i st now = Some s'" "dropped s' \<noteq> dropped s"
  shows "st = WORKER_PREEMPTED \<and> length (pendq s) = 2 ^ 20"
proof -
  have a: "dropped (sq_assign u i) = dropped u" for u by (auto simp: sq_assign_def set_state_def set_w_def Let_def split: prod.splits option.splits)
  obtain t e q where q: "st = WORKER_PREEMPTED" "queue_push (pending_tasks (disp s)) t = (e, q)" "e \<noteq> 0"
    using assms(2,3) by (auto simp: sq_poll_act_def a split: sq_worker_state.splits option.splits if_splits prod.splits)
  have "length (pendq s) \<le> 2 ^ 20" using assms(1) by (simp add: queue_inv_def queue_list_def)
  then show ?thesis using queue_push_room [OF assms(1), of t] q by fastforce
qed

text \<open>C28: The hand-over between dispatcher and workers, under every interleaving of their steps and for any number of spawned tasks: every
  spawned task is in the central queue, with one worker, freed, or dropped, and no two workers have the same task. A task is dropped only when its worker
  was preempted and the queue holds its \<open>2 ^ 20\<close> tasks. The dispatcher never acts on a worker without a task; it faults exactly when it comes to a
  worker that does not exist, which the numbers of workers that \<^verbatim>\<open>sq_sched_set_params\<close> accepts exclude and the default of \<^verbatim>\<open>sq_sched_init\<close> does not.\<close>

theorem sq_handover_safe:
  assumes "sq_reach n s0 s pc P" "sq_boot s0"
  shows "P = mset (pendq s) + held_sum n (workers s) + mset (freed s) + mset (dropped s) \<and>
    (\<forall>i j t. 1 \<le> i \<and> i < j \<and> j \<le> n \<and> count P t \<le> 1 \<longrightarrow>
       held (workers s i) = {#t#} \<longrightarrow> held (workers s j) \<noteq> {#t#}) \<and>
    (\<forall>i st now s'. pc = Loaded i st \<longrightarrow> sq_poll_act s i st now = Some s' \<longrightarrow> dropped s' \<noteq> dropped s \<longrightarrow>
       st = WORKER_PREEMPTED \<and> length (pendq s) = 2 ^ 20) \<and>
    (\<forall>i st now. pc = Loaded i st \<longrightarrow> (sq_poll_act s i st now = None \<longleftrightarrow> USED_CPUS \<le> i))"
proof -
  have inv: "sq_inv n s pc P" by (rule sq_reach_inv [OF assms(1) sq_boot_inv [OF assms(2)]])
  then have P: "P = mset (pendq s) + held_sum n (workers s) + mset (freed s) + mset (dropped s)" by (simp add: sq_inv_def)
  have q: "queue_inv (pending_tasks (disp s))" using inv by (simp add: sq_inv_def)
  have "held (workers s j) \<noteq> {#t#}"
    if "1 \<le> i" "i < j" "j \<le> n" "count P t \<le> 1" "held (workers s i) = {#t#}" for i j t
  proof
    assume "held (workers s j) = {#t#}"
    with two_held that have "2 \<le> count (held_sum n (workers s)) t" by blast
    with that(4) show False unfolding P by simp
  qed
  moreover have "sq_poll_act s i st now = None \<longleftrightarrow> USED_CPUS \<le> i" if pc: "pc = Loaded i st" for i st now
  proof -
    have i: "1 \<le> i" and own: "disp_owned st \<Longrightarrow> w_state (workers s i) = st" using inv pc by (auto simp: sq_inv_def)
    have "cur_task (workers s i) \<noteq> None" if "st = WORKER_PREEMPTED \<or> st = WORKER_FINISHED"
      using inv i own that by (auto simp: sq_inv_def disp_owned_def)
    then show ?thesis by (cases st) (auto simp: sq_poll_act_def split: prod.splits)
  qed
  ultimately show ?thesis using P sq_poll_act_dropped [OF q] by blast
qed

text \<open>One worker: a task is spawned, handed to it and picked.\<close>

theorem sq_handover_safe_witness:
  "\<exists>s1 s2 s3. sq_spawn \<lparr>workers = (\<lambda>_. \<lparr>w_state = WORKER_IDLE, cur_task = None, start_time = 0\<rparr>),
       disp = \<lparr>pending_tasks = \<lparr>q_head = 0, q_tail = 0, q_buf = (\<lambda>_. 0)\<rparr>, num_workers = 1, preemption_quantum = 0\<rparr>,
       worker_preempted = (\<lambda>_. False), dispatcher_ready = True, freed = [], uipis = [], dropped = []\<rparr> 0 7 = (0, s1) \<and>
     sq_poll_act s1 1 WORKER_IDLE 0 = Some s2 \<and> sq_pick_next s2 1 0 = (Some 7, s3) \<and>
     {#7#} = mset (pendq s3) + held_sum 1 (workers s3) + mset (freed s3) + mset (dropped s3)"
proof -
  let ?s = "\<lparr>workers = (\<lambda>_. \<lparr>w_state = WORKER_IDLE, cur_task = None, start_time = 0\<rparr>),
       disp = \<lparr>pending_tasks = \<lparr>q_head = 0, q_tail = 0, q_buf = (\<lambda>_. 0)\<rparr>, num_workers = 1, preemption_quantum = 0\<rparr>,
       worker_preempted = (\<lambda>_. False), dispatcher_ready = True, freed = [], uipis = [], dropped = []\<rparr>"
  have boot: "sq_boot ?s" by (simp add: sq_boot_def queue_inv_def queue_list_def)
  obtain s1 where s1: "sq_spawn ?s 0 7 = (0, s1)" "w_state (workers s1 1) = WORKER_IDLE"
    by (simp add: sq_spawn_def queue_push_def queue_is_full_def queue_len_def QUEUE_CAP_def Let_def)
  have r1: "sq_reach 1 ?s s1 Polling {#7#}"
    by (rule sq_reach.step [OF sq_reach.start], rule sq_step.spawn) (simp_all add: s1)
  have r2: "sq_reach 1 ?s s1 (Loaded 1 WORKER_IDLE) {#7#}"
    using sq_reach.step [OF r1 sq_step.load [of 1 1 s1]] s1(2) by simp
  obtain s2 where s2: "sq_poll_act s1 1 WORKER_IDLE 0 = Some s2"
    by (simp add: sq_poll_act_def USED_CPUS_def)
  have r3: "sq_reach 1 ?s s2 Polling {#7#}" by (rule sq_reach.step [OF r2 sq_step.act [OF s2]])
  obtain s3 where s3: "sq_pick_next s2 1 0 = (Some 7, s3)"
    using s1(1) s2
    by (auto simp: sq_spawn_def queue_push_def queue_is_full_def queue_len_def QUEUE_CAP_def Let_def
        sq_poll_act_def USED_CPUS_def sq_assign_def queue_pop_def queue_is_empty_def queue_head_def
        QUEUE_CAP_MASK_def sq_pick_next_def set_state_def set_w_def split: if_splits)
  have r4: "sq_reach 1 ?s s3 Polling {#7#}" by (rule sq_reach.step [OF r3 sq_step.pick [OF _ s3]]) simp
  then show ?thesis
    using sq_handover_safe [OF r4 boot] s1(1) s2 s3 by (auto simp: USED_CPUS_def)
qed

text \<open>Until its parameters are set, the dispatcher is configured for one worker more than there
  are CPUs besides it: its poll reaches the structures of CPU \<open>USED_CPUS\<close>, which does not exist.\<close>

theorem sq_poll_default_out_of_range:
  "sq_poll (snd (sq_init s)) 0 clock = None"
proof -
  have "sq_poll_loop s is clock = None" if "i \<in> set is" "i \<ge> USED_CPUS" for s i "is"
    using that(1)
  proof (induction "is" arbitrary: s)
    case (Cons j js)
    then show ?case using that(2) by (auto split: Option.bind_splits)
  qed simp
  moreover have "USED_CPUS \<in> set [1..<nat (int USED_CPUS + 1)]" by (simp add: USED_CPUS_def)
  ultimately show ?thesis by (simp add: sq_poll_def sq_init_def)
qed

end
