(* ===== verification/Sync.thy ===== *)
theory Sync
  imports Sched_Policy "HOL-Library.Sublist"
begin

text \<open>
  The blocking synchronisation primitives of \<^verbatim>\<open>libos/sync/sync.c\<close> and \<^verbatim>\<open>skyloft/sync/sync.h\<close>: mutexes,
  condition variables, barriers, wait groups and futexes. Every operation holds the spin lock of its
  object while it looks at it, so it is one step on the object; its result says whether the caller goes
  on or blocks, and which tasks it wakes up, in order. Only \<open>condvar_wait\<close> has more than one step, as it
  unlocks the mutex and locks it again.
\<close>

section \<open>Operations\<close>

subsection \<open>Mutex\<close>

record mutex_t =
  mtx_held :: bool
  mtx_waiters :: "task list"

definition mutex_init :: mutex_t where
  "mutex_init = \<lparr>mtx_held = False, mtx_waiters = []\<rparr>"

definition mutex_try_lock :: "mutex_t \<Rightarrow> bool \<times> mutex_t" where
  "mutex_try_lock m = (if mtx_held m then (False, m) else (True, m\<lparr>mtx_held := True\<rparr>))"

text \<open>The first result tells whether the caller blocks.\<close>

definition mutex_lock :: "mutex_t \<Rightarrow> task \<Rightarrow> bool \<times> mutex_t" where
  "mutex_lock m self =
     (if \<not> mtx_held m then (False, m\<lparr>mtx_held := True\<rparr>)
      else (True, m\<lparr>mtx_waiters := mtx_waiters m @ [self]\<rparr>))"

definition mutex_unlock :: "mutex_t \<Rightarrow> task option \<times> mutex_t" where
  "mutex_unlock m =
     (case mtx_waiters m of
        [] \<Rightarrow> (None, m\<lparr>mtx_held := False\<rparr>)
      | t # ts \<Rightarrow> (Some t, m\<lparr>mtx_waiters := ts\<rparr>))"

subsection \<open>Condition variable\<close>

record condvar_t =
  cv_waiters :: "task list"

definition condvar_init :: condvar_t where
  "condvar_init = \<lparr>cv_waiters = []\<rparr>"

definition condvar_enqueue :: "condvar_t \<Rightarrow> task \<Rightarrow> condvar_t" where
  "condvar_enqueue cv self = cv\<lparr>cv_waiters := cv_waiters cv @ [self]\<rparr>"

definition condvar_signal :: "condvar_t \<Rightarrow> task option \<times> condvar_t" where
  "condvar_signal cv =
     (case cv_waiters cv of
        [] \<Rightarrow> (None, cv)
      | t # ts \<Rightarrow> (Some t, cv\<lparr>cv_waiters := ts\<rparr>))"

definition condvar_broadcast :: "condvar_t \<Rightarrow> task list \<times> condvar_t" where
  "condvar_broadcast cv = (cv_waiters cv, cv\<lparr>cv_waiters := []\<rparr>)"

subsection \<open>Barrier\<close>

record barrier_t =
  b_waiting :: int
  b_count :: int
  b_waiters :: "task list"

definition barrier_init :: "int \<Rightarrow> barrier_t" where
  "barrier_init n = \<lparr>b_waiting = 0, b_count = n, b_waiters = []\<rparr>"

text \<open>The result: does the caller go on (and return true), and whom does it wake up.\<close>

definition barrier_wait :: "barrier_t \<Rightarrow> task \<Rightarrow> bool \<times> task list \<times> barrier_t" where
  "barrier_wait b self =
     (let b = b\<lparr>b_waiting := b_waiting b + 1\<rparr>
      in if b_waiting b \<ge> b_count b then (True, b_waiters b, b\<lparr>b_waiting := 0, b_waiters := []\<rparr>)
         else (False, [], b\<lparr>b_waiters := b_waiters b @ [self]\<rparr>))"

subsection \<open>Wait group\<close>

record waitgroup_t =
  wg_cnt :: int
  wg_waiters :: "task list"

definition waitgroup_init :: waitgroup_t where
  "waitgroup_init = \<lparr>wg_cnt = 0, wg_waiters = []\<rparr>"

text \<open>A negative count is a \<^verbatim>\<open>BUG\<close>, and a sum beyond the range of \<^verbatim>\<open>int\<close> is undefined: both are \<open>None\<close>.\<close>

definition INT_MAX :: int where "INT_MAX = 2 ^ 31 - 1"

definition waitgroup_add :: "waitgroup_t \<Rightarrow> int \<Rightarrow> (task list \<times> waitgroup_t) option" where
  "waitgroup_add wg cnt =
     (let wg = wg\<lparr>wg_cnt := wg_cnt wg + cnt\<rparr>
      in if wg_cnt wg < 0 \<or> INT_MAX < wg_cnt wg then None
         else if wg_cnt wg = 0 then Some (wg_waiters wg, wg\<lparr>wg_waiters := []\<rparr>)
         else Some ([], wg))"

definition waitgroup_done :: "waitgroup_t \<Rightarrow> (task list \<times> waitgroup_t) option" where
  "waitgroup_done wg = waitgroup_add wg (-1)"

definition waitgroup_wait :: "waitgroup_t \<Rightarrow> task \<Rightarrow> bool \<times> waitgroup_t" where
  "waitgroup_wait wg self =
     (if wg_cnt wg = 0 then (False, wg) else (True, wg\<lparr>wg_waiters := wg_waiters wg @ [self]\<rparr>))"

subsection \<open>Futex\<close>

record futex =
  uaddr :: u64
  f_task :: task

text \<open>\<open>mem\<close> is the user memory; the result is an error number, or \<open>None\<close> when the caller blocks.\<close>

definition futex_wait :: "(u64 \<Rightarrow> int) \<Rightarrow> futex list \<Rightarrow> u64 \<Rightarrow> int \<Rightarrow> task \<Rightarrow> int option \<times> futex list" where
  "futex_wait mem l ua val self =
     (if mem ua \<noteq> val then (Some (- EAGAIN), l) else (None, l @ [\<lparr>uaddr = ua, f_task = self\<rparr>]))"

text \<open>The loop of \<^verbatim>\<open>futex_wake\<close>: the tasks woken up, and the entries left on the list.\<close>

fun futex_wake_loop :: "futex list \<Rightarrow> u64 \<Rightarrow> int \<Rightarrow> int \<Rightarrow> int \<times> task list \<times> futex list" where
  "futex_wake_loop [] ua val cnt = (cnt, [], [])"
| "futex_wake_loop (f # fs) ua val cnt =
     (if uaddr f = ua
      then let cnt = cnt + 1
           in if cnt = val then (cnt, [f_task f], fs)
              else let (c, w, l) = futex_wake_loop fs ua val cnt in (c, f_task f # w, l)
      else let (c, w, l) = futex_wake_loop fs ua val cnt in (c, w, f # l))"

definition futex_wake :: "futex list \<Rightarrow> u64 \<Rightarrow> int \<Rightarrow> int \<times> task list \<times> futex list" where
  "futex_wake l ua val = futex_wake_loop l ua val 0"

definition FUTEX_WAIT :: u32 where "FUTEX_WAIT = 0"
definition FUTEX_WAKE :: u32 where "FUTEX_WAKE = 1"
definition FUTEX_CMD_MASK :: u32 where "FUTEX_CMD_MASK = NOT (128 OR 256)"

text \<open>\<^verbatim>\<open>sl_futex\<close>: the return value unless the caller blocks, the tasks woken, the new list.\<close>

definition sl_futex ::
  "(u64 \<Rightarrow> int) \<Rightarrow> futex list \<Rightarrow> task \<Rightarrow> u64 \<Rightarrow> u32 \<Rightarrow> int \<Rightarrow> int option \<times> task list \<times> futex list" where
  "sl_futex mem l self ua op val =
     (let cmd = op AND FUTEX_CMD_MASK
      in if cmd = FUTEX_WAIT then (let (r, l) = futex_wait mem l ua val self in (r, [], l))
         else if cmd = FUTEX_WAKE then (let (c, w, l) = futex_wake l ua val in (Some c, w, l))
         else (Some (-1), [], l))"

section \<open>Mutex and condition variable\<close>

text \<open>Tasks that share a mutex and a condition variable. \<open>inside\<close> are the tasks in the critical section
  (returned from \<open>mutex_lock\<close>, or woken up in it, and not yet in \<open>mutex_unlock\<close>); \<open>cvlock\<close> is the task
  that holds the spin lock of the condition variable in the middle of \<open>condvar_wait\<close>; \<open>relock\<close> are the
  tasks that were woken up from the condition variable and have still to lock the mutex. The rest is
  history: the order of the requests for the mutex and of the acquisitions, and the tasks that have
  given up the mutex in \<open>condvar_wait\<close> and were not woken up since.\<close>

record mon =
  mtx :: mutex_t
  cv :: condvar_t
  inside :: "task set"
  cvlock :: "task option"
  relock :: "task set"
  req :: "task list"
  ent :: "task list"
  asleep :: "task set"

definition busy :: "mon \<Rightarrow> task \<Rightarrow> bool" where
  "busy s t \<longleftrightarrow> t \<in> inside s \<or> t \<in> set (mtx_waiters (mtx s)) \<or> cvlock s = Some t \<or>
     t \<in> set (cv_waiters (cv s)) \<or> t \<in> relock s"

definition do_lock :: "mon \<Rightarrow> task \<Rightarrow> mon" where
  "do_lock s t =
     (let (b, m) = mutex_lock (mtx s) t; s = s\<lparr>mtx := m, req := req s @ [t]\<rparr>
      in if b then s else s\<lparr>inside := insert t (inside s), ent := ent s @ [t]\<rparr>)"

definition do_unlock :: "mon \<Rightarrow> task \<Rightarrow> mon" where
  "do_unlock s t =
     (let (w, m) = mutex_unlock (mtx s); s = s\<lparr>mtx := m, inside := inside s - {t}\<rparr>
      in case w of None \<Rightarrow> s | Some t' \<Rightarrow> s\<lparr>inside := insert t' (inside s), ent := ent s @ [t']\<rparr>)"

inductive mon_step :: "mon \<Rightarrow> mon \<Rightarrow> bool" where
  lock: "\<not> busy s t \<Longrightarrow> mon_step s (do_lock s t)"
| try_lock: "\<not> busy s t \<Longrightarrow> mutex_try_lock (mtx s) = (True, m) \<Longrightarrow>
    mon_step s (s\<lparr>mtx := m, inside := insert t (inside s), req := req s @ [t], ent := ent s @ [t]\<rparr>)"
| unlock: "t \<in> inside s \<Longrightarrow> cvlock s \<noteq> Some t \<Longrightarrow> mon_step s (do_unlock s t)"
| wait_enter: "t \<in> inside s \<Longrightarrow> cvlock s = None \<Longrightarrow> mon_step s (s\<lparr>cvlock := Some t\<rparr>)"
| wait_unlock: "t \<in> inside s \<Longrightarrow> cvlock s = Some t \<Longrightarrow>
    mon_step s ((do_unlock s t)\<lparr>asleep := insert t (asleep s)\<rparr>)"
| wait_block: "t \<notin> inside s \<Longrightarrow> cvlock s = Some t \<Longrightarrow>
    mon_step s (s\<lparr>cv := condvar_enqueue (cv s) t, cvlock := None\<rparr>)"
| signal: "cvlock s = None \<Longrightarrow> condvar_signal (cv s) = (w, c) \<Longrightarrow>
    mon_step s (s\<lparr>cv := c, relock := relock s \<union> set_option w, asleep := asleep s - set_option w\<rparr>)"
| broadcast: "cvlock s = None \<Longrightarrow> condvar_broadcast (cv s) = (ws, c) \<Longrightarrow>
    mon_step s (s\<lparr>cv := c, relock := relock s \<union> set ws, asleep := asleep s - set ws\<rparr>)"
| resume: "t \<in> relock s \<Longrightarrow> mon_step s (do_lock (s\<lparr>relock := relock s - {t}\<rparr>) t)"

definition mon_init :: mon where
  "mon_init = \<lparr>mtx = mutex_init, cv = condvar_init, inside = {}, cvlock = None, relock = {},
     req = [], ent = [], asleep = {}\<rparr>"

inductive mon_reach :: "mon \<Rightarrow> bool" where
  start: "mon_reach mon_init"
| step: "mon_reach s \<Longrightarrow> mon_step s s' \<Longrightarrow> mon_reach s'"

text \<open>The task in the middle of \<open>condvar_wait\<close>, when it has unlocked the mutex.\<close>

definition halfway :: "mon \<Rightarrow> task set" where
  "halfway s = set_option (cvlock s) - inside s"

definition mon_inv :: "mon \<Rightarrow> bool" where
  "mon_inv s \<longleftrightarrow>
     (\<exists>t. inside s = {t} \<and> mtx_held (mtx s)) \<or> inside s = {} \<and> \<not> mtx_held (mtx s) \<and> mtx_waiters (mtx s) = []"

definition places_ok :: "mon \<Rightarrow> bool" where
  "places_ok s \<longleftrightarrow>
     distinct (mtx_waiters (mtx s)) \<and> distinct (cv_waiters (cv s)) \<and>
     inside s \<inter> set (mtx_waiters (mtx s)) = {} \<and>
     (inside s \<union> set (mtx_waiters (mtx s))) \<inter> (set (cv_waiters (cv s)) \<union> relock s) = {} \<and>
     set (cv_waiters (cv s)) \<inter> relock s = {} \<and>
     (\<forall>t. cvlock s = Some t \<longrightarrow> t \<notin> set (mtx_waiters (mtx s)) \<union> set (cv_waiters (cv s)) \<union> relock s)"

lemmas mon_defs = do_lock_def do_unlock_def mutex_lock_def mutex_unlock_def mutex_try_lock_def
  condvar_signal_def condvar_broadcast_def condvar_enqueue_def halfway_def busy_def

lemma do_lock_free: "\<not> mtx_held (mtx s) \<Longrightarrow> do_lock s t =
    s\<lparr>mtx := (mtx s)\<lparr>mtx_held := True\<rparr>, req := req s @ [t], inside := insert t (inside s), ent := ent s @ [t]\<rparr>"
  by (simp add: do_lock_def mutex_lock_def)

lemma do_lock_held: "mtx_held (mtx s) \<Longrightarrow> do_lock s t =
    s\<lparr>mtx := (mtx s)\<lparr>mtx_waiters := mtx_waiters (mtx s) @ [t]\<rparr>, req := req s @ [t]\<rparr>"
  by (simp add: do_lock_def mutex_lock_def)

lemma do_unlock_last: "mtx_waiters (mtx s) = [] \<Longrightarrow> do_unlock s t =
    s\<lparr>mtx := (mtx s)\<lparr>mtx_held := False\<rparr>, inside := inside s - {t}\<rparr>"
  by (simp add: do_unlock_def mutex_unlock_def)

lemma do_unlock_next: "mtx_waiters (mtx s) = t' # ts \<Longrightarrow> do_unlock s t =
    s\<lparr>mtx := (mtx s)\<lparr>mtx_waiters := ts\<rparr>, inside := insert t' (inside s - {t}), ent := ent s @ [t']\<rparr>"
  by (simp add: do_unlock_def mutex_unlock_def)

definition mon_ok :: "mon \<Rightarrow> bool" where
  "mon_ok s \<longleftrightarrow> mon_inv s \<and> places_ok s \<and> req s = ent s @ mtx_waiters (mtx s) \<and>
     asleep s = set (cv_waiters (cv s)) \<union> halfway s"

text \<open>A task that is nowhere locks the mutex; the task that is inside unlocks it.\<close>

lemma do_lock_ok:
  assumes "mon_ok s" "\<not> busy s t"
  shows "mon_ok (do_lock s t)"
proof (cases "mtx_held (mtx s)")
  case True
  with assms show ?thesis
    by (auto simp: do_lock_held mon_ok_def mon_inv_def places_ok_def busy_def halfway_def)
next
  case False
  with assms show ?thesis
    by (auto simp: do_lock_free mon_ok_def mon_inv_def places_ok_def busy_def halfway_def)
qed

lemma do_unlock_ok:
  assumes "mon_ok s" "t \<in> inside s" "cvlock s \<noteq> Some t"
  shows "mon_ok (do_unlock s t)"
proof (cases "mtx_waiters (mtx s)")
  case Nil
  with assms show ?thesis
    by (auto simp: do_unlock_last mon_ok_def mon_inv_def places_ok_def halfway_def)
next
  case (Cons a ts)
  with assms show ?thesis
    by (auto simp: do_unlock_next mon_ok_def mon_inv_def places_ok_def halfway_def)
qed

lemma wait_unlock_ok:
  assumes "mon_ok s" "t \<in> inside s" "cvlock s = Some t"
  shows "mon_ok ((do_unlock s t)\<lparr>asleep := insert t (asleep s)\<rparr>)"
proof (cases "mtx_waiters (mtx s)")
  case Nil
  with assms show ?thesis
    by (auto simp: do_unlock_last mon_ok_def mon_inv_def places_ok_def halfway_def)
next
  case (Cons a ts)
  with assms show ?thesis
    by (auto simp: do_unlock_next mon_ok_def mon_inv_def places_ok_def halfway_def)
qed

lemma wake_ok:
  assumes "mon_ok s" "cvlock s = None" "cv_waiters (cv s) = ws @ l"
  shows "mon_ok (s\<lparr>cv := (cv s)\<lparr>cv_waiters := l\<rparr>, relock := relock s \<union> set ws, asleep := asleep s - set ws\<rparr>)"
  using assms by (auto simp: mon_ok_def mon_inv_def places_ok_def halfway_def)

lemma mon_step_ok: "mon_step s s' \<Longrightarrow> mon_ok s \<Longrightarrow> mon_ok s'"
proof (induction rule: mon_step.induct)
  case (lock s t)
  then show ?case by (simp add: do_lock_ok)
next
  case (try_lock s t m)
  then have "s\<lparr>mtx := m, inside := insert t (inside s), req := req s @ [t], ent := ent s @ [t]\<rparr> = do_lock s t"
    by (auto simp: mutex_try_lock_def do_lock_free split: if_splits)
  with try_lock show ?case by (simp add: do_lock_ok)
next
  case (unlock t s)
  then show ?case by (simp add: do_unlock_ok)
next
  case (wait_enter t s)
  then show ?case by (auto simp: mon_ok_def mon_inv_def places_ok_def halfway_def)
next
  case (wait_unlock t s)
  then show ?case by (simp add: wait_unlock_ok)
next
  case (wait_block t s)
  then show ?case
    by (auto simp: mon_ok_def mon_inv_def places_ok_def halfway_def condvar_enqueue_def)
next
  case (signal s w c)
  then show ?case
    using wake_ok [of s "[]" "cv_waiters (cv s)"] wake_ok [of s "[hd (cv_waiters (cv s))]" "tl (cv_waiters (cv s))"]
    by (auto simp: condvar_signal_def split: list.splits)
next
  case (broadcast s ws c)
  then show ?case using wake_ok [of s "cv_waiters (cv s)" "[]"] by (auto simp: condvar_broadcast_def)
next
  case (resume t s)
  then have "mon_ok (s\<lparr>relock := relock s - {t}\<rparr>)" "\<not> busy (s\<lparr>relock := relock s - {t}\<rparr>) t"
    by (auto simp: mon_ok_def mon_inv_def places_ok_def halfway_def busy_def)
  then show ?case by (rule do_lock_ok)
qed

lemma mon_reach_ok: "mon_reach s \<Longrightarrow> mon_ok s"
proof (induction rule: mon_reach.induct)
  case start
  show ?case by (simp add: mon_ok_def mon_init_def mon_inv_def places_ok_def halfway_def mutex_init_def condvar_init_def)
next
  case (step s s')
  then show ?case by (simp add: mon_step_ok)
qed

text \<open>C30: Mutual exclusion and fairness: in every reachable state at most one task is in the critical
  section, the mutex is held exactly when one is, and the tasks have entered the critical section in the
  order in which they asked for the mutex, the remaining requests being the queue of waiters.\<close>

theorem mutex_exclusive_fifo:
  assumes "mon_reach s"
  shows "(\<exists>t. inside s \<subseteq> {t}) \<and> (mtx_held (mtx s) \<longleftrightarrow> inside s \<noteq> {}) \<and>
    (inside s = {} \<longrightarrow> mtx_waiters (mtx s) = []) \<and> req s = ent s @ mtx_waiters (mtx s)"
  using mon_reach_ok [OF assms] by (auto simp: mon_ok_def mon_inv_def)

text \<open>A run: task 1 locks, task 2 blocks on the mutex, task 1 waits on the condition variable.\<close>

definition mon_demo :: mon where
  "mon_demo = (let s = do_lock (do_lock mon_init 1) 2; s = s\<lparr>cvlock := Some 1\<rparr>;
     s = (do_unlock s 1)\<lparr>asleep := insert 1 (asleep s)\<rparr>
     in s\<lparr>cv := condvar_enqueue (cv s) 1, cvlock := None\<rparr>)"

lemma mon_demo_eq: "mon_demo = \<lparr>mtx = \<lparr>mtx_held = True, mtx_waiters = []\<rparr>, cv = \<lparr>cv_waiters = [1]\<rparr>,
    inside = {2}, cvlock = None, relock = {}, req = [1, 2], ent = [1, 2], asleep = {1}\<rparr>"
  by (simp add: mon_demo_def mon_init_def mutex_init_def condvar_init_def mon_defs Let_def insert_Diff_if)

lemma mon_demo_reach: "mon_reach mon_demo"
proof -
  note d = mon_init_def mutex_init_def condvar_init_def mon_defs Let_def insert_Diff_if
  define s where "s = do_lock (do_lock mon_init 1) 2"
  define u where "u = (do_unlock (s\<lparr>cvlock := Some 1\<rparr>) 1)\<lparr>asleep := insert 1 (asleep s)\<rparr>"
  have "mon_reach (do_lock mon_init 1)"
    by (rule mon_reach.step [OF mon_reach.start], rule mon_step.lock) (simp add: d)
  then have "mon_reach s"
    unfolding s_def by (rule mon_reach.step, intro mon_step.lock) (simp add: d)
  then have "mon_reach (s\<lparr>cvlock := Some 1\<rparr>)"
    by (rule mon_reach.step, intro mon_step.wait_enter) (simp_all add: s_def d)
  then have "mon_reach ((do_unlock (s\<lparr>cvlock := Some 1\<rparr>) 1)\<lparr>asleep := insert 1 (asleep (s\<lparr>cvlock := Some 1\<rparr>))\<rparr>)"
    by (rule mon_reach.step, intro mon_step.wait_unlock) (simp_all add: s_def d)
  then have "mon_reach u" by (simp add: u_def)
  then have "mon_reach (u\<lparr>cv := condvar_enqueue (cv u) 1, cvlock := None\<rparr>)"
    by (rule mon_reach.step, intro mon_step.wait_block) (simp_all add: u_def s_def d)
  then show ?thesis by (simp add: mon_demo_def u_def s_def Let_def)
qed

theorem mutex_exclusive_fifo_witness:
  "mon_reach mon_demo \<and> req mon_demo = ent mon_demo @ mtx_waiters (mtx mon_demo) \<and> inside mon_demo = {2}"
  using mutex_exclusive_fifo [OF mon_demo_reach] mon_demo_reach by (simp add: mon_demo_eq)

text \<open>C31: No lost wakeup: once a task has given up the mutex inside \<^verbatim>\<open>condvar_wait\<close> and until it is woken
  up, whoever gets the lock of the condition variable finds it on the queue. So a broadcast wakes up
  exactly the sleeping tasks, and a signal wakes up one of them whenever there is one.\<close>

theorem condvar_no_lost_wakeup:
  assumes "mon_reach s" "cvlock s = None"
  shows "set (fst (condvar_broadcast (cv s))) = asleep s \<and>
    (case condvar_signal (cv s) of
       (None, _) \<Rightarrow> asleep s = {}
     | (Some t, cv') \<Rightarrow> t \<in> asleep s \<and> set (cv_waiters cv') = asleep s - {t})"
proof -
  from mon_reach_ok [OF assms(1)] assms(2)
  have "asleep s = set (cv_waiters (cv s))" "distinct (cv_waiters (cv s))"
    by (auto simp: mon_ok_def halfway_def places_ok_def)
  then show ?thesis
    by (auto simp: condvar_broadcast_def condvar_signal_def split: list.splits)
qed

theorem condvar_no_lost_wakeup_witness:
  "asleep mon_demo = {1} \<and> cvlock mon_demo = None \<and> set (fst (condvar_broadcast (cv mon_demo))) = asleep mon_demo"
  using condvar_no_lost_wakeup [OF mon_demo_reach] by (simp add: mon_demo_eq)

section \<open>Barrier\<close>

text \<open>The tasks \<open>ts\<close> arrive one after the other: the results of those that do not block, in the order of
  arrival (false for a task that blocks), the tasks woken up, and the barrier.\<close>

definition barrier_arrive :: "bool list \<times> task list \<times> barrier_t \<Rightarrow> task \<Rightarrow> bool list \<times> task list \<times> barrier_t" where
  "barrier_arrive = (\<lambda>(rs, ws, b) t. let (r, w, b) = barrier_wait b t in (rs @ [r], ws @ w, b))"

definition barrier_run :: "int \<Rightarrow> task list \<Rightarrow> bool list \<times> task list \<times> barrier_t" where
  "barrier_run c ts = foldl barrier_arrive ([], [], barrier_init c) ts"

lemma barrier_run_snoc: "barrier_run c (ts @ [t]) = barrier_arrive (barrier_run c ts) t"
  by (simp add: barrier_run_def)

lemma div_mod_Suc_top: "Suc n mod c = 0 \<Longrightarrow> 0 < c \<Longrightarrow> Suc n div c * c = Suc n" for n c :: nat
  by (metis add.right_neutral div_mult_mod_eq)

lemma div_Suc_same: "Suc n mod c \<noteq> 0 \<Longrightarrow> Suc n div c = n div c" for n c :: nat
  by (simp add: div_Suc)

lemma mod_Suc_nz: "Suc n mod c \<noteq> 0 \<Longrightarrow> Suc n mod c = Suc (n mod c)" for n c :: nat
  by (simp add: mod_Suc split: if_splits)

lemma barrier_run_eq:
  assumes "0 < c"
  shows "barrier_run (int c) ts =
    (map (\<lambda>i. Suc i mod c = 0) [0..<length ts],
     map ((!) ts) (filter (\<lambda>i. Suc i mod c \<noteq> 0) [0..<length ts div c * c]),
     \<lparr>b_waiting = int (length ts mod c), b_count = int c, b_waiters = drop (length ts div c * c) ts\<rparr>)"
  (is "_ = ?R ts")
proof (induction ts rule: rev_induct)
  case Nil
  show ?case by (simp add: barrier_run_def barrier_init_def)
next
  case (snoc t ts)
  let ?n = "length ts" and ?d = "length ts div c * c"
  have le: "?d \<le> ?n" by (rule div_times_less_eq_dividend)
  have old: "map ((!) (ts @ [t])) (filter P [0..<?d]) = map ((!) ts) (filter P [0..<?d])" for P
  proof (rule map_cong [OF refl])
    fix i assume "i \<in> set (filter P [0..<?d])"
    then have "i < ?n" using le by (auto intro: less_le_trans)
    then show "(ts @ [t]) ! i = ts ! i" by (simp add: nth_append)
  qed
  show ?case
  proof (cases "Suc ?n mod c = 0")
    case True
    then have m: "Suc (?n mod c) = c" using mod_Suc [of ?n c] by (simp split: if_splits)
    then have n: "?n = ?d + (c - 1)" using div_mult_mod_eq [of ?n c] by linarith
    have "filter (\<lambda>i. Suc i mod c \<noteq> 0) [?d..<Suc ?n] = [?d..<?n]"
    proof -
      have "filter (\<lambda>i. Suc i mod c \<noteq> 0) [?d..<?n] = [?d..<?n]"
      proof (rule filter_True, rule ballI)
        fix i assume "i \<in> set [?d..<?n]"
        then have i: "i = ?d + (i - ?d)" "Suc (i - ?d) < c" using n m by auto
        then have "Suc i mod c = (?d + Suc (i - ?d)) mod c" by simp
        also have "\<dots> = Suc (i - ?d)" using i(2) by (metis mod_less mod_mult_self3)
        finally show "Suc i mod c \<noteq> 0" by simp
      qed
      then show ?thesis using True le by simp
    qed
    moreover have "[0..<Suc ?n] = [0..<?d] @ [?d..<Suc ?n]"
      using le upt_add_eq_append [of 0 ?d "Suc ?n - ?d"] by (simp only: le_add_diff_inverse le_SucI le0)
    ultimately have "map ((!) (ts @ [t])) (filter (\<lambda>i. Suc i mod c \<noteq> 0) [0..<Suc ?n])
        = map ((!) ts) (filter (\<lambda>i. Suc i mod c \<noteq> 0) [0..<?d]) @ map ((!) (ts @ [t])) [?d..<?n]"
      by (simp only: filter_append map_append old)
    moreover have "map ((!) (ts @ [t])) [?d..<?n] = drop ?d ts"
      using le by (auto intro!: nth_equalityI simp: nth_append)
    moreover have "int (?n mod c) + 1 = int c" using m by linarith
    moreover have "map (\<lambda>i. Suc i mod c = 0) [0..<Suc ?n] = map (\<lambda>i. Suc i mod c = 0) [0..<?n] @ [True]"
      using True by simp
    ultimately show ?thesis
      using True snoc assms div_mod_Suc_top [OF True assms]
      by (simp add: barrier_run_snoc barrier_arrive_def barrier_wait_def del: upt_Suc)
  next
    case False
    have "int (?n mod c) + 1 < int c" using mod_Suc_nz [OF False] mod_less_divisor [OF assms, of "Suc ?n"] by linarith
    then show ?thesis
      using False snoc assms le old div_Suc_same [OF False] mod_Suc_nz [OF False]
      by (simp add: barrier_run_snoc barrier_arrive_def barrier_wait_def)
  qed
qed

text \<open>Any number of tasks arrives at a barrier for \<open>c\<close> tasks: exactly every \<open>c\<close>-th arrival returns true,
  each full group of \<open>c\<close> tasks has been released (all of the group but its last task were blocked and
  have been woken up once, in the order of their arrival), the tasks of the incomplete group, and no
  others, are still blocked, and the barrier counts them.\<close>

theorem barrier_releases_groups:
  assumes "0 < c" "barrier_run (int c) ts = (rs, ws, b)"
  shows "rs = map (\<lambda>i. Suc i mod c = 0) [0..<length ts] \<and>
    ws = map ((!) ts) (filter (\<lambda>i. Suc i mod c \<noteq> 0) [0..<length ts div c * c]) \<and>
    b_waiters b = drop (length ts div c * c) ts \<and> b_waiting b = int (length (b_waiters b)) \<and>
    b_waiting b < b_count b"
proof -
  have "length ts - length ts div c * c = length ts mod c" by (simp add: minus_div_mult_eq_mod)
  then show ?thesis using assms by (auto simp: barrier_run_eq)
qed

theorem barrier_releases_groups_witness:
  "barrier_run (int 2) [7, 8, 9] = ([False, True, False], [7], \<lparr>b_waiting = 1, b_count = 2, b_waiters = [9]\<rparr>) \<and>
   b_waiting \<lparr>b_waiting = 1, b_count = 2, b_waiters = [9]\<rparr> < 2"
proof -
  have e: "barrier_run (int 2) [7, 8, 9] = ([False, True, False], [7], \<lparr>b_waiting = 1, b_count = 2, b_waiters = [9]\<rparr>)"
    by (simp add: barrier_run_def barrier_arrive_def barrier_wait_def barrier_init_def Let_def)
  from barrier_releases_groups [OF _ e] e show ?thesis by simp
qed

section \<open>Wait group\<close>

datatype wg_op = WgAdd int | WgDone | WgWait task

record wg_hist =
  wg_obj :: waitgroup_t
  blocked :: "task list"
  woken :: "task list"

fun wg_do :: "wg_hist \<Rightarrow> wg_op \<Rightarrow> wg_hist option" where
  "wg_do h (WgAdd n) =
     (case waitgroup_add (wg_obj h) n of None \<Rightarrow> None | Some (ws, g) \<Rightarrow> Some (h\<lparr>wg_obj := g, woken := woken h @ ws\<rparr>))"
| "wg_do h WgDone =
     (case waitgroup_done (wg_obj h) of None \<Rightarrow> None | Some (ws, g) \<Rightarrow> Some (h\<lparr>wg_obj := g, woken := woken h @ ws\<rparr>))"
| "wg_do h (WgWait t) =
     (let (b, g) = waitgroup_wait (wg_obj h) t
      in Some (h\<lparr>wg_obj := g, blocked := (if b then blocked h @ [t] else blocked h)\<rparr>))"

fun wg_run :: "wg_hist \<Rightarrow> wg_op list \<Rightarrow> wg_hist option" where
  "wg_run h [] = Some h"
| "wg_run h (p # ps) = (case wg_do h p of None \<Rightarrow> None | Some h \<Rightarrow> wg_run h ps)"

fun wg_delta :: "wg_op \<Rightarrow> int" where
  "wg_delta (WgAdd n) = n"
| "wg_delta WgDone = -1"
| "wg_delta (WgWait _) = 0"

definition wg_start :: wg_hist where
  "wg_start = \<lparr>wg_obj = waitgroup_init, blocked = [], woken = []\<rparr>"

definition wg_inv :: "wg_hist \<Rightarrow> bool" where
  "wg_inv h \<longleftrightarrow> 0 \<le> wg_cnt (wg_obj h) \<and> (wg_cnt (wg_obj h) = 0 \<longrightarrow> wg_waiters (wg_obj h) = []) \<and>
     blocked h = woken h @ wg_waiters (wg_obj h)"

lemma wg_do_inv: "wg_do h p = Some h' \<Longrightarrow> wg_inv h \<Longrightarrow>
    wg_inv h' \<and> wg_cnt (wg_obj h') = wg_cnt (wg_obj h) + wg_delta p"
  by (cases p)
    (auto simp: wg_inv_def waitgroup_add_def waitgroup_done_def waitgroup_wait_def Let_def split: option.splits if_splits)

lemma wg_run_inv: "wg_run h ps = Some h' \<Longrightarrow> wg_inv h \<Longrightarrow>
    wg_inv h' \<and> wg_cnt (wg_obj h') = wg_cnt (wg_obj h) + sum_list (map wg_delta ps)"
  by (induction ps arbitrary: h) (auto split: option.splits dest!: wg_do_inv)

text \<open>Any sequence of adds, dones and waits on a wait group: the count is the sum of the changes, and
  the blocked tasks have been woken up in the order in which they blocked, each once, up to those that
  still wait; none waits when the count is zero.\<close>

theorem waitgroup_releases_at_zero:
  assumes "wg_run wg_start ps = Some h"
  shows "wg_cnt (wg_obj h) = sum_list (map wg_delta ps) \<and> blocked h = woken h @ wg_waiters (wg_obj h) \<and>
    (sum_list (map wg_delta ps) = 0 \<longrightarrow> woken h = blocked h)"
  using wg_run_inv [OF assms] by (auto simp: wg_inv_def wg_start_def waitgroup_init_def)

theorem waitgroup_releases_at_zero_witness:
  "\<exists>h. wg_run wg_start [WgAdd 2, WgWait 5, WgDone, WgWait 6, WgDone] = Some h \<and> woken h = [5, 6] \<and> blocked h = woken h"
proof -
  let ?h = "\<lparr>wg_obj = \<lparr>wg_cnt = 0, wg_waiters = []\<rparr>, blocked = [5, 6], woken = [5, 6]\<rparr>"
  have "wg_run wg_start [WgAdd 2, WgWait 5, WgDone, WgWait 6, WgDone] = Some ?h"
    by (simp add: wg_start_def waitgroup_init_def waitgroup_add_def waitgroup_done_def waitgroup_wait_def INT_MAX_def)
  from this waitgroup_releases_at_zero [OF this] show ?thesis by auto
qed

section \<open>Futex\<close>

definition at_addr :: "u64 \<Rightarrow> futex list \<Rightarrow> futex list" where
  "at_addr ua l = filter (\<lambda>f. uaddr f = ua) l"

lemma futex_wake_loop_some:
  "futex_wake_loop l ua (cnt + int k) cnt = (c, w, l') \<Longrightarrow> 0 < k \<Longrightarrow>
     w = take k (map f_task (at_addr ua l)) \<and> c = cnt + int (length w) \<and>
     at_addr ua l' = drop k (at_addr ua l) \<and> (\<forall>a. a \<noteq> ua \<longrightarrow> at_addr a l' = at_addr a l) \<and> subseq l' l"
proof (induction l arbitrary: k cnt c w l')
  case Nil
  then show ?case by (simp add: at_addr_def)
next
  case (Cons f fs)
  show ?case
  proof (cases "uaddr f = ua \<and> k \<noteq> 1")
    case True
    then obtain j where j: "k = Suc j" "0 < j" using Cons.prems(2) by (cases k) auto
    obtain c1 w1 l1 where r: "futex_wake_loop fs ua (cnt + 1 + int j) (cnt + 1) = (c1, w1, l1)"
      by (metis prod_cases3)
    from Cons.IH [OF r j(2)] Cons.prems True j r show ?thesis
      by (auto simp: at_addr_def Let_def add.assoc)
  next
    case False
    obtain c1 w1 l1 where r: "futex_wake_loop fs ua (cnt + int k) cnt = (c1, w1, l1)"
      by (metis prod_cases3)
    from Cons.IH [OF r Cons.prems(2)] Cons.prems False r show ?thesis
      by (auto simp: at_addr_def Let_def split: if_splits)
  qed
qed

lemma futex_wake_loop_all:
  "futex_wake_loop l ua val cnt = (c, w, l') \<Longrightarrow> val \<le> cnt \<Longrightarrow>
     w = map f_task (at_addr ua l) \<and> c = cnt + int (length w) \<and>
     l' = filter (\<lambda>f. uaddr f \<noteq> ua) l"
  by (induction l ua val cnt arbitrary: c w l' rule: futex_wake_loop.induct)
    (auto simp: at_addr_def Let_def split: if_splits prod.splits)

text \<open>\<^verbatim>\<open>sl_futex\<close> with the wake command and a positive number wakes up that many of the tasks that wait on
  the address, or all when there are fewer, the longest waiting first; it returns how many, and keeps
  the other waiters, of this and of every other address, in their order. Nothing limits the wakeups when
  the number is not positive.\<close>

theorem futex_wake_exact:
  assumes "op AND FUTEX_CMD_MASK = FUTEX_WAKE" "sl_futex mem l self ua op val = (r, w, l')"
  shows "w = take (if 0 < val then nat val else length l) (map f_task (at_addr ua l)) \<and> r = Some (int (length w)) \<and>
    at_addr ua l' = drop (length w) (at_addr ua l) \<and> (\<forall>a. a \<noteq> ua \<longrightarrow> at_addr a l' = at_addr a l) \<and> subseq l' l"
proof -
  have "FUTEX_WAKE \<noteq> FUTEX_WAIT" by (simp add: FUTEX_WAKE_def FUTEX_WAIT_def)
  with assms obtain c where c: "futex_wake_loop l ua val 0 = (c, w, l')" "r = Some c"
    by (auto simp: sl_futex_def futex_wake_def Let_def split: prod.splits)
  show ?thesis
  proof (cases "0 < val")
    case True
    then have "futex_wake_loop l ua (0 + int (nat val)) 0 = (c, w, l')" using c by simp
    from futex_wake_loop_some [OF this] True c show ?thesis
      by (auto simp: min_def)
  next
    case False
    have "length (at_addr ua l) \<le> length l" by (simp add: at_addr_def)
    with futex_wake_loop_all [OF c(1)] False c show ?thesis
      by (auto simp: at_addr_def intro: filter_cong)
  qed
qed

theorem futex_wake_exact_witness:
  "\<exists>r w l'. sl_futex (\<lambda>_. 0) [\<lparr>uaddr = 8, f_task = 1\<rparr>, \<lparr>uaddr = 4, f_task = 2\<rparr>, \<lparr>uaddr = 8, f_task = 3\<rparr>] 9 8 129 1 = (r, w, l') \<and>
     w = [1] \<and> r = Some 1"
proof -
  have "(129::u32) AND FUTEX_CMD_MASK = FUTEX_WAKE" by (simp add: FUTEX_CMD_MASK_def FUTEX_WAKE_def)
  moreover obtain r w l' where e: "sl_futex (\<lambda>_. 0) [\<lparr>uaddr = 8, f_task = 1\<rparr>, \<lparr>uaddr = 4, f_task = 2\<rparr>, \<lparr>uaddr = 8, f_task = 3\<rparr>] 9 8 129 1 = (r, w, l')"
    by (metis prod_cases3)
  ultimately show ?thesis using futex_wake_exact [OF _ e] e by (auto simp: at_addr_def)
qed

end
