(* ===== verification/Fair_Queue.thy ===== *)
theory Fair_Queue
  imports Sched_Policy
begin

text \<open>
  What the two fair policies, CFS and EEVDF, have in common: a run queue of a CPU has a current task and
  a tree of waiting tasks, a counter and the sum of the weights of both; every task that is marked as on
  a run queue is on exactly one of them.
\<close>

section \<open>One run queue\<close>

definition fq_members :: "task option \<Rightarrow> task list \<Rightarrow> task list" where
  "fq_members c q = (case c of Some c \<Rightarrow> [c] | None \<Rightarrow> []) @ q"

definition fq_inv :: "task option \<Rightarrow> task list \<Rightarrow> u32 \<Rightarrow> u64 \<Rightarrow> (task \<Rightarrow> bool) \<Rightarrow> (task \<Rightarrow> u64) \<Rightarrow> bool" where
  "fq_inv c q nr w on wt \<longleftrightarrow> distinct (fq_members c q) \<and> (\<forall>t \<in> set (fq_members c q). on t \<and> t < MAX_TASKS) \<and>
     nr = of_nat (length (fq_members c q)) \<and> w = sum_list (map wt (fq_members c q))"

lemma fq_members_simps [simp]: "fq_members None q = q" "fq_members (Some c) q = c # q"
  by (simp_all add: fq_members_def)

lemma fq_set: "set (fq_members c q) = set q \<union> set_option c"
  by (cases c) auto

lemma sum_list_mset_eq: "mset xs = mset ys \<Longrightarrow> sum_list (map g xs) = (sum_list (map g ys) :: 'b::comm_monoid_add)"
  by (metis mset_map sum_mset_sum_list)

lemma fq_inv_cong:
  assumes "fq_inv c q nr w on wt" "\<And>t. t \<in> set (fq_members c q) \<Longrightarrow> on' t = on t \<and> wt' t = wt t"
  shows "fq_inv c q nr w on' wt'"
proof -
  have "map wt' (fq_members c q) = map wt (fq_members c q)" using assms(2) by simp
  then have "sum_list (map wt' (fq_members c q)) = sum_list (map wt (fq_members c q))" by (rule arg_cong)
  then show ?thesis using assms by (simp add: fq_inv_def)
qed

text \<open>A task moves between the tree and the current task, joins, or leaves.\<close>

lemma fq_inv_move:
  assumes "fq_inv c q nr w on wt" "mset (fq_members c' q') = mset (fq_members c q)"
  shows "fq_inv c' q' nr w on wt"
  using assms(1) mset_eq_setD [OF assms(2)] mset_eq_length [OF assms(2)] mset_eq_imp_distinct_iff [OF assms(2)]
    sum_list_mset_eq [OF assms(2), of wt] by (simp add: fq_inv_def)

lemma fq_inv_join:
  assumes "fq_inv c q nr w on wt" "t \<notin> set (fq_members c q)" "t < MAX_TASKS" "on' t" "wt' t = wt t"
    "\<And>u. u \<noteq> t \<Longrightarrow> on' u = on u \<and> wt' u = wt u" "mset q' = add_mset t (mset q)"
  shows "fq_inv c q' (nr + 1) (w + wt t) on' wt'"
proof -
  have "fq_inv c q nr w on' wt'" using assms(2,6) by (intro fq_inv_cong [OF assms(1)]) metis
  then have "fq_inv c (t # q) (nr + 1) (w + wt t) on' wt'"
    using assms(2-5) by (cases c) (auto simp: fq_inv_def algebra_simps)
  then show ?thesis by (rule fq_inv_move) (use assms(7) in \<open>cases c; simp\<close>)
qed

lemma fq_inv_leave:
  assumes "fq_inv (Some c) q nr w on wt" "\<And>u. u \<noteq> c \<Longrightarrow> on' u = on u \<and> wt' u = wt u"
  shows "fq_inv None q (nr - 1) (w - wt c) on' wt'"
proof -
  have "fq_inv None q (nr - 1) (w - wt c) on wt" using assms(1) by (simp add: fq_inv_def)
  moreover have "u \<noteq> c" if "u \<in> set q" for u using assms(1) that by (auto simp: fq_inv_def)
  ultimately show ?thesis using assms(2) by - (rule fq_inv_cong, simp_all)
qed

lemma length_bounded: "distinct xs \<Longrightarrow> (\<forall>x \<in> set xs. x < n) \<Longrightarrow> length xs \<le> n" for xs :: "nat list"
  using card_mono [of "{..<n}" "set xs"] distinct_card [of xs] by auto

lemma fq_length: "fq_inv c q nr w on wt \<Longrightarrow> length (fq_members c q) \<le> MAX_TASKS"
  using length_bounded [of "fq_members c q" MAX_TASKS] by (simp add: fq_inv_def)

lemma fq_nr: "fq_inv c q nr w on wt \<Longrightarrow> unat nr = length (fq_members c q)"
  using fq_length [of c q nr w on wt] by (simp add: fq_inv_def MAX_TASKS_def unat_of_nat)

section \<open>All run queues\<close>

text \<open>\<open>M cpu\<close> are the tasks of the run queue of a CPU, \<open>on\<close> the marks of the tasks.\<close>

definition placed :: "(nat \<Rightarrow> task set) \<Rightarrow> (task \<Rightarrow> bool) \<Rightarrow> bool" where
  "placed M on \<longleftrightarrow> (\<forall>c < USED_CPUS. \<forall>t \<in> M c. on t) \<and>
     (\<forall>c < USED_CPUS. \<forall>d < USED_CPUS. c \<noteq> d \<longrightarrow> M c \<inter> M d = {}) \<and> (\<forall>t. on t \<longrightarrow> (\<exists>c < USED_CPUS. t \<in> M c))"

lemma placed_other:
  "placed M on \<Longrightarrow> c < USED_CPUS \<Longrightarrow> d < USED_CPUS \<Longrightarrow> c \<noteq> d \<Longrightarrow> t \<in> M d \<Longrightarrow> t \<notin> M c \<and> on t"
  unfolding placed_def by blast

lemma placed_one: "placed M on \<Longrightarrow> on t \<Longrightarrow> \<exists>!c. c < USED_CPUS \<and> t \<in> M c"
  unfolding placed_def by (metis disjoint_iff)

text \<open>One run queue changes: tasks that join it were not on any, tasks that leave are not marked any more,
  and the tasks elsewhere keep their marks.\<close>

lemma placed_update:
  assumes "placed M on" "cpu < USED_CPUS" "\<And>u. u \<in> m \<Longrightarrow> on' u" "\<And>u. u \<in> m \<Longrightarrow> u \<notin> M cpu \<Longrightarrow> \<not> on u"
    "\<And>u. u \<in> M cpu \<Longrightarrow> u \<notin> m \<Longrightarrow> \<not> on' u" "\<And>u. u \<notin> m \<Longrightarrow> u \<notin> M cpu \<Longrightarrow> on' u = on u"
  shows "placed (M(cpu := m)) on'"
proof -
  have dis: "M d \<inter> (m \<union> M cpu) = {}" if "d < USED_CPUS" "d \<noteq> cpu" for d
    using placed_other [OF assms(1,2) that(1)] that(2) assms(4) by blast
  have "\<exists>d < USED_CPUS. t \<in> (M(cpu := m)) d" if "on' t" for t
  proof (cases "t \<in> m")
    case False
    then have "t \<notin> M cpu" using assms(5) that by blast
    with False that have "on t" using assms(6) by blast
    then show ?thesis using assms(1) \<open>t \<notin> M cpu\<close> unfolding placed_def by (metis fun_upd_other)
  qed (use assms(2) in auto)
  moreover have "(M(cpu := m)) c \<inter> (M(cpu := m)) d = {}" if "c < USED_CPUS" "d < USED_CPUS" "c \<noteq> d" for c d
    using dis [of c] dis [of d] that assms(1) by (auto simp: placed_def)
  moreover have "on' t" if "t \<in> (M(cpu := m)) c" "c < USED_CPUS" for c t
  proof (cases "c = cpu")
    case False
    then have "t \<in> M c" using that by simp
    then show ?thesis using dis [OF that(2) False] assms(6) [of t] assms(1) that(2) by (auto simp: placed_def)
  qed (use that assms(3) in simp)
  ultimately show ?thesis by (simp add: placed_def)
qed

section \<open>Runs\<close>

text \<open>The states a policy reaches by its steps: \<open>P\<close> are the tasks that were put on the run queues, \<open>R\<close>
  those that were picked.\<close>

inductive step_reach :: "('s \<Rightarrow> task multiset \<Rightarrow> task multiset \<Rightarrow> 's \<Rightarrow> bool) \<Rightarrow> 's \<Rightarrow> task multiset \<Rightarrow> task multiset \<Rightarrow> 's \<Rightarrow> bool"
  for stp s0 where
  start: "step_reach stp s0 {#} {#} s0"
| step: "step_reach stp s0 P R s \<Longrightarrow> stp s A B s' \<Longrightarrow> step_reach stp s0 (P + A) (R + B) s'"

text \<open>Runs all of whose later states satisfy a condition.\<close>

inductive step_run :: "('s \<Rightarrow> task multiset \<Rightarrow> task multiset \<Rightarrow> 's \<Rightarrow> bool) \<Rightarrow> ('s \<Rightarrow> bool) \<Rightarrow> 's \<Rightarrow> 's \<Rightarrow> bool"
  for stp W s0 where
  start: "step_run stp W s0 s0"
| step: "step_run stp W s0 s \<Longrightarrow> stp s A B s' \<Longrightarrow> W s' \<Longrightarrow> step_run stp W s0 s'"

locale fair_policy =
  fixes stp :: "'s \<Rightarrow> task multiset \<Rightarrow> task multiset \<Rightarrow> 's \<Rightarrow> bool"
    and ok :: "'s \<Rightarrow> bool"
    and queued :: "'s \<Rightarrow> task multiset"
  assumes step_ok: "stp s A B s' \<Longrightarrow> ok s \<Longrightarrow> ok s' \<and> queued s + A = queued s' + B"
begin

lemma reach_conserves: "step_reach stp s0 P R s \<Longrightarrow> ok s0 \<Longrightarrow> ok s \<and> queued s0 + P = queued s + R"
proof (induction rule: step_reach.induct)
  case (step P R s A B s')
  then have "ok s'" "queued s + A = queued s' + B" "queued s0 + P = queued s + R"
    using step_ok [of s A B s'] by auto
  then show ?case by (metis add.assoc add.commute)
qed simp

lemma run_invariant:
  assumes "\<And>s A B s'. ok s \<Longrightarrow> I s \<Longrightarrow> stp s A B s' \<Longrightarrow> W s' \<Longrightarrow> I s'"
  shows "step_run stp W s0 s \<Longrightarrow> ok s0 \<Longrightarrow> I s0 \<Longrightarrow> ok s \<and> I s"
proof (induction rule: step_run.induct)
  case (step s A B s')
  then show ?case using step_ok [of s A B s'] assms [of s A B s'] by simp
qed simp

end

end
