(* ===== verification/Load_Weight.thy ===== *)
theory Load_Weight
  imports Prelude
begin

text \<open>
  The load weights that \<^verbatim>\<open>cfs.c\<close> and \<^verbatim>\<open>eevdf.c\<close> share: a weight with the cached inverse
  \<open>2 ^ 32 / weight\<close>, and the scaling of a time by a ratio of two weights with a multiplication and shifts.
\<close>

section \<open>Operations\<close>

record load_weight =
  weight :: u64
  inv_weight :: u32

definition WMULT_CONST :: u32 where "WMULT_CONST = NOT 0"
definition WMULT_SHIFT :: nat where "WMULT_SHIFT = 32"
definition NICE_0_LOAD :: u64 where "NICE_0_LOAD = push_bit 10 1"

definition update_inv_weight :: "load_weight \<Rightarrow> load_weight" where
  "update_inv_weight lw =
     (if inv_weight lw \<noteq> 0 then lw
      else let w = weight lw
           in if w \<ge> ucast WMULT_CONST then lw\<lparr>inv_weight := 1\<rparr>
              else if w = 0 then lw\<lparr>inv_weight := WMULT_CONST\<rparr>
              else lw\<lparr>inv_weight := ucast (ucast WMULT_CONST div w)\<rparr>)"

definition update_load_add :: "load_weight \<Rightarrow> u64 \<Rightarrow> load_weight" where
  "update_load_add lw inc = lw\<lparr>weight := weight lw + inc, inv_weight := 0\<rparr>"

definition update_load_sub :: "load_weight \<Rightarrow> u64 \<Rightarrow> load_weight" where
  "update_load_sub lw dec = lw\<lparr>weight := weight lw - dec, inv_weight := 0\<rparr>"

definition update_load_set :: "load_weight \<Rightarrow> u64 \<Rightarrow> load_weight" where
  "update_load_set lw w = lw\<lparr>weight := w, inv_weight := 0\<rparr>"

definition mul_u64_u32_shr :: "u64 \<Rightarrow> u32 \<Rightarrow> nat \<Rightarrow> u64" where
  "mul_u64_u32_shr a mul shift =
     (let al = ucast a :: u32; ah = ucast (drop_bit 32 a) :: u32;
          ret = drop_bit shift (ucast al * ucast mul)
      in if ah \<noteq> 0 then ret + push_bit (32 - shift) (ucast ah * ucast mul) else ret)"

text \<open>The loops that bring the factor below \<open>2 ^ 32\<close>. The shift does not get below zero for weights below
  \<open>2 ^ 32\<close>; there is no defined result otherwise.\<close>

function normalize :: "u64 \<Rightarrow> nat \<Rightarrow> u64 \<times> nat" where
  "normalize fct shift = (if drop_bit 32 fct \<noteq> 0 then normalize (drop_bit 1 fct) (shift - 1) else (fct, shift))"
  by pat_completeness auto

lemma unat_drop: "unat (drop_bit n x) = unat x div 2 ^ n" for x :: u64
  by (subst unat_drop_bit_eq) (simp add: drop_bit_eq_div)

lemma drop_bit_shrinks: "drop_bit 32 x \<noteq> 0 \<Longrightarrow> unat (drop_bit 1 x) < unat x" for x :: u64
proof -
  assume "drop_bit 32 x \<noteq> 0"
  then have "x \<noteq> 0" by auto
  then have "0 < unat x" by (simp add: unat_gt_0)
  then show ?thesis using unat_drop [of 1 x] by simp
qed

termination normalize
  by (relation "measure (\<lambda>(x, _). unat x)") (use drop_bit_shrinks in auto)

declare normalize.simps [simp del]

definition calc_delta :: "u64 \<Rightarrow> u64 \<Rightarrow> load_weight \<Rightarrow> u64 \<times> load_weight" where
  "calc_delta delta_exec w lw =
     (let lw = update_inv_weight lw;
          (fct, shift) = normalize w WMULT_SHIFT;
          fct = ucast (ucast fct :: u32) * ucast (inv_weight lw);
          (fct, shift) = normalize fct shift
      in (mul_u64_u32_shr delta_exec (ucast fct) shift, lw))"

definition calc_delta_fair :: "u64 \<Rightarrow> load_weight \<Rightarrow> u64 \<times> load_weight" where
  "calc_delta_fair delta lw = (if weight lw \<noteq> NICE_0_LOAD then calc_delta delta NICE_0_LOAD lw else (delta, lw))"

text \<open>Both only cache the inverse; the weight stays.\<close>

lemma weight_calc [simp]: "weight (snd (calc_delta d w lw)) = weight lw" "weight (snd (calc_delta_fair d lw)) = weight lw"
  by (simp_all add: calc_delta_fair_def calc_delta_def update_inv_weight_def Let_def split: prod.splits)

lemma weight_calcD:
  "calc_delta d w lw = (x, lw') \<Longrightarrow> weight lw' = weight lw" "calc_delta_fair d lw = (x, lw') \<Longrightarrow> weight lw' = weight lw"
  by (metis snd_conv weight_calc(1), metis snd_conv weight_calc(2))

section \<open>The result of the scaling\<close>

lemma unat_u32_u64 [simp]: "unat (ucast x :: u64) = unat x" for x :: u32
  by (simp add: unsigned_ucast_eq take_bit_nat_eq_self_iff less_trans [OF unsigned_less])

lemma unat_low_u32: "unat (ucast x :: u32) = unat x mod 2 ^ 32" for x :: u64
  by (simp add: unsigned_ucast_eq take_bit_eq_mod)

lemma unat_mul_u32: "unat (ucast x * ucast y :: u64) = unat x * unat y" for x y :: u32
proof -
  have "unat x * unat y < 2 ^ 32 * 2 ^ 32"
    using unsigned_less [of x, where ?'a = nat] unsigned_less [of y, where ?'a = nat] by (intro mult_strict_mono) auto
  then show ?thesis by (simp add: unat_word_ariths(2))
qed

lemma normalize_spec: "k \<le> shift \<Longrightarrow> unat fct < 2 ^ (32 + k) \<Longrightarrow>
    \<exists>j \<le> k. normalize fct shift = (drop_bit j fct, shift - j) \<and> unat fct div 2 ^ j < 2 ^ 32 \<and> (unat fct < 2 ^ 32 \<longrightarrow> j = 0)"
proof (induction fct shift arbitrary: k rule: normalize.induct)
  case (1 fct shift)
  show ?case
  proof (cases "drop_bit 32 fct = 0")
    case True
    then have "unat fct div 2 ^ 32 = 0" using unat_drop [of 32 fct] by simp
    then have "unat fct < 2 ^ 32" by (simp add: div_eq_0_iff)
    with True show ?thesis by (intro exI [of _ 0]) (simp add: normalize.simps [of fct shift])
  next
    case False
    then have big: "\<not> unat fct < 2 ^ 32" using unat_drop [of 32 fct] by (metis div_less unat_eq_zero)
    with 1(3) obtain l where l: "k = Suc l" by (cases k) auto
    have "(2::nat) ^ (32 + k) = 2 ^ (32 + l) * 2" using l by (simp only: add_Suc_right power_Suc mult.commute)
    then have "unat (drop_bit 1 fct) < 2 ^ (32 + l)" using 1(3) l unat_drop [of 1 fct] less_mult_imp_div_less [of "unat fct" "2 ^ (32 + l)" 2] by (simp only: power_one_right)
    moreover have "l \<le> shift - 1" using 1(2) l by simp
    ultimately obtain j where
      j: "j \<le> l" "normalize (drop_bit 1 fct) (shift - 1) = (drop_bit j (drop_bit 1 fct), shift - 1 - j)"
         "unat (drop_bit 1 fct) div 2 ^ j < 2 ^ 32" using 1(1) [OF False] by blast
    have "normalize fct shift = (drop_bit (Suc j) fct, shift - Suc j)"
      using False j(2) by (simp add: normalize.simps [of fct shift])
    moreover have "unat fct div 2 ^ Suc j < 2 ^ 32" using j(3) by (simp add: unat_drop div_mult2_eq)
    ultimately show ?thesis using j(1) l big by (intro exI [of _ "Suc j"]) auto
  qed
qed

lemma unat_add_le: "unat (x + y) \<le> unat x + unat y" for x y :: u64
  by (simp add: unat_word_ariths(1))

lemma unat_push_le: "unat (push_bit n x) \<le> unat x * 2 ^ n" for x :: u64
  by (subst unsigned_push_bit_eq) (simp add: take_bit_eq_mod push_bit_eq_mult)

text \<open>The product by parts: never above the exact quotient, and equal to it when that fits.\<close>

lemma mul_shr_split:
  fixes a m s :: nat
  assumes "s \<le> 32"
  shows "(a mod 2 ^ 32 * m) div 2 ^ s + (a div 2 ^ 32 * m) * 2 ^ (32 - s) = (a * m) div 2 ^ s"
proof -
  have p: "(2::nat) ^ 32 = 2 ^ (32 - s) * 2 ^ s" using assms by (simp flip: power_add)
  have "a * m = (a mod 2 ^ 32 + a div 2 ^ 32 * 2 ^ 32) * m" by simp
  also have "\<dots> = a mod 2 ^ 32 * m + (a div 2 ^ 32 * m * 2 ^ (32 - s)) * 2 ^ s" unfolding p by (simp add: algebra_simps)
  finally have "a * m = a mod 2 ^ 32 * m + (a div 2 ^ 32 * m * 2 ^ (32 - s)) * 2 ^ s" .
  then show ?thesis by simp
qed

lemma mul_u64_u32_shr_le: "s \<le> 32 \<Longrightarrow> unat (mul_u64_u32_shr a m s) \<le> unat a * unat m div 2 ^ s"
proof -
  assume s: "s \<le> 32"
  let ?al = "ucast a :: u32" and ?ah = "ucast (drop_bit 32 a) :: u32"
  have ah: "unat ?ah = unat a div 2 ^ 32"
    using unsigned_less [of a, where ?'a = nat] by (simp add: unat_low_u32 unat_drop less_mult_imp_div_less)
  have lo: "unat (drop_bit s (ucast ?al * ucast m :: u64)) = (unat a mod 2 ^ 32 * unat m) div 2 ^ s"
    by (simp add: unat_drop unat_mul_u32 unat_low_u32)
  have hi: "unat (push_bit (32 - s) (ucast ?ah * ucast m :: u64)) \<le> (unat a div 2 ^ 32 * unat m) * 2 ^ (32 - s)"
    using unat_push_le [of "32 - s" "ucast ?ah * ucast m"] by (simp add: unat_mul_u32 ah)
  have "unat (mul_u64_u32_shr a m s) \<le> (unat a mod 2 ^ 32 * unat m) div 2 ^ s + (unat a div 2 ^ 32 * unat m) * 2 ^ (32 - s)"
    using unat_add_le [of "drop_bit s (ucast ?al * ucast m)" "push_bit (32 - s) (ucast ?ah * ucast m)"] lo hi
    by (auto simp: mul_u64_u32_shr_def Let_def)
  then show ?thesis using mul_shr_split [OF s] by simp
qed

lemma mul_u64_u32_shr_exact:
  assumes "s \<le> 32" "unat a * unat m div 2 ^ s < 2 ^ 64"
  shows "unat (mul_u64_u32_shr a m s) = unat a * unat m div 2 ^ s"
proof -
  let ?al = "ucast a :: u32" and ?ah = "ucast (drop_bit 32 a) :: u32"
  let ?hi = "(unat a div 2 ^ 32 * unat m) * 2 ^ (32 - s)"
  have ah: "unat ?ah = unat a div 2 ^ 32"
    using unsigned_less [of a, where ?'a = nat] by (simp add: unat_low_u32 unat_drop less_mult_imp_div_less)
  have lo: "unat (drop_bit s (ucast ?al * ucast m :: u64)) = (unat a mod 2 ^ 32 * unat m) div 2 ^ s"
    by (simp add: unat_drop unat_mul_u32 unat_low_u32)
  have sum: "(unat a mod 2 ^ 32 * unat m) div 2 ^ s + ?hi < 2 ^ 64" using assms mul_shr_split [OF assms(1)] by simp
  then have "?hi < 2 ^ 64" by linarith
  then have hi: "unat (push_bit (32 - s) (ucast ?ah * ucast m :: u64)) = ?hi"
    by (subst unsigned_push_bit_eq) (simp add: take_bit_eq_mod push_bit_eq_mult unat_mul_u32 ah)
  have "unat (mul_u64_u32_shr a m s) = (unat a mod 2 ^ 32 * unat m) div 2 ^ s + ?hi"
  proof (cases "?ah = 0")
    case True
    then have "?hi = 0" using ah by simp
    with True lo show ?thesis by (simp add: mul_u64_u32_shr_def Let_def)
  next
    case False
    then have "mul_u64_u32_shr a m s = drop_bit s (ucast ?al * ucast m) + push_bit (32 - s) (ucast ?ah * ucast m)"
      by (simp add: mul_u64_u32_shr_def Let_def)
    then show ?thesis using sum by (simp only: unat_word_ariths(1) lo hi) simp
  qed
  then show ?thesis using mul_shr_split [OF assms(1)] by simp
qed

lemma inv_weight_ok:
  assumes "inv_weight lw = 0" "0 < unat (weight lw)" "unat (weight lw) < 2 ^ 32 - 1"
  shows "unat (inv_weight (update_inv_weight lw)) = (2 ^ 32 - 1) div unat (weight lw)"
proof -
  have c: "unat (ucast WMULT_CONST :: u64) = 2 ^ 32 - 1" by (simp add: WMULT_CONST_def unsigned_minus_1_eq_mask mask_eq_exp_minus_1)
  have "unat (ucast WMULT_CONST div weight lw) = (2 ^ 32 - 1) div unat (weight lw)" by (simp only: unat_div c)
  moreover have "(2 ^ 32 - 1) div unat (weight lw) < (2 ^ 32 :: nat)" by (rule le_less_trans [OF div_le_dividend]) simp
  ultimately have "unat (ucast (ucast WMULT_CONST div weight lw) :: u32) = (2 ^ 32 - 1) div unat (weight lw)"
    by (simp only: unat_low_u32 mod_less)
  moreover have "\<not> ucast WMULT_CONST \<le> weight lw" using assms(3) by (simp only: word_le_nat_alt c not_le)
  moreover have "weight lw \<noteq> 0" using assms(2) by auto
  ultimately show ?thesis using assms(1) by (simp add: update_inv_weight_def Let_def)
qed

text \<open>C33: \<^verbatim>\<open>__calc_delta\<close> on a task whose weight is a part of the total weight (the slice of a task): the
  result is the exact product with the rounded inverse, so it never exceeds the share
  \<open>delta * w / W\<close>, and falls short of it by at most one unit and a fraction \<open>W / 2 ^ 32\<close>.\<close>

theorem calc_delta_share:
  fixes delta w :: u64 and lw :: load_weight
  assumes "inv_weight lw = 0" "0 < unat w" "w \<le> weight lw" "unat (weight lw) < 2 ^ 32 - 1"
  defines "r \<equiv> unat (fst (calc_delta delta w lw))" and "W \<equiv> unat (weight lw)"
  shows "r * W \<le> unat delta * unat w \<and> unat delta * unat w * (2 ^ 32 - W) < (r + 1) * W * 2 ^ 32"
proof -
  define inv where "inv = (2 ^ 32 - 1) div W"
  have wW: "unat w \<le> W" "0 < W" "W < 2 ^ 32 - 1" using assms by (auto simp: word_le_nat_alt W_def)
  have inv: "unat (inv_weight (update_inv_weight lw)) = inv"
    using inv_weight_ok [OF assms(1)] wW by (simp add: inv_def W_def)
  have iW: "inv * W \<le> 2 ^ 32 - 1" by (simp add: inv_def)
  have p: "unat w * inv < 2 ^ 32"
  proof -
    have "unat w * inv \<le> W * inv" using wW by (intro mult_le_mono1)
    also have "W * inv = inv * W" by simp
    also have "inv * W < 2 ^ 32" by (rule le_less_trans [OF iW]) simp
    finally show ?thesis .
  qed
  have w32: "unat w < 2 ^ 32" using wW by simp
  have n1: "normalize w 32 = (w, 32)" using normalize_spec [of 0 32 w] w32 by auto
  let ?f = "ucast (ucast w :: u32) * ucast (inv_weight (update_inv_weight lw)) :: u64"
  have f: "unat ?f = unat w * inv" using w32 by (simp add: unat_mul_u32 unat_low_u32 inv)
  then have n2: "normalize ?f 32 = (?f, 32)" using normalize_spec [of 0 32 ?f] p by auto
  have m: "unat (ucast ?f :: u32) = unat w * inv" using f p by (simp add: unat_low_u32)
  have e: "fst (calc_delta delta w lw) = mul_u64_u32_shr delta (ucast ?f) 32"
    by (simp add: calc_delta_def Let_def WMULT_SHIFT_def n1 n2)
  have "unat delta * (unat w * inv) div 2 ^ 32 \<le> unat delta"
    using p by (metis div_le_mono less_imp_le mult_le_mono2 nonzero_mult_div_cancel_right power_not_zero zero_neq_numeral)
  then have r: "r = unat delta * (unat w * inv) div 2 ^ 32"
    using mul_u64_u32_shr_exact [of 32 delta "ucast ?f"] m e unsigned_less [of delta, where ?'a = nat] by (simp add: r_def)
  have "r * 2 ^ 32 \<le> unat delta * (unat w * inv)" by (simp add: r)
  then have "r * W * 2 ^ 32 \<le> unat delta * unat w * (inv * W)" by (simp add: ac_simps)
  also have "\<dots> \<le> unat delta * unat w * 2 ^ 32" using iW by (intro mult_le_mono2) linarith
  finally have 1: "r * W \<le> unat delta * unat w" by simp
  have "unat delta * (unat w * inv) < (r + 1) * 2 ^ 32"
    using dividend_less_div_times [of "2 ^ 32" "unat delta * (unat w * inv)"] by (simp add: r)
  then have a: "unat delta * (unat w * inv) * W < (r + 1) * 2 ^ 32 * W" using wW by simp
  have "2 ^ 32 - W \<le> inv * W"
    using dividend_less_div_times [of W "2 ^ 32 - 1"] wW by (simp add: inv_def mult.commute)
  then have b: "unat delta * unat w * (2 ^ 32 - W) \<le> unat delta * unat w * (inv * W)" by (rule mult_le_mono2)
  have "unat delta * unat w * (inv * W) = unat delta * (unat w * inv) * W" "(r + 1) * 2 ^ 32 * W = (r + 1) * W * 2 ^ 32"
    by (simp_all only: ac_simps)
  with a b have "unat delta * unat w * (2 ^ 32 - W) < (r + 1) * W * 2 ^ 32" by linarith
  with 1 show ?thesis by simp
qed

theorem calc_delta_share_witness:
  "unat (fst (calc_delta 50000 1024 \<lparr>weight = 4096, inv_weight = 0\<rparr>)) * 4096 \<le> 50000 * 1024"
  using calc_delta_share [of "\<lparr>weight = 4096, inv_weight = 0\<rparr>" 1024 50000] by simp

lemma calc_delta_fair_nice0: "weight lw = NICE_0_LOAD \<Longrightarrow> calc_delta_fair d lw = (d, lw)"
  by (simp add: calc_delta_fair_def)

end
