(* ===== verification/Rbtree.thy ===== *)
theory Rbtree
  imports Prelude
begin

text \<open>
  The red-black trees of \<^verbatim>\<open>utils/rbtree.c\<close> and \<^verbatim>\<open>utils/rbtree.h\<close>, plain and augmented. A node that an
  operation works on is a subtree together with the path of its ancestors, the nearest first: the path
  stands for the parent pointers. Following \<^verbatim>\<open>rb_parent\<close> takes a frame off the path, and the loops of
  \<^verbatim>\<open>__rb_insert\<close> and \<^verbatim>\<open>____rb_erase_color\<close> are recursions along it, case by case as the code has them.
  \<open>None\<close> stands for a dereferenced null pointer.

  Every node carries an augmented value (the unit value in a plain tree), which the callbacks that
  \<^verbatim>\<open>RB_DECLARE_CALLBACKS\<close> defines recompute from the values of the children by the function \<open>f\<close>.
\<close>

section \<open>Trees, paths and callbacks\<close>

datatype color = RB_RED | RB_BLACK

datatype ('a, 'b) rb_node = Lf | Nd color "('a, 'b) rb_node" 'a 'b "('a, 'b) rb_node"

datatype ('a, 'b) frame =
  InL color 'a 'b "('a, 'b) rb_node"
| InR color "('a, 'b) rb_node" 'a 'b

type_synonym ('a, 'b) path = "('a, 'b) frame list"
type_synonym ('a, 'b) compute = "'a \<Rightarrow> 'b option \<Rightarrow> 'b option \<Rightarrow> 'b"

fun rb_color :: "('a, 'b) rb_node \<Rightarrow> color" where
  "rb_color Lf = RB_BLACK"
| "rb_color (Nd c l x b r) = c"

fun aug :: "('a, 'b) rb_node \<Rightarrow> 'b option" where
  "aug Lf = None"
| "aug (Nd c l x b r) = Some b"

fun fcolor :: "('a, 'b) frame \<Rightarrow> color" where
  "fcolor (InL c x b r) = c"
| "fcolor (InR c l x b) = c"

fun fill :: "('a, 'b) rb_node \<Rightarrow> ('a, 'b) frame \<Rightarrow> ('a, 'b) rb_node" where
  "fill t (InL c x b r) = Nd c t x b r"
| "fill t (InR c l x b) = Nd c l x b t"

fun plug :: "('a, 'b) rb_node \<Rightarrow> ('a, 'b) path \<Rightarrow> ('a, 'b) rb_node" where
  "plug t [] = t"
| "plug t (p # ps) = plug (fill t p) ps"

text \<open>\<^verbatim>\<open>rb_set_parent_color\<close> on a node that is there.\<close>

fun paint :: "color \<Rightarrow> ('a, 'b) rb_node \<Rightarrow> ('a, 'b) rb_node" where
  "paint c Lf = Lf"
| "paint c (Nd d l x b r) = Nd c l x b r"

text \<open>The callback \<^verbatim>\<open>propagate\<close>: recompute the values along the path, up to the first that does not change.
  The argument is the value of the node below the path.\<close>

fun rb_propagate :: "('a, 'b) compute \<Rightarrow> 'b option \<Rightarrow> ('a, 'b) path \<Rightarrow> ('a, 'b) path" where
  "rb_propagate f v [] = []"
| "rb_propagate f v (InL c x b r # ps) =
     (let b' = f x v (aug r) in if b' = b then InL c x b r # ps else InL c x b' r # rb_propagate f (Some b') ps)"
| "rb_propagate f v (InR c l x b # ps) =
     (let b' = f x (aug l) v in if b' = b then InR c l x b # ps else InR c l x b' # rb_propagate f (Some b') ps)"

section \<open>Insertion\<close>

text \<open>Rotations: the new top takes the color and, by the callback \<^verbatim>\<open>rotate\<close>, the augmented value of the
  old one; the value of the old top is computed anew.\<close>

fun rotate_right ::
  "('a, 'b) compute \<Rightarrow> color \<Rightarrow> ('a, 'b) rb_node \<Rightarrow> color \<Rightarrow> 'a \<Rightarrow> 'b \<Rightarrow> ('a, 'b) rb_node \<Rightarrow> ('a, 'b) rb_node" where
  "rotate_right f col (Nd pc a px pb tmp) gc gx gb u =
     Nd gc a px gb (Nd col (paint RB_BLACK tmp) gx (f gx (aug tmp) (aug u)) u)"
| "rotate_right f col Lf gc gx gb u = Lf"

fun rotate_left ::
  "('a, 'b) compute \<Rightarrow> color \<Rightarrow> ('a, 'b) rb_node \<Rightarrow> color \<Rightarrow> 'a \<Rightarrow> 'b \<Rightarrow> ('a, 'b) rb_node \<Rightarrow> ('a, 'b) rb_node" where
  "rotate_left f col (Nd pc tmp px pb a) gc gx gb u =
     Nd gc (Nd col u gx (f gx (aug u) (aug tmp)) (paint RB_BLACK tmp)) px gb a"
| "rotate_left f col Lf gc gx gb u = Lf"

text \<open>Case 2 of the insertion: when the node is the inner child of its parent, rotate at the parent.\<close>

fun insert_case2_left :: "('a, 'b) compute \<Rightarrow> ('a, 'b) rb_node \<Rightarrow> ('a, 'b) frame \<Rightarrow> ('a, 'b) rb_node" where
  "insert_case2_left f n (InL pc px pb pr) = Nd pc n px pb pr"
| "insert_case2_left f (Nd nc nl nx nb nr) (InR pc pl px pb) =
     Nd nc (Nd RB_RED pl px (f px (aug pl) (aug nl)) (paint RB_BLACK nl)) nx pb nr"
| "insert_case2_left f Lf (InR pc pl px pb) = Lf"

fun insert_case2_right :: "('a, 'b) compute \<Rightarrow> ('a, 'b) rb_node \<Rightarrow> ('a, 'b) frame \<Rightarrow> ('a, 'b) rb_node" where
  "insert_case2_right f n (InR pc pl px pb) = Nd pc pl px pb n"
| "insert_case2_right f (Nd nc nl nx nb nr) (InL pc px pb pr) =
     Nd nc nl nx pb (Nd RB_RED (paint RB_BLACK nr) px (f px (aug nr) (aug pr)) pr)"
| "insert_case2_right f Lf (InL pc px pb pr) = Lf"

text \<open>\<^verbatim>\<open>__rb_insert\<close>: the red node \<open>n\<close>, its parent \<open>p\<close>, its grandparent, and the ancestors of that.\<close>

fun rb_insert :: "('a, 'b) compute \<Rightarrow> ('a, 'b) rb_node \<Rightarrow> ('a, 'b) path \<Rightarrow> ('a, 'b) rb_node option" where
  "rb_insert f n [] = Some (paint RB_BLACK n)"
| "rb_insert f n [p] = (if fcolor p = RB_BLACK then Some (plug n [p]) else None)"
| "rb_insert f n (p # InL gc gx gb u # gs) =
     (if fcolor p = RB_BLACK then Some (plug n (p # InL gc gx gb u # gs))
      else if rb_color u = RB_RED
      then rb_insert f (Nd RB_RED (paint RB_BLACK (fill n p)) gx gb (paint RB_BLACK u)) gs
      else Some (plug (rotate_right f RB_RED (insert_case2_left f n p) gc gx gb u) gs))"
| "rb_insert f n (p # InR gc u gx gb # gs) =
     (if fcolor p = RB_BLACK then Some (plug n (p # InR gc u gx gb # gs))
      else if rb_color u = RB_RED
      then rb_insert f (Nd RB_RED (paint RB_BLACK u) gx gb (paint RB_BLACK (fill n p))) gs
      else Some (plug (rotate_left f RB_RED (insert_case2_right f n p) gc gx gb u) gs))"

section \<open>Removal\<close>

text \<open>Cases 2 to 4 of \<^verbatim>\<open>____rb_erase_color\<close>, for a node \<open>n\<close> that is the left child of its parent and
  whose sibling is black. \<open>Inl\<close>: the subtree of the parent is finished; \<open>Inr\<close>: the loop goes on at the
  parent.\<close>

fun erase_cases_left ::
  "('a, 'b) compute \<Rightarrow> ('a, 'b) rb_node \<Rightarrow> color \<Rightarrow> 'a \<Rightarrow> 'b \<Rightarrow> ('a, 'b) rb_node
     \<Rightarrow> (('a, 'b) rb_node + ('a, 'b) rb_node) option" where
  "erase_cases_left f n pc px pb Lf = None"
| "erase_cases_left f n pc px pb (Nd sc sl sx sb sr) =
     (if rb_color sr = RB_BLACK then
        (case sl of
           Nd RB_RED a y yb c \<Rightarrow>
             Some (Inl (Nd pc (Nd RB_BLACK n px (f px (aug n) (aug a)) a) y pb
               (Nd RB_BLACK (paint RB_BLACK c) sx (f sx (aug c) (aug sr)) sr)))
         | _ \<Rightarrow> let s = Nd RB_RED sl sx sb sr
               in if pc = RB_RED then Some (Inl (Nd RB_BLACK n px pb s)) else Some (Inr (Nd pc n px pb s)))
      else
        Some (Inl (Nd pc (Nd RB_BLACK n px (f px (aug n) (aug sl)) sl) sx pb (paint RB_BLACK sr))))"

fun erase_cases_right ::
  "('a, 'b) compute \<Rightarrow> ('a, 'b) rb_node \<Rightarrow> color \<Rightarrow> 'a \<Rightarrow> 'b \<Rightarrow> ('a, 'b) rb_node
     \<Rightarrow> (('a, 'b) rb_node + ('a, 'b) rb_node) option" where
  "erase_cases_right f n pc px pb Lf = None"
| "erase_cases_right f n pc px pb (Nd sc sl sx sb sr) =
     (if rb_color sl = RB_BLACK then
        (case sr of
           Nd RB_RED c y yb a \<Rightarrow>
             Some (Inl (Nd pc (Nd RB_BLACK sl sx (f sx (aug sl) (aug c)) (paint RB_BLACK c)) y pb
               (Nd RB_BLACK a px (f px (aug a) (aug n)) n)))
         | _ \<Rightarrow> let s = Nd RB_RED sl sx sb sr
               in if pc = RB_RED then Some (Inl (Nd RB_BLACK s px pb n)) else Some (Inr (Nd pc s px pb n)))
      else
        Some (Inl (Nd pc (paint RB_BLACK sl) sx pb (Nd RB_BLACK sr px (f px (aug sr) (aug n)) n))))"

text \<open>The loop: Case 1 rotates a red sibling up; the parent is then red, so that the other cases end.\<close>

fun rb_erase_color :: "('a, 'b) compute \<Rightarrow> ('a, 'b) rb_node \<Rightarrow> ('a, 'b) path \<Rightarrow> ('a, 'b) rb_node option" where
  "rb_erase_color f n [] = Some n"
| "rb_erase_color f n (InL pc px pb s # ps) =
     (case s of
        Nd RB_RED sl sx sb sr \<Rightarrow>
          (case erase_cases_left f n RB_RED px (f px (aug n) (aug sl)) (paint RB_BLACK sl) of
             Some (Inl t) \<Rightarrow> Some (plug (Nd pc t sx pb sr) ps)
           | _ \<Rightarrow> None)
      | _ \<Rightarrow>
          (case erase_cases_left f n pc px pb s of
             Some (Inl t) \<Rightarrow> Some (plug t ps)
           | Some (Inr t) \<Rightarrow> rb_erase_color f t ps
           | None \<Rightarrow> None))"
| "rb_erase_color f n (InR pc s px pb # ps) =
     (case s of
        Nd RB_RED sl sx sb sr \<Rightarrow>
          (case erase_cases_right f n RB_RED px (f px (aug sr) (aug n)) (paint RB_BLACK sr) of
             Some (Inl t) \<Rightarrow> Some (plug (Nd pc sl sx pb t) ps)
           | _ \<Rightarrow> None)
      | _ \<Rightarrow>
          (case erase_cases_right f n pc px pb s of
             Some (Inl t) \<Rightarrow> Some (plug t ps)
           | Some (Inr t) \<Rightarrow> rb_erase_color f t ps
           | None \<Rightarrow> None))"

text \<open>The leftmost node below \<open>r\<close>: its color, value and right child, and the path from it up to \<open>r\<close>.\<close>

fun leftmost_split ::
  "('a, 'b) rb_node \<Rightarrow> ('a, 'b) path \<Rightarrow> (color \<times> 'a \<times> ('a, 'b) rb_node \<times> ('a, 'b) path) option" where
  "leftmost_split Lf ps = None"
| "leftmost_split (Nd c Lf x b r) ps = Some (c, x, r, ps)"
| "leftmost_split (Nd c l x b r) ps = leftmost_split l (InL c x b r # ps)"

definition path_aug_top :: "'b option \<Rightarrow> ('a, 'b) path \<Rightarrow> 'b option" where
  "path_aug_top v ps = (if ps = [] then v else aug (fill Lf (last ps)))"

text \<open>\<^verbatim>\<open>__rb_erase_augmented\<close> on the node \<open>Nd c l x b r\<close>: the subtree that takes the place of the node that
  is cut out, the path above it, and whether to rebalance there.\<close>

definition rb_erase_node ::
  "('a, 'b) compute \<Rightarrow> color \<Rightarrow> ('a, 'b) rb_node \<Rightarrow> 'b \<Rightarrow> ('a, 'b) rb_node \<Rightarrow> ('a, 'b) path
     \<Rightarrow> (('a, 'b) rb_node \<times> ('a, 'b) path \<times> bool) option" where
  "rb_erase_node f c l b r ps =
     (if l = Lf then
        (if r \<noteq> Lf then Some (paint c r, rb_propagate f (aug r) ps, False)
         else Some (Lf, rb_propagate f None ps, c = RB_BLACK \<and> ps \<noteq> []))
      else if r = Lf then Some (paint c l, rb_propagate f (aug l) ps, False)
      else case leftmost_split r [] of
        None \<Rightarrow> None
      | Some (sc, s, child2, inner) \<Rightarrow>
          let inner = rb_propagate f (aug child2) inner;
              outer = rb_propagate f (path_aug_top (aug child2) inner) (InR c l s b # ps)
          in Some (paint RB_BLACK child2, inner @ outer, child2 = Lf \<and> sc = RB_BLACK))"

text \<open>The node with the address \<open>x\<close>, and its ancestors.\<close>

fun locate :: "'a \<Rightarrow> ('a, 'b) rb_node \<Rightarrow> ('a, 'b) path \<Rightarrow> (('a, 'b) rb_node \<times> ('a, 'b) path) option" where
  "locate x Lf ps = None"
| "locate x (Nd c l y b r) ps =
     (if x = y then Some (Nd c l y b r, ps)
      else case locate x l (InL c y b r # ps) of
        Some z \<Rightarrow> Some z
      | None \<Rightarrow> locate x r (InR c l y b # ps))"

definition rb_erase_augmented :: "('a, 'b) compute \<Rightarrow> 'a \<Rightarrow> ('a, 'b) rb_node \<Rightarrow> ('a, 'b) rb_node option" where
  "rb_erase_augmented f x t =
     (case locate x t [] of
        Some (Nd c l y b r, ps) \<Rightarrow>
          (case rb_erase_node f c l b r ps of
             Some (n, ps, rebalance) \<Rightarrow> if rebalance then rb_erase_color f n ps else Some (plug n ps)
           | None \<Rightarrow> None)
      | _ \<Rightarrow> None)"

section \<open>Traversal and the cached root\<close>

fun rb_first :: "('a, 'b) rb_node \<Rightarrow> 'a option" where
  "rb_first Lf = None"
| "rb_first (Nd c l x b r) = (if l = Lf then Some x else rb_first l)"

fun rb_last :: "('a, 'b) rb_node \<Rightarrow> 'a option" where
  "rb_last Lf = None"
| "rb_last (Nd c l x b r) = (if r = Lf then Some x else rb_last r)"

fun up_from_right :: "('a, 'b) path \<Rightarrow> 'a option" where
  "up_from_right [] = None"
| "up_from_right (InR c l x b # ps) = up_from_right ps"
| "up_from_right (InL c x b r # ps) = Some x"

fun up_from_left :: "('a, 'b) path \<Rightarrow> 'a option" where
  "up_from_left [] = None"
| "up_from_left (InL c x b r # ps) = up_from_left ps"
| "up_from_left (InR c l x b # ps) = Some x"

definition rb_next :: "'a \<Rightarrow> ('a, 'b) rb_node \<Rightarrow> 'a option" where
  "rb_next x t =
     (case locate x t [] of
        Some (Nd c l y b r, ps) \<Rightarrow> if r \<noteq> Lf then rb_first r else up_from_right ps
      | _ \<Rightarrow> None)"

definition rb_prev :: "'a \<Rightarrow> ('a, 'b) rb_node \<Rightarrow> 'a option" where
  "rb_prev x t =
     (case locate x t [] of
        Some (Nd c l y b r, ps) \<Rightarrow> if l \<noteq> Lf then rb_last l else up_from_left ps
      | _ \<Rightarrow> None)"

record ('a, 'b) rb_root_cached =
  rb_root :: "('a, 'b) rb_node"
  rb_leftmost :: "'a option"

definition RB_ROOT_CACHED :: "('a, 'b) rb_root_cached" where
  "RB_ROOT_CACHED = \<lparr>rb_root = Lf, rb_leftmost = None\<rparr>"

abbreviation rb_first_cached :: "('a, 'b) rb_root_cached \<Rightarrow> 'a option" where
  "rb_first_cached \<equiv> rb_leftmost"

text \<open>The search for the place of a new node: its path, and whether it is the new leftmost node.\<close>

fun rb_descend ::
  "('a \<Rightarrow> 'a \<Rightarrow> bool) \<Rightarrow> 'a \<Rightarrow> ('a, 'b) rb_node \<Rightarrow> ('a, 'b) path \<Rightarrow> bool \<Rightarrow> ('a, 'b) path \<times> bool" where
  "rb_descend lt x Lf ps lm = (ps, lm)"
| "rb_descend lt x (Nd c l y b r) ps lm =
     (if lt x y then rb_descend lt x l (InL c y b r # ps) lm
      else rb_descend lt x r (InR c l y b # ps) False)"

definition rb_add_augmented_cached ::
  "('a, 'b) compute \<Rightarrow> ('a \<Rightarrow> 'a \<Rightarrow> bool) \<Rightarrow> 'a \<Rightarrow> 'b \<Rightarrow> ('a, 'b) rb_root_cached \<Rightarrow> ('a, 'b) rb_root_cached option" where
  "rb_add_augmented_cached f lt x bx root =
     (let (ps, lm) = rb_descend lt x (rb_root root) [] True;
          ps = rb_propagate f (Some bx) ps;
          root = (if lm then root\<lparr>rb_leftmost := Some x\<rparr> else root)
      in map_option (\<lambda>t. root\<lparr>rb_root := t\<rparr>) (rb_insert f (Nd RB_RED Lf x bx Lf) ps))"

definition rb_erase_augmented_cached ::
  "('a, 'b) compute \<Rightarrow> 'a \<Rightarrow> ('a, 'b) rb_root_cached \<Rightarrow> ('a, 'b) rb_root_cached option" where
  "rb_erase_augmented_cached f x root =
     (let root = (if rb_leftmost root = Some x then root\<lparr>rb_leftmost := rb_next x (rb_root root)\<rparr> else root)
      in map_option (\<lambda>t. root\<lparr>rb_root := t\<rparr>) (rb_erase_augmented f x (rb_root root)))"

text \<open>The plain trees use the empty callbacks.\<close>

definition dummy_compute :: "('a, unit) compute" where
  "dummy_compute x a b = ()"

definition rb_add_cached ::
  "('a \<Rightarrow> 'a \<Rightarrow> bool) \<Rightarrow> 'a \<Rightarrow> ('a, unit) rb_root_cached \<Rightarrow> ('a, unit) rb_root_cached option" where
  "rb_add_cached lt x root = rb_add_augmented_cached dummy_compute lt x () root"

definition rb_erase_cached ::
  "'a \<Rightarrow> ('a, unit) rb_root_cached \<Rightarrow> ('a, unit) rb_root_cached option" where
  "rb_erase_cached x root = rb_erase_augmented_cached dummy_compute x root"

section \<open>Order and balance\<close>

fun inorder :: "('a, 'b) rb_node \<Rightarrow> 'a list" where
  "inorder Lf = []"
| "inorder (Nd c l x b r) = inorder l @ x # inorder r"

fun before :: "('a, 'b) path \<Rightarrow> 'a list" where
  "before [] = []"
| "before (InL c x b r # ps) = before ps"
| "before (InR c l x b # ps) = before ps @ inorder l @ [x]"

fun behind :: "('a, 'b) path \<Rightarrow> 'a list" where
  "behind [] = []"
| "behind (InL c x b r # ps) = x # inorder r @ behind ps"
| "behind (InR c l x b # ps) = behind ps"

text \<open>The number of black nodes on the leftmost way down; all ways have the same number; no red node has
  a red child.\<close>

fun bheight :: "('a, 'b) rb_node \<Rightarrow> nat" where
  "bheight Lf = 0"
| "bheight (Nd c l x b r) = bheight l + (if c = RB_BLACK then 1 else 0)"

fun bal :: "('a, 'b) rb_node \<Rightarrow> bool" where
  "bal Lf \<longleftrightarrow> True"
| "bal (Nd c l x b r) \<longleftrightarrow> bal l \<and> bal r \<and> bheight l = bheight r"

fun redok :: "('a, 'b) rb_node \<Rightarrow> bool" where
  "redok Lf \<longleftrightarrow> True"
| "redok (Nd c l x b r) \<longleftrightarrow> redok l \<and> redok r \<and> (c = RB_RED \<longrightarrow> rb_color l = RB_BLACK \<and> rb_color r = RB_BLACK)"

text \<open>Properties 2, 4 and 5 of the comment in \<^verbatim>\<open>rbtree.c\<close>.\<close>

definition rb_inv :: "('a, 'b) rb_node \<Rightarrow> bool" where
  "rb_inv t \<longleftrightarrow> rb_color t = RB_BLACK \<and> bal t \<and> redok t"

text \<open>The same for a path: it expects below it a tree of black height \<open>n\<close> and of color \<open>k\<close>.\<close>

fun path_bal :: "nat \<Rightarrow> ('a, 'b) path \<Rightarrow> bool" where
  "path_bal n [] \<longleftrightarrow> True"
| "path_bal n (InL c x b r # ps) \<longleftrightarrow> bal r \<and> bheight r = n \<and> path_bal (n + (if c = RB_BLACK then 1 else 0)) ps"
| "path_bal n (InR c l x b # ps) \<longleftrightarrow> bal l \<and> bheight l = n \<and> path_bal (n + (if c = RB_BLACK then 1 else 0)) ps"

fun path_red :: "color \<Rightarrow> ('a, 'b) path \<Rightarrow> bool" where
  "path_red k [] \<longleftrightarrow> k = RB_BLACK"
| "path_red k (InL c x b r # ps) \<longleftrightarrow>
     redok r \<and> (c = RB_RED \<longrightarrow> k = RB_BLACK \<and> rb_color r = RB_BLACK) \<and> path_red c ps"
| "path_red k (InR c l x b # ps) \<longleftrightarrow>
     redok l \<and> (c = RB_RED \<longrightarrow> k = RB_BLACK \<and> rb_color l = RB_BLACK) \<and> path_red c ps"

lemma color_cases: "c \<noteq> RB_RED \<longleftrightarrow> c = RB_BLACK" "c \<noteq> RB_BLACK \<longleftrightarrow> c = RB_RED"
  by (cases c; simp)+

lemma inorder_plug: "inorder (plug t ps) = before ps @ inorder t @ behind ps"
  by (induction ps arbitrary: t rule: before.induct) auto

lemma plug_append: "plug t (ps @ qs) = plug (plug t ps) qs"
  by (induction ps arbitrary: t) auto

lemma inv_plug: "bal (plug t ps) \<and> redok (plug t ps) \<and> rb_color (plug t ps) = RB_BLACK \<longleftrightarrow>
    bal t \<and> redok t \<and> path_bal (bheight t) ps \<and> path_red (rb_color t) ps"
proof (induction ps arbitrary: t)
  case (Cons p ps)
  then show ?case by (cases p) (auto simp: Cons.IH)
qed auto

lemma rb_inv_plug: "rb_inv (plug t ps) \<longleftrightarrow> bal t \<and> redok t \<and> path_bal (bheight t) ps \<and> path_red (rb_color t) ps"
  using inv_plug [of t ps] by (auto simp: rb_inv_def)

lemma path_red_black: "path_red k ps \<Longrightarrow> path_red RB_BLACK ps"
  by (cases ps rule: before.cases) auto

lemma paint_simps [simp]:
  "inorder (paint c t) = inorder t" "aug (paint c t) = aug t" "bal (paint c t) = bal t"
  "redok t \<Longrightarrow> redok (paint RB_BLACK t)"
  "rb_color (paint RB_BLACK t) = RB_BLACK" "paint c t = Lf \<longleftrightarrow> t = Lf"
  by (cases t; simp)+

lemma bheight_paint_black: "bheight (paint RB_BLACK t) = (if rb_color t = RB_RED then Suc (bheight t) else bheight t)"
  by (cases t) (auto simp: color_cases)

lemma paint_black_id: "rb_color t = RB_BLACK \<Longrightarrow> paint RB_BLACK t = t"
  by (cases t) auto

lemma propagate_keeps [simp]:
  "before (rb_propagate f v ps) = before ps" "behind (rb_propagate f v ps) = behind ps"
  "path_bal n (rb_propagate f v ps) = path_bal n ps" "path_red k (rb_propagate f v ps) = path_red k ps"
  "rb_propagate f v ps = [] \<longleftrightarrow> ps = []"
  by (induction f v ps arbitrary: n k rule: rb_propagate.induct) (auto simp: Let_def)

lemma before_append: "before (ps @ qs) = before qs @ before ps"
  by (induction ps rule: before.induct) auto

lemma behind_append: "behind (ps @ qs) = behind ps @ behind qs"
  by (induction ps rule: behind.induct) auto

lemma plug_inv: "bal t \<Longrightarrow> redok t \<Longrightarrow> path_bal (bheight t) ps \<Longrightarrow> path_red (rb_color t) ps \<Longrightarrow> rb_inv (plug t ps)"
  by (simp add: rb_inv_plug)

text \<open>Insertion: a red node below a path that would take a black one.\<close>

lemma rb_insert_ok:
  assumes "rb_color n = RB_RED" "bal n" "redok n" "path_bal (bheight n) ps" "path_red RB_BLACK ps"
  shows "\<exists>t. rb_insert f n ps = Some t \<and> rb_inv t \<and> inorder t = before ps @ inorder n @ behind ps"
  using assms
proof (induction f n ps rule: rb_insert.induct)
  case (1 f n)
  then show ?case by (simp add: rb_inv_def)
next
  case (2 f n p)
  then have "fcolor p = RB_BLACK" by (cases p) (auto simp: color_cases)
  then have "rb_inv (plug n [p])" using 2 by (intro plug_inv) (cases p; auto)+
  with \<open>fcolor p = RB_BLACK\<close> show ?case using inorder_plug [of n "[p]"] by simp
next
  case (3 f n p gc gx gb u gs)
  let ?ps = "p # InL gc gx gb u # gs"
  consider (black) "fcolor p = RB_BLACK" | (flip) "fcolor p = RB_RED" "rb_color u = RB_RED"
    | (rot) "fcolor p = RB_RED" "rb_color u = RB_BLACK" by (cases "fcolor p"; cases "rb_color u") auto
  then show ?case
  proof cases
    case black
    then have "rb_inv (plug n ?ps)" using 3(2-) by (intro plug_inv) (cases p; auto)+
    with black show ?thesis using inorder_plug [of n ?ps] by simp
  next
    case flip
    let ?n = "Nd RB_RED (paint RB_BLACK (fill n p)) gx gb (paint RB_BLACK u)"
    have "rb_color ?n = RB_RED" "bal ?n" "redok ?n" "path_bal (bheight ?n) gs" "path_red RB_BLACK gs"
      using 3(2-) flip by (cases p; auto simp: bheight_paint_black color_cases)+
    from 3(1) [OF _ _ this] flip 3(2-) show ?thesis by (cases p) (auto simp: color_cases)
  next
    case rot
    obtain nl nx nb nr where n: "n = Nd RB_RED nl nx nb nr" using 3(2) by (cases n) auto
    let ?t = "rotate_right f RB_RED (insert_case2_left f n p) gc gx gb u"
    have "bal ?t" "redok ?t" "path_bal (bheight ?t) gs" "path_red (rb_color ?t) gs"
      using 3(2-) rot n by (cases p; auto simp: color_cases paint_black_id)+
    then have "rb_inv (plug ?t gs)" by (rule plug_inv)
    moreover have "inorder (plug ?t gs) = before ?ps @ inorder n @ behind ?ps"
      unfolding inorder_plug using n by (cases p) auto
    ultimately show ?thesis using rot by simp
  qed
next
  case (4 f n p gc u gx gb gs)
  let ?ps = "p # InR gc u gx gb # gs"
  consider (black) "fcolor p = RB_BLACK" | (flip) "fcolor p = RB_RED" "rb_color u = RB_RED"
    | (rot) "fcolor p = RB_RED" "rb_color u = RB_BLACK" by (cases "fcolor p"; cases "rb_color u") auto
  then show ?case
  proof cases
    case black
    then have "rb_inv (plug n ?ps)" using 4(2-) by (intro plug_inv) (cases p; auto)+
    with black show ?thesis using inorder_plug [of n ?ps] by simp
  next
    case flip
    let ?n = "Nd RB_RED (paint RB_BLACK u) gx gb (paint RB_BLACK (fill n p))"
    have "rb_color ?n = RB_RED" "bal ?n" "redok ?n" "path_bal (bheight ?n) gs" "path_red RB_BLACK gs"
      using 4(2-) flip by (cases p; auto simp: bheight_paint_black color_cases)+
    from 4(1) [OF _ _ this] flip 4(2-) show ?thesis by (cases p) (auto simp: color_cases)
  next
    case rot
    obtain nl nx nb nr where n: "n = Nd RB_RED nl nx nb nr" using 4(2) by (cases n) auto
    let ?t = "rotate_left f RB_RED (insert_case2_right f n p) gc gx gb u"
    have "bal ?t" "redok ?t" "path_bal (bheight ?t) gs" "path_red (rb_color ?t) gs"
      using 4(2-) rot n by (cases p; auto simp: color_cases paint_black_id)+
    then have "rb_inv (plug ?t gs)" by (rule plug_inv)
    moreover have "inorder (plug ?t gs) = before ?ps @ inorder n @ behind ?ps"
      unfolding inorder_plug using n by (cases p) auto
    ultimately show ?thesis using rot by simp
  qed
qed

text \<open>Removal: cases 2 to 4 on a subtree that lacks one black node on the side of \<open>n\<close>.\<close>

lemma erase_cases_left_ok:
  assumes "bal n" "redok n" "rb_color n = RB_BLACK" "bal s" "redok s" "rb_color s = RB_BLACK" "bheight s = Suc (bheight n)"
  shows "\<exists>r. erase_cases_left f n pc px pb s = Some r \<and>
    (case r of
       Inl t \<Rightarrow> bal t \<and> redok t \<and> bheight t = Suc (bheight n) + (if pc = RB_BLACK then 1 else 0) \<and>
         (pc = RB_BLACK \<longrightarrow> rb_color t = RB_BLACK) \<and> inorder t = inorder n @ px # inorder s
     | Inr t \<Rightarrow> pc = RB_BLACK \<and> bal t \<and> redok t \<and> rb_color t = RB_BLACK \<and> bheight t = Suc (bheight n) \<and>
         inorder t = inorder n @ px # inorder s)"
proof -
  obtain sl sx sb sr where s: "s = Nd RB_BLACK sl sx sb sr" using assms by (cases s) auto
  show ?thesis
  proof (cases "rb_color sr")
    case RB_RED
    then show ?thesis using assms s by (auto simp: bheight_paint_black color_cases)
  next
    case RB_BLACK
    show ?thesis
    proof (cases "rb_color sl")
      case RB_RED
      then obtain a y yb c where "sl = Nd RB_RED a y yb c" by (cases sl) auto
      then show ?thesis using assms s RB_BLACK by (auto simp: paint_black_id)
    next
      case 2: RB_BLACK
      then show ?thesis using assms s RB_BLACK
        by (cases sl; cases pc) (auto simp: Let_def split: color.splits)
    qed
  qed
qed

lemma erase_cases_right_ok:
  assumes "bal n" "redok n" "rb_color n = RB_BLACK" "bal s" "redok s" "rb_color s = RB_BLACK" "bheight s = Suc (bheight n)"
  shows "\<exists>r. erase_cases_right f n pc px pb s = Some r \<and>
    (case r of
       Inl t \<Rightarrow> bal t \<and> redok t \<and> bheight t = Suc (bheight n) + (if pc = RB_BLACK then 1 else 0) \<and>
         (pc = RB_BLACK \<longrightarrow> rb_color t = RB_BLACK) \<and> inorder t = inorder s @ px # inorder n
     | Inr t \<Rightarrow> pc = RB_BLACK \<and> bal t \<and> redok t \<and> rb_color t = RB_BLACK \<and> bheight t = Suc (bheight n) \<and>
         inorder t = inorder s @ px # inorder n)"
proof -
  obtain sl sx sb sr where s: "s = Nd RB_BLACK sl sx sb sr" using assms by (cases s) auto
  show ?thesis
  proof (cases "rb_color sl")
    case RB_RED
    then show ?thesis using assms s by (auto simp: bheight_paint_black color_cases)
  next
    case RB_BLACK
    show ?thesis
    proof (cases "rb_color sr")
      case RB_RED
      then obtain a y yb c where "sr = Nd RB_RED a y yb c" by (cases sr) auto
      then show ?thesis using assms s RB_BLACK by (auto simp: paint_black_id)
    next
      case 2: RB_BLACK
      then show ?thesis using assms s RB_BLACK
        by (cases sr; cases pc) (auto simp: Let_def split: color.splits)
    qed
  qed
qed

lemma rb_erase_color_ok:
  assumes "rb_color n = RB_BLACK" "bal n" "redok n" "path_bal (Suc (bheight n)) ps" "path_red RB_BLACK ps"
  shows "\<exists>t. rb_erase_color f n ps = Some t \<and> rb_inv t \<and> inorder t = before ps @ inorder n @ behind ps"
  using assms
proof (induction f n ps rule: rb_erase_color.induct)
  case (1 f n)
  then show ?case by (simp add: rb_inv_def)
next
  case (2 f n pc px pb s ps)
  then obtain sc sl sx sb sr where s: "s = Nd sc sl sx sb sr" by (cases s) auto
  show ?case
  proof (cases sc)
    case RB_RED
    have sl: "paint RB_BLACK sl = sl" "bal sl" "redok sl" "rb_color sl = RB_BLACK" "bheight sl = Suc (bheight n)" "pc = RB_BLACK"
      using 2(3-) s RB_RED by (auto simp: paint_black_id color_cases)
    from erase_cases_left_ok [OF 2(4,5,3) sl(2-5), of f RB_RED px "f px (aug n) (aug sl)"]
    obtain t where t: "erase_cases_left f n RB_RED px (f px (aug n) (aug sl)) sl = Some (Inl t)"
        "bal t" "redok t" "bheight t = Suc (bheight n)" "inorder t = inorder n @ px # inorder sl"
      by (elim exE conjE, rename_tac r, case_tac r) auto
    have "rb_inv (plug (Nd pc t sx pb sr) ps)" using 2(3-) s RB_RED sl t by (intro plug_inv) auto
    then show ?thesis using t sl s RB_RED by (auto simp: inorder_plug)
  next
    case RB_BLACK
    then have "rb_erase_color f n (InL pc px pb s # ps) = (case erase_cases_left f n pc px pb s of
        Some (Inl t) \<Rightarrow> Some (plug t ps) | Some (Inr t) \<Rightarrow> rb_erase_color f t ps | None \<Rightarrow> None)"
      using s by simp
    moreover from erase_cases_left_ok [of n s f pc px pb] 2(3-) s RB_BLACK obtain r where
      r: "erase_cases_left f n pc px pb s = Some r" "case r of
         Inl t \<Rightarrow> bal t \<and> redok t \<and> bheight t = Suc (bheight n) + (if pc = RB_BLACK then 1 else 0) \<and>
           (pc = RB_BLACK \<longrightarrow> rb_color t = RB_BLACK) \<and> inorder t = inorder n @ px # inorder s
       | Inr t \<Rightarrow> pc = RB_BLACK \<and> bal t \<and> redok t \<and> rb_color t = RB_BLACK \<and> bheight t = Suc (bheight n) \<and>
           inorder t = inorder n @ px # inorder s" by auto
    ultimately show ?thesis
    proof (cases r)
      case (Inl t)
      then have "rb_inv (plug t ps)"
        using r 2(3-) by (cases pc; cases "rb_color t"; intro plug_inv) (auto intro: path_red_black)
      with Inl r show ?thesis using s RB_BLACK by (auto simp: inorder_plug)
    next
      case (Inr t)
      with r 2(3-) 2(2) [of RB_BLACK sl sx sb sr "Inr t" t] s RB_BLACK show ?thesis by auto
    qed
  qed
next
  case (3 f n pc s px pb ps)
  then obtain sc sl sx sb sr where s: "s = Nd sc sl sx sb sr" by (cases s) auto
  show ?case
  proof (cases sc)
    case RB_RED
    have sr: "paint RB_BLACK sr = sr" "bal sr" "redok sr" "rb_color sr = RB_BLACK" "bheight sr = Suc (bheight n)" "pc = RB_BLACK"
      using 3(3-) s RB_RED by (auto simp: paint_black_id color_cases)
    from erase_cases_right_ok [OF 3(4,5,3) sr(2-5), of f RB_RED px "f px (aug sr) (aug n)"]
    obtain t where t: "erase_cases_right f n RB_RED px (f px (aug sr) (aug n)) sr = Some (Inl t)"
        "bal t" "redok t" "bheight t = Suc (bheight n)" "inorder t = inorder sr @ px # inorder n"
      by (elim exE conjE, rename_tac r, case_tac r) auto
    have "rb_inv (plug (Nd pc sl sx pb t) ps)" using 3(3-) s RB_RED sr t by (intro plug_inv) auto
    then show ?thesis using t sr s RB_RED by (auto simp: inorder_plug)
  next
    case RB_BLACK
    then have "rb_erase_color f n (InR pc s px pb # ps) = (case erase_cases_right f n pc px pb s of
        Some (Inl t) \<Rightarrow> Some (plug t ps) | Some (Inr t) \<Rightarrow> rb_erase_color f t ps | None \<Rightarrow> None)"
      using s by simp
    moreover from erase_cases_right_ok [of n s f pc px pb] 3(3-) s RB_BLACK obtain r where
      r: "erase_cases_right f n pc px pb s = Some r" "case r of
         Inl t \<Rightarrow> bal t \<and> redok t \<and> bheight t = Suc (bheight n) + (if pc = RB_BLACK then 1 else 0) \<and>
           (pc = RB_BLACK \<longrightarrow> rb_color t = RB_BLACK) \<and> inorder t = inorder s @ px # inorder n
       | Inr t \<Rightarrow> pc = RB_BLACK \<and> bal t \<and> redok t \<and> rb_color t = RB_BLACK \<and> bheight t = Suc (bheight n) \<and>
           inorder t = inorder s @ px # inorder n" by auto
    ultimately show ?thesis
    proof (cases r)
      case (Inl t)
      then have "rb_inv (plug t ps)"
        using r 3(3-) by (cases pc; cases "rb_color t"; intro plug_inv) (auto intro: path_red_black)
      with Inl r show ?thesis using s RB_BLACK by (auto simp: inorder_plug)
    next
      case (Inr t)
      with r 3(3-) 3(2) [of RB_BLACK sl sx sb sr "Inr t" t] s RB_BLACK show ?thesis by auto
    qed
  qed
qed

text \<open>A node without a left child is cut out: its right child, if it has one, is red and the node black.\<close>

lemma cut_node:
  assumes "bal (Nd c Lf x b r)" "redok (Nd c Lf x b r)" "path_bal (bheight (Nd c Lf x b r)) ps" "path_red c ps"
  shows "path_red RB_BLACK ps"
    "r \<noteq> Lf \<Longrightarrow> c = RB_BLACK \<and> bal (paint RB_BLACK r) \<and> redok (paint RB_BLACK r) \<and> path_bal (bheight (paint RB_BLACK r)) ps"
    "r = Lf \<Longrightarrow> path_bal (if c = RB_BLACK then Suc 0 else 0) ps"
proof -
  show "path_red RB_BLACK ps" using assms(4) by (rule path_red_black)
  show "path_bal (if c = RB_BLACK then Suc 0 else 0) ps" if "r = Lf" using assms that by (simp split: if_splits)
  assume "r \<noteq> Lf"
  with assms(1) have "rb_color r = RB_RED" by (cases r) (auto split: if_splits simp: color_cases)
  with assms show "c = RB_BLACK \<and> bal (paint RB_BLACK r) \<and> redok (paint RB_BLACK r) \<and> path_bal (bheight (paint RB_BLACK r)) ps"
    by (auto simp: bheight_paint_black color_cases)
qed

text \<open>The same for a node without a right child.\<close>

lemma cut_node_left:
  assumes "bal (Nd c l x b Lf)" "redok (Nd c l x b Lf)" "path_bal (bheight (Nd c l x b Lf)) ps" "path_red c ps" "l \<noteq> Lf"
  shows "path_red RB_BLACK ps \<and> c = RB_BLACK \<and> bal (paint RB_BLACK l) \<and> redok (paint RB_BLACK l) \<and>
    path_bal (bheight (paint RB_BLACK l)) ps"
proof -
  have "rb_color l = RB_RED" using assms by (cases l) (auto split: if_splits simp: color_cases)
  with assms show ?thesis by (auto simp: bheight_paint_black color_cases intro: path_red_black)
qed

lemma leftmost_split_ok:
  "r \<noteq> Lf \<Longrightarrow> \<exists>c x b c2 inner. leftmost_split r ps = Some (c, x, c2, inner @ ps) \<and> r = plug (Nd c Lf x b c2) inner \<and> before inner = []"
proof (induction r ps rule: leftmost_split.induct)
  case (3 c v va vb vc vd x b r ps)
  then obtain c' x' b' c2 inner where
    i: "leftmost_split (Nd v va vb vc vd) (InL c x b r # ps) = Some (c', x', c2, inner @ InL c x b r # ps)"
      "Nd v va vb vc vd = plug (Nd c' Lf x' b' c2) inner" "before inner = []" by auto
  show ?case
    by (rule exI [of _ c'], rule exI [of _ x'], rule exI [of _ b'], rule exI [of _ c2],
        rule exI [of _ "inner @ [InL c x b r]"]) (use i(1,3) in \<open>simp add: i(2) [symmetric] plug_append before_append\<close>)
qed (auto intro: exI [of _ "[]"])

lemma locate_some: "locate x t ps = Some (n, qs) \<Longrightarrow> plug n qs = plug t ps \<and> (\<exists>c l b r. n = Nd c l x b r)"
  by (induction x t ps rule: locate.induct) (auto split: option.splits if_splits)

lemma locate_none: "locate x t ps = None \<longleftrightarrow> x \<notin> set (inorder t)"
  by (induction x t ps rule: locate.induct) (auto split: option.splits)

lemma path_append_cong:
  "(\<And>n. path_bal n qs = path_bal n qs') \<Longrightarrow> path_bal n (ps @ qs) = path_bal n (ps @ qs')"
  "(\<And>k. path_red k qs = path_red k qs') \<Longrightarrow> path_red k (ps @ qs) = path_red k (ps @ qs')"
  by (induction ps arbitrary: n k rule: before.induct) auto

lemma propagate_append_keeps [simp]:
  "path_bal n (rb_propagate f v ps @ qs) = path_bal n (ps @ qs)"
  "path_red k (rb_propagate f v ps @ qs) = path_red k (ps @ qs)"
  by (induction f v ps arbitrary: n k rule: rb_propagate.induct) (auto simp: Let_def)

lemma rb_erase_node_ok:
  assumes "rb_inv (plug (Nd c l x b r) ps)"
  shows "\<exists>n qs reb. rb_erase_node f c l b r ps = Some (n, qs, reb) \<and> bal n \<and> redok n \<and> rb_color n = RB_BLACK \<and>
    path_red RB_BLACK qs \<and> path_bal (if reb then Suc (bheight n) else bheight n) qs \<and>
    before qs @ inorder n @ behind qs = before ps @ inorder l @ inorder r @ behind ps"
proof -
  note i = assms [unfolded rb_inv_plug]
  consider (noleft) "l = Lf" | (noright) "l \<noteq> Lf" "r = Lf" | (both) "l \<noteq> Lf" "r \<noteq> Lf" by blast
  then show ?thesis
  proof cases
    case noleft
    then have c: "bal (Nd c Lf x b r)" "redok (Nd c Lf x b r)" "path_bal (bheight (Nd c Lf x b r)) ps" "path_red c ps"
      using i by simp_all
    show ?thesis
    proof (cases "r = Lf")
      case True
      have "path_bal 0 ps" if "ps = []" using that by simp
      then show ?thesis using noleft True cut_node(1,3) [OF c] by (cases c) (auto simp: rb_erase_node_def)
    next
      case False
      then show ?thesis using noleft cut_node(1,2) [OF c] by (auto simp: rb_erase_node_def)
    qed
  next
    case noright
    then have c: "bal (Nd c l x b Lf)" "redok (Nd c l x b Lf)" "path_bal (bheight (Nd c l x b Lf)) ps" "path_red c ps"
      using i noright by auto
    show ?thesis using noright cut_node_left [OF c noright(1)] by (auto simp: rb_erase_node_def)
  next
    case both
    from leftmost_split_ok [OF both(2), of "[]"] obtain sc s sb c2 inner where
      sp: "leftmost_split r [] = Some (sc, s, c2, inner)" "r = plug (Nd sc Lf s sb c2) inner" "before inner = []" by auto
    let ?old = "inner @ InR c l x b # ps"
    let ?in = "rb_propagate f (aug c2) inner"
    let ?new = "?in @ rb_propagate f (path_aug_top (aug c2) ?in) (InR c l s b # ps)"
    have "path_bal n (inner @ rb_propagate f v (InR c l s b # ps)) = path_bal n ?old"
         "path_red k (inner @ rb_propagate f v (InR c l s b # ps)) = path_red k ?old" for n k v
      by (rule path_append_cong; simp only: propagate_keeps; simp)+
    then have new: "path_bal n ?new = path_bal n ?old" "path_red k ?new = path_red k ?old" for n k by simp_all
    have "rb_inv (plug (Nd sc Lf s sb c2) ?old)" using assms by (simp add: plug_append sp(2))
    then have j: "bal (Nd sc Lf s sb c2)" "redok (Nd sc Lf s sb c2)" "path_bal (bheight (Nd sc Lf s sb c2)) ?old" "path_red sc ?old"
      unfolding rb_inv_plug by simp_all
    have cut: "path_red RB_BLACK ?new \<and> bal (paint RB_BLACK c2) \<and> redok (paint RB_BLACK c2) \<and>
        path_bal (if c2 = Lf \<and> sc = RB_BLACK then Suc (bheight (paint RB_BLACK c2)) else bheight (paint RB_BLACK c2)) ?new"
      unfolding new
    proof (cases "c2 = Lf")
      case True
      then show "path_red RB_BLACK ?old \<and> bal (paint RB_BLACK c2) \<and> redok (paint RB_BLACK c2) \<and>
          path_bal (if c2 = Lf \<and> sc = RB_BLACK then Suc (bheight (paint RB_BLACK c2)) else bheight (paint RB_BLACK c2)) ?old"
        using cut_node(1,3) [OF j] by (cases sc) simp_all
    next
      case False
      then show "path_red RB_BLACK ?old \<and> bal (paint RB_BLACK c2) \<and> redok (paint RB_BLACK c2) \<and>
          path_bal (if c2 = Lf \<and> sc = RB_BLACK then Suc (bheight (paint RB_BLACK c2)) else bheight (paint RB_BLACK c2)) ?old"
        using cut_node(1,2) [OF j] by simp
    qed
    have "before ?new @ inorder c2 @ behind ?new = before ps @ inorder l @ inorder r @ behind ps"
      unfolding sp(2) inorder_plug using sp(3) by (simp add: before_append behind_append del: rb_propagate.simps)
    with cut both sp(1) show ?thesis by (simp add: rb_erase_node_def Let_def del: rb_propagate.simps)
  qed
qed

theorem rb_erase_ok:
  assumes "rb_inv t" "x \<in> set (inorder t)"
  shows "\<exists>t' xs ys. rb_erase_augmented f x t = Some t' \<and> rb_inv t' \<and> inorder t = xs @ x # ys \<and> inorder t' = xs @ ys"
proof -
  from assms(2) obtain n ps where l: "locate x t [] = Some (n, ps)" using locate_none [of x t "[]"] by fastforce
  from locate_some [OF this] obtain c l b r where n: "n = Nd c l x b r" "plug n ps = t" by auto
  from rb_erase_node_ok [of c l x b r ps f] n assms(1) obtain m qs reb where
    m: "rb_erase_node f c l b r ps = Some (m, qs, reb)" "bal m" "redok m" "rb_color m = RB_BLACK" "path_red RB_BLACK qs"
       "path_bal (if reb then Suc (bheight m) else bheight m) qs"
       "before qs @ inorder m @ behind qs = before ps @ inorder l @ inorder r @ behind ps" by auto
  have "\<exists>t'. (if reb then rb_erase_color f m qs else Some (plug m qs)) = Some t' \<and> rb_inv t' \<and>
      inorder t' = before qs @ inorder m @ behind qs"
    using rb_erase_color_ok [of m qs f] m by (cases reb) (auto simp: inorder_plug intro: plug_inv)
  moreover have "inorder t = (before ps @ inorder l) @ x # (inorder r @ behind ps)"
    using n by (auto simp: inorder_plug)
  ultimately show ?thesis using l n m(1,7) unfolding rb_erase_augmented_def
    by (intro exI [of _ "if reb then the (rb_erase_color f m qs) else plug m qs"] exI [of _ "before ps @ inorder l"]
        exI [of _ "inorder r @ behind ps"]) auto
qed

lemma rb_first_hd: "rb_first t = (case inorder t of [] \<Rightarrow> None | x # _ \<Rightarrow> Some x)"
  by (induction t rule: rb_first.induct) (auto split: list.splits elim: inorder.elims)

lemma rb_last_last: "rb_last t = (if inorder t = [] then None else Some (last (inorder t)))"
proof (induction t rule: rb_last.induct)
  case (2 c l x b r)
  then show ?case by (cases r) auto
qed simp

lemma up_from_right_hd: "up_from_right ps = (case behind ps of [] \<Rightarrow> None | x # _ \<Rightarrow> Some x)"
  by (induction ps rule: up_from_right.induct) auto

lemma up_from_left_last: "up_from_left ps = (if before ps = [] then None else Some (last (before ps)))"
  by (induction ps rule: up_from_left.induct) auto

lemma inorder_Nil [simp]: "inorder t = [] \<longleftrightarrow> t = Lf"
  by (cases t) auto

lemma rb_next_ok:
  assumes "inorder t = xs @ x # ys" "distinct (inorder t)"
  shows "rb_next x t = (case ys of [] \<Rightarrow> None | y # _ \<Rightarrow> Some y)"
proof -
  have "x \<in> set (inorder t)" using assms by simp
  then obtain n ps where l: "locate x t [] = Some (n, ps)" using locate_none [of x t "[]"] by fastforce
  from locate_some [OF this] obtain c l b r where n: "n = Nd c l x b r" "plug n ps = t" by auto
  then have "inorder t = (before ps @ inorder l) @ x # (inorder r @ behind ps)" by (auto simp: inorder_plug)
  with assms have "ys = inorder r @ behind ps"
    using append_Cons_eq_iff [of x xs ys "before ps @ inorder l" "inorder r @ behind ps"] by (simp add: append_Cons_eq_iff)
  then show ?thesis using l n
    by (cases "inorder r") (simp_all add: rb_next_def rb_first_hd up_from_right_hd, auto)
qed

section \<open>Augmented values\<close>

text \<open>What the augmented value of a nonempty subtree is for: a function \<open>A\<close> of its elements in order.\<close>

definition al :: "('a list \<Rightarrow> 'b) \<Rightarrow> 'a list \<Rightarrow> 'b option" where
  "al A xs = (if xs = [] then None else Some (A xs))"

fun aug_ok :: "('a list \<Rightarrow> 'b) \<Rightarrow> ('a, 'b) rb_node \<Rightarrow> bool" where
  "aug_ok A Lf \<longleftrightarrow> True"
| "aug_ok A (Nd c l x b r) \<longleftrightarrow> aug_ok A l \<and> aug_ok A r \<and> b = A (inorder l @ x # inorder r)"

text \<open>The path above a subtree with the elements \<open>xs\<close>.\<close>

fun path_aug :: "('a list \<Rightarrow> 'b) \<Rightarrow> 'a list \<Rightarrow> ('a, 'b) path \<Rightarrow> bool" where
  "path_aug A xs [] \<longleftrightarrow> True"
| "path_aug A xs (InL c x b r # ps) \<longleftrightarrow>
     aug_ok A r \<and> b = A (xs @ x # inorder r) \<and> path_aug A (xs @ x # inorder r) ps"
| "path_aug A xs (InR c l x b # ps) \<longleftrightarrow>
     aug_ok A l \<and> b = A (inorder l @ x # xs) \<and> path_aug A (inorder l @ x # xs) ps"

lemma al_simps [simp]: "al A [] = None" "al A (x # xs) = Some (A (x # xs))" "al A (xs @ y # ys) = Some (A (xs @ y # ys))"
  by (simp_all add: al_def)

lemma aug_al: "aug_ok A t \<Longrightarrow> aug t = al A (inorder t)"
  by (cases t) auto

lemma aug_ok_paint [simp]: "aug_ok A (paint c t) = aug_ok A t"
  by (cases t) auto

lemma aug_ok_plug: "aug_ok A (plug t ps) \<longleftrightarrow> aug_ok A t \<and> path_aug A (inorder t) ps"
proof (induction ps arbitrary: t)
  case (Cons p ps)
  then show ?case by (cases p) auto
qed simp

definition path_set :: "('a, 'b) path \<Rightarrow> 'a set" where
  "path_set ps = set (before ps) \<union> set (behind ps)"

lemma path_set_simps [simp]:
  "path_set [] = {}"
  "path_set (InL c x b r # ps) = insert x (set (inorder r) \<union> path_set ps)"
  "path_set (InR c l x b # ps) = insert x (set (inorder l) \<union> path_set ps)"
  "path_set (ps @ qs) = path_set ps \<union> path_set qs"
  by (auto simp: path_set_def before_append behind_append)

lemma path_aug_append: "path_aug A xs (ps @ qs) \<longleftrightarrow> path_aug A xs ps \<and> path_aug A (before ps @ xs @ behind ps) qs"
  by (induction A xs ps rule: path_aug.induct) auto

lemma path_aug_top_al: "path_aug A xs ps \<Longrightarrow> path_aug_top (al A xs) ps = al A (before ps @ xs @ behind ps)"
proof (induction A xs ps rule: path_aug.induct)
  case (2 A xs c x b r ps)
  then show ?case by (cases ps) (auto simp: path_aug_top_def)
next
  case (3 A xs c l x b ps)
  then show ?case by (cases ps) (auto simp: path_aug_top_def)
qed (simp add: path_aug_top_def)

lemma rb_descend_plug: "rb_descend lt x t ps lm = (qs, lm') \<Longrightarrow> plug Lf qs = plug t ps"
  by (induction lt x t ps lm rule: rb_descend.induct) (auto split: if_splits)

lemma rb_descend_leftmost: "rb_descend lt x t ps lm = (qs, lm') \<Longrightarrow>
    (lm' \<longleftrightarrow> lm \<and> before qs = before ps) \<and> (\<exists>zs. before qs = before ps @ zs)"
  by (induction lt x t ps lm rule: rb_descend.induct) (auto split: if_splits)

lemma rb_descend_order:
  assumes "rb_descend lt x t ps lm = (qs, lm')" "sorted (map key (inorder t))" "\<forall>y \<in> set (inorder t). lt x y \<longleftrightarrow> key x < key y"
    "\<forall>y \<in> set (before ps). key y \<le> key x" "\<forall>y \<in> set (behind ps). key x < key y"
  shows "(\<forall>y \<in> set (before qs). key y \<le> key x) \<and> (\<forall>y \<in> set (behind qs). key x < (key y :: int))"
  using assms
proof (induction lt x t ps lm rule: rb_descend.induct)
  case (2 lt x c l y b r ps lm)
  have ord: "\<forall>z \<in> set (inorder l). key z \<le> key y" "\<forall>z \<in> set (inorder r). key y \<le> key z"
    using "2.prems"(2) by (auto simp: sorted_append)
  show ?case
  proof (cases "lt x y")
    case True
    then have "key x < key y" using "2.prems"(3) by simp
    with ord have "\<forall>z \<in> set (behind (InL c y b r # ps)). key x < key z" using "2.prems"(5) by force
    then show ?thesis using True "2.prems" by (intro "2.IH"(1)) (simp_all add: sorted_append)
  next
    case False
    then have "key y \<le> key x" using "2.prems"(3) by simp
    with ord have "\<forall>z \<in> set (before (InR c l y b # ps)). key z \<le> key x" using "2.prems"(4) by force
    then show ?thesis using False "2.prems" by (intro "2.IH"(2)) (simp_all add: sorted_append)
  qed
qed simp

abbreviation nodes :: "('a, 'b) rb_root_cached \<Rightarrow> 'a list" where
  "nodes root \<equiv> inorder (rb_root root)"

text \<open>The place of a new node: behind those that are not greater, when they are sorted by a key.\<close>

definition ordered_at :: "('a \<Rightarrow> 'a \<Rightarrow> bool) \<Rightarrow> 'a \<Rightarrow> 'a list \<Rightarrow> 'a list \<Rightarrow> bool" where
  "ordered_at lt x xs ys \<longleftrightarrow>
     (\<forall>key :: 'a \<Rightarrow> int. sorted (map key (xs @ ys)) \<longrightarrow> (\<forall>y \<in> set (xs @ ys). lt x y \<longleftrightarrow> key x < key y) \<longrightarrow>
        (\<forall>y \<in> set xs. key y \<le> key x) \<and> (\<forall>y \<in> set ys. key x < key y))"

lemma ordered_atD:
  assumes "ordered_at lt x xs ys" "sorted (map key (xs @ ys))" "\<forall>y \<in> set (xs @ ys). lt x y \<longleftrightarrow> key x < (key y :: int)"
  shows "(\<forall>y \<in> set xs. key y \<le> key x) \<and> (\<forall>y \<in> set ys. key x < key y)"
  using assms(1) unfolding ordered_at_def by (rule allE [of _ key]) (use assms(2,3) in blast)

locale augmented =
  fixes f :: "('a, 'b) compute" and A :: "'a list \<Rightarrow> 'b" and G :: "'a set"
  assumes compute: "x \<in> G \<Longrightarrow> set ls \<subseteq> G \<Longrightarrow> set rs \<subseteq> G \<Longrightarrow> f x (al A ls) (al A rs) = A (ls @ x # rs)"
begin

lemma compute_nodes: "x \<in> G \<Longrightarrow> set (inorder l) \<subseteq> G \<Longrightarrow> set (inorder r) \<subseteq> G \<Longrightarrow> aug_ok A l \<Longrightarrow> aug_ok A r \<Longrightarrow>
    f x (aug l) (aug r) = A (inorder l @ x # inorder r)"
  by (simp add: aug_al compute)

lemma path_aug_cong:
  "path_aug A xs ps \<Longrightarrow> al A xs = al A ys \<Longrightarrow> set xs \<subseteq> G \<Longrightarrow> set ys \<subseteq> G \<Longrightarrow> path_set ps \<subseteq> G \<Longrightarrow> path_aug A ys ps"
proof (induction ps arbitrary: xs ys rule: before.induct)
  case (2 c x b r ps)
  then have "A (xs @ x # inorder r) = A (ys @ x # inorder r)" by (simp flip: compute)
  with 2 show ?case by (auto intro: "2.IH" [of "xs @ x # inorder r"])
next
  case (3 c l x b ps)
  then have "A (inorder l @ x # xs) = A (inorder l @ x # ys)" by (simp flip: compute)
  with 3 show ?case by (auto intro: "3.IH" [of "inorder l @ x # xs"])
qed simp

text \<open>\<^verbatim>\<open>propagate\<close> may stop early: above a value that has not changed all others are right.\<close>

lemma propagate_aug:
  "path_aug A xs ps \<Longrightarrow> set xs \<subseteq> G \<Longrightarrow> set ys \<subseteq> G \<Longrightarrow> path_set ps \<subseteq> G \<Longrightarrow> path_aug A ys (rb_propagate f (al A ys) ps)"
proof (induction ps arbitrary: xs ys rule: before.induct)
  case (2 c x b r ps)
  have e: "f x (al A ys) (aug r) = A (ys @ x # inorder r)" using 2 by (auto simp: aug_al compute)
  show ?case
  proof (cases "A (ys @ x # inorder r) = b")
    case True
    with 2 e path_aug_cong [of "xs @ x # inorder r" ps "ys @ x # inorder r"] show ?thesis by (auto simp: Let_def)
  next
    case False
    with 2 e "2.IH" [of "xs @ x # inorder r" "ys @ x # inorder r"] show ?thesis by (auto simp: Let_def)
  qed
next
  case (3 c l x b ps)
  have e: "f x (aug l) (al A ys) = A (inorder l @ x # ys)" using 3 by (auto simp: aug_al compute)
  show ?case
  proof (cases "A (inorder l @ x # ys) = b")
    case True
    with 3 e path_aug_cong [of "inorder l @ x # xs" ps "inorder l @ x # ys"] show ?thesis by (auto simp: Let_def)
  next
    case False
    with 3 e "3.IH" [of "inorder l @ x # xs" "inorder l @ x # ys"] show ?thesis by (auto simp: Let_def)
  qed
qed simp

text \<open>The same when the element of the first frame is new, and its value is the one of the old element.\<close>

lemma propagate_aug_new:
  assumes "aug_ok A l" "al A zs = Some b" "path_aug A zs ps" "set zs \<subseteq> G" "set ys \<subseteq> G" "s \<in> G" "set (inorder l) \<subseteq> G"
    "path_set ps \<subseteq> G"
  shows "path_aug A ys (rb_propagate f (al A ys) (InR c l s b # ps))"
proof -
  have e: "f s (aug l) (al A ys) = A (inorder l @ s # ys)" using assms by (simp add: aug_al compute)
  show ?thesis
  proof (cases "A (inorder l @ s # ys) = b")
    case True
    with assms e path_aug_cong [of zs ps "inorder l @ s # ys"] show ?thesis by (auto simp: Let_def)
  next
    case False
    with assms e propagate_aug [of zs ps "inorder l @ s # ys"] show ?thesis by (auto simp: Let_def)
  qed
qed

lemma rb_insert_aug:
  "rb_insert f' n ps = Some t \<Longrightarrow> f' = f \<Longrightarrow> aug_ok A n \<Longrightarrow> n \<noteq> Lf \<Longrightarrow> path_aug A (inorder n) ps \<Longrightarrow>
     set (inorder n) \<subseteq> G \<Longrightarrow> path_set ps \<subseteq> G \<Longrightarrow> aug_ok A t"
proof (induction f' n ps rule: rb_insert.induct)
  case (1 f' n)
  then show ?case by auto
next
  case (2 f' n p)
  then show ?case by (cases p) (auto split: if_splits)
next
  case (3 f' n p gc gx gb u gs)
  obtain nc nl nx nb nr where n: "n = Nd nc nl nx nb nr" using 3 by (cases n) auto
  consider (black) "fcolor p = RB_BLACK" | (flip) "fcolor p = RB_RED" "rb_color u = RB_RED"
    | (rot) "fcolor p = RB_RED" "rb_color u = RB_BLACK" by (cases "fcolor p"; cases "rb_color u") auto
  then show ?case
  proof cases
    case black
    then have "t = plug n (p # InL gc gx gb u # gs)" using 3(2) by simp
    then show ?thesis using 3(4,6) by (simp only: aug_ok_plug simp_thms)
  next
    case flip
    with 3 show ?thesis by (cases p) (auto simp: color_cases)
  next
    case rot
    then have "t = plug (rotate_right f RB_RED (insert_case2_left f n p) gc gx gb u) gs" using 3(2,3) by simp
    then show ?thesis using 3(4-) n by (cases p) (auto simp: aug_ok_plug compute_nodes)
  qed
next
  case (4 f' n p gc u gx gb gs)
  obtain nc nl nx nb nr where n: "n = Nd nc nl nx nb nr" using 4 by (cases n) auto
  consider (black) "fcolor p = RB_BLACK" | (flip) "fcolor p = RB_RED" "rb_color u = RB_RED"
    | (rot) "fcolor p = RB_RED" "rb_color u = RB_BLACK" by (cases "fcolor p"; cases "rb_color u") auto
  then show ?case
  proof cases
    case black
    then have "t = plug n (p # InR gc u gx gb # gs)" using 4(2) by simp
    then show ?thesis using 4(4,6) by (simp only: aug_ok_plug simp_thms)
  next
    case flip
    with 4 show ?thesis by (cases p) (auto simp: color_cases)
  next
    case rot
    then have "t = plug (rotate_left f RB_RED (insert_case2_right f n p) gc gx gb u) gs" using 4(2,3) by simp
    then show ?thesis using 4(4-) n by (cases p) (auto simp: aug_ok_plug compute_nodes)
  qed
qed

lemma erase_cases_aug:
  assumes "aug_ok A n" "aug_ok A s" "set (inorder n) \<subseteq> G" "set (inorder s) \<subseteq> G" "px \<in> G"
  shows "erase_cases_left f n pc px (A (inorder n @ px # inorder s)) s = Some r \<Longrightarrow>
      case r of Inl t \<Rightarrow> aug_ok A t \<and> inorder t = inorder n @ px # inorder s
              | Inr t \<Rightarrow> aug_ok A t \<and> inorder t = inorder n @ px # inorder s"
    "erase_cases_right f n pc px (A (inorder s @ px # inorder n)) s = Some r \<Longrightarrow>
      case r of Inl t \<Rightarrow> aug_ok A t \<and> inorder t = inorder s @ px # inorder n
              | Inr t \<Rightarrow> aug_ok A t \<and> inorder t = inorder s @ px # inorder n"
  using assms
  by (cases s; auto simp: Let_def compute_nodes split: if_splits rb_node.splits color.splits)+

lemma rb_erase_color_aug:
  "rb_erase_color f' n ps = Some t \<Longrightarrow> f' = f \<Longrightarrow> aug_ok A n \<Longrightarrow> path_aug A (inorder n) ps \<Longrightarrow>
     set (inorder n) \<subseteq> G \<Longrightarrow> path_set ps \<subseteq> G \<Longrightarrow> aug_ok A t"
proof (induction f' n ps rule: rb_erase_color.induct)
  case (1 f' n)
  then show ?case by auto
next
  case (2 f' n pc px pb s ps)
  show ?case
  proof (cases "rb_color s")
    case RB_RED
    then obtain sl sx sb sr where s: "s = Nd RB_RED sl sx sb sr" by (cases s) auto
    with 2(3-) obtain u where
      u: "erase_cases_left f n RB_RED px (f px (aug n) (aug sl)) (paint RB_BLACK sl) = Some (Inl u)"
         "t = plug (Nd pc u sx pb sr) ps" by (auto split: option.splits sum.splits)
    have "f px (aug n) (aug sl) = A (inorder n @ px # inorder (paint RB_BLACK sl))"
      using 2(3-) s by (simp add: compute_nodes)
    with u(1) erase_cases_aug(1) [of n "paint RB_BLACK sl" px RB_RED "Inl u"] 2(3-) s
    have "aug_ok A u" "inorder u = inorder n @ px # inorder sl" by simp_all
    then show ?thesis using u(2) 2(3-) s by (simp add: aug_ok_plug)
  next
    case RB_BLACK
    have pb: "pb = A (inorder n @ px # inorder s)" using 2(6) by simp
    from RB_BLACK have e: "rb_erase_color f n (InL pc px pb s # ps) = (case erase_cases_left f n pc px pb s of
        Some (Inl t) \<Rightarrow> Some (plug t ps) | Some (Inr t) \<Rightarrow> rb_erase_color f t ps | None \<Rightarrow> None)"
      by (cases s) simp_all
    with 2(3,4) obtain r where r: "erase_cases_left f n pc px pb s = Some r" by (auto split: option.splits)
    with erase_cases_aug(1) [of n s px pc r] 2(3-)
    have a: "case r of Inl t \<Rightarrow> aug_ok A t \<and> inorder t = inorder n @ px # inorder s
         | Inr t \<Rightarrow> aug_ok A t \<and> inorder t = inorder n @ px # inorder s" by simp
    show ?thesis
    proof (cases r)
      case (Inl u)
      have "t = plug u ps" using Inl e r 2(3,4) by simp
      then show ?thesis using Inl a 2(6) by (auto simp: aug_ok_plug)
    next
      case (Inr u)
      have "rb_erase_color f u ps = Some t" using Inr e r 2(3,4) by simp
      then show ?thesis
        using 2(1,2) Inr r a 2(3-) RB_BLACK by (cases s) auto
    qed
  qed
next
  case (3 f' n pc s px pb ps)
  show ?case
  proof (cases "rb_color s")
    case RB_RED
    then obtain sl sx sb sr where s: "s = Nd RB_RED sl sx sb sr" by (cases s) auto
    with 3(3-) obtain u where
      u: "erase_cases_right f n RB_RED px (f px (aug sr) (aug n)) (paint RB_BLACK sr) = Some (Inl u)"
         "t = plug (Nd pc sl sx pb u) ps" by (auto split: option.splits sum.splits)
    have "f px (aug sr) (aug n) = A (inorder (paint RB_BLACK sr) @ px # inorder n)"
      using 3(3-) s by (simp add: compute_nodes)
    with u(1) erase_cases_aug(2) [of n "paint RB_BLACK sr" px RB_RED "Inl u"] 3(3-) s
    have "aug_ok A u" "inorder u = inorder sr @ px # inorder n" by simp_all
    then show ?thesis using u(2) 3(3-) s by (simp add: aug_ok_plug)
  next
    case RB_BLACK
    from RB_BLACK have e: "rb_erase_color f n (InR pc s px pb # ps) = (case erase_cases_right f n pc px pb s of
        Some (Inl t) \<Rightarrow> Some (plug t ps) | Some (Inr t) \<Rightarrow> rb_erase_color f t ps | None \<Rightarrow> None)"
      by (cases s) simp_all
    with 3(3,4) obtain r where r: "erase_cases_right f n pc px pb s = Some r" by (auto split: option.splits)
    with erase_cases_aug(2) [of n s px pc r] 3(3-)
    have a: "case r of Inl t \<Rightarrow> aug_ok A t \<and> inorder t = inorder s @ px # inorder n
         | Inr t \<Rightarrow> aug_ok A t \<and> inorder t = inorder s @ px # inorder n" by simp
    show ?thesis
    proof (cases r)
      case (Inl u)
      have "t = plug u ps" using Inl e r 3(3,4) by simp
      then show ?thesis using Inl a 3(6) by (auto simp: aug_ok_plug)
    next
      case (Inr u)
      have "rb_erase_color f u ps = Some t" using Inr e r 3(3,4) by simp
      then show ?thesis
        using 3(1,2) Inr r a 3(3-) RB_BLACK by (cases s) auto
    qed
  qed
qed

lemma rb_erase_node_aug:
  assumes "rb_erase_node f c l b r ps = Some (n, qs, reb)" "aug_ok A (plug (Nd c l x b r) ps)"
    "set (inorder l) \<subseteq> G" "set (inorder r) \<subseteq> G" "x \<in> G" "path_set ps \<subseteq> G"
  shows "aug_ok A n \<and> path_aug A (inorder n) qs \<and> set (inorder n) \<subseteq> G \<and> path_set qs \<subseteq> G"
proof -
  let ?xs = "inorder l @ x # inorder r"
  from assms(2) have a: "aug_ok A l" "aug_ok A r" "b = A ?xs" "path_aug A ?xs ps" by (auto simp: aug_ok_plug)
  have keep: "path_set (rb_propagate f v ps) = path_set ps" for v and ps :: "('a, 'b) path" by (simp add: path_set_def)
  have g: "set ?xs \<subseteq> G" using assms by auto
  consider (noleft) "l = Lf" | (noright) "l \<noteq> Lf" "r = Lf" | (both) "l \<noteq> Lf" "r \<noteq> Lf" by blast
  then show ?thesis
  proof cases
    case noleft
    have "n = paint c r" "qs = rb_propagate f (al A (inorder r)) ps"
      using noleft assms(1) a by (auto simp: rb_erase_node_def aug_al split: if_splits)
    with propagate_aug [OF a(4) g, of "inorder r"] assms a keep show ?thesis by simp
  next
    case noright
    have "n = paint c l" "qs = rb_propagate f (al A (inorder l)) ps"
      using noright assms(1) a by (auto simp: rb_erase_node_def aug_al)
    with propagate_aug [OF a(4) g, of "inorder l"] assms a keep show ?thesis by simp
  next
    case both
    from leftmost_split_ok [OF both(2), of "[]"] obtain sc s sb c2 inner where
      sp: "leftmost_split r [] = Some (sc, s, c2, inner)" "r = plug (Nd sc Lf s sb c2) inner" "before inner = []" by auto
    let ?in = "rb_propagate f (aug c2) inner"
    have n: "n = paint RB_BLACK c2" "qs = ?in @ rb_propagate f (path_aug_top (aug c2) ?in) (InR c l s b # ps)"
      using both sp(1) assms(1) by (simp_all add: rb_erase_node_def Let_def del: rb_propagate.simps)
    have c2: "aug_ok A c2" "path_aug A (s # inorder c2) inner" using a(2) by (auto simp: sp(2) aug_ok_plug)
    have g2: "s \<in> G" "set (inorder c2) \<subseteq> G" "path_set inner \<subseteq> G"
      using assms(4) by (auto simp: sp(2) inorder_plug path_set_def)
    have inn: "path_aug A (inorder c2) ?in"
      using propagate_aug [OF c2(2), of "inorder c2"] g2 c2(1) by (simp add: aug_al)
    let ?ys = "inorder c2 @ behind inner"
    have top: "path_aug_top (aug c2) ?in = al A ?ys"
      using path_aug_top_al [OF inn] c2(1) sp(3) by (simp add: aug_al)
    have "set ?ys \<subseteq> G" using g2 by (auto simp: path_set_def)
    with propagate_aug_new [of l ?xs b ps ?ys s c] a g assms g2
    have "path_aug A ?ys (rb_propagate f (al A ?ys) (InR c l s b # ps))" by (simp del: rb_propagate.simps)
    then have "path_aug A (inorder c2) qs"
      using inn sp(3) unfolding n(2) path_aug_append top by (simp del: rb_propagate.simps)
    moreover have "path_set qs \<subseteq> G" using g2 assms unfolding n(2) by (simp add: keep del: rb_propagate.simps)
    ultimately show ?thesis using n(1) c2(1) g2 by simp
  qed
qed

lemma add_aug:
  assumes "rb_add_augmented_cached f lt x bx root = Some root'" "aug_ok A (rb_root root)" "set (nodes root) \<subseteq> G" "x \<in> G" "bx = A [x]"
  shows "aug_ok A (rb_root root')"
proof -
  obtain qs lm where d: "rb_descend lt x (rb_root root) [] True = (qs, lm)" by fastforce
  have p: "plug Lf qs = rb_root root" using rb_descend_plug [OF d] by simp
  let ?qs = "rb_propagate f (Some bx) qs"
  obtain t where t: "rb_insert f (Nd RB_RED Lf x bx Lf) ?qs = Some t" "rb_root root' = t"
    using assms(1) d by (auto simp: rb_add_augmented_cached_def)
  have "path_aug A [] qs" using assms(2) unfolding p [symmetric] aug_ok_plug by simp
  moreover have g: "path_set qs \<subseteq> G" using assms(3) unfolding p [symmetric] inorder_plug by (auto simp: path_set_def)
  ultimately have "path_aug A [x] ?qs" using propagate_aug [of "[]" qs "[x]"] assms(4,5) by simp
  with rb_insert_aug [OF t(1)] t(2) g assms(4,5) show ?thesis by (auto simp: path_set_def)
qed

lemma erase_aug:
  assumes "rb_erase_augmented_cached f x root = Some root'" "aug_ok A (rb_root root)" "set (nodes root) \<subseteq> G" "x \<in> set (nodes root)"
  shows "aug_ok A (rb_root root')"
proof -
  let ?t = "rb_root root"
  obtain t where t: "rb_erase_augmented f x ?t = Some t" "rb_root root' = t"
    using assms(1) by (auto simp: rb_erase_augmented_cached_def Let_def split: if_splits)
  from assms(4) obtain n ps where l: "locate x ?t [] = Some (n, ps)" using locate_none [of x ?t "[]"] by fastforce
  from locate_some [OF this] obtain c l b r where n: "n = Nd c l x b r" "plug n ps = ?t" by auto
  with t(1) l obtain m qs reb where m: "rb_erase_node f c l b r ps = Some (m, qs, reb)"
      "(if reb then rb_erase_color f m qs else Some (plug m qs)) = Some t"
    by (auto simp: rb_erase_augmented_def split: option.splits)
  have "set (inorder l) \<subseteq> G" "set (inorder r) \<subseteq> G" "x \<in> G" "path_set ps \<subseteq> G"
    using assms(3) n(1) unfolding n(2) [symmetric] inorder_plug by (auto simp: path_set_def)
  with rb_erase_node_aug [OF m(1), of x] assms(2) n have
    "aug_ok A m" "path_aug A (inorder m) qs" "set (inorder m) \<subseteq> G" "path_set qs \<subseteq> G" by auto
  with m(2) rb_erase_color_aug [of f m qs t] show ?thesis unfolding t(2) by (cases reb) (auto simp: aug_ok_plug)
qed

end

section \<open>The cached tree\<close>

text \<open>A balanced tree with the right leftmost node, whatever the augmented values are.\<close>

definition root_ok :: "('a, 'b) rb_root_cached \<Rightarrow> bool" where
  "root_ok root \<longleftrightarrow> rb_inv (rb_root root) \<and> rb_leftmost root = rb_first (rb_root root)"

lemma add_ok:
  assumes "root_ok root"
  shows "\<exists>root' xs ys. rb_add_augmented_cached f lt x bx root = Some root' \<and> root_ok root' \<and>
    nodes root = xs @ ys \<and> nodes root' = xs @ x # ys \<and> ordered_at lt x xs ys"
proof -
  obtain qs lm where d: "rb_descend lt x (rb_root root) [] True = (qs, lm)" by fastforce
  have p: "plug Lf qs = rb_root root" using rb_descend_plug [OF d] by simp
  have nd: "nodes root = before qs @ behind qs" unfolding p [symmetric] inorder_plug by simp
  have lm: "lm \<longleftrightarrow> before qs = []" using rb_descend_leftmost [OF d] by simp
  have ord: "ordered_at lt x (before qs) (behind qs)"
    unfolding ordered_at_def
  proof (intro allI impI)
    fix key :: "'a \<Rightarrow> int"
    assume "sorted (map key (before qs @ behind qs))" "\<forall>y \<in> set (before qs @ behind qs). lt x y \<longleftrightarrow> key x < key y"
    then show "(\<forall>y \<in> set (before qs). key y \<le> key x) \<and> (\<forall>y \<in> set (behind qs). key x < key y)"
      unfolding nd [symmetric] by (rule rb_descend_order [OF d]) simp_all
  qed
  let ?n = "Nd RB_RED Lf x bx Lf" and ?qs = "rb_propagate f (Some bx) qs"
  from assms p have "rb_inv (plug Lf qs)" by (simp add: root_ok_def)
  then have "path_bal 0 qs" "path_red RB_BLACK qs" unfolding rb_inv_plug by simp_all
  then have "rb_color ?n = RB_RED" "bal ?n" "redok ?n" "path_bal (bheight ?n) ?qs" "path_red RB_BLACK ?qs" by simp_all
  from rb_insert_ok [OF this, of f] obtain t where
    t: "rb_insert f ?n ?qs = Some t" "rb_inv t" "inorder t = before qs @ x # behind qs" by auto
  have "rb_first t = (if lm then Some x else rb_leftmost root)"
    using assms lm nd t(3) by (cases "before qs") (auto simp: rb_first_hd root_ok_def)
  moreover define root' where "root' = (if lm then root\<lparr>rb_leftmost := Some x\<rparr> else root)\<lparr>rb_root := t\<rparr>"
  ultimately have "root_ok root'" using t(2) by (simp add: root_ok_def)
  moreover have "rb_add_augmented_cached f lt x bx root = Some root'"
    using d t(1) by (simp add: rb_add_augmented_cached_def root'_def)
  moreover have "nodes root' = before qs @ x # behind qs" using t(3) by (simp add: root'_def)
  ultimately show ?thesis using nd ord by blast
qed

lemma erase_ok:
  assumes "root_ok root" "x \<in> set (nodes root)" "distinct (nodes root)"
  shows "\<exists>root'. rb_erase_augmented_cached f x root = Some root' \<and> root_ok root' \<and> nodes root' = remove1 x (nodes root)"
proof -
  let ?t = "rb_root root"
  from assms(1) have inv: "rb_inv ?t" "rb_leftmost root = rb_first ?t" by (auto simp: root_ok_def)
  from rb_erase_ok [OF inv(1) assms(2), of f] obtain t xs ys where
    t: "rb_erase_augmented f x ?t = Some t" "rb_inv t" "inorder ?t = xs @ x # ys" "inorder t = xs @ ys" by blast
  have "x \<notin> set xs" using assms(3) t(3) by simp
  then have rem: "inorder t = remove1 x (inorder ?t)" by (simp add: t(3,4) remove1_append)
  have "rb_first t = (if rb_leftmost root = Some x then rb_next x ?t else rb_leftmost root)"
    using rb_next_ok [OF t(3) assms(3)] inv(2) t(3,4) assms(3) by (cases xs; cases ys) (auto simp: rb_first_hd)
  then show ?thesis using t(1,2) rem
    by (intro exI [of _ "(if rb_leftmost root = Some x then root\<lparr>rb_leftmost := rb_next x ?t\<rparr> else root)\<lparr>rb_root := t\<rparr>"])
      (auto simp: rb_erase_augmented_cached_def root_ok_def)
qed

text \<open>In a plain tree there is nothing to compute.\<close>

interpretation plain: augmented dummy_compute "\<lambda>_. ()" UNIV
  by unfold_locales (simp add: dummy_compute_def)

section \<open>Properties\<close>

text \<open>C12: Insertion into a tree with the cached leftmost node: a balanced tree stays balanced (black root, no
  red node with a red child, the same number of black nodes on every way down), the new node comes behind
  all nodes that are not greater and before all that are, the others keep their order, and the cached node
  is the first one.\<close>

theorem rb_add_cached_correct:
  assumes "rb_inv (rb_root root)" "rb_leftmost root = rb_first (rb_root root)"
    "sorted (map key (nodes root))" "\<forall>y \<in> set (nodes root). lt x y \<longleftrightarrow> key x < (key y :: int)"
  shows "\<exists>root' xs ys. rb_add_cached lt x root = Some root' \<and> rb_inv (rb_root root') \<and>
    rb_leftmost root' = rb_first (rb_root root') \<and> nodes root = xs @ ys \<and> nodes root' = xs @ x # ys \<and>
    (\<forall>y \<in> set xs. key y \<le> key x) \<and> (\<forall>y \<in> set ys. key x < key y)"
proof -
  from add_ok [of root dummy_compute lt x "()"] assms(1,2) obtain root' xs ys where
    r: "rb_add_cached lt x root = Some root'" "rb_inv (rb_root root')" "rb_leftmost root' = rb_first (rb_root root')"
      "nodes root = xs @ ys" "nodes root' = xs @ x # ys" "ordered_at lt x xs ys"
    by (auto simp: rb_add_cached_def root_ok_def)
  have "(\<forall>y \<in> set xs. key y \<le> key x) \<and> (\<forall>y \<in> set ys. key x < key y)"
    using assms(3,4) unfolding r(4) by (rule ordered_atD [OF r(6)])
  with r show ?thesis by (intro exI [of _ root'] exI [of _ xs] exI [of _ ys] conjI) simp_all
qed

fun add_all :: "int list \<Rightarrow> (int, unit) rb_root_cached \<Rightarrow> (int, unit) rb_root_cached option" where
  "add_all [] root = Some root"
| "add_all (x # xs) root = Option.bind (rb_add_cached (\<lambda>a b. a < b) x root) (add_all xs)"

definition three_nodes :: "(int, unit) rb_root_cached" where
  "three_nodes = the (add_all [5, 7, 6] RB_ROOT_CACHED)"

lemma three_nodes_eq: "three_nodes =
    \<lparr>rb_root = Nd RB_BLACK (Nd RB_RED Lf 5 () Lf) 6 () (Nd RB_RED Lf 7 () Lf), rb_leftmost = Some 5\<rparr>"
  by (simp add: three_nodes_def RB_ROOT_CACHED_def rb_add_cached_def rb_add_augmented_cached_def Let_def dummy_compute_def)

theorem rb_add_cached_correct_witness:
  "rb_inv (rb_root three_nodes) \<and> (\<exists>root'. rb_add_cached (\<lambda>a b. a < b) 4 three_nodes = Some root' \<and>
     rb_inv (rb_root root') \<and> rb_leftmost root' = rb_first (rb_root root'))"
proof -
  have "rb_inv (rb_root three_nodes)" by (simp add: three_nodes_eq rb_inv_def)
  with rb_add_cached_correct [of three_nodes id "\<lambda>a b. a < b" 4] show ?thesis by (auto simp: three_nodes_eq)
qed

text \<open>C25: Removal of a node of such a tree: the tree stays balanced, exactly this node is gone, the others
  keep their order, and the cached node is the first one.\<close>

theorem rb_erase_cached_correct:
  assumes "rb_inv (rb_root root)" "rb_leftmost root = rb_first (rb_root root)" "x \<in> set (nodes root)" "distinct (nodes root)"
  shows "\<exists>root'. rb_erase_cached x root = Some root' \<and> rb_inv (rb_root root') \<and>
    rb_leftmost root' = rb_first (rb_root root') \<and> nodes root' = remove1 x (nodes root)"
  using erase_ok [of root x dummy_compute] assms by (simp add: rb_erase_cached_def root_ok_def)

theorem rb_erase_cached_correct_witness:
  "5 \<in> set (nodes three_nodes) \<and> (\<exists>root'. rb_erase_cached 5 three_nodes = Some root' \<and> rb_inv (rb_root root') \<and>
     rb_leftmost root' = Some 6 \<and> nodes root' = [6, 7])"
proof -
  have "rb_inv (rb_root three_nodes)" by (simp add: three_nodes_eq rb_inv_def)
  with rb_erase_cached_correct [of three_nodes 5] show ?thesis by (auto simp: three_nodes_eq rb_first_hd)
qed

fun height :: "('a, 'b) rb_node \<Rightarrow> nat" where
  "height Lf = 0"
| "height (Nd c l x b r) = Suc (max (height l) (height r))"

lemma bheight_length: "bal t \<Longrightarrow> 2 ^ bheight t \<le> Suc (length (inorder t))"
proof (induction t)
  case (Nd c l x b r)
  then have "2 ^ bheight l \<le> Suc (length (inorder l))" "2 ^ bheight l \<le> Suc (length (inorder r))" by simp_all
  then show ?case by simp
qed simp

lemma height_bheight: "redok t \<Longrightarrow> bal t \<Longrightarrow> height t \<le> 2 * bheight t + (if rb_color t = RB_RED then 1 else 0)"
  by (induction t) (auto simp: color_cases split: if_splits)

text \<open>The logarithmic bound that the comment of \<^verbatim>\<open>rbtree.c\<close> derives from the properties of the tree: the
  longest way down a tree of \<open>n\<close> nodes has at most \<open>2 * log2 (n + 1)\<close> nodes. It bounds the loops of all
  operations, which go down or up the tree once.\<close>

theorem rb_height_bound:
  assumes "rb_inv t"
  shows "2 ^ height t \<le> (length (inorder t) + 1)\<^sup>2"
proof -
  have "height t \<le> bheight t * 2" using height_bheight [of t] assms by (auto simp: rb_inv_def)
  then have "(2::nat) ^ height t \<le> 2 ^ (bheight t * 2)" by (rule power_increasing) simp
  also have "\<dots> = (2 ^ bheight t)\<^sup>2" by (simp add: power_mult)
  also have "\<dots> \<le> (length (inorder t) + 1)\<^sup>2"
    using bheight_length [of t] assms by (intro power_mono) (auto simp: rb_inv_def)
  finally show ?thesis .
qed

theorem rb_height_bound_witness: "rb_inv (rb_root three_nodes) \<and> 2 ^ height (rb_root three_nodes) \<le> (16 :: nat)"
proof -
  have "rb_inv (rb_root three_nodes)" by (simp add: three_nodes_eq rb_inv_def)
  with rb_height_bound [OF this] show ?thesis by (simp add: three_nodes_eq)
qed

end
