(* ===== verification/Cfs.thy ===== *)
theory Cfs
  imports Fair_Queue Load_Weight Rbtree
begin

text \<open>
  The CFS-like policy of \<^verbatim>\<open>libos/sched/policy/cfs.c\<close> and \<^verbatim>\<open>cfs.h\<close>: every CPU keeps its runnable tasks in a
  red-black tree ordered by virtual runtime, and its current task outside of the tree. The tasks are
  records in a map from their addresses; a run queue holds addresses. The clock is an argument.
\<close>

section \<open>State\<close>

record cfs_task =
  last_run :: int
  load :: load_weight
  on_rq :: bool
  exec_start :: u64
  sum_exec_runtime :: u64
  prev_sum_exec_runtime :: u64
  vruntime :: u64

record cfs_rq =
  rq_load :: load_weight
  nr_running :: u32
  tasks_timeline :: "(task, unit) rb_root_cached"
  min_vruntime :: u64
  curr :: "task option"

type_synonym ctasks = "task \<Rightarrow> cfs_task"

definition sysctl_sched_latency :: u64 where "sysctl_sched_latency = 50000"
definition sysctl_sched_min_granularity :: u64 where "sysctl_sched_min_granularity = 12500"
definition sched_nr_latency :: u64 where "sched_nr_latency = 4"

abbreviation upd :: "task \<Rightarrow> (cfs_task \<Rightarrow> cfs_task) \<Rightarrow> ctasks \<Rightarrow> ctasks" where
  "upd t g T \<equiv> T(t := g (T t))"

section \<open>Virtual time\<close>

definition max_vruntime :: "u64 \<Rightarrow> u64 \<Rightarrow> u64" where
  "max_vruntime m v = (if 0 < sint (v - m) then v else m)"

definition min_vruntime_of :: "u64 \<Rightarrow> u64 \<Rightarrow> u64" where
  "min_vruntime_of m v = (if sint (v - m) < 0 then v else m)"

definition update_min_vruntime :: "cfs_rq \<Rightarrow> ctasks \<Rightarrow> cfs_rq" where
  "update_min_vruntime q T =
     (let c = (case curr q of Some c \<Rightarrow> if on_rq (T c) then Some c else None | None \<Rightarrow> None);
          v = (case c of Some c \<Rightarrow> vruntime (T c) | None \<Rightarrow> min_vruntime q);
          v = (case rb_first_cached (tasks_timeline q) of
                 Some t \<Rightarrow> if c = None then vruntime (T t) else min_vruntime_of v (vruntime (T t))
               | None \<Rightarrow> v)
      in q\<lparr>min_vruntime := max_vruntime (min_vruntime q) v\<rparr>)"

definition update_curr :: "cfs_rq \<Rightarrow> ctasks \<Rightarrow> u64 \<Rightarrow> cfs_rq \<times> ctasks" where
  "update_curr q T now =
     (case curr q of
        None \<Rightarrow> (q, T)
      | Some c \<Rightarrow>
          let delta_exec = now - exec_start (T c)
          in if sint delta_exec \<le> 0 then (q, T)
             else let (d, lw) = calc_delta_fair delta_exec (load (T c));
                      T = upd c (\<lambda>k. k\<lparr>exec_start := now, sum_exec_runtime := sum_exec_runtime k + delta_exec,
                                       load := lw, vruntime := vruntime k + d\<rparr>) T
                  in (update_min_vruntime q T, T))"

definition sched_period :: "u64 \<Rightarrow> u64" where
  "sched_period nr = (if nr > sched_nr_latency then nr * sysctl_sched_min_granularity else sysctl_sched_latency)"

text \<open>The inverse of the load of the run queue is cached in place when the task is on the queue, in a copy
  otherwise.\<close>

definition sched_slice :: "cfs_rq \<Rightarrow> cfs_task \<Rightarrow> u64 \<times> cfs_rq" where
  "sched_slice q k =
     (let slice = sched_period (ucast (nr_running q + (if on_rq k then 0 else 1)))
      in if on_rq k
         then let (s, lw) = calc_delta slice (weight (load k)) (rq_load q) in (s, q\<lparr>rq_load := lw\<rparr>)
         else (fst (calc_delta slice (weight (load k)) (update_load_add (rq_load q) (weight (load k)))), q))"

definition place_task :: "cfs_rq \<Rightarrow> ctasks \<Rightarrow> task \<Rightarrow> bool \<Rightarrow> cfs_rq \<times> ctasks" where
  "place_task q T t init =
     (let v = min_vruntime q
      in if init
         then let (s, q) = sched_slice q (T t); (vs, lw) = calc_delta_fair s (load (T t))
              in (q, upd t (\<lambda>k. k\<lparr>load := lw, vruntime := max_vruntime (vruntime k) (v + vs)\<rparr>) T)
         else (q, upd t (\<lambda>k. k\<lparr>vruntime := max_vruntime (vruntime k) (v - drop_bit 1 sysctl_sched_latency)\<rparr>) T))"

section \<open>The run queue\<close>

definition vruntime_lt :: "ctasks \<Rightarrow> task \<Rightarrow> task \<Rightarrow> bool" where
  "vruntime_lt T a b \<longleftrightarrow> sint (vruntime (T a) - vruntime (T b)) < 0"

definition enqueue_node :: "cfs_rq \<Rightarrow> ctasks \<Rightarrow> task \<Rightarrow> cfs_rq option" where
  "enqueue_node q T t =
     map_option (\<lambda>r. q\<lparr>tasks_timeline := r\<rparr>) (rb_add_cached (vruntime_lt T) t (tasks_timeline q))"

definition dequeue_node :: "cfs_rq \<Rightarrow> task \<Rightarrow> cfs_rq option" where
  "dequeue_node q t = map_option (\<lambda>r. q\<lparr>tasks_timeline := r\<rparr>) (rb_erase_cached t (tasks_timeline q))"

definition enqueue_update :: "cfs_rq \<Rightarrow> cfs_task \<Rightarrow> cfs_rq" where
  "enqueue_update q k = q\<lparr>rq_load := update_load_add (rq_load q) (weight (load k)), nr_running := nr_running q + 1\<rparr>"

definition dequeue_update :: "cfs_rq \<Rightarrow> cfs_task \<Rightarrow> cfs_rq" where
  "dequeue_update q k = q\<lparr>rq_load := update_load_sub (rq_load q) (weight (load k)), nr_running := nr_running q - 1\<rparr>"

definition enqueue_task :: "cfs_rq \<Rightarrow> ctasks \<Rightarrow> task \<Rightarrow> bool \<Rightarrow> u64 \<Rightarrow> (cfs_rq \<times> ctasks) option" where
  "enqueue_task q T t wakeup now =
     (let is_curr = (curr q = Some t);
          T = (if \<not> wakeup \<and> is_curr then upd t (\<lambda>k. k\<lparr>vruntime := vruntime k + min_vruntime q\<rparr>) T else T);
          (q, T) = update_curr q T now;
          q = enqueue_update q (T t);
          T = (if \<not> wakeup \<and> \<not> is_curr then upd t (\<lambda>k. k\<lparr>vruntime := vruntime k + min_vruntime q\<rparr>) T else T);
          (q, T) = (if wakeup then place_task q T t False else (q, T))
      in map_option (\<lambda>q. (q, upd t (\<lambda>k. k\<lparr>on_rq := True\<rparr>) T))
           (if is_curr then Some q else enqueue_node q T t))"

definition dequeue_task :: "cfs_rq \<Rightarrow> ctasks \<Rightarrow> task \<Rightarrow> bool \<Rightarrow> u64 \<Rightarrow> (cfs_rq \<times> ctasks) option" where
  "dequeue_task q T t sleep now =
     (let (q, T) = update_curr q T now;
          q = dequeue_update q (T t)
      in map_option
           (\<lambda>q. let T = upd t (\<lambda>k. k\<lparr>on_rq := False\<rparr>) T;
                    T = (if \<not> sleep then upd t (\<lambda>k. k\<lparr>vruntime := vruntime k - min_vruntime q\<rparr>) T else T)
                in (update_min_vruntime q T, T))
           (if curr q \<noteq> Some t then dequeue_node q t else Some q))"

definition set_next_task :: "cfs_rq \<Rightarrow> ctasks \<Rightarrow> task \<Rightarrow> int \<Rightarrow> u64 \<Rightarrow> (cfs_rq \<times> ctasks) option" where
  "set_next_task q T t cpu now =
     map_option
       (\<lambda>q. (q\<lparr>curr := Some t\<rparr>,
             upd t (\<lambda>k. k\<lparr>exec_start := now, last_run := cpu, prev_sum_exec_runtime := sum_exec_runtime k\<rparr>) T))
       (if on_rq (T t) then dequeue_node q t else Some q)"

section \<open>The policy\<close>

record cfs_st =
  ctask :: ctasks
  cfs_rqs :: "nat \<Rightarrow> cfs_rq"
  TARGET_CPU :: int

abbreviation set_rq :: "cfs_st \<Rightarrow> nat \<Rightarrow> cfs_rq \<times> ctasks \<Rightarrow> cfs_st" where
  "set_rq s cpu qT \<equiv> s\<lparr>cfs_rqs := (cfs_rqs s)(cpu := fst qT), ctask := snd qT\<rparr>"

definition cfs_init_percpu :: "cfs_rq \<Rightarrow> cfs_rq" where
  "cfs_init_percpu q =
     q\<lparr>curr := None, tasks_timeline := RB_ROOT_CACHED, min_vruntime := - push_bit 20 1, nr_running := 0,
       rq_load := \<lparr>weight = 0, inv_weight = 0\<rparr>\<rparr>"

definition cfs_init_task :: "cfs_st \<Rightarrow> task \<Rightarrow> cfs_st" where
  "cfs_init_task s t =
     s\<lparr>ctask := (ctask s)(t := \<lparr>last_run = 0, load = update_load_set \<lparr>weight = 0, inv_weight = 0\<rparr> NICE_0_LOAD,
        on_rq = False, exec_start = 0, sum_exec_runtime = 0, prev_sum_exec_runtime = 0, vruntime = 0\<rparr>)\<rparr>"

definition cfs_finish_task :: "cfs_st \<Rightarrow> nat \<Rightarrow> task \<Rightarrow> u64 \<Rightarrow> cfs_st option" where
  "cfs_finish_task s cpu t now =
     map_option (\<lambda>(q, T). set_rq s cpu (q\<lparr>curr := None\<rparr>, T)) (dequeue_task (cfs_rqs s cpu) (ctask s) t False now)"

definition put_task :: "cfs_rq \<Rightarrow> ctasks \<Rightarrow> task \<Rightarrow> u64 \<Rightarrow> (cfs_rq \<times> ctasks) option" where
  "put_task q T t now = (if \<not> on_rq (T t) then enqueue_task q T t False now else Some (q, T))"

definition fork_task :: "cfs_rq \<Rightarrow> ctasks \<Rightarrow> task \<Rightarrow> u64 \<Rightarrow> cfs_rq \<times> ctasks" where
  "fork_task q T t now =
     (let (q, T) = update_curr q T now;
          T = (case curr q of Some c \<Rightarrow> upd t (\<lambda>k. k\<lparr>vruntime := vruntime (T c)\<rparr>) T | None \<Rightarrow> T);
          (q, T) = place_task q T t True
      in (q, upd t (\<lambda>k. k\<lparr>vruntime := vruntime k - min_vruntime q\<rparr>) T))"

text \<open>\<^verbatim>\<open>TARGET_CPU\<close> is an \<^verbatim>\<open>atomic_int\<close>; here it is taken modulo its range.\<close>

definition cfs_find_target_cpu :: "cfs_st \<Rightarrow> task \<Rightarrow> bool \<Rightarrow> int \<times> cfs_st" where
  "cfs_find_target_cpu s t new_task =
     (if new_task
      then (sgn (TARGET_CPU s) * (\<bar>TARGET_CPU s\<bar> mod int USED_CPUS),
            s\<lparr>TARGET_CPU := signed_take_bit 31 (TARGET_CPU s + 1)\<rparr>)
      else (last_run (ctask s t), s))"

text \<open>\<^verbatim>\<open>cfs_sched_spawn\<close>: \<^verbatim>\<open>__fork_task\<close> runs without the lock of the run queue, \<^verbatim>\<open>__put_task\<close> takes it; other CPUs may come in between.\<close>

definition cfs_fork :: "cfs_st \<Rightarrow> task \<Rightarrow> u64 \<Rightarrow> (nat \<times> cfs_st) option" where
  "cfs_fork s t now =
     (let (c, s) = cfs_find_target_cpu s t True; cpu = nat c
      in if c < 0 then None else Some (cpu, set_rq s cpu (fork_task (cfs_rqs s cpu) (ctask s) t now)))"

definition cfs_put :: "cfs_st \<Rightarrow> nat \<Rightarrow> task \<Rightarrow> u64 \<Rightarrow> cfs_st option" where
  "cfs_put s cpu t now = map_option (set_rq s cpu) (put_task (cfs_rqs s cpu) (ctask s) t now)"

definition cfs_spawn :: "cfs_st \<Rightarrow> task \<Rightarrow> u64 \<Rightarrow> u64 \<Rightarrow> cfs_st option" where
  "cfs_spawn s t now now' = Option.bind (cfs_fork s t now) (\<lambda>(cpu, s). cfs_put s cpu t now')"

definition cfs_pick_next :: "cfs_st \<Rightarrow> nat \<Rightarrow> u64 \<Rightarrow> (task option \<times> cfs_st) option" where
  "cfs_pick_next s cpu now =
     (let q = cfs_rqs s cpu
      in if nr_running q = 0 then Some (None, s)
         else case rb_first_cached (tasks_timeline q) of
           None \<Rightarrow> None
         | Some t \<Rightarrow> map_option (\<lambda>qT. (Some t, set_rq s cpu qT)) (set_next_task q (ctask s) t (int cpu) now))"

definition cfs_yield :: "cfs_st \<Rightarrow> nat \<Rightarrow> u64 \<Rightarrow> cfs_st option" where
  "cfs_yield s cpu now =
     (let q = cfs_rqs s cpu
      in case curr q of
        None \<Rightarrow> None
      | Some prev \<Rightarrow>
          if on_rq (ctask s prev)
          then let (q, T) = update_curr q (ctask s) now
               in map_option (\<lambda>q. set_rq s cpu (q\<lparr>curr := None\<rparr>, T)) (enqueue_node q T prev)
          else Some (set_rq s cpu (q\<lparr>curr := None\<rparr>, ctask s)))"

definition cfs_wakeup :: "cfs_st \<Rightarrow> task \<Rightarrow> u64 \<Rightarrow> cfs_st option" where
  "cfs_wakeup s t now =
     (let (c, s) = cfs_find_target_cpu s t False; cpu = nat c
      in if c < 0 then None
         else if \<not> on_rq (ctask s t)
         then map_option (set_rq s cpu) (enqueue_task (cfs_rqs s cpu) (ctask s) t True now)
         else Some s)"

definition cfs_block :: "cfs_st \<Rightarrow> nat \<Rightarrow> u64 \<Rightarrow> cfs_st option" where
  "cfs_block s cpu now =
     (let q = cfs_rqs s cpu
      in case curr q of
        None \<Rightarrow> None
      | Some c \<Rightarrow>
          if \<not> on_rq (ctask s c) then None
          else map_option (\<lambda>(q, T). set_rq s cpu (q\<lparr>curr := None\<rparr>, T)) (dequeue_task q (ctask s) c True now))"

definition check_preempt_tick :: "cfs_rq \<Rightarrow> ctasks \<Rightarrow> task \<Rightarrow> (bool \<times> cfs_rq) option" where
  "check_preempt_tick q T c =
     (let (ideal_runtime, q) = sched_slice q (T c);
          delta_exec = sum_exec_runtime (T c) - prev_sum_exec_runtime (T c)
      in if delta_exec > ideal_runtime then Some (True, q)
         else if delta_exec < sysctl_sched_min_granularity then Some (False, q)
         else case rb_first_cached (tasks_timeline q) of
           None \<Rightarrow> None
         | Some first \<Rightarrow>
             let delta = vruntime (T c) - vruntime (T first)
             in if sint delta < 0 then Some (False, q) else Some (delta > ideal_runtime, q))"

definition cfs_preempt :: "cfs_st \<Rightarrow> nat \<Rightarrow> u64 \<Rightarrow> (bool \<times> cfs_st) option" where
  "cfs_preempt s cpu now =
     (let (q, T) = update_curr (cfs_rqs s cpu) (ctask s) now
      in if nr_running q > 1
         then case curr q of
           None \<Rightarrow> None
         | Some c \<Rightarrow> map_option (\<lambda>(r, q). (r, set_rq s cpu (q, T))) (check_preempt_tick q T c)
         else Some (False, set_rq s cpu (q, T)))"

section \<open>Invariant\<close>

abbreviation queue :: "cfs_rq \<Rightarrow> task list" where
  "queue q \<equiv> nodes (tasks_timeline q)"

abbreviation members :: "cfs_rq \<Rightarrow> task list" where
  "members q \<equiv> fq_members (curr q) (queue q)"

abbreviation tree_ok :: "cfs_rq \<Rightarrow> bool" where
  "tree_ok q \<equiv> root_ok (tasks_timeline q)"

text \<open>The run queue of a CPU: the tree is in order, the current task is not in it, all its tasks are marked,
  and the number and the weight of the tasks are right.\<close>

definition cfs_inv :: "cfs_rq \<Rightarrow> ctasks \<Rightarrow> bool" where
  "cfs_inv q T \<longleftrightarrow> tree_ok q \<and>
     fq_inv (curr q) (queue q) (nr_running q) (weight (rq_load q)) (\<lambda>t. on_rq (T t)) (\<lambda>t. weight (load (T t)))"

text \<open>The parts of a run queue and of the tasks that the invariant depends on.\<close>

definition same_rq :: "cfs_rq \<Rightarrow> cfs_rq \<Rightarrow> bool" where
  "same_rq q q' \<longleftrightarrow> tasks_timeline q' = tasks_timeline q \<and> nr_running q' = nr_running q \<and> curr q' = curr q \<and>
     weight (rq_load q') = weight (rq_load q)"

definition same_task :: "cfs_task \<Rightarrow> cfs_task \<Rightarrow> bool" where
  "same_task k k' \<longleftrightarrow> on_rq k' = on_rq k \<and> weight (load k') = weight (load k) \<and> last_run k' = last_run k"

lemma same_rq_refl [simp]: "same_rq q q"
  by (simp add: same_rq_def)

lemma same_task_refl [simp]: "same_task k k"
  by (simp add: same_task_def)

lemma same_rq_trans: "same_rq q r \<Longrightarrow> same_rq r s \<Longrightarrow> same_rq q s"
  by (simp add: same_rq_def)

lemma same_task_trans: "same_task q r \<Longrightarrow> same_task r s \<Longrightarrow> same_task q s"
  by (simp add: same_task_def)

lemma cfs_inv_cong:
  assumes "cfs_inv q T" "same_rq q q'" "\<And>t. t \<in> set (members q) \<Longrightarrow> same_task (T t) (T' t)"
  shows "cfs_inv q' T'"
proof -
  have "fq_inv (curr q) (queue q) (nr_running q) (weight (rq_load q)) (\<lambda>t. on_rq (T' t)) (\<lambda>t. weight (load (T' t)))"
    by (rule fq_inv_cong [where on = "\<lambda>t. on_rq (T t)" and wt = "\<lambda>t. weight (load (T t))"])
      (use assms(1,3) in \<open>auto simp: cfs_inv_def same_task_def\<close>)
  then show ?thesis using assms(1,2) by (simp add: cfs_inv_def same_rq_def)
qed

lemma cfs_inv_curr: "cfs_inv q T \<Longrightarrow> curr q = Some c \<Longrightarrow> on_rq (T c) \<and> c < MAX_TASKS \<and> c \<notin> set (queue q)"
  by (simp add: cfs_inv_def fq_inv_def)

lemma cfs_inv_queue: "cfs_inv q T \<Longrightarrow> t \<in> set (queue q) \<Longrightarrow> on_rq (T t) \<and> curr q \<noteq> Some t"
  by (cases "curr q") (auto simp: cfs_inv_def fq_inv_def)

lemma update_min_same: "same_rq q (update_min_vruntime q T)"
  by (simp add: update_min_vruntime_def same_rq_def Let_def)

lemma update_curr_same:
  "update_curr q T now = (q', T') \<Longrightarrow> same_rq q q' \<and> (\<forall>t. same_task (T t) (T' t)) \<and> (\<forall>t. curr q \<noteq> Some t \<longrightarrow> T' t = T t)"
  using update_min_same
  by (auto simp: update_curr_def Let_def same_task_def weight_calcD split: option.splits if_splits prod.splits)

lemma sched_slice_same: "sched_slice q k = (v, q') \<Longrightarrow> same_rq q q' \<and> min_vruntime q' = min_vruntime q"
  by (auto simp: sched_slice_def same_rq_def Let_def weight_calcD split: if_splits prod.splits)

lemma place_task_same:
  "place_task q T t init = (q', T') \<Longrightarrow> same_rq q q' \<and> same_task (T t) (T' t) \<and> (\<forall>u. u \<noteq> t \<longrightarrow> T' u = T u)"
proof (cases init)
  case True
  assume p: "place_task q T t init = (q', T')"
  obtain sl q1 where s: "sched_slice q (T t) = (sl, q1)" by fastforce
  obtain vs lw where c: "calc_delta_fair sl (load (T t)) = (vs, lw)" by fastforce
  have "weight lw = weight (load (T t))" by (rule weight_calcD(2) [OF c])
  then show ?thesis using p True sched_slice_same [OF s] s c by (auto simp: place_task_def Let_def same_task_def)
qed (auto simp: place_task_def Let_def same_task_def)

lemma enqueue_node_ok:
  assumes "tree_ok q"
  shows "\<exists>q' xs ys. enqueue_node q T t = Some q' \<and> tree_ok q' \<and> queue q = xs @ ys \<and> queue q' = xs @ t # ys \<and>
    ordered_at (vruntime_lt T) t xs ys \<and> (\<exists>r. q' = q\<lparr>tasks_timeline := r\<rparr>)"
proof -
  from add_ok [of "tasks_timeline q" dummy_compute "vruntime_lt T" t "()"] assms obtain r xs ys where
    r: "rb_add_cached (vruntime_lt T) t (tasks_timeline q) = Some r" "root_ok r"
      "queue q = xs @ ys" "nodes r = xs @ t # ys" "ordered_at (vruntime_lt T) t xs ys"
    by (auto simp: rb_add_cached_def)
  then show ?thesis
    by (intro exI [of _ "q\<lparr>tasks_timeline := r\<rparr>"] exI [of _ xs] exI [of _ ys]) (auto simp: enqueue_node_def)
qed

lemma dequeue_node_ok:
  assumes "tree_ok q" "distinct (queue q)" "t \<in> set (queue q)"
  shows "\<exists>q'. dequeue_node q t = Some q' \<and> tree_ok q' \<and> queue q' = remove1 t (queue q) \<and> (\<exists>r. q' = q\<lparr>tasks_timeline := r\<rparr>)"
  using erase_ok [of "tasks_timeline q" t dummy_compute] assms
  by (auto simp: dequeue_node_def rb_erase_cached_def)

text \<open>A task joins a run queue.\<close>

lemma cfs_inv_join:
  assumes "cfs_inv q T" "t \<notin> set (members q)" "t < MAX_TASKS" "tree_ok q'" "queue q = xs @ ys" "queue q' = xs @ t # ys"
    "curr q' = curr q" "nr_running q' = nr_running q + 1" "weight (rq_load q') = weight (rq_load q) + weight (load (T t))"
    "on_rq (T' t)" "same_task (T t\<lparr>on_rq := True\<rparr>) (T' t)" "\<And>u. u \<noteq> t \<Longrightarrow> same_task (T u) (T' u)"
  shows "cfs_inv q' T'"
proof -
  have "fq_inv (curr q) (queue q') (nr_running q + 1) (weight (rq_load q) + weight (load (T t))) (\<lambda>t. on_rq (T' t)) (\<lambda>t. weight (load (T' t)))"
    by (rule fq_inv_join [where on = "\<lambda>t. on_rq (T t)" and q = "queue q" and t = t])
      (use assms in \<open>auto simp: cfs_inv_def same_task_def\<close>)
  then show ?thesis using assms(4,7-9) by (simp add: cfs_inv_def)
qed

text \<open>A task moves between the tree and the current task.\<close>

lemma cfs_inv_move:
  assumes "cfs_inv q T" "mset (members q') = mset (members q)" "tree_ok q'" "nr_running q' = nr_running q"
    "weight (rq_load q') = weight (rq_load q)" "\<And>t. t \<in> set (members q) \<Longrightarrow> on_rq (T' t) = on_rq (T t) \<and> weight (load (T' t)) = weight (load (T t))"
  shows "cfs_inv q' T'"
proof -
  have "fq_inv (curr q) (queue q) (nr_running q) (weight (rq_load q)) (\<lambda>t. on_rq (T' t)) (\<lambda>t. weight (load (T' t)))"
    by (rule fq_inv_cong [where on = "\<lambda>t. on_rq (T t)" and wt = "\<lambda>t. weight (load (T t))"])
      (use assms(1,6) in \<open>auto simp: cfs_inv_def\<close>)
  from fq_inv_move [OF this assms(2)] show ?thesis using assms(3-5) by (simp add: cfs_inv_def)
qed

text \<open>The current task leaves.\<close>

lemma cfs_inv_leave:
  assumes "cfs_inv q T" "curr q = Some c" "tasks_timeline q' = tasks_timeline q" "curr q' = None"
    "nr_running q' = nr_running q - 1" "weight (rq_load q') = weight (rq_load q) - weight (load (T c))"
    "\<And>u. u \<noteq> c \<Longrightarrow> same_task (T u) (T' u)"
  shows "cfs_inv q' T'"
proof -
  have "fq_inv None (queue q) (nr_running q - 1) (weight (rq_load q) - weight (load (T c))) (\<lambda>t. on_rq (T' t)) (\<lambda>t. weight (load (T' t)))"
    by (rule fq_inv_leave [where on = "\<lambda>t. on_rq (T t)"]) (use assms in \<open>auto simp: cfs_inv_def same_task_def\<close>)
  then show ?thesis using assms(1,3-6) by (simp add: cfs_inv_def)
qed

subsection \<open>Steps of one run queue\<close>

text \<open>What a step does to the queue of a CPU: the tasks in it keep their virtual runtimes, and at most one
  task joins it at its place in the order, or the first one leaves.\<close>

definition qstep :: "cfs_rq \<Rightarrow> ctasks \<Rightarrow> cfs_rq \<Rightarrow> ctasks \<Rightarrow> bool" where
  "qstep q T q' T' \<longleftrightarrow> (\<forall>u \<in> set (queue q). vruntime (T' u) = vruntime (T u)) \<and>
     (queue q' = queue q \<or> queue q' = tl (queue q) \<or>
      (\<exists>t xs ys. queue q = xs @ ys \<and> queue q' = xs @ t # ys \<and> ordered_at (vruntime_lt T') t xs ys))"

lemma vruntime_lt_cong: "(\<And>u. vruntime (T u) = vruntime (T' u)) \<Longrightarrow> vruntime_lt T = vruntime_lt T'"
  by (simp add: vruntime_lt_def fun_eq_iff)

lemma qstep_join:
  "queue q = xs @ ys \<Longrightarrow> queue q' = xs @ t # ys \<Longrightarrow> ordered_at (vruntime_lt T') t xs ys \<Longrightarrow>
    (\<And>u. u \<in> set (queue q) \<Longrightarrow> vruntime (T' u) = vruntime (T u)) \<Longrightarrow> qstep q T q' T'"
  unfolding qstep_def by blast

lemma enqueue_task_ok:
  assumes "cfs_inv q T" "t \<notin> set (members q)" "t < MAX_TASKS"
  shows "\<exists>q' T'. enqueue_task q T t wakeup now = Some (q', T') \<and> cfs_inv q' T' \<and> curr q' = curr q \<and>
    mset (queue q') = add_mset t (mset (queue q)) \<and> set (members q') = insert t (set (members q)) \<and> last_run (T' t) = last_run (T t) \<and>
    (\<forall>u. u \<noteq> t \<longrightarrow> same_task (T u) (T' u)) \<and> qstep q T q' T' \<and> (\<forall>u. u \<noteq> t \<longrightarrow> curr q \<noteq> Some u \<longrightarrow> T' u = T u)"
proof -
  have nc: "curr q \<noteq> Some t" using assms(2) by (auto simp: fq_set)
  obtain q1 T1 where u: "update_curr q T now = (q1, T1)" by fastforce
  note us = update_curr_same [OF u]
  define q2 where "q2 = enqueue_update q1 (T1 t)"
  define T2 where "T2 = (if \<not> wakeup then upd t (\<lambda>k. k\<lparr>vruntime := vruntime k + min_vruntime q2\<rparr>) T1 else T1)"
  obtain q3 T3 where p: "(if wakeup then place_task q2 T2 t False else (q2, T2)) = (q3, T3)" by fastforce
  have 3: "same_rq q2 q3" "same_task (T2 t) (T3 t)" "\<forall>u. u \<noteq> t \<longrightarrow> T3 u = T2 u"
    using p place_task_same [of q2 T2 t False q3 T3] by (auto split: if_splits)
  have t2: "same_task (T1 t) (T2 t)" "\<forall>u. u \<noteq> t \<longrightarrow> T2 u = T1 u" by (auto simp: T2_def same_task_def)
  have rq: "tasks_timeline q3 = tasks_timeline q" "curr q3 = curr q" "nr_running q3 = nr_running q + 1"
      "weight (rq_load q3) = weight (rq_load q) + weight (load (T t))"
    using 3(1) us by (auto simp: same_rq_def q2_def enqueue_update_def update_load_add_def same_task_def)
  have "tree_ok q3" using assms(1) rq(1) by (simp add: cfs_inv_def fq_inv_def root_ok_def)
  from enqueue_node_ok [OF this, of T3 t] obtain q4 xs ys where
    4: "enqueue_node q3 T3 t = Some q4" "tree_ok q4" "queue q3 = xs @ ys" "queue q4 = xs @ t # ys" "\<exists>r. q4 = q3\<lparr>tasks_timeline := r\<rparr>"
    "ordered_at (vruntime_lt T3) t xs ys" by auto
  let ?T = "upd t (\<lambda>k. k\<lparr>on_rq := True\<rparr>) T3"
  have fr: "\<forall>u. u \<noteq> t \<longrightarrow> curr q \<noteq> Some u \<longrightarrow> ?T u = T u" using us t2(2) 3(3) by simp
  have "vruntime_lt T3 = vruntime_lt ?T" by (rule vruntime_lt_cong) simp
  then have qs: "qstep q T q4 ?T"
    using 4(3,4,6) rq(1) fr assms(2) cfs_inv_queue [OF assms(1)] by (intro qstep_join [of _ xs ys _ t]) (auto simp: fq_set)
  have e: "enqueue_task q T t wakeup now = Some (q4, ?T)"
    using nc u p 4(1) by (auto simp: enqueue_task_def Let_def q2_def T2_def split: if_splits)
  have st: "same_task (T u) (?T u)" if "u \<noteq> t" for u using that us t2(2) 3(3) by simp
  have tt: "same_task (T t\<lparr>on_rq := True\<rparr>) (?T t)" using us t2(1) 3(2) by (auto simp: same_task_def)
  from 4(5) have f: "curr q4 = curr q" "nr_running q4 = nr_running q + 1" "weight (rq_load q4) = weight (rq_load q) + weight (load (T t))"
    using rq by auto
  have j: "cfs_inv q4 ?T" using rq(1) 4(3) by (intro cfs_inv_join [OF assms 4(2) _ 4(4) f _ tt st]) simp_all
  have "mset (queue q4) = add_mset t (mset (queue q))" using 4(3,4) rq(1) by simp
  moreover have "set (members q4) = insert t (set (members q))" using 4(3,4) rq(1) f(1) by (auto simp: fq_set)
  ultimately show ?thesis using e j f(1) st tt qs fr
    by (intro exI [of _ q4] exI [of _ ?T]) (simp add: same_task_def)
qed

lemma dequeue_curr_ok:
  assumes "cfs_inv q T" "curr q = Some c"
  shows "\<exists>q' T'. dequeue_task q T c sleep now = Some (q', T') \<and> cfs_inv (q'\<lparr>curr := None\<rparr>) T' \<and>
    queue q' = queue q \<and> \<not> on_rq (T' c) \<and> last_run (T' c) = last_run (T c) \<and> (\<forall>u. u \<noteq> c \<longrightarrow> same_task (T u) (T' u)) \<and>
    (\<forall>u. u \<noteq> c \<longrightarrow> T' u = T u)"
proof -
  obtain q1 T1 where u: "update_curr q T now = (q1, T1)" by fastforce
  note us = update_curr_same [OF u]
  define q2 where "q2 = dequeue_update q1 (T1 c)"
  define T2 where "T2 = (let T2 = upd c (\<lambda>k. k\<lparr>on_rq := False\<rparr>) T1
     in if \<not> sleep then upd c (\<lambda>k. k\<lparr>vruntime := vruntime k - min_vruntime q2\<rparr>) T2 else T2)"
  have c1: "curr q2 = Some c" using us assms(2) by (simp add: q2_def dequeue_update_def same_rq_def)
  have e: "dequeue_task q T c sleep now = Some (update_min_vruntime q2 T2, T2)"
    using u c1 by (simp add: dequeue_task_def Let_def q2_def T2_def)
  have t2: "\<not> on_rq (T2 c)" "last_run (T2 c) = last_run (T c)" "\<forall>u. u \<noteq> c \<longrightarrow> same_task (T u) (T2 u)"
    using us by (auto simp: T2_def Let_def same_task_def)
  have "\<forall>u. u \<noteq> c \<longrightarrow> T2 u = T u" using us assms(2) by (auto simp: T2_def Let_def)
  note t2 = t2 this
  let ?q = "update_min_vruntime q2 T2"
  have "same_rq q2 ?q" by (rule update_min_same)
  then have f: "tasks_timeline ?q = tasks_timeline q" "nr_running ?q = nr_running q - 1"
      "weight (rq_load ?q) = weight (rq_load q) - weight (load (T c))"
    using us by (auto simp: same_rq_def q2_def dequeue_update_def update_load_sub_def same_task_def)
  have "cfs_inv (?q\<lparr>curr := None\<rparr>) T2"
    by (rule cfs_inv_leave [OF assms]) (use f t2(3) in auto)
  then show ?thesis using e t2 f(1) by (intro exI [of _ ?q] exI [of _ T2]) (simp add: same_task_def)
qed

lemma set_next_ok:
  assumes "cfs_inv q T" "curr q = None" "t \<in> set (queue q)"
  shows "\<exists>q' T'. set_next_task q T t cpu now = Some (q', T') \<and> cfs_inv q' T' \<and> curr q' = Some t \<and>
    queue q' = remove1 t (queue q) \<and> set (members q') = set (members q) \<and> last_run (T' t) = cpu \<and> on_rq (T' t) \<and>
    (\<forall>u. u \<noteq> t \<longrightarrow> T' u = T u) \<and> vruntime (T' t) = vruntime (T t)"
proof -
  have m: "members q = queue q" using assms(2) by (simp add: fq_set)
  with assms have "tree_ok q" "distinct (queue q)" "on_rq (T t)" by (auto simp: cfs_inv_def fq_inv_def)
  from dequeue_node_ok [OF this(1,2) assms(3)] obtain q1 where
    q1: "dequeue_node q t = Some q1" "tree_ok q1" "queue q1 = remove1 t (queue q)" "\<exists>r. q1 = q\<lparr>tasks_timeline := r\<rparr>" by auto
  let ?q = "q1\<lparr>curr := Some t\<rparr>"
  let ?T = "upd t (\<lambda>k. k\<lparr>exec_start := now, last_run := cpu, prev_sum_exec_runtime := sum_exec_runtime k\<rparr>) T"
  have mm: "mset (members ?q) = mset (members q)" using q1(3) assms(3) m by (simp add: fq_set)
  have "cfs_inv ?q ?T"
    by (rule cfs_inv_move [OF assms(1) mm]) (use q1(2,4) in \<open>auto simp: root_ok_def\<close>)
  moreover have "set_next_task q T t cpu now = Some (?q, ?T)"
    using q1(1) \<open>on_rq (T t)\<close> by (simp add: set_next_task_def)
  ultimately show ?thesis using q1(3) mset_eq_setD [OF mm] \<open>on_rq (T t)\<close> by simp
qed

lemma put_prev_ok:
  assumes "cfs_inv q T" "curr q = Some c" "update_curr q T now = (q1, T1)"
  shows "\<exists>q2. enqueue_node q1 T1 c = Some q2 \<and> cfs_inv (q2\<lparr>curr := None\<rparr>) T1 \<and>
    mset (queue q2) = add_mset c (mset (queue q)) \<and> set (members (q2\<lparr>curr := None\<rparr>)) = set (members q) \<and>
    qstep q T (q2\<lparr>curr := None\<rparr>) T1"
proof -
  note us = update_curr_same [OF assms(3)]
  have "tree_ok q1" using assms(1) us by (simp add: cfs_inv_def fq_inv_def root_ok_def same_rq_def)
  from enqueue_node_ok [OF this, of T1 c] obtain q2 xs ys where
    q2: "enqueue_node q1 T1 c = Some q2" "tree_ok q2" "queue q1 = xs @ ys" "queue q2 = xs @ c # ys"
        "\<exists>r. q2 = q1\<lparr>tasks_timeline := r\<rparr>" "ordered_at (vruntime_lt T1) c xs ys" by auto
  have "queue q1 = queue q" using us by (simp add: same_rq_def)
  then have "mset (queue q) = mset xs + mset ys" using q2(3) by (metis mset_append)
  then have mq: "mset (queue q2) = add_mset c (mset (queue q))" using q2(4) by simp
  let ?q = "q2\<lparr>curr := None\<rparr>"
  have mm: "mset (members ?q) = mset (members q)" using mq assms(2) by (simp add: fq_set)
  have "cfs_inv ?q T1"
    by (rule cfs_inv_move [OF assms(1) mm])
      (use q2(2,5) us in \<open>auto simp: root_ok_def same_rq_def same_task_def\<close>)
  moreover have "qstep q T ?q T1"
    using q2(3,4,6) us assms(1,2) by (intro qstep_join [of _ xs ys _ c]) (auto simp: cfs_inv_def fq_inv_def fq_set same_rq_def)
  ultimately show ?thesis using q2(1) mq mset_eq_setD [OF mm] by simp
qed

section \<open>All CPUs\<close>

definition cfs_ok :: "cfs_st \<Rightarrow> bool" where
  "cfs_ok s \<longleftrightarrow> (\<forall>cpu < USED_CPUS. cfs_inv (cfs_rqs s cpu) (ctask s)) \<and>
     placed (\<lambda>c. set (members (cfs_rqs s c))) (\<lambda>t. on_rq (ctask s t)) \<and>
     (\<forall>t. 0 \<le> last_run (ctask s t) \<and> last_run (ctask s t) < int USED_CPUS)"

definition cfs_queued :: "cfs_st \<Rightarrow> task multiset" where
  "cfs_queued s = (\<Sum>cpu < USED_CPUS. mset (queue (cfs_rqs s cpu)))"

lemma cfs_ok_not_member: "cfs_ok s \<Longrightarrow> \<not> on_rq (ctask s t) \<Longrightarrow> cpu < USED_CPUS \<Longrightarrow> t \<notin> set (members (cfs_rqs s cpu))"
  by (auto simp: cfs_ok_def placed_def)

text \<open>One run queue changes: tasks that join it were not on any, tasks that leave are not marked any more,
  and the tasks elsewhere stay as they are.\<close>

lemma cfs_ok_update:
  assumes ok: "cfs_ok s" and c: "cpu < USED_CPUS" and inv: "cfs_inv q T"
    and join: "\<And>u. u \<in> set (members q) \<Longrightarrow> u \<notin> set (members (cfs_rqs s cpu)) \<Longrightarrow> \<not> on_rq (ctask s u)"
    and leave: "\<And>u. u \<in> set (members (cfs_rqs s cpu)) \<Longrightarrow> u \<notin> set (members q) \<Longrightarrow> \<not> on_rq (T u)"
    and rest: "\<And>u. u \<notin> set (members q) \<Longrightarrow> u \<notin> set (members (cfs_rqs s cpu)) \<Longrightarrow> same_task (ctask s u) (T u)"
    and run: "\<And>u. 0 \<le> last_run (T u) \<and> last_run (T u) < int USED_CPUS"
  shows "cfs_ok (set_rq s cpu (q, T))"
proof -
  let ?M = "\<lambda>c. set (members (cfs_rqs s c))"
  have p: "placed ?M (\<lambda>t. on_rq (ctask s t))" using ok by (simp add: cfs_ok_def)
  have "\<forall>u \<in> set (members q). on_rq (T u)" using inv by (simp add: cfs_inv_def fq_inv_def)
  then have "placed (?M(cpu := set (members q))) (\<lambda>t. on_rq (T t))"
    by (intro placed_update [OF p c]) (use join leave rest in \<open>auto simp: same_task_def\<close>)
  moreover have "?M(cpu := set (members q)) = (\<lambda>d. set (members (((cfs_rqs s)(cpu := q)) d)))" by (rule ext) simp
  ultimately have pl: "placed (\<lambda>d. set (members (((cfs_rqs s)(cpu := q)) d))) (\<lambda>t. on_rq (T t))" by simp
  have "cfs_inv (cfs_rqs s d) T" if d: "d < USED_CPUS" "d \<noteq> cpu" for d
  proof (rule cfs_inv_cong [OF _ same_rq_refl])
    show "cfs_inv (cfs_rqs s d) (ctask s)" using ok d by (simp add: cfs_ok_def)
    fix u assume "u \<in> set (members (cfs_rqs s d))"
    then have "u \<notin> ?M cpu \<and> on_rq (ctask s u)" using d by (intro placed_other [OF p c]) auto
    then show "same_task (ctask s u) (T u)" using join rest by blast
  qed
  then show ?thesis using inv run pl by (simp add: cfs_ok_def)
qed

lemma cfs_queued_upd:
  "cpu < USED_CPUS \<Longrightarrow> cfs_queued (set_rq s cpu (q, T)) + mset (queue (cfs_rqs s cpu)) = cfs_queued s + mset (queue q)"
  using sum_fun_upd [of cpu USED_CPUS "\<lambda>q. mset (queue q)" "cfs_rqs s" q] by (simp add: cfs_queued_def)

definition queue_step :: "cfs_st \<Rightarrow> cfs_st \<Rightarrow> bool" where
  "queue_step s s' \<longleftrightarrow> (\<forall>cpu < USED_CPUS. qstep (cfs_rqs s cpu) (ctask s) (cfs_rqs s' cpu) (ctask s'))"

lemma qstep_same: "queue q' = queue q \<Longrightarrow> (\<And>u. u \<in> set (queue q) \<Longrightarrow> vruntime (T' u) = vruntime (T u)) \<Longrightarrow> qstep q T q' T'"
  by (simp add: qstep_def)

lemma queue_step_update:
  assumes "cfs_ok s" "cpu < USED_CPUS" "qstep (cfs_rqs s cpu) (ctask s) q T"
    and rest: "\<And>u. u \<notin> set (members (cfs_rqs s cpu)) \<Longrightarrow> on_rq (ctask s u) \<Longrightarrow> vruntime (T u) = vruntime (ctask s u)"
  shows "queue_step s (set_rq s cpu (q, T))"
proof -
  have "qstep (cfs_rqs s d) (ctask s) (cfs_rqs s d) T" if d: "d < USED_CPUS" "d \<noteq> cpu" for d
  proof (rule qstep_same [OF refl])
    fix u assume "u \<in> set (queue (cfs_rqs s d))"
    then have u: "u \<in> set (members (cfs_rqs s d))" by (simp add: fq_set)
    have "u \<notin> set (members (cfs_rqs s cpu)) \<and> on_rq (ctask s u)"
      using assms(1,2) d u placed_other [of "\<lambda>c. set (members (cfs_rqs s c))" "\<lambda>t. on_rq (ctask s t)" cpu d u] by (simp add: cfs_ok_def)
    then show "vruntime (T u) = vruntime (ctask s u)" using rest by blast
  qed
  then show ?thesis using assms(3) by (simp add: queue_step_def)
qed

lemma nr_running_eq: "cfs_inv q T \<Longrightarrow> unat (nr_running q) = length (members q)"
  unfolding cfs_inv_def using fq_nr by blast

lemma cfs_wakeup_ok:
  assumes "cfs_ok s" "\<not> on_rq (ctask s t)" "t < MAX_TASKS"
  shows "\<exists>s'. cfs_wakeup s t now = Some s' \<and> cfs_ok s' \<and> cfs_queued s' = add_mset t (cfs_queued s) \<and> queue_step s s'"
proof -
  define cpu where "cpu = nat (last_run (ctask s t))"
  have c: "0 \<le> last_run (ctask s t)" "cpu < USED_CPUS" using assms(1) by (auto simp: cfs_ok_def cpu_def nat_less_iff)
  have nm: "t \<notin> set (members (cfs_rqs s cpu))" by (rule cfs_ok_not_member [OF assms(1,2) c(2)])
  have "cfs_inv (cfs_rqs s cpu) (ctask s)" using assms(1) c by (simp add: cfs_ok_def)
  from enqueue_task_ok [OF this nm assms(3), of True now] obtain q T where
    e: "enqueue_task (cfs_rqs s cpu) (ctask s) t True now = Some (q, T)" "cfs_inv q T"
       "mset (queue q) = add_mset t (mset (queue (cfs_rqs s cpu)))" "set (members q) = insert t (set (members (cfs_rqs s cpu)))"
       "last_run (T t) = last_run (ctask s t)" "\<forall>u. u \<noteq> t \<longrightarrow> same_task (ctask s u) (T u)"
       "qstep (cfs_rqs s cpu) (ctask s) q T" "\<forall>u. u \<noteq> t \<longrightarrow> curr (cfs_rqs s cpu) \<noteq> Some u \<longrightarrow> T u = ctask s u" by auto
  have qs: "queue_step s (set_rq s cpu (q, T))"
    using e(8) assms(2) by (intro queue_step_update [OF assms(1) c(2) e(7)]) (auto simp: fq_set)
  have "last_run (T u) = last_run (ctask s u)" for u using e(5,6) by (cases "u = t") (auto simp: same_task_def)
  then have "cfs_ok (set_rq s cpu (q, T))"
    using e assms(1,2) by (intro cfs_ok_update [OF assms(1) c(2)]) (auto simp: cfs_ok_def)
  moreover have "cfs_queued (set_rq s cpu (q, T)) = add_mset t (cfs_queued s)"
    using cfs_queued_upd [OF c(2), where s = s and q = q and T = T] e(3) by simp
  ultimately show ?thesis using c assms(2) e(1) qs by (simp add: cfs_wakeup_def cfs_find_target_cpu_def cpu_def)
qed

lemma fork_task_same:
  assumes "fork_task q T t now = (q', T')" "curr q \<noteq> Some t"
  shows "same_rq q q' \<and> same_task (T u) (T' u) \<and> (u \<noteq> t \<longrightarrow> curr q \<noteq> Some u \<longrightarrow> T' u = T u)"
proof -
  obtain q1 T1 where u: "update_curr q T now = (q1, T1)" by fastforce
  define T2 where "T2 = (case curr q1 of Some c \<Rightarrow> upd t (\<lambda>k. k\<lparr>vruntime := vruntime (T1 c)\<rparr>) T1 | None \<Rightarrow> T1)"
  obtain q3 T3 where p: "place_task q1 T2 t True = (q3, T3)" by fastforce
  have "q' = q3" "T' = upd t (\<lambda>k. k\<lparr>vruntime := vruntime k - min_vruntime q3\<rparr>) T3"
    using assms(1) u p by (auto simp: fork_task_def T2_def Let_def)
  moreover have "same_task (T1 u) (T2 u) \<and> (u \<noteq> t \<longrightarrow> T2 u = T1 u)" for u by (auto simp: T2_def same_task_def split: option.splits)
  ultimately show ?thesis
    using update_curr_same [OF u] place_task_same [OF p]
    by (cases "u = t") (auto simp: same_task_def same_rq_def)
qed

lemma target_cpu_range:
  assumes "0 \<le> fst (cfs_find_target_cpu s t True)"
  shows "nat (fst (cfs_find_target_cpu s t True)) < USED_CPUS"
proof -
  have "fst (cfs_find_target_cpu s t True) < int USED_CPUS"
    using pos_mod_bound [of "int USED_CPUS" "\<bar>TARGET_CPU s\<bar>"] pos_mod_sign [of "int USED_CPUS" "\<bar>TARGET_CPU s\<bar>"]
    by (auto simp: cfs_find_target_cpu_def USED_CPUS_def sgn_if)
  then show ?thesis using assms by (simp add: nat_less_iff)
qed

lemma cfs_fork_ok:
  assumes "cfs_ok s" "\<not> on_rq (ctask s t)" "0 \<le> fst (cfs_find_target_cpu s t True)"
  shows "\<exists>cpu s'. cfs_fork s t now = Some (cpu, s') \<and> cpu < USED_CPUS \<and> cfs_ok s' \<and> \<not> on_rq (ctask s' t) \<and> cfs_queued s' = cfs_queued s \<and> queue_step s s'"
proof -
  define cpu where "cpu = nat (fst (cfs_find_target_cpu s t True))"
  let ?s = "s\<lparr>TARGET_CPU := signed_take_bit 31 (TARGET_CPU s + 1)\<rparr>"
  have tc: "cfs_find_target_cpu s t True = (int cpu, ?s)" using assms(3) by (simp add: cfs_find_target_cpu_def cpu_def)
  have c: "cpu < USED_CPUS" unfolding cpu_def by (rule target_cpu_range [OF assms(3)])
  have ok: "cfs_ok ?s" using assms(1) by (simp add: cfs_ok_def)
  have nm: "t \<notin> set (members (cfs_rqs s cpu))" by (rule cfs_ok_not_member [OF assms(1,2) c])
  obtain q T where f: "fork_task (cfs_rqs s cpu) (ctask s) t now = (q, T)" by fastforce
  have "curr (cfs_rqs s cpu) \<noteq> Some t" using nm by (auto simp: fq_set)
  from fork_task_same [OF f this] have fs: "same_rq (cfs_rqs s cpu) q" "same_task (ctask s u) (T u)"
    and fr: "u \<noteq> t \<Longrightarrow> curr (cfs_rqs s cpu) \<noteq> Some u \<Longrightarrow> T u = ctask s u" for u by auto
  have mq: "members q = members (cfs_rqs s cpu)" "queue q = queue (cfs_rqs s cpu)" using fs(1) by (simp_all add: fq_set same_rq_def)
  have i: "cfs_inv (cfs_rqs s cpu) (ctask s)" using assms(1) c by (simp add: cfs_ok_def)
  have "vruntime (T u) = vruntime (ctask s u)" if "u \<in> set (queue (cfs_rqs s cpu))" for u
    using fr [of u] cfs_inv_queue [OF i that] that nm by (cases "u = t") (auto simp: fq_set)
  then have "qstep (cfs_rqs s cpu) (ctask s) q T" by (intro qstep_same mq(2))
  moreover have "vruntime (T u) = vruntime (ctask s u)" if "u \<notin> set (members (cfs_rqs s cpu))" "on_rq (ctask s u)" for u
    using fr [of u] that assms(2) by (cases "u = t") (auto simp: fq_set)
  ultimately have "queue_step ?s (set_rq ?s cpu (q, T))" by (intro queue_step_update [OF ok c]) simp_all
  then have qs: "queue_step s (set_rq ?s cpu (q, T))" by (simp add: queue_step_def)
  have "cfs_inv q T" using fs(2) by (intro cfs_inv_cong [OF i fs(1)])
  moreover have "last_run (T u) = last_run (ctask s u)" for u using fs(2) [of u] by (simp add: same_task_def)
  ultimately have "cfs_ok (set_rq ?s cpu (q, T))"
    using fs(2) assms(1) mq(1) by (intro cfs_ok_update [OF ok c]) (auto simp: cfs_ok_def)
  moreover have "cfs_queued (set_rq ?s cpu (q, T)) = cfs_queued s"
    using cfs_queued_upd [OF c, where s = ?s and q = q and T = T] mq(2) by (simp add: cfs_queued_def)
  moreover have "\<not> on_rq (T t)" using fs(2) [of t] assms(2) by (simp add: same_task_def)
  ultimately show ?thesis using tc f qs c by (simp add: cfs_fork_def)
qed

lemma cfs_put_ok:
  assumes "cfs_ok s" "\<not> on_rq (ctask s t)" "t < MAX_TASKS" "cpu < USED_CPUS"
  shows "\<exists>s'. cfs_put s cpu t now = Some s' \<and> cfs_ok s' \<and> cfs_queued s' = add_mset t (cfs_queued s) \<and> queue_step s s'"
proof -
  have nm: "t \<notin> set (members (cfs_rqs s cpu))" by (rule cfs_ok_not_member [OF assms(1,2,4)])
  have "cfs_inv (cfs_rqs s cpu) (ctask s)" using assms(1,4) by (simp add: cfs_ok_def)
  from enqueue_task_ok [OF this nm assms(3), of False now] obtain q T where
    e: "enqueue_task (cfs_rqs s cpu) (ctask s) t False now = Some (q, T)" "cfs_inv q T"
       "mset (queue q) = add_mset t (mset (queue (cfs_rqs s cpu)))" "set (members q) = insert t (set (members (cfs_rqs s cpu)))"
       "last_run (T t) = last_run (ctask s t)" "\<forall>u. u \<noteq> t \<longrightarrow> same_task (ctask s u) (T u)"
       "qstep (cfs_rqs s cpu) (ctask s) q T" "\<forall>u. u \<noteq> t \<longrightarrow> curr (cfs_rqs s cpu) \<noteq> Some u \<longrightarrow> T u = ctask s u" by auto
  have qs: "queue_step s (set_rq s cpu (q, T))"
    using e(8) assms(2) by (intro queue_step_update [OF assms(1,4) e(7)]) (auto simp: fq_set)
  have "last_run (T u) = last_run (ctask s u)" for u using e(5,6) by (cases "u = t") (auto simp: same_task_def)
  then have "cfs_ok (set_rq s cpu (q, T))"
    using e assms(1,2) by (intro cfs_ok_update [OF assms(1,4)]) (auto simp: cfs_ok_def)
  moreover have "cfs_queued (set_rq s cpu (q, T)) = add_mset t (cfs_queued s)"
    using cfs_queued_upd [OF assms(4), where s = s and q = q and T = T] e(3) by simp
  ultimately show ?thesis using assms(2) e(1) qs by (simp add: cfs_put_def put_task_def)
qed

lemma cfs_spawn_some:
  assumes "cfs_ok s" "\<not> on_rq (ctask s t)" "t < MAX_TASKS" "0 \<le> TARGET_CPU s"
  shows "\<exists>s'. cfs_spawn s t now now' = Some s' \<and> cfs_queued s' = add_mset t (cfs_queued s)"
proof -
  have "0 \<le> fst (cfs_find_target_cpu s t True)" using assms(4) by (simp add: cfs_find_target_cpu_def USED_CPUS_def sgn_if)
  from cfs_fork_ok [OF assms(1,2) this, of now] obtain cpu s1 where f: "cfs_fork s t now = Some (cpu, s1)" "cpu < USED_CPUS" "cfs_ok s1"
      "\<not> on_rq (ctask s1 t)" "cfs_queued s1 = cfs_queued s" by blast
  from cfs_put_ok [OF f(3,4) assms(3) f(2), of now'] show ?thesis using f(1,5) by (auto simp: cfs_spawn_def)
qed

lemma cfs_pick_ok:
  assumes "cfs_ok s" "cpu < USED_CPUS" "curr (cfs_rqs s cpu) = None"
  shows "if queue (cfs_rqs s cpu) = [] then cfs_pick_next s cpu now = Some (None, s)
    else \<exists>t s'. cfs_pick_next s cpu now = Some (Some t, s') \<and> t = hd (queue (cfs_rqs s cpu)) \<and> cfs_ok s' \<and>
      cfs_queued s = add_mset t (cfs_queued s') \<and> curr (cfs_rqs s' cpu) = Some t \<and>
      queue (cfs_rqs s' cpu) = tl (queue (cfs_rqs s cpu)) \<and> queue_step s s'"
proof -
  let ?q = "cfs_rqs s cpu"
  have inv: "cfs_inv ?q (ctask s)" using assms by (simp add: cfs_ok_def)
  have nr: "unat (nr_running ?q) = length (queue ?q)" using nr_running_eq [OF inv] assms(3) by (simp add: fq_set)
  show ?thesis
  proof (cases "queue ?q")
    case Nil
    then have "nr_running ?q = 0" using nr by (simp add: unat_eq_zero)
    then show ?thesis using Nil by (simp add: cfs_pick_next_def)
  next
    case (Cons t ts)
    then have nz: "nr_running ?q \<noteq> 0" using nr by auto
    have fst: "rb_first_cached (tasks_timeline ?q) = Some t" using inv Cons by (simp add: cfs_inv_def fq_inv_def root_ok_def rb_first_hd)
    from set_next_ok [OF inv assms(3), of t "int cpu" now] Cons obtain q T where
      e: "set_next_task ?q (ctask s) t (int cpu) now = Some (q, T)" "cfs_inv q T" "curr q = Some t" "queue q = ts"
         "set (members q) = set (members ?q)" "last_run (T t) = int cpu" "\<forall>u. u \<noteq> t \<longrightarrow> T u = ctask s u"
         "vruntime (T t) = vruntime (ctask s t)" by auto
    have vr: "vruntime (T u) = vruntime (ctask s u)" for u using e(7,8) by (cases "u = t") auto
    have qs: "queue_step s (set_rq s cpu (q, T))"
      using e(4) Cons vr by (intro queue_step_update [OF assms(1,2)]) (auto simp: qstep_def)
    have "t \<in> set (members ?q)" using Cons by (simp add: fq_set)
    with e have ok: "cfs_ok (set_rq s cpu (q, T))"
      using assms by (intro cfs_ok_update [OF assms(1,2)]) (auto simp: cfs_ok_def, metis e(6,7) of_nat_0_le_iff, metis e(6,7) of_nat_less_iff)
    moreover have "cfs_queued s = add_mset t (cfs_queued (set_rq s cpu (q, T)))"
      using cfs_queued_upd [OF assms(2), where s = s and q = q and T = T] e(4) Cons by simp
    moreover have "cfs_pick_next s cpu now = Some (Some t, set_rq s cpu (q, T))" using nz fst e(1) by (simp add: cfs_pick_next_def)
    ultimately show ?thesis using Cons e(3,4) qs by simp
  qed
qed

lemma cfs_yield_ok:
  assumes "cfs_ok s" "cpu < USED_CPUS" "curr (cfs_rqs s cpu) = Some c"
  shows "\<exists>s'. cfs_yield s cpu now = Some s' \<and> cfs_ok s' \<and> cfs_queued s' = add_mset c (cfs_queued s) \<and> queue_step s s'"
proof -
  let ?q = "cfs_rqs s cpu"
  have inv: "cfs_inv ?q (ctask s)" using assms by (simp add: cfs_ok_def)
  then have on: "on_rq (ctask s c)" using assms(3) by (simp add: cfs_inv_def fq_inv_def fq_set)
  obtain q1 T1 where u: "update_curr ?q (ctask s) now = (q1, T1)" by fastforce
  note us = update_curr_same [OF u]
  from put_prev_ok [OF inv assms(3) u] obtain q2 where
    e: "enqueue_node q1 T1 c = Some q2" "cfs_inv (q2\<lparr>curr := None\<rparr>) T1" "mset (queue q2) = add_mset c (mset (queue ?q))"
       "set (members (q2\<lparr>curr := None\<rparr>)) = set (members ?q)" "qstep ?q (ctask s) (q2\<lparr>curr := None\<rparr>) T1" by auto
  let ?q2 = "q2\<lparr>curr := None\<rparr>"
  have qs: "queue_step s (set_rq s cpu (?q2, T1))"
    using us by (intro queue_step_update [OF assms(1,2) e(5)]) (auto simp: fq_set)
  have "cfs_ok (set_rq s cpu (?q2, T1))"
    using e(2,4) us assms(1) by (intro cfs_ok_update [OF assms(1,2)]) (auto simp: cfs_ok_def same_task_def)
  moreover have "cfs_queued (set_rq s cpu (?q2, T1)) = add_mset c (cfs_queued s)"
    using cfs_queued_upd [OF assms(2), where s = s and q = ?q2 and T = T1] e(3) by simp
  ultimately show ?thesis using assms(3) on u e(1) qs by (simp add: cfs_yield_def)
qed

text \<open>The current task blocks or ends.\<close>

lemma leave_ok:
  assumes "cfs_ok s" "cpu < USED_CPUS" "curr (cfs_rqs s cpu) = Some c"
  shows "\<exists>q T. dequeue_task (cfs_rqs s cpu) (ctask s) c sleep now = Some (q, T) \<and>
    cfs_ok (set_rq s cpu (q\<lparr>curr := None\<rparr>, T)) \<and> cfs_queued (set_rq s cpu (q\<lparr>curr := None\<rparr>, T)) = cfs_queued s \<and> \<not> on_rq (T c) \<and>
    queue_step s (set_rq s cpu (q\<lparr>curr := None\<rparr>, T))"
proof -
  let ?q = "cfs_rqs s cpu"
  have inv: "cfs_inv ?q (ctask s)" using assms by (simp add: cfs_ok_def)
  from dequeue_curr_ok [OF inv assms(3), of sleep now] obtain q T where
    e: "dequeue_task ?q (ctask s) c sleep now = Some (q, T)" "cfs_inv (q\<lparr>curr := None\<rparr>) T" "queue q = queue ?q"
       "\<not> on_rq (T c)" "last_run (T c) = last_run (ctask s c)" "\<forall>u. u \<noteq> c \<longrightarrow> same_task (ctask s u) (T u)"
       "\<forall>u. u \<noteq> c \<longrightarrow> T u = ctask s u" by auto
  have "c \<notin> set (queue ?q)" using inv assms(3) by (simp add: cfs_inv_def fq_inv_def fq_set)
  then have qs: "queue_step s (set_rq s cpu (q\<lparr>curr := None\<rparr>, T))"
    using e(3,7) assms(3) by (intro queue_step_update [OF assms(1,2)] qstep_same) (auto simp: fq_set)
  have m: "set (members ?q) = insert c (set (members (q\<lparr>curr := None\<rparr>)))" "c \<notin> set (members (q\<lparr>curr := None\<rparr>))"
    using assms(3) e(3) inv by (simp_all add: fq_set cfs_inv_def fq_inv_def)
  have "last_run (T u) = last_run (ctask s u)" for u using e(5,6) by (cases "u = c") (auto simp: same_task_def)
  then have "cfs_ok (set_rq s cpu (q\<lparr>curr := None\<rparr>, T))"
    using e m assms(1) by (intro cfs_ok_update [OF assms(1,2)]) (auto simp: cfs_ok_def)
  moreover have "cfs_queued (set_rq s cpu (q\<lparr>curr := None\<rparr>, T)) = cfs_queued s"
    using cfs_queued_upd [OF assms(2), where s = s and q = "q\<lparr>curr := None\<rparr>" and T = T] e(3) by simp
  ultimately show ?thesis using e(1,4) qs by auto
qed

lemma cfs_block_ok:
  assumes "cfs_ok s" "cpu < USED_CPUS" "curr (cfs_rqs s cpu) = Some c"
  shows "\<exists>s'. cfs_block s cpu now = Some s' \<and> cfs_ok s' \<and> cfs_queued s' = cfs_queued s \<and> \<not> on_rq (ctask s' c) \<and> queue_step s s'"
proof -
  have "on_rq (ctask s c)" using assms by (simp add: cfs_ok_def cfs_inv_def fq_inv_def fq_set)
  with leave_ok [OF assms, of True now] assms(3) show ?thesis by (auto simp: cfs_block_def)
qed

lemma cfs_finish_ok:
  assumes "cfs_ok s" "cpu < USED_CPUS" "curr (cfs_rqs s cpu) = Some c"
  shows "\<exists>s'. cfs_finish_task s cpu c now = Some s' \<and> cfs_ok s' \<and> cfs_queued s' = cfs_queued s \<and> \<not> on_rq (ctask s' c) \<and> queue_step s s'"
  using leave_ok [OF assms, of False now] by (auto simp: cfs_finish_task_def)

lemma cfs_preempt_ok:
  assumes "cfs_ok s" "cpu < USED_CPUS" "curr (cfs_rqs s cpu) = Some c"
  shows "\<exists>r s'. cfs_preempt s cpu now = Some (r, s') \<and> cfs_ok s' \<and> cfs_queued s' = cfs_queued s \<and> queue_step s s'"
proof -
  let ?q = "cfs_rqs s cpu"
  obtain q1 T1 where u: "update_curr ?q (ctask s) now = (q1, T1)" by fastforce
  note us = update_curr_same [OF u]
  have "cfs_inv ?q (ctask s)" using assms by (simp add: cfs_ok_def)
  then have inv: "cfs_inv q1 T1" using us by (intro cfs_inv_cong [of ?q "ctask s" q1 T1]) simp_all
  have "c \<notin> set (queue ?q)" using \<open>cfs_inv ?q (ctask s)\<close> assms(3) by (simp add: cfs_inv_def fq_inv_def fq_set)
  then have vr: "u \<in> set (queue ?q) \<Longrightarrow> T1 u = ctask s u" "u \<notin> set (members ?q) \<Longrightarrow> T1 u = ctask s u" for u
    using us assms(3) by (auto simp: fq_set)
  have step: "cfs_ok (set_rq s cpu (q, T1)) \<and> cfs_queued (set_rq s cpu (q, T1)) = cfs_queued s \<and> queue_step s (set_rq s cpu (q, T1))"
    if "same_rq q1 q" for q
  proof (intro conjI)
    have q: "members q = members ?q" "queue q = queue ?q" using that us by (simp_all add: same_rq_def fq_set)
    moreover have "cfs_inv q T1" by (rule cfs_inv_cong [OF inv that same_task_refl])
    ultimately have q: "members q = members ?q" "queue q = queue ?q" "cfs_inv q T1" by simp_all
    then show "cfs_ok (set_rq s cpu (q, T1))"
      using us assms(1) by (intro cfs_ok_update [OF assms(1,2)]) (auto simp: cfs_ok_def same_task_def)
    show "cfs_queued (set_rq s cpu (q, T1)) = cfs_queued s"
      using cfs_queued_upd [OF assms(2), where s = s and q = q and T = T1] q(2) by simp
    show "queue_step s (set_rq s cpu (q, T1))"
      using q(2) vr by (intro queue_step_update [OF assms(1,2)] qstep_same) auto
  qed
  have c: "curr q1 = Some c" using us assms(3) by (simp add: same_rq_def)
  obtain sl q2 where sl: "sched_slice q1 (T1 c) = (sl, q2)" by fastforce
  have q2: "same_rq q1 q2" using sched_slice_same [OF sl] by simp
  show ?thesis
  proof (cases "nr_running q1 > 1")
    case True
    then have "1 < length (members q1)" using nr_running_eq [OF inv] by (simp add: word_less_nat_alt)
    then have "queue q1 \<noteq> []" using c by (simp add: fq_set)
    then obtain f where "rb_first_cached (tasks_timeline q2) = Some f"
      using inv q2 by (cases "queue q1") (auto simp: cfs_inv_def fq_inv_def root_ok_def rb_first_hd same_rq_def)
    then have "\<exists>r. check_preempt_tick q1 T1 c = Some (r, q2)"
      using sl by (simp add: check_preempt_tick_def Let_def) blast
    then obtain r where "check_preempt_tick q1 T1 c = Some (r, q2)" ..
    then show ?thesis using u True c step [OF q2] by (simp add: cfs_preempt_def)
  next
    case False
    then show ?thesis using u step [of q1] by (auto simp: cfs_preempt_def)
  qed
qed

lemma cfs_init_task_ok:
  assumes "cfs_ok s" "\<not> on_rq (ctask s t)"
  shows "cfs_ok (cfs_init_task s t)" "cfs_queued (cfs_init_task s t) = cfs_queued s" "queue_step s (cfs_init_task s t)"
proof -
  let ?k = "\<lparr>last_run = 0, load = update_load_set \<lparr>weight = 0, inv_weight = 0\<rparr> NICE_0_LOAD, on_rq = False,
     exec_start = 0, sum_exec_runtime = 0, prev_sum_exec_runtime = 0, vruntime = 0\<rparr>"
  have "cfs_inv (cfs_rqs s cpu) ((ctask s)(t := ?k))" if "cpu < USED_CPUS" for cpu
  proof (rule cfs_inv_cong [OF _ same_rq_refl])
    show "cfs_inv (cfs_rqs s cpu) (ctask s)" using assms(1) that by (simp add: cfs_ok_def)
    show "same_task (ctask s u) (((ctask s)(t := ?k)) u)" if "u \<in> set (members (cfs_rqs s cpu))" for u
      using cfs_ok_not_member [OF assms \<open>cpu < USED_CPUS\<close>] that by (cases "u = t") simp_all
  qed
  moreover have "cfs_init_task s t = s\<lparr>ctask := (ctask s)(t := ?k)\<rparr>" by (simp only: cfs_init_task_def)
  moreover have "0 < int USED_CPUS" by (simp add: USED_CPUS_def)
  moreover have "(\<lambda>u. on_rq (((ctask s)(t := ?k)) u)) = (\<lambda>u. on_rq (ctask s u))" using assms(2) by auto
  ultimately show "cfs_ok (cfs_init_task s t)" "cfs_queued (cfs_init_task s t) = cfs_queued s"
    using assms(1) by (simp_all add: cfs_ok_def cfs_queued_def)
  have "qstep (cfs_rqs s cpu) (ctask s) (cfs_rqs s cpu) (ctask (cfs_init_task s t))" if "cpu < USED_CPUS" for cpu
    using cfs_ok_not_member [OF assms that] by (intro qstep_same) (auto simp: fq_set cfs_init_task_def)
  then show "queue_step s (cfs_init_task s t)" by (simp add: queue_step_def cfs_init_task_def)
qed

section \<open>Runs\<close>

text \<open>A step of the scheduler on any CPU, at any time: the tasks it puts on the run queues and the task it
  picks. The scheduler picks a task only when the CPU has no current one, yields, blocks, ends and checks
  the preemption of the current one only, and spawns and wakes up tasks that are not on a run queue.\<close>

inductive cfs_step :: "cfs_st \<Rightarrow> task multiset \<Rightarrow> task multiset \<Rightarrow> cfs_st \<Rightarrow> bool" where
  init: "\<not> on_rq (ctask s t) \<Longrightarrow> cfs_step s {#} {#} (cfs_init_task s t)"
| fork: "\<not> on_rq (ctask s t) \<Longrightarrow> cfs_fork s t now = Some (cpu, s') \<Longrightarrow> cfs_step s {#} {#} s'"
| put: "t < MAX_TASKS \<Longrightarrow> cpu < USED_CPUS \<Longrightarrow> cfs_put s cpu t now = Some s' \<Longrightarrow> cfs_step s (if on_rq (ctask s t) then {#} else {#t#}) {#} s'"
| wakeup: "t < MAX_TASKS \<Longrightarrow> cfs_wakeup s t now = Some s' \<Longrightarrow> cfs_step s (if on_rq (ctask s t) then {#} else {#t#}) {#} s'"
| yield: "cpu < USED_CPUS \<Longrightarrow> curr (cfs_rqs s cpu) = Some c \<Longrightarrow> cfs_yield s cpu now = Some s' \<Longrightarrow> cfs_step s {#c#} {#} s'"
| pick: "cpu < USED_CPUS \<Longrightarrow> curr (cfs_rqs s cpu) = None \<Longrightarrow> cfs_pick_next s cpu now = Some (Some t, s') \<Longrightarrow> cfs_step s {#} {#t#} s'"
| idle: "cpu < USED_CPUS \<Longrightarrow> curr (cfs_rqs s cpu) = None \<Longrightarrow> cfs_pick_next s cpu now = Some (None, s') \<Longrightarrow> cfs_step s {#} {#} s'"
| block: "cpu < USED_CPUS \<Longrightarrow> curr (cfs_rqs s cpu) = Some c \<Longrightarrow> cfs_block s cpu now = Some s' \<Longrightarrow> cfs_step s {#} {#} s'"
| finish: "cpu < USED_CPUS \<Longrightarrow> curr (cfs_rqs s cpu) = Some c \<Longrightarrow> cfs_finish_task s cpu c now = Some s' \<Longrightarrow> cfs_step s {#} {#} s'"
| preempt: "cpu < USED_CPUS \<Longrightarrow> curr (cfs_rqs s cpu) = Some c \<Longrightarrow> cfs_preempt s cpu now = Some (r, s') \<Longrightarrow> cfs_step s {#} {#} s'"

lemma cfs_fork_some: "cfs_fork s t now = Some (cpu, s') \<Longrightarrow> 0 \<le> fst (cfs_find_target_cpu s t True)"
  by (auto simp: cfs_fork_def Let_def split: prod.splits if_splits)

lemma cfs_wakeup_some:
  assumes "cfs_ok s" "t < MAX_TASKS"
  shows "cfs_wakeup s t now \<noteq> None"
proof (cases "on_rq (ctask s t)")
  case True
  then show ?thesis using assms(1) by (auto simp: cfs_wakeup_def cfs_find_target_cpu_def cfs_ok_def not_less Let_def)
qed (use cfs_wakeup_ok [OF assms(1) _ assms(2), of now] in auto)

text \<open>A task that is on a run queue already stays where it is when it is put or woken up.\<close>

lemma queue_step_refl: "queue_step s s"
  by (simp add: queue_step_def qstep_def)

lemma on_rq_kept:
  "on_rq (ctask s t) \<Longrightarrow> cfs_put s cpu t now = Some s' \<Longrightarrow> s' = s"
  "on_rq (ctask s t) \<Longrightarrow> cfs_wakeup s t now = Some s' \<Longrightarrow> s' = s"
  by (auto simp: cfs_put_def put_task_def cfs_wakeup_def cfs_find_target_cpu_def Let_def split: if_splits)

lemma cfs_step_ok: "cfs_step s A B s' \<Longrightarrow> cfs_ok s \<Longrightarrow> cfs_ok s' \<and> cfs_queued s + A = cfs_queued s' + B \<and> queue_step s s'"
proof (induction rule: cfs_step.induct)
  case (init s t)
  then show ?case using cfs_init_task_ok [of s t] by simp
next
  case (fork s t now cpu s')
  then show ?case using cfs_fork_ok [of s t now] cfs_fork_some by fastforce
next
  case (put t cpu s now s')
  then show ?case using cfs_put_ok [of s t cpu now] on_rq_kept(1) [of s t cpu now s'] queue_step_refl by (cases "on_rq (ctask s t)") auto
next
  case (wakeup t s now s')
  then show ?case using cfs_wakeup_ok [of s t now] on_rq_kept(2) [of s t now s'] queue_step_refl by (cases "on_rq (ctask s t)") auto
next
  case (yield cpu s c now s')
  then show ?case using cfs_yield_ok [of s cpu c now] by fastforce
next
  case (pick cpu s now t s')
  then show ?case using cfs_pick_ok [of s cpu now] by (auto split: if_splits)
next
  case (idle cpu s now s')
  then show ?case using cfs_pick_ok [of s cpu now] by (auto simp: queue_step_def qstep_def split: if_splits)
next
  case (block cpu s c now s')
  then show ?case using cfs_block_ok [of s cpu c now] by fastforce
next
  case (finish cpu s c now s')
  then show ?case using cfs_finish_ok [of s cpu c now] by fastforce
next
  case (preempt cpu s c now r s')
  then show ?case using cfs_preempt_ok [of s cpu c now] by fastforce
qed

interpretation cfs: fair_policy cfs_step cfs_ok cfs_queued
  by unfold_locales (use cfs_step_ok in blast)

definition cfs_boot :: "cfs_rq \<Rightarrow> ctasks \<Rightarrow> cfs_st" where
  "cfs_boot q T = \<lparr>ctask = (\<lambda>t. (T t)\<lparr>on_rq := False, last_run := 0\<rparr>), cfs_rqs = (\<lambda>_. cfs_init_percpu q), TARGET_CPU = 0\<rparr>"

lemma cfs_boot_ok: "cfs_ok (cfs_boot q T)" "cfs_queued (cfs_boot q T) = {#}"
  by (simp_all add: cfs_ok_def cfs_boot_def cfs_inv_def fq_inv_def cfs_init_percpu_def root_ok_def RB_ROOT_CACHED_def placed_def
      rb_inv_def cfs_queued_def USED_CPUS_def)

section \<open>Properties\<close>

text \<open>C26: No task is lost and none is run twice by the CFS policy: after any steps on any CPUs the tasks that
  were put on the run queues are exactly those picked and those still queued. A task is marked as on a run queue exactly when it is
  on one, and then it is on one only. The trees stay balanced red-black trees with the right leftmost node, the counters of tasks and weights are right, and
  no operation of the scheduler faults, except that spawning needs the counter that selects the CPU not to have become negative.
  Spawning is two steps, and a task may be woken up while it is on a run queue.\<close>

theorem cfs_conserves_tasks:
  assumes "step_reach cfs_step (cfs_boot q T) P R s"
  shows "P = cfs_queued s + R \<and>
    (\<forall>t. (on_rq (ctask s t) \<longleftrightarrow> (\<exists>cpu < USED_CPUS. t \<in> set (members (cfs_rqs s cpu)))) \<and>
       (on_rq (ctask s t) \<longrightarrow> (\<exists>!cpu. cpu < USED_CPUS \<and> t \<in> set (members (cfs_rqs s cpu))))) \<and>
    (\<forall>t < MAX_TASKS. cfs_wakeup s t now \<noteq> None \<and> (\<not> on_rq (ctask s t) \<longrightarrow> 0 \<le> TARGET_CPU s \<longrightarrow> cfs_spawn s t now now' \<noteq> None)) \<and>
    (\<forall>cpu < USED_CPUS. let q = cfs_rqs s cpu in root_ok (tasks_timeline q) \<and>
       unat (nr_running q) = length (members q) \<and> weight (rq_load q) = sum_list (map (\<lambda>t. weight (load (ctask s t))) (members q)) \<and>
       (case curr q of None \<Rightarrow> cfs_pick_next s cpu now \<noteq> None \<and> (fst (the (cfs_pick_next s cpu now)) = None \<longrightarrow> members q = [])
        | Some c \<Rightarrow> cfs_yield s cpu now \<noteq> None \<and> cfs_block s cpu now \<noteq> None \<and> cfs_finish_task s cpu c now \<noteq> None \<and>
            cfs_preempt s cpu now \<noteq> None))"
proof -
  have ok: "cfs_ok s" and P: "P = cfs_queued s + R" using cfs.reach_conserves [OF assms cfs_boot_ok(1)] cfs_boot_ok(2) by simp_all
  have p: "placed (\<lambda>c. set (members (cfs_rqs s c))) (\<lambda>t. on_rq (ctask s t))" using ok by (simp add: cfs_ok_def)
  have "on_rq (ctask s t) \<longleftrightarrow> (\<exists>cpu < USED_CPUS. t \<in> set (members (cfs_rqs s cpu)))" for t using p unfolding placed_def by blast
  moreover have "\<exists>!cpu. cpu < USED_CPUS \<and> t \<in> set (members (cfs_rqs s cpu))" if on: "on_rq (ctask s t)" for t
    using placed_one [OF p on] .
  moreover have "cfs_wakeup s t now \<noteq> None \<and> (\<not> on_rq (ctask s t) \<longrightarrow> 0 \<le> TARGET_CPU s \<longrightarrow> cfs_spawn s t now now' \<noteq> None)" if "t < MAX_TASKS" for t
    using cfs_wakeup_some [OF ok that, of now] cfs_spawn_some [OF ok _ that, of now now'] by auto
  moreover have "root_ok (tasks_timeline (cfs_rqs s cpu)) \<and> unat (nr_running (cfs_rqs s cpu)) = length (members (cfs_rqs s cpu)) \<and>
      weight (rq_load (cfs_rqs s cpu)) = sum_list (map (\<lambda>t. weight (load (ctask s t))) (members (cfs_rqs s cpu)))" if "cpu < USED_CPUS" for cpu
    using ok that nr_running_eq [of "cfs_rqs s cpu" "ctask s"] by (simp add: cfs_ok_def cfs_inv_def fq_inv_def)
  moreover have "case curr (cfs_rqs s cpu) of
      None \<Rightarrow> cfs_pick_next s cpu now \<noteq> None \<and> (fst (the (cfs_pick_next s cpu now)) = None \<longrightarrow> members (cfs_rqs s cpu) = [])
    | Some c \<Rightarrow> cfs_yield s cpu now \<noteq> None \<and> cfs_block s cpu now \<noteq> None \<and> cfs_finish_task s cpu c now \<noteq> None \<and> cfs_preempt s cpu now \<noteq> None"
    if c: "cpu < USED_CPUS" for cpu
  proof (cases "curr (cfs_rqs s cpu)")
    case None
    then show ?thesis using cfs_pick_ok [OF ok c None, of now] by (auto simp: fq_set split: if_splits)
  next
    case (Some d)
    show ?thesis
      using cfs_yield_ok [OF ok c Some, of now] cfs_block_ok [OF ok c Some, of now] cfs_finish_ok [OF ok c Some, of now]
        cfs_preempt_ok [OF ok c Some, of now] Some by auto
  qed
  ultimately show ?thesis using P by (simp add: Let_def)
qed

text \<open>A task that was woken up once.\<close>

definition blank_task :: cfs_task where
  "blank_task = \<lparr>last_run = 0, load = \<lparr>weight = 1024, inv_weight = 0\<rparr>, on_rq = False, exec_start = 0,
     sum_exec_runtime = 0, prev_sum_exec_runtime = 0, vruntime = 0\<rparr>"

definition blank_rq :: cfs_rq where
  "blank_rq = \<lparr>rq_load = \<lparr>weight = 0, inv_weight = 0\<rparr>, nr_running = 0, tasks_timeline = RB_ROOT_CACHED,
     min_vruntime = 0, curr = None\<rparr>"

abbreviation blank_boot :: cfs_st where
  "blank_boot \<equiv> cfs_boot blank_rq (\<lambda>_. blank_task)"

lemma one_task_reach: "\<exists>s. cfs_wakeup blank_boot 7 0 = Some s \<and> step_reach cfs_step blank_boot {#7#} {#} s"
proof -
  have b: "\<not> on_rq (ctask blank_boot 7)" "(7::task) < MAX_TASKS" by (simp_all add: cfs_boot_def MAX_TASKS_def)
  from cfs_wakeup_ok [OF cfs_boot_ok(1) b, of 0] obtain s where s: "cfs_wakeup blank_boot 7 0 = Some s" by auto
  from step_reach.step [where stp = cfs_step, OF step_reach.start cfs_step.wakeup [OF b(2) s]] s b(1) show ?thesis by auto
qed

theorem cfs_conserves_tasks_witness:
  "\<exists>s. step_reach cfs_step blank_boot {#7#} {#} s \<and> cfs_queued s = {#7#}"
  using one_task_reach cfs_conserves_tasks [of blank_rq "\<lambda>_. blank_task" "{#7#}" "{#}"] by fastforce

text \<open>Virtual runtimes are compared by the sign of their difference, which is an order as long as they lie in
  a window of half the range.\<close>

definition vkey :: "u64 \<Rightarrow> ctasks \<Rightarrow> task \<Rightarrow> int" where
  "vkey b T t = int (unat (vruntime (T t) - b))"

definition in_window :: "u64 \<Rightarrow> cfs_st \<Rightarrow> bool" where
  "in_window b s \<longleftrightarrow> (\<forall>cpu < USED_CPUS. \<forall>t \<in> set (queue (cfs_rqs s cpu)). vkey b (ctask s) t < 2 ^ 63)"

definition sorted_queues :: "u64 \<Rightarrow> cfs_st \<Rightarrow> bool" where
  "sorted_queues b s \<longleftrightarrow> (\<forall>cpu < USED_CPUS. sorted (map (vkey b (ctask s)) (queue (cfs_rqs s cpu))))"

lemma vruntime_lt_key:
  assumes "vkey b T x < 2 ^ 63" "vkey b T y < 2 ^ 63"
  shows "vruntime_lt T x y \<longleftrightarrow> vkey b T x < vkey b T y"
proof -
  let ?x = "vruntime (T x) - b" and ?y = "vruntime (T y) - b"
  have "unat ?x < 2 ^ 63" "unat ?y < 2 ^ 63"
    using assms unfolding vkey_def by (metis of_nat_less_iff of_nat_numeral of_nat_power)+
  then have "sint (?x - ?y) = int (unat ?x) - int (unat ?y)" by (intro sint_diff) simp_all
  moreover have "vruntime (T x) - vruntime (T y) = ?x - ?y" by simp
  ultimately have "sint (vruntime (T x) - vruntime (T y)) = int (unat ?x) - int (unat ?y)" by (simp only:)
  then show ?thesis unfolding vruntime_lt_def vkey_def by linarith
qed

lemma queue_step_sorted:
  assumes "queue_step s s'" "sorted_queues b s" "in_window b s'"
  shows "sorted_queues b s'"
  unfolding sorted_queues_def
proof (intro allI impI)
  fix cpu assume c: "cpu < USED_CPUS"
  let ?q = "queue (cfs_rqs s cpu)" and ?q' = "queue (cfs_rqs s' cpu)" and ?k = "vkey b (ctask s')"
  have qs: "qstep (cfs_rqs s cpu) (ctask s) (cfs_rqs s' cpu) (ctask s')" using assms(1) c by (simp add: queue_step_def)
  then have m: "map ?k ?q = map (vkey b (ctask s)) ?q" by (simp add: qstep_def vkey_def)
  have old: "sorted (map ?k ?q)" using assms(2) c unfolding sorted_queues_def m by blast
  from qs consider "?q' = ?q" | "?q' = tl ?q"
    | t xs ys where "?q = xs @ ys" "?q' = xs @ t # ys" "ordered_at (vruntime_lt (ctask s')) t xs ys"
    unfolding qstep_def by blast
  then show "sorted (map ?k ?q')"
  proof cases
    case 3
    have w: "\<forall>u \<in> set (xs @ t # ys). ?k u < 2 ^ 63" using assms(3) c 3(2) unfolding in_window_def by metis
    then have "\<forall>u \<in> set (xs @ ys). vruntime_lt (ctask s') t u \<longleftrightarrow> ?k t < ?k u" by (simp add: vruntime_lt_key)
    with ordered_atD [OF 3(3), of ?k] old 3(1) have "(\<forall>y \<in> set xs. ?k y \<le> ?k t) \<and> (\<forall>y \<in> set ys. ?k t < ?k y)" by simp
    then show ?thesis using old 3(1,2) by (auto simp: sorted_append)
  qed (use old in \<open>auto simp: map_tl sorted_tl\<close>)
qed

lemma cfs_run_sorted:
  "step_run cfs_step (in_window b) s0 s \<Longrightarrow> cfs_ok s0 \<Longrightarrow> sorted_queues b s0 \<Longrightarrow> cfs_ok s \<and> sorted_queues b s"
  using cfs.run_invariant [where I = "sorted_queues b" and W = "in_window b" and ?s0.0 = s0 and s = s] cfs_step_ok queue_step_sorted by blast

lemma cfs_boot_sorted: "sorted_queues b (cfs_boot q T)"
  by (simp add: sorted_queues_def cfs_boot_def cfs_init_percpu_def RB_ROOT_CACHED_def)

text \<open>C11: The policy is fair in the sense of CFS: as long as the virtual runtimes of the queued tasks span
  less than half of the 64-bit range, a CPU without a current task picks, of all the tasks in its queue,
  one with the least virtual runtime, whatever was spawned, woken up, preempted or blocked before.\<close>

theorem cfs_picks_least_vruntime:
  assumes "step_run cfs_step (in_window b) (cfs_boot q T) s" "cpu < USED_CPUS" "curr (cfs_rqs s cpu) = None"
    "cfs_pick_next s cpu now = Some (Some t, s')"
  shows "t \<in> set (queue (cfs_rqs s cpu)) \<and> curr (cfs_rqs s' cpu) = Some t \<and> queue (cfs_rqs s' cpu) = remove1 t (queue (cfs_rqs s cpu)) \<and>
    (\<forall>u \<in> set (queue (cfs_rqs s cpu)). unat (vruntime (ctask s t) - b) \<le> unat (vruntime (ctask s u) - b))"
proof -
  have ok: "cfs_ok s" "sorted_queues b s" using cfs_run_sorted [OF assms(1) cfs_boot_ok(1) cfs_boot_sorted] by simp_all
  have ne: "queue (cfs_rqs s cpu) \<noteq> []" "t = hd (queue (cfs_rqs s cpu))" "curr (cfs_rqs s' cpu) = Some t"
      "queue (cfs_rqs s' cpu) = tl (queue (cfs_rqs s cpu))"
    using cfs_pick_ok [OF ok(1) assms(2,3), of now] assms(4) by (auto split: if_splits)
  then obtain ts where q: "queue (cfs_rqs s cpu) = t # ts" by (cases "queue (cfs_rqs s cpu)") auto
  have "sorted (map (vkey b (ctask s)) (t # ts))" using ok(2) assms(2) unfolding sorted_queues_def q [symmetric] by blast
  then have "\<forall>u \<in> set (t # ts). vkey b (ctask s) t \<le> vkey b (ctask s) u" by auto
  then have "\<forall>u \<in> set (t # ts). unat (vruntime (ctask s t) - b) \<le> unat (vruntime (ctask s u) - b)"
    unfolding vkey_def of_nat_le_iff .
  then show ?thesis using ne(3,4) unfolding q by simp
qed

lemma one_task_run:
  "\<exists>s. step_run cfs_step (in_window (- 1048576)) blank_boot s \<and> cfs_ok s \<and> queue (cfs_rqs s 0) = [7] \<and> curr (cfs_rqs s 0) = None"
proof -
  have b: "\<not> on_rq (ctask blank_boot 7)" "(7::task) < MAX_TASKS" by (simp_all add: cfs_boot_def MAX_TASKS_def)
  obtain s where s: "cfs_wakeup blank_boot 7 0 = Some s" "cfs_ok s" using cfs_wakeup_ok [OF cfs_boot_ok(1) b, of 0] by auto
  have e: "s = set_rq blank_boot 0 (cfs_rqs s 0, ctask s)" "queue (cfs_rqs s 0) = [7]" "vruntime (ctask s 7) = 0" "curr (cfs_rqs s 0) = None"
    using s(1)
    by (auto simp: cfs_wakeup_def cfs_find_target_cpu_def cfs_boot_def blank_task_def blank_rq_def enqueue_task_def update_curr_def
        place_task_def max_vruntime_def cfs_init_percpu_def enqueue_update_def enqueue_node_def rb_add_cached_def
        rb_add_augmented_cached_def RB_ROOT_CACHED_def sysctl_sched_latency_def Let_def)
  have q: "queue (cfs_rqs s c) = (if c = 0 then [7] else [])" for c
    by (subst e(1)) (simp add: e(2) cfs_boot_def cfs_init_percpu_def RB_ROOT_CACHED_def)
  have "in_window (- 1048576) s" by (simp add: in_window_def q vkey_def e(3))
  then have "step_run cfs_step (in_window (- 1048576)) blank_boot s" by (rule step_run.step [where stp = cfs_step, OF step_run.start cfs_step.wakeup [OF b(2) s(1)]])
  then show ?thesis using s(2) e(2,4) by blast
qed

theorem cfs_picks_least_vruntime_witness:
  "\<exists>s s'. step_run cfs_step (in_window (- 1048576)) blank_boot s \<and> cfs_pick_next s 0 5 = Some (Some 7, s') \<and> curr (cfs_rqs s' 0) = Some 7"
proof -
  obtain s where s: "step_run cfs_step (in_window (- 1048576)) blank_boot s" "cfs_ok s" "queue (cfs_rqs s 0) = [7]" "curr (cfs_rqs s 0) = None"
    using one_task_run by blast
  have c: "0 < USED_CPUS" by (simp add: USED_CPUS_def)
  from cfs_pick_ok [OF s(2) c s(4), of 5] obtain s' where p: "cfs_pick_next s 0 5 = Some (Some 7, s')" by (auto simp: s(3))
  from cfs_picks_least_vruntime [OF s(1) c s(4) p] s(1) p show ?thesis by blast
qed

text \<open>C39: A wakeup can be lost: \<^verbatim>\<open>task_block\<close> releases the lock of the object the task waits for before it takes
  the task off the run queue. A wakeup in between finds the task still marked as on the run queue and does
  nothing; the task is then taken off, and is on no run queue although it was woken up. In the other order
  the wakeup puts it back on its queue.\<close>

theorem cfs_wakeup_before_block_is_lost:
  assumes "cfs_ok s" "cpu < USED_CPUS" "curr (cfs_rqs s cpu) = Some c"
  shows "(\<exists>s'. Option.bind (cfs_wakeup s c now) (\<lambda>s. cfs_block s cpu now') = Some s' \<and> \<not> on_rq (ctask s' c) \<and>
      (\<forall>d < USED_CPUS. c \<notin> set (members (cfs_rqs s' d)))) \<and>
    (\<exists>s'. Option.bind (cfs_block s cpu now') (\<lambda>s. cfs_wakeup s c now) = Some s' \<and> c \<in># cfs_queued s')"
proof -
  have on: "on_rq (ctask s c)" "c < MAX_TASKS" using assms by (auto simp: cfs_ok_def cfs_inv_def fq_inv_def fq_set)
  have "0 \<le> last_run (ctask s c)" using assms(1) by (simp add: cfs_ok_def)
  with on have w: "cfs_wakeup s c now = Some s" by (simp add: cfs_wakeup_def cfs_find_target_cpu_def)
  from cfs_block_ok [OF assms, of now'] obtain s1 where
    b: "cfs_block s cpu now' = Some s1" "cfs_ok s1" "\<not> on_rq (ctask s1 c)" by auto
  from cfs_wakeup_ok [OF b(2,3) on(2), of now] obtain s2 where
    "cfs_wakeup s1 c now = Some s2" "cfs_queued s2 = add_mset c (cfs_queued s1)" by auto
  then show ?thesis using w b cfs_ok_not_member [OF b(2,3)] by auto
qed

theorem cfs_wakeup_before_block_is_lost_witness:
  "\<exists>s s'. curr (cfs_rqs s 0) = Some 7 \<and> Option.bind (cfs_wakeup s 7 1) (\<lambda>s. cfs_block s 0 2) = Some s' \<and> \<not> on_rq (ctask s' 7)"
proof -
  have c: "0 < USED_CPUS" by (simp add: USED_CPUS_def)
  obtain s where s: "cfs_ok s" "queue (cfs_rqs s 0) = [7]" "curr (cfs_rqs s 0) = None" using one_task_run by blast
  from cfs_pick_ok [OF s(1) c s(3), of 5] obtain s1 where s1: "cfs_ok s1" "curr (cfs_rqs s1 0) = Some 7" by (auto simp: s(2))
  from cfs_wakeup_before_block_is_lost [OF s1(1) c s1(2), of 1 2] s1(2) show ?thesis by blast
qed

end
