(* ===== verification/Eevdf.thy ===== *)
theory Eevdf
  imports Fair_Queue Load_Weight Rbtree "HOL-Library.Monad_Syntax" "HOL-Library.Signed_Division"
begin

text \<open>
  The EEVDF policy of \<^verbatim>\<open>libos/sched/policy/eevdf.c\<close> and \<^verbatim>\<open>skyloft/sched/policy/eevdf.h\<close>. The tree of a
  run queue is ordered by deadline; its augmented value, the field \<^verbatim>\<open>min_vruntime\<close> of a task, is the least
  virtual runtime of the subtree. Signed 64-bit fields are kept as words and read by \<^term>\<open>sint\<close>. The time
  that \<^verbatim>\<open>now_ns\<close> returns is an argument. \<open>None\<close> stands for a dereferenced null pointer, a failed
  assertion, or a division that traps. The sections under the lock of a run queue are one step.
\<close>

section \<open>State\<close>

record eevdf_task =
  last_run :: int
  load :: load_weight
  deadline :: u64
  on_rq :: bool
  exec_start :: u64
  sum_exec_runtime :: u64
  prev_sum_exec_runtime :: u64
  vruntime :: u64
  vlag :: u64
  slice :: u64

record eevdf_rq =
  rq_load :: load_weight
  tasks_timeline :: "(task, u64) rb_root_cached"
  nr_running :: u32
  rq_avg_vruntime :: u64
  rq_avg_load :: u64
  rq_min_vruntime :: u64
  curr :: "task option"

type_synonym etasks = "task \<Rightarrow> eevdf_task"

definition sysctl_sched_base_slice :: u64 where "sysctl_sched_base_slice = 12500"
definition TIMER_HZ :: u64 where "TIMER_HZ = 20000"
definition TICK_NSEC :: u64 where "TICK_NSEC = (1000000000 + TIMER_HZ div 2) div TIMER_HZ"

abbreviation upd :: "task \<Rightarrow> (eevdf_task \<Rightarrow> eevdf_task) \<Rightarrow> etasks \<Rightarrow> etasks" where
  "upd t g T \<equiv> T(t := g (T t))"

section \<open>Virtual time\<close>

definition scale_load_down :: "u64 \<Rightarrow> u64" where
  "scale_load_down w = (if w \<noteq> 0 then max 2 (drop_bit 10 w) else 0)"

text \<open>\<^verbatim>\<open>div_s64\<close> of \<^verbatim>\<open>utils/defs.h\<close>: the divisor is cut to 32 bits. Division traps on zero and on
  the one quotient that does not fit.\<close>

definition div_s64 :: "u64 \<Rightarrow> u64 \<Rightarrow> u64 option" where
  "div_s64 n d =
     (let d = sint (ucast d :: u32)
      in if d = 0 \<or> (sint n = - (2 ^ 63) \<and> d = - 1) then None else Some (word_of_int (sint n sdiv d)))"

definition min_vruntime_of :: "u64 \<Rightarrow> u64 \<Rightarrow> u64" where
  "min_vruntime_of m v = (if sint (v - m) < 0 then v else m)"

definition task_before :: "eevdf_task \<Rightarrow> eevdf_task \<Rightarrow> bool" where
  "task_before a b \<longleftrightarrow> sint (deadline a - deadline b) < 0"

definition task_key :: "eevdf_rq \<Rightarrow> eevdf_task \<Rightarrow> u64" where
  "task_key q k = vruntime k - rq_min_vruntime q"

definition avg_vruntime_add :: "eevdf_rq \<Rightarrow> eevdf_task \<Rightarrow> eevdf_rq" where
  "avg_vruntime_add q k =
     (let w = scale_load_down (weight (load k))
      in q\<lparr>rq_avg_vruntime := rq_avg_vruntime q + task_key q k * w, rq_avg_load := rq_avg_load q + w\<rparr>)"

definition avg_vruntime_sub :: "eevdf_rq \<Rightarrow> eevdf_task \<Rightarrow> eevdf_rq" where
  "avg_vruntime_sub q k =
     (let w = scale_load_down (weight (load k))
      in q\<lparr>rq_avg_vruntime := rq_avg_vruntime q - task_key q k * w, rq_avg_load := rq_avg_load q - w\<rparr>)"

definition avg_vruntime_update :: "eevdf_rq \<Rightarrow> u64 \<Rightarrow> eevdf_rq" where
  "avg_vruntime_update q delta = q\<lparr>rq_avg_vruntime := rq_avg_vruntime q - rq_avg_load q * delta\<rparr>"

text \<open>The sums over all tasks of the run queue, the current one included: the common head of
  \<^verbatim>\<open>avg_vruntime\<close> and \<^verbatim>\<open>vruntime_eligible\<close>.\<close>

definition avg_with_curr :: "eevdf_rq \<Rightarrow> etasks \<Rightarrow> u64 \<times> u64" where
  "avg_with_curr q T =
     (case curr q of
        Some c \<Rightarrow>
          if on_rq (T c)
          then let w = scale_load_down (weight (load (T c))) in (rq_avg_vruntime q + task_key q (T c) * w, rq_avg_load q + w)
          else (rq_avg_vruntime q, rq_avg_load q)
      | None \<Rightarrow> (rq_avg_vruntime q, rq_avg_load q))"

definition avg_vruntime :: "eevdf_rq \<Rightarrow> etasks \<Rightarrow> u64 option" where
  "avg_vruntime q T =
     (let (avg, load) = avg_with_curr q T
      in if load \<noteq> 0
         then do {
           avg \<leftarrow> div_s64 (if sint avg < 0 then avg - (load - 1) else avg) load;
           Some (rq_min_vruntime q + avg)
         }
         else Some (rq_min_vruntime q + avg))"

definition clamp :: "u64 \<Rightarrow> u64 \<Rightarrow> u64 \<Rightarrow> u64" where
  "clamp v lo hi = (if sint v \<ge> sint hi then hi else if sint v \<le> sint lo then lo else v)"

definition task_lag :: "u64 \<Rightarrow> eevdf_task \<Rightarrow> u64 \<times> load_weight" where
  "task_lag avruntime k =
     (let (limit, lw) = calc_delta_fair (max (2 * slice k) TICK_NSEC) (load k)
      in (clamp (avruntime - vruntime k) (- limit) limit, lw))"

definition update_task_lag :: "eevdf_rq \<Rightarrow> etasks \<Rightarrow> task \<Rightarrow> etasks option" where
  "update_task_lag q T t =
     do {
       v \<leftarrow> avg_vruntime q T;
       let (lag, lw) = task_lag v (T t);
       Some (upd t (\<lambda>k. k\<lparr>vlag := lag, load := lw\<rparr>) T)
     }"

definition vruntime_eligible :: "eevdf_rq \<Rightarrow> etasks \<Rightarrow> u64 \<Rightarrow> bool" where
  "vruntime_eligible q T v =
     (let (avg, load) = avg_with_curr q T in sint avg \<ge> sint ((v - rq_min_vruntime q) * load))"

definition task_eligible :: "eevdf_rq \<Rightarrow> etasks \<Rightarrow> task \<Rightarrow> bool" where
  "task_eligible q T t = vruntime_eligible q T (vruntime (T t))"

definition raise_min_vruntime :: "eevdf_rq \<Rightarrow> u64 \<Rightarrow> eevdf_rq" where
  "raise_min_vruntime q v =
     (let delta = v - rq_min_vruntime q
      in if sint delta > 0 then (avg_vruntime_update q delta)\<lparr>rq_min_vruntime := v\<rparr> else q)"

definition update_min_vruntime :: "eevdf_rq \<Rightarrow> etasks \<Rightarrow> eevdf_rq" where
  "update_min_vruntime q T =
     (let c = (case curr q of Some c \<Rightarrow> if on_rq (T c) then Some c else None | None \<Rightarrow> None);
          v = (case c of Some c \<Rightarrow> vruntime (T c) | None \<Rightarrow> rq_min_vruntime q);
          v = (case aug (rb_root (tasks_timeline q)) of
                 Some m \<Rightarrow> if c = None then m else min_vruntime_of v m
               | None \<Rightarrow> v)
      in raise_min_vruntime q v)"

text \<open>\<^verbatim>\<open>min_vruntime_update\<close>, the function the callbacks compute the augmented value with: the right child
  first, then the left one.\<close>

definition min_vruntime_child :: "u64 \<Rightarrow> u64 option \<Rightarrow> u64" where
  "min_vruntime_child m child = (case child of Some c \<Rightarrow> if sint (m - c) > 0 then c else m | None \<Rightarrow> m)"

definition min_vruntime_update :: "etasks \<Rightarrow> (task, u64) compute" where
  "min_vruntime_update T t left right = min_vruntime_child (min_vruntime_child (vruntime (T t)) right) left"

definition update_deadline :: "eevdf_rq \<Rightarrow> etasks \<Rightarrow> task \<Rightarrow> bool \<times> etasks" where
  "update_deadline q T t =
     (if sint (vruntime (T t) - deadline (T t)) < 0 then (False, T)
      else let (d, lw) = calc_delta_fair sysctl_sched_base_slice (load (T t));
               T = upd t (\<lambda>k. k\<lparr>slice := sysctl_sched_base_slice, load := lw, deadline := vruntime k + d\<rparr>) T
           in (nr_running q > 1, T))"

definition update_curr :: "eevdf_rq \<Rightarrow> etasks \<Rightarrow> u64 \<Rightarrow> bool \<times> eevdf_rq \<times> etasks" where
  "update_curr q T now =
     (case curr q of
        None \<Rightarrow> (False, q, T)
      | Some c \<Rightarrow>
          let delta_exec = now - exec_start (T c)
          in if sint delta_exec \<le> 0 then (False, q, T)
             else let (d, lw) = calc_delta_fair delta_exec (load (T c));
                      T = upd c (\<lambda>k. k\<lparr>exec_start := now, sum_exec_runtime := sum_exec_runtime k + delta_exec,
                                       load := lw, vruntime := vruntime k + d\<rparr>) T;
                      (resched, T) = update_deadline q T c
                  in (resched, update_min_vruntime q T, T))"

text \<open>The lag a task is placed with, inflated by the effect that its own weight has on the average.\<close>

definition place_lag :: "eevdf_rq \<Rightarrow> etasks \<Rightarrow> task \<Rightarrow> u64 option" where
  "place_lag q T t =
     (if nr_running q \<noteq> 0
      then let load0 = snd (avg_with_curr q T);
               lag = vlag (T t) * (load0 + scale_load_down (weight (load (T t))))
           in div_s64 lag (if load0 = 0 then 1 else load0)
      else Some 0)"

definition place_task :: "eevdf_rq \<Rightarrow> etasks \<Rightarrow> task \<Rightarrow> bool \<Rightarrow> etasks option" where
  "place_task q T t init =
     do {
       v \<leftarrow> avg_vruntime q T;
       let (vslice, lw) = calc_delta_fair sysctl_sched_base_slice (load (T t));
       let T = upd t (\<lambda>k. k\<lparr>slice := sysctl_sched_base_slice, load := lw\<rparr>) T;
       lag \<leftarrow> place_lag q T t;
       let vslice = (if init then vslice div 2 else vslice);
       Some (upd t (\<lambda>k. k\<lparr>vruntime := v - lag, deadline := v - lag + vslice\<rparr>) T)
     }"

section \<open>The run queue\<close>

definition deadline_less :: "etasks \<Rightarrow> task \<Rightarrow> task \<Rightarrow> bool" where
  "deadline_less T a b \<longleftrightarrow> sint (deadline (T a) - deadline (T b)) < 0"

definition dequeue_node :: "eevdf_rq \<Rightarrow> etasks \<Rightarrow> task \<Rightarrow> eevdf_rq option" where
  "dequeue_node q T t =
     do {
       r \<leftarrow> rb_erase_augmented_cached (min_vruntime_update T) t (tasks_timeline q);
       Some (avg_vruntime_sub (q\<lparr>tasks_timeline := r\<rparr>) (T t))
     }"

definition enqueue_node :: "eevdf_rq \<Rightarrow> etasks \<Rightarrow> task \<Rightarrow> eevdf_rq option" where
  "enqueue_node q T t =
     do {
       r \<leftarrow> rb_add_augmented_cached (min_vruntime_update T) (deadline_less T) t (vruntime (T t)) (tasks_timeline q);
       Some ((avg_vruntime_add q (T t))\<lparr>tasks_timeline := r\<rparr>)
     }"

definition set_next_task :: "eevdf_rq \<Rightarrow> etasks \<Rightarrow> task \<Rightarrow> int \<Rightarrow> u64 \<Rightarrow> (eevdf_rq \<times> etasks) option" where
  "set_next_task q T t cpu now =
     do {
       (q, T) \<leftarrow>
         if on_rq (T t)
         then do { q \<leftarrow> dequeue_node q T t; Some (q, upd t (\<lambda>k. k\<lparr>vlag := deadline k\<rparr>) T) }
         else Some (q, T);
       Some (q\<lparr>curr := Some t\<rparr>,
             upd t (\<lambda>k. k\<lparr>exec_start := now, last_run := cpu, prev_sum_exec_runtime := sum_exec_runtime k\<rparr>) T)
     }"

definition enqueue_update :: "eevdf_rq \<Rightarrow> eevdf_task \<Rightarrow> eevdf_rq" where
  "enqueue_update q k = q\<lparr>rq_load := update_load_add (rq_load q) (weight (load k)), nr_running := nr_running q + 1\<rparr>"

definition dequeue_update :: "eevdf_rq \<Rightarrow> eevdf_task \<Rightarrow> eevdf_rq" where
  "dequeue_update q k = q\<lparr>rq_load := update_load_sub (rq_load q) (weight (load k)), nr_running := nr_running q - 1\<rparr>"

definition enqueue_task :: "eevdf_rq \<Rightarrow> etasks \<Rightarrow> task \<Rightarrow> u64 \<Rightarrow> (eevdf_rq \<times> etasks) option" where
  "enqueue_task q T t now =
     do {
       let is_curr = (curr q = Some t);
       T \<leftarrow> if is_curr then place_task q T t False else Some T;
       let (_, q, T) = update_curr q T now;
       T \<leftarrow> if \<not> is_curr then place_task q T t False else Some T;
       let q = enqueue_update q (T t);
       q \<leftarrow> if \<not> is_curr then enqueue_node q T t else Some q;
       Some (q, upd t (\<lambda>k. k\<lparr>on_rq := True\<rparr>) T)
     }"

definition dequeue_task :: "eevdf_rq \<Rightarrow> etasks \<Rightarrow> task \<Rightarrow> u64 \<Rightarrow> (eevdf_rq \<times> etasks) option" where
  "dequeue_task q T t now =
     do {
       let (_, q, T) = update_curr q T now;
       T \<leftarrow> update_task_lag q T t;
       q \<leftarrow> if curr q \<noteq> Some t then dequeue_node q T t else Some q;
       let T = upd t (\<lambda>k. k\<lparr>on_rq := False\<rparr>) T;
       Some (update_min_vruntime (dequeue_update q (T t)) T, T)
     }"

section \<open>The policy\<close>

record eevdf_st =
  etask :: etasks
  eevdf_rqs :: "nat \<Rightarrow> eevdf_rq"
  TARGET_CPU :: int

abbreviation set_rq :: "eevdf_st \<Rightarrow> nat \<Rightarrow> eevdf_rq \<times> etasks \<Rightarrow> eevdf_st" where
  "set_rq s cpu qT \<equiv> s\<lparr>eevdf_rqs := (eevdf_rqs s)(cpu := fst qT), etask := snd qT\<rparr>"

text \<open>The fields \<^verbatim>\<open>avg_vruntime\<close> and \<^verbatim>\<open>avg_load\<close> keep what the memory held.\<close>

definition eevdf_init_percpu :: "eevdf_rq \<Rightarrow> eevdf_rq" where
  "eevdf_init_percpu q =
     q\<lparr>curr := None, tasks_timeline := RB_ROOT_CACHED, rq_min_vruntime := - push_bit 20 1, nr_running := 0,
       rq_load := \<lparr>weight = 0, inv_weight = 0\<rparr>\<rparr>"

definition eevdf_init_task :: "eevdf_st \<Rightarrow> task \<Rightarrow> eevdf_st" where
  "eevdf_init_task s t =
     s\<lparr>etask := (etask s)(t := \<lparr>last_run = 0, load = update_load_set \<lparr>weight = 0, inv_weight = 0\<rparr> NICE_0_LOAD,
        deadline = 0, on_rq = False, exec_start = 0, sum_exec_runtime = 0, prev_sum_exec_runtime = 0, vruntime = 0,
        vlag = 0, slice = sysctl_sched_base_slice\<rparr>)\<rparr>"

definition eevdf_finish_task :: "eevdf_st \<Rightarrow> nat \<Rightarrow> task \<Rightarrow> u64 \<Rightarrow> eevdf_st option" where
  "eevdf_finish_task s cpu t now =
     do {
       (q, T) \<leftarrow> dequeue_task (eevdf_rqs s cpu) (etask s) t now;
       Some (set_rq s cpu (q\<lparr>curr := None\<rparr>, T))
     }"

definition put_task :: "eevdf_rq \<Rightarrow> etasks \<Rightarrow> task \<Rightarrow> u64 \<Rightarrow> (eevdf_rq \<times> etasks) option" where
  "put_task q T t now = (if \<not> on_rq (T t) then enqueue_task q T t now else Some (q, T))"

definition fork_task :: "eevdf_rq \<Rightarrow> etasks \<Rightarrow> task \<Rightarrow> u64 \<Rightarrow> (eevdf_rq \<times> etasks) option" where
  "fork_task q T t now =
     do {
       let (_, q, T) = (if curr q \<noteq> None then update_curr q T now else (False, q, T));
       T \<leftarrow> place_task q T t True;
       Some (q, T)
     }"

text \<open>\<^verbatim>\<open>TARGET_CPU\<close> is an \<^verbatim>\<open>atomic_int\<close>; here it is taken modulo its range.\<close>

definition eevdf_find_target_cpu :: "eevdf_st \<Rightarrow> task \<Rightarrow> bool \<Rightarrow> int \<times> eevdf_st" where
  "eevdf_find_target_cpu s t new_task =
     (if new_task
      then (sgn (TARGET_CPU s) * (\<bar>TARGET_CPU s\<bar> mod int USED_CPUS),
            s\<lparr>TARGET_CPU := signed_take_bit 31 (TARGET_CPU s + 1)\<rparr>)
      else (last_run (etask s t), s))"

text \<open>\<^verbatim>\<open>eevdf_sched_spawn\<close>: \<^verbatim>\<open>__fork_task\<close> runs without the lock of the run queue, \<^verbatim>\<open>__put_task\<close> takes it; other CPUs may come in between.\<close>

definition eevdf_fork :: "eevdf_st \<Rightarrow> task \<Rightarrow> u64 \<Rightarrow> (nat \<times> eevdf_st) option" where
  "eevdf_fork s t now =
     (let (c, s) = eevdf_find_target_cpu s t True; cpu = nat c
      in if c < 0 then None
         else do {
           qT \<leftarrow> fork_task (eevdf_rqs s cpu) (etask s) t now;
           Some (cpu, set_rq s cpu qT)
         })"

definition eevdf_put :: "eevdf_st \<Rightarrow> nat \<Rightarrow> task \<Rightarrow> u64 \<Rightarrow> eevdf_st option" where
  "eevdf_put s cpu t now = do {
     qT \<leftarrow> put_task (eevdf_rqs s cpu) (etask s) t now;
     Some (set_rq s cpu qT)
   }"

definition eevdf_spawn :: "eevdf_st \<Rightarrow> task \<Rightarrow> u64 \<Rightarrow> u64 \<Rightarrow> eevdf_st option" where
  "eevdf_spawn s t now now' = do { (cpu, s) \<leftarrow> eevdf_fork s t now; eevdf_put s cpu t now' }"

text \<open>The loop of \<^verbatim>\<open>pick_eevdf\<close> from a node of the tree.\<close>

fun heap_search :: "eevdf_rq \<Rightarrow> etasks \<Rightarrow> (task, u64) rb_node \<Rightarrow> task option" where
  "heap_search q T Lf = None"
| "heap_search q T (Nd c l t m r) =
     (if (case aug l of Some m \<Rightarrow> vruntime_eligible q T m | None \<Rightarrow> False) then heap_search q T l
      else if task_eligible q T t then Some t
      else heap_search q T r)"

definition pick_eevdf :: "eevdf_rq \<Rightarrow> etasks \<Rightarrow> task option" where
  "pick_eevdf q T =
     (let task = rb_first_cached (tasks_timeline q);
          c = (case curr q of Some c \<Rightarrow> if on_rq (T c) then Some c else None | None \<Rightarrow> None)
      in if nr_running q = 1 then (if c \<noteq> None then c else task)
         else
           let c = (case c of Some c \<Rightarrow> if task_eligible q T c then Some c else None | None \<Rightarrow> None)
           in if (case c of Some c \<Rightarrow> vlag (T c) = deadline (T c) | None \<Rightarrow> False) then c
              else
                let best = (case task of
                              Some t \<Rightarrow> if task_eligible q T t then Some t else heap_search q T (rb_root (tasks_timeline q))
                            | None \<Rightarrow> heap_search q T (rb_root (tasks_timeline q)))
                in case best of
                     None \<Rightarrow> c
                   | Some b \<Rightarrow> (case c of Some c \<Rightarrow> if task_before (T c) (T b) then Some c else Some b | None \<Rightarrow> Some b))"

definition eevdf_pick_next :: "eevdf_st \<Rightarrow> nat \<Rightarrow> u64 \<Rightarrow> u64 \<Rightarrow> (task option \<times> eevdf_st) option" where
  "eevdf_pick_next s cpu now now' =
     (let q = eevdf_rqs s cpu; T = etask s;
          (_, q, T) = (case curr q of
                         Some c \<Rightarrow> if on_rq (T c) then update_curr q T now else (False, q, T)
                       | None \<Rightarrow> (False, q, T))
      in if nr_running q = 0 then Some (None, set_rq s cpu (q, T))
         else case pick_eevdf q T of
           None \<Rightarrow> Some (None, set_rq s cpu (q, T))
         | Some t \<Rightarrow> do {
             qT \<leftarrow> set_next_task q T t (int cpu) now';
             Some (Some t, set_rq s cpu qT)
           })"

definition eevdf_yield :: "eevdf_st \<Rightarrow> nat \<Rightarrow> u64 \<Rightarrow> eevdf_st option" where
  "eevdf_yield s cpu now =
     (let q = eevdf_rqs s cpu; T = etask s
      in case curr q of
        None \<Rightarrow> None
      | Some prev \<Rightarrow>
          if on_rq (T prev)
          then let (_, q, T) = update_curr q T now;
                   (d, lw) = calc_delta_fair (slice (T prev)) (load (T prev));
                   T = upd prev (\<lambda>k. k\<lparr>load := lw, deadline := deadline k + d\<rparr>) T
               in do {
                 q \<leftarrow> enqueue_node q T prev;
                 Some (set_rq s cpu (q\<lparr>curr := None\<rparr>, T))
               }
          else Some (set_rq s cpu (q\<lparr>curr := None\<rparr>, T)))"

definition eevdf_wakeup :: "eevdf_st \<Rightarrow> task \<Rightarrow> u64 \<Rightarrow> eevdf_st option" where
  "eevdf_wakeup s t now =
     (let (c, s) = eevdf_find_target_cpu s t False; cpu = nat c
      in if c < 0 then None
         else if \<not> on_rq (etask s t)
         then do {
           qT \<leftarrow> enqueue_task (eevdf_rqs s cpu) (etask s) t now;
           Some (set_rq s cpu qT)
         }
         else Some s)"

definition eevdf_block :: "eevdf_st \<Rightarrow> nat \<Rightarrow> u64 \<Rightarrow> eevdf_st option" where
  "eevdf_block s cpu now =
     (case curr (eevdf_rqs s cpu) of
        None \<Rightarrow> None
      | Some c \<Rightarrow>
          if \<not> on_rq (etask s c) then None
          else do {
            (q, T) \<leftarrow> dequeue_task (eevdf_rqs s cpu) (etask s) c now;
            Some (set_rq s cpu (q\<lparr>curr := None\<rparr>, T))
          })"

definition eevdf_preempt :: "eevdf_st \<Rightarrow> nat \<Rightarrow> u64 \<Rightarrow> bool \<times> eevdf_st" where
  "eevdf_preempt s cpu now =
     (let (resched, q, T) = update_curr (eevdf_rqs s cpu) (etask s) now in (resched, set_rq s cpu (q, T)))"

section \<open>Invariant\<close>

abbreviation queue :: "eevdf_rq \<Rightarrow> task list" where
  "queue q \<equiv> nodes (tasks_timeline q)"

abbreviation members :: "eevdf_rq \<Rightarrow> task list" where
  "members q \<equiv> fq_members (curr q) (queue q)"

abbreviation wt :: "etasks \<Rightarrow> task \<Rightarrow> u64" where
  "wt T t \<equiv> scale_load_down (weight (load (T t)))"

text \<open>The two sums are those of the tasks in the tree: the weights, and the weighted virtual runtimes relative
  to \<^verbatim>\<open>min_vruntime\<close>.\<close>

definition avg_inv :: "eevdf_rq \<Rightarrow> etasks \<Rightarrow> bool" where
  "avg_inv q T \<longleftrightarrow> rq_avg_load q = sum_list (map (wt T) (queue q)) \<and>
     rq_avg_vruntime q = sum_list (map (\<lambda>t. task_key q (T t) * wt T t) (queue q))"

definition ev_inv :: "eevdf_rq \<Rightarrow> etasks \<Rightarrow> bool" where
  "ev_inv q T \<longleftrightarrow> root_ok (tasks_timeline q) \<and>
     fq_inv (curr q) (queue q) (nr_running q) (weight (rq_load q)) (\<lambda>t. on_rq (T t)) (\<lambda>t. weight (load (T t))) \<and>
     (\<forall>t \<in> set (members q). weight (load (T t)) = NICE_0_LOAD) \<and> avg_inv q T"

definition same_task :: "eevdf_task \<Rightarrow> eevdf_task \<Rightarrow> bool" where
  "same_task k k' \<longleftrightarrow> on_rq k' = on_rq k \<and> weight (load k') = weight (load k) \<and> last_run k' = last_run k"

lemma ev_same_task_refl [simp]: "same_task k k"
  by (simp add: same_task_def)

lemma ev_same_task_trans: "same_task a b \<Longrightarrow> same_task b c \<Longrightarrow> same_task a c"
  by (simp add: same_task_def)

lemma avg_inv_cong:
  assumes "avg_inv q T" "\<And>t. t \<in> set (queue q) \<Longrightarrow> weight (load (T' t)) = weight (load (T t)) \<and> vruntime (T' t) = vruntime (T t)"
  shows "avg_inv q T'"
proof -
  have "map (wt T') (queue q) = map (wt T) (queue q)" using assms(2) by simp
  moreover have "map (\<lambda>t. task_key q (T' t) * wt T' t) (queue q) = map (\<lambda>t. task_key q (T t) * wt T t) (queue q)"
    using assms(2) by (simp add: task_key_def)
  ultimately show ?thesis using assms(1) unfolding avg_inv_def by metis
qed

lemma ev_inv_cong:
  assumes "ev_inv q T" "\<And>t. t \<in> set (members q) \<Longrightarrow> same_task (T t) (T' t)"
    "\<And>t. t \<in> set (queue q) \<Longrightarrow> vruntime (T' t) = vruntime (T t)"
  shows "ev_inv q T'"
proof -
  have m: "set (queue q) \<subseteq> set (members q)" by (cases "curr q") auto
  have "avg_inv q T'" by (rule avg_inv_cong) (use assms m in \<open>auto simp: ev_inv_def same_task_def\<close>)
  moreover have "fq_inv (curr q) (queue q) (nr_running q) (weight (rq_load q)) (\<lambda>t. on_rq (T' t)) (\<lambda>t. weight (load (T' t)))"
    by (rule fq_inv_cong [where on = "\<lambda>t. on_rq (T t)" and wt = "\<lambda>t. weight (load (T t))"])
      (use assms(1,2) in \<open>auto simp: ev_inv_def same_task_def\<close>)
  ultimately show ?thesis using assms(1,2) by (simp add: ev_inv_def same_task_def)
qed

lemma ev_inv_curr: "ev_inv q T \<Longrightarrow> curr q = Some c \<Longrightarrow>
    on_rq (T c) \<and> c < MAX_TASKS \<and> c \<notin> set (queue q) \<and> weight (load (T c)) = NICE_0_LOAD"
  by (simp add: ev_inv_def fq_inv_def)

lemma ev_inv_queue: "ev_inv q T \<Longrightarrow> t \<in> set (queue q) \<Longrightarrow> on_rq (T t) \<and> curr q \<noteq> Some t"
  by (cases "curr q") (auto simp: ev_inv_def fq_inv_def)

subsection \<open>Moving the origin of virtual time\<close>

lemma sum_list_shift:
  "sum_list (map (\<lambda>t. (f t - d) * g t) xs) = sum_list (map (\<lambda>t. f t * g t) xs) - sum_list (map g xs) * (d :: u64)"
  by (induction xs) (simp_all add: algebra_simps)

lemma raise_min_fields [simp]:
  "tasks_timeline (raise_min_vruntime q v) = tasks_timeline q" "nr_running (raise_min_vruntime q v) = nr_running q"
  "rq_load (raise_min_vruntime q v) = rq_load q" "curr (raise_min_vruntime q v) = curr q"
  by (simp_all add: raise_min_vruntime_def avg_vruntime_update_def Let_def)

lemma raise_min_avg: "avg_inv q T \<Longrightarrow> avg_inv (raise_min_vruntime q v) T"
proof -
  assume a: "avg_inv q T"
  define d where "d = v - rq_min_vruntime q"
  have "vruntime (T t) - v = task_key q (T t) - d" for t by (simp add: d_def task_key_def)
  then have "sum_list (map (\<lambda>t. (vruntime (T t) - v) * wt T t) (queue q)) =
      rq_avg_vruntime q - rq_avg_load q * d"
    using a by (simp add: sum_list_shift avg_inv_def)
  then show ?thesis using a
    by (simp add: raise_min_vruntime_def avg_vruntime_update_def avg_inv_def task_key_def Let_def d_def)
qed

lemma update_min_fields [simp]:
  "tasks_timeline (update_min_vruntime q T) = tasks_timeline q" "nr_running (update_min_vruntime q T) = nr_running q"
  "rq_load (update_min_vruntime q T) = rq_load q" "curr (update_min_vruntime q T) = curr q"
  by (simp_all add: update_min_vruntime_def Let_def)

lemma update_min_avg: "avg_inv q T \<Longrightarrow> avg_inv (update_min_vruntime q U) T"
  by (simp add: update_min_vruntime_def Let_def raise_min_avg)

lemma update_deadline_same:
  "update_deadline q T t = (r, T') \<Longrightarrow> same_task (T t) (T' t) \<and> vruntime (T' t) = vruntime (T t) \<and> (\<forall>u. u \<noteq> t \<longrightarrow> T' u = T u)"
  by (auto simp: update_deadline_def Let_def same_task_def weight_calcD split: if_splits prod.splits)

lemma update_curr_ok:
  assumes "update_curr q T now = (r, q', T')" "ev_inv q T"
  shows "ev_inv q' T' \<and> tasks_timeline q' = tasks_timeline q \<and> curr q' = curr q \<and> nr_running q' = nr_running q \<and>
    rq_load q' = rq_load q \<and> same_task (T u) (T' u) \<and> (curr q \<noteq> Some u \<longrightarrow> T' u = T u)"
proof (cases "curr q = None \<or> (\<exists>c. curr q = Some c \<and> sint (now - exec_start (T c)) \<le> 0)")
  case True
  then have "q' = q \<and> T' = T" using assms(1) by (auto simp: update_curr_def Let_def)
  then show ?thesis using assms(2) by simp
next
  case False
  then obtain c where c: "curr q = Some c" "\<not> sint (now - exec_start (T c)) \<le> 0" by auto
  obtain d lw where d: "calc_delta_fair (now - exec_start (T c)) (load (T c)) = (d, lw)" by fastforce
  define T1 where "T1 = upd c (\<lambda>k. k\<lparr>exec_start := now, sum_exec_runtime := sum_exec_runtime k + (now - exec_start (T c)),
    load := lw, vruntime := vruntime k + d\<rparr>) T"
  have r: "update_deadline q T1 c = (r, T')" "q' = update_min_vruntime q T'"
    using assms(1) c d by (auto simp: update_curr_def T1_def Let_def split: prod.splits)
  have t1: "same_task (T u) (T1 u)" "u \<noteq> c \<Longrightarrow> T1 u = T u" for u
    using weight_calcD(2) [OF d] by (auto simp: T1_def same_task_def)
  note ud = update_deadline_same [OF r(1)]
  have st: "same_task (T u) (T' u)" "u \<noteq> c \<Longrightarrow> T' u = T u" for u
    using t1 [of u] ud ev_same_task_trans [of "T u" "T1 u" "T' u"] by (cases "u = c"; auto)+
  have "T' u = T u" if "u \<in> set (queue q)" for u using st(2) [of u] that ev_inv_curr [OF assms(2) c(1)] by auto
  then have "ev_inv q T'" using st(1) by (intro ev_inv_cong [OF assms(2)]) simp_all
  then have "ev_inv q' T'" unfolding r(2) ev_inv_def by (simp add: update_min_avg)
  then show ?thesis using st c r(2) by simp
qed

subsection \<open>The average can be computed\<close>

lemma scale_nice [simp]: "scale_load_down NICE_0_LOAD = 2"
  by (simp add: NICE_0_LOAD_def scale_load_down_def)

lemma sum_wt: "(\<forall>t \<in> set xs. weight (load (T t)) = NICE_0_LOAD) \<Longrightarrow> sum_list (map (wt T) xs) = of_nat (2 * length xs)"
  by (induction xs)  simp_all

lemma total_load:
  assumes "ev_inv q T"
  shows "snd (avg_with_curr q T) = of_nat (2 * length (members q))" "unat (snd (avg_with_curr q T)) = 2 * length (members q)"
    "length (members q) \<le> MAX_TASKS"
proof -
  show l: "length (members q) \<le> MAX_TASKS" using assms by (auto simp: ev_inv_def intro: fq_length)
  have nice: "\<forall>t \<in> set (members q). weight (load (T t)) = NICE_0_LOAD" using assms by (simp add: ev_inv_def)
  moreover have "set (queue q) \<subseteq> set (members q)" by (cases "curr q") auto
  ultimately have "rq_avg_load q = of_nat (2 * length (queue q))" using assms sum_wt [of "queue q" T] by (auto simp: ev_inv_def avg_inv_def)
  then show s: "snd (avg_with_curr q T) = of_nat (2 * length (members q))"
    using ev_inv_curr [OF assms] by (auto simp: avg_with_curr_def Let_def split: option.splits)
  show "unat (snd (avg_with_curr q T)) = 2 * length (members q)"
    unfolding s using l unat_of_nat [of "2 * length (members q)", where ?'a = 64] by (simp add: MAX_TASKS_def del: of_nat_mult)
qed

lemma div_s64_some:
  assumes "0 < unat d" "unat d < 2 ^ 31"
  shows "div_s64 n d = Some (word_of_int (sint n sdiv int (unat d)))"
proof -
  have u: "unat (ucast d :: u32) = unat d" using assms(2) by (simp add: unsigned_ucast_eq take_bit_nat_eq_self)
  have "sint (ucast d :: u32) = int (unat d)" using sint_nonneg [of "ucast d :: u32"] assms(2) unfolding u by simp
  moreover have "int (unat d) \<noteq> 0" "int (unat d) \<noteq> - 1" using assms(1) by linarith+
  ultimately show ?thesis unfolding div_s64_def Let_def by (simp only: simp_thms if_False)
qed

lemma avg_vruntime_some:
  assumes "ev_inv q T"
  shows "\<exists>v. avg_vruntime q T = Some v"
proof -
  obtain a l where p: "avg_with_curr q T = (a, l)" by fastforce
  have "unat l < 2 ^ 31" using total_load(2,3) [OF assms] p by (simp add: MAX_TASKS_def)
  moreover have "l \<noteq> 0 \<Longrightarrow> 0 < unat l" by (simp add: unat_gt_0)
  ultimately show ?thesis using p by (auto simp: avg_vruntime_def div_s64_some)
qed

lemma avg_with_curr_upd:
  assumes "curr q \<noteq> Some t"
  shows "avg_with_curr q (upd t g T) = avg_with_curr q T"
  using assms by (auto simp: avg_with_curr_def split: option.splits)

lemma place_task_ok:
  assumes "ev_inv q T" "t \<notin> set (members q)"
  shows "\<exists>T'. place_task q T t init = Some T' \<and> same_task (T t) (T' t) \<and> (\<forall>u. u \<noteq> t \<longrightarrow> T' u = T u)"
proof -
  obtain v where v: "avg_vruntime q T = Some v" using avg_vruntime_some [OF assms(1)] by auto
  obtain vs lw where c: "calc_delta_fair sysctl_sched_base_slice (load (T t)) = (vs, lw)" by fastforce
  define T1 where "T1 = upd t (\<lambda>k. k\<lparr>slice := sysctl_sched_base_slice, load := lw\<rparr>) T"
  have nc: "curr q \<noteq> Some t" using assms(2) by auto
  then have a: "avg_with_curr q T1 = avg_with_curr q T" unfolding T1_def by (rule avg_with_curr_upd)
  define l where "l = (if snd (avg_with_curr q T) = 0 then 1 else snd (avg_with_curr q T))"
  have "0 < unat l" "unat l < 2 ^ 31" using total_load(2,3) [OF assms(1)] by (auto simp: l_def MAX_TASKS_def unat_gt_0)
  note d = div_s64_some [OF this]
  obtain lag where lag: "place_lag q T1 t = Some lag"
    by (cases "nr_running q = 0") (simp_all add: place_lag_def Let_def a d l_def [symmetric])
  have "place_task q T t init =
      Some (upd t (\<lambda>k. k\<lparr>vruntime := v - lag, deadline := v - lag + (if init then vs div 2 else vs)\<rparr>) T1)"
    using v c lag by (simp add: place_task_def Let_def flip: T1_def) (simp add: T1_def)
  then show ?thesis using weight_calcD(2) [OF c] by (auto simp: T1_def same_task_def)
qed

subsection \<open>Tasks join, wait, run and leave\<close>

lemma ev_dequeue_node_ok:
  assumes "root_ok (tasks_timeline q)" "distinct (queue q)" "t \<in> set (queue q)" "avg_inv q T"
  shows "\<exists>q' r. dequeue_node q T t = Some q' \<and> rb_erase_augmented_cached (min_vruntime_update T) t (tasks_timeline q) = Some r \<and>
    root_ok r \<and> nodes r = remove1 t (queue q) \<and> avg_inv q' T \<and>
    q' = q\<lparr>tasks_timeline := r, rq_avg_vruntime := rq_avg_vruntime q', rq_avg_load := rq_avg_load q'\<rparr>"
proof -
  from erase_ok [OF assms(1,3,2), of "min_vruntime_update T"] obtain r where
    r: "rb_erase_augmented_cached (min_vruntime_update T) t (tasks_timeline q) = Some r" "root_ok r" "nodes r = remove1 t (queue q)"
    by auto
  have m: "mset (queue q) = mset (t # nodes r)" using assms(3) r(3) by simp
  have "rq_avg_load q = sum_list (map (wt T) (t # nodes r))"
    "rq_avg_vruntime q = sum_list (map (\<lambda>t. task_key q (T t) * wt T t) (t # nodes r))"
    using assms(4) sum_list_mset_eq [OF m, of "wt T"] sum_list_mset_eq [OF m, of "\<lambda>t. task_key q (T t) * wt T t"]
    by (simp_all add: avg_inv_def)
  then have "avg_inv (avg_vruntime_sub (q\<lparr>tasks_timeline := r\<rparr>) (T t)) T"
    by (simp add: avg_vruntime_sub_def avg_inv_def Let_def task_key_def)
  then show ?thesis using r by (simp add: dequeue_node_def avg_vruntime_sub_def Let_def)
qed

lemma ev_enqueue_node_ok:
  assumes "root_ok (tasks_timeline q)" "avg_inv q T"
  shows "\<exists>q' r xs ys. enqueue_node q T t = Some q' \<and>
    rb_add_augmented_cached (min_vruntime_update T) (deadline_less T) t (vruntime (T t)) (tasks_timeline q) = Some r \<and>
    root_ok r \<and> queue q = xs @ ys \<and> nodes r = xs @ t # ys \<and> ordered_at (deadline_less T) t xs ys \<and> avg_inv q' T \<and>
    q' = q\<lparr>tasks_timeline := r, rq_avg_vruntime := rq_avg_vruntime q', rq_avg_load := rq_avg_load q'\<rparr>"
proof -
  from add_ok [OF assms(1), of "min_vruntime_update T" "deadline_less T" t "vruntime (T t)"] obtain r xs ys where
    r: "rb_add_augmented_cached (min_vruntime_update T) (deadline_less T) t (vruntime (T t)) (tasks_timeline q) = Some r"
      "root_ok r" "queue q = xs @ ys" "nodes r = xs @ t # ys" "ordered_at (deadline_less T) t xs ys" by auto
  have "avg_inv ((avg_vruntime_add q (T t))\<lparr>tasks_timeline := r\<rparr>) T"
    using assms(2) r(3,4) by (simp add: avg_vruntime_add_def avg_inv_def Let_def task_key_def)
  then show ?thesis using r
    by (intro exI [of _ "(avg_vruntime_add q (T t))\<lparr>tasks_timeline := r\<rparr>"] exI [of _ r] exI [of _ xs] exI [of _ ys])
      (simp add: enqueue_node_def avg_vruntime_add_def Let_def)
qed

text \<open>What a step does to the tree of a run queue: the tasks in it keep their virtual runtimes and deadlines,
  and at most one task joins it or leaves it.\<close>

definition qstep :: "eevdf_rq \<Rightarrow> etasks \<Rightarrow> eevdf_rq \<Rightarrow> etasks \<Rightarrow> bool" where
  "qstep q T q' T' \<longleftrightarrow>
     (\<forall>u \<in> set (queue q). vruntime (T' u) = vruntime (T u) \<and> deadline (T' u) = deadline (T u)) \<and>
     (tasks_timeline q' = tasks_timeline q \<or>
      (\<exists>t \<in> set (queue q). rb_erase_augmented_cached (min_vruntime_update T') t (tasks_timeline q) = Some (tasks_timeline q') \<and>
         queue q' = remove1 t (queue q)) \<or>
      (\<exists>t xs ys. rb_add_augmented_cached (min_vruntime_update T') (deadline_less T') t (vruntime (T' t)) (tasks_timeline q) =
           Some (tasks_timeline q') \<and>
         queue q = xs @ ys \<and> queue q' = xs @ t # ys \<and> ordered_at (deadline_less T') t xs ys))"

lemma ev_qstep_same:
  "tasks_timeline q' = tasks_timeline q \<Longrightarrow>
    (\<And>u. u \<in> set (queue q) \<Longrightarrow> vruntime (T' u) = vruntime (T u) \<and> deadline (T' u) = deadline (T u)) \<Longrightarrow> qstep q T q' T'"
  by (simp add: qstep_def)

lemma ev_qstep_join:
  "rb_add_augmented_cached (min_vruntime_update T') (deadline_less T') t (vruntime (T' t)) (tasks_timeline q) = Some (tasks_timeline q') \<Longrightarrow>
    queue q = xs @ ys \<Longrightarrow> queue q' = xs @ t # ys \<Longrightarrow> ordered_at (deadline_less T') t xs ys \<Longrightarrow>
    (\<And>u. u \<in> set (queue q) \<Longrightarrow> vruntime (T' u) = vruntime (T u) \<and> deadline (T' u) = deadline (T u)) \<Longrightarrow> qstep q T q' T'"
  unfolding qstep_def by blast

lemma tree_order_cong:
  assumes "\<And>u. vruntime (T u) = vruntime (T' u)" "\<And>u. deadline (T u) = deadline (T' u)"
  shows "min_vruntime_update T = min_vruntime_update T'" "deadline_less T = deadline_less T'"
  using assms by (simp_all add: min_vruntime_update_def deadline_less_def fun_eq_iff)

lemma ev_enqueue_task_ok:
  assumes "ev_inv q T" "t \<notin> set (members q)" "t < MAX_TASKS" "weight (load (T t)) = NICE_0_LOAD"
  shows "\<exists>q' T'. enqueue_task q T t now = Some (q', T') \<and> ev_inv q' T' \<and> curr q' = curr q \<and>
    mset (queue q') = add_mset t (mset (queue q)) \<and> same_task ((T t)\<lparr>on_rq := True\<rparr>) (T' t) \<and>
    (\<forall>u. u \<noteq> t \<longrightarrow> same_task (T u) (T' u)) \<and> qstep q T q' T' \<and> (\<forall>u. u \<noteq> t \<longrightarrow> curr q \<noteq> Some u \<longrightarrow> T' u = T u)"
proof -
  have nc: "curr q \<noteq> Some t" using assms(2) by auto
  obtain r q1 T1 where u: "update_curr q T now = (r, q1, T1)" by (metis prod_cases3)
  note us = update_curr_ok [OF u assms(1)]
  have "t \<notin> set (members q1)" using us assms(2) by simp
  with us place_task_ok [of q1 T1 t False] obtain T2 where
    p: "place_task q1 T1 t False = Some T2" "same_task (T1 t) (T2 t)" "\<forall>u. u \<noteq> t \<longrightarrow> T2 u = T1 u" by auto
  define q2 where "q2 = enqueue_update q1 (T2 t)"
  have rq: "tasks_timeline q2 = tasks_timeline q" "curr q2 = curr q" "nr_running q2 = nr_running q + 1"
      "weight (rq_load q2) = weight (rq_load q) + weight (load (T t))"
    using us p(2) by (auto simp: q2_def enqueue_update_def update_load_add_def same_task_def)
  have st: "same_task (T u) (T2 u)" for u using us [of u] p(2,3) ev_same_task_trans by (cases "u = t") auto
  have fr: "T2 u = T u" if "u \<noteq> t" "curr q \<noteq> Some u" for u using us p(3) that by simp
  have qt: "u \<noteq> t" if "u \<in> set (queue q)" for u using assms(2) that by (cases "curr q") auto
  have "avg_inv q1 T2" by (rule avg_inv_cong [where T = T1]) (use us p(3) qt in \<open>auto simp: ev_inv_def\<close>)
  then have "avg_inv q2 T2" by (simp add: q2_def enqueue_update_def avg_inv_def task_key_def)
  moreover have "root_ok (tasks_timeline q2)" using assms(1) rq(1) by (simp add: ev_inv_def)
  ultimately obtain q3 tr xs ys where
    e: "enqueue_node q2 T2 t = Some q3"
      "rb_add_augmented_cached (min_vruntime_update T2) (deadline_less T2) t (vruntime (T2 t)) (tasks_timeline q2) = Some tr"
      "root_ok tr" "queue q2 = xs @ ys" "nodes tr = xs @ t # ys" "ordered_at (deadline_less T2) t xs ys" "avg_inv q3 T2"
      "q3 = q2\<lparr>tasks_timeline := tr, rq_avg_vruntime := rq_avg_vruntime q3, rq_avg_load := rq_avg_load q3\<rparr>"
    using ev_enqueue_node_ok [of q2 T2 t] by blast
  let ?T = "upd t (\<lambda>k. k\<lparr>on_rq := True\<rparr>) T2"
  have q3: "tasks_timeline q3 = tr" "curr q3 = curr q" "nr_running q3 = nr_running q2" "rq_load q3 = rq_load q2"
    using rq(2) by (subst e(8), simp)+
  have m: "mset (nodes tr) = add_mset t (mset (queue q))" using e(4,5) rq(1) by simp
  have res: "enqueue_task q T t now = Some (q3, ?T)" using nc u p(1) e(1) by (simp add: enqueue_task_def q2_def Let_def)
  have st': "same_task (T u) (?T u)" if "u \<noteq> t" for u using st [of u] that by simp
  have tt: "same_task ((T t)\<lparr>on_rq := True\<rparr>) (?T t)" using st [of t] by (simp add: same_task_def)
  have "fq_inv (curr q) (nodes tr) (nr_running q + 1) (weight (rq_load q) + weight (load (T t))) (\<lambda>t. on_rq (?T t)) (\<lambda>t. weight (load (?T t)))"
    by (rule fq_inv_join [where on = "\<lambda>t. on_rq (T t)" and q = "queue q" and t = t])
      (use assms m st' tt in \<open>auto simp: ev_inv_def same_task_def\<close>)
  moreover have "avg_inv q3 ?T" by (rule avg_inv_cong [OF e(7)]) simp
  moreover have "weight (load (?T u)) = NICE_0_LOAD" if "u \<in> insert t (set (members q))" for u
    using that assms(1,4) st' [of u] tt by (cases "u = t") (auto simp: ev_inv_def same_task_def)
  moreover have "set (fq_members (curr q) (nodes tr)) = insert t (set (members q))"
    using e(4,5) rq(1) by (cases "curr q") auto
  ultimately have inv: "ev_inv q3 ?T" using e(3) q3 rq by (simp add: ev_inv_def)
  have tc: "min_vruntime_update T2 = min_vruntime_update ?T" "deadline_less T2 = deadline_less ?T" by (rule tree_order_cong; simp)+
  have "?T u = T u" if "u \<in> set (queue q)" for u using fr qt ev_inv_queue [OF assms(1) that] that by auto
  then have "qstep q T q3 ?T" using e(2,4,5,6) q3(1) rq(1) unfolding tc by (intro ev_qstep_join [of _ t _ _ xs ys]) simp_all
  with res inv q3 m st' tt fr show ?thesis by (intro exI [of _ q3] exI [of _ ?T]) simp
qed

lemma ev_dequeue_curr_ok:
  assumes "ev_inv q T" "curr q = Some c"
  shows "\<exists>q' T'. dequeue_task q T c now = Some (q', T') \<and> ev_inv (q'\<lparr>curr := None\<rparr>) T' \<and>
    tasks_timeline q' = tasks_timeline q \<and> same_task ((T c)\<lparr>on_rq := False\<rparr>) (T' c) \<and> (\<forall>u. u \<noteq> c \<longrightarrow> T' u = T u)"
proof -
  obtain r q1 T1 where u: "update_curr q T now = (r, q1, T1)" by (metis prod_cases3)
  note us = update_curr_ok [OF u assms(1)]
  obtain v where v: "avg_vruntime q1 T1 = Some v" using avg_vruntime_some us by blast
  obtain lag lw where l: "task_lag v (T1 c) = (lag, lw)" by fastforce
  have lw: "weight lw = weight (load (T1 c))" using l by (auto simp: task_lag_def split: prod.splits dest: weight_calcD)
  define T2 where "T2 = upd c (\<lambda>k. k\<lparr>vlag := lag, load := lw, on_rq := False\<rparr>) T1"
  define q2 where "q2 = dequeue_update q1 (T2 c)"
  have e: "dequeue_task q T c now = Some (update_min_vruntime q2 T2, T2)"
    using u v l us assms(2) by (simp add: dequeue_task_def update_task_lag_def q2_def T2_def Let_def)
  have cT: "same_task ((T c)\<lparr>on_rq := False\<rparr>) (T2 c)" using us [of c] lw by (simp add: T2_def same_task_def)
  have fr: "T2 u = T u" if "u \<noteq> c" for u using us [of u] assms(2) that by (simp add: T2_def)
  note ic = ev_inv_curr [OF assms]
  have qn: "u \<in> set (queue q) \<Longrightarrow> u \<noteq> c" for u using ic by auto
  have "avg_inv q1 T2" by (rule avg_inv_cong [where T = T1]) (use us qn in \<open>auto simp: ev_inv_def T2_def\<close>)
  then have a: "avg_inv (update_min_vruntime q2 T2) T2"
    by (intro update_min_avg) (simp add: q2_def dequeue_update_def avg_inv_def task_key_def)
  have "fq_inv None (queue q) (nr_running q - 1) (weight (rq_load q) - weight (load (T c))) (\<lambda>t. on_rq (T2 t)) (\<lambda>t. weight (load (T2 t)))"
    by (rule fq_inv_leave [where on = "\<lambda>t. on_rq (T t)"]) (use assms fr in \<open>auto simp: ev_inv_def\<close>)
  moreover have "weight (rq_load q2) = weight (rq_load q) - weight (load (T c))" "nr_running q2 = nr_running q - 1" "tasks_timeline q2 = tasks_timeline q"
    using us cT by (auto simp: q2_def dequeue_update_def update_load_sub_def same_task_def)
  moreover have "\<forall>u \<in> set (queue q). weight (load (T2 u)) = NICE_0_LOAD" using assms fr qn by (auto simp: ev_inv_def)
  ultimately have "ev_inv (update_min_vruntime q2 T2\<lparr>curr := None\<rparr>) T2"
    using assms(1) a by (simp add: ev_inv_def avg_inv_def task_key_def)
  with e cT fr \<open>tasks_timeline q2 = tasks_timeline q\<close> show ?thesis by (intro exI [of _ "update_min_vruntime q2 T2"] exI [of _ T2]) simp
qed

lemma ev_set_next_ok:
  assumes "ev_inv q T" "curr q = None" "t \<in> set (queue q)"
  shows "\<exists>q' T'. set_next_task q T t cpu now = Some (q', T') \<and> ev_inv q' T' \<and> curr q' = Some t \<and>
    queue q' = remove1 t (queue q) \<and> same_task ((T t)\<lparr>last_run := cpu\<rparr>) (T' t) \<and> (\<forall>u. u \<noteq> t \<longrightarrow> T' u = T u) \<and> qstep q T q' T'"
proof -
  have i: "root_ok (tasks_timeline q)" "distinct (queue q)" "on_rq (T t)" "avg_inv q T"
    using assms by (auto simp: ev_inv_def fq_inv_def)
  from ev_dequeue_node_ok [OF i(1,2) assms(3) i(4)] obtain q1 r where
    q1: "dequeue_node q T t = Some q1" "rb_erase_augmented_cached (min_vruntime_update T) t (tasks_timeline q) = Some r"
      "root_ok r" "nodes r = remove1 t (queue q)" "avg_inv q1 T"
      "q1 = q\<lparr>tasks_timeline := r, rq_avg_vruntime := rq_avg_vruntime q1, rq_avg_load := rq_avg_load q1\<rparr>" by blast
  have f: "tasks_timeline q1 = r" "nr_running q1 = nr_running q" "rq_load q1 = rq_load q" by (subst q1(6), simp)+
  let ?q = "q1\<lparr>curr := Some t\<rparr>"
  let ?T = "upd t (\<lambda>k. k\<lparr>vlag := deadline k, exec_start := now, last_run := cpu, prev_sum_exec_runtime := sum_exec_runtime k\<rparr>) T"
  have e: "set_next_task q T t cpu now = Some (?q, ?T)" using q1(1) i(3) by (simp add: set_next_task_def)
  have mm: "mset (fq_members (Some t) (nodes r)) = mset (fq_members None (queue q))" using q1(4) assms(3) by simp
  have "avg_inv ?q T" using q1(5) by (simp add: avg_inv_def task_key_def)
  then have a: "avg_inv ?q ?T" by (rule avg_inv_cong) simp
  have "fq_inv None (queue q) (nr_running q) (weight (rq_load q)) (\<lambda>u. on_rq (?T u)) (\<lambda>u. weight (load (?T u)))"
    by (rule fq_inv_cong [where on = "\<lambda>t. on_rq (T t)" and wt = "\<lambda>t. weight (load (T t))"]) (use assms(1,2) in \<open>auto simp: ev_inv_def\<close>)
  then have "fq_inv (Some t) (nodes r) (nr_running q) (weight (rq_load q)) (\<lambda>u. on_rq (?T u)) (\<lambda>u. weight (load (?T u)))"
    by (rule fq_inv_move [OF _ mm])
  moreover have "\<forall>u \<in> set (fq_members (Some t) (nodes r)). weight (load (?T u)) = NICE_0_LOAD"
    using assms mset_eq_setD [OF mm] by (simp add: ev_inv_def)
  ultimately have "ev_inv ?q ?T" using q1(3) a f by (simp add: ev_inv_def)
  moreover have "min_vruntime_update T = min_vruntime_update ?T" by (rule tree_order_cong) simp_all
  then have "qstep q T ?q ?T" using q1(2,4) assms(3) f(1) by (auto simp: qstep_def)
  ultimately show ?thesis using e f(1) q1(4) by (simp add: same_task_def)
qed

lemma ev_put_prev_ok:
  assumes "ev_inv q T" "curr q = Some c" "same_task (T c) k"
  shows "\<exists>q'. enqueue_node q (T(c := k)) c = Some q' \<and> ev_inv (q'\<lparr>curr := None\<rparr>) (T(c := k)) \<and>
    mset (queue q') = add_mset c (mset (queue q)) \<and> qstep q T (q'\<lparr>curr := None\<rparr>) (T(c := k))"
proof -
  let ?T = "T(c := k)"
  note ic = ev_inv_curr [OF assms(1,2)]
  have "avg_inv q ?T" by (rule avg_inv_cong [where T = T]) (use assms(1) ic in \<open>auto simp: ev_inv_def\<close>)
  moreover have "root_ok (tasks_timeline q)" using assms(1) by (simp add: ev_inv_def)
  ultimately obtain q3 tr xs ys where
    e: "enqueue_node q ?T c = Some q3"
      "rb_add_augmented_cached (min_vruntime_update ?T) (deadline_less ?T) c (vruntime (?T c)) (tasks_timeline q) = Some tr"
      "root_ok tr" "queue q = xs @ ys" "nodes tr = xs @ c # ys" "ordered_at (deadline_less ?T) c xs ys" "avg_inv q3 ?T"
      "q3 = q\<lparr>tasks_timeline := tr, rq_avg_vruntime := rq_avg_vruntime q3, rq_avg_load := rq_avg_load q3\<rparr>"
    using ev_enqueue_node_ok [of q ?T c] by blast
  have f: "tasks_timeline q3 = tr" "nr_running q3 = nr_running q" "rq_load q3 = rq_load q" by (subst e(8), simp)+
  let ?q = "q3\<lparr>curr := None\<rparr>"
  have mm: "mset (fq_members None (nodes tr)) = mset (fq_members (Some c) (queue q))" using e(4,5) by simp
  have "fq_inv (Some c) (queue q) (nr_running q) (weight (rq_load q)) (\<lambda>u. on_rq (?T u)) (\<lambda>u. weight (load (?T u)))"
    by (rule fq_inv_cong [where on = "\<lambda>t. on_rq (T t)" and wt = "\<lambda>t. weight (load (T t))"])
      (use assms in \<open>auto simp: ev_inv_def same_task_def\<close>)
  then have "fq_inv None (nodes tr) (nr_running q) (weight (rq_load q)) (\<lambda>u. on_rq (?T u)) (\<lambda>u. weight (load (?T u)))"
    by (rule fq_inv_move [OF _ mm])
  moreover have "\<forall>u \<in> set (fq_members None (nodes tr)). weight (load (?T u)) = NICE_0_LOAD"
    using assms mset_eq_setD [OF mm] ic by (simp add: ev_inv_def same_task_def)
  moreover have "avg_inv ?q ?T" using e(7) by (simp add: avg_inv_def task_key_def)
  ultimately have "ev_inv ?q ?T" using e(3) f by (simp add: ev_inv_def)
  moreover have "qstep q T ?q ?T" using e(2,4,5,6) f(1) ic by (intro ev_qstep_join [of _ c _ _ xs ys]) auto
  ultimately show ?thesis using e(1,4,5) f(1) by simp
qed

end
