(* ===== verification/Eevdf_Policy.thy ===== *)
theory Eevdf_Policy
  imports Eevdf
begin

text \<open>
  The EEVDF policy on all CPUs: every sequence of its operations keeps the run queues in order, and the
  task it picks is the eligible one with the earliest deadline.
\<close>

section \<open>All CPUs\<close>

definition task_ok :: "eevdf_task \<Rightarrow> bool" where
  "task_ok k \<longleftrightarrow> weight (load k) = NICE_0_LOAD \<and> 0 \<le> last_run k \<and> last_run k < int USED_CPUS"

definition ev_ok :: "eevdf_st \<Rightarrow> bool" where
  "ev_ok s \<longleftrightarrow> (\<forall>cpu < USED_CPUS. ev_inv (eevdf_rqs s cpu) (etask s)) \<and>
     placed (\<lambda>c. set (members (eevdf_rqs s c))) (\<lambda>t. on_rq (etask s t)) \<and> (\<forall>t. task_ok (etask s t))"

definition ev_queued :: "eevdf_st \<Rightarrow> task multiset" where
  "ev_queued s = (\<Sum>cpu < USED_CPUS. mset (queue (eevdf_rqs s cpu)))"

definition queue_step :: "eevdf_st \<Rightarrow> eevdf_st \<Rightarrow> bool" where
  "queue_step s s' \<longleftrightarrow> (\<forall>cpu < USED_CPUS. qstep (eevdf_rqs s cpu) (etask s) (eevdf_rqs s' cpu) (etask s'))"

lemma task_ok_same: "same_task k k' \<Longrightarrow> task_ok k \<Longrightarrow> task_ok k'"
  by (simp add: same_task_def task_ok_def)

lemma ev_ok_not_member: "ev_ok s \<Longrightarrow> \<not> on_rq (etask s t) \<Longrightarrow> cpu < USED_CPUS \<Longrightarrow> t \<notin> set (members (eevdf_rqs s cpu))"
  by (auto simp: ev_ok_def placed_def)

lemma ev_queued_upd:
  "cpu < USED_CPUS \<Longrightarrow> ev_queued (set_rq s cpu (q, T)) + mset (queue (eevdf_rqs s cpu)) = ev_queued s + mset (queue q)"
  using sum_fun_upd [of cpu USED_CPUS "\<lambda>q. mset (queue q)" "eevdf_rqs s" q] by (simp add: ev_queued_def)

text \<open>One run queue changes: tasks that join it were not on any, tasks that leave are not marked any more,
  and the tasks elsewhere stay as they are.\<close>

lemma ev_ok_update:
  assumes ok: "ev_ok s" and c: "cpu < USED_CPUS" and inv: "ev_inv q T" and qs: "qstep (eevdf_rqs s cpu) (etask s) q T"
    and join: "\<And>u. u \<in> set (members q) \<Longrightarrow> u \<notin> set (members (eevdf_rqs s cpu)) \<Longrightarrow> \<not> on_rq (etask s u)"
    and leave: "\<And>u. u \<in> set (members (eevdf_rqs s cpu)) \<Longrightarrow> u \<notin> set (members q) \<Longrightarrow> \<not> on_rq (T u)"
    and rest: "\<And>u. u \<notin> set (members q) \<Longrightarrow> u \<notin> set (members (eevdf_rqs s cpu)) \<Longrightarrow>
        T u = etask s u \<or> \<not> on_rq (T u) \<and> \<not> on_rq (etask s u)"
    and run: "\<And>u. task_ok (T u)"
  shows "ev_ok (set_rq s cpu (q, T)) \<and> queue_step s (set_rq s cpu (q, T))"
proof -
  let ?M = "\<lambda>c. set (members (eevdf_rqs s c))"
  have p: "placed ?M (\<lambda>t. on_rq (etask s t))" using ok by (simp add: ev_ok_def)
  have "\<forall>u \<in> set (members q). on_rq (T u)" using inv by (simp add: ev_inv_def fq_inv_def)
  then have "placed (?M(cpu := set (members q))) (\<lambda>t. on_rq (T t))"
    by (intro placed_update [OF p c]) (use join leave rest in \<open>auto, metis+\<close>)
  moreover have "?M(cpu := set (members q)) = (\<lambda>d. set (members (((eevdf_rqs s)(cpu := q)) d)))" by (rule ext) simp
  ultimately have pl: "placed (\<lambda>d. set (members (((eevdf_rqs s)(cpu := q)) d))) (\<lambda>t. on_rq (T t))" by simp
  have other: "T u = etask s u" if "d < USED_CPUS" "d \<noteq> cpu" "u \<in> ?M d" for d u
  proof -
    have o: "u \<notin> ?M cpu \<and> on_rq (etask s u)" by (rule placed_other [OF p c that(1)]) (use that in auto)
    then have "u \<notin> set (members q)" using join by blast
    with o rest show ?thesis by blast
  qed
  have inM: "u \<in> ?M d" if "u \<in> set (queue (eevdf_rqs s d))" for d u using that by (cases "curr (eevdf_rqs s d)") auto
  have "ev_inv (eevdf_rqs s d) T" if d: "d < USED_CPUS" "d \<noteq> cpu" for d
  proof (rule ev_inv_cong)
    show "ev_inv (eevdf_rqs s d) (etask s)" using ok d by (simp add: ev_ok_def)
  qed (use other [OF d] inM in auto)
  moreover have "qstep (eevdf_rqs s d) (etask s) (eevdf_rqs s d) T" if d: "d < USED_CPUS" "d \<noteq> cpu" for d
    using other [OF d] inM by (intro ev_qstep_same) auto
  ultimately show ?thesis using inv run pl qs by (simp add: ev_ok_def queue_step_def)
qed

lemma enqueue_ok:
  assumes "ev_ok s" "cpu < USED_CPUS" "\<not> on_rq (etask s t)" "t < MAX_TASKS"
  shows "\<exists>q T. enqueue_task (eevdf_rqs s cpu) (etask s) t now = Some (q, T) \<and> ev_ok (set_rq s cpu (q, T)) \<and>
    ev_queued (set_rq s cpu (q, T)) = add_mset t (ev_queued s) \<and> queue_step s (set_rq s cpu (q, T))"
proof -
  let ?q = "eevdf_rqs s cpu"
  have nm: "t \<notin> set (members ?q)" by (rule ev_ok_not_member [OF assms(1,3,2)])
  have inv: "ev_inv ?q (etask s)" "weight (load (etask s t)) = NICE_0_LOAD" using assms by (simp_all add: ev_ok_def task_ok_def)
  from ev_enqueue_task_ok [OF inv(1) nm assms(4) inv(2), of now] obtain q T where
    e: "enqueue_task ?q (etask s) t now = Some (q, T)" "ev_inv q T" "curr q = curr ?q"
       "mset (queue q) = add_mset t (mset (queue ?q))" "same_task ((etask s t)\<lparr>on_rq := True\<rparr>) (T t)"
       "\<forall>u. u \<noteq> t \<longrightarrow> same_task (etask s u) (T u)" "qstep ?q (etask s) q T"
       "\<forall>u. u \<noteq> t \<longrightarrow> curr ?q \<noteq> Some u \<longrightarrow> T u = etask s u" by blast
  have "set (queue q) = insert t (set (queue ?q))" using arg_cong [OF e(4), of set_mset] by simp
  then have m: "set (members q) = insert t (set (members ?q))" using e(3) by (simp add: fq_set)
  have "task_ok (T u)" for u
  proof (cases "u = t")
    case True
    then show ?thesis using e(5) assms(1) by (auto simp: ev_ok_def task_ok_def same_task_def)
  next
    case False
    then show ?thesis using e(6) assms(1) task_ok_same [of "etask s u" "T u"] by (simp add: ev_ok_def)
  qed
  then have "ev_ok (set_rq s cpu (q, T)) \<and> queue_step s (set_rq s cpu (q, T))"
    using e(8) assms(3) m by (intro ev_ok_update [OF assms(1,2) e(2,7)]) (auto simp: fq_set)
  moreover have "ev_queued (set_rq s cpu (q, T)) = add_mset t (ev_queued s)"
    using ev_queued_upd [OF assms(2), where s = s and q = q and T = T] e(4) by simp
  ultimately show ?thesis using e(1) by blast
qed

lemma eevdf_wakeup_ok:
  assumes "ev_ok s" "\<not> on_rq (etask s t)" "t < MAX_TASKS"
  shows "\<exists>s'. eevdf_wakeup s t now = Some s' \<and> ev_ok s' \<and> ev_queued s' = add_mset t (ev_queued s) \<and> queue_step s s'"
proof -
  have c: "0 \<le> last_run (etask s t)" "nat (last_run (etask s t)) < USED_CPUS"
    using assms(1) by (auto simp: ev_ok_def task_ok_def nat_less_iff)
  from enqueue_ok [OF assms(1) c(2) assms(2,3), of now] c(1) assms(2) show ?thesis
    by (auto simp: eevdf_wakeup_def eevdf_find_target_cpu_def)
qed

lemma queue_step_compose:
  assumes "queue_step s s1" "\<And>cpu. cpu < USED_CPUS \<Longrightarrow> tasks_timeline (eevdf_rqs s1 cpu) = tasks_timeline (eevdf_rqs s cpu)" "queue_step s1 s2"
  shows "queue_step s s2"
  unfolding queue_step_def
proof (intro allI impI)
  fix cpu assume c: "cpu < USED_CPUS"
  have "qstep (eevdf_rqs s cpu) (etask s) (eevdf_rqs s1 cpu) (etask s1)" "qstep (eevdf_rqs s1 cpu) (etask s1) (eevdf_rqs s2 cpu) (etask s2)"
    using assms(1,3) c by (simp_all add: queue_step_def)
  then show "qstep (eevdf_rqs s cpu) (etask s) (eevdf_rqs s2 cpu) (etask s2)" unfolding qstep_def assms(2) [OF c] by metis
qed

lemma fork_ok:
  assumes "ev_ok s" "cpu < USED_CPUS" "\<not> on_rq (etask s t)"
  shows "\<exists>q T. fork_task (eevdf_rqs s cpu) (etask s) t now = Some (q, T) \<and> ev_ok (set_rq s cpu (q, T)) \<and> \<not> on_rq (T t) \<and>
    tasks_timeline q = tasks_timeline (eevdf_rqs s cpu) \<and> queue_step s (set_rq s cpu (q, T))"
proof -
  let ?q = "eevdf_rqs s cpu"
  have nm: "t \<notin> set (members ?q)" by (rule ev_ok_not_member [OF assms(1,3,2)])
  have inv: "ev_inv ?q (etask s)" using assms by (simp add: ev_ok_def)
  obtain r q1 T1 where u: "(if curr ?q \<noteq> None then update_curr ?q (etask s) now else (False, ?q, etask s)) = (r, q1, T1)"
    by (metis prod_cases3)
  have us: "ev_inv q1 T1 \<and> tasks_timeline q1 = tasks_timeline ?q \<and> curr q1 = curr ?q \<and> same_task (etask s u) (T1 u) \<and>
      (curr ?q \<noteq> Some u \<longrightarrow> T1 u = etask s u)" for u
    using u update_curr_ok [OF _ inv, of now r q1 T1 u] inv by (auto split: if_splits)
  have m: "members q1 = members ?q" using us by simp
  with us nm place_task_ok [of q1 T1 t True] obtain T where
    p: "place_task q1 T1 t True = Some T" "same_task (T1 t) (T t)" "\<forall>u. u \<noteq> t \<longrightarrow> T u = T1 u" by auto
  have st: "same_task (etask s u) (T u)" for u using us [of u] p(2,3) ev_same_task_trans by (cases "u = t") auto
  have fr: "T u = etask s u" if "u \<noteq> t" "curr ?q \<noteq> Some u" for u using us [of u] p(3) that by simp
  have inm: "T u = T1 u" if "u \<in> set (members q1)" for u using that nm m p(3) by metis
  then have inq: "T u = T1 u" if "u \<in> set (queue q1)" for u using that by (simp add: fq_set)
  have "ev_inv q1 T1" using us by blast
  then have i: "ev_inv q1 T" by (rule ev_inv_cong) (simp_all add: inm inq)
  have "qstep ?q (etask s) q1 T"
    using us inq ev_inv_queue [OF inv] by (intro ev_qstep_same) auto
  moreover have tk: "task_ok (T u)" for u by (rule task_ok_same [OF st]) (use assms(1) in \<open>simp add: ev_ok_def\<close>)
  moreover have off: "\<not> on_rq (T t)" using st [of t] assms(3) by (simp add: same_task_def)
  ultimately have "ev_ok (set_rq s cpu (q1, T)) \<and> queue_step s (set_rq s cpu (q1, T))"
    using assms(3) m fr by (intro ev_ok_update [OF assms(1,2) i]) (auto simp: fq_set, metis+)
  moreover have "fork_task ?q (etask s) t now = Some (q1, T)" using u p(1) by (simp add: fork_task_def Let_def split: if_splits)
  ultimately show ?thesis using us off by blast
qed

lemma eevdf_fork_ok:
  assumes "ev_ok s" "\<not> on_rq (etask s t)" "0 \<le> fst (eevdf_find_target_cpu s t True)"
  shows "\<exists>cpu s'. eevdf_fork s t now = Some (cpu, s') \<and> cpu < USED_CPUS \<and> ev_ok s' \<and> \<not> on_rq (etask s' t) \<and> ev_queued s' = ev_queued s \<and> queue_step s s'"
proof -
  define cpu where "cpu = nat (fst (eevdf_find_target_cpu s t True))"
  let ?s = "s\<lparr>TARGET_CPU := signed_take_bit 31 (TARGET_CPU s + 1)\<rparr>"
  have tc: "eevdf_find_target_cpu s t True = (int cpu, ?s)" using assms(3) by (simp add: eevdf_find_target_cpu_def cpu_def)
  have "fst (eevdf_find_target_cpu s t True) < int USED_CPUS"
    using pos_mod_bound [of "int USED_CPUS" "\<bar>TARGET_CPU s\<bar>"] pos_mod_sign [of "int USED_CPUS" "\<bar>TARGET_CPU s\<bar>"]
    by (auto simp: eevdf_find_target_cpu_def USED_CPUS_def sgn_if)
  then have c: "cpu < USED_CPUS" using assms(3) by (simp add: cpu_def nat_less_iff)
  have ok: "ev_ok ?s" "\<not> on_rq (etask ?s t)" using assms(1,2) by (simp_all add: ev_ok_def)
  from fork_ok [OF ok(1) c ok(2), of now] obtain q T where
    f: "fork_task (eevdf_rqs s cpu) (etask s) t now = Some (q, T)" "ev_ok (set_rq ?s cpu (q, T))" "\<not> on_rq (T t)"
      "tasks_timeline q = tasks_timeline (eevdf_rqs s cpu)" "queue_step ?s (set_rq ?s cpu (q, T))" by auto
  have "ev_queued (set_rq ?s cpu (q, T)) = ev_queued s"
    using ev_queued_upd [OF c, where s = ?s and q = q and T = T] f(4) by (simp add: ev_queued_def)
  moreover have "queue_step s (set_rq ?s cpu (q, T))" using f(5) by (simp add: queue_step_def)
  ultimately show ?thesis using tc f(1-3) c by (simp add: eevdf_fork_def)
qed

lemma eevdf_put_ok:
  assumes "ev_ok s" "\<not> on_rq (etask s t)" "t < MAX_TASKS" "cpu < USED_CPUS"
  shows "\<exists>s'. eevdf_put s cpu t now = Some s' \<and> ev_ok s' \<and> ev_queued s' = add_mset t (ev_queued s) \<and> queue_step s s'"
  using enqueue_ok [OF assms(1,4,2,3), of now] assms(2) by (auto simp: eevdf_put_def put_task_def)

lemma eevdf_spawn_some:
  assumes "ev_ok s" "\<not> on_rq (etask s t)" "t < MAX_TASKS" "0 \<le> TARGET_CPU s"
  shows "\<exists>s'. eevdf_spawn s t now now' = Some s' \<and> ev_queued s' = add_mset t (ev_queued s)"
proof -
  have "0 \<le> fst (eevdf_find_target_cpu s t True)" using assms(4) by (simp add: eevdf_find_target_cpu_def USED_CPUS_def sgn_if)
  from eevdf_fork_ok [OF assms(1,2) this, of now] obtain cpu s1 where f: "eevdf_fork s t now = Some (cpu, s1)" "cpu < USED_CPUS" "ev_ok s1"
      "\<not> on_rq (etask s1 t)" "ev_queued s1 = ev_queued s" by blast
  from eevdf_put_ok [OF f(3,4) assms(3) f(2), of now'] show ?thesis using f(1,5) by (auto simp: eevdf_spawn_def)
qed

lemma eevdf_wakeup_some:
  assumes "ev_ok s" "t < MAX_TASKS"
  shows "eevdf_wakeup s t now \<noteq> None"
proof (cases "on_rq (etask s t)")
  case True
  then show ?thesis using assms(1) by (auto simp: eevdf_wakeup_def eevdf_find_target_cpu_def ev_ok_def task_ok_def not_less Let_def)
qed (use eevdf_wakeup_ok [OF assms(1) _ assms(2), of now] in auto)

lemma eevdf_yield_ok:
  assumes "ev_ok s" "cpu < USED_CPUS" "curr (eevdf_rqs s cpu) = Some c"
  shows "\<exists>s'. eevdf_yield s cpu now = Some s' \<and> ev_ok s' \<and> ev_queued s' = add_mset c (ev_queued s) \<and> queue_step s s'"
proof -
  let ?q = "eevdf_rqs s cpu"
  have inv: "ev_inv ?q (etask s)" using assms by (simp add: ev_ok_def)
  note ic = ev_inv_curr [OF inv assms(3)]
  obtain r q1 T1 where u: "update_curr ?q (etask s) now = (r, q1, T1)" by (metis prod_cases3)
  note us = update_curr_ok [OF u inv]
  obtain d lw where d: "calc_delta_fair (slice (T1 c)) (load (T1 c)) = (d, lw)" by fastforce
  define k where "k = (T1 c)\<lparr>load := lw, deadline := deadline (T1 c) + d\<rparr>"
  have k: "same_task (T1 c) k" using weight_calcD(2) [OF d] by (simp add: k_def same_task_def)
  from ev_put_prev_ok [where q = q1 and T = T1 and c = c and k = k] k us assms(3) obtain q2 where
    e: "enqueue_node q1 (T1(c := k)) c = Some q2" "ev_inv (q2\<lparr>curr := None\<rparr>) (T1(c := k))"
       "mset (queue q2) = add_mset c (mset (queue ?q))" "qstep q1 T1 (q2\<lparr>curr := None\<rparr>) (T1(c := k))" by auto
  let ?q2 = "q2\<lparr>curr := None\<rparr>" and ?T = "T1(c := k)"
  have inq: "u \<noteq> c" if "u \<in> set (queue ?q)" for u using ic that by auto
  have T1q: "T1 u = etask s u" if "u \<in> set (queue ?q)" for u using us [of u] inq [OF that] assms(3) by simp
  have tl: "tasks_timeline q1 = tasks_timeline ?q" using us by simp
  have qs: "qstep ?q (etask s) ?q2 ?T" using e(4) T1q unfolding qstep_def tl by simp
  have m: "set (members ?q2) = set (members ?q)" using e(3) assms(3) by (auto simp: fq_set dest: arg_cong [of _ _ set_mset])
  have st: "same_task (etask s u) (?T u)" for u using us [of u] k ev_same_task_trans by (cases "u = c") auto
  have fr: "?T u = etask s u" if "u \<noteq> c" for u using us [of u] assms(3) that by simp
  have tk: "task_ok (?T u)" for u by (rule task_ok_same [OF st]) (use assms(1) in \<open>simp add: ev_ok_def\<close>)
  have "ev_ok (set_rq s cpu (?q2, ?T)) \<and> queue_step s (set_rq s cpu (?q2, ?T))"
    using assms(3) m fr tk by (intro ev_ok_update [OF assms(1,2) e(2) qs]) (simp_all add: fq_set)
  moreover have "ev_queued (set_rq s cpu (?q2, ?T)) = add_mset c (ev_queued s)"
    using ev_queued_upd [OF assms(2), where s = s and q = ?q2 and T = ?T] e(3) by simp
  moreover have "eevdf_yield s cpu now = Some (set_rq s cpu (?q2, ?T))"
    using assms(3) ic u d e(1) by (simp add: eevdf_yield_def k_def)
  ultimately show ?thesis by blast
qed

lemma ev_leave_ok:
  assumes "ev_ok s" "cpu < USED_CPUS" "curr (eevdf_rqs s cpu) = Some c"
  shows "\<exists>q T. dequeue_task (eevdf_rqs s cpu) (etask s) c now = Some (q, T) \<and>
    ev_ok (set_rq s cpu (q\<lparr>curr := None\<rparr>, T)) \<and> ev_queued (set_rq s cpu (q\<lparr>curr := None\<rparr>, T)) = ev_queued s \<and>
    \<not> on_rq (T c) \<and> queue_step s (set_rq s cpu (q\<lparr>curr := None\<rparr>, T))"
proof -
  let ?q = "eevdf_rqs s cpu"
  have inv: "ev_inv ?q (etask s)" using assms by (simp add: ev_ok_def)
  note ic = ev_inv_curr [OF inv assms(3)]
  from ev_dequeue_curr_ok [OF inv assms(3), of now] obtain q T where
    e: "dequeue_task ?q (etask s) c now = Some (q, T)" "ev_inv (q\<lparr>curr := None\<rparr>) T" "tasks_timeline q = tasks_timeline ?q"
       "same_task ((etask s c)\<lparr>on_rq := False\<rparr>) (T c)" "\<forall>u. u \<noteq> c \<longrightarrow> T u = etask s u" by blast
  have off: "\<not> on_rq (T c)" using e(4) by (simp add: same_task_def)
  have qs: "qstep ?q (etask s) (q\<lparr>curr := None\<rparr>) T" using e(3,5) ic by (intro ev_qstep_same) auto
  have tk: "task_ok (T u)" for u
    using e(4,5) assms(1) by (cases "u = c") (auto simp: ev_ok_def task_ok_def same_task_def)
  have "ev_ok (set_rq s cpu (q\<lparr>curr := None\<rparr>, T)) \<and> queue_step s (set_rq s cpu (q\<lparr>curr := None\<rparr>, T))"
    using assms(3) e(3,5) off tk by (intro ev_ok_update [OF assms(1,2) e(2) qs]) (auto simp: fq_set)
  moreover have "ev_queued (set_rq s cpu (q\<lparr>curr := None\<rparr>, T)) = ev_queued s"
    using ev_queued_upd [OF assms(2), where s = s and q = "q\<lparr>curr := None\<rparr>" and T = T] e(3) by simp
  ultimately show ?thesis using e(1) off by blast
qed

lemma eevdf_block_ok:
  assumes "ev_ok s" "cpu < USED_CPUS" "curr (eevdf_rqs s cpu) = Some c"
  shows "\<exists>s'. eevdf_block s cpu now = Some s' \<and> ev_ok s' \<and> ev_queued s' = ev_queued s \<and> \<not> on_rq (etask s' c) \<and> queue_step s s'"
proof -
  have "ev_inv (eevdf_rqs s cpu) (etask s)" using assms by (simp add: ev_ok_def)
  from ev_inv_curr [OF this assms(3)] ev_leave_ok [OF assms, of now] assms(3) show ?thesis by (auto simp: eevdf_block_def)
qed

lemma eevdf_finish_ok:
  assumes "ev_ok s" "cpu < USED_CPUS" "curr (eevdf_rqs s cpu) = Some c"
  shows "\<exists>s'. eevdf_finish_task s cpu c now = Some s' \<and> ev_ok s' \<and> ev_queued s' = ev_queued s \<and> \<not> on_rq (etask s' c) \<and> queue_step s s'"
  using ev_leave_ok [OF assms, of now] by (auto simp: eevdf_finish_task_def)

lemma eevdf_preempt_ok:
  assumes "ev_ok s" "cpu < USED_CPUS" "eevdf_preempt s cpu now = (r, s')"
  shows "ev_ok s' \<and> ev_queued s' = ev_queued s \<and> queue_step s s'"
proof -
  let ?q = "eevdf_rqs s cpu"
  have inv: "ev_inv ?q (etask s)" using assms by (simp add: ev_ok_def)
  obtain r q1 T1 where u: "update_curr ?q (etask s) now = (r, q1, T1)" by (metis prod_cases3)
  note us = update_curr_ok [OF u inv]
  have s': "s' = set_rq s cpu (q1, T1)" using assms(3) u by (simp add: eevdf_preempt_def)
  have i: "ev_inv q1 T1" and qs: "qstep ?q (etask s) q1 T1"
    using us ev_inv_queue [OF inv] by (auto intro!: ev_qstep_same)
  have tk: "task_ok (T1 u)" for u using us [of u] assms(1) task_ok_same [of "etask s u"] by (simp add: ev_ok_def)
  have "ev_ok s' \<and> queue_step s s'" unfolding s'
    using us tk by (intro ev_ok_update [OF assms(1,2) i qs]) (simp_all add: fq_set)
  then show ?thesis using ev_queued_upd [OF assms(2), where s = s and q = q1 and T = T1] us s' by simp
qed

lemma eevdf_init_task_ok:
  assumes "ev_ok s" "\<not> on_rq (etask s t)"
  shows "ev_ok (eevdf_init_task s t) \<and> ev_queued (eevdf_init_task s t) = ev_queued s \<and> queue_step s (eevdf_init_task s t)"
proof -
  let ?s = "eevdf_init_task s t"
  have "u \<noteq> t" if "u \<in> set (members (eevdf_rqs s d))" "d < USED_CPUS" for u d using ev_ok_not_member [OF assms that(2)] that(1) by auto
  then have e: "etask ?s u = etask s u" if "u \<in> set (members (eevdf_rqs s d))" "d < USED_CPUS" for u d
    using that by (simp add: eevdf_init_task_def)
  have rq: "eevdf_rqs ?s = eevdf_rqs s" by (simp add: eevdf_init_task_def)
  have "ev_inv (eevdf_rqs s d) (etask ?s)" if d: "d < USED_CPUS" for d
  proof (rule ev_inv_cong)
    show "ev_inv (eevdf_rqs s d) (etask s)" using assms(1) d by (simp add: ev_ok_def)
  qed (use e [OF _ d] in \<open>simp_all add: fq_set\<close>)
  moreover have "(\<lambda>u. on_rq (etask ?s u)) = (\<lambda>u. on_rq (etask s u))" using assms(2) by (auto simp: eevdf_init_task_def)
  moreover have "task_ok (etask ?s u)" for u
    using assms(1) by (auto simp: ev_ok_def eevdf_init_task_def task_ok_def update_load_set_def USED_CPUS_def)
  ultimately have "ev_ok ?s" using assms(1) rq by (simp add: ev_ok_def)
  moreover have "qstep (eevdf_rqs s d) (etask s) (eevdf_rqs s d) (etask ?s)" if d: "d < USED_CPUS" for d
    using e [OF _ d] by (intro ev_qstep_same) (simp_all add: fq_set)
  then have "queue_step s ?s" using rq by (simp add: queue_step_def)
  ultimately show ?thesis using rq by (simp add: ev_queued_def)
qed

lemma heap_search_in: "heap_search q T n = Some t \<Longrightarrow> t \<in> set (inorder n)"
  by (induction q T n rule: heap_search.induct) (auto split: if_splits option.splits)

lemma pick_eevdf_in:
  assumes "ev_inv q T" "curr q = None" "pick_eevdf q T = Some t"
  shows "t \<in> set (queue q)"
proof -
  have "rb_leftmost (tasks_timeline q) = (case queue q of [] \<Rightarrow> None | x # _ \<Rightarrow> Some x)"
    using assms(1) by (auto simp: ev_inv_def root_ok_def rb_first_hd split: list.splits)
  then show ?thesis using assms(2,3) heap_search_in [of q T "rb_root (tasks_timeline q)" t]
    by (auto simp: pick_eevdf_def Let_def split: if_splits option.splits list.splits)
qed

lemma eevdf_pick_ok:
  assumes "ev_ok s" "cpu < USED_CPUS" "curr (eevdf_rqs s cpu) = None"
  shows "case (if queue (eevdf_rqs s cpu) = [] then None else pick_eevdf (eevdf_rqs s cpu) (etask s)) of
      None \<Rightarrow> eevdf_pick_next s cpu now now' = Some (None, s)
    | Some t \<Rightarrow> t \<in> set (queue (eevdf_rqs s cpu)) \<and>
       (\<exists>s'. eevdf_pick_next s cpu now now' = Some (Some t, s') \<and> ev_ok s' \<and> ev_queued s = add_mset t (ev_queued s') \<and>
         curr (eevdf_rqs s' cpu) = Some t \<and> queue (eevdf_rqs s' cpu) = remove1 t (queue (eevdf_rqs s cpu)) \<and> queue_step s s')"
proof -
  let ?q = "eevdf_rqs s cpu"
  have inv: "ev_inv ?q (etask s)" using assms by (simp add: ev_ok_def)
  then have "unat (nr_running ?q) = length (queue ?q)"
    using fq_nr [of "curr ?q" "queue ?q" "nr_running ?q"] assms(3) by (fastforce simp: ev_inv_def)
  then have nr: "nr_running ?q = 0 \<longleftrightarrow> queue ?q = []" by (metis length_0_conv unat_eq_zero)
  have same: "set_rq s cpu (?q, etask s) = s" by simp
  show ?thesis
  proof (cases "if queue ?q = [] then None else pick_eevdf ?q (etask s)")
    case None
    then show ?thesis using nr assms(3) same by (auto simp: eevdf_pick_next_def split: if_splits)
  next
    case (Some t)
    then have p: "queue ?q \<noteq> []" "pick_eevdf ?q (etask s) = Some t" by (auto split: if_splits)
    have t: "t \<in> set (queue ?q)" by (rule pick_eevdf_in [OF inv assms(3) p(2)])
    from ev_set_next_ok [OF inv assms(3) t, of "int cpu" now'] obtain q T where
      e: "set_next_task ?q (etask s) t (int cpu) now' = Some (q, T)" "ev_inv q T" "curr q = Some t" "queue q = remove1 t (queue ?q)"
         "same_task ((etask s t)\<lparr>last_run := int cpu\<rparr>) (T t)" "\<forall>u. u \<noteq> t \<longrightarrow> T u = etask s u" "qstep ?q (etask s) q T" by blast
    have tk: "task_ok (T u)" for u
      using e(5,6) assms(1,2) by (cases "u = t") (auto simp: ev_ok_def task_ok_def same_task_def)
    have "distinct (queue ?q)" using inv assms(3) by (simp add: ev_inv_def fq_inv_def)
    then have m: "set (members q) = set (members ?q)" using e(3,4) assms(3) t by (auto simp: fq_set)
    have "ev_ok (set_rq s cpu (q, T)) \<and> queue_step s (set_rq s cpu (q, T))"
      using m e(6) t tk by (intro ev_ok_update [OF assms(1,2) e(2,7)]) (auto simp: fq_set, metis+)
    moreover have "mset (queue ?q) = add_mset t (mset (queue q))" using e(4) t by simp
    then have "ev_queued s + mset (queue q) = add_mset t (ev_queued (set_rq s cpu (q, T))) + mset (queue q)"
      using ev_queued_upd [OF assms(2), where s = s and q = q and T = T] by simp
    then have "ev_queued s = add_mset t (ev_queued (set_rq s cpu (q, T)))" by (simp only: add_right_cancel)
    moreover have "eevdf_pick_next s cpu now now' = Some (Some t, set_rq s cpu (q, T))"
      using nr p assms(3) e(1) by (simp add: eevdf_pick_next_def)
    ultimately show ?thesis using Some t e(3,4) by auto
  qed
qed

section \<open>Runs\<close>

text \<open>The steps of the policy, with the tasks they put on the run queues and the tasks they pick. The
  scheduler picks a task only when the CPU has no current one, yields, blocks and ends the current one only,
  and spawns and wakes up tasks that are not on a run queue.\<close>

inductive ev_step :: "eevdf_st \<Rightarrow> task multiset \<Rightarrow> task multiset \<Rightarrow> eevdf_st \<Rightarrow> bool" where
  init: "\<not> on_rq (etask s t) \<Longrightarrow> ev_step s {#} {#} (eevdf_init_task s t)"
| fork: "\<not> on_rq (etask s t) \<Longrightarrow> eevdf_fork s t now = Some (cpu, s') \<Longrightarrow> ev_step s {#} {#} s'"
| put: "t < MAX_TASKS \<Longrightarrow> cpu < USED_CPUS \<Longrightarrow> eevdf_put s cpu t now = Some s' \<Longrightarrow> ev_step s (if on_rq (etask s t) then {#} else {#t#}) {#} s'"
| wakeup: "t < MAX_TASKS \<Longrightarrow> eevdf_wakeup s t now = Some s' \<Longrightarrow> ev_step s (if on_rq (etask s t) then {#} else {#t#}) {#} s'"
| yield: "cpu < USED_CPUS \<Longrightarrow> curr (eevdf_rqs s cpu) = Some c \<Longrightarrow> eevdf_yield s cpu now = Some s' \<Longrightarrow> ev_step s {#c#} {#} s'"
| pick: "cpu < USED_CPUS \<Longrightarrow> curr (eevdf_rqs s cpu) = None \<Longrightarrow> eevdf_pick_next s cpu now now' = Some (Some t, s') \<Longrightarrow> ev_step s {#} {#t#} s'"
| idle: "cpu < USED_CPUS \<Longrightarrow> curr (eevdf_rqs s cpu) = None \<Longrightarrow> eevdf_pick_next s cpu now now' = Some (None, s') \<Longrightarrow> ev_step s {#} {#} s'"
| block: "cpu < USED_CPUS \<Longrightarrow> curr (eevdf_rqs s cpu) = Some c \<Longrightarrow> eevdf_block s cpu now = Some s' \<Longrightarrow> ev_step s {#} {#} s'"
| finish: "cpu < USED_CPUS \<Longrightarrow> curr (eevdf_rqs s cpu) = Some c \<Longrightarrow> eevdf_finish_task s cpu c now = Some s' \<Longrightarrow> ev_step s {#} {#} s'"
| preempt: "cpu < USED_CPUS \<Longrightarrow> eevdf_preempt s cpu now = (r, s') \<Longrightarrow> ev_step s {#} {#} s'"

lemma eevdf_fork_some: "eevdf_fork s t now = Some (cpu, s') \<Longrightarrow> 0 \<le> fst (eevdf_find_target_cpu s t True)"
  by (auto simp: eevdf_fork_def Let_def split: prod.splits if_splits)

text \<open>A task that is on a run queue already stays where it is when it is put or woken up.\<close>

lemma ev_on_rq_kept:
  "on_rq (etask s t) \<Longrightarrow> eevdf_put s cpu t now = Some s' \<Longrightarrow> s' = s"
  "on_rq (etask s t) \<Longrightarrow> eevdf_wakeup s t now = Some s' \<Longrightarrow> s' = s"
  by (auto simp: eevdf_put_def put_task_def eevdf_wakeup_def eevdf_find_target_cpu_def Let_def split: if_splits)

lemma ev_queue_step_refl: "queue_step s s"
  by (simp add: queue_step_def qstep_def)

lemma ev_step_ok: "ev_step s A B s' \<Longrightarrow> ev_ok s \<Longrightarrow> ev_ok s' \<and> ev_queued s + A = ev_queued s' + B \<and> queue_step s s'"
proof (induction rule: ev_step.induct)
  case (init s t)
  then show ?case using eevdf_init_task_ok [of s t] by simp
next
  case (fork s t now cpu s')
  then show ?case using eevdf_fork_ok [OF fork(3,1) eevdf_fork_some [OF fork(2)], of now] by auto
next
  case (put t cpu s now s')
  then show ?case using eevdf_put_ok [of s t cpu now] ev_on_rq_kept(1) [of s t cpu now s'] ev_queue_step_refl by (cases "on_rq (etask s t)") auto
next
  case (wakeup t s now s')
  then show ?case using eevdf_wakeup_ok [of s t now] ev_on_rq_kept(2) [of s t now s'] ev_queue_step_refl by (cases "on_rq (etask s t)") auto
next
  case (yield cpu s c now s')
  then show ?case using eevdf_yield_ok [of s cpu c now] by simp
next
  case (pick cpu s now now' t s')
  then show ?case using eevdf_pick_ok [of s cpu now now'] by (auto split: option.splits)
next
  case (idle cpu s now now' s')
  then show ?case using eevdf_pick_ok [of s cpu now now'] ev_queue_step_refl by (auto split: option.splits)
next
  case (block cpu s c now s')
  then show ?case using eevdf_block_ok [of s cpu c now] by fastforce
next
  case (finish cpu s c now s')
  then show ?case using eevdf_finish_ok [of s cpu c now] by fastforce
next
  case (preempt cpu s now r s')
  then show ?case using eevdf_preempt_ok [of s cpu now r s'] by simp
qed

interpretation eevdf: fair_policy ev_step ev_ok ev_queued
  by unfold_locales (use ev_step_ok in blast)

text \<open>The start: all tasks are initialised, and the memory of the run queues was zero.\<close>

definition eevdf_boot :: "eevdf_rq \<Rightarrow> etasks \<Rightarrow> eevdf_st" where
  "eevdf_boot q T = \<lparr>etask = (\<lambda>t. etask (eevdf_init_task \<lparr>etask = T, eevdf_rqs = (\<lambda>_. q), TARGET_CPU = 0\<rparr> t) t),
     eevdf_rqs = (\<lambda>_. eevdf_init_percpu q), TARGET_CPU = 0\<rparr>"

lemma eevdf_boot_ok:
  assumes "rq_avg_vruntime q = 0" "rq_avg_load q = 0"
  shows "ev_ok (eevdf_boot q T)" "ev_queued (eevdf_boot q T) = {#}"
  using assms
  by (simp_all add: ev_ok_def eevdf_boot_def ev_inv_def eevdf_init_percpu_def root_ok_def RB_ROOT_CACHED_def fq_inv_def
      rb_inv_def ev_queued_def avg_inv_def placed_def task_ok_def eevdf_init_task_def update_load_set_def USED_CPUS_def)

section \<open>Properties\<close>

text \<open>C20: No task is lost and none is run twice by the EEVDF policy: after any steps on any CPUs the tasks that
  were put on the run queues are exactly those picked and those still queued; a task is marked as
  on a run queue exactly when it is on one, and then it is on one only. The averages are kept right incrementally: the sum of the weights and
  the weighted sum of the virtual runtimes relative to \<^verbatim>\<open>min_vruntime\<close> are those of the tasks in the tree.
  No operation of the scheduler faults, except that spawning needs the counter that selects the CPU not to have become negative; in particular no
  division traps. The averages, which \<^verbatim>\<open>eevdf_sched_init_percpu\<close> does not set, are supposed to have been zero at the start.\<close>

theorem eevdf_conserves_tasks:
  assumes "step_reach ev_step (eevdf_boot q T) P R s" "rq_avg_vruntime q = 0" "rq_avg_load q = 0"
  shows "P = ev_queued s + R \<and>
    (\<forall>t. (on_rq (etask s t) \<longleftrightarrow> (\<exists>cpu < USED_CPUS. t \<in> set (members (eevdf_rqs s cpu)))) \<and>
       (on_rq (etask s t) \<longrightarrow> (\<exists>!cpu. cpu < USED_CPUS \<and> t \<in> set (members (eevdf_rqs s cpu))))) \<and>
    (\<forall>t < MAX_TASKS. eevdf_wakeup s t now \<noteq> None \<and> (\<not> on_rq (etask s t) \<longrightarrow> 0 \<le> TARGET_CPU s \<longrightarrow> eevdf_spawn s t now now' \<noteq> None)) \<and>
    (\<forall>cpu < USED_CPUS. let q = eevdf_rqs s cpu in
       unat (nr_running q) = length (members q) \<and>
       rq_avg_load q = (\<Sum>t \<leftarrow> queue q. scale_load_down (weight (load (etask s t)))) \<and>
       rq_avg_vruntime q =
         (\<Sum>t \<leftarrow> queue q. (vruntime (etask s t) - rq_min_vruntime q) * scale_load_down (weight (load (etask s t)))) \<and>
       (case curr q of None \<Rightarrow> eevdf_pick_next s cpu now now' \<noteq> None
        | Some c \<Rightarrow> eevdf_yield s cpu now \<noteq> None \<and> eevdf_block s cpu now \<noteq> None \<and> eevdf_finish_task s cpu c now \<noteq> None))"
proof -
  have ok: "ev_ok s" and P: "P = ev_queued s + R"
    using eevdf.reach_conserves [OF assms(1) eevdf_boot_ok(1) [OF assms(2,3)]] eevdf_boot_ok(2) [OF assms(2,3)] by simp_all
  have p: "placed (\<lambda>c. set (members (eevdf_rqs s c))) (\<lambda>t. on_rq (etask s t))" using ok by (simp add: ev_ok_def)
  have "on_rq (etask s t) \<longleftrightarrow> (\<exists>cpu < USED_CPUS. t \<in> set (members (eevdf_rqs s cpu)))" for t using p unfolding placed_def by blast
  moreover have "\<exists>!cpu. cpu < USED_CPUS \<and> t \<in> set (members (eevdf_rqs s cpu))" if on: "on_rq (etask s t)" for t
    using placed_one [OF p on] .
  moreover have "eevdf_wakeup s t now \<noteq> None \<and> (\<not> on_rq (etask s t) \<longrightarrow> 0 \<le> TARGET_CPU s \<longrightarrow> eevdf_spawn s t now now' \<noteq> None)"
    if "t < MAX_TASKS" for t
    using eevdf_wakeup_some [OF ok that, of now] eevdf_spawn_some [OF ok _ that, of now now'] by auto
  moreover have "unat (nr_running (eevdf_rqs s cpu)) = length (members (eevdf_rqs s cpu)) \<and> avg_inv (eevdf_rqs s cpu) (etask s)"
    if "cpu < USED_CPUS" for cpu
    using ok that fq_nr by (auto simp: ev_ok_def ev_inv_def)
  moreover have "case curr (eevdf_rqs s cpu) of None \<Rightarrow> eevdf_pick_next s cpu now now' \<noteq> None
      | Some c \<Rightarrow> eevdf_yield s cpu now \<noteq> None \<and> eevdf_block s cpu now \<noteq> None \<and> eevdf_finish_task s cpu c now \<noteq> None"
    if c: "cpu < USED_CPUS" for cpu
  proof (cases "curr (eevdf_rqs s cpu)")
    case None
    then show ?thesis using eevdf_pick_ok [OF ok c None, of now now'] by (auto split: option.splits)
  next
    case (Some d)
    show ?thesis
      using eevdf_yield_ok [OF ok c Some, of now] eevdf_block_ok [OF ok c Some, of now] eevdf_finish_ok [OF ok c Some, of now] Some
      by auto
  qed
  ultimately show ?thesis using P by (simp add: Let_def avg_inv_def task_key_def)
qed

text \<open>A task that was woken up once.\<close>

definition blank_task :: eevdf_task where
  "blank_task = \<lparr>last_run = 0, load = \<lparr>weight = 1024, inv_weight = 0\<rparr>, deadline = 0, on_rq = False, exec_start = 0,
     sum_exec_runtime = 0, prev_sum_exec_runtime = 0, vruntime = 0, vlag = 0, slice = 0\<rparr>"

definition blank_rq :: eevdf_rq where
  "blank_rq = \<lparr>rq_load = \<lparr>weight = 0, inv_weight = 0\<rparr>, tasks_timeline = RB_ROOT_CACHED, nr_running = 0,
     rq_avg_vruntime = 0, rq_avg_load = 0, rq_min_vruntime = 0, curr = None\<rparr>"

abbreviation blank_boot :: eevdf_st where
  "blank_boot \<equiv> eevdf_boot blank_rq (\<lambda>_. blank_task)"

lemma blank_rq_zero: "rq_avg_vruntime blank_rq = 0" "rq_avg_load blank_rq = 0"
  by (simp_all add: blank_rq_def)

lemma one_task_step: "\<exists>s. eevdf_wakeup blank_boot 7 0 = Some s \<and> ev_step blank_boot {#7#} {#} s \<and> ev_ok s"
proof -
  have b: "\<not> on_rq (etask blank_boot 7)" "(7::task) < MAX_TASKS" by (simp_all add: eevdf_boot_def eevdf_init_task_def MAX_TASKS_def)
  from eevdf_wakeup_ok [OF eevdf_boot_ok(1) [OF blank_rq_zero] b, of 0] obtain s where
    s: "eevdf_wakeup blank_boot 7 0 = Some s" "ev_ok s" by auto
  with ev_step.wakeup [OF b(2) s(1)] b(1) show ?thesis by auto
qed

theorem eevdf_conserves_tasks_witness:
  "\<exists>s. step_reach ev_step blank_boot {#7#} {#} s \<and> ev_queued s = {#7#}"
proof -
  from one_task_step obtain s where "ev_step blank_boot {#7#} {#} s" by blast
  from step_reach.step [where stp = ev_step, OF step_reach.start this] have r: "step_reach ev_step blank_boot {#7#} {#} s" by simp
  from eevdf_conserves_tasks [OF r blank_rq_zero] r show ?thesis by auto
qed

end
