(* ===== verification/Eevdf_Pick.thy ===== *)
theory Eevdf_Pick
  imports Eevdf_Policy
begin

text \<open>
  What the task that EEVDF picks has to be: the eligible task with the earliest deadline. The tree is
  ordered by deadline and its augmented values are the least virtual runtimes of the subtrees, as long as
  virtual runtimes and deadlines lie in windows of half the 64-bit range; then the search down the tree
  finds what a search through all tasks in the order of their deadlines finds.
\<close>

section \<open>Signed words\<close>

lemma sint_of_int_small:
  assumes "\<bar>i\<bar> < 2 ^ 63"
  shows "sint (word_of_int i :: u64) = i"
proof -
  have "sint (word_of_int i :: u64) = signed_take_bit 63 i"
    by (simp add: signed_of_int)
  also have "\<dots> = i" using assms by (intro signed_take_bit_int_eq_self) simp_all
  finally show ?thesis .
qed

lemma word_of_sint: "word_of_int (sint x) = (x :: u64)"
  by simp

lemma sint_mult_small: "\<bar>sint x * sint y\<bar> < 2 ^ 63 \<Longrightarrow> sint (x * y) = sint x * sint (y :: u64)"
  using sint_of_int_small [of "sint x * sint y"] by simp

lemma sint_minus_small: "\<bar>sint x - sint y\<bar> < 2 ^ 63 \<Longrightarrow> sint (x - y) = sint x - sint (y :: u64)"
  using sint_of_int_small [of "sint x - sint y"] by simp

section \<open>Augmented values\<close>

definition vk :: "u64 \<Rightarrow> etasks \<Rightarrow> task \<Rightarrow> nat" where
  "vk b T t = unat (vruntime (T t) - b)"

definition least_vruntime :: "u64 \<Rightarrow> etasks \<Rightarrow> task list \<Rightarrow> u64" where
  "least_vruntime b T ts = b + of_nat (Min (vk b T ` set ts))"

lemma vruntime_vk: "vruntime (T t) = b + of_nat (vk b T t)"
  by (simp add: vk_def)

lemma offset_gt:
  assumes "m < 2 ^ 63" "n < 2 ^ 63"
  shows "sint ((b + of_nat m) - (b + of_nat n) :: u64) > 0 \<longleftrightarrow> n < m"
proof -
  have u: "unat (of_nat k :: u64) = k" if "k < 2 ^ 63" for k using that by (simp add: unat_of_nat)
  have "sint (of_nat m - of_nat n :: u64) = int (unat (of_nat m :: u64)) - int (unat (of_nat n :: u64))"
    by (rule sint_diff) (use u [OF assms(1)] u [OF assms(2)] assms in simp_all)
  then have "sint (of_nat m - of_nat n :: u64) = int m - int n" unfolding u [OF assms(1)] u [OF assms(2)] .
  moreover have "(b + of_nat m) - (b + of_nat n) = (of_nat m - of_nat n :: u64)" by simp
  ultimately show ?thesis by simp
qed

lemma child_min:
  assumes "m < 2 ^ 63" "\<forall>t \<in> set ts. vk b T t < 2 ^ 63"
  shows "min_vruntime_child (b + of_nat m) (al (least_vruntime b T) ts) = b + of_nat (Min (insert m (vk b T ` set ts)))"
proof (cases "ts = []")
  case False
  let ?n = "Min (vk b T ` set ts)"
  have "?n \<in> vk b T ` set ts" using False by (intro Min_in) simp_all
  then have n: "?n < 2 ^ 63" using assms(2) by auto
  have "Min (insert m (vk b T ` set ts)) = min m ?n" using False by simp
  then show ?thesis using False offset_gt [OF assms(1) n, of b]
    by (cases "?n < m") (simp_all add: min_vruntime_child_def al_def least_vruntime_def min_def del: Min_insert Min_le_iff Min_less_iff Min_gr_iff Min_ge_iff)
qed (simp add: min_vruntime_child_def)

interpretation vmin: augmented "min_vruntime_update T" "least_vruntime b T" "{t. vk b T t < 2 ^ 63}" for b T
proof unfold_locales
  fix x ls rs
  assume a: "x \<in> {t. vk b T t < 2 ^ 63}" "set ls \<subseteq> {t. vk b T t < 2 ^ 63}" "set rs \<subseteq> {t. vk b T t < 2 ^ 63}"
  let ?m = "Min (insert (vk b T x) (vk b T ` set rs))"
  have "?m < 2 ^ 63" using a(1) by (intro order_le_less_trans [OF Min_le [of _ "vk b T x"]]) simp_all
  moreover have "min_vruntime_child (vruntime (T x)) (al (least_vruntime b T) rs) = b + of_nat ?m"
    unfolding vruntime_vk [of T x b] using a by (intro child_min) auto
  moreover have "Min (insert ?m (vk b T ` set ls)) = Min (vk b T ` set (ls @ x # rs))"
  proof -
    have e: "vk b T ` set (ls @ x # rs) = insert (vk b T x) (vk b T ` set rs) \<union> vk b T ` set ls" by auto
    show ?thesis
    proof (cases "ls = []")
      case False
      then have "Min (insert ?m (vk b T ` set ls)) = min ?m (Min (vk b T ` set ls))" by (intro Min_insert) simp_all
      also have "\<dots> = Min (insert (vk b T x) (vk b T ` set rs) \<union> vk b T ` set ls)" using False by (intro Min_Un [symmetric]) simp_all
      finally show ?thesis unfolding e .
    qed simp
  qed
  ultimately show "min_vruntime_update T x (al (least_vruntime b T) ls) (al (least_vruntime b T) rs) = least_vruntime b T (ls @ x # rs)"
    using a by (simp add: min_vruntime_update_def child_min subset_eq least_vruntime_def)
qed

lemma aug_ok_cong:
  assumes "aug_ok A t" "\<And>xs. xs \<noteq> [] \<Longrightarrow> set xs \<subseteq> set (inorder t) \<Longrightarrow> A' xs = A xs"
  shows "aug_ok A' t"
  using assms
proof (induction t)
  case (Nd c l x b r)
  have "aug_ok A' l" "aug_ok A' r" using Nd by auto
  moreover have "A' (inorder l @ x # inorder r) = A (inorder l @ x # inorder r)" by (rule Nd.prems(2)) simp_all
  ultimately show ?case using Nd.prems(1) by simp
qed simp

lemma least_vruntime_cong: "(\<And>t. t \<in> set xs \<Longrightarrow> vruntime (T' t) = vruntime (T t)) \<Longrightarrow> least_vruntime b T' xs = least_vruntime b T xs"
proof -
  assume "\<And>t. t \<in> set xs \<Longrightarrow> vruntime (T' t) = vruntime (T t)"
  then have "vk b T' ` set xs = vk b T ` set xs" by (simp add: vk_def cong: image_cong)
  then show ?thesis by (simp add: least_vruntime_def)
qed

section \<open>Runs within the windows\<close>

definition dk :: "u64 \<Rightarrow> etasks \<Rightarrow> task \<Rightarrow> int" where
  "dk d T t = int (unat (deadline (T t) - d))"

definition rq_window :: "u64 \<Rightarrow> u64 \<Rightarrow> eevdf_rq \<Rightarrow> etasks \<Rightarrow> bool" where
  "rq_window b d q T \<longleftrightarrow> (\<forall>t \<in> set (queue q). vk b T t < 2 ^ 63 \<and> dk d T t < 2 ^ 63)"

definition in_window :: "u64 \<Rightarrow> u64 \<Rightarrow> eevdf_st \<Rightarrow> bool" where
  "in_window b d s \<longleftrightarrow> (\<forall>cpu < USED_CPUS. rq_window b d (eevdf_rqs s cpu) (etask s))"

definition rq_ordered :: "u64 \<Rightarrow> u64 \<Rightarrow> eevdf_rq \<Rightarrow> etasks \<Rightarrow> bool" where
  "rq_ordered b d q T \<longleftrightarrow> rq_window b d q T \<and> aug_ok (least_vruntime b T) (rb_root (tasks_timeline q)) \<and> sorted (map (dk d T) (queue q))"

definition ordered_queues :: "u64 \<Rightarrow> u64 \<Rightarrow> eevdf_st \<Rightarrow> bool" where
  "ordered_queues b d s \<longleftrightarrow> (\<forall>cpu < USED_CPUS. rq_ordered b d (eevdf_rqs s cpu) (etask s))"

lemma deadline_less_key:
  assumes "dk d T x < 2 ^ 63" "dk d T y < 2 ^ 63"
  shows "deadline_less T x y \<longleftrightarrow> dk d T x < dk d T y"
proof -
  let ?x = "deadline (T x) - d" and ?y = "deadline (T y) - d"
  have "unat ?x < 2 ^ 63" "unat ?y < 2 ^ 63"
    using assms unfolding dk_def by (metis of_nat_less_iff of_nat_numeral of_nat_power)+
  then have "sint (?x - ?y) = int (unat ?x) - int (unat ?y)" by (intro sint_diff) simp_all
  moreover have "deadline (T x) - deadline (T y) = ?x - ?y" by simp
  ultimately have "sint (deadline (T x) - deadline (T y)) = int (unat ?x) - int (unat ?y)" by (simp only:)
  then show ?thesis unfolding deadline_less_def dk_def by linarith
qed

lemma qstep_ordered:
  assumes "qstep q T q' T'" "rq_ordered b d q T" "rq_window b d q' T'"
  shows "rq_ordered b d q' T'"
proof -
  have v: "vruntime (T' u) = vruntime (T u)" "deadline (T' u) = deadline (T u)" if "u \<in> set (queue q)" for u
    using assms(1) that by (auto simp: qstep_def)
  have a: "aug_ok (least_vruntime b T') (rb_root (tasks_timeline q))"
    by (rule aug_ok_cong [where A = "least_vruntime b T"])
      (use assms(2) v in \<open>auto simp: rq_ordered_def intro!: least_vruntime_cong\<close>)
  have "map (dk d T') (queue q) = map (dk d T) (queue q)" using v by (simp add: dk_def)
  then have s: "sorted (map (dk d T') (queue q))" using assms(2) by (metis rq_ordered_def)
  have g: "set (queue q) \<subseteq> {t. vk b T' t < 2 ^ 63}" "\<forall>t \<in> set (queue q). dk d T' t < 2 ^ 63"
    using assms(2) v by (auto simp: rq_ordered_def rq_window_def vk_def dk_def)
  from assms(1) consider (same) "tasks_timeline q' = tasks_timeline q"
    | (erase) t where "t \<in> set (queue q)" "rb_erase_augmented_cached (min_vruntime_update T') t (tasks_timeline q) = Some (tasks_timeline q')"
        "queue q' = remove1 t (queue q)"
    | (add) t xs ys where "rb_add_augmented_cached (min_vruntime_update T') (deadline_less T') t (vruntime (T' t)) (tasks_timeline q) =
           Some (tasks_timeline q')" "queue q = xs @ ys" "queue q' = xs @ t # ys" "ordered_at (deadline_less T') t xs ys"
    unfolding qstep_def by blast
  then show ?thesis
  proof cases
    case same
    then show ?thesis using a s assms(3) by (simp add: rq_ordered_def)
  next
    case erase
    have "aug_ok (least_vruntime b T') (rb_root (tasks_timeline q'))" by (rule vmin.erase_aug [OF erase(2) a g(1) erase(1)])
    moreover have "sorted (map (dk d T') (queue q'))" unfolding erase(3) by (rule sorted_map_remove1 [OF s])
    ultimately show ?thesis using assms(3) by (simp add: rq_ordered_def)
  next
    case add
    have t: "vk b T' t < 2 ^ 63" "dk d T' t < 2 ^ 63" using assms(3) add(3) by (simp_all add: rq_window_def)
    have "vruntime (T' t) = least_vruntime b T' [t]" by (simp add: least_vruntime_def vruntime_vk [of T' t b])
    then have "aug_ok (least_vruntime b T') (rb_root (tasks_timeline q'))" using t(1) by (intro vmin.add_aug [OF add(1) a g(1)]) simp_all
    moreover have "\<forall>u \<in> set (xs @ ys). deadline_less T' t u \<longleftrightarrow> dk d T' t < dk d T' u" using g(2) t(2) add(2) by (simp add: deadline_less_key)
    then have "(\<forall>y \<in> set xs. dk d T' y \<le> dk d T' t) \<and> (\<forall>y \<in> set ys. dk d T' t < dk d T' y)"
      using s unfolding add(2) by (intro ordered_atD [OF add(4)])
    then have "sorted (map (dk d T') (queue q'))" using s unfolding add(2,3) by (auto simp: sorted_append)
    ultimately show ?thesis using assms(3) by (simp add: rq_ordered_def)
  qed
qed

lemma ev_step_ordered: "ev_ok s \<Longrightarrow> ordered_queues b d s \<Longrightarrow> ev_step s A B s' \<Longrightarrow> in_window b d s' \<Longrightarrow> ordered_queues b d s'"
  using ev_step_ok [of s A B s'] qstep_ordered by (fastforce simp: ordered_queues_def in_window_def queue_step_def)

lemma boot_ordered: "ordered_queues b d (eevdf_boot q T)"
  by (simp add: ordered_queues_def rq_ordered_def rq_window_def eevdf_boot_def eevdf_init_percpu_def RB_ROOT_CACHED_def)

lemma run_ordered:
  "step_run ev_step (in_window b d) s0 s \<Longrightarrow> ev_ok s0 \<Longrightarrow> ordered_queues b d s0 \<Longrightarrow> ev_ok s \<and> ordered_queues b d s"
  using eevdf.run_invariant [where I = "ordered_queues b d" and W = "in_window b d" and ?s0.0 = s0 and s = s] ev_step_ordered by blast

section \<open>Eligibility\<close>

definition key :: "eevdf_rq \<Rightarrow> etasks \<Rightarrow> task \<Rightarrow> int" where
  "key q T t = sint (vruntime (T t) - rq_min_vruntime q)"

text \<open>A task is owed service when its lag is not negative: the weighted average of the virtual runtimes is not
  before its own.\<close>

definition owed :: "eevdf_rq \<Rightarrow> etasks \<Rightarrow> task \<Rightarrow> bool" where
  "owed q T t \<longleftrightarrow> 0 \<le> (\<Sum>u \<leftarrow> queue q. int (unat (scale_load_down (weight (load (T u))))) * (key q T u - key q T t))"

text \<open>The virtual runtimes are close enough to the origin for the products to fit into 64 bits.\<close>

definition close_keys :: "eevdf_rq \<Rightarrow> etasks \<Rightarrow> bool" where
  "close_keys q T \<longleftrightarrow> (\<forall>t \<in> set (queue q). \<bar>key q T t\<bar> < 2 ^ 45)"

abbreviation key_sum :: "eevdf_rq \<Rightarrow> etasks \<Rightarrow> int" where
  "key_sum q T \<equiv> (\<Sum>u \<leftarrow> queue q. key q T u)"

lemma sum_list_bound: "(\<forall>x \<in> set xs. \<bar>f x\<bar> < B) \<Longrightarrow> \<bar>\<Sum>x \<leftarrow> xs. f x\<bar> \<le> int (length xs) * (B :: int)"
proof (induction xs)
  case (Cons a xs)
  then have "\<bar>\<Sum>x \<leftarrow> xs. f x\<bar> \<le> int (length xs) * B" "\<bar>f a\<bar> < B" by simp_all
  then have "\<bar>f a + (\<Sum>x \<leftarrow> xs. f x)\<bar> \<le> B + int (length xs) * B" by linarith
  then show ?case by (simp add: algebra_simps)
qed simp

lemma sum_list_words: "(\<Sum>x \<leftarrow> xs. word_of_int (f x) * 2) = (word_of_int (2 * (\<Sum>x \<leftarrow> xs. f x)) :: u64)"
  by (induction xs) (simp_all add: algebra_simps)

lemma idle_sums:
  assumes "ev_inv q T" "curr q = None" "close_keys q T"
  shows "avg_with_curr q T = (word_of_int (2 * key_sum q T), of_nat (2 * length (queue q)))"
    "\<bar>2 * key_sum q T\<bar> < 2 ^ 63" "length (queue q) \<le> 2 ^ 16"
proof -
  have nice: "\<forall>t \<in> set (queue q). weight (load (T t)) = NICE_0_LOAD" using assms(1,2) by (simp add: ev_inv_def)
  have "map (\<lambda>t. task_key q (T t) * wt T t) (queue q) = map (\<lambda>t. word_of_int (key q T t) * 2) (queue q)"
    using nice by (simp add: task_key_def key_def)
  then have "rq_avg_vruntime q = word_of_int (2 * key_sum q T)" using assms(1) sum_list_words [of "key q T" "queue q"]
    unfolding ev_inv_def avg_inv_def by metis
  then show "avg_with_curr q T = (word_of_int (2 * key_sum q T), of_nat (2 * length (queue q)))"
    using total_load(1) [OF assms(1)] assms(2) by (simp add: avg_with_curr_def)
  show l: "length (queue q) \<le> 2 ^ 16" using total_load(3) [OF assms(1)] assms(2) by (simp add: MAX_TASKS_def)
  have "\<bar>key_sum q T\<bar> \<le> int (length (queue q)) * 2 ^ 45" using assms(3) by (intro sum_list_bound) (simp add: close_keys_def)
  also have "\<dots> \<le> 2 ^ 16 * 2 ^ 45" using l by simp
  finally show "\<bar>2 * key_sum q T\<bar> < 2 ^ 63" by simp
qed

lemma eligible_iff:
  assumes "ev_inv q T" "curr q = None" "close_keys q T" "\<bar>sint (v - rq_min_vruntime q)\<bar> < 2 ^ 45"
  shows "vruntime_eligible q T v \<longleftrightarrow> sint (v - rq_min_vruntime q) * int (length (queue q)) \<le> key_sum q T"
proof -
  note i = idle_sums [OF assms(1-3)]
  let ?k = "sint (v - rq_min_vruntime q)" and ?n = "int (length (queue q))"
  have "sint (of_nat (2 * length (queue q)) :: u64) = 2 * ?n"
    using sint_of_int_small [of "2 * ?n"] i(3) by simp
  moreover have b: "\<bar>?k * (2 * ?n)\<bar> < 2 ^ 63"
  proof -
    have "\<bar>?k\<bar> * ?n \<le> 2 ^ 45 * 2 ^ 16" using assms(4) i(3) by (intro mult_mono) simp_all
    then show ?thesis by (simp add: abs_mult)
  qed
  ultimately have "sint ((v - rq_min_vruntime q) * of_nat (2 * length (queue q))) = ?k * (2 * ?n)"
    using sint_mult_small [of "v - rq_min_vruntime q" "of_nat (2 * length (queue q))"] by (simp only:)
  moreover have "sint (word_of_int (2 * key_sum q T) :: u64) = 2 * key_sum q T" by (rule sint_of_int_small [OF i(2)])
  ultimately show ?thesis unfolding vruntime_eligible_def i(1) Let_def prod.case by (simp only:) linarith
qed

lemma owed_iff:
  assumes "ev_inv q T" "curr q = None"
  shows "owed q T t \<longleftrightarrow> key q T t * int (length (queue q)) \<le> key_sum q T"
proof -
  have "map (\<lambda>u. int (unat (scale_load_down (weight (load (T u))))) * (key q T u - key q T t)) (queue q) =
      map (\<lambda>u. 2 * (key q T u - key q T t)) (queue q)" using assms by (simp add: ev_inv_def)
  moreover have "(\<Sum>u \<leftarrow> xs. 2 * (f u - c)) = 2 * ((\<Sum>u \<leftarrow> xs. f u) - c * int (length xs))" for f :: "task \<Rightarrow> int" and c xs
    by (induction xs) (simp_all add: algebra_simps)
  ultimately have "owed q T t \<longleftrightarrow> 0 \<le> 2 * (key_sum q T - key q T t * int (length (queue q)))" unfolding owed_def by metis
  then show ?thesis by simp
qed

lemma task_eligible_owed:
  assumes "ev_inv q T" "curr q = None" "close_keys q T" "t \<in> set (queue q)"
  shows "task_eligible q T t \<longleftrightarrow> owed q T t"
  using eligible_iff [OF assms(1-3), of "vruntime (T t)"] owed_iff [OF assms(1,2), of t] assms(3,4)
  by (simp add: task_eligible_def close_keys_def key_def)

text \<open>The order of the virtual runtimes in the window is the one relative to \<^verbatim>\<open>min_vruntime\<close>.\<close>

lemma key_order:
  assumes "rq_window b d q T" "close_keys q T" "t \<in> set (queue q)" "u \<in> set (queue q)" "vk b T t \<le> vk b T u"
  shows "key q T t \<le> key q T u"
proof -
  have k: "\<bar>key q T t\<bar> < 2 ^ 45" "\<bar>key q T u\<bar> < 2 ^ 45" using assms(2-4) by (simp_all add: close_keys_def)
  have w: "vk b T t < 2 ^ 63" "vk b T u < 2 ^ 63" using assms(1,3,4) by (simp_all add: rq_window_def)
  have "\<not> sint (vruntime (T t) - vruntime (T u)) > 0" using offset_gt [OF w, of b] assms(5) by (simp flip: vruntime_vk)
  moreover have "sint (vruntime (T t) - vruntime (T u)) = key q T t - key q T u"
    using sint_minus_small [of "vruntime (T t) - rq_min_vruntime q" "vruntime (T u) - rq_min_vruntime q"] k by (simp add: key_def)
  ultimately show ?thesis by simp
qed

lemma eligible_subtree:
  assumes "ev_inv q T" "curr q = None" "close_keys q T" "rq_window b d q T" "set ts \<subseteq> set (queue q)" "ts \<noteq> []"
  shows "vruntime_eligible q T (least_vruntime b T ts) \<longleftrightarrow> (\<exists>t \<in> set ts. task_eligible q T t)"
proof -
  have "Min (vk b T ` set ts) \<in> vk b T ` set ts" using assms(6) by (intro Min_in) simp_all
  then obtain m where m: "m \<in> set ts" "vk b T m = Min (vk b T ` set ts)" by (metis imageE)
  have v: "least_vruntime b T ts = vruntime (T m)" unfolding least_vruntime_def m(2) [symmetric] by (simp flip: vruntime_vk)
  have "task_eligible q T m" if t: "t \<in> set ts" "task_eligible q T t" for t
  proof -
    have "vk b T m \<le> vk b T t" unfolding m(2) using t(1) by simp
    then have "key q T m \<le> key q T t" using assms(5) m(1) t(1) by (intro key_order [OF assms(4,3)]) auto
    then have "key q T m * int (length (queue q)) \<le> key q T t * int (length (queue q))" by (intro mult_right_mono) simp_all
    moreover have "owed q T t" using t assms(5) task_eligible_owed [OF assms(1-3), of t] by auto
    ultimately have "owed q T m" using owed_iff [OF assms(1,2)] by simp
    then show ?thesis using m(1) assms(5) task_eligible_owed [OF assms(1-3), of m] by auto
  qed
  then show ?thesis unfolding v using m(1) by (auto simp: task_eligible_def)
qed

section \<open>The search\<close>

lemma find_append: "find P (xs @ ys) = (case find P xs of Some x \<Rightarrow> Some x | None \<Rightarrow> find P ys)"
  by (induction xs) auto

lemma heap_search_find:
  assumes "ev_inv q T" "curr q = None" "close_keys q T" "rq_window b d q T"
  shows "aug_ok (least_vruntime b T) n \<Longrightarrow> set (inorder n) \<subseteq> set (queue q) \<Longrightarrow>
    heap_search q T n = find (task_eligible q T) (inorder n)"
proof (induction n)
  case (Nd c l t m r)
  have ih: "heap_search q T l = find (task_eligible q T) (inorder l)" "heap_search q T r = find (task_eligible q T) (inorder r)"
    using Nd by auto
  show ?case
  proof (cases "\<exists>u \<in> set (inorder l). task_eligible q T u")
    case True
    then have ne: "inorder l \<noteq> []" by auto
    have "aug l = Some (least_vruntime b T (inorder l))" using Nd.prems(1) ne by (auto simp: aug_al al_def)
    moreover have "vruntime_eligible q T (least_vruntime b T (inorder l))"
      using True Nd.prems(2) eligible_subtree [OF assms _ ne] by auto
    moreover have "find (task_eligible q T) (inorder l) \<noteq> None" using True by (auto simp: find_None_iff)
    ultimately show ?thesis using ih by (auto simp: find_append)
  next
    case False
    have "\<not> vruntime_eligible q T (least_vruntime b T (inorder l))" if "inorder l \<noteq> []"
      using False Nd.prems(2) eligible_subtree [OF assms _ that] by auto
    then have "\<not> (case aug l of Some m \<Rightarrow> vruntime_eligible q T m | None \<Rightarrow> False)"
      using Nd.prems(1) by (auto simp: aug_al al_def split: option.splits if_splits)
    moreover have "find (task_eligible q T) (inorder l) = None" using False by (auto simp: find_None_iff)
    ultimately show ?thesis using ih by (simp add: find_append)
  qed
qed simp

text \<open>Somebody is always owed service: the task that is the furthest behind.\<close>

lemma someone_owed:
  assumes "ev_inv q T" "curr q = None" "queue q \<noteq> []"
  shows "\<exists>t \<in> set (queue q). owed q T t"
proof -
  have "Min (key q T ` set (queue q)) \<in> key q T ` set (queue q)" using assms(3) by (intro Min_in) simp_all
  then obtain m where m: "m \<in> set (queue q)" "key q T m = Min (key q T ` set (queue q))" by (metis imageE)
  have "key q T m \<le> key q T u" if "u \<in> set (queue q)" for u unfolding m(2) using that by simp
  moreover have "(\<forall>u \<in> set xs. c \<le> f u) \<Longrightarrow> c * int (length xs) \<le> (\<Sum>u \<leftarrow> xs. f u)" for f :: "task \<Rightarrow> int" and c xs
    by (induction xs) (auto simp: algebra_simps)
  ultimately have "key q T m * int (length (queue q)) \<le> key_sum q T" by blast
  then show ?thesis using m(1) owed_iff [OF assms(1,2)] by auto
qed

lemma pick_eevdf_find:
  assumes "ev_inv q T" "curr q = None" "close_keys q T" "rq_ordered b d q T" "queue q \<noteq> []"
  shows "pick_eevdf q T = find (owed q T) (queue q)"
proof -
  obtain x xs where q: "queue q = x # xs" using assms(5) by (cases "queue q") auto
  have first: "rb_leftmost (tasks_timeline q) = Some x" using assms(1) q by (simp add: ev_inv_def root_ok_def rb_first_hd)
  have eq: "find (task_eligible q T) (queue q) = find (owed q T) (queue q)"
    using task_eligible_owed [OF assms(1-3)] by (intro find_cong) simp_all
  have hs: "heap_search q T (rb_root (tasks_timeline q)) = find (task_eligible q T) (queue q)"
    using assms(4) by (intro heap_search_find [OF assms(1-3), of b d]) (simp_all add: rq_ordered_def)
  show ?thesis
  proof (cases "nr_running q = 1")
    case True
    then have "xs = []" using fq_nr [of "curr q" "queue q" "nr_running q"] assms(1,2) q by (fastforce simp: ev_inv_def)
    moreover have "owed q T x" using someone_owed [OF assms(1,2,5)] q \<open>xs = []\<close> by auto
    ultimately show ?thesis using True assms(2) first q by (simp add: pick_eevdf_def)
  next
    case False
    have "pick_eevdf q T = (if task_eligible q T x then Some x else find (task_eligible q T) (queue q))"
      using False assms(2) first hs by (simp add: pick_eevdf_def split: option.splits)
    also have "\<dots> = find (task_eligible q T) (queue q)" by (simp add: q)
    finally show ?thesis using eq by simp
  qed
qed

lemma sorted_find:
  assumes "sorted (map k xs)" "find P xs = Some x" "y \<in> set xs" "P y"
  shows "k x \<le> k y"
  using assms by (induction xs) (auto split: if_splits)

section \<open>Properties\<close>

text \<open>C10: EEVDF picks the right task. Whatever was spawned, woken up, preempted or blocked before, a CPU without
  a current task picks, of the tasks in its queue that are owed service, one with the earliest deadline;
  it finds no task only when its queue is empty. The virtual runtimes and the deadlines of the queued tasks
  lie within half of the 64-bit range during the run, and the virtual runtimes within 2 to the power of 45
  nanoseconds around \<^verbatim>\<open>min_vruntime\<close> when the task is picked.\<close>

theorem eevdf_picks_earliest_eligible:
  assumes "step_run ev_step (in_window b d) (eevdf_boot q T) s" "rq_avg_vruntime q = 0" "rq_avg_load q = 0"
    "cpu < USED_CPUS" "curr (eevdf_rqs s cpu) = None" "close_keys (eevdf_rqs s cpu) (etask s)"
  shows "\<exists>r s'. eevdf_pick_next s cpu now now' = Some (r, s') \<and>
    (case r of
       None \<Rightarrow> queue (eevdf_rqs s cpu) = []
     | Some t \<Rightarrow> t \<in> set (queue (eevdf_rqs s cpu)) \<and> owed (eevdf_rqs s cpu) (etask s) t \<and> curr (eevdf_rqs s' cpu) = Some t \<and>
         (\<forall>u \<in> set (queue (eevdf_rqs s cpu)). owed (eevdf_rqs s cpu) (etask s) u \<longrightarrow>
            unat (deadline (etask s t) - d) \<le> unat (deadline (etask s u) - d)))"
proof -
  let ?q = "eevdf_rqs s cpu" and ?T = "etask s"
  have ok: "ev_ok s" "ordered_queues b d s"
    using run_ordered [OF assms(1) eevdf_boot_ok(1) [OF assms(2,3)] boot_ordered] by simp_all
  have inv: "ev_inv ?q ?T" "rq_ordered b d ?q ?T" using ok assms(4) by (simp_all add: ev_ok_def ordered_queues_def)
  note pk = eevdf_pick_ok [OF ok(1) assms(4,5), of now now']
  show ?thesis
  proof (cases "queue ?q = []")
    case True
    then show ?thesis using pk by auto
  next
    case False
    have f: "pick_eevdf ?q ?T = find (owed ?q ?T) (queue ?q)" by (rule pick_eevdf_find [OF inv(1) assms(5,6) inv(2) False])
    have "find (owed ?q ?T) (queue ?q) \<noteq> None" using someone_owed [OF inv(1) assms(5) False] by (auto simp: find_None_iff)
    then obtain t where t: "find (owed ?q ?T) (queue ?q) = Some t" by auto
    have "\<forall>u \<in> set (queue ?q). owed ?q ?T u \<longrightarrow> dk d ?T t \<le> dk d ?T u"
      using inv(2) sorted_find [of "dk d ?T" "queue ?q" "owed ?q ?T" t] t by (auto simp: rq_ordered_def)
    then have "\<forall>u \<in> set (queue ?q). owed ?q ?T u \<longrightarrow> unat (deadline (?T t) - d) \<le> unat (deadline (?T u) - d)"
      unfolding dk_def of_nat_le_iff .
    moreover have "owed ?q ?T t" using t by (metis find_Some_iff)
    ultimately show ?thesis using pk False f t by auto
  qed
qed

lemma ev_one_task_run:
  "\<exists>s. step_run ev_step (in_window (- 1048576) (- 1048576)) blank_boot s \<and> queue (eevdf_rqs s 0) = [7] \<and>
     curr (eevdf_rqs s 0) = None \<and> close_keys (eevdf_rqs s 0) (etask s)"
proof -
  obtain s where s: "eevdf_wakeup blank_boot 7 0 = Some s" "ev_step blank_boot {#7#} {#} s" using one_task_step by blast
  have e: "s = set_rq blank_boot 0 (eevdf_rqs s 0, etask s)" "queue (eevdf_rqs s 0) = [7]" "vruntime (etask s 7) = - 1048576"
      "deadline (etask s 7) = - 1048576 + 12500" "curr (eevdf_rqs s 0) = None" "rq_min_vruntime (eevdf_rqs s 0) = - 1048576"
    using s(1)
    by (auto simp: eevdf_wakeup_def eevdf_find_target_cpu_def eevdf_boot_def eevdf_init_task_def blank_rq_def enqueue_task_def
        update_curr_def place_task_def place_lag_def avg_vruntime_def avg_with_curr_def eevdf_init_percpu_def enqueue_update_def
        enqueue_node_def avg_vruntime_add_def update_load_set_def calc_delta_fair_def NICE_0_LOAD_def rb_add_augmented_cached_def
        RB_ROOT_CACHED_def sysctl_sched_base_slice_def Let_def)
  have q: "queue (eevdf_rqs s c) = (if c = 0 then [7] else [])" for c
    by (subst e(1)) (simp add: e(2) eevdf_boot_def eevdf_init_percpu_def RB_ROOT_CACHED_def)
  have "in_window (- 1048576) (- 1048576) s" by (simp add: in_window_def rq_window_def q vk_def dk_def e(3,4))
  from step_run.step [where stp = ev_step and W = "in_window (- 1048576) (- 1048576)", OF step_run.start s(2) this] show ?thesis
    using e by (intro exI [of _ s]) (simp add: close_keys_def key_def)
qed

theorem eevdf_picks_earliest_eligible_witness:
  "\<exists>s r s'. step_run ev_step (in_window (- 1048576) (- 1048576)) blank_boot s \<and> eevdf_pick_next s 0 5 6 = Some (r, s') \<and>
     r = Some 7 \<and> curr (eevdf_rqs s' 0) = Some 7"
proof -
  obtain s where s: "step_run ev_step (in_window (- 1048576) (- 1048576)) blank_boot s" "queue (eevdf_rqs s 0) = [7]"
      "curr (eevdf_rqs s 0) = None" "close_keys (eevdf_rqs s 0) (etask s)" using ev_one_task_run by blast
  have c: "0 < USED_CPUS" by (simp add: USED_CPUS_def)
  from eevdf_picks_earliest_eligible [OF s(1) blank_rq_zero c s(3,4), of 5 6] s(1,2) show ?thesis
    by (auto split: option.splits)
qed

end
