(* ===== verification/Sched_Core.thy ===== *)
theory Sched_Core
  imports Sched_Policy
begin

text \<open>
  The scheduler of \<^verbatim>\<open>libos/sched/sched.c\<close> on the CPUs of one application: the life of a task from
  \<^verbatim>\<open>task_spawn\<close> through \<^verbatim>\<open>task_yield\<close>, \<^verbatim>\<open>task_block\<close> and \<^verbatim>\<open>task_wakeup\<close> to \<^verbatim>\<open>task_exit\<close>, and the two ways of
  switching, \<^verbatim>\<open>fast_schedule\<close> from the stack of a task and \<^verbatim>\<open>schedule\<close> on the idle stack of the CPU.

  The CPUs run interleaved. A step of a CPU ends where others can see or change what it uses: after
  \<^verbatim>\<open>stack_busy\<close> is set, after a call of the policy, after a task is picked, and where a CPU waits for
  the stack of the picked task. Interrupts are off in these functions. Softirqs run in the loop of \<^verbatim>\<open>schedule\<close> and, in the builds that have them there,
  in \<^verbatim>\<open>fast_schedule\<close> after a task is picked. All tasks belong to one application, so that \<^verbatim>\<open>switch_to_app\<close> is not called. \<open>None\<close> stands for a failed assertion
  or a panic of the policy. The policy is the record of its operations (\<^verbatim>\<open>skyloft/sched/ops.h\<close>).
\<close>

section \<open>Tasks and policies\<close>

datatype task_state = TASK_IDLE | TASK_RUNNABLE | TASK_BLOCKED

text \<open>\<open>saved\<close>: the field \<^verbatim>\<open>rsp\<close> holds the stack pointer of the point where the task was left. The policy may
  set fields of a new task in \<^verbatim>\<open>sched_init_task\<close>.\<close>

record task_st =
  state :: task_state
  stack_busy :: bool
  allow_preempt :: bool
  skip_free :: bool
  init :: bool
  saved :: bool

record 'q sched_ops =
  sched_init_task :: "task_st \<Rightarrow> task_st"
  sched_spawn :: "'q \<Rightarrow> nat \<Rightarrow> task \<Rightarrow> int \<Rightarrow> (int \<times> 'q) option"
  sched_yield :: "'q \<Rightarrow> nat \<Rightarrow> task \<Rightarrow> 'q option"
  sched_wakeup :: "'q \<Rightarrow> nat \<Rightarrow> task \<Rightarrow> 'q option"
  sched_pick_next :: "'q \<Rightarrow> nat \<Rightarrow> task option \<times> 'q"
  sched_block :: "'q \<Rightarrow> nat \<Rightarrow> 'q"
  sched_finish_task :: "'q \<Rightarrow> nat \<Rightarrow> task \<Rightarrow> 'q"
  sched_balance :: "'q \<Rightarrow> nat \<Rightarrow> task multiset \<Rightarrow> 'q \<Rightarrow> bool"

section \<open>State\<close>

text \<open>Where a CPU is: in the code of its task; in \<^verbatim>\<open>task_yield\<close> or \<^verbatim>\<open>task_block\<close> before the call of the policy;
  in \<^verbatim>\<open>fast_schedule\<close> before picking, in its softirqs, or waiting for the stack of the picked task; at the entry of
  \<^verbatim>\<open>schedule\<close>, in its loop, or waiting; in \<^verbatim>\<open>__task_exit\<close>. The last four run on the idle stack.\<close>

datatype pc = Run | Yielding | Blocking | Fast | FastIrq task | FastWait task | Enter | Loop | LoopWait task | Exiting

record cpu_st =
  at :: pc
  curr :: "task option"
  rcu_gen :: u32
  rcu_nest :: nat

record 'q core =
  policy :: 'q
  tasks :: "task \<Rightarrow> task_st"
  live :: "task set"
  cpus :: "nat \<Rightarrow> cpu_st"

abbreviation upd_task :: "task \<Rightarrow> (task_st \<Rightarrow> task_st) \<Rightarrow> 'q core \<Rightarrow> 'q core" where
  "upd_task t g s \<equiv> s\<lparr>tasks := (tasks s)(t := g (tasks s t))\<rparr>"

abbreviation upd_cpu :: "nat \<Rightarrow> (cpu_st \<Rightarrow> cpu_st) \<Rightarrow> 'q core \<Rightarrow> 'q core" where
  "upd_cpu c g s \<equiv> s\<lparr>cpus := (cpus s)(c := g (cpus s c))\<rparr>"

section \<open>Creating tasks\<close>

text \<open>\<^verbatim>\<open>__task_init\<close>, with the frame that \<^verbatim>\<open>task_create\<close> writes on the new stack. The task that the allocator
  hands out is an argument.\<close>

definition task_create :: "'q sched_ops \<Rightarrow> task \<Rightarrow> 'q core \<Rightarrow> 'q core" where
  "task_create P t s =
     upd_task t (\<lambda>_. (sched_init_task P
         \<lparr>state = TASK_RUNNABLE, stack_busy = False, allow_preempt = False, skip_free = False, init = True, saved = False\<rparr>)\<lparr>saved := True\<rparr>)
       (s\<lparr>live := insert t (live s)\<rparr>)"

definition task_free :: "task \<Rightarrow> 'q core \<Rightarrow> 'q core" where
  "task_free t s = s\<lparr>live := live s - {t}\<rparr>"

definition task_spawn :: "'q sched_ops \<Rightarrow> nat \<Rightarrow> task \<Rightarrow> int \<Rightarrow> 'q core \<Rightarrow> (int \<times> 'q core) option" where
  "task_spawn P c t cpu_id s =
     (let s = task_create P t s
      in case sched_spawn P (policy s) c t cpu_id of
        None \<Rightarrow> None
      | Some (ret, q) \<Rightarrow> let s = s\<lparr>policy := q\<rparr> in Some (ret, if ret \<noteq> 0 then task_free t s else s))"

section \<open>Leaving a task\<close>

definition task_yield_begin :: "nat \<Rightarrow> 'q core \<Rightarrow> 'q core option" where
  "task_yield_begin c s =
     map_option (\<lambda>t. upd_task t (\<lambda>k. k\<lparr>stack_busy := True\<rparr>) (upd_cpu c (\<lambda>k. k\<lparr>at := Yielding\<rparr>) s)) (curr (cpus s c))"

definition task_yield_put :: "'q sched_ops \<Rightarrow> nat \<Rightarrow> 'q core \<Rightarrow> 'q core option" where
  "task_yield_put P c s =
     (case curr (cpus s c) of
        None \<Rightarrow> None
      | Some t \<Rightarrow> map_option (\<lambda>q. upd_cpu c (\<lambda>k. k\<lparr>at := Fast\<rparr>) (s\<lparr>policy := q\<rparr>)) (sched_yield P (policy s) c t))"

definition task_block_begin :: "nat \<Rightarrow> 'q core \<Rightarrow> 'q core option" where
  "task_block_begin c s =
     map_option
       (\<lambda>t. upd_task t (\<lambda>k. k\<lparr>state := TASK_BLOCKED, stack_busy := True\<rparr>) (upd_cpu c (\<lambda>k. k\<lparr>at := Blocking\<rparr>) s))
       (curr (cpus s c))"

definition task_block_done :: "'q sched_ops \<Rightarrow> nat \<Rightarrow> 'q core \<Rightarrow> 'q core" where
  "task_block_done P c s = upd_cpu c (\<lambda>k. k\<lparr>at := Fast\<rparr>) (s\<lparr>policy := sched_block P (policy s) c\<rparr>)"

text \<open>\<^verbatim>\<open>task_wakeup\<close> by CPU \<open>c\<close>.\<close>

definition task_wakeup :: "'q sched_ops \<Rightarrow> nat \<Rightarrow> task \<Rightarrow> 'q core \<Rightarrow> 'q core option" where
  "task_wakeup P c t s =
     (if state (tasks s t) \<noteq> TASK_BLOCKED then None
      else let s = upd_task t (\<lambda>k. k\<lparr>state := TASK_RUNNABLE\<rparr>) s
           in map_option (\<lambda>q. s\<lparr>policy := q\<rparr>) (sched_wakeup P (policy s) c t))"

text \<open>\<^verbatim>\<open>task_exit\<close> goes to the idle stack without saving anything; \<^verbatim>\<open>__task_exit\<close> runs there.\<close>

definition task_exit :: "nat \<Rightarrow> 'q core \<Rightarrow> 'q core" where
  "task_exit c s = upd_cpu c (\<lambda>k. k\<lparr>at := Exiting\<rparr>) s"

definition task_exit_done :: "'q sched_ops \<Rightarrow> nat \<Rightarrow> 'q core \<Rightarrow> 'q core option" where
  "task_exit_done P c s =
     map_option
       (\<lambda>t. let s = s\<lparr>policy := sched_finish_task P (policy s) c t\<rparr>;
                s = (if \<not> skip_free (tasks s t) then task_free t s else s)
            in upd_cpu c (\<lambda>k. k\<lparr>curr := None, at := Enter\<rparr>) s)
       (curr (cpus s c))"

section \<open>Switching\<close>

text \<open>\<^verbatim>\<open>fast_schedule\<close> up to the point where it may run softirqs. Without a next task
  \<^verbatim>\<open>__context_switch_to_idle\<close> saves the context and goes to \<^verbatim>\<open>schedule\<close> on the idle stack.\<close>

definition fast_schedule_pick :: "'q sched_ops \<Rightarrow> nat \<Rightarrow> 'q core \<Rightarrow> 'q core option" where
  "fast_schedule_pick P c s =
     (case curr (cpus s c) of
        None \<Rightarrow> None
      | Some prev \<Rightarrow>
          (case sched_pick_next P (policy s) c of
             (None, q) \<Rightarrow>
               Some (upd_task prev (\<lambda>k. k\<lparr>saved := True\<rparr>) (upd_cpu c (\<lambda>k. k\<lparr>at := Enter\<rparr>) (s\<lparr>policy := q\<rparr>)))
           | (Some nxt, q) \<Rightarrow>
               let gen = rcu_gen (cpus s c) + 2;
                   s = upd_cpu c (\<lambda>k. k\<lparr>rcu_gen := gen\<rparr>) (s\<lparr>policy := q\<rparr>)
               in if gen AND 1 \<noteq> 1 then None else Some (upd_cpu c (\<lambda>k. k\<lparr>at := FastIrq nxt\<rparr>) s)))"

text \<open>From there to the point where it waits for the stack of the next task.\<close>

definition fast_schedule_check :: "nat \<Rightarrow> task \<Rightarrow> 'q core \<Rightarrow> 'q core option" where
  "fast_schedule_check c nxt s =
     (case curr (cpus s c) of
        None \<Rightarrow> None
      | Some prev \<Rightarrow>
          if state (tasks s nxt) \<noteq> TASK_RUNNABLE then None
          else if nxt = prev
          then Some (upd_task nxt (\<lambda>k. k\<lparr>stack_busy := False\<rparr>) (upd_cpu c (\<lambda>k. k\<lparr>at := Run\<rparr>) s))
          else Some (upd_cpu c (\<lambda>k. k\<lparr>at := FastWait nxt\<rparr>) s))"

text \<open>The switch, once the stack is free: \<^verbatim>\<open>__context_switch\<close> saves the context of the previous task, clears its
  flag and takes the stack of the next one.\<close>

definition fast_schedule_switch :: "nat \<Rightarrow> task \<Rightarrow> 'q core \<Rightarrow> 'q core option" where
  "fast_schedule_switch c nxt s =
     map_option
       (\<lambda>prev.
          let s = upd_task nxt (\<lambda>k. k\<lparr>init := False\<rparr>) (upd_cpu c (\<lambda>k. k\<lparr>curr := Some nxt, at := Run\<rparr>) s);
              s = upd_task prev (\<lambda>k. k\<lparr>saved := True, stack_busy := False\<rparr>) s
          in upd_task nxt (\<lambda>k. k\<lparr>saved := False\<rparr>) s)
       (curr (cpus s c))"

definition schedule_enter :: "nat \<Rightarrow> 'q core \<Rightarrow> 'q core option" where
  "schedule_enter c s =
     (let s = (case curr (cpus s c) of
                 Some t \<Rightarrow> upd_task t (\<lambda>k. k\<lparr>stack_busy := False\<rparr>) (upd_cpu c (\<lambda>k. k\<lparr>curr := None\<rparr>) s)
               | None \<Rightarrow> s);
          gen = rcu_gen (cpus s c) + 1
      in if gen AND 1 \<noteq> 0 then None else Some (upd_cpu c (\<lambda>k. k\<lparr>rcu_gen := gen, at := Loop\<rparr>) s))"

text \<open>A task was found: by the policy, or by \<^verbatim>\<open>softirq_task\<close>.\<close>

definition schedule_found :: "nat \<Rightarrow> task \<Rightarrow> 'q core \<Rightarrow> 'q core option" where
  "schedule_found c nxt s =
     (let gen = rcu_gen (cpus s c) + 1
      in if gen AND 1 \<noteq> 1 then None else Some (upd_cpu c (\<lambda>k. k\<lparr>rcu_gen := gen, at := LoopWait nxt\<rparr>) s))"

definition schedule_pick :: "'q sched_ops \<Rightarrow> nat \<Rightarrow> 'q core \<Rightarrow> 'q core option" where
  "schedule_pick P c s =
     (case sched_pick_next P (policy s) c of
        (None, q) \<Rightarrow> Some (s\<lparr>policy := q\<rparr>)
      | (Some nxt, q) \<Rightarrow> schedule_found c nxt (s\<lparr>policy := q\<rparr>))"

definition schedule_switch :: "nat \<Rightarrow> task \<Rightarrow> 'q core \<Rightarrow> 'q core" where
  "schedule_switch c nxt s =
     upd_task nxt (\<lambda>k. k\<lparr>init := False, saved := False\<rparr>) (upd_cpu c (\<lambda>k. k\<lparr>curr := Some nxt, at := Run\<rparr>) s)"

text \<open>\<^verbatim>\<open>start_schedule\<close> on every CPU.\<close>

definition start_schedule :: "'q \<Rightarrow> (task \<Rightarrow> task_st) \<Rightarrow> 'q core" where
  "start_schedule q T =
     \<lparr>policy = q, tasks = T, live = {}, cpus = (\<lambda>_. \<lparr>at = Enter, curr = None, rcu_gen = 1, rcu_nest = 0\<rparr>)\<rparr>"

text \<open>\<^verbatim>\<open>rcu_read_lock\<close> and \<^verbatim>\<open>rcu_read_unlock\<close>: preemption is off in between.\<close>

definition rcu_read_lock :: "nat \<Rightarrow> 'q core \<Rightarrow> 'q core" where
  "rcu_read_lock c s = upd_cpu c (\<lambda>k. k\<lparr>rcu_nest := rcu_nest k + 1\<rparr>) s"

definition rcu_read_unlock :: "nat \<Rightarrow> 'q core \<Rightarrow> 'q core" where
  "rcu_read_unlock c s = upd_cpu c (\<lambda>k. k\<lparr>rcu_nest := rcu_nest k - 1\<rparr>) s"

section \<open>Steps\<close>

text \<open>A step of CPU \<open>c\<close>. Tasks are woken up and spawned by the running task, or by the softirqs that
  \<^verbatim>\<open>schedule\<close> and \<^verbatim>\<open>fast_schedule\<close> run. A task does not give up the CPU in a read-side critical section. New tasks are ones
  that are not in use.\<close>

inductive core_step :: "'q sched_ops \<Rightarrow> nat \<Rightarrow> 'q core \<Rightarrow> 'q core \<Rightarrow> bool" for P c where
  spawn: "at (cpus s c) \<in> {Run, Loop} \<union> range FastIrq \<Longrightarrow> t \<notin> live s \<Longrightarrow> task_spawn P c t cpu_id s = Some (ret, s') \<Longrightarrow> core_step P c s s'"
| yield: "at (cpus s c) = Run \<Longrightarrow> rcu_nest (cpus s c) = 0 \<Longrightarrow> task_yield_begin c s = Some s' \<Longrightarrow> core_step P c s s'"
| put: "at (cpus s c) = Yielding \<Longrightarrow> task_yield_put P c s = Some s' \<Longrightarrow> core_step P c s s'"
| block: "at (cpus s c) = Run \<Longrightarrow> rcu_nest (cpus s c) = 0 \<Longrightarrow> task_block_begin c s = Some s' \<Longrightarrow> core_step P c s s'"
| blocked: "at (cpus s c) = Blocking \<Longrightarrow> core_step P c s (task_block_done P c s)"
| wakeup: "at (cpus s c) \<in> {Run, Loop} \<union> range FastIrq \<Longrightarrow> t \<in> live s \<Longrightarrow> task_wakeup P c t s = Some s' \<Longrightarrow> core_step P c s s'"
| exit: "at (cpus s c) = Run \<Longrightarrow> rcu_nest (cpus s c) = 0 \<Longrightarrow> core_step P c s (task_exit c s)"
| exited: "at (cpus s c) = Exiting \<Longrightarrow> task_exit_done P c s = Some s' \<Longrightarrow> core_step P c s s'"
| fast: "at (cpus s c) = Fast \<Longrightarrow> fast_schedule_pick P c s = Some s' \<Longrightarrow> core_step P c s s'"
| check: "at (cpus s c) = FastIrq t \<Longrightarrow> fast_schedule_check c t s = Some s' \<Longrightarrow> core_step P c s s'"
| fast_switch: "at (cpus s c) = FastWait t \<Longrightarrow> \<not> stack_busy (tasks s t) \<Longrightarrow> fast_schedule_switch c t s = Some s' \<Longrightarrow> core_step P c s s'"
| enter: "at (cpus s c) = Enter \<Longrightarrow> schedule_enter c s = Some s' \<Longrightarrow> core_step P c s s'"
| pick: "at (cpus s c) = Loop \<Longrightarrow> schedule_pick P c s = Some s' \<Longrightarrow> core_step P c s s'"
| softirq: "at (cpus s c) = Loop \<Longrightarrow> t \<notin> live s \<Longrightarrow> schedule_found c t (task_create P t s) = Some s' \<Longrightarrow> core_step P c s s'"
| balance: "at (cpus s c) = Loop \<Longrightarrow> sched_balance P (policy s) c (mset_set X) q \<Longrightarrow> finite X \<Longrightarrow> X \<inter> live s = {} \<Longrightarrow>
    s' = s\<lparr>policy := q, live := live s \<union> X, tasks := (\<lambda>t. if t \<in> X then tasks (task_create P t s) t else tasks s t)\<rparr> \<Longrightarrow> core_step P c s s'"
| switch: "at (cpus s c) = LoopWait t \<Longrightarrow> \<not> stack_busy (tasks s t) \<Longrightarrow> core_step P c s (schedule_switch c t s)"
| lock: "at (cpus s c) = Run \<Longrightarrow> core_step P c s (rcu_read_lock c s)"
| unlock: "at (cpus s c) = Run \<Longrightarrow> rcu_nest (cpus s c) > 0 \<Longrightarrow> core_step P c s (rcu_read_unlock c s)"

inductive core_reach :: "'q sched_ops \<Rightarrow> 'q core \<Rightarrow> 'q core \<Rightarrow> bool" for P s0 where
  start: "core_reach P s0 s0"
| step: "core_reach P s0 s \<Longrightarrow> c < USED_CPUS \<Longrightarrow> core_step P c s s' \<Longrightarrow> core_reach P s0 s'"

section \<open>Invariant\<close>

text \<open>The CPU has left its task, but the stack of the task is not free yet.\<close>

definition leaving :: "pc \<Rightarrow> bool" where
  "leaving p \<longleftrightarrow> p \<noteq> Run \<and> p \<noteq> Loop \<and> p \<noteq> Exiting \<and> p \<notin> range LoopWait"

text \<open>The claim of a CPU to run a task: its current one, or the one it has picked.\<close>

definition claim :: "cpu_st \<Rightarrow> task \<Rightarrow> nat" where
  "claim k t = (if at k \<in> {Run, Yielding, Exiting} \<and> curr k = Some t then 1 else 0) + (if at k \<in> {FastIrq t, FastWait t, LoopWait t} then 1 else 0)"

definition asleep :: "(task \<Rightarrow> task_st) \<Rightarrow> task set \<Rightarrow> task \<Rightarrow> nat" where
  "asleep T L t = (if t \<in> L \<and> state (T t) = TASK_BLOCKED then 1 else 0)"

definition cpu_ok :: "(task \<Rightarrow> task_st) \<Rightarrow> task set \<Rightarrow> cpu_st \<Rightarrow> bool" where
  "cpu_ok T L k \<longleftrightarrow>
     (\<forall>t. curr k = Some t \<longrightarrow> t \<in> L \<and> (leaving (at k) \<longrightarrow> stack_busy (T t))) \<and>
     (at k = Loop \<or> at k \<in> range LoopWait \<longrightarrow> curr k = None) \<and>
     (at k \<noteq> Enter \<and> at k \<noteq> Loop \<and> at k \<notin> range LoopWait \<longrightarrow> curr k \<noteq> None) \<and>
     rcu_gen k AND 1 = (if at k = Loop then 0 else 1) \<and> (at k \<noteq> Run \<longrightarrow> rcu_nest k = 0)"

text \<open>The task is on the stack of the CPU, and its saved context is out of date.\<close>

definition on_cpu :: "cpu_st \<Rightarrow> task \<Rightarrow> bool" where
  "on_cpu k t \<longleftrightarrow> curr k = Some t \<and> at k \<noteq> Enter"

definition tasks_ok :: "(task \<Rightarrow> task_st) \<Rightarrow> task set \<Rightarrow> (nat \<Rightarrow> cpu_st) \<Rightarrow> bool" where
  "tasks_ok T L C \<longleftrightarrow>
     (\<forall>t \<in> L. state (T t) \<noteq> TASK_IDLE \<and> \<not> skip_free (T t) \<and> ((\<forall>c < USED_CPUS. \<not> on_cpu (C c) t) \<longrightarrow> saved (T t)))"

definition one_place :: "task multiset \<Rightarrow> (task \<Rightarrow> task_st) \<Rightarrow> task set \<Rightarrow> (nat \<Rightarrow> cpu_st) \<Rightarrow> bool" where
  "one_place Q T L C \<longleftrightarrow> (\<forall>t. count Q t + (\<Sum>c < USED_CPUS. claim (C c) t) + asleep T L t = (if t \<in> L then 1 else 0))"

definition core_inv :: "task multiset \<Rightarrow> (task \<Rightarrow> task_st) \<Rightarrow> task set \<Rightarrow> (nat \<Rightarrow> cpu_st) \<Rightarrow> bool" where
  "core_inv Q T L C \<longleftrightarrow> one_place Q T L C \<and> (\<forall>c < USED_CPUS. cpu_ok T L (C c)) \<and> tasks_ok T L C \<and>
     (\<forall>c < USED_CPUS. \<forall>d < USED_CPUS. \<forall>t. curr (C c) = Some t \<longrightarrow> curr (C d) = Some t \<longrightarrow> c = d)"

lemma sum_claim_upd:
  fixes c n :: nat
  assumes "c < n"
  shows "(\<Sum>i<n. claim ((C(c := k)) i) t) + claim (C c) t = (\<Sum>i<n. claim (C i) t) + claim k t"
proof -
  have split: "(\<Sum>i<n. claim (D i) t) = claim (D c) t + (\<Sum>i\<in>{..<n} - {c}. claim (D i) t)" for D
    using assms by (simp add: sum.remove)
  have "(\<Sum>i\<in>{..<n} - {c}. claim ((C(c := k)) i) t) = (\<Sum>i\<in>{..<n} - {c}. claim (C i) t)" by (rule sum.cong) auto
  then show ?thesis by (simp add: split)
qed

lemma claim_le: "c < n \<Longrightarrow> claim (C c) t \<le> (\<Sum>i<n. claim (C i) t)" for c n :: nat
  by (rule member_le_sum) simp_all

lemma claim_two: "c < n \<Longrightarrow> d < n \<Longrightarrow> c \<noteq> d \<Longrightarrow> claim (C c) t + claim (C d) t \<le> (\<Sum>i<n. claim (C i) t)" for c d n :: nat
proof -
  assume a: "c < n" "d < n" "c \<noteq> d"
  then have "(\<Sum>i<n. claim (C i) t) = claim (C c) t + (\<Sum>i\<in>{..<n} - {c}. claim (C i) t)" by (simp add: sum.remove)
  moreover have "claim (C d) t \<le> (\<Sum>i\<in>{..<n} - {c}. claim (C i) t)" using a by (intro member_le_sum) simp_all
  ultimately show ?thesis by simp
qed

text \<open>CPU \<open>c\<close> makes a step.\<close>

lemma core_inv_update:
  assumes inv: "core_inv Q T L C" and c: "c < USED_CPUS"
    and bal: "\<And>t. count Q' t + claim k t + asleep T' L' t + (if t \<in> L then 1 else 0) =
        count Q t + claim (C c) t + asleep T L t + (if t \<in> L' then 1 else (0::nat))"
    and own: "cpu_ok T' L' k"
    and others: "\<And>d t. d < USED_CPUS \<Longrightarrow> d \<noteq> c \<Longrightarrow> curr (C d) = Some t \<Longrightarrow> t \<in> L \<Longrightarrow> t \<in> L' \<and> (leaving (at (C d)) \<longrightarrow> stack_busy (T t) \<longrightarrow> stack_busy (T' t))"
    and free: "\<And>d t. d < USED_CPUS \<Longrightarrow> d \<noteq> c \<Longrightarrow> curr k = Some t \<Longrightarrow> curr (C c) \<noteq> Some t \<Longrightarrow> curr (C d) \<noteq> Some t"
    and ok: "\<And>t. t \<in> L' \<Longrightarrow> state (T' t) \<noteq> TASK_IDLE \<and> \<not> skip_free (T' t)"
    and sav: "\<And>t. t \<in> L' \<Longrightarrow> \<not> on_cpu k t \<Longrightarrow> saved (T' t) \<or> (t \<in> L \<and> \<not> on_cpu (C c) t \<and> saved (T' t) = saved (T t)) \<or>
        (\<exists>d < USED_CPUS. d \<noteq> c \<and> on_cpu (C d) t)"
  shows "core_inv Q' T' L' (C(c := k))"
proof -
  have "count Q' t + (\<Sum>i < USED_CPUS. claim ((C(c := k)) i) t) + asleep T' L' t = (if t \<in> L' then 1 else 0)" for t
  proof -
    have "count Q t + (\<Sum>i < USED_CPUS. claim (C i) t) + asleep T L t = (if t \<in> L then 1 else 0)"
      using inv by (simp add: core_inv_def one_place_def)
    then show ?thesis using bal [of t] sum_claim_upd [OF c, of C k t] by linarith
  qed
  moreover have "cpu_ok T' L' ((C(c := k)) d)" if d: "d < USED_CPUS" for d
    using inv own others [OF d] d unfolding core_inv_def cpu_ok_def by (cases "d = c") auto
  moreover have "i = j" if "i < USED_CPUS" "j < USED_CPUS" "curr ((C(c := k)) i) = Some t" "curr ((C(c := k)) j) = Some t" for i j t
  proof -
    have u: "a = b" if "a < USED_CPUS" "b < USED_CPUS" "curr (C a) = Some t" "curr (C b) = Some t" for a b
      using inv that by (auto simp: core_inv_def)
    consider "i = c" "j = c" | "i \<noteq> c" "j \<noteq> c" | "i = c" "j \<noteq> c" | "i \<noteq> c" "j = c" by blast
    then show ?thesis
    proof cases
      case 3
      with that have "curr k = Some t" "curr (C j) = Some t" by simp_all
      with free [of j t] u [of c j] 3 that c show ?thesis by blast
    next
      case 4
      with that have "curr k = Some t" "curr (C i) = Some t" by simp_all
      with free [of i t] u [of c i] 4 that c show ?thesis by blast
    qed (use u that in auto)
  qed
  moreover have "saved (T' t)" if "t \<in> L'" "\<forall>d < USED_CPUS. \<not> on_cpu ((C(c := k)) d) t" for t
  proof -
    have n: "\<not> on_cpu k t" using that(2) c by (metis fun_upd_same)
    have o: "\<not> on_cpu (C d) t" if "d < USED_CPUS" "d \<noteq> c" for d using \<open>\<forall>d < USED_CPUS. \<not> on_cpu ((C(c := k)) d) t\<close> that by (metis fun_upd_other)
    from sav [OF that(1) n] o consider "saved (T' t)" | "t \<in> L" "\<not> on_cpu (C c) t" "saved (T' t) = saved (T t)" by blast
    then show ?thesis
    proof cases
      case 2
      then have "\<forall>d < USED_CPUS. \<not> on_cpu (C d) t" using o by metis
      then show ?thesis using 2 inv by (simp add: core_inv_def tasks_ok_def)
    qed
  qed
  ultimately show ?thesis using ok unfolding core_inv_def one_place_def tasks_ok_def by blast
qed

lemma core_inv_place:
  "core_inv Q T L C \<Longrightarrow> count Q t + (\<Sum>i < USED_CPUS. claim (C i) t) + asleep T L t = (if t \<in> L then 1 else 0)"
  by (simp add: core_inv_def one_place_def)

lemma runnable_task: "core_inv Q T L C \<Longrightarrow> t \<in> L \<Longrightarrow> asleep T L t = 0 \<Longrightarrow> state (T t) = TASK_RUNNABLE"
  by (cases "state (T t)") (auto simp: core_inv_def tasks_ok_def asleep_def split: if_splits)

lemma one_summand: "a + b + d = (if p then 1 else 0) \<Longrightarrow> 0 < a \<Longrightarrow> p \<and> a = 1 \<and> b = 0 \<and> d = (0::nat)"
  by (cases p) auto

lemma queued_task:
  assumes "core_inv Q T L C" "t \<in># Q"
  shows "t \<in> L" "state (T t) = TASK_RUNNABLE" "\<And>c. c < USED_CPUS \<Longrightarrow> claim (C c) t = 0" "asleep T L t = 0"
proof -
  have "0 < count Q t" using assms(2) by simp
  then have *: "t \<in> L \<and> asleep T L t = 0 \<and> (\<Sum>i < USED_CPUS. claim (C i) t) = 0"
    using one_summand [OF core_inv_place [OF assms(1), of t]] by blast
  then show "t \<in> L" "asleep T L t = 0" by simp_all
  show "state (T t) = TASK_RUNNABLE" using runnable_task [OF assms(1)] * by blast
  show "claim (C c) t = 0" if "c < USED_CPUS" for c using claim_le [OF that, of C t] * by simp
qed

lemma claimed_task:
  assumes "core_inv Q T L C" "c < USED_CPUS" "0 < claim (C c) t"
  shows "t \<in> L" "state (T t) = TASK_RUNNABLE" "claim (C c) t = 1" "count Q t = 0" "asleep T L t = 0"
    "\<And>d. d < USED_CPUS \<Longrightarrow> d \<noteq> c \<Longrightarrow> claim (C d) t = 0"
proof -
  have "0 < (\<Sum>i < USED_CPUS. claim (C i) t)" using claim_le [OF assms(2), of C t] assms(3) by simp
  then have *: "t \<in> L \<and> asleep T L t = 0 \<and> (\<Sum>i < USED_CPUS. claim (C i) t) = 1 \<and> count Q t = 0"
    using one_summand [of "\<Sum>i < USED_CPUS. claim (C i) t" "count Q t" "asleep T L t"] core_inv_place [OF assms(1), of t]
    by (simp only: ac_simps) blast
  then show "t \<in> L" "asleep T L t = 0" "count Q t = 0" by simp_all
  show "state (T t) = TASK_RUNNABLE" using runnable_task [OF assms(1)] * by blast
  show "claim (C c) t = 1" using claim_le [OF assms(2), of C t] * assms(3) by simp
  show "claim (C d) t = 0" if "d < USED_CPUS" "d \<noteq> c" for d using claim_two [OF assms(2) that(1), of C t] that(2) * assms(3) by simp
qed

lemma curr_claim: "at k \<in> {Run, Yielding, Exiting} \<Longrightarrow> curr k = Some t \<Longrightarrow> 0 < claim k t"
  by (simp add: claim_def)

lemma wait_claim: "at k = FastWait t \<or> at k = LoopWait t \<Longrightarrow> 0 < claim k t"
  by (auto simp: claim_def)

lemma irq_claim: "at k = FastIrq t \<Longrightarrow> 0 < claim k t"
  by (simp add: claim_def)

text \<open>The stack of a picked task is free when its flag is clear: no CPU has it as its current task.\<close>

lemma picked_stack_free:
  assumes "core_inv Q T L C" "c < USED_CPUS" "at (C c) = FastWait n \<or> at (C c) = LoopWait n" "\<not> stack_busy (T n)" "d < USED_CPUS"
  shows "curr (C d) \<noteq> Some n"
proof
  assume a: "curr (C d) = Some n"
  have ok: "cpu_ok T L (C d)" "cpu_ok T L (C c)" using assms(1,2,5) by (simp_all add: core_inv_def)
  with a assms(4) have "\<not> leaving (at (C d))" by (auto simp: cpu_ok_def)
  moreover have "at (C d) \<noteq> Loop" "at (C d) \<notin> range LoopWait" using ok(1) a by (auto simp: cpu_ok_def)
  ultimately have "at (C d) = Run \<or> at (C d) = Exiting" by (auto simp: leaving_def)
  then have "0 < claim (C d) n" using a by (auto simp: claim_def)
  moreover have "d \<noteq> c" using \<open>at (C d) = Run \<or> at (C d) = Exiting\<close> assms(3) by auto
  ultimately show False using claimed_task(6) [OF assms(1,2) wait_claim [OF assms(3)], of d] assms(5) by simp
qed

lemma picked_saved:
  assumes "core_inv Q T L C" "c < USED_CPUS" "at (C c) = FastWait n \<or> at (C c) = LoopWait n" "\<not> stack_busy (T n)"
  shows "saved (T n)" "n \<in> L"
proof -
  show n: "n \<in> L" by (rule claimed_task(1) [OF assms(1,2) wait_claim [OF assms(3)]])
  have "\<forall>d < USED_CPUS. \<not> on_cpu (C d) n" using picked_stack_free [OF assms] by (simp add: on_cpu_def)
  then show "saved (T n)" using assms(1) n by (simp add: core_inv_def tasks_ok_def)
qed

lemma parity_plus_two: "((x::u32) + 2) AND 1 = x AND 1"
  by (simp add: and_one_eq mod2_eq_if)

lemma parity_plus_one: "((x::u32) + 1) AND 1 = (if x AND 1 = 0 then 1 else 0)"
  by (simp add: and_one_eq mod2_eq_if)

section \<open>The contract of a policy\<close>

definition core_ok :: "('q \<Rightarrow> bool) \<Rightarrow> ('q \<Rightarrow> task multiset) \<Rightarrow> 'q core \<Rightarrow> bool" where
  "core_ok invar queued s \<longleftrightarrow> invar (policy s) \<and> core_inv (queued (policy s)) (tasks s) (live s) (cpus s)"

locale sched_policy =
  fixes P :: "'q sched_ops" and invar :: "'q \<Rightarrow> bool" and queued :: "'q \<Rightarrow> task multiset"
  assumes init_task: "(sched_init_task P k)\<lparr>allow_preempt := a\<rparr> = k\<lparr>allow_preempt := a\<rparr>"
    and spawn_queued: "invar q \<Longrightarrow> c < USED_CPUS \<Longrightarrow> sched_spawn P q c t cpu = Some (ret, q') \<Longrightarrow>
        invar q' \<and> queued q' = (if ret = 0 then add_mset t (queued q) else queued q)"
    and yield_queued: "invar q \<Longrightarrow> c < USED_CPUS \<Longrightarrow> sched_yield P q c t = Some q' \<Longrightarrow> invar q' \<and> queued q' = add_mset t (queued q)"
    and wakeup_queued: "invar q \<Longrightarrow> c < USED_CPUS \<Longrightarrow> sched_wakeup P q c t = Some q' \<Longrightarrow> invar q' \<and> queued q' = add_mset t (queued q)"
    and pick_some: "invar q \<Longrightarrow> c < USED_CPUS \<Longrightarrow> sched_pick_next P q c = (Some t, q') \<Longrightarrow> invar q' \<and> queued q = add_mset t (queued q')"
    and pick_none: "invar q \<Longrightarrow> c < USED_CPUS \<Longrightarrow> sched_pick_next P q c = (None, q') \<Longrightarrow> invar q' \<and> queued q' = queued q"
    and block_queued: "invar q \<Longrightarrow> c < USED_CPUS \<Longrightarrow> invar (sched_block P q c) \<and> queued (sched_block P q c) = queued q"
    and finish_queued: "invar q \<Longrightarrow> c < USED_CPUS \<Longrightarrow> invar (sched_finish_task P q c t) \<and> queued (sched_finish_task P q c t) = queued q"
    and balance_queued: "invar q \<Longrightarrow> c < USED_CPUS \<Longrightarrow> sched_balance P q c X q' \<Longrightarrow> invar q' \<and> queued q' = queued q + X"
begin

lemma new_task [simp]: "state (sched_init_task P k) = state k" "stack_busy (sched_init_task P k) = stack_busy k"
  "skip_free (sched_init_task P k) = skip_free k"
  using init_task [where k = k and a = True] by (cases "sched_init_task P k"; cases k; simp)+

lemma spawn_ok:
  assumes "core_ok invar queued s" "c < USED_CPUS" "t \<notin> live s" "task_spawn P c t cpu_id s = Some (ret, s')"
  shows "core_ok invar queued s'"
proof -
  let ?T = "tasks s" and ?L = "live s" and ?C = "cpus s"
  have inv: "invar (policy s)" "core_inv (queued (policy s)) ?T ?L ?C" using assms(1) by (simp_all add: core_ok_def)
  obtain q where q: "sched_spawn P (policy s) c t cpu_id = Some (ret, q)"
      "s' = (let s1 = (task_create P t s)\<lparr>policy := q\<rparr> in if ret \<noteq> 0 then task_free t s1 else s1)"
    using assms(4) by (auto simp: task_spawn_def task_create_def Let_def split: option.splits)
  note qq = spawn_queued [OF inv(1) assms(2) q(1)]
  let ?T' = "tasks (task_create P t s)" and ?L' = "if ret = 0 then insert t ?L else ?L"
  have cu: "curr (?C d) \<noteq> Some t" if "d < USED_CPUS" for d using inv(2) assms(3) that by (auto simp: core_inv_def cpu_ok_def)
  have ok: "cpu_ok ?T ?L (?C c)" using inv(2) assms(2) by (simp add: core_inv_def)
  have "core_inv (queued q) ?T' ?L' (?C(c := ?C c))"
  proof (rule core_inv_update [OF inv(2) assms(2)])
    show "count (queued q) u + claim (?C c) u + asleep ?T' ?L' u + (if u \<in> ?L then 1 else 0) =
        count (queued (policy s)) u + claim (?C c) u + asleep ?T ?L u + (if u \<in> ?L' then 1 else 0)" for u
      using qq assms(3) by (auto simp: asleep_def task_create_def)
    show "cpu_ok ?T' ?L' (?C c)" using ok cu [OF assms(2)] by (auto simp: cpu_ok_def task_create_def)
  qed (use inv(2) cu assms(3) in \<open>auto simp: task_create_def core_inv_def tasks_ok_def split: if_splits\<close>)
  moreover have "live s' = ?L'" "tasks s' = ?T'" "cpus s' = ?C" "policy s' = q"
    using q(2) assms(3) by (auto simp: task_create_def task_free_def Let_def)
  ultimately show ?thesis using qq by (simp add: core_ok_def)
qed

lemma yield_begin_ok:
  assumes "core_ok invar queued s" "c < USED_CPUS" "at (cpus s c) = Run" "rcu_nest (cpus s c) = 0" "task_yield_begin c s = Some s'"
  shows "core_ok invar queued s'"
proof -
  have inv: "invar (policy s)" "core_inv (queued (policy s)) (tasks s) (live s) (cpus s)" using assms(1) by (simp_all add: core_ok_def)
  have ok: "cpu_ok (tasks s) (live s) (cpus s c)" using inv(2) assms(2) by (simp add: core_inv_def)
  obtain t where t: "curr (cpus s c) = Some t" using assms(5) by (auto simp: task_yield_begin_def)
  let ?T = "(tasks s)(t := (tasks s t)\<lparr>stack_busy := True\<rparr>)" and ?k = "(cpus s c)\<lparr>at := Yielding\<rparr>"
  have "core_inv (queued (policy s)) ?T (live s) ((cpus s)(c := ?k))"
  proof (rule core_inv_update [OF inv(2) assms(2)])
    show "cpu_ok ?T (live s) ?k" using ok t assms(3,4) by (auto simp: cpu_ok_def)
  qed (use inv(2) t assms(3) in \<open>auto simp: claim_def asleep_def core_inv_def tasks_ok_def on_cpu_def\<close>)
  then show ?thesis using assms(5) t inv(1) by (auto simp: task_yield_begin_def core_ok_def)
qed

lemma yield_put_ok:
  assumes "core_ok invar queued s" "c < USED_CPUS" "at (cpus s c) = Yielding" "task_yield_put P c s = Some s'"
  shows "core_ok invar queued s'"
proof -
  have inv: "invar (policy s)" "core_inv (queued (policy s)) (tasks s) (live s) (cpus s)" using assms(1) by (simp_all add: core_ok_def)
  have ok: "cpu_ok (tasks s) (live s) (cpus s c)" using inv(2) assms(2) by (simp add: core_inv_def)
  obtain t q where t: "curr (cpus s c) = Some t" "sched_yield P (policy s) c t = Some q"
    using assms(4) by (auto simp: task_yield_put_def split: option.splits)
  note qq = yield_queued [OF inv(1) assms(2) t(2)]
  let ?k = "(cpus s c)\<lparr>at := Fast\<rparr>"
  have "core_inv (queued q) (tasks s) (live s) ((cpus s)(c := ?k))"
  proof (rule core_inv_update [OF inv(2) assms(2)])
    show "cpu_ok (tasks s) (live s) ?k" using ok t assms(3) by (auto simp: cpu_ok_def leaving_def)
  qed (use inv(2) qq t assms(3) in \<open>auto simp: claim_def asleep_def core_inv_def tasks_ok_def on_cpu_def\<close>)
  then show ?thesis using assms(4) t qq by (auto simp: task_yield_put_def core_ok_def)
qed

lemma block_begin_ok:
  assumes "core_ok invar queued s" "c < USED_CPUS" "at (cpus s c) = Run" "rcu_nest (cpus s c) = 0" "task_block_begin c s = Some s'"
  shows "core_ok invar queued s'"
proof -
  have inv: "invar (policy s)" "core_inv (queued (policy s)) (tasks s) (live s) (cpus s)" using assms(1) by (simp_all add: core_ok_def)
  have ok: "cpu_ok (tasks s) (live s) (cpus s c)" using inv(2) assms(2) by (simp add: core_inv_def)
  obtain t where t: "curr (cpus s c) = Some t" using assms(5) by (auto simp: task_block_begin_def)
  let ?T = "(tasks s)(t := (tasks s t)\<lparr>state := TASK_BLOCKED, stack_busy := True\<rparr>)" and ?k = "(cpus s c)\<lparr>at := Blocking\<rparr>"
  have "0 < claim (cpus s c) t" using t assms(3) by (simp add: claim_def)
  note ct = claimed_task [OF inv(2) assms(2) this]
  have "core_inv (queued (policy s)) ?T (live s) ((cpus s)(c := ?k))"
  proof (rule core_inv_update [OF inv(2) assms(2)])
    show "cpu_ok ?T (live s) ?k" using ok t assms(3,4) by (auto simp: cpu_ok_def)
  qed (use inv(2) t ct assms(3) in \<open>auto simp: claim_def asleep_def core_inv_def tasks_ok_def on_cpu_def\<close>)
  then show ?thesis using assms(5) t inv(1) by (auto simp: task_block_begin_def core_ok_def)
qed

lemma block_done_ok:
  assumes "core_ok invar queued s" "c < USED_CPUS" "at (cpus s c) = Blocking"
  shows "core_ok invar queued (task_block_done P c s)"
proof -
  have inv: "invar (policy s)" "core_inv (queued (policy s)) (tasks s) (live s) (cpus s)" using assms(1) by (simp_all add: core_ok_def)
  have ok: "cpu_ok (tasks s) (live s) (cpus s c)" using inv(2) assms(2) by (simp add: core_inv_def)
  note qq = block_queued [OF inv(1) assms(2)]
  let ?k = "(cpus s c)\<lparr>at := Fast\<rparr>"
  have "core_inv (queued (policy s)) (tasks s) (live s) ((cpus s)(c := ?k))"
  proof (rule core_inv_update [OF inv(2) assms(2)])
    show "cpu_ok (tasks s) (live s) ?k" using ok assms(3) by (auto simp: cpu_ok_def leaving_def)
  qed (use inv(2) assms(3) in \<open>auto simp: claim_def asleep_def core_inv_def tasks_ok_def on_cpu_def\<close>)
  then show ?thesis using qq by (simp add: task_block_done_def core_ok_def)
qed

lemma wakeup_ok:
  assumes "core_ok invar queued s" "c < USED_CPUS" "t \<in> live s" "task_wakeup P c t s = Some s'"
  shows "core_ok invar queued s'"
proof -
  have inv: "invar (policy s)" "core_inv (queued (policy s)) (tasks s) (live s) (cpus s)" using assms(1) by (simp_all add: core_ok_def)
  have ok: "cpu_ok (tasks s) (live s) (cpus s c)" using inv(2) assms(2) by (simp add: core_inv_def)
  obtain q where t: "state (tasks s t) = TASK_BLOCKED" "sched_wakeup P (policy s) c t = Some q"
    using assms(4) by (auto simp: task_wakeup_def Let_def split: if_splits)
  note qq = wakeup_queued [OF inv(1) assms(2) t(2)]
  let ?T = "(tasks s)(t := (tasks s t)\<lparr>state := TASK_RUNNABLE\<rparr>)"
  have "core_inv (queued q) ?T (live s) ((cpus s)(c := cpus s c))"
  proof (rule core_inv_update [OF inv(2) assms(2)])
    show "cpu_ok ?T (live s) (cpus s c)" using ok by (auto simp: cpu_ok_def)
  qed (use inv(2) qq t assms(3) in \<open>auto simp: asleep_def core_inv_def tasks_ok_def on_cpu_def\<close>)
  then show ?thesis using assms(4) t qq by (auto simp: task_wakeup_def core_ok_def Let_def)
qed

lemma exit_ok:
  assumes "core_ok invar queued s" "c < USED_CPUS" "at (cpus s c) = Run" "rcu_nest (cpus s c) = 0"
  shows "core_ok invar queued (task_exit c s)"
proof -
  have inv: "invar (policy s)" "core_inv (queued (policy s)) (tasks s) (live s) (cpus s)" using assms(1) by (simp_all add: core_ok_def)
  have ok: "cpu_ok (tasks s) (live s) (cpus s c)" using inv(2) assms(2) by (simp add: core_inv_def)
  let ?k = "(cpus s c)\<lparr>at := Exiting\<rparr>"
  have "core_inv (queued (policy s)) (tasks s) (live s) ((cpus s)(c := ?k))"
  proof (rule core_inv_update [OF inv(2) assms(2)])
    show "cpu_ok (tasks s) (live s) ?k" using ok assms(3,4) by (auto simp: cpu_ok_def leaving_def)
  qed (use inv(2) assms(3) in \<open>auto simp: claim_def asleep_def core_inv_def tasks_ok_def on_cpu_def\<close>)
  then show ?thesis using inv(1) by (simp add: task_exit_def core_ok_def)
qed

lemma exit_done_ok:
  assumes "core_ok invar queued s" "c < USED_CPUS" "at (cpus s c) = Exiting" "task_exit_done P c s = Some s'"
  shows "core_ok invar queued s'"
proof -
  have inv: "invar (policy s)" "core_inv (queued (policy s)) (tasks s) (live s) (cpus s)" using assms(1) by (simp_all add: core_ok_def)
  have ok: "cpu_ok (tasks s) (live s) (cpus s c)" using inv(2) assms(2) by (simp add: core_inv_def)
  obtain t where t: "curr (cpus s c) = Some t" using assms(4) by (auto simp: task_exit_done_def)
  have "0 < claim (cpus s c) t" using t assms(3) by (simp add: claim_def)
  note ct = claimed_task [OF inv(2) assms(2) this]
  have other: "curr (cpus s d) \<noteq> Some t" if "d < USED_CPUS" "d \<noteq> c" for d using inv(2) t assms(2) that by (auto simp: core_inv_def)
  note qq = finish_queued [OF inv(1) assms(2), of t]
  let ?k = "(cpus s c)\<lparr>curr := None, at := Enter\<rparr>"
  have "core_inv (queued (policy s)) (tasks s) (live s - {t}) ((cpus s)(c := ?k))"
  proof (rule core_inv_update [OF inv(2) assms(2)])
    show "cpu_ok (tasks s) (live s - {t}) ?k" using ok assms(3) by (auto simp: cpu_ok_def)
    show "count (queued (policy s)) u + claim ?k u + asleep (tasks s) (live s - {t}) u + (if u \<in> live s then 1 else 0) =
        count (queued (policy s)) u + claim (cpus s c) u + asleep (tasks s) (live s) u + (if u \<in> live s - {t} then 1 else 0)" for u
      using ct t assms(3) by (auto simp: claim_def asleep_def)
  qed (use inv(2) t other assms(3) in \<open>auto simp: core_inv_def tasks_ok_def on_cpu_def\<close>)
  moreover have "\<not> skip_free (tasks s t)" using inv(2) ct(1) by (simp add: core_inv_def tasks_ok_def)
  ultimately show ?thesis using assms(4) t qq by (auto simp: task_exit_done_def task_free_def core_ok_def Let_def)
qed

text \<open>The assertions of \<^verbatim>\<open>fast_schedule\<close> hold: the generation is odd, and the picked task is runnable, whatever the softirqs do.\<close>

lemma fast_pick_ok:
  assumes "core_ok invar queued s" "c < USED_CPUS" "at (cpus s c) = Fast"
  shows "\<exists>s'. fast_schedule_pick P c s = Some s' \<and> core_ok invar queued s'"
proof (cases "sched_pick_next P (policy s) c")
  case (Pair r q)
  have inv: "invar (policy s)" "core_inv (queued (policy s)) (tasks s) (live s) (cpus s)" using assms(1) by (simp_all add: core_ok_def)
  have ok: "cpu_ok (tasks s) (live s) (cpus s c)" using inv(2) assms(2) by (simp add: core_inv_def)
  then obtain t where t: "curr (cpus s c) = Some t" using assms(3) by (auto simp: cpu_ok_def)
  show ?thesis
  proof (cases r)
    case None
    note qq = pick_none [OF inv(1) assms(2), of q]
    let ?T = "(tasks s)(t := (tasks s t)\<lparr>saved := True\<rparr>)" and ?k = "(cpus s c)\<lparr>at := Enter\<rparr>"
    have "core_inv (queued (policy s)) ?T (live s) ((cpus s)(c := ?k))"
    proof (rule core_inv_update [OF inv(2) assms(2)])
      show "cpu_ok ?T (live s) ?k" using ok t assms(3) by (auto simp: cpu_ok_def leaving_def)
    qed (use inv(2) t assms(3) in \<open>auto simp: claim_def asleep_def core_inv_def tasks_ok_def on_cpu_def\<close>)
    then show ?thesis using t Pair None qq by (simp add: fast_schedule_pick_def core_ok_def)
  next
    case (Some n)
    note qq = pick_some [OF inv(1) assms(2), of n q]
    let ?g = "rcu_gen (cpus s c) + 2"
    let ?k = "(cpus s c)\<lparr>rcu_gen := ?g, at := FastIrq n\<rparr>"
    have g: "?g AND 1 = 1" using ok assms(3) by (simp add: cpu_ok_def parity_plus_two)
    have "core_inv (queued q) (tasks s) (live s) ((cpus s)(c := ?k))"
    proof (rule core_inv_update [OF inv(2) assms(2)])
      show "cpu_ok (tasks s) (live s) ?k" using ok t g assms(3) by (auto simp: cpu_ok_def leaving_def)
    qed (use inv(2) qq Pair Some t assms(3) in \<open>auto simp: claim_def asleep_def core_inv_def tasks_ok_def on_cpu_def\<close>)
    then show ?thesis using t Pair Some qq g by (auto simp: fast_schedule_pick_def core_ok_def Let_def)
  qed
qed

lemma fast_check_ok:
  assumes "core_ok invar queued s" "c < USED_CPUS" "at (cpus s c) = FastIrq n"
  shows "\<exists>s'. fast_schedule_check c n s = Some s' \<and> core_ok invar queued s'"
proof -
  have inv: "invar (policy s)" "core_inv (queued (policy s)) (tasks s) (live s) (cpus s)" using assms(1) by (simp_all add: core_ok_def)
  have ok: "cpu_ok (tasks s) (live s) (cpus s c)" using inv(2) assms(2) by (simp add: core_inv_def)
  then obtain t where t: "curr (cpus s c) = Some t" using assms(3) by (auto simp: cpu_ok_def)
  note ct = claimed_task [OF inv(2) assms(2) irq_claim [OF assms(3)]]
  show ?thesis
  proof (cases "n = t")
    case True
    let ?T = "(tasks s)(t := (tasks s t)\<lparr>stack_busy := False\<rparr>)" and ?k = "(cpus s c)\<lparr>at := Run\<rparr>"
    have other: "curr (cpus s d) \<noteq> Some t" if "d < USED_CPUS" "d \<noteq> c" for d using inv(2) t assms(2) that by (auto simp: core_inv_def)
    have "core_inv (queued (policy s)) ?T (live s) ((cpus s)(c := ?k))"
    proof (rule core_inv_update [OF inv(2) assms(2)])
      show "cpu_ok ?T (live s) ?k" using ok t assms(3) by (auto simp: cpu_ok_def leaving_def)
    qed (use inv(2) True t assms(3) other in \<open>auto simp: claim_def asleep_def core_inv_def tasks_ok_def on_cpu_def\<close>)
    then show ?thesis using t True ct(2) inv(1) by (auto simp: fast_schedule_check_def core_ok_def)
  next
    case False
    let ?k = "(cpus s c)\<lparr>at := FastWait n\<rparr>"
    have "core_inv (queued (policy s)) (tasks s) (live s) ((cpus s)(c := ?k))"
    proof (rule core_inv_update [OF inv(2) assms(2)])
      show "cpu_ok (tasks s) (live s) ?k" using ok t assms(3) by (auto simp: cpu_ok_def leaving_def)
    qed (use inv(2) t assms(3) in \<open>auto simp: claim_def asleep_def core_inv_def tasks_ok_def on_cpu_def\<close>)
    then show ?thesis using t False ct(2) inv(1) by (auto simp: fast_schedule_check_def core_ok_def)
  qed
qed

lemma fast_switch_ok:
  assumes "core_ok invar queued s" "c < USED_CPUS" "at (cpus s c) = FastWait n" "\<not> stack_busy (tasks s n)" "fast_schedule_switch c n s = Some s'"
  shows "core_ok invar queued s'"
proof -
  have inv: "invar (policy s)" "core_inv (queued (policy s)) (tasks s) (live s) (cpus s)" using assms(1) by (simp_all add: core_ok_def)
  have ok: "cpu_ok (tasks s) (live s) (cpus s c)" using inv(2) assms(2) by (simp add: core_inv_def)
  obtain t where t: "curr (cpus s c) = Some t" using assms(5) by (auto simp: fast_schedule_switch_def)
  have w: "at (cpus s c) = FastWait n \<or> at (cpus s c) = LoopWait n" using assms(3) by simp
  note fr = picked_stack_free [OF inv(2) assms(2) w assms(4)]
  have nt: "n \<noteq> t" using fr [OF assms(2)] t by auto
  have n: "n \<in> live s" by (rule picked_saved(2) [OF inv(2) assms(2) w assms(4)])
  have other: "curr (cpus s d) \<noteq> Some t" if "d < USED_CPUS" "d \<noteq> c" for d using inv(2) t assms(2) that by (auto simp: core_inv_def)
  let ?T = "(tasks s)(t := (tasks s t)\<lparr>saved := True, stack_busy := False\<rparr>, n := (tasks s n)\<lparr>init := False, saved := False\<rparr>)"
  let ?k = "(cpus s c)\<lparr>curr := Some n, at := Run\<rparr>"
  have "core_inv (queued (policy s)) ?T (live s) ((cpus s)(c := ?k))"
  proof (rule core_inv_update [OF inv(2) assms(2)])
    show "cpu_ok ?T (live s) ?k" using ok n assms(3) by (auto simp: cpu_ok_def leaving_def)
    show "count (queued (policy s)) u + claim ?k u + asleep ?T (live s) u + (if u \<in> live s then 1 else 0) =
        count (queued (policy s)) u + claim (cpus s c) u + asleep (tasks s) (live s) u + (if u \<in> live s then 1 else 0)" for u
      using assms(3) by (auto simp: claim_def asleep_def)
  qed (use inv(2) t nt fr other assms(3) in \<open>auto simp: core_inv_def tasks_ok_def on_cpu_def\<close>)
  moreover have "s' = s\<lparr>tasks := ?T, cpus := (cpus s)(c := ?k)\<rparr>"
    using assms(5) t nt by (auto simp: fast_schedule_switch_def Let_def fun_upd_twist)
  ultimately show ?thesis using inv(1) by (simp add: core_ok_def)
qed

lemma enter_ok:
  assumes "core_ok invar queued s" "c < USED_CPUS" "at (cpus s c) = Enter"
  shows "\<exists>s'. schedule_enter c s = Some s' \<and> core_ok invar queued s'"
proof -
  have inv: "invar (policy s)" "core_inv (queued (policy s)) (tasks s) (live s) (cpus s)" using assms(1) by (simp_all add: core_ok_def)
  have ok: "cpu_ok (tasks s) (live s) (cpus s c)" using inv(2) assms(2) by (simp add: core_inv_def)
  let ?T = "case curr (cpus s c) of Some t \<Rightarrow> (tasks s)(t := (tasks s t)\<lparr>stack_busy := False\<rparr>) | None \<Rightarrow> tasks s"
  let ?g = "rcu_gen (cpus s c) + 1"
  let ?k = "(cpus s c)\<lparr>curr := None, rcu_gen := ?g, at := Loop\<rparr>"
  have g: "?g AND 1 = 0" using ok assms(3) by (simp add: cpu_ok_def parity_plus_one)
  have other: "curr (cpus s d) \<noteq> Some t" if "d < USED_CPUS" "d \<noteq> c" "curr (cpus s c) = Some t" for d t
    using inv(2) assms(2) that by (auto simp: core_inv_def)
  have "core_inv (queued (policy s)) ?T (live s) ((cpus s)(c := ?k))"
  proof (rule core_inv_update [OF inv(2) assms(2)])
    show "cpu_ok ?T (live s) ?k" using ok g assms(3) by (auto simp: cpu_ok_def leaving_def)
  qed (use inv(2) other assms(3) in \<open>auto simp: claim_def asleep_def core_inv_def tasks_ok_def on_cpu_def split: option.splits\<close>)
  moreover have "schedule_enter c s = Some (s\<lparr>tasks := ?T, cpus := (cpus s)(c := ?k)\<rparr>)"
    using g by (cases "cpus s c") (auto simp: schedule_enter_def Let_def split: option.splits)
  ultimately show ?thesis using inv(1) by (simp add: core_ok_def)
qed

lemma found_ok:
  assumes "invar q" "c < USED_CPUS" "at (cpus s c) = Loop" "core_inv Q T L (cpus s)" "policy s = q" "tasks s = T" "live s = L"
    "Q = add_mset n (queued q)"
  shows "\<exists>s'. schedule_found c n s = Some s' \<and> core_ok invar queued s'"
proof -
  have ok: "cpu_ok T L (cpus s c)" using assms(2,4) by (simp add: core_inv_def)
  let ?g = "rcu_gen (cpus s c) + 1"
  let ?k = "(cpus s c)\<lparr>rcu_gen := ?g, at := LoopWait n\<rparr>"
  have g: "?g AND 1 = 1" using ok assms(3) by (simp add: cpu_ok_def parity_plus_one)
  have "core_inv (queued q) T L ((cpus s)(c := ?k))"
  proof (rule core_inv_update [OF assms(4,2)])
    show "cpu_ok T L ?k" using ok g assms(3) by (auto simp: cpu_ok_def leaving_def)
  qed (use assms in \<open>auto simp: claim_def asleep_def core_inv_def tasks_ok_def on_cpu_def\<close>)
  then show ?thesis using g assms by (simp add: schedule_found_def core_ok_def Let_def)
qed

lemma pick_ok:
  assumes "core_ok invar queued s" "c < USED_CPUS" "at (cpus s c) = Loop"
  shows "\<exists>s'. schedule_pick P c s = Some s' \<and> core_ok invar queued s'"
proof (cases "sched_pick_next P (policy s) c")
  case (Pair r q)
  have inv: "invar (policy s)" "core_inv (queued (policy s)) (tasks s) (live s) (cpus s)" using assms(1) by (simp_all add: core_ok_def)
  show ?thesis
  proof (cases r)
    case None
    then show ?thesis using Pair pick_none [OF inv(1) assms(2), of q] inv by (simp add: schedule_pick_def core_ok_def)
  next
    case (Some n)
    then have q: "invar q" "queued (policy s) = add_mset n (queued q)" using Pair pick_some [OF inv(1) assms(2), of n q] by simp_all
    have "\<exists>s'. schedule_found c n (s\<lparr>policy := q\<rparr>) = Some s' \<and> core_ok invar queued s'"
      by (rule found_ok [OF q(1) assms(2)]) (use assms(3) inv(2) q in auto)
    then show ?thesis using Pair Some by (simp add: schedule_pick_def)
  qed
qed

lemma new_tasks_inv:
  assumes "core_inv Q T L C" "c < USED_CPUS" "finite X" "X \<inter> L = {}"
    "\<And>t. t \<in> X \<Longrightarrow> state (T' t) = TASK_RUNNABLE \<and> \<not> stack_busy (T' t) \<and> \<not> skip_free (T' t) \<and> saved (T' t)" "\<And>t. t \<notin> X \<Longrightarrow> T' t = T t"
  shows "core_inv (Q + mset_set X) T' (L \<union> X) C"
proof -
  have ok: "cpu_ok T L (C d)" if "d < USED_CPUS" for d using assms(1) that by (simp add: core_inv_def)
  have cu: "t \<notin> X" if "d < USED_CPUS" "curr (C d) = Some t" for d t using ok [OF that(1)] that(2) assms(4) by (auto simp: cpu_ok_def)
  have "core_inv (Q + mset_set X) T' (L \<union> X) (C(c := C c))"
  proof (rule core_inv_update [OF assms(1,2)])
    show "cpu_ok T' (L \<union> X) (C c)" using ok [OF assms(2)] cu [OF assms(2)] assms(6) by (auto simp: cpu_ok_def)
    show "count (Q + mset_set X) u + claim (C c) u + asleep T' (L \<union> X) u + (if u \<in> L then 1 else 0) =
        count Q u + claim (C c) u + asleep T L u + (if u \<in> L \<union> X then 1 else 0)" for u
      using assms(3-6) by (cases "u \<in> X") (auto simp: asleep_def count_mset_set)
    show "u \<in> L \<union> X \<and> (leaving (at (C d)) \<longrightarrow> stack_busy (T u) \<longrightarrow> stack_busy (T' u))"
      if "d < USED_CPUS" "curr (C d) = Some u" "u \<in> L" for d u using cu [OF that(1,2)] assms(6) that(3) by simp
    show "state (T' u) \<noteq> TASK_IDLE \<and> \<not> skip_free (T' u)" if "u \<in> L \<union> X" for u
      using assms(1,5,6) that by (cases "u \<in> X") (auto simp: core_inv_def tasks_ok_def)
    show "saved (T' u) \<or> (u \<in> L \<and> \<not> on_cpu (C c) u \<and> saved (T' u) = saved (T u)) \<or> (\<exists>d < USED_CPUS. d \<noteq> c \<and> on_cpu (C d) u)"
      if "u \<in> L \<union> X" "\<not> on_cpu (C c) u" for u using assms(5,6) that by (cases "u \<in> X") auto
  qed simp_all
  then show ?thesis by simp
qed

lemma softirq_ok:
  assumes "core_ok invar queued s" "c < USED_CPUS" "at (cpus s c) = Loop" "t \<notin> live s"
  shows "\<exists>s'. schedule_found c t (task_create P t s) = Some s' \<and> core_ok invar queued s'"
proof -
  have inv: "invar (policy s)" "core_inv (queued (policy s)) (tasks s) (live s) (cpus s)" using assms(1) by (simp_all add: core_ok_def)
  have "core_inv (queued (policy s) + mset_set {t}) (tasks (task_create P t s)) (live s \<union> {t}) (cpus s)"
    by (rule new_tasks_inv [OF inv(2) assms(2)]) (use assms(4) in \<open>auto simp: task_create_def\<close>)
  then show ?thesis by (intro found_ok [OF inv(1) assms(2)]) (use assms(3) in \<open>auto simp: task_create_def\<close>)
qed

lemma balance_ok:
  assumes "core_ok invar queued s" "c < USED_CPUS" "sched_balance P (policy s) c (mset_set X) q" "finite X" "X \<inter> live s = {}"
  shows "core_ok invar queued (s\<lparr>policy := q, live := live s \<union> X, tasks := (\<lambda>t. if t \<in> X then tasks (task_create P t s) t else tasks s t)\<rparr>)"
proof -
  have inv: "invar (policy s)" "core_inv (queued (policy s)) (tasks s) (live s) (cpus s)" using assms(1) by (simp_all add: core_ok_def)
  have "core_inv (queued (policy s) + mset_set X) (\<lambda>t. if t \<in> X then tasks (task_create P t s) t else tasks s t) (live s \<union> X) (cpus s)"
    by (rule new_tasks_inv [OF inv(2) assms(2,4,5)]) (simp_all add: task_create_def)
  then show ?thesis using balance_queued [OF inv(1) assms(2,3)] by (simp add: core_ok_def)
qed

lemma switch_ok:
  assumes "core_ok invar queued s" "c < USED_CPUS" "at (cpus s c) = LoopWait n" "\<not> stack_busy (tasks s n)"
  shows "core_ok invar queued (schedule_switch c n s)"
proof -
  have inv: "invar (policy s)" "core_inv (queued (policy s)) (tasks s) (live s) (cpus s)" using assms(1) by (simp_all add: core_ok_def)
  have ok: "cpu_ok (tasks s) (live s) (cpus s c)" using inv(2) assms(2) by (simp add: core_inv_def)
  have w: "at (cpus s c) = FastWait n \<or> at (cpus s c) = LoopWait n" using assms(3) by simp
  note fr = picked_stack_free [OF inv(2) assms(2) w assms(4)]
  have n: "n \<in> live s" by (rule picked_saved(2) [OF inv(2) assms(2) w assms(4)])
  let ?T = "(tasks s)(n := (tasks s n)\<lparr>init := False, saved := False\<rparr>)" and ?k = "(cpus s c)\<lparr>curr := Some n, at := Run\<rparr>"
  have "core_inv (queued (policy s)) ?T (live s) ((cpus s)(c := ?k))"
  proof (rule core_inv_update [OF inv(2) assms(2)])
    show "cpu_ok ?T (live s) ?k" using ok n assms(3) by (auto simp: cpu_ok_def leaving_def)
  qed (use inv(2) fr ok assms(3) in \<open>auto simp: claim_def asleep_def core_inv_def tasks_ok_def on_cpu_def cpu_ok_def\<close>)
  then show ?thesis using inv(1) by (simp add: schedule_switch_def core_ok_def)
qed

lemma nest_ok:
  assumes "core_ok invar queued s" "c < USED_CPUS" "at (cpus s c) = Run"
  shows "core_ok invar queued (upd_cpu c (\<lambda>k. k\<lparr>rcu_nest := m\<rparr>) s)"
proof -
  have inv: "invar (policy s)" "core_inv (queued (policy s)) (tasks s) (live s) (cpus s)" using assms(1) by (simp_all add: core_ok_def)
  have ok: "cpu_ok (tasks s) (live s) (cpus s c)" using inv(2) assms(2) by (simp add: core_inv_def)
  let ?k = "(cpus s c)\<lparr>rcu_nest := m\<rparr>"
  have "core_inv (queued (policy s)) (tasks s) (live s) ((cpus s)(c := ?k))"
  proof (rule core_inv_update [OF inv(2) assms(2)])
    show "cpu_ok (tasks s) (live s) ?k" using ok assms(3) by (auto simp: cpu_ok_def)
  qed (use inv(2) in \<open>auto simp: claim_def core_inv_def tasks_ok_def on_cpu_def\<close>)
  then show ?thesis using inv(1) by (simp add: core_ok_def)
qed

lemma core_step_ok: "core_step P c s s' \<Longrightarrow> c < USED_CPUS \<Longrightarrow> core_ok invar queued s \<Longrightarrow> core_ok invar queued s'"
proof (induction rule: core_step.induct)
  case (fast s s')
  then show ?case using fast_pick_ok [of s c] by auto
next
  case (check s t s')
  then show ?case using fast_check_ok [of s c t] by auto
next
  case (enter s s')
  then show ?case using enter_ok [of s c] by auto
next
  case (pick s s')
  then show ?case using pick_ok [of s c] by auto
next
  case (softirq s t s')
  then show ?case using softirq_ok [of s c t] by auto
next
  case (balance s X q s')
  then show ?case using balance_ok [of s c X q] by simp
next
  case (lock s)
  then show ?case using nest_ok [of s c] by (simp add: rcu_read_lock_def)
next
  case (unlock s)
  then show ?case using nest_ok [of s c] by (simp add: rcu_read_unlock_def)
qed (blast intro: spawn_ok yield_begin_ok yield_put_ok block_begin_ok block_done_ok wakeup_ok exit_ok exit_done_ok fast_switch_ok switch_ok)+

lemma core_reach_ok: "core_reach P s0 s \<Longrightarrow> core_ok invar queued s0 \<Longrightarrow> core_ok invar queued s"
  by (induction rule: core_reach.induct) (auto intro: core_step_ok)

lemma start_ok: "invar q \<Longrightarrow> queued q = {#} \<Longrightarrow> core_ok invar queued (start_schedule q T)"
  by (simp add: core_ok_def start_schedule_def core_inv_def one_place_def claim_def asleep_def cpu_ok_def tasks_ok_def leaving_def)

text \<open>What the scheduler promises on every policy that keeps the contract.\<close>

lemma stacks_exclusive:
  assumes "core_reach P (start_schedule q T) s" "invar q" "queued q = {#}" "c < USED_CPUS"
  shows "(d < USED_CPUS \<longrightarrow> on_cpu (cpus s c) t \<longrightarrow> on_cpu (cpus s d) t \<longrightarrow> c = d)"
    "at (cpus s c) = FastWait n \<or> at (cpus s c) = LoopWait n \<Longrightarrow> \<not> stack_busy (tasks s n) \<Longrightarrow>
       saved (tasks s n) \<and> state (tasks s n) = TASK_RUNNABLE \<and> (\<forall>d < USED_CPUS. \<not> on_cpu (cpus s d) n)"
    "at (cpus s c) = Fast \<Longrightarrow> fast_schedule_pick P c s \<noteq> None" "at (cpus s c) = FastIrq n \<Longrightarrow> fast_schedule_check c n s \<noteq> None" "at (cpus s c) = Enter \<Longrightarrow> schedule_enter c s \<noteq> None"
    "at (cpus s c) = Loop \<Longrightarrow> schedule_pick P c s \<noteq> None"
    "t \<in> live s \<Longrightarrow> state (tasks s t) = TASK_RUNNABLE \<Longrightarrow>
       t \<in># queued (policy s) \<or> (\<exists>d < USED_CPUS. at (cpus s d) \<in> {Run, Yielding, Exiting} \<and> curr (cpus s d) = Some t \<or> at (cpus s d) \<in> {FastIrq t, FastWait t, LoopWait t})"
proof -
  have ok: "core_ok invar queued s" by (rule core_reach_ok [OF assms(1) start_ok [OF assms(2,3)]])
  then have inv: "core_inv (queued (policy s)) (tasks s) (live s) (cpus s)" by (simp add: core_ok_def)
  show "d < USED_CPUS \<longrightarrow> on_cpu (cpus s c) t \<longrightarrow> on_cpu (cpus s d) t \<longrightarrow> c = d" using inv assms(4) by (auto simp: core_inv_def on_cpu_def)
  show "saved (tasks s n) \<and> state (tasks s n) = TASK_RUNNABLE \<and> (\<forall>d < USED_CPUS. \<not> on_cpu (cpus s d) n)"
    if w: "at (cpus s c) = FastWait n \<or> at (cpus s c) = LoopWait n" and b: "\<not> stack_busy (tasks s n)"
    using picked_saved(1) [OF inv assms(4) w b] claimed_task(2) [OF inv assms(4) wait_claim [OF w]]
      picked_stack_free [OF inv assms(4) w b] by (auto simp: on_cpu_def)
  show "at (cpus s c) = Fast \<Longrightarrow> fast_schedule_pick P c s \<noteq> None" using fast_pick_ok [OF ok assms(4)] by auto
  show "at (cpus s c) = FastIrq n \<Longrightarrow> fast_schedule_check c n s \<noteq> None" using fast_check_ok [OF ok assms(4)] by auto
  show "at (cpus s c) = Enter \<Longrightarrow> schedule_enter c s \<noteq> None" using enter_ok [OF ok assms(4)] by auto
  show "at (cpus s c) = Loop \<Longrightarrow> schedule_pick P c s \<noteq> None" using pick_ok [OF ok assms(4)] by auto
  show "t \<in># queued (policy s) \<or> (\<exists>d < USED_CPUS. at (cpus s d) \<in> {Run, Yielding, Exiting} \<and> curr (cpus s d) = Some t \<or> at (cpus s d) \<in> {FastIrq t, FastWait t, LoopWait t})"
    if l: "t \<in> live s" and r: "state (tasks s t) = TASK_RUNNABLE"
  proof (rule ccontr)
    assume n: "\<not> ?thesis"
    then have "claim (cpus s d) t = 0" if "d < USED_CPUS" for d using that by (auto simp: claim_def)
    then have "(\<Sum>d < USED_CPUS. claim (cpus s d) t) = 0" by simp
    moreover have "count (queued (policy s)) t = 0" using n by (simp add: count_eq_zero_iff)
    ultimately show False using core_inv_place [OF inv, of t] l r by (simp add: asleep_def)
  qed
qed

end

end
