(* ===== verification/Scheduler.thy ===== *)
theory Scheduler
  imports Sched_Core Rr
begin

text \<open>
  The scheduler on its policies: FIFO and round robin keep the contract that the scheduler relies on, so
  that what was shown of the scheduler for every such policy holds for them. RCU
  (\<^verbatim>\<open>libos/sync/rcu.c\<close>) rests on the generation counter of the scheduler.
\<close>

section \<open>The policies\<close>

definition fifo_ops :: "fifo_rqs sched_ops" where
  "fifo_ops =
     \<lparr>sched_init_task = (\<lambda>k. k),
      sched_spawn = (\<lambda>q c t cpu. Some (fifo_spawn q c (Some t) cpu)),
      sched_yield = (\<lambda>q c t. Some (fifo_yield q c t)),
      sched_wakeup = (\<lambda>q c t. Some (fifo_wakeup q c t)),
      sched_pick_next = fifo_pick,
      sched_block = (\<lambda>q c. q),
      sched_finish_task = (\<lambda>q c t. q),
      sched_balance = (\<lambda>q c X q'. \<exists>workers start softirq. workers \<le> USED_CPUS \<and> 0 < workers \<and> RQ_IS_EMPTY (q c) \<and>
        q' = fifo_balance q c workers start softirq \<and>
        X = balance_new (q(c := (q c)\<lparr>rq_head := 0, rq_tail := 0\<rparr>)) c workers start softirq 0 workers)\<rparr>"

definition rr_ops :: "rr_st sched_ops" where
  "rr_ops =
     \<lparr>sched_init_task = (\<lambda>k. k\<lparr>allow_preempt := True\<rparr>),
      sched_spawn = (\<lambda>q c t cpu. rr_spawn q (Some t) cpu),
      sched_yield = rr_yield,
      sched_wakeup = (\<lambda>q c t. rr_wakeup q t),
      sched_pick_next = rr_pick_next,
      sched_block = (\<lambda>q c. q),
      sched_finish_task = (\<lambda>q c t. q),
      sched_balance = (\<lambda>q c X q'. X = {#} \<and> q' = q)\<rparr>"

interpretation fifo_sched: sched_policy fifo_ops "fifo_inv USED_CPUS" "fifo_queued USED_CPUS"
proof unfold_locales
  fix q q' c t cpu ret X
  assume inv: "fifo_inv USED_CPUS q" and c: "c < USED_CPUS"
  have put: "fifo_inv USED_CPUS (fifo_wakeup q c t) \<and> fifo_queued USED_CPUS (fifo_wakeup q c t) = add_mset t (fifo_queued USED_CPUS q)"
    using fifo.put_queued [OF inv c] by (simp add: fifo_put_def)
  show "sched_spawn fifo_ops q c t cpu = Some (ret, q') \<Longrightarrow> fifo_inv USED_CPUS q' \<and>
      fifo_queued USED_CPUS q' = (if ret = 0 then add_mset t (fifo_queued USED_CPUS q) else fifo_queued USED_CPUS q)"
    using put inv by (auto simp: fifo_ops_def fifo_spawn_def fifo_wakeup_def split: if_splits)
  show "sched_yield fifo_ops q c t = Some q' \<Longrightarrow> fifo_inv USED_CPUS q' \<and> fifo_queued USED_CPUS q' = add_mset t (fifo_queued USED_CPUS q)"
    using put by (auto simp: fifo_ops_def fifo_yield_def fifo_wakeup_def)
  show "sched_wakeup fifo_ops q c t = Some q' \<Longrightarrow> fifo_inv USED_CPUS q' \<and> fifo_queued USED_CPUS q' = add_mset t (fifo_queued USED_CPUS q)"
    using put by (auto simp: fifo_ops_def)
  show "sched_pick_next fifo_ops q c = (Some t, q') \<Longrightarrow> fifo_inv USED_CPUS q' \<and> fifo_queued USED_CPUS q = add_mset t (fifo_queued USED_CPUS q')"
    using fifo.pick_some [OF inv c] by (simp add: fifo_ops_def)
  show "sched_pick_next fifo_ops q c = (None, q') \<Longrightarrow> fifo_inv USED_CPUS q' \<and> fifo_queued USED_CPUS q' = fifo_queued USED_CPUS q"
    using fifo.pick_none [OF inv c] by (simp add: fifo_ops_def)
  have "USED_CPUS < 2 ^ 32" by (simp add: USED_CPUS_def)
  then show "sched_balance fifo_ops q c X q' \<Longrightarrow> fifo_inv USED_CPUS q' \<and> fifo_queued USED_CPUS q' = fifo_queued USED_CPUS q + X"
    using fifo_balance_ok [OF inv c] by (auto simp: fifo_ops_def)
qed (simp_all add: fifo_ops_def)

interpretation rr_sched: sched_policy rr_ops rr_inv rr_queued
proof unfold_locales
  fix q q' c t cpu ret X
  assume inv: "rr_inv q" and c: "c < USED_CPUS"
  show "sched_spawn rr_ops q c t cpu = Some (ret, q') \<Longrightarrow> rr_inv q' \<and> rr_queued q' = (if ret = 0 then add_mset t (rr_queued q) else rr_queued q)"
    using put_on_ok [where s = "q\<lparr>quan := (quan q)(t := 0), TARGET_CPU := TARGET_CPU q + 1\<rparr>" and t = t] inv
    by (auto simp: rr_ops_def rr_spawn_def find_target_cpu_def rr_inv_def rr_queued_def Let_def split: if_splits)
  show "sched_yield rr_ops q c t = Some q' \<Longrightarrow> rr_inv q' \<and> rr_queued q' = add_mset t (rr_queued q)"
    using put_on_ok [OF inv] by (simp add: rr_ops_def rr_yield_def)
  show "sched_wakeup rr_ops q c t = Some q' \<Longrightarrow> rr_inv q' \<and> rr_queued q' = add_mset t (rr_queued q)"
    using put_on_ok [OF inv] by (simp add: rr_ops_def rr_wakeup_def find_target_cpu_def)
  show "sched_pick_next rr_ops q c = (Some t, q') \<Longrightarrow> rr_inv q' \<and> rr_queued q = add_mset t (rr_queued q')"
    using rr_pick_ok [OF inv c] by (fastforce simp: rr_ops_def)
  show "sched_pick_next rr_ops q c = (None, q') \<Longrightarrow> rr_inv q' \<and> rr_queued q' = rr_queued q"
    using rr_pick_ok [OF inv c] by (fastforce simp: rr_ops_def)
qed (auto simp: rr_ops_def)

lemma fifo_start: "fifo_inv USED_CPUS (\<lambda>_. fifo_init_percpu rq)" "fifo_queued USED_CPUS (\<lambda>_. fifo_init_percpu rq) = {#}"
  by (simp_all add: fifo_inv_def fifo_init_percpu_def fifo_rq_inv_def fifo_queued_def rq_mset_def rq_ring_def)

section \<open>Read-copy-update\<close>

text \<open>The objects that wait to be freed, the latest one first, and whether the worker was started.\<close>

record 'a rcu =
  rcu_head :: "'a list"
  rcu_worker_launched :: bool

text \<open>\<^verbatim>\<open>rcu_free\<close>; the first result tells whether to spawn the worker.\<close>

definition rcu_free :: "'a \<Rightarrow> 'a rcu \<Rightarrow> bool \<times> 'a rcu" where
  "rcu_free h r = (\<not> rcu_worker_launched r, r\<lparr>rcu_worker_launched := True, rcu_head := h # rcu_head r\<rparr>)"

text \<open>The worker takes the whole list.\<close>

definition rcu_take :: "'a rcu \<Rightarrow> 'a list \<times> 'a rcu" where
  "rcu_take r = (rcu_head r, r\<lparr>rcu_head := []\<rparr>)"

text \<open>The loop over the CPUs that reads the generations again: it stops at the first CPU that is still in the
  task it was in when \<open>old\<close> was read.\<close>

fun rcu_scan :: "(nat \<Rightarrow> u32) \<Rightarrow> (nat \<Rightarrow> u32) \<Rightarrow> nat \<Rightarrow> nat \<Rightarrow> nat" where
  "rcu_scan old gen i 0 = i"
| "rcu_scan old gen i (Suc n) = (if gen i AND 1 = 1 \<and> gen i = old i then i else rcu_scan old gen (i + 1) n)"

definition rcu_quiescent :: "(nat \<Rightarrow> u32) \<Rightarrow> (nat \<Rightarrow> u32) \<Rightarrow> bool" where
  "rcu_quiescent old gen \<longleftrightarrow> rcu_scan old gen 0 USED_CPUS = USED_CPUS"

lemma rcu_scan_le: "rcu_scan old gen i n \<le> i + n"
  by (induction old gen i n rule: rcu_scan.induct) auto

lemma rcu_scan_all: "rcu_scan old gen i n = i + n \<longleftrightarrow> (\<forall>c. i \<le> c \<longrightarrow> c < i + n \<longrightarrow> \<not> (gen c AND 1 = 1 \<and> gen c = old c))"
proof (induction old gen i n rule: rcu_scan.induct)
  case (2 old gen i n)
  have "(\<forall>c. i \<le> c \<longrightarrow> c < i + Suc n \<longrightarrow> Q c) \<longleftrightarrow> Q i \<and> (\<forall>c. i + 1 \<le> c \<longrightarrow> c < i + 1 + n \<longrightarrow> Q c)" for Q :: "nat \<Rightarrow> bool"
    by (metis Suc_eq_plus1 Suc_leD Suc_leI add_Suc_shift le_add1 le_eq_less_or_eq less_Suc_eq_le linorder_not_less not_less_eq_eq add_Suc_right)
  with 2 show ?case by auto
qed auto

text \<open>CPU \<open>c\<close> is in a read-side critical section all the way from one state to another.\<close>

inductive reads_through :: "'q sched_ops \<Rightarrow> nat \<Rightarrow> 'q core \<Rightarrow> 'q core \<Rightarrow> bool" for P c s0 where
  start: "rcu_nest (cpus s0 c) > 0 \<Longrightarrow> reads_through P c s0 s0"
| step: "reads_through P c s0 s \<Longrightarrow> d < USED_CPUS \<Longrightarrow> core_step P d s s' \<Longrightarrow> rcu_nest (cpus s' c) > 0 \<Longrightarrow> reads_through P c s0 s'"

lemma core_step_other: "core_step P d s s' \<Longrightarrow> c \<noteq> d \<Longrightarrow> cpus s' c = cpus s c"
  by (induction rule: core_step.induct)
    (auto simp: task_spawn_def task_create_def task_free_def task_yield_begin_def task_yield_put_def task_block_begin_def
      task_block_done_def task_wakeup_def task_exit_def task_exit_done_def fast_schedule_pick_def fast_schedule_check_def fast_schedule_switch_def
      schedule_enter_def schedule_found_def schedule_pick_def schedule_switch_def rcu_read_lock_def rcu_read_unlock_def
      Let_def split: option.splits prod.splits if_splits)

lemma core_step_reading: "core_step P c s s' \<Longrightarrow> at (cpus s c) = Run \<Longrightarrow> rcu_nest (cpus s c) > 0 \<Longrightarrow> rcu_gen (cpus s' c) = rcu_gen (cpus s c)"
  by (induction rule: core_step.induct)
    (auto simp: task_spawn_def task_create_def task_free_def task_wakeup_def rcu_read_lock_def rcu_read_unlock_def
      Let_def split: option.splits prod.splits if_splits)

lemma reads_nest: "reads_through P c s0 s \<Longrightarrow> rcu_nest (cpus s0 c) > 0 \<and> rcu_nest (cpus s c) > 0"
  by (induction rule: reads_through.induct) auto

lemma reads_reach: "reads_through P c s0 s \<Longrightarrow> core_reach P s0 s"
  by (induction rule: reads_through.induct) (auto intro: core_reach.intros)

context sched_policy
begin

lemma reads_gen:
  assumes "reads_through P c s0 s" "c < USED_CPUS" "core_ok invar queued s0"
  shows "core_ok invar queued s \<and> at (cpus s c) = Run \<and> rcu_gen (cpus s c) AND 1 = 1 \<and> rcu_gen (cpus s c) = rcu_gen (cpus s0 c)"
  using assms
proof (induction rule: reads_through.induct)
  case start
  then have "cpu_ok (tasks s0) (live s0) (cpus s0 c)" by (simp add: core_ok_def core_inv_def)
  with start show ?case by (auto simp: cpu_ok_def)
next
  case (step s d s')
  then have IH: "core_ok invar queued s" "at (cpus s c) = Run" "rcu_gen (cpus s c) AND 1 = 1" "rcu_gen (cpus s c) = rcu_gen (cpus s0 c)"
    by blast+
  have ok: "core_ok invar queued s'" by (rule core_step_ok [OF step.hyps(3,2) IH(1)])
  then have "cpu_ok (tasks s') (live s') (cpus s' c)" using step.prems(1) by (simp add: core_ok_def core_inv_def)
  then have run: "at (cpus s' c) = Run" using step.hyps(4) by (auto simp: cpu_ok_def)
  have "rcu_gen (cpus s' c) = rcu_gen (cpus s c)"
  proof (cases "c = d")
    case True
    with core_step_reading [of P c s s'] step.hyps(3) IH(2) reads_nest [OF step.hyps(1)] show ?thesis by simp
  next
    case False
    with core_step_other [OF step.hyps(3)] show ?thesis by simp
  qed
  with ok run IH show ?case by simp
qed

lemma grace_period:
  assumes "core_ok invar queued s0" "core_reach P s0 s1" "reads_through P c s1 s2" "c < USED_CPUS"
    "rcu_quiescent old gen" "old c = rcu_gen (cpus s1 c)" "gen c = rcu_gen (cpus s2 c)"
  shows False
proof -
  have "core_ok invar queued s1" by (rule core_reach_ok [OF assms(2,1)])
  then have "gen c AND 1 = 1 \<and> gen c = old c" using reads_gen [OF assms(3,4)] assms(6,7) by metis
  with assms(4,5) show False by (auto simp: rcu_quiescent_def rcu_scan_all [where i = 0, simplified])
qed

end

section \<open>The scheduler with FIFO\<close>


definition fifo_demo :: "fifo_rqs core" where
  "fifo_demo = start_schedule (\<lambda>_. fifo_init_percpu \<lparr>rq_head = 0, rq_tail = 0, overflow = [], rq_locked = False, rq_tasks = (\<lambda>_. 0)\<rparr>)
     (\<lambda>_. \<lparr>state = TASK_IDLE, stack_busy = False, allow_preempt = False, skip_free = False, init = False, saved = False\<rparr>)"

lemmas core_run = fifo_demo_def start_schedule_def schedule_enter_def task_spawn_def task_create_def task_free_def schedule_pick_def
  schedule_found_def schedule_switch_def task_yield_begin_def task_yield_put_def fast_schedule_pick_def rcu_read_lock_def
  fifo_ops_def fifo_init_percpu_def fifo_spawn_def fifo_yield_def fifo_put_task_def fifo_pick_def fifo_pick_next_def RQ_IS_EMPTY_def RQ_HEAD_def
  RUNTIME_RQ_SIZE_def RQ_SIZE_MASK_def USED_CPUS_def Let_def

text \<open>CPU 0 spawns task 7, runs it and is in \<^verbatim>\<open>task_yield\<close> after putting it back.\<close>

definition fifo_demo_yield :: "fifo_rqs core" where
  "fifo_demo_yield =
     (let s = the (schedule_enter 0 fifo_demo);
          s = snd (the (task_spawn fifo_ops 0 7 0 s));
          s = schedule_switch 0 7 (the (schedule_pick fifo_ops 0 s))
      in the (task_yield_put fifo_ops 0 (the (task_yield_begin 0 s))))"

lemma fifo_demo_reach: "core_reach fifo_ops fifo_demo fifo_demo_yield"
proof -
  let ?s1 = "the (schedule_enter 0 fifo_demo)"
  let ?s2 = "snd (the (task_spawn fifo_ops 0 7 0 ?s1))"
  let ?s3 = "the (schedule_pick fifo_ops 0 ?s2)"
  let ?s4 = "schedule_switch 0 7 ?s3"
  let ?s5 = "the (task_yield_begin 0 ?s4)"
  let ?s6 = "the (task_yield_put fifo_ops 0 ?s5)"
  have c: "0 < USED_CPUS" by (simp add: USED_CPUS_def)
  have 1: "core_reach fifo_ops fifo_demo ?s1"
    by (rule core_reach.step [OF core_reach.start c], rule core_step.enter) (simp_all add: core_run)
  have 2: "core_reach fifo_ops fifo_demo ?s2"
    by (rule core_reach.step [OF 1 c], rule core_step.spawn [where t = 7 and cpu_id = 0 and ret = 0]) (simp_all add: core_run)
  have 3: "core_reach fifo_ops fifo_demo ?s3"
    by (rule core_reach.step [OF 2 c], rule core_step.pick) (simp_all add: core_run)
  have 4: "core_reach fifo_ops fifo_demo ?s4"
    by (rule core_reach.step [OF 3 c], rule core_step.switch) (simp_all add: core_run)
  have 5: "core_reach fifo_ops fifo_demo ?s5"
    by (rule core_reach.step [OF 4 c], rule core_step.yield) (simp_all add: core_run)
  have "core_reach fifo_ops fifo_demo ?s6"
    by (rule core_reach.step [OF 5 c], rule core_step.put) (simp_all add: core_run)
  then show ?thesis by (simp add: fifo_demo_yield_def Let_def)
qed


lemma scheduler_stacks_exclusive_rr:
  assumes "core_reach rr_ops (start_schedule rr_boot T) s" "c < USED_CPUS" "d < USED_CPUS"
    "on_cpu (cpus s c) t" "on_cpu (cpus s d) t"
  shows "c = d"
  using rr_sched.stacks_exclusive(1) [OF assms(1) rr_boot_ok assms(2)] assms(3-5) by blast

text \<open>C14: The worker of RCU frees objects only after a grace period. It takes the list in some state \<open>s0\<close>,
  reads the generation of every CPU \<open>c\<close> later, in \<open>s1 c\<close>, and again in \<open>s2 c\<close>. When its scan succeeds, no CPU was in
  one read-side critical section from the first reading to the second: every reader that could have
  seen the objects has left, also when the 32-bit generations wrap around.\<close>

theorem rcu_grace_period:
  assumes "core_reach fifo_ops (start_schedule (\<lambda>_. fifo_init_percpu rq) T) s0"
    "\<And>c. c < USED_CPUS \<Longrightarrow> core_reach fifo_ops s0 (s1 c)"
    "rcu_quiescent (\<lambda>c. rcu_gen (cpus (s1 c) c)) (\<lambda>c. rcu_gen (cpus (s2 c) c))"
    "c < USED_CPUS"
  shows "\<not> reads_through fifo_ops c (s1 c) (s2 c)"
proof
  assume r: "reads_through fifo_ops c (s1 c) (s2 c)"
  have "core_ok (fifo_inv USED_CPUS) (fifo_queued USED_CPUS) s0"
    by (rule fifo_sched.core_reach_ok [OF assms(1) fifo_sched.start_ok [OF fifo_start]])
  from fifo_sched.grace_period [OF this assms(2) [OF assms(4)] r assms(4) assms(3) refl refl] show False .
qed

text \<open>Every CPU enters its loop between the two readings.\<close>

theorem rcu_grace_period_witness:
  "rcu_quiescent (\<lambda>c. rcu_gen (cpus fifo_demo c)) (\<lambda>c. rcu_gen (cpus (the (schedule_enter c fifo_demo)) c)) \<and>
   \<not> reads_through fifo_ops 0 fifo_demo (the (schedule_enter 0 fifo_demo))"
proof -
  have q: "rcu_quiescent (\<lambda>c. rcu_gen (cpus fifo_demo c)) (\<lambda>c. rcu_gen (cpus (the (schedule_enter c fifo_demo)) c))"
    by (simp add: rcu_quiescent_def rcu_scan_all [where i = 0, simplified] core_run)
  moreover have "\<not> reads_through fifo_ops 0 ((\<lambda>_. fifo_demo) (0::nat)) ((\<lambda>c. the (schedule_enter c fifo_demo)) 0)"
    by (rule rcu_grace_period [where ?s0.0 = fifo_demo, OF _ _ q])
      (auto simp: fifo_demo_def USED_CPUS_def intro: core_reach.start)
  ultimately show ?thesis by simp
qed

end
