(* ===== verification/List_Heap.thy ===== *)
theory List_Heap
  imports Prelude
begin

text \<open>
  The intrusive linked lists of \<^verbatim>\<open>utils/list.h\<close> and the checker of \<^verbatim>\<open>utils/list.c\<close>, on a memory of
  nodes: the circular doubly linked list, the singly linked list, and the list with a single head pointer whose nodes
  point back to the pointer that points to them. A node is the address of its \<^verbatim>\<open>struct list_node\<close>; 0 is
  \<^verbatim>\<open>NULL\<close>.
\<close>

section \<open>Linked paths\<close>

text \<open>The nodes of a path are linked in both directions.\<close>

fun links :: "('a \<Rightarrow> 'a) \<Rightarrow> ('a \<Rightarrow> 'a) \<Rightarrow> 'a list \<Rightarrow> bool" where
  "links nx pv (x # y # xs) \<longleftrightarrow> nx x = y \<and> pv y = x \<and> links nx pv (y # xs)"
| "links nx pv _ \<longleftrightarrow> True"

lemma links_append: "links nx pv (xs @ x # ys) \<longleftrightarrow> links nx pv (xs @ [x]) \<and> links nx pv (x # ys)"
  by (induction xs rule: induct_list012) auto

lemma links_snoc: "links nx pv (xs @ [x, y]) \<longleftrightarrow> links nx pv (xs @ [x]) \<and> nx x = y \<and> pv y = x"
  using links_append [of nx pv xs x "[y]"] by simp

lemma links_at: "links nx pv (us @ a # b # vs) \<Longrightarrow> nx a = b" "links nx pv (us @ a # b # vs) \<Longrightarrow> pv b = a"
  using links_append [of nx pv us a "b # vs"] by simp_all

lemma links_cong:
  "(\<And>x. x \<in> set (butlast xs) \<Longrightarrow> nx' x = nx x) \<Longrightarrow> (\<And>x. x \<in> set (tl xs) \<Longrightarrow> pv' x = pv x) \<Longrightarrow> links nx' pv' xs = links nx pv xs"
  by (induction nx pv xs rule: links.induct) auto

lemma links_cons: "links nx pv (x # ys) \<Longrightarrow> ys \<noteq> [] \<Longrightarrow> nx x = hd ys \<and> pv (hd ys) = x"
  by (cases ys) auto

text \<open>A node comes in between \<open>a\<close> and \<open>b\<close>, and goes again.\<close>

lemma links_insert:
  assumes "links nx pv (us @ a # b # vs)" "a \<notin> set us" "b \<notin> set vs" "n \<notin> set us" "n \<notin> set vs" "n \<noteq> a" "n \<noteq> b"
    "a \<notin> set (butlast (b # vs))" "b \<notin> set (tl (us @ [a]))"
    "\<And>x. nx' x = (if x = a then n else if x = n then b else nx x)" "\<And>x. pv' x = (if x = b then n else if x = n then a else pv x)"
  shows "links nx' pv' (us @ a # n # b # vs)"
proof -
  have l: "links nx pv (us @ [a])" "links nx pv (b # vs)" using assms(1) links_append [of nx pv us a "b # vs"] by auto
  have "links nx' pv' (us @ [a]) = links nx pv (us @ [a])"
  proof (rule links_cong)
    show "nx' x = nx x" if "x \<in> set (butlast (us @ [a]))" for x using that assms by auto
    show "pv' x = pv x" if "x \<in> set (tl (us @ [a]))" for x
      using that assms(4,6,9,11) list.set_sel(2) [of "us @ [a]" x] by auto
  qed
  moreover have "links nx' pv' (b # vs) = links nx pv (b # vs)"
  proof (rule links_cong)
    show "nx' x = nx x" if "x \<in> set (butlast (b # vs))" for x
      using that assms(5,7,8,10) in_set_butlastD [of x "b # vs"] by auto
    show "pv' x = pv x" if "x \<in> set (tl (b # vs))" for x using that assms by auto
  qed
  ultimately show ?thesis using l assms(6,7,10,11) by (subst links_append) simp
qed

lemma links_delete:
  assumes "links nx pv (us @ a # n # b # vs)" "a \<notin> set us" "b \<notin> set vs"
    "a \<notin> set (butlast (b # vs))" "b \<notin> set (tl (us @ [a]))"
    "\<And>x. nx' x = (if x = a then b else nx x) \<or> x = n" "\<And>x. pv' x = (if x = b then a else pv x) \<or> x = n"
    "n \<notin> set us" "n \<notin> set vs" "n \<noteq> a" "n \<noteq> b"
  shows "links nx' pv' (us @ a # b # vs)"
proof -
  have l: "links nx pv (us @ [a])" "links nx pv (b # vs)" using assms(1) links_append [of nx pv us a "n # b # vs"] by auto
  have "links nx' pv' (us @ [a]) = links nx pv (us @ [a])"
  proof (rule links_cong)
    show "nx' x = nx x" if "x \<in> set (butlast (us @ [a]))" for x using that assms(2,8) assms(6) [of x] by auto
    show "pv' x = pv x" if "x \<in> set (tl (us @ [a]))" for x
      using that assms(5,8,10) assms(7) [of x] list.set_sel(2) [of "us @ [a]" x] by auto
  qed
  moreover have "links nx' pv' (b # vs) = links nx pv (b # vs)"
  proof (rule links_cong)
    show "nx' x = nx x" if "x \<in> set (butlast (b # vs))" for x
      using that assms(4,9,11) assms(6) [of x] in_set_butlastD [of x "b # vs"] by auto
    show "pv' x = pv x" if "x \<in> set (tl (b # vs))" for x using that assms(3,9,11) assms(7) [of x] by auto
  qed
  ultimately show ?thesis using l assms(10,11) assms(6) [of a] assms(7) [of b] by (subst links_append) auto
qed

section \<open>Doubly linked lists\<close>

record list_mem =
  n_next :: "u64 \<Rightarrow> u64"
  n_prev :: "u64 \<Rightarrow> u64"

abbreviation set_next :: "u64 \<Rightarrow> u64 \<Rightarrow> list_mem \<Rightarrow> list_mem" where
  "set_next a v m \<equiv> m\<lparr>n_next := (n_next m)(a := v)\<rparr>"

abbreviation set_prev :: "u64 \<Rightarrow> u64 \<Rightarrow> list_mem \<Rightarrow> list_mem" where
  "set_prev a v m \<equiv> m\<lparr>n_prev := (n_prev m)(a := v)\<rparr>"

definition list_head_init :: "u64 \<Rightarrow> list_mem \<Rightarrow> list_mem" where
  "list_head_init h m = set_next h h (set_prev h h m)"

definition list_add :: "u64 \<Rightarrow> u64 \<Rightarrow> list_mem \<Rightarrow> list_mem" where
  "list_add h n m =
     (let m = set_next n (n_next m h) m;
          m = set_prev n h m;
          m = set_prev (n_next m h) n m
      in set_next h n m)"

definition list_add_tail :: "u64 \<Rightarrow> u64 \<Rightarrow> list_mem \<Rightarrow> list_mem" where
  "list_add_tail h n m =
     (let m = set_next n h m;
          m = set_prev n (n_prev m h) m;
          m = set_next (n_prev m h) n m
      in set_prev h n m)"

definition list_add_between :: "u64 \<Rightarrow> u64 \<Rightarrow> u64 \<Rightarrow> list_mem \<Rightarrow> list_mem" where
  "list_add_between prv n nxt m = set_prev nxt n (set_next n nxt (set_prev n prv (set_next prv n m)))"

definition list_add_after :: "u64 \<Rightarrow> u64 \<Rightarrow> list_mem \<Rightarrow> list_mem" where
  "list_add_after prv n m = list_add_between prv n (n_next m prv) m"

definition list_add_before :: "u64 \<Rightarrow> u64 \<Rightarrow> list_mem \<Rightarrow> list_mem" where
  "list_add_before nxt n m = list_add_between (n_prev m nxt) n nxt m"

definition list_empty :: "u64 \<Rightarrow> list_mem \<Rightarrow> bool" where
  "list_empty h m \<longleftrightarrow> n_next m h = h"

definition list_del :: "u64 \<Rightarrow> list_mem \<Rightarrow> list_mem" where
  "list_del n m =
     (let m = set_prev (n_next m n) (n_prev m n) m
      in set_next (n_prev m n) (n_next m n) m)"

text \<open>From a node to the structure that holds it at offset \<open>off\<close>, and back.\<close>

definition list_node_to_off :: "u64 \<Rightarrow> u64 \<Rightarrow> u64" where
  "list_node_to_off n off = n - off"

definition list_node_from_off :: "u64 \<Rightarrow> u64 \<Rightarrow> u64" where
  "list_node_from_off p off = p + off"

definition list_top :: "u64 \<Rightarrow> u64 \<Rightarrow> list_mem \<Rightarrow> u64" where
  "list_top h off m = (if list_empty h m then 0 else n_next m h - off)"

definition list_pop :: "u64 \<Rightarrow> u64 \<Rightarrow> list_mem \<Rightarrow> u64 \<times> list_mem" where
  "list_pop h off m =
     (if list_empty h m then (0, m)
      else let n = n_next m h in (n - off, list_del n m))"

definition list_tail :: "u64 \<Rightarrow> u64 \<Rightarrow> list_mem \<Rightarrow> u64" where
  "list_tail h off m = (if list_empty h m then 0 else n_prev m h - off)"

definition list_entry_or_null :: "u64 \<Rightarrow> u64 \<Rightarrow> u64 \<Rightarrow> u64" where
  "list_entry_or_null h n off = (if n = h then 0 else n - off)"

definition list_next :: "u64 \<Rightarrow> u64 \<Rightarrow> u64 \<Rightarrow> list_mem \<Rightarrow> u64" where
  "list_next h i off m = list_entry_or_null h (n_next m (list_node_from_off i off)) off"

definition list_prev :: "u64 \<Rightarrow> u64 \<Rightarrow> u64 \<Rightarrow> list_mem \<Rightarrow> u64" where
  "list_prev h i off m = list_entry_or_null h (n_prev m (list_node_from_off i off)) off"

definition list_append_list :: "u64 \<Rightarrow> u64 \<Rightarrow> list_mem \<Rightarrow> list_mem" where
  "list_append_list dst src m =
     (let from_tail = n_prev m src;
          to_tail = n_prev m dst;
          m = set_prev dst from_tail m;
          m = set_next from_tail dst m;
          m = set_next to_tail src m;
          m = set_prev src to_tail m
      in list_head_init src (list_del src m))"

definition list_prepend_list :: "u64 \<Rightarrow> u64 \<Rightarrow> list_mem \<Rightarrow> list_mem" where
  "list_prepend_list dst src m =
     (let from_tail = n_prev m src;
          to_head = n_next m dst;
          m = set_next dst src m;
          m = set_prev src dst m;
          m = set_prev to_head from_tail m;
          m = set_next from_tail to_head m
      in list_head_init src (list_del src m))"

section \<open>What a list holds\<close>

definition list_rep :: "list_mem \<Rightarrow> u64 \<Rightarrow> u64 list \<Rightarrow> bool" where
  "list_rep m h xs \<longleftrightarrow> distinct (h # xs) \<and> links (n_next m) (n_prev m) (h # xs @ [h])"

lemma rep_unique: "list_rep m h xs \<Longrightarrow> list_rep m h ys \<Longrightarrow> xs = ys"
proof -
  have "links nx pv (g # as @ [h]) \<Longrightarrow> links nx pv (g # bs @ [h]) \<Longrightarrow> h \<notin> set as \<Longrightarrow> h \<notin> set bs \<Longrightarrow> as = bs"
    for nx pv :: "u64 \<Rightarrow> u64" and g as bs
  proof (induction as arbitrary: g bs)
    case Nil
    then show ?case by (cases bs) auto
  next
    case (Cons a as)
    then show ?case by (cases bs) auto
  qed
  then show "list_rep m h xs \<Longrightarrow> list_rep m h ys \<Longrightarrow> xs = ys" unfolding list_rep_def by fastforce
qed

lemma rep_cong:
  assumes "list_rep m h xs" "\<And>x. x \<in> set (h # xs) \<Longrightarrow> n_next m' x = n_next m x \<and> n_prev m' x = n_prev m x"
  shows "list_rep m' h xs"
proof -
  have "links (n_next m') (n_prev m') (h # xs @ [h]) = links (n_next m) (n_prev m) (h # xs @ [h])"
    by (rule links_cong) (use assms(2) in \<open>auto dest!: in_set_butlastD\<close>)
  with assms(1) show ?thesis by (simp add: list_rep_def)
qed

lemma ends_split:
  obtains us vs where "h # xs = us @ [last (h # xs)]" "ys @ [h] = hd (ys @ [h]) # vs"
  by (metis append_butlast_last_id append_is_Nil_conv list.collapse list.distinct(1))

lemma rep_ends:
  assumes "list_rep m h (xs @ ys)"
  shows "n_next m (last (h # xs)) = hd (ys @ [h])" "n_prev m (hd (ys @ [h])) = last (h # xs)"
proof -
  obtain us vs where s: "h # xs = us @ [last (h # xs)]" "ys @ [h] = hd (ys @ [h]) # vs" by (rule ends_split)
  then have "h # (xs @ ys) @ [h] = us @ last (h # xs) # hd (ys @ [h]) # vs" by (metis append.assoc append_Cons append_Nil)
  with assms have "links (n_next m) (n_prev m) (us @ last (h # xs) # hd (ys @ [h]) # vs)" by (simp add: list_rep_def)
  then show "n_next m (last (h # xs)) = hd (ys @ [h])" "n_prev m (hd (ys @ [h])) = last (h # xs)"
    by (rule links_at)+
qed

lemma rep_ends_simps:
  assumes "list_rep m h xs"
  shows "n_next m h = hd (xs @ [h])" "n_prev m h = last (h # xs)"
  using rep_ends [of m h "[]" xs] rep_ends [of m h xs "[]"] assms by simp_all

text \<open>The neighbours of a cut of the circle \<open>h # xs @ ys @ [h]\<close> satisfy what the lemmas on paths ask for.\<close>

lemma cut_side_conditions:
  assumes "distinct (h # xs @ ys)" "h # xs = us @ [a]" "ys @ [h] = b # vs"
  shows "a \<notin> set us" "b \<notin> set vs" "a \<notin> set (butlast (b # vs))" "b \<notin> set (tl (us @ [a]))" "set us \<subseteq> set (h # xs)" "set vs \<subseteq> set (h # ys)"
    "a \<in> set (h # xs)" "b \<in> set (h # ys)"
proof -
  have d: "distinct (us @ [a])" using assms(1) by (simp flip: assms(2))
  then show "a \<notin> set us" by simp
  have dv: "distinct (b # vs)" using assms(1) by (simp flip: assms(3))
  then show "b \<notin> set vs" by simp
  have a: "a \<in> set (h # xs)" by (simp add: assms(2))
  then show "a \<in> set (h # xs)" .
  have "butlast (b # vs) = ys" by (simp flip: assms(3))
  then show "a \<notin> set (butlast (b # vs))" using a assms(1) by auto
  have "tl (us @ [a]) = xs" by (simp flip: assms(2))
  moreover have b: "b \<in> set (h # ys)" using arg_cong [OF assms(3), of set] by auto
  ultimately show "b \<notin> set (tl (us @ [a]))" using assms(1) by auto
  show "b \<in> set (h # ys)" by (rule b)
  show "set us \<subseteq> set (h # xs)" by (auto simp: assms(2))
  show "set vs \<subseteq> set (h # ys)" using arg_cong [OF assms(3), of set] by auto
qed

lemma rep_insert:
  assumes "list_rep m h (xs @ ys)" "n \<notin> set (h # xs @ ys)" "a = last (h # xs)" "b = hd (ys @ [h])"
    "\<And>x. n_next m' x = (if x = a then n else if x = n then b else n_next m x)"
    "\<And>x. n_prev m' x = (if x = b then n else if x = n then a else n_prev m x)"
  shows "list_rep m' h (xs @ n # ys)"
proof -
  obtain us vs where s: "h # xs = us @ [a]" "ys @ [h] = b # vs" using ends_split [of h xs ys] assms(3,4) by metis
  then have e: "h # (xs @ ys) @ [h] = us @ a # b # vs" "h # (xs @ n # ys) @ [h] = us @ a # n # b # vs"
    by (metis append.assoc append_Cons append_Nil)+
  have d: "distinct (h # xs @ ys)" and l: "links (n_next m) (n_prev m) (us @ a # b # vs)"
    using assms(1) e(1) by (simp_all add: list_rep_def)
  note c = cut_side_conditions [OF d s]
  have "links (n_next m') (n_prev m') (us @ a # n # b # vs)"
    by (rule links_insert [OF l c(1,2) _ _ _ _ c(3,4) assms(5,6)]) (use c(5-8) assms(2) in auto)
  then show ?thesis using d assms(2) e(2) by (auto simp: list_rep_def)
qed

lemma rep_delete:
  assumes "list_rep m h (xs @ n # ys)" "a = last (h # xs)" "b = hd (ys @ [h])"
    "\<And>x. n_next m' x = (if x = a then b else n_next m x) \<or> x = n"
    "\<And>x. n_prev m' x = (if x = b then a else n_prev m x) \<or> x = n"
  shows "list_rep m' h (xs @ ys)"
proof -
  obtain us vs where s: "h # xs = us @ [a]" "ys @ [h] = b # vs" using ends_split [of h xs ys] assms(2,3) by metis
  then have e: "h # (xs @ ys) @ [h] = us @ a # b # vs" "h # (xs @ n # ys) @ [h] = us @ a # n # b # vs"
    by (metis append.assoc append_Cons append_Nil)+
  have d: "distinct (h # xs @ ys)" and n: "n \<notin> set (h # xs @ ys)" and l: "links (n_next m) (n_prev m) (us @ a # n # b # vs)"
    using assms(1) e(2) by (auto simp: list_rep_def)
  note c = cut_side_conditions [OF d s]
  have "links (n_next m') (n_prev m') (us @ a # b # vs)"
    by (rule links_delete [OF l c(1,2,3,4) assms(4,5)]) (use c(5-8) n in auto)
  then show ?thesis using d e(1) by (simp add: list_rep_def)
qed

text \<open>Two circles become one.\<close>

lemma rep_splice:
  assumes "list_rep m h (xs @ zs)" "list_rep m g ys" "set (h # xs @ zs) \<inter> set (g # ys) = {}"
    "a = last (h # xs)" "b = hd (zs @ [h])" "f = last (g # ys)"
    "\<And>x. n_next m' x = (if x = a then g else if x = f then b else n_next m x)"
    "\<And>x. n_prev m' x = (if x = g then a else if x = b then f else n_prev m x)"
  shows "list_rep m' h (xs @ g # ys @ zs)"
proof -
  let ?N = "n_next m" and ?P = "n_prev m" and ?N' = "n_next m'" and ?P' = "n_prev m'"
  obtain us vs where s: "h # xs = us @ [a]" "zs @ [h] = b # vs" using ends_split [of h xs zs] assms(4,5) by metis
  obtain ws where w: "g # ys = ws @ [f]" using assms(6) by (metis append_butlast_last_id list.distinct(1))
  have d: "distinct (h # xs @ zs)" "distinct (ws @ [f])" and l: "links ?N ?P (h # xs @ zs @ [h])" "links ?N ?P ((ws @ [f]) @ [g])"
    using assms(1,2) by (simp_all add: list_rep_def flip: w)
  note c = cut_side_conditions [OF d(1) s]
  have e: "h # xs @ zs @ [h] = us @ a # b # vs" "h # (xs @ g # ys @ zs) @ [h] = us @ a # g # ys @ b # vs"
    using s w by (metis append.assoc append_Cons append_Nil)+
  have sub: "set us \<subseteq> set (h # xs)" "a \<in> set (h # xs)" "set (b # vs) \<subseteq> set (h # zs)" "set (ws @ [f]) = set (g # ys)" "f \<in> set (g # ys)"
    using c(5-8) by (auto simp: w)
  have l3: "links ?N ?P (us @ [a])" "links ?N ?P (ws @ [f])" "links ?N ?P (b # vs)"
    using l(1) links_append [of ?N ?P us a "b # vs"] l(2) links_append [of ?N ?P ws f "[g]"] by (auto simp: e(1))
  have tw: "tl (ws @ [f]) = ys" "tl (us @ [a]) = xs" "butlast (b # vs) = zs" by (simp_all flip: w s)
  have g: "g \<notin> set ys" "g \<noteq> h" "g \<notin> set xs" "g \<notin> set zs" "h \<notin> set ys" using assms(2,3) by (auto simp: list_rep_def)
  have "links ?N' ?P' (us @ [a]) = links ?N ?P (us @ [a])"
    by (rule links_cong) (use c(1,4) sub assms(3) g in \<open>auto simp: assms(7,8) tw\<close>)
  moreover have "links ?N' ?P' (ws @ [f]) = links ?N ?P (ws @ [f])"
    by (rule links_cong) (use d(2) sub assms(3) g c(8) in \<open>auto simp: assms(7,8) tw\<close>)
  moreover have "links ?N' ?P' (b # vs) = links ?N ?P (b # vs)"
  proof (rule links_cong)
    show "?N' x = ?N x" if "x \<in> set (butlast (b # vs))" for x
    proof -
      have "x \<noteq> a" "x \<noteq> f" using that c(3) sub(5) assms(3) unfolding tw by auto
      then show ?thesis by (simp add: assms(7))
    qed
    show "?P' x = ?P x" if "x \<in> set (tl (b # vs))" for x
    proof -
      have "x \<noteq> b" "x \<noteq> g" using that c(2) sub(3) g(2,4) by auto
      then show ?thesis by (simp add: assms(8))
    qed
  qed
  moreover have "a \<noteq> f" "b \<noteq> g" using sub assms(3) by auto
  then have "?N' a = g" "?P' g = a" "?N' f = b" "?P' b = f" by (simp_all add: assms(7,8))
  ultimately have r: "links ?N' ?P' (us @ [a])" "links ?N' ?P' (ws @ f # b # vs)" "?N' a = g" "?P' g = a"
    using l3 links_append [of ?N' ?P' ws f "b # vs"] by simp_all
  have "ws @ f # b # vs = g # ys @ b # vs" using w by (metis append.assoc append_Cons append_Nil)
  with r(2) have "links ?N' ?P' (g # ys @ b # vs)" by metis
  with r have "links ?N' ?P' (us @ a # g # ys @ b # vs)" using links_append [of ?N' ?P' us a "g # ys @ b # vs"] by simp
  then show ?thesis using d(1) assms(2,3) e(2) by (auto simp: list_rep_def)
qed

section \<open>The operations on one list\<close>

lemma list_head_init_rep: "list_rep (list_head_init h m) h []"
  by (simp add: list_rep_def list_head_init_def)

lemma list_add_rep:
  assumes "list_rep m h xs" "n \<notin> set (h # xs)"
  shows "list_rep (list_add h n m) h (n # xs)"
proof -
  have "list_rep (list_add h n m) h ([] @ n # xs)"
    by (rule rep_insert [where m = m and a = h and b = "n_next m h"])
      (use assms rep_ends_simps [OF assms(1)] in \<open>auto simp: list_add_def Let_def\<close>)
  then show ?thesis by simp
qed

lemma list_add_tail_rep:
  assumes "list_rep m h xs" "n \<notin> set (h # xs)"
  shows "list_rep (list_add_tail h n m) h (xs @ [n])"
proof -
  have "n_prev m h \<noteq> n" using assms rep_ends_simps(2) [OF assms(1)] by (auto split: if_splits)
  then show ?thesis
    by (intro rep_insert [where m = m and a = "n_prev m h" and b = h])
      (use assms rep_ends_simps [OF assms(1)] in \<open>auto simp: list_add_tail_def Let_def\<close>)
qed

lemma list_add_between_rep:
  assumes "list_rep m h (xs @ ys)" "n \<notin> set (h # xs @ ys)" "a = last (h # xs)" "b = hd (ys @ [h])"
  shows "list_rep (list_add_between a n b m) h (xs @ n # ys)"
proof -
  have "a \<in> set (h # xs)" unfolding assms(3) by (rule last_in_set) simp
  moreover have "b \<in> set (ys @ [h])" unfolding assms(4) by (rule hd_in_set) simp
  ultimately have "a \<noteq> n" "b \<noteq> n" using assms(2) by auto
  then show ?thesis by (intro rep_insert [OF assms]) (auto simp: list_add_between_def)
qed

lemma list_del_rep:
  assumes "list_rep m h (xs @ n # ys)"
  shows "list_rep (list_del n m) h (xs @ ys)"
proof -
  have e: "n_prev m n = last (h # xs)" "n_next m n = hd (ys @ [h])"
    using rep_ends [OF assms] rep_ends [of m h "xs @ [n]" ys] assms by simp_all
  have "last (h # xs) \<in> set (h # xs)" "hd (ys @ [h]) \<in> set (ys @ [h])" by (rule last_in_set hd_in_set; simp)+
  then have "n_prev m n \<noteq> n" "n_next m n \<noteq> n" unfolding e using assms by (auto simp: list_rep_def)
  then show ?thesis
    by (intro rep_delete [OF assms e(1) e(2)]) (auto simp: list_del_def Let_def)
qed

lemma rep_init_other: "list_rep m h xs \<Longrightarrow> g \<notin> set (h # xs) \<Longrightarrow> list_rep (list_head_init g m) h xs"
  by (rule rep_cong) (auto simp: list_head_init_def)

lemma list_append_list_rep:
  assumes "list_rep m h xs" "list_rep m g ys" "set (h # xs) \<inter> set (g # ys) = {}"
  shows "list_rep (list_append_list h g m) h (xs @ ys)" "list_rep (list_append_list h g m) g []"
proof -
  let ?m = "set_prev g (n_prev m h) (set_next (n_prev m h) g (set_next (n_prev m g) h (set_prev h (n_prev m g) m)))"
  have a: "list_append_list h g m = list_head_init g (list_del g ?m)" by (simp add: list_append_list_def Let_def)
  have "list_rep ?m h (xs @ g # ys @ [])"
    by (rule rep_splice [where zs = "[]", OF _ assms(2) _ rep_ends_simps(2) [OF assms(1)] _ rep_ends_simps(2) [OF assms(2)]])
      (use assms in auto)
  then have "list_rep (list_del g ?m) h (xs @ ys)" by (intro list_del_rep) simp
  then show "list_rep (list_append_list h g m) h (xs @ ys)" unfolding a using assms by (intro rep_init_other) (auto simp: list_rep_def)
  show "list_rep (list_append_list h g m) g []" unfolding a by (rule list_head_init_rep)
qed

lemma list_prepend_list_rep:
  assumes "list_rep m h xs" "list_rep m g ys" "set (h # xs) \<inter> set (g # ys) = {}"
  shows "list_rep (list_prepend_list h g m) h (ys @ xs)" "list_rep (list_prepend_list h g m) g []"
proof -
  let ?m = "set_next (n_prev m g) (n_next m h) (set_prev (n_next m h) (n_prev m g) (set_prev g h (set_next h g m)))"
  have a: "list_prepend_list h g m = list_head_init g (list_del g ?m)" by (simp add: list_prepend_list_def Let_def)
  have "n_prev m g \<in> set (g # ys)" "n_next m h \<in> set (xs @ [h])"
    unfolding rep_ends_simps(2) [OF assms(2)] rep_ends_simps(1) [OF assms(1)] by (rule last_in_set hd_in_set; simp)+
  then have n: "n_prev m g \<noteq> h" "n_next m h \<noteq> g" using assms(3) by auto
  have "list_rep ?m h ([] @ g # ys @ xs)"
    by (rule rep_splice [where xs = "[]" and zs = xs, OF _ assms(2) _ _ rep_ends_simps(1) [OF assms(1)] rep_ends_simps(2) [OF assms(2)]])
      (use assms n in auto)
  then have "list_rep (list_del g ?m) h ([] @ ys @ xs)" by (intro list_del_rep) simp
  then show "list_rep (list_prepend_list h g m) h (ys @ xs)" unfolding a using assms by (intro rep_init_other) (auto simp: list_rep_def)
  show "list_rep (list_prepend_list h g m) g []" unfolding a by (rule list_head_init_rep)
qed

end
