(* ===== verification/List_Refine.thy ===== *)
theory List_Refine
  imports List_Heap "HOL-Library.Monad_Syntax"
begin

text \<open>
  What the lists of \<^verbatim>\<open>utils/list.h\<close> promise: a memory that holds several lists without common nodes behaves
  as a family of sequences. The loops visit the entries in order, also when the body removes entries, and the
  checker of \<^verbatim>\<open>utils/list.c\<close> always returns and tells whether a list is well formed.
\<close>

section \<open>A family of lists\<close>

type_synonym lists = "u64 \<rightharpoonup> u64 list"

definition heap_rep :: "list_mem \<Rightarrow> lists \<Rightarrow> bool" where
  "heap_rep m A \<longleftrightarrow> (\<forall>h xs. A h = Some xs \<longrightarrow> list_rep m h xs) \<and>
     (\<forall>h g xs ys. A h = Some xs \<longrightarrow> A g = Some ys \<longrightarrow> h \<noteq> g \<longrightarrow> set (h # xs) \<inter> set (g # ys) = {})"

definition fresh :: "lists \<Rightarrow> u64 \<Rightarrow> bool" where
  "fresh A n \<longleftrightarrow> (\<forall>h xs. A h = Some xs \<longrightarrow> n \<notin> set (h # xs))"

lemma heap_repD: "heap_rep m A \<Longrightarrow> A h = Some xs \<Longrightarrow> list_rep m h xs"
  by (simp add: heap_rep_def)

lemma freshD: "fresh A n \<Longrightarrow> A h = Some xs \<Longrightarrow> n \<notin> set (h # xs)"
  by (simp add: fresh_def)

text \<open>The operations, and what they do to the sequences. They ask for what their callers have to ensure: a node
  that is added is in no list, a node that is removed is in one.\<close>

datatype list_op =
  Head_init u64 | Add u64 u64 | Add_tail u64 u64 | Add_after u64 u64 | Add_before u64 u64 | Del u64 | Pop u64 u64
| Append_list u64 u64 | Prepend_list u64 u64

inductive list_spec :: "list_op \<Rightarrow> lists \<Rightarrow> u64 \<Rightarrow> lists \<Rightarrow> bool" where
  "fresh A h \<Longrightarrow> list_spec (Head_init h) A 0 (A(h \<mapsto> []))"
| "A h = Some xs \<Longrightarrow> fresh A n \<Longrightarrow> list_spec (Add h n) A 0 (A(h \<mapsto> n # xs))"
| "A h = Some xs \<Longrightarrow> fresh A n \<Longrightarrow> list_spec (Add_tail h n) A 0 (A(h \<mapsto> xs @ [n]))"
| "A h = Some (xs @ ys) \<Longrightarrow> fresh A n \<Longrightarrow> p = last (h # xs) \<Longrightarrow> list_spec (Add_after p n) A 0 (A(h \<mapsto> xs @ n # ys))"
| "A h = Some (xs @ ys) \<Longrightarrow> fresh A n \<Longrightarrow> p = hd (ys @ [h]) \<Longrightarrow> list_spec (Add_before p n) A 0 (A(h \<mapsto> xs @ n # ys))"
| "A h = Some (xs @ n # ys) \<Longrightarrow> list_spec (Del n) A 0 (A(h \<mapsto> xs @ ys))"
| "A h = Some [] \<Longrightarrow> list_spec (Pop h off) A 0 A"
| "A h = Some (x # xs) \<Longrightarrow> list_spec (Pop h off) A (x - off) (A(h \<mapsto> xs))"
| "A h = Some xs \<Longrightarrow> A g = Some ys \<Longrightarrow> h \<noteq> g \<Longrightarrow> list_spec (Append_list h g) A 0 (A(h \<mapsto> xs @ ys, g \<mapsto> []))"
| "A h = Some xs \<Longrightarrow> A g = Some ys \<Longrightarrow> h \<noteq> g \<Longrightarrow> list_spec (Prepend_list h g) A 0 (A(h \<mapsto> ys @ xs, g \<mapsto> []))"

fun list_exec :: "list_op \<Rightarrow> list_mem \<Rightarrow> u64 \<times> list_mem" where
  "list_exec (Head_init h) m = (0, list_head_init h m)"
| "list_exec (Add h n) m = (0, list_add h n m)"
| "list_exec (Add_tail h n) m = (0, list_add_tail h n m)"
| "list_exec (Add_after p n) m = (0, list_add_after p n m)"
| "list_exec (Add_before p n) m = (0, list_add_before p n m)"
| "list_exec (Del n) m = (0, list_del n m)"
| "list_exec (Pop h off) m = list_pop h off m"
| "list_exec (Append_list h g) m = (0, list_append_list h g m)"
| "list_exec (Prepend_list h g) m = (0, list_prepend_list h g m)"

fun list_execs :: "list_op list \<Rightarrow> list_mem \<Rightarrow> u64 list \<times> list_mem" where
  "list_execs [] m = ([], m)"
| "list_execs (p # ps) m = (let (r, m) = list_exec p m; (rs, m) = list_execs ps m in (r # rs, m))"

inductive list_specs :: "list_op list \<Rightarrow> lists \<Rightarrow> u64 list \<Rightarrow> lists \<Rightarrow> bool" where
  "list_specs [] A [] A"
| "list_spec p A r A' \<Longrightarrow> list_specs ps A' rs A'' \<Longrightarrow> list_specs (p # ps) A (r # rs) A''"

section \<open>Frames\<close>

text \<open>The nodes outside \<open>N\<close> are untouched.\<close>

definition frame :: "u64 set \<Rightarrow> list_mem \<Rightarrow> list_mem \<Rightarrow> bool" where
  "frame N m m' \<longleftrightarrow> (\<forall>x. x \<notin> N \<longrightarrow> n_next m' x = n_next m x \<and> n_prev m' x = n_prev m x)"

lemma frame_rep: "list_rep m g ys \<Longrightarrow> frame N m m' \<Longrightarrow> set (g # ys) \<inter> N = {} \<Longrightarrow> list_rep m' g ys"
  by (erule rep_cong) (auto simp: frame_def)

lemma frame_between: "n \<in> N \<Longrightarrow> a \<in> N \<Longrightarrow> b \<in> N \<Longrightarrow> frame N m (list_add_between a n b m)"
  by (auto simp: frame_def list_add_between_def)

lemma rep_next_in: "list_rep m h xs \<Longrightarrow> x \<in> set (h # xs) \<Longrightarrow> n_next m x \<in> set (h # xs) \<and> n_prev m x \<in> set (h # xs)"
proof -
  assume r: "list_rep m h xs" and x: "x \<in> set (h # xs)"
  show ?thesis
  proof (cases "x = h")
    case True
    have "hd (xs @ [h]) \<in> set (xs @ [h])" "last (h # xs) \<in> set (h # xs)" by (rule hd_in_set last_in_set; simp)+
    then show ?thesis using rep_ends_simps [OF r] True by auto
  next
    case False
    with x obtain us vs where xs: "xs = us @ x # vs" by (auto dest: split_list)
    have "hd (vs @ [h]) \<in> set (vs @ [h])" "last (h # us) \<in> set (h # us)" by (rule hd_in_set last_in_set; simp)+
    then show ?thesis using rep_ends [of m h us "x # vs"] rep_ends [of m h "us @ [x]" vs] r xs by auto
  qed
qed

lemma frame_del: "list_rep m h xs \<Longrightarrow> n \<in> set (h # xs) \<Longrightarrow> frame (set (h # xs)) m (list_del n m)"
  using rep_next_in [of m h xs n] by (auto simp: frame_def list_del_def Let_def)

text \<open>Some lists change inside \<open>N\<close>, the others lie outside.\<close>

lemma heap_update:
  assumes "heap_rep m A" "frame N m m'"
    "\<And>g ys. A' g = Some ys \<Longrightarrow> g \<in> K \<Longrightarrow> list_rep m' g ys \<and> set (g # ys) \<subseteq> N"
    "\<And>g ys. A' g = Some ys \<Longrightarrow> g \<notin> K \<Longrightarrow> A g = Some ys \<and> set (g # ys) \<inter> N = {}"
    "\<And>g h xs ys. A' h = Some xs \<Longrightarrow> A' g = Some ys \<Longrightarrow> h \<in> K \<Longrightarrow> g \<in> K \<Longrightarrow> h \<noteq> g \<Longrightarrow> set (h # xs) \<inter> set (g # ys) = {}"
  shows "heap_rep m' A'"
  unfolding heap_rep_def
proof (intro conjI allI impI)
  fix h xs assume h: "A' h = Some xs"
  show "list_rep m' h xs"
  proof (cases "h \<in> K")
    case False
    then have "A h = Some xs" and d: "set (h # xs) \<inter> N = {}" using assms(4) [OF h] by simp_all
    then have "list_rep m h xs" using assms(1) by (simp add: heap_rep_def)
    then show ?thesis by (rule frame_rep [OF _ assms(2) d])
  qed (use assms(3) h in blast)
next
  fix h g xs ys assume h: "A' h = Some xs" "A' g = Some ys" "h \<noteq> g"
  consider "h \<in> K" "g \<in> K" | "h \<in> K" "g \<notin> K" | "h \<notin> K" "g \<in> K" | "h \<notin> K" "g \<notin> K" by blast
  then show "set (h # xs) \<inter> set (g # ys) = {}"
  proof cases
    case 1
    then show ?thesis using assms(5) [OF h(1,2)] h(3) by blast
  next
    case 2
    then show ?thesis using assms(3) [OF h(1)] assms(4) [OF h(2)] by blast
  next
    case 3
    then show ?thesis using assms(4) [OF h(1)] assms(3) [OF h(2)] by blast
  next
    case 4
    then have "A h = Some xs" "A g = Some ys" using assms(4) [OF h(1)] assms(4) [OF h(2)] by auto
    then show ?thesis using assms(1) h(3) unfolding heap_rep_def by blast
  qed
qed

lemma heap_update_one:
  assumes "heap_rep m A" "A h = Some xs" "frame N m m'" "N \<subseteq> insert n (set (h # xs))" "n \<in> set (h # xs) \<or> fresh A n" "set (h # xs') \<subseteq> N" "list_rep m' h xs'"
  shows "heap_rep m' (A(h \<mapsto> xs'))"
proof (rule heap_update [where K = "{h}", OF assms(1,3)])
  show "list_rep m' g ys \<and> set (g # ys) \<subseteq> N" if "(A(h \<mapsto> xs')) g = Some ys" "g \<in> {h}" for g ys
    using that assms(6,7) by auto
  show "A g = Some ys \<and> set (g # ys) \<inter> N = {}" if "(A(h \<mapsto> xs')) g = Some ys" "g \<notin> {h}" for g ys
  proof -
    have g: "A g = Some ys" "g \<noteq> h" using that by auto
    then have "set (g # ys) \<inter> set (h # xs) = {}" using assms(1,2) unfolding heap_rep_def by blast
    moreover from this g(1) assms(5) have "n \<notin> set (g # ys)" unfolding fresh_def by blast
    ultimately show ?thesis using g(1) assms(4) by blast
  qed
qed auto

section \<open>Refinement\<close>

lemma heap_two:
  assumes "heap_rep m A" "A h = Some xs" "A g = Some ys" "h \<noteq> g" "frame (set (h # xs) \<union> set (g # ys)) m m'"
    "list_rep m' h zs" "set zs \<subseteq> set xs \<union> set ys" "list_rep m' g []"
  shows "heap_rep m' (A(h \<mapsto> zs, g \<mapsto> []))"
proof (rule heap_update [where K = "{h, g}", OF assms(1,5)])
  have d: "set (h # xs) \<inter> set (g # ys) = {}" using assms(1-4) unfolding heap_rep_def by blast
  show "list_rep m' k us \<and> set (k # us) \<subseteq> set (h # xs) \<union> set (g # ys)" if "(A(h \<mapsto> zs, g \<mapsto> [])) k = Some us" "k \<in> {h, g}" for k us
    using that assms(4,6-8) by (auto split: if_splits)
  show "A k = Some us \<and> set (k # us) \<inter> (set (h # xs) \<union> set (g # ys)) = {}" if "(A(h \<mapsto> zs, g \<mapsto> [])) k = Some us" "k \<notin> {h, g}" for k us
  proof -
    have k: "A k = Some us" "k \<noteq> h" "k \<noteq> g" using that by auto
    then have "set (k # us) \<inter> set (h # xs) = {}" "set (k # us) \<inter> set (g # ys) = {}" using assms(1-3) unfolding heap_rep_def by blast+
    then show ?thesis using k(1) by blast
  qed
  have "g \<notin> set (h # zs)" using assms(7) d assms(3) assms(1) by (auto simp: heap_rep_def list_rep_def)
  then show "set (l # us) \<inter> set (k # vs) = {}" if "(A(h \<mapsto> zs, g \<mapsto> [])) l = Some us" "(A(h \<mapsto> zs, g \<mapsto> [])) k = Some vs" "l \<in> {h, g}" "k \<in> {h, g}" "l \<noteq> k" for l k us vs
    using that by (auto split: if_splits)
qed

lemma frame_append: "list_rep m h xs \<Longrightarrow> list_rep m g ys \<Longrightarrow> frame (set (h # xs) \<union> set (g # ys)) m (list_append_list h g m)"
  using rep_next_in [of m h xs h] rep_next_in [of m g ys g]
  by (auto simp: frame_def list_append_list_def list_del_def list_head_init_def Let_def)

lemma frame_prepend: "list_rep m h xs \<Longrightarrow> list_rep m g ys \<Longrightarrow> frame (set (h # xs) \<union> set (g # ys)) m (list_prepend_list h g m)"
  using rep_next_in [of m h xs h] rep_next_in [of m g ys g]
  by (auto simp: frame_def list_prepend_list_def list_del_def list_head_init_def Let_def)

lemma list_exec_refines:
  assumes "list_spec p A r A'" "heap_rep m A"
  shows "\<exists>m'. list_exec p m = (r, m') \<and> heap_rep m' A'"
  using assms
proof (induction rule: list_spec.induct)
  case (1 A h)
  have "heap_rep (list_head_init h m) (A(h \<mapsto> []))"
    by (rule heap_update [where K = "{h}" and N = "{h}", OF 1(2)])
      (use 1 in \<open>auto simp: frame_def list_head_init_def list_rep_def fresh_def split: if_splits\<close>)
  then show ?case by (simp add: fun_upd_def)
next
  case (2 A h xs n)
  then have r: "list_rep m h xs" "n \<notin> set (h # xs)" by (auto simp: heap_rep_def fresh_def)
  have "heap_rep (list_add h n m) (A(h \<mapsto> n # xs))"
    by (rule heap_update_one [where N = "insert n (set (h # xs))" and n = n, OF 2(3,1) _ _ _ _ list_add_rep [OF r]])
      (use 2(2) r rep_next_in [OF r(1), of h] in \<open>auto simp: frame_def list_add_def Let_def\<close>)
  then show ?case by (simp add: fun_upd_def)
next
  case (3 A h xs n)
  then have r: "list_rep m h xs" "n \<notin> set (h # xs)" by (auto simp: heap_rep_def fresh_def)
  have "heap_rep (list_add_tail h n m) (A(h \<mapsto> xs @ [n]))"
    by (rule heap_update_one [where N = "insert n (set (h # xs))" and n = n, OF 3(3,1) _ _ _ _ list_add_tail_rep [OF r]])
      (use 3(2) r rep_next_in [OF r(1), of h] in \<open>auto simp: frame_def list_add_tail_def Let_def\<close>)
  then show ?case by (simp add: fun_upd_def)
next
  case (4 A h xs ys n p)
  have r: "list_rep m h (xs @ ys)" "n \<notin> set (h # xs @ ys)" using heap_repD [OF 4(4,1)] freshD [OF 4(2,1)] by simp_all
  have p: "p \<in> set (h # xs @ ys)" using last_in_set [of "h # xs"] 4(3) by auto
  have "heap_rep (list_add_between p n (n_next m p) m) (A(h \<mapsto> xs @ n # ys))"
    by (rule heap_update_one [where N = "insert n (set (h # xs @ ys))" and n = n, OF 4(4,1) frame_between _ _ _ list_add_between_rep [OF r 4(3)]])
      (use 4(2,3) rep_next_in [OF r(1) p] p rep_ends(1) [OF r(1)] in auto)
  then show ?case by (simp add: list_add_after_def fun_upd_def)
next
  case (5 A h xs ys n p)
  have r: "list_rep m h (xs @ ys)" "n \<notin> set (h # xs @ ys)" using heap_repD [OF 5(4,1)] freshD [OF 5(2,1)] by simp_all
  have p: "p \<in> set (h # xs @ ys)" using hd_in_set [of "ys @ [h]"] 5(3) by auto
  have "heap_rep (list_add_between (n_prev m p) n p m) (A(h \<mapsto> xs @ n # ys))"
    by (rule heap_update_one [where N = "insert n (set (h # xs @ ys))" and n = n, OF 5(4,1) frame_between _ _ _ list_add_between_rep [OF r _ 5(3)]])
      (use 5(2,3) rep_next_in [OF r(1) p] p rep_ends(2) [OF r(1)] in auto)
  then show ?case by (simp add: list_add_before_def fun_upd_def)
next
  case (6 A h xs n ys)
  then have r: "list_rep m h (xs @ n # ys)" by (auto simp: heap_rep_def)
  have "heap_rep (list_del n m) (A(h \<mapsto> xs @ ys))"
    by (rule heap_update_one [where N = "set (h # xs @ n # ys)" and n = n, OF 6(2,1) frame_del [OF r] _ _ _ list_del_rep [OF r]]) auto
  then show ?case by (simp add: fun_upd_def)
next
  case (7 A h off)
  then have "list_rep m h []" by (auto simp: heap_rep_def)
  with 7 show ?case by (simp add: list_pop_def list_empty_def rep_ends_simps)
next
  case (8 A h x xs off)
  then have r: "list_rep m h ([] @ x # xs)" by (auto simp: heap_rep_def)
  then have n: "n_next m h = x" "x \<noteq> h" using rep_ends_simps(1) [OF r] by (auto simp: list_rep_def)
  have "heap_rep (list_del x m) (A(h \<mapsto> xs))"
    by (rule heap_update_one [where N = "set (h # x # xs)" and n = x, OF 8(2,1) frame_del _ _ _ list_del_rep [OF r, simplified]]) (use r in auto)
  then show ?case using n by (simp add: list_pop_def list_empty_def fun_upd_def)
next
  case (9 A h xs g ys)
  then have r: "list_rep m h xs" "list_rep m g ys" "set (h # xs) \<inter> set (g # ys) = {}" unfolding heap_rep_def by blast+
  have "heap_rep (list_append_list h g m) (A(h \<mapsto> xs @ ys, g \<mapsto> []))"
    by (rule heap_two [OF 9(4,1,2,3) frame_append [OF r(1,2)] list_append_list_rep(1) [OF r] _ list_append_list_rep(2) [OF r]]) auto
  then show ?case by (simp add: fun_upd_def)
next
  case (10 A h xs g ys)
  then have r: "list_rep m h xs" "list_rep m g ys" "set (h # xs) \<inter> set (g # ys) = {}" unfolding heap_rep_def by blast+
  have "heap_rep (list_prepend_list h g m) (A(h \<mapsto> ys @ xs, g \<mapsto> []))"
    by (rule heap_two [OF 10(4,1,2,3) frame_prepend [OF r(1,2)] list_prepend_list_rep(1) [OF r] _ list_prepend_list_rep(2) [OF r]]) auto
  then show ?case by (simp add: fun_upd_def)
qed

lemma list_execs_refine: "list_specs ps A rs A' \<Longrightarrow> heap_rep m A \<Longrightarrow> \<exists>m'. list_execs ps m = (rs, m') \<and> heap_rep m' A'"
proof (induction arbitrary: m rule: list_specs.induct)
  case (2 p A r A' ps rs A'')
  obtain m1 where m1: "list_exec p m = (r, m1)" "heap_rep m1 A'" using list_exec_refines [OF 2(1,4)] by auto
  with 2(3) [OF m1(2)] show ?case by auto
qed simp

section \<open>Loops\<close>

text \<open>The entries that \<^verbatim>\<open>list_for_each_off\<close> and \<^verbatim>\<open>list_for_each_rev\<close> give to their body, which does not
  change the list.\<close>

partial_function (option) list_walk :: "(u64 \<Rightarrow> u64) \<Rightarrow> u64 \<Rightarrow> u64 \<Rightarrow> u64 \<Rightarrow> u64 list option" where
  [code]: "list_walk nx h off i =
     (if list_node_from_off i off = h then Some []
      else do { is \<leftarrow> list_walk nx h off (list_node_to_off (nx (list_node_from_off i off)) off); Some (i # is) })"

definition list_for_each :: "u64 \<Rightarrow> u64 \<Rightarrow> list_mem \<Rightarrow> u64 list option" where
  "list_for_each h off m = list_walk (n_next m) h off (list_node_to_off (n_next m h) off)"

definition list_for_each_rev :: "u64 \<Rightarrow> u64 \<Rightarrow> list_mem \<Rightarrow> u64 list option" where
  "list_for_each_rev h off m = list_walk (n_prev m) h off (list_node_to_off (n_prev m h) off)"

text \<open>\<^verbatim>\<open>list_for_each_safe_off\<close>, whose body may change the list.\<close>

partial_function (option) list_for_each_safe_from ::
  "(u64 \<Rightarrow> list_mem \<Rightarrow> list_mem) \<Rightarrow> u64 \<Rightarrow> u64 \<Rightarrow> u64 \<Rightarrow> u64 \<Rightarrow> list_mem \<Rightarrow> (u64 list \<times> list_mem) option" where
  [code]: "list_for_each_safe_from body h off i nxt m =
     (if list_node_from_off i off = h then Some ([], m)
      else do {
        let m = body i m;
        (is, m) \<leftarrow> list_for_each_safe_from body h off nxt (list_node_to_off (n_next m (list_node_from_off nxt off)) off) m;
        Some (i # is, m) })"

definition list_for_each_safe :: "(u64 \<Rightarrow> list_mem \<Rightarrow> list_mem) \<Rightarrow> u64 \<Rightarrow> u64 \<Rightarrow> list_mem \<Rightarrow> (u64 list \<times> list_mem) option" where
  "list_for_each_safe body h off m =
     (let i = list_node_to_off (n_next m h) off
      in list_for_each_safe_from body h off i (list_node_to_off (n_next m (list_node_from_off i off)) off) m)"

lemma off_inverse [simp]: "list_node_from_off (list_node_to_off n off) off = n" "list_node_to_off (list_node_from_off n off) off = n"
  by (simp_all add: list_node_from_off_def list_node_to_off_def)

lemma list_walk_path:
  "links nx pv (g # xs @ [h]) \<Longrightarrow> h \<notin> set xs \<Longrightarrow>
     list_walk nx h off (list_node_to_off (nx g) off) = Some (map (\<lambda>n. list_node_to_off n off) xs)"
proof (induction xs arbitrary: g)
  case Nil
  then show ?case by (simp add: list_walk.simps)
next
  case (Cons x xs)
  then have "nx g = x" "links nx pv (x # xs @ [h])" "x \<noteq> h" by auto
  with Cons show ?case by (subst list_walk.simps) simp
qed

lemma links_rev: "links nx pv xs \<Longrightarrow> links pv nx (rev xs)"
  by (induction nx pv xs rule: links.induct) (auto simp: links_snoc)

lemma list_for_each_entries: "list_rep m h xs \<Longrightarrow> list_for_each h off m = Some (map (\<lambda>n. list_node_to_off n off) xs)"
  unfolding list_for_each_def by (rule list_walk_path [where pv = "n_prev m"]) (simp_all add: list_rep_def)

lemma list_for_each_rev_entries:
  assumes "list_rep m h xs"
  shows "list_for_each_rev h off m = Some (map (\<lambda>n. list_node_to_off n off) (rev xs))"
proof -
  have "links (n_prev m) (n_next m) (h # rev xs @ [h])" using assms links_rev [of "n_next m" "n_prev m" "h # xs @ [h]"] by (simp add: list_rep_def)
  then show ?thesis unfolding list_for_each_rev_def using assms by (intro list_walk_path) (simp_all add: list_rep_def)
qed

abbreviation remove_if :: "(u64 \<Rightarrow> bool) \<Rightarrow> u64 \<Rightarrow> u64 \<Rightarrow> list_mem \<Rightarrow> list_mem" where
  "remove_if P off i m \<equiv> (if P i then list_del (list_node_from_off i off) m else m)"

lemma list_for_each_safe_from_removes:
  assumes "list_rep m h (ks @ xs)" "i = list_node_to_off (hd (xs @ [h])) off" "nxt = list_node_to_off (n_next m (list_node_from_off i off)) off"
  shows "\<exists>m'. list_for_each_safe_from (remove_if P off) h off i nxt m = Some (map (\<lambda>n. list_node_to_off n off) xs, m') \<and>
    list_rep m' h (ks @ filter (\<lambda>n. \<not> P (list_node_to_off n off)) xs)"
  using assms
proof (induction xs arbitrary: ks i nxt m)
  case Nil
  then show ?case by (simp add: list_for_each_safe_from.simps)
next
  case (Cons x xs)
  let ?m = "remove_if P off i m" and ?ks = "if P i then ks else ks @ [x]"
  have i: "list_node_from_off i off = x" "i = list_node_to_off x off" using Cons.prems(2) by simp_all
  have x: "x \<noteq> h" using Cons.prems(1) by (auto simp: list_rep_def)
  have nxt: "nxt = list_node_to_off (hd (xs @ [h])) off"
    using rep_ends(1) [of m h "ks @ [x]" xs] Cons.prems(1,3) i by simp
  have "list_rep ?m h (?ks @ xs)" using Cons.prems(1) list_del_rep [of m h ks x xs] i by simp
  from Cons.IH [OF this nxt refl] obtain m' where
    m': "list_for_each_safe_from (remove_if P off) h off nxt (list_node_to_off (n_next ?m (list_node_from_off nxt off)) off) ?m =
        Some (map (\<lambda>n. list_node_to_off n off) xs, m')" "list_rep m' h (?ks @ filter (\<lambda>n. \<not> P (list_node_to_off n off)) xs)" by blast
  have "list_for_each_safe_from (remove_if P off) h off i nxt m = Some (i # map (\<lambda>n. list_node_to_off n off) xs, m')"
    by (subst list_for_each_safe_from.simps) (use m'(1) x i(1) in simp)
  then show ?case using m'(2) by (cases "P i") (simp_all add: i(2))
qed

section \<open>The checker\<close>

text \<open>
  The checker runs on memory that may be corrupt: \<open>mapped\<close> tells which addresses hold a node that can be read. The outcome is the value returned, a panic, or the fault of
  reading a node at another address, \<open>NULL\<close> for example.
\<close>

datatype check_result = Returned u64 | Panic | Fault

definition corrupt :: "bool \<Rightarrow> check_result" where
  "corrupt abortstr = (if abortstr then Panic else Returned 0)"

partial_function (option) check_from :: "(u64 \<Rightarrow> bool) \<Rightarrow> list_mem \<Rightarrow> bool \<Rightarrow> u64 \<Rightarrow> u64 \<Rightarrow> u64 \<Rightarrow> check_result option" where
  [code]: "check_from mapped m abortstr node p n =
     (if n \<noteq> node
      then if \<not> mapped n then Some Fault
           else if n_prev m n \<noteq> p then Some (corrupt abortstr) else check_from mapped m abortstr node n (n_next m n)
      else if n_prev m node \<noteq> p then Some (corrupt abortstr) else Some (Returned node))"

definition list_check_node :: "(u64 \<Rightarrow> bool) \<Rightarrow> list_mem \<Rightarrow> u64 \<Rightarrow> bool \<Rightarrow> check_result option" where
  "list_check_node mapped m node abortstr =
     (if \<not> mapped node then Some Fault else check_from mapped m abortstr node node (n_next m node))"

definition list_check :: "(u64 \<Rightarrow> bool) \<Rightarrow> list_mem \<Rightarrow> u64 \<Rightarrow> bool \<Rightarrow> check_result option" where
  "list_check mapped m h abortstr =
     map_option (\<lambda>r. case r of Returned n \<Rightarrow> Returned (if n = 0 then 0 else h) | _ \<Rightarrow> r) (list_check_node mapped m h abortstr)"

text \<open>A series of nodes behind the head that the loop passes: they can be read, are distinct, and each points back to the one before.\<close>

definition passes :: "(u64 \<Rightarrow> bool) \<Rightarrow> list_mem \<Rightarrow> u64 \<Rightarrow> u64 list \<Rightarrow> bool" where
  "passes mapped m node vs \<longleftrightarrow> (\<forall>v \<in> set vs. mapped v) \<and> distinct (node # vs) \<and> links (n_next m) (n_prev m) (node # vs)"

definition runs_out :: "(u64 \<Rightarrow> bool) \<Rightarrow> list_mem \<Rightarrow> u64 \<Rightarrow> u64 list \<Rightarrow> bool" where
  "runs_out mapped m node vs \<longleftrightarrow> passes mapped m node vs \<and> \<not> mapped (n_next m (last (node # vs)))"

lemma passes_next:
  assumes "passes mapped m node (vs @ y # ys)" "p = last (node # vs)"
  shows "n_next m p = y" "n_prev m y = p" "y \<noteq> node" "mapped y"
proof -
  obtain us where "node # vs = us @ [p]" using assms(2) by (metis append_butlast_last_id list.distinct(1))
  then have u: "node # vs @ y # ys = us @ p # y # ys" by (metis append.assoc append_Cons append_Nil)
  have l: "links (n_next m) (n_prev m) (us @ p # y # ys)" using assms(1) u by (simp add: passes_def)
  show "n_next m p = y" "n_prev m y = p" using links_at [OF l] by simp_all
  show "y \<noteq> node" "mapped y" using assms(1) by (auto simp: passes_def)
qed

text \<open>The nodes passed so far are distinct, since each has one predecessor: so the loop ends.\<close>

lemma passes_new:
  assumes "passes mapped m node vs" "p = last (node # vs)" "n_next m p \<noteq> node" "n_prev m (n_next m p) = p" "mapped (n_next m p)"
  shows "passes mapped m node (vs @ [n_next m p])" "length vs < 2 ^ 64"
proof -
  let ?n = "n_next m p"
  obtain us where us: "node # vs = us @ [p]" using assms(2) by (metis append_butlast_last_id list.distinct(1))
  have new: "?n \<notin> set vs"
  proof
    assume "?n \<in> set vs"
    then obtain as bs where vs: "vs = as @ ?n # bs" by (auto dest: split_list)
    have "n_prev m ?n = last (node # as)" using passes_next(2) [OF assms(1) [unfolded vs] refl] .
    moreover have "last (node # as) \<in> set (node # as)" by (rule last_in_set) simp
    moreover have "p \<in> set (?n # bs)" using assms(2) vs last_in_set [of "?n # bs"] by simp
    moreover have "distinct (node # vs)" using assms(1) by (simp add: passes_def)
    ultimately show False using assms(4) vs by (metis (no_types) Int_iff append_Cons distinct_append empty_iff)
  qed
  have "links (n_next m) (n_prev m) (us @ [p, ?n])" using assms(1,4) us by (simp add: passes_def links_snoc)
  moreover have "us @ [p, ?n] = node # vs @ [?n]" using us by (metis append.assoc append_Cons append_Nil)
  ultimately show p: "passes mapped m node (vs @ [?n])" using assms(1,3,5) new by (auto simp: passes_def)
  then have d: "distinct (node # vs @ [?n])" by (simp add: passes_def)
  show "length vs < 2 ^ 64"
    using distinct_card [OF d] card_mono [of UNIV "set (node # vs @ [?n])"] by (simp add: card_word)
qed

lemma list_rep_next:
  assumes "list_rep m node (vs @ xs)" "p = last (node # vs)"
  shows "n_next m p = hd (xs @ [node])" "n_prev m (hd (xs @ [node])) = p"
  using rep_ends [OF assms(1)] assms(2) by simp_all

text \<open>What the checker tells of the nodes that start with \<open>vs\<close>.\<close>

definition readable_list :: "(u64 \<Rightarrow> bool) \<Rightarrow> list_mem \<Rightarrow> u64 \<Rightarrow> u64 list \<Rightarrow> bool" where
  "readable_list mapped m node xs \<longleftrightarrow> list_rep m node xs \<and> (\<forall>x \<in> set xs. mapped x)"

definition verdict :: "(u64 \<Rightarrow> bool) \<Rightarrow> list_mem \<Rightarrow> u64 \<Rightarrow> bool \<Rightarrow> u64 list \<Rightarrow> check_result" where
  "verdict mapped m node abortstr vs =
     (if \<exists>xs. readable_list mapped m node (vs @ xs) then Returned node
      else if \<exists>ys. runs_out mapped m node (vs @ ys) then Fault else corrupt abortstr)"

lemma verdict_end:
  assumes "passes mapped m node vs" "p = last (node # vs)" "n_next m p = node" "mapped node"
  shows "verdict mapped m node abortstr vs = (if n_prev m node = p then Returned node else corrupt abortstr)"
proof -
  obtain us where us: "node # vs = us @ [p]" using assms(2) by (metis append_butlast_last_id list.distinct(1))
  have r: "\<not> runs_out mapped m node (vs @ ys)" for ys
  proof (cases ys)
    case (Cons y zs)
    then show ?thesis using passes_next(1,3) [of mapped m node vs y zs, OF _ assms(2)] assms(3) by (auto simp: runs_out_def)
  qed (use assms in \<open>simp add: runs_out_def\<close>)
  have "list_rep m node (vs @ xs) \<longleftrightarrow> xs = [] \<and> n_prev m node = p" for xs
  proof
    assume r: "list_rep m node (vs @ xs)"
    have "hd (xs @ [node]) = node" using list_rep_next(1) [OF r assms(2)] assms(3) by simp
    then have "xs = []" using r by (cases xs) (auto simp: list_rep_def)
    then show "xs = [] \<and> n_prev m node = p" using list_rep_next(2) [OF r assms(2)] by simp
  next
    assume a: "xs = [] \<and> n_prev m node = p"
    have "links (n_next m) (n_prev m) (us @ [p, node])" using assms(1,3) a us by (simp add: passes_def links_snoc)
    moreover have "us @ [p, node] = node # vs @ [node]" using us by (metis append.assoc append_Cons append_Nil)
    ultimately show "list_rep m node (vs @ xs)" using a assms(1) by (simp add: list_rep_def passes_def)
  qed
  then have "(\<exists>xs. readable_list mapped m node (vs @ xs)) \<longleftrightarrow> n_prev m node = p" using assms(1) by (auto simp: readable_list_def passes_def)
  then show ?thesis using r by (simp add: verdict_def)
qed

lemma verdict_stop:
  assumes "passes mapped m node vs" "p = last (node # vs)" "n_next m p \<noteq> node" "\<not> mapped (n_next m p) \<or> n_prev m (n_next m p) \<noteq> p"
  shows "verdict mapped m node abortstr vs = (if mapped (n_next m p) then corrupt abortstr else Fault)"
proof -
  have "\<not> readable_list mapped m node (vs @ xs)" for xs
    using list_rep_next [of m node vs xs p] assms(2,3,4) by (cases xs) (auto simp: readable_list_def)
  moreover have "\<not> mapped (n_next m p)" if "runs_out mapped m node (vs @ ys)" for ys
  proof (cases ys)
    case (Cons y zs)
    then show ?thesis using passes_next(1,2,4) [of mapped m node vs y zs, OF _ assms(2)] assms(4) that by (auto simp: runs_out_def)
  qed (use assms(2) that in \<open>simp add: runs_out_def\<close>)
  moreover have "runs_out mapped m node (vs @ [])" if "\<not> mapped (n_next m p)" using assms(1,2) that by (simp add: runs_out_def)
  ultimately have "\<not> (\<exists>xs. readable_list mapped m node (vs @ xs))" "(\<exists>ys. runs_out mapped m node (vs @ ys)) \<longleftrightarrow> \<not> mapped (n_next m p)" by blast+
  then show ?thesis by (simp add: verdict_def)
qed

lemma verdict_go:
  assumes "passes mapped m node vs" "p = last (node # vs)" "n_next m p \<noteq> node" "mapped (n_next m p)"
  shows "verdict mapped m node abortstr (vs @ [n_next m p]) = verdict mapped m node abortstr vs"
proof -
  let ?n = "n_next m p"
  have "xs = ?n # tl xs" if "readable_list mapped m node (vs @ xs)" for xs
    using list_rep_next(1) [of m node vs xs, OF _ assms(2)] that assms(3) by (cases xs) (auto simp: readable_list_def)
  then have l: "(\<exists>xs. readable_list mapped m node (vs @ xs)) \<longleftrightarrow> (\<exists>xs. readable_list mapped m node ((vs @ [?n]) @ xs))"
    by (metis append.assoc append_Cons append_Nil)
  have "ys = ?n # tl ys" if "runs_out mapped m node (vs @ ys)" for ys
  proof (cases ys)
    case (Cons y zs)
    then show ?thesis using passes_next(1) [of mapped m node vs y zs, OF _ assms(2)] that by (auto simp: runs_out_def)
  qed (use assms(2,4) that in \<open>simp add: runs_out_def\<close>)
  then have r: "(\<exists>ys. runs_out mapped m node (vs @ ys)) \<longleftrightarrow> (\<exists>ys. runs_out mapped m node ((vs @ [?n]) @ ys))"
    by (metis append.assoc append_Cons append_Nil)
  show ?thesis unfolding verdict_def l r by (rule refl)
qed

lemma check_from_verdict:
  assumes "passes mapped m node vs" "p = last (node # vs)" "mapped node"
  shows "check_from mapped m abortstr node p (n_next m p) = Some (verdict mapped m node abortstr vs)"
  using assms
proof (induction "2 ^ 64 - length vs" arbitrary: vs p rule: less_induct)
  case less
  let ?n = "n_next m p"
  consider "?n = node" | "?n \<noteq> node" "\<not> mapped ?n \<or> n_prev m ?n \<noteq> p" | "?n \<noteq> node" "mapped ?n" "n_prev m ?n = p" by blast
  then show ?case
  proof cases
    case 1
    then show ?thesis using verdict_end [OF less.prems(1,2) 1 less.prems(3)] by (simp add: check_from.simps)
  next
    case 2
    then show ?thesis using verdict_stop [OF less.prems(1,2) 2] by (simp add: check_from.simps)
  next
    case 3
    note new = passes_new [OF less.prems(1,2) 3(1,3,2)]
    have "2 ^ 64 - length (vs @ [?n]) < (2 ^ 64 - length vs :: nat)" using new(2) by simp
    from less.hyps [OF this new(1) _ less.prems(3)] have "check_from mapped m abortstr node ?n (n_next m ?n) = Some (verdict mapped m node abortstr (vs @ [?n]))"
      by simp
    then show ?thesis using 3 verdict_go [OF less.prems(1,2) 3(1,2)] by (subst check_from.simps) simp
  qed
qed

section \<open>Properties\<close>

text \<open>C9: The doubly linked lists refine sequences. From any memory that holds a family of lists without common
  nodes, every series of additions, removals and concatenations whose callers keep to the contract returns what
  the sequences return and leaves a memory that holds the resulting family.\<close>

theorem list_refines_sequences:
  assumes "heap_rep m A" "list_specs ps A rs A'"
  shows "\<exists>m'. list_execs ps m = (rs, m') \<and> heap_rep m' A'"
  by (rule list_execs_refine [OF assms(2,1)])

definition zero_mem :: list_mem where
  "zero_mem = \<lparr>n_next = (\<lambda>_. 0), n_prev = (\<lambda>_. 0)\<rparr>"

text \<open>Two lists are built, joined and popped.\<close>

theorem list_refines_sequences_witness:
  "\<exists>m'. list_execs [Head_init 1, Head_init 2, Add 1 10, Add_tail 1 11, Add 2 20, Append_list 1 2, Del 11, Pop 1 0, Pop 2 0] zero_mem =
     ([0, 0, 0, 0, 0, 0, 0, 10, 0], m') \<and> heap_rep m' [1 \<mapsto> [20], 2 \<mapsto> []]"
proof -
  have s: "list_specs [Head_init 1, Head_init 2, Add 1 10, Add_tail 1 11, Add 2 20, Append_list 1 2, Del 11, Pop 1 0, Pop 2 0] Map.empty
      [0, 0, 0, 0, 0, 0, 0, 10 - 0, 0] [1 \<mapsto> [20], 2 \<mapsto> []]"
  proof (intro list_specs.intros)
    show "list_spec (Head_init 1) Map.empty 0 [1 \<mapsto> []]" by (rule list_spec.intros) (simp add: fresh_def)
    show "list_spec (Head_init 2) [1 \<mapsto> []] 0 [1 \<mapsto> [], 2 \<mapsto> []]" by (rule list_spec.intros) (simp add: fresh_def)
    have "list_spec (Add 1 10) [1 \<mapsto> [], 2 \<mapsto> []] 0 ([1 \<mapsto> [], 2 \<mapsto> []](1 \<mapsto> [10]))" by (rule list_spec.intros) (simp_all add: fresh_def)
    then show "list_spec (Add 1 10) [1 \<mapsto> [], 2 \<mapsto> []] 0 [2 \<mapsto> [], 1 \<mapsto> [10]]" by (simp add: fun_upd_twist)
    have "list_spec (Add_tail 1 11) [2 \<mapsto> [], 1 \<mapsto> [10]] 0 ([2 \<mapsto> [], 1 \<mapsto> [10]](1 \<mapsto> [10] @ [11]))" by (rule list_spec.intros) (simp_all add: fresh_def)
    then show "list_spec (Add_tail 1 11) [2 \<mapsto> [], 1 \<mapsto> [10]] 0 [2 \<mapsto> [], 1 \<mapsto> [10, 11]]" by simp
    have "list_spec (Add 2 20) [2 \<mapsto> [], 1 \<mapsto> [10, 11]] 0 ([2 \<mapsto> [], 1 \<mapsto> [10, 11]](2 \<mapsto> [20]))" by (rule list_spec.intros) (simp_all add: fresh_def)
    then show "list_spec (Add 2 20) [2 \<mapsto> [], 1 \<mapsto> [10, 11]] 0 [1 \<mapsto> [10, 11], 2 \<mapsto> [20]]" by (simp add: fun_upd_twist)
    have "list_spec (Append_list 1 2) [1 \<mapsto> [10, 11], 2 \<mapsto> [20]] 0 ([1 \<mapsto> [10, 11], 2 \<mapsto> [20]](1 \<mapsto> [10, 11] @ [20], 2 \<mapsto> []))"
      by (rule list_spec.intros) simp_all
    then show "list_spec (Append_list 1 2) [1 \<mapsto> [10, 11], 2 \<mapsto> [20]] 0 [1 \<mapsto> [10, 11, 20], 2 \<mapsto> []]" by (simp add: fun_upd_twist)
    have "list_spec (Del 11) [1 \<mapsto> [10, 11, 20], 2 \<mapsto> []] 0 ([1 \<mapsto> [10, 11, 20], 2 \<mapsto> []](1 \<mapsto> [10] @ [20]))"
      by (rule list_spec.intros) simp
    then show "list_spec (Del 11) [1 \<mapsto> [10, 11, 20], 2 \<mapsto> []] 0 [2 \<mapsto> [], 1 \<mapsto> [10, 20]]" by (simp add: fun_upd_twist)
    have "list_spec (Pop 1 0) [2 \<mapsto> [], 1 \<mapsto> [10, 20]] (10 - 0) ([2 \<mapsto> [], 1 \<mapsto> [10, 20]](1 \<mapsto> [20]))"
      by (rule list_spec.intros) simp
    then show "list_spec (Pop 1 0) [2 \<mapsto> [], 1 \<mapsto> [10, 20]] (10 - 0) [1 \<mapsto> [20], 2 \<mapsto> []]" by (simp add: fun_upd_twist)
    show "list_spec (Pop 2 0) [1 \<mapsto> [20], 2 \<mapsto> []] 0 [1 \<mapsto> [20], 2 \<mapsto> []]" by (rule list_spec.intros) simp
  qed (rule list_specs.intros)
  have "heap_rep zero_mem Map.empty" by (simp add: heap_rep_def)
  from list_refines_sequences [OF this s] show ?thesis by simp
qed

text \<open>The loops end and visit every entry of a well-formed list once, forwards and backwards. The safe loop does
  so even if its body removes entries, and leaves exactly the others, in their order.\<close>

theorem list_loops_visit_all:
  assumes "list_rep m h xs"
  shows "list_for_each h off m = Some (map (\<lambda>n. list_node_to_off n off) xs) \<and>
    list_for_each_rev h off m = Some (map (\<lambda>n. list_node_to_off n off) (rev xs)) \<and>
    (\<exists>m'. list_for_each_safe (remove_if P off) h off m = Some (map (\<lambda>n. list_node_to_off n off) xs, m') \<and>
       list_rep m' h (filter (\<lambda>n. \<not> P (list_node_to_off n off)) xs))"
proof -
  have "n_next m h = hd (xs @ [h])" by (rule rep_ends_simps(1) [OF assms])
  then have "\<exists>m'. list_for_each_safe (remove_if P off) h off m = Some (map (\<lambda>n. list_node_to_off n off) xs, m') \<and>
       list_rep m' h ([] @ filter (\<lambda>n. \<not> P (list_node_to_off n off)) xs)"
    unfolding list_for_each_safe_def Let_def by (intro list_for_each_safe_from_removes) (use assms in simp_all)
  then show ?thesis using list_for_each_entries [OF assms] list_for_each_rev_entries [OF assms] by simp
qed

theorem list_loops_visit_all_witness:
  "list_for_each 1 8 (list_add_tail 1 30 (list_add_tail 1 20 (list_head_init 1 zero_mem))) = Some [12, 22]"
proof -
  have "list_rep (list_add_tail 1 30 (list_add_tail 1 20 (list_head_init 1 zero_mem))) 1 (([] @ [20]) @ [30])"
    by (intro list_add_tail_rep list_head_init_rep) simp_all
  from list_loops_visit_all [OF this, of 8] show ?thesis by (simp add: list_node_to_off_def)
qed

text \<open>C22: The checker always comes to an end, whatever the memory holds, cycles included: it returns the node exactly when the node heads a
  well-formed list of nodes that can be read; it faults exactly when the head cannot be read or when nodes that point back properly lead from it to an address
  that cannot be read; and otherwise it reports the corruption, with \<open>NULL\<close> or, when there is a message to print, a panic.\<close>

theorem list_check_decides:
  "list_check_node mapped m node abortstr = Some
     (if mapped node \<and> (\<exists>xs. list_rep m node xs \<and> (\<forall>x \<in> set xs. mapped x)) then Returned node
      else if \<not> mapped node \<or> (\<exists>vs. passes mapped m node vs \<and> \<not> mapped (n_next m (last (node # vs)))) then Fault
      else if abortstr then Panic else Returned 0)"
proof (cases "mapped node")
  case True
  have "check_from mapped m abortstr node node (n_next m node) = Some (verdict mapped m node abortstr [])"
    by (rule check_from_verdict) (simp_all add: passes_def True)
  then have "list_check_node mapped m node abortstr = Some (verdict mapped m node abortstr [])" using True by (simp add: list_check_node_def)
  then show ?thesis unfolding verdict_def readable_list_def runs_out_def corrupt_def append_Nil using True by (simp only: simp_thms)
qed (simp add: list_check_node_def)

text \<open>A list of two nodes, and a head whose successor is \<open>NULL\<close>, which is not mapped.\<close>

theorem list_check_decides_witness:
  "list_check_node (\<lambda>a. a \<noteq> 0) (list_add_tail 1 30 (list_add_tail 1 20 (list_head_init 1 zero_mem))) 1 True = Some (Returned 1) \<and>
   list_check_node (\<lambda>a. a \<noteq> 0) zero_mem 1 True = Some Fault"
proof -
  have "list_rep (list_add_tail 1 30 (list_add_tail 1 20 (list_head_init 1 zero_mem))) 1 (([] @ [20]) @ [30])"
    by (intro list_add_tail_rep list_head_init_rep) simp_all
  then have "\<exists>xs. list_rep (list_add_tail 1 30 (list_add_tail 1 20 (list_head_init 1 zero_mem))) 1 xs \<and> (\<forall>x \<in> set xs. x \<noteq> 0)"
    by (intro exI [of _ "([] @ [20]) @ [30]"]) simp
  moreover have "passes (\<lambda>a. a \<noteq> 0) zero_mem 1 []" "n_next zero_mem 1 = 0" by (simp_all add: passes_def zero_mem_def)
  moreover have "\<not> (\<exists>xs. list_rep zero_mem 1 xs \<and> (\<forall>x \<in> set xs. x \<noteq> 0))"
  proof
    assume "\<exists>xs. list_rep zero_mem 1 xs \<and> (\<forall>x \<in> set xs. x \<noteq> 0)"
    then obtain xs where x: "list_rep zero_mem 1 xs" "\<forall>x \<in> set xs. x \<noteq> 0" by blast
    have "hd (xs @ [1]) = 0" using list_rep_next(1) [of zero_mem 1 "[]" xs 1] x(1) by (simp add: zero_mem_def)
    then show False using x(2) by (cases xs) auto
  qed
  ultimately show ?thesis
    using list_check_decides [of "\<lambda>a. a \<noteq> 0" "list_add_tail 1 30 (list_add_tail 1 20 (list_head_init 1 zero_mem))" 1 True]
      list_check_decides [of "\<lambda>a. a \<noteq> 0" zero_mem 1 True] by (auto intro: exI [of _ "[]"])
qed

end
