(* ===== verification/List_Single.thy ===== *)
theory List_Single
  imports List_Heap "HOL-Library.Monad_Syntax"
begin

text \<open>
  The singly linked list (\<^verbatim>\<open>slist\<close>) and the list with a single head pointer (\<^verbatim>\<open>hlist\<close>) of
  \<^verbatim>\<open>utils/list.h\<close>. The memory of the first maps a node to the next one. In the second, \<open>cell a\<close> is the pointer
  stored at address \<open>a\<close>, which is the field \<^verbatim>\<open>head\<close> of a head or the field \<^verbatim>\<open>next\<close> of a node, both at
  offset 0, so that the field \<^verbatim>\<open>pprev\<close> can point to either.
\<close>

section \<open>Singly linked lists\<close>

type_synonym slist_mem = "u64 \<Rightarrow> u64"

definition slist_init_head :: "u64 \<Rightarrow> slist_mem \<Rightarrow> slist_mem" where
  "slist_init_head h m = m(h := 0)"

definition slist_add_head :: "u64 \<Rightarrow> u64 \<Rightarrow> slist_mem \<Rightarrow> slist_mem" where
  "slist_add_head h n m = (let m = m(n := m h) in m(h := n))"

definition slist_del_head :: "u64 \<Rightarrow> slist_mem \<Rightarrow> slist_mem" where
  "slist_del_head h m = m(h := m (m h))"

definition slist_del :: "u64 \<Rightarrow> u64 \<Rightarrow> slist_mem \<Rightarrow> slist_mem" where
  "slist_del prv n m = m(prv := m n)"

definition slist_empty :: "u64 \<Rightarrow> slist_mem \<Rightarrow> bool" where
  "slist_empty h m \<longleftrightarrow> m h = 0"

definition slist_pop :: "u64 \<Rightarrow> u64 \<Rightarrow> slist_mem \<Rightarrow> u64 \<times> slist_mem" where
  "slist_pop h off m =
     (if slist_empty h m then (0, m)
      else let n = m h in (n - off, slist_del h n m))"

partial_function (option) slist_walk :: "slist_mem \<Rightarrow> u64 \<Rightarrow> u64 list option" where
  [code]: "slist_walk m pos = (if pos = 0 then Some [] else do { ps \<leftarrow> slist_walk m (m pos); Some (pos # ps) })"

definition slist_for_each :: "u64 \<Rightarrow> slist_mem \<Rightarrow> u64 list option" where
  "slist_for_each h m = slist_walk m (m h)"

fun spath :: "slist_mem \<Rightarrow> u64 \<Rightarrow> u64 list \<Rightarrow> bool" where
  "spath m p [] \<longleftrightarrow> m p = 0"
| "spath m p (x # xs) \<longleftrightarrow> m p = x \<and> x \<noteq> 0 \<and> spath m x xs"

definition slist_rep :: "slist_mem \<Rightarrow> u64 \<Rightarrow> u64 list \<Rightarrow> bool" where
  "slist_rep m h xs \<longleftrightarrow> distinct (h # xs) \<and> spath m h xs"

lemma spath_upd: "a \<notin> set (p # xs) \<Longrightarrow> spath (m(a := v)) p xs = spath m p xs"
  by (induction xs arbitrary: p) auto

lemma slist_add_head_rep: "slist_rep m h xs \<Longrightarrow> n \<notin> set (h # xs) \<Longrightarrow> n \<noteq> 0 \<Longrightarrow> slist_rep (slist_add_head h n m) h (n # xs)"
  by (cases xs) (auto simp: slist_rep_def slist_add_head_def spath_upd)

lemma slist_del_head_rep: "slist_rep m h (x # xs) \<Longrightarrow> slist_rep (slist_del_head h m) h xs"
  by (cases xs) (auto simp: slist_rep_def slist_del_head_def spath_upd)

lemma slist_pop_rep:
  "slist_rep m h [] \<Longrightarrow> slist_pop h off m = (0, m)"
  "slist_rep m h (x # xs) \<Longrightarrow> \<exists>m'. slist_pop h off m = (x - off, m') \<and> slist_rep m' h xs"
  using slist_del_head_rep [of m h x xs]
  by (auto simp: slist_pop_def slist_empty_def slist_rep_def slist_del_def slist_del_head_def)

lemma slist_del_rep: "slist_rep m h (xs @ n # ys) \<Longrightarrow> slist_rep (slist_del (last (h # xs)) n m) h (xs @ ys)"
proof -
  have "spath m p (xs @ n # ys) \<Longrightarrow> distinct (p # xs @ n # ys) \<Longrightarrow> spath (slist_del (last (p # xs)) n m) p (xs @ ys)" for p
  proof (induction xs arbitrary: p)
    case Nil
    have "spath (m(p := v)) (hd ys) (tl ys) = spath m (hd ys) (tl ys)" if "ys \<noteq> []" for v
      using Nil(2) that by (intro spath_upd) (cases ys, auto)
    then show ?case using Nil by (cases ys) (simp_all add: slist_del_def fun_upd_def)
  next
    case (Cons x xs)
    have "last (x # xs) \<in> set (x # xs)" by (rule last_in_set) simp
    with Cons.prems(2) have "last (x # xs) \<noteq> p" by auto
    with Cons show ?case by (auto simp: slist_del_def)
  qed
  then show "slist_rep m h (xs @ n # ys) \<Longrightarrow> slist_rep (slist_del (last (h # xs)) n m) h (xs @ ys)" by (auto simp: slist_rep_def)
qed

lemma slist_for_each_all: "slist_rep m h xs \<Longrightarrow> slist_for_each h m = Some xs"
proof -
  have "spath m p xs \<Longrightarrow> slist_walk m (m p) = Some xs" for p
    by (induction xs arbitrary: p) (simp_all add: slist_walk.simps)
  then show "slist_rep m h xs \<Longrightarrow> slist_for_each h m = Some xs" by (simp add: slist_rep_def slist_for_each_def)
qed

section \<open>Lists with a single head pointer\<close>

record hlist_mem =
  cell :: "u64 \<Rightarrow> u64"
  pprev :: "u64 \<Rightarrow> u64"

definition hlist_init_head :: "u64 \<Rightarrow> hlist_mem \<Rightarrow> hlist_mem" where
  "hlist_init_head h m = m\<lparr>cell := (cell m)(h := 0)\<rparr>"

definition hlist_add_head :: "u64 \<Rightarrow> u64 \<Rightarrow> hlist_mem \<Rightarrow> hlist_mem" where
  "hlist_add_head h n m =
     (let head = cell m h;
          m = m\<lparr>cell := (cell m)(n := head)\<rparr>;
          m = m\<lparr>pprev := (pprev m)(n := h)\<rparr>;
          m = m\<lparr>cell := (cell m)(h := n)\<rparr>
      in if head \<noteq> 0 then m\<lparr>pprev := (pprev m)(head := n)\<rparr> else m)"

definition hlist_del :: "u64 \<Rightarrow> hlist_mem \<Rightarrow> hlist_mem" where
  "hlist_del n m =
     (let m = m\<lparr>cell := (cell m)(pprev m n := cell m n)\<rparr>
      in if cell m n \<noteq> 0 then m\<lparr>pprev := (pprev m)(cell m n := pprev m n)\<rparr> else m)"

definition hlist_del_head :: "u64 \<Rightarrow> hlist_mem \<Rightarrow> hlist_mem" where
  "hlist_del_head h m = (if cell m h \<noteq> 0 then hlist_del (cell m h) m else m)"

definition hlist_empty :: "u64 \<Rightarrow> hlist_mem \<Rightarrow> bool" where
  "hlist_empty h m \<longleftrightarrow> cell m h = 0"

definition hlist_for_each :: "u64 \<Rightarrow> hlist_mem \<Rightarrow> u64 list option" where
  "hlist_for_each h m = slist_walk (cell m) (cell m h)"

definition hlist_rep :: "hlist_mem \<Rightarrow> u64 \<Rightarrow> u64 list \<Rightarrow> bool" where
  "hlist_rep m h xs \<longleftrightarrow> distinct (h # xs) \<and> 0 \<notin> set (h # xs) \<and> links (cell m) (pprev m) (h # xs) \<and> cell m (last (h # xs)) = 0"

lemma hlist_init_head_rep: "h \<noteq> 0 \<Longrightarrow> hlist_rep (hlist_init_head h m) h []"
  by (simp add: hlist_rep_def hlist_init_head_def)

lemma hlist_add_head_rep:
  assumes "hlist_rep m h xs" "n \<notin> set (h # xs)" "n \<noteq> 0"
  shows "hlist_rep (hlist_add_head h n m) h (n # xs)"
proof (cases xs)
  case Nil
  then show ?thesis using assms by (auto simp: hlist_rep_def hlist_add_head_def)
next
  case (Cons x ys)
  let ?m = "hlist_add_head h n m"
  have c: "cell m h = x" "x \<noteq> 0" "links (cell m) (pprev m) (x # ys)" using assms(1) Cons by (auto simp: hlist_rep_def)
  have "cell ?m = (cell m)(n := x, h := n)" "pprev ?m = (pprev m)(n := h, x := n)" using c by (simp_all add: hlist_add_head_def Let_def)
  moreover have "links ((cell m)(n := x, h := n)) ((pprev m)(n := h, x := n)) (x # ys) = links (cell m) (pprev m) (x # ys)"
    by (rule links_cong) (use assms Cons in \<open>auto simp: hlist_rep_def dest: in_set_butlastD split: if_splits\<close>)
  ultimately have "links (cell ?m) (pprev ?m) (h # n # xs)" "cell ?m = (cell m)(n := x, h := n)" using assms c(3) Cons by auto
  moreover have "last xs \<in> set xs" "last (h # n # xs) = last xs" "last (h # xs) = last xs" using Cons by simp_all
  moreover from this assms have "last xs \<noteq> n" "last xs \<noteq> h" "cell m (last xs) = 0" by (auto simp: hlist_rep_def)
  ultimately show ?thesis using assms by (auto simp: hlist_rep_def simp del: last.simps links.simps)
qed

lemma hlist_del_rep:
  assumes "hlist_rep m h (xs @ n # ys)"
  shows "hlist_rep (hlist_del n m) h (xs @ ys)"
proof -
  obtain us a where a: "h # xs = us @ [a]" by (metis append_butlast_last_id list.distinct(1))
  have e: "h # xs @ n # ys = us @ a # n # ys" "h # xs @ ys = us @ a # ys" using a by (metis append.assoc append_Cons append_Nil)+
  have r: "distinct (us @ a # n # ys)" "0 \<notin> set (us @ a # n # ys)" "links (cell m) (pprev m) (us @ a # n # ys)" "cell m (last (us @ a # n # ys)) = 0"
    using assms unfolding hlist_rep_def e by auto
  have p: "pprev m n = a" using links_at(2) [OF r(3)] .
  have "distinct (us @ a # ys) \<and> 0 \<notin> set (us @ a # ys) \<and> links (cell (hlist_del n m)) (pprev (hlist_del n m)) (us @ a # ys) \<and>
      cell (hlist_del n m) (last (us @ a # ys)) = 0"
  proof (cases ys)
    case Nil
    then have n: "cell m n = 0" using r(4) by simp
    have l: "links (cell m) (pprev m) (us @ [a])" using r(3) links_append [of _ _ us a "[n]"] Nil by simp
    have "links ((cell m)(a := 0)) (pprev m) (us @ [a]) = links (cell m) (pprev m) (us @ [a])"
      by (rule links_cong) (use r(1) in auto)
    then show ?thesis using Nil n p l r(1,2) by (auto simp: hlist_del_def Let_def)
  next
    case (Cons b vs)
    have n: "cell m n = b" "a \<noteq> n" "b \<noteq> 0" using links_at(1) [of "cell m" "pprev m" "us @ [a]" n b vs] r Cons by auto
    have d: "hlist_del n m = m\<lparr>cell := (cell m)(a := b), pprev := (pprev m)(b := a)\<rparr>" using p n by (simp add: hlist_del_def Let_def)
    have "links (cell (hlist_del n m)) (pprev (hlist_del n m)) (us @ a # b # vs)"
    proof (rule links_delete [of "cell m" "pprev m" us a n b vs])
      show "links (cell m) (pprev m) (us @ a # n # b # vs)" "a \<notin> set us" "b \<notin> set vs" using r Cons by auto
      show "n \<notin> set us" "n \<notin> set vs" "n \<noteq> a" "n \<noteq> b" using r(1) Cons by auto
      show "a \<notin> set (butlast (b # vs))" using r(1) Cons by (auto dest: in_set_butlastD)
      show "b \<notin> set (tl (us @ [a]))" using r(1) Cons by (cases us) auto
    qed (simp_all add: d)
    moreover have "last (b # vs) \<in> set (b # vs)" by (rule last_in_set) simp
    ultimately show ?thesis using r Cons d by auto
  qed
  then show ?thesis unfolding hlist_rep_def e(2) by (simp add: e(2))
qed

end
