(* ===== verification/Bitmap.thy ===== *)
theory Bitmap
  imports Prelude
begin

text \<open>
  The bit arrays of \<^verbatim>\<open>utils/bitmap.h\<close> and \<^verbatim>\<open>utils/bitmap.c\<close>. An array is a function from the index of a 64-bit word
  to the word. Bit numbers are natural numbers; the sources use non-negative values of type \<^verbatim>\<open>int\<close>. The atomic
  variants of the operations compute the same and have no definitions of their own, except for the test-and-set.
\<close>

type_synonym bitmap = "nat \<Rightarrow> u64"

definition BITS_PER_LONG :: nat where
  "BITS_PER_LONG = 64"

definition BITMAP_LONG_SIZE :: "nat \<Rightarrow> nat" where
  "BITMAP_LONG_SIZE nbits = (nbits + BITS_PER_LONG - 1) div BITS_PER_LONG"

definition BITMAP_POS_IDX :: "nat \<Rightarrow> nat" where
  "BITMAP_POS_IDX pos = pos div BITS_PER_LONG"

definition BITMAP_POS_SHIFT :: "nat \<Rightarrow> nat" where
  "BITMAP_POS_SHIFT pos = pos mod BITS_PER_LONG"

definition bitmap_set :: "bitmap \<Rightarrow> nat \<Rightarrow> bitmap" where
  "bitmap_set bits pos = bits(BITMAP_POS_IDX pos := bits (BITMAP_POS_IDX pos) OR push_bit (BITMAP_POS_SHIFT pos) 1)"

definition bitmap_clear :: "bitmap \<Rightarrow> nat \<Rightarrow> bitmap" where
  "bitmap_clear bits pos = bits(BITMAP_POS_IDX pos := bits (BITMAP_POS_IDX pos) AND NOT (push_bit (BITMAP_POS_SHIFT pos) 1))"

definition bitmap_test :: "bitmap \<Rightarrow> nat \<Rightarrow> bool" where
  "bitmap_test bits pos \<longleftrightarrow> bits (BITMAP_POS_IDX pos) AND push_bit (BITMAP_POS_SHIFT pos) 1 \<noteq> 0"

definition bitmap_atomic_test_and_set :: "bitmap \<Rightarrow> nat \<Rightarrow> bool \<times> bitmap" where
  "bitmap_atomic_test_and_set bits pos =
     (let b = push_bit (BITMAP_POS_SHIFT pos) 1;
          old = bits (BITMAP_POS_IDX pos)
      in (old AND b \<noteq> 0, bits(BITMAP_POS_IDX pos := old OR b)))"

definition bitmap_init :: "bitmap \<Rightarrow> nat \<Rightarrow> bool \<Rightarrow> bitmap" where
  "bitmap_init bits nbits st = (\<lambda>i. if i < BITMAP_LONG_SIZE nbits then if st then - 1 else 0 else bits i)"

text \<open>\<^verbatim>\<open>__builtin_ffsl\<close>: one more than the index of the lowest set bit, or 0.\<close>

definition ffsl :: "u64 \<Rightarrow> nat" where
  "ffsl v = (case filter (bit v) [0..<64] of [] \<Rightarrow> 0 | i # _ \<Rightarrow> Suc i)"

text \<open>The loop of \<^verbatim>\<open>bitmap_find_next\<close> from the word that starts at bit \<open>idx\<close>.\<close>

function find_next_from :: "bitmap \<Rightarrow> nat \<Rightarrow> bool \<Rightarrow> nat \<Rightarrow> u64 \<Rightarrow> nat" where
  "find_next_from bits nbits invert idx msk =
     (if idx < nbits
      then let v = bits (BITMAP_POS_IDX idx);
               v = (if invert then NOT v else v) AND msk
           in if v \<noteq> 0 then min (idx + ffsl v - 1) nbits
              else find_next_from bits nbits invert (idx + BITS_PER_LONG) (- 1)
      else nbits)"
  by pat_completeness auto
termination
  by (relation "measure (\<lambda>(bits, nbits, invert, idx, msk). nbits - idx)") (auto simp: BITS_PER_LONG_def)

declare find_next_from.simps [simp del]

definition bitmap_find_next :: "bitmap \<Rightarrow> nat \<Rightarrow> nat \<Rightarrow> bool \<Rightarrow> nat" where
  "bitmap_find_next bits nbits pos invert =
     find_next_from bits nbits invert (pos div BITS_PER_LONG * BITS_PER_LONG) (NOT (push_bit (BITMAP_POS_SHIFT pos) 1 - 1))"

definition bitmap_find_next_cleared :: "bitmap \<Rightarrow> nat \<Rightarrow> nat \<Rightarrow> nat" where
  "bitmap_find_next_cleared bits nbits pos = bitmap_find_next bits nbits pos True"

definition bitmap_find_next_set :: "bitmap \<Rightarrow> nat \<Rightarrow> nat \<Rightarrow> nat" where
  "bitmap_find_next_set bits nbits pos = bitmap_find_next bits nbits pos False"

section \<open>Bits\<close>

lemma test_bit: "bitmap_test bits pos \<longleftrightarrow> bit (bits (pos div 64)) (pos mod 64)"
proof -
  have "w AND push_bit n 1 \<noteq> 0 \<longleftrightarrow> bit w n" for w :: u64 and n
    by (simp add: push_bit_of_1 and_exp_eq_0_iff_not_bit)
  then show ?thesis by (simp add: bitmap_test_def BITMAP_POS_IDX_def BITMAP_POS_SHIFT_def BITS_PER_LONG_def)
qed

lemma same_pos: "p div 64 = q div 64 \<Longrightarrow> p mod 64 = q mod 64 \<Longrightarrow> p = (q :: nat)"
  by (metis div_mult_mod_eq)

lemma bitmap_test_set: "bitmap_test (bitmap_set bits p) q \<longleftrightarrow> q = p \<or> bitmap_test bits q"
  using same_pos [of q p] by (auto simp: test_bit bitmap_set_def BITMAP_POS_IDX_def BITMAP_POS_SHIFT_def BITS_PER_LONG_def bit_simps)

lemma bitmap_test_clear: "bitmap_test (bitmap_clear bits p) q \<longleftrightarrow> q \<noteq> p \<and> bitmap_test bits q"
  using same_pos [of q p] by (auto simp: test_bit bitmap_clear_def BITMAP_POS_IDX_def BITMAP_POS_SHIFT_def BITS_PER_LONG_def bit_simps)

lemma bitmap_test_and_set: "bitmap_atomic_test_and_set bits p = (bitmap_test bits p, bitmap_set bits p)"
  by (simp add: bitmap_atomic_test_and_set_def bitmap_test_def bitmap_set_def Let_def)

lemma bitmap_test_init:
  assumes "q < nbits"
  shows "bitmap_test (bitmap_init bits nbits st) q \<longleftrightarrow> st"
proof -
  have "q div 64 < (nbits + 64 - 1) div 64" using assms by (simp add: less_eq_Suc_le div_le_mono)
  then show ?thesis by (auto simp: test_bit bitmap_init_def BITMAP_LONG_SIZE_def BITS_PER_LONG_def)
qed

lemma filter_first: "filter P xs = x # ys \<Longrightarrow> \<exists>us vs. xs = us @ x # vs \<and> P x \<and> (\<forall>u \<in> set us. \<not> P u)"
  by (metis filter_eq_Cons_iff)

lemma ffsl_least:
  assumes "v \<noteq> 0"
  obtains i where "ffsl v = Suc i" "bit v i" "i < 64" "\<And>j. j < i \<Longrightarrow> \<not> bit v j"
proof -
  obtain n where "bit v n" "n < 64" using assms by (auto simp: bit_eq_iff dest: bit_imp_le_length)
  then have "n \<in> set (filter (bit v) [0..<64])" by simp
  then obtain i js where i: "filter (bit v) [0..<64] = i # js" by (cases "filter (bit v) [0..<64]") auto
  have "i \<in> set (filter (bit v) [0..<64])" by (simp add: i)
  then have b: "bit v i" "i < 64" by auto
  have "sorted (i # js)" using sorted_filter [of "\<lambda>x. x" "[0..<64]" "bit v"] by (simp flip: i)
  have "\<not> bit v j" if j: "j < i" for j
  proof
    assume "bit v j"
    with j b(2) have "j \<in> set (filter (bit v) [0..<64])" by simp
    with \<open>sorted (i # js)\<close> j show False by (auto simp: i)
  qed
  with b i show ?thesis by (intro that [of i]) (auto simp: ffsl_def)
qed

text \<open>What the loop looks for in the range of bits from \<open>pos\<close> on.\<close>

definition wanted :: "bitmap \<Rightarrow> nat \<Rightarrow> bool \<Rightarrow> nat \<Rightarrow> nat set" where
  "wanted bits nbits invert pos = {q. pos \<le> q \<and> q < nbits \<and> bitmap_test bits q \<noteq> invert}"

lemma find_next_from_least:
  assumes "\<And>n. n < 64 \<Longrightarrow> bit msk n \<longleftrightarrow> pos \<le> idx + n" "idx mod 64 = 0" "idx \<le> pos" "pos < idx + 64"
  shows "find_next_from bits nbits invert idx msk =
    (if wanted bits nbits invert pos = {} then nbits else Min (wanted bits nbits invert pos))"
  using assms
proof (induction bits nbits invert idx msk arbitrary: pos rule: find_next_from.induct)
  case (1 bits nbits invert idx msk)
  let ?v = "(if invert then NOT (bits (idx div 64)) else bits (idx div 64)) AND msk"
  let ?W = "wanted bits nbits invert pos"
  have bv: "bit ?v n \<longleftrightarrow> n < 64 \<and> pos \<le> idx + n \<and> bitmap_test bits (idx + n) \<noteq> invert" for n
  proof (cases "n < 64")
    case True
    then have "(idx + n) div 64 = idx div 64" "(idx + n) mod 64 = n" using 1(3) by (auto simp: div_add_self1 mod_add_eq elim!: dvdE simp flip: dvd_eq_mod_eq_0)
    then show ?thesis using True 1(2) [OF True] by (auto simp: test_bit bit_simps)
  next
    case False
    then show ?thesis using bit_imp_le_length [of ?v n] by auto
  qed
  show ?case
  proof (cases "idx < nbits")
    case False
    then have "?W = {}" using 1(4) by (auto simp: wanted_def)
    then show ?thesis using False by (simp add: find_next_from.simps)
  next
    case lt: True
    show ?thesis
    proof (cases "?v = 0")
      case True
      have no: "\<not> (pos \<le> q \<and> bitmap_test bits q \<noteq> invert)" if "idx \<le> q" "q < idx + 64" for q
        using bv [of "q - idx"] that True by simp
      have W: "?W = wanted bits nbits invert (idx + 64)"
        using no 1(4,5) by (auto simp: wanted_def) (metis le_trans not_less)+
      have "find_next_from bits nbits invert (idx + 64) (- 1) =
          (if wanted bits nbits invert (idx + 64) = {} then nbits else Min (wanted bits nbits invert (idx + 64)))"
        using 1(1) [OF lt refl refl, of "idx + 64", unfolded BITMAP_POS_IDX_def BITS_PER_LONG_def] True 1(3) by simp
      then show ?thesis using W True lt
        by (subst find_next_from.simps) (simp add: BITMAP_POS_IDX_def BITS_PER_LONG_def Let_def)
    next
      case False
      then obtain i where i: "ffsl ?v = Suc i" "bit ?v i" "i < 64" "\<And>j. j < i \<Longrightarrow> \<not> bit ?v j" by (rule ffsl_least) blast
      have r: "find_next_from bits nbits invert idx msk = min (idx + i) nbits"
        using False lt i(1) by (subst find_next_from.simps) (simp add: BITMAP_POS_IDX_def BITS_PER_LONG_def Let_def)
      have low: "idx + i \<le> q" if "q \<in> ?W" for q
      proof (rule ccontr)
        assume "\<not> idx + i \<le> q"
        then have "q - idx < i" "idx \<le> q" using that 1(4) by (auto simp: wanted_def)
        then show False using i(3) i(4) [of "q - idx"] bv [of "q - idx"] that by (simp add: wanted_def)
      qed
      show ?thesis
      proof (cases "idx + i < nbits")
        case True
        then have "idx + i \<in> ?W" using i(2) bv [of i] by (simp add: wanted_def)
        moreover from this low have "Min ?W = idx + i" by (intro Min_eqI) (auto simp: wanted_def)
        ultimately show ?thesis using r True by auto
      next
        case False
        then have "?W = {}" using low by (fastforce simp: wanted_def)
        then show ?thesis using r False by simp
      qed
    qed
  qed
qed

lemma find_next_least:
  "bitmap_find_next bits nbits pos invert = (if wanted bits nbits invert pos = {} then nbits else Min (wanted bits nbits invert pos))"
  unfolding bitmap_find_next_def BITS_PER_LONG_def
proof (rule find_next_from_least)
  have *: "push_bit k 1 - 1 = (Bit_Operations.mask k :: u64)" for k by (simp add: mask_eq_exp_minus_1 push_bit_of_1)
  show "bit (NOT (push_bit (BITMAP_POS_SHIFT pos) 1 - 1) :: u64) n \<longleftrightarrow> pos \<le> pos div 64 * 64 + n" if "n < 64" for n
  proof -
    have "pos \<le> pos div 64 * 64 + n \<longleftrightarrow> pos mod 64 \<le> n" using div_mult_mod_eq [of pos 64] by linarith
    then show ?thesis using that by (simp only: *) (auto simp: bit_simps BITMAP_POS_SHIFT_def BITS_PER_LONG_def)
  qed
  show "pos < pos div 64 * 64 + 64" using div_mult_mod_eq [of pos 64] mod_less_divisor [of 64 pos] by linarith
qed simp_all

lemma find_next_in:
  "bitmap_find_next bits nbits pos invert \<le> nbits"
  "bitmap_find_next bits nbits pos invert < nbits \<Longrightarrow> bitmap_find_next bits nbits pos invert \<in> wanted bits nbits invert pos"
proof -
  let ?W = "wanted bits nbits invert pos"
  have "finite ?W" by (simp add: wanted_def)
  then have *: "Min ?W \<in> ?W" if "?W \<noteq> {}" using that by (rule Min_in)
  then show "bitmap_find_next bits nbits pos invert < nbits \<Longrightarrow> bitmap_find_next bits nbits pos invert \<in> ?W"
    by (auto simp: find_next_least split: if_splits)
  have "q \<le> nbits" if "q \<in> ?W" for q using that by (simp add: wanted_def)
  with * show "bitmap_find_next bits nbits pos invert \<le> nbits" by (simp add: find_next_least)
qed

section \<open>The loops over bits\<close>

text \<open>\<^verbatim>\<open>bitmap_for_each_set\<close> and \<^verbatim>\<open>bitmap_for_each_cleared\<close>: the positions given to the body, from \<open>pos\<close> on.\<close>

lemma find_next_either:
  "(if invert then bitmap_find_next_cleared bits nbits pos else bitmap_find_next_set bits nbits pos) = bitmap_find_next bits nbits pos invert"
  by (simp add: bitmap_find_next_cleared_def bitmap_find_next_set_def)

function for_each_from :: "bitmap \<Rightarrow> nat \<Rightarrow> bool \<Rightarrow> nat \<Rightarrow> nat list" where
  "for_each_from bits nbits invert pos =
     (let p = (if invert then bitmap_find_next_cleared bits nbits pos else bitmap_find_next_set bits nbits pos)
      in if p < nbits then p # for_each_from bits nbits invert (p + 1) else [])"
  by pat_completeness auto
termination
proof (relation "measure (\<lambda>(bits, nbits, invert, pos). nbits - pos)")
  fix bits nbits invert pos p
  assume p: "p = (if invert then bitmap_find_next_cleared bits nbits pos else bitmap_find_next_set bits nbits pos)" "p < nbits"
  then have "p \<in> wanted bits nbits invert pos" unfolding find_next_either using find_next_in(2) by simp
  then show "((bits, nbits, invert, p + 1), bits, nbits, invert, pos) \<in> measure (\<lambda>(bits, nbits, invert, pos). nbits - pos)"
    using p(2) by (auto simp: wanted_def)
qed simp

declare for_each_from.simps [simp del]

lemmas for_each_from_step = for_each_from.simps [unfolded find_next_either]

definition bitmap_for_each_set :: "bitmap \<Rightarrow> nat \<Rightarrow> nat list" where
  "bitmap_for_each_set bits nbits = for_each_from bits nbits False 0"

definition bitmap_for_each_cleared :: "bitmap \<Rightarrow> nat \<Rightarrow> nat list" where
  "bitmap_for_each_cleared bits nbits = for_each_from bits nbits True 0"

lemma for_each_from_filter: "for_each_from bits nbits invert pos = filter (\<lambda>q. bitmap_test bits q \<noteq> invert) [pos..<nbits]"
proof (induction bits nbits invert pos rule: for_each_from.induct)
  case (1 bits nbits invert pos)
  note IH = "1.IH" [unfolded find_next_either]
  let ?W = "wanted bits nbits invert pos" and ?p = "bitmap_find_next bits nbits pos invert"
  show ?case
  proof (cases "?W = {}")
    case True
    then have "filter (\<lambda>q. bitmap_test bits q \<noteq> invert) [pos..<nbits] = []" by (auto simp: filter_empty_conv wanted_def)
    then show ?thesis using True by (subst for_each_from_step) (simp add: find_next_least)
  next
    case False
    have fin: "finite ?W" by (simp add: wanted_def)
    have p: "?p = Min ?W" using False by (simp add: find_next_least)
    then have in_W: "?p \<in> ?W" and low: "\<And>q. q \<in> ?W \<Longrightarrow> ?p \<le> q" using Min_in [OF fin False] Min_le [OF fin] by auto
    then have b: "pos \<le> ?p" "?p < nbits" "bitmap_test bits ?p \<noteq> invert" by (auto simp: wanted_def)
    have "[pos..<nbits] = [pos..<?p] @ ?p # [?p + 1..<nbits]" 
      using b upt_add_eq_append [of pos ?p "nbits - ?p"] upt_conv_Cons [of ?p nbits] by simp
    moreover have "filter (\<lambda>q. bitmap_test bits q \<noteq> invert) [pos..<?p] = []" using low b(2) by (fastforce simp: filter_empty_conv wanted_def)
    ultimately have "filter (\<lambda>q. bitmap_test bits q \<noteq> invert) [pos..<nbits] = ?p # filter (\<lambda>q. bitmap_test bits q \<noteq> invert) [?p + 1..<nbits]"
      using b(3) by simp
    then show ?thesis using b(2) IH [OF refl b(2)] by (subst for_each_from_step) (simp add: Let_def)
  qed
qed

text \<open>C37: The search for the next set or cleared bit skips whole words and finds the least position that fits, or the
  size if there is none; so the loops over a bit array visit exactly the set bits, or exactly the cleared ones,
  below the size, in increasing order, whatever the bits beyond the size are.\<close>

theorem bitmap_for_each_exact:
  "bitmap_for_each_set bits nbits = filter (bitmap_test bits) [0..<nbits] \<and>
   bitmap_for_each_cleared bits nbits = filter (\<lambda>q. \<not> bitmap_test bits q) [0..<nbits] \<and>
   bitmap_find_next_cleared bits nbits pos =
     (case filter (\<lambda>q. \<not> bitmap_test bits q) [pos..<nbits] of [] \<Rightarrow> nbits | q # _ \<Rightarrow> q)"
proof -
  have "bitmap_find_next_cleared bits nbits pos = (case for_each_from bits nbits True pos of [] \<Rightarrow> nbits | q # _ \<Rightarrow> q)"
    using find_next_in(1) [of bits nbits pos True] by (subst for_each_from_step) (auto simp: bitmap_find_next_cleared_def Let_def)
  then show ?thesis by (simp add: bitmap_for_each_set_def bitmap_for_each_cleared_def for_each_from_filter)
qed

end
