(* ===== verification/Sq_Lcbe.thy ===== *)
theory Sq_Lcbe
  imports Sq Bitmap
begin

text \<open>
  The single-queue policy for two applications (\<^verbatim>\<open>libos/sched/policy/sq_lcbe.c\<close>): the dispatcher on CPU 0 hands
  the tasks of a latency-critical application (LC) to the CPUs it owns, and every other CPU runs one task of a
  best-effort application (BE) until the dispatcher takes it over. Each CPU has a worker structure for each
  application. On the LC tasks the policy refines the single-queue policy of \<^verbatim>\<open>sq.c\<close>.

  The number of the running application is an argument \<open>app\<close> of the operations, the time an argument \<open>now\<close>, and the
  comparison of the floating-point service ratio of a task with the congestion threshold an argument \<open>slo\<close>, a
  predicate of the active time and the latency. \<open>None\<close> is the use of a null pointer.
\<close>

section \<open>Data\<close>

definition SQ_LC :: nat where "SQ_LC = 0"
definition SQ_BE :: nat where "SQ_BE = 1"

record sq_cpu =
  lc :: sq_worker
  be :: sq_worker
  need_sched :: bool
  is_lc :: bool

record sq_task =
  ingress :: u64
  t_start :: u64
  active :: u64

record lcbe_dispatcher =
  l_pending :: "task queue_t"
  l_num_workers :: int
  l_quantum :: u64
  be_ready :: "nat \<Rightarrow> bool"
  lc_ready :: "nat \<Rightarrow> bool"
  lc_cpus :: bitmap
  lc_nr_cpus :: u32
  lc_guaranteed_cpus :: u32
  last_adjust :: u64
  adjust_quantum :: u64

record lcbe_st =
  sq_cpus :: "nat \<Rightarrow> sq_cpu"
  l_disp :: lcbe_dispatcher
  lc_worker_preempted :: "nat \<Rightarrow> bool"
  be_worker_preempted :: "nat \<Rightarrow> bool"
  l_ready :: bool
  sq_task_of :: "task \<Rightarrow> sq_task"
  l_skip_free :: "task \<Rightarrow> bool"
  l_allow_preempt :: "task \<Rightarrow> bool"
  l_freed :: "task list"
  l_uipis :: "nat list"
  l_dropped :: "task list"

abbreviation set_cpu :: "nat \<Rightarrow> (sq_cpu \<Rightarrow> sq_cpu) \<Rightarrow> lcbe_st \<Rightarrow> lcbe_st" where
  "set_cpu c f s \<equiv> s\<lparr>sq_cpus := (sq_cpus s)(c := f (sq_cpus s c))\<rparr>"

abbreviation set_task :: "task \<Rightarrow> (sq_task \<Rightarrow> sq_task) \<Rightarrow> lcbe_st \<Rightarrow> lcbe_st" where
  "set_task t f s \<equiv> s\<lparr>sq_task_of := (sq_task_of s)(t := f (sq_task_of s t))\<rparr>"

definition cpu_worker :: "lcbe_st \<Rightarrow> nat \<Rightarrow> sq_worker" where
  "cpu_worker s c = (if is_lc (sq_cpus s c) then lc (sq_cpus s c) else be (sq_cpus s c))"

text \<open>Writing through the pointer that \<^verbatim>\<open>this_worker\<close> returned.\<close>

definition set_worker :: "nat \<Rightarrow> (sq_worker \<Rightarrow> sq_worker) \<Rightarrow> lcbe_st \<Rightarrow> lcbe_st" where
  "set_worker c f s = set_cpu c (\<lambda>k. if is_lc k then k\<lparr>lc := f (lc k)\<rparr> else k\<lparr>be := f (be k)\<rparr>) s"

definition init_worker :: "sq_worker \<Rightarrow> sq_worker" where
  "init_worker w = w\<lparr>cur_task := None, w_state := WORKER_IDLE\<rparr>"

section \<open>Worker side\<close>

definition lcbe_pick_next :: "lcbe_st \<Rightarrow> nat \<Rightarrow> nat \<Rightarrow> u64 \<Rightarrow> (task option \<times> lcbe_st) option" where
  "lcbe_pick_next s cpu app now =
     (let s = (if need_sched (sq_cpus s cpu) then set_cpu cpu (\<lambda>k. k\<lparr>is_lc := \<not> is_lc k, need_sched := False\<rparr>) s else s);
          w = cpu_worker s cpu
      in if cpu = 0 \<or> \<not> is_lc (sq_cpus s cpu) then Some (cur_task w, s)
         else if w_state w = WORKER_QUEUING
         then if app = SQ_LC
              then (case cur_task w of
                      None \<Rightarrow> None
                    | Some t \<Rightarrow>
                        Some (Some t, set_worker cpu (\<lambda>w. w\<lparr>start_time := now, w_state := WORKER_RUNNING\<rparr>)
                          (set_task t (\<lambda>k. k\<lparr>t_start := now\<rparr>) s)))
              else Some (cur_task w, s)
         else Some (None, s))"

definition lcbe_yield :: "lcbe_st \<Rightarrow> nat \<Rightarrow> nat \<Rightarrow> lcbe_st" where
  "lcbe_yield s cpu app =
     (if cpu = 0
      then let s = (if app = SQ_BE
                    then (set_cpu 0 (\<lambda>k. k\<lparr>is_lc := True\<rparr>) s)\<lparr>l_disp := (l_disp s)\<lparr>be_ready := (be_ready (l_disp s))(0 := True)\<rparr>\<rparr>
                    else set_cpu 0 (\<lambda>k. k\<lparr>is_lc := False\<rparr>) s)
           in set_cpu 0 (\<lambda>k. k\<lparr>lc := (lc k)\<lparr>w_state := WORKER_QUEUING\<rparr>\<rparr>) s
      else s)"

definition lcbe_finish_task :: "lcbe_st \<Rightarrow> nat \<Rightarrow> nat \<Rightarrow> lcbe_st" where
  "lcbe_finish_task s cpu app =
     (let s' = set_worker cpu (\<lambda>w. w\<lparr>w_state := WORKER_FINISHED\<rparr>) s
      in if cpu = 0
         then set_cpu 0 (\<lambda>k. k\<lparr>is_lc := True, lc := (lc k)\<lparr>w_state := WORKER_QUEUING\<rparr>\<rparr>) (set_worker 0 (\<lambda>w. w\<lparr>cur_task := None\<rparr>) s')
         else if app = SQ_BE then set_worker cpu (\<lambda>w. w\<lparr>cur_task := None\<rparr>) s'
         else s')"

definition lcbe_preempt :: "lcbe_st \<Rightarrow> nat \<Rightarrow> u64 \<Rightarrow> (bool \<times> lcbe_st) option" where
  "lcbe_preempt s cpu now =
     (let w = cpu_worker s cpu
      in if w_state w = WORKER_RUNNING
         then (case cur_task w of
                 None \<Rightarrow> None
               | Some t \<Rightarrow>
                   let s = set_task t (\<lambda>k. k\<lparr>active := active k + (now - t_start k)\<rparr>) s
                   in Some (True,
                        if \<not> is_lc (sq_cpus s cpu)
                        then (set_cpu cpu (\<lambda>k. k\<lparr>need_sched := True\<rparr>) s)
                               \<lparr>l_disp := (l_disp s)\<lparr>lc_cpus := bitmap_set (lc_cpus (l_disp s)) cpu, lc_nr_cpus := lc_nr_cpus (l_disp s) + 1\<rparr>\<rparr>
                        else set_worker cpu (\<lambda>w. w\<lparr>w_state := WORKER_PREEMPTED\<rparr>) s))
         else Some (False, s))"

section \<open>Dispatcher side\<close>

definition lcbe_spawn :: "lcbe_st \<Rightarrow> nat \<Rightarrow> nat \<Rightarrow> task \<Rightarrow> nat \<Rightarrow> u64 \<Rightarrow> int \<times> lcbe_st" where
  "lcbe_spawn s this_cpu app task cpu_id now =
     (if app = SQ_BE \<and> this_cpu \<noteq> 0 then (0, s)
      else if this_cpu \<noteq> 0 then (-1, s)
      else if \<not> l_ready s
      then if cpu_id = 0
           then if cur_task (be (sq_cpus s 0)) = None
                then (0, set_cpu 0 (\<lambda>k. k\<lparr>be := (be k)\<lparr>cur_task := Some task\<rparr>\<rparr>) s)
                else if cur_task (lc (sq_cpus s 0)) = None
                then (0, (set_cpu 0 (\<lambda>k. k\<lparr>lc := (lc k)\<lparr>cur_task := Some task, w_state := WORKER_QUEUING\<rparr>\<rparr>) s)\<lparr>l_ready := True\<rparr>)
                else (- EINVAL, s)
           else (0, set_cpu cpu_id (\<lambda>k. k\<lparr>be := (be k)\<lparr>cur_task := Some task\<rparr>\<rparr>) (s\<lparr>l_allow_preempt := (l_allow_preempt s)(task := True)\<rparr>))
      else let s = s\<lparr>l_skip_free := (l_skip_free s)(task := True), l_allow_preempt := (l_allow_preempt s)(task := True)\<rparr>;
               s = set_task task (\<lambda>k. k\<lparr>ingress := now, active := 0\<rparr>) s;
               (r, q) = queue_push (l_pending (l_disp s)) task
           in (r, s\<lparr>l_disp := (l_disp s)\<lparr>l_pending := q\<rparr>\<rparr>))"

definition is_congested :: "(u64 \<Rightarrow> u64 \<Rightarrow> bool) \<Rightarrow> lcbe_st \<Rightarrow> u64 \<Rightarrow> bool" where
  "is_congested slo s now \<longleftrightarrow>
     \<not> queue_is_empty (l_pending (l_disp s)) \<and>
     (let k = sq_task_of s (queue_head (l_pending (l_disp s)))
      in active k \<noteq> 0 \<and> slo (active k) (now - ingress k))"

definition pick_cpu :: "lcbe_st \<Rightarrow> nat" where
  "pick_cpu s = bitmap_find_next_cleared (lc_cpus (l_disp s)) USED_CPUS 0"

definition adjust_cpus :: "(u64 \<Rightarrow> u64 \<Rightarrow> bool) \<Rightarrow> lcbe_st \<Rightarrow> u64 \<Rightarrow> lcbe_st" where
  "adjust_cpus slo s now =
     (if now \<le> last_adjust (l_disp s) + adjust_quantum (l_disp s) then s
      else if \<not> is_congested slo s now then s
      else let cpu = pick_cpu s
           in if cpu = USED_CPUS then s
              else let s = (if \<not> be_worker_preempted s cpu
                            then s\<lparr>l_uipis := cpu # l_uipis s, be_worker_preempted := (be_worker_preempted s)(cpu := True)\<rparr>
                            else s)
                   in s\<lparr>l_disp := (l_disp s)\<lparr>last_adjust := now\<rparr>\<rparr>)"

text \<open>The body of the loop of \<^verbatim>\<open>sq_sched_poll\<close> for a CPU that LC owns, after the state of its LC worker was loaded
  as \<open>st\<close>, and for one that it does not own.\<close>

definition lcbe_assign :: "lcbe_st \<Rightarrow> nat \<Rightarrow> lcbe_st" where
  "lcbe_assign s i =
     (let (t, q) = queue_pop (l_pending (l_disp s));
          s = s\<lparr>l_disp := (l_disp s)\<lparr>l_pending := q\<rparr>\<rparr>
      in case t of
           Some t \<Rightarrow> (set_cpu i (\<lambda>k. k\<lparr>lc := (lc k)\<lparr>cur_task := Some t, w_state := WORKER_QUEUING\<rparr>\<rparr>) s)
                       \<lparr>lc_worker_preempted := (lc_worker_preempted s)(i := False)\<rparr>
         | None \<Rightarrow> set_cpu i (\<lambda>k. k\<lparr>lc := (lc k)\<lparr>w_state := WORKER_IDLE\<rparr>\<rparr>) s)"

definition lcbe_poll_lc :: "lcbe_st \<Rightarrow> nat \<Rightarrow> sq_worker_state \<Rightarrow> u64 \<Rightarrow> lcbe_st option" where
  "lcbe_poll_lc s i st now =
     (case st of
        WORKER_RUNNING \<Rightarrow>
          Some (if l_quantum (l_disp s) \<noteq> 0 \<and> \<not> lc_worker_preempted s i \<and>
                   now > start_time (lc (sq_cpus s i)) + l_quantum (l_disp s)
                then s\<lparr>l_uipis := i # l_uipis s, lc_worker_preempted := (lc_worker_preempted s)(i := True)\<rparr>
                else s)
      | WORKER_QUEUING \<Rightarrow> Some s
      | WORKER_FINISHED \<Rightarrow>
          map_option (\<lambda>t. lcbe_assign (s\<lparr>l_freed := t # l_freed s\<rparr>) i) (cur_task (lc (sq_cpus s i)))
      | WORKER_PREEMPTED \<Rightarrow>
          map_option (\<lambda>t. let (r, q) = queue_push (l_pending (l_disp s)) t
             in lcbe_assign (s\<lparr>l_disp := (l_disp s)\<lparr>l_pending := q\<rparr>, l_dropped := (if r = 0 then l_dropped s else t # l_dropped s)\<rparr>) i)
            (cur_task (lc (sq_cpus s i)))
      | WORKER_IDLE \<Rightarrow> Some (lcbe_assign s i))"

definition lcbe_poll_be :: "lcbe_st \<Rightarrow> nat \<Rightarrow> lcbe_st" where
  "lcbe_poll_be s i =
     (let s = (if w_state (be (sq_cpus s i)) = WORKER_IDLE then set_cpu i (\<lambda>k. k\<lparr>be := (be k)\<lparr>w_state := WORKER_RUNNING\<rparr>\<rparr>) s else s)
      in if is_lc (sq_cpus s i) \<and> \<not> need_sched (sq_cpus s i) then set_cpu i (\<lambda>k. k\<lparr>need_sched := True\<rparr>) s else s)"

fun bitmap_set_all :: "bitmap \<Rightarrow> nat \<Rightarrow> bitmap" where
  "bitmap_set_all bits 0 = bits"
| "bitmap_set_all bits (Suc n) = bitmap_set (bitmap_set_all bits n) n"

definition lcbe_set_params :: "lcbe_st \<Rightarrow> int \<Rightarrow> u32 \<Rightarrow> u32 \<Rightarrow> u32 \<Rightarrow> int \<times> lcbe_st" where
  "lcbe_set_params s nw pq gc aq =
     (if nw \<ge> 0 \<and> nw < int USED_CPUS
      then (0, s\<lparr>l_disp := (l_disp s)\<lparr>l_num_workers := nw, l_quantum := scast pq * 1000, lc_guaranteed_cpus := gc,
              lc_cpus := bitmap_set_all (lc_cpus (l_disp s)) (unat (gc + 1)), lc_nr_cpus := gc, adjust_quantum := scast aq * 1000\<rparr>\<rparr>)
      else (- EINVAL, s))"

definition lcbe_init :: "lcbe_st \<Rightarrow> nat \<Rightarrow> u64 \<Rightarrow> lcbe_st" where
  "lcbe_init s app now =
     (if app = SQ_LC
      then s\<lparr>l_disp := (l_disp s)\<lparr>l_num_workers := int USED_CPUS, l_pending := queue_init (l_pending (l_disp s)),
               lc_ready := (\<lambda>_. False), be_ready := (\<lambda>_. False), lc_cpus := bitmap_init (lc_cpus (l_disp s)) USED_CPUS False, last_adjust := now\<rparr>,
             lc_worker_preempted := (\<lambda>_. False), be_worker_preempted := (\<lambda>_. False)\<rparr>
      else s)"

text \<open>The first lines of \<^verbatim>\<open>sq_sched_init_percpu\<close>.\<close>

definition lcbe_init_percpu :: "lcbe_st \<Rightarrow> nat \<Rightarrow> nat \<Rightarrow> lcbe_st" where
  "lcbe_init_percpu s cpu app =
     (if app = SQ_LC then set_cpu cpu (\<lambda>k. k\<lparr>lc := init_worker (lc k), be := init_worker (be k), is_lc := True\<rparr>) s else s)"

section \<open>Interleaving\<close>

inductive lcbe_step :: "(u64 \<Rightarrow> u64 \<Rightarrow> bool) \<Rightarrow> lcbe_st \<times> disp_pc \<times> task multiset \<Rightarrow> lcbe_st \<times> disp_pc \<times> task multiset \<Rightarrow> bool"
  for slo where
  spawn: "l_ready s \<Longrightarrow> lcbe_spawn s 0 app t cpu_id now = (0, s') \<Longrightarrow> lcbe_step slo (s, Polling, P) (s', Polling, add_mset t P)"
| adjust: "lcbe_step slo (s, Polling, P) (adjust_cpus slo s now, Polling, P)"
| load: "1 \<le> i \<Longrightarrow> i < USED_CPUS \<Longrightarrow> bitmap_test (lc_cpus (l_disp s)) i \<Longrightarrow>
    lcbe_step slo (s, Polling, P) (s, Loaded i (w_state (lc (sq_cpus s i))), P)"
| act: "lcbe_poll_lc s i st now = Some s' \<Longrightarrow> lcbe_step slo (s, Loaded i st, P) (s', Polling, P)"
| poll_be: "1 \<le> i \<Longrightarrow> i < USED_CPUS \<Longrightarrow> \<not> bitmap_test (lc_cpus (l_disp s)) i \<Longrightarrow>
    lcbe_step slo (s, Polling, P) (lcbe_poll_be s i, Polling, P)"
| disp_yield: "lcbe_step slo (s, Polling, P) (lcbe_yield s 0 app, Polling, P)"
| pick: "1 \<le> c \<Longrightarrow> lcbe_pick_next s c app now = Some (t, s') \<Longrightarrow> lcbe_step slo (s, pc, P) (s', pc, P)"
| preempt: "1 \<le> c \<Longrightarrow> lcbe_preempt s c now = Some (b, s') \<Longrightarrow> lcbe_step slo (s, pc, P) (s', pc, P)"
| finish: "1 \<le> c \<Longrightarrow> w_state (cpu_worker s c) = WORKER_RUNNING \<Longrightarrow> app = (if is_lc (sq_cpus s c) then SQ_LC else SQ_BE) \<Longrightarrow>
    lcbe_step slo (s, pc, P) (lcbe_finish_task s c app, pc, P)"

inductive lcbe_reach :: "(u64 \<Rightarrow> u64 \<Rightarrow> bool) \<Rightarrow> lcbe_st \<Rightarrow> lcbe_st \<Rightarrow> disp_pc \<Rightarrow> task multiset \<Rightarrow> bool" for slo s0 where
  start: "lcbe_reach slo s0 s0 Polling {#}"
| step: "lcbe_reach slo s0 s pc P \<Longrightarrow> lcbe_step slo (s, pc, P) (s', pc', P') \<Longrightarrow> lcbe_reach slo s0 s' pc' P'"

section \<open>Refinement of the single-queue policy\<close>

text \<open>The LC side as a state of the single-queue policy: CPU 0 is left out, and so are the interrupts.\<close>

definition abs_lc :: "lcbe_st \<Rightarrow> sq_st" where
  "abs_lc s =
     \<lparr>workers = (\<lambda>i. if i = 0 then \<lparr>w_state = WORKER_IDLE, cur_task = None, start_time = 0\<rparr> else lc (sq_cpus s i)),
      disp = \<lparr>pending_tasks = l_pending (l_disp s), num_workers = 0, preemption_quantum = 0\<rparr>,
      worker_preempted = (\<lambda>_. False), dispatcher_ready = l_ready s, freed = l_freed s, uipis = [], dropped = l_dropped s\<rparr>"

abbreviation lc_workers :: nat where
  "lc_workers \<equiv> USED_CPUS - 1"

lemma abs_assign:
  assumes "1 \<le> i"
  shows "abs_lc (lcbe_assign s i) = sq_assign (abs_lc s) i"
proof (cases "queue_pop (l_pending (l_disp s))")
  case (Pair t q)
  then show ?thesis using assms
    by (cases t) (auto simp: lcbe_assign_def sq_assign_def abs_lc_def set_state_def set_w_def Let_def fun_eq_iff)
qed

lemma abs_poll:
  assumes "1 \<le> i" "i < USED_CPUS"
  shows "sq_poll_act (abs_lc s) i st now = map_option abs_lc (lcbe_poll_lc s i st now)"
proof -
  have w: "workers (abs_lc s) i = lc (sq_cpus s i)" using assms(1) by (simp add: abs_lc_def)
  have a: "sq_assign (abs_lc s\<lparr>freed := t # freed (abs_lc s)\<rparr>) i = abs_lc (lcbe_assign (s\<lparr>l_freed := t # l_freed s\<rparr>) i)"
    "sq_assign (abs_lc s\<lparr>disp := disp (abs_lc s)\<lparr>pending_tasks := q\<rparr>, dropped := ds\<rparr>) i =
       abs_lc (lcbe_assign (s\<lparr>l_disp := l_disp s\<lparr>l_pending := q\<rparr>, l_dropped := ds\<rparr>) i)" for t q ds
    unfolding abs_assign [OF assms(1)] by (simp_all add: abs_lc_def cong: if_cong)
  have d: "pending_tasks (disp (abs_lc s)) = l_pending (l_disp s) \<and> dropped (abs_lc s) = l_dropped s" "preemption_quantum (disp (abs_lc s)) = 0" by (simp_all add: abs_lc_def)
  show ?thesis
  proof (cases st)
    case WORKER_RUNNING
    then show ?thesis using assms(2) d(2) by (simp add: sq_poll_act_def lcbe_poll_lc_def) (simp add: abs_lc_def cong: if_cong)
  qed (use assms(2) w a d(1) abs_assign [OF assms(1)] in \<open>auto simp: sq_poll_act_def lcbe_poll_lc_def split: option.splits prod.splits\<close>)
qed

lemma lcbe_step_sim:
  assumes "lcbe_step slo (s, pc, P) (s', pc', P')" "\<And>i st. pc = Loaded i st \<Longrightarrow> 1 \<le> i \<and> i < USED_CPUS"
  shows "sq_step lc_workers (abs_lc s, pc, P) (abs_lc s', pc', P') \<or> (abs_lc s' = abs_lc s \<and> pc' = pc \<and> P' = P)"
  using assms
proof (cases rule: lcbe_step.cases)
  case (spawn app t cpu_id now)
  have "sq_spawn (abs_lc s) 0 t = (0, abs_lc s')"
    using spawn by (auto simp: lcbe_spawn_def sq_spawn_def abs_lc_def Let_def SQ_BE_def split: prod.splits if_splits)
  moreover have "dispatcher_ready (abs_lc s)" using spawn by (simp add: abs_lc_def)
  ultimately show ?thesis using spawn by (simp add: sq_step.spawn)
next
  case (adjust now)
  then show ?thesis by (auto simp: adjust_cpus_def abs_lc_def Let_def)
next
  case (load i)
  have "sq_step lc_workers (abs_lc s, Polling, P) (abs_lc s, Loaded i (w_state (workers (abs_lc s) i)), P)"
    using load by (intro sq_step.load) auto
  then show ?thesis using load by (simp add: abs_lc_def)
next
  case (act i st now)
  then have "sq_poll_act (abs_lc s) i st now = Some (abs_lc s')" using assms(2) by (simp add: abs_poll)
  then show ?thesis using act by (auto intro: sq_step.act)
next
  case (poll_be i)
  then show ?thesis by (auto simp: lcbe_poll_be_def abs_lc_def Let_def fun_eq_iff)
next
  case (disp_yield app)
  then show ?thesis by (auto simp: lcbe_yield_def abs_lc_def Let_def fun_eq_iff)
next
  case (pick c app now t)
  let ?k = "if need_sched (sq_cpus s c) then (sq_cpus s c)\<lparr>is_lc := \<not> is_lc (sq_cpus s c), need_sched := False\<rparr> else sq_cpus s c"
  show ?thesis
  proof (cases "is_lc ?k \<and> w_state (lc ?k) = WORKER_QUEUING \<and> app = SQ_LC")
    case True
    then have "sq_pick_next (abs_lc s) c now = (cur_task (lc ?k), abs_lc s')"
      using pick by (auto simp: lcbe_pick_next_def sq_pick_next_def set_worker_def cpu_worker_def abs_lc_def set_state_def set_w_def Let_def fun_eq_iff
          split: if_splits option.splits)
    then show ?thesis using pick by (auto intro: sq_step.pick)
  next
    case False
    then have "abs_lc s' = abs_lc s"
      using pick by (auto simp: lcbe_pick_next_def cpu_worker_def abs_lc_def Let_def fun_eq_iff split: if_splits option.splits)
    then show ?thesis using pick by simp
  qed
next
  case (preempt c now b)
  show ?thesis
  proof (cases "is_lc (sq_cpus s c) \<and> w_state (lc (sq_cpus s c)) = WORKER_RUNNING")
    case True
    then have "sq_preempt (abs_lc s) c = (True, abs_lc s')"
      using preempt by (auto simp: lcbe_preempt_def sq_preempt_def set_worker_def cpu_worker_def abs_lc_def set_state_def set_w_def Let_def fun_eq_iff
          split: if_splits option.splits)
    then show ?thesis using preempt by (auto intro: sq_step.preempt)
  next
    case False
    then have "abs_lc s' = abs_lc s"
      using preempt by (auto simp: lcbe_preempt_def cpu_worker_def abs_lc_def Let_def fun_eq_iff split: if_splits option.splits)
    then show ?thesis using preempt by simp
  qed
next
  case (finish c app)
  show ?thesis
  proof (cases "is_lc (sq_cpus s c)")
    case True
    then have "abs_lc s' = sq_finish_task (abs_lc s) c" "w_state (workers (abs_lc s) c) = WORKER_RUNNING"
      using finish by (auto simp: lcbe_finish_task_def sq_finish_task_def set_worker_def cpu_worker_def abs_lc_def set_state_def set_w_def SQ_LC_def SQ_BE_def fun_eq_iff)
    then show ?thesis using finish sq_step.finish [of c "abs_lc s"] by simp
  next
    case False
    then have "abs_lc s' = abs_lc s"
      using finish by (auto simp: lcbe_finish_task_def set_worker_def abs_lc_def fun_eq_iff)
    then show ?thesis using finish by simp
  qed
qed

lemma lcbe_reach_sim:
  assumes "lcbe_reach slo s0 s pc P"
  shows "sq_reach lc_workers (abs_lc s0) (abs_lc s) pc P \<and> (\<forall>i st. pc = Loaded i st \<longrightarrow> 1 \<le> i \<and> i < USED_CPUS)"
  using assms
proof (induction rule: lcbe_reach.induct)
  case start
  then show ?case by (simp add: sq_reach.start)
next
  case (step s pc P s' pc' P')
  have "sq_reach lc_workers (abs_lc s0) (abs_lc s') pc' P'"
    using lcbe_step_sim [OF step.hyps(2)] step.IH by (auto intro: sq_reach.step)
  moreover have "1 \<le> i \<and> i < USED_CPUS" if "pc' = Loaded i st" for i st
    using step.hyps(2) step.IH that by (cases rule: lcbe_step.cases) auto
  ultimately show ?case by blast
qed

section \<open>Properties\<close>

text \<open>The dispatcher interrupts the first CPU that LC does not own, and no other.\<close>

lemma adjust_cpus_target:
  "l_uipis (adjust_cpus slo s now) = l_uipis s \<or>
   (\<exists>c < USED_CPUS. l_uipis (adjust_cpus slo s now) = c # l_uipis s \<and> \<not> bitmap_test (lc_cpus (l_disp s)) c \<and>
      (\<forall>d < c. bitmap_test (lc_cpus (l_disp s)) d) \<and> is_congested slo s now)"
proof -
  let ?W = "wanted (lc_cpus (l_disp s)) USED_CPUS True 0" and ?c = "pick_cpu s"
  have c: "?c = bitmap_find_next (lc_cpus (l_disp s)) USED_CPUS 0 True" by (simp add: pick_cpu_def bitmap_find_next_cleared_def)
  have "?c < USED_CPUS" if "?c \<noteq> USED_CPUS" using find_next_in(1) [of "lc_cpus (l_disp s)" USED_CPUS 0 True] that c by simp
  moreover have "?c \<in> ?W" if "?c < USED_CPUS" using find_next_in(2) that c by simp
  moreover have "?c \<le> d" if "d \<in> ?W" for d
    using that unfolding c find_next_least by (auto simp: wanted_def intro!: Min_le)
  ultimately show ?thesis
    by (simp add: adjust_cpus_def Let_def wanted_def) (metis le_less_linear less_trans linorder_not_less)
qed

definition lcbe_boot :: "lcbe_st \<Rightarrow> bool" where
  "lcbe_boot s \<longleftrightarrow> queue_inv (l_pending (l_disp s)) \<and> queue_list (l_pending (l_disp s)) = [] \<and> l_freed s = [] \<and> l_dropped s = [] \<and>
     (\<forall>i \<ge> 1. w_state (lc (sq_cpus s i)) = WORKER_IDLE)"

lemma lcbe_boot_abs: "lcbe_boot s \<Longrightarrow> sq_boot (abs_lc s)"
  by (simp add: lcbe_boot_def sq_boot_def abs_lc_def)

lemma abs_held: "held_sum n (workers (abs_lc s)) = held_sum n (\<lambda>i. lc (sq_cpus s i))"
  by (simp add: held_sum_def abs_lc_def)

text \<open>The task of a BE worker goes away only when it finishes.\<close>

definition be_tasks :: "lcbe_st \<Rightarrow> bool" where
  "be_tasks s \<longleftrightarrow> (\<forall>c \<ge> 1. w_state (be (sq_cpus s c)) \<in> {WORKER_IDLE, WORKER_RUNNING} \<longrightarrow> cur_task (be (sq_cpus s c)) \<noteq> None)"

lemma be_tasks_cong: "(\<And>c. 1 \<le> c \<Longrightarrow> be (sq_cpus s' c) = be (sq_cpus s c)) \<Longrightarrow> be_tasks s \<Longrightarrow> be_tasks s'"
  by (simp add: be_tasks_def)

lemma be_tasks_assign [simp]: "be (sq_cpus (lcbe_assign s i) c) = be (sq_cpus s c)"
  by (auto simp: lcbe_assign_def Let_def split: prod.splits option.splits)

lemma be_tasks_step:
  assumes "lcbe_step slo (s, pc, P) (s', pc', P')" "be_tasks s"
  shows "be_tasks s'"
  using assms(1)
proof (cases rule: lcbe_step.cases)
  case (poll_be i)
  then show ?thesis using assms(2) by (auto simp: be_tasks_def lcbe_poll_be_def Let_def)
next
  case (finish c app)
  then show ?thesis using assms(2) by (auto simp: be_tasks_def lcbe_finish_task_def set_worker_def Let_def SQ_LC_def SQ_BE_def)
next
  case (act i st now)
  then have "be (sq_cpus s' c) = be (sq_cpus s c)" for c
    by (auto simp: lcbe_poll_lc_def case_prod_beta Let_def split: sq_worker_state.splits)
  then show ?thesis using assms(2) by (rule be_tasks_cong)
next
  case (spawn app t cpu_id now)
  then have "be (sq_cpus s' c) = be (sq_cpus s c)" for c by (auto simp: lcbe_spawn_def Let_def split: prod.splits if_splits)
  then show ?thesis using assms(2) by (rule be_tasks_cong)
next
  case (pick d app now t)
  then have "be (sq_cpus s' c) = be (sq_cpus s c)" for c
    by (auto simp: lcbe_pick_next_def set_worker_def cpu_worker_def Let_def split: if_splits option.splits)
  then show ?thesis using assms(2) by (rule be_tasks_cong)
next
  case (preempt d now b)
  then have "be (sq_cpus s' c) = be (sq_cpus s c)" for c
    by (auto simp: lcbe_preempt_def set_worker_def cpu_worker_def Let_def split: if_splits option.splits)
  then show ?thesis using assms(2) by (rule be_tasks_cong)
qed (use assms(2) in \<open>auto simp: be_tasks_def adjust_cpus_def lcbe_yield_def Let_def\<close>)

lemma be_tasks_reach: "lcbe_reach slo s0 s pc P \<Longrightarrow> be_tasks s0 \<Longrightarrow> be_tasks s"
  by (induction rule: lcbe_reach.induct) (auto intro: be_tasks_step)

text \<open>C29: On the latency-critical tasks the policy refines the single-queue policy, under every interleaving of the
  dispatcher and the workers, also while CPUs pass from one application to the other. So every latency-critical task is in the central queue, with one
  worker, freed, or dropped by the dispatcher when the queue is full, and neither the dispatcher nor a worker that looks for work uses a worker
  structure without a task. The interrupt handler uses one exactly when the CPU runs best-effort and has no best-effort task although the dispatcher has marked it
  as running; this cannot happen when every CPU has got such a task at the start.\<close>

theorem lcbe_refines_single_queue:
  assumes "lcbe_reach slo s0 s pc P" "lcbe_boot s0"
  shows "sq_reach lc_workers (abs_lc s0) (abs_lc s) pc P \<and>
    P = mset (queue_list (l_pending (l_disp s))) + held_sum lc_workers (\<lambda>i. lc (sq_cpus s i)) + mset (l_freed s) + mset (l_dropped s) \<and>
    (\<forall>i st now. pc = Loaded i st \<longrightarrow> lcbe_poll_lc s i st now \<noteq> None) \<and>
    (\<forall>c app now. 1 \<le> c \<longrightarrow> lcbe_pick_next s c app now \<noteq> None) \<and>
    (\<forall>c now. 1 \<le> c \<longrightarrow> (lcbe_preempt s c now = None \<longleftrightarrow>
       \<not> is_lc (sq_cpus s c) \<and> w_state (be (sq_cpus s c)) = WORKER_RUNNING \<and> cur_task (be (sq_cpus s c)) = None)) \<and>
    (be_tasks s0 \<longrightarrow> (\<forall>c now. 1 \<le> c \<longrightarrow> lcbe_preempt s c now \<noteq> None))"
proof -
  have r: "sq_reach lc_workers (abs_lc s0) (abs_lc s) pc P" and pc: "\<And>i st. pc = Loaded i st \<Longrightarrow> 1 \<le> i \<and> i < USED_CPUS"
    using lcbe_reach_sim [OF assms(1)] by auto
  have inv: "sq_inv lc_workers (abs_lc s) pc P"
    by (rule sq_reach_inv [OF r sq_boot_inv [OF lcbe_boot_abs [OF assms(2)]]])
  then have "P = mset (pendq (abs_lc s)) + held_sum lc_workers (workers (abs_lc s)) + mset (freed (abs_lc s)) + mset (dropped (abs_lc s))" by (simp add: sq_inv_def)
  then have P: "P = mset (queue_list (l_pending (l_disp s))) + held_sum lc_workers (\<lambda>i. lc (sq_cpus s i)) + mset (l_freed s) + mset (l_dropped s)"
    unfolding abs_held by (simp add: abs_lc_def)
  have cur: "cur_task (lc (sq_cpus s i)) \<noteq> None" if "1 \<le> i" "w_state (lc (sq_cpus s i)) \<noteq> WORKER_IDLE" for i
  proof -
    have "workers (abs_lc s) i = lc (sq_cpus s i)" using that(1) by (simp add: abs_lc_def)
    then show ?thesis using inv that by (auto simp: sq_inv_def)
  qed
  have "lcbe_poll_lc s i st now \<noteq> None" if "pc = Loaded i st" for i st now
  proof -
    have i: "1 \<le> i" "workers (abs_lc s) i = lc (sq_cpus s i)" using pc [OF that] by (simp_all add: abs_lc_def)
    then have "disp_owned st \<Longrightarrow> w_state (lc (sq_cpus s i)) = st" using inv that by (auto simp: sq_inv_def)
    then have "st = WORKER_FINISHED \<or> st = WORKER_PREEMPTED \<Longrightarrow> cur_task (lc (sq_cpus s i)) \<noteq> None"
      using cur [OF i(1)] by (auto simp: disp_owned_def)
    then show ?thesis by (cases st) (auto simp: lcbe_poll_lc_def)
  qed
  moreover have "lcbe_pick_next s c app now \<noteq> None" if "1 \<le> c" for c app now
    using cur [OF that] that by (auto simp: lcbe_pick_next_def cpu_worker_def Let_def split: option.splits)
  moreover have pre: "lcbe_preempt s c now = None \<longleftrightarrow>
      \<not> is_lc (sq_cpus s c) \<and> w_state (be (sq_cpus s c)) = WORKER_RUNNING \<and> cur_task (be (sq_cpus s c)) = None" if "1 \<le> c" for c now
    using cur [OF that] by (auto simp: lcbe_preempt_def cpu_worker_def Let_def split: option.splits)
  moreover have "lcbe_preempt s c now \<noteq> None" if "be_tasks s0" "1 \<le> c" for c now
    using be_tasks_reach [OF assms(1) that(1)] that(2) pre [OF that(2)] by (auto simp: be_tasks_def)
  ultimately show ?thesis using r P by blast
qed

definition lcbe_demo :: lcbe_st where
  "lcbe_demo =
     (let w = \<lparr>w_state = WORKER_IDLE, cur_task = None, start_time = 0\<rparr>
      in \<lparr>sq_cpus = (\<lambda>_. \<lparr>lc = w, be = w, need_sched = False, is_lc = True\<rparr>),
          l_disp = \<lparr>l_pending = \<lparr>q_head = 0, q_tail = 0, q_buf = (\<lambda>_. 0)\<rparr>, l_num_workers = 2, l_quantum = 0, be_ready = (\<lambda>_. True),
                    lc_ready = (\<lambda>_. True), lc_cpus = (\<lambda>_. 3), lc_nr_cpus = 1, lc_guaranteed_cpus = 1, last_adjust = 0, adjust_quantum = 0\<rparr>,
          lc_worker_preempted = (\<lambda>_. False), be_worker_preempted = (\<lambda>_. False), l_ready = True,
          sq_task_of = (\<lambda>_. \<lparr>ingress = 0, t_start = 0, active = 0\<rparr>), l_skip_free = (\<lambda>_. False), l_allow_preempt = (\<lambda>_. False),
          l_freed = [], l_uipis = [], l_dropped = []\<rparr>)"

text \<open>A task is spawned, and the dispatcher has loaded the state of CPU 1.\<close>

theorem lcbe_refines_single_queue_witness:
  "\<exists>s. lcbe_spawn lcbe_demo 0 SQ_LC 7 0 5 = (0, s) \<and>
     {#7#} = mset (queue_list (l_pending (l_disp s))) + held_sum lc_workers (\<lambda>i. lc (sq_cpus s i)) + mset (l_freed s) + mset (l_dropped s) \<and>
     lcbe_poll_lc s 1 WORKER_IDLE 6 \<noteq> None"
proof -
  obtain s where s: "lcbe_spawn lcbe_demo 0 SQ_LC 7 0 5 = (0, s)" "bitmap_test (lc_cpus (l_disp s)) 1" "w_state (lc (sq_cpus s 1)) = WORKER_IDLE"
    by (simp add: lcbe_spawn_def lcbe_demo_def queue_push_def queue_is_full_def queue_len_def QUEUE_CAP_def SQ_LC_def SQ_BE_def test_bit Let_def)
  have r1: "lcbe_reach slo lcbe_demo s Polling {#7#}" for slo
    by (rule lcbe_reach.step [OF lcbe_reach.start], rule lcbe_step.spawn [OF _ s(1)]) (simp add: lcbe_demo_def Let_def)
  have r2: "lcbe_reach slo lcbe_demo s (Loaded 1 WORKER_IDLE) {#7#}" for slo
    using lcbe_reach.step [OF r1 lcbe_step.load [OF _ _ s(2)]] s(3) by (simp add: USED_CPUS_def)
  have boot: "lcbe_boot lcbe_demo" by (simp add: lcbe_boot_def lcbe_demo_def queue_inv_def queue_list_def Let_def)
  show ?thesis using lcbe_refines_single_queue [OF r2 boot] s(1) by auto
qed

end
