(* ===== verification/Page.thy ===== *)
theory Page
  imports Tcache List_Single
begin

text \<open>
  Page memory (\<^verbatim>\<open>libos/mm/page.c\<close>, \<^verbatim>\<open>skyloft/mm/page.h\<close>): the arithmetic between addresses and page
  structures, reference counts (\<^verbatim>\<open>utils/kref.h\<close>), and the allocator of large pages. A page structure is known by
  its address. The structures of the large pages form the array \<^verbatim>\<open>page_tbl\<close>, which is an argument \<open>tbl\<close>; those of
  the small pages lie at the start of the large page that was cut into them. A structure takes 64 bytes.
\<close>

section \<open>Addresses\<close>

definition PGSIZE_4KB :: u64 where "PGSIZE_4KB = 0x1000"
definition PGSIZE_2MB :: u64 where "PGSIZE_2MB = 0x200000"

definition PGN_4KB :: "u64 \<Rightarrow> u64" where "PGN_4KB la = drop_bit 12 la"
definition PGN_2MB :: "u64 \<Rightarrow> u64" where "PGN_2MB la = drop_bit 21 la"
definition PGOFF_2MB :: "u64 \<Rightarrow> u64" where "PGOFF_2MB la = la AND (PGSIZE_2MB - 1)"
definition PGADDR_2MB :: "u64 \<Rightarrow> u64" where "PGADDR_2MB la = la AND NOT (PGSIZE_2MB - 1)"

definition sizeof_page :: u64 where "sizeof_page = 64"
definition MAX_NUMA :: nat where "MAX_NUMA = 2"
definition SMPAGE_META_LEN :: u64 where "SMPAGE_META_LEN = PGSIZE_2MB div PGSIZE_4KB * sizeof_page"
definition LGPAGE_META_NR_LGPAGES :: u64 where "LGPAGE_META_NR_LGPAGES = 1"
definition LGPAGE_META_LEN :: u64 where "LGPAGE_META_LEN = LGPAGE_META_NR_LGPAGES * PGSIZE_2MB"
definition LGPAGE_META_ENTS :: u64 where "LGPAGE_META_ENTS = LGPAGE_META_LEN div sizeof_page"
definition LGPAGE_NODE_ADDR_LEN :: u64 where "LGPAGE_NODE_ADDR_LEN = LGPAGE_META_ENTS * PGSIZE_2MB"
definition PAGE_BASE_ADDR :: u64 where "PAGE_BASE_ADDR = 0x100000000000"
definition PAGE_END_ADDR :: u64 where "PAGE_END_ADDR = PAGE_BASE_ADDR + LGPAGE_META_ENTS * PGSIZE_2MB * of_nat MAX_NUMA"

lemmas page_consts = PGSIZE_4KB_def PGSIZE_2MB_def sizeof_page_def MAX_NUMA_def SMPAGE_META_LEN_def LGPAGE_META_NR_LGPAGES_def
  LGPAGE_META_LEN_def LGPAGE_META_ENTS_def LGPAGE_NODE_ADDR_LEN_def PAGE_BASE_ADDR_def PAGE_END_ADDR_def

definition is_page_addr :: "addr \<Rightarrow> bool" where
  "is_page_addr a \<longleftrightarrow> a \<ge> PAGE_BASE_ADDR \<and> a < PAGE_END_ADDR"

definition addr_to_numa_node :: "addr \<Rightarrow> u64" where
  "addr_to_numa_node a = (a - PAGE_BASE_ADDR) div LGPAGE_NODE_ADDR_LEN"

definition LGPGN :: "addr \<Rightarrow> u64" where
  "LGPGN a = PGN_2MB (a - PAGE_BASE_ADDR)"

definition PGN :: "addr \<Rightarrow> u64" where
  "PGN a = PGN_4KB (a - PGADDR_2MB a)"

definition addr_to_lgpage :: "addr \<Rightarrow> addr \<Rightarrow> addr" where
  "addr_to_lgpage tbl a = tbl + LGPGN a * sizeof_page"

definition lgpage_to_addr :: "addr \<Rightarrow> addr \<Rightarrow> addr" where
  "lgpage_to_addr tbl pg = PAGE_BASE_ADDR + (pg - tbl) div sizeof_page * PGSIZE_2MB"

definition addr_to_smpage :: "addr \<Rightarrow> addr" where
  "addr_to_smpage a = PGADDR_2MB a + PGN a * sizeof_page"

definition smpage_to_addr :: "addr \<Rightarrow> addr" where
  "smpage_to_addr pg = PGADDR_2MB pg + (pg - PGADDR_2MB pg) div sizeof_page * PGSIZE_4KB"

definition smpage_to_lgpage :: "addr \<Rightarrow> addr \<Rightarrow> addr" where
  "smpage_to_lgpage tbl pg = addr_to_lgpage tbl pg"

lemma unat_bound: "unat (x :: u64) < 2 ^ 64"
proof -
  have "unat x < 2 ^ LENGTH(64)" by (rule unsigned_less)
  then show ?thesis by simp
qed

lemma unat_drop_bit: "unat (drop_bit k (x :: u64)) = unat x div 2 ^ k"
  using unat_bound [of x] unfolding unsigned_drop_bit_eq by (simp add: drop_bit_eq_div take_bit_nat_eq_self)

lemma and_not_mask:
  assumes "k < 64"
  shows "unat (x AND NOT (2 ^ k - 1 :: u64)) = unat x div 2 ^ k * 2 ^ k"
proof -
  have "x AND NOT (2 ^ k - 1) = push_bit k (drop_bit k x)"
    by (rule bit_eqI) (auto simp: bit_simps simp flip: mask_eq_exp_minus_1)
  moreover have "unat (push_bit k (drop_bit k x)) = take_bit 64 (push_bit k (unat x div 2 ^ k))"
    unfolding unsigned_push_bit_eq unat_drop_bit by simp
  moreover have "push_bit k (unat x div 2 ^ k) = unat x div 2 ^ k * 2 ^ k" by (simp add: push_bit_eq_mult)
  moreover have "unat x div 2 ^ k * 2 ^ k \<le> unat x" by simp
  then have "unat x div 2 ^ k * 2 ^ k < 2 ^ 64" using unat_bound by (rule le_less_trans)
  ultimately show ?thesis by (simp add: take_bit_nat_eq_self)
qed

lemma unat_PGADDR: "unat (PGADDR_2MB a) = unat a div 2 ^ 21 * 2 ^ 21"
  using and_not_mask [of 21 a] by (simp add: PGADDR_2MB_def PGSIZE_2MB_def)

lemma PGADDR_base: "unat (a - PGADDR_2MB a) = unat a mod 2 ^ 21"
proof -
  have "unat (PGADDR_2MB a) \<le> unat a" by (simp only: unat_PGADDR) simp
  then have "unat (a - PGADDR_2MB a) = unat a - unat a div 2 ^ 21 * 2 ^ 21" by (simp add: unat_sub word_le_nat_alt unat_PGADDR)
  then show ?thesis by (simp add: minus_div_mult_eq_mod)
qed

lemma unat_PGN: "unat (PGN a) = unat a mod 2 ^ 21 div 2 ^ 12"
  by (simp only: PGN_def PGN_4KB_def unat_drop_bit PGADDR_base)

lemma unat_mult_add:
  assumes "unat a + n < 2 ^ 64"
  shows "unat (a + of_nat n :: u64) = unat a + n"
  using assms by (simp add: unat_add_of_nat)

text \<open>Large pages: the address of a structure in the table, and the structure of any address in the page.\<close>

lemma lgpage_of_addr:
  assumes "i < unat LGPAGE_META_ENTS * MAX_NUMA" "off < 2 ^ 21"
  shows "addr_to_lgpage tbl (lgpage_to_addr tbl (tbl + of_nat i * sizeof_page) + of_nat off) = tbl + of_nat i * sizeof_page"
    "lgpage_to_addr tbl (tbl + of_nat i * sizeof_page) = PAGE_BASE_ADDR + of_nat (i * 2 ^ 21)"
proof -
  have i: "i < 65536" using assms(1) by (simp add: page_consts)
  have "unat (of_nat i * sizeof_page) = i * 64" using i by (simp add: sizeof_page_def unat_word_ariths unat_of_nat)
  then have d: "of_nat i * sizeof_page div sizeof_page = of_nat i"
    using i by (intro word_unat_eq_iff [THEN iffD2]) (simp add: unat_div sizeof_page_def unat_of_nat)
  then show 2: "lgpage_to_addr tbl (tbl + of_nat i * sizeof_page) = PAGE_BASE_ADDR + of_nat (i * 2 ^ 21)"
    by (simp add: lgpage_to_addr_def PGSIZE_2MB_def)
  have "unat (of_nat (i * 2 ^ 21) + of_nat off :: u64) = i * 2 ^ 21 + off" using i assms(2) by (simp add: unat_word_ariths unat_of_nat)
  then have "unat (drop_bit 21 (of_nat (i * 2 ^ 21) + of_nat off :: u64)) = i" using assms(2) by (simp only: unat_drop_bit) simp
  then have "drop_bit 21 (of_nat (i * 2 ^ 21) + of_nat off :: u64) = of_nat i" using i by (intro word_unat_eq_iff [THEN iffD2]) (simp add: unat_of_nat)
  then show "addr_to_lgpage tbl (lgpage_to_addr tbl (tbl + of_nat i * sizeof_page) + of_nat off) = tbl + of_nat i * sizeof_page"
    unfolding 2 addr_to_lgpage_def LGPGN_def PGN_2MB_def by (simp add: algebra_simps)
qed

lemma div_in_steps: "n div 2 ^ 21 * 2 ^ 21 + n mod 2 ^ 21 div 2 ^ 12 * 2 ^ 12 = n div 2 ^ 12 * (2 ^ 12 :: nat)"
proof -
  have *: "((q * 512 + k) * 4096 + t) div 4096 = q * 512 + k" if "t < 4096" for q k t :: nat
    using that by simp
  have **: "n = (q * 512 + k) * 4096 + t" if "q * 2097152 + r = n" "k * 4096 + t = r" for q k t r :: nat
    using that by (simp add: algebra_simps)
  have "n = (n div 2097152 * 512 + n mod 2097152 div 4096) * 4096 + n mod 2097152 mod 4096"
    by (rule ** [OF div_mult_mod_eq div_mult_mod_eq])
  then have "n div 4096 = n div 2097152 * 512 + n mod 2097152 div 4096" using * [of "n mod 2097152 mod 4096"] by (metis mod_less_divisor zero_less_numeral)
  then show ?thesis by simp
qed

lemma smpage_start: "smpage_to_addr (addr_to_smpage a) = a AND NOT (PGSIZE_4KB - 1)"
proof -
  let ?B = "unat a div 2 ^ 21 * 2 ^ 21" and ?k = "unat a mod 2 ^ 21 div 2 ^ 12" and ?pg = "addr_to_smpage a"
  have k: "?k < 512" by (simp add: less_mult_imp_div_less)
  have B: "?B + 2 ^ 21 \<le> 2 ^ 64"
  proof -
    have "unat a div 2 ^ 21 < 2 ^ 43" using unat_bound [of a] by (simp add: less_mult_imp_div_less)
    then have "Suc (unat a div 2 ^ 21) * 2 ^ 21 \<le> 2 ^ 43 * 2 ^ 21" by (intro mult_le_mono1) simp
    then show ?thesis by simp
  qed
  have "unat ?pg = (?B + ?k * 64) mod 2 ^ 64"
    by (simp only: addr_to_smpage_def unat_word_ariths unat_PGADDR unat_PGN sizeof_page_def) (simp add: mod_simps)
  then have pg: "unat ?pg = ?B + ?k * 64" using B k by simp
  have "unat ?pg div 2 ^ 21 * 2 ^ 21 = ?B" "unat ?pg mod 2 ^ 21 = ?k * 64" using pg k by simp_all
  then have P: "unat (PGADDR_2MB ?pg) = ?B" "unat (?pg - PGADDR_2MB ?pg) = ?k * 64" by (simp_all only: unat_PGADDR PGADDR_base)
  have "unat (smpage_to_addr ?pg) = (?B + ?k * 64 div 64 * 2 ^ 12) mod 2 ^ 64"
    by (simp only: smpage_to_addr_def unat_word_ariths unat_div P sizeof_page_def PGSIZE_4KB_def) (simp add: mod_simps)
  then have "unat (smpage_to_addr ?pg) = ?B + ?k * 2 ^ 12" using B k by simp
  also have "\<dots> = unat a div 2 ^ 12 * 2 ^ 12" by (rule div_in_steps)
  also have "\<dots> = unat (a AND NOT (PGSIZE_4KB - 1))" using and_not_mask [of 12 a] by (simp add: PGSIZE_4KB_def)
  finally show ?thesis by (rule word_unat_eq_iff [THEN iffD2])
qed

text \<open>The two maps between addresses and page structures are inverse to each other: the structure of any address
  inside a large page of the table is the one whose address it is, and for small pages, from any address to its
  structure and back is the start of its 4 KB page.\<close>

theorem page_addr_roundtrip:
  assumes "i < unat LGPAGE_META_ENTS * MAX_NUMA" "off < unat PGSIZE_2MB"
  shows "addr_to_lgpage tbl (lgpage_to_addr tbl (tbl + of_nat i * sizeof_page) + of_nat off) = tbl + of_nat i * sizeof_page \<and>
    smpage_to_addr (addr_to_smpage a) = a AND NOT (PGSIZE_4KB - 1)"
  using lgpage_of_addr(1) [OF assms(1)] assms(2) smpage_start by (simp add: PGSIZE_2MB_def)

text \<open>The second page of the table, at its last byte.\<close>

theorem page_addr_roundtrip_witness:
  "addr_to_lgpage 0x5000 (lgpage_to_addr 0x5000 0x5040 + 0x1FFFFF) = 0x5040 \<and> smpage_to_addr (addr_to_smpage 0x100000203456) = 0x100000203000"
  using page_addr_roundtrip [where i = 1 and off = "0x1FFFFF" and tbl = "0x5000" and a = "0x100000203456"] by (simp add: page_consts)

section \<open>Reference counts\<close>

definition kref_init :: "int \<Rightarrow> int" where
  "kref_init cnt = 1"

text \<open>\<open>None\<close>: the assertion of \<^verbatim>\<open>kref_get\<close> fails. The first result of \<^verbatim>\<open>kref_put\<close> tells whether to release the object.\<close>

definition kref_get :: "int \<Rightarrow> int option" where
  "kref_get cnt = (if cnt > 0 then Some (cnt + 1) else None)"

definition kref_put :: "int \<Rightarrow> bool \<times> int" where
  "kref_put cnt = (cnt = 1, cnt - 1)"

section \<open>Large pages\<close>

definition PAGE_FLAG_LARGE :: u32 where "PAGE_FLAG_LARGE = 0x01"
definition PAGE_FLAG_IN_USE :: u32 where "PAGE_FLAG_IN_USE = 0x02"
definition PAGE_FLAG_SLAB :: u32 where "PAGE_FLAG_SLAB = 0x04"
definition PAGE_FLAG_SHATTERED :: u32 where "PAGE_FLAG_SHATTERED = 0x08"

record page =
  pg_flags :: u32
  pg_ref :: int
  pg_paddr :: u64

text \<open>The state of the allocator. \<open>os_page i\<close> is the answer of the system to the \<open>i\<close>-th request for a large page: the
  physical address, or \<open>None\<close> if the page cannot be mapped or its physical address not found.\<close>

record lgpage_sys =
  lg_idx :: "nat \<Rightarrow> nat"
  lg_pages :: "nat \<Rightarrow> addr list"
  pages :: "addr \<Rightarrow> page"
  os_page :: "nat \<Rightarrow> u64 option"
  os_count :: nat

definition node_tbl :: "addr \<Rightarrow> nat \<Rightarrow> addr" where
  "node_tbl tbl node = tbl + of_nat node * LGPAGE_META_LEN"

definition lgpage_create :: "addr \<Rightarrow> lgpage_sys \<Rightarrow> bool \<times> lgpage_sys" where
  "lgpage_create pg s =
     (let r = os_page s (os_count s);
          s = s\<lparr>os_count := os_count s + 1\<rparr>
      in case r of
           None \<Rightarrow> (False, s)
         | Some pa \<Rightarrow>
             (True, s\<lparr>pages := (pages s)(pg := \<lparr>pg_flags = PAGE_FLAG_LARGE OR PAGE_FLAG_IN_USE, pg_ref = kref_init (pg_ref (pages s pg)), pg_paddr = pa\<rparr>)\<rparr>))"

definition lgpage_destroy :: "addr \<Rightarrow> lgpage_sys \<Rightarrow> lgpage_sys" where
  "lgpage_destroy pg s = s\<lparr>pages := (pages s)(pg := (pages s pg)\<lparr>pg_flags := 0, pg_paddr := 0\<rparr>)\<rparr>"

text \<open>The part of \<^verbatim>\<open>lgpage_alloc_on_node\<close> under the lock finds a free structure.\<close>

definition lgpage_take :: "addr \<Rightarrow> nat \<Rightarrow> lgpage_sys \<Rightarrow> addr option \<times> lgpage_sys" where
  "lgpage_take tbl node s =
     (case lg_pages s node of
        g # gs \<Rightarrow> (Some g, s\<lparr>lg_pages := (lg_pages s)(node := gs)\<rparr>)
      | [] \<Rightarrow> if lg_idx s node \<ge> unat LGPAGE_META_ENTS then (None, s)
              else (Some (node_tbl tbl node + of_nat (lg_idx s node) * sizeof_page), s\<lparr>lg_idx := (lg_idx s)(node := lg_idx s node + 1)\<rparr>))"

text \<open>\<open>None\<close> is a failed assertion.\<close>

definition lgpage_alloc_on_node :: "addr \<Rightarrow> nat \<Rightarrow> lgpage_sys \<Rightarrow> (addr option \<times> lgpage_sys) option" where
  "lgpage_alloc_on_node tbl node s =
     (if node \<ge> MAX_NUMA then None
      else case lgpage_take tbl node s of
        (None, s) \<Rightarrow> Some (None, s)
      | (Some g, s) \<Rightarrow>
          if pg_flags (pages s g) AND PAGE_FLAG_IN_USE \<noteq> 0 then None
          else case lgpage_create g s of
            (True, s) \<Rightarrow> Some (Some g, s)
          | (False, s) \<Rightarrow> Some (None, s))"

definition lgpage_free :: "addr \<Rightarrow> addr \<Rightarrow> lgpage_sys \<Rightarrow> lgpage_sys option" where
  "lgpage_free tbl pg s =
     (let node = unat (addr_to_numa_node (lgpage_to_addr tbl pg))
      in if node \<ge> MAX_NUMA then None
         else let s = lgpage_destroy pg s in Some (s\<lparr>lg_pages := (lg_pages s)(node := pg # lg_pages s node)\<rparr>))"

text \<open>\<^verbatim>\<open>page_put\<close> with \<^verbatim>\<open>page_release\<close>, for large pages: one that is not large is not modelled here.\<close>

definition page_get :: "addr \<Rightarrow> lgpage_sys \<Rightarrow> lgpage_sys option" where
  "page_get pg s = map_option (\<lambda>c. s\<lparr>pages := (pages s)(pg := (pages s pg)\<lparr>pg_ref := c\<rparr>)\<rparr>) (kref_get (pg_ref (pages s pg)))"

definition page_put_large :: "addr \<Rightarrow> addr \<Rightarrow> lgpage_sys \<Rightarrow> lgpage_sys option" where
  "page_put_large tbl pg s =
     (case kref_put (pg_ref (pages s pg)) of (release, c) \<Rightarrow>
        let s = s\<lparr>pages := (pages s)(pg := (pages s pg)\<lparr>pg_ref := c\<rparr>)\<rparr>
        in if release
           then if pg_flags (pages s pg) AND PAGE_FLAG_LARGE \<noteq> 0 then lgpage_free tbl pg s else None
           else Some s)"

definition page_init :: "lgpage_sys \<Rightarrow> lgpage_sys" where
  "page_init s =
     s\<lparr>lg_idx := (\<lambda>i. if i < MAX_NUMA then 0 else lg_idx s i), lg_pages := (\<lambda>i. if i < MAX_NUMA then [] else lg_pages s i)\<rparr>"

section \<open>What the users of pages rely on\<close>

locale page_backend =
  fixes palloc :: "'p \<Rightarrow> (addr option \<times> 'p) option"
    and pput :: "'p \<Rightarrow> addr \<Rightarrow> 'p option"
    and paddr :: "addr \<Rightarrow> addr"
    and pof :: "addr \<Rightarrow> addr"
    and pinv :: "'p \<Rightarrow> bool"
    and live :: "'p \<Rightarrow> addr set"
    and pgsize :: nat
  assumes alloc_total: "pinv p \<Longrightarrow> \<exists>r. palloc p = Some r"
    and alloc_some: "pinv p \<Longrightarrow> palloc p = Some (Some g, p') \<Longrightarrow> pinv p' \<and> g \<notin> live p \<and> live p' = insert g (live p)"
    and alloc_none: "pinv p \<Longrightarrow> palloc p = Some (None, p') \<Longrightarrow> pinv p' \<and> live p' = live p"
    and put_ok: "pinv p \<Longrightarrow> g \<in> live p \<Longrightarrow> \<exists>p'. pput p g = Some p' \<and> pinv p' \<and> live p' = live p - {g}"
    and page_of: "pinv p \<Longrightarrow> g \<in> live p \<Longrightarrow> off < pgsize \<Longrightarrow> pof (paddr g + of_nat off) = g \<and> paddr g + of_nat off \<noteq> NULL"
    and pgsize_bound: "pgsize \<le> 2 ^ 21"
begin

lemma item_inj:
  assumes "pinv p" "g \<in> live p" "g' \<in> live p" "off < pgsize" "off' < pgsize" "paddr g + of_nat off = paddr g' + of_nat off'"
  shows "g = g' \<and> off = off'"
proof -
  have g: "g = g'" using page_of [OF assms(1,2,4)] page_of [OF assms(1,3,5)] assms(6) by simp
  then have "of_nat off = (of_nat off' :: addr)" using assms(6) by simp
  then have "unat (of_nat off :: addr) = unat (of_nat off' :: addr)" by simp
  then show ?thesis using g assms(4,5) pgsize_bound by (simp add: unat_of_nat)
qed

end

section \<open>The large pages keep it\<close>

definition lg_struct :: "addr \<Rightarrow> nat \<Rightarrow> addr" where
  "lg_struct tbl i = tbl + of_nat i * sizeof_page"

definition lg_known :: "addr \<Rightarrow> lgpage_sys \<Rightarrow> nat \<Rightarrow> addr set" where
  "lg_known tbl s node = (\<lambda>j. lg_struct tbl (node * 32768 + j)) ` {..<lg_idx s node}"

definition in_use :: "lgpage_sys \<Rightarrow> addr set" where
  "in_use s = {g. pg_flags (pages s g) AND PAGE_FLAG_IN_USE \<noteq> 0}"

definition lg_inv :: "addr \<Rightarrow> lgpage_sys \<Rightarrow> bool" where
  "lg_inv tbl s \<longleftrightarrow>
     (\<forall>node < MAX_NUMA. lg_idx s node \<le> 32768 \<and> distinct (lg_pages s node) \<and> set (lg_pages s node) \<subseteq> lg_known tbl s node - in_use s) \<and>
     in_use s \<subseteq> (\<Union>node < MAX_NUMA. lg_known tbl s node) \<and>
     (\<forall>g \<in> in_use s. pg_ref (pages s g) = 1 \<and> pg_flags (pages s g) AND PAGE_FLAG_LARGE \<noteq> 0)"

lemma lg_struct_inj: "lg_struct tbl i = lg_struct tbl j \<Longrightarrow> i < 65536 \<Longrightarrow> j < 65536 \<Longrightarrow> i = j"
proof -
  assume e: "lg_struct tbl i = lg_struct tbl j" and b: "i < 65536" "j < 65536"
  then have "unat (of_nat i * sizeof_page) = unat (of_nat j * sizeof_page)" by (simp add: lg_struct_def)
  then show "i = j" using b by (simp add: sizeof_page_def unat_word_ariths unat_of_nat)
qed

lemma lg_known_disjoint:
  assumes "lg_idx s 0 \<le> 32768" "lg_idx s 1 \<le> 32768" "n < MAX_NUMA" "m < MAX_NUMA" "n \<noteq> m"
  shows "lg_known tbl s n \<inter> lg_known tbl s m = {}"
proof -
  have nm: "n = 0 \<and> m = 1 \<or> n = 1 \<and> m = 0" using assms(3-5) by (auto simp: MAX_NUMA_def less_Suc_eq numeral_2_eq_2)
  have "lg_struct tbl i \<noteq> lg_struct tbl (32768 + j)" if "i < 32768" "j < 32768" for i j
    using lg_struct_inj [of tbl i "32768 + j"] that by auto
  then have "lg_known tbl s 0 \<inter> lg_known tbl s 1 = {}" using assms(1,2) by (auto simp: lg_known_def)
  then show ?thesis using nm by auto
qed

lemma node_of_struct:
  assumes "node < MAX_NUMA" "j < 32768"
  shows "unat (addr_to_numa_node (lgpage_to_addr tbl (lg_struct tbl (node * 32768 + j)))) = node"
proof -
  let ?i = "node * 32768 + j"
  have i: "?i < unat LGPAGE_META_ENTS * MAX_NUMA" using assms by (simp add: page_consts)
  have "lgpage_to_addr tbl (lg_struct tbl ?i) = PAGE_BASE_ADDR + of_nat (?i * 2 ^ 21)"
    unfolding lg_struct_def by (rule lgpage_of_addr(2) [OF i, of 0]) simp
  then have "unat (addr_to_numa_node (lgpage_to_addr tbl (lg_struct tbl ?i))) = unat (of_nat (?i * 2 ^ 21) :: u64) div unat LGPAGE_NODE_ADDR_LEN"
    by (simp add: addr_to_numa_node_def unat_div)
  moreover have "unat (of_nat (?i * 2 ^ 21) :: u64) = ?i * 2 ^ 21"
    unfolding unat_of_nat using assms by (simp add: MAX_NUMA_def)
  moreover have "unat LGPAGE_NODE_ADDR_LEN = 32768 * 2 ^ 21" by (simp add: page_consts)
  ultimately show ?thesis using assms(2) by simp
qed

lemma lg_inv_idx: "lg_inv tbl s \<Longrightarrow> lg_idx s 0 \<le> 32768 \<and> lg_idx s 1 \<le> 32768"
  by (simp add: lg_inv_def MAX_NUMA_def)

lemma lg_take_ok:
  assumes inv: "lg_inv tbl s" and n: "node < MAX_NUMA" and t: "lgpage_take tbl node s = (r, s')"
  shows "lg_inv tbl s' \<and> pages s' = pages s \<and> (\<forall>g. r = Some g \<longrightarrow> g \<in> lg_known tbl s' node \<and> g \<notin> in_use s' \<and> (\<forall>m < MAX_NUMA. g \<notin> set (lg_pages s' m)))"
proof (cases "lg_pages s node")
  case (Cons g gs)
  then have s': "r = Some g" "s' = s\<lparr>lg_pages := (lg_pages s)(node := gs)\<rparr>" using t by (simp_all add: lgpage_take_def)
  have k: "lg_known tbl s' = lg_known tbl s" "in_use s' = in_use s" by (auto simp: s'(2) lg_known_def in_use_def fun_eq_iff)
  have l: "distinct (g # gs)" "set (g # gs) \<subseteq> lg_known tbl s node - in_use s" using inv n by (auto simp: lg_inv_def simp flip: Cons)
  have "g \<notin> set (lg_pages s m)" if "m < MAX_NUMA" "m \<noteq> node" for m
    using lg_known_disjoint [of s m node tbl] lg_inv_idx [OF inv] that n l(2) inv by (auto simp: lg_inv_def)
  then show ?thesis using inv l k s' by (auto simp: lg_inv_def)
next
  case Nil
  show ?thesis
  proof (cases "lg_idx s node \<ge> unat LGPAGE_META_ENTS")
    case True
    then show ?thesis using t Nil inv by (auto simp: lgpage_take_def)
  next
    case False
    then have i: "lg_idx s node < 32768" by (simp add: page_consts)
    define g where "g = lg_struct tbl (node * 32768 + lg_idx s node)"
    have "node_tbl tbl node + of_nat (lg_idx s node) * sizeof_page = g" by (simp add: g_def node_tbl_def lg_struct_def page_consts algebra_simps)
    then have s': "r = Some g" "s' = s\<lparr>lg_idx := (lg_idx s)(node := lg_idx s node + 1)\<rparr>" using t Nil False by (simp_all add: lgpage_take_def)
    have k: "lg_known tbl s' node = insert g (lg_known tbl s node)" "\<And>m. m \<noteq> node \<Longrightarrow> lg_known tbl s' m = lg_known tbl s m" "in_use s' = in_use s"
      by (auto simp: s'(2) lg_known_def in_use_def g_def lessThan_Suc)
    have new: "g \<notin> lg_known tbl s m" if m: "m < MAX_NUMA" for m
    proof
      assume "g \<in> lg_known tbl s m"
      then obtain j where j: "j < lg_idx s m" "g = lg_struct tbl (m * 32768 + j)" by (auto simp: lg_known_def)
      have "lg_idx s m \<le> 32768" using inv m by (simp add: lg_inv_def)
      then have "node * 32768 + lg_idx s node = m * 32768 + j"
        using j i n m by (intro lg_struct_inj [of tbl]) (simp_all add: g_def MAX_NUMA_def)
      then have "(node * 32768 + lg_idx s node) div 32768 = (m * 32768 + j) div 32768" "(node * 32768 + lg_idx s node) mod 32768 = (m * 32768 + j) mod 32768"
        by simp_all
      then have "node = m" "lg_idx s node = j" using i j(1) \<open>lg_idx s m \<le> 32768\<close> by simp_all
      with j(1) show False by simp
    qed
    have "g \<notin> in_use s" using new inv by (auto simp: lg_inv_def)
    moreover have "g \<notin> set (lg_pages s m)" if "m < MAX_NUMA" for m using new [OF that] inv that by (auto simp: lg_inv_def)
    moreover have "lg_inv tbl s'" unfolding lg_inv_def
    proof (intro conjI allI impI ballI)
      fix m assume "m < MAX_NUMA"
      then show "lg_idx s' m \<le> 32768" "distinct (lg_pages s' m)" "set (lg_pages s' m) \<subseteq> lg_known tbl s' m - in_use s'"
        using inv i k \<open>g \<notin> in_use s\<close> by (cases "m = node"; auto simp: lg_inv_def s'(2))+
    next
      have "lg_known tbl s m \<subseteq> lg_known tbl s' m" for m using k by (cases "m = node") auto
      then have "(\<Union>m < MAX_NUMA. lg_known tbl s m) \<subseteq> (\<Union>m < MAX_NUMA. lg_known tbl s' m)" by (intro UN_mono) simp_all
      moreover have "in_use s \<subseteq> (\<Union>m < MAX_NUMA. lg_known tbl s m)" using inv by (simp add: lg_inv_def)
      ultimately show "in_use s' \<subseteq> (\<Union>m < MAX_NUMA. lg_known tbl s' m)" unfolding k(3) by (rule order_trans [rotated])
    next
      fix h assume "h \<in> in_use s'"
      then show "pg_ref (pages s' h) = 1" "pg_flags (pages s' h) AND PAGE_FLAG_LARGE \<noteq> 0" using inv k(3) by (auto simp: lg_inv_def s'(2))
    qed
    ultimately show ?thesis using s' k by auto
  qed
qed

lemma in_use_upd: "in_use (s\<lparr>pages := (pages s)(g := k)\<rparr>) = (if pg_flags k AND PAGE_FLAG_IN_USE \<noteq> 0 then insert g (in_use s) else in_use s - {g})"
  by (auto simp: in_use_def)

lemma lg_known_upd [simp]: "lg_known tbl (s\<lparr>pages := f\<rparr>) = lg_known tbl s" "lg_known tbl (s\<lparr>os_count := c\<rparr>) = lg_known tbl s"
  "lg_known tbl (s\<lparr>lg_pages := l\<rparr>) = lg_known tbl s"
  by (simp_all add: lg_known_def fun_eq_iff)

lemma lg_alloc_ok:
  assumes inv: "lg_inv tbl s" and n: "node < MAX_NUMA"
  shows "\<exists>r s'. lgpage_alloc_on_node tbl node s = Some (r, s') \<and> lg_inv tbl s' \<and>
    (case r of None \<Rightarrow> in_use s' = in_use s | Some g \<Rightarrow> g \<notin> in_use s \<and> in_use s' = insert g (in_use s))"
proof (cases "lgpage_take tbl node s")
  case (Pair r t)
  note ok = lg_take_ok [OF inv n Pair]
  then have u: "in_use t = in_use s" by (simp add: in_use_def)
  show ?thesis
  proof (cases r)
    case None
    then show ?thesis using Pair ok u n by (simp add: lgpage_alloc_on_node_def)
  next
    case (Some g)
    then have g: "g \<in> lg_known tbl t node" "g \<notin> in_use t" "\<And>m. m < MAX_NUMA \<Longrightarrow> g \<notin> set (lg_pages t m)" using ok by auto
    show ?thesis
    proof (cases "os_page t (os_count t)")
      case None
      then have "lgpage_alloc_on_node tbl node s = Some (None, t\<lparr>os_count := os_count t + 1\<rparr>)"
        using Pair Some g(2) n by (simp add: lgpage_alloc_on_node_def lgpage_create_def in_use_def)
      moreover have "lg_inv tbl (t\<lparr>os_count := os_count t + 1\<rparr>)" using conjunct1 [OF ok] by (simp add: lg_inv_def in_use_def)
      moreover have "in_use (t\<lparr>os_count := os_count t + 1\<rparr>) = in_use s" by (simp add: in_use_def ok)
      ultimately show ?thesis by simp
    next
      case os: (Some pa)
      let ?k = "\<lparr>pg_flags = PAGE_FLAG_LARGE OR PAGE_FLAG_IN_USE, pg_ref = 1, pg_paddr = pa\<rparr>"
      let ?s = "t\<lparr>os_count := os_count t + 1, pages := (pages t)(g := ?k)\<rparr>"
      have a: "lgpage_alloc_on_node tbl node s = Some (Some g, ?s)"
        using Pair Some g(2) n os by (simp add: lgpage_alloc_on_node_def lgpage_create_def in_use_def kref_init_def)
      have fl: "(PAGE_FLAG_LARGE OR PAGE_FLAG_IN_USE) AND PAGE_FLAG_IN_USE \<noteq> 0" "(PAGE_FLAG_LARGE OR PAGE_FLAG_IN_USE) AND PAGE_FLAG_LARGE \<noteq> 0"
        by (simp_all add: PAGE_FLAG_LARGE_def PAGE_FLAG_IN_USE_def)
      have us: "in_use ?s = insert g (in_use t)" using fl(1) by (auto simp: in_use_def)
      have "lg_inv tbl ?s" unfolding lg_inv_def us using ok g n fl(2) by (auto simp: lg_inv_def)
      then show ?thesis using a us u g(2) by auto
    qed
  qed
qed

lemma lg_put_ok:
  assumes inv: "lg_inv tbl s" and g: "g \<in> in_use s"
  shows "\<exists>s'. page_put_large tbl g s = Some s' \<and> lg_inv tbl s' \<and> in_use s' = in_use s - {g}"
proof -
  obtain node where node: "node < MAX_NUMA" "g \<in> lg_known tbl s node" using inv g by (auto simp: lg_inv_def)
  then obtain j where j: "j < lg_idx s node" "g = lg_struct tbl (node * 32768 + j)" by (auto simp: lg_known_def)
  have "j < 32768" using j(1) inv node(1) by (auto simp: lg_inv_def)
  then have nd: "unat (addr_to_numa_node (lgpage_to_addr tbl g)) = node" using node_of_struct [OF node(1)] j(2) by simp
  have k: "pg_ref (pages s g) = 1" "pg_flags (pages s g) AND PAGE_FLAG_LARGE \<noteq> 0" using inv g by (auto simp: lg_inv_def)
  let ?k = "(pages s g)\<lparr>pg_ref := 0, pg_flags := 0, pg_paddr := 0\<rparr>"
  let ?s = "s\<lparr>pages := (pages s)(g := ?k), lg_pages := (lg_pages s)(node := g # lg_pages s node)\<rparr>"
  have p: "page_put_large tbl g s = Some ?s"
    using k nd node(1) by (simp add: page_put_large_def kref_put_def lgpage_free_def lgpage_destroy_def Let_def)
  have u: "in_use ?s = in_use s - {g}" by (auto simp: in_use_def)
  have "lg_inv tbl ?s" unfolding lg_inv_def u using inv g node by (auto simp: lg_inv_def)
  then show ?thesis using p u by blast
qed

lemma lg_page_of:
  assumes "lg_inv tbl s" "g \<in> in_use s" "off < 2 ^ 21"
  shows "addr_to_lgpage tbl (lgpage_to_addr tbl g + of_nat off) = g \<and> lgpage_to_addr tbl g + of_nat off \<noteq> NULL"
proof -
  obtain node j where n: "node < MAX_NUMA" "j < lg_idx s node" "g = lg_struct tbl (node * 32768 + j)"
    using assms(1,2) by (auto simp: lg_inv_def lg_known_def)
  let ?i = "node * 32768 + j"
  have "j < 32768" using n assms(1) by (auto simp: lg_inv_def)
  then have i: "?i < unat LGPAGE_META_ENTS * MAX_NUMA" using n(1) by (simp add: page_consts)
  have a: "lgpage_to_addr tbl g = PAGE_BASE_ADDR + of_nat (?i * 2 ^ 21)" using lgpage_of_addr(2) [OF i assms(3)] n(3) by (simp add: lg_struct_def)
  have "unat (of_nat (?i * 2 ^ 21 + off) :: u64) = ?i * 2 ^ 21 + off" unfolding unat_of_nat using i assms(3) by (simp add: page_consts)
  moreover have "lgpage_to_addr tbl g + of_nat off = PAGE_BASE_ADDR + of_nat (?i * 2 ^ 21 + off)" unfolding a by (simp add: algebra_simps)
  ultimately have "unat (lgpage_to_addr tbl g + of_nat off) = 0x100000000000 + (?i * 2 ^ 21 + off)"
    using i assms(3) by (simp only: unat_word_ariths) (simp add: page_consts)
  then have "lgpage_to_addr tbl g + of_nat off \<noteq> NULL" by auto
  then show ?thesis using lgpage_of_addr(1) [OF i assms(3)] n(3) by (simp add: lg_struct_def)
qed

interpretation large: page_backend "lgpage_alloc_on_node tbl node" "\<lambda>s g. page_put_large tbl g s" "lgpage_to_addr tbl" "addr_to_lgpage tbl"
    "\<lambda>s. lg_inv tbl s \<and> node < MAX_NUMA" in_use "2 ^ 21" for tbl node
proof (unfold_locales, goal_cases)
  case (1 p)
  then show ?case using lg_alloc_ok [of tbl p node] by blast
next
  case (2 p g p')
  then show ?case using lg_alloc_ok [of tbl p node] by auto
next
  case (3 p p')
  then show ?case using lg_alloc_ok [of tbl p node] by auto
next
  case (4 p g)
  then show ?case using lg_put_ok [of tbl p g] by blast
next
  case (5 p g off)
  then show ?case using lg_page_of [of tbl p g off] by simp
qed simp

end
