(* ===== verification/Slab.thy ===== *)
theory Slab
  imports Page
begin

text \<open>
  The slab allocator (\<^verbatim>\<open>libos/mm/slab.c\<close>): a node of a slab cuts pages into items of one size. It keeps a current
  page, the pages whose items are nearly all handed out (\<^verbatim>\<open>full_list\<close>) and those with enough free items to be used
  again (\<^verbatim>\<open>partial_list\<close>), and gives a page back when all its items are free. The lists of pages are sequences, as
  the refinement of \<^verbatim>\<open>utils/list.h\<close> allows, and so is the chain of free items of a page, which runs through the items
  themselves. The page allocator is reached through a record of its operations. The operations that hold the lock of
  a node are one step. \<open>None\<close> is a failed assertion.
\<close>

section \<open>Data\<close>

definition SLAB_CHUNK_SIZE :: nat where "SLAB_CHUNK_SIZE = 8"
definition SLAB_PARTIAL_THRESH :: nat where "SLAB_PARTIAL_THRESH = SLAB_CHUNK_SIZE div 2"
definition SLAB_4KB_LIMIT :: u64 where "SLAB_4KB_LIMIT = align_down (PGSIZE_4KB div (of_nat SLAB_PARTIAL_THRESH * 2)) 8"
definition SLAB_2MB_LIMIT :: u64 where "SLAB_2MB_LIMIT = align_down (PGSIZE_2MB div (of_nat SLAB_PARTIAL_THRESH * 2)) 8"
definition SLAB_FLAG_LGPAGE :: u32 where "SLAB_FLAG_LGPAGE = 1"
definition SLAB_FLAG_FALSE_OKAY :: u32 where "SLAB_FLAG_FALSE_OKAY = 2"

record slab_page =
  p_next :: "addr list"
  item_count :: int

record 'p slab_node =
  sn_size :: nat
  sn_numa :: nat
  sn_offset :: nat
  sn_flags :: u32
  nr_elems :: nat
  pg_off :: nat
  cur_pg :: "addr option"
  full_list :: "addr list"
  partial_list :: "addr list"
  nr_pages :: int
  sn_pages :: "addr \<Rightarrow> slab_page"
  backing :: 'p

record 'p page_ops =
  op_alloc :: "'p \<Rightarrow> (addr option \<times> 'p) option"
  op_put :: "'p \<Rightarrow> addr \<Rightarrow> 'p option"
  op_addr :: "addr \<Rightarrow> addr"
  op_page :: "addr \<Rightarrow> addr"
  op_size :: nat

definition slab_create_node :: "nat \<Rightarrow> nat \<Rightarrow> nat \<Rightarrow> u32 \<Rightarrow> nat \<Rightarrow> 'p \<Rightarrow> 'p slab_node" where
  "slab_create_node numa_node sz offset flags n p =
     \<lparr>sn_size = sz, sn_numa = numa_node, sn_offset = offset, sn_flags = flags, nr_elems = n, pg_off = 0, cur_pg = None,
      full_list = [], partial_list = [], nr_pages = 0, sn_pages = (\<lambda>_. \<lparr>p_next = [], item_count = 0\<rparr>), backing = p\<rparr>"

text \<open>\<^verbatim>\<open>slab_create\<close> up to the creation of the nodes: the size of the items, the flags and the number of items in a
  page, or \<open>None\<close> for \<^verbatim>\<open>-E2BIG\<close>.\<close>

definition slab_create :: "u64 \<Rightarrow> u32 \<Rightarrow> (u64 \<times> u32 \<times> u64) option" where
  "slab_create sz flags =
     (let sz = (if flags AND SLAB_FLAG_FALSE_OKAY = 0 then align_up sz 64 else align_up sz 8)
      in if sz > SLAB_2MB_LIMIT then None
         else let flags = (if sz > SLAB_4KB_LIMIT then flags OR SLAB_FLAG_LGPAGE else flags);
                  pgsize = (if flags AND SLAB_FLAG_LGPAGE \<noteq> 0 then PGSIZE_2MB else PGSIZE_4KB)
              in Some (sz, flags, pgsize div sz))"

section \<open>Operations\<close>

text \<open>A page from the partial list, or a new one. The flags \<^verbatim>\<open>PAGE_FLAG_SLAB\<close> and \<^verbatim>\<open>PAGE_FLAG_SHATTERED\<close>, the back pointer
  \<^verbatim>\<open>snode\<close> and the clearing of the structures at the start of a page of pages, which no operation of this theory reads,
  are not kept.\<close>

definition slab_node_get_page :: "'p page_ops \<Rightarrow> 'p slab_node \<Rightarrow> (addr option \<times> 'p slab_node) option" where
  "slab_node_get_page ops n =
     (case partial_list n of
        g # gs \<Rightarrow> Some (Some g, n\<lparr>partial_list := gs\<rparr>)
      | [] \<Rightarrow>
          (case op_alloc ops (backing n) of
             None \<Rightarrow> None
           | Some (None, p) \<Rightarrow> Some (None, n\<lparr>backing := p\<rparr>)
           | Some (Some g, p) \<Rightarrow>
               Some (Some g, n\<lparr>backing := p, pg_off := sn_offset n,
                               sn_pages := (sn_pages n)(g := \<lparr>p_next = [], item_count = int (nr_elems n)\<rparr>)\<rparr>)))"

text \<open>The first half of \<^verbatim>\<open>__slab_node_alloc\<close>: a page with a free item becomes the current one.\<close>

definition slab_refill :: "'p page_ops \<Rightarrow> 'p slab_node \<Rightarrow> 'p slab_node option" where
  "slab_refill ops n =
     (if cur_pg n = None \<or> item_count (sn_pages n (the (cur_pg n))) = 0
      then let n = (case cur_pg n of Some c \<Rightarrow> n\<lparr>full_list := c # full_list n\<rparr> | None \<Rightarrow> n)
           in map_option (\<lambda>(r, n). n\<lparr>cur_pg := r, nr_pages := (if r = None then nr_pages n else nr_pages n + 1)\<rparr>) (slab_node_get_page ops n)
      else Some n)"

definition slab_take :: "'p page_ops \<Rightarrow> addr \<Rightarrow> 'p slab_node \<Rightarrow> (addr \<times> 'p slab_node) option" where
  "slab_take ops g n =
     (let k = sn_pages n g
      in case p_next k of
           x # xs \<Rightarrow> Some (x, n\<lparr>sn_pages := (sn_pages n)(g := k\<lparr>p_next := xs, item_count := item_count k - 1\<rparr>)\<rparr>)
         | [] \<Rightarrow>
             if pg_off n \<ge> op_size ops then None
             else Some (op_addr ops g + of_nat (pg_off n),
                        n\<lparr>pg_off := pg_off n + sn_size n, sn_pages := (sn_pages n)(g := k\<lparr>item_count := item_count k - 1\<rparr>)\<rparr>))"

definition slab_node_alloc :: "'p page_ops \<Rightarrow> 'p slab_node \<Rightarrow> (addr \<times> 'p slab_node) option" where
  "slab_node_alloc ops n =
     (case slab_refill ops n of
        None \<Rightarrow> None
      | Some n \<Rightarrow> (case cur_pg n of None \<Rightarrow> Some (NULL, n) | Some g \<Rightarrow> slab_take ops g n))"

text \<open>\<^verbatim>\<open>list_del\<close> takes a page out of the list it is in.\<close>

definition unlist :: "addr \<Rightarrow> 'p slab_node \<Rightarrow> 'p slab_node" where
  "unlist g n = n\<lparr>full_list := remove1 g (full_list n), partial_list := remove1 g (partial_list n)\<rparr>"

definition slab_node_free :: "'p page_ops \<Rightarrow> 'p slab_node \<Rightarrow> addr \<Rightarrow> 'p slab_node option" where
  "slab_node_free ops n item =
     (let g = op_page ops item;
          k = sn_pages n g;
          k = k\<lparr>p_next := item # p_next k, item_count := item_count k + 1\<rparr>;
          n = n\<lparr>sn_pages := (sn_pages n)(g := k)\<rparr>
      in if cur_pg n = Some g then Some n
         else if item_count k = int SLAB_PARTIAL_THRESH
         then let n = unlist g n in Some (n\<lparr>partial_list := g # partial_list n\<rparr>)
         else if item_count k = int (nr_elems n)
         then let n = unlist g n in map_option (\<lambda>p. n\<lparr>backing := p, nr_pages := nr_pages n - 1\<rparr>) (op_put ops (backing n) g)
         else Some n)"

fun slab_free_all :: "'p page_ops \<Rightarrow> 'p slab_node \<Rightarrow> addr list \<Rightarrow> 'p slab_node option" where
  "slab_free_all ops n [] = Some n"
| "slab_free_all ops n (x # xs) = Option.bind (slab_node_free ops n x) (\<lambda>n. slab_free_all ops n xs)"

text \<open>The loop of \<^verbatim>\<open>slab_tcache_alloc\<close>: \<open>got\<close> is the filled part of the array, the last entry first. On failure the items
  go back, the last one first.\<close>

fun slab_alloc_loop :: "'p page_ops \<Rightarrow> 'p slab_node \<Rightarrow> nat \<Rightarrow> addr list \<Rightarrow> (addr list option \<times> 'p slab_node) option" where
  "slab_alloc_loop ops n 0 got = Some (Some (rev got), n)"
| "slab_alloc_loop ops n (Suc nr) got =
     (case slab_node_alloc ops n of
        None \<Rightarrow> None
      | Some (x, n) \<Rightarrow>
          if x = NULL then map_option (\<lambda>n. (None, n)) (slab_free_all ops n got)
          else slab_alloc_loop ops n nr (x # got))"

definition slab_tcache_alloc :: "'p page_ops \<Rightarrow> 'p slab_node \<Rightarrow> hdrs \<Rightarrow> nat \<Rightarrow> (addr list option \<times> 'p slab_node \<times> hdrs) option" where
  "slab_tcache_alloc ops n h nr = map_option (\<lambda>(r, n). (r, n, h)) (slab_alloc_loop ops n nr [])"

definition slab_tcache_free :: "'p page_ops \<Rightarrow> 'p slab_node \<Rightarrow> hdrs \<Rightarrow> addr list \<Rightarrow> ('p slab_node \<times> hdrs) option" where
  "slab_tcache_free ops n h items = map_option (\<lambda>n. (n, h)) (slab_free_all ops n items)"

definition slab_tcache_ops :: "'p page_ops \<Rightarrow> 'p slab_node tcache_ops" where
  "slab_tcache_ops ops = \<lparr>alloc_op = slab_tcache_alloc ops, free_op = slab_tcache_free ops\<rparr>"

text \<open>The backing slab is the node of the CPU. Without memory for the cache its null pointer is dereferenced.\<close>

definition slab_create_tcache ::
  "bool \<Rightarrow> 'p page_ops \<Rightarrow> string \<Rightarrow> 'p slab_node \<Rightarrow> u32 \<Rightarrow> 'p slab_node tcache list \<Rightarrow> ('p slab_node tcache \<times> 'p slab_node tcache list) option" where
  "slab_create_tcache malloc_ok ops name n mag_size' tcs =
     (case tcache_create malloc_ok name (slab_tcache_ops ops) mag_size' (of_nat (sn_size n)) n tcs of
        Some (Some t, tcs) \<Rightarrow> Some (t, tcs)
      | _ \<Rightarrow> None)"

section \<open>Invariant\<close>

definition all_pages :: "'p slab_node \<Rightarrow> addr set" where
  "all_pages n = set (full_list n) \<union> set (partial_list n) \<union> set_option (cur_pg n)"

text \<open>The items of page \<open>g\<close> that have been cut from it: the current page may have an uncut rest.\<close>

definition cut :: "'p slab_node \<Rightarrow> addr \<Rightarrow> nat" where
  "cut n g = (if cur_pg n = Some g then (pg_off n - sn_offset n) div sn_size n else nr_elems n)"

definition slab_item :: "(addr \<Rightarrow> addr) \<Rightarrow> 'p slab_node \<Rightarrow> addr \<Rightarrow> nat \<Rightarrow> addr" where
  "slab_item pa n g k = pa g + of_nat (sn_offset n + k * sn_size n)"

definition page_ok :: "(addr \<Rightarrow> addr) \<Rightarrow> 'p slab_node \<Rightarrow> addr \<Rightarrow> bool" where
  "page_ok pa n g \<longleftrightarrow> distinct (p_next (sn_pages n g)) \<and> set (p_next (sn_pages n g)) \<subseteq> slab_item pa n g ` {..<cut n g} \<and>
     item_count (sn_pages n g) = int (length (p_next (sn_pages n g))) + int (nr_elems n - cut n g)"

definition page_out :: "(addr \<Rightarrow> addr) \<Rightarrow> 'p slab_node \<Rightarrow> addr \<Rightarrow> addr set" where
  "page_out pa n g = slab_item pa n g ` {..<cut n g} - set (p_next (sn_pages n g))"

definition slab_out :: "(addr \<Rightarrow> addr) \<Rightarrow> 'p slab_node \<Rightarrow> addr set" where
  "slab_out pa n = (\<Union>g \<in> all_pages n. page_out pa n g)"

definition slab_geometry :: "nat \<Rightarrow> 'p slab_node \<Rightarrow> bool" where
  "slab_geometry pgsize n \<longleftrightarrow> 0 < sn_size n \<and> sn_offset n + nr_elems n * sn_size n \<le> pgsize \<and> SLAB_PARTIAL_THRESH < nr_elems n"

definition slab_ok :: "(addr \<Rightarrow> addr) \<Rightarrow> nat \<Rightarrow> 'p slab_node \<Rightarrow> bool" where
  "slab_ok pa pgsize n \<longleftrightarrow>
     slab_geometry pgsize n \<and> distinct (full_list n @ partial_list n) \<and>
     (\<forall>g. cur_pg n = Some g \<longrightarrow> g \<notin> set (full_list n) \<and> g \<notin> set (partial_list n)) \<and>
     (all_pages n \<noteq> {} \<longrightarrow>
        (\<exists>j \<le> nr_elems n. pg_off n = sn_offset n + j * sn_size n \<and> (cur_pg n = None \<longrightarrow> j = nr_elems n))) \<and>
     (\<forall>g \<in> all_pages n. page_ok pa n g) \<and>
     (\<forall>g \<in> set (full_list n). item_count (sn_pages n g) < int SLAB_PARTIAL_THRESH) \<and>
     (\<forall>g \<in> set (partial_list n). int SLAB_PARTIAL_THRESH \<le> item_count (sn_pages n g) \<and> item_count (sn_pages n g) < int (nr_elems n))"

text \<open>What the invariant says of a page depends only on its own entry.\<close>

lemma page_ok_cong:
  assumes "sn_pages m g = sn_pages n g" "cut m g = cut n g" "sn_offset m = sn_offset n" "sn_size m = sn_size n" "nr_elems m = nr_elems n"
  shows "page_ok pa m g = page_ok pa n g" "page_out pa m g = page_out pa n g"
  using assms by (simp_all add: page_ok_def page_out_def slab_item_def)

lemma slab_item_cong:
  "sn_offset m = sn_offset n \<Longrightarrow> sn_size m = sn_size n \<Longrightarrow> slab_item pa m = slab_item pa n"
  by (simp add: slab_item_def fun_eq_iff)

lemma cut_cur: "cur_pg n = Some g \<Longrightarrow> pg_off n = sn_offset n + j * sn_size n \<Longrightarrow> 0 < sn_size n \<Longrightarrow> cut n g = j"
  by (simp add: cut_def)

definition shelve :: "'p slab_node \<Rightarrow> 'p slab_node" where
  "shelve n = (case cur_pg n of Some c \<Rightarrow> n\<lparr>full_list := c # full_list n, cur_pg := None\<rparr> | None \<Rightarrow> n)"

lemma slab_refill_shelve:
  assumes "cur_pg n = None \<or> item_count (sn_pages n (the (cur_pg n))) = 0"
  shows "slab_refill ops n =
    map_option (\<lambda>(r, m). m\<lparr>cur_pg := r, nr_pages := (if r = None then nr_pages m else nr_pages m + 1)\<rparr>) (slab_node_get_page ops (shelve n))"
  using assms
  by (auto simp: slab_refill_def shelve_def slab_node_get_page_def Let_def option.map_comp comp_def split: option.splits list.splits prod.splits)

section \<open>The operations keep it\<close>

text \<open>The size of the items and their place are fixed.\<close>

lemma refill_size: "slab_refill ops n = Some m \<Longrightarrow> sn_size m = sn_size n \<and> sn_offset m = sn_offset n"
  by (auto simp: slab_refill_def slab_node_get_page_def Let_def split: if_splits option.splits list.splits prod.splits)

lemma node_alloc_size: "slab_node_alloc ops n = Some (x, m) \<Longrightarrow> sn_size m = sn_size n \<and> sn_offset m = sn_offset n"
  by (auto simp: slab_node_alloc_def slab_take_def Let_def dest!: refill_size split: if_splits option.splits list.splits)

lemma node_free_size: "slab_node_free ops n x = Some m \<Longrightarrow> sn_size m = sn_size n \<and> sn_offset m = sn_offset n"
  by (auto simp: slab_node_free_def Let_def unlist_def split: if_splits)

lemma free_all_size: "slab_free_all ops n xs = Some m \<Longrightarrow> sn_size m = sn_size n \<and> sn_offset m = sn_offset n"
  by (induction xs arbitrary: n) (auto dest!: node_free_size simp: bind_eq_Some_conv)

lemma alloc_loop_size: "slab_alloc_loop ops n nr got = Some (r, m) \<Longrightarrow> sn_size m = sn_size n \<and> sn_offset m = sn_offset n"
  by (induction nr arbitrary: n got) (auto dest!: node_alloc_size free_all_size split: option.splits prod.splits if_splits)

context page_backend
begin

abbreviation pops :: "'p page_ops" where
  "pops \<equiv> \<lparr>op_alloc = palloc, op_put = pput, op_addr = paddr, op_page = pof, op_size = pgsize\<rparr>"

definition ninv :: "'p slab_node \<Rightarrow> bool" where
  "ninv n \<longleftrightarrow> pinv (backing n) \<and> all_pages n \<subseteq> live (backing n) \<and> slab_ok paddr pgsize n"

abbreviation nout :: "'p slab_node \<Rightarrow> addr set" where
  "nout \<equiv> slab_out paddr"

lemma slab_item_page:
  assumes "ninv n" "g \<in> all_pages n" "k < nr_elems n"
  shows "pof (slab_item paddr n g k) = g" "slab_item paddr n g k \<noteq> NULL" "sn_offset n + k * sn_size n < pgsize"
proof -
  have "0 < sn_size n" "sn_offset n + nr_elems n * sn_size n \<le> pgsize" using assms(1) by (auto simp: ninv_def slab_ok_def slab_geometry_def)
  moreover have "Suc k * sn_size n \<le> nr_elems n * sn_size n" using assms(3) by (intro mult_le_mono1) simp
  ultimately show b: "sn_offset n + k * sn_size n < pgsize" by simp
  show "pof (slab_item paddr n g k) = g" "slab_item paddr n g k \<noteq> NULL"
    using page_of [OF _ _ b, of "backing n" g] assms by (auto simp: ninv_def slab_item_def)
qed

lemma slab_item_inj:
  assumes "ninv n" "g \<in> all_pages n" "k < nr_elems n" "k' < nr_elems n" "slab_item paddr n g k = slab_item paddr n g k'"
  shows "k = k'"
proof -
  have "sn_offset n + k * sn_size n = sn_offset n + k' * sn_size n"
    using item_inj [of "backing n" g g, OF _ _ _ slab_item_page(3) [OF assms(1-3)] slab_item_page(3) [OF assms(1,2,4)]] assms
    by (auto simp: ninv_def slab_item_def)
  moreover have "0 < sn_size n" using assms(1) by (simp add: ninv_def slab_ok_def slab_geometry_def)
  ultimately show ?thesis by simp
qed

lemma cut_le: "ninv n \<Longrightarrow> g \<in> all_pages n \<Longrightarrow> cut n g \<le> nr_elems n"
  using cut_cur [of n g] by (auto simp: ninv_def slab_ok_def slab_geometry_def cut_def)

lemma page_out_page: "ninv n \<Longrightarrow> g \<in> all_pages n \<Longrightarrow> x \<in> page_out paddr n g \<Longrightarrow> pof x = g \<and> x \<noteq> NULL"
  using slab_item_page [of n g] cut_le [of n g] by (auto simp: page_out_def)

lemma free_page: "ninv n \<Longrightarrow> g \<in> all_pages n \<Longrightarrow> x \<in> set (p_next (sn_pages n g)) \<Longrightarrow> pof x = g \<and> x \<noteq> NULL"
proof -
  assume n: "ninv n" and g: "g \<in> all_pages n" and "x \<in> set (p_next (sn_pages n g))"
  moreover have "set (p_next (sn_pages n g)) \<subseteq> slab_item paddr n g ` {..<cut n g}" using n g by (simp add: ninv_def slab_ok_def page_ok_def)
  ultimately obtain k where "x = slab_item paddr n g k" "k < cut n g" by auto
  then show ?thesis using slab_item_page [OF n g, of k] cut_le [OF n g] by simp
qed

lemma out_page: "ninv n \<Longrightarrow> x \<in> nout n \<longleftrightarrow> pof x \<in> all_pages n \<and> x \<in> page_out paddr n (pof x)"
  using page_out_page [of n] by (auto simp: slab_out_def)

lemma shelve_inv:
  assumes n: "ninv n" and c: "cur_pg n = None \<or> item_count (sn_pages n (the (cur_pg n))) = 0"
  shows "ninv (shelve n)" "nout (shelve n) = nout n" "cur_pg (shelve n) = None"
proof -
  show "cur_pg (shelve n) = None" by (simp add: shelve_def split: option.splits)
  have "ninv (shelve n) \<and> nout (shelve n) = nout n"
  proof (cases "cur_pg n")
    case (Some g)
    let ?m = "n\<lparr>full_list := g # full_list n, cur_pg := None\<rparr>"
    have m: "shelve n = ?m" using Some by (simp add: shelve_def)
    have a: "all_pages ?m = all_pages n" using Some by (auto simp: all_pages_def)
    have g: "g \<in> all_pages n" using Some by (auto simp: all_pages_def)
    have ok: "slab_ok paddr pgsize n" "page_ok paddr n g" using n g by (auto simp: ninv_def slab_ok_def)
    obtain j where j: "j \<le> nr_elems n" "pg_off n = sn_offset n + j * sn_size n" using ok g by (auto simp: slab_ok_def)
    have "cut n g = j" using cut_cur [OF Some j(2)] ok by (simp add: slab_ok_def slab_geometry_def)
    moreover have "item_count (sn_pages n g) = 0" using c Some by simp
    ultimately have jn: "j = nr_elems n" "cut n g = nr_elems n" using ok(2) j(1) by (simp_all add: page_ok_def)
    have cut: "cut ?m h = cut n h" for h using jn(2) Some by (auto simp: cut_def)
    have pk: "page_ok paddr ?m h = page_ok paddr n h" "page_out paddr ?m h = page_out paddr n h" for h
      by (rule page_ok_cong; simp add: cut)+
    have "slab_ok paddr pgsize ?m"
      using ok(1) Some jn j g \<open>item_count (sn_pages n g) = 0\<close> unfolding slab_ok_def a pk by (auto simp: slab_geometry_def SLAB_PARTIAL_THRESH_def SLAB_CHUNK_SIZE_def)
    then show ?thesis using n a pk m by (simp add: ninv_def slab_out_def)
  qed (use n in \<open>simp add: shelve_def\<close>)
  then show "ninv (shelve n)" "nout (shelve n) = nout n" by simp_all
qed

lemma fetch_partial:
  assumes n: "ninv n" "cur_pg n = None" and p: "partial_list n = g # gs"
    and m_def: "m = n\<lparr>partial_list := gs, cur_pg := Some g, nr_pages := k\<rparr>"
  shows "ninv m \<and> nout m = nout n \<and> item_count (sn_pages m g) > 0"
proof -
  have a: "all_pages m = all_pages n" using n(2) p by (auto simp: all_pages_def m_def)
  have ne: "all_pages n \<noteq> {}" using p by (auto simp: all_pages_def)
  have ok: "slab_ok paddr pgsize n" using n by (simp add: ninv_def)
  have off: "pg_off n = sn_offset n + nr_elems n * sn_size n" using ok ne n(2) by (auto simp: slab_ok_def)
  have sz: "0 < sn_size n" using ok by (simp add: slab_ok_def slab_geometry_def)
  have cut: "cut m h = cut n h" for h using n(2) off sz by (auto simp: cut_def m_def)
  have pk: "page_ok paddr m h = page_ok paddr n h" "page_out paddr m h = page_out paddr n h" for h
    by (rule page_ok_cong; (simp add: cut | simp add: m_def))+
  have i: "int SLAB_PARTIAL_THRESH \<le> item_count (sn_pages n g)" using ok p by (simp add: slab_ok_def)
  have "slab_ok paddr pgsize m"
    using ok n(2) off p unfolding slab_ok_def a pk by (auto simp: m_def slab_geometry_def)
  then show ?thesis using n a pk i by (auto simp: ninv_def slab_out_def m_def SLAB_PARTIAL_THRESH_def SLAB_CHUNK_SIZE_def)
qed

lemma fetch_fresh:
  assumes n: "ninv n" "cur_pg n = None" and p: "palloc (backing n) = Some (Some g, p)"
    and m_def: "m = n\<lparr>backing := p, pg_off := sn_offset n, sn_pages := (sn_pages n)(g := \<lparr>p_next = [], item_count = int (nr_elems n)\<rparr>),
                  cur_pg := Some g, nr_pages := k\<rparr>"
  shows "ninv m \<and> nout m = nout n \<and> item_count (sn_pages m g) > 0"
proof -
  have ok: "slab_ok paddr pgsize n" and pi: "pinv p" and g: "g \<notin> all_pages n" "insert g (all_pages n) \<subseteq> live p"
    using n alloc_some [OF _ p] by (auto simp: ninv_def)
  have a: "all_pages m = insert g (all_pages n)" using n(2) by (auto simp: all_pages_def m_def)
  have sz: "0 < sn_size n" "SLAB_PARTIAL_THRESH < nr_elems n" using ok by (simp_all add: slab_ok_def slab_geometry_def)
  have cut: "cut m h = cut n h" if "h \<noteq> g" for h using that n(2) by (auto simp: cut_def m_def)
  have pk: "page_ok paddr m h = page_ok paddr n h" "page_out paddr m h = page_out paddr n h" if "h \<noteq> g" for h
    by (rule page_ok_cong; (simp add: cut that | simp add: m_def that))+
  have c0: "cut m g = 0" by (simp add: cut_def m_def)
  then have g0: "page_ok paddr m g" "page_out paddr m g = {}" by (simp_all add: page_ok_def page_out_def m_def)
  have "page_ok paddr m h" if "h \<in> all_pages n" for h using ok pk(1) [of h] g(1) that by (auto simp: slab_ok_def)
  then have pages: "\<forall>h \<in> insert g (all_pages n). page_ok paddr m h" using g0 by simp
  have nl: "g \<notin> set (full_list n)" "g \<notin> set (partial_list n)" using g by (auto simp: all_pages_def)
  have cnt: "\<forall>h \<in> set (full_list m). item_count (sn_pages m h) < int SLAB_PARTIAL_THRESH"
    "\<forall>h \<in> set (partial_list m). int SLAB_PARTIAL_THRESH \<le> item_count (sn_pages m h) \<and> item_count (sn_pages m h) < int (nr_elems m)"
    using ok nl by (auto simp: slab_ok_def m_def)
  have "slab_ok paddr pgsize m" unfolding slab_ok_def a using ok nl cnt pages
    by (simp add: slab_ok_def) (simp add: m_def slab_geometry_def exI [of _ 0])
  moreover have "(\<Union>h \<in> all_pages n. page_out paddr m h) = (\<Union>h \<in> all_pages n. page_out paddr n h)"
    by (rule SUP_cong [OF refl]) (metis pk(2) g(1))
  then have "nout m = nout n" unfolding slab_out_def a using g0 by simp
  ultimately show ?thesis using pi g a sz by (auto simp: ninv_def m_def)
qed

lemma refill_ok:
  assumes n: "ninv n"
  shows "\<exists>m. slab_refill pops n = Some m \<and> ninv m \<and> nout m = nout n \<and> (\<forall>g. cur_pg m = Some g \<longrightarrow> item_count (sn_pages m g) > 0)"
proof (cases "cur_pg n = None \<or> item_count (sn_pages n (the (cur_pg n))) = 0")
  case True
  note sh = shelve_inv [OF n True]
  note eq = slab_refill_shelve [OF True, of pops]
  show ?thesis
  proof (cases "partial_list (shelve n)")
    case (Cons g gs)
    then show ?thesis using fetch_partial [OF sh(1,3) Cons refl] sh(2) eq by (simp add: slab_node_get_page_def)
  next
    case Nil
    have pi: "pinv (backing (shelve n))" using sh(1) by (simp add: ninv_def)
    then obtain r p where r: "palloc (backing (shelve n)) = Some (r, p)" using alloc_total by fastforce
    show ?thesis
    proof (cases r)
      case None
      let ?m = "(shelve n)\<lparr>backing := p, cur_pg := None, nr_pages := nr_pages (shelve n)\<rparr>"
      have "pinv p" "live p = live (backing (shelve n))" using alloc_none [OF pi] r None by auto
      moreover have "all_pages ?m = all_pages (shelve n)" using sh(3) by (simp add: all_pages_def)
      moreover have "page_ok paddr ?m h = page_ok paddr (shelve n) h" "page_out paddr ?m h = page_out paddr (shelve n) h" for h
        by (rule page_ok_cong; simp add: cut_def sh(3))+
      ultimately have "ninv ?m" "nout ?m = nout (shelve n)" using sh(1,3)
        by (simp_all add: ninv_def slab_ok_def slab_out_def slab_geometry_def)
      then show ?thesis using eq Nil r None sh(2) by (simp add: slab_node_get_page_def)
    next
      case (Some g)
      then show ?thesis using fetch_fresh [OF sh(1,3) _ refl, of g p] r sh(2) eq Nil by (simp add: slab_node_get_page_def)
    qed
  qed
next
  case False
  have "page_ok paddr n g" if "cur_pg n = Some g" for g using n that by (auto simp: ninv_def slab_ok_def all_pages_def)
  then have "item_count (sn_pages n g) > 0" if "cur_pg n = Some g" for g using that False by (fastforce simp: page_ok_def)
  then show ?thesis using False n by (auto simp: slab_refill_def)
qed

text \<open>A change to one page, which stays in the list it is in, changes what is handed out of that page only.\<close>

lemma page_change:
  assumes n: "ninv n" and g: "g \<in> all_pages n"
    and same: "all_pages m = all_pages n" "backing m = backing n" "sn_offset m = sn_offset n" "sn_size m = sn_size n" "nr_elems m = nr_elems n"
      "\<And>h. h \<noteq> g \<Longrightarrow> sn_pages m h = sn_pages n h" "\<And>h. h \<noteq> g \<Longrightarrow> cut m h = cut n h" "cur_pg m = cur_pg n"
    and lists: "distinct (full_list m @ partial_list m)" "set (full_list m) \<union> set (partial_list m) = set (full_list n) \<union> set (partial_list n)"
    and off: "\<exists>j \<le> nr_elems n. pg_off m = sn_offset n + j * sn_size n \<and> (cur_pg n = None \<longrightarrow> j = nr_elems n)"
    and new: "page_ok paddr m g"
      "\<And>h. h \<in> set (full_list m) \<Longrightarrow> item_count (sn_pages m h) < int SLAB_PARTIAL_THRESH"
      "\<And>h. h \<in> set (partial_list m) \<Longrightarrow> int SLAB_PARTIAL_THRESH \<le> item_count (sn_pages m h) \<and> item_count (sn_pages m h) < int (nr_elems n)"
  shows "ninv m \<and> nout m = (nout n - page_out paddr n g) \<union> page_out paddr m g"
proof -
  have ok: "slab_ok paddr pgsize n" using n by (simp add: ninv_def)
  have pk: "page_ok paddr m h = page_ok paddr n h" "page_out paddr m h = page_out paddr n h" if "h \<noteq> g" for h
    by (rule page_ok_cong; (simp add: same that))+
  have "page_ok paddr m h" if "h \<in> all_pages n" for h using ok new(1) pk(1) [of h] that by (cases "h = g") (auto simp: slab_ok_def)
  then have "slab_ok paddr pgsize m" unfolding slab_ok_def same using ok lists off new
    by (auto simp: slab_ok_def slab_geometry_def same)
  moreover have "x \<in> nout m \<longleftrightarrow> x \<in> (nout n - page_out paddr n g) \<union> page_out paddr m g" for x
  proof -
    have "nout m = page_out paddr m g \<union> (\<Union>h \<in> all_pages n - {g}. page_out paddr m h)" using g by (auto simp: slab_out_def same(1))
    also have "(\<Union>h \<in> all_pages n - {g}. page_out paddr m h) = (\<Union>h \<in> all_pages n - {g}. page_out paddr n h)"
      by (rule SUP_cong [OF refl]) (use pk(2) in simp)
    finally have "x \<in> nout m \<longleftrightarrow> x \<in> page_out paddr m g \<or> (\<exists>h \<in> all_pages n - {g}. x \<in> page_out paddr n h)" by auto
    moreover have "(\<exists>h \<in> all_pages n - {g}. x \<in> page_out paddr n h) \<longleftrightarrow> x \<in> nout n - page_out paddr n g"
      using page_out_page [OF n] g by (auto simp: slab_out_def)
    ultimately show ?thesis by blast
  qed
  ultimately show ?thesis using n same by (auto simp: ninv_def)
qed

lemma take_ok:
  assumes n: "ninv n" and c: "cur_pg n = Some g" and k: "item_count (sn_pages n g) > 0"
  shows "\<exists>x m. slab_take pops g n = Some (x, m) \<and> ninv m \<and> x \<noteq> NULL \<and> x \<notin> nout n \<and> nout m = insert x (nout n)"
proof -
  have ok: "slab_ok paddr pgsize n" using n by (simp add: ninv_def)
  have g: "g \<in> all_pages n" using c by (simp add: all_pages_def)
  have gl: "g \<notin> set (full_list n)" "g \<notin> set (partial_list n)" using ok c by (auto simp: slab_ok_def)
  obtain j where j: "j \<le> nr_elems n" "pg_off n = sn_offset n + j * sn_size n" using ok g by (auto simp: slab_ok_def)
  have sz: "0 < sn_size n" using ok by (simp add: slab_ok_def slab_geometry_def)
  have cj: "cut n g = j" by (rule cut_cur [OF c j(2) sz])
  have pg: "page_ok paddr n g" using ok g by (auto simp: slab_ok_def)
  have out: "x \<in> nout n \<longleftrightarrow> x \<in> page_out paddr n g" if "pof x = g" for x using out_page [OF n] that g by simp
  have grow: "x \<noteq> NULL \<and> x \<notin> nout n \<and> nout m = insert x (nout n)"
    if "pof x = g" "x \<noteq> NULL" "x \<notin> page_out paddr n g" "page_out paddr m g = insert x (page_out paddr n g)"
      "nout m = (nout n - page_out paddr n g) \<union> page_out paddr m g" for x m
    using that out [of x] g by (auto simp: slab_out_def)
  show ?thesis
  proof (cases "p_next (sn_pages n g)")
    case (Cons x xs)
    let ?m = "n\<lparr>sn_pages := (sn_pages n)(g := (sn_pages n g)\<lparr>p_next := xs, item_count := item_count (sn_pages n g) - 1\<rparr>)\<rparr>"
    have x: "pof x = g" "x \<noteq> NULL" using free_page [OF n g, of x] Cons by auto
    have cut: "cut ?m h = cut n h" for h by (simp add: cut_def)
    have it: "slab_item paddr ?m = slab_item paddr n" by (rule slab_item_cong) simp_all
    have new: "page_ok paddr ?m g" using pg Cons unfolding page_ok_def cut it by auto
    have po: "page_out paddr ?m g = insert x (page_out paddr n g)" "x \<notin> page_out paddr n g"
      using pg Cons unfolding page_out_def cut it by (auto simp: page_ok_def)
    have "ninv ?m \<and> nout ?m = (nout n - page_out paddr n g) \<union> page_out paddr ?m g"
      by (rule page_change [OF n g]) (use ok gl new j c in \<open>auto simp: slab_ok_def cut all_pages_def\<close>)
    then show ?thesis using grow [OF x po(2,1)] Cons by (auto simp: slab_take_def Let_def)
  next
    case Nil
    let ?m = "n\<lparr>pg_off := pg_off n + sn_size n, sn_pages := (sn_pages n)(g := (sn_pages n g)\<lparr>item_count := item_count (sn_pages n g) - 1\<rparr>)\<rparr>"
    let ?x = "slab_item paddr n g j"
    have lt: "j < nr_elems n" using pg Nil k j(1) by (simp add: page_ok_def cj)
    note x = slab_item_page [OF n g lt]
    have xe: "paddr g + of_nat (pg_off n) = ?x" by (simp add: slab_item_def j(2))
    have off: "pg_off ?m = sn_offset n + Suc j * sn_size n" by (simp add: j(2))
    have cg: "cut ?m g = Suc j" by (rule cut_cur) (use c off sz in simp_all)
    have it: "slab_item paddr ?m = slab_item paddr n" by (rule slab_item_cong) simp_all
    have new: "page_ok paddr ?m g" using pg Nil lt unfolding page_ok_def cg cj it by auto
    have po: "page_out paddr ?m g = insert ?x (page_out paddr n g)" using Nil unfolding page_out_def cg cj it by (auto simp: lessThan_Suc)
    have nx: "?x \<notin> page_out paddr n g" 
    proof
      assume "?x \<in> page_out paddr n g"
      then obtain i where "i < j" "?x = slab_item paddr n g i" by (auto simp: page_out_def cj)
      then show False using slab_item_inj [OF n g lt, of i] lt by simp
    qed
    have "ninv ?m \<and> nout ?m = (nout n - page_out paddr n g) \<union> page_out paddr ?m g"
    proof (rule page_change [OF n g])
      show "\<exists>j \<le> nr_elems n. pg_off ?m = sn_offset n + j * sn_size n \<and> (cur_pg n = None \<longrightarrow> j = nr_elems n)"
        using off lt c by (intro exI [of _ "Suc j"]) auto
    qed (use ok gl new c in \<open>auto simp: slab_ok_def cut_def all_pages_def\<close>)
    then show ?thesis using grow [OF x(1,2) nx po] Nil x(3) xe by (auto simp: slab_take_def Let_def j(2))
  qed
qed

lemma node_alloc_ok:
  assumes "ninv n"
  shows "\<exists>x m. slab_node_alloc pops n = Some (x, m) \<and> ninv m \<and> (if x = NULL then nout m = nout n else x \<notin> nout n \<and> nout m = insert x (nout n))"
proof -
  obtain m where m: "slab_refill pops n = Some m" "ninv m" "nout m = nout n" "\<And>g. cur_pg m = Some g \<Longrightarrow> item_count (sn_pages m g) > 0"
    using refill_ok [OF assms] by blast
  show ?thesis
  proof (cases "cur_pg m")
    case (Some g)
    then show ?thesis using take_ok [OF m(2) Some m(4) [OF Some]] m by (fastforce simp: slab_node_alloc_def)
  qed (use m in \<open>simp add: slab_node_alloc_def\<close>)
qed

text \<open>The page whose last item comes back goes back to the page allocator.\<close>

lemma drop_page:
  assumes n: "ninv n" and x: "x \<in> nout n" "pof x = g" and g: "cur_pg n \<noteq> Some g" "g \<in> set (partial_list n)"
    and c: "item_count (sn_pages n g) + 1 = int (nr_elems n)" and p: "pinv p" "all_pages n - {g} \<subseteq> live p"
    and m: "m = (unlist g (n\<lparr>sn_pages := (sn_pages n)(g := k)\<rparr>))\<lparr>backing := p, nr_pages := i\<rparr>"
  shows "ninv m \<and> nout m = nout n - {x}"
proof -
  have ok: "slab_ok paddr pgsize n" using n by (simp add: ninv_def)
  have ga: "g \<in> all_pages n" and xo: "x \<in> page_out paddr n g" using out_page [OF n] x by simp_all
  have pg: "page_ok paddr n g" using ok ga by (auto simp: slab_ok_def)
  have dist: "distinct (full_list n)" "distinct (partial_list n)" "set (full_list n) \<inter> set (partial_list n) = {}" using ok by (auto simp: slab_ok_def)
  have "cut n g = nr_elems n" using g(1) by (simp add: cut_def)
  then have "length (p_next (sn_pages n g)) + 1 = nr_elems n" using pg c by (simp add: page_ok_def)
  moreover have "card (set (p_next (sn_pages n g))) = length (p_next (sn_pages n g))" using pg by (simp add: page_ok_def distinct_card)
  moreover have "card (slab_item paddr n g ` {..<nr_elems n}) \<le> nr_elems n" using card_image_le [of "{..<nr_elems n}"] by fastforce
  moreover have "set (p_next (sn_pages n g)) \<subseteq> slab_item paddr n g ` {..<nr_elems n}" using pg \<open>cut n g = nr_elems n\<close> by (simp add: page_ok_def)
  ultimately have "card (page_out paddr n g) \<le> 1" using \<open>cut n g = nr_elems n\<close> by (simp add: page_out_def card_Diff_subset)
  moreover have "finite (page_out paddr n g)" by (simp add: page_out_def)
  ultimately have "\<And>y. y \<in> page_out paddr n g \<Longrightarrow> y = x" using xo card_le_Suc0_iff_eq [of "page_out paddr n g"] by simp
  then have one: "page_out paddr n g = {x}" using xo by blast
  have a: "all_pages m = all_pages n - {g}" using dist g ok by (auto simp: m unlist_def all_pages_def slab_ok_def)
  have cut: "cut m h = cut n h" for h by (simp add: m unlist_def cut_def)
  have pk: "page_ok paddr m h = page_ok paddr n h" "page_out paddr m h = page_out paddr n h" if "h \<noteq> g" for h
    by (rule page_ok_cong; (simp add: cut | simp add: m unlist_def that))+
  have "page_ok paddr m h" if "h \<in> all_pages n - {g}" for h using ok pk(1) [of h] that by (auto simp: slab_ok_def)
  then have "slab_ok paddr pgsize m" unfolding slab_ok_def a using ok dist g
    by (auto simp: slab_ok_def m unlist_def slab_geometry_def dest: notin_set_remove1)
  moreover have "nout m = (\<Union>h \<in> all_pages n - {g}. page_out paddr n h)"
    unfolding slab_out_def a by (rule SUP_cong [OF refl]) (use pk(2) in simp)
  moreover have "(\<Union>h \<in> all_pages n - {g}. page_out paddr n h) = nout n - {x}"
  proof -
    have "x \<notin> page_out paddr n h" if "h \<in> all_pages n" "h \<noteq> g" for h using page_out_page [OF n that(1), of x] that(2) x(2) by auto
    then show ?thesis using ga one by (auto simp: slab_out_def)
  qed
  ultimately show ?thesis using p a by (simp add: ninv_def m unlist_def)
qed

lemma node_free_ok:
  assumes n: "ninv n" and x: "x \<in> nout n"
  shows "\<exists>m. slab_node_free pops n x = Some m \<and> ninv m \<and> nout m = nout n - {x}"
proof -
  define g where "g = pof x"
  have g: "g \<in> all_pages n" and xo: "x \<in> page_out paddr n g" using out_page [OF n] x by (simp_all add: g_def)
  have ok: "slab_ok paddr pgsize n" using n by (simp add: ninv_def)
  have pg: "page_ok paddr n g" using ok g by (auto simp: slab_ok_def)
  have dist: "distinct (full_list n)" "distinct (partial_list n)" "set (full_list n) \<inter> set (partial_list n) = {}" using ok by (auto simp: slab_ok_def)
  have th: "SLAB_PARTIAL_THRESH < nr_elems n" using ok by (simp add: slab_ok_def slab_geometry_def)
  have fl: "h \<in> set (full_list n) \<Longrightarrow> item_count (sn_pages n h) < int SLAB_PARTIAL_THRESH"
    and pl: "h \<in> set (partial_list n) \<Longrightarrow> int SLAB_PARTIAL_THRESH \<le> item_count (sn_pages n h) \<and> item_count (sn_pages n h) < int (nr_elems n)" for h
    using ok by (auto simp: slab_ok_def)
  obtain j where j: "j \<le> nr_elems n" "pg_off n = sn_offset n + j * sn_size n" "cur_pg n = None \<Longrightarrow> j = nr_elems n"
    using ok g by (auto simp: slab_ok_def)
  let ?k = "(sn_pages n g)\<lparr>p_next := x # p_next (sn_pages n g), item_count := item_count (sn_pages n g) + 1\<rparr>"
  let ?n = "n\<lparr>sn_pages := (sn_pages n)(g := ?k)\<rparr>"
  have step: "ninv m \<and> nout m = nout n - {x}"
    if m: "sn_pages m = (sn_pages n)(g := ?k)" "backing m = backing n" "sn_offset m = sn_offset n" "sn_size m = sn_size n"
      "nr_elems m = nr_elems n" "cur_pg m = cur_pg n" "pg_off m = pg_off n" "distinct (full_list m @ partial_list m)"
      "set (full_list m) \<union> set (partial_list m) = set (full_list n) \<union> set (partial_list n)"
      "\<And>h. h \<in> set (full_list m) \<Longrightarrow> item_count (sn_pages m h) < int SLAB_PARTIAL_THRESH"
      "\<And>h. h \<in> set (partial_list m) \<Longrightarrow> int SLAB_PARTIAL_THRESH \<le> item_count (sn_pages m h) \<and> item_count (sn_pages m h) < int (nr_elems n)"
    for m
  proof -
    have cut: "cut m h = cut n h" for h by (simp add: cut_def m(3-7))
    have it: "slab_item paddr m = slab_item paddr n" by (rule slab_item_cong) (simp_all add: m(3,4))
    have "page_ok paddr m g" "page_out paddr m g = page_out paddr n g - {x}"
      using pg xo unfolding page_ok_def page_out_def cut it by (auto simp: m(1,5))
    moreover from this have "ninv m \<and> nout m = (nout n - page_out paddr n g) \<union> page_out paddr m g"
      by (intro page_change [OF n g]) (use m j cut in \<open>auto simp: all_pages_def\<close>)
    moreover have "page_out paddr n g \<subseteq> nout n" using g by (auto simp: slab_out_def)
    ultimately show ?thesis using xo by auto
  qed
  have sf: "slab_node_free pops n x =
    (if cur_pg n = Some g then Some ?n
     else if item_count (sn_pages n g) + 1 = int SLAB_PARTIAL_THRESH then Some ((unlist g ?n)\<lparr>partial_list := g # partial_list (unlist g ?n)\<rparr>)
     else if item_count (sn_pages n g) + 1 = int (nr_elems n)
     then map_option (\<lambda>p. (unlist g ?n)\<lparr>backing := p, nr_pages := nr_pages n - 1\<rparr>) (pput (backing n) g)
     else Some ?n)"
    by (simp add: slab_node_free_def Let_def unlist_def flip: g_def)
  consider (cur) "cur_pg n = Some g" | (full) "cur_pg n \<noteq> Some g" "g \<in> set (full_list n)" | (partial) "cur_pg n \<noteq> Some g" "g \<in> set (partial_list n)"
    using g by (auto simp: all_pages_def)
  then show ?thesis
  proof cases
    case cur
    then have "g \<notin> set (full_list n)" "g \<notin> set (partial_list n)" using ok by (auto simp: slab_ok_def)
    then have "ninv ?n \<and> nout ?n = nout n - {x}" by (intro step) (use dist fl pl in auto)
    then show ?thesis using sf cur by simp
  next
    case full
    then have np: "g \<notin> set (partial_list n)" using dist(3) by auto
    show ?thesis
    proof (cases "item_count (sn_pages n g) + 1 = int SLAB_PARTIAL_THRESH")
      case True
      let ?m = "(unlist g ?n)\<lparr>partial_list := g # partial_list (unlist g ?n)\<rparr>"
      have "ninv ?m \<and> nout ?m = nout n - {x}"
        by (rule step) (use dist fl pl np full True th in \<open>auto simp: unlist_def remove1_idem distinct_remove1\<close>)
      then show ?thesis using sf full True by simp
    next
      case False
      have lt: "item_count (sn_pages n g) < int SLAB_PARTIAL_THRESH" using fl full(2) .
      then have "ninv ?n \<and> nout ?n = nout n - {x}" by (intro step) (use dist fl pl np False in auto)
      then show ?thesis using sf full(1) False lt th by simp
    qed
  next
    case partial
    then have nf: "g \<notin> set (full_list n)" and ge: "int SLAB_PARTIAL_THRESH \<le> item_count (sn_pages n g)" using dist(3) pl by auto
    show ?thesis
    proof (cases "item_count (sn_pages n g) + 1 = int (nr_elems n)")
      case True
      have "pinv (backing n)" "all_pages n \<subseteq> live (backing n)" using n by (auto simp: ninv_def)
      then obtain p where p: "pput (backing n) g = Some p" "pinv p" "all_pages n - {g} \<subseteq> live p" using put_ok [of "backing n" g] g by auto
      let ?m = "(unlist g ?n)\<lparr>backing := p, nr_pages := nr_pages n - 1\<rparr>"
      have "ninv ?m \<and> nout ?m = nout n - {x}" by (rule drop_page [OF n x g_def [symmetric] partial True p(2,3) refl])
      then show ?thesis using sf partial(1) ge True p(1) by simp
    next
      case False
      then have "int SLAB_PARTIAL_THRESH \<le> item_count (sn_pages n g) + 1" "item_count (sn_pages n g) + 1 < int (nr_elems n)" using pl [OF partial(2)] by auto
      then have "ninv ?n \<and> nout ?n = nout n - {x}" by (intro step) (use dist fl pl nf partial(2) in auto)
      then show ?thesis using sf partial(1) False ge by simp
    qed
  qed
qed

lemma free_all_ok:
  assumes "ninv n" "distinct xs" "set xs \<subseteq> nout n"
  shows "\<exists>m. slab_free_all pops n xs = Some m \<and> ninv m \<and> nout m = nout n - set xs"
  using assms
proof (induction xs arbitrary: n)
  case (Cons x xs)
  then obtain m where m: "slab_node_free pops n x = Some m" "ninv m" "nout m = nout n - {x}" using node_free_ok [of n x] by auto
  then have "\<exists>m'. slab_free_all pops m xs = Some m' \<and> ninv m' \<and> nout m' = nout m - set xs" using Cons.prems by (intro Cons.IH) auto
  then show ?case using m by auto
qed simp

lemma alloc_loop_ok:
  assumes "ninv n" "distinct got" "set got \<subseteq> nout n" "NULL \<notin> set got"
  shows "\<exists>r m. slab_alloc_loop pops n nr got = Some (r, m) \<and> ninv m \<and>
    (case r of
       None \<Rightarrow> nout m = nout n - set got
     | Some xs \<Rightarrow> length xs = length got + nr \<and> distinct xs \<and> set got \<subseteq> set xs \<and> NULL \<notin> set xs \<and>
         set xs \<inter> nout n = set got \<and> nout m = nout n \<union> set xs)"
  using assms
proof (induction nr arbitrary: n got)
  case 0
  then show ?case by (auto simp: Int_absorb2)
next
  case (Suc nr)
  obtain x m where a: "slab_node_alloc pops n = Some (x, m)" "ninv m"
    "if x = NULL then nout m = nout n else x \<notin> nout n \<and> nout m = insert x (nout n)"
    using node_alloc_ok [OF Suc.prems(1)] by blast
  show ?case
  proof (cases "x = NULL")
    case True
    then obtain m' where "slab_free_all pops m got = Some m'" "ninv m'" "nout m' = nout n - set got"
      using free_all_ok [OF a(2), of got] a(3) Suc.prems by auto
    then show ?thesis using a(1) True by simp
  next
    case False
    then have x: "x \<notin> nout n" "nout m = insert x (nout n)" using a(3) by auto
    have pre: "distinct (x # got)" "set (x # got) \<subseteq> nout m" "NULL \<notin> set (x # got)" using Suc.prems x False by auto
    obtain r m' where r: "slab_alloc_loop pops m nr (x # got) = Some (r, m')" "ninv m'"
      "case r of
         None \<Rightarrow> nout m' = nout m - set (x # got)
       | Some xs \<Rightarrow> length xs = length (x # got) + nr \<and> distinct xs \<and> set (x # got) \<subseteq> set xs \<and> NULL \<notin> set xs \<and>
           set xs \<inter> nout m = set (x # got) \<and> nout m' = nout m \<union> set xs"
      using Suc.IH [OF a(2) pre] by blast
    have eq: "slab_alloc_loop pops n (Suc nr) got = Some (r, m')" using a(1) False r(1) by simp
    have "X \<inter> nout n = set got" if "X \<inter> insert x (nout n) = insert x (set got)" for X
      by (rule insert_Int_left [OF x(1) Suc.prems(3) that])
    then show ?thesis using eq r(2,3) x Suc.prems(3) by (cases r) auto
  qed
qed

end

text \<open>Below a magazine cache a slab node is what the cache relies on, whatever pages it cuts.\<close>

sublocale page_backend \<subseteq> slab: tcache_backend "slab_tcache_alloc pops" "slab_tcache_free pops" "\<lambda>n. ninv n \<and> sn_size n = z" nout for z
proof (unfold_locales, goal_cases)
  case (1 p h nr)
  then show ?case using alloc_loop_ok [of p "[]" nr] by (auto simp: slab_tcache_alloc_def)
next
  case (2 p h nr p' h')
  then show ?case using alloc_loop_ok [of p "[]" nr] alloc_loop_size [of pops p nr "[]"] by (auto simp: slab_tcache_alloc_def)
next
  case (3 p h nr xs p' h')
  then show ?case using alloc_loop_ok [of p "[]" nr] alloc_loop_size [of pops p nr "[]"] by (auto simp: slab_tcache_alloc_def)
next
  case (4 p xs h)
  then show ?case using free_all_ok [of p xs] free_all_size [of pops p xs] by (auto simp: slab_tcache_free_def)
qed

text \<open>The items that are handed out do not overlap.\<close>

definition bytes :: "addr \<Rightarrow> nat \<Rightarrow> addr set" where
  "bytes x k = (\<lambda>i. x + of_nat i) ` {..<k}"

context page_backend
begin

lemma item_bytes:
  assumes "ninv n" "x \<in> nout n"
  obtains g k where "g \<in> all_pages n" "k < nr_elems n" "x = slab_item paddr n g k"
    "bytes x (sn_size n) = (\<lambda>i. paddr g + of_nat (sn_offset n + k * sn_size n + i)) ` {..<sn_size n}"
    "\<And>i. i < sn_size n \<Longrightarrow> sn_offset n + k * sn_size n + i < pgsize"
proof -
  obtain g k where g: "g \<in> all_pages n" "k < cut n g" "x = slab_item paddr n g k" using assms(2) by (auto simp: slab_out_def page_out_def)
  then have k: "k < nr_elems n" using cut_le [OF assms(1) g(1)] by simp
  have "sn_offset n + nr_elems n * sn_size n \<le> pgsize" using assms(1) by (simp add: ninv_def slab_ok_def slab_geometry_def)
  moreover have "Suc k * sn_size n \<le> nr_elems n * sn_size n" using k by (intro mult_le_mono1) simp
  ultimately have "\<And>i. i < sn_size n \<Longrightarrow> sn_offset n + k * sn_size n + i < pgsize" by simp
  moreover have "bytes x (sn_size n) = (\<lambda>i. paddr g + of_nat (sn_offset n + k * sn_size n + i)) ` {..<sn_size n}"
    unfolding bytes_def g(3) slab_item_def by (simp add: algebra_simps)
  ultimately show ?thesis using that g k by blast
qed

lemma item_in_page:
  assumes "ninv n" "x \<in> nout n"
  shows "pof ` bytes x (sn_size n) \<subseteq> live (backing n)"
proof -
  obtain g k where g: "g \<in> all_pages n"
    "bytes x (sn_size n) = (\<lambda>i. paddr g + of_nat (sn_offset n + k * sn_size n + i)) ` {..<sn_size n}"
    "\<And>i. i < sn_size n \<Longrightarrow> sn_offset n + k * sn_size n + i < pgsize" using item_bytes [OF assms] by metis
  have "pinv (backing n)" "g \<in> live (backing n)" using assms(1) g(1) by (auto simp: ninv_def)
  then show ?thesis using page_of [of "backing n" g] g(2,3) by (auto simp del: of_nat_add)
qed

lemma items_apart:
  assumes n: "ninv n" and x: "x \<in> nout n" and y: "y \<in> nout n" and ne: "x \<noteq> y"
  shows "bytes x (sn_size n) \<inter> bytes y (sn_size n) = {}"
proof (rule ccontr)
  assume "bytes x (sn_size n) \<inter> bytes y (sn_size n) \<noteq> {}"
  moreover obtain g k where g: "g \<in> all_pages n" "x = slab_item paddr n g k"
    "bytes x (sn_size n) = (\<lambda>i. paddr g + of_nat (sn_offset n + k * sn_size n + i)) ` {..<sn_size n}"
    "\<And>i. i < sn_size n \<Longrightarrow> sn_offset n + k * sn_size n + i < pgsize" using item_bytes [OF n x] by metis
  moreover obtain h l where h: "h \<in> all_pages n" "y = slab_item paddr n h l"
    "bytes y (sn_size n) = (\<lambda>i. paddr h + of_nat (sn_offset n + l * sn_size n + i)) ` {..<sn_size n}"
    "\<And>i. i < sn_size n \<Longrightarrow> sn_offset n + l * sn_size n + i < pgsize" using item_bytes [OF n y] by metis
  ultimately obtain z where z: "z \<in> (\<lambda>i. paddr g + of_nat (sn_offset n + k * sn_size n + i)) ` {..<sn_size n}"
    "z \<in> (\<lambda>i. paddr h + of_nat (sn_offset n + l * sn_size n + i)) ` {..<sn_size n}" by (metis disjoint_iff)
  obtain i where i: "i < sn_size n" "z = paddr g + of_nat (sn_offset n + k * sn_size n + i)" using z(1) by blast
  obtain j where j: "j < sn_size n" "z = paddr h + of_nat (sn_offset n + l * sn_size n + j)" using z(2) by blast
  have ij: "i < sn_size n" "j < sn_size n"
    "paddr g + of_nat (sn_offset n + k * sn_size n + i) = paddr h + of_nat (sn_offset n + l * sn_size n + j)" using i j by simp_all
  then have eq: "g = h" "sn_offset n + k * sn_size n + i = sn_offset n + l * sn_size n + j"
    using item_inj [of "backing n" g h, OF _ _ _ g(4) h(4)] n g(1) h(1) by (auto simp: ninv_def)
  then have "(k * sn_size n + i) div sn_size n = (l * sn_size n + j) div sn_size n" by simp
  then have "k = l" using ij(1,2) by simp
  then show False using eq g(2) h(2) ne by simp
qed

end

section \<open>Creation\<close>

lemma or_mask:
  assumes "k < 64"
  shows "unat (x OR (2 ^ k - 1 :: u64)) = unat x div 2 ^ k * 2 ^ k + (2 ^ k - 1)"
proof -
  let ?m = "2 ^ k - 1 :: u64"
  have "(x AND NOT ?m) AND ?m = 0" by (rule bit_eqI) (auto simp: bit_simps)
  then have "(x AND NOT ?m) + ?m = (x AND NOT ?m) OR ?m" by (rule disjunctive_add_eq_or)
  also have "\<dots> = x OR ?m" by (rule bit_eqI) (auto simp: bit_simps)
  finally have e: "x OR ?m = (x AND NOT ?m) + ?m" by simp
  have "(2 :: nat) ^ k < 2 ^ 64" using assms by (rule power_strict_increasing) simp
  then have "unat (of_nat (2 ^ k) :: u64) = 2 ^ k" unfolding unat_of_nat by simp
  then have p: "unat (2 ^ k :: u64) = 2 ^ k" by simp
  then have "(1 :: u64) \<le> 2 ^ k" unfolding word_le_nat_alt by (simp only: unsigned_1) simp
  then have m: "unat ?m = 2 ^ k - 1" using p by (simp add: unat_sub)
  have "unat x div 2 ^ k < 2 ^ (64 - k)" using unat_bound [of x] assms by (simp add: less_mult_imp_div_less flip: power_add)
  then have "Suc (unat x div 2 ^ k) * 2 ^ k \<le> 2 ^ (64 - k) * 2 ^ k" by (intro mult_le_mono1) simp
  then have "unat x div 2 ^ k * 2 ^ k + 2 ^ k \<le> 2 ^ 64" using assms by (simp flip: power_add)
  moreover have "unat (x OR ?m) = (unat x div 2 ^ k * 2 ^ k + (2 ^ k - 1)) mod 2 ^ 64"
    unfolding e unat_word_ariths and_not_mask [OF assms] m by simp
  ultimately show ?thesis by simp
qed

lemma unat_align_up:
  assumes "0 < x" "k < 63" "unat x \<le> 2 ^ 63"
  shows "unat (align_up x (2 ^ k :: u64)) = (unat x - 1) div 2 ^ k * 2 ^ k + 2 ^ k"
proof -
  have "1 \<le> unat x" using assms(1) by (metis One_nat_def Suc_leI unat_gt_0 word_neq_0_conv)
  then have x: "unat (x - 1) = unat x - 1" by (simp add: unat_sub word_le_nat_alt)
  have "(unat x - 1) div 2 ^ k * 2 ^ k \<le> unat x - 1" by simp
  then have "(unat x - 1) div 2 ^ k * 2 ^ k < 2 ^ 63" using assms(3) \<open>1 \<le> unat x\<close> by linarith
  moreover have "(2 :: nat) ^ k < 2 ^ 63" using assms(2) by (rule power_strict_increasing) simp
  ultimately have b: "(unat x - 1) div 2 ^ k * 2 ^ k + 2 ^ k < 2 ^ 64" by simp
  have "unat (align_up x (2 ^ k)) = (unat ((x - 1) OR (2 ^ k - 1)) + 1) mod 2 ^ 64" by (simp add: align_up_def unat_word_ariths)
  also have "\<dots> = ((unat x - 1) div 2 ^ k * 2 ^ k + (2 ^ k - 1) + 1) mod 2 ^ 64" using or_mask [of k "x - 1"] assms(2) x by simp
  also have "(unat x - 1) div 2 ^ k * 2 ^ k + (2 ^ k - 1) + 1 = (unat x - 1) div 2 ^ k * 2 ^ k + 2 ^ k" by simp
  finally show ?thesis using b by simp
qed

text \<open>The items are as large as asked for, aligned to words, and at least eight of them fit in a page.\<close>

lemma slab_create_geometry:
  assumes "slab_create sz flags = Some (sz', flags', nr)" "0 < sz" "unat sz \<le> 2 ^ 63"
  defines "pgsize \<equiv> (if flags' AND SLAB_FLAG_LGPAGE \<noteq> 0 then unat PGSIZE_2MB else unat PGSIZE_4KB)"
  shows "unat sz \<le> unat sz'" "8 dvd unat sz'" "0 < unat sz'" "8 \<le> unat nr" "unat nr * unat sz' \<le> pgsize"
proof -
  define k :: nat where "k = (if flags AND SLAB_FLAG_FALSE_OKAY = 0 then 6 else 3)"
  define a where "a = align_up sz (2 ^ k)"
  have a: "(if flags AND SLAB_FLAG_FALSE_OKAY = 0 then align_up sz 64 else align_up sz 8) = a" by (simp add: a_def k_def)
  have ua: "unat a = (unat sz - 1) div 2 ^ k * 2 ^ k + 2 ^ k" unfolding a_def by (rule unat_align_up) (use assms in \<open>simp_all add: k_def\<close>)
  let ?f = "if a > SLAB_4KB_LIMIT then flags OR SLAB_FLAG_LGPAGE else flags"
  let ?p = "if ?f AND SLAB_FLAG_LGPAGE \<noteq> 0 then PGSIZE_2MB else PGSIZE_4KB"
  have c: "\<not> a > SLAB_2MB_LIMIT" "sz' = a" "flags' = ?f" "nr = ?p div a"
    using assms(1) unfolding slab_create_def a Let_def by (auto split: if_splits)
  have lim: "unat SLAB_4KB_LIMIT = 512" "unat SLAB_2MB_LIMIT = 262144"
    by (simp_all add: SLAB_4KB_LIMIT_def SLAB_2MB_LIMIT_def SLAB_PARTIAL_THRESH_def SLAB_CHUNK_SIZE_def page_consts align_down_def)
  have "(flags OR 1) AND 1 = (1 :: u32)" by (rule bit_eqI) (auto simp: bit_simps)
  then have fl: "(flags OR SLAB_FLAG_LGPAGE) AND SLAB_FLAG_LGPAGE \<noteq> 0" by (simp add: SLAB_FLAG_LGPAGE_def)
  have "unat a \<le> unat ?p div 8"
    using c(1) lim fl by (auto simp: word_less_nat_alt not_less page_consts)
  moreover have up: "unat ?p = pgsize" "pgsize = 2097152 \<or> pgsize = 4096" using c(3) by (auto simp: pgsize_def page_consts)
  moreover show p0: "0 < unat sz'" using ua c(2) by simp
  moreover have nr: "unat nr = unat ?p div unat sz'" unfolding c(2,4) by (rule unat_div)
  ultimately have le: "unat sz' * 8 \<le> pgsize" using c(2) by auto
  then show "8 \<le> unat nr" using p0 nr up(1) by (simp add: less_eq_div_iff_mult_less_eq mult.commute)
  show "unat nr * unat sz' \<le> pgsize" using nr up(1) by simp
  have "unat sz - 1 < (unat sz - 1) div 2 ^ k * 2 ^ k + 2 ^ k" using dividend_less_div_times [of "2 ^ k" "unat sz - 1"] by simp
  then show "unat sz \<le> unat sz'" using ua c(2) by simp
  have "(8 :: nat) dvd 2 ^ k" by (simp add: k_def)
  then show "8 dvd unat sz'" unfolding c(2) ua by (simp add: dvd_mult)
qed

section \<open>Properties\<close>

definition lgpage_ops :: "addr \<Rightarrow> nat \<Rightarrow> lgpage_sys page_ops" where
  "lgpage_ops tbl node =
     \<lparr>op_alloc = lgpage_alloc_on_node tbl node, op_put = (\<lambda>s g. page_put_large tbl g s), op_addr = lgpage_to_addr tbl,
      op_page = addr_to_lgpage tbl, op_size = unat PGSIZE_2MB\<rparr>"

lemma new_node_ok:
  assumes "slab_create sz flags = Some (sz', flags', nr)" "0 < sz" "unat sz \<le> 2 ^ 63"
  shows "slab_ok pa (if flags' AND SLAB_FLAG_LGPAGE \<noteq> 0 then unat PGSIZE_2MB else unat PGSIZE_4KB) (slab_create_node node (unat sz') 0 flags' (unat nr) p)"
  using slab_create_geometry [OF assms]
  by (simp add: slab_ok_def slab_geometry_def slab_create_node_def all_pages_def SLAB_PARTIAL_THRESH_def SLAB_CHUNK_SIZE_def)

lemma new_node_empty: "all_pages (slab_create_node node sz off flags nr p) = {}" "slab_out pa (slab_create_node node sz off flags nr p) = {}"
  by (simp_all add: all_pages_def slab_create_node_def slab_out_def)

text \<open>C18: A cache over a slab of large pages that is used by the CPUs of one NUMA node: whatever its clients do on the CPUs below \<open>n\<close>,
  all of them of the node whose slab node the cache fills its magazines from, no allocation and no reclaim
  fails an assertion, an item is never handed out while a client holds it, the items that clients hold do not share
  a byte, and every byte of them lies in a page in use, whatever else uses pages at the start.\<close>

theorem slab_tcache_safe:
  assumes "slab_create sz flags = Some (sz', flags', nr)" "0 < sz" "unat sz \<le> 2 ^ 63" "flags' AND SLAB_FLAG_LGPAGE \<noteq> 0"
    and "lg_inv tbl p" "node < MAX_NUMA"
    and "slab_create_tcache True (lgpage_ops tbl node) nm (slab_create_node node (unat sz') 0 flags' (unat nr) p) ms tcs = Some (t, tcs')"
    and "0 < ms" "unat ms \<le> TCACHE_MAX_MAG_SIZE" "tc_reach n (tcache_boot t h n) s L" "c < n"
  shows "(\<exists>x s'. tcache_alloc s c = Some (x, s') \<and> x \<notin> L) \<and>
     (\<exists>s'. tcache_reclaim s c = Some s' \<and> shared_mags (tc s') = NULL) \<and>
     (\<forall>x \<in> L. \<forall>y \<in> L. x \<noteq> y \<longrightarrow> bytes x (unat sz') \<inter> bytes y (unat sz') = {}) \<and>
     (\<forall>x \<in> L. addr_to_lgpage tbl ` bytes x (unat sz') \<subseteq> in_use (backing (tc_data (tc s))))"
proof -
  let ?n = "slab_create_node node (unat sz') 0 flags' (unat nr) p" and ?z = "unat sz'"
  have t: "t = \<lparr>tc_name = nm, tc_ops = slab_tcache_ops (lgpage_ops tbl node), item_size = of_nat ?z, mags_allocated = 0,
      mag_size = ms, shared_mags = NULL, tc_data = ?n\<rparr>"
    using assms(7) by (auto simp: slab_create_tcache_def tcache_create_def slab_create_node_def Let_def split: if_splits)
  have ops: "lgpage_ops tbl node = large.pops tbl node" by (simp add: lgpage_ops_def page_consts)
  have "slab_ok (lgpage_to_addr tbl) (2 ^ 21) ?n" using new_node_ok [OF assms(1-3)] assms(4) by (simp add: page_consts)
  then have i: "large.ninv tbl node ?n" unfolding large.ninv_def using assms(5,6) by (simp add: new_node_empty) (simp add: slab_create_node_def)
  have z: "sn_size ?n = ?z" by (simp add: slab_create_node_def)
  have boot: "large.slab.inv tbl node ?z n (tcache_boot t h n) {}"
    by (rule tcache_boot_inv [OF t [unfolded slab_tcache_ops_def ops] assms(8,9)]) (rule conjI [OF i z] new_node_empty(2))+
  note safe = large.slab.reach_safe [OF assms(10) boot assms(11)]
  let ?m = "tc_data (tc s)"
  have m: "large.ninv tbl node ?m" "sn_size ?m = ?z" "L \<subseteq> slab_out (lgpage_to_addr tbl) ?m" using safe(3,4) by simp_all
  have "addr_to_lgpage tbl ` bytes x ?z \<subseteq> in_use (backing ?m)" if "x \<in> L" for x
    using large.item_in_page [OF m(1), of x] m(2,3) that by auto
  then show ?thesis using safe(1,2) large.items_apart [OF m(1)] m(2,3) by (simp add: subset_iff)
qed

text \<open>A slab of 4000-byte items on the first node, before any page has been mapped, and a system that maps one page.\<close>

theorem slab_tcache_safe_witness:
  "\<exists>t tcs' x s'. slab_create 4000 0 = Some (4032, 1, 520) \<and>
     slab_create_tcache True (lgpage_ops 0x5000 0) [] (slab_create_node 0 4032 0 1 520
       \<lparr>lg_idx = (\<lambda>_. 0), lg_pages = (\<lambda>_. []), pages = (\<lambda>_. \<lparr>pg_flags = 0, pg_ref = 0, pg_paddr = 0\<rparr>),
        os_page = (\<lambda>i. if i = 0 then Some 0 else None), os_count = 0\<rparr>) 8 [] = Some (t, tcs') \<and>
     tcache_alloc (tcache_boot t (\<lambda>_. \<lparr>next_item = 0, next_mag = 0\<rparr>) 2) 1 = Some (x, s')"
proof -
  let ?p = "\<lparr>lg_idx = (\<lambda>_. 0), lg_pages = (\<lambda>_. []), pages = (\<lambda>_. \<lparr>pg_flags = 0, pg_ref = 0, pg_paddr = 0\<rparr>),
        os_page = (\<lambda>i. if i = 0 then Some 0 else None), os_count = 0\<rparr> :: lgpage_sys"
  have c: "slab_create 4000 0 = Some (4032, 1, 520)"
    by (simp add: slab_create_def Let_def align_up_def SLAB_4KB_LIMIT_def SLAB_2MB_LIMIT_def SLAB_PARTIAL_THRESH_def SLAB_CHUNK_SIZE_def
        SLAB_FLAG_LGPAGE_def SLAB_FLAG_FALSE_OKAY_def page_consts align_down_def)
  have p: "lg_inv 0x5000 ?p" by (simp add: lg_inv_def in_use_def)
  obtain t tcs' where t: "slab_create_tcache True (lgpage_ops 0x5000 0) [] (slab_create_node 0 (unat (4032 :: u64)) 0 1 (unat (520 :: u64)) ?p) 8 [] = Some (t, tcs')"
    by (simp add: slab_create_tcache_def tcache_create_def Let_def slab_create_node_def TCACHE_MIN_ITEM_SIZE_def TCACHE_MAX_MAG_SIZE_def)
  have "\<exists>x s'. tcache_alloc (tcache_boot t (\<lambda>_. \<lparr>next_item = 0, next_mag = 0\<rparr>) 2) 1 = Some (x, s')"
    using slab_tcache_safe [OF c _ _ _ p _ t _ _ tc_reach.start, where n = 2 and c = 1]
    by (force simp: SLAB_FLAG_LGPAGE_def MAX_NUMA_def TCACHE_MAX_MAG_SIZE_def)
  then show ?thesis using c t by simp
qed

end
