(* ===== verification/Slab_Numa.thy ===== *)
theory Slab_Numa
  imports Slab
begin

text \<open>
  Slabs on the NUMA nodes (\<^verbatim>\<open>libos/mm/slab.c\<close>): a slab has a node for every NUMA node, all on one page allocator, so
  the page system is passed through the operations and put in place of \<open>backing\<close> while a node works. A slab of 4 KB
  items on large pages is the allocator of small pages (\<^verbatim>\<open>libos/mm/page.c\<close>), and what the slab relies on holds of it in
  turn. The magazine cache in front of the small pages is not part of this theory; without it, as before the
  initialisation of a thread, the requests go to the slab.
\<close>

section \<open>Slabs\<close>

record 'p slab =
  sl_name :: string
  sl_size :: nat
  sl_nodes :: "'p slab_node list"

definition slab_early_create :: "string \<Rightarrow> nat \<Rightarrow> nat \<Rightarrow> u32 \<Rightarrow> nat \<Rightarrow> 'p \<Rightarrow> 'p slab" where
  "slab_early_create name sz offset flags n p =
     \<lparr>sl_name = name, sl_size = sz, sl_nodes = map (\<lambda>i. slab_create_node i sz offset flags n p) [0..<MAX_NUMA]\<rparr>"

definition slab_alloc_on_node :: "(nat \<Rightarrow> 'p page_ops) \<Rightarrow> 'p slab \<Rightarrow> nat \<Rightarrow> 'p \<Rightarrow> (addr \<times> 'p slab \<times> 'p) option" where
  "slab_alloc_on_node ops s node p =
     (if node \<ge> length (sl_nodes s) then None
      else map_option (\<lambda>(x, n). (x, s\<lparr>sl_nodes := (sl_nodes s)[node := n]\<rparr>, backing n))
             (slab_node_alloc (ops node) ((sl_nodes s ! node)\<lparr>backing := p\<rparr>)))"

definition slab_free :: "(nat \<Rightarrow> 'p page_ops) \<Rightarrow> 'p slab \<Rightarrow> addr \<Rightarrow> 'p \<Rightarrow> ('p slab \<times> 'p) option" where
  "slab_free ops s item p =
     (let node = unat (addr_to_numa_node item)
      in if node \<ge> length (sl_nodes s) then None
         else map_option (\<lambda>n. (s\<lparr>sl_nodes := (sl_nodes s)[node := n]\<rparr>, backing n))
                (slab_node_free (ops node) ((sl_nodes s ! node)\<lparr>backing := p\<rparr>) item))"

text \<open>\<^verbatim>\<open>slab_destroy\<close> gives back every page of every node, the full ones first.\<close>

fun put_pages :: "'p page_ops \<Rightarrow> 'p \<Rightarrow> addr list \<Rightarrow> 'p option" where
  "put_pages ops p [] = Some p"
| "put_pages ops p (g # gs) = Option.bind (op_put ops p g) (\<lambda>p. put_pages ops p gs)"

definition slab_destroy_node :: "'p page_ops \<Rightarrow> 'p slab_node \<Rightarrow> 'p \<Rightarrow> 'p option" where
  "slab_destroy_node ops n p = put_pages ops p (full_list n @ partial_list n @ (case cur_pg n of None \<Rightarrow> [] | Some g \<Rightarrow> [g]))"

fun slab_destroy_nodes :: "(nat \<Rightarrow> 'p page_ops) \<Rightarrow> nat \<Rightarrow> 'p slab_node list \<Rightarrow> 'p \<Rightarrow> 'p option" where
  "slab_destroy_nodes ops i [] p = Some p"
| "slab_destroy_nodes ops i (n # ns) p = Option.bind (slab_destroy_node (ops i) n p) (slab_destroy_nodes ops (i + 1) ns)"

definition slab_destroy :: "(nat \<Rightarrow> 'p page_ops) \<Rightarrow> 'p slab \<Rightarrow> 'p \<Rightarrow> 'p option" where
  "slab_destroy ops s p = slab_destroy_nodes ops 0 (sl_nodes s) p"

text \<open>What \<^verbatim>\<open>slab_print_usage\<close> logs: the kilobytes of each slab, and the total, to which only the large pages are added.\<close>

definition node_usage :: "'p slab_node \<Rightarrow> int" where
  "node_usage n = nr_pages n * (if sn_flags n AND SLAB_FLAG_LGPAGE \<noteq> 0 then uint PGSIZE_2MB else uint PGSIZE_4KB)"

definition slab_print_usage :: "'p slab list \<Rightarrow> (int \<times> string) list \<times> int" where
  "slab_print_usage l =
     (map (\<lambda>s. (sum_list (map node_usage (sl_nodes s)) div 1024, sl_name s)) l,
      sum_list (map (\<lambda>s. sum_list (map node_usage (filter (\<lambda>n. sn_flags n AND SLAB_FLAG_LGPAGE \<noteq> 0) (sl_nodes s)))) l) div 1024)"

text \<open>The states of a slab and its page system when items are allocated on the nodes and freed; the set is what is held.\<close>

inductive slab_reach :: "(nat \<Rightarrow> 'p page_ops) \<Rightarrow> 'p slab \<Rightarrow> 'p \<Rightarrow> 'p slab \<Rightarrow> 'p \<Rightarrow> addr set \<Rightarrow> bool"
  for ops :: "nat \<Rightarrow> 'p page_ops" and s0 :: "'p slab" and p0 :: 'p where
  start: "slab_reach ops s0 p0 s0 p0 {}"
| alloc: "slab_reach ops s0 p0 s p L \<Longrightarrow> node < MAX_NUMA \<Longrightarrow> slab_alloc_on_node ops s node p = Some (x, s', p') \<Longrightarrow> x \<noteq> NULL \<Longrightarrow>
    slab_reach ops s0 p0 s' p' (insert x L)"
| fail: "slab_reach ops s0 p0 s p L \<Longrightarrow> node < MAX_NUMA \<Longrightarrow> slab_alloc_on_node ops s node p = Some (NULL, s', p') \<Longrightarrow> slab_reach ops s0 p0 s' p' L"
| free: "slab_reach ops s0 p0 s p L \<Longrightarrow> x \<in> L \<Longrightarrow> slab_free ops s x p = Some (s', p') \<Longrightarrow> slab_reach ops s0 p0 s' p' (L - {x})"

section \<open>What a node does to the pages of others\<close>

text \<open>A slab keeps the size of its items.\<close>

lemma slab_alloc_nodes:
  assumes "slab_alloc_on_node ops s node p = Some (a, s', p')" "i < length (sl_nodes s)"
  shows "sn_size (sl_nodes s' ! i) = sn_size (sl_nodes s ! i)" "sn_offset (sl_nodes s' ! i) = sn_offset (sl_nodes s ! i)"
  using assms by (auto simp: slab_alloc_on_node_def nth_list_update dest!: node_alloc_size split: if_splits)

lemma slab_free_nodes:
  assumes "slab_free ops s a p = Some (s', p')" "i < length (sl_nodes s)"
  shows "sn_size (sl_nodes s' ! i) = sn_size (sl_nodes s ! i)" "sn_offset (sl_nodes s' ! i) = sn_offset (sl_nodes s ! i)"
  using assms by (auto simp: slab_free_def Let_def nth_list_update dest!: node_free_size split: if_splits)

lemma backing_irrelevant [simp]:
  "all_pages (n\<lparr>backing := p\<rparr>) = all_pages n" "cut (n\<lparr>backing := p\<rparr>) g = cut n g" "slab_item pa (n\<lparr>backing := p\<rparr>) = slab_item pa n"
  "page_ok pa (n\<lparr>backing := p\<rparr>) g = page_ok pa n g" "page_out pa (n\<lparr>backing := p\<rparr>) g = page_out pa n g"
  "slab_out pa (n\<lparr>backing := p\<rparr>) = slab_out pa n" "slab_ok pa k (n\<lparr>backing := p\<rparr>) = slab_ok pa k n"
proof -
  show a: "all_pages (n\<lparr>backing := p\<rparr>) = all_pages n" by (simp add: all_pages_def)
  show c: "cut (n\<lparr>backing := p\<rparr>) g = cut n g" for g by (simp add: cut_def)
  show "slab_item pa (n\<lparr>backing := p\<rparr>) = slab_item pa n" by (rule slab_item_cong) simp_all
  show k: "page_ok pa (n\<lparr>backing := p\<rparr>) g = page_ok pa n g" "page_out pa (n\<lparr>backing := p\<rparr>) g = page_out pa n g" for g
    by (rule page_ok_cong; simp add: c)+
  show "slab_out pa (n\<lparr>backing := p\<rparr>) = slab_out pa n" by (simp add: slab_out_def a k)
  show "slab_ok pa z (n\<lparr>backing := p\<rparr>) = slab_ok pa z n" for z by (simp add: slab_ok_def slab_geometry_def a k)
qed

text \<open>An allocation asks for at most one page, and takes only the page it gets.\<close>

lemma get_page_frame:
  assumes "slab_node_get_page ops n = Some (r, m)" "cur_pg n = None"
  shows "backing m = backing n \<and> all_pages (m\<lparr>cur_pg := r\<rparr>) = all_pages n \<or>
    op_alloc ops (backing n) = Some (r, backing m) \<and> all_pages (m\<lparr>cur_pg := r\<rparr>) = set_option r \<union> all_pages n"
  using assms by (auto simp: slab_node_get_page_def all_pages_def split: list.splits option.splits prod.splits)

lemma refill_frame:
  assumes "slab_refill ops n = Some m"
  shows "backing m = backing n \<and> all_pages m = all_pages n \<or>
    (\<exists>r. op_alloc ops (backing n) = Some (r, backing m) \<and> all_pages m = set_option r \<union> all_pages n)"
proof (cases "cur_pg n = None \<or> item_count (sn_pages n (the (cur_pg n))) = 0")
  case True
  have sh: "backing (shelve n) = backing n" "all_pages (shelve n) = all_pages n" "cur_pg (shelve n) = None"
    by (auto simp: shelve_def all_pages_def split: option.splits)
  obtain r l where l: "slab_node_get_page ops (shelve n) = Some (r, l)"
    "m = l\<lparr>cur_pg := r, nr_pages := (if r = None then nr_pages l else nr_pages l + 1)\<rparr>"
    using assms slab_refill_shelve [OF True, of ops] by auto
  have "backing m = backing l" "all_pages m = all_pages (l\<lparr>cur_pg := r\<rparr>)" by (simp_all add: l(2) all_pages_def)
  then show ?thesis using get_page_frame [OF l(1) sh(3)] sh by auto
next
  case False
  then have "slab_refill ops n = Some n" unfolding slab_refill_def by (simp only: if_False)
  then show ?thesis using assms by simp
qed

lemma node_alloc_frame:
  assumes "slab_node_alloc ops n = Some (x, m)"
  shows "backing m = backing n \<and> all_pages m = all_pages n \<or>
    (\<exists>r. op_alloc ops (backing n) = Some (r, backing m) \<and> all_pages m = set_option r \<union> all_pages n)"
proof -
  obtain l where l: "slab_refill ops n = Some l" "case cur_pg l of None \<Rightarrow> Some (NULL, l) = Some (x, m) | Some g \<Rightarrow> slab_take ops g l = Some (x, m)"
    using assms by (auto simp: slab_node_alloc_def split: option.splits)
  have "backing m = backing l" "all_pages m = all_pages l"
    using l(2) by (auto simp: slab_take_def Let_def all_pages_def split: option.splits list.splits if_splits)
  then show ?thesis using refill_frame [OF l(1)] by simp
qed

lemma node_free_frame:
  assumes "slab_node_free ops n x = Some m"
  shows "(backing m = backing n \<or> op_put ops (backing n) (op_page ops x) = Some (backing m)) \<and> all_pages m \<subseteq> insert (op_page ops x) (all_pages n)"
  using assms by (auto simp: slab_node_free_def Let_def unlist_def all_pages_def split: if_splits dest: notin_set_remove1)

section \<open>Pages on every node\<close>

locale numa_pages =
  fixes palloc :: "nat \<Rightarrow> 'p \<Rightarrow> (addr option \<times> 'p) option"
    and pput :: "'p \<Rightarrow> addr \<Rightarrow> 'p option"
    and paddr :: "addr \<Rightarrow> addr"
    and pof :: "addr \<Rightarrow> addr"
    and pinv :: "'p \<Rightarrow> bool"
    and live :: "'p \<Rightarrow> addr set"
    and pgsize :: nat
  assumes backend: "node < MAX_NUMA \<Longrightarrow> page_backend (palloc node) pput paddr pof pinv live pgsize"
    and page_node: "node < MAX_NUMA \<Longrightarrow> pinv p \<Longrightarrow> palloc node p = Some (Some g, p') \<Longrightarrow> off < pgsize \<Longrightarrow>
          unat (addr_to_numa_node (paddr g + of_nat off)) = node"

sublocale numa_pages \<subseteq> node0: page_backend "palloc 0" pput paddr pof pinv live pgsize
  by (rule backend) (simp add: MAX_NUMA_def)

text \<open>Only the request for a page depends on the node, so the invariant of a slab node is the same on all of them.\<close>

context numa_pages
begin

definition nops :: "nat \<Rightarrow> 'p page_ops" where
  "nops node = \<lparr>op_alloc = palloc node, op_put = pput, op_addr = paddr, op_page = pof, op_size = pgsize\<rparr>"

abbreviation at :: "'p slab_node \<Rightarrow> 'p \<Rightarrow> 'p slab_node" where
  "at n p \<equiv> n\<lparr>backing := p\<rparr>"

definition home :: "nat \<Rightarrow> addr \<Rightarrow> bool" where
  "home node g \<longleftrightarrow> (\<forall>off < pgsize. unat (addr_to_numa_node (paddr g + of_nat off)) = node)"

definition snv :: "'p slab \<Rightarrow> 'p \<Rightarrow> bool" where
  "snv s p \<longleftrightarrow> length (sl_nodes s) = MAX_NUMA \<and> pinv p \<and>
     (\<forall>i < MAX_NUMA. node0.ninv (at (sl_nodes s ! i) p) \<and> (\<forall>g \<in> all_pages (sl_nodes s ! i). home i g))"

definition sout :: "'p slab \<Rightarrow> addr set" where
  "sout s = (\<Union>i < MAX_NUMA. slab_out paddr (sl_nodes s ! i))"

lemma home_unique: "home i g \<Longrightarrow> home j g \<Longrightarrow> 0 < pgsize \<Longrightarrow> i = j"
  by (auto simp: home_def)

lemma ninv_at: "node0.ninv (at n p) \<longleftrightarrow> pinv p \<and> all_pages n \<subseteq> live p \<and> slab_ok paddr pgsize n"
  by (simp add: node0.ninv_def)

text \<open>Another user of the page allocator may take pages and give back its own.\<close>

lemma snv_frame:
  assumes "snv s p" "pinv p'" "\<And>i. i < MAX_NUMA \<Longrightarrow> all_pages (sl_nodes s ! i) \<subseteq> live p'"
  shows "snv s p'"
  using assms by (auto simp: snv_def ninv_at)

lemma snv_upd:
  assumes s: "snv s p" and i: "i < MAX_NUMA" and n: "node0.ninv n" "\<And>g. g \<in> all_pages n \<Longrightarrow> home i g"
    and fr: "\<And>j. j < MAX_NUMA \<Longrightarrow> j \<noteq> i \<Longrightarrow> all_pages (sl_nodes s ! j) \<subseteq> live (backing n)"
  shows "snv (s\<lparr>sl_nodes := (sl_nodes s)[i := n]\<rparr>) (backing n)"
    and "sout (s\<lparr>sl_nodes := (sl_nodes s)[i := n]\<rparr>) = slab_out paddr n \<union> (\<Union>j \<in> {..<MAX_NUMA} - {i}. slab_out paddr (sl_nodes s ! j))"
proof -
  let ?s = "s\<lparr>sl_nodes := (sl_nodes s)[i := n]\<rparr>"
  have l: "length (sl_nodes s) = MAX_NUMA" using s by (simp add: snv_def)
  have nth: "sl_nodes ?s ! j = (if j = i then n else sl_nodes s ! j)" if "j < MAX_NUMA" for j using that l by (simp add: nth_list_update)
  have "at n (backing n) = n" by simp
  then have "node0.ninv (at (sl_nodes ?s ! j) (backing n)) \<and> (\<forall>g \<in> all_pages (sl_nodes ?s ! j). home j g)" if "j < MAX_NUMA" for j
    using s n fr nth that by (cases "j = i") (simp_all add: snv_def ninv_at, simp add: node0.ninv_def)
  moreover have "pinv (backing n)" using n(1) by (simp add: node0.ninv_def)
  ultimately show "snv ?s (backing n)" using l unfolding snv_def by simp
  show "sout ?s = slab_out paddr n \<union> (\<Union>j \<in> {..<MAX_NUMA} - {i}. slab_out paddr (sl_nodes s ! j))"
  proof -
    have "sout ?s = (\<Union>j < MAX_NUMA. if j = i then slab_out paddr n else slab_out paddr (sl_nodes s ! j))"
      unfolding sout_def by (rule SUP_cong [OF refl]) (use nth in simp)
    also have "\<dots> = slab_out paddr n \<union> (\<Union>j \<in> {..<MAX_NUMA} - {i}. slab_out paddr (sl_nodes s ! j))"
      using i by (auto split: if_splits)
    finally show ?thesis .
  qed
qed

definition spages :: "'p slab \<Rightarrow> addr set" where
  "spages s = (\<Union>i < MAX_NUMA. all_pages (sl_nodes s ! i))"

lemma out_home:
  assumes "snv s p" "i < MAX_NUMA" "x \<in> slab_out paddr (sl_nodes s ! i)"
  shows "unat (addr_to_numa_node x) = i" "pof x \<in> all_pages (sl_nodes s ! i)"
proof -
  let ?n = "at (sl_nodes s ! i) p"
  have n: "node0.ninv ?n" "\<And>g. g \<in> all_pages ?n \<Longrightarrow> home i g" using assms(1,2) by (auto simp: snv_def)
  obtain g k where g: "g \<in> all_pages ?n" "k < cut ?n g" "x = slab_item paddr ?n g k" using assms(3) by (auto simp: slab_out_def page_out_def)
  then have k: "k < nr_elems ?n" using node0.cut_le [OF n(1) g(1)] by simp
  show "unat (addr_to_numa_node x) = i"
    using n(2) [OF g(1)] node0.slab_item_page(3) [OF n(1) g(1) k] unfolding g(3) home_def slab_item_def by blast
  show "pof x \<in> all_pages (sl_nodes s ! i)" using node0.slab_item_page(1) [OF n(1) g(1) k] g(1,3) by simp
qed

lemma slab_alloc_ok:
  assumes s: "snv s p" and i: "i < MAX_NUMA"
  shows "\<exists>x s' p'. slab_alloc_on_node nops s i p = Some (x, s', p') \<and> snv s' p' \<and>
    (if x = NULL then sout s' = sout s else x \<notin> sout s \<and> sout s' = insert x (sout s) \<and> unat (addr_to_numa_node x) = i) \<and>
    live p \<subseteq> live p' \<and> spages s' \<inter> live p \<subseteq> spages s"
proof -
  let ?n = "at (sl_nodes s ! i) p"
  have l: "length (sl_nodes s) = MAX_NUMA" and n: "node0.ninv ?n" and h: "\<And>g. g \<in> all_pages ?n \<Longrightarrow> home i g" and pi: "pinv p"
    and others: "\<And>j. j < MAX_NUMA \<Longrightarrow> all_pages (sl_nodes s ! j) \<subseteq> live p"
    using s i by (auto simp: snv_def ninv_at)
  obtain x m where m: "slab_node_alloc (nops i) ?n = Some (x, m)" "node0.ninv m"
    "if x = NULL then slab_out paddr m = slab_out paddr ?n else x \<notin> slab_out paddr ?n \<and> slab_out paddr m = insert x (slab_out paddr ?n)"
    using page_backend.node_alloc_ok [OF backend [OF i] n] unfolding nops_def by blast
  let ?s = "s\<lparr>sl_nodes := (sl_nodes s)[i := m]\<rparr>"
  have fr: "live p \<subseteq> live (backing m) \<and> (\<forall>g \<in> all_pages m. g \<notin> all_pages ?n \<longrightarrow> g \<notin> live p \<and> home i g)"
    using node_alloc_frame [OF m(1)]
  proof (elim disjE exE conjE)
    fix r assume r: "op_alloc (nops i) (backing ?n) = Some (r, backing m)" "all_pages m = set_option r \<union> all_pages ?n"
    then have a: "palloc i p = Some (r, backing m)" by (simp add: nops_def)
    show ?thesis
    proof (cases r)
      case None
      then show ?thesis using page_backend.alloc_none [OF backend [OF i] pi, of "backing m"] a r(2) by simp
    next
      case (Some g)
      moreover have "home i g" unfolding home_def using page_node [OF i pi] a Some by simp
      ultimately show ?thesis using page_backend.alloc_some [OF backend [OF i] pi, of g "backing m"] a r(2) by auto
    qed
  qed simp
  then have hm: "\<And>g. g \<in> all_pages m \<Longrightarrow> home i g" using h by blast
  have u: "snv ?s (backing m)" "sout ?s = slab_out paddr m \<union> (\<Union>j \<in> {..<MAX_NUMA} - {i}. slab_out paddr (sl_nodes s ! j))"
    by (rule snv_upd [OF s i m(2) hm]; use fr others in blast)+
  have so: "sout s = slab_out paddr ?n \<union> (\<Union>j \<in> {..<MAX_NUMA} - {i}. slab_out paddr (sl_nodes s ! j))" using i by (auto simp: sout_def)
  have "unat (addr_to_numa_node x) = i" if "x \<in> slab_out paddr m"
    using out_home(1) [OF u(1) i] that i l by simp
  then have "if x = NULL then sout ?s = sout s else x \<notin> sout s \<and> sout ?s = insert x (sout s) \<and> unat (addr_to_numa_node x) = i"
    using m(3) out_home(1) [OF s] unfolding u(2) so by (auto split: if_splits)
  moreover have "spages ?s \<inter> live p \<subseteq> spages s"
  proof -
    have "all_pages (sl_nodes ?s ! j) \<inter> live p \<subseteq> all_pages (sl_nodes s ! j)" if "j < MAX_NUMA" for j
      using fr that l by (cases "j = i") auto
    then show ?thesis unfolding spages_def by blast
  qed
  ultimately show ?thesis using m(1) l i u(1) fr by (auto simp: slab_alloc_on_node_def)
qed

lemma slab_free_ok:
  assumes s: "snv s p" and x: "x \<in> sout s"
  shows "\<exists>s' p'. slab_free nops s x p = Some (s', p') \<and> snv s' p' \<and> sout s' = sout s - {x} \<and>
    live p - spages s \<subseteq> live p' \<and> live p' \<subseteq> live p \<and> spages s' \<subseteq> spages s"
proof -
  obtain i where i: "i < MAX_NUMA" "x \<in> slab_out paddr (sl_nodes s ! i)" using x by (auto simp: sout_def)
  note xh = out_home [OF s i]
  let ?n = "at (sl_nodes s ! i) p"
  have l: "length (sl_nodes s) = MAX_NUMA" and n: "node0.ninv ?n" and h: "\<And>g. g \<in> all_pages ?n \<Longrightarrow> home i g" and pi: "pinv p"
    and others: "\<And>j. j < MAX_NUMA \<Longrightarrow> all_pages (sl_nodes s ! j) \<subseteq> live p"
    using s i by (auto simp: snv_def ninv_at)
  obtain m where m: "slab_node_free (nops i) ?n x = Some m" "node0.ninv m" "slab_out paddr m = slab_out paddr ?n - {x}"
    using page_backend.node_free_ok [OF backend [OF i(1)] n, of x] i(2) unfolding nops_def by auto
  let ?s = "s\<lparr>sl_nodes := (sl_nodes s)[i := m]\<rparr>"
  have am: "all_pages m \<subseteq> all_pages (sl_nodes s ! i)" using node_free_frame [OF m(1)] xh(2) by (simp add: nops_def insert_absorb)
  have lv: "live (backing m) = live p \<or> live (backing m) = live p - {pof x}"
    using node_free_frame [OF m(1)] page_backend.put_ok [OF backend [OF i(1)] pi, of "pof x"] xh(2) others [OF i(1)] by (auto simp: nops_def)
  have hm: "\<And>g. g \<in> all_pages m \<Longrightarrow> home i g" using am h by auto
  have pg: "0 < pgsize" using n by (auto simp: ninv_at slab_ok_def slab_geometry_def)
  have "pof x \<notin> all_pages (sl_nodes s ! j)" if "j < MAX_NUMA" "j \<noteq> i" for j
    using home_unique [of j "pof x" i] h xh(2) s that pg by (auto simp: snv_def)
  then have oth: "all_pages (sl_nodes s ! j) \<subseteq> live (backing m)" if "j < MAX_NUMA" "j \<noteq> i" for j using lv others that by blast
  have u: "snv ?s (backing m)" "sout ?s = slab_out paddr m \<union> (\<Union>j \<in> {..<MAX_NUMA} - {i}. slab_out paddr (sl_nodes s ! j))"
    by (rule snv_upd [OF s i(1) m(2) hm]; use oth in blast)+
  have so: "sout s = slab_out paddr ?n \<union> (\<Union>j \<in> {..<MAX_NUMA} - {i}. slab_out paddr (sl_nodes s ! j))" using i by (auto simp: sout_def)
  have "x \<notin> slab_out paddr (sl_nodes s ! j)" if "j < MAX_NUMA" "j \<noteq> i" for j using out_home(1) [OF s that(1), of x] xh(1) that(2) by auto
  then have "sout ?s = sout s - {x}" unfolding u(2) so m(3) by auto
  moreover have "spages ?s \<subseteq> spages s"
  proof -
    have "all_pages (sl_nodes ?s ! j) \<subseteq> all_pages (sl_nodes s ! j)" if "j < MAX_NUMA" for j using am that l by (cases "j = i") auto
    then show ?thesis unfolding spages_def by blast
  qed
  moreover have "pof x \<in> spages s" using xh(2) i(1) by (auto simp: spages_def)
  ultimately show ?thesis using m(1) l i(1) u(1) lv xh(1) by (auto simp: slab_free_def Let_def)
qed

lemma slab_items_apart:
  assumes s: "snv s p" and z: "\<forall>i < MAX_NUMA. sn_size (sl_nodes s ! i) = z" and xy: "x \<in> sout s" "y \<in> sout s" "x \<noteq> y"
  shows "bytes x z \<inter> bytes y z = {}"
proof -
  obtain i j where i: "i < MAX_NUMA" "x \<in> slab_out paddr (sl_nodes s ! i)" and j: "j < MAX_NUMA" "y \<in> slab_out paddr (sl_nodes s ! j)"
    using xy by (auto simp: sout_def)
  have n: "node0.ninv (at (sl_nodes s ! k) p)" "sn_size (at (sl_nodes s ! k) p) = z" "\<forall>g \<in> all_pages (sl_nodes s ! k). home k g" if "k < MAX_NUMA" for k
    using s z that by (auto simp: snv_def)
  show ?thesis
  proof (cases "i = j")
    case True
    then show ?thesis using node0.items_apart [OF n(1) [OF i(1)], of x y] i j xy(3) n(2) [OF i(1)] by simp
  next
    case False
    have "pof b \<in> all_pages (sl_nodes s ! k)" if k: "k < MAX_NUMA" and w: "w \<in> slab_out paddr (sl_nodes s ! k)" and b: "b \<in> bytes w z" for k w b
    proof -
      let ?n = "at (sl_nodes s ! k) p"
      have "w \<in> slab_out paddr ?n" using w by simp
      then obtain g l where g: "g \<in> all_pages ?n" "bytes w (sn_size ?n) = (\<lambda>i. paddr g + of_nat (sn_offset ?n + l * sn_size ?n + i)) ` {..<sn_size ?n}"
        "\<And>i. i < sn_size ?n \<Longrightarrow> sn_offset ?n + l * sn_size ?n + i < pgsize" using node0.item_bytes [OF n(1) [OF k]] by metis
      have "pinv p" "g \<in> live p" using n(1) [OF k] g(1) by (auto simp: ninv_at)
      moreover obtain d where "d < z" "b = paddr g + of_nat (sn_offset ?n + l * sn_size ?n + d)" using b g(2) unfolding n(2) [OF k] by auto
      ultimately have "pof b = g" using g(3) [of d] node0.page_of [of p g] n(2) [OF k] by metis
      then show ?thesis using g(1) by simp
    qed
    moreover have "0 < pgsize" using n(1) [OF i(1)] by (auto simp: ninv_at slab_ok_def slab_geometry_def)
    ultimately show ?thesis using False i j n(3) home_unique [of i _ j] by (meson disjoint_iff)
  qed
qed

lemma reach_ok:
  assumes "slab_reach nops s0 p0 s p L" "snv s0 p0" "sout s0 = {}" "\<forall>i < MAX_NUMA. sn_size (sl_nodes s0 ! i) = z"
  shows "snv s p \<and> sout s = L \<and> (\<forall>i < MAX_NUMA. sn_size (sl_nodes s ! i) = z)"
  using assms
proof (induction rule: slab_reach.induct)
  case (alloc s p L node x s' p')
  then show ?case using slab_alloc_ok [of s p node] slab_alloc_nodes(1) [OF alloc.hyps(3)] by (auto simp: snv_def)
next
  case (fail s p L node s' p')
  then show ?case using slab_alloc_ok [of s p node] slab_alloc_nodes(1) [OF fail.hyps(3)] by (auto simp: snv_def)
next
  case (free s p L x s' p')
  then show ?case using slab_free_ok [of s p x] slab_free_nodes(1) [OF free.hyps(3)] by (auto simp: snv_def)
qed simp

text \<open>A slab that is destroyed gives back its pages and no others.\<close>

lemma put_pages_ok:
  assumes "pinv p" "distinct gs" "set gs \<subseteq> live p"
  shows "\<exists>p'. put_pages (nops i) p gs = Some p' \<and> pinv p' \<and> live p' = live p - set gs"
  using assms
proof (induction gs arbitrary: p)
  case (Cons g gs)
  then obtain p1 where p1: "pput p g = Some p1" "pinv p1" "live p1 = live p - {g}" using node0.put_ok [of p g] by auto
  then obtain p' where "put_pages (nops i) p1 gs = Some p'" "pinv p'" "live p' = live p1 - set gs" using Cons.IH [of p1] Cons.prems by auto
  then show ?case using p1 by (auto simp: nops_def)
qed simp

lemma destroy_node_ok:
  assumes "node0.ninv (at n p)"
  shows "\<exists>p'. slab_destroy_node (nops i) n p = Some p' \<and> pinv p' \<and> live p' = live p - all_pages n"
proof -
  let ?gs = "full_list n @ partial_list n @ (case cur_pg n of None \<Rightarrow> [] | Some g \<Rightarrow> [g])"
  have "set ?gs = all_pages n" "distinct ?gs" using assms by (auto simp: all_pages_def ninv_at slab_ok_def split: option.splits)
  then show ?thesis using put_pages_ok [of p ?gs i] assms unfolding slab_destroy_node_def ninv_at by simp
qed

lemma slab_destroy_ok:
  assumes s: "snv s p"
  shows "\<exists>p'. slab_destroy nops s p = Some p' \<and> pinv p' \<and> live p' = live p - spages s"
proof -
  obtain n0 n1 where n: "sl_nodes s = [n0, n1]"
    using s by (auto simp: snv_def MAX_NUMA_def numeral_2_eq_2 length_Suc_conv)
  have i: "node0.ninv (at n0 p)" "node0.ninv (at n1 p)" "\<forall>g \<in> all_pages n0. home 0 g" "\<forall>g \<in> all_pages n1. home 1 g"
    using s unfolding snv_def n MAX_NUMA_def by (auto simp: numeral_2_eq_2 less_Suc_eq)
  obtain p1 where p1: "slab_destroy_node (nops 0) n0 p = Some p1" "pinv p1" "live p1 = live p - all_pages n0"
    using destroy_node_ok [OF i(1)] by blast
  have "0 < pgsize" using i(1) by (auto simp: ninv_at slab_ok_def slab_geometry_def)
  then have "all_pages n0 \<inter> all_pages n1 = {}" using i(3,4) home_unique [of 0 _ 1] by auto
  then have "node0.ninv (at n1 p1)" using i(2) p1 by (auto simp: ninv_at)
  then obtain p2 where p2: "slab_destroy_node (nops 1) n1 p1 = Some p2" "pinv p2" "live p2 = live p1 - all_pages n1"
    using destroy_node_ok by blast
  have "spages s = all_pages n0 \<union> all_pages n1" by (auto simp: spages_def n MAX_NUMA_def numeral_2_eq_2 less_Suc_eq lessThan_Suc)
  then show ?thesis using p1 p2 by (auto simp: slab_destroy_def n)
qed

lemma early_create_ok:
  assumes "pinv p" "0 < sz" "offset + nr * sz \<le> pgsize" "SLAB_PARTIAL_THRESH < nr"
  shows "snv (slab_early_create nm sz offset flags nr p) p" "sout (slab_early_create nm sz offset flags nr p) = {}"
    "spages (slab_early_create nm sz offset flags nr p) = {}"
proof -
  let ?s = "slab_early_create nm sz offset flags nr p"
  have nth: "sl_nodes ?s ! i = slab_create_node i sz offset flags nr p" if "i < MAX_NUMA" for i using that by (simp add: slab_early_create_def)
  have "slab_ok paddr pgsize (slab_create_node i sz offset flags nr p)" for i
    using assms by (simp add: slab_ok_def slab_geometry_def new_node_empty) (simp add: slab_create_node_def)
  then show "snv ?s p" using nth assms(1) by (auto simp: snv_def ninv_at new_node_empty) (simp add: slab_early_create_def)
  show "sout ?s = {}" "spages ?s = {}" using nth by (auto simp: sout_def spages_def new_node_empty)
qed

end

section \<open>Large pages\<close>

lemma lg_node_of_addr:
  assumes "lg_inv tbl s" "node < MAX_NUMA" "lgpage_alloc_on_node tbl node s = Some (Some g, s')" "off < 2 ^ 21"
  shows "unat (addr_to_numa_node (lgpage_to_addr tbl g + of_nat off)) = node"
proof -
  obtain r t where t: "lgpage_take tbl node s = (r, t)" by fastforce
  have rg: "r = Some g" using assms(3) t by (auto simp: lgpage_alloc_on_node_def split: if_splits option.splits prod.splits bool.splits)
  note ok = lg_take_ok [OF assms(1,2) t]
  then obtain j where j: "j < lg_idx t node" "g = lg_struct tbl (node * 32768 + j)" using rg by (auto simp: lg_known_def)
  have "j < 32768" using j(1) ok assms(2) by (auto simp: lg_inv_def)
  let ?i = "node * 32768 + j"
  have i: "?i < unat LGPAGE_META_ENTS * MAX_NUMA" using assms(2) \<open>j < 32768\<close> by (simp add: page_consts)
  have "lgpage_to_addr tbl g = PAGE_BASE_ADDR + of_nat (?i * 2 ^ 21)" using lgpage_of_addr(2) [OF i assms(4)] j(2) by (simp add: lg_struct_def)
  then have "lgpage_to_addr tbl g + of_nat off - PAGE_BASE_ADDR = of_nat (?i * 2 ^ 21 + off)" by (simp add: algebra_simps)
  moreover have "unat (of_nat (?i * 2 ^ 21 + off) :: u64) = ?i * 2 ^ 21 + off"
    unfolding unat_of_nat using assms(2,4) \<open>j < 32768\<close> by (simp add: MAX_NUMA_def)
  moreover have "unat LGPAGE_NODE_ADDR_LEN = 32768 * 2 ^ 21" by (simp add: page_consts)
  ultimately have "unat (addr_to_numa_node (lgpage_to_addr tbl g + of_nat off)) = (?i * 2 ^ 21 + off) div (32768 * 2 ^ 21)"
    by (simp only: addr_to_numa_node_def unat_div)
  moreover have "(n * 32768 + k) * 2097152 + d = n * (32768 * 2097152) + (k * 2097152 + d)" for n k d :: nat by simp
  ultimately show ?thesis using \<open>j < 32768\<close> assms(4) by simp
qed

interpretation lgn: numa_pages "lgpage_alloc_on_node tbl" "\<lambda>s g. page_put_large tbl g s" "lgpage_to_addr tbl" "addr_to_lgpage tbl" "lg_inv tbl" in_use 2097152 for tbl
proof (rule numa_pages.intro, goal_cases)
  case (1 node)
  then show ?case using large.page_backend_axioms [of tbl node] by simp
next
  case (2 node p g p' off)
  then show ?case using lg_node_of_addr [of tbl p node g p' off] by simp
qed

end
