(* ===== verification/Page_Small.thy ===== *)
theory Page_Small
  imports Slab_Numa
begin

text \<open>
  Small pages (\<^verbatim>\<open>libos/mm/page.c\<close>): a slab cuts large pages into 4 KB pages behind the structures of these, which take
  the first 32 KB of the large page. What a slab relies on of large pages holds of the small ones too, so slabs of
  small items stand on a slab of pages. Only the remote path is modelled: the one that \<^verbatim>\<open>smpage_alloc_on_node\<close> and
  \<^verbatim>\<open>smpage_free\<close> take before \<^verbatim>\<open>thread_init_done\<close> and for a node that is not the one the caller runs on. On its own node a thread goes
  through the cache \<^verbatim>\<open>smpage_pt\<close>, which is not modelled here.
\<close>

section \<open>Operations\<close>

definition SLAB_FLAG_PAGES :: u32 where "SLAB_FLAG_PAGES = 4"

record smpage_sys =
  smpage_slab :: "lgpage_sys slab"
  sm_pages :: "addr \<Rightarrow> page"
  large_pages :: lgpage_sys

text \<open>\<^verbatim>\<open>slab_init\<close> sets up the slab of small pages.\<close>

definition smpage_init :: "lgpage_sys \<Rightarrow> smpage_sys" where
  "smpage_init p =
     \<lparr>smpage_slab = slab_early_create ''smpage'' (unat PGSIZE_4KB) (unat SMPAGE_META_LEN) (SLAB_FLAG_LGPAGE OR SLAB_FLAG_PAGES)
        (unat ((PGSIZE_2MB - SMPAGE_META_LEN) div PGSIZE_4KB)) p,
      sm_pages = (\<lambda>_. \<lparr>pg_flags = 0, pg_ref = 0, pg_paddr = 0\<rparr>), large_pages = p\<rparr>"

definition addr_to_pa :: "addr \<Rightarrow> lgpage_sys \<Rightarrow> addr \<Rightarrow> u64" where
  "addr_to_pa tbl p a = pg_paddr (pages p (addr_to_lgpage tbl a)) + PGOFF_2MB a"

definition smpage_alloc_remote :: "addr \<Rightarrow> nat \<Rightarrow> smpage_sys \<Rightarrow> (addr option \<times> smpage_sys) option" where
  "smpage_alloc_remote tbl node s =
     (case slab_alloc_on_node (lgpage_ops tbl) (smpage_slab s) node (large_pages s) of
        None \<Rightarrow> None
      | Some (a, sl, p) \<Rightarrow>
          let s = s\<lparr>smpage_slab := sl, large_pages := p\<rparr>
          in if a = NULL then Some (None, s)
             else let pg = addr_to_smpage a
                  in Some (Some pg, s\<lparr>sm_pages := (sm_pages s)(pg :=
                       \<lparr>pg_flags = PAGE_FLAG_IN_USE, pg_ref = kref_init (pg_ref (sm_pages s pg)), pg_paddr = addr_to_pa tbl p a\<rparr>)\<rparr>))"

definition smpage_free_remote :: "addr \<Rightarrow> addr \<Rightarrow> smpage_sys \<Rightarrow> smpage_sys option" where
  "smpage_free_remote tbl pg s =
     (let a = smpage_to_addr pg
      in if unat (addr_to_numa_node a) \<ge> MAX_NUMA then None
         else let s = s\<lparr>sm_pages := (sm_pages s)(pg := (sm_pages s pg)\<lparr>pg_flags := 0\<rparr>)\<rparr>
              in map_option (\<lambda>(sl, p). s\<lparr>smpage_slab := sl, large_pages := p\<rparr>)
                   (slab_free (lgpage_ops tbl) (smpage_slab s) a (large_pages s)))"

definition page_put_remote :: "addr \<Rightarrow> smpage_sys \<Rightarrow> addr \<Rightarrow> smpage_sys option" where
  "page_put_remote tbl s pg =
     (case kref_put (pg_ref (sm_pages s pg)) of (release, c) \<Rightarrow>
        let s = s\<lparr>sm_pages := (sm_pages s)(pg := (sm_pages s pg)\<lparr>pg_ref := c\<rparr>)\<rparr>
        in if release
           then if pg_flags (sm_pages s pg) AND PAGE_FLAG_LARGE \<noteq> 0 then None else smpage_free_remote tbl pg s
           else Some s)"

text \<open>The entry points, on the remote path: pages of either size, by structure and by address. A size that is not supported gives no page.\<close>

definition page_alloc_remote :: "addr \<Rightarrow> u64 \<Rightarrow> nat \<Rightarrow> smpage_sys \<Rightarrow> (addr option \<times> smpage_sys) option" where
  "page_alloc_remote tbl pgsize node s =
     (if pgsize = PGSIZE_4KB then smpage_alloc_remote tbl node s
      else if pgsize = PGSIZE_2MB
      then map_option (\<lambda>(pg, p). (pg, s\<lparr>large_pages := p\<rparr>)) (lgpage_alloc_on_node tbl node (large_pages s))
      else Some (None, s))"

definition page_to_addr :: "addr \<Rightarrow> u64 \<Rightarrow> addr \<Rightarrow> addr" where
  "page_to_addr tbl pgsize pg = (if pgsize = PGSIZE_2MB then lgpage_to_addr tbl pg else smpage_to_addr pg)"

definition page_alloc_addr_remote :: "addr \<Rightarrow> u64 \<Rightarrow> nat \<Rightarrow> smpage_sys \<Rightarrow> (addr \<times> smpage_sys) option" where
  "page_alloc_addr_remote tbl pgsize node s =
     map_option (\<lambda>(pg, s). case pg of None \<Rightarrow> (NULL, s) | Some pg \<Rightarrow> (page_to_addr tbl pgsize pg, s)) (page_alloc_remote tbl pgsize node s)"

section \<open>Invariant\<close>

definition sm_live :: "addr \<Rightarrow> smpage_sys \<Rightarrow> addr set" where
  "sm_live tbl s = addr_to_smpage ` lgn.sout tbl (smpage_slab s)"

definition sm_inv :: "addr \<Rightarrow> smpage_sys \<Rightarrow> bool" where
  "sm_inv tbl s \<longleftrightarrow> lgn.snv tbl (smpage_slab s) (large_pages s) \<and>
     (\<forall>i < MAX_NUMA. sn_size (sl_nodes (smpage_slab s) ! i) = 4096 \<and> sn_offset (sl_nodes (smpage_slab s) ! i) = 32768) \<and>
     (\<forall>g \<in> sm_live tbl s. pg_ref (sm_pages s g) = 1 \<and> pg_flags (sm_pages s g) AND PAGE_FLAG_LARGE = 0)"

text \<open>Inside an aligned 4 KB page.\<close>

lemma small_page_of:
  assumes "4096 dvd unat a" "off < 4096"
  shows "unat (a + of_nat off) = unat a + off" "addr_to_smpage (a + of_nat off) = addr_to_smpage a" "smpage_to_addr (addr_to_smpage a) = a"
proof -
  obtain q where q: "unat a = 4096 * q" using assms(1) by auto
  have "4096 * q < 4096 * 2 ^ 52" using unat_bound [of a] q by simp
  then have "q + 1 \<le> 2 ^ 52" by simp
  then have "4096 * (q + 1) \<le> 4096 * 2 ^ 52" by (rule mult_le_mono2)
  then have "unat a + off < 2 ^ 64" using q assms(2) by simp
  then show u: "unat (a + of_nat off) = unat a + off" by (rule unat_mult_add)
  have d: "(unat a + off) div 2 ^ 21 = unat a div 2 ^ 21" "(unat a + off) mod 2 ^ 21 div 2 ^ 12 = unat a mod 2 ^ 21 div 2 ^ 12"
  proof -
    have n: "(n + off) div 4096 = n div 4096" if "4096 dvd n" for n :: nat using that assms(2) by auto
    have "(unat a + off) div 4096 div 512 = unat a div 4096 div 512" by (simp only: n [OF assms(1)])
    then show e: "(unat a + off) div 2 ^ 21 = unat a div 2 ^ 21" by (simp add: div_mult2_eq [symmetric])
    have "n mod 2097152 div 4096 = n div 4096 mod 512" for n :: nat
      using mod_mult2_eq [of n 4096 512] by simp
    then show "(unat a + off) mod 2 ^ 21 div 2 ^ 12 = unat a mod 2 ^ 21 div 2 ^ 12" using n [OF assms(1)] by simp
  qed
  have "PGADDR_2MB (a + of_nat off) = PGADDR_2MB a" by (rule word_unat_eq_iff [THEN iffD2]) (simp only: unat_PGADDR u d)
  moreover have "PGN (a + of_nat off) = PGN a" by (rule word_unat_eq_iff [THEN iffD2]) (simp only: unat_PGN u d)
  ultimately show "addr_to_smpage (a + of_nat off) = addr_to_smpage a" by (simp add: addr_to_smpage_def)
  have "unat (a AND NOT (PGSIZE_4KB - 1)) = unat a" using and_not_mask [of 12 a] assms(1) by (simp add: PGSIZE_4KB_def)
  then show "smpage_to_addr (addr_to_smpage a) = a" using smpage_start [of a] by (simp add: word_unat_eq_iff)
qed

lemma lg_addr_aligned:
  assumes "lg_inv tbl s" "g \<in> in_use s" "off < 2 ^ 21" "4096 dvd off"
  shows "4096 dvd unat (lgpage_to_addr tbl g + of_nat off)"
proof -
  obtain node j where n: "node < MAX_NUMA" "j < lg_idx s node" "g = lg_struct tbl (node * 32768 + j)"
    using assms(1,2) by (auto simp: lg_inv_def lg_known_def)
  let ?i = "node * 32768 + j"
  have "j < 32768" using n assms(1) by (auto simp: lg_inv_def)
  then have i: "?i < unat LGPAGE_META_ENTS * MAX_NUMA" using n(1) by (simp add: page_consts)
  have "lgpage_to_addr tbl g = PAGE_BASE_ADDR + of_nat (?i * 2 ^ 21)" using lgpage_of_addr(2) [OF i assms(3)] n(3) by (simp add: lg_struct_def)
  then have a: "lgpage_to_addr tbl g + of_nat off = PAGE_BASE_ADDR + of_nat (?i * 2 ^ 21 + off)" by (simp add: algebra_simps)
  have "unat (lgpage_to_addr tbl g + of_nat off) = unat PAGE_BASE_ADDR + (?i * 2 ^ 21 + off)"
    unfolding a by (rule unat_mult_add) (use i assms(3) in \<open>simp add: page_consts\<close>)
  moreover have "4096 dvd (i * 2 ^ 21 :: nat)" for i by simp
  moreover have "4096 dvd unat PAGE_BASE_ADDR" by (simp add: page_consts)
  ultimately show ?thesis using assms(4) by (metis dvd_add)
qed

lemma lgn_ops: "lgn.nops tbl = lgpage_ops tbl"
  by (simp add: lgn.nops_def lgpage_ops_def fun_eq_iff page_consts)

text \<open>The addresses of small pages.\<close>

lemma sm_item:
  assumes "sm_inv tbl s" "a \<in> lgn.sout tbl (smpage_slab s)"
  shows "4096 dvd unat a" "a \<noteq> NULL"
    "\<exists>i < MAX_NUMA. a \<in> slab_out (lgpage_to_addr tbl) (sl_nodes (smpage_slab s) ! i) \<and> (\<forall>off < 4096. unat (addr_to_numa_node (a + of_nat off)) = i)"
proof -
  let ?s = "smpage_slab s" and ?p = "large_pages s" and ?pa = "lgpage_to_addr tbl"
  have sv: "lgn.snv tbl ?s ?p" using assms(1) by (simp add: sm_inv_def)
  obtain i where i: "i < MAX_NUMA" "a \<in> slab_out ?pa (sl_nodes ?s ! i)" using assms(2) by (auto simp: lgn.sout_def)
  define n where "n = (sl_nodes ?s ! i)\<lparr>backing := ?p\<rparr>"
  have n: "lgn.node0.ninv tbl n" "\<And>g. g \<in> all_pages n \<Longrightarrow> lgn.home tbl i g" using sv i(1) by (auto simp: lgn.snv_def n_def)
  have sz: "sn_size n = 4096" "sn_offset n = 32768" using assms(1) i(1) by (simp_all add: sm_inv_def n_def)
  have an: "a \<in> slab_out ?pa n" using i(2) by (simp add: n_def)
  obtain g k where g: "g \<in> all_pages n" "k < cut n g" "a = slab_item ?pa n g k" using an by (auto simp: slab_out_def page_out_def)
  then have k: "k < nr_elems n" using lgn.node0.cut_le [OF n(1) g(1)] by simp
  have le: "32768 + nr_elems n * 4096 \<le> 2097152" using n(1) unfolding lgn.node0.ninv_def slab_ok_def slab_geometry_def sz by blast
  have a: "a = ?pa g + of_nat (32768 + k * 4096)" unfolding g(3) slab_item_def sz ..
  have "g \<in> in_use ?p" using n(1) g(1) by (auto simp: lgn.node0.ninv_def n_def)
  moreover have "lg_inv tbl ?p" using n(1) by (simp add: lgn.node0.ninv_def n_def)
  ultimately show "4096 dvd unat a" unfolding a by (intro lg_addr_aligned) (use k le in simp_all)
  show "a \<noteq> NULL" using lgn.node0.page_out_page [OF n(1) g(1), of a] lgn.node0.slab_item_page(2) [OF n(1) g(1) k] g(3) by simp
  have "unat (addr_to_numa_node (a + of_nat off)) = i" if "off < 4096" for off
  proof -
    have "a + of_nat off = ?pa g + of_nat (32768 + k * 4096 + off)" unfolding a by (simp add: algebra_simps)
    moreover have "32768 + k * 4096 + off < 2097152" using le k that by simp
    ultimately show ?thesis using n(2) [OF g(1)] unfolding lgn.home_def by metis
  qed
  then show "\<exists>i < MAX_NUMA. a \<in> slab_out ?pa (sl_nodes ?s ! i) \<and> (\<forall>off < 4096. unat (addr_to_numa_node (a + of_nat off)) = i)" using i by blast
qed

lemma sm_addr: "sm_inv tbl s \<Longrightarrow> a \<in> lgn.sout tbl (smpage_slab s) \<Longrightarrow> smpage_to_addr (addr_to_smpage a) = a"
  using small_page_of(3) [OF sm_item(1), of tbl s a 0] by simp

lemma sm_inv_slab:
  assumes "sm_inv tbl s" "lgn.snv tbl sl p" "\<And>i. i < MAX_NUMA \<Longrightarrow> sn_size (sl_nodes sl ! i) = sn_size (sl_nodes (smpage_slab s) ! i)"
    "\<And>i. i < MAX_NUMA \<Longrightarrow> sn_offset (sl_nodes sl ! i) = sn_offset (sl_nodes (smpage_slab s) ! i)"
    "\<And>a. a \<in> lgn.sout tbl sl \<Longrightarrow> pg_ref (f (addr_to_smpage a)) = 1 \<and> pg_flags (f (addr_to_smpage a)) AND PAGE_FLAG_LARGE = 0"
  shows "sm_inv tbl (s\<lparr>smpage_slab := sl, large_pages := p, sm_pages := f\<rparr>)"
  using assms by (auto simp: sm_inv_def sm_live_def)

lemma smpage_alloc_ok:
  assumes s: "sm_inv tbl s" and n: "node < MAX_NUMA"
  shows "\<exists>r s'. smpage_alloc_remote tbl node s = Some (r, s') \<and> sm_inv tbl s' \<and>
    (case r of
       None \<Rightarrow> sm_live tbl s' = sm_live tbl s
     | Some g \<Rightarrow> g \<notin> sm_live tbl s \<and> sm_live tbl s' = insert g (sm_live tbl s) \<and>
         (\<forall>off < 4096. unat (addr_to_numa_node (smpage_to_addr g + of_nat off)) = node))"
proof -
  let ?s = "smpage_slab s" and ?p = "large_pages s"
  have sv: "lgn.snv tbl ?s ?p" and l: "length (sl_nodes ?s) = MAX_NUMA" using s by (auto simp: sm_inv_def lgn.snv_def)
  obtain a sl p where a: "slab_alloc_on_node (lgpage_ops tbl) ?s node ?p = Some (a, sl, p)" "lgn.snv tbl sl p"
    "if a = NULL then lgn.sout tbl sl = lgn.sout tbl ?s
     else a \<notin> lgn.sout tbl ?s \<and> lgn.sout tbl sl = insert a (lgn.sout tbl ?s) \<and> unat (addr_to_numa_node a) = node"
    using lgn.slab_alloc_ok [OF sv n] unfolding lgn_ops by blast
  note sz = slab_alloc_nodes [OF a(1), unfolded l]
  show ?thesis
  proof (cases "a = NULL")
    case True
    have "sm_inv tbl (s\<lparr>smpage_slab := sl, large_pages := p, sm_pages := sm_pages s\<rparr>)"
      by (rule sm_inv_slab [OF s a(2) sz]) (use s a(3) True in \<open>auto simp: sm_inv_def sm_live_def\<close>)
    then show ?thesis using a True by (auto simp: smpage_alloc_remote_def Let_def sm_live_def)
  next
    case False
    then have o: "a \<notin> lgn.sout tbl ?s" "lgn.sout tbl sl = insert a (lgn.sout tbl ?s)" "unat (addr_to_numa_node a) = node" using a(3) by auto
    define g k where "g = addr_to_smpage a" and "k = \<lparr>pg_flags = PAGE_FLAG_IN_USE, pg_ref = kref_init (pg_ref (sm_pages s g)), pg_paddr = addr_to_pa tbl p a\<rparr>"
    let ?t = "s\<lparr>smpage_slab := sl, large_pages := p, sm_pages := (sm_pages s)(g := k)\<rparr>"
    have "pg_ref k = 1 \<and> pg_flags k AND PAGE_FLAG_LARGE = 0" by (simp add: k_def kref_init_def PAGE_FLAG_IN_USE_def PAGE_FLAG_LARGE_def)
    then have t: "sm_inv tbl ?t"
      by (intro sm_inv_slab [OF s a(2) sz]) (use s o(2) in \<open>auto simp: sm_inv_def sm_live_def g_def\<close>)
    have ga: "smpage_to_addr g = a" using sm_addr [OF t, of a] o(2) by (simp add: g_def)
    have "g \<notin> sm_live tbl s" using sm_addr [OF s] ga o(1) by (auto simp: sm_live_def)
    moreover have "sm_live tbl ?t = insert g (sm_live tbl s)" using o(2) by (simp add: sm_live_def g_def)
    moreover have "\<forall>off < 4096. unat (addr_to_numa_node (smpage_to_addr g + of_nat off)) = node"
    proof -
      obtain i where i: "\<forall>off < 4096. unat (addr_to_numa_node (a + of_nat off)) = i" using sm_item(3) [OF t, of a] o(2) by auto
      then have "i = node" using o(3) spec [OF i, of 0] by simp
      then show ?thesis using i unfolding ga by simp
    qed
    moreover have "smpage_alloc_remote tbl node s = Some (Some g, ?t)"
      using a(1) False by (simp add: smpage_alloc_remote_def Let_def g_def k_def)
    ultimately show ?thesis using t by auto
  qed
qed

lemma smpage_put_ok:
  assumes s: "sm_inv tbl s" and g: "g \<in> sm_live tbl s"
  shows "\<exists>s'. page_put_remote tbl s g = Some s' \<and> sm_inv tbl s' \<and> sm_live tbl s' = sm_live tbl s - {g}"
proof -
  let ?s = "smpage_slab s" and ?p = "large_pages s"
  have sv: "lgn.snv tbl ?s ?p" and l: "length (sl_nodes ?s) = MAX_NUMA" using s by (auto simp: sm_inv_def lgn.snv_def)
  obtain a where a: "a \<in> lgn.sout tbl ?s" "g = addr_to_smpage a" using g by (auto simp: sm_live_def)
  have ga: "smpage_to_addr g = a" using sm_addr [OF s a(1)] a(2) by simp
  have k: "pg_ref (sm_pages s g) = 1" "pg_flags (sm_pages s g) AND PAGE_FLAG_LARGE = 0" using s g by (auto simp: sm_inv_def)
  obtain i where i: "i < MAX_NUMA" "\<forall>off < 4096. unat (addr_to_numa_node (a + of_nat off)) = i" using sm_item(3) [OF s a(1)] by blast
  then have nd: "unat (addr_to_numa_node a) < MAX_NUMA" using spec [OF i(2), of 0] by simp
  obtain sl p where f: "slab_free (lgpage_ops tbl) ?s a ?p = Some (sl, p)" "lgn.snv tbl sl p" "lgn.sout tbl sl = lgn.sout tbl ?s - {a}"
    using lgn.slab_free_ok [OF sv a(1)] unfolding lgn_ops by blast
  note sz = slab_free_nodes [OF f(1), unfolded l]
  let ?k = "(sm_pages s g)\<lparr>pg_ref := 0, pg_flags := 0\<rparr>"
  let ?t = "s\<lparr>smpage_slab := sl, large_pages := p, sm_pages := (sm_pages s)(g := ?k)\<rparr>"
  have inj: "addr_to_smpage b \<noteq> g" if "b \<in> lgn.sout tbl ?s" "b \<noteq> a" for b using sm_addr [OF s that(1)] ga that(2) by auto
  have "sm_inv tbl ?t"
    by (rule sm_inv_slab [OF s f(2) sz]) (use s f(3) inj in \<open>auto simp: sm_inv_def sm_live_def\<close>)
  moreover have "sm_live tbl ?t = sm_live tbl s - {g}" using f(3) inj a by (auto simp: sm_live_def)
  moreover have "page_put_remote tbl s g = Some ?t"
    using k f(1) nd by (simp add: page_put_remote_def kref_put_def smpage_free_remote_def Let_def ga)
  ultimately show ?thesis by blast
qed

interpretation smn: numa_pages "smpage_alloc_remote tbl" "page_put_remote tbl" smpage_to_addr addr_to_smpage "sm_inv tbl" "sm_live tbl" 4096 for tbl
proof (rule numa_pages.intro, goal_cases)
  case (1 node)
  note nd = 1
  show ?case
  proof (rule page_backend.intro, goal_cases)
    case (1 p)
    then show ?case using smpage_alloc_ok [of tbl p node] nd by blast
  next
    case (2 p g p')
    then show ?case using smpage_alloc_ok [of tbl p node] nd by auto
  next
    case (3 p p')
    then show ?case using smpage_alloc_ok [of tbl p node] nd by auto
  next
    case (4 p g)
    then show ?case using smpage_put_ok [of tbl p g] by blast
  next
    case (5 p g off)
    then obtain a where a: "a \<in> lgn.sout tbl (smpage_slab p)" "g = addr_to_smpage a" by (auto simp: sm_live_def)
    note al = sm_item(1,2) [OF 5(1) a(1)]
    note po = small_page_of [OF al(1) 5(3)]
    have "0 < unat a" using al(2) by (simp add: unat_gt_0)
    then have "a + of_nat off \<noteq> NULL" using po(1) by (metis add_is_0 less_irrefl unsigned_0)
    then show ?case using po(2,3) a(2) by simp
  qed simp
next
  case (2 node p g p' off)
  then show ?case using smpage_alloc_ok [of tbl p node] by auto
qed

text \<open>A page of either size is a new one, lies on the node asked for, and leaves the small pages in use alone.\<close>

lemma page_alloc_ok:
  assumes s: "sm_inv tbl s" and n: "node < MAX_NUMA"
  shows "\<exists>a s'. page_alloc_addr_remote tbl pgsize node s = Some (a, s') \<and> sm_inv tbl s' \<and> sm_live tbl s \<subseteq> sm_live tbl s' \<and>
    (a \<noteq> NULL \<longrightarrow> unat (addr_to_numa_node a) = node)"
proof -
  consider (small) "pgsize = PGSIZE_4KB" | (large) "pgsize = PGSIZE_2MB" "pgsize \<noteq> PGSIZE_4KB" | (other) "pgsize \<noteq> PGSIZE_4KB" "pgsize \<noteq> PGSIZE_2MB" by blast
  then show ?thesis
  proof cases
    case small
    obtain r s' where r: "smpage_alloc_remote tbl node s = Some (r, s')" "sm_inv tbl s'"
      "case r of None \<Rightarrow> sm_live tbl s' = sm_live tbl s
       | Some g \<Rightarrow> g \<notin> sm_live tbl s \<and> sm_live tbl s' = insert g (sm_live tbl s) \<and>
           (\<forall>off < 4096. unat (addr_to_numa_node (smpage_to_addr g + of_nat off)) = node)"
      using smpage_alloc_ok [OF s n] by blast
    have "PGSIZE_4KB \<noteq> PGSIZE_2MB" by (simp add: page_consts)
    then show ?thesis using small r by (cases r) (auto simp: page_alloc_addr_remote_def page_alloc_remote_def page_to_addr_def dest: spec [of _ 0])
  next
    case large
    have sv: "lgn.snv tbl (smpage_slab s) (large_pages s)" and lg: "lg_inv tbl (large_pages s)" using s by (auto simp: sm_inv_def lgn.snv_def)
    obtain r p where r: "lgpage_alloc_on_node tbl node (large_pages s) = Some (r, p)" "lg_inv tbl p" "in_use (large_pages s) \<subseteq> in_use p"
      using lg_alloc_ok [OF lg n] by (auto split: option.splits)
    have "lgn.snv tbl (smpage_slab s) p"
      by (rule lgn.snv_frame [OF sv r(2)]) (use sv r(3) in \<open>auto simp: lgn.snv_def lgn.ninv_at\<close>)
    then have "sm_inv tbl (s\<lparr>large_pages := p\<rparr>)" "sm_live tbl (s\<lparr>large_pages := p\<rparr>) = sm_live tbl s" using s by (auto simp: sm_inv_def sm_live_def)
    moreover have "unat (addr_to_numa_node (lgpage_to_addr tbl g)) = node" if "r = Some g" for g
      using lg_node_of_addr [OF lg n, of g p 0] r(1) that by simp
    ultimately show ?thesis using large r(1) by (cases r) (auto simp: page_alloc_addr_remote_def page_alloc_remote_def page_to_addr_def)
  next
    case other
    then show ?thesis using s by (simp add: page_alloc_addr_remote_def page_alloc_remote_def)
  qed
qed

section \<open>Slabs on small pages\<close>

definition smpage_ops :: "addr \<Rightarrow> nat \<Rightarrow> smpage_sys page_ops" where
  "smpage_ops tbl node =
     \<lparr>op_alloc = smpage_alloc_remote tbl node, op_put = page_put_remote tbl, op_addr = smpage_to_addr, op_page = addr_to_smpage,
      op_size = unat PGSIZE_4KB\<rparr>"

lemma smn_ops: "smn.nops tbl = smpage_ops tbl"
  by (simp add: smn.nops_def smpage_ops_def fun_eq_iff PGSIZE_4KB_def)

lemma smpage_init_ok:
  assumes "lg_inv tbl p"
  shows "sm_inv tbl (smpage_init p)"
proof -
  let ?sl = "slab_early_create ''smpage'' 4096 32768 (SLAB_FLAG_LGPAGE OR SLAB_FLAG_PAGES) 504 p"
  have "lgn.snv tbl ?sl p" "lgn.sout tbl ?sl = {}"
    by (rule lgn.early_create_ok; use assms in \<open>simp add: SLAB_PARTIAL_THRESH_def SLAB_CHUNK_SIZE_def\<close>)+
  moreover have "smpage_slab (smpage_init p) = ?sl" "large_pages (smpage_init p) = p" by (simp_all add: smpage_init_def page_consts)
  moreover have "sn_size (sl_nodes ?sl ! i) = 4096 \<and> sn_offset (sl_nodes ?sl ! i) = 32768" if "i < MAX_NUMA" for i
    using that by (simp add: slab_early_create_def slab_create_node_def)
  ultimately show ?thesis by (simp add: sm_inv_def sm_live_def)
qed

text \<open>Allocators on allocators: a slab of small items takes its pages from a slab that cuts large pages, each with its
  reference counts. Whatever items are allocated on any NUMA node and freed again, as long as the small pages come and go by the remote path, no assertion fails, an allocation
  gives an item of the node asked for that nobody holds, every held item can be freed, and held items do not share a
  byte.\<close>

theorem slab_on_small_pages_safe:
  assumes "slab_create sz flags = Some (sz', flags', nr)" "0 < sz" "unat sz \<le> 2 ^ 63" "flags' AND SLAB_FLAG_LGPAGE = 0" "lg_inv tbl p0"
    and "slab_reach (smpage_ops tbl) (slab_early_create nm (unat sz') 0 flags' (unat nr) (smpage_init p0)) (smpage_init p0) s p L"
  shows "(\<forall>node < MAX_NUMA. \<exists>x s' p'. slab_alloc_on_node (smpage_ops tbl) s node p = Some (x, s', p') \<and>
       (x \<noteq> NULL \<longrightarrow> x \<notin> L \<and> unat (addr_to_numa_node x) = node)) \<and>
     (\<forall>x \<in> L. \<exists>s' p'. slab_free (smpage_ops tbl) s x p = Some (s', p')) \<and>
     (\<forall>x \<in> L. \<forall>y \<in> L. x \<noteq> y \<longrightarrow> bytes x (unat sz') \<inter> bytes y (unat sz') = {})"
proof -
  let ?s0 = "slab_early_create nm (unat sz') 0 flags' (unat nr) (smpage_init p0)" and ?p0 = "smpage_init p0"
  note geo = slab_create_geometry [OF assms(1-3)]
  have s0: "smn.snv tbl ?s0 ?p0" "smn.sout ?s0 = {}"
    by (rule smn.early_create_ok; use geo assms(4) smpage_init_ok [OF assms(5)] in \<open>simp add: SLAB_PARTIAL_THRESH_def SLAB_CHUNK_SIZE_def page_consts\<close>)+
  have z0: "\<forall>i < MAX_NUMA. sn_size (sl_nodes ?s0 ! i) = unat sz'" by (simp add: slab_early_create_def slab_create_node_def)
  have r: "smn.snv tbl s p" "smn.sout s = L" "\<forall>i < MAX_NUMA. sn_size (sl_nodes s ! i) = unat sz'"
    using smn.reach_ok [OF assms(6) [folded smn_ops] s0 z0] by simp_all
  then show ?thesis
    using smn.slab_alloc_ok [OF r(1)] smn.slab_free_ok [OF r(1)] smn.slab_items_apart [OF r(1,3)] unfolding smn_ops by (metis (no_types, lifting))
qed

text \<open>Items of 100 bytes, before any page has been mapped; the system maps one page.\<close>

theorem slab_on_small_pages_safe_witness:
  "slab_create 100 0 = Some (128, 0, 32) \<and>
     (\<exists>x s' p'. slab_alloc_on_node (smpage_ops 0x5000)
        (slab_early_create [] 128 0 0 32 (smpage_init \<lparr>lg_idx = (\<lambda>_. 0), lg_pages = (\<lambda>_. []), pages = (\<lambda>_. \<lparr>pg_flags = 0, pg_ref = 0, pg_paddr = 0\<rparr>),
           os_page = (\<lambda>i. if i = 0 then Some 0 else None), os_count = 0\<rparr>)) 1
        (smpage_init \<lparr>lg_idx = (\<lambda>_. 0), lg_pages = (\<lambda>_. []), pages = (\<lambda>_. \<lparr>pg_flags = 0, pg_ref = 0, pg_paddr = 0\<rparr>),
           os_page = (\<lambda>i. if i = 0 then Some 0 else None), os_count = 0\<rparr>) = Some (x, s', p') \<and> (x \<noteq> NULL \<longrightarrow> unat (addr_to_numa_node x) = 1))"
proof -
  let ?p = "\<lparr>lg_idx = (\<lambda>_. 0), lg_pages = (\<lambda>_. []), pages = (\<lambda>_. \<lparr>pg_flags = 0, pg_ref = 0, pg_paddr = 0\<rparr>),
        os_page = (\<lambda>i. if i = 0 then Some 0 else None), os_count = 0\<rparr> :: lgpage_sys"
  have c: "slab_create 100 0 = Some (128, 0, 32)"
    by (simp add: slab_create_def Let_def align_up_def SLAB_4KB_LIMIT_def SLAB_2MB_LIMIT_def SLAB_PARTIAL_THRESH_def SLAB_CHUNK_SIZE_def
        SLAB_FLAG_LGPAGE_def SLAB_FLAG_FALSE_OKAY_def page_consts align_down_def)
  have p: "lg_inv 0x5000 ?p" by (simp add: lg_inv_def in_use_def)
  have n: "(1 :: nat) < MAX_NUMA" by (simp add: MAX_NUMA_def)
  note safe = slab_on_small_pages_safe [OF c _ _ _ p slab_reach.start, where nm = "[]"]
  then have "\<forall>node < MAX_NUMA. \<exists>x s' p'. slab_alloc_on_node (smpage_ops 0x5000) (slab_early_create [] (unat (128 :: u64)) 0 0 (unat (32 :: u64)) (smpage_init ?p)) node (smpage_init ?p) = Some (x, s', p') \<and>
       (x \<noteq> NULL \<longrightarrow> x \<notin> {} \<and> unat (addr_to_numa_node x) = node)" by simp
  then show ?thesis using n c by simp
qed

end
