(* ===== verification/Smalloc.thy ===== *)
theory Smalloc
  imports Tcache
begin

text \<open>
  The general allocator (\<^verbatim>\<open>libos/mm/smalloc.c\<close>): fifteen size classes, each a magazine cache over a slab. The state is
  the cache of each class. An index outside of the array of caches is a fault (\<open>None\<close>). The size that \<^verbatim>\<open>sfree\<close> reads
  from the slab node of the page of the item is an argument.
\<close>

section \<open>Operations\<close>

definition SMALLOC_BITS :: nat where "SMALLOC_BITS = 15"
definition SMALLOC_MIN_SIZE :: u64 where "SMALLOC_MIN_SIZE = 16"
definition SMALLOC_MAX_SIZE :: u64 where "SMALLOC_MAX_SIZE = push_bit (SMALLOC_BITS - 1) SMALLOC_MIN_SIZE"

text \<open>The number of leading and of trailing zero bits.\<close>

definition clzl :: "u64 \<Rightarrow> nat" where
  "clzl x = length (takeWhile (\<lambda>i. \<not> bit x i) (rev [0..<64]))"

definition ctz :: "u64 \<Rightarrow> nat" where
  "ctz x = length (takeWhile (\<lambda>i. \<not> bit x i) [0..<64])"

definition smalloc_size_to_idx :: "u64 \<Rightarrow> nat" where
  "smalloc_size_to_idx sz = 64 - ctz SMALLOC_MIN_SIZE - clzl ((sz - 1) OR SMALLOC_MIN_SIZE)"

definition smalloc :: "(nat \<Rightarrow> 'p tcache_sys) \<Rightarrow> nat \<Rightarrow> u64 \<Rightarrow> (addr \<times> (nat \<Rightarrow> 'p tcache_sys)) option" where
  "smalloc s cpu sz =
     (if sz > SMALLOC_MAX_SIZE then Some (NULL, s)
      else let i = smalloc_size_to_idx sz
           in if i \<ge> SMALLOC_BITS then None
              else map_option (\<lambda>(item, t). (item, s(i := t))) (tcache_alloc (s i) cpu))"

definition sfree :: "(nat \<Rightarrow> 'p tcache_sys) \<Rightarrow> nat \<Rightarrow> addr \<Rightarrow> u64 \<Rightarrow> (nat \<Rightarrow> 'p tcache_sys) option" where
  "sfree s cpu item sz =
     (let i = smalloc_size_to_idx sz
      in if i \<ge> SMALLOC_BITS then None else Some (s(i := tcache_free (s i) cpu item)))"

text \<open>\<^verbatim>\<open>smalloc_init\<close>: the size of the items of each class.\<close>

definition class_size :: "nat \<Rightarrow> u64" where
  "class_size i = push_bit i SMALLOC_MIN_SIZE"

section \<open>Size classes\<close>

lemma or_nat_less: "m < 2 ^ n \<Longrightarrow> k < 2 ^ n \<Longrightarrow> (m OR k :: nat) < 2 ^ n"
  by (metis take_bit_nat_eq_self_iff take_bit_or)

lemma or_nat_ge: "m \<le> (m OR k :: nat)" "k \<le> (m OR k :: nat)"
proof -
  show 1: "a \<le> (a OR b :: nat)" for a b
  proof -
    have "int a \<le> (int a OR int b)" by (rule or_greater_eq) simp
    also have "\<dots> = int (a OR b)" by (simp add: of_nat_or_eq)
    finally show ?thesis by simp
  qed
  show "k \<le> (m OR k :: nat)" using 1 [of k m] by (simp add: or.commute)
qed

lemma clzl_range:
  assumes "2 ^ k \<le> unat x" "unat x < 2 ^ (k + 1)"
  shows "clzl x = 63 - k"
proof -
  have nb: "bit x i \<longleftrightarrow> bit (unat x) i" for i by (simp add: bit_unsigned_iff bit_imp_le_length)
  have k: "k < 64"
  proof (rule ccontr)
    assume "\<not> k < 64"
    then have "(2 :: nat) ^ 64 \<le> 2 ^ k" by (intro power_increasing) simp_all
    moreover have "unat x < 2 ^ LENGTH(64)" by (rule unsigned_less)
    ultimately show False using assms(1) by simp
  qed
  have "unat x div 2 ^ k = 1" using assms by (intro div_nat_eqI) simp_all
  then have b: "bit x k" unfolding nb by (simp add: bit_iff_odd)
  have z: "\<not> bit x i" if "k < i" for i
  proof -
    have "(2 :: nat) ^ (k + 1) \<le> 2 ^ i" using that by (intro power_increasing) simp_all
    then have "unat x div 2 ^ i = 0" using assms(2) by simp
    then show ?thesis unfolding nb by (simp add: bit_iff_odd)
  qed
  have "rev [0..<64] = rev [Suc k..<64] @ k # rev [0..<k]"
  proof -
    have "[0..<k + (64 - k)] = [0..<k] @ [k..<k + (64 - k)]" by (rule upt_add_eq_append) simp
    then have "[0..<64] = [0..<k] @ [k..<64]" using k by simp
    also have "[k..<64] = k # [Suc k..<64]" using k by (simp add: upt_conv_Cons)
    finally show ?thesis by simp
  qed
  moreover have "takeWhile (\<lambda>i. \<not> bit x i) (rev [Suc k..<64] @ k # rev [0..<k]) = rev [Suc k..<64] @ takeWhile (\<lambda>i. \<not> bit x i) (k # rev [0..<k])"
    by (rule takeWhile_append2) (use z in auto)
  ultimately have "takeWhile (\<lambda>i. \<not> bit x i) (rev [0..<64]) = rev [Suc k..<64]" using b by simp
  then show ?thesis by (simp add: clzl_def)
qed

lemma ctz_min: "ctz SMALLOC_MIN_SIZE = 4"
  by (simp add: ctz_def SMALLOC_MIN_SIZE_def upt_rec bit_numeral_rec)

lemma or_16_range:
  assumes "0 < x" "unat (x - 1) < 2 ^ (k + 1)" "4 \<le> k" "k = 4 \<or> 2 ^ k \<le> unat (x - 1)" "k \<le> 17"
  shows "smalloc_size_to_idx x = k - 3"
proof -
  let ?y = "(x - 1) OR 16"
  have u: "unat ?y = (unat (x - 1) OR 16)" by (simp add: unsigned_or_eq)
  have "(16 :: nat) < 2 ^ (k + 1)"
  proof -
    have "(2 :: nat) ^ 5 \<le> 2 ^ (k + 1)" using assms(3) by (intro power_increasing) simp_all
    then show ?thesis by simp
  qed
  then have "unat ?y < 2 ^ (k + 1)" unfolding u using assms(2) or_nat_less by blast
  moreover have "2 ^ k \<le> unat ?y"
  proof (cases "k = 4")
    case True
    have "16 \<le> (unat (x - 1) OR 16)" by (rule or_nat_ge(2))
    then show ?thesis unfolding u True by simp
  next
    case False
    then have "2 ^ k \<le> unat (x - 1)" using assms(4) by simp
    also have "\<dots> \<le> (unat (x - 1) OR 16)" by (rule or_nat_ge(1))
    finally show ?thesis unfolding u .
  qed
  ultimately have "clzl ?y = 63 - k" by (intro clzl_range)
  then have "smalloc_size_to_idx x = 64 - 4 - (63 - k)" by (simp add: smalloc_size_to_idx_def ctz_min SMALLOC_MIN_SIZE_def [symmetric])
  then show ?thesis using assms(3,5) by simp
qed

lemma unat_class_size: "i < 15 \<Longrightarrow> unat (class_size i) = 2 ^ (i + 4)"
proof -
  assume i: "i < 15"
  have "(2 :: nat) ^ (i + 4) < 2 ^ 64" using i by (intro power_strict_increasing) simp_all
  moreover have "class_size i = of_nat (2 ^ (i + 4))" by (simp add: class_size_def SMALLOC_MIN_SIZE_def push_bit_eq_mult power_add)
  ultimately show ?thesis by (simp only: unat_of_nat) simp
qed

text \<open>The class of a size: the smallest one of at least 32 bytes that holds it, and the class of the size of its items.\<close>

lemma size_class:
  assumes "0 < sz" "sz \<le> SMALLOC_MAX_SIZE"
  defines "i \<equiv> smalloc_size_to_idx sz"
  shows "1 \<le> i" "i < SMALLOC_BITS" "sz \<le> class_size i" "i = 1 \<or> class_size (i - 1) < sz" "smalloc_size_to_idx (class_size i) = i"
proof -
  have max: "unat SMALLOC_MAX_SIZE = 262144" by (simp add: SMALLOC_MAX_SIZE_def SMALLOC_BITS_def SMALLOC_MIN_SIZE_def push_bit_eq_mult)
  have pos: "1 \<le> unat sz" using assms(1) by (simp add: word_less_nat_alt)
  have m1: "unat (x - 1) = unat x - 1" if "1 \<le> unat x" for x :: u64 using that by (simp add: unat_sub word_le_nat_alt)
  obtain k where k: "4 \<le> k" "k \<le> 17" "unat sz \<le> 2 ^ (k + 1)" "k = 4 \<or> 2 ^ k < unat sz"
  proof (cases "unat sz \<le> 32")
    case True
    then show ?thesis using that [of 4] by simp
  next
    case False
    then have "1 \<le> unat sz - 1" by simp
    then obtain k where k: "2 ^ k \<le> unat sz - 1" "unat sz - 1 < 2 ^ (k + 1)" using ex_power_ivl1 [of 2 "unat sz - 1"] by auto
    have "k \<ge> 5"
    proof (rule ccontr)
      assume "\<not> 5 \<le> k"
      then have "(2 :: nat) ^ (k + 1) \<le> 2 ^ 5" by (intro power_increasing) simp_all
      then show False using k(2) False by simp
    qed
    moreover have "k \<le> 17"
    proof (rule ccontr)
      assume "\<not> k \<le> 17"
      then have "(2 :: nat) ^ 18 \<le> 2 ^ k" by (intro power_increasing) simp_all
      moreover have "unat sz \<le> 262144" using assms(2) max by (simp add: word_le_nat_alt)
      ultimately show False using k(1) pos by simp
    qed
    ultimately show ?thesis using that [of k] k pos by simp
  qed
  have i: "i = k - 3" unfolding i_def by (rule or_16_range) (use assms(1) k m1 [OF pos] pos in auto)
  show "1 \<le> i" "i < SMALLOC_BITS" using i k by (simp_all add: SMALLOC_BITS_def)
  have c: "unat (class_size i) = 2 ^ (k + 1)" using unat_class_size [of i] i k(1,2) by (simp add: Suc_diff_le)
  show "sz \<le> class_size i" using k(3) c by (simp add: word_le_nat_alt)
  have "unat (class_size (i - 1)) = 2 ^ k" using unat_class_size [of "i - 1"] i k(1,2) by simp
  then show "i = 1 \<or> class_size (i - 1) < sz" using k(4) i by (auto simp: word_less_nat_alt)
  have "(2 :: nat) ^ k \<le> 2 ^ (k + 1) - 1" by simp
  then show "smalloc_size_to_idx (class_size i) = i"
    unfolding i by (intro or_16_range) (use c i k(1,2) m1 [of "class_size i"] in \<open>auto simp: word_less_nat_alt\<close>)
qed

section \<open>Properties\<close>

text \<open>C38: The size classes: every size from one byte to the largest class has a class of the array of caches, which is the class of 32
  bytes (number 1) or the first one above it that is large enough; the class of 16 bytes (number 0) is never used. A block that is freed goes to the
  cache it came from, since the class of its item size is the class of the request; and the next request of that size on the CPU gets it.\<close>

theorem smalloc_sfree_roundtrip:
  assumes "0 < sz" "sz \<le> SMALLOC_MAX_SIZE" "tc_inv ops pinv outst n (s (smalloc_size_to_idx sz)) L" "c < n" "x \<in> L"
  shows "1 \<le> smalloc_size_to_idx sz \<and> smalloc_size_to_idx sz < SMALLOC_BITS \<and> sz \<le> class_size (smalloc_size_to_idx sz) \<and>
    (smalloc_size_to_idx sz = 1 \<or> class_size (smalloc_size_to_idx sz - 1) < sz) \<and>
    (\<exists>s'. sfree s c x (class_size (smalloc_size_to_idx sz)) = Some s' \<and> map_option fst (smalloc s' c sz) = Some x)"
proof -
  let ?i = "smalloc_size_to_idx sz"
  note cl = size_class [OF assms(1,2)]
  have "map_option fst (tcache_alloc (tcache_free (s ?i) c x) c) = Some x" by (rule tcache_free_alloc [OF assms(3-5)])
  then have "map_option fst (smalloc (s(?i := tcache_free (s ?i) c x)) c sz) = Some x"
    using cl(2) assms(2) by (auto simp: smalloc_def Let_def not_less)
  then show ?thesis using cl by (simp add: sfree_def Let_def)
qed

text \<open>A cache of one-item magazines whose only item is held, as the class of 100 bytes.\<close>

theorem smalloc_sfree_roundtrip_witness:
  "\<exists>s'. sfree (\<lambda>_. \<lparr>tc = \<lparr>tc_name = [], tc_ops = \<lparr>alloc_op = (\<lambda>_ _ _. None), free_op = (\<lambda>_ _ _. None)\<rparr>, item_size = 128, mags_allocated = 1,
           mag_size = 1, shared_mags = NULL, tc_data = ()\<rparr>,
         ltc = (\<lambda>_. \<lparr>rounds = 0, capacity = 1, loaded = NULL, previous = NULL\<rparr>), hdr = (\<lambda>_. \<lparr>next_item = NULL, next_mag = NULL\<rparr>),
         mag_alloc = (\<lambda>_. 0), mag_free = (\<lambda>_. 0), pool_alloc = (\<lambda>_. 0), pool_free = (\<lambda>_. 0)\<rparr>) 0 4096 128 = Some s' \<and>
     map_option fst (smalloc s' 0 100) = Some 4096"
proof -
  let ?t = "\<lparr>tc = \<lparr>tc_name = [], tc_ops = \<lparr>alloc_op = (\<lambda>_ _ _. None), free_op = (\<lambda>_ _ _. None)\<rparr>, item_size = 128, mags_allocated = 1,
           mag_size = 1, shared_mags = NULL, tc_data = ()\<rparr>,
         ltc = (\<lambda>_. \<lparr>rounds = 0, capacity = 1, loaded = NULL, previous = NULL\<rparr>), hdr = (\<lambda>_. \<lparr>next_item = NULL, next_mag = NULL\<rparr>),
         mag_alloc = (\<lambda>_. 0), mag_free = (\<lambda>_. 0), pool_alloc = (\<lambda>_. 0), pool_free = (\<lambda>_. 0)\<rparr>"
  have "tc_at \<lparr>alloc_op = (\<lambda>_ _ _. None), free_op = (\<lambda>_ _ _. None)\<rparr> (\<lambda>_. True) (\<lambda>_. {4096}) 1 ?t {4096} [] (\<lambda>_. []) (\<lambda>_. [])"
    by (simp add: tc_at_def mags_ok_def ltc_ok_def cached_nil TCACHE_MAX_MAG_SIZE_def)
  then have i: "tc_inv \<lparr>alloc_op = (\<lambda>_ _ _. None), free_op = (\<lambda>_ _ _. None)\<rparr> (\<lambda>_. True) (\<lambda>_. {4096}) 1 ?t {4096}" unfolding tc_inv_def by blast
  have "smalloc_size_to_idx 100 = 6 - 3" by (rule or_16_range) simp_all
  moreover have "(100 :: u64) \<le> SMALLOC_MAX_SIZE" by (simp add: SMALLOC_MAX_SIZE_def SMALLOC_BITS_def SMALLOC_MIN_SIZE_def push_bit_eq_mult)
  ultimately show ?thesis
    using smalloc_sfree_roundtrip [where sz = 100 and s = "\<lambda>_. ?t", OF _ _ i] by (simp add: class_size_def SMALLOC_MIN_SIZE_def push_bit_eq_mult)
qed

end
