(* ===== verification/Mbuf.thy ===== *)
theory Mbuf
  imports Prelude
begin

text \<open>
  Packet buffers (\<^verbatim>\<open>net/mbuf.h\<close>, \<^verbatim>\<open>libos/net/mbuf.c\<close>): a window of data inside a backing buffer, with room before and
  behind it. The backing buffer is the list of its bytes, and the position of the data is its offset. The fields of an
  \<^verbatim>\<open>mbuf\<close> that belong to TCP are part of the record. Lengths are \<^verbatim>\<open>unsigned int\<close>: numbers below \<open>2 ^ 32\<close>, whose
  sums and differences wrap around. \<open>None\<close> is a failed \<^verbatim>\<open>BUG_ON\<close>, or a copy beyond the end of the buffer.
\<close>

section \<open>Data\<close>

definition MBUF_DEFAULT_LEN :: nat where "MBUF_DEFAULT_LEN = 2048"
definition MBUF_DEFAULT_HEADROOM :: nat where "MBUF_DEFAULT_HEADROOM = 128"

text \<open>The structure takes 104 bytes, which are rounded up to a cache line.\<close>

definition MBUF_RESERVED :: nat where "MBUF_RESERVED = 128"

text \<open>The functions that the sources install as \<^verbatim>\<open>release\<close>; that of UDP comes with \<^verbatim>\<open>release_data\<close>, the socket.\<close>

datatype mbuf_release = net_rx_release_mbuf | net_tx_release_mbuf | tcp_tx_release_mbuf | udp_tx_release_mbuf nat

record mbuf =
  m_head :: "u8 list"
  m_data :: nat
  m_len :: nat
  txflags :: u32
  network_off :: nat
  transport_off :: nat
  m_release :: mbuf_release
  m_timestamp :: u64
  seg_seq :: u32
  seg_end :: u32
  m_flags :: u8
  m_ref :: int

definition head_len :: "mbuf \<Rightarrow> nat" where
  "head_len m = length (m_head m)"

section \<open>Operations\<close>

text \<open>Sums and differences of \<^verbatim>\<open>unsigned int\<close>.\<close>

definition uint_add :: "nat \<Rightarrow> nat \<Rightarrow> nat" where "uint_add a b = unat (of_nat a + of_nat b :: u32)"
definition uint_sub :: "nat \<Rightarrow> nat \<Rightarrow> nat" where "uint_sub a b = unat (of_nat a - of_nat b :: u32)"

lemma uint_add_mod: "uint_add a b = (a + b) mod 2 ^ 32"
  by (simp add: uint_add_def unat_of_nat flip: of_nat_add)

lemma uint_add_small [simp]: "a + b < 2 ^ 32 \<Longrightarrow> uint_add a b = a + b"
  by (simp add: uint_add_mod)

lemma uint_sub_mod: "b \<le> a \<Longrightarrow> uint_sub a b = (a - b) mod 2 ^ 32"
  by (simp add: uint_sub_def unat_of_nat flip: of_nat_diff)

lemma uint_sub_small [simp]: "b \<le> a \<Longrightarrow> a < 2 ^ 32 \<Longrightarrow> uint_sub a b = a - b"
  by (simp add: uint_sub_mod)

lemma uint_sub_le: "b \<le> a \<Longrightarrow> uint_sub a b \<le> a - b"
  by (simp add: uint_sub_mod)

definition mbuf_pull_unchecked :: "mbuf \<Rightarrow> nat \<Rightarrow> mbuf" where
  "mbuf_pull_unchecked m len = m\<lparr>m_len := uint_sub (m_len m) len, m_data := m_data m + len\<rparr>"

definition mbuf_pull :: "mbuf \<Rightarrow> nat \<Rightarrow> mbuf option" where
  "mbuf_pull m len = (if len > m_len m then None else Some (mbuf_pull_unchecked m len))"

text \<open>The outer result tells whether the data was long enough.\<close>

definition mbuf_pull_or_null :: "mbuf \<Rightarrow> nat \<Rightarrow> mbuf option" where
  "mbuf_pull_or_null m len = (if m_len m \<ge> len then Some (mbuf_pull_unchecked m len) else None)"

definition mbuf_push :: "mbuf \<Rightarrow> nat \<Rightarrow> mbuf option" where
  "mbuf_push m len = (if m_data m < len then None else Some (m\<lparr>m_data := m_data m - len, m_len := uint_add (m_len m) len\<rparr>))"

definition mbuf_put :: "mbuf \<Rightarrow> nat \<Rightarrow> mbuf option" where
  "mbuf_put m len = (let m' = m\<lparr>m_len := uint_add (m_len m) len\<rparr> in if m_len m' > head_len m' then None else Some m')"

definition mbuf_trim :: "mbuf \<Rightarrow> nat \<Rightarrow> mbuf option" where
  "mbuf_trim m len = (if len > m_len m then None else Some (m\<lparr>m_len := uint_sub (m_len m) len\<rparr>))"

definition mbuf_reset :: "mbuf \<Rightarrow> nat \<Rightarrow> mbuf option" where
  "mbuf_reset m offset =
     (let total_len = uint_add (m_data m) (m_len m)
      in if offset > total_len then None else Some (m\<lparr>m_data := offset, m_len := uint_sub total_len offset\<rparr>))"

definition mbuf_headroom :: "mbuf \<Rightarrow> nat" where
  "mbuf_headroom m = m_data m"

definition mbuf_tailroom :: "mbuf \<Rightarrow> nat" where
  "mbuf_tailroom m = head_len m - m_data m - m_len m"

definition mbuf_length :: "mbuf \<Rightarrow> nat" where
  "mbuf_length m = m_len m"

text \<open>The bytes that \<^verbatim>\<open>mbuf_data\<close> points to.\<close>

definition mbuf_data :: "mbuf \<Rightarrow> u8 list" where
  "mbuf_data m = take (m_len m) (drop (m_data m) (m_head m))"

definition mbuf_mark_network_offset :: "mbuf \<Rightarrow> mbuf option" where
  "mbuf_mark_network_offset m = (if m_data m > 65535 then None else Some (m\<lparr>network_off := m_data m\<rparr>))"

definition mbuf_mark_transport_offset :: "mbuf \<Rightarrow> mbuf option" where
  "mbuf_mark_transport_offset m = (if m_data m > 65535 then None else Some (m\<lparr>transport_off := m_data m\<rparr>))"

definition mbuf_init :: "u8 list \<Rightarrow> nat \<Rightarrow> mbuf \<Rightarrow> mbuf option" where
  "mbuf_init head reserve_len m = (if reserve_len \<ge> length head then None else Some (m\<lparr>m_head := head, m_data := reserve_len, m_len := 0\<rparr>))"

text \<open>\<^verbatim>\<open>memcpy\<close> into the backing buffer.\<close>

definition mbuf_write :: "mbuf \<Rightarrow> nat \<Rightarrow> u8 list \<Rightarrow> mbuf option" where
  "mbuf_write m pos bs =
     (if pos + length bs > head_len m then None
      else Some (m\<lparr>m_head := take pos (m_head m) @ bs @ drop (pos + length bs) (m_head m)\<rparr>))"

text \<open>\<^verbatim>\<open>memcpy(mbuf_put(m, len), ...)\<close>, and \<^verbatim>\<open>mbuf_push_hdr\<close> followed by writing the header.\<close>

definition mbuf_put_bytes :: "mbuf \<Rightarrow> u8 list \<Rightarrow> mbuf option" where
  "mbuf_put_bytes m bs = Option.bind (mbuf_put m (length bs)) (\<lambda>m'. mbuf_write m' (m_data m + m_len m) bs)"

definition mbuf_push_bytes :: "mbuf \<Rightarrow> u8 list \<Rightarrow> mbuf option" where
  "mbuf_push_bytes m bs = Option.bind (mbuf_push m (length bs)) (\<lambda>m. mbuf_write m (m_data m) bs)"

definition mbuf_clone :: "mbuf \<Rightarrow> mbuf \<Rightarrow> mbuf option" where
  "mbuf_clone dst src =
     map_option (\<lambda>m. m\<lparr>txflags := txflags src\<rparr>) (mbuf_put_bytes (dst\<lparr>m_data := mbuf_headroom src\<rparr>) (mbuf_data src))"

section \<open>The data of a buffer\<close>

definition mbuf_ok :: "mbuf \<Rightarrow> bool" where
  "mbuf_ok m \<longleftrightarrow> m_data m + m_len m \<le> head_len m \<and> head_len m < 2 ^ 32"

lemma mbuf_data_length [simp]: "mbuf_ok m \<Longrightarrow> length (mbuf_data m) = m_len m"
  by (auto simp: mbuf_data_def mbuf_ok_def head_len_def)

lemma mbuf_data_nth: "mbuf_ok m \<Longrightarrow> i < m_len m \<Longrightarrow> mbuf_data m ! i = m_head m ! (m_data m + i)"
  by (simp add: mbuf_data_def mbuf_ok_def head_len_def)

lemma mbuf_pull_data:
  assumes "mbuf_ok m" "len \<le> m_len m"
  shows "mbuf_pull m len = Some (mbuf_pull_unchecked m len)" "mbuf_ok (mbuf_pull_unchecked m len)"
    "mbuf_data (mbuf_pull_unchecked m len) = drop len (mbuf_data m)"
  using assms by (auto simp: mbuf_pull_def mbuf_pull_unchecked_def mbuf_ok_def mbuf_data_def head_len_def drop_take add.commute)

lemma mbuf_trim_data:
  assumes "mbuf_ok m" "len \<le> m_len m"
  shows "mbuf_trim m len = Some (m\<lparr>m_len := m_len m - len\<rparr>)" "mbuf_ok (m\<lparr>m_len := m_len m - len\<rparr>)"
    "mbuf_data (m\<lparr>m_len := m_len m - len\<rparr>) = take (m_len m - len) (mbuf_data m)"
  using assms by (auto simp: mbuf_trim_def mbuf_ok_def mbuf_data_def head_len_def)

lemma mbuf_put_data:
  assumes "mbuf_ok m" "m_data m + m_len m + length bs \<le> head_len m"
  shows "\<exists>m'. mbuf_put_bytes m bs = Some m' \<and> mbuf_ok m' \<and> mbuf_data m' = mbuf_data m @ bs \<and> m_data m' = m_data m \<and> head_len m' = head_len m \<and>
    m' = m\<lparr>m_len := m_len m + length bs, m_head := m_head m'\<rparr>"
proof -
  let ?p = "m_data m + m_len m"
  let ?h = "take ?p (m_head m) @ bs @ drop (?p + length bs) (m_head m)"
  let ?m = "m\<lparr>m_len := m_len m + length bs, m_head := ?h\<rparr>"
  have "mbuf_put_bytes m bs = Some ?m"
    using assms by (auto simp: mbuf_put_bytes_def mbuf_put_def mbuf_write_def head_len_def mbuf_ok_def)
  moreover have "mbuf_data ?m = mbuf_data m @ bs"
  proof -
    have "length (take (m_len m) (drop (m_data m) (m_head m))) = m_len m" using assms by (simp add: mbuf_ok_def head_len_def)
    moreover have "drop (m_data m) ?h = take (m_len m) (drop (m_data m) (m_head m)) @ bs @ drop (?p + length bs) (m_head m)"
      using assms by (simp add: mbuf_ok_def head_len_def drop_take)
    ultimately show ?thesis by (simp add: mbuf_data_def)
  qed
  moreover have "head_len ?m = head_len m" using assms(2) by (simp add: head_len_def)
  ultimately show ?thesis using assms by (intro exI [of _ ?m]) (simp add: mbuf_ok_def)
qed

lemma mbuf_push_data:
  assumes "mbuf_ok m" "length bs \<le> m_data m"
  shows "\<exists>m'. mbuf_push_bytes m bs = Some m' \<and> mbuf_ok m' \<and> mbuf_data m' = bs @ mbuf_data m \<and> m_data m' = m_data m - length bs \<and> head_len m' = head_len m \<and>
    m' = m\<lparr>m_data := m_data m - length bs, m_len := m_len m + length bs, m_head := m_head m'\<rparr>"
proof -
  let ?p = "m_data m - length bs"
  let ?h = "take ?p (m_head m) @ bs @ drop (?p + length bs) (m_head m)"
  let ?m = "m\<lparr>m_data := ?p, m_len := m_len m + length bs, m_head := ?h\<rparr>"
  have "mbuf_push_bytes m bs = Some ?m"
    using assms by (auto simp: mbuf_push_bytes_def mbuf_push_def mbuf_write_def mbuf_ok_def head_len_def)
  moreover have "mbuf_data ?m = bs @ mbuf_data m"
    using assms by (auto simp: mbuf_data_def mbuf_ok_def head_len_def)
  moreover have "head_len ?m = head_len m" using assms by (auto simp: head_len_def mbuf_ok_def)
  ultimately show ?thesis using assms by (intro exI [of _ ?m]) (simp add: mbuf_ok_def)
qed

text \<open>Headers come off as they were put on, and so do trailers: after \<^verbatim>\<open>mbuf_push\<close> with a header the data is the header
  before the old data, and \<^verbatim>\<open>mbuf_pull\<close> of its length gives the old data back; the same at the end with \<^verbatim>\<open>mbuf_put\<close> and
  \<^verbatim>\<open>mbuf_trim\<close>. Neither leaves the buffer when the room before or behind the data is large enough.\<close>

theorem mbuf_push_pull_roundtrip:
  assumes "mbuf_ok m" "length hdr \<le> mbuf_headroom m" "length tail \<le> mbuf_tailroom m"
  shows "(\<exists>m1 m2. mbuf_push_bytes m hdr = Some m1 \<and> mbuf_data m1 = hdr @ mbuf_data m \<and>
       mbuf_pull m1 (length hdr) = Some m2 \<and> mbuf_ok m2 \<and> mbuf_data m2 = mbuf_data m \<and> m_data m2 = m_data m) \<and>
     (\<exists>m1 m2. mbuf_put_bytes m tail = Some m1 \<and> mbuf_data m1 = mbuf_data m @ tail \<and>
       mbuf_trim m1 (length tail) = Some m2 \<and> mbuf_ok m2 \<and> mbuf_data m2 = mbuf_data m \<and> m_data m2 = m_data m)"
proof
  obtain m1 where m1: "mbuf_push_bytes m hdr = Some m1" "mbuf_ok m1" "mbuf_data m1 = hdr @ mbuf_data m" "m_data m1 = m_data m - length hdr"
    using mbuf_push_data [OF assms(1), of hdr] assms(2) by (auto simp: mbuf_headroom_def)
  have "length (mbuf_data m1) = m_len m1" using m1(2) by simp
  then have "length hdr \<le> m_len m1" using m1(3) by simp
  then show "\<exists>m1 m2. mbuf_push_bytes m hdr = Some m1 \<and> mbuf_data m1 = hdr @ mbuf_data m \<and>
       mbuf_pull m1 (length hdr) = Some m2 \<and> mbuf_ok m2 \<and> mbuf_data m2 = mbuf_data m \<and> m_data m2 = m_data m"
    using m1 mbuf_pull_data [OF m1(2), of "length hdr"] assms(2) m1(4)
    by (intro exI [of _ m1] exI [of _ "mbuf_pull_unchecked m1 (length hdr)"]) (simp add: mbuf_headroom_def, simp add: mbuf_pull_unchecked_def)
  have room: "m_data m + m_len m + length tail \<le> head_len m" using assms by (auto simp: mbuf_tailroom_def mbuf_ok_def)
  obtain m1 where m1: "mbuf_put_bytes m tail = Some m1" "mbuf_ok m1" "mbuf_data m1 = mbuf_data m @ tail" "m_data m1 = m_data m"
    using mbuf_put_data [OF assms(1) room] by blast
  have "length (mbuf_data m1) = m_len m1" "length (mbuf_data m) = m_len m" using m1(2) assms(1) by simp_all
  then have "m_len m1 = m_len m + length tail" using m1(3) by simp
  then show "\<exists>m1 m2. mbuf_put_bytes m tail = Some m1 \<and> mbuf_data m1 = mbuf_data m @ tail \<and>
       mbuf_trim m1 (length tail) = Some m2 \<and> mbuf_ok m2 \<and> mbuf_data m2 = mbuf_data m \<and> m_data m2 = m_data m"
    using m1 mbuf_trim_data [OF m1(2), of "length tail"] assms(1) by auto
qed

text \<open>A buffer of eight bytes with two bytes of data in the middle.\<close>

theorem mbuf_push_pull_roundtrip_witness:
  "\<exists>m1 m2. mbuf_push_bytes \<lparr>m_head = [0, 0, 0, 7, 8, 0, 0, 0], m_data = 3, m_len = 2, txflags = 0, network_off = 0, transport_off = 0, m_release = net_tx_release_mbuf,
        m_timestamp = 0, seg_seq = 0, seg_end = 0, m_flags = 0, m_ref = 0\<rparr> [1, 2] = Some m1 \<and>
     mbuf_data m1 = [1, 2, 7, 8] \<and> mbuf_pull m1 2 = Some m2 \<and> mbuf_data m2 = [7, 8]"
proof -
  let ?m = "\<lparr>m_head = [0, 0, 0, 7, 8, 0, 0, 0], m_data = 3, m_len = 2, txflags = 0, network_off = 0, transport_off = 0, m_release = net_tx_release_mbuf,
        m_timestamp = 0, seg_seq = 0, seg_end = 0, m_flags = 0, m_ref = 0\<rparr>"
  have "mbuf_ok ?m" "length [1, 2 :: u8] \<le> mbuf_headroom ?m" "mbuf_data ?m = [7, 8]"
    by (simp_all add: mbuf_ok_def head_len_def mbuf_headroom_def mbuf_data_def take_Cons')
  then show ?thesis using mbuf_push_pull_roundtrip [of ?m "[1, 2]" "[]"] by (auto simp: numeral_2_eq_2)
qed

text \<open>The assertion of \<^verbatim>\<open>mbuf_put\<close> leaves out the room before the data. Its data ends inside of the buffer exactly when the
  length is at most the room behind the data, or so large that the sum wraps around and the data gets shorter.\<close>

lemma mbuf_put_inside:
  assumes "mbuf_ok m" "len < 2 ^ 32"
  shows "(\<exists>m'. mbuf_put m len = Some m' \<and> mbuf_ok m') \<longleftrightarrow> len \<le> mbuf_tailroom m \<or> 2 ^ 32 \<le> m_len m + len"
proof (cases "m_len m + len < 2 ^ 32")
  case True
  then show ?thesis using assms by (auto simp: mbuf_put_def mbuf_ok_def mbuf_tailroom_def head_len_def)
next
  case False
  have b: "m_len m < 2 ^ 32" using assms(1) by (simp add: mbuf_ok_def)
  have "uint_add (m_len m) len = m_len m + len - 2 ^ 32"
    unfolding uint_add_mod using False assms(2) b by (subst mod_if) simp
  then have "uint_add (m_len m) len \<le> m_len m" using assms(2) by simp
  then show ?thesis using False assms(1) by (auto simp: mbuf_put_def mbuf_ok_def head_len_def)
qed

end
