(* ===== verification/Net_Bytes.thy ===== *)
theory Net_Bytes
  imports Prelude
begin

text \<open>
  Bytes on the wire: the byte-order conversions of \<^verbatim>\<open>utils/byteorder.h\<close> on a little-endian machine, and the checksums of
  \<^verbatim>\<open>net/cksum.h\<close>. A stored integer is the list of its bytes in memory, the least significant one first.
\<close>

section \<open>Byte order\<close>

definition bswap16 :: "u16 \<Rightarrow> u16" where
  "bswap16 val = (push_bit 8 (val AND 0x00ff) OR drop_bit 8 (val AND 0xff00))"

definition bswap32 :: "u32 \<Rightarrow> u32" where
  "bswap32 val = (push_bit 24 (val AND 0x000000ff) OR push_bit 8 (val AND 0x0000ff00) OR
     drop_bit 8 (val AND 0x00ff0000) OR drop_bit 24 (val AND 0xff000000))"

definition hton16 :: "u16 \<Rightarrow> u16" where "hton16 x = bswap16 x"
definition ntoh16 :: "u16 \<Rightarrow> u16" where "ntoh16 x = bswap16 x"
definition hton32 :: "u32 \<Rightarrow> u32" where "hton32 x = bswap32 x"
definition ntoh32 :: "u32 \<Rightarrow> u32" where "ntoh32 x = bswap32 x"

text \<open>Storing and loading.\<close>

definition store16 :: "u16 \<Rightarrow> u8 list" where
  "store16 x = [ucast x, ucast (drop_bit 8 x)]"

definition store32 :: "u32 \<Rightarrow> u8 list" where
  "store32 x = [ucast x, ucast (drop_bit 8 x), ucast (drop_bit 16 x), ucast (drop_bit 24 x)]"

definition store64 :: "u64 \<Rightarrow> u8 list" where
  "store64 x = store32 (ucast x) @ store32 (ucast (drop_bit 32 x))"

definition load16 :: "u8 list \<Rightarrow> nat \<Rightarrow> u16" where
  "load16 bs i = (ucast (bs ! i) OR push_bit 8 (ucast (bs ! (i + 1))))"

definition load32 :: "u8 list \<Rightarrow> nat \<Rightarrow> u32" where
  "load32 bs i = (ucast (bs ! i) OR push_bit 8 (ucast (bs ! (i + 1))) OR push_bit 16 (ucast (bs ! (i + 2))) OR push_bit 24 (ucast (bs ! (i + 3))))"

lemma mask8: "(0x00ff :: u16) = mask 8" "(0xff00 :: u16) = push_bit 8 (mask 8)"
  "(0x000000ff :: u32) = mask 8" "(0x0000ff00 :: u32) = push_bit 8 (mask 8)" "(0x00ff0000 :: u32) = push_bit 16 (mask 8)" "(0xff000000 :: u32) = push_bit 24 (mask 8)"
  "(0xffff0000 :: u32) = push_bit 16 (mask 16)"
  by (simp_all add: mask_eq_exp_minus_1 push_bit_eq_mult)

lemma bswap16_inv [simp]: "bswap16 (bswap16 x) = x"
  unfolding bswap16_def mask8 by (rule bit_eqI) (auto simp: bit_simps)

lemma bit_eq32I:
  fixes x y :: u32
  assumes "\<And>n. n < 8 \<Longrightarrow> bit x n = bit y n" "\<And>n. n < 8 \<Longrightarrow> bit x (8 + n) = bit y (8 + n)"
    "\<And>n. n < 8 \<Longrightarrow> bit x (16 + n) = bit y (16 + n)" "\<And>n. n < 8 \<Longrightarrow> bit x (24 + n) = bit y (24 + n)"
  shows "x = y"
proof (rule bit_word_eqI)
  fix n assume n: "n < LENGTH(32)"
  have "n div 8 < 4" using n by simp
  then have "n div 8 = 0 \<or> n div 8 = 1 \<or> n div 8 = 2 \<or> n div 8 = 3" by linarith
  then have "n = n mod 8 \<or> n = 8 + n mod 8 \<or> n = 16 + n mod 8 \<or> n = 24 + n mod 8"
    using div_mult_mod_eq [of n 8] by linarith
  moreover have "n mod 8 < 8" by simp
  ultimately show "bit x n = bit y n" using assms by metis
qed

lemma bswap32_inv [simp]: "bswap32 (bswap32 x) = x"
  by (rule bit_eq32I) (simp_all add: bswap32_def mask8 bit_simps)

lemma ntoh_hton [simp]: "ntoh16 (hton16 x) = x" "ntoh32 (hton32 y) = y"
  by (simp_all add: ntoh16_def hton16_def ntoh32_def hton32_def)

lemma length_store [simp]: "length (store16 x) = 2" "length (store32 y) = 4" "length (store64 z) = 8"
  by (simp_all add: store16_def store32_def store64_def)

lemma load16_store [simp]: "load16 (store16 x) 0 = x"
  unfolding load16_def store16_def by (rule bit_eqI) (auto simp: bit_simps)

lemma load32_store [simp]: "load32 (store32 x) 0 = x"
  by (rule bit_eq32I) (simp_all add: load32_def store32_def bit_simps)

lemma load_append_right [simp]:
  "load16 (as @ bs) (length as) = load16 bs 0" "load32 (as @ bs) (length as) = load32 bs 0"
  by (simp_all add: load16_def load32_def nth_append numeral_2_eq_2)

lemma load_append_left:
  "i + 2 \<le> length as \<Longrightarrow> load16 (as @ bs) i = load16 as i" "i + 4 \<le> length as \<Longrightarrow> load32 (as @ bs) i = load32 as i"
  by (simp_all add: load16_def load32_def nth_append)

section \<open>Checksums\<close>

text \<open>The loops of \<^verbatim>\<open>__raw_cksum\<close>: four 16-bit words at a time, then one, then an odd byte.\<close>

fun raw_cksum_tail :: "u8 list \<Rightarrow> u32 \<Rightarrow> u32" where
  "raw_cksum_tail (a # b # bs) acc = raw_cksum_tail bs (acc + ucast (load16 [a, b] 0))"
| "raw_cksum_tail [a] acc = acc + ucast a"
| "raw_cksum_tail [] acc = acc"

function raw_cksum_sum :: "u8 list \<Rightarrow> u32 \<Rightarrow> u32" where
  "raw_cksum_sum bs acc =
     (if length bs \<ge> 8
      then raw_cksum_sum (drop 8 bs) (acc + ucast (load16 bs 0) + ucast (load16 bs 2) + ucast (load16 bs 4) + ucast (load16 bs 6))
      else raw_cksum_tail bs acc)"
  by pat_completeness auto
termination
  by (relation "measure (\<lambda>(bs, acc). length bs)") auto

declare raw_cksum_sum.simps [simp del]

definition fold_carry :: "u32 \<Rightarrow> u32" where
  "fold_carry acc = drop_bit 16 (acc AND 0xffff0000) + (acc AND 0xffff)"

definition raw_cksum_reduce :: "u32 \<Rightarrow> u16" where
  "raw_cksum_reduce acc = ucast (fold_carry (fold_carry acc))"

definition raw_cksum :: "u8 list \<Rightarrow> u16" where
  "raw_cksum bs = raw_cksum_reduce (raw_cksum_sum bs 0)"

definition psd_hdr :: "u8 \<Rightarrow> u32 \<Rightarrow> u32 \<Rightarrow> u16 \<Rightarrow> u8 list" where
  "psd_hdr proto saddr daddr l4len = store32 (hton32 saddr) @ store32 (hton32 daddr) @ [0, proto] @ store16 (hton16 l4len)"

definition ipv4_phdr_cksum :: "u8 \<Rightarrow> u32 \<Rightarrow> u32 \<Rightarrow> u16 \<Rightarrow> u16" where
  "ipv4_phdr_cksum proto saddr daddr l4len = raw_cksum (psd_hdr proto saddr daddr l4len)"

definition ipv4_udptcp_cksum :: "u8 \<Rightarrow> u32 \<Rightarrow> u32 \<Rightarrow> u16 \<Rightarrow> u8 list \<Rightarrow> u16" where
  "ipv4_udptcp_cksum proto saddr daddr l4len l4hdr =
     (let cksum = ucast (raw_cksum l4hdr) :: u32;
          cksum = cksum + ucast (ipv4_phdr_cksum proto saddr daddr l4len);
          cksum = fold_carry cksum;
          cksum = NOT cksum AND 0xffff;
          cksum = (if cksum = 0 then 0xffff else cksum)
      in ucast cksum)"

section \<open>Hashes\<close>

text \<open>The \<^verbatim>\<open>crc32q\<close> instruction: the Castagnoli polynomial, bit-reflected, one bit of the operand after the other.\<close>

definition crc32_step :: "u32 \<Rightarrow> bool \<Rightarrow> u32" where
  "crc32_step crc b = (drop_bit 1 crc XOR (if bit crc 0 \<noteq> b then 0x82F63B78 else 0))"

definition mm_crc32_u64 :: "u64 \<Rightarrow> u64 \<Rightarrow> u64" where
  "mm_crc32_u64 crc val = ucast (foldl (\<lambda>c i. crc32_step c (bit val i)) (ucast crc) [0..<64])"

definition hash_crc32c_one :: "u32 \<Rightarrow> u64 \<Rightarrow> u32" where
  "hash_crc32c_one seed val = ucast (mm_crc32_u64 (ucast seed) val)"

definition hash_crc32c_two :: "u32 \<Rightarrow> u64 \<Rightarrow> u64 \<Rightarrow> u32" where
  "hash_crc32c_two seed a b =
     (let seed = ucast (mm_crc32_u64 (ucast seed) a) :: u32
      in ucast (mm_crc32_u64 (ucast seed) b))"

definition rand_crc32c :: "u64 \<Rightarrow> u32 \<Rightarrow> u64" where
  "rand_crc32c now_tsc seed = ucast (hash_crc32c_one seed now_tsc)"

section \<open>The checksum is the one's complement sum\<close>

text \<open>The unrolled loop adds up the same words.\<close>

lemma raw_cksum_sum_tail: "raw_cksum_sum bs acc = raw_cksum_tail bs acc"
proof (induction bs acc rule: raw_cksum_sum.induct)
  case (1 bs acc)
  show ?case
  proof (cases "length bs \<ge> 8")
    case True
    then obtain a b c d e f g h cs where bs: "bs = [a, b, c, d, e, f, g, h] @ cs"
      by (auto simp: numeral_eq_Suc Suc_le_length_iff)
    show ?thesis using 1 True by (subst raw_cksum_sum.simps) (simp add: bs load16_def numeral_eq_Suc)
  next
    case False
    then show ?thesis by (subst raw_cksum_sum.simps) simp
  qed
qed

text \<open>The one's complement sum of a buffer, as a number.\<close>

fun word_sum :: "u8 list \<Rightarrow> nat" where
  "word_sum (a # b # bs) = unat (load16 [a, b] 0) + word_sum bs"
| "word_sum [a] = unat a"
| "word_sum [] = 0"

lemma unat_ucast_up [simp]: "unat (ucast (x :: u16) :: u32) = unat x" "unat (ucast (y :: u8) :: u32) = unat y"
  "unat (ucast (y :: u8) :: u16) = unat y"
  by (simp_all add: unsigned_ucast_eq take_bit_nat_eq_self_iff unsigned_less [THEN order_less_le_trans])

lemma unat_lt: "unat (x :: 'a::len word) < 2 ^ LENGTH('a)"
  by (rule unsigned_less)

lemma word_sum_bound: "word_sum bs \<le> 65535 * ((length bs + 1) div 2)"
proof (induction bs rule: word_sum.induct)
  case (1 a b bs)
  then show ?case using unat_lt [of "load16 [a, b] 0"] by simp
next
  case (2 a)
  then show ?case using unat_lt [of a] by simp
qed simp

lemma unat_raw_cksum_tail:
  "unat acc + word_sum bs < 2 ^ 32 \<Longrightarrow> unat (raw_cksum_tail bs acc) = unat acc + word_sum bs"
proof (induction bs arbitrary: acc rule: word_sum.induct)
  case (1 a b bs)
  have "unat (acc + ucast (load16 [a, b] 0)) = unat acc + unat (load16 [a, b] 0)"
    using 1(2) by (simp add: unat_word_ariths)
  then show ?case using 1 by simp
qed (simp_all add: unat_word_ariths)

definition fold16 :: "nat \<Rightarrow> nat" where
  "fold16 n = n div 65536 + n mod 65536"

text \<open>Folding the carries back keeps the sum modulo 65535.\<close>

lemma unat_fold: "unat (fold_carry x) = fold16 (unat x)"
proof -
  have "x AND 0xffff = x AND (2 ^ 16 - 1)" by simp
  then have lo: "unat (x AND 0xffff) = unat x mod 65536" using unat_mask_lt [of 16, where 'a = 32] by simp
  have "drop_bit 16 (x AND 0xffff0000) = drop_bit 16 x"
    by (rule bit_eqI) (auto simp: bit_simps mask8 dest: bit_imp_le_length)
  moreover have "unat (drop_bit 16 x) = unat x div 65536" by (subst unat_drop_bit_eq) (simp add: drop_bit_eq_div)
  ultimately have hi: "unat (drop_bit 16 (x AND 0xffff0000)) = unat x div 65536" by metis
  have "unat x < 2 ^ 32" using unat_lt [of x] by simp
  then have "unat x div 65536 + unat x mod 65536 < 2 ^ 32" by linarith
  then show ?thesis unfolding fold_carry_def fold16_def unat_word_ariths lo hi by simp
qed

lemma fold16_mod: "fold16 n mod 65535 = n mod 65535"
proof -
  have "n = 65535 * (n div 65536) + fold16 n" by (simp add: fold16_def)
  then show ?thesis by (metis mod_mult_self4)
qed

lemma fold16_zero [simp]: "fold16 n = 0 \<longleftrightarrow> n = 0"
  using div_mult_mod_eq [of n 65536] by (auto simp: fold16_def)

lemma fold16_less:
  assumes "n < 131071"
  shows "fold16 n < 65536"
proof (cases "n < 65536")
  case False
  then have "n = 65536 + (n - 65536)" by simp
  then obtain k where "n = 65536 + k" by blast
  then show ?thesis using assms by (simp add: fold16_def)
qed (simp add: fold16_def)

lemma fold16_twice:
  assumes "n < 4294967296"
  shows "fold16 (fold16 n) < 65536"
proof (rule fold16_less)
  have "n div 65536 < 65536" using assms by (simp add: less_mult_imp_div_less)
  moreover have "n mod 65536 < 65536" by simp
  ultimately show "fold16 n < 131071" unfolding fold16_def by linarith
qed

lemma unat_ucast_down16: "unat (ucast (x :: u32) :: u16) = unat x mod 65536"
  by (simp add: unsigned_ucast_eq take_bit_eq_mod)

lemma unat_raw_cksum_reduce: "unat (raw_cksum_reduce x) = fold16 (fold16 (unat x))"
proof -
  have "unat x < 4294967296" using unat_lt [of x] by simp
  from fold16_twice [OF this] show ?thesis
    by (simp add: raw_cksum_reduce_def unat_ucast_down16 unat_fold)
qed

text \<open>
  The one's complement sum of a buffer: \<^verbatim>\<open>raw_cksum\<close> is the sum of its 16-bit words modulo 65535, and 0 only for a buffer of zeros.
\<close>

lemma raw_cksum_sum_words:
  assumes "length bs \<le> 131072"
  shows "unat (raw_cksum bs) mod 65535 = word_sum bs mod 65535" "raw_cksum bs = 0 \<longleftrightarrow> word_sum bs = 0"
proof -
  have "word_sum bs < 2 ^ 32" using word_sum_bound [of bs] assms by simp
  then have u: "unat (raw_cksum bs) = fold16 (fold16 (word_sum bs))"
    by (simp add: raw_cksum_def unat_raw_cksum_reduce raw_cksum_sum_tail unat_raw_cksum_tail)
  show "unat (raw_cksum bs) mod 65535 = word_sum bs mod 65535" by (simp add: u fold16_mod)
  show "raw_cksum bs = 0 \<longleftrightarrow> word_sum bs = 0" using u by (metis fold16_zero unsigned_0 unat_eq_zero)
qed

lemma word_sum_append: "even (length as) \<Longrightarrow> word_sum (as @ bs) = word_sum as + word_sum bs"
  by (induction as rule: word_sum.induct) simp_all

lemma unat_not16:
  fixes d :: u32
  assumes "unat d < 65536"
  shows "unat (NOT d AND 0xffff) = 65535 - unat d"
proof -
  have m: "(0xffff :: u32) = mask 16" by (simp add: mask_eq_exp_minus_1)
  have "unat (mask 16 - d) = unat (mask 16 :: u32) - unat d"
    using assms by (simp add: unat_sub_if' mask_eq_exp_minus_1)
  moreover have "take_bit 16 d = d" using assms by (intro word_unat_eq_iff [THEN iffD2]) (simp add: unsigned_take_bit_eq take_bit_nat_eq_self_iff)
  then have "NOT d AND mask 16 = mask 16 - d"
    by (metis take_bit_eq_mask take_bit_not_eq_mask_diff)
  ultimately show ?thesis by (simp add: m) (simp add: mask_eq_exp_minus_1)
qed

lemma udptcp_cksum_complement:
  assumes "length bs \<le> 65535"
  shows "(unat (ipv4_udptcp_cksum proto saddr daddr l4len bs) + word_sum (psd_hdr proto saddr daddr l4len) + word_sum bs) mod 65535 = 0"
proof -
  let ?p = "psd_hdr proto saddr daddr l4len"
  define s where "s = unat (raw_cksum bs) + unat (raw_cksum ?p)"
  define c :: u32 where "c = ucast (raw_cksum bs) + ucast (raw_cksum ?p)"
  have le: "s < 131071" using unat_lt [of "raw_cksum bs"] unat_lt [of "raw_cksum ?p"] by (simp add: s_def)
  have c: "unat c = s" using le by (simp add: c_def s_def unat_word_ariths)
  define d where "d = fold_carry c"
  have d: "unat d = fold16 s" "fold16 s < 65536" using c le by (simp_all add: d_def unat_fold fold16_less)
  have n: "unat (NOT d AND 0xffff) = 65535 - fold16 s" using d by (simp add: unat_not16)
  have "unat (ipv4_udptcp_cksum proto saddr daddr l4len bs) = (if fold16 s = 65535 then 65535 else 65535 - fold16 s)"
    using n d(2) by (auto simp: ipv4_udptcp_cksum_def ipv4_phdr_cksum_def Let_def
        c_def [symmetric] d_def [symmetric] unat_ucast_down16 unat_eq_zero [symmetric] simp del: unat_eq_zero)
  then have "(unat (ipv4_udptcp_cksum proto saddr daddr l4len bs) + s) mod 65535 = (65535 - fold16 s + fold16 s) mod 65535"
    using fold16_mod [of s] by (cases "fold16 s = 65535") (auto intro: mod_add_cong)
  then have "(unat (ipv4_udptcp_cksum proto saddr daddr l4len bs) + s) mod 65535 = 0" using d(2) by simp
  moreover have "s mod 65535 = (word_sum ?p + word_sum bs) mod 65535"
    unfolding s_def using raw_cksum_sum_words(1) [of bs] raw_cksum_sum_words(1) [of ?p] assms
    by (subst add.commute) (rule mod_add_cong, simp_all add: psd_hdr_def)
  ultimately show ?thesis by (metis add.assoc mod_add_right_eq)
qed

end
