(* ===== verification/Net_Tx.thy ===== *)
theory Net_Tx
  imports Mbuf Net_Bytes "HOL-Library.Monad_Syntax"
begin

text \<open>
  The egress path below the transport protocols (\<^verbatim>\<open>libos/net/core.c\<close>, \<^verbatim>\<open>libos/net/arp.c\<close>): transmit buffers, the
  IP and Ethernet headers, the address resolution, and the hand-over to the I/O kernel.

  A transmit buffer is a number, and \<open>bufs\<close> is the memory of the buffers: a buffer may at the same time be on a queue of
  TCP and in the hands of the I/O kernel. \<open>tx_free\<close> holds the free buffers in the order in which the magazine cache
  hands them out. The transport table and the list of TCP connections are part of the state, too. The packet channel \<open>txpktq\<close> is that of the calling kernel thread; as a message it holds the
  buffer that the header in it names. The answers of the clock and of \<^verbatim>\<open>smalloc\<close> are fields of the state, and so
  are the receive buffers that the allocator will hand out (\<open>rx_pool\<close>). When a buffer of a UDP socket is released, \<open>udp_done\<close> names the socket, whose part of the
  work is done in \<^verbatim>\<open>Udp\<close>. \<open>None\<close> is a
  failed \<^verbatim>\<open>BUG_ON\<close> or \<^verbatim>\<open>assert\<close>.
\<close>

section \<open>State\<close>

datatype arp_state = ARP_STATE_PROBING | ARP_STATE_VALID | ARP_STATE_VALID_BUT_REPROBING | ARP_STATE_STATIC

record arp_entry =
  ae_state :: arp_state
  ae_ip :: u32
  ae_eth :: "u8 list"
  ae_q :: "nat list"
  ae_ts :: u64
  ae_tries_left :: int

record netaddr =
  na_ip :: u32
  na_port :: u16

datatype trans_match = TRANS_MATCH_3TUPLE | TRANS_MATCH_5TUPLE

text \<open>An entry of the transport table is part of a socket, which \<open>te_sock\<close> identifies.\<close>

record trans_entry =
  te_match :: trans_match
  te_proto :: u8
  te_laddr :: netaddr
  te_raddr :: netaddr
  te_sock :: nat

record net =
  io_mac :: "u8 list"
  io_addr :: u32
  io_netmask :: u32
  io_gateway :: u32
  bufs :: "nat \<Rightarrow> mbuf"
  tx_free :: "nat list"
  txpktq :: "nat list"
  txpktq_size :: nat
  txpktq_overflow :: "nat list"
  arp_tbl :: "nat \<Rightarrow> arp_entry list"
  smalloc_ok :: "bool list"
  clock :: "nat \<Rightarrow> u64"
  ticks :: nat
  net_errors :: "(mbuf \<times> int) list"
  trans_seed :: u32
  ephemeral_offset :: u32
  trans_tbl :: "nat \<Rightarrow> trans_entry list"
  tcp_conns :: "nat list"
  rx_pool :: "mbuf list"
  txcmdq :: "u64 list"
  txcmdq_size :: nat
  udp_done :: "nat list"

definition IPPROTO_ICMP :: u8 where "IPPROTO_ICMP = 1"
definition IPPROTO_TCP :: u8 where "IPPROTO_TCP = 6"
definition IPPROTO_UDP :: u8 where "IPPROTO_UDP = 17"
definition ETHTYPE_IP :: u16 where "ETHTYPE_IP = 0x0800"
definition ETHTYPE_ARP :: u16 where "ETHTYPE_ARP = 0x0806"
definition OLFLAG_IP_CHKSUM :: u32 where "OLFLAG_IP_CHKSUM = 1"
definition OLFLAG_TCP_CHKSUM :: u32 where "OLFLAG_TCP_CHKSUM = 2"
definition OLFLAG_IPV4 :: u32 where "OLFLAG_IPV4 = 4"
definition IP_ID_SEED :: u32 where "IP_ID_SEED = 0x42345323"
definition IP_MF :: u16 where "IP_MF = 0x2000"

abbreviation ENOBUFS :: int where "ENOBUFS \<equiv> 105"
abbreviation EINPROGRESS :: int where "EINPROGRESS \<equiv> 115"
abbreviation EHOSTUNREACH :: int where "EHOSTUNREACH \<equiv> 113"

text \<open>The clock (\<^verbatim>\<open>now_us\<close>, \<^verbatim>\<open>now_tsc\<close>) and the outcome of \<^verbatim>\<open>smalloc\<close>.\<close>

definition now_us :: "net \<Rightarrow> u64 \<times> net" where
  "now_us n = (clock n (ticks n), n\<lparr>ticks := ticks n + 1\<rparr>)"

definition smalloc_answer :: "net \<Rightarrow> bool \<times> net" where
  "smalloc_answer n = (case smalloc_ok n of [] \<Rightarrow> (False, n) | b # bs \<Rightarrow> (b, n\<lparr>smalloc_ok := bs\<rparr>))"

section \<open>Buffers\<close>

definition set_buf :: "net \<Rightarrow> nat \<Rightarrow> mbuf \<Rightarrow> net" where
  "set_buf n a m = n\<lparr>bufs := (bufs n)(a := m)\<rparr>"

definition tx_release :: "net \<Rightarrow> nat \<Rightarrow> net" where
  "tx_release n a = n\<lparr>tx_free := a # tx_free n\<rparr>"

definition net_tx_alloc_mbuf :: "net \<Rightarrow> (nat option \<times> net) option" where
  "net_tx_alloc_mbuf n =
     (case tx_free n of
        [] \<Rightarrow> Some (None, n)
      | a # as \<Rightarrow> do {
          m \<leftarrow> mbuf_init (m_head (bufs n a)) MBUF_DEFAULT_HEADROOM (bufs n a);
          Some (Some a, set_buf (n\<lparr>tx_free := as\<rparr>) a (m\<lparr>txflags := 0, m_release := net_tx_release_mbuf\<rparr>))
        })"

text \<open>\<^verbatim>\<open>mbuf_free\<close> of a transmit buffer: a buffer of TCP counts its references, one of UDP is reported to its socket.\<close>

definition mbuf_free :: "net \<Rightarrow> nat \<Rightarrow> net" where
  "mbuf_free n a =
     (case m_release (bufs n a) of
        tcp_tx_release_mbuf \<Rightarrow>
          (let r = m_ref (bufs n a) - 1; n = set_buf n a ((bufs n a)\<lparr>m_ref := r\<rparr>)
           in if r = 0 then tx_release n a else n)
      | udp_tx_release_mbuf s \<Rightarrow> tx_release (n\<lparr>udp_done := udp_done n @ [s]\<rparr>) a
      | _ \<Rightarrow> tx_release n a)"

definition mbuf_list_free :: "net \<Rightarrow> nat list \<Rightarrow> net" where
  "mbuf_list_free n q = foldl mbuf_free n q"

section \<open>Hand-over to the I/O kernel\<close>

fun drain_overflow :: "nat \<Rightarrow> nat list \<Rightarrow> nat list \<Rightarrow> nat list \<times> nat list" where
  "drain_overflow sz q [] = (q, [])"
| "drain_overflow sz q (a # as) = (if length q < sz then drain_overflow sz (q @ [a]) as else (q, a # as))"

definition net_tx_drain_overflow :: "net \<Rightarrow> net" where
  "net_tx_drain_overflow n =
     (let (q, ov) = drain_overflow (txpktq_size n) (txpktq n) (txpktq_overflow n)
      in n\<lparr>txpktq := q, txpktq_overflow := ov\<rparr>)"

text \<open>The header in front of the packet has 18 bytes, of which the last two are padding.\<close>

definition net_tx_raw :: "net \<Rightarrow> nat \<Rightarrow> net option" where
  "net_tx_raw n a = do {
     let len = mbuf_length (bufs n a);
     let n = (if txpktq_overflow n \<noteq> [] then net_tx_drain_overflow n else n);
     m \<leftarrow> mbuf_push (bufs n a) 18;
     m \<leftarrow> mbuf_write m (m_data m) (store64 (of_nat a) @ store32 (of_nat len) @ store32 (txflags m));
     let n = set_buf n a m;
     Some (if length (txpktq n) < txpktq_size n then n\<lparr>txpktq := txpktq n @ [a]\<rparr>
           else n\<lparr>txpktq_overflow := txpktq_overflow n @ [a]\<rparr>)
   }"

definition eth_hdr :: "u8 list \<Rightarrow> u8 list \<Rightarrow> u16 \<Rightarrow> u8 list" where
  "eth_hdr dhost shost type = dhost @ shost @ store16 (hton16 type)"

definition net_tx_eth :: "net \<Rightarrow> nat \<Rightarrow> u16 \<Rightarrow> u8 list \<Rightarrow> net option" where
  "net_tx_eth n a type dhost = do {
     m \<leftarrow> mbuf_push_bytes (bufs n a) (eth_hdr dhost (io_mac n) type);
     net_tx_raw (set_buf n a m) a
   }"

section \<open>IP\<close>

definition ip_hdr :: "u16 \<Rightarrow> u16 \<Rightarrow> u8 \<Rightarrow> u32 \<Rightarrow> u32 \<Rightarrow> u8 list" where
  "ip_hdr len ipid proto saddr daddr =
     [0x45, 0] @ store16 (hton16 len) @ store16 ipid @ store16 0 @ [64, proto] @ store16 0 @ store32 (hton32 saddr) @ store32 (hton32 daddr)"

definition net_push_iphdr :: "net \<Rightarrow> nat \<Rightarrow> u8 \<Rightarrow> u32 \<Rightarrow> net option" where
  "net_push_iphdr n a proto daddr = do {
     m \<leftarrow> mbuf_push (bufs n a) 20;
     let (tsc, n) = now_us n;
     let ipid = ucast (hash_crc32c_two IP_ID_SEED (tsc XOR ucast proto) (ucast daddr OR push_bit 32 (ucast (io_addr n))));
     m \<leftarrow> mbuf_write m (m_data m) (ip_hdr (of_nat (mbuf_length m)) ipid proto (io_addr n) daddr);
     Some (set_buf n a m)
   }"

definition net_get_ip_route :: "net \<Rightarrow> u32 \<Rightarrow> u32" where
  "net_get_ip_route n daddr =
     (if daddr AND io_netmask n \<noteq> io_addr n AND io_netmask n then io_gateway n else daddr)"

text \<open>The fields of an IP header at an offset of the packet.\<close>

definition iphdr_version :: "u8 list \<Rightarrow> nat \<Rightarrow> u8" where "iphdr_version bs i = drop_bit 4 (bs ! i)"
definition iphdr_header_len :: "u8 list \<Rightarrow> nat \<Rightarrow> u8" where "iphdr_header_len bs i = bs ! i AND 0xf"
definition iphdr_len :: "u8 list \<Rightarrow> nat \<Rightarrow> u16" where "iphdr_len bs i = ntoh16 (load16 bs (i + 2))"
definition iphdr_off :: "u8 list \<Rightarrow> nat \<Rightarrow> u16" where "iphdr_off bs i = load16 bs (i + 6)"
definition iphdr_proto :: "u8 list \<Rightarrow> nat \<Rightarrow> u8" where "iphdr_proto bs i = bs ! (i + 9)"
definition iphdr_saddr :: "u8 list \<Rightarrow> nat \<Rightarrow> u32" where "iphdr_saddr bs i = ntoh32 (load32 bs (i + 12))"
definition iphdr_daddr :: "u8 list \<Rightarrow> nat \<Rightarrow> u32" where "iphdr_daddr bs i = ntoh32 (load32 bs (i + 16))"

text \<open>The test for fragments looks at the field as it is in memory.\<close>

definition ip_hdr_supported :: "u8 list \<Rightarrow> nat \<Rightarrow> bool" where
  "ip_hdr_supported bs i \<longleftrightarrow> iphdr_version bs i = 4 \<and> iphdr_header_len bs i = 5 \<and> iphdr_off bs i AND IP_MF = 0"

text \<open>
  \<^verbatim>\<open>net_error\<close> reports the packet to the transport layer (\<^verbatim>\<open>trans_error\<close>): the reports are collected in \<open>net_errors\<close>.
\<close>

definition net_error :: "net \<Rightarrow> nat \<Rightarrow> int \<Rightarrow> net" where
  "net_error n a err =
     (let i = m_data (bufs n a); h = m_head (bufs n a)
      in case mbuf_pull_or_null (bufs n a) 20 of
           None \<Rightarrow> n
         | Some m \<Rightarrow>
             let n = set_buf n a m
             in if \<not> ip_hdr_supported h i then n
                else if iphdr_proto h i = IPPROTO_UDP \<or> iphdr_proto h i = IPPROTO_TCP
                then n\<lparr>net_errors := net_errors n @ [(m, err)]\<rparr> else n)"

section \<open>Address resolution\<close>

definition ARP_SEED :: u32 where "ARP_SEED = 0xD4812A53"
definition ARP_TABLE_CAPACITY :: nat where "ARP_TABLE_CAPACITY = 1024"
definition ARP_RETRIES :: int where "ARP_RETRIES = 3"
definition ARP_RETRY_TIME :: u64 where "ARP_RETRY_TIME = 1000000"
definition ARP_REPROBE_TIME :: u64 where "ARP_REPROBE_TIME = 10000000"
definition ARP_HTYPE_ETHER :: u16 where "ARP_HTYPE_ETHER = 1"
definition ARP_OP_REQUEST :: u16 where "ARP_OP_REQUEST = 1"
definition ARP_OP_REPLY :: u16 where "ARP_OP_REPLY = 2"
definition eth_addr_broadcast :: "u8 list" where "eth_addr_broadcast = replicate 6 0xff"

definition eth_addr_is_multicast :: "u8 list \<Rightarrow> bool" where
  "eth_addr_is_multicast addr \<longleftrightarrow> addr ! 0 AND 1 \<noteq> 0"

definition hash_ip :: "u32 \<Rightarrow> nat" where
  "hash_ip ip = unat (hash_crc32c_one ARP_SEED (ucast ip)) mod ARP_TABLE_CAPACITY"

definition lookup_entry :: "net \<Rightarrow> nat \<Rightarrow> u32 \<Rightarrow> arp_entry option" where
  "lookup_entry n idx daddr = find (\<lambda>e. ae_ip e = daddr) (arp_tbl n idx)"

text \<open>A write to the entry that \<^verbatim>\<open>lookup_entry\<close> finds, and its removal.\<close>

fun update_first :: "u32 \<Rightarrow> (arp_entry \<Rightarrow> arp_entry) \<Rightarrow> arp_entry list \<Rightarrow> arp_entry list" where
  "update_first ip f [] = []"
| "update_first ip f (e # es) = (if ae_ip e = ip then f e # es else e # update_first ip f es)"

fun remove_first :: "u32 \<Rightarrow> arp_entry list \<Rightarrow> arp_entry list" where
  "remove_first ip [] = []"
| "remove_first ip (e # es) = (if ae_ip e = ip then es else e # remove_first ip es)"

definition set_entry :: "net \<Rightarrow> nat \<Rightarrow> u32 \<Rightarrow> (arp_entry \<Rightarrow> arp_entry) \<Rightarrow> net" where
  "set_entry n idx ip f = n\<lparr>arp_tbl := (arp_tbl n)(idx := update_first ip f (arp_tbl n idx))\<rparr>"

definition insert_entry :: "net \<Rightarrow> arp_entry \<Rightarrow> nat \<Rightarrow> net" where
  "insert_entry n e idx = n\<lparr>arp_tbl := (arp_tbl n)(idx := e # arp_tbl n idx)\<rparr>"

definition drop_pending :: "net \<Rightarrow> nat \<Rightarrow> net" where
  "drop_pending n a = mbuf_free (net_error n a EHOSTUNREACH) a"

definition delete_entry :: "net \<Rightarrow> nat \<Rightarrow> arp_entry \<Rightarrow> net" where
  "delete_entry n idx e =
     foldl drop_pending (n\<lparr>arp_tbl := (arp_tbl n)(idx := remove_first (ae_ip e) (arp_tbl n idx))\<rparr>) (ae_q e)"

text \<open>A new entry has no Ethernet address yet: \<open>eth0\<close> stands for what its memory holds until the address is written.\<close>

definition create_entry :: "net \<Rightarrow> u32 \<Rightarrow> u8 list \<Rightarrow> arp_entry option \<times> net" where
  "create_entry n daddr eth0 =
     (let (ok, n) = smalloc_answer n
      in if \<not> ok then (None, n)
         else let (ts, n) = now_us n
              in (Some \<lparr>ae_state = ARP_STATE_PROBING, ae_ip = daddr, ae_eth = eth0, ae_q = [], ae_ts = ts, ae_tries_left = ARP_RETRIES\<rparr>, n))"

definition arp_hdr :: "u16 \<Rightarrow> u8 list" where
  "arp_hdr op = store16 (hton16 ARP_HTYPE_ETHER) @ store16 (hton16 ETHTYPE_IP) @ [6, 4] @ store16 (hton16 op)"

definition arp_hdr_ethip :: "u8 list \<Rightarrow> u32 \<Rightarrow> u8 list \<Rightarrow> u32 \<Rightarrow> u8 list" where
  "arp_hdr_ethip sender_mac sender_ip target_mac target_ip =
     sender_mac @ store32 (hton32 sender_ip) @ target_mac @ store32 (hton32 target_ip)"

definition arp_send :: "net \<Rightarrow> u16 \<Rightarrow> u8 list \<Rightarrow> u32 \<Rightarrow> net option" where
  "arp_send n op dhost daddr = do {
     (m, n) \<leftarrow> net_tx_alloc_mbuf n;
     case m of
       None \<Rightarrow> Some n
     | Some a \<Rightarrow> do {
         m \<leftarrow> mbuf_put_bytes (bufs n a) (arp_hdr op);
         m \<leftarrow> mbuf_put_bytes m (arp_hdr_ethip (io_mac n) (io_addr n) dhost daddr);
         net_tx_eth (set_buf n a m) a ETHTYPE_ARP dhost
       }
   }"

definition arp_age_entry :: "net \<Rightarrow> u64 \<Rightarrow> nat \<Rightarrow> u32 \<Rightarrow> net option" where
  "arp_age_entry n us idx ip =
     (case lookup_entry n idx ip of
        None \<Rightarrow> Some n
      | Some e \<Rightarrow>
          let resend = \<lambda>f. do {
                n \<leftarrow> arp_send (set_entry n idx ip f) ARP_OP_REQUEST eth_addr_broadcast ip;
                let (ts, n) = now_us n;
                Some (set_entry n idx ip (\<lambda>e. e\<lparr>ae_ts := ts\<rparr>))
              }
          in if us - ae_ts e < (if ae_state e = ARP_STATE_VALID then ARP_REPROBE_TIME else ARP_RETRY_TIME) then Some n
             else case ae_state e of
               ARP_STATE_VALID \<Rightarrow> resend (\<lambda>e. e\<lparr>ae_state := ARP_STATE_VALID_BUT_REPROBING, ae_tries_left := ARP_RETRIES\<rparr>)
             | ARP_STATE_STATIC \<Rightarrow> Some n
             | _ \<Rightarrow> if ae_tries_left e = 0 then Some (delete_entry n idx e)
                    else resend (\<lambda>e. e\<lparr>ae_tries_left := ae_tries_left e - 1\<rparr>))"

text \<open>One round of \<^verbatim>\<open>arp_worker\<close>.\<close>

fun arp_age_bucket :: "net \<Rightarrow> u64 \<Rightarrow> nat \<Rightarrow> u32 list \<Rightarrow> net option" where
  "arp_age_bucket n us idx [] = Some n"
| "arp_age_bucket n us idx (ip # ips) = do { n \<leftarrow> arp_age_entry n us idx ip; arp_age_bucket n us idx ips }"

fun arp_worker_from :: "net \<Rightarrow> u64 \<Rightarrow> nat list \<Rightarrow> net option" where
  "arp_worker_from n us [] = Some n"
| "arp_worker_from n us (i # js) = do { n \<leftarrow> arp_age_bucket n us i (map ae_ip (arp_tbl n i)); arp_worker_from n us js }"

definition arp_worker :: "net \<Rightarrow> net option" where
  "arp_worker n = (let (us, n) = now_us n in arp_worker_from n us [0..<ARP_TABLE_CAPACITY])"

fun tx_eth_all :: "net \<Rightarrow> nat list \<Rightarrow> u16 \<Rightarrow> u8 list \<Rightarrow> net option" where
  "tx_eth_all n [] type dhost = Some n"
| "tx_eth_all n (a # as) type dhost = do { n \<leftarrow> net_tx_eth n a type dhost; tx_eth_all n as type dhost }"

definition arp_update :: "net \<Rightarrow> u32 \<Rightarrow> u8 list \<Rightarrow> net option" where
  "arp_update n daddr dhost =
     (let idx = hash_ip daddr;
          valid = \<lambda>n e. (let (ts, n) = now_us n
             in tx_eth_all (set_entry n idx daddr (\<lambda>e. e\<lparr>ae_eth := dhost, ae_ts := ts, ae_state := ARP_STATE_VALID, ae_q := []\<rparr>))
                  (ae_q e) ETHTYPE_IP dhost)
      in case lookup_entry n idx daddr of
           None \<Rightarrow>
             (case create_entry n daddr dhost of
                (None, n) \<Rightarrow> Some n
              | (Some e, n) \<Rightarrow> valid (insert_entry n e idx) e)
         | Some e \<Rightarrow> if ae_state e = ARP_STATE_STATIC then Some n else valid n e)"

text \<open>
  \<^verbatim>\<open>arp_lookup\<close>, in the two parts between which other threads may change the table: the look-up in the critical section of RCU,
  and the part that holds the lock. The answer \<open>Some eth\<close> is the address, \<open>None\<close> stands for \<^verbatim>\<open>-EINPROGRESS\<close>.
\<close>

definition arp_lookup_locked :: "net \<Rightarrow> u32 \<Rightarrow> arp_entry option \<Rightarrow> nat \<Rightarrow> u8 list option \<times> net" where
  "arp_lookup_locked n daddr newe a =
     (let idx = hash_ip daddr
      in case lookup_entry n idx daddr of
           Some e \<Rightarrow>
             if ae_state e \<noteq> ARP_STATE_PROBING then (Some (ae_eth e), n)
             else (None, set_entry n idx daddr (\<lambda>e. e\<lparr>ae_q := ae_q e @ [a]\<rparr>))
         | None \<Rightarrow>
             (case newe of
                Some e \<Rightarrow> (None, set_entry (insert_entry n e idx) idx daddr (\<lambda>e. e\<lparr>ae_q := ae_q e @ [a]\<rparr>))
              | None \<Rightarrow> (None, mbuf_free n a)))"

definition arp_lookup :: "net \<Rightarrow> u32 \<Rightarrow> nat \<Rightarrow> ((int + u8 list) \<times> net) option" where
  "arp_lookup n daddr a =
     (let idx = hash_ip daddr;
          locked = \<lambda>n newe. (case arp_lookup_locked n daddr newe a of
             (Some eth, n) \<Rightarrow> (Inr eth, n) | (None, n) \<Rightarrow> (Inl (- EINPROGRESS), n))
      in case lookup_entry n idx daddr of
           Some e \<Rightarrow> if ae_state e \<noteq> ARP_STATE_PROBING then Some (Inr (ae_eth e), n) else Some (locked n None)
         | None \<Rightarrow> do {
             n \<leftarrow> arp_send n ARP_OP_REQUEST eth_addr_broadcast daddr;
             case create_entry n daddr [] of
               (None, n) \<Rightarrow> Some (Inl (- ENOMEM), n)
             | (Some e, n) \<Rightarrow> Some (locked n (Some e))
           })"

text \<open>Reception of an ARP packet, without its Ethernet header.\<close>

definition net_rx_arp :: "net \<Rightarrow> u8 list \<Rightarrow> net option" where
  "net_rx_arp n bs =
     (if length bs < 28 then Some n
      else if ntoh16 (load16 bs 0) \<noteq> ARP_HTYPE_ETHER \<or> ntoh16 (load16 bs 2) \<noteq> ETHTYPE_IP \<or> bs ! 4 \<noteq> 6 \<or> bs ! 5 \<noteq> 4 then Some n
      else let op = ntoh16 (load16 bs 6); sender_mac = take 6 (drop 8 bs);
               sender_ip = ntoh32 (load32 bs 14); target_ip = ntoh32 (load32 bs 24)
           in if eth_addr_is_multicast sender_mac then Some n
              else do {
                let am_target = (io_addr n = target_ip);
                n \<leftarrow> arp_update n sender_ip sender_mac;
                if am_target \<and> op = ARP_OP_REQUEST then arp_send n ARP_OP_REPLY sender_mac sender_ip else Some n
              })"

definition arp_init :: "net \<Rightarrow> net" where
  "arp_init n = n\<lparr>arp_tbl := \<lambda>i. if i < ARP_TABLE_CAPACITY then [] else arp_tbl n i\<rparr>"

fun arp_init_late :: "net \<Rightarrow> (u32 \<times> u8 list) list \<Rightarrow> int \<times> net" where
  "arp_init_late n [] = (0, n)"
| "arp_init_late n ((ip, addr) # es) =
     (case create_entry n ip addr of
        (None, n) \<Rightarrow> (- ENOMEM, n)
      | (Some e, n) \<Rightarrow> arp_init_late (insert_entry n (e\<lparr>ae_state := ARP_STATE_STATIC\<rparr>) (hash_ip ip)) es)"

section \<open>Transmission of an IP packet\<close>

definition net_tx_ip :: "net \<Rightarrow> nat \<Rightarrow> u8 \<Rightarrow> u32 \<Rightarrow> (int \<times> net) option" where
  "net_tx_ip n a proto daddr = do {
     n \<leftarrow> net_push_iphdr n a proto daddr;
     let n = set_buf n a ((bufs n a)\<lparr>txflags := txflags (bufs n a) OR OLFLAG_IP_CHKSUM OR OLFLAG_IPV4\<rparr>);
     let daddr = net_get_ip_route n daddr;
     (r, n) \<leftarrow> arp_lookup n daddr a;
     case r of
       Inl e \<Rightarrow>
         if e = - EINPROGRESS then Some (0, n)
         else do { m \<leftarrow> mbuf_pull (bufs n a) 20; Some (e, set_buf n a m) }
     | Inr dhost \<Rightarrow> do { n \<leftarrow> net_tx_eth n a ETHTYPE_IP dhost; Some (0, n) }
   }"

definition net_tx_ip_or_free :: "net \<Rightarrow> nat \<Rightarrow> u8 \<Rightarrow> u32 \<Rightarrow> net option" where
  "net_tx_ip_or_free n a proto daddr = do {
     (ret, n) \<leftarrow> net_tx_ip n a proto daddr;
     Some (if ret \<noteq> 0 then mbuf_free n a else n)
   }"

fun push_iphdr_all :: "net \<Rightarrow> nat list \<Rightarrow> u8 \<Rightarrow> u32 \<Rightarrow> net option" where
  "push_iphdr_all n [] proto daddr = Some n"
| "push_iphdr_all n (a # as) proto daddr = do {
     n \<leftarrow> net_push_iphdr n a proto daddr;
     push_iphdr_all (set_buf n a ((bufs n a)\<lparr>txflags := txflags (bufs n a) OR OLFLAG_IP_CHKSUM OR OLFLAG_IPV4\<rparr>)) as proto daddr
   }"

fun pull_iphdr_all :: "net \<Rightarrow> nat list \<Rightarrow> net option" where
  "pull_iphdr_all n [] = Some n"
| "pull_iphdr_all n (a # as) = do { m \<leftarrow> mbuf_pull (bufs n a) 20; pull_iphdr_all (set_buf n a m) as }"

definition net_tx_ip_burst :: "net \<Rightarrow> nat list \<Rightarrow> u8 \<Rightarrow> u32 \<Rightarrow> (int \<times> net) option" where
  "net_tx_ip_burst n ms proto daddr =
     (if ms = [] then None
      else do {
        n \<leftarrow> push_iphdr_all n ms proto daddr;
        let daddr = net_get_ip_route n daddr;
        (r, n) \<leftarrow> arp_lookup n daddr (hd ms);
        case r of
          Inl e \<Rightarrow>
            if e = - EINPROGRESS then Some (0, n)
            else do { n \<leftarrow> pull_iphdr_all n ms; Some (e, n) }
        | Inr dhost \<Rightarrow> do { n \<leftarrow> tx_eth_all n ms ETHTYPE_IP dhost; Some (0, n) }
      })"

end
