(* ===== verification/Transport.thy ===== *)
theory Transport
  imports Net_Tx
begin

text \<open>
  The table of sockets (\<^verbatim>\<open>libos/net/transport.c\<close>): hash buckets of entries that match a packet by its local address or by both
  addresses, the choice of ephemeral ports, and the look-up of the socket for a packet.
\<close>

section \<open>Operations\<close>

definition TRANS_TBL_SIZE :: nat where "TRANS_TBL_SIZE = 16384"
definition MIN_EPHEMERAL :: nat where "MIN_EPHEMERAL = 49152"
definition MAX_EPHEMERAL :: nat where "MAX_EPHEMERAL = 65535"

abbreviation EADDRINUSE :: int where "EADDRINUSE \<equiv> 98"
abbreviation EADDRNOTAVAIL :: int where "EADDRNOTAVAIL \<equiv> 99"

definition addr_bits :: "netaddr \<Rightarrow> u64" where
  "addr_bits a = ucast (na_ip a) OR push_bit 32 (ucast (na_port a))"

definition trans_hash_3tuple :: "net \<Rightarrow> u8 \<Rightarrow> netaddr \<Rightarrow> u32" where
  "trans_hash_3tuple n proto l = hash_crc32c_one (trans_seed n) (addr_bits l OR push_bit 48 (ucast proto))"

definition trans_hash_5tuple :: "net \<Rightarrow> u8 \<Rightarrow> netaddr \<Rightarrow> netaddr \<Rightarrow> u32" where
  "trans_hash_5tuple n proto l r = hash_crc32c_two (trans_seed n) (addr_bits l) (addr_bits r OR push_bit 48 (ucast proto))"

definition trans_idx :: "net \<Rightarrow> trans_entry \<Rightarrow> nat" where
  "trans_idx n e =
     unat (case te_match e of
             TRANS_MATCH_3TUPLE \<Rightarrow> trans_hash_3tuple n (te_proto e) (te_laddr e)
           | TRANS_MATCH_5TUPLE \<Rightarrow> trans_hash_5tuple n (te_proto e) (te_laddr e) (te_raddr e)) mod TRANS_TBL_SIZE"

definition trans_init_3tuple :: "nat \<Rightarrow> u8 \<Rightarrow> netaddr \<Rightarrow> trans_entry" where
  "trans_init_3tuple s proto l = \<lparr>te_match = TRANS_MATCH_3TUPLE, te_proto = proto, te_laddr = l, te_raddr = \<lparr>na_ip = 0, na_port = 0\<rparr>, te_sock = s\<rparr>"

definition trans_init_5tuple :: "nat \<Rightarrow> u8 \<Rightarrow> netaddr \<Rightarrow> netaddr \<Rightarrow> trans_entry" where
  "trans_init_5tuple s proto l r = \<lparr>te_match = TRANS_MATCH_5TUPLE, te_proto = proto, te_laddr = l, te_raddr = r, te_sock = s\<rparr>"

text \<open>The two conflicts that the loop of \<^verbatim>\<open>trans_table_add\<close> looks for.\<close>

definition conflicts :: "trans_entry \<Rightarrow> trans_entry \<Rightarrow> bool" where
  "conflicts e pos \<longleftrightarrow> te_match pos = te_match e \<and>
     ((te_match e = TRANS_MATCH_3TUPLE \<and> te_proto e = te_proto pos \<and> te_laddr e = te_laddr pos) \<or>
      (te_proto e = te_proto pos \<and> te_laddr e = te_laddr pos \<and> te_raddr e = te_raddr pos))"

definition trans_table_add :: "net \<Rightarrow> trans_entry \<Rightarrow> int \<times> net" where
  "trans_table_add n e =
     (if na_port (te_laddr e) = 0 then (- EINVAL, n)
      else let idx = trans_idx n e
           in if \<exists>pos \<in> set (trans_tbl n idx). conflicts e pos then (- EADDRINUSE, n)
              else (0, n\<lparr>trans_tbl := (trans_tbl n)(idx := e # trans_tbl n idx), ephemeral_offset := ephemeral_offset n + 1\<rparr>))"

text \<open>The loop over the ephemeral ports: \<open>k\<close> of them have been tried. The entry comes back with the port last tried.\<close>

definition NUM_EPHEMERAL :: nat where "NUM_EPHEMERAL = MAX_EPHEMERAL - MIN_EPHEMERAL + 1"

definition ephemeral_port :: "u16 \<Rightarrow> nat \<Rightarrow> u16" where
  "ephemeral_port offset k = of_nat (MIN_EPHEMERAL + (k + unat offset) mod NUM_EPHEMERAL)"

function ephemeral_loop :: "net \<Rightarrow> trans_entry \<Rightarrow> u16 \<Rightarrow> nat \<Rightarrow> int \<times> trans_entry \<times> net" where
  "ephemeral_loop n e offset k =
     (if k < NUM_EPHEMERAL
      then let e = e\<lparr>te_laddr := (te_laddr e)\<lparr>na_port := ephemeral_port offset k\<rparr>\<rparr>;
               (ret, n') = trans_table_add n e
           in if ret = 0 then (0, e, n') else ephemeral_loop n e offset (k + 1)
      else (- EADDRNOTAVAIL, e, n))"
  by pat_completeness auto
termination
  by (relation "measure (\<lambda>(n, e, offset, k). NUM_EPHEMERAL - k)") auto

declare ephemeral_loop.simps [simp del]

definition trans_table_add_with_ephemeral_port :: "net \<Rightarrow> trans_entry \<Rightarrow> int \<times> trans_entry \<times> net" where
  "trans_table_add_with_ephemeral_port n e =
     (if te_match e \<noteq> TRANS_MATCH_5TUPLE then (- EINVAL, e, n)
      else let e = e\<lparr>te_laddr := (te_laddr e)\<lparr>na_port := 0\<rparr>\<rparr>;
               offset = ucast (trans_hash_5tuple n (te_proto e) (te_laddr e) (te_raddr e) + ephemeral_offset n)
           in ephemeral_loop n e offset 0)"

text \<open>The removal of an entry that is not in the table writes through dangling pointers: \<open>None\<close>.\<close>

definition trans_table_remove :: "net \<Rightarrow> trans_entry \<Rightarrow> net option" where
  "trans_table_remove n e =
     (if e \<in> set (trans_tbl n (trans_idx n e))
      then Some (n\<lparr>trans_tbl := (trans_tbl n)(trans_idx n e := remove1 e (trans_tbl n (trans_idx n e)))\<rparr>)
      else None)"

text \<open>The look-up by the addresses of a packet: first a match of both addresses, then one of the local address.\<close>

definition match5 :: "u8 \<Rightarrow> netaddr \<Rightarrow> netaddr \<Rightarrow> trans_entry \<Rightarrow> bool" where
  "match5 proto l r e \<longleftrightarrow> te_match e = TRANS_MATCH_5TUPLE \<and> te_proto e = proto \<and> te_laddr e = l \<and> te_raddr e = r"

definition match3 :: "u8 \<Rightarrow> netaddr \<Rightarrow> trans_entry \<Rightarrow> bool" where
  "match3 proto l e \<longleftrightarrow> te_match e = TRANS_MATCH_3TUPLE \<and> te_proto e = proto \<and> te_laddr e = l"

definition trans_find :: "net \<Rightarrow> u8 \<Rightarrow> netaddr \<Rightarrow> netaddr \<Rightarrow> trans_entry option" where
  "trans_find n proto l r =
     (case find (match5 proto l r) (trans_tbl n (unat (trans_hash_5tuple n proto l r) mod TRANS_TBL_SIZE)) of
        Some e \<Rightarrow> Some e
      | None \<Rightarrow> find (match3 proto l) (trans_tbl n (unat (trans_hash_3tuple n proto l) mod TRANS_TBL_SIZE)))"

text \<open>The result is the entry and the packet with the transport header marked.\<close>

definition trans_lookup :: "net \<Rightarrow> mbuf \<Rightarrow> (trans_entry option \<times> mbuf) option" where
  "trans_lookup n m = do {
     m \<leftarrow> mbuf_mark_transport_offset m;
     let h = m_head m;
     let k = network_off m;
     let i = m_data m;
     if iphdr_proto h k \<noteq> IPPROTO_UDP \<and> iphdr_proto h k \<noteq> IPPROTO_TCP then Some (None, m)
     else if mbuf_length m < 4 then Some (None, m)
     else Some (trans_find n (iphdr_proto h k) \<lparr>na_ip = iphdr_daddr h k, na_port = ntoh16 (load16 h (i + 2))\<rparr>
                  \<lparr>na_ip = iphdr_saddr h k, na_port = ntoh16 (load16 h i)\<rparr>, m)
   }"

definition trans_init :: "net \<Rightarrow> u64 \<Rightarrow> u32 \<Rightarrow> net" where
  "trans_init n now_tsc pid =
     n\<lparr>trans_tbl := \<lambda>i. if i < TRANS_TBL_SIZE then [] else trans_tbl n i, trans_seed := ucast (rand_crc32c now_tsc (0x48FA8BC1 XOR pid))\<rparr>"

section \<open>The table is a map from addresses to sockets\<close>

text \<open>Every entry is in its bucket, has a port, and no two entries of the table conflict.\<close>

definition trans_ok :: "net \<Rightarrow> bool" where
  "trans_ok n \<longleftrightarrow>
     (\<forall>i. \<forall>e \<in> set (trans_tbl n i). i = trans_idx n e \<and> na_port (te_laddr e) \<noteq> 0) \<and>
     (\<forall>i. distinct (trans_tbl n i) \<and> (\<forall>e \<in> set (trans_tbl n i). \<forall>f \<in> set (trans_tbl n i). conflicts e f \<longrightarrow> e = f))"

definition trans_set :: "net \<Rightarrow> trans_entry set" where
  "trans_set n = (\<Union>i. set (trans_tbl n i))"

lemma trans_idx_upd [simp]: "trans_idx (n\<lparr>trans_tbl := t, ephemeral_offset := o'\<rparr>) e = trans_idx n e" "trans_idx (n\<lparr>trans_tbl := t\<rparr>) e = trans_idx n e"
  by (simp_all add: trans_idx_def trans_hash_3tuple_def trans_hash_5tuple_def split: trans_match.splits)

lemma conflicts_idx: "conflicts e f \<Longrightarrow> trans_idx n e = trans_idx n f"
  by (auto simp: conflicts_def trans_idx_def split: trans_match.splits)

lemma conflicts_sym: "conflicts e f \<Longrightarrow> conflicts f e"
  by (auto simp: conflicts_def)

lemma conflicts_refl [simp]: "conflicts e e"
  by (simp add: conflicts_def)

lemma trans_set_idx:
  assumes "trans_ok n"
  shows "e \<in> trans_set n \<longleftrightarrow> e \<in> set (trans_tbl n (trans_idx n e))"
  using assms by (auto simp: trans_set_def trans_ok_def)

lemma trans_no_conflict:
  assumes "trans_ok n" "e \<in> trans_set n" "f \<in> trans_set n" "conflicts e f"
  shows "e = f"
proof -
  have "e \<in> set (trans_tbl n (trans_idx n e))" "f \<in> set (trans_tbl n (trans_idx n e))"
    using assms conflicts_idx [OF assms(4)] by (simp_all add: trans_set_idx)
  then show ?thesis using assms(1,4) unfolding trans_ok_def by blast
qed

text \<open>An entry is added exactly when its port is not 0 and nothing in the whole table conflicts with it.\<close>

lemma trans_table_add_spec:
  assumes "trans_ok n"
  shows "trans_table_add n e =
    (if na_port (te_laddr e) = 0 then (- EINVAL, n)
     else if \<exists>f \<in> trans_set n. conflicts e f then (- EADDRINUSE, n)
     else (0, snd (trans_table_add n e)))"
proof -
  have "(\<exists>f \<in> trans_set n. conflicts e f) \<longleftrightarrow> (\<exists>f \<in> set (trans_tbl n (trans_idx n e)). conflicts e f)"
    using conflicts_idx [of e _ n] by (auto simp: trans_set_idx [OF assms])
  then show ?thesis by (simp add: trans_table_add_def Let_def)
qed

lemma trans_table_add_ok:
  assumes "trans_ok n" "trans_table_add n e = (0, n')"
  shows "trans_ok n'" "trans_set n' = insert e (trans_set n)"
proof -
  let ?i = "trans_idx n e"
  have n': "n' = n\<lparr>trans_tbl := (trans_tbl n)(?i := e # trans_tbl n ?i), ephemeral_offset := ephemeral_offset n + 1\<rparr>"
    and c: "\<forall>f \<in> set (trans_tbl n ?i). \<not> conflicts e f" and p: "na_port (te_laddr e) \<noteq> 0"
    using assms(2) by (auto simp: trans_table_add_def Let_def split: if_splits)
  have "e \<notin> set (trans_tbl n ?i)" using c by auto
  moreover have "\<forall>f \<in> set (trans_tbl n ?i). \<not> conflicts f e" using c conflicts_sym by blast
  ultimately show "trans_ok n'"
    using assms(1) c p unfolding trans_ok_def n' by (auto split: if_splits)
  show "trans_set n' = insert e (trans_set n)" by (auto simp: trans_set_def n' split: if_splits)
qed

lemma trans_table_remove_ok:
  assumes "trans_ok n" "e \<in> trans_set n"
  obtains n' where "trans_table_remove n e = Some n'" "trans_ok n'" "trans_set n' = trans_set n - {e}"
proof -
  let ?i = "trans_idx n e"
  let ?n = "n\<lparr>trans_tbl := (trans_tbl n)(?i := remove1 e (trans_tbl n ?i))\<rparr>"
  have d: "\<And>i. distinct (trans_tbl n i)" "\<And>i f. f \<in> set (trans_tbl n i) \<Longrightarrow> i = trans_idx n f"
    using assms(1) by (auto simp: trans_ok_def)
  have "trans_table_remove n e = Some ?n" using assms by (simp add: trans_table_remove_def trans_set_idx)
  moreover have "trans_ok ?n"
    using assms(1) by (auto simp: trans_ok_def set_remove1_eq d)
  moreover have "trans_set ?n = trans_set n - {e}"
    using d(2) by (auto simp: trans_set_def set_remove1_eq d(1) split: if_splits)
  ultimately show ?thesis by (rule that)
qed

text \<open>The look-up finds the entry for both addresses when there is one, and otherwise the one for the local address.\<close>

lemma trans_find_spec:
  assumes "trans_ok n"
  shows "trans_find n proto l r = Some e \<longleftrightarrow>
    e \<in> trans_set n \<and> (match5 proto l r e \<or> match3 proto l e \<and> (\<forall>f \<in> trans_set n. \<not> match5 proto l r f))"
proof -
  have find: "find P xs = Some e \<longleftrightarrow> e \<in> set xs \<and> P e"
    if "\<And>f. f \<in> set xs \<Longrightarrow> P f \<Longrightarrow> P e \<Longrightarrow> e \<in> set xs \<Longrightarrow> f = e" for P and xs :: "trans_entry list"
    using that by (induction xs) auto
  let ?b5 = "trans_tbl n (unat (trans_hash_5tuple n proto l r) mod TRANS_TBL_SIZE)"
  let ?b3 = "trans_tbl n (unat (trans_hash_3tuple n proto l) mod TRANS_TBL_SIZE)"
  have i5: "f \<in> set ?b5 \<longleftrightarrow> f \<in> trans_set n" if "match5 proto l r f" for f
    using that by (simp add: trans_set_idx [OF assms] trans_idx_def match5_def)
  have i3: "f \<in> set ?b3 \<longleftrightarrow> f \<in> trans_set n" if "match3 proto l f" for f
    using that by (simp add: trans_set_idx [OF assms] trans_idx_def match3_def)
  have f5: "find (match5 proto l r) ?b5 = Some e \<longleftrightarrow> e \<in> trans_set n \<and> match5 proto l r e"
    by (subst find) (use i5 trans_no_conflict [OF assms] in \<open>auto simp: match5_def conflicts_def\<close>)
  have f3: "find (match3 proto l) ?b3 = Some e \<longleftrightarrow> e \<in> trans_set n \<and> match3 proto l e"
    by (subst find) (use i3 trans_no_conflict [OF assms] in \<open>auto simp: match3_def conflicts_def\<close>)
  have n5: "find (match5 proto l r) ?b5 = None \<longleftrightarrow> (\<forall>f \<in> trans_set n. \<not> match5 proto l r f)"
    using i5 by (auto simp: find_None_iff)
  have x: "match3 proto l e \<Longrightarrow> \<not> match5 proto l r e" by (simp add: match3_def match5_def)
  show ?thesis
  proof (cases "find (match5 proto l r) ?b5")
    case None
    then show ?thesis using f3 f5 n5 by (auto simp: trans_find_def)
  next
    case (Some f)
    then show ?thesis using f5 n5 x by (auto simp: trans_find_def)
  qed
qed

section \<open>Ephemeral ports\<close>

definition with_port :: "trans_entry \<Rightarrow> u16 \<Rightarrow> trans_entry" where
  "with_port e p = e\<lparr>te_laddr := (te_laddr e)\<lparr>na_port := p\<rparr>\<rparr>"

lemma with_port_simps [simp]:
  "with_port (with_port e p) q = with_port e q" "na_port (te_laddr (with_port e p)) = p" "te_match (with_port e p) = te_match e"
  by (simp_all add: with_port_def)

definition port_free :: "net \<Rightarrow> trans_entry \<Rightarrow> u16 \<Rightarrow> bool" where
  "port_free n e p \<longleftrightarrow> (\<forall>f \<in> trans_set n. \<not> conflicts (with_port e p) f)"

lemma ephemeral_port_range: "MIN_EPHEMERAL \<le> unat (ephemeral_port off k) \<and> unat (ephemeral_port off k) \<le> MAX_EPHEMERAL"
proof -
  have "(k + unat off) mod NUM_EPHEMERAL < 16384" by (simp add: NUM_EPHEMERAL_def MIN_EPHEMERAL_def MAX_EPHEMERAL_def)
  then show ?thesis by (simp add: ephemeral_port_def MIN_EPHEMERAL_def MAX_EPHEMERAL_def unat_of_nat del: of_nat_add)
qed

lemma ephemeral_port_nonzero: "ephemeral_port off k \<noteq> 0"
  using ephemeral_port_range [of off k] by (auto simp: MIN_EPHEMERAL_def)

text \<open>The loop tries every port of the range.\<close>

lemma ephemeral_ports_all:
  assumes "MIN_EPHEMERAL \<le> unat p"
  obtains k where "k < NUM_EPHEMERAL" "ephemeral_port off k = p"
proof -
  let ?d = "unat p - 49152"
  have p: "unat p < 65536" using unat_lt [of p] by simp
  define k where "k = (?d + 16384 - unat off mod 16384) mod 16384"
  have m: "unat off mod 16384 < 16384" by simp
  have "(k + unat off) mod 16384 = ((?d + 16384 - unat off mod 16384) + unat off mod 16384) mod 16384"
    unfolding k_def by (simp only: mod_add_left_eq mod_add_right_eq)
  also have "\<dots> = (?d + 16384) mod 16384" using m by simp
  also have "\<dots> = ?d" using p by simp
  finally have "(k + unat off) mod 16384 = ?d" .
  then have "ephemeral_port off k = p"
    using assms by (simp add: ephemeral_port_def NUM_EPHEMERAL_def MIN_EPHEMERAL_def MAX_EPHEMERAL_def)
  moreover have "k < NUM_EPHEMERAL" by (simp add: k_def NUM_EPHEMERAL_def MIN_EPHEMERAL_def MAX_EPHEMERAL_def)
  ultimately show ?thesis by (rule that [rotated])
qed

lemma port_free_with [simp]: "port_free n (with_port e q) p = port_free n e p"
  by (simp add: port_free_def)

lemma ephemeral_add:
  assumes "trans_ok n"
  shows "fst (trans_table_add n (with_port e (ephemeral_port off k))) = 0 \<longleftrightarrow> port_free n e (ephemeral_port off k)"
  by (subst trans_table_add_spec [OF assms]) (auto simp: port_free_def ephemeral_port_nonzero)

lemma ephemeral_loop_spec:
  "trans_ok n \<Longrightarrow> ephemeral_loop n e off k = (ret, e', n') \<Longrightarrow>
    ret = 0 \<and> (\<exists>j. e' = with_port e (ephemeral_port off j) \<and> trans_table_add n e' = (0, n')) \<or>
    ret = - EADDRNOTAVAIL \<and> n' = n \<and> (\<forall>j. k \<le> j \<longrightarrow> j < NUM_EPHEMERAL \<longrightarrow> \<not> port_free n e (ephemeral_port off j))"
proof (induction n e off k arbitrary: ret e' n' rule: ephemeral_loop.induct)
  case (1 n e off k)
  let ?e = "with_port e (ephemeral_port off k)"
  show ?case
  proof (cases "k < NUM_EPHEMERAL")
    case False
    then show ?thesis using 1(3) by (simp add: ephemeral_loop.simps)
  next
    case True
    obtain r n1 where a: "trans_table_add n ?e = (r, n1)" by fastforce
    show ?thesis
    proof (cases "r = 0")
      case True
      then have "ret = 0 \<and> e' = ?e \<and> n' = n1"
        using 1(3) a \<open>k < NUM_EPHEMERAL\<close> by (subst (asm) ephemeral_loop.simps) (simp add: with_port_def)
      then show ?thesis using a True by blast
    next
      case False
      then have nf: "\<not> port_free n e (ephemeral_port off k)" using ephemeral_add [OF 1(2), of e off k] a by simp
      have "ephemeral_loop n ?e off (k + 1) = (ret, e', n')"
        using 1(3) a \<open>k < NUM_EPHEMERAL\<close> False by (subst (asm) ephemeral_loop.simps) (simp add: with_port_def)
      from 1(1) [OF \<open>k < NUM_EPHEMERAL\<close> _ _ _ False 1(2)] a this
      have "ret = 0 \<and> (\<exists>j. e' = with_port e (ephemeral_port off j) \<and> trans_table_add n e' = (0, n')) \<or>
        ret = - EADDRNOTAVAIL \<and> n' = n \<and> (\<forall>j. k + 1 \<le> j \<longrightarrow> j < NUM_EPHEMERAL \<longrightarrow> \<not> port_free n e (ephemeral_port off j))"
        by (simp add: with_port_def [symmetric])
      then show ?thesis using nf by (metis Suc_eq_plus1 le_antisym not_less_eq_eq)
    qed
  qed
qed

text \<open>The search for an ephemeral port, as a whole.\<close>

lemma ephemeral_add_spec:
  assumes "trans_ok n" "te_match e = TRANS_MATCH_5TUPLE" "trans_table_add_with_ephemeral_port n e = (ret, e', n')"
  shows "(ret = 0 \<longleftrightarrow> (\<exists>p. MIN_EPHEMERAL \<le> unat p \<and> unat p \<le> MAX_EPHEMERAL \<and> port_free n e p)) \<and>
    (ret = 0 \<longrightarrow> (\<exists>p. e' = with_port e p \<and> MIN_EPHEMERAL \<le> unat p \<and> port_free n e p) \<and>
       trans_ok n' \<and> trans_set n' = insert e' (trans_set n) \<and> trans_find n' (te_proto e) (te_laddr e') (te_raddr e) = Some e') \<and>
    (ret \<noteq> 0 \<longrightarrow> ret = - EADDRNOTAVAIL \<and> n' = n)"
proof -
  obtain off where l: "ephemeral_loop n (with_port e 0) off 0 = (ret, e', n')"
    using assms(2,3) by (auto simp: trans_table_add_with_ephemeral_port_def Let_def with_port_def)
  from ephemeral_loop_spec [OF assms(1) l]
  consider (ok) j where "ret = 0" "e' = with_port e (ephemeral_port off j)" "trans_table_add n e' = (0, n')"
    | (full) "ret = - EADDRNOTAVAIL" "n' = n" "\<forall>j. j < NUM_EPHEMERAL \<longrightarrow> \<not> port_free n e (ephemeral_port off j)"
    by auto
  then show ?thesis
  proof cases
    case ok
    have f: "port_free n e (ephemeral_port off j)" using ok ephemeral_add [OF assms(1), of e off j] by simp
    have s: "trans_ok n'" "trans_set n' = insert e' (trans_set n)" using trans_table_add_ok [OF assms(1) ok(3)] by auto
    have "trans_find n' (te_proto e) (te_laddr e') (te_raddr e) = Some e'"
      by (subst trans_find_spec [OF s(1)]) (simp add: s(2) match5_def ok(2) assms(2), simp add: with_port_def)
    then show ?thesis using ok f s ephemeral_port_range by blast
  next
    case full
    have "\<not> port_free n e p" if "MIN_EPHEMERAL \<le> unat p" for p
      using full(3) ephemeral_ports_all [OF that] by metis
    then show ?thesis using full by auto
  qed
qed

end
