(* ===== verification/Tcp_Conn.thy ===== *)
theory Tcp_Conn
  imports Transport
begin

text \<open>
  TCP connections (\<^verbatim>\<open>libos/net/tcp.h\<close>, the first part of \<^verbatim>\<open>libos/net/tcp.c\<close>): the protocol control block, its states, the
  timers, the reference counts, and the life cycle of a connection.

  The functions run with the lock of the connection held where the sources ask for it. Received buffers have one
  owner at any time and are values; buffers to transmit are numbers into the memory of \<^verbatim>\<open>Net_Tx\<close>. A wait queue is the
  list of the waiting tasks, and \<open>c_woken\<close> lists the tasks woken up, in order. \<open>c_spawned\<close> counts the retransmission tasks that a timeout has
  started. A connection is identified by the number \<open>c_sock\<close>.
\<close>

section \<open>Data\<close>

definition TCP_FIN :: u8 where "TCP_FIN = 0x01"
definition TCP_SYN :: u8 where "TCP_SYN = 0x02"
definition TCP_RST :: u8 where "TCP_RST = 0x04"
definition TCP_PUSH :: u8 where "TCP_PUSH = 0x08"
definition TCP_ACK :: u8 where "TCP_ACK = 0x10"

definition TCP_MSS :: nat where "TCP_MSS = 1500 - 20 - 20"
definition TCP_WIN :: u32 where "TCP_WIN = (65535 div 1460) * 1460"
definition TCP_ACK_TIMEOUT :: u64 where "TCP_ACK_TIMEOUT = 10 * 1000"
definition TCP_OOQ_ACK_TIMEOUT :: u64 where "TCP_OOQ_ACK_TIMEOUT = 300 * 1000"
definition TCP_TIME_WAIT_TIMEOUT :: u64 where "TCP_TIME_WAIT_TIMEOUT = 1 * 1000000"
definition TCP_RETRANSMIT_TIMEOUT :: u64 where "TCP_RETRANSMIT_TIMEOUT = 300 * 1000"
definition TCP_FAST_RETRANSMIT_THRESH :: int where "TCP_FAST_RETRANSMIT_THRESH = 3"
definition TCP_OOO_MAX_SIZE :: nat where "TCP_OOO_MAX_SIZE = 2048"
definition TCP_RETRANSMIT_BATCH :: nat where "TCP_RETRANSMIT_BATCH = 16"

abbreviation EPIPE :: int where "EPIPE \<equiv> 32"
abbreviation ECONNABORTED :: int where "ECONNABORTED \<equiv> 103"
abbreviation ECONNRESET :: int where "ECONNRESET \<equiv> 104"

datatype tcp_state = SYN_SENT | SYN_RECEIVED | ESTABLISHED | FIN_WAIT1 | FIN_WAIT2 | CLOSE_WAIT | CLOSING | LAST_ACK | TIME_WAIT | CLOSED

text \<open>The states are compared by their numbers in the enumeration.\<close>

fun state_no :: "tcp_state \<Rightarrow> nat" where
  "state_no SYN_SENT = 0"
| "state_no SYN_RECEIVED = 1"
| "state_no ESTABLISHED = 2"
| "state_no FIN_WAIT1 = 3"
| "state_no FIN_WAIT2 = 4"
| "state_no CLOSE_WAIT = 5"
| "state_no CLOSING = 6"
| "state_no LAST_ACK = 7"
| "state_no TIME_WAIT = 8"
| "state_no CLOSED = 9"

lemma state_no_inj: "state_no s = state_no t \<Longrightarrow> s = t"
  by (cases s; cases t) simp_all

instantiation tcp_state :: linorder
begin

definition less_eq_tcp_state :: "tcp_state \<Rightarrow> tcp_state \<Rightarrow> bool" where
  "s \<le> t \<longleftrightarrow> state_no s \<le> state_no t"

definition less_tcp_state :: "tcp_state \<Rightarrow> tcp_state \<Rightarrow> bool" where
  "s < t \<longleftrightarrow> state_no s < state_no t"

instance
  by standard (auto simp: less_eq_tcp_state_def less_tcp_state_def intro: state_no_inj)

end

lemma state_less [simp]: "(s :: tcp_state) < t \<longleftrightarrow> state_no s < state_no t" "s \<le> t \<longleftrightarrow> state_no s \<le> state_no t"
  by (simp_all add: less_tcp_state_def less_eq_tcp_state_def)

record tcp_pcb =
  state :: tcp_state
  snd_una :: u32
  snd_nxt :: u32
  snd_wnd :: u32
  snd_wl1 :: u32
  snd_wl2 :: u32
  iss :: u32
  rcv_nxt :: u32
  rcv_wnd :: u32
  irs :: u32

record tcp_conn =
  c_sock :: nat
  laddr :: netaddr
  raddr :: netaddr
  pcb :: tcp_pcb
  c_ref :: int
  c_err :: int
  rx_closed :: bool
  rx_exclusive :: bool
  rx_wq :: "nat list"
  rxq_ooo :: "mbuf list"
  rxq :: "mbuf list"
  tx_closed :: bool
  tx_exclusive :: bool
  tx_wq :: "nat list"
  tx_last_ack :: u32
  tx_last_win :: u16
  tx_pending :: "nat option"
  txq :: "nat list"
  do_fast_retransmit :: bool
  fast_retransmit_last_ack :: u32
  next_timeout :: u64
  ack_delayed :: bool
  rcv_wnd_full :: bool
  ack_ts :: u64
  time_wait_ts :: u64
  rep_acks :: int
  c_woken :: "nat list"
  c_spawned :: nat

section \<open>Wait queues\<close>

definition wake_rx_all :: "tcp_conn \<Rightarrow> tcp_conn" where
  "wake_rx_all c = c\<lparr>rx_wq := [], c_woken := c_woken c @ rx_wq c\<rparr>"

definition wake_tx_all :: "tcp_conn \<Rightarrow> tcp_conn" where
  "wake_tx_all c = c\<lparr>tx_wq := [], c_woken := c_woken c @ tx_wq c\<rparr>"

text \<open>\<^verbatim>\<open>waitq_signal\<close> takes one waiter; \<^verbatim>\<open>waitq_release_start\<close> takes all of them, to be woken up once the lock is released.\<close>

definition signal_rx :: "tcp_conn \<Rightarrow> nat option \<times> tcp_conn" where
  "signal_rx c = (case rx_wq c of [] \<Rightarrow> (None, c) | t # ts \<Rightarrow> (Some t, c\<lparr>rx_wq := ts\<rparr>))"

definition release_start_rx :: "tcp_conn \<Rightarrow> nat list \<times> tcp_conn" where
  "release_start_rx c = (rx_wq c, c\<lparr>rx_wq := []\<rparr>)"

definition release_start_tx :: "tcp_conn \<Rightarrow> nat list \<times> tcp_conn" where
  "release_start_tx c = (tx_wq c, c\<lparr>tx_wq := []\<rparr>)"

definition release_finish :: "tcp_conn \<Rightarrow> nat list \<Rightarrow> tcp_conn" where
  "release_finish c ts = c\<lparr>c_woken := c_woken c @ ts\<rparr>"

section \<open>Timers\<close>

definition tcp_timer_update :: "tcp_conn \<Rightarrow> net \<Rightarrow> tcp_conn \<times> net" where
  "tcp_timer_update c n =
     (let t = (if state (pcb c) = TIME_WAIT then time_wait_ts c + TCP_TIME_WAIT_TIMEOUT else - 1);
          t = (if ack_delayed c then min t (ack_ts c + TCP_ACK_TIMEOUT) else t);
          t = (if tx_exclusive c then t
               else case txq c of [] \<Rightarrow> t | a # as \<Rightarrow> min t (m_timestamp (bufs n a) + TCP_RETRANSMIT_TIMEOUT))
      in if rxq_ooo c = [] then (c\<lparr>next_timeout := t\<rparr>, n)
         else let (now, n) = now_us n in (c\<lparr>next_timeout := min t (now + TCP_OOQ_ACK_TIMEOUT)\<rparr>, n))"

section \<open>References\<close>

definition tcp_conn_get :: "tcp_conn \<Rightarrow> tcp_conn option" where
  "tcp_conn_get c = (if c_ref c > 0 then Some (c\<lparr>c_ref := c_ref c + 1\<rparr>) else None)"

text \<open>The entry of a connection in the transport table.\<close>

definition conn_entry :: "tcp_conn \<Rightarrow> trans_entry" where
  "conn_entry c = trans_init_5tuple (c_sock c) IPPROTO_TCP (laddr c) (raddr c)"

definition tcp_conn_destroy :: "tcp_conn \<Rightarrow> net \<Rightarrow> net option" where
  "tcp_conn_destroy c n = trans_table_remove n (conn_entry c)"

definition tcp_conn_release_ref :: "tcp_conn \<Rightarrow> net \<Rightarrow> net option" where
  "tcp_conn_release_ref c n = (if state (pcb c) \<noteq> CLOSED then None else tcp_conn_destroy c n)"

definition tcp_conn_put :: "tcp_conn \<Rightarrow> net \<Rightarrow> (tcp_conn \<times> net) option" where
  "tcp_conn_put c n =
     (let c = c\<lparr>c_ref := c_ref c - 1\<rparr>
      in if c_ref c = 0 then map_option (Pair c) (tcp_conn_release_ref c n) else Some (c, n))"

text \<open>The buffers that the callback of RCU frees.\<close>

definition tcp_conn_release :: "tcp_conn \<Rightarrow> net \<Rightarrow> net" where
  "tcp_conn_release c n =
     (let n = n\<lparr>tcp_conns := remove1 (c_sock c) (tcp_conns n)\<rparr>;
          n = (case tx_pending c of None \<Rightarrow> n | Some a \<Rightarrow> mbuf_free n a)
      in mbuf_list_free n (txq c))"

section \<open>States\<close>

definition tcp_conn_set_state :: "tcp_conn \<Rightarrow> net \<Rightarrow> tcp_state \<Rightarrow> (tcp_conn \<times> net) option" where
  "tcp_conn_set_state c n new_state =
     (if state (pcb c) = CLOSED \<or> state (pcb c) < new_state
      then let c = (if state (pcb c) < ESTABLISHED \<and> ESTABLISHED \<le> new_state then wake_tx_all c else c)
           in Some (tcp_timer_update (c\<lparr>pcb := (pcb c)\<lparr>state := new_state\<rparr>\<rparr>) n)
      else None)"

text \<open>The buffers of the transmit queue up to the first one that is not acknowledged completely.\<close>

fun ack_loop :: "(nat \<Rightarrow> mbuf) \<Rightarrow> u32 \<Rightarrow> nat list \<Rightarrow> nat list \<times> nat list" where
  "ack_loop b una [] = ([], [])"
| "ack_loop b una (a # as) =
     (if wraps_gt (seg_end (b a)) una then ([], a # as)
      else let (freeq, q) = ack_loop b una as in (a # freeq, q))"

definition tcp_conn_ack :: "tcp_conn \<Rightarrow> net \<Rightarrow> nat list \<times> tcp_conn" where
  "tcp_conn_ack c n =
     (if tx_exclusive c then ([], c)
      else let (freeq, q) = ack_loop (bufs n) (snd_una (pcb c)) (txq c) in (freeq, c\<lparr>txq := q\<rparr>))"

definition tcp_conn_fail :: "tcp_conn \<Rightarrow> net \<Rightarrow> int \<Rightarrow> (tcp_conn \<times> net) option" where
  "tcp_conn_fail c n err = do {
     (c, n) \<leftarrow> tcp_conn_set_state (c\<lparr>c_err := err\<rparr>) n CLOSED;
     let c = (if rx_closed c then c else wake_rx_all (c\<lparr>rx_closed := True\<rparr>));
     let c = (if tx_closed c then c else wake_tx_all (c\<lparr>tx_closed := True\<rparr>));
     let (c, n) = (if tx_exclusive c then (c, n)
       else let n = mbuf_list_free n (txq c);
                n = (case tx_pending c of None \<Rightarrow> n | Some a \<Rightarrow> mbuf_free n a)
            in (c\<lparr>txq := [], tx_pending := None\<rparr>, n));
     let c = (if rx_exclusive c then c else c\<lparr>rxq := []\<rparr>);
     tcp_conn_put (c\<lparr>rxq_ooo := []\<rparr>) n
   }"

definition tcp_conn_err :: "tcp_conn \<Rightarrow> net \<Rightarrow> int \<Rightarrow> (tcp_conn \<times> net) option" where
  "tcp_conn_err c n err = tcp_conn_fail c n err"

definition tcp_conn_shutdown_rx :: "tcp_conn \<Rightarrow> tcp_conn" where
  "tcp_conn_shutdown_rx c = (if rx_closed c then c else wake_rx_all (c\<lparr>rx_closed := True\<rparr>))"

section \<open>New connections\<close>

text \<open>The addresses of a new connection are written when it is attached to the transport layer.\<close>

definition tcp_conn_alloc :: "net \<Rightarrow> nat \<Rightarrow> tcp_conn option \<times> net" where
  "tcp_conn_alloc n s =
     (let (ok, n) = smalloc_answer n
      in if \<not> ok then (None, n)
         else let (tsc, n) = now_us n; isn = ucast (rand_crc32c tsc 0x12345678);
                  a0 = \<lparr>na_ip = 0, na_port = 0\<rparr>
              in (Some \<lparr>c_sock = s, laddr = a0, raddr = a0,
                    pcb = \<lparr>state = CLOSED, snd_una = isn, snd_nxt = isn, snd_wnd = 0, snd_wl1 = 0, snd_wl2 = 0, iss = isn,
                      rcv_nxt = 0, rcv_wnd = TCP_WIN, irs = 0\<rparr>,
                    c_ref = 1, c_err = 0, rx_closed = False, rx_exclusive = False, rx_wq = [], rxq_ooo = [], rxq = [],
                    tx_closed = False, tx_exclusive = False, tx_wq = [], tx_last_ack = 0, tx_last_win = 0, tx_pending = None, txq = [],
                    do_fast_retransmit = False, fast_retransmit_last_ack = 0,
                    next_timeout = - 1, ack_delayed = False, rcv_wnd_full = False, ack_ts = 0, time_wait_ts = 0, rep_acks = 0,
                    c_woken = [], c_spawned = 0\<rparr>, n))"

text \<open>The start of the worker thread by the first connection is left out.\<close>

definition tcp_conn_attach :: "tcp_conn \<Rightarrow> net \<Rightarrow> netaddr \<Rightarrow> netaddr \<Rightarrow> int \<times> tcp_conn \<times> net" where
  "tcp_conn_attach c n l r =
     (if na_ip l \<noteq> 0 \<and> na_ip l \<noteq> io_addr n then (- EINVAL, c, n)
      else let l = l\<lparr>na_ip := io_addr n\<rparr>; e = trans_init_5tuple (c_sock c) IPPROTO_TCP l r;
               (ret, e, n) = (if na_port l = 0 then trans_table_add_with_ephemeral_port n e
                              else let (ret, n) = trans_table_add n e in (ret, e, n));
               c = c\<lparr>laddr := te_laddr e, raddr := te_raddr e\<rparr>
           in if ret \<noteq> 0 then (ret, c, n) else (0, c, n\<lparr>tcp_conns := tcp_conns n @ [c_sock c]\<rparr>))"

end
