(* ===== verification/Tcp_Out.thy ===== *)
theory Tcp_Out
  imports Tcp_Conn
begin

text \<open>
  The egress path of TCP (\<^verbatim>\<open>libos/net/tcp_out.c\<close>): headers, resets, acknowledgements, control segments, the segmentation
  of the data of the application, and retransmission; and the part of \<^verbatim>\<open>libos/net/tcp.c\<close> that reacts to timeouts.
\<close>

section \<open>Operations\<close>

text \<open>
  The 18 bytes of a header that the sources write; \<open>x2\<close> is the byte that the data offset shares with four unused bits, and the urgent
  pointer behind them keeps what the buffer held.
\<close>

definition tcp_hdr :: "u16 \<Rightarrow> u16 \<Rightarrow> u32 \<Rightarrow> u32 \<Rightarrow> u8 \<Rightarrow> u8 \<Rightarrow> u16 \<Rightarrow> u16 \<Rightarrow> u8 list" where
  "tcp_hdr sport dport seq ack x2 flags win cksum =
     store16 (hton16 sport) @ store16 (hton16 dport) @ store32 (hton32 seq) @ store32 (hton32 ack) @
     [x2 AND 0x0f OR 0x50, flags] @ store16 (hton16 win) @ store16 cksum"

definition mbuf_push_tcphdr :: "mbuf \<Rightarrow> u16 \<Rightarrow> u16 \<Rightarrow> u32 \<Rightarrow> u32 \<Rightarrow> u8 \<Rightarrow> u16 \<Rightarrow> u16 \<Rightarrow> mbuf option" where
  "mbuf_push_tcphdr m sport dport seq ack flags win cksum = do {
     m \<leftarrow> mbuf_push m 20;
     mbuf_write m (m_data m) (tcp_hdr sport dport seq ack (m_head m ! (m_data m + 12)) flags win cksum)
   }"

definition tcp_push_tcphdr :: "tcp_conn \<Rightarrow> net \<Rightarrow> nat \<Rightarrow> u8 \<Rightarrow> u16 \<Rightarrow> (tcp_conn \<times> net) option" where
  "tcp_push_tcphdr c n a flags l4len = do {
     let ack = rcv_nxt (pcb c);
     let win = ucast (rcv_wnd (pcb c));
     let c = c\<lparr>tx_last_ack := ack, tx_last_win := win\<rparr>;
     m \<leftarrow> mbuf_push_tcphdr (bufs n a) (na_port (laddr c)) (na_port (raddr c)) (seg_seq (bufs n a)) ack flags win
       (ipv4_phdr_cksum IPPROTO_TCP (na_ip (laddr c)) (na_ip (raddr c)) (20 + l4len));
     m \<leftarrow> mbuf_mark_transport_offset m;
     Some (c, set_buf n a m)
   }"

text \<open>\<^verbatim>\<open>tcp_tx_raw_rst\<close> and \<^verbatim>\<open>tcp_tx_raw_rst_ack\<close>, which differ in the flags and the acknowledgement.\<close>

definition tx_raw :: "net \<Rightarrow> netaddr \<Rightarrow> netaddr \<Rightarrow> u32 \<Rightarrow> u32 \<Rightarrow> u8 \<Rightarrow> (int \<times> net) option" where
  "tx_raw n l r seq ack flags = do {
     (m, n) \<leftarrow> net_tx_alloc_mbuf n;
     case m of
       None \<Rightarrow> Some (- ENOMEM, n)
     | Some a \<Rightarrow> do {
         m \<leftarrow> mbuf_push_tcphdr ((bufs n a)\<lparr>txflags := OLFLAG_TCP_CHKSUM\<rparr>) (na_port l) (na_port r) seq ack flags 0
           (ipv4_phdr_cksum IPPROTO_TCP (na_ip l) (na_ip r) 20);
         (ret, n) \<leftarrow> net_tx_ip (set_buf n a m) a IPPROTO_TCP (na_ip r);
         Some (ret, if ret \<noteq> 0 then mbuf_free n a else n)
       }
   }"

definition tcp_tx_raw_rst :: "net \<Rightarrow> netaddr \<Rightarrow> netaddr \<Rightarrow> u32 \<Rightarrow> (int \<times> net) option" where
  "tcp_tx_raw_rst n l r seq = tx_raw n l r seq 0 TCP_RST"

definition tcp_tx_raw_rst_ack :: "net \<Rightarrow> netaddr \<Rightarrow> netaddr \<Rightarrow> u32 \<Rightarrow> u32 \<Rightarrow> (int \<times> net) option" where
  "tcp_tx_raw_rst_ack n l r seq ack = tx_raw n l r seq ack (TCP_RST OR TCP_ACK)"

definition tcp_tx_ack :: "tcp_conn \<Rightarrow> net \<Rightarrow> (int \<times> tcp_conn \<times> net) option" where
  "tcp_tx_ack c n = do {
     (m, n) \<leftarrow> net_tx_alloc_mbuf n;
     case m of
       None \<Rightarrow> Some (- ENOMEM, c, n)
     | Some a \<Rightarrow> do {
         (c, n) \<leftarrow> tcp_push_tcphdr c (set_buf n a ((bufs n a)\<lparr>txflags := OLFLAG_TCP_CHKSUM, seg_seq := snd_nxt (pcb c)\<rparr>)) a TCP_ACK 0;
         (ret, n) \<leftarrow> net_tx_ip n a IPPROTO_TCP (na_ip (raddr c));
         Some (ret, c, if ret \<noteq> 0 then mbuf_free n a else n)
       }
   }"

text \<open>The transmission of a buffer that stays on the transmit queue; when it fails the packet counts as sent.\<close>

definition tx_queued :: "tcp_conn \<Rightarrow> net \<Rightarrow> nat \<Rightarrow> (int \<times> net) option" where
  "tx_queued c n a = do {
     (ret, n) \<leftarrow> net_tx_ip n a IPPROTO_TCP (na_ip (raddr c));
     Some (ret, if ret \<noteq> 0 then set_buf n a ((bufs n a)\<lparr>m_ref := 1\<rparr>) else n)
   }"

definition tcp_tx_ctl :: "tcp_conn \<Rightarrow> net \<Rightarrow> u8 \<Rightarrow> (int \<times> tcp_conn \<times> net) option" where
  "tcp_tx_ctl c n flags = do {
     (m, n) \<leftarrow> net_tx_alloc_mbuf n;
     case m of
       None \<Rightarrow> Some (- ENOMEM, c, n)
     | Some a \<Rightarrow> do {
         let seq = snd_nxt (pcb c);
         (c, n) \<leftarrow> tcp_push_tcphdr c (set_buf n a
            ((bufs n a)\<lparr>txflags := OLFLAG_TCP_CHKSUM, seg_seq := seq, seg_end := seq + 1, m_flags := flags\<rparr>)) a flags 0;
         let c = c\<lparr>pcb := (pcb c)\<lparr>snd_nxt := seq + 1\<rparr>, txq := txq c @ [a]\<rparr>;
         let (now, n) = now_us n;
         (ret, n) \<leftarrow> tx_queued c (set_buf n a ((bufs n a)\<lparr>m_timestamp := now, m_ref := 2, m_release := tcp_tx_release_mbuf\<rparr>)) a;
         Some (ret, c, n)
       }
   }"

text \<open>
  One round of the segmenter, on the data that is left. The result is an error or 0, whether the loop ends, the new
  state, and the data that is left then.
\<close>

definition tcp_tx_buffer :: "tcp_conn \<Rightarrow> net \<Rightarrow> u8 list \<Rightarrow> ((nat \<times> nat) option \<times> tcp_conn \<times> net) option" where
  "tcp_tx_buffer c n buf =
     (case tx_pending c of
        Some a \<Rightarrow>
          let seglen = min (length buf) (unat (of_nat TCP_MSS - of_nat (mbuf_length (bufs n a)) :: u64))
          in Some (Some (a, seglen), c\<lparr>tx_pending := None\<rparr>,
               set_buf n a ((bufs n a)\<lparr>seg_end := seg_end (bufs n a) + of_nat seglen\<rparr>))
      | None \<Rightarrow> do {
          (m, n) \<leftarrow> net_tx_alloc_mbuf n;
          case m of
            None \<Rightarrow> Some (None, c, n)
          | Some a \<Rightarrow>
              let seglen = min (length buf) TCP_MSS
              in Some (Some (a, seglen), c,
                   set_buf n a ((bufs n a)\<lparr>seg_seq := snd_nxt (pcb c), seg_end := snd_nxt (pcb c) + of_nat seglen,
                     m_flags := TCP_ACK, m_ref := 2, m_release := tcp_tx_release_mbuf\<rparr>))
        })"

text \<open>The unsigned difference in the test for a full buffer wraps around for short ones.\<close>

definition keep_pending :: "mbuf \<Rightarrow> bool" where
  "keep_pending m \<longleftrightarrow> (of_nat (mbuf_length m) - 20 :: u64) < of_nat TCP_MSS"

definition tcp_tx_send_step ::
  "tcp_conn \<Rightarrow> net \<Rightarrow> u8 list \<Rightarrow> bool \<Rightarrow> (int \<times> bool \<times> tcp_conn \<times> net \<times> u8 list) option" where
  "tcp_tx_send_step c n buf push = do {
     (r, c, n) \<leftarrow> tcp_tx_buffer c n buf;
     case r of
       None \<Rightarrow> Some (- ENOBUFS, True, c, n, buf)
     | Some (a, seglen) \<Rightarrow> do {
         m \<leftarrow> mbuf_put_bytes (bufs n a) (take seglen buf);
         let c = c\<lparr>pcb := (pcb c)\<lparr>snd_nxt := snd_nxt (pcb c) + of_nat seglen\<rparr>\<rparr>;
         let rest = drop seglen buf;
         if \<not> push \<and> rest = [] \<and> keep_pending m
         then Some (0, True, c\<lparr>tx_pending := Some a\<rparr>, set_buf n a m, rest)
         else do {
           let m = (if push \<and> rest = [] then m\<lparr>m_flags := m_flags m OR TCP_PUSH\<rparr> else m);
           (c, n) \<leftarrow> tcp_push_tcphdr c (set_buf n a m) a (m_flags m) (ucast (seg_end m - seg_seq m));
           let c = c\<lparr>txq := txq c @ [a]\<rparr>;
           let (now, n) = now_us n;
           (ret, n) \<leftarrow> tx_queued c (set_buf n a ((bufs n a)\<lparr>m_timestamp := now, txflags := OLFLAG_TCP_CHKSUM\<rparr>)) a;
           Some (ret, False, c, n, rest)
         }
       }
   }"

lemma bind_SomeE: "Option.bind x f = Some y \<Longrightarrow> (\<And>z. x = Some z \<Longrightarrow> f z = Some y \<Longrightarrow> P) \<Longrightarrow> P"
  by (cases x) simp_all

lemma tcp_push_tcphdr_conn:
  "tcp_push_tcphdr c n a flags l4len = Some (c', n') \<Longrightarrow> c' = c\<lparr>tx_last_ack := rcv_nxt (pcb c), tx_last_win := ucast (rcv_wnd (pcb c))\<rparr>"
  by (auto simp: tcp_push_tcphdr_def Let_def elim!: bind_SomeE)

lemma length_drop_cases: "length (drop k xs) < length xs \<or> drop k xs = xs"
  by (cases "k = 0 \<or> xs = []") auto

lemma tcp_tx_buffer_pending:
  assumes "tcp_tx_buffer c n buf = Some (Some (a, k), c', n')"
  shows "tx_pending c' = None" "tx_pending c = None \<Longrightarrow> buf \<noteq> [] \<Longrightarrow> k > 0"
  using assms by (auto simp: tcp_tx_buffer_def Let_def TCP_MSS_def elim!: bind_SomeE split: option.splits)

lemma tcp_tx_send_step_less:
  assumes "tcp_tx_send_step c n buf push = Some (ret, False, c', n', rest)" "buf \<noteq> []"
  shows "tx_pending c' = None \<and> (length rest < length buf \<or> rest = buf \<and> tx_pending c \<noteq> None)"
proof -
  obtain a k c1 n1 where b: "tcp_tx_buffer c n buf = Some (Some (a, k), c1, n1)" and r: "rest = drop k buf" and p: "tx_pending c' = tx_pending c1"
    using assms(1)
    by (auto simp: tcp_tx_send_step_def Let_def elim!: bind_SomeE split: option.splits if_splits prod.splits dest!: tcp_push_tcphdr_conn)
  have "length rest < length buf \<or> rest = buf" unfolding r by (rule length_drop_cases)
  moreover have "rest \<noteq> buf" if "tx_pending c = None"
    using tcp_tx_buffer_pending(2) [OF b that assms(2)] assms(2) length_drop [of k buf] by (auto simp: r simp del: length_drop)
  ultimately show ?thesis using p tcp_tx_buffer_pending(1) [OF b] by auto
qed

function tcp_tx_send_loop ::
  "tcp_conn \<Rightarrow> net \<Rightarrow> u8 list \<Rightarrow> bool \<Rightarrow> int \<Rightarrow> (int \<times> tcp_conn \<times> net \<times> u8 list) option" where
  "tcp_tx_send_loop c n buf push ret =
     (if buf = [] then Some (ret, c, n, buf)
      else case tcp_tx_send_step c n buf push of
             None \<Rightarrow> None
           | Some (ret, stop, c', n', rest) \<Rightarrow> if stop then Some (ret, c', n', rest) else tcp_tx_send_loop c' n' rest push ret)"
  by pat_completeness auto
termination
  by (relation "measure (\<lambda>(c, n, buf, push, ret). 2 * length buf + (if tx_pending c = None then 0 else 1))")
    (auto dest!: tcp_tx_send_step_less)

declare tcp_tx_send_loop.simps [simp del]

definition tcp_tx_send :: "tcp_conn \<Rightarrow> net \<Rightarrow> u8 list \<Rightarrow> bool \<Rightarrow> (int \<times> tcp_conn \<times> net) option" where
  "tcp_tx_send c n buf push =
     (if \<not> ESTABLISHED \<le> state (pcb c) then None
      else do {
        (ret, c, n, rest) \<leftarrow> tcp_tx_send_loop c n buf push 0;
        let sent = length buf - length rest;
        Some (if sent > 0 then int sent else ret, c, n)
      })"

section \<open>Retransmission\<close>

definition mbuf_read :: "mbuf \<Rightarrow> nat \<Rightarrow> nat \<Rightarrow> u8 list option" where
  "mbuf_read m pos len = (if pos + len > head_len m then None else Some (take len (drop pos (m_head m))))"

text \<open>
  The buffer to send again: the segment itself, stripped of its headers, when nobody else holds it, and a copy otherwise.
\<close>

definition retransmit_buffer :: "net \<Rightarrow> nat \<Rightarrow> u16 \<Rightarrow> (nat option \<times> net) option" where
  "retransmit_buffer n a l4len =
     (let m = bufs n a
      in if m_ref m \<noteq> 1
         then do {
           (r, n) \<leftarrow> net_tx_alloc_mbuf n;
           case r of
             None \<Rightarrow> Some (None, n)
           | Some b \<Rightarrow> do {
               bs \<leftarrow> mbuf_read m (transport_off m + 20) (unat l4len);
               newm \<leftarrow> mbuf_put_bytes (bufs n b) bs;
               Some (Some b, set_buf n b (newm\<lparr>m_flags := m_flags m, seg_seq := seg_seq m, seg_end := seg_end m, txflags := OLFLAG_TCP_CHKSUM\<rparr>))
             }
         }
         else do {
           m \<leftarrow> mbuf_reset m (transport_off m + 20);
           Some (Some a, set_buf n a (m\<lparr>m_ref := 2\<rparr>))
         })"

definition tcp_tx_retransmit_one :: "tcp_conn \<Rightarrow> net \<Rightarrow> nat \<Rightarrow> (int \<times> tcp_conn \<times> net) option" where
  "tcp_tx_retransmit_one c n a = do {
     let l4len = ucast (seg_end (bufs n a) - seg_seq (bufs n a)) - (if m_flags (bufs n a) AND (TCP_SYN OR TCP_FIN) \<noteq> 0 then 1 else 0);
     (r, n) \<leftarrow> retransmit_buffer n a l4len;
     case r of
       None \<Rightarrow> Some (- ENOMEM, c, n)
     | Some b \<Rightarrow> do {
         let una = snd_una (pcb c);
         let m = bufs n b;
         if wraps_lte (seg_end m) una then Some (0, c, mbuf_free n b)
         else do {
           m \<leftarrow> (if wraps_lt (seg_seq m) una then map_option (\<lambda>m. m\<lparr>seg_seq := una\<rparr>) (mbuf_pull m (unat (una - seg_seq m))) else Some m);
           (c, n) \<leftarrow> tcp_push_tcphdr c (set_buf n b m) b (m_flags m) l4len;
           (ret, n) \<leftarrow> net_tx_ip n b IPPROTO_TCP (na_ip (raddr c));
           Some (ret, c, if ret \<noteq> 0 then mbuf_free n b else n)
         }
       }
   }"

definition tcp_tx_fast_retransmit_start :: "tcp_conn \<Rightarrow> net \<Rightarrow> nat option \<times> net" where
  "tcp_tx_fast_retransmit_start c n =
     (if tx_exclusive c then (None, n)
      else case txq c of
             [] \<Rightarrow> (None, n)
           | a # as \<Rightarrow>
               let (now, n) = now_us n
               in (Some a, set_buf n a ((bufs n a)\<lparr>m_timestamp := now, m_ref := m_ref (bufs n a) + 1\<rparr>)))"

definition tcp_tx_fast_retransmit_finish :: "tcp_conn \<Rightarrow> net \<Rightarrow> nat option \<Rightarrow> (tcp_conn \<times> net) option" where
  "tcp_tx_fast_retransmit_finish c n r =
     (case r of
        None \<Rightarrow> Some (c, n)
      | Some a \<Rightarrow> do { (ret, c, n) \<leftarrow> tcp_tx_retransmit_one c n a; Some (c, mbuf_free n a) })"

text \<open>The loop over the transmit queue; \<open>cnt\<close> counts the packets sent.\<close>

fun retransmit_loop :: "tcp_conn \<Rightarrow> net \<Rightarrow> u64 \<Rightarrow> nat \<Rightarrow> nat list \<Rightarrow> (tcp_conn \<times> net) option" where
  "retransmit_loop c n now cnt [] = Some (c, n)"
| "retransmit_loop c n now cnt (a # as) =
     (if now - m_timestamp (bufs n a) < TCP_RETRANSMIT_TIMEOUT then Some (c, n)
      else if wraps_gte (snd_una (pcb c)) (seg_end (bufs n a)) then retransmit_loop c n now cnt as
      else do {
        (ret, c, n) \<leftarrow> tcp_tx_retransmit_one c (set_buf n a ((bufs n a)\<lparr>m_timestamp := now\<rparr>)) a;
        if ret \<noteq> 0 \<or> cnt + 1 \<ge> TCP_RETRANSMIT_BATCH then Some (c, n) else retransmit_loop c n now (cnt + 1) as
      })"

definition tcp_tx_retransmit :: "tcp_conn \<Rightarrow> net \<Rightarrow> (tcp_conn \<times> net) option" where
  "tcp_tx_retransmit c n = (let (now, n) = now_us n in retransmit_loop c n now 0 (txq c))"

section \<open>Timeouts\<close>

text \<open>What is left to do once the expired timers are known.\<close>

definition timeouts_send :: "tcp_conn \<Rightarrow> net \<Rightarrow> bool \<Rightarrow> bool \<Rightarrow> (tcp_conn \<times> net) option" where
  "timeouts_send c n do_ack do_retransmit = do {
     c \<leftarrow> (if do_retransmit then tcp_conn_get c else Some c);
     let do_ack = (do_ack \<or> rxq_ooo c \<noteq> []);
     let (c, n) = tcp_timer_update c n;
     (c, n) \<leftarrow> (if do_ack then do { (ret, c, n) \<leftarrow> tcp_tx_ack c n; Some (c, n) } else Some (c, n));
     Some (if do_retransmit then c\<lparr>c_spawned := c_spawned c + 1\<rparr> else c, n)
   }"

definition tcp_handle_timeouts :: "tcp_conn \<Rightarrow> net \<Rightarrow> u64 \<Rightarrow> (tcp_conn \<times> net) option" where
  "tcp_handle_timeouts c n now =
     (if state (pcb c) = CLOSED then Some (c, n)
      else if state (pcb c) = TIME_WAIT \<and> now - time_wait_ts c \<ge> TCP_TIME_WAIT_TIMEOUT
      then do { (c, n) \<leftarrow> tcp_conn_set_state c n CLOSED; tcp_conn_put c n }
      else let do_ack = (ack_delayed c \<and> now - ack_ts c \<ge> TCP_ACK_TIMEOUT);
               c = (if do_ack then c\<lparr>ack_delayed := False\<rparr> else c);
               do_retransmit = (\<not> tx_exclusive c \<and> txq c \<noteq> [] \<and> now - m_timestamp (bufs n (hd (txq c))) \<ge> TCP_RETRANSMIT_TIMEOUT)
           in timeouts_send c n do_ack do_retransmit)"

text \<open>One round of \<^verbatim>\<open>tcp_worker\<close> over the connections.\<close>

fun tcp_worker_loop :: "tcp_conn list \<Rightarrow> net \<Rightarrow> u64 \<Rightarrow> (tcp_conn list \<times> net) option" where
  "tcp_worker_loop [] n now = Some ([], n)"
| "tcp_worker_loop (c # cs) n now = do {
     (c, n) \<leftarrow> (if next_timeout c \<le> now then tcp_handle_timeouts c n now else Some (c, n));
     (cs, n) \<leftarrow> tcp_worker_loop cs n now;
     Some (c # cs, n)
   }"

definition tcp_worker :: "tcp_conn list \<Rightarrow> net \<Rightarrow> (tcp_conn list \<times> net) option" where
  "tcp_worker cs n = (let (now, n) = now_us n in tcp_worker_loop cs n now)"

end
