(* ===== verification/Tcp_In.thy ===== *)
theory Tcp_In
  imports Tcp_Out
begin

text \<open>
  The ingress path of TCP (\<^verbatim>\<open>libos/net/tcp_in.c\<close>): acceptance of segments, the queues of received text, and the state machine of a
  connection. A received buffer that no queue takes over is freed: it does not appear in the result.
\<close>

section \<open>Text\<close>

definition is_acceptable :: "tcp_conn \<Rightarrow> u32 \<Rightarrow> u32 \<Rightarrow> bool" where
  "is_acceptable c len seq =
     (let nxt = rcv_nxt (pcb c); wnd = rcv_wnd (pcb c)
      in if len = 0 \<and> wnd = 0 then seq = nxt
         else if len = 0 \<and> wnd > 0 then wraps_lte nxt seq \<and> wraps_lt seq (nxt + wnd)
         else if len > 0 \<and> wnd = 0 then False
         else (wraps_lte nxt seq \<and> wraps_lt seq (nxt + wnd)) \<or>
              (wraps_lte nxt (seq + len - 1) \<and> wraps_lt (seq + len - 1) (nxt + wnd)))"

definition is_snd_full :: "tcp_conn \<Rightarrow> bool" where
  "is_snd_full c = wraps_lte (snd_una (pcb c) + snd_wnd (pcb c)) (snd_nxt (pcb c))"

definition send_rst :: "tcp_conn \<Rightarrow> net \<Rightarrow> bool \<Rightarrow> u32 \<Rightarrow> u32 \<Rightarrow> u32 \<Rightarrow> net option" where
  "send_rst c n acked seq ack len =
     (if acked then map_option snd (tcp_tx_raw_rst n (laddr c) (raddr c) ack)
      else map_option snd (tcp_tx_raw_rst_ack n (laddr c) (raddr c) 0 (seq + len)))"

definition clip_head :: "u32 \<Rightarrow> mbuf \<Rightarrow> mbuf option" where
  "clip_head nxt m =
     (if wraps_lt (seg_seq m) nxt
      then let len = nxt - seg_seq m in map_option (\<lambda>m. m\<lparr>seg_seq := seg_seq m + len\<rparr>) (mbuf_pull m (unat len))
      else Some m)"

definition clip_tail :: "u32 \<Rightarrow> mbuf \<Rightarrow> mbuf option" where
  "clip_tail edge m =
     (if wraps_lt edge (seg_end m)
      then let len = seg_end m - edge in map_option (\<lambda>m. m\<lparr>seg_end := edge\<rparr>) (mbuf_trim m (unat len))
      else Some m)"

definition tcp_rx_append_text :: "tcp_conn \<Rightarrow> mbuf \<Rightarrow> tcp_conn option" where
  "tcp_rx_append_text c m =
     (let nxt = rcv_nxt (pcb c); wnd = rcv_wnd (pcb c)
      in if \<not> wraps_lte (seg_seq m) nxt \<or> \<not> wraps_gt (seg_end m) nxt then None
         else do {
           m \<leftarrow> clip_head nxt m;
           m \<leftarrow> clip_tail (nxt + wnd) m;
           if wnd < seg_end m - seg_seq m then None
           else do {
             let c = c\<lparr>pcb := (pcb c)\<lparr>rcv_nxt := seg_end m, rcv_wnd := wnd - (seg_end m - seg_seq m)\<rparr>\<rparr>;
             let c = (if rcv_wnd (pcb c) = 0 then c\<lparr>rcv_wnd_full := True\<rparr> else c);
             Some (c\<lparr>rxq := rxq c @ [m]\<rparr>)
           }
         })"

text \<open>The place of a segment in the queue of those that are out of order, if it is to be kept; \<open>sz\<close> counts the entries passed.\<close>

fun ooo_insert :: "nat \<Rightarrow> mbuf \<Rightarrow> mbuf list \<Rightarrow> mbuf list option" where
  "ooo_insert sz m [] = (if sz \<ge> TCP_OOO_MAX_SIZE then None else Some [m])"
| "ooo_insert sz m (pos # q) =
     (if wraps_lt (seg_seq m) (seg_seq pos) then Some (m # pos # q)
      else if wraps_lte (seg_end m) (seg_end pos) then None
      else map_option ((#) pos) (ooo_insert (sz + 1) m q))"

definition push_or_fin :: "u8 \<Rightarrow> bool" where
  "push_or_fin flags \<longleftrightarrow> flags AND (TCP_PUSH OR TCP_FIN) \<noteq> 0"

text \<open>The loop that drains the queue looks at the flags of the new segment.\<close>

fun tcp_rx_drain :: "u8 \<Rightarrow> bool \<Rightarrow> tcp_conn \<Rightarrow> mbuf list \<Rightarrow> (bool \<times> tcp_conn) option" where
  "tcp_rx_drain flags wake c [] = Some (wake, c\<lparr>rxq_ooo := []\<rparr>)"
| "tcp_rx_drain flags wake c (pos # q) =
     (if wraps_lte (seg_end pos) (rcv_nxt (pcb c)) then tcp_rx_drain flags wake c q
      else if wraps_gt (seg_seq pos) (rcv_nxt (pcb c)) then Some (wake, c\<lparr>rxq_ooo := pos # q\<rparr>)
      else do {
        c \<leftarrow> tcp_rx_append_text c pos;
        tcp_rx_drain flags (wake \<or> push_or_fin flags) c q
      })"

text \<open>The results: has the segment been used, and is a reader to be woken up.\<close>

definition tcp_rx_text :: "tcp_conn \<Rightarrow> mbuf \<Rightarrow> (bool \<times> bool \<times> tcp_conn) option" where
  "tcp_rx_text c m =
     (let drain = \<lambda>wake c. do {
            (wake, c) \<leftarrow> tcp_rx_drain (m_flags m) wake c (rxq_ooo c);
            Some (True, wake \<or> rcv_wnd (pcb c) = 0, c)
          }
      in if rcv_wnd (pcb c) = 0 then Some (False, False, c)
         else if wraps_lte (seg_seq m) (rcv_nxt (pcb c))
         then do { c \<leftarrow> tcp_rx_append_text c m; drain (push_or_fin (m_flags m)) c }
         else case ooo_insert 0 m (rxq_ooo c) of
                None \<Rightarrow> Some (False, False, c)
              | Some q \<Rightarrow> drain False (c\<lparr>rxq_ooo := q\<rparr>))"

section \<open>Connections\<close>

record tcp_seg =
  sg_seq :: u32
  sg_ack :: u32
  sg_win :: u16
  sg_flags :: u8
  sg_len :: u32

text \<open>The fields of a TCP header at an offset of the packet.\<close>

definition tcphdr_sport :: "u8 list \<Rightarrow> nat \<Rightarrow> u16" where "tcphdr_sport bs i = ntoh16 (load16 bs i)"
definition tcphdr_dport :: "u8 list \<Rightarrow> nat \<Rightarrow> u16" where "tcphdr_dport bs i = ntoh16 (load16 bs (i + 2))"
definition tcphdr_seq :: "u8 list \<Rightarrow> nat \<Rightarrow> u32" where "tcphdr_seq bs i = ntoh32 (load32 bs (i + 4))"
definition tcphdr_ack :: "u8 list \<Rightarrow> nat \<Rightarrow> u32" where "tcphdr_ack bs i = ntoh32 (load32 bs (i + 8))"
definition tcphdr_off :: "u8 list \<Rightarrow> nat \<Rightarrow> u8" where "tcphdr_off bs i = drop_bit 4 (bs ! (i + 12))"
definition tcphdr_flags :: "u8 list \<Rightarrow> nat \<Rightarrow> u8" where "tcphdr_flags bs i = bs ! (i + 13)"
definition tcphdr_win :: "u8 list \<Rightarrow> nat \<Rightarrow> u16" where "tcphdr_win bs i = ntoh16 (load16 bs (i + 14))"

definition has_flag :: "tcp_seg \<Rightarrow> u8 \<Rightarrow> bool" where
  "has_flag sg f \<longleftrightarrow> sg_flags sg AND f \<noteq> 0"

text \<open>The first part of \<^verbatim>\<open>tcp_rx_conn\<close>: the segment and its buffer, or nothing when the packet is dropped.\<close>

definition tcp_rx_parse :: "mbuf \<Rightarrow> (tcp_seg \<times> mbuf) option option" where
  "tcp_rx_parse m =
     (let h = m_head m; i = m_data m
      in case mbuf_pull_or_null m 20 of
           None \<Rightarrow> Some None
         | Some m \<Rightarrow>
             let hdr_len = 4 * ucast (tcphdr_off h i) :: u32;
                 len = ucast (iphdr_len h (network_off m)) - 20 - hdr_len;
                 fin = tcphdr_flags h i AND TCP_FIN \<noteq> 0
             in if hdr_len < 20 then Some None
                else if unat len > mbuf_length m then Some None
                else do {
                  m \<leftarrow> mbuf_pull m (unat (hdr_len - 20));
                  Some (Some (\<lparr>sg_seq = tcphdr_seq h i, sg_ack = tcphdr_ack h i, sg_win = tcphdr_win h i, sg_flags = tcphdr_flags h i,
                    sg_len = if fin then len + 1 else len\<rparr>, m))
                })"

text \<open>The work that is left until the lock of the connection has been released.\<close>

record rx_work =
  w_ack :: bool
  w_drop :: bool
  w_freeq :: "nat list"
  w_waiters :: "nat list"
  w_task :: "nat option"
  w_retransmit :: "nat option"

type_synonym rx_state = "tcp_conn \<times> net \<times> rx_work"

definition rx_work0 :: rx_work where
  "rx_work0 = \<lparr>w_ack = False, w_drop = True, w_freeq = [], w_waiters = [], w_task = None, w_retransmit = None\<rparr>"

text \<open>The window the sender uses leaves room for a FIN and for the sequence number of a RST.\<close>

definition usable_wnd :: "u16 \<Rightarrow> u32" where
  "usable_wnd win = (if win > 1 then ucast win - 2 else 0)"

definition set_snd_wnd :: "tcp_conn \<Rightarrow> tcp_seg \<Rightarrow> tcp_conn" where
  "set_snd_wnd c sg = c\<lparr>pcb := (pcb c)\<lparr>snd_wnd := usable_wnd (sg_win sg), snd_wl1 := sg_seq sg, snd_wl2 := sg_ack sg\<rparr>\<rparr>"

definition rx_set_state :: "tcp_state \<Rightarrow> rx_state \<Rightarrow> rx_state option" where
  "rx_set_state st = (\<lambda>(c, n, w). map_option (\<lambda>(c, n). (c, n, w)) (tcp_conn_set_state c n st))"

definition rx_fail :: "int \<Rightarrow> rx_state \<Rightarrow> rx_state option" where
  "rx_fail err = (\<lambda>(c, n, w). map_option (\<lambda>(c, n). (c, n, w)) (tcp_conn_fail c n err))"

definition rx_rst :: "bool \<Rightarrow> tcp_seg \<Rightarrow> rx_state \<Rightarrow> rx_state option" where
  "rx_rst acked sg = (\<lambda>(c, n, w). map_option (\<lambda>n. (c, n, w)) (send_rst c n acked (sg_seq sg) (sg_ack sg) (sg_len sg)))"

text \<open>\<^verbatim>\<open>TCP_STATE_SYN_SENT\<close>; \<open>nxt\<close> is the value of \<^verbatim>\<open>snd_nxt\<close> that was read before the lock was taken.\<close>

definition rx_syn :: "tcp_seg \<Rightarrow> rx_state \<Rightarrow> rx_state option" where
  "rx_syn sg = (\<lambda>(c, n, w).
     if \<not> has_flag sg TCP_SYN then Some (c, n, w)
     else let c = c\<lparr>pcb := (pcb c)\<lparr>rcv_nxt := sg_seq sg + 1, irs := sg_seq sg\<rparr>\<rparr>;
              (q, c) = (if has_flag sg TCP_ACK then tcp_conn_ack (c\<lparr>pcb := (pcb c)\<lparr>snd_una := sg_ack sg\<rparr>\<rparr>) n else ([], c));
              w = w\<lparr>w_freeq := w_freeq w @ q\<rparr>
          in if wraps_gt (snd_una (pcb c)) (iss (pcb c))
             then rx_set_state ESTABLISHED (set_snd_wnd c sg, n, w\<lparr>w_ack := True\<rparr>)
             else do {
               (ret, c, n) \<leftarrow> tcp_tx_ctl c n (TCP_SYN OR TCP_ACK);
               if ret \<noteq> 0 then Some (c, n, w) else rx_set_state SYN_RECEIVED (c, n, w)
             })"

definition rx_syn_sent :: "u32 \<Rightarrow> tcp_seg \<Rightarrow> rx_state \<Rightarrow> rx_state option" where
  "rx_syn_sent nxt sg = (\<lambda>(c, n, w).
     if has_flag sg TCP_ACK
     then if wraps_lte (sg_ack sg) (iss (pcb c)) \<or> wraps_gt (sg_ack sg) nxt then rx_rst False sg (c, n, w)
          else if has_flag sg TCP_RST \<and> wraps_lte (snd_una (pcb c)) (sg_ack sg) \<and> wraps_lte (sg_ack sg) nxt
          then rx_fail ECONNRESET (c, n, w)
          else rx_syn sg (c, n, w)
     else if has_flag sg TCP_RST then Some (c, n, w)
     else rx_syn sg (c, n, w))"

text \<open>
  The steps for the other states. Their first result tells whether the code goes to \<^verbatim>\<open>done\<close>. First the steps 1, 2 and 4.
\<close>

definition rx_check :: "tcp_seg \<Rightarrow> rx_state \<Rightarrow> (bool \<times> rx_state) option" where
  "rx_check sg = (\<lambda>(c, n, w).
     if \<not> is_acceptable c (sg_len sg) (sg_seq sg) then Some (True, c, n, w\<lparr>w_ack := \<not> has_flag sg TCP_RST\<rparr>)
     else if has_flag sg TCP_RST then map_option (Pair True) (rx_fail ECONNRESET (c, n, w))
     else if has_flag sg TCP_SYN
     then do { s \<leftarrow> rx_rst (has_flag sg TCP_ACK) sg (c, n, w); s \<leftarrow> rx_fail ECONNRESET s; Some (True, s) }
     else Some (\<not> has_flag sg TCP_ACK, c, n, w))"

text \<open>Step 5: a connection that has not been established, duplicate acknowledgements, the acknowledgement and the window.\<close>

definition rx_established :: "u32 \<Rightarrow> tcp_seg \<Rightarrow> rx_state \<Rightarrow> (bool \<times> rx_state) option" where
  "rx_established nxt sg = (\<lambda>(c, n, w).
     if state (pcb c) \<noteq> SYN_RECEIVED then Some (False, c, n, w)
     else if \<not> (wraps_lte (snd_una (pcb c)) (sg_ack sg) \<and> wraps_lte (sg_ack sg) nxt)
     then map_option (Pair True) (rx_rst True sg (c, n, w))
     else map_option (Pair False) (rx_set_state ESTABLISHED (set_snd_wnd c sg, n, w)))"

definition rx_dup_ack :: "tcp_seg \<Rightarrow> rx_state \<Rightarrow> rx_state" where
  "rx_dup_ack sg = (\<lambda>(c, n, w).
     if sg_ack sg = snd_una (pcb c) \<and> snd_una (pcb c) \<noteq> snd_nxt (pcb c) \<and> sg_len sg = 0
     then let c = c\<lparr>rep_acks := rep_acks c + 1\<rparr>
          in if rep_acks c \<ge> TCP_FAST_RETRANSMIT_THRESH
             then if tx_exclusive c
                  then (c\<lparr>do_fast_retransmit := True, fast_retransmit_last_ack := sg_ack sg, rep_acks := 0\<rparr>, n, w)
                  else let (r, n) = tcp_tx_fast_retransmit_start c n in (c\<lparr>rep_acks := 0\<rparr>, n, w\<lparr>w_retransmit := r\<rparr>)
             else (c, n, w)
     else (c, n, w))"

definition rx_window :: "tcp_seg \<Rightarrow> tcp_conn \<Rightarrow> tcp_conn" where
  "rx_window sg c =
     (if wraps_lt (snd_wl1 (pcb c)) (sg_seq sg) \<or> (snd_wl1 (pcb c) = sg_seq sg \<and> wraps_lte (snd_wl2 (pcb c)) (sg_ack sg))
      then (set_snd_wnd c sg)\<lparr>rep_acks := 0\<rparr> else c)"

definition rx_ack :: "u32 \<Rightarrow> tcp_seg \<Rightarrow> rx_state \<Rightarrow> bool \<times> rx_state" where
  "rx_ack nxt sg = (\<lambda>(c, n, w).
     let snd_was_full = is_snd_full c;
         continue = \<lambda>c w. (let c = rx_window sg c
            in if snd_was_full \<and> \<not> is_snd_full c
               then let (ws, c) = release_start_tx c in (False, c, n, w\<lparr>w_waiters := w_waiters w @ ws\<rparr>)
               else (False, c, n, w))
     in if wraps_lte (snd_una (pcb c)) (sg_ack sg) \<and> wraps_lte (sg_ack sg) nxt
        then let c = (if snd_una (pcb c) \<noteq> sg_ack sg then c\<lparr>rep_acks := 0\<rparr> else c);
                 (q, c) = tcp_conn_ack (c\<lparr>pcb := (pcb c)\<lparr>snd_una := sg_ack sg\<rparr>\<rparr>) n
             in continue c (w\<lparr>w_freeq := w_freeq w @ q\<rparr>)
        else if wraps_gt (sg_ack sg) nxt then (True, c, n, w\<lparr>w_ack := True\<rparr>)
        else continue c w)"

text \<open>The acknowledgement of the own FIN.\<close>

definition rx_fin_acked :: "u32 \<Rightarrow> rx_state \<Rightarrow> (bool \<times> rx_state) option" where
  "rx_fin_acked nxt = (\<lambda>(c, n, w).
     if state (pcb c) = FIN_WAIT1 \<and> snd_una (pcb c) = nxt then map_option (Pair False) (rx_set_state FIN_WAIT2 (c, n, w))
     else if state (pcb c) = CLOSING \<and> snd_una (pcb c) = nxt
     then let (now, n) = now_us n in map_option (Pair False) (rx_set_state TIME_WAIT (c\<lparr>time_wait_ts := now\<rparr>, n, w))
     else if state (pcb c) = LAST_ACK \<and> snd_una (pcb c) = nxt
     then do { (c, n, w) \<leftarrow> rx_set_state CLOSED (c, n, w); (c, n) \<leftarrow> tcp_conn_put c n; Some (True, c, n, w) }
     else Some (False, c, n, w))"

text \<open>Step 7: the text.\<close>

definition rx_text :: "tcp_seg \<Rightarrow> mbuf \<Rightarrow> rx_state \<Rightarrow> rx_state option" where
  "rx_text sg m = (\<lambda>(c, n, w).
     if sg_len sg > 0 \<and> state (pcb c) \<in> {ESTABLISHED, FIN_WAIT1, FIN_WAIT2}
     then do {
       (used, wake, c) \<leftarrow> tcp_rx_text c (m\<lparr>seg_seq := sg_seq sg, seg_end := sg_seq sg + sg_len sg, m_flags := sg_flags sg\<rparr>);
       if wake \<and> (rxq c = [] \<or> \<not> used) then None
       else do {
         let (t, c) = (if wake then signal_rx c else (None, c));
         let (c, n) = (if ack_delayed c then (c, n) else let (now, n) = now_us n in (c\<lparr>ack_delayed := True, ack_ts := now\<rparr>, n));
         Some (c, n, w\<lparr>w_drop := \<not> used, w_task := t, w_ack := (w_ack w \<or> rxq_ooo c \<noteq> [])\<rparr>)
       }
     }
     else Some (c, n, w))"

text \<open>Step 8: the FIN of the peer.\<close>

definition rx_fin :: "u32 \<Rightarrow> tcp_seg \<Rightarrow> rx_state \<Rightarrow> rx_state option" where
  "rx_fin nxt sg = (\<lambda>(c, n, w).
     if \<not> has_flag sg TCP_FIN then Some (c, n, w)
     else if state (pcb c) = SYN_RECEIVED \<or> state (pcb c) = ESTABLISHED then rx_set_state CLOSE_WAIT (c, n, w)
     else if state (pcb c) = FIN_WAIT1
     then if snd_una (pcb c) = nxt then None else rx_set_state CLOSING (c, n, w)
     else if state (pcb c) = FIN_WAIT2
     then let (now, n) = now_us n in rx_set_state TIME_WAIT (c\<lparr>time_wait_ts := now\<rparr>, n, w\<lparr>w_ack := True\<rparr>)
     else Some (c, n, w))"

definition tcp_rx_locked :: "u32 \<Rightarrow> tcp_seg \<Rightarrow> mbuf \<Rightarrow> rx_state \<Rightarrow> rx_state option" where
  "tcp_rx_locked nxt sg m = (\<lambda>(c, n, w).
     if state (pcb c) = CLOSED
     then if has_flag sg TCP_RST then Some (c, n, w) else rx_rst False sg (c, n, w)
     else if state (pcb c) = SYN_SENT then rx_syn_sent nxt sg (c, n, w)
     else do {
       (done, s) \<leftarrow> rx_check sg (c, n, w);
       if done then Some s
       else do {
         (done, s) \<leftarrow> rx_established nxt sg s;
         if done then Some s
         else do {
           let (done, s) = rx_ack nxt sg (rx_dup_ack sg s);
           if done then Some s
           else do {
             (done, s) \<leftarrow> rx_fin_acked nxt s;
             if done then Some s
             else do { s \<leftarrow> rx_text sg m s; rx_fin nxt sg s }
           }
         }
       }
     })"

definition rx_finish :: "rx_state \<Rightarrow> (tcp_conn \<times> net) option" where
  "rx_finish = (\<lambda>(c, n, w). do {
     let c = release_finish c (w_waiters w);
     let c = (case w_task w of None \<Rightarrow> c | Some t \<Rightarrow> release_finish c [t]);
     let n = mbuf_list_free n (w_freeq w);
     (c, n) \<leftarrow> tcp_tx_fast_retransmit_finish c n (w_retransmit w);
     if w_ack w then do { (ret, c, n) \<leftarrow> tcp_tx_ack c n; Some (c, n) } else Some (c, n)
   })"

definition tcp_rx_conn :: "tcp_conn \<Rightarrow> net \<Rightarrow> u32 \<Rightarrow> mbuf \<Rightarrow> (tcp_conn \<times> net) option" where
  "tcp_rx_conn c n nxt m = do {
     p \<leftarrow> tcp_rx_parse m;
     case p of
       None \<Rightarrow> Some (c, n)
     | Some (sg, m) \<Rightarrow> do {
         (c, n, w) \<leftarrow> tcp_rx_locked nxt sg m (c, n, rx_work0);
         let (c, n) = tcp_timer_update c n;
         rx_finish (c, n, w)
       }
   }"

section \<open>Listening sockets and closed ports\<close>

text \<open>A new connection for a SYN; \<open>s\<close> is the number it gets.\<close>

definition tcp_rx_listener ::
  "nat \<Rightarrow> net \<Rightarrow> netaddr \<Rightarrow> mbuf \<Rightarrow> (tcp_conn option \<times> net) option" where
  "tcp_rx_listener s n l m =
     (let h = m_head m; i = m_data m; k = network_off m
      in case mbuf_pull_or_null m 20 of
           None \<Rightarrow> Some (None, n)
         | Some m \<Rightarrow>
             let r = \<lparr>na_ip = iphdr_saddr h k, na_port = tcphdr_sport h i\<rparr>; flags = tcphdr_flags h i
             in if flags AND TCP_RST \<noteq> 0 then Some (None, n)
                else if flags AND TCP_ACK \<noteq> 0
                then do { (ret, n) \<leftarrow> tcp_tx_raw_rst n l r (tcphdr_ack h i); Some (None, n) }
                else if flags AND TCP_SYN = 0 then Some (None, n)
                else if (ucast (iphdr_len h k) :: u64) - 20 \<noteq> 4 * ucast (tcphdr_off h i) then Some (None, n)
                else case tcp_conn_alloc n s of
                       (None, n) \<Rightarrow> Some (None, n)
                     | (Some c, n) \<Rightarrow>
                         let seq = tcphdr_seq h i;
                             (ret, c, n) = tcp_conn_attach (c\<lparr>pcb := (pcb c)\<lparr>irs := seq, rcv_nxt := seq + 1\<rparr>\<rparr>) n l r
                         in if ret \<noteq> 0 then Some (None, n)
                            else do {
                              (ret, c, n) \<leftarrow> tcp_tx_ctl c n (TCP_SYN OR TCP_ACK);
                              if ret \<noteq> 0 then do { n \<leftarrow> tcp_conn_destroy c n; Some (None, n) }
                              else do {
                                c \<leftarrow> tcp_conn_get c;
                                (c, n) \<leftarrow> tcp_conn_set_state c n SYN_RECEIVED;
                                Some (Some c, n)
                              }
                            })"

definition tcp_rx_closed :: "net \<Rightarrow> mbuf \<Rightarrow> net option" where
  "tcp_rx_closed n m =
     (let h = m_head m; i = m_data m; k = network_off m
      in case mbuf_pull_or_null m 20 of
           None \<Rightarrow> Some n
         | Some m \<Rightarrow>
             let l = \<lparr>na_ip = iphdr_daddr h k, na_port = tcphdr_dport h i\<rparr>; r = \<lparr>na_ip = iphdr_saddr h k, na_port = tcphdr_sport h i\<rparr>;
                 flags = tcphdr_flags h i
             in if flags AND TCP_RST \<noteq> 0 then Some n
                else if flags AND TCP_ACK \<noteq> 0 then map_option snd (tcp_tx_raw_rst n l r (tcphdr_ack h i))
                else let len = ucast (iphdr_len h k) - 20 - 4 * ucast (tcphdr_off h i)
                     in map_option snd (tcp_tx_raw_rst_ack n l r 0 (tcphdr_seq h i + len)))"

end
