(* ===== verification/Tcp_Sock.thy ===== *)
theory Tcp_Sock
  imports Tcp_In
begin

text \<open>
  The socket interface of TCP (the second part of \<^verbatim>\<open>libos/net/tcp.c\<close>): listening queues, connection set-up, reading, writing, and the ways to
  close a connection.

  An operation that may wait evaluates its condition once: it either blocks, with the calling task \<open>self\<close> on the wait queue, or goes on.
  A woken task evaluates the condition again. Where the sources release the lock in between, an operation is cut
  into the parts that run under the lock.
\<close>

section \<open>Blocking\<close>

datatype 'a blocking = Blocks | Returns 'a

definition wait_rx :: "tcp_conn \<Rightarrow> nat \<Rightarrow> tcp_conn" where
  "wait_rx c self = c\<lparr>rx_wq := rx_wq c @ [self]\<rparr>"

definition wait_tx :: "tcp_conn \<Rightarrow> nat \<Rightarrow> tcp_conn" where
  "wait_tx c self = c\<lparr>tx_wq := tx_wq c @ [self]\<rparr>"

section \<open>Listening queues\<close>

text \<open>The connections that have not been accepted are given by their numbers.\<close>

record tcp_queue =
  q_sock :: nat
  q_laddr :: netaddr
  q_wq :: "nat list"
  q_conns :: "nat list"
  q_backlog :: int
  q_shutdown :: bool
  q_woken :: "nat list"

definition queue_entry :: "tcp_queue \<Rightarrow> trans_entry" where
  "queue_entry q = trans_init_3tuple (q_sock q) IPPROTO_TCP (q_laddr q)"

text \<open>\<open>s\<close> is the number of the new connection.\<close>

definition tcp_queue_recv :: "nat \<Rightarrow> tcp_queue \<Rightarrow> net \<Rightarrow> mbuf \<Rightarrow> (tcp_conn option \<times> tcp_queue \<times> net) option" where
  "tcp_queue_recv s q n m =
     (if q_backlog q = 0 \<or> q_shutdown q then Some (None, q, n)
      else do {
        (r, n) \<leftarrow> tcp_rx_listener s n (q_laddr q) m;
        case r of
          None \<Rightarrow> Some (None, q, n)
        | Some c \<Rightarrow>
            let q = q\<lparr>q_backlog := q_backlog q - 1, q_conns := q_conns q @ [c_sock c]\<rparr>
            in Some (Some c, case q_wq q of [] \<Rightarrow> q | t # ts \<Rightarrow> q\<lparr>q_wq := ts, q_woken := q_woken q @ [t]\<rparr>, n)
      })"

definition tcp_listen :: "nat \<Rightarrow> net \<Rightarrow> netaddr \<Rightarrow> int \<Rightarrow> (int + tcp_queue) \<times> net" where
  "tcp_listen s n l backlog =
     (if backlog < 1 then (Inl (- EINVAL), n)
      else if na_ip l \<noteq> 0 \<and> na_ip l \<noteq> io_addr n then (Inl (- EINVAL), n)
      else let l = l\<lparr>na_ip := io_addr n\<rparr>; (ok, n) = smalloc_answer n
           in if \<not> ok then (Inl (- ENOMEM), n)
              else let q = \<lparr>q_sock = s, q_laddr = l, q_wq = [], q_conns = [], q_backlog = backlog, q_shutdown = False, q_woken = []\<rparr>;
                       (ret, n) = trans_table_add n (queue_entry q)
                   in if ret \<noteq> 0 then (Inl ret, n) else (Inr q, n))"

definition tcp_accept :: "tcp_queue \<Rightarrow> nat \<Rightarrow> (int + nat) blocking \<times> tcp_queue" where
  "tcp_accept q self =
     (case q_conns q of
        [] \<Rightarrow> if q_shutdown q then (Returns (Inl (- EPIPE)), q) else (Blocks, q\<lparr>q_wq := q_wq q @ [self]\<rparr>)
      | c # cs \<Rightarrow> (Returns (Inr c), q\<lparr>q_backlog := q_backlog q + 1, q_conns := cs\<rparr>))"

definition tcp_qshutdown_locked :: "tcp_queue \<Rightarrow> net \<Rightarrow> (tcp_queue \<times> net) option" where
  "tcp_qshutdown_locked q n =
     (if q_shutdown q then None
      else map_option (Pair (q\<lparr>q_shutdown := True\<rparr>)) (trans_table_remove n (queue_entry q)))"

definition tcp_qshutdown :: "tcp_queue \<Rightarrow> net \<Rightarrow> (tcp_queue \<times> net) option" where
  "tcp_qshutdown q n =
     map_option (\<lambda>(q, n). (q\<lparr>q_wq := [], q_woken := q_woken q @ q_wq q\<rparr>, n)) (tcp_qshutdown_locked q n)"

fun destroy_all :: "(nat \<Rightarrow> tcp_conn) \<Rightarrow> net \<Rightarrow> nat list \<Rightarrow> net option" where
  "destroy_all conns n [] = Some n"
| "destroy_all conns n (s # ss) = do { n \<leftarrow> tcp_conn_destroy (conns s) n; destroy_all conns n ss }"

definition tcp_qclose :: "(nat \<Rightarrow> tcp_conn) \<Rightarrow> tcp_queue \<Rightarrow> net \<Rightarrow> (tcp_queue \<times> net) option" where
  "tcp_qclose conns q n = do {
     (q, n) \<leftarrow> (if q_shutdown q then Some (q, n) else tcp_qshutdown_locked q n);
     if q_wq q \<noteq> [] then None
     else do { n \<leftarrow> destroy_all conns n (q_conns q); Some (q\<lparr>q_conns := []\<rparr>, n) }
   }"

section \<open>Connection set-up\<close>

text \<open>\<^verbatim>\<open>tcp_dial\<close> up to the wait, and what it does whenever it is awake.\<close>

definition tcp_dial_start :: "nat \<Rightarrow> net \<Rightarrow> netaddr \<Rightarrow> netaddr \<Rightarrow> ((int + tcp_conn) \<times> net) option" where
  "tcp_dial_start s n l r =
     (case tcp_conn_alloc n s of
        (None, n) \<Rightarrow> Some (Inl (- ENOMEM), n)
      | (Some c, n) \<Rightarrow>
          (case tcp_conn_attach c n l r of
             (ret, c, n) \<Rightarrow>
               if ret \<noteq> 0 then Some (Inl ret, n)
               else do {
                 (ret, c, n) \<leftarrow> tcp_tx_ctl c n TCP_SYN;
                 if ret \<noteq> 0 then do { n \<leftarrow> tcp_conn_destroy c n; Some (Inl ret, n) }
                 else do {
                   c \<leftarrow> tcp_conn_get c;
                   (c, n) \<leftarrow> tcp_conn_set_state c n SYN_SENT;
                   Some (Inr c, n)
                 }
               }))"

definition tcp_dial_check :: "tcp_conn \<Rightarrow> net \<Rightarrow> nat \<Rightarrow> (int blocking \<times> tcp_conn \<times> net) option" where
  "tcp_dial_check c n self =
     (if \<not> tx_closed c \<and> state (pcb c) < ESTABLISHED then Some (Blocks, wait_tx c self, n)
      else if tx_closed c then do { n \<leftarrow> tcp_conn_destroy c n; Some (Returns (- c_err c), c, n) }
      else Some (Returns 0, c, n))"

definition tcp_local_addr :: "tcp_conn \<Rightarrow> netaddr" where "tcp_local_addr c = laddr c"
definition tcp_remote_addr :: "tcp_conn \<Rightarrow> netaddr" where "tcp_remote_addr c = raddr c"

section \<open>Reading\<close>

text \<open>
  The loop that takes buffers off the receive queue: the bytes counted, the buffers taken, and whether the first buffer that is left
  is to be read in part.
\<close>

fun read_loop :: "nat \<Rightarrow> nat \<Rightarrow> tcp_conn \<Rightarrow> mbuf list \<Rightarrow> mbuf list \<Rightarrow> nat \<times> mbuf list \<times> bool \<times> tcp_conn" where
  "read_loop len readlen c q [] = (readlen, q, False, c\<lparr>rxq := []\<rparr>)"
| "read_loop len readlen c q (m # ms) =
     (if readlen \<ge> len then (readlen, q, False, c\<lparr>rxq := m # ms\<rparr>)
      else let fin = m_flags m AND TCP_FIN \<noteq> 0; c = (if fin then tcp_conn_shutdown_rx c else c)
           in if fin \<and> mbuf_length m = 0 then (readlen, q, False, c\<lparr>rxq := m # ms\<rparr>)
              else if len - readlen < mbuf_length m then (len, q, True, c\<lparr>rxq := m # ms, rx_exclusive := True\<rparr>)
              else read_loop len (readlen + mbuf_length m) c (q @ [m]) ms)"

definition tcp_read_wait :: "tcp_conn \<Rightarrow> net \<Rightarrow> nat \<Rightarrow> nat \<Rightarrow> ((int \<times> mbuf list \<times> bool) blocking \<times> tcp_conn \<times> net) option" where
  "tcp_read_wait c n self len =
     (if \<not> rx_closed c \<and> (rx_exclusive c \<or> rxq c = []) then Some (Blocks, wait_rx c self, n)
      else if rx_closed c then Some (Returns (- c_err c, [], False), c, n)
      else case read_loop len 0 c [] (rxq c) of
             (readlen, q, part, c) \<Rightarrow>
               let c = c\<lparr>pcb := (pcb c)\<lparr>rcv_wnd := rcv_wnd (pcb c) + of_nat readlen\<rparr>\<rparr>
               in if rcv_wnd_full c \<and> rcv_wnd (pcb c) \<ge> TCP_WIN div 4
                  then do { (ret, c, n) \<leftarrow> tcp_tx_ack c n; Some (Returns (int readlen, q, part), c\<lparr>rcv_wnd_full := False\<rparr>, n) }
                  else Some (Returns (int readlen, q, part), c, n))"

definition tcp_read_finish :: "tcp_conn \<Rightarrow> bool \<Rightarrow> tcp_conn" where
  "tcp_read_finish c part =
     (if \<not> part then c
      else let (ws, c) = release_start_rx (c\<lparr>rx_exclusive := False\<rparr>) in release_finish c ws)"

text \<open>The copies made after the wait: whole buffers, then the first bytes of the buffer that stays on the queue.\<close>

definition tcp_read_copy :: "tcp_conn \<Rightarrow> nat \<Rightarrow> mbuf list \<Rightarrow> bool \<Rightarrow> (u8 list \<times> tcp_conn) option" where
  "tcp_read_copy c len q part =
     (let bs = concat (map mbuf_data q)
      in if \<not> part then Some (bs, c)
         else case rxq c of
                [] \<Rightarrow> None
              | m # ms \<Rightarrow>
                  let cpylen = len - length bs
                  in do {
                    m' \<leftarrow> mbuf_pull m cpylen;
                    Some (bs @ take cpylen (mbuf_data m), c\<lparr>rxq := m'\<lparr>seg_seq := seg_seq m + of_nat cpylen\<rparr> # ms\<rparr>)
                  })"

definition tcp_read :: "tcp_conn \<Rightarrow> net \<Rightarrow> nat \<Rightarrow> nat \<Rightarrow> ((int \<times> u8 list) blocking \<times> tcp_conn \<times> net) option" where
  "tcp_read c n self len = do {
     (r, c, n) \<leftarrow> tcp_read_wait c n self len;
     case r of
       Blocks \<Rightarrow> Some (Blocks, c, n)
     | Returns (ret, q, part) \<Rightarrow>
         if ret \<le> 0 then Some (Returns (ret, []), c, n)
         else do {
           (bs, c) \<leftarrow> tcp_read_copy c len q part;
           Some (Returns (ret, bs), tcp_read_finish c part, n)
         }
   }"

section \<open>Writing\<close>

definition tcp_write_wait :: "tcp_conn \<Rightarrow> nat \<Rightarrow> (int + nat) blocking \<times> tcp_conn" where
  "tcp_write_wait c self =
     (if \<not> tx_closed c \<and> (state (pcb c) < ESTABLISHED \<or> tx_exclusive c \<or>
          wraps_lte (snd_una (pcb c) + snd_wnd (pcb c)) (snd_nxt (pcb c)))
      then (Blocks, wait_tx c self)
      else if tx_closed c then (Returns (Inl (if c_err c \<noteq> 0 then - c_err c else - EPIPE)), c)
      else (Returns (Inr (unat (snd_una (pcb c) + snd_wnd (pcb c) - snd_nxt (pcb c)))), c\<lparr>tx_exclusive := True\<rparr>))"

definition tcp_write_finish :: "tcp_conn \<Rightarrow> net \<Rightarrow> (tcp_conn \<times> net) option" where
  "tcp_write_finish c n =
     (if \<not> tx_exclusive c then None
      else let (q, c) = tcp_conn_ack (c\<lparr>tx_exclusive := False\<rparr>) n;
               (c, n) = (if rcv_nxt (pcb c) = tx_last_ack c then (c\<lparr>ack_delayed := False\<rparr>, n)
                         else let (now, n) = now_us n in (c\<lparr>ack_ts := now\<rparr>, n));
               (r, q, c, n) =
                 (if state (pcb c) = CLOSED
                  then (None, q @ txq c @ (case tx_pending c of None \<Rightarrow> [] | Some a \<Rightarrow> [a]), c\<lparr>txq := [], tx_pending := None\<rparr>, n)
                  else if do_fast_retransmit c
                  then let c = c\<lparr>do_fast_retransmit := False\<rparr>
                       in if fast_retransmit_last_ack c = snd_una (pcb c)
                          then let (r, n) = tcp_tx_fast_retransmit_start c n in (r, q, c, n)
                          else (None, q, c, n)
                  else (None, q, c, n));
               (c, n) = tcp_timer_update c n;
               (ws, c) = release_start_tx c
           in do {
             (c, n) \<leftarrow> tcp_tx_fast_retransmit_finish c n r;
             Some (release_finish c ws, mbuf_list_free n q)
           })"

text \<open>The two parts of \<^verbatim>\<open>tcp_write\<close> and \<^verbatim>\<open>tcp_writev\<close> after the wait.\<close>

definition tcp_write_send :: "tcp_conn \<Rightarrow> net \<Rightarrow> u8 list \<Rightarrow> nat \<Rightarrow> (int \<times> tcp_conn \<times> net) option" where
  "tcp_write_send c n buf winlen = do {
     (ret, c, n) \<leftarrow> tcp_tx_send c n (take winlen buf) (length buf \<le> winlen);
     (c, n) \<leftarrow> tcp_write_finish c n;
     Some (ret, c, n)
   }"

definition tcp_write :: "tcp_conn \<Rightarrow> net \<Rightarrow> nat \<Rightarrow> u8 list \<Rightarrow> (int blocking \<times> tcp_conn \<times> net) option" where
  "tcp_write c n self buf =
     (case tcp_write_wait c self of
        (Blocks, c) \<Rightarrow> Some (Blocks, c, n)
      | (Returns (Inl e), c) \<Rightarrow> Some (Returns e, c, n)
      | (Returns (Inr winlen), c) \<Rightarrow> map_option (\<lambda>(ret, c, n). (Returns ret, c, n)) (tcp_write_send c n buf winlen))"

fun writev_loop :: "tcp_conn \<Rightarrow> net \<Rightarrow> u8 list list \<Rightarrow> nat \<Rightarrow> int \<Rightarrow> int \<Rightarrow> (int \<times> tcp_conn \<times> net) option" where
  "writev_loop c n [] winlen sent ret = Some (if sent > 0 then sent else ret, c, n)"
| "writev_loop c n (v # vs) winlen sent ret =
     (if winlen = 0 then Some (if sent > 0 then sent else ret, c, n)
      else do {
        (ret, c, n) \<leftarrow> tcp_tx_send c n (take winlen v) (vs = [] \<and> length v \<le> winlen);
        if ret \<le> 0 then Some (if sent > 0 then sent else ret, c, n)
        else writev_loop c n vs (winlen - nat ret) (sent + ret) ret
      })"

definition tcp_writev :: "tcp_conn \<Rightarrow> net \<Rightarrow> nat \<Rightarrow> u8 list list \<Rightarrow> (int blocking \<times> tcp_conn \<times> net) option" where
  "tcp_writev c n self iov =
     (case tcp_write_wait c self of
        (Blocks, c) \<Rightarrow> Some (Blocks, c, n)
      | (Returns (Inl e), c) \<Rightarrow> Some (Returns e, c, n)
      | (Returns (Inr winlen), c) \<Rightarrow> do {
          (ret, c, n) \<leftarrow> writev_loop c n iov winlen 0 0;
          (c, n) \<leftarrow> tcp_write_finish c n;
          Some (Returns ret, c, n)
        })"

text \<open>The task that a timeout starts: it blocks while a writer is busy.\<close>

definition tcp_retransmit :: "tcp_conn \<Rightarrow> net \<Rightarrow> nat \<Rightarrow> (unit blocking \<times> tcp_conn \<times> net) option" where
  "tcp_retransmit c n self =
     (if tx_exclusive c \<and> state (pcb c) \<noteq> CLOSED then Some (Blocks, wait_tx c self, n)
      else do {
        (c, n) \<leftarrow> (if state (pcb c) \<noteq> CLOSED
                  then do { (c, n) \<leftarrow> tcp_tx_retransmit (c\<lparr>tx_exclusive := True\<rparr>) n; tcp_write_finish c n }
                  else Some (c, n));
        (c, n) \<leftarrow> tcp_conn_put c n;
        Some (Returns (), c, n)
      })"

section \<open>Closing\<close>

definition tcp_conn_shutdown_tx :: "tcp_conn \<Rightarrow> net \<Rightarrow> nat \<Rightarrow> (int blocking \<times> tcp_conn \<times> net) option" where
  "tcp_conn_shutdown_tx c n self =
     (if tx_closed c then Some (Returns 0, c, n)
      else if \<not> ESTABLISHED \<le> state (pcb c) then None
      else if tx_exclusive c then Some (Blocks, wait_tx c self, n)
      else do {
        (ret, c, n) \<leftarrow> tcp_tx_ctl c n (TCP_FIN OR TCP_ACK);
        if ret \<noteq> 0 then Some (Returns ret, c, n)
        else do {
          (c, n) \<leftarrow> (if state (pcb c) = ESTABLISHED then tcp_conn_set_state c n FIN_WAIT1
                    else if state (pcb c) = CLOSE_WAIT then tcp_conn_set_state c n LAST_ACK
                    else Some (c, n));
          Some (Returns 0, wake_tx_all (c\<lparr>tx_closed := True\<rparr>), n)
        }
      })"

datatype shut_how = SHUT_RD | SHUT_WR | SHUT_RDWR

text \<open>Any other value of \<^verbatim>\<open>how\<close> is \<open>None\<close> here and an error.\<close>

definition tcp_shutdown :: "tcp_conn \<Rightarrow> net \<Rightarrow> nat \<Rightarrow> shut_how option \<Rightarrow> (int blocking \<times> tcp_conn \<times> net) option" where
  "tcp_shutdown c n self how =
     (case how of
        None \<Rightarrow> Some (Returns (- EINVAL), c, n)
      | Some h \<Rightarrow> do {
          (r, c, n) \<leftarrow> (if h = SHUT_WR \<or> h = SHUT_RDWR then tcp_conn_shutdown_tx c n self else Some (Returns 0, c, n));
          case r of
            Blocks \<Rightarrow> Some (Blocks, c, n)
          | Returns ret \<Rightarrow>
              if ret \<noteq> 0 then Some (Returns ret, c, n)
              else Some (Returns 0, if h = SHUT_RD \<or> h = SHUT_RDWR then tcp_conn_shutdown_rx c else c, n)
        })"

text \<open>\<^verbatim>\<open>tcp_abort\<close>: the failure of the connection, and the resets, of which ten are tried.\<close>

definition tcp_abort_start :: "tcp_conn \<Rightarrow> net \<Rightarrow> (bool \<times> tcp_conn \<times> net) option" where
  "tcp_abort_start c n =
     (if state (pcb c) = CLOSED then Some (False, c, n)
      else map_option (Pair True) (tcp_conn_fail c n ECONNABORTED))"

fun abort_rst :: "nat \<Rightarrow> net \<Rightarrow> netaddr \<Rightarrow> netaddr \<Rightarrow> u32 \<Rightarrow> net option" where
  "abort_rst 0 n l r seq = Some n"
| "abort_rst (Suc k) n l r seq = do {
     (ret, n) \<leftarrow> tcp_tx_raw_rst n l r seq;
     if ret = 0 then Some n else abort_rst k n l r seq
   }"

definition tcp_abort_finish :: "tcp_conn \<Rightarrow> net \<Rightarrow> nat \<Rightarrow> (unit blocking \<times> tcp_conn \<times> net) option" where
  "tcp_abort_finish c n self =
     (if tx_exclusive c then Some (Blocks, wait_tx c self, n)
      else do { n \<leftarrow> abort_rst 10 n (laddr c) (raddr c) (snd_nxt (pcb c)); Some (Returns (), c, n) })"

definition tcp_close :: "tcp_conn \<Rightarrow> net \<Rightarrow> nat \<Rightarrow> (unit blocking \<times> tcp_conn \<times> net) option" where
  "tcp_close c n self =
     (if rx_wq c \<noteq> [] then None
      else do {
        (r, c, n) \<leftarrow> tcp_conn_shutdown_tx c n self;
        case r of
          Blocks \<Rightarrow> Some (Blocks, c, n)
        | Returns ret \<Rightarrow> do {
            (c, n) \<leftarrow> (if ret \<noteq> 0 then tcp_conn_fail c n (- ret) else Some (c, n));
            (c, n) \<leftarrow> tcp_conn_put (tcp_conn_shutdown_rx c) n;
            Some (Returns (), c, n)
          }
      })"

end
