(* ===== verification/Tcp_Stream.thy ===== *)
theory Tcp_Stream
  imports Tcp_Sock
begin

text \<open>
  The receiving side of a connection delivers the byte stream of the peer. The stream is a function from positions to bytes, and \<open>L\<close>
  is its length; the byte at position \<open>p\<close> has the sequence number \<open>base + p\<close>, and a FIN has that of position \<open>L\<close>. \<open>R\<close> is the position
  that \<^verbatim>\<open>rcv_nxt\<close> stands for.
\<close>

section \<open>Sequence numbers\<close>

definition near :: "nat \<Rightarrow> nat \<Rightarrow> bool" where
  "near a b \<longleftrightarrow> a < b + 2 ^ 31 \<and> b < a + 2 ^ 31"

lemma sint_seq_diff:
  assumes "near a b"
  shows "sint ((base + of_nat a) - (base + of_nat b) :: u32) = int a - int b"
proof -
  have "(base + of_nat a) - (base + of_nat b) = (word_of_int (int a - int b) :: u32)"
    by (simp add: of_int_diff)
  then have "sint ((base + of_nat a) - (base + of_nat b) :: u32) = signed_take_bit 31 (int a - int b)"
    by (simp only: signed_of_int) simp
  also have "\<dots> = int a - int b"
    using assms by (intro signed_take_bit_int_eq_self) (simp_all add: near_def)
  finally show ?thesis .
qed

lemma near_sym: "near a b \<Longrightarrow> near b a"
  by (simp add: near_def)

lemma wraps_near:
  assumes "near a b"
  shows "wraps_lt (base + of_nat a) (base + of_nat b) \<longleftrightarrow> a < b"
    "wraps_lte (base + of_nat a) (base + of_nat b) \<longleftrightarrow> a \<le> b"
    "wraps_gt (base + of_nat a) (base + of_nat b) \<longleftrightarrow> b < a"
  using sint_seq_diff [OF assms, of base] sint_seq_diff [OF near_sym [OF assms], of base]
  by (simp_all add: wraps_lt_def wraps_lte_def wraps_gt_def)

lemma seq_diff:
  assumes "a \<le> b" "b - a < 2 ^ 32"
  shows "unat ((base + of_nat b) - (base + of_nat a) :: u32) = b - a"
proof -
  have "(base + of_nat b) - (base + of_nat a) = (of_nat (b - a) :: u32)" using assms(1) by (simp add: of_nat_diff)
  then show ?thesis using assms(2) by (simp add: unat_of_nat)
qed

section \<open>Segments of the stream\<close>

definition piece :: "(nat \<Rightarrow> 'a) \<Rightarrow> nat \<Rightarrow> nat \<Rightarrow> 'a list" where
  "piece strm i j = map strm [i..<j]"

lemma piece_simps [simp]: "length (piece s i j) = j - i" "piece s i i = []"
  by (simp_all add: piece_def)

lemma piece_append: "i \<le> j \<Longrightarrow> j \<le> k \<Longrightarrow> piece s i j @ piece s j k = piece s i k"
  unfolding piece_def by (metis le_Suc_ex map_append upt_add_eq_append le_add1 order_trans)

lemma take_piece: "take k (piece s i j) = piece s i (min (i + k) j)"
  by (auto simp: piece_def take_map take_upt min_def)

lemma drop_piece: "drop k (piece s i j) = piece s (i + k) j"
  by (simp add: piece_def drop_map)

definition fin_len :: "mbuf \<Rightarrow> nat" where
  "fin_len m = (if m_flags m AND TCP_FIN \<noteq> 0 then 1 else 0)"

definition end_at :: "mbuf \<Rightarrow> nat \<Rightarrow> nat" where
  "end_at m p = p + m_len m + fin_len m"

text \<open>The segment carries the part of the stream at position \<open>p\<close>; a FIN stands at the end of the stream.\<close>

definition seg_at :: "(nat \<Rightarrow> u8) \<Rightarrow> nat \<Rightarrow> u32 \<Rightarrow> mbuf \<Rightarrow> nat \<Rightarrow> bool" where
  "seg_at strm L base m p \<longleftrightarrow> mbuf_ok m \<and> m_len m \<le> 65535 \<and>
     seg_seq m = base + of_nat p \<and> seg_end m = base + of_nat (end_at m p) \<and>
     mbuf_data m = piece strm p (p + m_len m) \<and> p + m_len m \<le> L \<and> (fin_len m = 1 \<longrightarrow> p + m_len m = L)"

lemma fin_len_le: "fin_len m \<le> 1"
  by (simp add: fin_len_def)

section \<open>Text that is in order\<close>

text \<open>The position and the window of the receiver; \<open>E\<close> is the right edge of the window.\<close>

definition rcv_at :: "u32 \<Rightarrow> nat \<Rightarrow> nat \<Rightarrow> tcp_conn \<Rightarrow> bool" where
  "rcv_at base R E c \<longleftrightarrow> rcv_nxt (pcb c) = base + of_nat R \<and> R \<le> E \<and> E \<le> R + 65535 \<and> rcv_wnd (pcb c) = of_nat (E - R)"

lemma rcv_at_edge: "rcv_at base R E c \<Longrightarrow> rcv_nxt (pcb c) + rcv_wnd (pcb c) = base + of_nat E"
  by (simp add: rcv_at_def of_nat_diff)

lemma rcv_at_zero: "rcv_at base R E c \<Longrightarrow> rcv_wnd (pcb c) = 0 \<longleftrightarrow> E = R"
proof -
  assume a: "rcv_at base R E c"
  define k where "k = E - R"
  have k: "rcv_wnd (pcb c) = of_nat k" "k \<le> 65535" "E = R + k" using a by (auto simp: rcv_at_def k_def)
  then have "unat (rcv_wnd (pcb c)) = k" by (simp add: unat_of_nat)
  then show ?thesis using k by (auto simp: unat_eq_zero [symmetric] simp del: unat_eq_zero)
qed

lemma clip_head_seg:
  assumes "seg_at strm L base m p" "p \<le> R" "R < end_at m p"
  obtains m' where "clip_head (base + of_nat R) m = Some m'" "mbuf_ok m'" "m_len m' = m_len m - (R - p)" "m_flags m' = m_flags m"
    "seg_seq m' = base + of_nat R" "seg_end m' = seg_end m" "mbuf_data m' = piece strm R (p + m_len m)"
proof (cases "p = R")
  case True
  have "\<not> wraps_lt (seg_seq m) (base + of_nat R)" using assms(1) True by (simp add: seg_at_def wraps_lt_def)
  then show ?thesis using assms True by (intro that [of m]) (auto simp: clip_head_def seg_at_def)
next
  case False
  have b: "R - p \<le> m_len m" "m_len m \<le> 65535" using assms fin_len_le [of m] by (auto simp: end_at_def seg_at_def)
  have "near p R" using b assms(2) by (simp add: near_def)
  then have w: "wraps_lt (seg_seq m) (base + of_nat R)" using wraps_near(1) [of p R base] assms False by (simp add: seg_at_def)
  have d: "unat (base + of_nat R - seg_seq m) = R - p"
    using assms(1,2) b by (subst seq_diff [symmetric]) (auto simp: seg_at_def)
  have ok: "mbuf_ok m" using assms(1) by (simp add: seg_at_def)
  note pull = mbuf_pull_data [OF ok b(1)]
  let ?m = "(mbuf_pull_unchecked m (R - p))\<lparr>seg_seq := base + of_nat R\<rparr>"
  have "clip_head (base + of_nat R) m = Some ?m"
    using w d pull(1) assms(1) by (simp add: clip_head_def Let_def mbuf_pull_unchecked_def)
  moreover have "mbuf_data ?m = mbuf_data (mbuf_pull_unchecked m (R - p))" by (simp add: mbuf_data_def)
  moreover have "mbuf_ok ?m" using pull(2) by (simp add: mbuf_ok_def head_len_def)
  ultimately show ?thesis
    using pull(3) assms(1,2) b by (intro that [of ?m]) (auto simp: mbuf_pull_unchecked_def seg_at_def drop_piece)
qed

lemma clip_tail_seg:
  assumes "mbuf_ok m" "seg_end m = base + of_nat e" "R < e" "e \<le> R + 65536" "R \<le> E" "E \<le> R + 65535" "e \<le> E \<or> m_len m = e - R"
    "mbuf_data m = piece strm R (R + m_len m)"
  obtains m' where "clip_tail (base + of_nat E) m = Some m'" "mbuf_ok m'" "m_flags m' = m_flags m" "seg_seq m' = seg_seq m"
    "seg_end m' = base + of_nat (min e E)" "m_len m' = m_len m - (e - E)" "mbuf_data m' = piece strm R (R + m_len m')"
proof -
  have "near E e" using assms by (simp add: near_def)
  then have w: "wraps_lt (base + of_nat E) (seg_end m) \<longleftrightarrow> E < e" using assms(2) by (simp add: wraps_near)
  show ?thesis
  proof (cases "e \<le> E")
    case True
    then show ?thesis using w assms by (intro that [of m]) (simp_all add: clip_tail_def)
  next
    case False
    have d: "unat (seg_end m - (base + of_nat E)) = e - E" using assms(2,4,5) False by (subst seq_diff [symmetric]) simp_all
    have b: "e - E \<le> m_len m" using assms(5,7) False by auto
    note trim = mbuf_trim_data [OF assms(1) b]
    let ?m = "m\<lparr>m_len := m_len m - (e - E), seg_end := base + of_nat E\<rparr>"
    have "clip_tail (base + of_nat E) m = Some ?m" using w d trim(1) False by (simp add: clip_tail_def Let_def)
    moreover have "mbuf_data ?m = mbuf_data (m\<lparr>m_len := m_len m - (e - E)\<rparr>)" by (simp add: mbuf_data_def)
    moreover have "mbuf_ok ?m" using trim(2) by (simp add: mbuf_ok_def head_len_def)
    ultimately show ?thesis using trim(3) assms(8) False by (intro that [of ?m]) (auto simp: take_piece min_def)
  qed
qed

text \<open>The fields that the reception of text changes.\<close>

definition rx_frame :: "tcp_conn \<Rightarrow> tcp_conn \<Rightarrow> bool" where
  "rx_frame c c' \<longleftrightarrow>
     (\<exists>a b f q r. c' = c\<lparr>pcb := (pcb c)\<lparr>rcv_nxt := a, rcv_wnd := b\<rparr>, rcv_wnd_full := f, rxq := q, rxq_ooo := r\<rparr>)"

lemma rx_frameI:
  "rx_frame c (c\<lparr>pcb := (pcb c)\<lparr>rcv_nxt := a, rcv_wnd := b\<rparr>, rcv_wnd_full := f, rxq := q\<rparr>)" "rx_frame c (c\<lparr>rxq_ooo := r\<rparr>)"
  unfolding rx_frame_def
  by (rule exI [of _ a], rule exI [of _ b], rule exI [of _ f], rule exI [of _ q], rule exI [of _ "rxq_ooo c"], simp)
    (rule exI [of _ "rcv_nxt (pcb c)"], rule exI [of _ "rcv_wnd (pcb c)"], rule exI [of _ "rcv_wnd_full c"],
     rule exI [of _ "rxq c"], rule exI [of _ r], simp)

lemma rx_frame_refl: "rx_frame c c"
  using rx_frameI(2) [of c "rxq_ooo c"] by simp

lemma rx_frame_trans: "rx_frame c c' \<Longrightarrow> rx_frame c' c'' \<Longrightarrow> rx_frame c c''"
  unfolding rx_frame_def by (elim exE, hypsubst, (rule exI)+) simp

text \<open>
  A segment that starts at or before the next expected byte and ends behind it: its new bytes up to the edge of the window are
  queued. A FIN must not lie beyond the edge.
\<close>

lemma append_text_seg:
  assumes "rcv_at base R E c" "seg_at strm L base m p" "p \<le> R" "R < end_at m p" "fin_len m = 1 \<longrightarrow> end_at m p \<le> E"
  obtains c' m' where "tcp_rx_append_text c m = Some c'" "rcv_at base (min (end_at m p) E) E c'" "rxq c' = rxq c @ [m']"
    "mbuf_ok m'" "mbuf_data m' = piece strm R (min (min (end_at m p) E) L)" "m_flags m' = m_flags m"
    "rx_frame c c'"
proof -
  let ?e = "end_at m p"
  have r: "rcv_nxt (pcb c) = base + of_nat R" "R \<le> E" "E \<le> R + 65535" using assms(1) by (auto simp: rcv_at_def)
  have s: "m_len m \<le> 65535" "seg_seq m = base + of_nat p" "seg_end m = base + of_nat ?e" "p + m_len m \<le> L" "fin_len m = 1 \<longrightarrow> p + m_len m = L"
    using assms(2) by (auto simp: seg_at_def)
  have e: "?e \<le> R + 65536" "?e \<le> p + 65536" using s(1) assms(3) fin_len_le [of m] by (auto simp: end_at_def)
  have g: "wraps_lte (seg_seq m) (rcv_nxt (pcb c))" "wraps_gt (seg_end m) (rcv_nxt (pcb c))"
    using assms(3,4) e unfolding r s by (auto simp: wraps_near near_def)
  obtain m1 where m1: "clip_head (base + of_nat R) m = Some m1" "mbuf_ok m1" "m_len m1 = m_len m - (R - p)" "m_flags m1 = m_flags m"
    "seg_seq m1 = base + of_nat R" "seg_end m1 = seg_end m" "mbuf_data m1 = piece strm R (p + m_len m)"
    using clip_head_seg [OF assms(2,3,4)] by blast
  have f: "fin_len m = 0 \<or> fin_len m = 1" by (simp add: fin_len_def)
  have "?e \<le> E \<or> m_len m1 = ?e - R" using assms(3-5) f m1(3) by (auto simp: end_at_def)
  moreover have "R + m_len m1 = p + m_len m" using assms(3,4) f m1(3) by (auto simp: end_at_def)
  ultimately obtain m2 where m2: "clip_tail (base + of_nat E) m1 = Some m2" "mbuf_ok m2" "m_flags m2 = m_flags m1" "seg_seq m2 = seg_seq m1"
    "seg_end m2 = base + of_nat (min ?e E)" "m_len m2 = m_len m1 - (?e - E)" "mbuf_data m2 = piece strm R (R + m_len m2)"
    using clip_tail_seg [OF m1(2) m1(6) [unfolded s] assms(4) e(1) r(2,3), where strm = strm] m1(7) by metis
  have dat: "R + m_len m2 = min (min ?e E) L"
    using assms(3-5) f m1(3) m2(6) r(2) s(4,5) by (auto simp: end_at_def min_def)
  have len: "seg_end m2 - seg_seq m2 = of_nat (min ?e E - R)" using m2(4,5) m1(5) assms(4) r(2) by (simp add: of_nat_diff)
  let ?w = "rcv_wnd (pcb c) - (seg_end m2 - seg_seq m2)"
  have wnd: "rcv_wnd (pcb c) = of_nat (E - R)" using assms(1) by (simp add: rcv_at_def)
  have le: "min ?e E - R \<le> E - R" "E - R < 2 ^ 32" using r(3) by auto
  have nlt: "\<not> rcv_wnd (pcb c) < seg_end m2 - seg_seq m2"
    unfolding len wnd using le by (simp add: word_less_nat_alt unat_of_nat)
  have w: "?w = of_nat (E - min ?e E)"
    unfolding len wnd using assms(4) r(2) by (simp add: of_nat_diff)
  let ?c = "c\<lparr>pcb := (pcb c)\<lparr>rcv_nxt := seg_end m2, rcv_wnd := ?w\<rparr>,
    rcv_wnd_full := (?w = 0 \<or> rcv_wnd_full c), rxq := rxq c @ [m2]\<rparr>"
  have "clip_head (rcv_nxt (pcb c)) m = Some m1" using m1(1) by (simp only: r(1))
  moreover have "clip_tail (rcv_nxt (pcb c) + rcv_wnd (pcb c)) m1 = Some m2" using m2(1) by (simp only: rcv_at_edge [OF assms(1)])
  ultimately have "tcp_rx_append_text c m = Some ?c"
    using g nlt by (cases "?w = 0") (simp_all add: tcp_rx_append_text_def Let_def)
  moreover have "rcv_at base (min ?e E) E ?c" using m2(5) w r(3) assms(4) by (simp add: rcv_at_def)
  ultimately show ?thesis using m1(4) m2(2,3,7) dat by (intro that [of ?c m2] rx_frameI) simp_all
qed

section \<open>Text that is out of order\<close>

text \<open>Segments that start left of the edge of the window, with a FIN not beyond it; and the queue of such segments, in order.\<close>

definition kept :: "(nat \<Rightarrow> u8) \<Rightarrow> nat \<Rightarrow> u32 \<Rightarrow> nat \<Rightarrow> mbuf \<Rightarrow> nat \<Rightarrow> bool" where
  "kept strm L base E m p \<longleftrightarrow> seg_at strm L base m p \<and> p < E \<and> (fin_len m = 1 \<longrightarrow> end_at m p \<le> E)"

definition ooo_at :: "(nat \<Rightarrow> u8) \<Rightarrow> nat \<Rightarrow> u32 \<Rightarrow> nat \<Rightarrow> nat \<Rightarrow> mbuf list \<Rightarrow> bool" where
  "ooo_at strm L base R E q \<longleftrightarrow> (\<exists>ps. list_all2 (kept strm L base E) q ps \<and> sorted ps \<and> (\<forall>p \<in> set ps. R < p))"

lemma end_at_le: "seg_at strm L base m p \<Longrightarrow> end_at m p \<le> p + 65536 \<and> end_at m p \<le> L + 1"
  using fin_len_le [of m] by (auto simp: seg_at_def end_at_def)

text \<open>The queue is drained up to the first gap.\<close>

lemma drain_seg:
  assumes "rcv_at base R E c" "list_all2 (kept strm L base E) q ps" "sorted ps" "\<forall>p \<in> set ps. E \<le> p + 65536" "R \<le> L + 1"
  shows "\<exists>w' c' R' ms. tcp_rx_drain flags w c q = Some (w', c') \<and> R \<le> R' \<and> R' \<le> L + 1 \<and> rcv_at base R' E c' \<and> rxq c' = rxq c @ ms \<and>
    (\<forall>m \<in> set ms. mbuf_ok m) \<and> concat (map mbuf_data ms) = piece strm (min R L) (min R' L) \<and>
    ooo_at strm L base R' E (rxq_ooo c') \<and> rx_frame c c' \<and> (ms = [] \<longrightarrow> w' = w \<and> R' = R)"
  using assms
proof (induction q arbitrary: R c w ps)
  case Nil
  then show ?case
    by (intro exI [of _ w] exI [of _ "c\<lparr>rxq_ooo := []\<rparr>"] exI [of _ R] exI [of _ "[]"])
      (simp add: ooo_at_def rcv_at_def rx_frameI)
next
  case (Cons m q)
  then obtain p ps' where ps: "ps = p # ps'" "kept strm L base E m p" "list_all2 (kept strm L base E) q ps'"
    by (auto simp: list_all2_Cons1)
  have s: "seg_at strm L base m p" "p < E" "fin_len m = 1 \<longrightarrow> end_at m p \<le> E" using ps(2) by (auto simp: kept_def)
  have r: "rcv_nxt (pcb c) = base + of_nat R" "R \<le> E" "E \<le> R + 65535" "E \<le> p + 65536"
    using Cons.prems(1,4) ps(1) by (auto simp: rcv_at_def)
  have e: "end_at m p \<le> p + 65536" "p \<le> end_at m p" using end_at_le [OF s(1)] by (auto simp: end_at_def)
  have w: "wraps_lte (seg_end m) (rcv_nxt (pcb c)) \<longleftrightarrow> end_at m p \<le> R" "wraps_gt (seg_seq m) (rcv_nxt (pcb c)) \<longleftrightarrow> R < p"
    using s(1,2) e r(2-4) unfolding r(1) seg_at_def by (auto simp: wraps_near near_def)
  consider (old) "end_at m p \<le> R" | (gap) "R < end_at m p" "R < p" | (nxt) "R < end_at m p" "p \<le> R" by linarith
  then show ?case
  proof cases
    case old
    then show ?thesis using Cons.IH [OF Cons.prems(1) ps(3)] Cons.prems(3-5) ps(1) w by simp
  next
    case gap
    then have "tcp_rx_drain flags w c (m # q) = Some (w, c\<lparr>rxq_ooo := m # q\<rparr>)" using w by simp
    moreover have "ooo_at strm L base R E (m # q)"
      unfolding ooo_at_def using Cons.prems(2,3) gap ps(1) by (intro exI [of _ ps]) auto
    ultimately show ?thesis using Cons.prems(1,5)
      by (intro exI [of _ w] exI [of _ "c\<lparr>rxq_ooo := m # q\<rparr>"] exI [of _ R] exI [of _ "[]"]) (simp add: rcv_at_def rx_frameI)
  next
    case nxt
    let ?R = "min (end_at m p) E"
    obtain c1 m' where c1: "tcp_rx_append_text c m = Some c1" "rcv_at base ?R E c1" "rxq c1 = rxq c @ [m']" "mbuf_ok m'"
      "mbuf_data m' = piece strm R (min ?R L)" "rx_frame c c1"
      using append_text_seg [OF Cons.prems(1) s(1) nxt(2,1) s(3)] by metis
    have "?R \<le> L + 1" using end_at_le [OF s(1)] by auto
    then obtain w' c' R' ms where d: "tcp_rx_drain flags (w \<or> push_or_fin flags) c1 q = Some (w', c')" "?R \<le> R'" "R' \<le> L + 1" "rcv_at base R' E c'"
      "rxq c' = rxq c1 @ ms" "\<forall>m \<in> set ms. mbuf_ok m" "concat (map mbuf_data ms) = piece strm (min ?R L) (min R' L)"
      "ooo_at strm L base R' E (rxq_ooo c')" "rx_frame c1 c'"
      using Cons.IH [OF c1(2) ps(3), of "w \<or> push_or_fin flags"] Cons.prems(3,4) ps(1) by auto
    have "R \<le> L" using nxt(1) end_at_le [OF s(1)] by simp
    then have "piece strm R (min ?R L) @ piece strm (min ?R L) (min R' L) = piece strm (min R L) (min R' L)"
      using nxt(1) r(2) d(2) by (subst piece_append) auto
    moreover have "tcp_rx_drain flags w c (m # q) = Some (w', c')" using w nxt c1(1) d(1) by simp
    moreover have "R \<le> R'" using d(2) nxt(1) r(2) by simp
    ultimately show ?thesis using c1 d rx_frame_trans [OF c1(6) d(9)]
      by (intro exI [of _ w'] exI [of _ c'] exI [of _ R'] exI [of _ "m' # ms"]) simp
  qed
qed

lemma ooo_insert_seg:
  assumes "list_all2 (kept strm L base E) q ps" "sorted ps" "kept strm L base E m p" "\<forall>p' \<in> set (p # ps). E \<le> p' + 65536"
    "ooo_insert sz m q = Some q'"
  shows "\<exists>ps'. list_all2 (kept strm L base E) q' ps' \<and> sorted ps' \<and> set ps' = insert p (set ps)"
  using assms
proof (induction q arbitrary: ps sz q')
  case Nil
  then show ?case by (intro exI [of _ "[p]"]) (auto split: if_splits)
next
  case (Cons a q)
  then obtain x xs where ps: "ps = x # xs" "kept strm L base E a x" "list_all2 (kept strm L base E) q xs"
    by (auto simp: list_all2_Cons1)
  have "near p x" using Cons.prems(3,4) ps by (simp add: kept_def near_def)
  then have w: "wraps_lt (seg_seq m) (seg_seq a) \<longleftrightarrow> p < x"
    using Cons.prems(3) ps(2) by (simp add: kept_def seg_at_def wraps_near)
  show ?case
  proof (cases "p < x")
    case True
    then have "q' = m # a # q" using Cons.prems(5) w by simp
    then show ?thesis using Cons.prems(1-3) True ps(1) by (intro exI [of _ "p # ps"]) auto
  next
    case False
    then obtain q1 where q1: "q' = a # q1" "ooo_insert (sz + 1) m q = Some q1"
      using Cons.prems(5) w by (auto split: if_splits)
    obtain ps' where "list_all2 (kept strm L base E) q1 ps'" "sorted ps'" "set ps' = insert p (set xs)"
      using Cons.IH [OF ps(3) _ Cons.prems(3) _ q1(2)] Cons.prems(2,4) ps(1) by auto
    then show ?thesis using False Cons.prems(2) ps(1,2) q1(1) by (intro exI [of _ "x # ps'"]) auto
  qed
qed

section \<open>The receiver\<close>

text \<open>
  \<open>D\<close> bytes have been read. The receive queue holds the bytes from there up to the position of the receiver, and the other queue holds
  segments of the stream behind it.
\<close>

definition rxq_inv :: "(nat \<Rightarrow> u8) \<Rightarrow> nat \<Rightarrow> u32 \<Rightarrow> nat \<Rightarrow> nat \<Rightarrow> nat \<Rightarrow> tcp_conn \<Rightarrow> bool" where
  "rxq_inv strm L base D R E c \<longleftrightarrow> rcv_at base R E c \<and> R \<le> L + 1 \<and>
     D \<le> min R L \<and> (\<forall>m \<in> set (rxq c). mbuf_ok m) \<and> concat (map mbuf_data (rxq c)) = piece strm D (min R L)"

definition rx_inv :: "(nat \<Rightarrow> u8) \<Rightarrow> nat \<Rightarrow> u32 \<Rightarrow> nat \<Rightarrow> nat \<Rightarrow> nat \<Rightarrow> tcp_conn \<Rightarrow> bool" where
  "rx_inv strm L base D R E c \<longleftrightarrow> rxq_inv strm L base D R E c \<and> ooo_at strm L base R E (rxq_ooo c)"

lemma rx_inv_drain:
  assumes "rxq_inv strm L base D R E c" "list_all2 (kept strm L base E) q ps" "sorted ps" "\<forall>p \<in> set ps. E \<le> p + 65536"
  shows "\<exists>w' c' R'. tcp_rx_drain flags w c q = Some (w', c') \<and> R \<le> R' \<and> rx_inv strm L base D R' E c' \<and> rx_frame c c' \<and>
    (rxq c' = rxq c \<and> w' = w \<and> R' = R \<or> rxq c' \<noteq> [])"
proof -
  have i: "rcv_at base R E c" "D \<le> min R L" "\<forall>m \<in> set (rxq c). mbuf_ok m" "concat (map mbuf_data (rxq c)) = piece strm D (min R L)" "R \<le> L + 1"
    using assms(1) by (auto simp: rxq_inv_def)
  obtain w' c' R' ms where d: "tcp_rx_drain flags w c q = Some (w', c')" "R \<le> R'" "rcv_at base R' E c'" "rxq c' = rxq c @ ms"
    "\<forall>m \<in> set ms. mbuf_ok m" "concat (map mbuf_data ms) = piece strm (min R L) (min R' L)"
    "ooo_at strm L base R' E (rxq_ooo c')" "rx_frame c c'" "ms = [] \<longrightarrow> w' = w \<and> R' = R" "R' \<le> L + 1"
    using drain_seg [OF i(1) assms(2-4) i(5), of flags w] by blast
  have "concat (map mbuf_data (rxq c')) = piece strm D (min R' L)"
    using i(2,4) d(2,4,6) by (simp add: piece_append min.coboundedI1)
  then show ?thesis using d i by (intro exI [of _ w'] exI [of _ c'] exI [of _ R']) (auto simp: rx_inv_def rxq_inv_def)
qed

lemma rx_inv_append:
  assumes "rxq_inv strm L base D R E c" "kept strm L base E m p" "p \<le> R" "R < end_at m p"
  obtains c' where "tcp_rx_append_text c m = Some c'" "rxq_inv strm L base D (min (end_at m p) E) E c'" "rx_frame c c'" "rxq c' \<noteq> []"
    "rxq_ooo c' = rxq_ooo c"
proof -
  let ?R = "min (end_at m p) E"
  have i: "rcv_at base R E c" "D \<le> min R L" "\<forall>m \<in> set (rxq c). mbuf_ok m" "concat (map mbuf_data (rxq c)) = piece strm D (min R L)" "R \<le> E"
    using assms(1) by (auto simp: rxq_inv_def rcv_at_def)
  have s: "seg_at strm L base m p" "fin_len m = 1 \<longrightarrow> end_at m p \<le> E" using assms(2) by (auto simp: kept_def)
  obtain c' m' where c: "tcp_rx_append_text c m = Some c'" "rcv_at base ?R E c'" "rxq c' = rxq c @ [m']" "mbuf_ok m'"
    "mbuf_data m' = piece strm R (min ?R L)" "rx_frame c c'"
    using append_text_seg [OF i(1) s(1) assms(3,4) s(2)] by metis
  have "R \<le> L" "end_at m p \<le> L + 1" using assms(4) end_at_le [OF s(1)] by auto
  then have "concat (map mbuf_data (rxq c')) = piece strm D (min ?R L)" "D \<le> min ?R L"
    using i(2,4,5) c(3,5) assms(4) by (auto simp: piece_append)
  moreover have "rxq_ooo c' = rxq_ooo c" using c(1) by (auto simp: tcp_rx_append_text_def Let_def elim!: bind_SomeE split: if_splits)
  ultimately show ?thesis using c i(3) \<open>end_at m p \<le> L + 1\<close> by (intro that [of c']) (auto simp: rxq_inv_def)
qed

text \<open>
  A segment of the stream inside the window that holds something new does not fail an assertion; a reader is only woken up when there is
  text to read; and text that is in order is accepted up to the edge of the window.
\<close>

lemma text_seg:
  assumes "rx_inv strm L base D R E c" "kept strm L base E m p" "R < end_at m p"
  shows "\<exists>used wake c' R'. tcp_rx_text c m = Some (used, wake, c') \<and> R \<le> R' \<and> rx_inv strm L base D R' E c' \<and> rx_frame c c' \<and>
    (wake \<longrightarrow> used \<and> rxq c' \<noteq> []) \<and> (p \<le> R \<longrightarrow> min (end_at m p) E \<le> R')"
proof -
  have i: "rxq_inv strm L base D R E c" "ooo_at strm L base R E (rxq_ooo c)" using assms(1) by (auto simp: rx_inv_def)
  then have r: "rcv_nxt (pcb c) = base + of_nat R" "R \<le> E" "E \<le> R + 65535" "rcv_wnd (pcb c) = of_nat (E - R)" by (auto simp: rxq_inv_def rcv_at_def)
  have z: "rcv_wnd (pcb c) = 0 \<longleftrightarrow> E = R" using i(1) rcv_at_zero by (auto simp: rxq_inv_def)
  have s: "seg_at strm L base m p" "p < E" using assms(2) by (auto simp: kept_def)
  obtain ps where ps: "list_all2 (kept strm L base E) (rxq_ooo c) ps" "sorted ps" "\<forall>p \<in> set ps. R < p"
    using i(2) by (auto simp: ooo_at_def)
  have pE: "\<forall>p \<in> set ps. E \<le> p + 65536" using ps(3) r(3) by fastforce
  have "near p R" using s(2) r(3) assms(3) end_at_le [OF s(1)] by (simp add: near_def)
  then have w: "wraps_lte (seg_seq m) (rcv_nxt (pcb c)) \<longleftrightarrow> p \<le> R" using s(1) r(1) by (simp add: wraps_near seg_at_def)
  consider (full) "E = R" | (order) "E \<noteq> R" "p \<le> R" | (gap) "E \<noteq> R" "R < p" by linarith
  then show ?thesis
  proof cases
    case full
    then show ?thesis using z assms(1,3) by (intro exI [of _ False] exI [of _ c] exI [of _ R]) (simp add: tcp_rx_text_def rx_frame_refl)
  next
    case order
    obtain c1 where c1: "tcp_rx_append_text c m = Some c1" "rxq_inv strm L base D (min (end_at m p) E) E c1" "rx_frame c c1" "rxq c1 \<noteq> []"
      "rxq_ooo c1 = rxq_ooo c"
      using rx_inv_append [OF i(1) assms(2) order(2) assms(3)] .
    obtain w' c' R' where d: "tcp_rx_drain (m_flags m) (push_or_fin (m_flags m)) c1 (rxq_ooo c) = Some (w', c')" "min (end_at m p) E \<le> R'"
      "rx_inv strm L base D R' E c'" "rx_frame c1 c'" "rxq c' \<noteq> []"
      using rx_inv_drain [OF c1(2) ps(1,2) pE, of "m_flags m" "push_or_fin (m_flags m)"] c1(4) by metis
    then show ?thesis using c1 w z order r(2) assms(3) rx_frame_trans [OF c1(3) d(4)]
      by (intro exI [of _ True] exI [of _ "w' \<or> rcv_wnd (pcb c') = 0"] exI [of _ c'] exI [of _ R']) (simp add: tcp_rx_text_def)
  next
    case gap
    show ?thesis
    proof (cases "ooo_insert 0 m (rxq_ooo c)")
      case None
      then show ?thesis using z w gap assms(1)
        by (intro exI [of _ False] exI [of _ c] exI [of _ R]) (simp add: tcp_rx_text_def rx_frame_refl)
    next
      case (Some q)
      have pE': "\<forall>p' \<in> set (p # ps). E \<le> p' + 65536" using pE gap(2) r(3) by auto
      obtain ps' where ps': "list_all2 (kept strm L base E) q ps'" "sorted ps'" "set ps' = insert p (set ps)"
        using ooo_insert_seg [OF ps(1,2) assms(2) pE' Some] by blast
      let ?c = "c\<lparr>rxq_ooo := q\<rparr>"
      have "rxq_inv strm L base D R E ?c" using i(1) by (simp add: rxq_inv_def rcv_at_def)
      then obtain w' c' R' where d: "tcp_rx_drain (m_flags m) False ?c q = Some (w', c')" "R \<le> R'" "rx_inv strm L base D R' E c'"
        "rx_frame ?c c'" "\<not> w' \<and> R' = R \<or> rxq c' \<noteq> []"
        using rx_inv_drain [OF _ ps'(1,2), of D R ?c "m_flags m" False] pE' ps'(3) by auto
      have "rcv_wnd (pcb c') = 0 \<longrightarrow> E = R'" using d(3) rcv_at_zero by (auto simp: rx_inv_def rxq_inv_def)
      then show ?thesis using z w gap Some d rx_frame_trans [OF rx_frameI(2) d(4)]
        by (intro exI [of _ True] exI [of _ "w' \<or> rcv_wnd (pcb c') = 0"] exI [of _ c'] exI [of _ R']) (auto simp: tcp_rx_text_def)
    qed
  qed
qed

end
