(* ===== verification/Tcp_Deliver.thy ===== *)
theory Tcp_Deliver
  imports Tcp_Stream
begin

text \<open>
  The bytes that an application reads from a connection are the stream of the peer, whatever else happens on the connection: the handler of
  ingress packets keeps the invariant of the receiver, reading takes bytes from the front of the queue, and the operations of the
  sending side leave the receiver alone.
\<close>

section \<open>Operations that leave the receiver alone\<close>

definition rcv_view :: "tcp_conn \<Rightarrow> u32 \<times> u32 \<times> mbuf list \<times> mbuf list" where
  "rcv_view c = (rcv_nxt (pcb c), rcv_wnd (pcb c), rxq c, rxq_ooo c)"

definition failed :: "tcp_conn \<Rightarrow> bool" where
  "failed c \<longleftrightarrow> state (pcb c) = CLOSED \<and> rx_closed c"

definition rx_keeps :: "tcp_conn \<Rightarrow> tcp_conn \<Rightarrow> bool" where
  "rx_keeps c c' \<longleftrightarrow> (failed c' \<or> rcv_view c' = rcv_view c) \<and> (state (pcb c) = CLOSED \<longrightarrow> state (pcb c') = CLOSED) \<and>
     (rx_closed c \<longrightarrow> rx_closed c') \<and> (state (pcb c) \<noteq> SYN_SENT \<longrightarrow> state (pcb c') \<noteq> SYN_SENT)"

lemma rx_keeps_refl [simp]: "rx_keeps c c"
  by (simp add: rx_keeps_def)

lemma rx_keeps_trans: "rx_keeps c c' \<Longrightarrow> rx_keeps c' c'' \<Longrightarrow> rx_keeps c c''"
  by (auto simp: rx_keeps_def failed_def)

lemma rx_keepsI:
  "rcv_view c' = rcv_view c \<Longrightarrow> state (pcb c') = state (pcb c) \<Longrightarrow> rx_closed c \<longrightarrow> rx_closed c' \<Longrightarrow> rx_keeps c c'"
  by (simp add: rx_keeps_def)

named_theorems keeps \<open>operations that leave the receiver alone\<close>

lemma keeps_push [keeps]: "tcp_push_tcphdr c n a flags l4len = Some (c', n') \<Longrightarrow> rx_keeps c c'"
  by (auto dest!: tcp_push_tcphdr_conn intro!: rx_keepsI simp: rcv_view_def)

lemma keeps_tx_ack [keeps]: "tcp_tx_ack c n = Some (ret, c', n') \<Longrightarrow> rx_keeps c c'"
  by (auto simp: tcp_tx_ack_def elim!: bind_SomeE split: option.splits prod.splits dest!: keeps_push)

lemma keeps_tx_ctl [keeps]: "tcp_tx_ctl c n flags = Some (ret, c', n') \<Longrightarrow> rx_keeps c c'"
  by (auto simp: tcp_tx_ctl_def Let_def elim!: bind_SomeE split: option.splits prod.splits dest!: tcp_push_tcphdr_conn
      intro!: rx_keepsI simp: rcv_view_def)

lemma timer_update_conn: "tcp_timer_update c n = (c', n') \<Longrightarrow> \<exists>t. c' = c\<lparr>next_timeout := t\<rparr>"
  unfolding tcp_timer_update_def Let_def now_us_def by (auto split: if_splits)

lemma keeps_timer_update [keeps]: "tcp_timer_update c n = (c', n') \<Longrightarrow> rx_keeps c c'"
  by (auto dest!: timer_update_conn simp: rcv_view_def intro!: rx_keepsI)

lemma set_state_conn:
  assumes "tcp_conn_set_state c n st = Some (c', n')"
  shows "\<exists>t w k. c' = c\<lparr>pcb := (pcb c)\<lparr>state := st\<rparr>, next_timeout := t, tx_wq := w, c_woken := k\<rparr>"
proof -
  let ?c = "if state (pcb c) < ESTABLISHED \<and> ESTABLISHED \<le> st then wake_tx_all c else c"
  have "tcp_timer_update (?c\<lparr>pcb := (pcb ?c)\<lparr>state := st\<rparr>\<rparr>) n = (c', n')"
    using assms by (auto simp: tcp_conn_set_state_def Let_def split: if_splits)
  from timer_update_conn [OF this] obtain t where t: "c' = ?c\<lparr>pcb := (pcb ?c)\<lparr>state := st\<rparr>, next_timeout := t\<rparr>" by auto
  have "?c = c\<lparr>tx_wq := tx_wq ?c, c_woken := c_woken ?c\<rparr>" by (simp add: wake_tx_all_def)
  then obtain w k where "?c = c\<lparr>tx_wq := w, c_woken := k\<rparr>" by blast
  then show ?thesis unfolding t by (intro exI [of _ t] exI [of _ w] exI [of _ k]) simp
qed

lemma keeps_set_state:
  "tcp_conn_set_state c n st = Some (c', n') \<Longrightarrow> state (pcb c) \<noteq> CLOSED \<or> st = CLOSED \<Longrightarrow> st \<noteq> SYN_SENT \<Longrightarrow> rx_keeps c c'"
  by (auto dest!: set_state_conn simp: rcv_view_def rx_keeps_def)

lemma set_state_state: "tcp_conn_set_state c n st = Some (c', n') \<Longrightarrow> state (pcb c') = st"
  by (auto dest!: set_state_conn)

lemma put_conn: "tcp_conn_put c n = Some (c', n') \<Longrightarrow> c' = c\<lparr>c_ref := c_ref c - 1\<rparr>"
  by (auto simp: tcp_conn_put_def Let_def split: if_splits)

lemma keeps_put [keeps]: "tcp_conn_put c n = Some (c', n') \<Longrightarrow> rx_keeps c c'"
  by (auto dest!: put_conn intro!: rx_keepsI simp: rcv_view_def)

lemma fail_failed: "tcp_conn_fail c n err = Some (c', n') \<Longrightarrow> failed c'"
  by (auto simp: tcp_conn_fail_def Let_def failed_def wake_rx_all_def wake_tx_all_def elim!: bind_SomeE dest!: put_conn set_state_state
      split: if_splits prod.splits)

lemma keeps_fail [keeps]: "tcp_conn_fail c n err = Some (c', n') \<Longrightarrow> rx_keeps c c'"
  using fail_failed [of c n err c' n'] by (auto simp: rx_keeps_def failed_def)

lemma conn_ack_conn: "tcp_conn_ack c n = (q, c') \<Longrightarrow> \<exists>t. c' = c\<lparr>txq := t\<rparr>"
  by (auto simp: tcp_conn_ack_def split: if_splits prod.splits intro: exI [of _ "txq c"])

lemma keeps_conn_ack [keeps]: "tcp_conn_ack c n = (q, c') \<Longrightarrow> rx_keeps c c'"
  by (auto dest!: conn_ack_conn intro!: rx_keepsI simp: rcv_view_def)

lemma keeps_retransmit_one [keeps]: "tcp_tx_retransmit_one c n a = Some (ret, c', n') \<Longrightarrow> rx_keeps c c'"
  by (auto simp: tcp_tx_retransmit_one_def Let_def elim!: bind_SomeE split: option.splits prod.splits if_splits dest!: keeps_push)

lemma keeps_fast_finish [keeps]: "tcp_tx_fast_retransmit_finish c n r = Some (c', n') \<Longrightarrow> rx_keeps c c'"
  by (auto simp: tcp_tx_fast_retransmit_finish_def elim!: bind_SomeE split: option.splits prod.splits dest!: keeps_retransmit_one)

lemma keeps_retransmit_loop: "retransmit_loop c n now cnt q = Some (c', n') \<Longrightarrow> rx_keeps c c'"
proof (induction q arbitrary: c n cnt)
  case (Cons a q)
  then show ?case
    by (auto elim!: bind_SomeE split: if_splits prod.splits dest!: keeps_retransmit_one intro: rx_keeps_trans)
qed simp

lemma keeps_tx_retransmit [keeps]: "tcp_tx_retransmit c n = Some (c', n') \<Longrightarrow> rx_keeps c c'"
  by (auto simp: tcp_tx_retransmit_def Let_def split: prod.splits dest: keeps_retransmit_loop)

lemma tx_buffer_conn: "tcp_tx_buffer c n buf = Some (r, c', n') \<Longrightarrow> \<exists>t. c' = c\<lparr>tx_pending := t\<rparr>"
  by (auto simp: tcp_tx_buffer_def Let_def elim!: bind_SomeE split: option.splits intro: exI [of _ "tx_pending c"])

lemma keeps_send_step: "tcp_tx_send_step c n buf push = Some (ret, stop, c', n', rest) \<Longrightarrow> rx_keeps c c'"
  by (auto simp: tcp_tx_send_step_def Let_def elim!: bind_SomeE split: option.splits prod.splits if_splits
      dest!: tcp_push_tcphdr_conn tx_buffer_conn intro!: rx_keepsI simp: rcv_view_def)

lemma keeps_send_loop: "tcp_tx_send_loop c n buf push r = Some (ret, c', n', rest) \<Longrightarrow> rx_keeps c c'"
proof (induction c n buf push r rule: tcp_tx_send_loop.induct)
  case (1 c n buf push r)
  show ?case
  proof (cases "buf = []")
    case True
    then show ?thesis using 1(2) by (simp add: tcp_tx_send_loop.simps)
  next
    case False
    then obtain r1 stop c1 n1 rest1 where s: "tcp_tx_send_step c n buf push = Some (r1, stop, c1, n1, rest1)"
      using 1(2) by (subst (asm) tcp_tx_send_loop.simps) (auto split: option.splits)
    then have "rx_keeps c c1" by (rule keeps_send_step)
    moreover have "rx_keeps c1 c'"
      using 1(2) False s 1(1) [OF False s] by (subst (asm) tcp_tx_send_loop.simps) (auto split: if_splits)
    ultimately show ?thesis by (rule rx_keeps_trans)
  qed
qed

lemma keeps_tx_send [keeps]: "tcp_tx_send c n buf push = Some (ret, c', n') \<Longrightarrow> rx_keeps c c'"
  by (auto simp: tcp_tx_send_def Let_def elim!: bind_SomeE split: if_splits dest: keeps_send_loop)

lemma keeps_upd [simp]:
  "rx_keeps c (c\<lparr>tx_exclusive := b\<rparr>)" "rx_keeps c (c\<lparr>ack_delayed := b\<rparr>)" "rx_keeps c (c\<lparr>ack_ts := t\<rparr>)"
  "rx_keeps c (c\<lparr>txq := q, tx_pending := r\<rparr>)" "rx_keeps c (c\<lparr>do_fast_retransmit := b\<rparr>)" "rx_keeps c (c\<lparr>tx_wq := q\<rparr>)"
  "rx_keeps c (release_finish c ws)" "rx_keeps c (wait_tx c self)" "rx_keeps c (wait_rx c self)" "rx_keeps c (c\<lparr>c_spawned := k\<rparr>)"
  "rx_keeps c (wake_tx_all (c\<lparr>tx_closed := True\<rparr>))" "rx_keeps c (tcp_conn_shutdown_rx c)"
  by (auto intro!: rx_keepsI simp: rcv_view_def release_finish_def wait_tx_def wait_rx_def wake_tx_all_def wake_rx_all_def tcp_conn_shutdown_rx_def)

lemma keeps_left [simp]: "rx_keeps (c\<lparr>tx_exclusive := b\<rparr>) d = rx_keeps c d" "rx_keeps (c\<lparr>ack_delayed := b\<rparr>) d = rx_keeps c d"
  "rx_keeps (c\<lparr>time_wait_ts := t\<rparr>) d = rx_keeps c d"
  by (simp_all add: rx_keeps_def rcv_view_def)

lemmas keeps_shutdown_rx = rx_keeps_trans [OF _ keeps_upd(12)] rx_keeps_trans [OF keeps_upd(12)]
lemmas keeps_closed_tx = rx_keeps_trans [OF _ keeps_upd(11)]

lemma keeps_write_finish [keeps]:
  assumes "tcp_write_finish c n = Some (c', n')"
  shows "rx_keeps c c'"
proof -
  obtain q c1 where c1: "tcp_conn_ack (c\<lparr>tx_exclusive := False\<rparr>) n = (q, c1)" by fastforce
  obtain c2 n2 where c2: "(if rcv_nxt (pcb c1) = tx_last_ack c1 then (c1\<lparr>ack_delayed := False\<rparr>, n)
                         else let (now, n) = now_us n in (c1\<lparr>ack_ts := now\<rparr>, n)) = (c2, n2)" by fastforce
  obtain r q3 c3 n3 where c3: "(if state (pcb c2) = CLOSED
                  then (None, q @ txq c2 @ (case tx_pending c2 of None \<Rightarrow> [] | Some a \<Rightarrow> [a]), c2\<lparr>txq := [], tx_pending := None\<rparr>, n2)
                  else if do_fast_retransmit c2
                  then let c = c2\<lparr>do_fast_retransmit := False\<rparr>
                       in if fast_retransmit_last_ack c = snd_una (pcb c)
                          then let (r, n) = tcp_tx_fast_retransmit_start c n2 in (r, q, c, n)
                          else (None, q, c, n2)
                  else (None, q, c2, n2)) = (r, q3, c3, n3)" by (metis prod_cases4)
  obtain c4 n4 where c4: "tcp_timer_update c3 n3 = (c4, n4)" by fastforce
  obtain c5 n5 where c5: "tcp_tx_fast_retransmit_finish (c4\<lparr>tx_wq := []\<rparr>) n4 r = Some (c5, n5)" "c' = release_finish c5 (tx_wq c4)"
    using assms c1 c2 c3 c4 by (auto simp: tcp_write_finish_def Let_def release_start_tx_def elim!: bind_SomeE split: if_splits)
  have "rx_keeps c c1" using keeps_conn_ack [OF c1] rx_keeps_trans keeps_upd(1) by blast
  moreover have "rx_keeps c1 c2" using c2 by (auto simp: Let_def now_us_def split: if_splits)
  moreover have "rx_keeps c2 c3" using c3 by (auto simp: Let_def split: if_splits prod.splits)
  moreover have "rx_keeps c3 c4" using c4 by (rule keeps)
  moreover have "rx_keeps c4 c5" using keeps_fast_finish [OF c5(1)] rx_keeps_trans keeps_upd(6) by blast
  moreover have "rx_keeps c5 c'" by (simp add: c5(2))
  ultimately show ?thesis by (meson rx_keeps_trans)
qed

lemma keeps_write [keeps]: "tcp_write c n self buf = Some (r, c', n') \<Longrightarrow> rx_keeps c c'"
  by (auto simp: tcp_write_def tcp_write_wait_def tcp_write_send_def elim!: bind_SomeE split: if_splits prod.splits
      dest!: keeps_tx_send keeps_write_finish intro: rx_keeps_trans)

lemma keeps_writev_loop: "writev_loop c n vs winlen sent r = Some (ret, c', n') \<Longrightarrow> rx_keeps c c'"
proof (induction vs arbitrary: c n winlen sent r)
  case (Cons v vs)
  then show ?case by (auto elim!: bind_SomeE split: if_splits dest!: keeps_tx_send intro: rx_keeps_trans)
qed simp

lemma keeps_writev [keeps]: "tcp_writev c n self iov = Some (r, c', n') \<Longrightarrow> rx_keeps c c'"
  by (auto simp: tcp_writev_def tcp_write_wait_def elim!: bind_SomeE split: if_splits prod.splits
      dest!: keeps_writev_loop keeps_write_finish intro: rx_keeps_trans)

lemma keeps_retransmit [keeps]: "tcp_retransmit c n self = Some (r, c', n') \<Longrightarrow> rx_keeps c c'"
  by (auto simp: tcp_retransmit_def elim!: bind_SomeE split: if_splits prod.splits
      dest!: keeps_tx_retransmit keeps_write_finish keeps_put intro: rx_keeps_trans)

lemma keeps_shutdown_tx [keeps]: "tcp_conn_shutdown_tx c n self = Some (r, c', n') \<Longrightarrow> rx_keeps c c'"
  by (auto simp: tcp_conn_shutdown_tx_def elim!: bind_SomeE split: if_splits prod.splits
      dest!: keeps_tx_ctl keeps_set_state intro!: keeps_closed_tx intro: rx_keeps_trans)

lemma keeps_shutdown [keeps]: "tcp_shutdown c n self how = Some (r, c', n') \<Longrightarrow> rx_keeps c c'"
  by (auto simp: tcp_shutdown_def elim!: bind_SomeE split: if_splits option.splits blocking.splits dest!: keeps_shutdown_tx intro: keeps_shutdown_rx(1))

lemma keeps_abort [keeps]: "tcp_abort_start c n = Some (b, c', n') \<Longrightarrow> rx_keeps c c'" "tcp_abort_finish c n self = Some (r, c', n') \<Longrightarrow> rx_keeps c c'"
  by (auto simp: tcp_abort_start_def tcp_abort_finish_def elim!: bind_SomeE split: if_splits dest!: keeps_fail)

lemma keeps_close [keeps]: "tcp_close c n self = Some (r, c', n') \<Longrightarrow> rx_keeps c c'"
  by (auto simp: tcp_close_def elim!: bind_SomeE split: if_splits blocking.splits dest!: keeps_shutdown_tx keeps_fail keeps_put
      keeps_shutdown_rx(2)) (meson rx_keeps_trans)+

lemma keeps_get [keeps]: "tcp_conn_get c = Some c' \<Longrightarrow> rx_keeps c c'"
  by (auto simp: tcp_conn_get_def rcv_view_def intro!: rx_keepsI split: if_splits)

lemma keeps_timeouts_send: "timeouts_send c n a r = Some (c', n') \<Longrightarrow> rx_keeps c c'"
proof -
  assume s: "timeouts_send c n a r = Some (c', n')"
  obtain c1 where c1: "(if r then tcp_conn_get c else Some c) = Some c1"
    using s unfolding timeouts_send_def by (auto elim!: bind_SomeE)
  obtain c2 n2 where c2: "tcp_timer_update c1 n = (c2, n2)" by fastforce
  obtain c3 n3 where c3: "(if a \<or> rxq_ooo c1 \<noteq> [] then do { (ret, c, n) \<leftarrow> tcp_tx_ack c2 n2; Some (c, n) } else Some (c2, n2)) = Some (c3, n3)"
      "c' = (if r then c3\<lparr>c_spawned := c_spawned c3 + 1\<rparr> else c3)"
    using s c1 c2 by (auto simp: timeouts_send_def Let_def elim!: bind_SomeE)
  have "rx_keeps c c1" using c1 keeps_get by (auto split: if_splits)
  moreover have "rx_keeps c1 c2" using c2 by (rule keeps)
  moreover have "rx_keeps c2 c3" using c3(1) by (auto elim!: bind_SomeE split: if_splits dest: keeps_tx_ack)
  moreover have "rx_keeps c3 c'" by (simp add: c3(2))
  ultimately show ?thesis by (meson rx_keeps_trans)
qed

lemma keeps_timeouts [keeps]: "tcp_handle_timeouts c n now = Some (c', n') \<Longrightarrow> rx_keeps c c'"
  by (auto simp: tcp_handle_timeouts_def Let_def elim!: bind_SomeE split: if_splits
      dest!: keeps_timeouts_send keeps_set_state keeps_put intro: rx_keeps_trans)

text \<open>The operations on a connection other than the reception of packets and reading. Reading with \<^verbatim>\<open>tcp_readv\<close> is not among them (theory \<open>Tcp_Readv\<close>).\<close>

inductive tcp_op :: "tcp_conn \<Rightarrow> tcp_conn \<Rightarrow> bool" where
  "tcp_write c n self buf = Some (r, c', n') \<Longrightarrow> tcp_op c c'"
| "tcp_writev c n self iov = Some (r, c', n') \<Longrightarrow> tcp_op c c'"
| "tcp_retransmit c n self = Some (u, c', n') \<Longrightarrow> tcp_op c c'"
| "tcp_shutdown c n self how = Some (r, c', n') \<Longrightarrow> tcp_op c c'"
| "tcp_abort_start c n = Some (b, c', n') \<Longrightarrow> tcp_op c c'"
| "tcp_abort_finish c n self = Some (u, c', n') \<Longrightarrow> tcp_op c c'"
| "tcp_close c n self = Some (u, c', n') \<Longrightarrow> tcp_op c c'"
| "tcp_handle_timeouts c n now = Some (c', n') \<Longrightarrow> tcp_op c c'"
| "tcp_conn_err c n err = Some (c', n') \<Longrightarrow> tcp_op c c'"

lemma keeps_op: "tcp_op c c' \<Longrightarrow> rx_keeps c c'"
  by (induction rule: tcp_op.induct) (auto intro: keeps simp: tcp_conn_err_def)

section \<open>The handler of ingress packets\<close>

lemma keeps_rx_set_state:
  "rx_set_state st (c, n, w) = Some (c', n', w') \<Longrightarrow> state (pcb c) \<noteq> CLOSED \<or> st = CLOSED \<Longrightarrow> st \<noteq> SYN_SENT \<Longrightarrow> rx_keeps c c'"
  by (auto simp: rx_set_state_def dest: keeps_set_state)

lemma keeps_rx_fail: "rx_fail err (c, n, w) = Some (c', n', w') \<Longrightarrow> rx_keeps c c'"
  by (auto simp: rx_fail_def dest: keeps_fail)

lemma rx_rst_conn: "rx_rst acked sg (c, n, w) = Some (c', n', w') \<Longrightarrow> c' = c"
  by (auto simp: rx_rst_def)

lemma keeps_check:
  assumes "rx_check sg (c, n, w) = Some (done, c', n', w')"
  shows "rx_keeps c c'" "\<not> done \<Longrightarrow> c' = c \<and> is_acceptable c (sg_len sg) (sg_seq sg)"
  using assms by (auto simp: rx_check_def elim!: bind_SomeE split: if_splits dest!: rx_rst_conn dest: keeps_rx_fail)

lemma set_snd_wnd_keeps [simp]: "rx_keeps (set_snd_wnd c sg) d = rx_keeps c d" "rx_keeps c (set_snd_wnd d sg) = rx_keeps c d"
  "state (pcb (set_snd_wnd c sg)) = state (pcb c)"
  by (simp_all add: rx_keeps_def rcv_view_def set_snd_wnd_def failed_def)

lemma keeps_established:
  assumes "rx_established nxt sg (c, n, w) = Some (done, c', n', w')"
  shows "rx_keeps c c'"
  using assms by (auto simp: rx_established_def split: if_splits dest!: rx_rst_conn dest!: keeps_rx_set_state)

lemma keeps_dup_ack: "rx_dup_ack sg (c, n, w) = (c', n', w') \<Longrightarrow> rx_keeps c c'"
  by (auto simp: rx_dup_ack_def Let_def rcv_view_def intro!: rx_keepsI split: if_splits prod.splits)

lemma keeps_right [simp]:
  "rx_keeps c (rx_window sg d) = rx_keeps c d" "rx_keeps c (d\<lparr>tx_wq := q\<rparr>) = rx_keeps c d" "rx_keeps c (d\<lparr>txq := q\<rparr>) = rx_keeps c d"
  "rx_keeps c (d\<lparr>rep_acks := k\<rparr>) = rx_keeps c d" "rx_keeps c (d\<lparr>pcb := (pcb d)\<lparr>snd_una := x\<rparr>\<rparr>) = rx_keeps c d"
  "rx_keeps c (d\<lparr>rep_acks := k, pcb := (pcb d)\<lparr>snd_una := x\<rparr>\<rparr>) = rx_keeps c d" "rx_keeps c (release_finish d ws) = rx_keeps c d"
  by (simp_all add: rx_keeps_def rcv_view_def failed_def set_snd_wnd_def rx_window_def release_finish_def)

lemma keeps_rx_ack: "rx_ack nxt sg (c, n, w) = (done, c', n', w') \<Longrightarrow> rx_keeps c c'"
  by (auto simp: rx_ack_def Let_def release_start_tx_def split: if_splits prod.splits dest!: conn_ack_conn)

lemma keeps_fin_acked: "rx_fin_acked nxt (c, n, w) = Some (done, c', n', w') \<Longrightarrow> rx_keeps c c'"
  by (auto simp: rx_fin_acked_def now_us_def elim!: bind_SomeE split: if_splits dest!: keeps_rx_set_state keeps_put intro: rx_keeps_trans)

lemma keeps_rx_fin: "rx_fin nxt sg (c, n, w) = Some (c', n', w') \<Longrightarrow> rx_keeps c c'"
  by (auto simp: rx_fin_def now_us_def split: if_splits dest!: keeps_rx_set_state)

definition seg_buf :: "tcp_seg \<Rightarrow> mbuf \<Rightarrow> mbuf" where
  "seg_buf sg m = m\<lparr>seg_seq := sg_seq sg, seg_end := sg_seq sg + sg_len sg, m_flags := sg_flags sg\<rparr>"

lemma rx_text_conn:
  assumes "rx_text sg m (c, n, w) = Some (c', n', w')"
  shows "c' = c \<or> (state (pcb c) \<notin> {CLOSED, SYN_SENT} \<and> sg_len sg > 0 \<and>
    (\<exists>used wake d. tcp_rx_text c (seg_buf sg m) = Some (used, wake, d) \<and> rx_keeps d c'))"
proof (cases "sg_len sg > 0 \<and> state (pcb c) \<in> {ESTABLISHED, FIN_WAIT1, FIN_WAIT2}")
  case True
  then obtain used wake d where d: "tcp_rx_text c (seg_buf sg m) = Some (used, wake, d)"
    using assms by (auto simp: rx_text_def seg_buf_def elim!: bind_SomeE)
  have "rx_keeps d c'"
    using assms True d
    by (auto simp: rx_text_def seg_buf_def [symmetric] signal_rx_def Let_def now_us_def rcv_view_def split: if_splits list.splits intro!: rx_keepsI)
  then show ?thesis using True d by auto
next
  case False
  then show ?thesis using assms by (auto simp: rx_text_def split: if_splits)
qed

text \<open>
  A packet leaves the receiver alone, or its segment passes the test for acceptability and its text goes to the queues.
\<close>

lemma rx_locked_cases:
  assumes "tcp_rx_locked nxt sg m (c, n, w) = Some (c', n', w')" "state (pcb c) \<noteq> SYN_SENT"
  shows "rx_keeps c c' \<or> (\<exists>c1 used wake d. rx_keeps c c1 \<and> rcv_view c1 = rcv_view c \<and> is_acceptable c (sg_len sg) (sg_seq sg) \<and>
    sg_len sg > 0 \<and> state (pcb c1) \<notin> {CLOSED, SYN_SENT} \<and> tcp_rx_text c1 (seg_buf sg m) = Some (used, wake, d) \<and> rx_keeps d c')"
proof (cases "state (pcb c) = CLOSED")
  case True
  then show ?thesis using assms by (auto simp: tcp_rx_locked_def split: if_splits dest!: rx_rst_conn)
next
  case False
  obtain d1 c1 n1 w1 where s1: "rx_check sg (c, n, w) = Some (d1, c1, n1, w1)"
    using assms False by (auto simp: tcp_rx_locked_def elim!: bind_SomeE)
  note k1 = keeps_check [OF s1]
  show ?thesis
  proof (cases d1)
    case True
    then show ?thesis using assms False s1 k1 by (auto simp: tcp_rx_locked_def)
  next
    case d1: False
    then have c1: "c1 = c" "is_acceptable c (sg_len sg) (sg_seq sg)" using k1 by auto
    obtain d2 c2 n2 w2 where s2: "rx_established nxt sg (c, n1, w1) = Some (d2, c2, n2, w2)"
      using assms False s1 d1 c1 by (auto simp: tcp_rx_locked_def elim!: bind_SomeE)
    note k2 = keeps_established [OF s2]
    show ?thesis
    proof (cases d2)
      case True
      then show ?thesis using assms False s1 d1 c1 s2 k2 by (auto simp: tcp_rx_locked_def)
    next
      case d2: False
      obtain c3 n3 w3 where s3: "rx_dup_ack sg (c2, n2, w2) = (c3, n3, w3)" by (metis prod_cases3)
      obtain d4 c4 n4 w4 where s4: "rx_ack nxt sg (c3, n3, w3) = (d4, c4, n4, w4)" by (metis prod_cases4)
      have k4: "rx_keeps c c4" using k2 keeps_dup_ack [OF s3] keeps_rx_ack [OF s4] rx_keeps_trans by blast
      show ?thesis
      proof (cases d4)
        case True
        then show ?thesis using assms False s1 d1 c1 s2 d2 s3 s4 k4 by (auto simp: tcp_rx_locked_def)
      next
        case d4: False
        obtain d5 c5 n5 w5 where s5: "rx_fin_acked nxt (c4, n4, w4) = Some (d5, c5, n5, w5)"
          using assms False s1 d1 c1 s2 d2 s3 s4 d4 by (auto simp: tcp_rx_locked_def elim!: bind_SomeE)
        have k5: "rx_keeps c c5" using k4 keeps_fin_acked [OF s5] by (rule rx_keeps_trans)
        show ?thesis
        proof (cases d5)
          case True
          then show ?thesis using assms False s1 d1 c1 s2 d2 s3 s4 d4 s5 k5 by (auto simp: tcp_rx_locked_def)
        next
          case d5: False
          obtain c6 n6 w6 where s6: "rx_text sg m (c5, n5, w5) = Some (c6, n6, w6)" and s7: "rx_fin nxt sg (c6, n6, w6) = Some (c', n', w')"
            using assms False s1 d1 c1 s2 d2 s3 s4 d4 s5 d5 by (auto simp: tcp_rx_locked_def elim!: bind_SomeE)
          from rx_text_conn [OF s6] show ?thesis
          proof
            assume "c6 = c5"
            then show ?thesis using k5 keeps_rx_fin [OF s7] rx_keeps_trans by blast
          next
            assume t: "state (pcb c5) \<notin> {CLOSED, SYN_SENT} \<and> sg_len sg > 0 \<and>
              (\<exists>used wake d. tcp_rx_text c5 (seg_buf sg m) = Some (used, wake, d) \<and> rx_keeps d c6)"
            then have "rcv_view c5 = rcv_view c" using k5 by (auto simp: rx_keeps_def failed_def)
            then show ?thesis using t k5 c1(2) keeps_rx_fin [OF s7] by (meson rx_keeps_trans)
          qed
        qed
      qed
    qed
  qed
qed

lemma keeps_rx_finish: "rx_finish (c, n, w) = Some (c', n') \<Longrightarrow> rx_keeps c c'"
proof -
  assume f: "rx_finish (c, n, w) = Some (c', n')"
  define c0 where "c0 = (case w_task w of None \<Rightarrow> release_finish c (w_waiters w) | Some t \<Rightarrow> release_finish (release_finish c (w_waiters w)) [t])"
  obtain c1 n1 where c1: "tcp_tx_fast_retransmit_finish c0 (mbuf_list_free n (w_freeq w)) (w_retransmit w) = Some (c1, n1)"
      "(if w_ack w then do { (ret, c, n) \<leftarrow> tcp_tx_ack c1 n1; Some (c, n) } else Some (c1, n1)) = Some (c', n')"
    using f unfolding rx_finish_def by (auto simp: c0_def Let_def elim!: bind_SomeE)
  have "rx_keeps c c0" by (auto simp: c0_def intro: rx_keeps_trans split: option.splits)
  moreover have "rx_keeps c0 c1" using c1(1) by (rule keeps)
  moreover have "rx_keeps c1 c'" using c1(2) by (auto elim!: bind_SomeE split: if_splits dest: keeps_tx_ack)
  ultimately show ?thesis by (meson rx_keeps_trans)
qed

lemma rx_conn_cases:
  assumes "tcp_rx_conn c n nxt m = Some (c', n')" "tcp_rx_parse m = Some (Some (sg, m1))" "state (pcb c) \<noteq> SYN_SENT"
  shows "rx_keeps c c' \<or> (\<exists>c1 used wake d. rx_keeps c c1 \<and> rcv_view c1 = rcv_view c \<and> is_acceptable c (sg_len sg) (sg_seq sg) \<and>
    sg_len sg > 0 \<and> state (pcb c1) \<notin> {CLOSED, SYN_SENT} \<and> tcp_rx_text c1 (seg_buf sg m1) = Some (used, wake, d) \<and> rx_keeps d c')"
proof -
  obtain c2 n2 w2 where l: "tcp_rx_locked nxt sg m1 (c, n, rx_work0) = Some (c2, n2, w2)"
    using assms(1,2) by (auto simp: tcp_rx_conn_def elim!: bind_SomeE)
  obtain c3 n3 where t: "tcp_timer_update c2 n2 = (c3, n3)" by fastforce
  then have f: "rx_finish (c3, n3, w2) = Some (c', n')" using assms(1,2) l by (simp add: tcp_rx_conn_def)
  have "rx_keeps c2 c'" using keeps_timer_update [OF t] keeps_rx_finish [OF f] by (rule rx_keeps_trans)
  with rx_locked_cases [OF l assms(3)] show ?thesis by (meson rx_keeps_trans)
qed

section \<open>Acceptable segments\<close>

lemma acceptable_seg:
  assumes "rcv_at base R E c" "seg_at strm L base (seg_buf sg m) p" "p < R + 2 ^ 30" "R < p + 2 ^ 30" "sg_len sg > 0"
    "is_acceptable c (sg_len sg) (sg_seq sg)"
  shows "p < E" "R < end_at (seg_buf sg m) p"
proof -
  let ?e = "end_at (seg_buf sg m) p"
  have r: "rcv_nxt (pcb c) = base + of_nat R" "R \<le> E" "E \<le> R + 65535" using assms(1) by (auto simp: rcv_at_def)
  have s: "sg_seq sg = base + of_nat p" "sg_seq sg + sg_len sg = base + of_nat ?e" using assms(2) by (auto simp: seg_at_def seg_buf_def)
  have e: "?e \<le> p + 65536" using end_at_le [OF assms(2)] by simp
  have "?e \<noteq> p" using s assms(5) by auto
  then have pe: "p < ?e" by (auto simp: end_at_def)
  have q: "sg_seq sg + sg_len sg - 1 = base + of_nat (?e - 1)" using s(2) pe by (simp add: of_nat_diff)
  have n: "near R p" "near p E" "near R (?e - 1)" "near (?e - 1) E" using assms(3,4) r e pe by (auto simp: near_def)
  have "rcv_wnd (pcb c) \<noteq> 0" using assms(5,6) by (auto simp: is_acceptable_def Let_def word_gt_0)
  then have "R \<le> p \<and> p < E \<or> R \<le> ?e - 1 \<and> ?e - 1 < E"
    using assms(5,6) unfolding is_acceptable_def Let_def rcv_at_edge [OF assms(1)] q unfolding r s(1)
    using n by (auto simp: wraps_near word_gt_0 split: if_splits)
  then show "p < E" "R < ?e" using pe by auto
qed

section \<open>Reading\<close>

abbreviation bytes :: "mbuf list \<Rightarrow> u8 list" where
  "bytes q \<equiv> concat (map mbuf_data q)"

lemma shutdown_rx_simps [simp]:
  "pcb (tcp_conn_shutdown_rx c) = pcb c" "rxq_ooo (tcp_conn_shutdown_rx c) = rxq_ooo c" "rx_closed (tcp_conn_shutdown_rx c)"
  by (simp_all add: tcp_conn_shutdown_rx_def wake_rx_all_def)

lemma read_loop_spec:
  assumes "read_loop len rl c q ms = (rl', q', part, c')" "rl = length (bytes q)" "\<forall>m \<in> set ms. mbuf_ok m"
  shows "bytes q' @ bytes (rxq c') = bytes q @ bytes ms" "set (rxq c') \<subseteq> set ms" "pcb c' = pcb c" "rxq_ooo c' = rxq_ooo c"
    "\<not> part \<Longrightarrow> rl' = length (bytes q')"
    "part \<Longrightarrow> rl' = len \<and> length (bytes q') < len \<and> (\<exists>m r. rxq c' = m # r \<and> len - length (bytes q') < m_len m)"
proof -
  have "bytes q' @ bytes (rxq c') = bytes q @ bytes ms \<and> set (rxq c') \<subseteq> set ms \<and> pcb c' = pcb c \<and> rxq_ooo c' = rxq_ooo c \<and>
    (\<not> part \<longrightarrow> rl' = length (bytes q')) \<and>
    (part \<longrightarrow> rl' = len \<and> length (bytes q') < len \<and> (\<exists>m r. rxq c' = m # r \<and> len - length (bytes q') < m_len m))"
    using assms
  proof (induction ms arbitrary: rl c q)
    case (Cons m ms)
    let ?c = "if m_flags m AND TCP_FIN \<noteq> 0 then tcp_conn_shutdown_rx c else c"
    show ?case
    proof (cases "rl \<ge> len \<or> m_flags m AND TCP_FIN \<noteq> 0 \<and> mbuf_length m = 0 \<or> len - rl < mbuf_length m")
      case True
      then show ?thesis using Cons.prems by (auto simp: Let_def mbuf_length_def split: if_splits)
    next
      case False
      then have "read_loop len (rl + mbuf_length m) ?c (q @ [m]) ms = (rl', q', part, c')" using Cons.prems(1) by (auto simp: Let_def split: if_splits)
      from Cons.IH [OF this] show ?thesis using Cons.prems(2,3) by (auto simp: mbuf_length_def)
    qed
  qed auto
  then show "bytes q' @ bytes (rxq c') = bytes q @ bytes ms" "set (rxq c') \<subseteq> set ms" "pcb c' = pcb c" "rxq_ooo c' = rxq_ooo c"
    "\<not> part \<Longrightarrow> rl' = length (bytes q')"
    "part \<Longrightarrow> rl' = len \<and> length (bytes q') < len \<and> (\<exists>m r. rxq c' = m # r \<and> len - length (bytes q') < m_len m)"
    by blast+
qed

lemma tx_ack_conn:
  "tcp_tx_ack c n = Some (ret, c', n') \<Longrightarrow> pcb c' = pcb c \<and> rxq c' = rxq c \<and> rxq_ooo c' = rxq_ooo c \<and> rx_closed c' = rx_closed c"
  by (auto simp: tcp_tx_ack_def elim!: bind_SomeE split: option.splits prod.splits dest!: tcp_push_tcphdr_conn)

lemma read_wait_spec:
  assumes "tcp_read_wait c n self len = Some (Returns (ret, q, part), c', n')" "\<not> rx_closed c" "\<forall>m \<in> set (rxq c). mbuf_ok m"
  obtains c1 rl where "read_loop len 0 c [] (rxq c) = (rl, q, part, c1)" "ret = int rl" "rxq c' = rxq c1" "rxq_ooo c' = rxq_ooo c1"
    "pcb c' = (pcb c1)\<lparr>rcv_wnd := rcv_wnd (pcb c1) + of_nat rl\<rparr>" "rx_closed c' = rx_closed c1"
proof -
  obtain rl q1 part1 c1 where l: "read_loop len 0 c [] (rxq c) = (rl, q1, part1, c1)" by (metis prod_cases4)
  show ?thesis using assms(1,2) l
    by (intro that [of rl c1]) (auto simp: tcp_read_wait_def Let_def elim!: bind_SomeE split: if_splits dest!: tx_ack_conn)
qed

lemma read_finish_simps [simp]:
  "rxq (tcp_read_finish c part) = rxq c" "rxq_ooo (tcp_read_finish c part) = rxq_ooo c" "pcb (tcp_read_finish c part) = pcb c"
  by (simp_all add: tcp_read_finish_def release_start_rx_def release_finish_def)

lemma read_copy_spec:
  assumes "part \<Longrightarrow> \<exists>m r. rxq c = m # r \<and> len - length (bytes q) \<le> m_len m" "\<forall>m \<in> set (rxq c). mbuf_ok m"
  obtains bs c' where "tcp_read_copy c len q part = Some (bs, c')" "bs @ bytes (rxq c') = bytes q @ bytes (rxq c)"
    "length bs = (if part then max len (length (bytes q)) else length (bytes q))"
    "\<forall>m \<in> set (rxq c'). mbuf_ok m" "rxq_ooo c' = rxq_ooo c" "pcb c' = pcb c"
proof (cases part)
  case True
  then obtain m r where m: "rxq c = m # r" "len - length (bytes q) \<le> m_len m" using assms(1) by blast
  let ?k = "len - length (bytes q)"
  let ?m = "(mbuf_pull_unchecked m ?k)\<lparr>seg_seq := seg_seq m + of_nat ?k\<rparr>"
  have ok: "mbuf_ok m" using assms(2) m(1) by simp
  note pull = mbuf_pull_data [OF ok m(2)]
  have "mbuf_ok ?m" "mbuf_data ?m = drop ?k (mbuf_data m)" using pull(2,3) by (simp_all add: mbuf_ok_def mbuf_data_def head_len_def)
  then show ?thesis using True m ok assms(2) pull(1)
    by (intro that [of "bytes q @ take ?k (mbuf_data m)" "c\<lparr>rxq := ?m # r\<rparr>"]) (auto simp: tcp_read_copy_def Let_def)
qed (use assms(2) in \<open>auto simp: tcp_read_copy_def intro: that\<close>)

lemma read_spec:
  assumes "tcp_read c n self len = Some (Returns (ret, bs), c', n')" "\<not> rx_closed c" "\<forall>m \<in> set (rxq c). mbuf_ok m"
  shows "bs @ bytes (rxq c') = bytes (rxq c) \<and> (\<forall>m \<in> set (rxq c'). mbuf_ok m) \<and> rxq_ooo c' = rxq_ooo c \<and> ret = int (length bs) \<and>
    pcb c' = (pcb c)\<lparr>rcv_wnd := rcv_wnd (pcb c) + of_nat (length bs)\<rparr>"
proof -
  obtain q part c2 where w: "tcp_read_wait c n self len = Some (Returns (ret, q, part), c2, n')"
    and r: "ret \<le> 0 \<and> bs = [] \<and> c' = c2 \<or>
      ret > 0 \<and> (\<exists>c3. tcp_read_copy c2 len q part = Some (bs, c3) \<and> c' = tcp_read_finish c3 part)"
    using assms(1) by (auto simp: tcp_read_def elim!: bind_SomeE split: blocking.splits prod.splits if_splits)
  obtain c1 rl where l: "read_loop len 0 c [] (rxq c) = (rl, q, part, c1)" "ret = int rl" "rxq c2 = rxq c1" "rxq_ooo c2 = rxq_ooo c1"
    "pcb c2 = (pcb c1)\<lparr>rcv_wnd := rcv_wnd (pcb c1) + of_nat rl\<rparr>"
    using read_wait_spec [OF w assms(2,3)] by metis
  have s: "bytes q @ bytes (rxq c1) = bytes (rxq c)" "set (rxq c1) \<subseteq> set (rxq c)" "pcb c1 = pcb c" "rxq_ooo c1 = rxq_ooo c"
    "\<not> part \<Longrightarrow> rl = length (bytes q)"
    "part \<Longrightarrow> rl = len \<and> length (bytes q) < len \<and> (\<exists>m r. rxq c1 = m # r \<and> len - length (bytes q) < m_len m)"
    using read_loop_spec [OF l(1) _ assms(3)] by auto
  have ok: "\<forall>m \<in> set (rxq c2). mbuf_ok m" using s(2) assms(3) l(3) by auto
  show ?thesis
  proof (cases "ret \<le> 0")
    case True
    then have z: "rl = 0" "\<not> part" using l(2) s(6) by auto
    then have "bytes q = []" using s(5) by (metis length_0_conv)
    then have "bytes (rxq c1) = bytes (rxq c)" using s(1) by (simp only: append_Nil)
    then show ?thesis using z r True s(2-4) l(2-5) ok by simp
  next
    case False
    have "part \<Longrightarrow> \<exists>m r. rxq c2 = m # r \<and> len - length (bytes q) \<le> m_len m" using s(6) l(3) by (metis less_imp_le)
    from read_copy_spec [OF this ok] obtain b c3 where "tcp_read_copy c2 len q part = Some (b, c3)" "b @ bytes (rxq c3) = bytes q @ bytes (rxq c2)"
      "length b = (if part then max len (length (bytes q)) else length (bytes q))" "\<forall>m \<in> set (rxq c3). mbuf_ok m" "rxq_ooo c3 = rxq_ooo c2" "pcb c3 = pcb c2"
      by metis
    then show ?thesis using r False s l by auto
  qed
qed

lemma read_closed:
  assumes "tcp_read c n self len = Some (Returns (ret, bs), c', n')" "rx_closed c"
  shows "c' = c" "bs = []"
  using assms
  by (auto simp: tcp_read_def tcp_read_wait_def tcp_read_copy_def tcp_read_finish_def elim!: bind_SomeE split: if_splits blocking.splits prod.splits)

lemma read_blocks: "tcp_read c n self len = Some (Blocks, c', n') \<Longrightarrow> rx_keeps c c'"
  by (auto simp: tcp_read_def tcp_read_wait_def Let_def elim!: bind_SomeE split: blocking.splits prod.splits if_splits)

section \<open>Runs of a connection\<close>

text \<open>
  What the peer may send: a segment with text carries a part of its stream that is not more than \<open>2 ^ 30\<close> bytes away from the position
  \<open>R\<close> of the receiver, and its FIN, if it has one, lies in the window: beyond it, \<^verbatim>\<open>tcp_rx_append_text\<close> would trim a byte of text in place of the FIN.
\<close>

definition peer_seg :: "(nat \<Rightarrow> u8) \<Rightarrow> nat \<Rightarrow> u32 \<Rightarrow> nat \<Rightarrow> tcp_conn \<Rightarrow> tcp_seg \<Rightarrow> mbuf \<Rightarrow> bool" where
  "peer_seg strm L base R c sg m \<longleftrightarrow> (sg_len sg > 0 \<longrightarrow>
     (\<exists>p. seg_at strm L base (seg_buf sg m) p \<and> p < R + 2 ^ 30 \<and> R < p + 2 ^ 30 \<and>
        (fin_len (seg_buf sg m) = 1 \<longrightarrow> end_at (seg_buf sg m) p \<le> R + unat (rcv_wnd (pcb c)))))"

text \<open>A connection whose handshake has fixed the first sequence number of the peer.\<close>

definition fresh_conn :: "u32 \<Rightarrow> tcp_conn \<Rightarrow> bool" where
  "fresh_conn base c \<longleftrightarrow> state (pcb c) \<noteq> SYN_SENT \<and> rcv_nxt (pcb c) = base \<and> rcv_wnd (pcb c) = TCP_WIN \<and> rxq c = [] \<and> rxq_ooo c = []"

text \<open>
  The runs of a connection, with the bytes read so far and the position of the receiver. Between the steps the rest of the network stack may
  change in any way. The value of \<^verbatim>\<open>snd_nxt\<close> that the handler of packets has read before it took the lock may be any.
\<close>

inductive tcp_run :: "(nat \<Rightarrow> u8) \<Rightarrow> nat \<Rightarrow> u32 \<Rightarrow> tcp_conn \<Rightarrow> u8 list \<Rightarrow> nat \<Rightarrow> bool" for strm L base where
  start: "fresh_conn base c \<Longrightarrow> tcp_run strm L base c [] 0"
| packet: "tcp_run strm L base c out R \<Longrightarrow> tcp_rx_parse m = Some (Some (sg, m1)) \<Longrightarrow> peer_seg strm L base R c sg m1 \<Longrightarrow>
    tcp_rx_conn c n nxt m = Some (c', n') \<Longrightarrow> tcp_run strm L base c' out (R + unat (rcv_nxt (pcb c') - rcv_nxt (pcb c)))"
| read: "tcp_run strm L base c out R \<Longrightarrow> tcp_read c n self len = Some (Returns (ret, bs), c', n') \<Longrightarrow> tcp_run strm L base c' (out @ bs) R"
| block: "tcp_run strm L base c out R \<Longrightarrow> tcp_read c n self len = Some (Blocks, c', n') \<Longrightarrow> tcp_run strm L base c' out R"
| other: "tcp_run strm L base c out R \<Longrightarrow> tcp_op c c' \<Longrightarrow> tcp_run strm L base c' out R"

lemma rx_inv_view: "rcv_view c' = rcv_view c \<Longrightarrow> rx_inv strm L base D R E c' = rx_inv strm L base D R E c"
  by (simp add: rcv_view_def rx_inv_def rxq_inv_def rcv_at_def)

definition run_inv :: "(nat \<Rightarrow> u8) \<Rightarrow> nat \<Rightarrow> u32 \<Rightarrow> tcp_conn \<Rightarrow> u8 list \<Rightarrow> nat \<Rightarrow> bool" where
  "run_inv strm L base c out R \<longleftrightarrow> state (pcb c) \<noteq> SYN_SENT \<and> out = piece strm 0 (length out) \<and> length out \<le> L \<and>
     (failed c \<or> rx_inv strm L base (length out) R (length out + 64240) c)"

lemma run_inv_keeps:
  assumes "run_inv strm L base c out R" "rx_keeps c c'"
  shows "run_inv strm L base c' out R"
  using assms rx_inv_view [of c' c] by (auto simp: run_inv_def rx_keeps_def failed_def)

lemma run_inv_start:
  assumes "fresh_conn base c"
  shows "run_inv strm L base c [] 0"
  using assms by (simp add: run_inv_def rx_inv_def rxq_inv_def fresh_conn_def rcv_at_def ooo_at_def TCP_WIN_def)

lemma ooo_at_mono: "ooo_at strm L base R E q \<Longrightarrow> E \<le> E' \<Longrightarrow> ooo_at strm L base R E' q"
  unfolding ooo_at_def by (elim exE conjE, rule exI, intro conjI, erule list_all2_mono) (auto simp: kept_def)

lemma run_inv_read:
  assumes "run_inv strm L base c out R" "tcp_read c n self len = Some (Returns (ret, bs), c', n')"
  shows "run_inv strm L base c' (out @ bs) R"
proof (cases "rx_closed c")
  case True
  then show ?thesis using assms read_closed [OF assms(2) True] by simp
next
  case False
  let ?D = "length out" and ?k = "length bs"
  have i: "rx_inv strm L base ?D R (?D + 64240) c" using assms(1) False by (auto simp: run_inv_def failed_def)
  then have x: "rcv_at base R (?D + 64240) c" "R \<le> L + 1" "ooo_at strm L base R (?D + 64240) (rxq_ooo c)" "?D \<le> min R L"
    "\<forall>m \<in> set (rxq c). mbuf_ok m" "bytes (rxq c) = piece strm ?D (min R L)" by (auto simp: rx_inv_def rxq_inv_def)
  have r: "bs @ bytes (rxq c') = bytes (rxq c)" "\<forall>m \<in> set (rxq c'). mbuf_ok m" "rxq_ooo c' = rxq_ooo c"
    "pcb c' = (pcb c)\<lparr>rcv_wnd := rcv_wnd (pcb c) + of_nat ?k\<rparr>"
    using read_spec [OF assms(2) False x(5)] by auto
  have k: "?k \<le> min R L - ?D" using arg_cong [OF r(1), of length] x(6) by simp
  have b: "bs = piece strm ?D (?D + ?k)" "bytes (rxq c') = piece strm (?D + ?k) (min R L)"
    using r(1) x(6) k take_piece [of ?k strm ?D "min R L"] drop_piece [of ?k strm ?D "min R L"]
    by (metis append_eq_conv_conj diff_add_inverse le_diff_conv2 min.absorb1 x(4) add.commute)+
  have "rcv_at base R (?D + ?k + 64240) c'"
    using x(1) r(4) k x(4) by (auto simp: rcv_at_def of_nat_diff)
  then have "rx_inv strm L base (?D + ?k) R (?D + ?k + 64240) c'"
    using x(2,3,4) r(2,3) b(2) k ooo_at_mono [OF x(3), of "?D + ?k + 64240"] by (auto simp: rx_inv_def rxq_inv_def)
  moreover have "out @ bs = piece strm 0 (?D + ?k)"
    using assms(1) b(1) by (simp add: run_inv_def) (metis le0 le_add1 piece_append)
  ultimately show ?thesis using assms(1) r(4) k x(4) by (auto simp: run_inv_def failed_def)
qed

lemma peer_seg_kept:
  assumes "rx_inv strm L base D R E c" "peer_seg strm L base R c sg m" "sg_len sg > 0" "is_acceptable c (sg_len sg) (sg_seq sg)"
  obtains p where "kept strm L base E (seg_buf sg m) p" "R < end_at (seg_buf sg m) p"
proof -
  obtain p where p: "seg_at strm L base (seg_buf sg m) p" "p < R + 2 ^ 30" "R < p + 2 ^ 30"
    "fin_len (seg_buf sg m) = 1 \<longrightarrow> end_at (seg_buf sg m) p \<le> R + unat (rcv_wnd (pcb c))"
    using assms(2,3) by (auto simp: peer_seg_def)
  have a: "rcv_at base R E c" using assms(1) by (simp add: rx_inv_def rxq_inv_def)
  then have "R + unat (rcv_wnd (pcb c)) = E" by (auto simp: rcv_at_def unat_of_nat simp del: of_nat_diff)
  then show ?thesis using acceptable_seg [OF a p(1-3) assms(3,4)] p(1,4) by (intro that [of p]) (auto simp: kept_def)
qed

lemma run_inv_failed: "run_inv strm L base c out R \<Longrightarrow> failed c \<Longrightarrow> run_inv strm L base c out R'"
  by (simp add: run_inv_def)

lemma run_inv_packet:
  assumes "run_inv strm L base c out R" "tcp_rx_parse m = Some (Some (sg, m1))" "peer_seg strm L base R c sg m1"
    "tcp_rx_conn c n nxt m = Some (c', n')"
  shows "run_inv strm L base c' out (R + unat (rcv_nxt (pcb c') - rcv_nxt (pcb c)))"
proof -
  let ?R = "R + unat (rcv_nxt (pcb c') - rcv_nxt (pcb c))" and ?D = "length out"
  let ?E = "?D + 64240"
  have s: "state (pcb c) \<noteq> SYN_SENT" using assms(1) by (simp add: run_inv_def)
  from rx_conn_cases [OF assms(4,2) s] show ?thesis
  proof (elim disjE exE conjE)
    assume k: "rx_keeps c c'"
    have "failed c' \<or> rcv_nxt (pcb c') = rcv_nxt (pcb c)" using k by (auto simp: rx_keeps_def rcv_view_def)
    then show ?thesis using run_inv_keeps [OF assms(1) k] run_inv_failed by fastforce
  next
    fix c1 used wake d
    assume k: "rx_keeps c c1" "rcv_view c1 = rcv_view c" "is_acceptable c (sg_len sg) (sg_seq sg)" "sg_len sg > 0"
      "state (pcb c1) \<notin> {CLOSED, SYN_SENT}" "tcp_rx_text c1 (seg_buf sg m1) = Some (used, wake, d)" "rx_keeps d c'"
    have "\<not> failed c" using k(1,5) by (auto simp: rx_keeps_def failed_def)
    then have i: "rx_inv strm L base ?D R ?E c" using assms(1) by (simp add: run_inv_def)
    obtain p where p: "kept strm L base ?E (seg_buf sg m1) p" "R < end_at (seg_buf sg m1) p"
      using peer_seg_kept [OF i assms(3) k(4,3)] .
    have "rx_inv strm L base ?D R ?E c1" using i rx_inv_view [OF k(2)] by simp
    from text_seg [OF this p] k(6) obtain R' where R': "R \<le> R'" "rx_inv strm L base ?D R' ?E d" "rx_frame c1 d" by auto
    have "state (pcb d) = state (pcb c1)" using R'(3) by (auto simp: rx_frame_def)
    then have "run_inv strm L base d out R'" using R'(2) k(5) assms(1) by (auto simp: run_inv_def)
    then have v: "run_inv strm L base c' out R'" using k(7) by (rule run_inv_keeps)
    show ?thesis
    proof (cases "failed c'")
      case False
      then have "rcv_nxt (pcb c') = base + of_nat R'" using v by (simp add: run_inv_def rx_inv_def rxq_inv_def rcv_at_def)
      moreover have "rcv_nxt (pcb c) = base + of_nat R" "R' \<le> R + 65535"
        using i R'(2) by (auto simp: rx_inv_def rxq_inv_def rcv_at_def)
      ultimately have "?R = R'" using seq_diff [OF R'(1), of base] R'(1) by simp
      then show ?thesis using v by simp
    qed (use v run_inv_failed in blast)
  qed
qed

lemma tcp_run_inv: "tcp_run strm L base c out R \<Longrightarrow> run_inv strm L base c out R"
  by (induction rule: tcp_run.induct)
    (blast intro: run_inv_start run_inv_packet run_inv_read run_inv_keeps read_blocks keeps_op)+

text \<open>C2: 
  The receiving side of a connection delivers the stream of its peer, in runs of these steps: packets of the peer in any order, lost, repeated or overlapping; reads with \<^verbatim>\<open>tcp_read\<close> of any
  length; and the operations listed in \<open>tcp_op\<close> (writing, retransmission, shutdown, abort, close, timeouts, errors). Two things are left out, since the code is wrong there: a packet
  whose FIN lies beyond the receive window, from which \<^verbatim>\<open>tcp_rx_append_text\<close> trims one byte too many, and reading with \<^verbatim>\<open>tcp_readv\<close>, which copies from the wrong buffer. The text of a packet is at most \<open>2 ^ 30\<close> bytes
  away from the position of the receiver. In such a run the bytes read are the beginning of the stream: none is lost, repeated or out of order. As
  long as the connection has not failed, the bytes read and those in the receive queue together are the stream up to the position \<open>R\<close> of
  \<^verbatim>\<open>rcv_nxt\<close>. A further segment of this kind that passes the test for acceptability does not fail an assertion, and when it starts at or
  before that position its text is accepted up to the edge of the window.
\<close>

theorem tcp_delivers_stream:
  assumes "tcp_run strm L base c out R"
  shows "out = map strm [0..<length out] \<and> length out \<le> L \<and>
    (failed c \<or>
     rcv_nxt (pcb c) = base + of_nat R \<and> out @ concat (map mbuf_data (rxq c)) = map strm [0..<min R L] \<and>
     (\<forall>sg m p. seg_at strm L base (seg_buf sg m) p \<and> p < R + 2 ^ 30 \<and> R < p + 2 ^ 30 \<and>
        (fin_len (seg_buf sg m) = 1 \<longrightarrow> end_at (seg_buf sg m) p \<le> R + unat (rcv_wnd (pcb c))) \<and>
        sg_len sg > 0 \<and> is_acceptable c (sg_len sg) (sg_seq sg) \<longrightarrow>
        (\<exists>used wake c' R'. tcp_rx_text c (seg_buf sg m) = Some (used, wake, c') \<and> (wake \<longrightarrow> used \<and> rxq c' \<noteq> []) \<and>
           rcv_nxt (pcb c') = base + of_nat R' \<and> R \<le> R' \<and>
           (p \<le> R \<longrightarrow> min (end_at (seg_buf sg m) p) (R + unat (rcv_wnd (pcb c))) \<le> R'))))"
proof -
  let ?E = "length out + 64240"
  have i: "run_inv strm L base c out R" by (rule tcp_run_inv [OF assms])
  show ?thesis
  proof (cases "failed c")
    case True
    then show ?thesis using i by (simp add: run_inv_def piece_def)
  next
    case False
    then have x: "rx_inv strm L base (length out) R ?E c" using i by (simp add: run_inv_def)
    then have a: "rcv_at base R ?E c" "length out \<le> min R L" "bytes (rxq c) = piece strm (length out) (min R L)"
      by (auto simp: rx_inv_def rxq_inv_def)
    have e: "R + unat (rcv_wnd (pcb c)) = ?E" using a(1) by (auto simp: rcv_at_def unat_of_nat simp del: of_nat_diff)
    have "out @ bytes (rxq c) = piece strm 0 (min R L)"
      using i a(2,3) piece_append [of 0 "length out" "min R L" strm] by (simp add: run_inv_def)
    moreover have "\<exists>used wake c' R'. tcp_rx_text c (seg_buf sg m) = Some (used, wake, c') \<and> (wake \<longrightarrow> used \<and> rxq c' \<noteq> []) \<and>
         rcv_nxt (pcb c') = base + of_nat R' \<and> R \<le> R' \<and> (p \<le> R \<longrightarrow> min (end_at (seg_buf sg m) p) (R + unat (rcv_wnd (pcb c))) \<le> R')"
      if h: "seg_at strm L base (seg_buf sg m) p" "p < R + 2 ^ 30" "R < p + 2 ^ 30"
        "fin_len (seg_buf sg m) = 1 \<longrightarrow> end_at (seg_buf sg m) p \<le> R + unat (rcv_wnd (pcb c))"
        "sg_len sg > 0" "is_acceptable c (sg_len sg) (sg_seq sg)" for sg m p
    proof -
      have "kept strm L base ?E (seg_buf sg m) p" "R < end_at (seg_buf sg m) p"
        using acceptable_seg [OF a(1) h(1-3,5,6)] h(1,4) e by (auto simp: kept_def)
      from text_seg [OF x this] show ?thesis unfolding e by (auto simp: rx_inv_def rxq_inv_def rcv_at_def)
    qed
    ultimately show ?thesis using i a(1) by (simp add: run_inv_def rcv_at_def piece_def)
  qed
qed

section \<open>An example\<close>

definition ex_net :: net where
  "ex_net = \<lparr>io_mac = replicate 6 2, io_addr = 0x0a000001, io_netmask = 0xffffff00, io_gateway = 0x0a0000fe,
     bufs = (\<lambda>a. \<lparr>m_head = replicate 1920 0, m_data = 0, m_len = 0, txflags = 0, network_off = 0, transport_off = 0,
       m_release = net_tx_release_mbuf, m_timestamp = 0, seg_seq = 0, seg_end = 0, m_flags = 0, m_ref = 0\<rparr>),
     tx_free = [0, 1, 2], txpktq = [], txpktq_size = 2, txpktq_overflow = [], arp_tbl = (\<lambda>i. []), smalloc_ok = [True, True],
     clock = of_nat, ticks = 0, net_errors = [], trans_seed = 1, ephemeral_offset = 0, trans_tbl = (\<lambda>i. []), tcp_conns = [],
     rx_pool = [], txcmdq = [], txcmdq_size = 2, udp_done = []\<rparr>"

text \<open>A packet with the three bytes at the start of the stream, from the IP header on.\<close>

definition ex_packet :: mbuf where
  "ex_packet = \<lparr>m_head = ip_hdr 43 0 IPPROTO_TCP 0x0a000002 0x0a000001 @
     tcp_hdr 80 1024 1 1 0 (TCP_ACK OR TCP_PUSH) 1000 0 @ [0, 0] @ [7, 8, 9],
     m_data = 20, m_len = 23, txflags = 0, network_off = 0, transport_off = 20, m_release = net_rx_release_mbuf,
     m_timestamp = 0, seg_seq = 0, seg_end = 0, m_flags = 0, m_ref = 0\<rparr>"

definition ex_conn :: tcp_conn where
  "ex_conn = \<lparr>c_sock = 0, laddr = \<lparr>na_ip = 0x0a000001, na_port = 1024\<rparr>, raddr = \<lparr>na_ip = 0x0a000002, na_port = 80\<rparr>,
     pcb = \<lparr>state = ESTABLISHED, snd_una = 1, snd_nxt = 1, snd_wnd = 0, snd_wl1 = 0, snd_wl2 = 0, iss = 0,
       rcv_nxt = 1, rcv_wnd = TCP_WIN, irs = 0\<rparr>,
     c_ref = 2, c_err = 0, rx_closed = False, rx_exclusive = False, rx_wq = [], rxq_ooo = [], rxq = [],
     tx_closed = False, tx_exclusive = False, tx_wq = [], tx_last_ack = 0, tx_last_win = 0, tx_pending = None, txq = [],
     do_fast_retransmit = False, fast_retransmit_last_ack = 0,
     next_timeout = - 1, ack_delayed = False, rcv_wnd_full = False, ack_ts = 0, time_wait_ts = 0, rep_acks = 0,
     c_woken = [], c_spawned = 0\<rparr>"

definition ex_conn1 :: tcp_conn where
  "ex_conn1 = (case tcp_rx_conn ex_conn ex_net 1 ex_packet of Some (c, n) \<Rightarrow> c | None \<Rightarrow> ex_conn)"

lemma ex_rx: "(case tcp_rx_conn ex_conn ex_net 1 ex_packet of None \<Rightarrow> False | Some (c, n) \<Rightarrow> rcv_nxt (pcb c) = 4)"
  by code_simp

lemma ex_read: "(case tcp_read ex_conn1 ex_net 5 2 of Some (Returns (r, bs), c, n) \<Rightarrow> bs = [7, 8] \<and> \<not> failed c | _ \<Rightarrow> False)"
  unfolding failed_def by code_simp

lemma ex_parse:
  "tcp_rx_parse ex_packet = Some (Some (\<lparr>sg_seq = 1, sg_ack = 1, sg_win = 1000, sg_flags = 24, sg_len = 3\<rparr>, ex_packet\<lparr>m_data := 40, m_len := 3\<rparr>))"
  by code_simp

lemma ex_data: "m_len m = 3 \<Longrightarrow> m_data m = 40 \<Longrightarrow> m_head m = m_head ex_packet \<Longrightarrow> mbuf_data m = [7, 8, 9] \<and> head_len m = 43"
  by (simp add: mbuf_data_def head_len_def ex_packet_def ip_hdr_def tcp_hdr_def store16_def store32_def)

lemma ex_seg:
  "seg_at (\<lambda>i. [7, 8, 9] ! i) 3 1 (seg_buf \<lparr>sg_seq = 1, sg_ack = 1, sg_win = 1000, sg_flags = 24, sg_len = 3\<rparr> (ex_packet\<lparr>m_data := 40, m_len := 3\<rparr>)) 0"
  using ex_data [of "seg_buf \<lparr>sg_seq = 1, sg_ack = 1, sg_win = 1000, sg_flags = 24, sg_len = 3\<rparr> (ex_packet\<lparr>m_data := 40, m_len := 3\<rparr>)"]
  by (simp add: seg_at_def seg_buf_def mbuf_ok_def end_at_def fin_len_def TCP_FIN_def piece_def upt_rec)

lemma ex_run: "\<exists>c. tcp_run (\<lambda>i. [7, 8, 9] ! i) 3 1 c [7, 8] 3 \<and> \<not> failed c"
proof -
  let ?sg = "\<lparr>sg_seq = 1, sg_ack = 1, sg_win = 1000, sg_flags = 24, sg_len = 3\<rparr>" and ?m = "ex_packet\<lparr>m_data := 40, m_len := 3\<rparr>"
  let ?s = "\<lambda>i. [7, 8, 9] ! i :: u8"
  have "fresh_conn 1 ex_conn" by (simp add: fresh_conn_def ex_conn_def)
  then have r0: "tcp_run ?s 3 1 ex_conn [] 0" by (rule tcp_run.start)
  obtain n1 where x: "tcp_rx_conn ex_conn ex_net 1 ex_packet = Some (ex_conn1, n1)" "rcv_nxt (pcb ex_conn1) = 4"
    using ex_rx by (auto simp: ex_conn1_def split: option.splits prod.splits)
  have "fin_len (seg_buf ?sg ?m) = 0" by (simp add: fin_len_def seg_buf_def TCP_FIN_def)
  then have "peer_seg ?s 3 1 0 ex_conn ?sg ?m" using ex_seg by (auto simp: peer_seg_def intro!: exI [of _ 0])
  from tcp_run.packet [OF r0 ex_parse this x(1)] have r1: "tcp_run ?s 3 1 ex_conn1 [] 3" using x(2) by (simp add: ex_conn_def)
  obtain c n r where "tcp_read ex_conn1 ex_net 5 2 = Some (Returns (r, [7, 8]), c, n)" "\<not> failed c"
    using ex_read by (auto split: option.splits prod.splits blocking.splits)
  then show ?thesis using tcp_run.read [OF r1] by fastforce
qed

theorem tcp_delivers_stream_witness:
  "\<exists>c. tcp_run (\<lambda>i. [7, 8, 9] ! i) 3 1 c [7, 8] 3 \<and> rcv_nxt (pcb c) = 4 \<and> [7, 8] @ concat (map mbuf_data (rxq c)) = [7, 8, 9]"
proof -
  obtain c where c: "tcp_run (\<lambda>i. [7, 8, 9] ! i) 3 1 c [7, 8] 3" "\<not> failed c" using ex_run by blast
  from tcp_delivers_stream [OF c(1)] c show ?thesis by (intro exI [of _ c]) (simp add: upt_rec)
qed

end
