(* ===== verification/Cksum.thy ===== *)
theory Cksum
  imports Net_Bytes
begin

text \<open>
  The internet checksum \<^verbatim>\<open>cksum_internet\<close> (\<^verbatim>\<open>utils/cksum.h\<close>), which is written in assembly: a sum of 64-bit words with the carry flag
  kept between the additions, the rest of the buffer in smaller words, and two folds to 16 bits. It is the one's complement sum of
  the 16-bit words of the buffer, whatever its length.
\<close>

section \<open>The code\<close>

text \<open>The instructions \<^verbatim>\<open>add\<close> and \<^verbatim>\<open>adc\<close> at any width: the sum and the carry flag.\<close>

definition adc :: "'a::len word \<Rightarrow> 'a word \<Rightarrow> bool \<Rightarrow> 'a word \<times> bool" where
  "adc x y cf = (x + y + of_bool cf, unat x + unat y + of_bool cf \<ge> 2 ^ LENGTH('a))"

text \<open>\<^verbatim>\<open>add\<close> of a word followed by \<^verbatim>\<open>adc $0\<close>.\<close>

definition add_around :: "'a::len word \<Rightarrow> 'a word \<Rightarrow> 'a word" where
  "add_around x y = (let (s, cf) = adc x y False in fst (adc s 0 cf))"

definition load64 :: "u8 list \<Rightarrow> nat \<Rightarrow> u64" where
  "load64 bs i = ucast (load32 bs i) OR push_bit 32 (ucast (load32 bs (i + 4)))"

text \<open>The loop over 8 bytes at a time; the flag is cleared before it and added behind it.\<close>

function cksum_quads :: "u8 list \<Rightarrow> u64 \<Rightarrow> bool \<Rightarrow> u64 \<times> u8 list" where
  "cksum_quads bs s cf =
     (if length bs \<ge> 8 then let (s, cf) = adc s (load64 bs 0) cf in cksum_quads (drop 8 bs) s cf
      else (fst (adc s 0 cf), bs))"
  by pat_completeness auto
termination
  by (relation "measure (\<lambda>(bs, s, cf). length bs)") auto

declare cksum_quads.simps [simp del]

text \<open>The tests of the bits 2, 1 and 0 of the length.\<close>

definition cksum_rest :: "u8 list \<Rightarrow> u64 \<Rightarrow> u64" where
  "cksum_rest bs s =
     (let (s, bs) = (if length bs \<ge> 4 then (add_around s (ucast (load32 bs 0)), drop 4 bs) else (s, bs));
          (s, bs) = (if length bs \<ge> 2 then (add_around s (ucast (load16 bs 0)), drop 2 bs) else (s, bs))
      in if length bs \<ge> 1 then add_around s (ucast (bs ! 0)) else s)"

definition cksum_fold :: "u64 \<Rightarrow> u16" where
  "cksum_fold s =
     (let t = add_around (ucast (drop_bit 32 s)) (ucast s) :: u32
      in NOT (add_around (ucast (drop_bit 16 t)) (ucast t)))"

definition cksum_internet :: "u8 list \<Rightarrow> u16" where
  "cksum_internet bs = (let (s, r) = cksum_quads bs 0 False in cksum_fold (cksum_rest r s))"

section \<open>Sums with end-around carry\<close>

text \<open>
  Two numbers agree as one's complement sums: they are congruent modulo 65535, and both or none of them is 0.
\<close>

definition ones_eq :: "nat \<Rightarrow> nat \<Rightarrow> bool" where
  "ones_eq m n \<longleftrightarrow> m mod 65535 = n mod 65535 \<and> (m = 0 \<longleftrightarrow> n = 0)"

lemma ones_eq_refl [simp]: "ones_eq n n"
  by (simp add: ones_eq_def)

lemma ones_eq_trans [trans]: "ones_eq l m \<Longrightarrow> ones_eq m n \<Longrightarrow> ones_eq l n"
  by (simp add: ones_eq_def)

lemma ones_eq_add: "ones_eq a b \<Longrightarrow> ones_eq c d \<Longrightarrow> ones_eq (a + c) (b + d)"
  by (auto simp: ones_eq_def intro: mod_add_cong)

lemma ones_eq_mult:
  assumes "k mod 65535 = 1"
  shows "ones_eq (k * n) n"
proof -
  have "k * n mod 65535 = (k mod 65535) * n mod 65535" by (rule mod_mult_left_eq [symmetric])
  moreover have "0 < k" using assms by (cases k) simp_all
  ultimately show ?thesis using assms by (simp add: ones_eq_def)
qed

lemma ones_eq_less:
  assumes "ones_eq m n" "m < 65536" "n < 65536"
  shows "m = n"
proof -
  have "m = (if m = 65535 then 65535 else m mod 65535)" "n = (if n = 65535 then 65535 else n mod 65535)" using assms by auto
  then show ?thesis using assms(1) unfolding ones_eq_def by (metis mod_self)
qed

lemma unat_adc:
  fixes x y :: "'a::len word"
  assumes "N = 2 ^ LENGTH('a)"
  shows "unat (fst (adc x y cf)) + (if snd (adc x y cf) then N else 0) = unat x + unat y + of_bool cf" "unat x < N" "unat y < N"
proof -
  show lt: "unat x < N" "unat y < N" unfolding assms by (rule unat_lt)+
  have t: "unat x + unat y + of_bool cf < 2 * N" using lt by (cases cf) auto
  have "unat (x + y + of_bool cf) = (unat x + unat y + of_bool cf) mod N"
    unfolding assms by (cases cf) (simp_all add: unat_word_ariths mod_simps)
  then show "unat (fst (adc x y cf)) + (if snd (adc x y cf) then N else 0) = unat x + unat y + of_bool cf"
    using t by (auto simp: adc_def assms [symmetric] le_mod_geq)
qed

lemma adc_zero:
  fixes x :: "'a::len word"
  assumes "\<not> (cf \<and> unat x + 1 = 2 ^ LENGTH('a))"
  shows "unat (fst (adc x 0 cf)) = unat x + of_bool cf"
proof -
  define N :: nat where "N = 2 ^ LENGTH('a)"
  have "snd (adc x 0 cf) = False"
    using assms unat_lt [of x] by (cases cf) (auto simp: adc_def N_def [symmetric])
  then show ?thesis using unat_adc(1) [OF N_def, of x 0 cf] by simp
qed

lemma wrap_ones:
  fixes w :: nat
  assumes "w mod 65535 = 1" "s + (if c then w else 0) = t"
  shows "ones_eq (s + of_bool c) t"
proof -
  have "ones_eq (of_bool c) (if c then w else 0)" using assms(1) by (auto simp: ones_eq_def)
  from ones_eq_add [OF ones_eq_refl this] show ?thesis using assms(2) by metis
qed

lemma unat_add_around:
  fixes x y :: "'a::len word"
  assumes "2 ^ LENGTH('a) mod 65535 = (1 :: nat)"
  shows "ones_eq (unat (add_around x y)) (unat x + unat y)"
proof -
  define N :: nat where "N = 2 ^ LENGTH('a)"
  obtain s cf where s: "adc x y False = (s, cf)" by fastforce
  have a: "unat s + (if cf then N else 0) = unat x + unat y" using unat_adc(1) [OF N_def, of x y False] s by simp
  moreover have "\<not> (cf \<and> unat s + 1 = N)" using a unat_lt [of x] unat_lt [of y] by (auto simp: N_def [symmetric])
  ultimately show ?thesis
    using wrap_ones [OF assms [folded N_def] a] adc_zero [of cf s] by (simp add: add_around_def s N_def)
qed

section \<open>The words of the buffer\<close>

lemma or_push_nat:
  fixes a b :: nat
  assumes "a < 2 ^ k"
  shows "a OR push_bit k b = a + 2 ^ k * b"
proof -
  have "take_bit k a = a" using assms by (simp add: take_bit_nat_eq_self_iff)
  then have "\<not> (k \<le> j \<and> bit a j)" for j by (metis bit_take_bit_iff linorder_not_less)
  then have "a AND push_bit k b = 0" by (intro bit_eqI) (auto simp: bit_simps)
  then show ?thesis by (simp add: disjunctive_add_eq_or [symmetric] push_bit_eq_mult mult.commute)
qed

lemma unat_push:
  fixes x :: "'a::len word"
  assumes "LENGTH('a) + k \<le> LENGTH('b::len)"
  shows "unat (push_bit k (ucast x) :: 'b word) = push_bit k (unat x)" "unat (ucast x :: 'b word) = unat x"
proof -
  have le: "unat x < 2 ^ LENGTH('a)" by (rule unat_lt)
  moreover have "(2::nat) ^ (LENGTH('a) + k) \<le> 2 ^ LENGTH('b)" using assms by (intro power_increasing) auto
  ultimately have p: "2 ^ k * unat x < 2 ^ LENGTH('b)"
    by (metis mult.commute mult_less_mono1 order_less_le_trans power_add zero_less_numeral zero_less_power)
  have "(2::nat) ^ LENGTH('a) \<le> 2 ^ LENGTH('b)" using assms by (intro power_increasing) auto
  then show u: "unat (ucast x :: 'b word) = unat x"
    using le by (simp only: unsigned_ucast_eq take_bit_nat_eq_self_iff order_less_le_trans)
  show "unat (push_bit k (ucast x) :: 'b word) = push_bit k (unat x)"
    using p by (simp only: unsigned_push_bit_eq u take_bit_nat_eq_self_iff) (simp add: push_bit_eq_mult mult.commute)
qed

lemma unat_load:
  "unat (load16 bs i) = unat (bs ! i) + 256 * unat (bs ! (i + 1))"
  "unat (load32 bs i) = unat (load16 bs i) + 65536 * unat (load16 bs (i + 2))"
  "unat (load64 bs i) = unat (load32 bs i) + 4294967296 * unat (load32 bs (i + 4))"
proof -
  have b: "unat (bs ! j) < 256" for j using unat_lt [of "bs ! j"] by simp
  show l16: "unat (load16 bs i) = unat (bs ! i) + 256 * unat (bs ! (i + 1))" for i
    using or_push_nat [of "unat (bs ! i)" 8] b [of i] by (simp add: load16_def unsigned_or_eq unat_push)
  let ?a = "unat (bs ! i)" and ?b = "unat (bs ! (i + 1))" and ?c = "unat (bs ! (i + 2))" and ?d = "unat (bs ! (i + 3))"
  have "unat (load32 bs i) = ((?a OR push_bit 8 ?b) OR push_bit 16 ?c) OR push_bit 24 ?d"
    by (simp add: load32_def unsigned_or_eq unat_push or.assoc)
  also have "\<dots> = ((?a + 256 * ?b) + 65536 * ?c) + 16777216 * ?d"
    using b [of i] b [of "i + 1"] b [of "i + 2"] or_push_nat [of ?a 8 ?b] or_push_nat [of "?a + 256 * ?b" 16 ?c]
      or_push_nat [of "?a + 256 * ?b + 65536 * ?c" 24 ?d] by simp
  finally show "unat (load32 bs i) = unat (load16 bs i) + 65536 * unat (load16 bs (i + 2))"
    by (simp add: l16 numeral_3_eq_3)
  show "unat (load64 bs i) = unat (load32 bs i) + 4294967296 * unat (load32 bs (i + 4))"
    using or_push_nat [of "unat (load32 bs i)" 32] unat_lt [of "load32 bs i"] by (simp add: load64_def unsigned_or_eq unat_push unat_push(2) [where k = 0])
qed

lemma load_drop: "i + j + 2 \<le> length bs \<Longrightarrow> load16 (drop j bs) i = load16 bs (j + i)"
  "i + j + 4 \<le> length bs \<Longrightarrow> load32 (drop j bs) i = load32 bs (j + i)"
  by (simp_all add: load16_def load32_def add.assoc)

lemma word_sum_take2: "2 \<le> length bs \<Longrightarrow> word_sum bs = unat (load16 bs 0) + word_sum (drop 2 bs)"
  by (cases bs rule: word_sum.cases) (simp_all add: load16_def)

lemma word_sum_take4:
  assumes "4 \<le> length bs"
  shows "ones_eq (unat (load32 bs 0) + word_sum (drop 4 bs)) (word_sum bs)"
proof -
  have "word_sum bs = unat (load16 bs 0) + unat (load16 bs 2) + word_sum (drop 4 bs)"
    using assms word_sum_take2 [of bs] word_sum_take2 [of "drop 2 bs"] by (simp add: load_drop)
  moreover have "ones_eq (unat (load32 bs 0)) (unat (load16 bs 0) + unat (load16 bs 2))"
    unfolding unat_load(2) add_0 by (intro ones_eq_add ones_eq_mult) simp_all
  ultimately show ?thesis by (simp add: ones_eq_add)
qed

lemma word_sum_take8:
  assumes "8 \<le> length bs"
  shows "ones_eq (unat (load64 bs 0) + word_sum (drop 8 bs)) (word_sum bs)"
proof -
  let ?r = "word_sum (drop 8 bs)"
  have "ones_eq (unat (load64 bs 0) + ?r) (unat (load32 bs 0) + (unat (load32 bs 4) + ?r))"
    unfolding unat_load(3) add_0 add.assoc by (intro ones_eq_add ones_eq_mult) simp_all
  moreover have "ones_eq (unat (load32 bs 4) + ?r) (word_sum (drop 4 bs))"
    using word_sum_take4 [of "drop 4 bs"] assms by (simp add: load_drop)
  ultimately have "ones_eq (unat (load64 bs 0) + ?r) (unat (load32 bs 0) + word_sum (drop 4 bs))"
    by (rule ones_eq_trans [OF _ ones_eq_add [OF ones_eq_refl]])
  also have "ones_eq \<dots> (word_sum bs)" using word_sum_take4 [of bs] assms by simp
  finally show ?thesis .
qed

section \<open>The whole sum\<close>

lemmas around64 = unat_add_around [where 'a = 64, simplified]
lemmas around32 = unat_add_around [where 'a = 32, simplified]
lemmas around16 = unat_add_around [where 'a = 16, simplified]

text \<open>
  The sum with its carry, counted as 1, is the sum of the words so far. The flag is never set together with a sum of all
  ones, so the carry that is added behind the loop is not lost.
\<close>

lemma cksum_quads_sum:
  assumes "\<not> (cf \<and> unat s + 1 = 2 ^ 64)" "cksum_quads bs s cf = (s', r)"
  shows "ones_eq (unat s' + word_sum r) (unat s + of_bool cf + word_sum bs) \<and> length r < 8"
  using assms
proof (induction bs s cf rule: cksum_quads.induct)
  case (1 bs s cf)
  show ?case
  proof (cases "8 \<le> length bs")
    case True
    obtain s1 cf1 where a: "adc s (load64 bs 0) cf = (s1, cf1)" by fastforce
    have u: "unat s1 + (if cf1 then 2 ^ 64 else 0) = unat s + unat (load64 bs 0) + of_bool cf"
      using unat_adc(1) [of "2 ^ 64" s "load64 bs 0" cf] a by simp
    have n: "\<not> (cf1 \<and> unat s1 + 1 = 2 ^ 64)"
      using u 1(2) unat_lt [of s] unat_lt [of "load64 bs 0"] by (cases cf) auto
    have "cksum_quads (drop 8 bs) s1 cf1 = (s', r)" using 1(3) True a by (subst (asm) cksum_quads.simps) simp
    from 1(1) [OF True a [symmetric] refl n this]
    have "ones_eq (unat s' + word_sum r) (unat s1 + of_bool cf1 + word_sum (drop 8 bs)) \<and> length r < 8" .
    moreover have "ones_eq (unat s1 + of_bool cf1 + word_sum (drop 8 bs)) (unat s + of_bool cf + (unat (load64 bs 0) + word_sum (drop 8 bs)))"
    proof -
      have "ones_eq (unat s1 + of_bool cf1) (unat s + unat (load64 bs 0) + of_bool cf)" by (rule wrap_ones [OF _ u]) simp
      from ones_eq_add [OF this ones_eq_refl [of "word_sum (drop 8 bs)"]] show ?thesis by (simp only: ac_simps)
    qed
    moreover have "ones_eq (unat s + of_bool cf + (unat (load64 bs 0) + word_sum (drop 8 bs))) (unat s + of_bool cf + word_sum bs)"
      by (intro ones_eq_add ones_eq_refl word_sum_take8 True)
    ultimately show ?thesis by (blast intro: ones_eq_trans)
  next
    case False
    then have "s' = fst (adc s 0 cf)" "r = bs" using 1(3) by (subst (asm) cksum_quads.simps; simp)+
    moreover have "unat (fst (adc s 0 cf)) = unat s + of_bool cf" using 1(2) by (intro adc_zero) simp
    ultimately show ?thesis using False by simp
  qed
qed

lemma around_ucast:
  "ones_eq (unat (add_around s (ucast (a :: u8)))) (unat s + unat a)"
  "ones_eq (unat (add_around s (ucast (b :: u16)))) (unat s + unat b)"
  "ones_eq (unat (add_around s (ucast (d :: u32)))) (unat s + unat d)" for s :: u64
  using around64 [of s "ucast a"] around64 [of s "ucast b"] around64 [of s "ucast d"]
  by (simp_all add: unat_push(2) [where k = 0])

lemma cksum_rest_sum:
  assumes "length r < 8"
  shows "ones_eq (unat (cksum_rest r s)) (unat s + word_sum r)"
proof -
  have r1: "word_sum r = (if length r \<ge> 1 then unat (r ! 0) else 0)" if "length r < 2" for r
    using that by (cases r rule: word_sum.cases) auto
  define f1 :: "u8 list \<Rightarrow> u64 \<Rightarrow> u64" where "f1 r s = (if length r \<ge> 1 then add_around s (ucast (r ! 0)) else s)" for r s
  define f2 where "f2 r s = (if length r \<ge> 2 then f1 (drop 2 r) (add_around s (ucast (load16 r 0))) else f1 r s)" for r s
  have f1: "ones_eq (unat (f1 r s)) (unat s + word_sum r)" if "length r < 2" for r s
    using that by (auto simp: f1_def r1 around_ucast)
  have f2: "ones_eq (unat (f2 r s)) (unat s + word_sum r)" if "length r < 4" for r s
  proof (cases "length r \<ge> 2")
    case True
    have "ones_eq (unat (f2 r s)) (unat (add_around s (ucast (load16 r 0))) + word_sum (drop 2 r))"
      using True that f1 [of "drop 2 r"] by (simp add: f2_def)
    also have "ones_eq \<dots> (unat s + unat (load16 r 0) + word_sum (drop 2 r))" by (intro ones_eq_add around_ucast ones_eq_refl)
    finally show ?thesis using word_sum_take2 [OF True] by (simp add: add.assoc)
  qed (simp add: f2_def f1)
  have c: "cksum_rest r s = (if length r \<ge> 4 then f2 (drop 4 r) (add_around s (ucast (load32 r 0))) else f2 r s)"
    by (simp add: cksum_rest_def f2_def f1_def)
  show ?thesis
  proof (cases "length r \<ge> 4")
    case True
    have "ones_eq (unat (cksum_rest r s)) (unat (add_around s (ucast (load32 r 0))) + word_sum (drop 4 r))"
      using True assms f2 [of "drop 4 r"] by (simp add: c)
    also have "ones_eq \<dots> (unat s + unat (load32 r 0) + word_sum (drop 4 r))" by (intro ones_eq_add around_ucast ones_eq_refl)
    also have "ones_eq \<dots> (unat s + word_sum r)" unfolding add.assoc by (intro ones_eq_add ones_eq_refl word_sum_take4 True)
    finally show ?thesis .
  qed (simp add: c f2)
qed

text \<open>The reference: the one's complement sum of the 16-bit words, between 0 and 65535; it is 0 only for a buffer of zeros.\<close>

definition ones_sum :: "u8 list \<Rightarrow> nat" where
  "ones_sum bs = (let n = word_sum bs in if n = 0 then 0 else (n - 1) mod 65535 + 1)"

lemma cksum_fold_sum: "ones_eq (65535 - unat (cksum_fold s)) (unat s)"
proof -
  define t :: u32 where "t = add_around (ucast (drop_bit 32 s)) (ucast s)"
  define f :: u16 where "f = add_around (ucast (drop_bit 16 t)) (ucast t)"
  have d: "unat (drop_bit k x) = unat x div 2 ^ k" for k and x :: "'b::len word" by (subst unat_drop_bit_eq) (simp add: drop_bit_eq_div)
  have "unat s div 2 ^ 32 < 2 ^ 32" using unat_lt [of s] by (simp add: less_mult_imp_div_less)
  then have h: "unat (ucast (drop_bit 32 s) :: u32) = unat s div 4294967296" "unat (ucast s :: u32) = unat s mod 4294967296"
    by (simp_all only: unsigned_ucast_eq d take_bit_eq_mod) simp_all
  have "unat t div 2 ^ 16 < 2 ^ 16" using unat_lt [of t] by (simp add: less_mult_imp_div_less)
  then have h': "unat (ucast (drop_bit 16 t) :: u16) = unat t div 65536" "unat (ucast t :: u16) = unat t mod 65536"
    by (simp_all only: unsigned_ucast_eq d take_bit_eq_mod) simp_all
  have split: "ones_eq (n div w + n mod w) n" if "w mod 65535 = 1" for n w
    using ones_eq_add [OF ones_eq_mult [OF that] ones_eq_refl [of "n mod w"], of "n div w"] by (simp add: ones_eq_def)
  have "ones_eq (unat f) (unat t)"
    using around16 [of "ucast (drop_bit 16 t)" "ucast t"] split [of 65536 "unat t"] by (auto simp: f_def h' intro: ones_eq_trans)
  moreover have "ones_eq (unat t) (unat s)"
    using around32 [of "ucast (drop_bit 32 s)" "ucast s"] split [of 4294967296 "unat s"] by (auto simp: t_def h intro: ones_eq_trans)
  moreover have "65535 - unat (cksum_fold s) = unat f"
  proof -
    have m: "NOT f = - 1 - f" by (simp add: not_eq_complement)
    have "unat (- 1 - f) = unat (- 1 :: u16) - unat f" by (rule unat_sub) simp
    then have "unat (NOT f) = 65535 - unat f" using m by (simp add: unsigned_minus_1_eq_mask mask_eq_exp_minus_1)
    then show ?thesis using unat_lt [of f] by (simp add: cksum_fold_def t_def [symmetric] f_def [symmetric])
  qed
  ultimately show ?thesis by (metis ones_eq_trans)
qed

lemma word_sum_store16 [simp]: "word_sum (store16 x) = unat x"
  using load16_store [of x] by (simp add: store16_def del: load16_store)

lemma cksum_ones: "ones_eq (65535 - unat (cksum_internet bs)) (word_sum bs)"
proof -
  obtain s r where q: "cksum_quads bs 0 False = (s, r)" by fastforce
  have "ones_eq (unat s + word_sum r) (word_sum bs)" "length r < 8" using cksum_quads_sum [OF _ q] by auto
  moreover have "cksum_internet bs = cksum_fold (cksum_rest r s)" by (simp add: cksum_internet_def q)
  ultimately show ?thesis using cksum_fold_sum [of "cksum_rest r s"] cksum_rest_sum [of r s] by (metis ones_eq_trans)
qed

lemma ones_sum_eq: "ones_eq (ones_sum bs) (word_sum bs)" "ones_sum bs < 65536"
  by (cases "word_sum bs"; simp add: ones_sum_def ones_eq_def mod_Suc)+

lemma unat_cksum_internet: "unat (cksum_internet bs) = 65535 - ones_sum bs"
proof -
  have "unat (cksum_internet bs) \<le> 65535" using unat_lt [of "cksum_internet bs"] by simp
  then show ?thesis
    using ones_eq_less [of "65535 - unat (cksum_internet bs)" "ones_sum bs"] cksum_ones [of bs] ones_sum_eq [of bs] by (simp add: ones_eq_def)
qed

lemma cksum_internet_zero: "cksum_internet bs = 0 \<longleftrightarrow> word_sum bs \<noteq> 0 \<and> word_sum bs mod 65535 = 0"
proof -
  have "cksum_internet bs = 0 \<longleftrightarrow> ones_sum bs = 65535"
    using unat_cksum_internet [of bs] ones_sum_eq(2) [of bs] by (auto simp: unat_eq_zero [symmetric] simp del: unat_eq_zero)
  moreover have "ones_sum bs = 65535 \<longleftrightarrow> ones_sum bs \<noteq> 0 \<and> ones_sum bs mod 65535 = 0" using ones_sum_eq(2) [of bs] by auto
  ultimately show ?thesis using ones_sum_eq(1) [of bs] unfolding ones_eq_def by metis
qed

text \<open>A buffer that holds its checksum in place of two zero bytes passes the check.\<close>

lemma cksum_internet_valid:
  assumes "even (length as)" "c = cksum_internet (as @ store16 0 @ bs)"
  shows "cksum_internet (as @ store16 c @ bs) = 0"
proof -
  have w: "word_sum (as @ store16 c @ bs) = word_sum (as @ store16 0 @ bs) + unat c" using assms(1) by (simp add: word_sum_append)
  let ?s = "ones_sum (as @ store16 0 @ bs)"
  have "ones_eq (word_sum (as @ store16 0 @ bs) + unat c) (?s + (65535 - ?s))"
    using ones_sum_eq(1) [of "as @ store16 0 @ bs"] unat_cksum_internet [of "as @ store16 0 @ bs"] assms(2)
    by (intro ones_eq_add) (simp_all add: ones_eq_def)
  moreover have "?s + (65535 - ?s) = 65535" using ones_sum_eq(2) [of "as @ store16 0 @ bs"] by simp
  ultimately have "ones_eq (word_sum (as @ store16 c @ bs)) 65535" using w by metis
  then show ?thesis unfolding cksum_internet_zero ones_eq_def by simp
qed

text \<open>C15: 
  \<^verbatim>\<open>cksum_internet\<close> computes the internet checksum of RFC 1071 of a buffer of any length: the complement of the
  one's complement sum of its 16-bit words. A buffer passes the check, with result 0, exactly when it has a byte that is not 0 and its words
  add up to a multiple of 65535. If the checksum of a buffer is stored in it in place of two zero bytes at an even position, the buffer passes the check.
\<close>

theorem cksum_internet_reference:
  "unat (cksum_internet bs) = 65535 - ones_sum bs \<and>
   (cksum_internet bs = 0 \<longleftrightarrow> word_sum bs \<noteq> 0 \<and> word_sum bs mod 65535 = 0) \<and>
   (even (length as) \<longrightarrow> cksum_internet (as @ store16 (cksum_internet (as @ store16 0 @ bs)) @ bs) = 0)"
  by (intro conjI impI unat_cksum_internet cksum_internet_zero cksum_internet_valid) simp_all

theorem cksum_internet_reference_witness: "cksum_internet ([8, 0] @ store16 (cksum_internet ([8, 0] @ store16 0 @ [1, 2, 3])) @ [1, 2, 3]) = 0"
  using cksum_internet_reference [of "[1, 2, 3]" "[8, 0]"] by simp

end
