(* ===== verification/Net_Rx.thy ===== *)
theory Net_Rx
  imports Transport Cksum
begin

text \<open>
  The ingress path below the transport protocols (\<^verbatim>\<open>libos/net/core.c\<close>), the control messages (\<^verbatim>\<open>libos/net/icmp.c\<close>) and the ping
  utility (\<^verbatim>\<open>libos/net/ping.c\<close>). A receive buffer has one owner and is a value; a freed one does not appear in the results.
  \<open>None\<close> is a failed \<^verbatim>\<open>BUG_ON\<close> or a copy beyond the end of a buffer.
\<close>

section \<open>Receive buffers\<close>

datatype csum_type = CHECKSUM_TYPE_NEEDED | CHECKSUM_TYPE_UNNECESSARY | CHECKSUM_TYPE_COMPLETE

text \<open>The field \<^verbatim>\<open>len\<close> is the length of the payload. The checksum and the hash of the hardware, which no code reads, are left out.\<close>

record rx_net_hdr =
  rh_completion_data :: u64
  rh_csum_type :: csum_type
  rh_payload :: "u8 list"

text \<open>A completion that the command queue cannot take is lost with a warning.\<close>

definition net_rx_send_completion :: "net \<Rightarrow> u64 \<Rightarrow> net" where
  "net_rx_send_completion n d = (if length (txcmdq n) < txcmdq_size n then n\<lparr>txcmdq := txcmdq n @ [d]\<rparr> else n)"

definition net_rx_alloc_mbuf :: "net \<Rightarrow> rx_net_hdr \<Rightarrow> (mbuf option \<times> net) option" where
  "net_rx_alloc_mbuf n hdr =
     (case rx_pool n of
        [] \<Rightarrow> Some (None, net_rx_send_completion n (rh_completion_data hdr))
      | m # ms \<Rightarrow> do {
          m \<leftarrow> mbuf_write m 0 (rh_payload hdr);
          m \<leftarrow> mbuf_init (m_head m) 0 m;
          let m = m\<lparr>m_len := length (rh_payload hdr), m_release := net_rx_release_mbuf\<rparr>;
          Some (Some m, net_rx_send_completion (n\<lparr>rx_pool := ms\<rparr>) (rh_completion_data hdr))
        })"

section \<open>Control messages\<close>

definition ICMP_MINLEN :: nat where "ICMP_MINLEN = 8"
definition ICMP_ECHOREPLY :: u8 where "ICMP_ECHOREPLY = 0"
definition ICMP_ECHO :: u8 where "ICMP_ECHO = 8"

text \<open>A message with the given type and code, its checksum filled in; \<open>bs\<close> is what follows the checksum.\<close>

definition icmp_msg :: "u8 \<Rightarrow> u8 \<Rightarrow> u8 list \<Rightarrow> u8 list" where
  "icmp_msg type code bs = [type, code] @ store16 (cksum_internet ([type, code] @ store16 0 @ bs)) @ bs"

text \<open>The reply to an echo request: \<open>pkt\<close> is the incoming message.\<close>

definition net_rx_icmp_echo :: "net \<Rightarrow> u8 list \<Rightarrow> u32 \<Rightarrow> net option" where
  "net_rx_icmp_echo n pkt saddr = do {
     (m, n) \<leftarrow> net_tx_alloc_mbuf n;
     case m of
       None \<Rightarrow> Some n
     | Some a \<Rightarrow> do {
         m \<leftarrow> mbuf_put_bytes (bufs n a) (icmp_msg ICMP_ECHOREPLY (pkt ! 1) (drop 4 pkt));
         net_tx_ip_or_free (set_buf n a m) a IPPROTO_ICMP saddr
       }
   }"

text \<open>The time, in seconds and microseconds.\<close>

type_synonym timeval = "int \<times> int"

fun timeval_subtract :: "timeval \<Rightarrow> timeval \<Rightarrow> timeval" where
  "timeval_subtract (os, ou) (is, iu) =
     (let u = ou - iu; (s, u) = (if u < 0 then (os - 1, u + 1000000) else (os, u)) in (s - is, u))"

text \<open>An answer to a ping: the sequence number and the latency that are logged, when it is one for this process.\<close>

definition net_recv_ping :: "u16 \<Rightarrow> timeval \<Rightarrow> timeval \<Rightarrow> u8 list \<Rightarrow> (u16 \<times> u32) option" where
  "net_recv_ping ping_id now tx_time icmp_pkt =
     (if load16 icmp_pkt 4 \<noteq> ping_id then None
      else let (s, u) = timeval_subtract now tx_time in Some (load16 icmp_pkt 6, of_int (s * 1000000 + u)))"

definition load_timeval :: "u8 list \<Rightarrow> nat \<Rightarrow> timeval" where
  "load_timeval bs i = (sint (load64 bs i), sint (load64 bs (i + 8)))"

text \<open>An echo reply: what is logged of it; \<open>icmp_pkt\<close> is its header and \<open>m\<close> what follows.\<close>

definition net_rx_icmp_echo_reply :: "u16 \<Rightarrow> timeval \<Rightarrow> mbuf \<Rightarrow> u8 list \<Rightarrow> (u16 \<times> u32) option" where
  "net_rx_icmp_echo_reply ping_id now m icmp_pkt =
     (case mbuf_pull_or_null m 16 of
        None \<Rightarrow> None
      | Some _ \<Rightarrow> net_recv_ping ping_id now (load_timeval (m_head m) (m_data m)) icmp_pkt)"

text \<open>An echo reply changes no state, since it is only logged; a message of any other type is dropped.\<close>

definition net_rx_icmp :: "net \<Rightarrow> mbuf \<Rightarrow> u32 \<Rightarrow> nat \<Rightarrow> net option" where
  "net_rx_icmp n m saddr len =
     (case mbuf_pull_or_null m ICMP_MINLEN of
        None \<Rightarrow> Some n
      | Some _ \<Rightarrow>
          let pkt = take len (drop (m_data m) (m_head m))
          in if pkt ! 0 = ICMP_ECHO then net_rx_icmp_echo n pkt saddr else Some n)"

text \<open>The arguments \<^verbatim>\<open>type\<close> and \<^verbatim>\<open>code\<close> are not used.\<close>

definition net_tx_icmp :: "net \<Rightarrow> nat \<Rightarrow> u8 \<Rightarrow> u8 \<Rightarrow> u32 \<Rightarrow> u16 \<Rightarrow> u16 \<Rightarrow> (int \<times> net) option" where
  "net_tx_icmp n a type code daddr ident seq = do {
     let bs = store16 ident @ store16 seq @ mbuf_data (bufs n a);
     m \<leftarrow> mbuf_push_bytes (bufs n a) (take ICMP_MINLEN (icmp_msg ICMP_ECHO 0 bs));
     net_tx_ip (set_buf n a m) a IPPROTO_ICMP daddr
   }"

definition store_timeval :: "timeval \<Rightarrow> u8 list" where
  "store_timeval t = store64 (of_int (fst t)) @ store64 (of_int (snd t))"

definition net_send_ping :: "net \<Rightarrow> u16 \<Rightarrow> timeval \<Rightarrow> u16 \<Rightarrow> u32 \<Rightarrow> net option" where
  "net_send_ping n ping_id now seq_num daddr = do {
     (m, n) \<leftarrow> net_tx_alloc_mbuf n;
     case m of
       None \<Rightarrow> Some n
     | Some a \<Rightarrow> do {
         m \<leftarrow> mbuf_push_bytes (bufs n a) (store_timeval now);
         (ret, n) \<leftarrow> net_tx_icmp (set_buf n a m) a ICMP_ECHO 0 daddr ping_id seq_num;
         Some (if ret \<noteq> 0 then mbuf_free n a else n)
       }
   }"

section \<open>Reception\<close>

text \<open>
  \<^verbatim>\<open>net_rx_one\<close>, up to the transport layer: the packet to be handed to it, if there is one. The header fields are at offset 0 of the frame and, behind the
  Ethernet header, at offset 14.
\<close>

definition rx_ip :: "net \<Rightarrow> csum_type \<Rightarrow> mbuf \<Rightarrow> (mbuf option \<times> net) option" where
  "rx_ip n csum m = do {
     m \<leftarrow> mbuf_mark_network_offset m;
     let h = m_head m;
     let i = m_data m;
     case mbuf_pull_or_null m 20 of
       None \<Rightarrow> Some (None, n)
     | Some m \<Rightarrow>
         if csum \<noteq> CHECKSUM_TYPE_UNNECESSARY \<and> cksum_internet (take 20 (drop i h)) \<noteq> 0 then Some (None, n)
         else if \<not> ip_hdr_supported h i then Some (None, n)
         else do {
           let len = unat (iphdr_len h i - 20);
           if mbuf_length m < len then Some (None, n)
           else do {
             m \<leftarrow> (if len < mbuf_length m then mbuf_trim m (mbuf_length m - len) else Some m);
             if iphdr_proto h i = IPPROTO_ICMP then do { n \<leftarrow> net_rx_icmp n m (iphdr_saddr h i) len; Some (None, n) }
             else if iphdr_proto h i = IPPROTO_UDP \<or> iphdr_proto h i = IPPROTO_TCP then Some (Some m, n)
             else Some (None, n)
           }
         }
   }"

definition net_rx_one :: "net \<Rightarrow> rx_net_hdr \<Rightarrow> (mbuf option \<times> net) option" where
  "net_rx_one n hdr = do {
     (m, n) \<leftarrow> net_rx_alloc_mbuf n hdr;
     case m of
       None \<Rightarrow> Some (None, n)
     | Some m \<Rightarrow>
         let h = m_head m; i = m_data m
         in case mbuf_pull_or_null m 14 of
              None \<Rightarrow> Some (None, n)
            | Some m \<Rightarrow>
                if ntoh16 (load16 h (i + 12)) = ETHTYPE_ARP
                then do { n \<leftarrow> net_rx_arp n (mbuf_data m); Some (None, n) }
                else if ntoh16 (load16 h (i + 12)) \<noteq> ETHTYPE_IP \<or> take 6 (drop i h) \<noteq> io_mac n then Some (None, n)
                else rx_ip n (rh_csum_type hdr) m
   }"

text \<open>The first loop of \<^verbatim>\<open>net_rx_softirq\<close>: the packets for the transport layer, in order.\<close>

fun net_rx_all :: "net \<Rightarrow> rx_net_hdr list \<Rightarrow> (mbuf list \<times> net) option" where
  "net_rx_all n [] = Some ([], n)"
| "net_rx_all n (hdr # hdrs) = do {
     (m, n) \<leftarrow> net_rx_one n hdr;
     (ms, n) \<leftarrow> net_rx_all n hdrs;
     Some (case m of None \<Rightarrow> ms | Some m \<Rightarrow> m # ms, n)
   }"

end
