(* ===== verification/Net_Frame.thy ===== *)
theory Net_Frame
  imports Net_Rx
begin

text \<open>
  What goes over the wire: the frame that the egress path hands to the I/O kernel for a buffer, and what the ingress path of a host
  makes of such a frame. The two together carry the data of the transport layer from one host to another.
\<close>

section \<open>Egress\<close>

text \<open>The packets in the hands of the I/O kernel or waiting for it, and the frame of such a packet: what follows the header for the I/O kernel.\<close>

definition tx_queue :: "net \<Rightarrow> nat list" where
  "tx_queue n = txpktq n @ txpktq_overflow n"

definition frame :: "net \<Rightarrow> nat \<Rightarrow> u8 list" where
  "frame n a = drop 18 (mbuf_data (bufs n a))"

text \<open>The parts of the state that the transmission of a packet leaves alone.\<close>

definition tx_same :: "net \<Rightarrow> net \<Rightarrow> bool" where
  "tx_same n n' \<longleftrightarrow> io_mac n' = io_mac n \<and> io_addr n' = io_addr n \<and> io_netmask n' = io_netmask n \<and> io_gateway n' = io_gateway n \<and>
     arp_tbl n' = arp_tbl n \<and> trans_tbl n' = trans_tbl n \<and> trans_seed n' = trans_seed n \<and> rx_pool n' = rx_pool n \<and>
     tx_free n' = tx_free n \<and> udp_done n' = udp_done n \<and> net_errors n' = net_errors n"

lemma tx_same_refl [simp]: "tx_same n n"
  by (simp add: tx_same_def)

lemma tx_same_trans: "tx_same l m \<Longrightarrow> tx_same m n \<Longrightarrow> tx_same l n"
  by (simp add: tx_same_def)

lemma tx_same_set_buf [simp]: "tx_same n (set_buf n' a m) = tx_same n n'"
  by (simp add: tx_same_def set_buf_def)

lemma bufs_set_buf [simp]: "bufs (set_buf n a m) b = (if b = a then m else bufs n b)"
  by (simp add: set_buf_def)

lemma set_buf_fields [simp]:
  "tx_queue (set_buf n a m) = tx_queue n" "io_mac (set_buf n a m) = io_mac n" "io_addr (set_buf n a m) = io_addr n"
  by (simp_all add: set_buf_def tx_queue_def)

lemma drain_overflow_append: "drain_overflow sz q as = (q', as') \<Longrightarrow> q' @ as' = q @ as"
  by (induction sz q as rule: drain_overflow.induct) (auto split: if_splits)

lemma tx_drain:
  "tx_queue (net_tx_drain_overflow n) = tx_queue n" "bufs (net_tx_drain_overflow n) = bufs n" "tx_same n (net_tx_drain_overflow n)"
  using drain_overflow_append [of "txpktq_size n" "txpktq n" "txpktq_overflow n"]
  by (auto simp: net_tx_drain_overflow_def tx_queue_def tx_same_def split: prod.splits)

text \<open>The overflow queue is in use only while the channel is full: this keeps the packets in order.\<close>

definition tx_ok :: "net \<Rightarrow> bool" where
  "tx_ok n \<longleftrightarrow> (txpktq_overflow n \<noteq> [] \<longrightarrow> txpktq_size n \<le> length (txpktq n))"

lemma drain_overflow_full: "drain_overflow sz q as = (q', as') \<Longrightarrow> as' \<noteq> [] \<Longrightarrow> sz \<le> length q'"
  by (induction sz q as rule: drain_overflow.induct) (auto split: if_splits)

lemma tx_ok_drain: "tx_ok (net_tx_drain_overflow n)"
  using drain_overflow_full [of "txpktq_size n" "txpktq n" "txpktq_overflow n"]
  by (auto simp: net_tx_drain_overflow_def tx_ok_def split: prod.splits)

lemma mbuf_write_front:
  assumes "mbuf_ok m" "length bs \<le> m_len m"
  shows "\<exists>m'. mbuf_write m (m_data m) bs = Some m' \<and> mbuf_ok m' \<and> mbuf_data m' = bs @ drop (length bs) (mbuf_data m) \<and>
    m' = m\<lparr>m_head := m_head m'\<rparr> \<and> head_len m' = head_len m"
proof -
  let ?h = "take (m_data m) (m_head m) @ bs @ drop (m_data m + length bs) (m_head m)"
  have "mbuf_write m (m_data m) bs = Some (m\<lparr>m_head := ?h\<rparr>)"
    using assms by (simp add: mbuf_write_def mbuf_ok_def)
  moreover have "mbuf_data (m\<lparr>m_head := ?h\<rparr>) = bs @ drop (length bs) (mbuf_data m)"
    using assms by (simp add: mbuf_data_def mbuf_ok_def head_len_def drop_take add.commute)
  ultimately show ?thesis
    using assms by (intro exI [of _ "m\<lparr>m_head := ?h\<rparr>"]) (simp add: mbuf_ok_def head_len_def)
qed

lemma mbuf_push_len:
  assumes "mbuf_ok m" "k \<le> m_data m"
  shows "\<exists>m'. mbuf_push m k = Some m' \<and> mbuf_ok m' \<and> drop k (mbuf_data m') = mbuf_data m \<and> m_len m' = m_len m + k \<and>
    m_data m' = m_data m - k \<and> m' = m\<lparr>m_data := m_data m - k, m_len := m_len m + k\<rparr>"
  using assms by (simp add: mbuf_push_def mbuf_ok_def head_len_def mbuf_data_def drop_take)

lemma net_tx_raw_spec:
  assumes "mbuf_ok (bufs n a)" "18 \<le> m_data (bufs n a)"
  shows "\<exists>n'. net_tx_raw n a = Some n' \<and> tx_queue n' = tx_queue n @ [a] \<and> frame n' a = mbuf_data (bufs n a) \<and>
    tx_same n n' \<and> (\<forall>b. b \<noteq> a \<longrightarrow> bufs n' b = bufs n b)"
proof -
  define n1 where "n1 = (if txpktq_overflow n \<noteq> [] then net_tx_drain_overflow n else n)"
  have n1: "tx_queue n1 = tx_queue n" "bufs n1 = bufs n" "tx_same n n1" "tx_ok n1"
    using tx_drain tx_ok_drain by (simp_all add: n1_def) (simp add: tx_ok_def)
  obtain m1 where m1: "mbuf_push (bufs n a) 18 = Some m1" "mbuf_ok m1" "drop 18 (mbuf_data m1) = mbuf_data (bufs n a)" "m_len m1 = m_len (bufs n a) + 18"
    using mbuf_push_len [OF assms(1,2)] by auto
  let ?hdr = "store64 (of_nat a) @ store32 (of_nat (mbuf_length (bufs n a))) @ store32 (txflags m1)"
  obtain m2 where m2: "mbuf_write m1 (m_data m1) ?hdr = Some m2" "mbuf_ok m2" "mbuf_data m2 = ?hdr @ drop 16 (mbuf_data m1)"
    using mbuf_write_front [OF m1(2), of ?hdr] m1(4) by auto
  have f: "drop 18 (mbuf_data m2) = mbuf_data (bufs n a)" using m1(3) by (simp add: m2(3))
  let ?n2 = "set_buf n1 a m2"
  define n3 where "n3 = (if length (txpktq ?n2) < txpktq_size ?n2 then ?n2\<lparr>txpktq := txpktq ?n2 @ [a]\<rparr>
           else ?n2\<lparr>txpktq_overflow := txpktq_overflow ?n2 @ [a]\<rparr>)"
  have "net_tx_raw n a = Some n3"
    using m1(1) m2(1) n1(2) unfolding net_tx_raw_def n1_def [symmetric] n3_def Let_def by simp
  moreover have "tx_queue n3 = tx_queue n @ [a]"
    using n1(1,4) by (auto simp: n3_def tx_queue_def tx_ok_def set_buf_def)
  moreover have "tx_same n n3" using n1(3) by (simp add: n3_def tx_same_def set_buf_def)
  moreover have "bufs n3 = (bufs n)(a := m2)" by (simp add: n3_def set_buf_def n1(2))
  ultimately show ?thesis using f by (simp add: frame_def)
qed

lemma length_eth_hdr [simp]: "length (eth_hdr d s t) = length d + length s + 2"
  by (simp add: eth_hdr_def)

lemma length_ip_hdr [simp]: "length (ip_hdr len i p s d) = 20"
  by (simp add: ip_hdr_def)

lemma net_tx_eth_spec:
  assumes "mbuf_ok (bufs n a)" "32 \<le> m_data (bufs n a)" "length dhost = 6" "length (io_mac n) = 6"
  shows "\<exists>n'. net_tx_eth n a type dhost = Some n' \<and> tx_queue n' = tx_queue n @ [a] \<and>
    frame n' a = eth_hdr dhost (io_mac n) type @ mbuf_data (bufs n a) \<and>
    tx_same n n' \<and> (\<forall>b. b \<noteq> a \<longrightarrow> bufs n' b = bufs n b)"
proof -
  obtain m where m: "mbuf_push_bytes (bufs n a) (eth_hdr dhost (io_mac n) type) = Some m" "mbuf_ok m"
      "mbuf_data m = eth_hdr dhost (io_mac n) type @ mbuf_data (bufs n a)" "m_data m = m_data (bufs n a) - 14"
    using mbuf_push_data [OF assms(1), of "eth_hdr dhost (io_mac n) type"] assms(2-4) by auto
  have "18 \<le> m_data m" using m(4) assms(2) by simp
  then obtain n' where "net_tx_raw (set_buf n a m) a = Some n'" "tx_queue n' = tx_queue n @ [a]" "frame n' a = mbuf_data m"
      "tx_same (set_buf n a m) n'" "\<forall>b. b \<noteq> a \<longrightarrow> bufs n' b = bufs n b"
    using net_tx_raw_spec [of "set_buf n a m" a] m(2) by auto
  then show ?thesis using m(1,3) by (simp add: net_tx_eth_def tx_same_def set_buf_def)
qed

lemma tx_alloc_spec:
  assumes "tx_free n = a # as" "length (m_head (bufs n a)) = 1920"
  obtains m where "net_tx_alloc_mbuf n = Some (Some a, set_buf (n\<lparr>tx_free := as\<rparr>) a m)" "mbuf_ok m" "m_data m = 128" "mbuf_data m = []"
    "head_len m = 1920" "m_len m = 0"
proof -
  let ?m = "(bufs n a)\<lparr>m_data := 128, m_len := 0, txflags := 0, m_release := net_tx_release_mbuf\<rparr>"
  have "net_tx_alloc_mbuf n = Some (Some a, set_buf (n\<lparr>tx_free := as\<rparr>) a ?m)"
    using assms by (simp add: net_tx_alloc_mbuf_def mbuf_init_def MBUF_DEFAULT_HEADROOM_def)
  then show thesis using assms(2) by (intro that [of ?m]) (simp_all add: mbuf_ok_def head_len_def mbuf_data_def)
qed

text \<open>
  A packet for a host whose Ethernet address is known goes out at once. The address looked up is that of the next hop.
\<close>

definition arp_known :: "net \<Rightarrow> u32 \<Rightarrow> u8 list \<Rightarrow> bool" where
  "arp_known n ip eth \<longleftrightarrow> (\<exists>e. lookup_entry n (hash_ip ip) ip = Some e \<and> ae_state e \<noteq> ARP_STATE_PROBING \<and> ae_eth e = eth)"

lemma arp_lookup_known:
  assumes "arp_known n ip eth"
  shows "arp_lookup n ip a = Some (Inr eth, n)"
  using assms by (auto simp: arp_known_def arp_lookup_def)

lemma net_push_iphdr_spec:
  assumes "mbuf_ok (bufs n a)" "20 \<le> m_data (bufs n a)"
  shows "\<exists>n' ipid. net_push_iphdr n a proto daddr = Some n' \<and> mbuf_ok (bufs n' a) \<and> m_data (bufs n' a) = m_data (bufs n a) - 20 \<and>
    mbuf_data (bufs n' a) = ip_hdr (of_nat (m_len (bufs n a) + 20)) ipid proto (io_addr n) daddr @ mbuf_data (bufs n a) \<and>
    tx_same n n' \<and> tx_queue n' = tx_queue n \<and> (\<forall>b. b \<noteq> a \<longrightarrow> bufs n' b = bufs n b)"
proof -
  obtain m1 where m1: "mbuf_push (bufs n a) 20 = Some m1" "mbuf_ok m1" "drop 20 (mbuf_data m1) = mbuf_data (bufs n a)" "m_len m1 = m_len (bufs n a) + 20"
      "m_data m1 = m_data (bufs n a) - 20"
    using mbuf_push_len [OF assms] by auto
  obtain t n1 where t: "now_us n = (t, n1)" "n1 = n\<lparr>ticks := ticks n + 1\<rparr>" by (simp add: now_us_def)
  define ipid where "ipid = (ucast (hash_crc32c_two IP_ID_SEED (t XOR ucast proto) (ucast daddr OR push_bit 32 (ucast (io_addr n1)))) :: u16)"
  let ?h = "ip_hdr (of_nat (m_len m1)) ipid proto (io_addr n) daddr"
  obtain m2 where m2: "mbuf_write m1 (m_data m1) ?h = Some m2" "mbuf_ok m2" "mbuf_data m2 = ?h @ drop 20 (mbuf_data m1)" "m2 = m1\<lparr>m_head := m_head m2\<rparr>"
    using mbuf_write_front [OF m1(2), of ?h] m1(4) by auto
  have "net_push_iphdr n a proto daddr = Some (set_buf n1 a m2)"
    using m1(1) m2(1) t by (simp add: net_push_iphdr_def ipid_def mbuf_length_def)
  moreover have "m_data m2 = m_data m1" by (subst m2(4)) simp
  ultimately show ?thesis using m2(2,3) m1(3,4,5) t(2)
    by (intro exI [of _ "set_buf n1 a m2"] exI [of _ ipid]) (simp add: tx_same_def tx_queue_def set_buf_def)
qed

text \<open>The frame that carries the data of the transport layer from one host to another.\<close>

definition ip_frame :: "u8 list \<Rightarrow> u8 list \<Rightarrow> u16 \<Rightarrow> u8 \<Rightarrow> u32 \<Rightarrow> u32 \<Rightarrow> u8 list \<Rightarrow> u8 list" where
  "ip_frame dhost shost ipid proto saddr daddr l4 =
     eth_hdr dhost shost ETHTYPE_IP @ ip_hdr (of_nat (length l4 + 20)) ipid proto saddr daddr @ l4"

lemma net_tx_ip_spec:
  assumes "mbuf_ok (bufs n a)" "52 \<le> m_data (bufs n a)" "length (io_mac n) = 6"
    "arp_known n (net_get_ip_route n daddr) dhost" "length dhost = 6"
  shows "\<exists>n' ipid. net_tx_ip n a proto daddr = Some (0, n') \<and> tx_queue n' = tx_queue n @ [a] \<and>
    frame n' a = ip_frame dhost (io_mac n) ipid proto (io_addr n) daddr (mbuf_data (bufs n a)) \<and>
    tx_same n n' \<and> (\<forall>b. b \<noteq> a \<longrightarrow> bufs n' b = bufs n b)"
proof -
  obtain n1 ipid where p: "net_push_iphdr n a proto daddr = Some n1" "mbuf_ok (bufs n1 a)" "m_data (bufs n1 a) = m_data (bufs n a) - 20"
      "mbuf_data (bufs n1 a) = ip_hdr (of_nat (m_len (bufs n a) + 20)) ipid proto (io_addr n) daddr @ mbuf_data (bufs n a)"
      "tx_same n n1" "tx_queue n1 = tx_queue n" "\<forall>b. b \<noteq> a \<longrightarrow> bufs n1 b = bufs n b"
    using net_push_iphdr_spec [OF assms(1), of proto daddr] assms(2) by auto
  let ?m = "(bufs n1 a)\<lparr>txflags := txflags (bufs n1 a) OR OLFLAG_IP_CHKSUM OR OLFLAG_IPV4\<rparr>"
  let ?n2 = "set_buf n1 a ?m"
  have r: "net_get_ip_route ?n2 daddr = net_get_ip_route n daddr" using p(5) by (simp add: net_get_ip_route_def tx_same_def set_buf_def)
  have k: "arp_known ?n2 (net_get_ip_route n daddr) dhost"
    using assms(4) p(5) by (simp add: arp_known_def lookup_entry_def tx_same_def set_buf_def)
  have m: "mbuf_ok ?m" "mbuf_data ?m = mbuf_data (bufs n1 a)" using p(2) by (simp_all add: mbuf_ok_def head_len_def mbuf_data_def)
  have mac: "io_mac ?n2 = io_mac n" using p(5) by (simp add: tx_same_def)
  have "32 \<le> m_data (bufs ?n2 a)" using p(3) assms(2) by simp
  then obtain n' where e: "net_tx_eth ?n2 a ETHTYPE_IP dhost = Some n'" "tx_queue n' = tx_queue n @ [a]"
      "frame n' a = eth_hdr dhost (io_mac n) ETHTYPE_IP @ mbuf_data (bufs n1 a)" "tx_same ?n2 n'" "\<forall>b. b \<noteq> a \<longrightarrow> bufs n' b = bufs n b"
    using net_tx_eth_spec [of ?n2 a dhost ETHTYPE_IP] m p(6,7) assms(3,5) mac by auto
  have "net_tx_ip n a proto daddr = Some (0, n')"
    using p(1) e(1) arp_lookup_known [OF k] by (simp add: net_tx_ip_def r)
  moreover have "tx_same n n'" using p(5) e(4) by (simp add: tx_same_def set_buf_def)
  moreover have "m_len (bufs n a) = length (mbuf_data (bufs n a))" using assms(1) by simp
  ultimately show ?thesis using e p(4) by (auto simp: ip_frame_def)
qed

section \<open>Ingress\<close>

lemma load_at:
  "length as = i \<Longrightarrow> load16 (as @ store16 x @ bs) i = x" "length as = i \<Longrightarrow> load32 (as @ store32 y @ bs) i = y"
  using load_append_left(1) [of 0 "store16 x" bs] load_append_left(2) [of 0 "store32 y" bs] by auto

lemma nth_at: "length as = i \<Longrightarrow> (as @ x # bs) ! i = x"
  by (simp add: nth_append)

text \<open>The fields of a header behind \<open>pre\<close>.\<close>

lemma iphdr_fields:
  assumes "length pre = k"
  shows "iphdr_version (pre @ ip_hdr len ipid proto saddr daddr @ r) k = 4" "iphdr_header_len (pre @ ip_hdr len ipid proto saddr daddr @ r) k = 5"
    "iphdr_len (pre @ ip_hdr len ipid proto saddr daddr @ r) k = len" "iphdr_off (pre @ ip_hdr len ipid proto saddr daddr @ r) k = 0"
    "iphdr_proto (pre @ ip_hdr len ipid proto saddr daddr @ r) k = proto" "iphdr_saddr (pre @ ip_hdr len ipid proto saddr daddr @ r) k = saddr"
    "iphdr_daddr (pre @ ip_hdr len ipid proto saddr daddr @ r) k = daddr"
proof -
  let ?h = "pre @ ip_hdr len ipid proto saddr daddr @ r"
  have "?h ! k = 0x45" using assms nth_at [of pre k] by (simp add: ip_hdr_def)
  then show "iphdr_version ?h k = 4" "iphdr_header_len ?h k = 5" by (simp_all add: iphdr_version_def iphdr_header_len_def drop_bit_eq_div)
  let ?a = "pre @ [0x45, 0]" let ?b = "?a @ store16 (hton16 len) @ store16 ipid" let ?c = "?b @ store16 0 @ [64]"
  let ?d = "?c @ [proto] @ store16 0" let ?e = "?d @ store32 (hton32 saddr)"
  have e: "?h = ?a @ store16 (hton16 len) @ drop 4 (ip_hdr len ipid proto saddr daddr) @ r" "?h = ?b @ store16 0 @ drop 8 (ip_hdr len ipid proto saddr daddr) @ r"
    "?h = ?c @ proto # drop 10 (ip_hdr len ipid proto saddr daddr) @ r" "?h = ?d @ store32 (hton32 saddr) @ store32 (hton32 daddr) @ r"
    "?h = ?e @ store32 (hton32 daddr) @ r" by (simp_all add: ip_hdr_def)
  show "iphdr_len ?h k = len" unfolding iphdr_len_def by (subst e(1), subst load_at) (simp_all add: assms)
  show "iphdr_off ?h k = 0" unfolding iphdr_off_def by (subst e(2), subst load_at) (simp_all add: assms)
  show "iphdr_proto ?h k = proto" unfolding iphdr_proto_def by (subst e(3), subst nth_at) (simp_all add: assms)
  show "iphdr_saddr ?h k = saddr" unfolding iphdr_saddr_def by (subst e(4), subst load_at) (simp_all add: assms)
  show "iphdr_daddr ?h k = daddr" unfolding iphdr_daddr_def by (subst e(5), subst load_at) (simp_all add: assms)
qed

lemma iphdr_supported: "length pre = k \<Longrightarrow> ip_hdr_supported (pre @ ip_hdr len ipid proto saddr daddr @ r) k"
  by (simp add: ip_hdr_supported_def iphdr_fields)

text \<open>A received packet, as the transport layer gets it: the data is what follows the IP header, which is still in front of it.\<close>

definition l4_packet :: "mbuf \<Rightarrow> u8 \<Rightarrow> u32 \<Rightarrow> u32 \<Rightarrow> u8 list \<Rightarrow> bool" where
  "l4_packet m proto saddr daddr l4 \<longleftrightarrow>
     mbuf_ok m \<and> mbuf_data m = l4 \<and> network_off m = 14 \<and> m_data m = 34 \<and> iphdr_len (m_head m) 14 = of_nat (length l4 + 20) \<and>
     iphdr_proto (m_head m) 14 = proto \<and> iphdr_saddr (m_head m) 14 = saddr \<and> iphdr_daddr (m_head m) 14 = daddr"

lemma net_rx_one_frame:
  assumes "rx_pool n = m0 # ms" "length (m_head m0) = 1920" "length (io_mac n) = 6" "length shost = 6"
    "rh_payload hdr = ip_frame (io_mac n) shost ipid proto saddr daddr l4" "rh_csum_type hdr = CHECKSUM_TYPE_UNNECESSARY"
    "length l4 \<le> 1886" "n' = net_rx_send_completion (n\<lparr>rx_pool := ms\<rparr>) (rh_completion_data hdr)"
  shows "\<exists>m. l4_packet m proto saddr daddr l4 \<and> net_rx_one n hdr =
    (if proto = IPPROTO_ICMP then do { n \<leftarrow> net_rx_icmp n' m saddr (length l4); Some (None, n) }
     else if proto = IPPROTO_UDP \<or> proto = IPPROTO_TCP then Some (Some m, n') else Some (None, n'))"
proof -
  let ?eth = "eth_hdr (io_mac n) shost ETHTYPE_IP" and ?ip = "ip_hdr (of_nat (length l4 + 20)) ipid proto saddr daddr"
  define rest where "rest = drop (34 + length l4) (m_head m0)"
  define h where "h = ?eth @ ?ip @ l4 @ rest"
  have le: "length ?eth = 14" using assms(3,4) by simp
  have pay: "rh_payload hdr = ?eth @ ?ip @ l4" "length (rh_payload hdr) = 34 + length l4" using assms(3,4,5) by (simp_all add: ip_frame_def)
  define m1 where "m1 = m0\<lparr>m_head := h, m_data := 0, m_len := 34 + length l4, m_release := net_rx_release_mbuf\<rparr>"
  have lh: "length h = 1920" using assms(2,7) le by (simp add: h_def rest_def)
  have "mbuf_write m0 0 (rh_payload hdr) = Some (m0\<lparr>m_head := h\<rparr>)"
    using assms(2,7) pay by (simp add: mbuf_write_def head_len_def h_def rest_def)
  then have alloc: "net_rx_alloc_mbuf n hdr = Some (Some m1, n')"
    using assms(1,8) lh pay(2) by (auto simp: net_rx_alloc_mbuf_def mbuf_init_def m1_def)
  define m2 where "m2 = m1\<lparr>m_data := 14, m_len := 20 + length l4\<rparr>"
  have pull: "mbuf_pull_or_null m1 14 = Some m2" using assms(7) by (simp add: mbuf_pull_or_null_def mbuf_pull_unchecked_def m1_def m2_def)
  have type: "load16 h 12 = hton16 ETHTYPE_IP"
    using load_at(1) [of "io_mac n @ shost" 12 "hton16 ETHTYPE_IP" "?ip @ l4 @ rest"] assms(3,4) by (simp add: h_def eth_hdr_def)
  have mac: "take 6 h = io_mac n" using assms(3) by (simp add: h_def eth_hdr_def)
  define m3 where "m3 = m2\<lparr>network_off := 14, m_len := length l4, m_data := 34\<rparr>"
  note f = iphdr_fields [OF le, of "of_nat (length l4 + 20)" ipid proto saddr daddr "l4 @ rest", folded h_def]
  have sup: "ip_hdr_supported h 14" using iphdr_supported [OF le] by (simp add: h_def)
  have len: "unat (iphdr_len h 14 - 20) = length l4" using assms(7) by (simp add: f(3) unat_of_nat)
  have "rx_ip n' CHECKSUM_TYPE_UNNECESSARY m2 = (if proto = IPPROTO_ICMP then do { n \<leftarrow> net_rx_icmp n' m3 saddr (length l4); Some (None, n) }
     else if proto = IPPROTO_UDP \<or> proto = IPPROTO_TCP then Some (Some m3, n') else Some (None, n'))"
    using sup len f(5,6) assms(7)
    by (simp add: Let_def rx_ip_def mbuf_mark_network_offset_def mbuf_pull_or_null_def mbuf_pull_unchecked_def mbuf_length_def m2_def m3_def m1_def)
  moreover have "io_mac n' = io_mac n" by (simp add: assms(8) net_rx_send_completion_def)
  ultimately have "net_rx_one n hdr = (if proto = IPPROTO_ICMP then do { n \<leftarrow> net_rx_icmp n' m3 saddr (length l4); Some (None, n) }
     else if proto = IPPROTO_UDP \<or> proto = IPPROTO_TCP then Some (Some m3, n') else Some (None, n'))"
    using alloc pull type mac assms(6) by (simp add: net_rx_one_def m1_def ETHTYPE_IP_def ETHTYPE_ARP_def)
  moreover have "l4_packet m3 proto saddr daddr l4"
    using f le lh assms(7) by (simp add: l4_packet_def m3_def m2_def m1_def mbuf_ok_def head_len_def mbuf_data_def) (simp add: h_def)
  ultimately show ?thesis by blast
qed

lemma net_rx_one_spec:
  assumes "rx_pool n = m0 # ms" "length (m_head m0) = 1920" "length (io_mac n) = 6" "length shost = 6"
    "rh_payload hdr = ip_frame (io_mac n) shost ipid proto saddr daddr l4" "rh_csum_type hdr = CHECKSUM_TYPE_UNNECESSARY"
    "length l4 \<le> 1886" "proto = IPPROTO_UDP \<or> proto = IPPROTO_TCP"
  shows "\<exists>m. net_rx_one n hdr = Some (Some m, net_rx_send_completion (n\<lparr>rx_pool := ms\<rparr>) (rh_completion_data hdr)) \<and> l4_packet m proto saddr daddr l4"
  using net_rx_one_frame [OF assms(1-7) refl] assms(8) by (auto simp: IPPROTO_ICMP_def IPPROTO_UDP_def IPPROTO_TCP_def)

lemma load16_data:
  assumes "mbuf_ok m" "i + 2 \<le> m_len m"
  shows "load16 (m_head m) (m_data m + i) = load16 (mbuf_data m) i"
  using assms mbuf_data_nth [of m i] mbuf_data_nth [of m "i + 1"] by (simp add: load16_def add.assoc)

lemma trans_find_cong:
  assumes "trans_tbl n' = trans_tbl n" "trans_seed n' = trans_seed n"
  shows "trans_find n' proto l r = trans_find n proto l r"
  unfolding trans_find_def trans_hash_3tuple_def trans_hash_5tuple_def assms ..

lemma netaddr_eta [simp]: "\<lparr>na_ip = na_ip r, na_port = na_port r\<rparr> = (r :: netaddr)"
  by simp

text \<open>The transport table is asked with the addresses of the packet, the ports being the first four bytes of the data.\<close>

lemma trans_lookup_l4:
  assumes "l4_packet m proto saddr daddr l4" "proto = IPPROTO_UDP \<or> proto = IPPROTO_TCP" "4 \<le> length l4"
  shows "trans_lookup n m = Some (trans_find n proto \<lparr>na_ip = daddr, na_port = ntoh16 (load16 l4 2)\<rparr> \<lparr>na_ip = saddr, na_port = ntoh16 (load16 l4 0)\<rparr>,
    m\<lparr>transport_off := 34\<rparr>)"
proof -
  have p: "mbuf_ok m" "mbuf_data m = l4" "network_off m = 14" "m_data m = 34" "iphdr_proto (m_head m) 14 = proto"
      "iphdr_saddr (m_head m) 14 = saddr" "iphdr_daddr (m_head m) 14 = daddr"
    using assms(1) by (simp_all add: l4_packet_def)
  have len: "m_len m = length l4" using mbuf_data_length [OF p(1)] p(2) by simp
  have "load16 (m_head m) 34 = load16 l4 0" "load16 (m_head m) 36 = load16 l4 2"
    using load16_data [OF p(1), of 0] load16_data [OF p(1), of 2] len p(2,4) assms(3) by simp_all
  then show ?thesis using p len assms(2,3) by (auto simp: trans_lookup_def mbuf_mark_transport_offset_def mbuf_length_def Let_def)
qed

end
