(* ===== verification/Tcp_Segment.thy ===== *)
theory Tcp_Segment
  imports Tcp_In Net_Frame
begin

text \<open>
  TCP segments on the wire: what \<^verbatim>\<open>tcp_rx_conn\<close> reads from a packet is what \<^verbatim>\<open>tcp_push_tcphdr\<close> wrote, and \<^verbatim>\<open>tcp_tx_send\<close> cuts the data of the
  application into consecutive segments.
\<close>

section \<open>Headers\<close>

text \<open>A segment: the header, of which one half byte and the urgent pointer are not written, and the text.\<close>

definition tcp_segment :: "u16 \<Rightarrow> u16 \<Rightarrow> u32 \<Rightarrow> u32 \<Rightarrow> u8 \<Rightarrow> u16 \<Rightarrow> u8 list \<Rightarrow> u8 list \<Rightarrow> bool" where
  "tcp_segment sport dport seq ack flags win txt l4 \<longleftrightarrow>
     (\<exists>x2 cksum urp. length urp = 2 \<and> l4 = tcp_hdr sport dport seq ack x2 flags win cksum @ urp @ txt)"

lemma length_tcp_hdr [simp]: "length (tcp_hdr sp dp seq ack x2 fl win ck) = 18"
  by (simp add: tcp_hdr_def)

lemma tcp_hdr_fields:
  assumes "length pre = k" "h = pre @ tcp_hdr sport dport seq ack x2 flags win cksum @ r"
  shows "tcphdr_sport h k = sport" "tcphdr_dport h k = dport" "tcphdr_seq h k = seq" "tcphdr_ack h k = ack" "tcphdr_off h k = 5"
    "tcphdr_flags h k = flags" "tcphdr_win h k = win"
proof -
  let ?o = "x2 AND 0x0f OR 0x50"
  let ?b = "pre @ store16 (hton16 sport)" let ?c = "?b @ store16 (hton16 dport)" let ?d = "?c @ store32 (hton32 seq)" let ?e = "?d @ store32 (hton32 ack)"
  let ?w = "store16 (hton16 win) @ store16 cksum @ r"
  have e: "h = pre @ store16 (hton16 sport) @ drop 2 (tcp_hdr sport dport seq ack x2 flags win cksum) @ r"
    "h = ?b @ store16 (hton16 dport) @ drop 4 (tcp_hdr sport dport seq ack x2 flags win cksum) @ r"
    "h = ?c @ store32 (hton32 seq) @ drop 8 (tcp_hdr sport dport seq ack x2 flags win cksum) @ r"
    "h = ?d @ store32 (hton32 ack) @ drop 12 (tcp_hdr sport dport seq ack x2 flags win cksum) @ r"
    "h = ?e @ ?o # flags # ?w" "h = (?e @ [?o]) @ flags # ?w" "h = (?e @ [?o, flags]) @ store16 (hton16 win) @ store16 cksum @ r"
    by (simp_all add: assms(2) tcp_hdr_def)
  show "tcphdr_sport h k = sport" unfolding tcphdr_sport_def by (subst e(1), subst load_at) (simp_all add: assms(1))
  show "tcphdr_dport h k = dport" unfolding tcphdr_dport_def by (subst e(2), subst load_at) (simp_all add: assms(1))
  show "tcphdr_seq h k = seq" unfolding tcphdr_seq_def by (subst e(3), subst load_at) (simp_all add: assms(1))
  show "tcphdr_ack h k = ack" unfolding tcphdr_ack_def by (subst e(4), subst load_at) (simp_all add: assms(1))
  have "h ! (k + 12) = ?o" by (subst e(5), subst nth_at) (simp_all add: assms(1))
  moreover have "drop_bit 4 ?o = (5 :: u8)"
  proof -
    have "(0x0f :: u8) = mask 4" by (simp add: mask_eq_exp_minus_1)
    then have "drop_bit 4 (x2 AND 0x0f) = 0" by (simp add: drop_bit_and)
    then show ?thesis by (simp add: drop_bit_or)
  qed
  ultimately show "tcphdr_off h k = 5" unfolding tcphdr_off_def by metis
  show "tcphdr_flags h k = flags" unfolding tcphdr_flags_def by (subst e(6), subst nth_at) (simp_all add: assms(1))
  show "tcphdr_win h k = win" unfolding tcphdr_win_def by (subst e(7), subst load_at) (simp_all add: assms(1))
qed

lemma mbuf_pull_none [simp]: "mbuf_ok m \<Longrightarrow> mbuf_pull_unchecked m 0 = m"
  by (simp add: mbuf_pull_unchecked_def mbuf_ok_def)

lemma tcp_rx_parse_segment:
  assumes "l4_packet m IPPROTO_TCP saddr daddr l4" "tcp_segment sport dport seq ack flags win txt l4" "length txt \<le> 60000"
  shows "\<exists>m'. tcp_rx_parse m = Some (Some (\<lparr>sg_seq = seq, sg_ack = ack, sg_win = win, sg_flags = flags,
       sg_len = of_nat (length txt) + (if flags AND TCP_FIN \<noteq> 0 then 1 else 0)\<rparr>, m')) \<and> mbuf_ok m' \<and> mbuf_data m' = txt"
proof -
  obtain x2 cksum urp where s: "length urp = 2" "l4 = tcp_hdr sport dport seq ack x2 flags win cksum @ urp @ txt"
    using assms(2) by (auto simp: tcp_segment_def)
  have p: "mbuf_ok m" "mbuf_data m = l4" "network_off m = 14" "m_data m = 34" "iphdr_len (m_head m) 14 = of_nat (length l4 + 20)"
    using assms(1) by (simp_all add: l4_packet_def)
  have len: "m_len m = 20 + length txt" "length l4 = 20 + length txt" using mbuf_data_length [OF p(1)] p(2) s by simp_all
  have "m_head m = take 34 (m_head m) @ l4 @ drop (34 + m_len m) (m_head m)"
    using p(1,2,4) by (metis append_take_drop_id drop_drop mbuf_data_def add.commute)
  moreover have "length (take 34 (m_head m)) = 34" using p(1,4) by (simp add: mbuf_ok_def head_len_def)
  ultimately have f: "tcphdr_seq (m_head m) 34 = seq" "tcphdr_ack (m_head m) 34 = ack" "tcphdr_off (m_head m) 34 = 5"
      "tcphdr_flags (m_head m) 34 = flags" "tcphdr_win (m_head m) 34 = win"
    using tcp_hdr_fields [of "take 34 (m_head m)" 34 "m_head m" sport dport seq ack x2 flags win cksum "urp @ txt @ drop (34 + m_len m) (m_head m)"] s(2)
    by simp_all
  define m' where "m' = mbuf_pull_unchecked m 20"
  have m': "mbuf_ok m'" "mbuf_data m' = txt" "m_len m' = length txt" "network_off m' = 14"
    using mbuf_pull_data [OF p(1), of 20] len p(2,3) s assms(3) by (simp_all add: m'_def mbuf_pull_unchecked_def)
  have l: "ucast (of_nat (length l4 + 20) :: u16) - 20 - (20 :: u32) = of_nat (length txt)"
  proof -
    have u: "unat (of_nat (length l4 + 20) :: u16) = length txt + 40" using assms(3) len(2) by (simp only: unat_of_nat) simp
    have "ucast (of_nat (length l4 + 20) :: u16) = (of_nat (unat (of_nat (length l4 + 20) :: u16)) :: u32)" by (simp only: of_nat_unat)
    then show ?thesis unfolding u by simp
  qed
  have "tcp_rx_parse m = Some (Some (\<lparr>sg_seq = seq, sg_ack = ack, sg_win = win, sg_flags = flags,
       sg_len = of_nat (length txt) + (if flags AND TCP_FIN \<noteq> 0 then 1 else 0)\<rparr>, m'))"
    using f p(3-5) len l m' assms(3) 
    by (simp add: tcp_rx_parse_def mbuf_pull_or_null_def m'_def [symmetric] mbuf_pull_def mbuf_length_def unat_of_nat)
  then show ?thesis using m' by blast
qed

section \<open>Segmentation\<close>

lemma mbuf_push_tcphdr_spec:
  assumes "mbuf_ok m" "20 \<le> m_data m"
  shows "\<exists>m'. mbuf_push_tcphdr m sport dport seq ack flags win cksum = Some m' \<and> mbuf_ok m' \<and> m_data m' = m_data m - 20 \<and>
    tcp_segment sport dport seq ack flags win (mbuf_data m) (mbuf_data m') \<and>
    m' = m\<lparr>m_data := m_data m - 20, m_len := m_len m + 20, m_head := m_head m'\<rparr>"
proof -
  obtain m1 where m1: "mbuf_push m 20 = Some m1" "mbuf_ok m1" "drop 20 (mbuf_data m1) = mbuf_data m" "m_len m1 = m_len m + 20"
      "m1 = m\<lparr>m_data := m_data m - 20, m_len := m_len m + 20\<rparr>"
    using mbuf_push_len [OF assms] by blast
  let ?h = "tcp_hdr sport dport seq ack (m_head m1 ! (m_data m1 + 12)) flags win cksum"
  obtain m2 where m2: "mbuf_write m1 (m_data m1) ?h = Some m2" "mbuf_ok m2" "mbuf_data m2 = ?h @ drop 18 (mbuf_data m1)" "m2 = m1\<lparr>m_head := m_head m2\<rparr>"
    using mbuf_write_front [OF m1(2), of ?h] m1(4) by auto
  have l: "length (mbuf_data m1) = m_len m + 20" using m1(2,4) by simp
  have "drop 18 (mbuf_data m1) = take 2 (drop 18 (mbuf_data m1)) @ mbuf_data m"
    using m1(3) append_take_drop_id [of 2 "drop 18 (mbuf_data m1)"] by simp
  then have "tcp_segment sport dport seq ack flags win (mbuf_data m) (mbuf_data m2)"
    unfolding tcp_segment_def m2(3) using l by (intro exI [of _ "take 2 (drop 18 (mbuf_data m1))"] exI conjI) auto
  moreover have "m2 = m\<lparr>m_data := m_data m - 20, m_len := m_len m + 20, m_head := m_head m2\<rparr>" using m2(4) m1(5) by metis
  moreover have "m_data m2 = m_data m - 20" by (subst m2(4), subst m1(5)) simp
  ultimately show ?thesis using m1(1) m2(1,2) by (intro exI [of _ m2]) (simp add: mbuf_push_tcphdr_def)
qed

text \<open>A segment of a connection, as the frame for its peer.\<close>

definition seg_frame :: "tcp_conn \<Rightarrow> u8 list \<Rightarrow> u8 list \<Rightarrow> u32 \<Rightarrow> u8 \<Rightarrow> u8 list \<Rightarrow> u8 list \<Rightarrow> bool" where
  "seg_frame c dhost shost seq flags txt fr \<longleftrightarrow>
     (\<exists>ipid l4. fr = ip_frame dhost shost ipid IPPROTO_TCP (na_ip (laddr c)) (na_ip (raddr c)) l4 \<and>
        tcp_segment (na_port (laddr c)) (na_port (raddr c)) seq (rcv_nxt (pcb c)) flags (ucast (rcv_wnd (pcb c))) txt l4)"

text \<open>What the segmenter relies on: a route to the peer, and buffers.\<close>

definition can_send :: "tcp_conn \<Rightarrow> net \<Rightarrow> u8 list \<Rightarrow> bool" where
  "can_send c n dhost \<longleftrightarrow> na_ip (laddr c) = io_addr n \<and> length (io_mac n) = 6 \<and> length dhost = 6 \<and>
     arp_known n (net_get_ip_route n (na_ip (raddr c))) dhost"

text \<open>The connection apart from what a transmission changes.\<close>

definition conn_same :: "tcp_conn \<Rightarrow> tcp_conn \<Rightarrow> bool" where
  "conn_same c c' \<longleftrightarrow> laddr c' = laddr c \<and> raddr c' = raddr c \<and> rcv_nxt (pcb c') = rcv_nxt (pcb c) \<and> rcv_wnd (pcb c') = rcv_wnd (pcb c) \<and>
     state (pcb c') = state (pcb c)"

lemma seg_frame_same: "conn_same c c' \<Longrightarrow> seg_frame c' = seg_frame c"
  by (simp add: conn_same_def seg_frame_def fun_eq_iff)

definition seg_flags :: "bool \<Rightarrow> u8" where
  "seg_flags final = (if final then TCP_ACK OR TCP_PUSH else TCP_ACK)"

lemma can_send_same:
  assumes "can_send c n dhost" "laddr c' = laddr c" "raddr c' = raddr c" "io_addr n' = io_addr n" "io_mac n' = io_mac n" "arp_tbl n' = arp_tbl n"
    "io_netmask n' = io_netmask n" "io_gateway n' = io_gateway n"
  shows "can_send c' n' dhost"
proof -
  have "net_get_ip_route n' d = net_get_ip_route n d" for d by (simp add: net_get_ip_route_def assms)
  then show ?thesis using assms by (simp add: can_send_def arp_known_def lookup_entry_def)
qed

text \<open>The second half of a round of the segmenter: the header and the hand-over of a filled buffer.\<close>

definition tx_segment :: "tcp_conn \<Rightarrow> net \<Rightarrow> nat \<Rightarrow> mbuf \<Rightarrow> (int \<times> tcp_conn \<times> net) option" where
  "tx_segment c n a m = do {
     (c, n) \<leftarrow> tcp_push_tcphdr c (set_buf n a m) a (m_flags m) (ucast (seg_end m - seg_seq m));
     let c = c\<lparr>txq := txq c @ [a]\<rparr>;
     let (now, n) = now_us n;
     (ret, n) \<leftarrow> tx_queued c (set_buf n a ((bufs n a)\<lparr>m_timestamp := now, txflags := OLFLAG_TCP_CHKSUM\<rparr>)) a;
     Some (ret, c, n)
   }"

lemma tx_segment_spec:
  assumes "mbuf_ok m" "m_data m = 128" "can_send c n dhost"
  shows "\<exists>c' n'. tx_segment c n a m = Some (0, c', n') \<and> conn_same c c' \<and> pcb c' = pcb c \<and> tx_pending c' = tx_pending c \<and> txq c' = txq c @ [a] \<and>
    tx_same n n' \<and> tx_queue n' = tx_queue n @ [a] \<and> (\<forall>b. b \<noteq> a \<longrightarrow> bufs n' b = bufs n b) \<and>
    seg_frame c dhost (io_mac n) (seg_seq m) (m_flags m) (mbuf_data m) (frame n' a)"
proof -
  define c2 where "c2 = c\<lparr>tx_last_ack := rcv_nxt (pcb c), tx_last_win := ucast (rcv_wnd (pcb c))\<rparr>"
  define ck where "ck = ipv4_phdr_cksum IPPROTO_TCP (na_ip (laddr c)) (na_ip (raddr c)) (20 + ucast (seg_end m - seg_seq m))"
  have "20 \<le> m_data m" using assms(2) by simp
  then obtain m4 where m4: "mbuf_push_tcphdr m (na_port (laddr c)) (na_port (raddr c)) (seg_seq m) (rcv_nxt (pcb c)) (m_flags m) (ucast (rcv_wnd (pcb c))) ck = Some m4"
      "mbuf_ok m4" "m_data m4 = m_data m - 20"
      "tcp_segment (na_port (laddr c)) (na_port (raddr c)) (seg_seq m) (rcv_nxt (pcb c)) (m_flags m) (ucast (rcv_wnd (pcb c))) (mbuf_data m) (mbuf_data m4)"
    using mbuf_push_tcphdr_spec [OF assms(1)] by metis
  define n2 where "n2 = set_buf (set_buf n a m) a (m4\<lparr>transport_off := 108\<rparr>)"
  have p: "tcp_push_tcphdr c (set_buf n a m) a (m_flags m) (ucast (seg_end m - seg_seq m)) = Some (c2, n2)"
    using m4(1,3) assms(2) by (simp add: tcp_push_tcphdr_def Let_def ck_def mbuf_mark_transport_offset_def n2_def c2_def)
  define n3 where "n3 = n2\<lparr>ticks := ticks n2 + 1\<rparr>"
  define m6 where "m6 = (bufs n3 a)\<lparr>m_timestamp := clock n2 (ticks n2), txflags := OLFLAG_TCP_CHKSUM\<rparr>"
  define n4 where "n4 = set_buf n3 a m6"
  have m6: "mbuf_ok m6" "mbuf_data m6 = mbuf_data m4" "m_data m6 = 108"
    using m4(2,3) assms(2) by (simp_all add: m6_def n3_def n2_def mbuf_ok_def head_len_def mbuf_data_def)
  have n4: "tx_same n n4" "tx_queue n4 = tx_queue n" "\<And>b. b \<noteq> a \<Longrightarrow> bufs n4 b = bufs n b" "bufs n4 a = m6"
    by (simp_all add: n4_def n3_def n2_def set_buf_def tx_queue_def tx_same_def)
  have cs: "can_send c n4 dhost" using assms(3) n4(1) by (intro can_send_same [OF assms(3)]) (simp_all add: tx_same_def)
  then obtain n5 ipid where t: "net_tx_ip n4 a IPPROTO_TCP (na_ip (raddr c)) = Some (0, n5)" "tx_queue n5 = tx_queue n4 @ [a]"
      "frame n5 a = ip_frame dhost (io_mac n4) ipid IPPROTO_TCP (io_addr n4) (na_ip (raddr c)) (mbuf_data (bufs n4 a))" "tx_same n4 n5" "\<forall>b. b \<noteq> a \<longrightarrow> bufs n5 b = bufs n4 b"
    using net_tx_ip_spec [of n4 a "na_ip (raddr c)" dhost IPPROTO_TCP] m6(1,3) n4(4) unfolding can_send_def by auto
  have "tx_segment c n a m = Some (0, c2\<lparr>txq := txq c2 @ [a]\<rparr>, n5)"
    using p t(1) by (simp add: tx_segment_def now_us_def tx_queued_def c2_def n4_def m6_def n3_def)
  moreover have "seg_frame c dhost (io_mac n) (seg_seq m) (m_flags m) (mbuf_data m) (frame n5 a)"
    using t(3) m4(4) m6(2) n4(1,4) assms(3) by (auto simp: seg_frame_def tx_same_def can_send_def)
  ultimately show ?thesis using t(2,4,5) n4 tx_same_trans [OF n4(1) t(4)]
    by (intro exI [of _ "c2\<lparr>txq := txq c2 @ [a]\<rparr>"] exI [of _ n5]) (simp add: c2_def conn_same_def)
qed

lemma send_step_segment:
  assumes "tcp_tx_buffer c n buf = Some (Some (a, k), c1, n1)" "mbuf_put_bytes (bufs n1 a) (take k buf) = Some m"
  shows "tcp_tx_send_step c n buf True = map_option (\<lambda>(ret, c, n). (ret, False, c, n, drop k buf))
    (tx_segment (c1\<lparr>pcb := (pcb c1)\<lparr>snd_nxt := snd_nxt (pcb c1) + of_nat k\<rparr>\<rparr>) n1 a
       (if drop k buf = [] then m\<lparr>m_flags := m_flags m OR TCP_PUSH\<rparr> else m))"
  using assms by (simp add: tcp_tx_send_step_def tx_segment_def Let_def map_option_bind comp_def case_prod_unfold split: bind_split)

lemma send_step_spec:
  assumes "tx_pending c = None" "tx_free n = a # as" "length (m_head (bufs n a)) = 1920" "can_send c n dhost" "buf \<noteq> []"
  shows "\<exists>c' n'. tcp_tx_send_step c n buf True = Some (0, False, c', n', drop TCP_MSS buf) \<and>
    tx_pending c' = None \<and> conn_same c c' \<and> snd_nxt (pcb c') = snd_nxt (pcb c) + of_nat (min (length buf) TCP_MSS) \<and> txq c' = txq c @ [a] \<and>
    tx_free n' = as \<and> tx_queue n' = tx_queue n @ [a] \<and> can_send c' n' dhost \<and> (\<forall>b. b \<noteq> a \<longrightarrow> bufs n' b = bufs n b) \<and> io_mac n' = io_mac n \<and>
    seg_frame c dhost (io_mac n) (snd_nxt (pcb c)) (seg_flags (length buf \<le> TCP_MSS)) (take TCP_MSS buf) (frame n' a)"
proof -
  define k where "k = min (length buf) TCP_MSS"
  define seq where "seq = snd_nxt (pcb c)"
  have k: "k \<le> 1460" "take TCP_MSS buf = take k buf" "drop TCP_MSS buf = drop k buf" "k \<le> length buf" "drop k buf = [] \<longleftrightarrow> length buf \<le> TCP_MSS"
    by (auto simp: k_def TCP_MSS_def min_def)
  obtain m where m: "net_tx_alloc_mbuf n = Some (Some a, set_buf (n\<lparr>tx_free := as\<rparr>) a m)" "mbuf_ok m" "m_data m = 128" "mbuf_data m = []"
      "head_len m = 1920" "m_len m = 0"
    using assms(2,3) by (rule tx_alloc_spec)
  define m1 where "m1 = m\<lparr>seg_seq := seq, seg_end := seq + of_nat k, m_flags := TCP_ACK, m_ref := 2, m_release := tcp_tx_release_mbuf\<rparr>"
  define n1 where "n1 = set_buf (set_buf (n\<lparr>tx_free := as\<rparr>) a m) a m1"
  have b: "tcp_tx_buffer c n buf = Some (Some (a, k), c, n1)"
    using assms(1) m(1) by (simp add: tcp_tx_buffer_def Let_def k_def n1_def m1_def seq_def)
  have m1: "mbuf_ok m1" "mbuf_data m1 = []" "m_data m1 = 128" "m_len m1 = 0" "head_len m1 = 1920" "bufs n1 a = m1"
    using m by (simp_all add: m1_def mbuf_ok_def head_len_def mbuf_data_def n1_def)
  obtain m2 where m2: "mbuf_put_bytes m1 (take k buf) = Some m2" "mbuf_ok m2" "mbuf_data m2 = take k buf" "m_data m2 = 128"
      "m2 = m1\<lparr>m_len := m_len m1 + length (take k buf), m_head := m_head m2\<rparr>"
    using mbuf_put_data [OF m1(1), of "take k buf"] m1(2-5) k(1,4) by auto
  have fl: "seg_seq m2 = seq" "m_flags m2 = TCP_ACK" by (subst m2(5), simp add: m1_def)+
  define m3 where "m3 = (if drop k buf = [] then m2\<lparr>m_flags := m_flags m2 OR TCP_PUSH\<rparr> else m2)"
  have m3: "mbuf_ok m3" "mbuf_data m3 = take k buf" "m_data m3 = 128" "m_flags m3 = seg_flags (length buf \<le> TCP_MSS)" "seg_seq m3 = seq"
    using m2(2-4) fl k(5) by (auto simp: m3_def mbuf_ok_def head_len_def mbuf_data_def seg_flags_def)
  define c1 where "c1 = c\<lparr>pcb := (pcb c)\<lparr>snd_nxt := seq + of_nat k\<rparr>\<rparr>"
  have c1: "conn_same c c1" "txq c1 = txq c" "tx_pending c1 = None" "snd_nxt (pcb c1) = seq + of_nat k" using assms(1) by (simp_all add: c1_def conn_same_def)
  have n1: "io_mac n1 = io_mac n" "tx_queue n1 = tx_queue n" "tx_free n1 = as" "\<And>b. b \<noteq> a \<Longrightarrow> bufs n1 b = bufs n b"
    by (simp_all add: n1_def set_buf_def tx_queue_def)
  have cs: "can_send c1 n1 dhost" by (rule can_send_same [OF assms(4)]) (simp_all add: c1_def n1_def set_buf_def)
  obtain c' n' where r: "tx_segment c1 n1 a m3 = Some (0, c', n')" "conn_same c1 c'" "pcb c' = pcb c1" "tx_pending c' = tx_pending c1" "txq c' = txq c1 @ [a]"
      "tx_same n1 n'" "tx_queue n' = tx_queue n1 @ [a]" "\<forall>b. b \<noteq> a \<longrightarrow> bufs n' b = bufs n1 b"
      "seg_frame c1 dhost (io_mac n1) (seg_seq m3) (m_flags m3) (mbuf_data m3) (frame n' a)"
    using tx_segment_spec [OF m3(1,3) cs, of a] by blast
  have "tcp_tx_send_step c n buf True = Some (0, False, c', n', drop k buf)"
    using send_step_segment [OF b, of m2] m2(1) m1(6) r(1) by (simp add: m3_def c1_def seq_def)
  moreover have "can_send c' n' dhost" by (rule can_send_same [OF cs]) (use r(2,6) in \<open>simp_all add: conn_same_def tx_same_def\<close>)
  moreover have "conn_same c c'" using c1(1) r(2) by (simp add: conn_same_def)
  ultimately show ?thesis
    using r c1 n1 m3 seg_frame_same [OF c1(1)] k by (intro exI [of _ c'] exI [of _ n']) (simp add: k_def seq_def tx_same_def)
qed

text \<open>The loop, on a buffer for every segment.\<close>

definition num_segments :: "u8 list \<Rightarrow> nat" where
  "num_segments buf = (length buf + TCP_MSS - 1) div TCP_MSS"

lemma num_segments_step:
  assumes "buf \<noteq> []"
  shows "num_segments buf = Suc (num_segments (drop TCP_MSS buf))"
proof (cases "length buf \<le> TCP_MSS")
  case True
  moreover have "0 < length buf" using assms by simp
  ultimately have "(length buf + TCP_MSS - 1) div TCP_MSS = 1" by (intro div_nat_eqI; simp add: TCP_MSS_def; linarith)
  then show ?thesis using True by (simp add: num_segments_def TCP_MSS_def)
next
  case False
  then obtain k where "length buf = TCP_MSS + k" by (metis le_add_diff_inverse nat_le_linear)
  then show ?thesis by (simp add: num_segments_def TCP_MSS_def)
qed

lemma send_loop_segments:
  assumes "tx_pending c = None" "tx_free n = as @ fs" "length as = num_segments buf" "distinct as" "\<forall>a \<in> set as. length (m_head (bufs n a)) = 1920"
    "can_send c n dhost"
  shows "\<exists>c' n'. tcp_tx_send_loop c n buf True 0 = Some (0, c', n', []) \<and>
    conn_same c c' \<and> snd_nxt (pcb c') = snd_nxt (pcb c) + of_nat (length buf) \<and> txq c' = txq c @ as \<and>
    tx_free n' = fs \<and> tx_queue n' = tx_queue n @ as \<and> (\<forall>b. b \<notin> set as \<longrightarrow> bufs n' b = bufs n b) \<and>
    (\<forall>i < length as. seg_frame c dhost (io_mac n) (snd_nxt (pcb c) + of_nat (i * TCP_MSS)) (seg_flags (i + 1 = length as))
       (take TCP_MSS (drop (i * TCP_MSS) buf)) (frame n' (as ! i)))"
  using assms
proof (induction as arbitrary: c n buf)
  case Nil
  then have "buf = []" using num_segments_step [of buf] by auto
  then show ?case using Nil by (simp add: tcp_tx_send_loop.simps conn_same_def)
next
  case (Cons a as)
  then have ne: "buf \<noteq> []" by (auto simp: num_segments_def TCP_MSS_def)
  have fr: "tx_free n = a # (as @ fs)" "length (m_head (bufs n a)) = 1920" using Cons.prems by auto
  obtain c1 n1 where s: "tcp_tx_send_step c n buf True = Some (0, False, c1, n1, drop TCP_MSS buf)"
      "tx_pending c1 = None" "conn_same c c1" "snd_nxt (pcb c1) = snd_nxt (pcb c) + of_nat (min (length buf) TCP_MSS)" "txq c1 = txq c @ [a]"
      "tx_free n1 = as @ fs" "tx_queue n1 = tx_queue n @ [a]" "can_send c1 n1 dhost" "\<forall>b. b \<noteq> a \<longrightarrow> bufs n1 b = bufs n b" "io_mac n1 = io_mac n"
      "seg_frame c dhost (io_mac n) (snd_nxt (pcb c)) (seg_flags (length buf \<le> TCP_MSS)) (take TCP_MSS buf) (frame n1 a)"
    using send_step_spec [OF Cons.prems(1) fr Cons.prems(6) ne] by blast
  have na: "length as = num_segments (drop TCP_MSS buf)" using Cons.prems(3) num_segments_step [OF ne] by simp
  have hd: "\<forall>b \<in> set as. length (m_head (bufs n1 b)) = 1920" using Cons.prems(4,5) s(9) by auto
  obtain c2 n2 where t: "tcp_tx_send_loop c1 n1 (drop TCP_MSS buf) True 0 = Some (0, c2, n2, [])" "conn_same c1 c2"
      "snd_nxt (pcb c2) = snd_nxt (pcb c1) + of_nat (length (drop TCP_MSS buf))" "txq c2 = txq c1 @ as" "tx_free n2 = fs" "tx_queue n2 = tx_queue n1 @ as"
      "\<forall>b. b \<notin> set as \<longrightarrow> bufs n2 b = bufs n1 b"
      "\<forall>i < length as. seg_frame c1 dhost (io_mac n1) (snd_nxt (pcb c1) + of_nat (i * TCP_MSS)) (seg_flags (i + 1 = length as))
         (take TCP_MSS (drop (i * TCP_MSS) (drop TCP_MSS buf))) (frame n2 (as ! i))"
    using Cons.IH [OF s(2,6) na _ hd s(8)] Cons.prems(4) by auto
  have "tcp_tx_send_loop c n buf True 0 = Some (0, c2, n2, [])" using ne s(1) t(1) by (subst tcp_tx_send_loop.simps) simp
  moreover have "conn_same c c2" using s(3) t(2) by (simp add: conn_same_def)
  moreover have "snd_nxt (pcb c2) = snd_nxt (pcb c) + of_nat (length buf)"
  proof -
    have "min (length buf) TCP_MSS + (length buf - TCP_MSS) = length buf" by simp
    then show ?thesis unfolding t(3) s(4) add.assoc of_nat_add [symmetric] by simp
  qed
  moreover have "seg_frame c dhost (io_mac n) (snd_nxt (pcb c) + of_nat (i * TCP_MSS)) (seg_flags (i + 1 = length (a # as)))
       (take TCP_MSS (drop (i * TCP_MSS) buf)) (frame n2 ((a # as) ! i))" if "i < length (a # as)" for i
  proof (cases i)
    case 0
    have "frame n2 a = frame n1 a" using t(7) Cons.prems(4) by (simp add: frame_def)
    moreover have "length buf \<le> TCP_MSS \<longleftrightarrow> as = []" using na by (auto simp: num_segments_def TCP_MSS_def)
    ultimately show ?thesis using s(11) 0 by simp
  next
    case (Suc j)
    then have j: "j < length as" "TCP_MSS \<le> length buf" using that na by (auto simp: num_segments_def TCP_MSS_def)
    have e: "snd_nxt (pcb c1) + of_nat (j * TCP_MSS) = snd_nxt (pcb c) + of_nat (i * TCP_MSS)"
      using j(2) Suc by (simp add: s(4) min_def algebra_simps)
    have d: "drop (j * TCP_MSS) (drop TCP_MSS buf) = drop (i * TCP_MSS) buf" using Suc by (simp add: add.commute)
    from t(8) j(1) have "seg_frame c1 dhost (io_mac n1) (snd_nxt (pcb c1) + of_nat (j * TCP_MSS)) (seg_flags (j + 1 = length as))
         (take TCP_MSS (drop (j * TCP_MSS) (drop TCP_MSS buf))) (frame n2 (as ! j))" by blast
    then show ?thesis unfolding e d seg_frame_same [OF s(3)] s(10) using Suc by simp
  qed
  ultimately show ?case using s(5,7,9) t(4-7) by (intro exI [of _ c2] exI [of _ n2]) auto
qed

lemma tx_send_segments:
  assumes "ESTABLISHED \<le> state (pcb c)" "tx_pending c = None" "tx_free n = as @ fs" "length as = num_segments buf" "distinct as"
    "\<forall>a \<in> set as. length (m_head (bufs n a)) = 1920" "can_send c n dhost"
  shows "\<exists>c' n'. tcp_tx_send c n buf True = Some (int (length buf), c', n') \<and>
    snd_nxt (pcb c') = snd_nxt (pcb c) + of_nat (length buf) \<and> txq c' = txq c @ as \<and> tx_queue n' = tx_queue n @ as \<and>
    (\<forall>i < length as. seg_frame c dhost (io_mac n) (snd_nxt (pcb c) + of_nat (i * TCP_MSS)) (seg_flags (i + 1 = length as))
       (take TCP_MSS (drop (i * TCP_MSS) buf)) (frame n' (as ! i))) \<and>
    concat (map (\<lambda>i. take TCP_MSS (drop (i * TCP_MSS) buf)) [0..<length as]) = buf"
proof -
  obtain c' n' where l: "tcp_tx_send_loop c n buf True 0 = Some (0, c', n', [])"
      "snd_nxt (pcb c') = snd_nxt (pcb c) + of_nat (length buf)" "txq c' = txq c @ as" "tx_queue n' = tx_queue n @ as"
      "\<forall>i < length as. seg_frame c dhost (io_mac n) (snd_nxt (pcb c) + of_nat (i * TCP_MSS)) (seg_flags (i + 1 = length as))
       (take TCP_MSS (drop (i * TCP_MSS) buf)) (frame n' (as ! i))"
    using send_loop_segments [OF assms(2-7)] by blast
  have "tcp_tx_send c n buf True = Some (int (length buf), c', n')"
    using assms(1) l(1) by (simp add: tcp_tx_send_def)
  moreover have "concat (map (\<lambda>i. take k (drop (i * k) xs)) [0..<j]) = take (j * k) xs" for k j and xs :: "u8 list"
    by (induction j) (simp_all add: take_add [symmetric] add.commute)
  moreover have "length buf \<le> length as * TCP_MSS" using assms(4) by (simp add: num_segments_def TCP_MSS_def)
  ultimately show ?thesis using l(2-5) by auto
qed

text \<open>C7: 
  \<^verbatim>\<open>tcp_tx_send\<close> sends the data of the application, pushed, in full. On a connection without pending data whose peer can be reached, and with a free buffer for every
  segment, it returns the number of bytes and advances \<^verbatim>\<open>snd_nxt\<close> by it; it hands the segments to the I/O kernel in order, and keeps them in the same order for
  retransmission. The segments are consecutive pieces of the data of at most \<^verbatim>\<open>TCP_MSS\<close> bytes with consecutive sequence numbers, only the last has the
  PUSH flag, and they acknowledge what has been received.
\<close>

theorem tcp_send_segments:
  assumes "ESTABLISHED \<le> state (pcb c)" "tx_pending c = None" "tx_free n = as @ fs" "length as = num_segments buf" "distinct as"
    "\<forall>a \<in> set as. length (m_head (bufs n a)) = 1920" "can_send c n dhost"
  shows "\<exists>c' n'. tcp_tx_send c n buf True = Some (int (length buf), c', n') \<and>
    snd_nxt (pcb c') = snd_nxt (pcb c) + of_nat (length buf) \<and> txq c' = txq c @ as \<and> tx_queue n' = tx_queue n @ as \<and>
    (\<forall>i < length as. seg_frame c dhost (io_mac n) (snd_nxt (pcb c) + of_nat (i * TCP_MSS)) (seg_flags (i + 1 = length as))
       (take TCP_MSS (drop (i * TCP_MSS) buf)) (frame n' (as ! i))) \<and>
    concat (map (\<lambda>i. take TCP_MSS (drop (i * TCP_MSS) buf)) [0..<length as]) = buf"
  by (rule tx_send_segments [OF assms])


text \<open>An established connection that sends three bytes, and the peer that receives them.\<close>

definition ex_seg_net :: net where
  "ex_seg_net = \<lparr>io_mac = replicate 6 2, io_addr = 0x0a000001, io_netmask = 0xffffff00, io_gateway = 0x0a0000fe,
     bufs = (\<lambda>a. \<lparr>m_head = replicate 1920 0, m_data = 0, m_len = 0, txflags = 0, network_off = 0, transport_off = 0,
       m_release = net_tx_release_mbuf, m_timestamp = 0, seg_seq = 0, seg_end = 0, m_flags = 0, m_ref = 0\<rparr>),
     tx_free = [0, 1, 2], txpktq = [], txpktq_size = 2, txpktq_overflow = [],
     arp_tbl = (\<lambda>i. [\<lparr>ae_state = ARP_STATE_VALID, ae_ip = 0x0a000002, ae_eth = replicate 6 4, ae_q = [], ae_ts = 0, ae_tries_left = 0\<rparr>]), smalloc_ok = [],
     clock = of_nat, ticks = 0, net_errors = [], trans_seed = 1, ephemeral_offset = 0, trans_tbl = (\<lambda>i. []), tcp_conns = [],
     rx_pool = [\<lparr>m_head = replicate 1920 0, m_data = 0, m_len = 0, txflags = 0, network_off = 0, transport_off = 0,
       m_release = net_tx_release_mbuf, m_timestamp = 0, seg_seq = 0, seg_end = 0, m_flags = 0, m_ref = 0\<rparr>],
     txcmdq = [], txcmdq_size = 2, udp_done = []\<rparr>"

definition ex_seg_conn :: tcp_conn where
  "ex_seg_conn = \<lparr>c_sock = 0, laddr = \<lparr>na_ip = 0x0a000001, na_port = 5\<rparr>, raddr = \<lparr>na_ip = 0x0a000002, na_port = 9\<rparr>,
     pcb = \<lparr>state = ESTABLISHED, snd_una = 100, snd_nxt = 100, snd_wnd = 5000, snd_wl1 = 0, snd_wl2 = 0, iss = 99, rcv_nxt = 1, rcv_wnd = 4000, irs = 0\<rparr>,
     c_ref = 1, c_err = 0, rx_closed = False, rx_exclusive = False, rx_wq = [], rxq_ooo = [], rxq = [], tx_closed = False, tx_exclusive = True, tx_wq = [],
     tx_last_ack = 0, tx_last_win = 0, tx_pending = None, txq = [], do_fast_retransmit = False, fast_retransmit_last_ack = 0, next_timeout = 0,
     ack_delayed = False, rcv_wnd_full = False, ack_ts = 0, time_wait_ts = 0, rep_acks = 0, c_woken = [], c_spawned = 0\<rparr>"

lemma ex_can_send: "can_send ex_seg_conn ex_seg_net (replicate 6 4)"
  by (simp add: can_send_def ex_seg_conn_def ex_seg_net_def net_get_ip_route_def arp_known_def lookup_entry_def)

theorem tcp_send_segments_witness:
  "\<exists>c' n'. tcp_tx_send ex_seg_conn ex_seg_net [7, 8, 9] True = Some (3, c', n') \<and> snd_nxt (pcb c') = 103 \<and> txq c' = [0] \<and>
     seg_frame ex_seg_conn (replicate 6 4) (replicate 6 2) 100 (TCP_ACK OR TCP_PUSH) [7, 8, 9] (frame n' 0)"
proof -
  have s: "num_segments [7, 8, 9] = 1" by (simp add: num_segments_def TCP_MSS_def)
  have e: "state (pcb ex_seg_conn) = ESTABLISHED" "tx_pending ex_seg_conn = None" "tx_free ex_seg_net = [0] @ [1, 2]" "snd_nxt (pcb ex_seg_conn) = 100"
      "txq ex_seg_conn = []" "io_mac ex_seg_net = replicate 6 2" "\<forall>a. length (m_head (bufs ex_seg_net a)) = 1920"
    by (simp_all add: ex_seg_conn_def ex_seg_net_def)
  from tcp_send_segments [OF _ e(2,3) _ _ _ ex_can_send, of "[7, 8, 9]"] show ?thesis
    using s e by (auto simp: seg_flags_def TCP_MSS_def)
qed

lemma segment_received:
  assumes "seg_frame c (io_mac n) shost seq flags txt fr" "length txt \<le> TCP_MSS" "length (io_mac n) = 6" "length shost = 6"
    "rx_pool n = m0 # ms" "length (m_head m0) = 1920"
  shows "\<exists>m n' m' m''. net_rx_one n \<lparr>rh_completion_data = d, rh_csum_type = CHECKSUM_TYPE_UNNECESSARY, rh_payload = fr\<rparr> = Some (Some m, n') \<and>
    trans_lookup n' m = Some (trans_find n IPPROTO_TCP (raddr c) (laddr c), m') \<and>
    tcp_rx_parse m' = Some (Some (\<lparr>sg_seq = seq, sg_ack = rcv_nxt (pcb c), sg_win = ucast (rcv_wnd (pcb c)), sg_flags = flags,
       sg_len = of_nat (length txt) + (if flags AND TCP_FIN \<noteq> 0 then 1 else 0)\<rparr>, m'')) \<and> mbuf_ok m'' \<and> mbuf_data m'' = txt"
proof -
  obtain ipid l4 where f: "fr = ip_frame (io_mac n) shost ipid IPPROTO_TCP (na_ip (laddr c)) (na_ip (raddr c)) l4"
      "tcp_segment (na_port (laddr c)) (na_port (raddr c)) seq (rcv_nxt (pcb c)) flags (ucast (rcv_wnd (pcb c))) txt l4"
    using assms(1) by (auto simp: seg_frame_def)
  then have l4: "length l4 = 20 + length txt" by (auto simp: tcp_segment_def)
  let ?hdr = "\<lparr>rh_completion_data = d, rh_csum_type = CHECKSUM_TYPE_UNNECESSARY, rh_payload = fr\<rparr>"
  let ?n = "net_rx_send_completion (n\<lparr>rx_pool := ms\<rparr>) d"
  have "rh_payload ?hdr = ip_frame (io_mac n) shost ipid IPPROTO_TCP (na_ip (laddr c)) (na_ip (raddr c)) l4" "length l4 \<le> 1886"
    using f(1) l4 assms(2) by (simp_all add: TCP_MSS_def)
  then obtain m where m: "net_rx_one n ?hdr = Some (Some m, ?n)" "l4_packet m IPPROTO_TCP (na_ip (laddr c)) (na_ip (raddr c)) l4"
    using net_rx_one_spec [OF assms(5,6,3,4), of ?hdr ipid IPPROTO_TCP "na_ip (laddr c)" "na_ip (raddr c)" l4] by auto
  let ?m = "m\<lparr>transport_off := 34\<rparr>"
  have p: "l4_packet ?m IPPROTO_TCP (na_ip (laddr c)) (na_ip (raddr c)) l4" using m(2) by (auto simp: l4_packet_def mbuf_ok_def head_len_def mbuf_data_def)
  obtain x2 ck urp where h: "l4 = tcp_hdr (na_port (laddr c)) (na_port (raddr c)) seq (rcv_nxt (pcb c)) x2 flags (ucast (rcv_wnd (pcb c))) ck @ urp @ txt"
    using f(2) by (auto simp: tcp_segment_def)
  have "tcphdr_sport l4 0 = na_port (laddr c)" "tcphdr_dport l4 0 = na_port (raddr c)" using tcp_hdr_fields(1,2) [of "[]" 0 l4] h by simp_all
  then have "trans_lookup ?n m = Some (trans_find ?n IPPROTO_TCP (raddr c) (laddr c), ?m)"
    using trans_lookup_l4 [OF m(2), of ?n] l4 by (simp add: tcphdr_sport_def tcphdr_dport_def numeral_2_eq_2)
  moreover have "trans_find ?n IPPROTO_TCP (raddr c) (laddr c) = trans_find n IPPROTO_TCP (raddr c) (laddr c)"
    by (rule trans_find_cong) (simp_all add: net_rx_send_completion_def)
  ultimately show ?thesis using m(1) tcp_rx_parse_segment [OF p f(2)] assms(2) by (auto simp: TCP_MSS_def)
qed

text \<open>C35: 
  What one host writes into a segment is what the other reads from it: a host with the address in the frame that receives it
  unchanged hands to TCP a packet from which \<^verbatim>\<open>tcp_rx_conn\<close> reads the sequence number, the acknowledgement, the flags, the window, the length (a FIN counts
  as one) and the text of the sender, and which the transport table looks up with the addresses of the sender.
\<close>

theorem tcp_segment_roundtrip:
  assumes "seg_frame c (io_mac n) shost seq flags txt fr" "length txt \<le> TCP_MSS" "length (io_mac n) = 6" "length shost = 6"
    "rx_pool n = m0 # ms" "length (m_head m0) = 1920"
  shows "\<exists>m n' m' m''. net_rx_one n \<lparr>rh_completion_data = d, rh_csum_type = CHECKSUM_TYPE_UNNECESSARY, rh_payload = fr\<rparr> = Some (Some m, n') \<and>
    trans_lookup n' m = Some (trans_find n IPPROTO_TCP (raddr c) (laddr c), m') \<and>
    tcp_rx_parse m' = Some (Some (\<lparr>sg_seq = seq, sg_ack = rcv_nxt (pcb c), sg_win = ucast (rcv_wnd (pcb c)), sg_flags = flags,
       sg_len = of_nat (length txt) + (if flags AND TCP_FIN \<noteq> 0 then 1 else 0)\<rparr>, m'')) \<and> mbuf_data m'' = txt"
  using segment_received [OF assms] by blast

text \<open>The frame of the example above, received by its destination.\<close>

theorem tcp_segment_roundtrip_witness:
  "\<exists>fr m n' m' m''. seg_frame ex_seg_conn (replicate 6 2) (replicate 6 2) 100 TCP_FIN [7, 8, 9] fr \<and>
     net_rx_one ex_seg_net \<lparr>rh_completion_data = 0, rh_csum_type = CHECKSUM_TYPE_UNNECESSARY, rh_payload = fr\<rparr> = Some (Some m, n') \<and>
     tcp_rx_parse m' = Some (Some (\<lparr>sg_seq = 100, sg_ack = 1, sg_win = 4000, sg_flags = TCP_FIN, sg_len = 4\<rparr>, m'')) \<and> mbuf_data m'' = [7, 8, 9]"
proof -
  let ?l4 = "tcp_hdr 5 9 100 1 0 TCP_FIN 4000 0 @ [0, 0] @ [7, 8, 9]"
  let ?fr = "ip_frame (replicate 6 2) (replicate 6 2) 0 IPPROTO_TCP 0x0a000001 0x0a000002 ?l4"
  have "tcp_segment 5 9 100 1 TCP_FIN 4000 [7, 8, 9] ?l4" unfolding tcp_segment_def by (intro exI [of _ "[0, 0]"] exI conjI) simp_all
  then have s: "seg_frame ex_seg_conn (replicate 6 2) (replicate 6 2) 100 TCP_FIN [7, 8, 9] ?fr"
    unfolding seg_frame_def by (intro exI conjI) (simp_all add: ex_seg_conn_def)
  have e: "io_mac ex_seg_net = replicate 6 2" "rx_pool ex_seg_net = rx_pool ex_seg_net ! 0 # []" "length (m_head (rx_pool ex_seg_net ! 0)) = 1920"
      "rcv_nxt (pcb ex_seg_conn) = 1" "rcv_wnd (pcb ex_seg_conn) = 4000"
    by (simp_all add: ex_seg_net_def ex_seg_conn_def)
  have l: "length [7, 8, 9 :: u8] \<le> TCP_MSS" "length (io_mac ex_seg_net) = 6" "length (replicate 6 (2 :: u8)) = 6" by (simp_all add: TCP_MSS_def e(1))
  from tcp_segment_roundtrip [OF s [folded e(1)] l(1,2) _ e(2,3), of 0] s show ?thesis
    by (auto simp: e TCP_FIN_def)
qed

end
