(* ===== verification/Tcp_Sender.thy ===== *)
theory Tcp_Sender
  imports Tcp_Segment Tcp_Stream
begin

text \<open>
  The sending side of a connection (\<^verbatim>\<open>libos/net/tcp_out.c\<close>): what the buffers of the transmit queue and the pending buffer hold of the stream
  that the application writes. The segmenter, pushed or not, the FIN, acknowledgements, and retransmission, in place or by copy, also of
  segments that are acknowledged in part, put on the wire nothing but pieces of that stream at their sequence numbers.
\<close>

section \<open>Buffers and headers\<close>

text \<open>The fields of a buffer that the layers below TCP leave alone.\<close>

definition buf_view :: "mbuf \<Rightarrow> nat \<times> nat \<times> u32 \<times> u32 \<times> u8 \<times> mbuf_release" where
  "buf_view m = (head_len m, transport_off m, seg_seq m, seg_end m, m_flags m, m_release m)"

lemma push_view: "mbuf_push m k = Some m' \<Longrightarrow> mbuf_ok m \<Longrightarrow> mbuf_ok m' \<and> m_data m' + k = m_data m \<and> buf_view m' = buf_view m"
  by (auto simp: mbuf_push_def mbuf_ok_def head_len_def buf_view_def split: if_splits)

lemma write_view: "mbuf_write m pos bs = Some m' \<Longrightarrow> mbuf_ok m \<Longrightarrow> mbuf_ok m' \<and> m_data m' = m_data m \<and> buf_view m' = buf_view m"
  by (auto simp: mbuf_write_def mbuf_ok_def head_len_def buf_view_def split: if_splits)

lemma tx_raw_view:
  assumes "net_tx_raw n a = Some n'" "mbuf_ok (bufs n a)"
  shows "mbuf_ok (bufs n' a) \<and> m_data (bufs n' a) + 18 = m_data (bufs n a) \<and> buf_view (bufs n' a) = buf_view (bufs n a)"
  using assms
  by (auto simp: net_tx_raw_def Let_def set_buf_def tx_drain(2) elim!: bind_SomeE dest!: push_view write_view split: if_splits)

lemma tx_ip_view:
  assumes "net_tx_ip n a proto daddr = Some (r, n')" "arp_known n (net_get_ip_route n daddr) dhost" "length dhost = 6" "length (io_mac n) = 6"
    "mbuf_ok (bufs n a)"
  shows "mbuf_ok (bufs n' a) \<and> m_data (bufs n' a) + 52 = m_data (bufs n a) \<and> buf_view (bufs n' a) = buf_view (bufs n a)"
proof -
  obtain n1 where n1: "net_push_iphdr n a proto daddr = Some n1" using assms(1) by (auto simp: net_tx_ip_def elim!: bind_SomeE)
  let ?m = "(bufs n1 a)\<lparr>txflags := txflags (bufs n1 a) OR OLFLAG_IP_CHKSUM OR OLFLAG_IPV4\<rparr>"
  let ?n2 = "set_buf n1 a ?m"
  have m1: "mbuf_ok (bufs n1 a)" "m_data (bufs n1 a) + 20 = m_data (bufs n a)" "buf_view (bufs n1 a) = buf_view (bufs n a)"
      and k: "arp_known ?n2 (net_get_ip_route n daddr) dhost" "net_get_ip_route ?n2 daddr = net_get_ip_route n daddr" "io_mac n1 = io_mac n"
    using n1 assms(2,5) by (auto simp: net_push_iphdr_def now_us_def set_buf_def arp_known_def lookup_entry_def net_get_ip_route_def
        elim!: bind_SomeE dest!: push_view write_view)
  obtain m2 where m2: "mbuf_push_bytes ?m (eth_hdr dhost (io_mac n) ETHTYPE_IP) = Some m2" "net_tx_raw (set_buf ?n2 a m2) a = Some n'"
    using assms(1) n1 arp_lookup_known [OF k(1)] k(2,3) by (auto simp: net_tx_ip_def net_tx_eth_def elim!: bind_SomeE)
  have "mbuf_ok ?m" "buf_view ?m = buf_view (bufs n1 a)" using m1(1) by (simp_all add: mbuf_ok_def head_len_def buf_view_def)
  then have "mbuf_ok m2" "m_data m2 + 14 = m_data (bufs n1 a)" "buf_view m2 = buf_view (bufs n1 a)"
    using m2(1) assms(3,4) by (auto simp: mbuf_push_bytes_def elim!: bind_SomeE dest!: push_view write_view)
  then show ?thesis using tx_raw_view [OF m2(2)] m1(2,3) by simp
qed

text \<open>The text of a segment, from the end of its TCP header on.\<close>

definition seg_text :: "mbuf \<Rightarrow> u8 list" where
  "seg_text m = drop (transport_off m + 20 - m_data m) (mbuf_data m)"

text \<open>The header of a segment in front of its text.\<close>

lemma push_hdr_spec:
  assumes "mbuf_ok m" "20 \<le> m_data m" "m_data m \<le> 65535"
  shows "\<exists>m'. tcp_push_tcphdr c (set_buf n a m) a flags l4len = Some (c\<lparr>tx_last_ack := rcv_nxt (pcb c), tx_last_win := ucast (rcv_wnd (pcb c))\<rparr>, set_buf n a m') \<and>
    mbuf_ok m' \<and> m_data m' + 20 = m_data m \<and> transport_off m' = m_data m' \<and> buf_view m' = buf_view (m\<lparr>transport_off := m_data m'\<rparr>) \<and>
    tcp_segment (na_port (laddr c)) (na_port (raddr c)) (seg_seq m) (rcv_nxt (pcb c)) flags (ucast (rcv_wnd (pcb c))) (mbuf_data m) (mbuf_data m')"
proof -
  define ck where "ck = ipv4_phdr_cksum IPPROTO_TCP (na_ip (laddr c)) (na_ip (raddr c)) (20 + l4len)"
  obtain m4 where m4: "mbuf_push_tcphdr m (na_port (laddr c)) (na_port (raddr c)) (seg_seq m) (rcv_nxt (pcb c)) flags (ucast (rcv_wnd (pcb c))) ck = Some m4"
      "mbuf_ok m4" "m_data m4 = m_data m - 20"
      "tcp_segment (na_port (laddr c)) (na_port (raddr c)) (seg_seq m) (rcv_nxt (pcb c)) flags (ucast (rcv_wnd (pcb c))) (mbuf_data m) (mbuf_data m4)"
    using mbuf_push_tcphdr_spec [OF assms(1,2)] by metis
  have v: "buf_view m4 = buf_view m" using m4(1) assms(1) by (auto simp: mbuf_push_tcphdr_def elim!: bind_SomeE dest!: push_view write_view)
  let ?m = "m4\<lparr>transport_off := m_data m4\<rparr>"
  have "mbuf_ok ?m" "mbuf_data ?m = mbuf_data m4" using m4(2) by (simp_all add: mbuf_ok_def head_len_def mbuf_data_def)
  moreover have "set_buf (set_buf n a m) a ?m = set_buf n a ?m" by (simp add: set_buf_def)
  moreover have "buf_view ?m = buf_view (m\<lparr>transport_off := m_data m4\<rparr>)" using v by (simp add: buf_view_def head_len_def)
  ultimately show ?thesis using m4 assms(2,3)
    by (intro exI [of _ ?m]) (simp add: tcp_push_tcphdr_def Let_def ck_def [symmetric] mbuf_mark_transport_offset_def)
qed

text \<open>A segment with its header goes to the peer; what stays in the buffer.\<close>

lemma tx_hdr_spec:
  assumes "bufs n a = m" "mbuf_ok m" "52 \<le> m_data m" "transport_off m = m_data m" "can_send c n dhost"
    "tcp_segment (na_port (laddr c)) (na_port (raddr c)) seq (rcv_nxt (pcb c)) flags (ucast (rcv_wnd (pcb c))) bs (mbuf_data m)"
  shows "\<exists>n'. net_tx_ip n a IPPROTO_TCP (na_ip (raddr c)) = Some (0, n') \<and> tx_queue n' = tx_queue n @ [a] \<and> tx_same n n' \<and>
    (\<forall>b. b \<noteq> a \<longrightarrow> bufs n' b = bufs n b) \<and> seg_frame c dhost (io_mac n) seq flags bs (frame n' a) \<and>
    mbuf_ok (bufs n' a) \<and> m_data (bufs n' a) + 52 = m_data m \<and> buf_view (bufs n' a) = buf_view m \<and> seg_text (bufs n' a) = bs \<and> 72 \<le> m_len (bufs n' a)"
proof -
  have cs: "na_ip (laddr c) = io_addr n" "length (io_mac n) = 6" "length dhost = 6" "arp_known n (net_get_ip_route n (na_ip (raddr c))) dhost"
    using assms(5) by (simp_all add: can_send_def)
  obtain n' ipid where t: "net_tx_ip n a IPPROTO_TCP (na_ip (raddr c)) = Some (0, n')" "tx_queue n' = tx_queue n @ [a]"
      "frame n' a = ip_frame dhost (io_mac n) ipid IPPROTO_TCP (io_addr n) (na_ip (raddr c)) (mbuf_data m)" "tx_same n n'" "\<forall>b. b \<noteq> a \<longrightarrow> bufs n' b = bufs n b"
    using net_tx_ip_spec [of n a "na_ip (raddr c)" dhost IPPROTO_TCP] assms(1-3) cs by auto
  have v: "mbuf_ok (bufs n' a)" "m_data (bufs n' a) + 52 = m_data m" "buf_view (bufs n' a) = buf_view m"
    using tx_ip_view [OF t(1) cs(4,3,2)] assms(1,2) by simp_all
  have "transport_off (bufs n' a) = m_data m" using v(3) assms(4) by (simp add: buf_view_def)
  then have "transport_off (bufs n' a) + 20 - m_data (bufs n' a) = 72" using v(2) by simp
  then have "seg_text (bufs n' a) = drop 54 (frame n' a)" by (simp add: seg_text_def frame_def)
  also have "\<dots> = drop 20 (mbuf_data m)" using t(3) cs(2,3) by (simp add: ip_frame_def)
  also have "\<dots> = bs" using assms(6) by (auto simp: tcp_segment_def)
  finally have "seg_text (bufs n' a) = bs" .
  moreover have "length (frame n' a) = m_len (bufs n' a) - 18" using mbuf_data_length [OF v(1)] by (simp add: frame_def)
  then have "72 \<le> m_len (bufs n' a)" using t(3) cs(2,3) assms(6) by (auto simp: ip_frame_def tcp_segment_def)
  ultimately show ?thesis using t v assms(6) cs(1) by (auto simp: seg_frame_def)
qed

section \<open>What the sender keeps\<close>

text \<open>The position that a sequence number stands for, when \<open>S\<close> is the position of \<^verbatim>\<open>snd_nxt\<close>.\<close>

definition seq_position :: "u32 \<Rightarrow> nat \<Rightarrow> u32 \<Rightarrow> nat" where
  "seq_position base S seq = S - unat (base + of_nat S - seq)"

lemma seq_position_at: "p \<le> S \<Longrightarrow> S < p + 2 ^ 32 \<Longrightarrow> seq_position base S (base + of_nat p) = p"
  using seq_diff [of p S base] by (simp add: seq_position_def)

text \<open>Text that is the piece at position \<open>p\<close> of what was written; a FIN stands alone, behind all of it.\<close>

definition text_at :: "u8 list \<Rightarrow> bool \<Rightarrow> u8 \<Rightarrow> u8 list \<Rightarrow> nat \<Rightarrow> bool" where
  "text_at sent fin flags bs p \<longleftrightarrow> length bs \<le> TCP_MSS \<and> p + length bs \<le> length sent \<and> bs = take (length bs) (drop p sent) \<and>
     (flags AND TCP_FIN \<noteq> 0 \<longrightarrow> fin \<and> bs = [] \<and> p = length sent)"

lemma text_at_append: "text_at sent False flags bs p \<Longrightarrow> text_at (sent @ buf) fin flags bs p"
  by (auto simp: text_at_def)

lemma text_at_fin: "text_at sent fin flags bs p \<Longrightarrow> text_at sent True flags bs p"
  by (auto simp: text_at_def)

lemma text_at_drop:
  assumes "text_at sent fin flags bs p" "k < length bs"
  shows "text_at sent fin flags (drop k bs) (p + k)"
proof -
  have "bs = take (length bs) (drop p sent)" using assms(1) by (simp add: text_at_def)
  then have "drop k bs = drop k (take (length bs) (drop p sent))" by simp
  then have "drop k bs = take (length bs - k) (drop (p + k) sent)" by (simp add: drop_take add.commute)
  then have "drop k bs = take (length (drop k bs)) (drop (p + k) sent)" by (metis length_drop)
  then show ?thesis using assms by (auto simp: text_at_def)
qed

definition fin_count :: "u8 \<Rightarrow> nat" where
  "fin_count flags = (if flags AND TCP_FIN \<noteq> 0 then 1 else 0)"

text \<open>A buffer of the transmit queue.\<close>

definition txq_buf :: "u32 \<Rightarrow> u8 list \<Rightarrow> bool \<Rightarrow> mbuf \<Rightarrow> nat \<Rightarrow> bool" where
  "txq_buf base sent fin m p \<longleftrightarrow> mbuf_ok m \<and> head_len m = 1920 \<and> m_data m \<le> transport_off m + 20 \<and> 108 \<le> transport_off m \<and>
     transport_off m + 20 \<le> m_data m + m_len m \<and> m_release m = tcp_tx_release_mbuf \<and> m_flags m AND TCP_SYN = 0 \<and>
     seg_seq m = base + of_nat p \<and> seg_end m = base + of_nat (p + length (seg_text m) + fin_count (m_flags m)) \<and>
     text_at sent fin (m_flags m) (seg_text m) p"

text \<open>The pending buffer, which holds the end of what was written.\<close>

definition pending_buf :: "u32 \<Rightarrow> u8 list \<Rightarrow> mbuf \<Rightarrow> bool" where
  "pending_buf base sent m \<longleftrightarrow> mbuf_ok m \<and> head_len m = 1920 \<and> m_data m = 128 \<and> m_len m \<le> TCP_MSS \<and> m_len m \<le> length sent \<and>
     mbuf_data m = drop (length sent - m_len m) sent \<and> seg_seq m = base + of_nat (length sent - m_len m) \<and>
     seg_end m = base + of_nat (length sent) \<and> m_flags m = TCP_ACK \<and> m_release m = tcp_tx_release_mbuf"

text \<open>What holds of the sender. \<open>M\<close> is the length that the stream reaches with the write under way, if there is one; no buffer is \<open>2 ^ 30\<close> bytes behind it.\<close>

definition snd_pos :: "u8 list \<Rightarrow> bool \<Rightarrow> nat" where
  "snd_pos sent fin = length sent + (if fin then 1 else 0)"

definition free_ok :: "net \<Rightarrow> bool" where
  "free_ok n \<longleftrightarrow> distinct (tx_free n) \<and> (\<forall>a \<in> set (tx_free n). length (m_head (bufs n a)) = 1920)"

lemma free_ok_frame: "free_ok n \<Longrightarrow> tx_free n' = tx_free n \<Longrightarrow> (\<And>a. a \<in> set (tx_free n) \<Longrightarrow> bufs n' a = bufs n a) \<Longrightarrow> free_ok n'"
  by (simp add: free_ok_def)

definition snd_inv :: "u32 \<Rightarrow> nat \<Rightarrow> u8 list \<Rightarrow> bool \<Rightarrow> tcp_conn \<Rightarrow> net \<Rightarrow> bool" where
  "snd_inv base M sent fin s n \<longleftrightarrow> snd_nxt (pcb s) = base + of_nat (snd_pos sent fin) \<and> length sent \<le> M \<and> free_ok n \<and>
     (\<exists>u. snd_una (pcb s) = base + of_nat u \<and> u \<le> snd_pos sent fin \<and> M < u + 2 ^ 30) \<and>
     (\<forall>a \<in> set (txq s). a \<notin> set (tx_free n) \<and> (\<exists>p. txq_buf base sent fin (bufs n a) p \<and> M < p + 2 ^ 30)) \<and>
     (\<forall>a. tx_pending s = Some a \<longrightarrow> a \<notin> set (txq s) \<and> a \<notin> set (tx_free n) \<and> pending_buf base sent (bufs n a) \<and>
        M < length sent - m_len (bufs n a) + 2 ^ 30)"

lemma snd_inv_txq:
  "snd_inv base M sent fin s n \<Longrightarrow> a \<in> set (txq s) \<Longrightarrow> a \<notin> set (tx_free n) \<and> (\<exists>p. txq_buf base sent fin (bufs n a) p \<and> M < p + 2 ^ 30)"
  by (simp add: snd_inv_def)

text \<open>A frame with text, or a FIN, at position \<open>p\<close>.\<close>

definition carries :: "u8 list \<Rightarrow> u32 \<Rightarrow> u8 list \<Rightarrow> bool \<Rightarrow> nat \<times> u8 list \<Rightarrow> bool" where
  "carries dhost base sent fin = (\<lambda>(p, fr). \<exists>s shost seq flags bs. seg_frame s dhost shost seq flags bs fr \<and> length dhost = 6 \<and> length shost = 6 \<and>
     length bs \<le> TCP_MSS \<and> (bs \<noteq> [] \<or> flags AND TCP_FIN \<noteq> 0 \<longrightarrow> seq = base + of_nat p \<and> text_at sent fin flags bs p))"

lemma carriesI:
  assumes "seg_frame s dhost shost (base + of_nat p) flags bs fr" "can_send s n dhost" "shost = io_mac n" "text_at sent fin flags bs p"
  shows "carries dhost base sent fin (p, fr)"
  unfolding carries_def prod.case
  by (intro exI [of _ s] exI [of _ shost] exI [of _ "base + of_nat p"] exI [of _ flags] exI [of _ bs])
    (use assms in \<open>auto simp: can_send_def text_at_def\<close>)

lemma carries_mono:
  assumes "\<And>flags bs p. text_at sent fin flags bs p \<Longrightarrow> text_at sent' fin' flags bs p" "carries dhost base sent fin x"
  shows "carries dhost base sent' fin' x"
  using assms unfolding carries_def by (cases x) (simp only: prod.case, blast)

lemmas carries_append = carries_mono [OF text_at_append]
lemmas carries_fin = carries_mono [OF text_at_fin]

text \<open>The frames that an operation hands to the I/O thread, with their positions.\<close>

definition new_frames :: "u32 \<Rightarrow> nat \<Rightarrow> net \<Rightarrow> nat list \<Rightarrow> (nat \<times> u8 list) set" where
  "new_frames base S n as = (\<lambda>a. (seq_position base S (seg_seq (bufs n a)), frame n a)) ` set as"

section \<open>The segmenter\<close>

lemma pending_text:
  assumes "pending_buf base sent m0" "m = m0 \<or> m = m0\<lparr>m_flags := m_flags m0 OR TCP_PUSH\<rparr>"
  shows "mbuf_ok m" "m_data m = 128" "head_len m = 1920" "m_release m = tcp_tx_release_mbuf" "m_flags m AND TCP_SYN = 0" "m_flags m AND TCP_FIN = 0"
    "seg_seq m = base + of_nat (length sent - m_len m0)" "seg_end m = base + of_nat (length sent)" "length (mbuf_data m) = m_len m0"
    "text_at sent fin (m_flags m) (mbuf_data m) (length sent - m_len m0)"
proof -
  have d: "mbuf_data m = mbuf_data m0" "mbuf_ok m" using assms by (auto simp: pending_buf_def mbuf_data_def mbuf_ok_def head_len_def)
  have p: "pending_buf base sent m0" by (rule assms(1))
  show "mbuf_ok m" by (rule d)
  show "m_data m = 128" "head_len m = 1920" "m_release m = tcp_tx_release_mbuf" "m_flags m AND TCP_SYN = 0" "m_flags m AND TCP_FIN = 0"
      "seg_seq m = base + of_nat (length sent - m_len m0)" "seg_end m = base + of_nat (length sent)"
    using assms by (auto simp: pending_buf_def head_len_def TCP_ACK_def TCP_PUSH_def TCP_SYN_def TCP_FIN_def)
  then show "text_at sent fin (m_flags m) (mbuf_data m) (length sent - m_len m0)"
    using p unfolding d(1) by (auto simp: text_at_def pending_buf_def)
  show "length (mbuf_data m) = m_len m0" using p unfolding d(1) by (auto simp: pending_buf_def)
qed

text \<open>The pending buffer gets its header and is sent.\<close>

lemma flush_spec:
  assumes "snd_inv base M sent False (s\<lparr>tx_pending := Some a\<rparr>) (set_buf n a m0)" "tx_pending s = None"
    "m = m0 \<or> m = m0\<lparr>m_flags := m_flags m0 OR TCP_PUSH\<rparr>" "can_send s n dhost"
  shows "\<exists>s' n'. tx_segment s n a m = Some (0, s', n') \<and> snd_inv base M sent False s' n' \<and> tx_queue n' = tx_queue n @ [a] \<and>
    carries dhost base sent False (seq_position base (length sent) (seg_seq (bufs n' a)), frame n' a) \<and> txq s' = txq s @ [a] \<and>
    (\<forall>b. b \<noteq> a \<longrightarrow> bufs n' b = bufs n b) \<and> can_send s' n' dhost \<and> tx_pending s' = None \<and> state (pcb s') = state (pcb s)"
proof -
  have pd: "pending_buf base sent m0" "a \<notin> set (txq s)" "a \<notin> set (tx_free n)" "M < length sent - m_len m0 + 2 ^ 30"
    using assms(1) by (auto simp: snd_inv_def set_buf_def)
  let ?p = "length sent - m_len m0"
  note m = pending_text(1-9) [OF pd(1) assms(3)] pending_text(10) [OF pd(1) assms(3), where fin = False]
  have r: "20 \<le> m_data m" "m_data m \<le> 65535" using m(2) by simp_all
  define s1 where "s1 = s\<lparr>tx_last_ack := rcv_nxt (pcb s), tx_last_win := ucast (rcv_wnd (pcb s))\<rparr>"
  obtain m1 where m1: "tcp_push_tcphdr s (set_buf n a m) a (m_flags m) (ucast (seg_end m - seg_seq m)) = Some (s1, set_buf n a m1)" "mbuf_ok m1"
      "m_data m1 + 20 = m_data m" "transport_off m1 = m_data m1" "buf_view m1 = buf_view (m\<lparr>transport_off := m_data m1\<rparr>)"
      "tcp_segment (na_port (laddr s)) (na_port (raddr s)) (seg_seq m) (rcv_nxt (pcb s)) (m_flags m) (ucast (rcv_wnd (pcb s))) (mbuf_data m) (mbuf_data m1)"
    using push_hdr_spec [OF m(1) r] unfolding s1_def by metis
  define m2 where "m2 = m1\<lparr>m_timestamp := clock n (ticks n), txflags := OLFLAG_TCP_CHKSUM\<rparr>"
  define n2 where "n2 = set_buf ((set_buf n a m1)\<lparr>ticks := ticks n + 1\<rparr>) a m2"
  have m2: "mbuf_ok m2" "52 \<le> m_data m2" "transport_off m2 = m_data m2" "mbuf_data m2 = mbuf_data m1" "buf_view m2 = buf_view m1" "m_data m2 = 108"
    using m1(2-4) m(2) by (simp_all add: m2_def mbuf_ok_def head_len_def mbuf_data_def buf_view_def)
  have n2: "bufs n2 a = m2" "\<forall>b. b \<noteq> a \<longrightarrow> bufs n2 b = bufs n b" "tx_same n n2" "tx_queue n2 = tx_queue n"
    by (simp_all add: n2_def set_buf_def tx_same_def tx_queue_def)
  have cs: "can_send s n2 dhost" using n2(3) by (intro can_send_same [OF assms(4)]) (simp_all add: tx_same_def)
  obtain n3 where n3: "net_tx_ip n2 a IPPROTO_TCP (na_ip (raddr s)) = Some (0, n3)" "tx_queue n3 = tx_queue n2 @ [a]" "tx_same n2 n3"
      "\<forall>b. b \<noteq> a \<longrightarrow> bufs n3 b = bufs n2 b" "seg_frame s dhost (io_mac n2) (seg_seq m) (m_flags m) (mbuf_data m) (frame n3 a)" "mbuf_ok (bufs n3 a)"
      "m_data (bufs n3 a) + 52 = m_data m2" "buf_view (bufs n3 a) = buf_view m2" "seg_text (bufs n3 a) = mbuf_data m" "72 \<le> m_len (bufs n3 a)"
    using tx_hdr_spec [OF n2(1) m2(1-3) cs] m1(6) m2(4) by metis
  let ?s = "s1\<lparr>txq := txq s1 @ [a]\<rparr>"
  have v: "head_len (bufs n3 a) = 1920" "transport_off (bufs n3 a) = 108" "seg_seq (bufs n3 a) = base + of_nat ?p" "seg_end (bufs n3 a) = base + of_nat (length sent)"
      "m_flags (bufs n3 a) = m_flags m" "m_release (bufs n3 a) = tcp_tx_release_mbuf"
    using n3(8) m2(3,5,6) m1(5) m by (auto simp: buf_view_def head_len_def)
  have "m_len m0 \<le> length sent" using pd(1) by (simp add: pending_buf_def)
  then have "txq_buf base sent False (bufs n3 a) ?p"
    using v n3(6,7,9,10) m2(6) m(5,6,9,10) by (auto simp: txq_buf_def fin_count_def)
  moreover have "tx_segment s n a m = Some (0, ?s, n3)"
    using m1(1) n3(1) by (simp add: tx_segment_def now_us_def tx_queued_def s1_def n2_def m2_def set_buf_def)
  moreover have "carries dhost base sent False (?p, frame n3 a)"
    using carriesI [OF n3(5) [unfolded m(7)] cs refl m(10)] .
  moreover have "seq_position base (length sent) (seg_seq (bufs n3 a)) = ?p" unfolding v(3) using pd(1,4) by (intro seq_position_at) (auto simp: pending_buf_def TCP_MSS_def)
  moreover have "can_send ?s n3 dhost" using n3(3) by (intro can_send_same [OF cs]) (simp_all add: s1_def tx_same_def)
  moreover have "snd_inv base M sent False ?s n3"
  proof -
    have f: "tx_free n3 = tx_free n" using n2(3) n3(3) by (simp add: tx_same_def)
    have b: "bufs n3 b = bufs n b" if "b \<noteq> a" for b using n3(4) n2(2) that by simp
    have "free_ok (set_buf n a m0)" using assms(1) by (simp add: snd_inv_def)
    then have "free_ok n3" by (rule free_ok_frame) (use f b pd(3) in \<open>auto simp: set_buf_def\<close>)
    moreover have "\<exists>p. txq_buf base sent False (bufs n3 b) p \<and> M < p + 2 ^ 30" if "b \<in> set (txq s)" for b
    proof -
      have "bufs (set_buf n a m0) b = bufs n3 b" using b [of b] pd(2) that by (auto simp: set_buf_def)
      then show ?thesis using snd_inv_txq [OF assms(1), of b] that by simp
    qed
    moreover have "b \<notin> set (tx_free n)" if "b \<in> set (txq s)" for b using assms(1) that by (auto simp: snd_inv_def set_buf_def)
    ultimately show ?thesis using assms(1,2) pd \<open>txq_buf base sent False (bufs n3 a) ?p\<close> unfolding snd_inv_def f by (auto simp: s1_def)
  qed
  ultimately show ?thesis using n3(2,4) n2(2,4) assms(2) by (intro exI [of _ ?s] exI [of _ n3]) (simp add: s1_def)
qed

text \<open>More text goes into the pending buffer, or into a new one.\<close>

lemma pending_put:
  assumes "pending_buf base sent m" "m_len m + length bs \<le> TCP_MSS"
  shows "\<exists>m'. mbuf_put_bytes (m\<lparr>seg_end := seg_end m + of_nat (length bs)\<rparr>) bs = Some m' \<and> pending_buf base (sent @ bs) m' \<and> m_len m' = m_len m + length bs"
proof -
  let ?m = "m\<lparr>seg_end := seg_end m + of_nat (length bs)\<rparr>"
  have p: "mbuf_ok m" "head_len m = 1920" "m_data m = 128" "m_len m \<le> length sent" "mbuf_data m = drop (length sent - m_len m) sent"
    using assms(1) by (simp_all add: pending_buf_def)
  have "mbuf_ok ?m" "m_data ?m + m_len ?m + length bs \<le> head_len ?m"
    using p(1-3) assms(2) by (simp_all add: mbuf_ok_def head_len_def TCP_MSS_def)
  from mbuf_put_data [OF this] obtain m' where m': "mbuf_put_bytes ?m bs = Some m'" "mbuf_ok m'" "mbuf_data m' = mbuf_data ?m @ bs" "m_data m' = m_data ?m"
      "head_len m' = head_len ?m" "m' = ?m\<lparr>m_len := m_len ?m + length bs, m_head := m_head m'\<rparr>" by blast
  have f: "m_len m' = m_len m + length bs" "seg_seq m' = seg_seq m" "seg_end m' = seg_end m + of_nat (length bs)" "m_flags m' = m_flags m" "m_release m' = m_release m"
    by (subst m'(6), simp)+
  have "length (sent @ bs) - m_len m' = length sent - m_len m" using f(1) p(4) by simp
  moreover have "mbuf_data m' = drop (length sent - m_len m) (sent @ bs)" using m'(3) p(5) by (simp add: mbuf_data_def)
  moreover have "m_data m' = 128" "head_len m' = 1920" using m'(4,5) p(2,3) by (simp_all add: head_len_def)
  ultimately have "pending_buf base (sent @ bs) m'"
    using m'(2) f p(4) assms by (simp add: pending_buf_def algebra_simps)
  then show ?thesis using m'(1) f(1) by blast
qed

lemma tx_buffer_spec:
  assumes "snd_inv base M sent False s n" "length sent + length buf \<le> M"
  shows "tcp_tx_buffer s n buf = Some (None, s, n) \<or>
    (\<exists>a k n' m. tcp_tx_buffer s n buf = Some (Some (a, k), s\<lparr>tx_pending := None\<rparr>, n') \<and> k \<le> length buf \<and> mbuf_put_bytes (bufs n' a) (take k buf) = Some m \<and>
       snd_inv base M (sent @ take k buf) False (s\<lparr>tx_pending := Some a, pcb := (pcb s)\<lparr>snd_nxt := snd_nxt (pcb s) + of_nat k\<rparr>\<rparr>) (set_buf n' a m) \<and>
       a \<notin> set (txq s) \<and> (\<forall>b. b \<noteq> a \<longrightarrow> bufs n' b = bufs n b) \<and> tx_queue n' = tx_queue n \<and> tx_same (n\<lparr>tx_free := tx_free n'\<rparr>) n')"
proof -
  have i: "snd_nxt (pcb s) = base + of_nat (length sent)" "free_ok n" using assms(1) by (simp_all add: snd_inv_def snd_pos_def)
  obtain u where u: "snd_una (pcb s) = base + of_nat u" "u \<le> length sent" "M < u + 2 ^ 30" using assms(1) by (auto simp: snd_inv_def snd_pos_def)
  text \<open>What both cases come to, once the text is in the buffer.\<close>
  have join: "snd_inv base M (sent @ take k buf) False (s\<lparr>tx_pending := Some a, pcb := (pcb s)\<lparr>snd_nxt := snd_nxt (pcb s) + of_nat k\<rparr>\<rparr>) (set_buf n' a m)"
    if k: "k \<le> length buf" "pending_buf base (sent @ take k buf) m" "M < length sent + k - m_len m + 2 ^ 30"
      and n': "a \<notin> set (txq s)" "a \<notin> set (tx_free n')" "set (tx_free n') \<subseteq> set (tx_free n)" "distinct (tx_free n')" "\<forall>b. b \<noteq> a \<longrightarrow> bufs n' b = bufs n b"
    for a k n' m
  proof -
    have f: "tx_free (set_buf n' a m) = tx_free n'" "bufs (set_buf n' a m) a = m" by (simp_all add: set_buf_def)
    have b: "bufs (set_buf n' a m) b = bufs n b" if "b \<noteq> a" for b using n'(5) that by simp
    have "free_ok (set_buf n' a m)" using i(2) n'(2-4) b unfolding free_ok_def f(1) by (metis subsetD)
    moreover have "b \<notin> set (tx_free n') \<and> (\<exists>p. txq_buf base (sent @ take k buf) False (bufs (set_buf n' a m) b) p \<and> M < p + 2 ^ 30)" if "b \<in> set (txq s)" for b
    proof -
      have "b \<noteq> a" using that n'(1) by auto
      then show ?thesis using snd_inv_txq [OF assms(1) that] n'(3) b [of b] text_at_append unfolding txq_buf_def by (metis subsetD)
    qed
    moreover have "M < length sent + k - m_len m + 2 ^ 30" by (rule k(3))
    ultimately show ?thesis using i(1) u k(1,2) n'(1,2) assms(2) unfolding snd_inv_def f
      by (auto simp: snd_pos_def f(2) algebra_simps intro!: exI [of _ u])
  qed
  show ?thesis
  proof (cases "tx_pending s")
    case None
    show ?thesis
    proof (cases "tx_free n")
      case Nil
      then show ?thesis using None by (simp add: tcp_tx_buffer_def net_tx_alloc_mbuf_def)
    next
      case (Cons a as)
      let ?k = "min (length buf) TCP_MSS"
      have "length (m_head (bufs n a)) = 1920" using i(2) Cons by (simp add: free_ok_def)
      then obtain m where m: "net_tx_alloc_mbuf n = Some (Some a, set_buf (n\<lparr>tx_free := as\<rparr>) a m)" "mbuf_ok m" "m_data m = 128" "mbuf_data m = []"
          "head_len m = 1920" "m_len m = 0" using tx_alloc_spec [OF Cons] by metis
      define m1 where "m1 = m\<lparr>seg_seq := snd_nxt (pcb s), seg_end := snd_nxt (pcb s), m_flags := TCP_ACK, m_ref := 2, m_release := tcp_tx_release_mbuf\<rparr>"
      have "pending_buf base sent m1" using m i(1) by (simp add: pending_buf_def m1_def mbuf_ok_def head_len_def mbuf_data_def)
      moreover have "m_len m1 + length (take ?k buf) \<le> TCP_MSS" using m(6) by (simp add: m1_def)
      ultimately obtain m2 where m2: "mbuf_put_bytes (m1\<lparr>seg_end := seg_end m1 + of_nat ?k\<rparr>) (take ?k buf) = Some m2" "pending_buf base (sent @ take ?k buf) m2" "m_len m2 = ?k"
        using pending_put [of base sent m1 "take ?k buf"] m(6) by (auto simp: m1_def)
      define n' where "n' = set_buf (set_buf (n\<lparr>tx_free := as\<rparr>) a m) a (m1\<lparr>seg_end := seg_end m1 + of_nat ?k\<rparr>)"
      have n': "tx_free n' = as" "bufs n' a = m1\<lparr>seg_end := seg_end m1 + of_nat ?k\<rparr>" "\<forall>b. b \<noteq> a \<longrightarrow> bufs n' b = bufs n b" "tx_queue n' = tx_queue n"
          "tx_same (n\<lparr>tx_free := tx_free n'\<rparr>) n'"
        by (simp_all add: n'_def set_buf_def tx_queue_def tx_same_def)
      have "tcp_tx_buffer s n buf = Some (Some (a, ?k), s\<lparr>tx_pending := None\<rparr>, n')"
        using None m(1) by (cases m) (simp add: tcp_tx_buffer_def Let_def n'_def m1_def)
      moreover have ts: "a \<notin> set (txq s)" using snd_inv_txq [OF assms(1), of a] Cons by auto
      moreover have "distinct as" "a \<notin> set as" using i(2) Cons by (simp_all add: free_ok_def)
      then have "snd_inv base M (sent @ take ?k buf) False (s\<lparr>tx_pending := Some a, pcb := (pcb s)\<lparr>snd_nxt := snd_nxt (pcb s) + of_nat ?k\<rparr>\<rparr>) (set_buf n' a m2)"
        by (intro join) (use m2 n' ts u assms(2) Cons in auto)
      ultimately show ?thesis using m2(1) n' by (intro disjI2 exI [of _ a] exI [of _ ?k] exI [of _ n'] exI [of _ m2]) simp
    qed
  next
    case (Some a)
    then have pd: "a \<notin> set (txq s)" "a \<notin> set (tx_free n)" "pending_buf base sent (bufs n a)" "M < length sent - m_len (bufs n a) + 2 ^ 30"
      using assms(1) by (auto simp: snd_inv_def)
    define k where "k = min (length buf) (TCP_MSS - m_len (bufs n a))"
    have le: "m_len (bufs n a) \<le> TCP_MSS" "m_len (bufs n a) \<le> length sent" using pd(3) by (simp_all add: pending_buf_def)
    have "of_nat TCP_MSS - of_nat (m_len (bufs n a)) = (of_nat (TCP_MSS - m_len (bufs n a)) :: u64)" using le(1) by (simp only: of_nat_diff)
    moreover have "unat (of_nat (TCP_MSS - m_len (bufs n a)) :: u64) = TCP_MSS - m_len (bufs n a)" by (simp add: unat_of_nat TCP_MSS_def)
    ultimately have "unat (of_nat TCP_MSS - of_nat (m_len (bufs n a)) :: u64) = TCP_MSS - m_len (bufs n a)" by (simp only:)
    then have b: "tcp_tx_buffer s n buf = Some (Some (a, k), s\<lparr>tx_pending := None\<rparr>, set_buf n a ((bufs n a)\<lparr>seg_end := seg_end (bufs n a) + of_nat k\<rparr>))"
      using Some by (simp add: tcp_tx_buffer_def mbuf_length_def k_def Let_def)
    define n' where "n' = set_buf n a ((bufs n a)\<lparr>seg_end := seg_end (bufs n a) + of_nat k\<rparr>)"
    have "m_len (bufs n a) + length (take k buf) \<le> TCP_MSS" using le by (simp add: k_def)
    then obtain m2 where m2: "mbuf_put_bytes (bufs n' a) (take k buf) = Some m2" "pending_buf base (sent @ take k buf) m2" "m_len m2 = m_len (bufs n a) + k"
      using pending_put [OF pd(3), of "take k buf"] by (auto simp: n'_def k_def)
    have "snd_inv base M (sent @ take k buf) False (s\<lparr>tx_pending := Some a, pcb := (pcb s)\<lparr>snd_nxt := snd_nxt (pcb s) + of_nat k\<rparr>\<rparr>) (set_buf n' a m2)"
      by (intro join) (use m2(2,3) pd le i(2) in \<open>auto simp: n'_def set_buf_def free_ok_def k_def\<close>)
    then show ?thesis using b m2(1) pd(1)
      by (intro disjI2 exI [of _ a] exI [of _ k] exI [of _ n'] exI [of _ m2]) (simp add: n'_def k_def set_buf_def tx_queue_def tx_same_def)
  qed
qed

lemma send_step_cases:
  assumes "tcp_tx_buffer c n buf = Some (Some (a, k), c1, n1)" "mbuf_put_bytes (bufs n1 a) (take k buf) = Some m"
  shows "tcp_tx_send_step c n buf push =
    (let c2 = c1\<lparr>pcb := (pcb c1)\<lparr>snd_nxt := snd_nxt (pcb c1) + of_nat k\<rparr>\<rparr>
     in if \<not> push \<and> drop k buf = [] \<and> keep_pending m then Some (0, True, c2\<lparr>tx_pending := Some a\<rparr>, set_buf n1 a m, drop k buf)
        else map_option (\<lambda>(ret, c, n). (ret, False, c, n, drop k buf))
          (tx_segment c2 n1 a (if push \<and> drop k buf = [] then m\<lparr>m_flags := m_flags m OR TCP_PUSH\<rparr> else m)))"
  using assms by (simp add: tcp_tx_send_step_def tx_segment_def Let_def map_option_bind comp_def case_prod_unfold split: bind_split)

text \<open>One round: it takes some of the data, keeps the buffers of the transmit queue as they are, and sends at most one segment.\<close>

lemma send_step_inv:
  assumes "snd_inv base M sent False s n" "length sent + length buf \<le> M" "can_send s n dhost"
  shows "\<exists>ret stop s' n' k as. tcp_tx_send_step s n buf push = Some (ret, stop, s', n', drop k buf) \<and> k \<le> length buf \<and>
    snd_inv base M (sent @ take k buf) False s' n' \<and> can_send s' n' dhost \<and> tx_queue n' = tx_queue n @ as \<and> txq s' = txq s @ as \<and>
    (\<forall>a \<in> set (txq s). bufs n' a = bufs n a) \<and> (\<forall>x \<in> new_frames base (length (sent @ take k buf)) n' as. carries dhost base (sent @ take k buf) False x) \<and> ret \<le> 0"
proof -
  consider "tcp_tx_buffer s n buf = Some (None, s, n)" |
    a k n1 m where "tcp_tx_buffer s n buf = Some (Some (a, k), s\<lparr>tx_pending := None\<rparr>, n1)" "k \<le> length buf" "mbuf_put_bytes (bufs n1 a) (take k buf) = Some m"
      "snd_inv base M (sent @ take k buf) False (s\<lparr>tx_pending := Some a, pcb := (pcb s)\<lparr>snd_nxt := snd_nxt (pcb s) + of_nat k\<rparr>\<rparr>) (set_buf n1 a m)"
      "a \<notin> set (txq s)" "\<forall>b. b \<noteq> a \<longrightarrow> bufs n1 b = bufs n b" "tx_queue n1 = tx_queue n" "tx_same (n\<lparr>tx_free := tx_free n1\<rparr>) n1"
    using tx_buffer_spec [OF assms(1,2)] by blast
  then show ?thesis
  proof cases
    case 1
    then show ?thesis using assms(1,3)
      by (intro exI [of _ "- ENOBUFS"] exI [of _ True] exI [of _ s] exI [of _ n] exI [of _ 0] exI [of _ "[]"])
        (simp add: tcp_tx_send_step_def new_frames_def)
  next
    case 2
    let ?s2 = "(s\<lparr>tx_pending := None\<rparr>)\<lparr>pcb := (pcb (s\<lparr>tx_pending := None\<rparr>))\<lparr>snd_nxt := snd_nxt (pcb (s\<lparr>tx_pending := None\<rparr>)) + of_nat k\<rparr>\<rparr>"
    have e: "?s2\<lparr>tx_pending := Some a\<rparr> = s\<lparr>tx_pending := Some a, pcb := (pcb s)\<lparr>snd_nxt := snd_nxt (pcb s) + of_nat k\<rparr>\<rparr>" by (cases s) simp
    have cs: "can_send ?s2 n1 dhost" using 2(8) by (intro can_send_same [OF assms(3)]) (simp_all add: tx_same_def)
    show ?thesis
    proof (cases "\<not> push \<and> drop k buf = [] \<and> keep_pending m")
      case True
      have "tcp_tx_send_step s n buf push = Some (0, True, ?s2\<lparr>tx_pending := Some a\<rparr>, set_buf n1 a m, drop k buf)"
        using True by (simp add: send_step_cases [OF 2(1,3)] Let_def)
      moreover have "can_send (?s2\<lparr>tx_pending := Some a\<rparr>) (set_buf n1 a m) dhost" by (rule can_send_same [OF cs]) (simp_all add: set_buf_def)
      moreover have "tx_queue (set_buf n1 a m) = tx_queue n @ []" "txq (?s2\<lparr>tx_pending := Some a\<rparr>) = txq s @ []" using 2(7) by (simp_all add: set_buf_def tx_queue_def)
      moreover have "\<forall>b \<in> set (txq s). bufs (set_buf n1 a m) b = bufs n b" using 2(5,6) by auto
      ultimately show ?thesis using 2(2,4) unfolding e
        by (intro exI [of _ 0] exI [of _ True] exI [of _ "s\<lparr>tx_pending := Some a, pcb := (pcb s)\<lparr>snd_nxt := snd_nxt (pcb s) + of_nat k\<rparr>\<rparr>"] exI [of _ "set_buf n1 a m"]
          exI [of _ k] exI [of _ "[]"] conjI) (simp_all add: new_frames_def)
    next
      case False
      define m' where "m' = (if push \<and> drop k buf = [] then m\<lparr>m_flags := m_flags m OR TCP_PUSH\<rparr> else m)"
      have mm: "m' = m \<or> m' = m\<lparr>m_flags := m_flags m OR TCP_PUSH\<rparr>" by (simp add: m'_def)
      have tp: "tx_pending ?s2 = None" by simp
      obtain s' n' where t: "tx_segment ?s2 n1 a m' = Some (0, s', n')" "snd_inv base M (sent @ take k buf) False s' n'" "tx_queue n' = tx_queue n1 @ [a]"
          "carries dhost base (sent @ take k buf) False (seq_position base (length (sent @ take k buf)) (seg_seq (bufs n' a)), frame n' a)" "txq s' = txq ?s2 @ [a]"
          "\<forall>b. b \<noteq> a \<longrightarrow> bufs n' b = bufs n1 b" "can_send s' n' dhost"
        using flush_spec [OF 2(4) [folded e] tp mm cs] by blast
      have "tcp_tx_send_step s n buf push = Some (0, False, s', n', drop k buf)"
        using False t(1) unfolding send_step_cases [OF 2(1,3)] Let_def m'_def [symmetric] by auto
      moreover have "\<forall>b \<in> set (txq s). bufs n' b = bufs n b" using 2(5,6) t(6) by auto
      moreover have "\<forall>x \<in> new_frames base (length (sent @ take k buf)) n' [a]. carries dhost base (sent @ take k buf) False x" using t(4) by (simp add: new_frames_def)
      ultimately show ?thesis using 2(2,7) t by (intro exI [of _ 0] exI [of _ False] exI [of _ s'] exI [of _ n'] exI [of _ k] exI [of _ "[a]"]) simp
    qed
  qed
qed

lemma new_frames_append [simp]: "new_frames base S n (as @ bs) = new_frames base S n as \<union> new_frames base S n bs"
  by (auto simp: new_frames_def)

text \<open>Buffers of the transmit queue keep their frames and positions while more is written.\<close>

lemma new_frames_later:
  assumes "snd_inv base M sent False s n" "set as \<subseteq> set (txq s)" "\<forall>a \<in> set as. bufs n' a = bufs n a" "length sent \<le> S" "S \<le> M"
    "\<forall>x \<in> new_frames base (length sent) n as. carries dhost base sent False x" "x \<in> new_frames base S n' as"
  shows "carries dhost base sent False x"
proof -
  obtain a where a: "a \<in> set as" "x = (seq_position base S (seg_seq (bufs n a)), frame n a)"
    using assms(3,7) by (auto simp: new_frames_def frame_def)
  obtain p where p: "txq_buf base sent False (bufs n a) p" "M < p + 2 ^ 30" using snd_inv_txq [OF assms(1)] a(1) assms(2) by blast
  have q: "seg_seq (bufs n a) = base + of_nat p" "p \<le> length sent" using p(1) by (auto simp: txq_buf_def text_at_def)
  have "seq_position base T (seg_seq (bufs n a)) = p" if "length sent \<le> T" "T \<le> M" for T
    unfolding q(1) using that p(2) q(2) by (intro seq_position_at) simp_all
  then have "seq_position base S (seg_seq (bufs n a)) = seq_position base (length sent) (seg_seq (bufs n a))" using assms(4,5) by simp
  then show ?thesis using assms(6) a by (auto simp: new_frames_def)
qed

lemma send_loop_inv:
  assumes "snd_inv base M sent False s n" "length sent + length buf \<le> M" "can_send s n dhost" "ret \<le> 0"
  shows "\<exists>ret' s' n' k as. tcp_tx_send_loop s n buf push ret = Some (ret', s', n', drop k buf) \<and> k \<le> length buf \<and>
    snd_inv base M (sent @ take k buf) False s' n' \<and> can_send s' n' dhost \<and> tx_queue n' = tx_queue n @ as \<and> txq s' = txq s @ as \<and>
    (\<forall>a \<in> set (txq s). bufs n' a = bufs n a) \<and> (\<forall>x \<in> new_frames base (length (sent @ take k buf)) n' as. carries dhost base (sent @ take k buf) False x) \<and> ret' \<le> 0"
  using assms
proof (induction s n buf push ret arbitrary: sent rule: tcp_tx_send_loop.induct)
  case (1 s n buf push ret)
  show ?case
  proof (cases "buf = []")
    case True
    then show ?thesis using "1.prems"
      by (intro exI [of _ ret] exI [of _ s] exI [of _ n] exI [of _ 0] exI [of _ "[]"]) (simp add: tcp_tx_send_loop.simps new_frames_def)
  next
    case False
    obtain ret1 stop s1 n1 k as where st: "tcp_tx_send_step s n buf push = Some (ret1, stop, s1, n1, drop k buf)" "k \<le> length buf"
        "snd_inv base M (sent @ take k buf) False s1 n1" "can_send s1 n1 dhost" "tx_queue n1 = tx_queue n @ as" "txq s1 = txq s @ as"
        "\<forall>a \<in> set (txq s). bufs n1 a = bufs n a" "\<forall>x \<in> new_frames base (length (sent @ take k buf)) n1 as. carries dhost base (sent @ take k buf) False x" "ret1 \<le> 0"
      using send_step_inv [OF "1.prems"(1-3)] by metis
    show ?thesis
    proof (cases stop)
      case True
      then have "tcp_tx_send_loop s n buf push ret = Some (ret1, s1, n1, drop k buf)" using False st(1) by (simp add: tcp_tx_send_loop.simps)
      then show ?thesis using st(2-9) by blast
    next
      case go: False
      have le: "length (sent @ take k buf) + length (drop k buf) \<le> M" using "1.prems"(2) by simp
      obtain ret2 s2 n2 j bs where l: "tcp_tx_send_loop s1 n1 (drop k buf) push ret1 = Some (ret2, s2, n2, drop j (drop k buf))" "j \<le> length (drop k buf)"
          "snd_inv base M ((sent @ take k buf) @ take j (drop k buf)) False s2 n2" "can_send s2 n2 dhost" "tx_queue n2 = tx_queue n1 @ bs" "txq s2 = txq s1 @ bs"
          "\<forall>a \<in> set (txq s1). bufs n2 a = bufs n1 a"
          "\<forall>x \<in> new_frames base (length ((sent @ take k buf) @ take j (drop k buf))) n2 bs. carries dhost base ((sent @ take k buf) @ take j (drop k buf)) False x" "ret2 \<le> 0"
        using "1.IH" [OF False st(1) refl refl refl refl go st(3) le st(4) st(9)] by metis
      have e: "(sent @ take k buf) @ take j (drop k buf) = sent @ take (k + j) buf" "drop j (drop k buf) = drop (k + j) buf"
        by (simp add: take_add) (simp add: add.commute)
      have M: "length (sent @ take (k + j) buf) \<le> M" using "1.prems"(2) by simp
      have "carries dhost base (sent @ take k buf) False x" if "x \<in> new_frames base (length (sent @ take (k + j) buf)) n2 as" for x
        by (rule new_frames_later [OF st(3) _ _ _ M st(8) that]) (use st(6) l(7) in auto)
      then have "\<forall>x \<in> new_frames base (length (sent @ take (k + j) buf)) n2 as. carries dhost base (sent @ take (k + j) buf) False x"
        using carries_append unfolding e(1) [symmetric] by blast
      moreover have "tcp_tx_send_loop s n buf push ret = Some (ret2, s2, n2, drop (k + j) buf)"
        using False st(1) go l(1) e(2) by (subst tcp_tx_send_loop.simps) simp
      ultimately show ?thesis using l(2-9) st(2,5-7) unfolding e
        by (intro exI [of _ ret2] exI [of _ s2] exI [of _ n2] exI [of _ "k + j"] exI [of _ "as @ bs"]) auto
    qed
  qed
qed

text \<open>\<^verbatim>\<open>tcp_tx_send\<close>, pushed or not, with a pending buffer or none, and with as many free buffers as there are: it never fails an assertion, and what it
  reports as sent is what has become part of the stream.\<close>

lemma tx_send_inv:
  assumes "snd_inv base (length sent + length buf) sent False s n" "can_send s n dhost" "ESTABLISHED \<le> state (pcb s)"
  shows "\<exists>ret s' n' as. tcp_tx_send s n buf push = Some (ret, s', n') \<and> nat ret \<le> length buf \<and>
    snd_inv base (length sent + length buf) (sent @ take (nat ret) buf) False s' n' \<and> tx_queue n' = tx_queue n @ as \<and>
    (\<forall>x \<in> new_frames base (length (sent @ take (nat ret) buf)) n' as. carries dhost base (sent @ take (nat ret) buf) False x)"
proof -
  obtain ret s' n' k as where l: "tcp_tx_send_loop s n buf push 0 = Some (ret, s', n', drop k buf)" "k \<le> length buf"
      "snd_inv base (length sent + length buf) (sent @ take k buf) False s' n'" "tx_queue n' = tx_queue n @ as"
      "\<forall>x \<in> new_frames base (length (sent @ take k buf)) n' as. carries dhost base (sent @ take k buf) False x" "ret \<le> 0"
    using send_loop_inv [OF assms(1) _ assms(2), of buf 0 push] by auto
  define r where "r = (if 0 < length buf - length (drop k buf) then int (length buf - length (drop k buf)) else ret)"
  have "nat r = k" using l(2,6) by (cases "k = 0") (auto simp: r_def)
  moreover have "tcp_tx_send s n buf push = Some (r, s', n')" using l(1) assms(3) by (simp add: tcp_tx_send_def r_def)
  ultimately show ?thesis using l(2-5) by (intro exI [of _ r] exI [of _ s'] exI [of _ n'] exI [of _ as]) (simp only: simp_thms)
qed

section \<open>Control segments and acknowledgements\<close>

lemma snd_inv_frame:
  assumes "snd_inv base M sent fin s n" "free_ok n'" "snd_nxt (pcb s') = snd_nxt (pcb s)" "snd_una (pcb s') = snd_una (pcb s)" "txq s' = txq s"
    "tx_pending s' = tx_pending s"
    "\<And>b. b \<in> set (txq s) \<Longrightarrow> b \<notin> set (tx_free n') \<and> (bufs n' b = bufs n b \<or> (\<exists>p. txq_buf base sent fin (bufs n' b) p \<and> M < p + 2 ^ 30))"
    "\<And>b. tx_pending s = Some b \<Longrightarrow> b \<notin> set (tx_free n') \<and> bufs n' b = bufs n b"
  shows "snd_inv base M sent fin s' n'"
proof -
  have "b \<notin> set (tx_free n') \<and> (\<exists>p. txq_buf base sent fin (bufs n' b) p \<and> M < p + 2 ^ 30)" if "b \<in> set (txq s)" for b
    using assms(7) [OF that] snd_inv_txq [OF assms(1) that] by metis
  then show ?thesis using assms(1-6,8) by (simp add: snd_inv_def)
qed

lemma alloc_apart:
  assumes "snd_inv base M sent fin s n" "tx_free n = a # as"
  shows "a \<notin> set (txq s)" "tx_pending s \<noteq> Some a" "distinct as" "a \<notin> set as" "\<forall>b \<in> set (a # as). length (m_head (bufs n b)) = 1920"
    "\<And>b. b \<in> set (txq s) \<or> tx_pending s = Some b \<Longrightarrow> b \<notin> set (a # as)"
  using assms by (auto simp: snd_inv_def free_ok_def)

text \<open>A segment without text, in a new buffer.\<close>

lemma tx_empty_spec:
  assumes "m_data m = 128" "m_len m = 0" "mbuf_ok m" "can_send s n dhost" "tcp_push_tcphdr s (set_buf n a m) a flags 0 = Some (s1, n1)"
    "\<And>m'. mbuf_ok m' \<Longrightarrow> mbuf_ok (f m') \<and> mbuf_data (f m') = mbuf_data m' \<and> m_data (f m') = m_data m' \<and> transport_off (f m') = transport_off m'"
  shows "\<exists>n'. net_tx_ip (set_buf (n1\<lparr>ticks := t\<rparr>) a (f (bufs n1 a))) a IPPROTO_TCP (na_ip (raddr s)) = Some (0, n') \<and>
    s1 = s\<lparr>tx_last_ack := rcv_nxt (pcb s), tx_last_win := ucast (rcv_wnd (pcb s))\<rparr> \<and> tx_queue n' = tx_queue n @ [a] \<and> tx_same n n' \<and>
    (\<forall>b. b \<noteq> a \<longrightarrow> bufs n' b = bufs n b) \<and> seg_frame s dhost (io_mac n) (seg_seq m) flags [] (frame n' a) \<and> mbuf_ok (bufs n' a) \<and>
    m_data (bufs n' a) = 56 \<and> (\<exists>m'. buf_view m' = buf_view (m\<lparr>transport_off := 108\<rparr>) \<and> buf_view (bufs n' a) = buf_view (f m')) \<and>
    seg_text (bufs n' a) = [] \<and> 72 \<le> m_len (bufs n' a)"
proof -
  have r: "20 \<le> m_data m" "m_data m \<le> 65535" "mbuf_data m = []" using assms(1,2) by (simp_all add: mbuf_data_def)
  obtain m1 where m1: "s1 = s\<lparr>tx_last_ack := rcv_nxt (pcb s), tx_last_win := ucast (rcv_wnd (pcb s))\<rparr>" "n1 = set_buf n a m1" "mbuf_ok m1"
      "m_data m1 + 20 = m_data m" "transport_off m1 = m_data m1" "buf_view m1 = buf_view (m\<lparr>transport_off := m_data m1\<rparr>)"
      "tcp_segment (na_port (laddr s)) (na_port (raddr s)) (seg_seq m) (rcv_nxt (pcb s)) flags (ucast (rcv_wnd (pcb s))) [] (mbuf_data m1)"
    using push_hdr_spec [OF assms(3) r(1,2), of s n a flags 0] assms(5) r(3) by auto
  note f = assms(6) [OF m1(3)]
  define n2 where "n2 = set_buf (n1\<lparr>ticks := t\<rparr>) a (f m1)"
  have n2: "bufs n2 a = f m1" "\<forall>b. b \<noteq> a \<longrightarrow> bufs n2 b = bufs n b" "tx_same n n2" "tx_queue n2 = tx_queue n"
    by (simp_all add: n2_def m1(2) set_buf_def tx_same_def tx_queue_def)
  have cs: "can_send s n2 dhost" using n2(3) by (intro can_send_same [OF assms(4)]) (simp_all add: tx_same_def)
  have m2: "mbuf_ok (f m1)" "52 \<le> m_data (f m1)" "transport_off (f m1) = m_data (f m1)" "mbuf_data (f m1) = mbuf_data m1" "m_data (f m1) = 108"
    using f m1(4,5) assms(1) by simp_all
  obtain n3 where n3: "net_tx_ip n2 a IPPROTO_TCP (na_ip (raddr s)) = Some (0, n3)" "tx_queue n3 = tx_queue n2 @ [a]" "tx_same n2 n3"
      "\<forall>b. b \<noteq> a \<longrightarrow> bufs n3 b = bufs n2 b" "seg_frame s dhost (io_mac n2) (seg_seq m) flags [] (frame n3 a)" "mbuf_ok (bufs n3 a)"
      "m_data (bufs n3 a) + 52 = m_data (f m1)" "buf_view (bufs n3 a) = buf_view (f m1)" "seg_text (bufs n3 a) = []" "72 \<le> m_len (bufs n3 a)"
    using tx_hdr_spec [OF n2(1) m2(1-3) cs] m1(7) m2(4) by metis
  have "buf_view m1 = buf_view (m\<lparr>transport_off := 108\<rparr>)" "io_mac n2 = io_mac n" "bufs n1 a = m1" using m1(2,4,6) assms(1) n2(3) by (simp_all add: tx_same_def)
  then show ?thesis using n3 n2 m1(1) m2(5) tx_same_trans [OF n2(3) n3(3)] unfolding n2_def by (intro exI [of _ n3]) auto
qed

lemma tx_ctl_inv:
  assumes "snd_inv base (length sent) sent False s n" "can_send s n dhost"
  shows "\<exists>ret s' n' as. tcp_tx_ctl s n (TCP_FIN OR TCP_ACK) = Some (ret, s', n') \<and> snd_inv base (length sent) sent (ret = 0) s' n' \<and>
    tx_queue n' = tx_queue n @ as \<and> (\<forall>x \<in> new_frames base (snd_pos sent (ret = 0)) n' as. carries dhost base sent (ret = 0) x)"
proof (cases "tx_free n")
  case Nil
  then show ?thesis using assms(1)
    by (intro exI [of _ "- ENOMEM"] exI [of _ s] exI [of _ n] exI [of _ "[]"]) (simp add: tcp_tx_ctl_def net_tx_alloc_mbuf_def new_frames_def)
next
  case (Cons a as)
  note ap = alloc_apart [OF assms(1) Cons]
  let ?fl = "TCP_FIN OR TCP_ACK" and ?q = "base + of_nat (length sent) :: u32"
  have nx: "snd_nxt (pcb s) = ?q" using assms(1) by (simp add: snd_inv_def snd_pos_def)
  have "length (m_head (bufs n a)) = 1920" using ap(5) by simp
  then obtain m where m: "net_tx_alloc_mbuf n = Some (Some a, set_buf (n\<lparr>tx_free := as\<rparr>) a m)" "mbuf_ok m" "m_data m = 128" "head_len m = 1920" "m_len m = 0"
    using tx_alloc_spec [OF Cons] by metis
  define m1 where "m1 = m\<lparr>txflags := OLFLAG_TCP_CHKSUM, seg_seq := ?q, seg_end := ?q + 1, m_flags := ?fl\<rparr>"
  define n0 where "n0 = n\<lparr>tx_free := as\<rparr>"
  have m1: "mbuf_ok m1" "m_data m1 = 128" "m_len m1 = 0" "20 \<le> m_data m1" "m_data m1 \<le> 65535" using m by (simp_all add: m1_def mbuf_ok_def head_len_def)
  have cs: "can_send s n0 dhost" by (rule can_send_same [OF assms(2)]) (simp_all add: n0_def)
  obtain s1 n1 where p: "tcp_push_tcphdr s (set_buf n0 a m1) a ?fl 0 = Some (s1, n1)" using push_hdr_spec [OF m1(1,4,5)] by metis
  let ?f = "\<lambda>m. m\<lparr>m_timestamp := clock n1 (ticks n1), m_ref := 2, m_release := tcp_tx_release_mbuf\<rparr>"
  obtain n' m' where t: "net_tx_ip (set_buf (n1\<lparr>ticks := ticks n1 + 1\<rparr>) a (?f (bufs n1 a))) a IPPROTO_TCP (na_ip (raddr s)) = Some (0, n')"
      "s1 = s\<lparr>tx_last_ack := rcv_nxt (pcb s), tx_last_win := ucast (rcv_wnd (pcb s))\<rparr>" "tx_queue n' = tx_queue n0 @ [a]" "tx_same n0 n'"
      "\<forall>b. b \<noteq> a \<longrightarrow> bufs n' b = bufs n0 b" "seg_frame s dhost (io_mac n0) (seg_seq m1) ?fl [] (frame n' a)" "mbuf_ok (bufs n' a)" "m_data (bufs n' a) = 56"
      "buf_view m' = buf_view (m1\<lparr>transport_off := 108\<rparr>)" "buf_view (bufs n' a) = buf_view (?f m')" "seg_text (bufs n' a) = []" "72 \<le> m_len (bufs n' a)"
    using tx_empty_spec [OF m1(2,3,1) cs p, of ?f "ticks n1 + 1"] by (auto simp: mbuf_ok_def head_len_def mbuf_data_def)
  let ?s = "s1\<lparr>pcb := (pcb s1)\<lparr>snd_nxt := ?q + 1\<rparr>, txq := txq s1 @ [a]\<rparr>"
  have v: "head_len (bufs n' a) = 1920" "transport_off (bufs n' a) = 108" "seg_seq (bufs n' a) = ?q" "seg_end (bufs n' a) = ?q + 1" "m_flags (bufs n' a) = ?fl"
      "m_release (bufs n' a) = tcp_tx_release_mbuf"
    using t(9,10) m(4) by (auto simp: buf_view_def head_len_def m1_def)
  have fl: "?fl AND TCP_FIN \<noteq> 0" "?fl AND TCP_SYN = 0" by (simp_all add: TCP_FIN_def TCP_ACK_def TCP_SYN_def)
  have tx: "text_at sent True ?fl [] (length sent)" by (simp add: text_at_def)
  have tb: "txq_buf base sent True (bufs n' a) (length sent)" using v t(7,8,11,12) fl tx by (simp add: txq_buf_def fin_count_def algebra_simps)
  have "tcp_tx_ctl s n ?fl = Some (0, ?s, n')"
    using m(1) p t(1,2) nx by (simp add: tcp_tx_ctl_def Let_def n0_def m1_def set_buf_def now_us_def tx_queued_def)
  moreover have "snd_inv base (length sent) sent True ?s n'"
  proof -
    have f: "tx_free n' = as" using t(4) by (simp add: tx_same_def n0_def)
    have b: "bufs n' b = bufs n b" if "b \<noteq> a" for b using t(5) that by (simp add: n0_def)
    have "free_ok n'" using ap(3-5) f b unfolding free_ok_def by (metis list.set_intros(2))
    moreover have "c \<notin> set as \<and> (\<exists>p. txq_buf base sent True (bufs n' c) p \<and> length sent < p + 2 ^ 30)" if "c \<in> set (txq s)" for c
    proof -
      have "c \<noteq> a" "c \<notin> set as" using ap(6) [of c] that by auto
      then show ?thesis using snd_inv_txq [OF assms(1) that] b [of c] text_at_fin unfolding txq_buf_def by metis
    qed
    moreover have "c \<noteq> a \<and> c \<notin> set as \<and> bufs n' c = bufs n c" if "tx_pending s = Some c" for c using ap(6) [of c] that b [of c] by auto
    moreover have "\<exists>u. snd_una (pcb s) = base + of_nat u \<and> u \<le> length sent + 1 \<and> length sent < u + 2 ^ 30"
      using assms(1) by (auto simp: snd_inv_def snd_pos_def intro: le_SucI)
    ultimately show ?thesis using assms(1) tb ap(4) f t(2) unfolding snd_inv_def by (auto simp: snd_pos_def algebra_simps)
  qed
  moreover have "carries dhost base sent True (length sent, frame n' a)"
    by (rule carriesI [OF _ cs refl tx]) (use t(6) in \<open>simp add: m1_def\<close>)
  moreover have "seq_position base (snd_pos sent True) (seg_seq (bufs n' a)) = length sent" unfolding v(3) by (rule seq_position_at) (simp_all add: snd_pos_def)
  ultimately show ?thesis using t(3) by (intro exI [of _ 0] exI [of _ ?s] exI [of _ n'] exI [of _ "[a]"]) (simp add: new_frames_def n0_def tx_queue_def)
qed

lemma tx_ack_inv:
  assumes "snd_inv base M sent fin s n" "can_send s n dhost"
  shows "\<exists>ret s' n' as. tcp_tx_ack s n = Some (ret, s', n') \<and> snd_inv base M sent fin s' n' \<and>
    tx_queue n' = tx_queue n @ as \<and> (\<forall>x \<in> new_frames base (snd_pos sent fin) n' as. carries dhost base sent fin x)"
proof (cases "tx_free n")
  case Nil
  then show ?thesis using assms(1)
    by (intro exI [of _ "- ENOMEM"] exI [of _ s] exI [of _ n] exI [of _ "[]"]) (simp add: tcp_tx_ack_def net_tx_alloc_mbuf_def new_frames_def)
next
  case (Cons a as)
  note ap = alloc_apart [OF assms(1) Cons]
  have "length (m_head (bufs n a)) = 1920" using ap(5) by simp
  then obtain m where m: "net_tx_alloc_mbuf n = Some (Some a, set_buf (n\<lparr>tx_free := as\<rparr>) a m)" "mbuf_ok m" "m_data m = 128" "head_len m = 1920" "m_len m = 0"
    using tx_alloc_spec [OF Cons] by metis
  define m1 where "m1 = m\<lparr>txflags := OLFLAG_TCP_CHKSUM, seg_seq := snd_nxt (pcb s)\<rparr>"
  define n0 where "n0 = n\<lparr>tx_free := as\<rparr>"
  have m1: "mbuf_ok m1" "m_data m1 = 128" "m_len m1 = 0" "20 \<le> m_data m1" "m_data m1 \<le> 65535" using m by (simp_all add: m1_def mbuf_ok_def head_len_def)
  have cs: "can_send s n0 dhost" by (rule can_send_same [OF assms(2)]) (simp_all add: n0_def)
  obtain s1 n1 where p: "tcp_push_tcphdr s (set_buf n0 a m1) a TCP_ACK 0 = Some (s1, n1)" using push_hdr_spec [OF m1(1,4,5)] by metis
  have e: "set_buf (n1\<lparr>ticks := ticks n1\<rparr>) a (bufs n1 a) = n1" by (cases n1) (simp add: set_buf_def)
  obtain n' where t: "net_tx_ip n1 a IPPROTO_TCP (na_ip (raddr s)) = Some (0, n')"
      "s1 = s\<lparr>tx_last_ack := rcv_nxt (pcb s), tx_last_win := ucast (rcv_wnd (pcb s))\<rparr>" "tx_queue n' = tx_queue n0 @ [a]" "tx_same n0 n'"
      "\<forall>b. b \<noteq> a \<longrightarrow> bufs n' b = bufs n0 b" "seg_frame s dhost (io_mac n0) (seg_seq m1) TCP_ACK [] (frame n' a)"
    using tx_empty_spec [OF m1(2,3,1) cs p, of "\<lambda>m. m" "ticks n1"] unfolding e by auto
  have "tcp_tx_ack s n = Some (0, s1, n')"
    using m(1) p t(1,2) by (simp add: tcp_tx_ack_def n0_def m1_def set_buf_def)
  moreover have "snd_inv base M sent fin s1 n'"
  proof (rule snd_inv_frame [OF assms(1)])
    have f: "tx_free n' = as" using t(4) by (simp add: tx_same_def n0_def)
    have b: "bufs n' b = bufs n b" if "b \<noteq> a" for b using t(5) that by (simp add: n0_def)
    show "free_ok n'" using ap(3-5) f b unfolding free_ok_def by (metis list.set_intros(2))
    show "c \<notin> set (tx_free n') \<and> (bufs n' c = bufs n c \<or> (\<exists>p. txq_buf base sent fin (bufs n' c) p \<and> M < p + 2 ^ 30))" if "c \<in> set (txq s)" for c
      using ap(6) [of c] that b [of c] f by auto
    show "c \<notin> set (tx_free n') \<and> bufs n' c = bufs n c" if "tx_pending s = Some c" for c using ap(6) [of c] that b [of c] f by auto
  qed (simp_all add: t(2))
  moreover have "carries dhost base sent fin (q, frame n' a)" for q
    unfolding carries_def prod.case using t(6) cs
    by (intro exI [of _ s] exI [of _ "io_mac n0"] exI [of _ "seg_seq m1"] exI [of _ TCP_ACK] exI [of _ "[]"]) (simp add: can_send_def TCP_ACK_def TCP_FIN_def)
  ultimately show ?thesis using t(3) by (intro exI [of _ 0] exI [of _ s1] exI [of _ n'] exI [of _ "[a]"]) (simp add: new_frames_def n0_def tx_queue_def)
qed

section \<open>Retransmission\<close>

text \<open>The buffer that is sent again, stripped of its headers: the one of the transmit queue itself, or a copy in a new buffer.\<close>

definition again_buf :: "mbuf \<Rightarrow> mbuf \<Rightarrow> bool" where
  "again_buf m m' \<longleftrightarrow> mbuf_ok m' \<and> head_len m' = 1920 \<and> 128 \<le> m_data m' \<and> m_data m' + m_len m' \<le> 1920 \<and> mbuf_data m' = seg_text m \<and>
     seg_seq m' = seg_seq m \<and> seg_end m' = seg_end m \<and> m_flags m' = m_flags m"

lemma txq_text:
  assumes "txq_buf base sent fin m p"
  shows "length (seg_text m) = m_data m + m_len m - (transport_off m + 20)" "transport_off m + 20 + length (seg_text m) \<le> 1920"
    "seg_text m = take (length (seg_text m)) (drop (transport_off m + 20) (m_head m))"
proof -
  have a: "mbuf_ok m" "head_len m = 1920" "m_data m \<le> transport_off m + 20" "transport_off m + 20 \<le> m_data m + m_len m" using assms by (simp_all add: txq_buf_def)
  have "length (seg_text m) = m_len m - (transport_off m + 20 - m_data m)" using a(1) by (simp add: seg_text_def)
  then show l: "length (seg_text m) = m_data m + m_len m - (transport_off m + 20)" using a(3,4) by simp
  show "transport_off m + 20 + length (seg_text m) \<le> 1920" using a l by (auto simp: mbuf_ok_def)
  have "seg_text m = take (m_len m - (transport_off m + 20 - m_data m)) (drop (transport_off m + 20) (m_head m))"
    using a(3) by (simp add: seg_text_def mbuf_data_def drop_take)
  then show "seg_text m = take (length (seg_text m)) (drop (transport_off m + 20) (m_head m))" using l a(3,4) by (simp add: add.commute)
qed

lemma again_in_place:
  assumes "txq_buf base sent fin m p"
  shows "\<exists>m'. mbuf_reset m (transport_off m + 20) = Some m' \<and> again_buf m (m'\<lparr>m_ref := r\<rparr>) \<and> m_release m' = tcp_tx_release_mbuf \<and>
    transport_off m' = transport_off m \<and> m_data m' = transport_off m + 20"
proof -
  note t = txq_text [OF assms]
  have a: "mbuf_ok m" "head_len m = 1920" "transport_off m + 20 \<le> m_data m + m_len m" "108 \<le> transport_off m" "m_release m = tcp_tx_release_mbuf"
    using assms by (simp_all add: txq_buf_def)
  let ?m = "m\<lparr>m_data := transport_off m + 20, m_len := m_data m + m_len m - (transport_off m + 20)\<rparr>"
  have "m_data m + m_len m < 2 ^ 32" using a(1) by (auto simp: mbuf_ok_def)
  then have "mbuf_reset m (transport_off m + 20) = Some ?m" using a(3) by (simp add: mbuf_reset_def Let_def)
  moreover have "mbuf_data ?m = seg_text m" using t by (simp add: mbuf_data_def)
  then have "again_buf m (?m\<lparr>m_ref := r\<rparr>)" using a by (auto simp: again_buf_def mbuf_ok_def head_len_def mbuf_data_def)
  ultimately show ?thesis using a(5) by (intro exI [of _ ?m]) simp
qed

lemma again_copy:
  assumes "txq_buf base sent fin m p" "mbuf_ok m0" "m_data m0 = 128" "m_len m0 = 0" "head_len m0 = 1920"
  shows "mbuf_read m (transport_off m + 20) (length (seg_text m)) = Some (seg_text m)"
    "\<exists>m'. mbuf_put_bytes m0 (seg_text m) = Some m' \<and>
       again_buf m (m'\<lparr>m_flags := m_flags m, seg_seq := seg_seq m, seg_end := seg_end m, txflags := fl\<rparr>) \<and> m_release m' = m_release m0"
proof -
  note t = txq_text [OF assms(1)]
  have a: "head_len m = 1920" "length (seg_text m) \<le> TCP_MSS" using assms(1) by (auto simp: txq_buf_def text_at_def)
  show "mbuf_read m (transport_off m + 20) (length (seg_text m)) = Some (seg_text m)" using t a(1) by (simp add: mbuf_read_def)
  have "m_data m0 + m_len m0 + length (seg_text m) \<le> head_len m0" using a(2) assms(3-5) by (simp add: TCP_MSS_def)
  then obtain m' where m': "mbuf_put_bytes m0 (seg_text m) = Some m'" "mbuf_ok m'" "mbuf_data m' = mbuf_data m0 @ seg_text m" "m_data m' = m_data m0"
      "head_len m' = head_len m0" "m' = m0\<lparr>m_len := m_len m0 + length (seg_text m), m_head := m_head m'\<rparr>"
    using mbuf_put_data [OF assms(2)] by metis
  have f: "m_release m' = m_release m0" "m_len m' = length (seg_text m)" using assms(4) by (subst m'(6), simp)+
  have "mbuf_data m0 = []" using assms(4) by (simp add: mbuf_data_def)
  then have "again_buf m (m'\<lparr>m_flags := m_flags m, seg_seq := seg_seq m, seg_end := seg_end m, txflags := fl\<rparr>)"
    using m'(2-5) f(2) a(2) assms(3,5) by (auto simp: again_buf_def mbuf_ok_def head_len_def mbuf_data_def TCP_MSS_def)
  then show "\<exists>m'. mbuf_put_bytes m0 (seg_text m) = Some m' \<and>
       again_buf m (m'\<lparr>m_flags := m_flags m, seg_seq := seg_seq m, seg_end := seg_end m, txflags := fl\<rparr>) \<and> m_release m' = m_release m0"
    using m'(1) f(1) by blast
qed

lemma txq_l4len:
  assumes "txq_buf base sent fin m p"
  shows "unat (ucast (seg_end m - seg_seq m) - (if m_flags m AND (TCP_SYN OR TCP_FIN) \<noteq> 0 then 1 else 0) :: u16) = length (seg_text m)"
proof -
  let ?k = "length (seg_text m)" and ?f = "fin_count (m_flags m)"
  have a: "seg_seq m = base + of_nat p" "seg_end m = base + of_nat (p + ?k + ?f)" "m_flags m AND TCP_SYN = 0" "?k \<le> 1460"
    using assms by (auto simp: txq_buf_def text_at_def TCP_MSS_def)
  have "m_flags m AND (TCP_SYN OR TCP_FIN) = m_flags m AND TCP_FIN" using a(3) by (simp add: bit.conj_disj_distrib)
  then have f: "(if m_flags m AND (TCP_SYN OR TCP_FIN) \<noteq> 0 then 1 else 0 :: u16) = of_nat ?f" by (simp add: fin_count_def)
  have "seg_end m - seg_seq m = of_nat (?k + ?f)" unfolding a by simp
  then have "ucast (seg_end m - seg_seq m) = (of_nat (unat (of_nat (?k + ?f) :: u32)) :: u16)" by (simp only: of_nat_unat)
  moreover have "?k + ?f < 2 ^ 32" using a(4) by (simp add: fin_count_def)
  then have "unat (of_nat (?k + ?f) :: u32) = ?k + ?f" by (simp add: unat_of_nat del: of_nat_add)
  ultimately have "ucast (seg_end m - seg_seq m) = (of_nat (?k + ?f) :: u16)" by (simp only:)
  then have "ucast (seg_end m - seg_seq m) - of_nat ?f = (of_nat ?k :: u16)" by simp
  then show ?thesis unfolding f using a(4) by (simp add: unat_of_nat)
qed

lemma retransmit_buffer_spec:
  assumes "snd_inv base M sent fin s n" "a \<in> set (txq s)" "txq_buf base sent fin (bufs n a) p" "unat l4len = length (seg_text (bufs n a))"
  shows "retransmit_buffer n a l4len = Some (None, n) \<or>
    (\<exists>m'. retransmit_buffer n a l4len = Some (Some a, set_buf n a m') \<and> again_buf (bufs n a) m' \<and> m_release m' = tcp_tx_release_mbuf \<and> m_ref m' = 2 \<and>
       transport_off m' = transport_off (bufs n a) \<and> m_data m' = transport_off (bufs n a) + 20) \<or>
    (\<exists>b as m'. tx_free n = b # as \<and> b \<noteq> a \<and> retransmit_buffer n a l4len = Some (Some b, set_buf (n\<lparr>tx_free := as\<rparr>) b m') \<and> again_buf (bufs n a) m' \<and>
       m_release m' = net_tx_release_mbuf)"
proof (cases "m_ref (bufs n a) = 1")
  case True
  obtain m' where m': "mbuf_reset (bufs n a) (transport_off (bufs n a) + 20) = Some m'" "again_buf (bufs n a) (m'\<lparr>m_ref := 2\<rparr>)" "m_release m' = tcp_tx_release_mbuf"
      "transport_off m' = transport_off (bufs n a)" "m_data m' = transport_off (bufs n a) + 20"
    using again_in_place [OF assms(3)] by blast
  then show ?thesis using True by (intro disjI2 disjI1 exI [of _ "m'\<lparr>m_ref := 2\<rparr>"]) (simp add: retransmit_buffer_def Let_def)
next
  case False
  show ?thesis
  proof (cases "tx_free n")
    case Nil
    then show ?thesis using False by (simp add: retransmit_buffer_def net_tx_alloc_mbuf_def Let_def)
  next
    case (Cons b as)
    note ap = alloc_apart [OF assms(1) Cons]
    have "length (m_head (bufs n b)) = 1920" using ap(5) by simp
    then obtain m0 where m0: "net_tx_alloc_mbuf n = Some (Some b, set_buf (n\<lparr>tx_free := as\<rparr>) b m0)" "mbuf_ok m0" "m_data m0 = 128" "head_len m0 = 1920" "m_len m0 = 0"
        "m_release m0 = net_tx_release_mbuf"
      using Cons by (auto simp: net_tx_alloc_mbuf_def mbuf_init_def MBUF_DEFAULT_HEADROOM_def mbuf_ok_def head_len_def)
    note c = again_copy [OF assms(3) m0(2,3,5,4)]
    obtain m' where m': "mbuf_put_bytes m0 (seg_text (bufs n a)) = Some m'" "m_release m' = net_tx_release_mbuf"
        "again_buf (bufs n a) (m'\<lparr>m_flags := m_flags (bufs n a), seg_seq := seg_seq (bufs n a), seg_end := seg_end (bufs n a), txflags := OLFLAG_TCP_CHKSUM\<rparr>)"
      using c(2) m0(6) by metis
    let ?m = "m'\<lparr>m_flags := m_flags (bufs n a), seg_seq := seg_seq (bufs n a), seg_end := seg_end (bufs n a), txflags := OLFLAG_TCP_CHKSUM\<rparr>"
    have "retransmit_buffer n a l4len = Some (Some b, set_buf (n\<lparr>tx_free := as\<rparr>) b ?m)"
      using False m0(1) c(1) m'(1) assms(4) by (simp add: retransmit_buffer_def Let_def set_buf_def)
    moreover have "b \<noteq> a" using ap(1) assms(2) by auto
    ultimately show ?thesis using m'(2,3) Cons by (intro disjI2 exI [of _ b] exI [of _ as] exI [of _ ?m]) simp
  qed
qed

text \<open>The header goes in front again, and the segment to the peer.\<close>

lemma send_again:
  assumes "mbuf_ok m" "128 \<le> m_data m" "m_data m \<le> 1920" "can_send s n dhost" "seg_seq m = base + of_nat q" "text_at sent fin (m_flags m) (mbuf_data m) q"
  shows "\<exists>n1 n'. tcp_push_tcphdr s (set_buf n b m) b (m_flags m) l4len = Some (s\<lparr>tx_last_ack := rcv_nxt (pcb s), tx_last_win := ucast (rcv_wnd (pcb s))\<rparr>, n1) \<and>
    net_tx_ip n1 b IPPROTO_TCP (na_ip (raddr s)) = Some (0, n') \<and> tx_queue n' = tx_queue n @ [b] \<and> tx_same n n' \<and> (\<forall>c. c \<noteq> b \<longrightarrow> bufs n' c = bufs n c) \<and>
    carries dhost base sent fin (q, frame n' b) \<and> seg_seq (bufs n' b) = base + of_nat q \<and>
    (head_len m = 1920 \<longrightarrow> m_release m = tcp_tx_release_mbuf \<longrightarrow> m_flags m AND TCP_SYN = 0 \<longrightarrow>
      seg_end m = base + of_nat (q + length (mbuf_data m) + fin_count (m_flags m)) \<longrightarrow> txq_buf base sent fin (bufs n' b) q)"
proof -
  have r: "20 \<le> m_data m" "m_data m \<le> 65535" using assms(2,3) by simp_all
  obtain m1 where m1: "tcp_push_tcphdr s (set_buf n b m) b (m_flags m) l4len =
        Some (s\<lparr>tx_last_ack := rcv_nxt (pcb s), tx_last_win := ucast (rcv_wnd (pcb s))\<rparr>, set_buf n b m1)" "mbuf_ok m1" "m_data m1 + 20 = m_data m"
      "transport_off m1 = m_data m1" "buf_view m1 = buf_view (m\<lparr>transport_off := m_data m1\<rparr>)"
      "tcp_segment (na_port (laddr s)) (na_port (raddr s)) (seg_seq m) (rcv_nxt (pcb s)) (m_flags m) (ucast (rcv_wnd (pcb s))) (mbuf_data m) (mbuf_data m1)"
    using push_hdr_spec [OF assms(1) r, of s n b "m_flags m" l4len] by blast
  have n1: "bufs (set_buf n b m1) b = m1" "tx_same n (set_buf n b m1)" by simp_all
  have cs: "can_send s (set_buf n b m1) dhost" by (rule can_send_same [OF assms(4)]) (simp_all add: set_buf_def)
  have d: "52 \<le> m_data m1" using m1(3) assms(2) by simp
  obtain n' where n': "net_tx_ip (set_buf n b m1) b IPPROTO_TCP (na_ip (raddr s)) = Some (0, n')" "tx_queue n' = tx_queue n @ [b]" "tx_same (set_buf n b m1) n'"
      "\<forall>c. c \<noteq> b \<longrightarrow> bufs n' c = bufs n c" "seg_frame s dhost (io_mac n) (seg_seq m) (m_flags m) (mbuf_data m) (frame n' b)" "mbuf_ok (bufs n' b)"
      "m_data (bufs n' b) + 52 = m_data m1" "buf_view (bufs n' b) = buf_view m1" "seg_text (bufs n' b) = mbuf_data m" "72 \<le> m_len (bufs n' b)"
    using tx_hdr_spec [OF n1(1) m1(2) d m1(4) cs m1(6)] by auto
  have v: "head_len (bufs n' b) = head_len m" "transport_off (bufs n' b) = m_data m1" "seg_seq (bufs n' b) = base + of_nat q" "seg_end (bufs n' b) = seg_end m"
      "m_flags (bufs n' b) = m_flags m" "m_release (bufs n' b) = m_release m"
    using n'(8) m1(4,5) assms(5) by (auto simp: buf_view_def head_len_def)
  have "txq_buf base sent fin (bufs n' b) q" if "head_len m = 1920" "m_release m = tcp_tx_release_mbuf" "m_flags m AND TCP_SYN = 0"
      "seg_end m = base + of_nat (q + length (mbuf_data m) + fin_count (m_flags m))"
    using v n'(6,7,9,10) m1(3) assms(2,6) that by (simp add: txq_buf_def)
  moreover have "carries dhost base sent fin (q, frame n' b)" by (rule carriesI [OF n'(5) [unfolded assms(5)] assms(4) refl assms(6)])
  moreover have "tx_same n n'" using tx_same_trans [OF n1(2) n'(3)] .
  ultimately show ?thesis using m1(1) n'(1,2,4) v(3) by (intro exI [of _ "set_buf n b m1"] exI [of _ n']) blast
qed

text \<open>What \<^verbatim>\<open>tcp_tx_retransmit_one\<close> does with the buffer it sends, by what is acknowledged: nothing of it is left to send, or
  the text from the first position on that is not acknowledged.\<close>

lemma again_position:
  assumes "snd_inv base M sent fin s n" "txq_buf base sent fin m p" "M < p + 2 ^ 30" "again_buf m m'"
  shows "wraps_lte (seg_end m') (snd_una (pcb s)) \<or>
    (\<not> wraps_lte (seg_end m') (snd_una (pcb s)) \<and> (\<exists>q m''.
       (if wraps_lt (seg_seq m') (snd_una (pcb s)) then map_option (\<lambda>m. m\<lparr>seg_seq := snd_una (pcb s)\<rparr>) (mbuf_pull m' (unat (snd_una (pcb s) - seg_seq m'))) else Some m') = Some m'' \<and>
       mbuf_ok m'' \<and> 128 \<le> m_data m'' \<and> m_data m'' \<le> 1920 \<and> head_len m'' = 1920 \<and> seg_seq m'' = base + of_nat q \<and> M < q + 2 ^ 30 \<and> q \<le> length sent \<and>
       m_flags m'' = m_flags m \<and> m_release m'' = m_release m' \<and> text_at sent fin (m_flags m) (mbuf_data m'') q \<and>
       seg_end m'' = base + of_nat (q + length (mbuf_data m'') + fin_count (m_flags m))))"
proof (cases "wraps_lte (seg_end m') (snd_una (pcb s))")
  case False
  let ?k = "length (seg_text m)" and ?f = "fin_count (m_flags m)"
  obtain u where u: "snd_una (pcb s) = base + of_nat u" "u \<le> snd_pos sent fin" "M < u + 2 ^ 30" using assms(1) by (auto simp: snd_inv_def)
  have M: "length sent \<le> M" using assms(1) by (simp add: snd_inv_def)
  have a: "mbuf_ok m'" "head_len m' = 1920" "128 \<le> m_data m'" "m_data m' + m_len m' \<le> 1920" "mbuf_data m' = seg_text m" "m_flags m' = m_flags m"
      "seg_seq m' = base + of_nat p" "seg_end m' = base + of_nat (p + ?k + ?f)"
    using assms(2,4) by (simp_all add: again_buf_def txq_buf_def)
  have t: "text_at sent fin (m_flags m) (seg_text m) p" using assms(2) by (simp add: txq_buf_def)
  then have le: "p + ?k \<le> length sent" "?k \<le> 1460" "?f \<le> 1" "?f = 1 \<longrightarrow> ?k = 0" by (auto simp: text_at_def TCP_MSS_def fin_count_def)
  have ul: "u \<le> length sent + 1" using u(2) by (simp add: snd_pos_def split: if_splits)
  have "near (p + ?k + ?f) u" "near p u" using le u(3) ul M assms(3) by (simp_all add: near_def)
  then have w: "wraps_lte (seg_end m') (snd_una (pcb s)) \<longleftrightarrow> p + ?k + ?f \<le> u" "wraps_lt (seg_seq m') (snd_una (pcb s)) \<longleftrightarrow> p < u"
    unfolding a(7,8) u(1) by (simp_all only: wraps_near)
  then have e: "u < p + ?k + ?f" using False by simp
  have len: "m_len m' = ?k" using mbuf_data_length [OF a(1)] a(5) by simp
  show ?thesis
  proof (cases "p < u")
    case True
    then have "?f = 0" using e le(3,4) by (cases "?f = 1") auto
    then have k: "u - p < ?k" using e True by simp
    have d: "unat (snd_una (pcb s) - seg_seq m') = u - p" unfolding a(7) u(1) using True k le(2) by (intro seq_diff) simp_all
    note pl = mbuf_pull_data [OF a(1), of "u - p"]
    define m2 where "m2 = (mbuf_pull_unchecked m' (u - p))\<lparr>seg_seq := snd_una (pcb s)\<rparr>"
    have pd: "mbuf_pull m' (u - p) = Some (mbuf_pull_unchecked m' (u - p))" "mbuf_ok m2" "mbuf_data m2 = drop (u - p) (seg_text m)"
      using pl k len a(5) by (simp_all add: m2_def mbuf_ok_def head_len_def mbuf_data_def)
    have f: "m_data m2 = m_data m' + (u - p)" "head_len m2 = 1920" "seg_seq m2 = base + of_nat u" "seg_end m2 = seg_end m'" "m_flags m2 = m_flags m" "m_release m2 = m_release m'"
      using a(2,6) u(1) by (simp_all add: m2_def mbuf_pull_unchecked_def head_len_def)
    have x: "text_at sent fin (m_flags m) (mbuf_data m2) u" using text_at_drop [OF t k] pd(3) True by simp
    have "u + length (mbuf_data m2) + ?f = p + ?k + ?f" using pd(3) k True by simp
    then have "seg_end m2 = base + of_nat (u + length (mbuf_data m2) + ?f)" using f(4) a(8) by (simp only:)
    moreover have "(if wraps_lt (seg_seq m') (snd_una (pcb s)) then map_option (\<lambda>m. m\<lparr>seg_seq := snd_una (pcb s)\<rparr>) (mbuf_pull m' (unat (snd_una (pcb s) - seg_seq m'))) else Some m') = Some m2"
      using True w(2) d pd(1) by (simp add: m2_def)
    moreover have "128 \<le> m_data m2" "m_data m2 \<le> 1920" "u \<le> length sent" using f(1) a(3,4) k len le(1) True by simp_all
    ultimately show ?thesis using False pd(2) f(2,3,5,6) u(3) x by (intro disjI2 conjI exI [of _ u] exI [of _ m2])
  next
    case no: False
    have "(if wraps_lt (seg_seq m') (snd_una (pcb s)) then map_option (\<lambda>m. m\<lparr>seg_seq := snd_una (pcb s)\<rparr>) (mbuf_pull m' (unat (snd_una (pcb s) - seg_seq m'))) else Some m') = Some m'"
      using no w(2) by simp
    moreover have "m_data m' \<le> 1920" "p \<le> length sent" "text_at sent fin (m_flags m) (mbuf_data m') p" "seg_end m' = base + of_nat (p + length (mbuf_data m') + ?f)"
      using a(4,5,8) le(1) t by simp_all
    ultimately show ?thesis using False a(1-3,6,7) assms(3) by (intro disjI2 conjI exI [of _ p] exI [of _ m']) (assumption | rule refl)+
  qed
qed simp

text \<open>Whatever becomes of the buffer that is sent again, the others stay as they are.\<close>

lemma snd_inv_again:
  assumes "snd_inv base M sent fin s n" "a \<in> set (txq s)" "\<And>c. c \<noteq> b \<Longrightarrow> bufs n' c = bufs n c" "snd_nxt (pcb s') = snd_nxt (pcb s)"
    "snd_una (pcb s') = snd_una (pcb s)" "txq s' = txq s" "tx_pending s' = tx_pending s"
    "b = a \<and> tx_free n' = tx_free n \<and> txq_buf base sent fin (bufs n' a) q \<and> M < q + 2 ^ 30 \<or>
     tx_free n = b # as \<and> (tx_free n' = as \<or> tx_free n' = tx_free n \<and> length (m_head (bufs n' b)) = 1920)"
  shows "snd_inv base M sent fin s' n'"
  using assms(8)
proof (elim disjE)
  assume b: "b = a \<and> tx_free n' = tx_free n \<and> txq_buf base sent fin (bufs n' a) q \<and> M < q + 2 ^ 30"
  have na: "a \<notin> set (tx_free n)" "tx_pending s \<noteq> Some a" "free_ok n" using assms(1,2) by (auto simp: snd_inv_def)
  have o: "bufs n' c = bufs n c" if "c \<noteq> a" for c using assms(3) b that by simp
  show ?thesis
  proof (rule snd_inv_frame [OF assms(1) _ assms(4-7)])
    show "free_ok n'" by (rule free_ok_frame [OF na(3)]) (use b in simp, metis o na(1))
    show "c \<notin> set (tx_free n') \<and> (bufs n' c = bufs n c \<or> (\<exists>p. txq_buf base sent fin (bufs n' c) p \<and> M < p + 2 ^ 30))" if "c \<in> set (txq s)" for c
      using snd_inv_txq [OF assms(1) that] b o [of c] by (cases "c = a") auto
    show "c \<notin> set (tx_free n') \<and> bufs n' c = bufs n c" if "tx_pending s = Some c" for c
    proof -
      have "c \<noteq> a" using that na(2) by auto
      moreover have "c \<notin> set (tx_free n)" using assms(1) that by (simp add: snd_inv_def)
      ultimately show ?thesis using o b by simp
    qed
  qed
next
  assume b: "tx_free n = b # as \<and> (tx_free n' = as \<or> tx_free n' = tx_free n \<and> length (m_head (bufs n' b)) = 1920)"
  note ap = alloc_apart [OF assms(1) b [THEN conjunct1]]
  have o: "c \<notin> set (tx_free n') \<and> bufs n' c = bufs n c" if "c \<in> set (txq s) \<or> tx_pending s = Some c" for c
    using ap(6) [OF that] b assms(3) [of c] by auto
  show ?thesis
  proof (rule snd_inv_frame [OF assms(1) _ assms(4-7)])
    have "length (m_head (bufs n' c)) = 1920" if "c \<in> set as" for c
    proof -
      have "c \<noteq> b" "length (m_head (bufs n c)) = 1920" using ap(4,5) that by auto
      then show ?thesis using assms(3) [of c] by simp
    qed
    then show "free_ok n'" using b ap(3,4) by (auto simp: free_ok_def)
  qed (use o in blast)+
qed

lemma retransmit_one_again:
  assumes "l4len = ucast (seg_end (bufs n a) - seg_seq (bufs n a)) - (if m_flags (bufs n a) AND (TCP_SYN OR TCP_FIN) \<noteq> 0 then 1 else 0)"
    "retransmit_buffer n a l4len = Some (Some b, n1)" "m' = bufs n1 b" "\<not> wraps_lte (seg_end m') (snd_una (pcb s))"
    "(if wraps_lt (seg_seq m') (snd_una (pcb s)) then map_option (\<lambda>m. m\<lparr>seg_seq := snd_una (pcb s)\<rparr>) (mbuf_pull m' (unat (snd_una (pcb s) - seg_seq m'))) else Some m') = Some m''"
    "tcp_push_tcphdr s (set_buf n1 b m'') b (m_flags m'') l4len = Some (s', n2)" "net_tx_ip n2 b IPPROTO_TCP (na_ip (raddr s')) = Some (0, n')"
  shows "tcp_tx_retransmit_one s n a = Some (0, s', n')"
  unfolding tcp_tx_retransmit_one_def Let_def assms(1) [symmetric] assms(2) using assms(4-7) [unfolded assms(3)] by (simp split del: if_split)

lemma retransmit_inv:
  assumes "snd_inv base M sent fin s n" "can_send s n dhost" "a \<in> set (txq s)"
  shows "\<exists>ret s' n' as. tcp_tx_retransmit_one s n a = Some (ret, s', n') \<and> snd_inv base M sent fin s' n' \<and> tx_queue n' = tx_queue n @ as \<and>
    (\<forall>x \<in> new_frames base (snd_pos sent fin) n' as. carries dhost base sent fin x)"
proof -
  let ?m = "bufs n a" and ?u = "snd_una (pcb s)"
  let ?l = "ucast (seg_end ?m - seg_seq ?m) - (if m_flags ?m AND (TCP_SYN OR TCP_FIN) \<noteq> 0 then 1 else 0) :: u16"
  obtain p where p: "txq_buf base sent fin ?m p" "M < p + 2 ^ 30" using snd_inv_txq [OF assms(1,3)] by blast
  have M: "length sent \<le> M" using assms(1) by (simp add: snd_inv_def)
  text \<open>The state with the buffer to send, which is \<open>a\<close> or a new one.\<close>
  consider (none) "retransmit_buffer n a ?l = Some (None, n)" |
    (some) b n1 m' where "retransmit_buffer n a ?l = Some (Some b, set_buf n1 b m')" "again_buf ?m m'" "bufs n1 = bufs n" "tx_queue n1 = tx_queue n"
      "tx_same (n\<lparr>tx_free := tx_free n1\<rparr>) n1"
      "b = a \<and> tx_free n1 = tx_free n \<and> m_release m' = tcp_tx_release_mbuf \<and> m_ref m' = 2 \<and> transport_off m' = transport_off ?m \<and> m_data m' = transport_off ?m + 20 \<or>
       tx_free n = b # tx_free n1 \<and> b \<noteq> a \<and> m_release m' = net_tx_release_mbuf"
    using retransmit_buffer_spec [OF assms(1,3) p(1) txq_l4len [OF p(1)]]
    by (elim disjE exE conjE) (fastforce simp: tx_queue_def tx_same_def)+
  then show ?thesis
  proof cases
    case none
    then show ?thesis using assms(1)
      by (intro exI [of _ "- ENOMEM"] exI [of _ s] exI [of _ n] exI [of _ "[]"]) (simp add: tcp_tx_retransmit_one_def Let_def new_frames_def)
  next
    case some
    have cs: "can_send s (set_buf n1 b m') dhost" using some(5) by (intro can_send_same [OF assms(2)]) (simp_all add: tx_same_def set_buf_def)
    consider (old) "wraps_lte (seg_end m') ?u" |
      (again) q m'' where "\<not> wraps_lte (seg_end m') ?u"
        "(if wraps_lt (seg_seq m') ?u then map_option (\<lambda>m. m\<lparr>seg_seq := ?u\<rparr>) (mbuf_pull m' (unat (?u - seg_seq m'))) else Some m') = Some m''"
        "mbuf_ok m''" "128 \<le> m_data m''" "m_data m'' \<le> 1920" "head_len m'' = 1920" "seg_seq m'' = base + of_nat q" "M < q + 2 ^ 30" "q \<le> length sent" "m_flags m'' = m_flags ?m"
        "m_release m'' = m_release m'" "text_at sent fin (m_flags ?m) (mbuf_data m'') q" "seg_end m'' = base + of_nat (q + length (mbuf_data m'') + fin_count (m_flags ?m))"
      using again_position [OF assms(1) p some(2)] by blast
    then show ?thesis
    proof cases
      case old
      let ?n = "mbuf_free (set_buf n1 b m') b"
      have "tcp_tx_retransmit_one s n a = Some (0, s, ?n)" using some(1) old by (simp add: tcp_tx_retransmit_one_def Let_def)
      moreover have "snd_inv base M sent fin s ?n"
      proof (rule snd_inv_again [OF assms(1,3)])
        have h: "length (m_head m') = 1920" using some(2) by (simp add: again_buf_def head_len_def)
        have "txq_buf base sent fin (m'\<lparr>m_ref := r\<rparr>) p" if "m_release m' = tcp_tx_release_mbuf" "transport_off m' = transport_off ?m" "m_data m' = transport_off ?m + 20" for r
        proof -
          have "seg_text (m'\<lparr>m_ref := r\<rparr>) = mbuf_data m'" using that(2,3) by (simp add: seg_text_def mbuf_data_def)
          then show ?thesis using p(1) some(2) that by (auto simp: txq_buf_def again_buf_def mbuf_ok_def head_len_def)
        qed
        then show "b = a \<and> tx_free ?n = tx_free n \<and> txq_buf base sent fin (bufs ?n a) p \<and> M < p + 2 ^ 30 \<or>
            tx_free n = b # tx_free n1 \<and> (tx_free ?n = tx_free n1 \<or> tx_free ?n = tx_free n \<and> length (m_head (bufs ?n b)) = 1920)"
          using some(6) p(2) h by (elim disjE) (auto simp: mbuf_free_def set_buf_def tx_release_def)
        show "bufs ?n c = bufs n c" if "c \<noteq> b" for c using some(3,6) that by (auto simp: mbuf_free_def set_buf_def tx_release_def)
      qed simp_all
      moreover have "tx_queue ?n = tx_queue n" using some(4,6) by (auto simp: mbuf_free_def set_buf_def tx_release_def tx_queue_def)
      ultimately show ?thesis by (intro exI [of _ 0] exI [of _ s] exI [of _ ?n] exI [of _ "[]"]) (simp add: new_frames_def)
    next
      case again
      obtain n2 n' where t: "tcp_push_tcphdr s (set_buf (set_buf n1 b m') b m'') b (m_flags m'') ?l =
            Some (s\<lparr>tx_last_ack := rcv_nxt (pcb s), tx_last_win := ucast (rcv_wnd (pcb s))\<rparr>, n2)"
          "net_tx_ip n2 b IPPROTO_TCP (na_ip (raddr s)) = Some (0, n')" "tx_queue n' = tx_queue (set_buf n1 b m') @ [b]" "tx_same (set_buf n1 b m') n'"
          "\<forall>c. c \<noteq> b \<longrightarrow> bufs n' c = bufs (set_buf n1 b m') c" "carries dhost base sent fin (q, frame n' b)" "seg_seq (bufs n' b) = base + of_nat q"
          "head_len m'' = 1920 \<longrightarrow> m_release m'' = tcp_tx_release_mbuf \<longrightarrow> m_flags m'' AND TCP_SYN = 0 \<longrightarrow>
             seg_end m'' = base + of_nat (q + length (mbuf_data m'') + fin_count (m_flags m'')) \<longrightarrow> txq_buf base sent fin (bufs n' b) q"
        using send_again [OF again(3-5) cs again(7), of sent fin b ?l] again(10,12) by auto
      let ?s = "s\<lparr>tx_last_ack := rcv_nxt (pcb s), tx_last_win := ucast (rcv_wnd (pcb s))\<rparr>"
      have f: "tx_free n' = tx_free n1" using t(4) by (simp add: tx_same_def set_buf_def)
      have "tcp_tx_retransmit_one s n a = Some (0, ?s, n')"
        by (rule retransmit_one_again [OF refl some(1) _ again(1,2) t(1)]) (simp_all add: t(2))
      moreover have "snd_inv base M sent fin ?s n'"
      proof (rule snd_inv_again [OF assms(1,3)])
        have "m_flags m'' AND TCP_SYN = 0" using p(1) again(10) by (simp add: txq_buf_def)
        then have "txq_buf base sent fin (bufs n' b) q" if "m_release m' = tcp_tx_release_mbuf" using t(8) again(6,10,11,13) that by simp
        then show "b = a \<and> tx_free n' = tx_free n \<and> txq_buf base sent fin (bufs n' a) q \<and> M < q + 2 ^ 30 \<or>
            tx_free n = b # tx_free n1 \<and> (tx_free n' = tx_free n1 \<or> tx_free n' = tx_free n \<and> length (m_head (bufs n' b)) = 1920)"
          using f some(6) again(8) by (elim disjE) auto
        show "bufs n' c = bufs n c" if "c \<noteq> b" for c using t(5) some(3) that by simp
      qed simp_all
      moreover have "seq_position base (snd_pos sent fin) (seg_seq (bufs n' b)) = q"
        unfolding t(7) using again(8,9) M by (intro seq_position_at) (simp_all add: snd_pos_def)
      moreover have "tx_queue n' = tx_queue n @ [b]" using t(3) some(4) by simp
      ultimately show ?thesis using t(6) by (intro exI [of _ 0] exI [of _ ?s] exI [of _ n'] exI [of _ "[b]"]) (simp add: new_frames_def)
    qed
  qed
qed

end
