(* ===== verification/Tcp_End.thy ===== *)
theory Tcp_End
  imports Tcp_Deliver Tcp_Sender
begin

text \<open>
  Two hosts and the network between them. The application of one writes to a TCP connection and shuts it down (\<^verbatim>\<open>tcp_tx_send\<close>, \<^verbatim>\<open>tcp_tx_ctl\<close>, down to the frames in the
  queue of the I/O thread), segments are sent again (\<^verbatim>\<open>tcp_tx_retransmit_one\<close>, which both \<^verbatim>\<open>tcp_tx_retransmit\<close> and the fast retransmission call), the network loses, repeats and
  reorders frames, and the other host receives them (\<^verbatim>\<open>net_rx_one\<close>, \<^verbatim>\<open>trans_lookup\<close>, \<^verbatim>\<open>tcp_rx_conn\<close>) and is read by its application (\<^verbatim>\<open>tcp_read\<close>).
\<close>

section \<open>Runs of both ends\<close>

text \<open>
  What else may happen to the sender between its transmissions: acknowledgements move \<^verbatim>\<open>snd_una\<close> up to \<^verbatim>\<open>snd_nxt\<close> and take buffers off the transmit queue, the pending buffer
  is given up when the connection fails, the I/O thread and other connections take and free buffers. The buffers that the connection holds keep their contents, except for the time of the last
  transmission and the count of references.
\<close>

definition buf_kept :: "mbuf \<Rightarrow> mbuf \<Rightarrow> bool" where
  "buf_kept m m' \<longleftrightarrow> m' = m\<lparr>m_timestamp := m_timestamp m', m_ref := m_ref m'\<rparr>"

definition sender_idle :: "tcp_conn \<Rightarrow> net \<Rightarrow> tcp_conn \<Rightarrow> net \<Rightarrow> bool" where
  "sender_idle s n s' n' \<longleftrightarrow> snd_nxt (pcb s') = snd_nxt (pcb s) \<and> snd_una (pcb s') - snd_una (pcb s) \<le> snd_nxt (pcb s) - snd_una (pcb s) \<and>
     set (txq s') \<subseteq> set (txq s) \<and> (tx_pending s' = tx_pending s \<or> tx_pending s' = None) \<and> free_ok n' \<and>
     (\<forall>a \<in> set (txq s') \<union> set_option (tx_pending s'). buf_kept (bufs n a) (bufs n' a) \<and> a \<notin> set (tx_free n'))"

text \<open>With \<open>len\<close> bytes more, what is not acknowledged or still in a buffer stays below \<open>2 ^ 30\<close> bytes; windows have at most \<open>2 ^ 16\<close>.\<close>

definition flight_ok :: "tcp_conn \<Rightarrow> net \<Rightarrow> nat \<Rightarrow> bool" where
  "flight_ok s n len \<longleftrightarrow> (\<forall>x \<in> {snd_una (pcb s)} \<union> (\<lambda>a. seg_seq (bufs n a)) ` (set (txq s) \<union> set_option (tx_pending s)). unat (snd_nxt (pcb s) - x) + len < 2 ^ 30)"

text \<open>
  The state is the sending connection with its network stack, what has been written, whether a FIN was sent, the frames on the wire with the positions of their text, the receiving connection,
  what has been read, and the position of the receiver. Frames stay on the wire, so that each may arrive any number of times, or never. A frame does not live so
  long that the position of the receiver is \<open>2 ^ 30\<close> bytes away from it. The FIN is not received while it lies beyond the window: there \<^verbatim>\<open>tcp_rx_append_text\<close> cuts off a byte of text.
\<close>

inductive end_run :: "u8 list \<Rightarrow> u32 \<Rightarrow> tcp_conn \<Rightarrow> net \<Rightarrow> u8 list \<Rightarrow> bool \<Rightarrow> (nat \<times> u8 list) set \<Rightarrow> tcp_conn \<Rightarrow> u8 list \<Rightarrow> nat \<Rightarrow> bool" for dhost base where
  start: "snd_nxt (pcb s) = base \<Longrightarrow> snd_una (pcb s) = base \<Longrightarrow> txq s = [] \<Longrightarrow> tx_pending s = None \<Longrightarrow> free_ok n \<Longrightarrow> fresh_conn base c \<Longrightarrow>
    end_run dhost base s n [] False {} c [] 0"
| send: "end_run dhost base s n sent False wire c out R \<Longrightarrow> ESTABLISHED \<le> state (pcb s) \<Longrightarrow> can_send s n dhost \<Longrightarrow> flight_ok s n (length buf) \<Longrightarrow>
    tcp_tx_send s n buf push = Some (ret, s', n') \<Longrightarrow> tx_queue n' = tx_queue n @ as \<Longrightarrow>
    end_run dhost base s' n' (sent @ take (nat ret) buf) False (wire \<union> new_frames base (length (sent @ take (nat ret) buf)) n' as) c out R"
| shut: "end_run dhost base s n sent False wire c out R \<Longrightarrow> can_send s n dhost \<Longrightarrow> tcp_tx_ctl s n (TCP_FIN OR TCP_ACK) = Some (ret, s', n') \<Longrightarrow>
    tx_queue n' = tx_queue n @ as \<Longrightarrow> end_run dhost base s' n' sent (ret = 0) (wire \<union> new_frames base (snd_pos sent (ret = 0)) n' as) c out R"
| ack: "end_run dhost base s n sent fin wire c out R \<Longrightarrow> can_send s n dhost \<Longrightarrow> tcp_tx_ack s n = Some (ret, s', n') \<Longrightarrow>
    tx_queue n' = tx_queue n @ as \<Longrightarrow> end_run dhost base s' n' sent fin (wire \<union> new_frames base (snd_pos sent fin) n' as) c out R"
| retransmit: "end_run dhost base s n sent fin wire c out R \<Longrightarrow> can_send s n dhost \<Longrightarrow> a \<in> set (txq s) \<Longrightarrow> tcp_tx_retransmit_one s n a = Some (ret, s', n') \<Longrightarrow>
    tx_queue n' = tx_queue n @ as \<Longrightarrow> end_run dhost base s' n' sent fin (wire \<union> new_frames base (snd_pos sent fin) n' as) c out R"
| idle: "end_run dhost base s n sent fin wire c out R \<Longrightarrow> sender_idle s n s' n' \<Longrightarrow> end_run dhost base s' n' sent fin wire c out R"
| receive: "end_run dhost base s n sent fin wire c out R \<Longrightarrow> (p, fr) \<in> wire \<Longrightarrow> p < R + 2 ^ 30 \<Longrightarrow> R < p + 2 ^ 30 \<Longrightarrow>
    (tcphdr_flags fr 34 AND TCP_FIN \<noteq> 0 \<longrightarrow> p < R + unat (rcv_wnd (pcb c))) \<Longrightarrow> io_mac nr = dhost \<Longrightarrow> rx_pool nr = m0 # ms \<Longrightarrow> length (m_head m0) = 1920 \<Longrightarrow>
    net_rx_one nr \<lparr>rh_completion_data = d, rh_csum_type = CHECKSUM_TYPE_UNNECESSARY, rh_payload = fr\<rparr> = Some (Some m, n1) \<Longrightarrow>
    trans_lookup n1 m = Some (e, m') \<Longrightarrow> tcp_rx_conn c n2 nxt m' = Some (c', n3) \<Longrightarrow>
    end_run dhost base s n sent fin wire c' out (R + unat (rcv_nxt (pcb c') - rcv_nxt (pcb c)))"
| read: "end_run dhost base s n sent fin wire c out R \<Longrightarrow> tcp_read c nr self len = Some (Returns (ret, bs), c', nr') \<Longrightarrow>
    end_run dhost base s n sent fin wire c' (out @ bs) R"
| block: "end_run dhost base s n sent fin wire c out R \<Longrightarrow> tcp_read c nr self len = Some (Blocks, c', nr') \<Longrightarrow> end_run dhost base s n sent fin wire c' out R"
| other: "end_run dhost base s n sent fin wire c out R \<Longrightarrow> tcp_op c c' \<Longrightarrow> end_run dhost base s n sent fin wire c' out R"

section \<open>The sender\<close>

lemma snd_inv_less: "snd_inv base M sent fin s n \<Longrightarrow> snd_inv base (length sent) sent fin s n"
  unfolding snd_inv_def by (meson le_refl le_less_trans)

lemma snd_inv_more:
  assumes "snd_inv base (length sent) sent False s n" "flight_ok s n len"
  shows "snd_inv base (length sent + len) sent False s n"
proof -
  have nx: "snd_nxt (pcb s) = base + of_nat (length sent)" using assms(1) by (simp add: snd_inv_def snd_pos_def)
  have d: "length sent + len < p + 2 ^ 30"
    if "x \<in> {snd_una (pcb s)} \<union> (\<lambda>a. seg_seq (bufs n a)) ` (set (txq s) \<union> set_option (tx_pending s))" "x = base + of_nat p" "p \<le> length sent" "length sent < p + 2 ^ 30" for x p
  proof -
    have "unat (snd_nxt (pcb s) - x) = length sent - p" unfolding nx that(2) using that(3,4) by (intro seq_diff) simp_all
    moreover have "unat (snd_nxt (pcb s) - x) + len < 2 ^ 30" using assms(2) that(1) unfolding flight_ok_def by (rule bspec)
    ultimately show ?thesis using that(3) by simp
  qed
  have "\<exists>u. snd_una (pcb s) = base + of_nat u \<and> u \<le> snd_pos sent False \<and> length sent + len < u + 2 ^ 30"
    using assms(1) d [of "snd_una (pcb s)"] unfolding snd_inv_def by (fastforce simp: snd_pos_def)
  moreover have "\<exists>p. txq_buf base sent False (bufs n a) p \<and> length sent + len < p + 2 ^ 30" if a: "a \<in> set (txq s)" for a
  proof -
    obtain p where p: "txq_buf base sent False (bufs n a) p" "length sent < p + 2 ^ 30" using snd_inv_txq [OF assms(1) a] by blast
    then have q: "seg_seq (bufs n a) = base + of_nat p" "p \<le> length sent" by (auto simp: txq_buf_def text_at_def)
    have "length sent + len < p + 2 ^ 30" by (rule d [OF _ q p(2)]) (use a in blast)
    then show ?thesis using p(1) by blast
  qed
  moreover have "length sent + len < length sent - m_len (bufs n a) + 2 ^ 30" if "tx_pending s = Some a" for a
    using assms(1) d [of "seg_seq (bufs n a)" "length sent - m_len (bufs n a)"] that by (auto simp: snd_inv_def pending_buf_def)
  ultimately show ?thesis using assms(1) by (simp add: snd_inv_def)
qed

lemma kept_buf:
  assumes "buf_kept m m'"
  shows "txq_buf base sent fin m' p = txq_buf base sent fin m p" "pending_buf base sent m' = pending_buf base sent m" "m_len m' = m_len m"
proof -
  obtain t r where m': "m' = m\<lparr>m_timestamp := t, m_ref := r\<rparr>" using assms by (auto simp: buf_kept_def)
  show "txq_buf base sent fin m' p = txq_buf base sent fin m p" "pending_buf base sent m' = pending_buf base sent m" "m_len m' = m_len m"
    unfolding m' by (simp_all add: txq_buf_def pending_buf_def seg_text_def mbuf_data_def mbuf_ok_def head_len_def)
qed

lemma snd_inv_idle:
  assumes "snd_inv base (length sent) sent fin s n" "sender_idle s n s' n'"
  shows "snd_inv base (length sent) sent fin s' n'"
proof -
  let ?S = "snd_pos sent fin"
  have i: "snd_nxt (pcb s') = snd_nxt (pcb s)" "snd_una (pcb s') - snd_una (pcb s) \<le> snd_nxt (pcb s) - snd_una (pcb s)" "set (txq s') \<subseteq> set (txq s)"
      "tx_pending s' = tx_pending s \<or> tx_pending s' = None" "free_ok n'"
      "\<And>a. a \<in> set (txq s') \<or> tx_pending s' = Some a \<Longrightarrow> buf_kept (bufs n a) (bufs n' a) \<and> a \<notin> set (tx_free n')"
    using assms(2) by (auto simp: sender_idle_def)
  obtain u where u: "snd_una (pcb s) = base + of_nat u" "u \<le> ?S" "length sent < u + 2 ^ 30" using assms(1) by (auto simp: snd_inv_def)
  have nx: "snd_nxt (pcb s) = base + of_nat ?S" using assms(1) by (simp add: snd_inv_def)
  let ?d = "unat (snd_una (pcb s') - snd_una (pcb s))"
  have "unat (snd_nxt (pcb s) - snd_una (pcb s)) = ?S - u" unfolding nx u(1) using u(2,3) by (intro seq_diff) (auto simp: snd_pos_def split: if_splits)
  then have "?d \<le> ?S - u" using i(2) by (simp add: word_le_nat_alt)
  moreover have "snd_una (pcb s') = base + of_nat (u + ?d)" using u(1) by (simp add: algebra_simps)
  ultimately have "\<exists>u. snd_una (pcb s') = base + of_nat u \<and> u \<le> ?S \<and> length sent < u + 2 ^ 30" using u(2,3) by (intro exI [of _ "u + ?d"]) simp
  moreover have "a \<notin> set (tx_free n') \<and> (\<exists>p. txq_buf base sent fin (bufs n' a) p \<and> length sent < p + 2 ^ 30)" if "a \<in> set (txq s')" for a
  proof -
    have "a \<in> set (txq s)" using i(3) that by blast
    then show ?thesis using snd_inv_txq [OF assms(1)] i(6) [of a] that kept_buf(1) by blast
  qed
  moreover have "a \<notin> set (txq s') \<and> a \<notin> set (tx_free n') \<and> pending_buf base sent (bufs n' a) \<and> length sent < length sent - m_len (bufs n' a) + 2 ^ 30"
    if "tx_pending s' = Some a" for a
  proof -
    have "tx_pending s = Some a" using i(4) that by auto
    then show ?thesis using assms(1) i(3) i(6) [of a] that kept_buf(2,3) [of "bufs n a" "bufs n' a"] unfolding snd_inv_def by auto
  qed
  ultimately show ?thesis using assms(1) i(1,5) unfolding snd_inv_def by simp
qed

section \<open>Frames are segments of the peer\<close>

lemma seg_frame_flags:
  assumes "seg_frame s dhost shost seq flags bs fr" "length dhost = 6" "length shost = 6"
  shows "tcphdr_flags fr 34 = flags"
proof -
  obtain ipid x2 ck urp where f: "fr = (eth_hdr dhost shost ETHTYPE_IP @ ip_hdr (of_nat (length (tcp_hdr (na_port (laddr s)) (na_port (raddr s)) seq (rcv_nxt (pcb s)) x2 flags (ucast (rcv_wnd (pcb s))) ck @ urp @ bs) + 20)) ipid IPPROTO_TCP (na_ip (laddr s)) (na_ip (raddr s))) @
      tcp_hdr (na_port (laddr s)) (na_port (raddr s)) seq (rcv_nxt (pcb s)) x2 flags (ucast (rcv_wnd (pcb s))) ck @ urp @ bs"
    using assms(1) by (auto simp: seg_frame_def tcp_segment_def ip_frame_def)
  show ?thesis by (rule tcp_hdr_fields(6) [OF _ f]) (simp add: assms(2,3))
qed

lemma frame_peer_seg:
  assumes "carries dhost base sent fin (p, fr)" "io_mac n = dhost" "rx_pool n = m0 # ms" "length (m_head m0) = 1920"
    "net_rx_one n \<lparr>rh_completion_data = d, rh_csum_type = CHECKSUM_TYPE_UNNECESSARY, rh_payload = fr\<rparr> = Some (Some m, n1)"
    "trans_lookup n1 m = Some (e, m')" "\<forall>i < length sent. strm i = sent ! i" "if fin then L = length sent else length sent \<le> L" "p < R + 2 ^ 30" "R < p + 2 ^ 30"
    "tcphdr_flags fr 34 AND TCP_FIN \<noteq> 0 \<longrightarrow> p < R + unat (rcv_wnd (pcb c))"
  obtains sg m'' where "tcp_rx_parse m' = Some (Some (sg, m''))" "peer_seg strm L base R c sg m''"
proof -
  obtain s shost seq flags bs where f: "seg_frame s dhost shost seq flags bs fr" "length dhost = 6" "length shost = 6" "length bs \<le> TCP_MSS"
      "bs \<noteq> [] \<or> flags AND TCP_FIN \<noteq> 0 \<longrightarrow> seq = base + of_nat p \<and> text_at sent fin flags bs p"
    using assms(1) unfolding carries_def prod.case by blast
  let ?sg = "\<lparr>sg_seq = seq, sg_ack = rcv_nxt (pcb s), sg_win = ucast (rcv_wnd (pcb s)), sg_flags = flags,
     sg_len = of_nat (length bs) + (if flags AND TCP_FIN \<noteq> 0 then 1 else 0)\<rparr>"
  obtain m'' where m'': "tcp_rx_parse m' = Some (Some (?sg, m''))" "mbuf_ok m''" "mbuf_data m'' = bs"
    using segment_received [OF f(1) [folded assms(2)] f(4) _ f(3) assms(3,4), of d] f(2) assms(2,5,6) by auto
  have "peer_seg strm L base R c ?sg m''"
  proof (cases "bs \<noteq> [] \<or> flags AND TCP_FIN \<noteq> 0")
    case True
    then have q: "seq = base + of_nat p" and t: "text_at sent fin flags bs p" using f(5) by auto
    let ?m = "seg_buf ?sg m''"
    have m: "mbuf_ok ?m" "mbuf_data ?m = bs" "m_len ?m = length bs" "fin_len ?m = fin_count flags"
      using m''(2,3) mbuf_data_length [OF m''(2)] by (simp_all add: seg_buf_def mbuf_ok_def mbuf_data_def head_len_def fin_len_def fin_count_def)
    have b: "p + length bs \<le> length sent" "bs = take (length bs) (drop p sent)" using t by (simp_all add: text_at_def)
    have "bs ! k = strm (p + k)" if "k < length bs" for k
    proof -
      have "bs ! k = take (length bs) (drop p sent) ! k" using b(2) by simp
      then show ?thesis using that b(1) assms(7) by simp
    qed
    then have "bs = piece strm p (p + length bs)" by (intro nth_equalityI) (simp_all add: piece_def)
    moreover have "p + length bs \<le> L" using b(1) assms(8) by (simp split: if_splits)
    moreover have "p + length bs = L" if "fin_count flags = 1" using that t assms(8) by (auto simp: text_at_def fin_count_def split: if_splits)
    moreover have "seg_seq ?m = base + of_nat p" "seg_end ?m = base + of_nat (p + length bs + fin_count flags)"
      by (simp_all add: seg_buf_def q fin_count_def algebra_simps)
    moreover have "length bs \<le> 65535" using f(4) by (simp add: TCP_MSS_def)
    ultimately have "seg_at strm L base ?m p" unfolding seg_at_def end_at_def m(2-4) using m(1) by blast
    moreover have "end_at ?m p \<le> R + unat (rcv_wnd (pcb c))" if "fin_len ?m = 1"
    proof -
      have "fin_count flags = 1" using that unfolding m(4) .
      then have "flags AND TCP_FIN \<noteq> 0" unfolding fin_count_def by (metis zero_neq_one)
      then have "bs = []" "p < R + unat (rcv_wnd (pcb c))" using t assms(11) seg_frame_flags [OF f(1-3)] by (auto simp: text_at_def)
      then show ?thesis using m(3) that by (simp add: end_at_def)
    qed
    ultimately show ?thesis using assms(9,10) by (auto simp: peer_seg_def)
  qed (simp add: peer_seg_def)
  then show ?thesis by (rule that [OF m''(1)])
qed

text \<open>What holds of both ends: the receiver runs on the stream that is written, whatever it will be continued with before the FIN.\<close>

definition end_inv :: "u8 list \<Rightarrow> u32 \<Rightarrow> tcp_conn \<Rightarrow> net \<Rightarrow> u8 list \<Rightarrow> bool \<Rightarrow> (nat \<times> u8 list) set \<Rightarrow> tcp_conn \<Rightarrow> u8 list \<Rightarrow> nat \<Rightarrow> bool" where
  "end_inv dhost base s n sent fin wire c out R \<longleftrightarrow> snd_inv base (length sent) sent fin s n \<and> (\<forall>x \<in> wire. carries dhost base sent fin x) \<and>
     (\<forall>strm L. (\<forall>i < length sent. strm i = sent ! i) \<longrightarrow> (if fin then L = length sent else length sent \<le> L) \<longrightarrow> tcp_run strm L base c out R)"

lemma end_inv_send:
  assumes "end_inv dhost base s n sent False wire c out R" "ESTABLISHED \<le> state (pcb s)" "can_send s n dhost" "flight_ok s n (length buf)"
    "tcp_tx_send s n buf push = Some (ret, s', n')" "tx_queue n' = tx_queue n @ as"
  shows "end_inv dhost base s' n' (sent @ take (nat ret) buf) False (wire \<union> new_frames base (length (sent @ take (nat ret) buf)) n' as) c out R"
proof -
  have i: "snd_inv base (length sent + length buf) sent False s n" using assms(1,4) by (auto simp: end_inv_def intro: snd_inv_more)
  let ?t = "sent @ take (nat ret) buf"
  have t: "snd_inv base (length sent + length buf) ?t False s' n'" "\<forall>x \<in> new_frames base (length ?t) n' as. carries dhost base ?t False x"
    using tx_send_inv [OF i assms(3,2), of push] assms(5,6) by auto
  have "carries dhost base ?t False x" if "x \<in> wire" for x using assms(1) that carries_append unfolding end_inv_def by blast
  moreover have "tcp_run strm L base c out R" if "\<forall>i < length ?t. strm i = ?t ! i" "length ?t \<le> L" for strm L
  proof -
    have "\<forall>i < length sent. strm i = sent ! i" using that(1) by (simp add: nth_append)
    moreover have "length sent \<le> L" using that(2) by simp
    ultimately show ?thesis using assms(1) by (simp add: end_inv_def)
  qed
  ultimately show ?thesis using t snd_inv_less [OF t(1)] unfolding end_inv_def by auto
qed

lemma end_inv_sender:
  assumes "end_inv dhost base s n sent fin wire c out R" "snd_inv base (length sent) sent fin' s' n'" "\<forall>x \<in> X. carries dhost base sent fin' x" "fin \<longrightarrow> fin'"
  shows "end_inv dhost base s' n' sent fin' (wire \<union> X) c out R"
proof -
  have "carries dhost base sent fin' x" if "x \<in> wire" for x
    using assms(1,4) that by (cases fin'; cases fin) (auto simp: end_inv_def intro: carries_fin)
  moreover have "if fin then L = length sent else length sent \<le> L" if "if fin' then L = length sent else length sent \<le> L" for L
    using that assms(4) by (auto split: if_splits)
  ultimately show ?thesis using assms(1-3) unfolding end_inv_def by blast
qed

lemma end_run_inv: "end_run dhost base s n sent fin wire c out R \<Longrightarrow> end_inv dhost base s n sent fin wire c out R"
proof (induction rule: end_run.induct)
  case (start s n c)
  then show ?case by (auto simp: end_inv_def snd_inv_def snd_pos_def tcp_run.start)
next
  case (send s n sent wire c out R buf push ret s' n' as)
  then show ?case by (blast intro: end_inv_send)
next
  case (shut s n sent wire c out R ret s' n' as)
  have "snd_inv base (length sent) sent False s n" using shut.IH by (simp add: end_inv_def)
  from tx_ctl_inv [OF this shut.hyps(2)] have "snd_inv base (length sent) sent (ret = 0) s' n'"
      "\<forall>x \<in> new_frames base (snd_pos sent (ret = 0)) n' as. carries dhost base sent (ret = 0) x" using shut.hyps(3,4) by auto
  then show ?case by (rule end_inv_sender [OF shut.IH]) simp
next
  case (ack s n sent fin wire c out R ret s' n' as)
  have "snd_inv base (length sent) sent fin s n" using ack.IH by (simp add: end_inv_def)
  from tx_ack_inv [OF this ack.hyps(2)] have "snd_inv base (length sent) sent fin s' n'" "\<forall>x \<in> new_frames base (snd_pos sent fin) n' as. carries dhost base sent fin x"
    using ack.hyps(3,4) by auto
  then show ?case by (rule end_inv_sender [OF ack.IH]) simp
next
  case (retransmit s n sent fin wire c out R a ret s' n' as)
  have "snd_inv base (length sent) sent fin s n" using retransmit.IH by (simp add: end_inv_def)
  from retransmit_inv [OF this retransmit.hyps(2,3)] have "snd_inv base (length sent) sent fin s' n'" "\<forall>x \<in> new_frames base (snd_pos sent fin) n' as. carries dhost base sent fin x"
    using retransmit.hyps(4,5) by auto
  then show ?case by (rule end_inv_sender [OF retransmit.IH]) simp
next
  case (idle s n sent fin wire c out R s' n')
  then show ?case using snd_inv_idle by (auto simp: end_inv_def)
next
  case (receive s n sent fin wire c out R p fr nr m0 ms d m n1 e m' n2 nxt c' n3)
  have "tcp_run strm L base c' out (R + unat (rcv_nxt (pcb c') - rcv_nxt (pcb c)))"
    if st: "\<forall>i < length sent. strm i = sent ! i" "if fin then L = length sent else length sent \<le> L" for strm L
  proof -
    have f: "carries dhost base sent fin (p, fr)" "tcp_run strm L base c out R" using receive.IH receive.hyps(2) st by (auto simp: end_inv_def)
    obtain sg m'' where "tcp_rx_parse m' = Some (Some (sg, m''))" "peer_seg strm L base R c sg m''"
      using frame_peer_seg [OF f(1) receive.hyps(6-10) st receive.hyps(3-5)] .
    then show ?thesis using tcp_run.packet [OF f(2)] receive.hyps(11) by blast
  qed
  then show ?case using receive.IH by (simp add: end_inv_def)
next
  case (read s n sent fin wire c out R nr self len ret bs c' nr')
  then show ?case unfolding end_inv_def using tcp_run.read [OF _ read.hyps(2)] by blast
next
  case (block s n sent fin wire c out R nr self len c' nr')
  then show ?case unfolding end_inv_def using tcp_run.block [OF _ block.hyps(2)] by blast
next
  case (other s n sent fin wire c out R c')
  then show ?case unfolding end_inv_def using tcp_run.other [OF _ other.hyps(2)] by blast
qed

text \<open>C1: 
  What the application of one host reads is what the application of the other has written. The sender writes with \<^verbatim>\<open>tcp_tx_send\<close> (pushed or not, in full or in part, with a pending buffer or none), sends a FIN
  and acknowledgements, and retransmits any buffer of its transmit queue, in place or by copy, also when part of it has been acknowledged; the Ethernet address of the next hop is known. The network
  loses, repeats and reorders the frames. The receiver takes packets, is read with \<^verbatim>\<open>tcp_read\<close>, and does the operations of \<open>tcp_op\<close>. Then the bytes read are the beginning of the bytes written; as
  long as the receiving connection has not failed, the bytes read and those waiting in its queue are the bytes written up to the position of \<^verbatim>\<open>rcv_nxt\<close>; and on the sending side no assertion fails in a write, in the FIN or in
  a retransmission. Left out are resets, a FIN that arrives while it lies beyond the receive window, \<^verbatim>\<open>tcp_readv\<close>, and frames that arrive \<open>2 ^ 30\<close> bytes late.
\<close>

theorem tcp_end_to_end:
  assumes "end_run dhost base s n sent fin wire c out R"
  shows "out = take (length out) sent \<and> snd_nxt (pcb s) = base + of_nat (length sent + (if fin then 1 else 0)) \<and>
    (failed c \<or> rcv_nxt (pcb c) = base + of_nat R \<and> out @ concat (map mbuf_data (rxq c)) = take R sent) \<and>
    (can_send s n dhost \<longrightarrow>
       (\<forall>a \<in> set (txq s). tcp_tx_retransmit_one s n a \<noteq> None) \<and>
       (\<not> fin \<longrightarrow> tcp_tx_ctl s n (TCP_FIN OR TCP_ACK) \<noteq> None) \<and>
       (\<not> fin \<longrightarrow> ESTABLISHED \<le> state (pcb s) \<longrightarrow> flight_ok s n (length buf) \<longrightarrow> tcp_tx_send s n buf push \<noteq> None))"
proof -
  have p: "piece ((!) sent) 0 k = take k sent" if "k \<le> length sent" for k using that by (intro nth_equalityI) (simp_all add: piece_def)
  have e: "end_inv dhost base s n sent fin wire c out R" by (rule end_run_inv [OF assms])
  then have i: "snd_inv base (length sent) sent fin s n" by (simp add: end_inv_def)
  have "tcp_run ((!) sent) (length sent) base c out R" using e by (simp add: end_inv_def)
  then have r: "run_inv ((!) sent) (length sent) base c out R" by (rule tcp_run_inv)
  then have out: "out = take (length out) sent" using p [of "length out"] by (simp add: run_inv_def)
  have "rcv_nxt (pcb c) = base + of_nat R \<and> out @ bytes (rxq c) = take R sent" if "\<not> failed c"
  proof -
    have x: "rcv_nxt (pcb c) = base + of_nat R" "length out \<le> min R (length sent)" "bytes (rxq c) = piece ((!) sent) (length out) (min R (length sent))"
      using r that by (auto simp: run_inv_def rx_inv_def rxq_inv_def rcv_at_def)
    have "out = piece ((!) sent) 0 (length out)" using r by (simp add: run_inv_def)
    then have "out @ bytes (rxq c) = piece ((!) sent) 0 (min R (length sent))" using x(2,3) by (metis le0 piece_append)
    then show ?thesis using x(1) p [of "min R (length sent)"] by (simp add: min_def)
  qed
  moreover have "tcp_tx_retransmit_one s n a \<noteq> None" if "can_send s n dhost" "a \<in> set (txq s)" for a using retransmit_inv [OF i that] by auto
  moreover have "tcp_tx_ctl s n (TCP_FIN OR TCP_ACK) \<noteq> None" if "can_send s n dhost" "\<not> fin" using tx_ctl_inv [OF _ that(1)] i that(2) by fastforce
  moreover have "tcp_tx_send s n buf push \<noteq> None" if "can_send s n dhost" "\<not> fin" "ESTABLISHED \<le> state (pcb s)" "flight_ok s n (length buf)"
  proof -
    have "snd_inv base (length sent + length buf) sent False s n" using snd_inv_more i that(2,4) by simp
    then show ?thesis using tx_send_inv [OF _ that(1,3)] by fastforce
  qed
  ultimately show ?thesis using out i by (auto simp: snd_inv_def snd_pos_def)
qed

section \<open>An example\<close>

text \<open>Three bytes are written on one host, arrive in one segment, and two of them are read on the other.\<close>

definition ex_rcv :: tcp_conn where
  "ex_rcv = ex_conn\<lparr>pcb := (pcb ex_conn)\<lparr>rcv_nxt := 100\<rparr>\<rparr>"

definition ex_rcv_net :: net where
  "ex_rcv_net = ex_seg_net\<lparr>io_mac := replicate 6 4\<rparr>"

lemma ex_sent: "\<exists>s n'. tcp_tx_send ex_seg_conn ex_seg_net [7, 8, 9] True = Some (3, s, n') \<and> tx_queue n' = tx_queue ex_seg_net @ [0] \<and>
    seg_frame ex_seg_conn (replicate 6 4) (replicate 6 2) 100 (TCP_ACK OR TCP_PUSH) [7, 8, 9] (frame n' 0)"
proof -
  have s: "num_segments [7, 8, 9] = 1" by (simp add: num_segments_def TCP_MSS_def)
  have e: "state (pcb ex_seg_conn) = ESTABLISHED" "tx_pending ex_seg_conn = None" "tx_free ex_seg_net = [0] @ [1, 2]" "snd_nxt (pcb ex_seg_conn) = 100"
      "io_mac ex_seg_net = replicate 6 2" "\<forall>a. length (m_head (bufs ex_seg_net a)) = 1920"
    by (simp_all add: ex_seg_conn_def ex_seg_net_def)
  from tx_send_segments [OF _ e(2,3) _ _ _ ex_can_send, of "[7, 8, 9]"] show ?thesis using s e by (auto simp: seg_flags_def TCP_MSS_def)
qed

definition ex_sg :: tcp_seg where
  "ex_sg = \<lparr>sg_seq = 100, sg_ack = 1, sg_win = 4000, sg_flags = 24, sg_len = 3\<rparr>"

lemmas ex_flags = has_flag_def ex_sg_def TCP_RST_def TCP_SYN_def TCP_ACK_def TCP_FIN_def TCP_PUSH_def

lemma ex_acceptable: "is_acceptable ex_rcv 3 100"
  by (simp add: is_acceptable_def ex_rcv_def ex_conn_def Let_def TCP_WIN_def wraps_lte_def wraps_lt_def)

lemma ex_check: "rx_check ex_sg (ex_rcv, n, w) = Some (False, ex_rcv, n, w)"
  using ex_acceptable by (simp add: rx_check_def ex_flags)

lemma ex_established: "rx_established 1 ex_sg (ex_rcv, n, w) = Some (False, ex_rcv, n, w)"
  by (simp add: rx_established_def ex_rcv_def ex_conn_def)

lemma ex_ack: "rx_ack 1 ex_sg (rx_dup_ack ex_sg (ex_rcv, n, rx_work0)) =
   (False, ex_rcv\<lparr>pcb := (pcb ex_rcv)\<lparr>snd_wnd := 3998, snd_wl1 := 100, snd_wl2 := 1\<rparr>\<rparr>, n, rx_work0)"
  by (simp add: rx_dup_ack_def rx_ack_def rx_window_def set_snd_wnd_def usable_wnd_def release_start_tx_def ex_sg_def ex_rcv_def ex_conn_def Let_def wraps_lte_def wraps_lt_def tcp_conn_ack_def is_snd_full_def rx_work0_def)

lemma ex_fin_acked: "rx_fin_acked 1 (ex_rcv\<lparr>pcb := (pcb ex_rcv)\<lparr>snd_wnd := 3998, snd_wl1 := 100, snd_wl2 := 1\<rparr>\<rparr>, n, w) =
   Some (False, ex_rcv\<lparr>pcb := (pcb ex_rcv)\<lparr>snd_wnd := 3998, snd_wl1 := 100, snd_wl2 := 1\<rparr>\<rparr>, n, w)"
  by (simp add: rx_fin_acked_def ex_rcv_def ex_conn_def)

lemma ex_text:
  assumes "m_len m = 3"
  shows "\<exists>c n' w. rx_text ex_sg m (ex_rcv\<lparr>pcb := (pcb ex_rcv)\<lparr>snd_wnd := 3998, snd_wl1 := 100, snd_wl2 := 1\<rparr>\<rparr>, n, rx_work0) = Some (c, n', w) \<and>
     state (pcb c) = ESTABLISHED \<and> rcv_nxt (pcb c) = 103 \<and> rxq c = [m\<lparr>seg_seq := 100, seg_end := 103, m_flags := 24\<rparr>] \<and> rxq_ooo c = [] \<and>
     \<not> rx_closed c \<and> \<not> rx_exclusive c \<and> \<not> rcv_wnd_full c \<and> w_ack w = False \<and> w_freeq w = [] \<and> w_waiters w = [] \<and> w_retransmit w = None"
  using assms
  by (simp add: rx_text_def tcp_rx_text_def tcp_rx_append_text_def clip_head_def clip_tail_def ex_sg_def ex_rcv_def ex_conn_def rx_work0_def signal_rx_def now_us_def
      wraps_lte_def wraps_lt_def wraps_gt_def TCP_WIN_def push_or_fin_def TCP_PUSH_def TCP_FIN_def Let_def)

lemma ex_received:
  assumes "tcp_rx_parse m' = Some (Some (ex_sg, m))" "mbuf_ok m" "mbuf_data m = [7, 8, 9]"
  shows "\<exists>c n c' n'. tcp_rx_conn ex_rcv ex_rcv_net 1 m' = Some (c, n) \<and> rcv_nxt (pcb c) = 103 \<and>
    tcp_read c n 1 2 = Some (Returns (2, [7, 8]), c', n') \<and> \<not> failed c'"
proof -
  have l: "m_len m = 3" using mbuf_data_length [OF assms(2)] assms(3) by simp
  obtain c n w where t: "rx_text ex_sg m (ex_rcv\<lparr>pcb := (pcb ex_rcv)\<lparr>snd_wnd := 3998, snd_wl1 := 100, snd_wl2 := 1\<rparr>\<rparr>, ex_rcv_net, rx_work0) = Some (c, n, w)"
      and c: "state (pcb c) = ESTABLISHED" "rcv_nxt (pcb c) = 103" "rxq c = [m\<lparr>seg_seq := 100, seg_end := 103, m_flags := 24\<rparr>]" "rxq_ooo c = []"
        "\<not> rx_closed c" "\<not> rx_exclusive c" "\<not> rcv_wnd_full c" "w_ack w = False" "w_freeq w = []" "w_waiters w = []" "w_retransmit w = None"
    using ex_text [OF l] by blast
  have "state (pcb ex_rcv) = ESTABLISHED" by (simp add: ex_rcv_def ex_conn_def)
  moreover have "rx_fin 1 ex_sg (c, n, w) = Some (c, n, w)" by (simp add: rx_fin_def ex_flags)
  ultimately have "tcp_rx_locked 1 ex_sg m (ex_rcv, ex_rcv_net, rx_work0) = Some (c, n, w)"
    using t by (simp add: tcp_rx_locked_def ex_check ex_established ex_ack ex_fin_acked)
  then obtain d where d: "tcp_rx_conn ex_rcv ex_rcv_net 1 m' = Some (d, n)" "pcb d = pcb c" "rxq d = rxq c" "rx_closed d = rx_closed c" "rx_exclusive d = rx_exclusive c"
      "rcv_wnd_full d = rcv_wnd_full c"
    using assms(1) c by (auto simp: tcp_rx_conn_def tcp_timer_update_def rx_finish_def release_finish_def mbuf_list_free_def tcp_tx_fast_retransmit_finish_def Let_def
        split: option.split)
  have "\<exists>c' n'. tcp_read d n 1 2 = Some (Returns (2, [7, 8]), c', n') \<and> \<not> failed c'"
    using c l assms(3) d(2-6)
    by (simp add: tcp_read_def tcp_read_wait_def Let_def mbuf_length_def TCP_FIN_def tcp_read_copy_def mbuf_pull_def mbuf_pull_unchecked_def mbuf_data_def
        failed_def tcp_read_finish_def release_start_rx_def release_finish_def numeral_2_eq_2)
  then show ?thesis using d(1,2) c(2) by auto
qed

theorem tcp_end_to_end_witness:
  "\<exists>s n wire c. end_run (replicate 6 4) 100 s n [7, 8, 9] False wire c [7, 8] 3 \<and> [7, 8] @ concat (map mbuf_data (rxq c)) = [7, 8, 9]"
proof -
  let ?d = "replicate 6 4 :: u8 list"
  obtain s n' where t: "tcp_tx_send ex_seg_conn ex_seg_net [7, 8, 9] True = Some (3, s, n')"
      "seg_frame ex_seg_conn ?d (replicate 6 2) 100 (TCP_ACK OR TCP_PUSH) [7, 8, 9] (frame n' 0)" "tx_queue n' = tx_queue ex_seg_net @ [0]" using ex_sent by blast
  let ?fr = "frame n' 0"
  have st: "state (pcb ex_seg_conn) = ESTABLISHED" "snd_nxt (pcb ex_seg_conn) = 100" "snd_una (pcb ex_seg_conn) = 100" "txq ex_seg_conn = []" "tx_pending ex_seg_conn = None"
    by (simp_all add: ex_seg_conn_def)
  have "end_run ?d 100 ex_seg_conn ex_seg_net [] False {} ex_rcv [] 0"
    by (rule end_run.start) (simp_all add: st fresh_conn_def ex_rcv_def ex_conn_def free_ok_def ex_seg_net_def)
  moreover have "flight_ok ex_seg_conn ex_seg_net (length [7, 8, 9 :: u8])" by (simp add: flight_ok_def st)
  ultimately have r0: "end_run ?d 100 s n' ([] @ take (nat 3) [7, 8, 9]) False ({} \<union> new_frames 100 (length ([] @ take (nat 3) [7, 8, 9 :: u8])) n' [0]) ex_rcv [] 0"
    by (intro end_run.send [OF _ _ ex_can_send _ t(1,3)]) (simp_all add: st)
  obtain q where q: "new_frames 100 3 n' [0] = {(q, ?fr)}" "q < 2 ^ 30" by (simp add: new_frames_def seq_position_def)
  have r1: "end_run ?d 100 s n' [7, 8, 9] False {(q, ?fr)} ex_rcv [] 0" using r0 q(1) by (simp add: numeral_3_eq_3)
  have e: "io_mac ex_rcv_net = ?d" "rx_pool ex_rcv_net = rx_pool ex_seg_net ! 0 # []" "length (m_head (rx_pool ex_seg_net ! 0)) = 1920"
    by (simp_all add: ex_rcv_net_def ex_seg_net_def)
  have sg: "\<lparr>sg_seq = 100, sg_ack = rcv_nxt (pcb ex_seg_conn), sg_win = ucast (rcv_wnd (pcb ex_seg_conn)), sg_flags = TCP_ACK OR TCP_PUSH,
      sg_len = of_nat (length [7, 8, 9 :: u8]) + (if (TCP_ACK OR TCP_PUSH) AND TCP_FIN \<noteq> 0 then 1 else 0)\<rparr> = ex_sg"
    by (simp add: ex_sg_def ex_seg_conn_def TCP_ACK_def TCP_PUSH_def TCP_FIN_def)
  have l: "length [7, 8, 9 :: u8] \<le> TCP_MSS" "length (io_mac ex_rcv_net) = 6" "length (replicate 6 (2 :: u8)) = 6" by (simp_all add: TCP_MSS_def e(1))
  obtain m n1 m' m'' where r: "net_rx_one ex_rcv_net \<lparr>rh_completion_data = 0, rh_csum_type = CHECKSUM_TYPE_UNNECESSARY, rh_payload = ?fr\<rparr> = Some (Some m, n1)"
      "trans_lookup n1 m = Some (trans_find ex_rcv_net IPPROTO_TCP (raddr ex_seg_conn) (laddr ex_seg_conn), m')"
      "tcp_rx_parse m' = Some (Some (ex_sg, m''))" "mbuf_ok m''" "mbuf_data m'' = [7, 8, 9]"
    using segment_received [OF t(2) [folded e(1)] l e(2,3), of 0] unfolding sg by blast
  obtain c n c' n2 where x: "tcp_rx_conn ex_rcv ex_rcv_net 1 m' = Some (c, n)" "rcv_nxt (pcb c) = 103"
      "tcp_read c n 1 2 = Some (Returns (2, [7, 8]), c', n2)" "\<not> failed c'" using ex_received [OF r(3-5)] by blast
  have fl: "tcphdr_flags ?fr 34 AND TCP_FIN = 0" using seg_frame_flags [OF t(2)] by (simp add: TCP_ACK_def TCP_PUSH_def TCP_FIN_def)
  have "end_run ?d 100 s n' [7, 8, 9] False {(q, ?fr)} c [] (0 + unat (rcv_nxt (pcb c) - rcv_nxt (pcb ex_rcv)))"
    by (rule end_run.receive [where p = q, OF r1 _ _ _ _ e r(1,2) x(1)]) (use q(2) fl in auto)
  then have "end_run ?d 100 s n' [7, 8, 9] False {(q, ?fr)} c [] 3" using x(2) by (simp add: ex_rcv_def)
  from end_run.read [OF this x(3)] have "end_run ?d 100 s n' [7, 8, 9] False {(q, ?fr)} c' [7, 8] 3" by simp
  with tcp_end_to_end [OF this] x(4) show ?thesis by (intro exI [of _ s] exI [of _ n'] exI [of _ "{(q, ?fr)}"] exI [of _ c']) simp
qed

end
