(* ===== verification/Tcp_Readv.thy ===== *)
theory Tcp_Readv
  imports Tcp_Sock
begin

text \<open>
  Vectored reading from a TCP connection (\<^verbatim>\<open>tcp_readv\<close> and \<^verbatim>\<open>iov_len\<close> of \<^verbatim>\<open>libos/net/tcp.c\<close>), as it is written: the vectors are given by their
  lengths, and \<open>past\<close> is the length that lies in memory behind the last of them, which \<^verbatim>\<open>iov_len\<close> reads. The copies are listed with the vector and the
  offset they go to. \<open>None\<close> is a failed \<^verbatim>\<open>assert\<close> or \<^verbatim>\<open>BUG_ON\<close>, an access through a null pointer, or a copy into a vector that does not exist.
\<close>

definition iov_len :: "nat list \<Rightarrow> nat \<Rightarrow> nat" where
  "iov_len iov past = length iov * past"

text \<open>The buffer read from, the vector and the offset written to next, and the copies made.\<close>

type_synonym readv_st = "mbuf \<times> nat \<times> nat \<times> (nat \<times> nat \<times> u8 list) list"

text \<open>The part that the bodies of both inner loops share. The offset never exceeds the length of its vector.\<close>

fun readv_copy :: "nat list \<Rightarrow> readv_st \<Rightarrow> readv_st option" where
  "readv_copy iov (m, i, offset, ws) =
     (if i \<ge> length iov \<or> offset > iov ! i then None
      else let cpylen = min (iov ! i - offset) (mbuf_length m); ws = ws @ [(i, offset, take cpylen (mbuf_data m))]
           in map_option (\<lambda>m. let offset = offset + cpylen in if offset = iov ! i then (m, i + 1, 0, ws) else (m, i, offset, ws))
                (mbuf_pull m cpylen))"

text \<open>Every copy takes a byte off the buffer or comes to the next vector.\<close>

lemma readv_copy_progress:
  assumes "readv_copy iov (m, i, offset, ws) = Some (m', i', offset', ws')" "mbuf_length m' > 0"
  shows "m_len m' + (length iov - i') < m_len m + (length iov - i)"
  using assms uint_sub_le [of "iov ! i - offset" "m_len m"] uint_sub_le [of "m_len m" "m_len m"]
  by (auto simp: mbuf_pull_def mbuf_pull_unchecked_def mbuf_length_def Let_def min_def split: if_splits)

text \<open>The loop over a buffer that is read as a whole. It reads from \<^verbatim>\<open>m\<close>, the buffer that is read in part.\<close>

function readv_whole :: "nat list \<Rightarrow> readv_st \<Rightarrow> readv_st option" where
  "readv_whole iov s =
     (case readv_copy iov s of
        None \<Rightarrow> None
      | Some (m, i, offset, ws) \<Rightarrow>
          if i > length iov then None
          else if mbuf_length m > 0 then readv_whole iov (m, i, offset, ws) else Some (m, i, offset, ws))"
  by pat_completeness auto
termination
  by (relation "measure (\<lambda>(iov, m, i, offset, ws). m_len m + (length iov - i))") (auto dest!: readv_copy_progress)

function readv_part :: "nat list \<Rightarrow> readv_st \<Rightarrow> readv_st option" where
  "readv_part iov s =
     (case readv_copy iov s of
        None \<Rightarrow> None
      | Some (m, i, offset, ws) \<Rightarrow>
          if mbuf_length m = 0 then None
          else let m = m\<lparr>seg_seq := seg_seq m + of_nat (length (snd (snd (last ws))))\<rparr>
               in if i < length iov then readv_part iov (m, i, offset, ws) else Some (m, i, offset, ws))"
  by pat_completeness auto
termination
  by (relation "measure (\<lambda>(iov, m, i, offset, ws). m_len m + (length iov - i))") (auto dest!: readv_copy_progress)

declare readv_whole.simps [simp del] readv_part.simps [simp del]

text \<open>The outer loop runs once for each buffer of the list; \<^verbatim>\<open>m\<close> is null when no buffer is read in part.\<close>

fun readv_all :: "nat list \<Rightarrow> mbuf list \<Rightarrow> readv_st option \<Rightarrow> readv_st option option" where
  "readv_all iov [] s = Some s"
| "readv_all iov (cur # q) None = None"
| "readv_all iov (cur # q) (Some s) = Option.bind (readv_whole iov s) (\<lambda>s. readv_all iov q (Some s))"

definition tcp_readv ::
  "tcp_conn \<Rightarrow> net \<Rightarrow> nat \<Rightarrow> nat list \<Rightarrow> nat \<Rightarrow> ((int \<times> (nat \<times> nat \<times> u8 list) list) blocking \<times> tcp_conn \<times> net) option" where
  "tcp_readv c n self iov past = do {
     (r, c, n) \<leftarrow> tcp_read_wait c n self (iov_len iov past);
     case r of
       Blocks \<Rightarrow> Some (Blocks, c, n)
     | Returns (len, q, part) \<Rightarrow>
         if len \<le> 0 then Some (Returns (len, []), c, n)
         else do {
           s \<leftarrow> readv_all iov q (if part then Some (hd (rxq c), 0, 0, []) else None);
           case s of
             None \<Rightarrow> Some (Returns (len, []), tcp_read_finish c part, n)
           | Some s \<Rightarrow> do {
               (m, i, offset, ws) \<leftarrow> readv_part iov s;
               Some (Returns (len, ws), tcp_read_finish (c\<lparr>rxq := m # List.tl (rxq c)\<rparr>) part, n)
             }
         }
   }"

text \<open>
  What \<^verbatim>\<open>tcp_readv\<close> does on a connection with one received segment. When the segment fits into the length computed, it is read as a whole
  and the null pointer is used. When it is longer, the text of the first vector is right, if there is one vector only and the length behind it is the same.
\<close>

lemma tcp_readv_one_segment:
  assumes "rxq c = [m]" "\<not> rx_closed c" "\<not> rx_exclusive c" "\<not> rcv_wnd_full c" "m_flags m AND TCP_FIN = 0" "0 < m_len m" "m_len m < 2 ^ 32"
  shows "m_len m \<le> iov_len iov past \<Longrightarrow> tcp_readv c n self iov past = None"
    "0 < past \<and> past < m_len m \<Longrightarrow> \<exists>c'. tcp_readv c n self [past] past = Some (Returns (int past, [(0, 0, take past (mbuf_data m))]), c', n)"
proof -
  show "m_len m \<le> iov_len iov past \<Longrightarrow> tcp_readv c n self iov past = None"
    using assms by (simp add: tcp_readv_def tcp_read_wait_def mbuf_length_def Let_def)
  assume "0 < past \<and> past < m_len m"
  then show "\<exists>c'. tcp_readv c n self [past] past = Some (Returns (int past, [(0, 0, take past (mbuf_data m))]), c', n)"
    using assms by (simp add: tcp_readv_def tcp_read_wait_def mbuf_length_def Let_def iov_len_def readv_part.simps mbuf_pull_def mbuf_pull_unchecked_def)
qed

end
