(* ===== verification/Udp.thy ===== *)
theory Udp
  imports Net_Rx Tcp_Sock
begin

text \<open>
  UDP (\<^verbatim>\<open>libos/net/udp.c\<close>): sockets with a queue of received datagrams and a count of the buffers on their way out, spawners that
  start a task per datagram, and the functions that send without a socket.

  A wait queue is the list of the waiting tasks, and \<open>uc_woken\<close> lists the tasks woken up, in order; \<open>uc_freed\<close> tells that the socket has been handed to
  \<^verbatim>\<open>rcu_free\<close>. Operations that may wait evaluate their condition once, as in \<^verbatim>\<open>Tcp_Sock\<close>. \<open>None\<close> is a failed \<^verbatim>\<open>BUG_ON\<close> or \<^verbatim>\<open>assert\<close>.
\<close>

section \<open>Sockets\<close>

definition UDP_IN_DEFAULT_CAP :: int where "UDP_IN_DEFAULT_CAP = 512"
definition UDP_OUT_DEFAULT_CAP :: int where "UDP_OUT_DEFAULT_CAP = 2048"
definition UDP_MAX_PAYLOAD :: nat where "UDP_MAX_PAYLOAD = 1472"

abbreviation EMSGSIZE :: int where "EMSGSIZE \<equiv> 90"
abbreviation EDESTADDRREQ :: int where "EDESTADDRREQ \<equiv> 89"

definition udp_hdr :: "u16 \<Rightarrow> u16 \<Rightarrow> u16 \<Rightarrow> u8 list" where
  "udp_hdr src_port dst_port len = store16 (hton16 src_port) @ store16 (hton16 dst_port) @ store16 (hton16 len) @ store16 0"

definition udp_send_raw :: "net \<Rightarrow> nat \<Rightarrow> nat \<Rightarrow> netaddr \<Rightarrow> netaddr \<Rightarrow> (int \<times> net) option" where
  "udp_send_raw n a len l r = do {
     m \<leftarrow> mbuf_push_bytes (bufs n a) (udp_hdr (na_port l) (na_port r) (of_nat (len + 8)));
     net_tx_ip (set_buf n a m) a IPPROTO_UDP (na_ip r)
   }"

record udp_conn =
  uc_e :: trans_entry
  uc_shutdown :: bool
  inq_cap :: int
  inq_len :: int
  inq_err :: int
  inq_wq :: "nat list"
  inq :: "mbuf list"
  outq_free :: bool
  outq_cap :: int
  outq_len :: int
  outq_wq :: "nat list"
  uc_woken :: "nat list"
  uc_freed :: bool

definition signal_inq :: "udp_conn \<Rightarrow> udp_conn" where
  "signal_inq c = (case inq_wq c of [] \<Rightarrow> c | t # ts \<Rightarrow> c\<lparr>inq_wq := ts, uc_woken := uc_woken c @ [t]\<rparr>)"

definition signal_outq :: "udp_conn \<Rightarrow> udp_conn" where
  "signal_outq c = (case outq_wq c of [] \<Rightarrow> c | t # ts \<Rightarrow> c\<lparr>outq_wq := ts, uc_woken := uc_woken c @ [t]\<rparr>)"

definition release_inq :: "udp_conn \<Rightarrow> udp_conn" where
  "release_inq c = c\<lparr>inq_wq := [], uc_woken := uc_woken c @ inq_wq c\<rparr>"

definition release_outq :: "udp_conn \<Rightarrow> udp_conn" where
  "release_outq c = c\<lparr>outq_wq := [], uc_woken := uc_woken c @ outq_wq c\<rparr>"

definition udp_conn_recv :: "udp_conn \<Rightarrow> mbuf \<Rightarrow> udp_conn" where
  "udp_conn_recv c m =
     (case mbuf_pull_or_null m 8 of
        None \<Rightarrow> c
      | Some m \<Rightarrow>
          if inq_len c \<ge> inq_cap c \<or> inq_err c \<noteq> 0 \<or> uc_shutdown c then c
          else signal_inq (c\<lparr>inq := inq c @ [m], inq_len := inq_len c + 1\<rparr>))"

definition udp_conn_err :: "udp_conn \<Rightarrow> int \<Rightarrow> udp_conn" where
  "udp_conn_err c err =
     (let do_release = (inq_err c = 0 \<and> \<not> uc_shutdown c); c = c\<lparr>inq_err := err\<rparr>
      in if do_release then release_inq c else c)"

definition udp_init_conn :: "trans_entry \<Rightarrow> udp_conn" where
  "udp_init_conn e =
     \<lparr>uc_e = e, uc_shutdown = False, inq_cap = UDP_IN_DEFAULT_CAP, inq_len = 0, inq_err = 0, inq_wq = [], inq = [],
      outq_free = False, outq_cap = UDP_OUT_DEFAULT_CAP, outq_len = 0, outq_wq = [], uc_woken = [], uc_freed = False\<rparr>"

definition udp_release_conn :: "udp_conn \<Rightarrow> udp_conn option" where
  "udp_release_conn c = (if inq_wq c \<noteq> [] \<or> outq_wq c \<noteq> [] \<or> inq c \<noteq> [] then None else Some (c\<lparr>uc_freed := True\<rparr>))"

text \<open>The local address: only the one of the host is supported.\<close>

definition udp_local :: "net \<Rightarrow> netaddr \<Rightarrow> netaddr option" where
  "udp_local n l = (if na_ip l = 0 then Some (l\<lparr>na_ip := io_addr n\<rparr>) else if na_ip l \<noteq> io_addr n then None else Some l)"

text \<open>A new socket has the number \<open>s\<close>.\<close>

definition udp_dial :: "nat \<Rightarrow> net \<Rightarrow> netaddr \<Rightarrow> netaddr \<Rightarrow> (int + udp_conn) \<times> net" where
  "udp_dial s n l r =
     (case udp_local n l of
        None \<Rightarrow> (Inl (- EINVAL), n)
      | Some l \<Rightarrow>
          let (ok, n) = smalloc_answer n; e = trans_init_5tuple s IPPROTO_UDP l r
          in if \<not> ok then (Inl (- ENOMEM), n)
             else let (ret, e, n) = (if na_port l = 0 then trans_table_add_with_ephemeral_port n e
                                     else let (ret, n) = trans_table_add n e in (ret, e, n))
                  in if ret \<noteq> 0 then (Inl ret, n) else (Inr (udp_init_conn e), n))"

definition udp_listen :: "nat \<Rightarrow> net \<Rightarrow> netaddr \<Rightarrow> (int + udp_conn) \<times> net" where
  "udp_listen s n l =
     (case udp_local n l of
        None \<Rightarrow> (Inl (- EINVAL), n)
      | Some l \<Rightarrow>
          let (ok, n) = smalloc_answer n; e = trans_init_3tuple s IPPROTO_UDP l
          in if \<not> ok then (Inl (- ENOMEM), n)
             else let (ret, n) = trans_table_add n e in if ret \<noteq> 0 then (Inl ret, n) else (Inr (udp_init_conn e), n))"

definition udp_local_addr :: "udp_conn \<Rightarrow> netaddr" where "udp_local_addr c = te_laddr (uc_e c)"
definition udp_remote_addr :: "udp_conn \<Rightarrow> netaddr" where "udp_remote_addr c = te_raddr (uc_e c)"

definition udp_set_buffers :: "udp_conn \<Rightarrow> int \<Rightarrow> int \<Rightarrow> int \<times> udp_conn" where
  "udp_set_buffers c read_mbufs write_mbufs = (0, c\<lparr>inq_cap := read_mbufs, outq_cap := write_mbufs\<rparr>)"

section \<open>Reading\<close>

text \<open>The address of the sender, from the headers of a datagram.\<close>

definition udp_sender :: "mbuf \<Rightarrow> netaddr" where
  "udp_sender m = \<lparr>na_ip = iphdr_saddr (m_head m) (network_off m), na_port = ntoh16 (load16 (m_head m) (transport_off m))\<rparr>"

text \<open>The results are the value returned, the bytes copied and, if it is asked for, the address of the sender.\<close>

definition udp_read_from :: "udp_conn \<Rightarrow> nat \<Rightarrow> nat \<Rightarrow> bool \<Rightarrow> ((int \<times> u8 list \<times> netaddr option) blocking \<times> udp_conn) option" where
  "udp_read_from c self len want =
     (if inq c = [] \<and> inq_err c = 0 \<and> \<not> uc_shutdown c then Some (Blocks, c\<lparr>inq_wq := inq_wq c @ [self]\<rparr>)
      else if inq c = [] \<and> uc_shutdown c then Some (Returns (0, [], None), c)
      else if inq_err c \<noteq> 0 then Some (Returns (- inq_err c, [], None), c)
      else let m = hd (inq c); c = c\<lparr>inq := List.tl (inq c), inq_len := inq_len c - 1\<rparr>; bs = take len (mbuf_data m)
           in if want \<and> te_match (uc_e c) = TRANS_MATCH_5TUPLE \<and> te_raddr (uc_e c) \<noteq> udp_sender m then None
              else Some (Returns (int (min len (mbuf_length m)), bs, if want then Some (udp_sender m) else None), c))"

definition udp_read :: "udp_conn \<Rightarrow> nat \<Rightarrow> nat \<Rightarrow> ((int \<times> u8 list \<times> netaddr option) blocking \<times> udp_conn) option" where
  "udp_read c self len = udp_read_from c self len False"

section \<open>Writing\<close>

text \<open>The part of \<^verbatim>\<open>udp_tx_release_mbuf\<close> that concerns the socket.\<close>

definition udp_tx_released :: "udp_conn \<Rightarrow> udp_conn option" where
  "udp_tx_released c =
     (let c = c\<lparr>outq_len := outq_len c - 1\<rparr>; free_conn = (outq_free c \<and> outq_len c = 0);
          c = (if \<not> uc_shutdown c then signal_outq c else c)
      in if free_conn then udp_release_conn c else Some c)"

text \<open>What follows the wait: the buffer counts as being on its way out from here on.\<close>

definition udp_write_send :: "udp_conn \<Rightarrow> net \<Rightarrow> u8 list \<Rightarrow> netaddr \<Rightarrow> (int \<times> net) option" where
  "udp_write_send c n buf addr = do {
     (m, n) \<leftarrow> net_tx_alloc_mbuf n;
     case m of
       None \<Rightarrow> Some (- ENOBUFS, n)
     | Some a \<Rightarrow> do {
         m \<leftarrow> mbuf_put_bytes (bufs n a) buf;
         (ret, n) \<leftarrow> udp_send_raw (set_buf n a (m\<lparr>m_release := udp_tx_release_mbuf (te_sock (uc_e c))\<rparr>)) a (length buf) (te_laddr (uc_e c)) addr;
         if ret \<noteq> 0 then Some (ret, tx_release n a) else Some (int (length buf), n)
       }
   }"

definition udp_write_to :: "udp_conn \<Rightarrow> net \<Rightarrow> nat \<Rightarrow> u8 list \<Rightarrow> netaddr option \<Rightarrow> (int blocking \<times> udp_conn \<times> net) option" where
  "udp_write_to c n self buf r =
     (if length buf > UDP_MAX_PAYLOAD then Some (Returns (- EMSGSIZE), c, n)
      else if r = None \<and> te_match (uc_e c) = TRANS_MATCH_3TUPLE then Some (Returns (- EDESTADDRREQ), c, n)
      else if outq_len c \<ge> outq_cap c \<and> \<not> uc_shutdown c then Some (Blocks, c\<lparr>outq_wq := outq_wq c @ [self]\<rparr>, n)
      else if uc_shutdown c then Some (Returns (- EPIPE), c, n)
      else do {
        (ret, n) \<leftarrow> udp_write_send c n buf (case r of None \<Rightarrow> te_raddr (uc_e c) | Some r \<Rightarrow> r);
        Some (Returns ret, c\<lparr>outq_len := outq_len c + 1\<rparr>, n)
      })"

definition udp_write :: "udp_conn \<Rightarrow> net \<Rightarrow> nat \<Rightarrow> u8 list \<Rightarrow> (int blocking \<times> udp_conn \<times> net) option" where
  "udp_write c n self buf = udp_write_to c n self buf None"

section \<open>Closing\<close>

definition udp_shutdown_locked :: "udp_conn \<Rightarrow> net \<Rightarrow> (udp_conn \<times> net) option" where
  "udp_shutdown_locked c n =
     (if uc_shutdown c then None else map_option (Pair (c\<lparr>uc_shutdown := True\<rparr>)) (trans_table_remove n (uc_e c)))"

definition udp_shutdown :: "udp_conn \<Rightarrow> net \<Rightarrow> (udp_conn \<times> net) option" where
  "udp_shutdown c n = do {
     (c, n) \<leftarrow> udp_shutdown_locked c n;
     Some (release_outq (if inq_err c = 0 then release_inq c else c), n)
   }"

definition udp_close :: "udp_conn \<Rightarrow> net \<Rightarrow> (udp_conn \<times> net) option" where
  "udp_close c n = do {
     (c, n) \<leftarrow> (if uc_shutdown c then Some (c, n) else udp_shutdown_locked c n);
     if inq_wq c \<noteq> [] \<or> outq_wq c \<noteq> [] then None
     else do {
       let c = c\<lparr>inq := []\<rparr>;
       let free_conn = (outq_len c = 0);
       let c = c\<lparr>outq_free := True\<rparr>;
       c \<leftarrow> (if free_conn then udp_release_conn c else Some c);
       Some (c, n)
     }
   }"

section \<open>Spawners\<close>

record udp_spawn_data =
  usd_buf :: "u8 list"
  usd_laddr :: netaddr
  usd_raddr :: netaddr

text \<open>
  The data handed to the new task, if it is started; \<open>created\<close> and \<open>enqueued\<close> are the answers of \<^verbatim>\<open>task_create_with_buf\<close> and \<^verbatim>\<open>task_enqueue\<close>. The
  header is read at its place in the packet.
\<close>

definition udp_par_recv :: "trans_entry \<Rightarrow> mbuf \<Rightarrow> bool \<Rightarrow> bool \<Rightarrow> udp_spawn_data option" where
  "udp_par_recv e m created enqueued =
     (case mbuf_pull_or_null m 8 of
        None \<Rightarrow> None
      | Some m' \<Rightarrow>
          if \<not> created \<or> \<not> enqueued then None
          else Some \<lparr>usd_buf = mbuf_data m', usd_laddr = te_laddr e,
                 usd_raddr = \<lparr>na_ip = iphdr_saddr (m_head m) (network_off m), na_port = ntoh16 (load16 (m_head m) (m_data m))\<rparr>\<rparr>)"

text \<open>A spawner is its entry in the table.\<close>

definition udp_create_spawner :: "nat \<Rightarrow> net \<Rightarrow> netaddr \<Rightarrow> (int + trans_entry) \<times> net" where
  "udp_create_spawner s n l =
     (case udp_local n l of
        None \<Rightarrow> (Inl (- EINVAL), n)
      | Some l \<Rightarrow>
          let (ok, n) = smalloc_answer n; e = trans_init_3tuple s IPPROTO_UDP l
          in if \<not> ok then (Inl (- ENOMEM), n)
             else let (ret, n) = trans_table_add n e in if ret \<noteq> 0 then (Inl ret, n) else (Inr e, n))"

definition udp_destroy_spawner :: "trans_entry \<Rightarrow> net \<Rightarrow> net option" where
  "udp_destroy_spawner e n = trans_table_remove n e"

definition udp_send :: "net \<Rightarrow> u8 list \<Rightarrow> netaddr \<Rightarrow> netaddr \<Rightarrow> (int \<times> net) option" where
  "udp_send n buf l r =
     (if length buf > UDP_MAX_PAYLOAD then Some (- EMSGSIZE, n)
      else case udp_local n l of
        None \<Rightarrow> Some (- EINVAL, n)
      | Some l \<Rightarrow>
          if na_port l = 0 then Some (- EINVAL, n)
          else do {
            (m, n) \<leftarrow> net_tx_alloc_mbuf n;
            case m of
              None \<Rightarrow> Some (- ENOBUFS, n)
            | Some a \<Rightarrow> do {
                m \<leftarrow> mbuf_put_bytes (bufs n a) buf;
                (ret, n) \<leftarrow> udp_send_raw (set_buf n a m) a (length buf) l r;
                if ret \<noteq> 0 then Some (ret, mbuf_free n a) else Some (int (length buf), n)
              }
          })"

text \<open>The loop of \<^verbatim>\<open>udp_sendv\<close> over the vectors; \<open>Inl\<close> is a datagram that is too long.\<close>

fun sendv_loop :: "mbuf \<Rightarrow> nat \<Rightarrow> u8 list list \<Rightarrow> (mbuf + mbuf \<times> nat) option" where
  "sendv_loop m len [] = Some (Inr (m, len))"
| "sendv_loop m len (v # vs) =
     (let len = len + length v
      in if len > UDP_MAX_PAYLOAD then Some (Inl m) else do { m \<leftarrow> mbuf_put_bytes m v; sendv_loop m len vs })"

definition udp_sendv :: "net \<Rightarrow> u8 list list \<Rightarrow> netaddr \<Rightarrow> netaddr \<Rightarrow> (int \<times> net) option" where
  "udp_sendv n iov l r =
     (case udp_local n l of
        None \<Rightarrow> Some (- EINVAL, n)
      | Some l \<Rightarrow>
          if na_port l = 0 then Some (- EINVAL, n)
          else do {
            (m, n) \<leftarrow> net_tx_alloc_mbuf n;
            case m of
              None \<Rightarrow> Some (- ENOBUFS, n)
            | Some a \<Rightarrow> do {
                x \<leftarrow> sendv_loop (bufs n a) 0 iov;
                case x of
                  Inl m \<Rightarrow> Some (- EMSGSIZE, mbuf_free (set_buf n a m) a)
                | Inr (m, len) \<Rightarrow> do {
                    (ret, n) \<leftarrow> udp_send_raw (set_buf n a m) a len l r;
                    if ret \<noteq> 0 then Some (ret, mbuf_free n a) else Some (int len, n)
                  }
              }
          })"

definition udp_respond :: "net \<Rightarrow> u8 list \<Rightarrow> udp_spawn_data \<Rightarrow> (int \<times> net) option" where
  "udp_respond n buf d = udp_send n buf (usd_laddr d) (usd_raddr d)"

definition udp_respondv :: "net \<Rightarrow> u8 list list \<Rightarrow> udp_spawn_data \<Rightarrow> (int \<times> net) option" where
  "udp_respondv n iov d = udp_sendv n iov (usd_laddr d) (usd_raddr d)"

end
