(* ===== verification/Net_Stack.thy ===== *)
theory Net_Stack
  imports Udp
begin

text \<open>
  The network stack as a whole: the hand-over of packets and errors to the sockets (the second part of \<^verbatim>\<open>libos/net/transport.c\<close>),
  \<^verbatim>\<open>net_rx_softirq\<close> (\<^verbatim>\<open>libos/net/core.c\<close>), and the soft interrupt that drives it (\<^verbatim>\<open>libos/sched/softirq.c\<close>).

  The sockets are numbered, and \<open>te_sock\<close> of an entry of the transport table leads to its socket. Errors that the lower
  layers report (\<open>net_errors\<close>) and the releases of buffers of UDP sockets (\<open>udp_done\<close>) are delivered to the sockets at the end of the operation in which they
  occur: the code in between does not look at the sockets.
\<close>

section \<open>Sockets\<close>

datatype sock = Tcp_conn tcp_conn | Tcp_queue tcp_queue | Udp_conn udp_conn | Udp_spawner trans_entry

text \<open>
  \<open>st_next\<close> is the number for the next connection, \<open>st_tasks\<close> collects the data of the tasks that spawners start, and \<open>st_task_ok\<close>
  the answers of \<^verbatim>\<open>task_create_with_buf\<close> and \<^verbatim>\<open>task_enqueue\<close>.
\<close>

record stack =
  st_net :: net
  st_socks :: "nat \<Rightarrow> sock option"
  st_next :: nat
  st_tasks :: "udp_spawn_data list"
  st_task_ok :: "(bool \<times> bool) list"

definition set_sock :: "stack \<Rightarrow> nat \<Rightarrow> sock \<Rightarrow> net \<Rightarrow> stack" where
  "set_sock s k x n = s\<lparr>st_net := n, st_socks := (st_socks s)(k \<mapsto> x)\<rparr>"

text \<open>The methods \<^verbatim>\<open>recv\<close> and \<^verbatim>\<open>err\<close> of an entry.\<close>

definition trans_recv :: "stack \<Rightarrow> trans_entry \<Rightarrow> mbuf \<Rightarrow> stack option" where
  "trans_recv s e m =
     (let k = te_sock e; n = st_net s
      in case st_socks s k of
           None \<Rightarrow> None
         | Some (Tcp_conn c) \<Rightarrow> do { (c, n) \<leftarrow> tcp_rx_conn c n (snd_nxt (pcb c)) m; Some (set_sock s k (Tcp_conn c) n) }
         | Some (Tcp_queue q) \<Rightarrow> do {
             (c, q, n) \<leftarrow> tcp_queue_recv (st_next s) q n m;
             let s = set_sock s k (Tcp_queue q) n;
             Some (case c of None \<Rightarrow> s | Some c \<Rightarrow> (set_sock s (st_next s) (Tcp_conn c) n)\<lparr>st_next := st_next s + 1\<rparr>)
           }
         | Some (Udp_conn c) \<Rightarrow> Some (set_sock s k (Udp_conn (udp_conn_recv c m)) n)
         | Some (Udp_spawner e) \<Rightarrow>
             let (ok, oks) = (case st_task_ok s of [] \<Rightarrow> ((False, False), []) | b # bs \<Rightarrow> (b, bs))
             in Some (case udp_par_recv e m (fst ok) (snd ok) of
                        None \<Rightarrow> s\<lparr>st_task_ok := oks\<rparr>
                      | Some d \<Rightarrow> s\<lparr>st_task_ok := oks, st_tasks := st_tasks s @ [d]\<rparr>))"

definition trans_err :: "stack \<Rightarrow> trans_entry \<Rightarrow> int \<Rightarrow> stack option" where
  "trans_err s e err =
     (let k = te_sock e; n = st_net s
      in case st_socks s k of
           None \<Rightarrow> None
         | Some (Tcp_conn c) \<Rightarrow> do { (c, n) \<leftarrow> tcp_conn_err c n err; Some (set_sock s k (Tcp_conn c) n) }
         | Some (Udp_conn c) \<Rightarrow> Some (set_sock s k (Udp_conn (udp_conn_err c err)) n)
         | Some _ \<Rightarrow> Some s)"

fun net_rx_trans :: "stack \<Rightarrow> mbuf list \<Rightarrow> stack option" where
  "net_rx_trans s [] = Some s"
| "net_rx_trans s (m # ms) = do {
     (e, m) \<leftarrow> trans_lookup (st_net s) m;
     s \<leftarrow> (case e of
             None \<Rightarrow>
               if iphdr_proto (m_head m) (network_off m) = IPPROTO_TCP
               then map_option (\<lambda>n. s\<lparr>st_net := n\<rparr>) (tcp_rx_closed (st_net s) m) else Some s
           | Some e \<Rightarrow> trans_recv s e m);
     net_rx_trans s ms
   }"

definition trans_error :: "stack \<Rightarrow> mbuf \<Rightarrow> int \<Rightarrow> stack option" where
  "trans_error s m err = do {
     (e, m) \<leftarrow> trans_lookup (st_net s) m;
     case e of None \<Rightarrow> Some s | Some e \<Rightarrow> trans_err s e err
   }"

text \<open>The delivery of the reports of the lower layers.\<close>

fun deliver_errors :: "stack \<Rightarrow> (mbuf \<times> int) list \<Rightarrow> stack option" where
  "deliver_errors s [] = Some s"
| "deliver_errors s ((m, err) # es) = do { s \<leftarrow> trans_error s m err; deliver_errors s es }"

fun deliver_released :: "stack \<Rightarrow> nat list \<Rightarrow> stack option" where
  "deliver_released s [] = Some s"
| "deliver_released s (k # ks) =
     (case st_socks s k of
        Some (Udp_conn c) \<Rightarrow> do { c \<leftarrow> udp_tx_released c; deliver_released (set_sock s k (Udp_conn c) (st_net s)) ks }
      | _ \<Rightarrow> None)"

definition settle :: "stack \<Rightarrow> stack option" where
  "settle s = do {
     s \<leftarrow> deliver_errors (s\<lparr>st_net := (st_net s)\<lparr>net_errors := []\<rparr>\<rparr>) (net_errors (st_net s));
     deliver_released (s\<lparr>st_net := (st_net s)\<lparr>udp_done := []\<rparr>\<rparr>) (udp_done (st_net s))
   }"

definition net_rx_softirq :: "stack \<Rightarrow> rx_net_hdr list \<Rightarrow> stack option" where
  "net_rx_softirq s hdrs = do {
     (ms, n) \<leftarrow> net_rx_all (st_net s) hdrs;
     net_rx_trans (s\<lparr>st_net := n\<rparr>) ms
   }"

section \<open>Soft interrupts\<close>

datatype rx_cmd = RX_NET_RECV rx_net_hdr | RX_NET_COMPLETE nat | RX_INVALID u64

record softirq_work =
  recv_reqs :: "rx_net_hdr list"
  compl_reqs :: "nat list"
  timer_budget :: int

text \<open>The loop of \<^verbatim>\<open>softirq_gather_work\<close>: its condition decrements the budget also when the loop ends. The second result is what is left in the queue.\<close>

fun gather :: "int \<Rightarrow> rx_cmd list \<Rightarrow> softirq_work \<times> rx_cmd list" where
  "gather b [] = (\<lparr>recv_reqs = [], compl_reqs = [], timer_budget = b - 1\<rparr>, [])"
| "gather b (x # q) =
     (if b \<le> 0 then (\<lparr>recv_reqs = [], compl_reqs = [], timer_budget = b - 1\<rparr>, x # q)
      else let (w, q) = gather (b - 1) q
           in case x of
                RX_NET_RECV h \<Rightarrow> (w\<lparr>recv_reqs := h # recv_reqs w\<rparr>, q)
              | RX_NET_COMPLETE a \<Rightarrow> (w\<lparr>compl_reqs := a # compl_reqs w\<rparr>, q)
              | RX_INVALID _ \<Rightarrow> (w, q))"

definition softirq_gather_work :: "int \<Rightarrow> rx_cmd list \<Rightarrow> softirq_work \<times> rx_cmd list" where
  "softirq_gather_work budget q = gather (min budget (int SOFTIRQ_MAX_BUDGET)) q"

text \<open>
  The network part of \<^verbatim>\<open>softirq_fn\<close>: completed buffers are freed, then the packets are delivered. The budget of the timers goes to \<^verbatim>\<open>timer_softirq\<close>, whose
  parameter is unsigned.
\<close>

definition softirq_fn :: "stack \<Rightarrow> softirq_work \<Rightarrow> stack option" where
  "softirq_fn s w = do {
     s \<leftarrow> settle (s\<lparr>st_net := foldl mbuf_free (st_net s) (compl_reqs w)\<rparr>);
     s \<leftarrow> net_rx_softirq s (recv_reqs w);
     settle s
   }"

definition softirq_timer_budget :: "softirq_work \<Rightarrow> u32" where
  "softirq_timer_budget w = of_int (timer_budget w)"

definition softirq_pending :: "rx_cmd list \<Rightarrow> bool \<Rightarrow> bool" where
  "softirq_pending q timer_needed \<longleftrightarrow> q \<noteq> [] \<or> timer_needed"

text \<open>The closure of a task for the work, if there is any and the task can be created; the second result is what is left in the queue.\<close>

definition softirq_task :: "rx_cmd list \<Rightarrow> bool \<Rightarrow> bool \<Rightarrow> int \<Rightarrow> softirq_work option \<times> rx_cmd list" where
  "softirq_task q timer_needed created budget =
     (if \<not> softirq_pending q timer_needed \<or> \<not> created then (None, q)
      else let (w, q) = softirq_gather_work budget q in (Some w, q))"

definition softirq_run :: "stack \<Rightarrow> rx_cmd list \<Rightarrow> bool \<Rightarrow> int \<Rightarrow> (bool \<times> stack \<times> rx_cmd list) option" where
  "softirq_run s q timer_needed budget =
     (if \<not> softirq_pending q timer_needed then Some (False, s, q)
      else let (w, q) = softirq_gather_work budget q in map_option (\<lambda>s. (True, s, q)) (softirq_fn s w))"

end
