(* ===== verification/Udp_Deliver.thy ===== *)
theory Udp_Deliver
  imports Net_Stack Net_Frame
begin

text \<open>
  UDP from one host to another, and the queues of a socket: datagrams arrive whole, with the address of their sender, and are
  read in the order in which the socket took them.
\<close>

section \<open>From host to host\<close>

text \<open>A datagram as it is on the wire.\<close>

definition udp_frame :: "u8 list \<Rightarrow> u8 list \<Rightarrow> u16 \<Rightarrow> netaddr \<Rightarrow> netaddr \<Rightarrow> u8 list \<Rightarrow> u8 list" where
  "udp_frame dhost shost ipid l r buf =
     ip_frame dhost shost ipid IPPROTO_UDP (na_ip l) (na_ip r) (udp_hdr (na_port l) (na_port r) (of_nat (length buf + 8)) @ buf)"

lemma length_udp_hdr [simp]: "length (udp_hdr s d l) = 8"
  by (simp add: udp_hdr_def)

lemma udp_send_frame:
  assumes "tx_free n = a # as" "length (m_head (bufs n a)) = 1920" "length (io_mac n) = 6" "length buf \<le> UDP_MAX_PAYLOAD"
    "arp_known n (net_get_ip_route n (na_ip r)) dhost" "length dhost = 6" "na_ip l = io_addr n" "na_ip l \<noteq> 0" "na_port l \<noteq> 0"
  shows "\<exists>n' ipid. udp_send n buf l r = Some (int (length buf), n') \<and> tx_queue n' = tx_queue n @ [a] \<and>
    frame n' a = udp_frame dhost (io_mac n) ipid l r buf"
proof -
  obtain m where m: "net_tx_alloc_mbuf n = Some (Some a, set_buf (n\<lparr>tx_free := as\<rparr>) a m)" "mbuf_ok m" "m_data m = 128" "mbuf_data m = []"
    "head_len m = 1920" "m_len m = 0"
    using assms(1,2) by (rule tx_alloc_spec)
  let ?n1 = "set_buf (n\<lparr>tx_free := as\<rparr>) a m"
  obtain m1 where m1: "mbuf_put_bytes m buf = Some m1" "mbuf_ok m1" "mbuf_data m1 = buf" "m_data m1 = 128"
    using mbuf_put_data [OF m(2), of buf] m(3-6) assms(4) by (auto simp: UDP_MAX_PAYLOAD_def)
  let ?h = "udp_hdr (na_port l) (na_port r) (of_nat (length buf + 8))"
  obtain m2 where m2: "mbuf_push_bytes m1 ?h = Some m2" "mbuf_ok m2" "mbuf_data m2 = ?h @ buf" "m_data m2 = 120"
    using mbuf_push_data [OF m1(2), of ?h] m1(3,4) by auto
  let ?n2 = "set_buf (set_buf ?n1 a m1) a m2"
  have r: "net_get_ip_route ?n2 (na_ip r) = net_get_ip_route n (na_ip r)" "io_mac ?n2 = io_mac n" "io_addr ?n2 = io_addr n" "tx_queue ?n2 = tx_queue n"
    by (simp_all add: net_get_ip_route_def set_buf_def tx_queue_def)
  have k: "arp_known ?n2 (net_get_ip_route n (na_ip r)) dhost" using assms(5) by (simp add: arp_known_def lookup_entry_def set_buf_def)
  obtain n' ipid where t: "net_tx_ip ?n2 a IPPROTO_UDP (na_ip r) = Some (0, n')" "tx_queue n' = tx_queue n @ [a]"
      "frame n' a = ip_frame dhost (io_mac n) ipid IPPROTO_UDP (io_addr n) (na_ip r) (?h @ buf)"
    using net_tx_ip_spec [of ?n2 a "na_ip r" dhost IPPROTO_UDP] m2(2-4) assms(3,6) k r by auto
  have "udp_send n buf l r = Some (int (length buf), n')"
    using assms(4,7,8,9) m(1) m1(1) m2(1) t(1) by (simp add: udp_send_def udp_local_def udp_send_raw_def)
  then show ?thesis using t(2,3) assms(7) by (auto simp: udp_frame_def)
qed

lemma udp_hdr_ports:
  "load16 (udp_hdr s d len @ r) 0 = hton16 s" "load16 (udp_hdr s d len @ r) 2 = hton16 d"
  using load_at(1) [of "[]" 0 "hton16 s"] load_at(1) [of "store16 (hton16 s)" 2 "hton16 d"] by (simp_all add: udp_hdr_def)

text \<open>A datagram that arrives at a host is handed to the socket that the transport table has for its addresses.\<close>

lemma udp_frame_received:
  assumes "rx_pool (st_net s) = m0 # ms" "length (m_head m0) = 1920" "length (io_mac (st_net s)) = 6" "length shost = 6"
    "rh_payload hdr = udp_frame (io_mac (st_net s)) shost ipid l r buf" "rh_csum_type hdr = CHECKSUM_TYPE_UNNECESSARY"
    "length buf \<le> UDP_MAX_PAYLOAD" "trans_find (st_net s) IPPROTO_UDP r l = Some e" "st_socks s (te_sock e) = Some (Udp_conn c)"
    "inq_len c < inq_cap c" "inq_err c = 0" "\<not> uc_shutdown c"
  shows "\<exists>s' m. net_rx_softirq s [hdr] = Some s' \<and> mbuf_ok m \<and> mbuf_data m = buf \<and> udp_sender m = l \<and>
    st_socks s' = (st_socks s)(te_sock e \<mapsto> Udp_conn (signal_inq (c\<lparr>inq := inq c @ [m], inq_len := inq_len c + 1\<rparr>)))"
proof -
  let ?l4 = "udp_hdr (na_port l) (na_port r) (of_nat (length buf + 8)) @ buf"
  let ?n = "net_rx_send_completion (st_net s\<lparr>rx_pool := ms\<rparr>) (rh_completion_data hdr)"
  have "length ?l4 \<le> 1886" using assms(7) by (simp add: UDP_MAX_PAYLOAD_def)
  then obtain m where m: "net_rx_one (st_net s) hdr = Some (Some m, ?n)" "l4_packet m IPPROTO_UDP (na_ip l) (na_ip r) ?l4"
    using net_rx_one_spec [OF assms(1-4) _ assms(6), of ipid IPPROTO_UDP "na_ip l" "na_ip r" ?l4] assms(5) by (auto simp: udp_frame_def)
  have p: "mbuf_ok m" "mbuf_data m = ?l4" "network_off m = 14" "m_data m = 34" "iphdr_proto (m_head m) 14 = IPPROTO_UDP"
      "iphdr_saddr (m_head m) 14 = na_ip l" "iphdr_daddr (m_head m) 14 = na_ip r"
    using m(2) by (simp_all add: l4_packet_def)
  have len: "m_len m = 8 + length buf" using mbuf_data_length [OF p(1)] p(2) by simp
  have tf: "trans_find ?n IPPROTO_UDP r l = Some e"
    using assms(8) trans_find_cong [of ?n "st_net s"] by (simp add: net_rx_send_completion_def)
  let ?m = "m\<lparr>transport_off := 34\<rparr>"
  have ports: "load16 (m_head m) 34 = hton16 (na_port l)"
    using load16_data [OF p(1), of 0] len p(2,4) by (simp add: udp_hdr_ports)
  have lk: "trans_lookup ?n m = Some (Some e, ?m)"
    using trans_lookup_l4 [OF m(2), of ?n] tf by (simp add: udp_hdr_ports)
  define m' where "m' = mbuf_pull_unchecked ?m 8"
  have ok: "mbuf_ok ?m" "mbuf_data ?m = ?l4" using p(1,2) by (simp_all add: mbuf_ok_def mbuf_data_def head_len_def)
  have m': "mbuf_ok m'" "mbuf_data m' = buf" using mbuf_pull_data [OF ok(1), of 8] ok(2) len by (simp_all add: m'_def)
  have snd: "udp_sender m' = l" using p(3,6) ports by (simp add: udp_sender_def m'_def mbuf_pull_unchecked_def)
  have "udp_conn_recv c ?m = signal_inq (c\<lparr>inq := inq c @ [m'], inq_len := inq_len c + 1\<rparr>)"
    using assms(10-12) len by (simp add: udp_conn_recv_def mbuf_pull_or_null_def m'_def)
  then have "net_rx_softirq s [hdr] = Some (set_sock (s\<lparr>st_net := ?n\<rparr>) (te_sock e) (Udp_conn (signal_inq (c\<lparr>inq := inq c @ [m'], inq_len := inq_len c + 1\<rparr>))) ?n)"
    using m(1) lk assms(9) by (simp add: net_rx_softirq_def trans_recv_def Let_def)
  then show ?thesis using m' snd by (intro exI [of _ m'] exI conjI) (auto simp: set_sock_def)
qed

text \<open>C5: 
  The datagram that \<^verbatim>\<open>udp_send\<close> sends from one host to another arrives whole. When the sender knows the Ethernet address of the next
  hop and has a buffer, \<^verbatim>\<open>udp_send\<close> returns the length and queues one frame for the I/O kernel. A host with the address in that frame that receives it unchanged
  puts the payload at the end of the queue of the socket that the transport table has for the addresses, unless the socket is full, failed or
  shut down; and when nothing else is queued, the next read gets exactly the payload and the address of the sender.
\<close>

theorem udp_datagram_roundtrip:
  assumes "tx_free n = a # as" "length (m_head (bufs n a)) = 1920" "length (io_mac n) = 6" "length buf \<le> UDP_MAX_PAYLOAD"
    "arp_known n (net_get_ip_route n (na_ip r)) (io_mac (st_net s))" "na_ip l = io_addr n" "na_ip l \<noteq> 0" "na_port l \<noteq> 0"
    "length (io_mac (st_net s)) = 6" "rx_pool (st_net s) = m0 # ms" "length (m_head m0) = 1920"
    "trans_ok (st_net s)" "trans_find (st_net s) IPPROTO_UDP r l = Some e" "st_socks s (te_sock e) = Some (Udp_conn c)" "uc_e c = e"
    "inq_len c < inq_cap c" "inq_err c = 0" "\<not> uc_shutdown c"
  shows "\<exists>n'. udp_send n buf l r = Some (int (length buf), n') \<and> tx_queue n' = tx_queue n @ [a] \<and>
    (\<forall>d. \<exists>s' c' m. net_rx_softirq s [\<lparr>rh_completion_data = d, rh_csum_type = CHECKSUM_TYPE_UNNECESSARY, rh_payload = frame n' a\<rparr>] = Some s' \<and>
       st_socks s' (te_sock e) = Some (Udp_conn c') \<and> (\<forall>k. k \<noteq> te_sock e \<longrightarrow> st_socks s' k = st_socks s k) \<and>
       inq c' = inq c @ [m] \<and> mbuf_data m = buf \<and> udp_sender m = l \<and>
       (inq c = [] \<and> length buf \<le> len \<longrightarrow>
          (\<exists>c''. udp_read_from c' self len True = Some (Returns (int (length buf), buf, Some l), c'') \<and> inq c'' = [])))"
proof -
  obtain n' ipid where u: "udp_send n buf l r = Some (int (length buf), n')" "tx_queue n' = tx_queue n @ [a]"
      "frame n' a = udp_frame (io_mac (st_net s)) (io_mac n) ipid l r buf"
    using udp_send_frame [OF assms(1-5,9,6,7,8)] by blast
  have e: "te_match e = TRANS_MATCH_5TUPLE \<Longrightarrow> te_raddr e = l"
    using assms(13) by (auto simp: trans_find_spec [OF assms(12)] match5_def match3_def)
  have "\<exists>s' c' m. net_rx_softirq s [\<lparr>rh_completion_data = d, rh_csum_type = CHECKSUM_TYPE_UNNECESSARY, rh_payload = frame n' a\<rparr>] = Some s' \<and>
       st_socks s' (te_sock e) = Some (Udp_conn c') \<and> (\<forall>k. k \<noteq> te_sock e \<longrightarrow> st_socks s' k = st_socks s k) \<and>
       inq c' = inq c @ [m] \<and> mbuf_data m = buf \<and> udp_sender m = l \<and>
       (inq c = [] \<and> length buf \<le> len \<longrightarrow>
          (\<exists>c''. udp_read_from c' self len True = Some (Returns (int (length buf), buf, Some l), c'') \<and> inq c'' = []))" for d
  proof -
    let ?hdr = "\<lparr>rh_completion_data = d, rh_csum_type = CHECKSUM_TYPE_UNNECESSARY, rh_payload = frame n' a\<rparr>"
    obtain s' m where m: "net_rx_softirq s [?hdr] = Some s'" "mbuf_ok m" "mbuf_data m = buf" "udp_sender m = l"
        "st_socks s' = (st_socks s)(te_sock e \<mapsto> Udp_conn (signal_inq (c\<lparr>inq := inq c @ [m], inq_len := inq_len c + 1\<rparr>)))"
      using udp_frame_received [OF assms(10,11,9,3), of ?hdr ipid l r buf e c] u(3) assms(4,13,14,16-18) by auto
    let ?c = "signal_inq (c\<lparr>inq := inq c @ [m], inq_len := inq_len c + 1\<rparr>)"
    have c: "inq ?c = inq c @ [m]" "inq_err ?c = 0" "uc_shutdown ?c = uc_shutdown c" "uc_e ?c = e"
      using assms(15,17) by (simp_all add: signal_inq_def split: list.split)
    have "m_len m = length buf" using mbuf_data_length [OF m(2)] m(3) by simp
    then have "\<exists>c''. udp_read_from ?c self len True = Some (Returns (int (length buf), buf, Some l), c'') \<and> inq c'' = []"
      if "inq c = []" "length buf \<le> len"
      using that c e m(3,4) by (simp add: udp_read_from_def mbuf_length_def)
    then show ?thesis using m c by (intro exI [of _ s'] exI [of _ ?c] exI [of _ m]) simp
  qed
  then show ?thesis using u(1,2) by blast
qed

text \<open>Two hosts on one network: the second has a socket that listens on port 9.\<close>

definition ex_udp_net :: "u8 \<Rightarrow> u32 \<Rightarrow> net" where
  "ex_udp_net mac ip = \<lparr>io_mac = replicate 6 mac, io_addr = ip, io_netmask = 0xffffff00, io_gateway = 0x0a0000fe,
     bufs = (\<lambda>a. \<lparr>m_head = replicate 1920 0, m_data = 0, m_len = 0, txflags = 0, network_off = 0, transport_off = 0,
       m_release = net_tx_release_mbuf, m_timestamp = 0, seg_seq = 0, seg_end = 0, m_flags = 0, m_ref = 0\<rparr>),
     tx_free = [0, 1], txpktq = [], txpktq_size = 2, txpktq_overflow = [], arp_tbl = (\<lambda>i. []), smalloc_ok = [True, True],
     clock = of_nat, ticks = 0, net_errors = [], trans_seed = 1, ephemeral_offset = 0, trans_tbl = (\<lambda>i. []), tcp_conns = [],
     rx_pool = [\<lparr>m_head = replicate 1920 0, m_data = 0, m_len = 0, txflags = 0, network_off = 0, transport_off = 0,
       m_release = net_tx_release_mbuf, m_timestamp = 0, seg_seq = 0, seg_end = 0, m_flags = 0, m_ref = 0\<rparr>],
     txcmdq = [], txcmdq_size = 2, udp_done = []\<rparr>"

definition ex_sender :: net where
  "ex_sender = insert_entry (ex_udp_net 2 0x0a000001)
     \<lparr>ae_state = ARP_STATE_STATIC, ae_ip = 0x0a000002, ae_eth = replicate 6 4, ae_q = [], ae_ts = 0, ae_tries_left = 0\<rparr> (hash_ip 0x0a000002)"

definition ex_entry :: trans_entry where
  "ex_entry = trans_init_3tuple 7 IPPROTO_UDP \<lparr>na_ip = 0x0a000002, na_port = 9\<rparr>"

definition ex_receiver :: stack where
  "ex_receiver = \<lparr>st_net = snd (trans_table_add (ex_udp_net 4 0x0a000002) ex_entry), st_socks = [7 \<mapsto> Udp_conn (udp_init_conn ex_entry)],
     st_next = 8, st_tasks = [], st_task_ok = []\<rparr>"

lemma ex_receiver_table:
  "trans_ok (st_net ex_receiver)" "trans_find (st_net ex_receiver) IPPROTO_UDP \<lparr>na_ip = 0x0a000002, na_port = 9\<rparr> l = Some ex_entry"
proof -
  have ok: "trans_ok (ex_udp_net 4 0x0a000002)" by (simp add: trans_ok_def ex_udp_net_def)
  have "fst (trans_table_add (ex_udp_net 4 0x0a000002) ex_entry) = 0"
    by (simp add: trans_table_add_def ex_udp_net_def ex_entry_def trans_init_3tuple_def)
  then have a: "trans_table_add (ex_udp_net 4 0x0a000002) ex_entry = (0, st_net ex_receiver)" by (simp add: ex_receiver_def prod_eq_iff)
  note t = trans_table_add_ok [OF ok a]
  show "trans_ok (st_net ex_receiver)" by (rule t)
  have "trans_set (st_net ex_receiver) = {ex_entry}" unfolding t(2) by (simp add: trans_set_def ex_udp_net_def)
  then show "trans_find (st_net ex_receiver) IPPROTO_UDP \<lparr>na_ip = 0x0a000002, na_port = 9\<rparr> l = Some ex_entry"
    by (simp add: trans_find_spec [OF t(1)] match3_def match5_def ex_entry_def trans_init_3tuple_def)
qed

lemma ex_receiver_net: "io_mac (st_net ex_receiver) = replicate 6 4" "rx_pool (st_net ex_receiver) = rx_pool (ex_udp_net 4 0x0a000002)"
  by (simp_all add: ex_receiver_def trans_table_add_def Let_def ex_udp_net_def)

theorem udp_datagram_roundtrip_witness:
  "\<exists>n' s' c' c''. udp_send ex_sender [1, 2, 3] \<lparr>na_ip = 0x0a000001, na_port = 5\<rparr> \<lparr>na_ip = 0x0a000002, na_port = 9\<rparr> = Some (3, n') \<and>
     net_rx_softirq ex_receiver [\<lparr>rh_completion_data = 0, rh_csum_type = CHECKSUM_TYPE_UNNECESSARY, rh_payload = frame n' 0\<rparr>] = Some s' \<and>
     st_socks s' 7 = Some (Udp_conn c') \<and>
     udp_read_from c' 1 100 True = Some (Returns (3, [1, 2, 3], Some \<lparr>na_ip = 0x0a000001, na_port = 5\<rparr>), c'')"
proof -
  let ?l = "\<lparr>na_ip = 0x0a000001, na_port = 5\<rparr>" and ?r = "\<lparr>na_ip = 0x0a000002, na_port = 9\<rparr>"
  have s: "tx_free ex_sender = 0 # [1]" "length (m_head (bufs ex_sender 0)) = 1920" "length (io_mac ex_sender) = 6" "io_addr ex_sender = 0x0a000001"
    by (simp_all add: ex_sender_def ex_udp_net_def insert_entry_def)
  have "net_get_ip_route ex_sender 0x0a000002 = 0x0a000002" by (simp add: net_get_ip_route_def ex_sender_def ex_udp_net_def insert_entry_def)
  then have k: "arp_known ex_sender (net_get_ip_route ex_sender (na_ip ?r)) (io_mac (st_net ex_receiver))"
    by (simp add: arp_known_def ex_receiver_net lookup_entry_def ex_sender_def insert_entry_def ex_udp_net_def)
  have c: "st_socks ex_receiver (te_sock ex_entry) = Some (Udp_conn (udp_init_conn ex_entry))" "te_sock ex_entry = 7"
    by (simp_all add: ex_receiver_def ex_entry_def trans_init_3tuple_def)
  have p: "rx_pool (st_net ex_receiver) = rx_pool (ex_udp_net 4 0x0a000002) ! 0 # []" "length (m_head (rx_pool (ex_udp_net 4 0x0a000002) ! 0)) = 1920"
    by (simp_all add: ex_receiver_net ex_udp_net_def)
  from udp_datagram_roundtrip [OF s(1-3), of "[1, 2, 3]" ?r ex_receiver ?l, OF _ k _ _ _ _ p ex_receiver_table c(1), of 100 1] show ?thesis
    using s(4) c(2) by (fastforce simp: UDP_MAX_PAYLOAD_def ex_receiver_net udp_init_conn_def UDP_IN_DEFAULT_CAP_def)
qed

section \<open>The queues of a socket\<close>

text \<open>What a socket takes of a packet: the datagram without its header.\<close>

definition udp_accepts :: "udp_conn \<Rightarrow> mbuf \<Rightarrow> mbuf list" where
  "udp_accepts c m =
     (if m_len m < 8 \<or> inq_len c \<ge> inq_cap c \<or> inq_err c \<noteq> 0 \<or> uc_shutdown c then [] else [mbuf_pull_unchecked m 8])"

text \<open>
  The runs of a socket until it is closed: the datagrams it has taken, and the reads that delivered one, each with the size of
  the buffer, the value returned and the bytes.
\<close>

inductive udp_run :: "trans_entry \<Rightarrow> udp_conn \<Rightarrow> mbuf list \<Rightarrow> (nat \<times> int \<times> u8 list) list \<Rightarrow> bool" for e where
  run_open: "udp_run e (udp_init_conn e) [] []"
| run_recv: "udp_run e c t g \<Longrightarrow> udp_run e (udp_conn_recv c m) (t @ udp_accepts c m) g"
| run_read: "udp_run e c t g \<Longrightarrow> udp_read_from c self len want = Some (Returns (ret, bs, a), c') \<Longrightarrow>
    udp_run e c' t (if inq c \<noteq> [] \<and> inq_err c = 0 then g @ [(len, ret, bs)] else g)"
| run_wait: "udp_run e c t g \<Longrightarrow> udp_read_from c self len want = Some (Blocks, c') \<Longrightarrow> udp_run e c' t g"
| run_err: "udp_run e c t g \<Longrightarrow> udp_run e (udp_conn_err c err) t g"
| run_buffers: "udp_run e c t g \<Longrightarrow> udp_run e (snd (udp_set_buffers c i j)) t g"
| run_write: "udp_run e c t g \<Longrightarrow> udp_write_to c n self buf r = Some (x, c', n') \<Longrightarrow> udp_run e c' t g"
| run_released: "udp_run e c t g \<Longrightarrow> udp_tx_released c = Some c' \<Longrightarrow> udp_run e c' t g"
| run_shutdown: "udp_run e c t g \<Longrightarrow> udp_shutdown c n = Some (c', n') \<Longrightarrow> udp_run e c' t g"

text \<open>All other operations leave the queue of received datagrams alone.\<close>

lemma signal_same [simp]:
  "inq (signal_inq c) = inq c" "inq_len (signal_inq c) = inq_len c" "inq (signal_outq c) = inq c" "inq_len (signal_outq c) = inq_len c"
  by (simp_all add: signal_inq_def signal_outq_def split: list.split)

lemma inq_same:
  "inq (udp_conn_err c err) = inq c" "inq_len (udp_conn_err c err) = inq_len c"
  "udp_write_to c n self buf r = Some (x, c', n') \<Longrightarrow> inq c' = inq c \<and> inq_len c' = inq_len c"
  "udp_tx_released c = Some c' \<Longrightarrow> inq c' = inq c \<and> inq_len c' = inq_len c"
  "udp_shutdown c n = Some (c', n') \<Longrightarrow> inq c' = inq c \<and> inq_len c' = inq_len c"
  "udp_read_from c self len want = Some (Blocks, c') \<Longrightarrow> inq c' = inq c \<and> inq_len c' = inq_len c"
  by (auto simp: udp_conn_err_def release_inq_def udp_write_to_def udp_tx_released_def udp_release_conn_def udp_shutdown_def
      udp_shutdown_locked_def release_outq_def udp_read_from_def Let_def split: if_splits Option.bind_splits elim!: bind_SomeE)

text \<open>C17: 
  A UDP socket is a queue of datagrams: in every run of its operations the datagrams taken are those read, in the same order, followed by
  those in the queue, whose number is \<^verbatim>\<open>inq_len\<close>. Each read delivered one datagram, cut to the size of the buffer, and returned the number of
  bytes copied.
\<close>

theorem udp_socket_fifo:
  assumes "udp_run e c t g"
  shows "inq_len c = int (length (inq c)) \<and> length t = length g + length (inq c) \<and> drop (length g) t = inq c \<and>
    (\<forall>i < length g. case g ! i of (len, ret, bs) \<Rightarrow> bs = take len (mbuf_data (t ! i)) \<and> ret = int (min len (mbuf_length (t ! i))))"
  using assms
proof induction
  case (run_recv c t g m)
  then show ?case
    by (auto simp: udp_conn_recv_def udp_accepts_def mbuf_pull_or_null_def nth_append)
next
  case (run_read c t g self len want ret bs a c')
  show ?case
  proof (cases "inq c \<noteq> [] \<and> inq_err c = 0")
    case True
    then obtain m q where q: "inq c = m # q" by (cases "inq c") auto
    have c: "inq c' = q" "inq_len c' = inq_len c - 1" "bs = take len (mbuf_data m)" "ret = int (min len (mbuf_length m))"
      using run_read(2) True q by (auto simp: udp_read_from_def Let_def split: if_splits)
    have "drop (length g) t = m # q" using run_read.IH q by simp
    then have "t ! length g = m" "drop (Suc (length g)) t = q"
      by (metis nth_via_drop, metis drop_Suc_Cons drop0 drop_drop plus_1_eq_Suc add.commute)
    then show ?thesis using run_read.IH True q c by (auto simp: nth_append less_Suc_eq)
  next
    case False
    then have "inq c' = inq c" "inq_len c' = inq_len c" using run_read(2) by (auto simp: udp_read_from_def Let_def split: if_splits)
    then show ?thesis using run_read.IH False by simp
  qed
qed (auto simp: udp_init_conn_def udp_set_buffers_def inq_same dest: inq_same(3-6))

text \<open>A datagram of three bytes, of which two are read.\<close>

definition ex_datagram :: mbuf where
  "ex_datagram = \<lparr>m_head = replicate 42 0 @ [7, 8, 9], m_data = 34, m_len = 11, txflags = 0, network_off = 14, transport_off = 34,
     m_release = net_rx_release_mbuf, m_timestamp = 0, seg_seq = 0, seg_end = 0, m_flags = 0, m_ref = 0\<rparr>"

theorem udp_socket_fifo_witness:
  "\<exists>c. udp_run ex_entry c [mbuf_pull_unchecked ex_datagram 8] [(2, 2, [7, 8])] \<and> inq_len c = 0 \<and>
     [7, 8] = take 2 (mbuf_data (mbuf_pull_unchecked ex_datagram 8))"
proof -
  let ?c = "udp_init_conn ex_entry" and ?m = "mbuf_pull_unchecked ex_datagram 8"
  let ?c1 = "?c\<lparr>inq := [?m], inq_len := 1\<rparr>" let ?c2 = "?c1\<lparr>inq := [], inq_len := 0\<rparr>"
  have a: "udp_accepts ?c ex_datagram = [?m]" "udp_conn_recv ?c ex_datagram = ?c1"
    by (simp_all add: udp_accepts_def udp_conn_recv_def udp_init_conn_def ex_datagram_def UDP_IN_DEFAULT_CAP_def mbuf_pull_or_null_def signal_inq_def)
  have d: "mbuf_data ?m = [7, 8, 9]" "mbuf_length ?m = 3"
    by (simp_all add: mbuf_data_def mbuf_length_def mbuf_pull_unchecked_def ex_datagram_def)
  have r: "udp_run ex_entry ?c1 [?m] []" using run_recv [OF run_open, of ex_entry ex_datagram] a by simp
  have "udp_read_from ?c1 1 2 False = Some (Returns (2, [7, 8], None), ?c2)"
    by (simp add: udp_read_from_def d) (simp add: udp_init_conn_def)
  from run_read [OF r this] have "udp_run ex_entry ?c2 [?m] [(2, 2, [7, 8])]" by (simp add: udp_init_conn_def)
  from udp_socket_fifo [OF this] this show ?thesis by auto
qed

text \<open>Writes that fail for want of a buffer, one after the other; \<open>None\<close> if one of them does anything else.\<close>

primrec failed_writes :: "nat \<Rightarrow> udp_conn \<Rightarrow> net \<Rightarrow> u8 list \<Rightarrow> netaddr \<Rightarrow> udp_conn option" where
  "failed_writes 0 c n buf r = Some c"
| "failed_writes (Suc k) c n buf r =
     (case udp_write_to c n 0 buf (Some r) of
        Some (Returns x, c, n) \<Rightarrow> if x = - ENOBUFS then failed_writes k c n buf r else None
      | _ \<Rightarrow> None)"

lemma failed_writes_leak:
  assumes "tx_free n = []" "length buf \<le> UDP_MAX_PAYLOAD"
  shows "\<not> uc_shutdown c \<Longrightarrow> outq_len c + int k \<le> outq_cap c \<Longrightarrow>
    failed_writes k c n buf r = Some (c\<lparr>outq_len := outq_len c + int k\<rparr>)"
proof (induction k arbitrary: c)
  case (Suc k)
  have "udp_write_to c n 0 buf (Some r) = Some (Returns (- ENOBUFS), c\<lparr>outq_len := outq_len c + 1\<rparr>, n)"
    using assms Suc.prems by (simp add: udp_write_to_def udp_write_send_def net_tx_alloc_mbuf_def)
  then show ?case using Suc by (simp add: ac_simps)
qed simp

text \<open>C40: 
  A write that fails for want of a transmit buffer still counts as a buffer on its way out, and nothing takes the count back. After as many
  such failures as the socket has room for, on an otherwise unused socket, every further write blocks, with any state of the network and although no buffer is
  on its way, and closing the socket does not free it.
\<close>

theorem udp_failed_writes_block:
  assumes "tx_free n = []" "length buf \<le> UDP_MAX_PAYLOAD" "length buf' \<le> UDP_MAX_PAYLOAD"
  shows "\<exists>c. failed_writes (nat UDP_OUT_DEFAULT_CAP) (udp_init_conn e) n buf r = Some c \<and>
    (\<forall>n'. udp_write_to c n' self buf' (Some r') = Some (Blocks, c\<lparr>outq_wq := [self]\<rparr>, n')) \<and>
    (\<forall>n'. uc_e c \<in> set (trans_tbl n' (trans_idx n' e)) \<longrightarrow> (\<exists>c' n''. udp_close c n' = Some (c', n'') \<and> \<not> uc_freed c'))"
proof -
  let ?c = "(udp_init_conn e)\<lparr>outq_len := UDP_OUT_DEFAULT_CAP\<rparr>"
  have "failed_writes (nat UDP_OUT_DEFAULT_CAP) (udp_init_conn e) n buf r = Some ?c"
    using failed_writes_leak [OF assms(1,2), of "udp_init_conn e" "nat UDP_OUT_DEFAULT_CAP" r]
    by (simp add: udp_init_conn_def UDP_OUT_DEFAULT_CAP_def)
  moreover have "udp_write_to ?c n' self buf' (Some r') = Some (Blocks, ?c\<lparr>outq_wq := [self]\<rparr>, n')" for n'
    using assms(3) by (simp add: udp_write_to_def udp_init_conn_def)
  moreover have "\<exists>c' n''. udp_close ?c n' = Some (c', n'') \<and> \<not> uc_freed c'" if "uc_e ?c \<in> set (trans_tbl n' (trans_idx n' e))" for n'
    using that by (simp add: udp_close_def udp_shutdown_locked_def trans_table_remove_def udp_init_conn_def UDP_OUT_DEFAULT_CAP_def)
  ultimately show ?thesis by blast
qed

theorem udp_failed_writes_block_witness:
  "\<exists>c. failed_writes (nat UDP_OUT_DEFAULT_CAP) (udp_init_conn ex_entry) (ex_sender\<lparr>tx_free := []\<rparr>) [1] \<lparr>na_ip = 1, na_port = 1\<rparr> = Some c \<and>
     udp_write_to c ex_sender 3 [1] (Some \<lparr>na_ip = 1, na_port = 1\<rparr>) = Some (Blocks, c\<lparr>outq_wq := [3]\<rparr>, ex_sender)"
  using udp_failed_writes_block [of "ex_sender\<lparr>tx_free := []\<rparr>" "[1]" "[1]" ex_entry "\<lparr>na_ip = 1, na_port = 1\<rparr>" 3 "\<lparr>na_ip = 1, na_port = 1\<rparr>"]
  by (auto simp: UDP_MAX_PAYLOAD_def)

section \<open>Soft interrupts\<close>

text \<open>What a command carries.\<close>

definition cmd_recv :: "rx_cmd \<Rightarrow> rx_net_hdr option" where
  "cmd_recv x = (case x of RX_NET_RECV h \<Rightarrow> Some h | _ \<Rightarrow> None)"

definition cmd_compl :: "rx_cmd \<Rightarrow> nat option" where
  "cmd_compl x = (case x of RX_NET_COMPLETE a \<Rightarrow> Some a | _ \<Rightarrow> None)"

lemma gather_spec:
  assumes "0 \<le> b" "gather b q = (w, q')"
  shows "q' = drop (nat b) q \<and> recv_reqs w = List.map_filter cmd_recv (take (nat b) q) \<and>
    compl_reqs w = List.map_filter cmd_compl (take (nat b) q) \<and> timer_budget w = b - 1 - int (min (length q) (nat b))"
  using assms
proof (induction b q arbitrary: w q' rule: gather.induct)
  case (2 b x q)
  show ?case
  proof (cases "b = 0")
    case False
    then have b: "\<not> b \<le> 0" "nat b = Suc (nat (b - 1))" using 2(2) by auto
    obtain w1 q1 where g: "gather (b - 1) q = (w1, q1)" by fastforce
    have "(w, q') = (case x of RX_NET_RECV h \<Rightarrow> (w1\<lparr>recv_reqs := h # recv_reqs w1\<rparr>, q1)
        | RX_NET_COMPLETE a \<Rightarrow> (w1\<lparr>compl_reqs := a # compl_reqs w1\<rparr>, q1) | RX_INVALID _ \<Rightarrow> (w1, q1))"
      using 2(3) b g by simp
    then show ?thesis using 2(1) [OF b(1) _ g] b
      by (cases x) (auto simp: map_filter_simps cmd_recv_def cmd_compl_def)
  qed (use 2 in \<open>auto simp: map_filter_simps\<close>)
qed (auto simp: map_filter_simps)

text \<open>C36: 
  In the build with the network stack (\<^verbatim>\<open>SKYLOFT_DPDK\<close>) one soft interrupt takes at most its budget of commands off the queue, in order and without losing one: packets and completions keep
  their order. When the budget is used up, the budget left for the timers is -1, which \<^verbatim>\<open>timer_softirq\<close> takes for the largest unsigned number.
\<close>

theorem softirq_budget:
  assumes "0 \<le> budget" "softirq_gather_work budget q = (w, q')"
  shows "let k = nat (min budget (int SOFTIRQ_MAX_BUDGET)) in
    q' = drop k q \<and> recv_reqs w = List.map_filter cmd_recv (take k q) \<and> compl_reqs w = List.map_filter cmd_compl (take k q) \<and>
    length (recv_reqs w) + length (compl_reqs w) \<le> 16 \<and>
    (k \<le> length q \<longrightarrow> timer_budget w = - 1 \<and> unat (softirq_timer_budget w) = 2 ^ 32 - 1)"
proof -
  let ?k = "nat (min budget (int SOFTIRQ_MAX_BUDGET))"
  have g: "q' = drop ?k q" "recv_reqs w = List.map_filter cmd_recv (take ?k q)" "compl_reqs w = List.map_filter cmd_compl (take ?k q)"
      "timer_budget w = min budget (int SOFTIRQ_MAX_BUDGET) - 1 - int (min (length q) ?k)"
    using gather_spec [of "min budget (int SOFTIRQ_MAX_BUDGET)" q w q'] assms by (auto simp: softirq_gather_work_def SOFTIRQ_MAX_BUDGET_def)
  have "length (List.map_filter cmd_recv xs) + length (List.map_filter cmd_compl xs) \<le> length xs" for xs
    by (induction xs) (auto simp: map_filter_simps cmd_recv_def cmd_compl_def split: option.splits rx_cmd.splits)
  then have "length (recv_reqs w) + length (compl_reqs w) \<le> length (take ?k q)" unfolding g(2,3) .
  moreover have "length (take ?k q) \<le> 16" by (simp add: SOFTIRQ_MAX_BUDGET_def)
  ultimately have "length (recv_reqs w) + length (compl_reqs w) \<le> 16" by (rule order_trans)
  moreover have "timer_budget w = - 1" if "?k \<le> length q" using g(4) that assms(1) by (simp add: SOFTIRQ_MAX_BUDGET_def)
  ultimately show ?thesis using g(1-3) by (auto simp: Let_def softirq_timer_budget_def unsigned_minus_1_eq_mask mask_eq_exp_minus_1)
qed

theorem softirq_budget_witness:
  "\<exists>w. softirq_gather_work 2 [RX_NET_COMPLETE 5, RX_INVALID 9, RX_NET_COMPLETE 6] = (w, [RX_NET_COMPLETE 6]) \<and>
     compl_reqs w = [5] \<and> unat (softirq_timer_budget w) = 2 ^ 32 - 1"
proof -
  let ?q = "[RX_NET_COMPLETE 5, RX_INVALID 9, RX_NET_COMPLETE 6]"
  obtain w q' where g: "softirq_gather_work 2 ?q = (w, q')" by fastforce
  from softirq_budget [OF _ this] show ?thesis
    using g by (auto simp: SOFTIRQ_MAX_BUDGET_def numeral_2_eq_2 map_filter_simps cmd_compl_def)
qed

end
