(* ===== verification/Net_Resolve.thy ===== *)
theory Net_Resolve
  imports Net_Frame
begin

text \<open>
  Address resolution and control messages end to end: packets for a host whose Ethernet address is being asked for wait in order
  and go out with the answer; echo requests are answered with a valid message.
\<close>

section \<open>Pending packets\<close>

lemma tx_eth_all_spec:
  assumes "distinct as" "\<forall>a \<in> set as. mbuf_ok (bufs n a) \<and> 32 \<le> m_data (bufs n a)" "length dhost = 6" "length (io_mac n) = 6"
  shows "\<exists>n'. tx_eth_all n as type dhost = Some n' \<and> tx_queue n' = tx_queue n @ as \<and>
    (\<forall>a \<in> set as. frame n' a = eth_hdr dhost (io_mac n) type @ mbuf_data (bufs n a)) \<and>
    tx_same n n' \<and> (\<forall>b. b \<notin> set as \<longrightarrow> bufs n' b = bufs n b)"
  using assms
proof (induction as arbitrary: n)
  case (Cons a as)
  obtain n1 where n1: "net_tx_eth n a type dhost = Some n1" "tx_queue n1 = tx_queue n @ [a]"
      "frame n1 a = eth_hdr dhost (io_mac n) type @ mbuf_data (bufs n a)" "tx_same n n1" "\<forall>b. b \<noteq> a \<longrightarrow> bufs n1 b = bufs n b"
    using net_tx_eth_spec [of n a dhost type] Cons.prems by auto
  have mac: "io_mac n1 = io_mac n" using n1(4) by (simp add: tx_same_def)
  have b1: "bufs n1 b = bufs n b" if "b \<in> set as" for b using n1(5) Cons.prems(1) that by auto
  obtain n2 where n2: "tx_eth_all n1 as type dhost = Some n2" "tx_queue n2 = tx_queue n1 @ as"
      "\<forall>b \<in> set as. frame n2 b = eth_hdr dhost (io_mac n1) type @ mbuf_data (bufs n1 b)" "tx_same n1 n2" "\<forall>b. b \<notin> set as \<longrightarrow> bufs n2 b = bufs n1 b"
    using Cons.IH [of n1] Cons.prems mac b1 by auto
  have "frame n2 a = frame n1 a" using n2(5) Cons.prems(1) by (simp add: frame_def)
  then show ?case
    using n1 n2 mac b1 tx_same_trans [OF n1(4) n2(4)] by (intro exI [of _ n2]) auto
qed simp

lemma find_update_first:
  assumes "find (\<lambda>e. ae_ip e = ip) es = Some e" "ae_ip (f e) = ip"
  shows "find (\<lambda>e. ae_ip e = ip) (update_first ip f es) = Some (f e)"
  using assms by (induction es) (auto split: if_splits)

lemma lookup_set_entry:
  assumes "lookup_entry n idx ip = Some e" "ae_ip (f e) = ip"
  shows "lookup_entry (set_entry n idx ip f) idx ip = Some (f e)"
  using assms find_update_first [of ip "arp_tbl n idx"] by (simp add: lookup_entry_def set_entry_def)

lemma lookup_ip: "lookup_entry n idx ip = Some e \<Longrightarrow> ae_ip e = ip"
  by (auto simp: lookup_entry_def find_Some_iff)

text \<open>The answer that another host sends: as \<^verbatim>\<open>arp_send\<close> writes it.\<close>

lemma arp_packet_fields:
  assumes "length smac = 6" "length tmac = 6" "bs = arp_hdr op @ arp_hdr_ethip smac sip tmac tip"
  shows "length bs = 28" "ntoh16 (load16 bs 0) = ARP_HTYPE_ETHER" "ntoh16 (load16 bs 2) = ETHTYPE_IP" "bs ! 4 = 6" "bs ! 5 = 4"
    "ntoh16 (load16 bs 6) = op" "take 6 (drop 8 bs) = smac" "ntoh32 (load32 bs 14) = sip" "ntoh32 (load32 bs 24) = tip"
proof -
  let ?t = "arp_hdr_ethip smac sip tmac tip"
  let ?a = "store16 (hton16 ARP_HTYPE_ETHER)" let ?b = "?a @ store16 (hton16 ETHTYPE_IP)"
  have e: "bs = [] @ ?a @ store16 (hton16 ETHTYPE_IP) @ [6, 4] @ store16 (hton16 op) @ ?t" "bs = ?a @ store16 (hton16 ETHTYPE_IP) @ [6, 4] @ store16 (hton16 op) @ ?t"
    "bs = ?b @ 6 # 4 # store16 (hton16 op) @ ?t" "bs = (?b @ [6]) @ 4 # store16 (hton16 op) @ ?t" "bs = (?b @ [6, 4]) @ store16 (hton16 op) @ ?t"
    "bs = (arp_hdr op @ smac) @ store32 (hton32 sip) @ tmac @ store32 (hton32 tip)"
    "bs = (arp_hdr op @ smac @ store32 (hton32 sip) @ tmac) @ store32 (hton32 tip) @ []"
    using assms(3) by (simp_all add: arp_hdr_def arp_hdr_ethip_def)
  have l: "length (arp_hdr op) = 8" by (simp add: arp_hdr_def)
  show "length bs = 28" "take 6 (drop 8 bs) = smac" using assms l by (simp_all add: arp_hdr_ethip_def)
  show "ntoh16 (load16 bs 0) = ARP_HTYPE_ETHER" by (subst e(1), subst load_at) simp_all
  show "ntoh16 (load16 bs 2) = ETHTYPE_IP" by (subst e(2), subst load_at) simp_all
  show "bs ! 4 = 6" by (subst e(3), subst nth_at) simp_all
  show "bs ! 5 = 4" by (subst e(4), subst nth_at) simp_all
  show "ntoh16 (load16 bs 6) = op" by (subst e(5), subst load_at) simp_all
  show "ntoh32 (load32 bs 14) = sip" by (subst e(6), subst load_at) (simp_all add: assms(1) l)
  show "ntoh32 (load32 bs 24) = tip" by (subst e(7), subst load_at) (simp_all add: assms(1,2) l)
qed

text \<open>C16: 
  Address resolution loses no packet. While the address of a host is being asked for, \<^verbatim>\<open>net_tx_ip\<close> puts a packet for it, with its IP header, at
  the end of the queue of the entry. When the answer of the host arrives, as its \<^verbatim>\<open>arp_send\<close> writes it, all packets in the queue are handed to the I/O kernel in order, each behind an Ethernet header with
  the address of the answer, and from then on the address is known.
\<close>

theorem arp_sends_pending:
  assumes "lookup_entry n (hash_ip ip) ip = Some e" "ae_state e = ARP_STATE_PROBING"
    "distinct (ae_q e)" "\<forall>a \<in> set (ae_q e). mbuf_ok (bufs n a) \<and> 32 \<le> m_data (bufs n a)"
    "length smac = 6" "\<not> eth_addr_is_multicast smac" "length (io_mac n) = 6"
    "mbuf_ok (bufs n a)" "52 \<le> m_data (bufs n a)" "a \<notin> set (ae_q e)" "net_get_ip_route n daddr = ip"
  shows "(\<exists>n' ipid e'. net_tx_ip n a proto daddr = Some (0, n') \<and> lookup_entry n' (hash_ip ip) ip = Some e' \<and> ae_q e' = ae_q e @ [a] \<and>
      mbuf_data (bufs n' a) = ip_hdr (of_nat (m_len (bufs n a) + 20)) ipid proto (io_addr n) daddr @ mbuf_data (bufs n a)) \<and>
    (\<exists>n'. net_rx_arp n (arp_hdr ARP_OP_REPLY @ arp_hdr_ethip smac ip (io_mac n) (io_addr n)) = Some n' \<and> tx_queue n' = tx_queue n @ ae_q e \<and>
      (\<forall>b \<in> set (ae_q e). frame n' b = eth_hdr smac (io_mac n) ETHTYPE_IP @ mbuf_data (bufs n b)) \<and> arp_known n' ip smac)"
proof
  obtain n1 ipid where p: "net_push_iphdr n a proto daddr = Some n1" 
      "mbuf_data (bufs n1 a) = ip_hdr (of_nat (m_len (bufs n a) + 20)) ipid proto (io_addr n) daddr @ mbuf_data (bufs n a)" "tx_same n n1"
    using net_push_iphdr_spec [OF assms(8), of proto daddr] assms(9) by auto
  let ?m = "(bufs n1 a)\<lparr>txflags := txflags (bufs n1 a) OR OLFLAG_IP_CHKSUM OR OLFLAG_IPV4\<rparr>"
  let ?n2 = "set_buf n1 a ?m" let ?f = "\<lambda>e. e\<lparr>ae_q := ae_q e @ [a]\<rparr>"
  have r: "net_get_ip_route ?n2 daddr = ip" using p(3) assms(11) by (auto simp: net_get_ip_route_def tx_same_def set_buf_def)
  have l: "lookup_entry ?n2 (hash_ip ip) ip = Some e" using p(3) assms(1) by (simp add: lookup_entry_def tx_same_def set_buf_def)
  have "net_tx_ip n a proto daddr = Some (0, set_entry ?n2 (hash_ip ip) ip ?f)"
    using p(1) r l assms(2) by (simp add: net_tx_ip_def arp_lookup_def arp_lookup_locked_def Let_def)
  moreover have "lookup_entry (set_entry ?n2 (hash_ip ip) ip ?f) (hash_ip ip) ip = Some (?f e)"
    using lookup_set_entry [OF l, of ?f] lookup_ip [OF l] by simp
  moreover have "mbuf_data ?m = mbuf_data (bufs n1 a)" by (simp add: mbuf_data_def)
  ultimately show "\<exists>n' ipid e'. net_tx_ip n a proto daddr = Some (0, n') \<and> lookup_entry n' (hash_ip ip) ip = Some e' \<and> ae_q e' = ae_q e @ [a] \<and>
      mbuf_data (bufs n' a) = ip_hdr (of_nat (m_len (bufs n a) + 20)) ipid proto (io_addr n) daddr @ mbuf_data (bufs n a)"
    using p(2) by (intro exI conjI) (assumption, assumption, simp_all add: set_entry_def)
next
  define bs where "bs = arp_hdr ARP_OP_REPLY @ arp_hdr_ethip smac ip (io_mac n) (io_addr n)"
  note f = arp_packet_fields [OF assms(5,7) bs_def]
  obtain ts n1 where t: "now_us n = (ts, n1)" "n1 = n\<lparr>ticks := ticks n + 1\<rparr>" by (simp add: now_us_def)
  let ?f = "\<lambda>e. e\<lparr>ae_eth := smac, ae_ts := ts, ae_state := ARP_STATE_VALID, ae_q := []\<rparr>"
  let ?n2 = "set_entry n1 (hash_ip ip) ip ?f"
  have l: "lookup_entry n1 (hash_ip ip) ip = Some e" using assms(1) t(2) by (simp add: lookup_entry_def)
  have n2: "bufs ?n2 = bufs n" "tx_queue ?n2 = tx_queue n" "io_mac ?n2 = io_mac n" by (simp_all add: set_entry_def t(2) tx_queue_def)
  obtain n' where n': "tx_eth_all ?n2 (ae_q e) ETHTYPE_IP smac = Some n'" "tx_queue n' = tx_queue n @ ae_q e"
      "\<forall>b \<in> set (ae_q e). frame n' b = eth_hdr smac (io_mac n) ETHTYPE_IP @ mbuf_data (bufs n b)" "tx_same ?n2 n'"
    using tx_eth_all_spec [of "ae_q e" ?n2 smac ETHTYPE_IP] assms(3-5,7) n2 by auto
  have "arp_update n ip smac = Some n'"
    using assms(1,2) t n'(1) by (simp add: arp_update_def)
  then have "net_rx_arp n bs = Some n'" using f assms(6) by (simp add: net_rx_arp_def ARP_OP_REPLY_def ARP_OP_REQUEST_def)
  moreover have "lookup_entry ?n2 (hash_ip ip) ip = Some (?f e)" using lookup_set_entry [OF l, of ?f] lookup_ip [OF l] by simp
  then have "arp_known n' ip smac" using n'(4) by (auto simp: arp_known_def lookup_entry_def tx_same_def)
  ultimately show "\<exists>n'. net_rx_arp n (arp_hdr ARP_OP_REPLY @ arp_hdr_ethip smac ip (io_mac n) (io_addr n)) = Some n' \<and> tx_queue n' = tx_queue n @ ae_q e \<and>
      (\<forall>b \<in> set (ae_q e). frame n' b = eth_hdr smac (io_mac n) ETHTYPE_IP @ mbuf_data (bufs n b)) \<and> arp_known n' ip smac"
    using n'(2,3) by (auto simp: bs_def)
qed

text \<open>A packet with four bytes that waits for the address of its destination.\<close>

definition ex_resolving :: net where
  "ex_resolving = \<lparr>io_mac = replicate 6 2, io_addr = 0x0a000001, io_netmask = 0xffffff00, io_gateway = 0x0a0000fe,
     bufs = (\<lambda>a. \<lparr>m_head = replicate 1920 0, m_data = 128, m_len = 4, txflags = 0, network_off = 0, transport_off = 0,
       m_release = net_tx_release_mbuf, m_timestamp = 0, seg_seq = 0, seg_end = 0, m_flags = 0, m_ref = 0\<rparr>),
     tx_free = [1, 2], txpktq = [], txpktq_size = 2, txpktq_overflow = [],
     arp_tbl = (\<lambda>i. [\<lparr>ae_state = ARP_STATE_PROBING, ae_ip = 0x0a000002, ae_eth = [], ae_q = [0], ae_ts = 0, ae_tries_left = 3\<rparr>]), smalloc_ok = [],
     clock = of_nat, ticks = 0, net_errors = [], trans_seed = 1, ephemeral_offset = 0, trans_tbl = (\<lambda>i. []), tcp_conns = [],
     rx_pool = [\<lparr>m_head = replicate 1920 0, m_data = 0, m_len = 0, txflags = 0, network_off = 0, transport_off = 0,
       m_release = net_tx_release_mbuf, m_timestamp = 0, seg_seq = 0, seg_end = 0, m_flags = 0, m_ref = 0\<rparr>],
     txcmdq = [], txcmdq_size = 2, udp_done = []\<rparr>"

theorem arp_sends_pending_witness:
  "\<exists>n'. net_rx_arp ex_resolving (arp_hdr ARP_OP_REPLY @ arp_hdr_ethip (replicate 6 4) 0x0a000002 (replicate 6 2) 0x0a000001) = Some n' \<and>
     tx_queue n' = [0] \<and> frame n' 0 = eth_hdr (replicate 6 4) (replicate 6 2) ETHTYPE_IP @ [0, 0, 0, 0] \<and> arp_known n' 0x0a000002 (replicate 6 4)"
proof -
  let ?n = ex_resolving
  obtain e where e: "lookup_entry ?n (hash_ip 0x0a000002) 0x0a000002 = Some e" "ae_state e = ARP_STATE_PROBING" "ae_q e = [0]"
    by (simp add: ex_resolving_def lookup_entry_def)
  have "replicate 4 (0 :: u8) = [0, 0, 0, 0]" by (simp add: numeral_eq_Suc)
  then have b: "mbuf_ok (bufs ?n a)" "m_data (bufs ?n a) = 128" "mbuf_data (bufs ?n a) = [0, 0, 0, 0]" "io_mac ?n = replicate 6 2" "io_addr ?n = 0x0a000001" "tx_queue ?n = []" for a
    by (simp_all add: ex_resolving_def mbuf_ok_def head_len_def mbuf_data_def tx_queue_def)
  have r: "net_get_ip_route ?n 0x0a000002 = 0x0a000002" by (simp add: ex_resolving_def net_get_ip_route_def)
  have m: "\<not> eth_addr_is_multicast (replicate 6 4)" by (simp add: eth_addr_is_multicast_def)
  from arp_sends_pending [OF e(1,2) _ _ _ m _ b(1) _ _ r, of 1] show ?thesis
    using b e(3) by auto
qed

section \<open>Echo requests\<close>

lemma length_icmp_msg [simp]: "length (icmp_msg t c bs) = 4 + length bs"
  by (simp add: icmp_msg_def)

lemma icmp_msg_valid: "cksum_internet (icmp_msg t c bs) = 0"
  using cksum_internet_valid [OF _ refl, of "[t, c]" bs] by (simp add: icmp_msg_def)

lemma icmp_msg_parts [simp]: "icmp_msg t c bs ! 0 = t" "icmp_msg t c bs ! Suc 0 = c" "drop 4 (icmp_msg t c bs) = bs"
  by (simp_all add: icmp_msg_def)

text \<open>C34: 
  An echo request is answered. A host that receives one, in a frame of at most 1514 bytes, hands one frame to the I/O kernel if it has a
  buffer and knows the Ethernet address of the next hop: the reply goes to the sender of the request, holds the same identifier, sequence number and data, and its checksum
  is valid. The packet does not go to the transport layer.
\<close>

theorem icmp_echo_answered:
  assumes "rx_pool n = m0 # ms" "length (m_head m0) = 1920" "length (io_mac n) = 6" "length shost = 6"
    "tx_free n = a # as" "length (m_head (bufs n a)) = 1920" "arp_known n (net_get_ip_route n saddr) dhost" "length dhost = 6"
    "4 \<le> length bs" "length bs \<le> 1476"
  shows "\<exists>n' ipid'. net_rx_one n \<lparr>rh_completion_data = d, rh_csum_type = CHECKSUM_TYPE_UNNECESSARY,
        rh_payload = ip_frame (io_mac n) shost ipid IPPROTO_ICMP saddr daddr (icmp_msg ICMP_ECHO code bs)\<rparr> = Some (None, n') \<and>
      tx_queue n' = tx_queue n @ [a] \<and>
      frame n' a = ip_frame dhost (io_mac n) ipid' IPPROTO_ICMP (io_addr n) saddr (icmp_msg ICMP_ECHOREPLY code bs) \<and>
      cksum_internet (icmp_msg ICMP_ECHOREPLY code bs) = 0"
proof -
  let ?hdr = "\<lparr>rh_completion_data = d, rh_csum_type = CHECKSUM_TYPE_UNNECESSARY,
        rh_payload = ip_frame (io_mac n) shost ipid IPPROTO_ICMP saddr daddr (icmp_msg ICMP_ECHO code bs)\<rparr>"
  let ?l4 = "icmp_msg ICMP_ECHO code bs" let ?reply = "icmp_msg ICMP_ECHOREPLY code bs"
  define n1 where "n1 = net_rx_send_completion (n\<lparr>rx_pool := ms\<rparr>) d"
  have s: "tx_free n1 = tx_free n" "bufs n1 = bufs n" "io_mac n1 = io_mac n" "io_addr n1 = io_addr n" "tx_queue n1 = tx_queue n"
      "net_get_ip_route n1 saddr = net_get_ip_route n saddr" "arp_tbl n1 = arp_tbl n"
    by (simp_all add: n1_def net_rx_send_completion_def tx_queue_def net_get_ip_route_def)
  obtain m where m: "l4_packet m IPPROTO_ICMP saddr daddr ?l4"
      "net_rx_one n ?hdr = do { n \<leftarrow> net_rx_icmp n1 m saddr (length ?l4); Some (None, n) }"
    using net_rx_one_frame [OF assms(1-4), of ?hdr ipid IPPROTO_ICMP saddr daddr ?l4 n1] assms(10) by (auto simp: n1_def)
  have len: "m_len m = length ?l4" using m(1) mbuf_data_length [of m] by (simp add: l4_packet_def)
  have pkt: "take (length ?l4) (drop (m_data m) (m_head m)) = ?l4" using m(1) len by (auto simp: l4_packet_def mbuf_data_def)
  have icmp: "net_rx_icmp n1 m saddr (length ?l4) = net_rx_icmp_echo n1 ?l4 saddr"
    using len assms(9) unfolding net_rx_icmp_def mbuf_pull_or_null_def pkt Let_def by (simp add: ICMP_MINLEN_def)
  obtain m1 where m1: "net_tx_alloc_mbuf n1 = Some (Some a, set_buf (n1\<lparr>tx_free := as\<rparr>) a m1)" "mbuf_ok m1" "m_data m1 = 128" "mbuf_data m1 = []"
      "head_len m1 = 1920" "m_len m1 = 0"
    using tx_alloc_spec [of n1 a as] assms(5,6) s(1,2) by metis
  obtain m2 where m2: "mbuf_put_bytes m1 ?reply = Some m2" "mbuf_ok m2" "mbuf_data m2 = ?reply" "m_data m2 = 128"
    using mbuf_put_data [OF m1(2), of ?reply] m1(3-6) assms(10) by auto
  let ?n2 = "set_buf (set_buf (n1\<lparr>tx_free := as\<rparr>) a m1) a m2"
  have "net_get_ip_route ?n2 saddr = net_get_ip_route n1 saddr" by (simp add: net_get_ip_route_def set_buf_def)
  then have k: "arp_known ?n2 (net_get_ip_route ?n2 saddr) dhost" "io_mac ?n2 = io_mac n" "tx_queue ?n2 = tx_queue n" "io_addr ?n2 = io_addr n"
    using assms(7) s by (simp_all add: arp_known_def lookup_entry_def set_buf_def tx_queue_def)
  obtain n' ipid' where t: "net_tx_ip ?n2 a IPPROTO_ICMP saddr = Some (0, n')" "tx_queue n' = tx_queue n @ [a]"
      "frame n' a = ip_frame dhost (io_mac n) ipid' IPPROTO_ICMP (io_addr n) saddr ?reply"
    using net_tx_ip_spec [of ?n2 a saddr dhost IPPROTO_ICMP] m2(2-4) assms(3,8) k by auto
  have "net_rx_icmp_echo n1 ?l4 saddr = Some n'"
    using m1(1) m2(1) t(1) by (simp add: net_rx_icmp_echo_def net_tx_ip_or_free_def)
  then show ?thesis using m(2) icmp t(2,3) icmp_msg_valid by auto
qed

theorem icmp_echo_answered_witness:
  "\<exists>n' ipid. net_rx_one (ex_resolving\<lparr>arp_tbl := \<lambda>i. [\<lparr>ae_state = ARP_STATE_VALID, ae_ip = 0x0a000002, ae_eth = replicate 6 4, ae_q = [], ae_ts = 0, ae_tries_left = 3\<rparr>]\<rparr>)
      \<lparr>rh_completion_data = 0, rh_csum_type = CHECKSUM_TYPE_UNNECESSARY,
       rh_payload = ip_frame (replicate 6 2) (replicate 6 4) 0 IPPROTO_ICMP 0x0a000002 0x0a000001 (icmp_msg ICMP_ECHO 0 [1, 2, 3, 4, 5])\<rparr> = Some (None, n') \<and>
    tx_queue n' = [1] \<and>
    frame n' 1 = ip_frame (replicate 6 4) (replicate 6 2) ipid IPPROTO_ICMP 0x0a000001 0x0a000002 (icmp_msg ICMP_ECHOREPLY 0 [1, 2, 3, 4, 5])"
proof -
  let ?n = "ex_resolving\<lparr>arp_tbl := \<lambda>i. [\<lparr>ae_state = ARP_STATE_VALID, ae_ip = 0x0a000002, ae_eth = replicate 6 4, ae_q = [], ae_ts = 0, ae_tries_left = 3\<rparr>]\<rparr>"
  have p: "rx_pool ?n = rx_pool ?n ! 0 # []" "length (m_head (rx_pool ?n ! 0)) = 1920" "io_mac ?n = replicate 6 2" "tx_free ?n = 1 # [2]"
      "length (m_head (bufs ?n 1)) = 1920" "io_addr ?n = 0x0a000001" "tx_queue ?n = []"
    by (simp_all add: ex_resolving_def tx_queue_def)
  have k: "arp_known ?n (net_get_ip_route ?n 0x0a000002) (replicate 6 4)"
    by (simp add: arp_known_def lookup_entry_def ex_resolving_def net_get_ip_route_def)
  from icmp_echo_answered [OF p(1,2) _ _ p(4,5) k, of "replicate 6 4" "[1, 2, 3, 4, 5]" 0 0 "0x0a000001" 0] show ?thesis
    using p(3,6,7) by auto
qed

end
