(* ===== verification/Transport_Refine.thy ===== *)
theory Transport_Refine
  imports Transport
begin

text \<open>
  The transport table (\<^verbatim>\<open>libos/net/transport.c\<close>) as its clients see it: a set of entries without conflicts. The operations on the hash
  table, run from its initialisation, are a run of the operations on the set.
\<close>

section \<open>Runs\<close>

datatype trans_op =
    Add trans_entry
  | Add_Ephemeral trans_entry
  | Remove trans_entry
  | Lookup u8 netaddr netaddr

text \<open>What an operation returns; the second one also fills in the port.\<close>

datatype trans_out = Ret int | Ret_Entry int trans_entry | Removed | Found "trans_entry option"

fun trans_step :: "net \<Rightarrow> trans_op \<Rightarrow> (trans_out \<times> net) option" where
  "trans_step n (Add e) = (let (ret, n) = trans_table_add n e in Some (Ret ret, n))"
| "trans_step n (Add_Ephemeral e) = (let (ret, e, n) = trans_table_add_with_ephemeral_port n e in Some (Ret_Entry ret e, n))"
| "trans_step n (Remove e) = map_option (Pair Removed) (trans_table_remove n e)"
| "trans_step n (Lookup proto l r) = Some (Found (trans_find n proto l r), n)"

fun trans_run :: "net \<Rightarrow> trans_op list \<Rightarrow> (trans_out list \<times> net) option" where
  "trans_run n [] = Some ([], n)"
| "trans_run n (x # xs) = do {
     (y, n) \<leftarrow> trans_step n x;
     (ys, n) \<leftarrow> trans_run n xs;
     Some (y # ys, n)
   }"

section \<open>The set of entries\<close>

definition free_in :: "trans_entry set \<Rightarrow> trans_entry \<Rightarrow> bool" where
  "free_in S e \<longleftrightarrow> (\<forall>f \<in> S. \<not> conflicts e f)"

text \<open>The ephemeral ports that are free for the addresses of an entry.\<close>

definition free_ports :: "trans_entry set \<Rightarrow> trans_entry \<Rightarrow> u16 set" where
  "free_ports S e = {p. MIN_EPHEMERAL \<le> unat p \<and> unat p \<le> MAX_EPHEMERAL \<and> free_in S (with_port e p)}"

text \<open>The choice among the free ports is left open. A look-up prefers the entry for both addresses.\<close>

inductive set_step :: "trans_entry set \<Rightarrow> trans_op \<Rightarrow> trans_out \<Rightarrow> trans_entry set \<Rightarrow> bool" where
  add_port: "na_port (te_laddr e) = 0 \<Longrightarrow> set_step S (Add e) (Ret (- EINVAL)) S"
| add_used: "na_port (te_laddr e) \<noteq> 0 \<Longrightarrow> \<not> free_in S e \<Longrightarrow> set_step S (Add e) (Ret (- EADDRINUSE)) S"
| add: "na_port (te_laddr e) \<noteq> 0 \<Longrightarrow> free_in S e \<Longrightarrow> set_step S (Add e) (Ret 0) (insert e S)"
| ephemeral_match: "te_match e \<noteq> TRANS_MATCH_5TUPLE \<Longrightarrow> set_step S (Add_Ephemeral e) (Ret_Entry (- EINVAL) e) S"
| ephemeral_none: "te_match e = TRANS_MATCH_5TUPLE \<Longrightarrow> free_ports S e = {} \<Longrightarrow> set_step S (Add_Ephemeral e) (Ret_Entry (- EADDRNOTAVAIL) e') S"
| ephemeral: "te_match e = TRANS_MATCH_5TUPLE \<Longrightarrow> p \<in> free_ports S e \<Longrightarrow>
    set_step S (Add_Ephemeral e) (Ret_Entry 0 (with_port e p)) (insert (with_port e p) S)"
| remove: "e \<in> S \<Longrightarrow> set_step S (Remove e) Removed (S - {e})"
| lookup5: "e \<in> S \<Longrightarrow> match5 proto l r e \<Longrightarrow> set_step S (Lookup proto l r) (Found (Some e)) S"
| lookup3: "e \<in> S \<Longrightarrow> match3 proto l e \<Longrightarrow> \<forall>f \<in> S. \<not> match5 proto l r f \<Longrightarrow> set_step S (Lookup proto l r) (Found (Some e)) S"
| lookup_none: "\<forall>f \<in> S. \<not> match5 proto l r f \<and> \<not> match3 proto l f \<Longrightarrow> set_step S (Lookup proto l r) (Found None) S"

inductive set_run :: "trans_entry set \<Rightarrow> trans_op list \<Rightarrow> trans_out list \<Rightarrow> trans_entry set \<Rightarrow> bool" where
  "set_run S [] [] S"
| "set_step S x y S' \<Longrightarrow> set_run S' xs ys S'' \<Longrightarrow> set_run S (x # xs) (y # ys) S''"

section \<open>Refinement\<close>

lemma port_free_in: "port_free n e p \<longleftrightarrow> free_in (trans_set n) (with_port e p)"
  by (simp add: port_free_def free_in_def)

lemma add_refines:
  assumes "trans_ok n" "trans_table_add n e = (ret, n')"
  shows "trans_ok n' \<and> set_step (trans_set n) (Add e) (Ret ret) (trans_set n')"
proof -
  consider "na_port (te_laddr e) = 0" "ret = - EINVAL" "n' = n"
    | "na_port (te_laddr e) \<noteq> 0" "\<not> free_in (trans_set n) e" "ret = - EADDRINUSE" "n' = n"
    | "na_port (te_laddr e) \<noteq> 0" "free_in (trans_set n) e" "ret = 0"
    using trans_table_add_spec [OF assms(1), of e] unfolding assms(2) by (auto simp: free_in_def split: if_splits)
  then show ?thesis
  proof cases
    case 3
    then show ?thesis using trans_table_add_ok [OF assms(1), of e n'] assms(2) add [of e] by simp
  qed (use assms(1) in \<open>simp_all add: add_port add_used\<close>)
qed

lemma ephemeral_refines:
  assumes "trans_ok n" "trans_table_add_with_ephemeral_port n e = (ret, e', n')"
  shows "trans_ok n' \<and> set_step (trans_set n) (Add_Ephemeral e) (Ret_Entry ret e') (trans_set n')"
proof (cases "te_match e = TRANS_MATCH_5TUPLE")
  case False
  then show ?thesis using assms by (auto simp: trans_table_add_with_ephemeral_port_def intro: ephemeral_match)
next
  case True
  note s = ephemeral_add_spec [OF assms(1) True assms(2)]
  show ?thesis
  proof (cases "ret = 0")
    case False
    then have "free_ports (trans_set n) e = {}" using s by (auto simp: free_ports_def port_free_in)
    then show ?thesis using s False assms(1) True by (auto intro: ephemeral_none)
  next
    case ret: True
    then obtain p where p: "e' = with_port e p" "MIN_EPHEMERAL \<le> unat p" "port_free n e p" using s by blast
    have "unat p \<le> MAX_EPHEMERAL" using unat_lt [of p] by (simp add: MAX_EPHEMERAL_def)
    then have "p \<in> free_ports (trans_set n) e" using p by (simp add: free_ports_def port_free_in)
    then show ?thesis using s ret p(1) ephemeral [OF True] by simp
  qed
qed

lemma remove_refines:
  assumes "trans_ok n"
  shows "trans_table_remove n e = None \<longleftrightarrow> e \<notin> trans_set n"
    "trans_table_remove n e = Some n' \<Longrightarrow> trans_ok n' \<and> set_step (trans_set n) (Remove e) Removed (trans_set n')"
proof -
  show a: "trans_table_remove n e = None \<longleftrightarrow> e \<notin> trans_set n" using assms by (simp add: trans_table_remove_def trans_set_idx)
  show "trans_table_remove n e = Some n' \<Longrightarrow> trans_ok n' \<and> set_step (trans_set n) (Remove e) Removed (trans_set n')"
    using a trans_table_remove_ok [OF assms, of e] remove [of e "trans_set n"] by (metis option.distinct(1) option.inject)
qed

lemma find_refines:
  assumes "trans_ok n"
  shows "set_step (trans_set n) (Lookup proto l r) (Found (trans_find n proto l r)) (trans_set n)"
proof (cases "trans_find n proto l r")
  case None
  then have "\<forall>f \<in> trans_set n. \<not> match5 proto l r f \<and> \<not> match3 proto l f" using trans_find_spec [OF assms, of proto l r] by (metis option.distinct(1))
  then show ?thesis using None by (simp add: lookup_none)
next
  case (Some e)
  then show ?thesis using trans_find_spec [OF assms, of proto l r e] by (auto intro: lookup5 lookup3)
qed

lemma table_step_refines:
  assumes "trans_ok n"
  shows "trans_step n x = Some (y, n') \<Longrightarrow> trans_ok n' \<and> set_step (trans_set n) x y (trans_set n')"
    and "trans_step n x = None \<longleftrightarrow> (\<exists>e. x = Remove e \<and> e \<notin> trans_set n)"
proof -
  show "trans_step n x = Some (y, n') \<Longrightarrow> trans_ok n' \<and> set_step (trans_set n) x y (trans_set n')"
    using assms add_refines [OF assms] ephemeral_refines [OF assms] remove_refines(2) [OF assms] find_refines [OF assms]
    by (cases x) (auto split: prod.splits)
  show "trans_step n x = None \<longleftrightarrow> (\<exists>e. x = Remove e \<and> e \<notin> trans_set n)"
    by (cases x) (simp_all add: remove_refines(1) [OF assms] split: prod.split)
qed

lemma table_run_refines:
  "trans_ok n \<Longrightarrow> trans_run n xs = Some (ys, n') \<Longrightarrow> trans_ok n' \<and> set_run (trans_set n) xs ys (trans_set n')"
proof (induction xs arbitrary: n ys)
  case (Cons x xs)
  then obtain y n1 zs where s: "trans_step n x = Some (y, n1)" "trans_run n1 xs = Some (zs, n')" "ys = y # zs"
    by (auto split: Option.bind_splits)
  from table_step_refines(1) [OF Cons.prems(1) s(1)] Cons.IH [OF _ s(2)] show ?case by (auto simp: s(3) intro: set_run.intros)
qed (auto intro: set_run.intros)

text \<open>A run stops only at the removal of an entry that is not in the table.\<close>

lemma run_stops:
  "trans_ok n \<Longrightarrow> trans_run n xs = None \<Longrightarrow>
    \<exists>us e vs ys n'. xs = us @ Remove e # vs \<and> trans_run n us = Some (ys, n') \<and> e \<notin> trans_set n'"
proof (induction xs arbitrary: n)
  case (Cons x xs)
  show ?case
  proof (cases "trans_step n x")
    case None
    then show ?thesis using table_step_refines(2) [OF Cons.prems(1)] by (intro exI [of _ "[]"]) auto
  next
    case (Some p)
    obtain y n1 where p: "p = (y, n1)" by (cases p)
    then have "trans_run n1 xs = None" using Cons.prems(2) Some by (auto split: Option.bind_splits)
    then obtain us e vs ys n' where "xs = us @ Remove e # vs" "trans_run n1 us = Some (ys, n')" "e \<notin> trans_set n'"
      using Cons.IH table_step_refines(1) [OF Cons.prems(1)] Some p by blast
    then show ?thesis using Some p by (intro exI [of _ "x # us"]) auto
  qed
qed simp

lemma trans_init_ok:
  assumes "\<And>i. i \<ge> TRANS_TBL_SIZE \<Longrightarrow> trans_tbl n i = []"
  shows "trans_ok (trans_init n now pid)" "trans_set (trans_init n now pid) = {}"
  using assms by (auto simp: trans_init_def trans_ok_def trans_set_def)

text \<open>C8: 
  From its initialisation on, every series of additions, additions with an ephemeral port, removals and look-ups on the transport table
  is a run on a set of entries with the same results, and keeps the table well formed: every entry in its bucket, with a port, and no two
  entries in conflict. A run stops only where an entry is removed that is not in the table. The table has no bucket beyond its size.
\<close>

theorem transport_refines_set:
  assumes "\<And>i. i \<ge> TRANS_TBL_SIZE \<Longrightarrow> trans_tbl n i = []"
  shows "case trans_run (trans_init n now pid) ops of
      Some (outs, n') \<Rightarrow> trans_ok n' \<and> set_run {} ops outs (trans_set n')
    | None \<Rightarrow> \<exists>us e vs outs n'. ops = us @ Remove e # vs \<and> trans_run (trans_init n now pid) us = Some (outs, n') \<and> e \<notin> trans_set n'"
  using table_run_refines [OF trans_init_ok(1), of n now pid ops] run_stops [OF trans_init_ok(1), of n now pid ops] trans_init_ok(2) [of n now pid] assms
  by (auto split: option.split)

text \<open>
  On a table without conflicts \<^verbatim>\<open>trans_table_add_with_ephemeral_port\<close> succeeds exactly when some port of the ephemeral range is free for
  the addresses of the socket: it then enters the socket with such a port, keeps all other entries, and a packet with the addresses of
  the socket finds it. Otherwise it leaves the table alone and reports that no address is available.
\<close>

theorem ephemeral_port_chosen:
  assumes "trans_ok n" "te_match e = TRANS_MATCH_5TUPLE" "trans_table_add_with_ephemeral_port n e = (ret, e', n')"
  shows "(ret = 0 \<longleftrightarrow> (\<exists>p. MIN_EPHEMERAL \<le> unat p \<and> unat p \<le> MAX_EPHEMERAL \<and> port_free n e p)) \<and>
    (ret = 0 \<longrightarrow> (\<exists>p. e' = with_port e p \<and> MIN_EPHEMERAL \<le> unat p \<and> port_free n e p) \<and>
       trans_ok n' \<and> trans_set n' = insert e' (trans_set n) \<and> trans_find n' (te_proto e) (te_laddr e') (te_raddr e) = Some e') \<and>
    (ret \<noteq> 0 \<longrightarrow> ret = - EADDRNOTAVAIL \<and> n' = n)"
  by (rule ephemeral_add_spec [OF assms])

section \<open>Examples\<close>

definition ex_table :: net where
  "ex_table = \<lparr>io_mac = replicate 6 2, io_addr = 0x0a000001, io_netmask = 0xffffff00, io_gateway = 0x0a0000fe,
     bufs = (\<lambda>a. \<lparr>m_head = [], m_data = 0, m_len = 0, txflags = 0, network_off = 0, transport_off = 0,
       m_release = net_tx_release_mbuf, m_timestamp = 0, seg_seq = 0, seg_end = 0, m_flags = 0, m_ref = 0\<rparr>),
     tx_free = [], txpktq = [], txpktq_size = 0, txpktq_overflow = [], arp_tbl = (\<lambda>i. []), smalloc_ok = [],
     clock = of_nat, ticks = 0, net_errors = [], trans_seed = 1, ephemeral_offset = 0, trans_tbl = (\<lambda>i. []), tcp_conns = [],
     rx_pool = [], txcmdq = [], txcmdq_size = 0, udp_done = []\<rparr>"

definition ex_listener :: trans_entry where
  "ex_listener = trans_init_3tuple 1 IPPROTO_TCP \<lparr>na_ip = 0x0a000001, na_port = 80\<rparr>"

lemma ex_table_init: "trans_tbl (trans_init ex_table now pid) i = []"
  by (simp add: trans_init_def ex_table_def)

text \<open>A listener is entered once, refused the second time, and removed; a port of 0 is refused.\<close>

theorem transport_refines_set_witness:
  "\<exists>n'. trans_run (trans_init ex_table 0 1) [Add ex_listener, Add ex_listener, Remove ex_listener, Add (with_port ex_listener 0)] =
      Some ([Ret 0, Ret (- EADDRINUSE), Removed, Ret (- EINVAL)], n') \<and> trans_ok n' \<and>
    set_run {} [Add ex_listener, Add ex_listener, Remove ex_listener, Add (with_port ex_listener 0)]
      [Ret 0, Ret (- EADDRINUSE), Removed, Ret (- EINVAL)] (trans_set n')"
proof -
  have e: "trans_tbl ex_table i = []" for i by (simp add: ex_table_def)
  have "\<exists>n'. trans_run (trans_init ex_table 0 1) [Add ex_listener, Add ex_listener, Remove ex_listener, Add (with_port ex_listener 0)] =
      Some ([Ret 0, Ret (- EADDRINUSE), Removed, Ret (- EINVAL)], n')"
    using ex_table_init by (simp add: trans_table_add_def trans_table_remove_def ex_listener_def trans_init_3tuple_def conflicts_def with_port_def Let_def)
  then obtain n' where n': "trans_run (trans_init ex_table 0 1) [Add ex_listener, Add ex_listener, Remove ex_listener, Add (with_port ex_listener 0)] =
      Some ([Ret 0, Ret (- EADDRINUSE), Removed, Ret (- EINVAL)], n')" by blast
  from transport_refines_set [where n = ex_table and now = 0 and pid = 1 and ops = "[Add ex_listener, Add ex_listener, Remove ex_listener, Add (with_port ex_listener 0)]", OF e]
  show ?thesis unfolding n' by auto
qed

text \<open>In an empty table the first port tried is free.\<close>

theorem ephemeral_port_chosen_witness:
  "fst (trans_table_add_with_ephemeral_port ex_table (trans_init_5tuple 1 IPPROTO_TCP \<lparr>na_ip = 0x0a000001, na_port = 0\<rparr> \<lparr>na_ip = 0x0a000002, na_port = 80\<rparr>)) = 0"
proof -
  let ?e = "trans_init_5tuple 1 IPPROTO_TCP \<lparr>na_ip = 0x0a000001, na_port = 0\<rparr> \<lparr>na_ip = 0x0a000002, na_port = 80\<rparr>"
  obtain ret e' n' where a: "trans_table_add_with_ephemeral_port ex_table ?e = (ret, e', n')" by (metis prod.exhaust)
  have "trans_ok ex_table" "port_free ex_table ?e 50000" by (simp_all add: trans_ok_def port_free_def trans_set_def ex_table_def)
  then show ?thesis
    using ephemeral_port_chosen [OF _ _ a] a by (auto simp: trans_init_5tuple_def MIN_EPHEMERAL_def MAX_EPHEMERAL_def intro!: exI [of _ 50000])
qed

end
