(* ===== verification/Io_Thread.thy ===== *)
theory Io_Thread
  imports Net_Stack Page
begin

text \<open>
  The I/O thread (\<^verbatim>\<open>libos/io\<close>): it polls the network card and the queues of the kthreads. Received frames go to the queue of a kthread that their hash selects
  (\<^verbatim>\<open>rx.c\<close>), commands of the kthreads give receive buffers back (\<^verbatim>\<open>cmd.c\<close>), packets of the kthreads are handed to the card in bursts, and the pool of their
  descriptors tells the kthreads when a packet has been sent (\<^verbatim>\<open>tx.c\<close>, \<^verbatim>\<open>completion.c\<close>).

  DPDK is outside of the repository. Its constants and address tests are fields of \<open>io_env\<close>; the frames that \<^verbatim>\<open>rte_eth_rx_burst\<close> gives and the number of packets that
  \<^verbatim>\<open>rte_eth_tx_burst\<close> accepts are arguments. The pool of descriptors is created without a cache, so that \<^verbatim>\<open>rte_mempool_get_bulk\<close> is \<^verbatim>\<open>completion_dequeue\<close> and freeing a descriptor is
  \<^verbatim>\<open>completion_enqueue\<close>. The channels are bounded lists, as \<open>Lrpc_Chan\<close> shows. \<open>None\<close> is a \<^verbatim>\<open>BUG\<close> or the use of an uninitialised value.
\<close>

section \<open>Data\<close>

definition IO_OVERFLOW_BATCH_DRAIN :: nat where "IO_OVERFLOW_BATCH_DRAIN = 64"
definition IO_TX_BURST_SIZE :: nat where "IO_TX_BURST_SIZE = 64"
definition IO_CMD_BURST_SIZE :: nat where "IO_CMD_BURST_SIZE = 64"

definition OLFLAG_IPV6 :: u32 where "OLFLAG_IPV6 = 8"

record io_env =
  rx_ip_cksum_mask :: u64
  rx_ip_cksum_good :: u64
  tx_ip_cksum :: u64
  tx_tcp_cksum :: u64
  tx_ipv4 :: u64
  tx_ipv6 :: u64
  is_unicast :: "u8 list \<Rightarrow> bool"
  is_broadcast :: "u8 list \<Rightarrow> bool"
  tx_region_base :: u64
  page_paddrs :: "u64 \<Rightarrow> u64"

text \<open>A received frame: the address of its buffer, its data, its hash and its flags.\<close>

record rte_mbuf =
  rb_addr :: u64
  rb_data :: "u8 list"
  rb_rss :: u32
  rb_ol_flags :: u64

text \<open>A packet of a kthread; \<open>th_addr\<close> is the address of its payload.\<close>

record tx_net_hdr =
  th_completion_data :: nat
  th_olflags :: u32
  th_addr :: u64
  th_payload :: "u8 list"

text \<open>A descriptor for sending. The private data are the kthread and its completion data; they are absent until the first use.\<close>

record tx_mbuf =
  tm_payload :: "u8 list"
  tm_iova :: u64
  tm_refcnt :: nat
  tm_ol_flags :: u64
  tm_l4_len :: nat
  tm_l3_len :: nat
  tm_l2_len :: nat
  tm_priv :: "(nat \<times> nat) option"

record io_kthread =
  k_parked :: bool
  k_rxq :: "rx_cmd list"
  k_rxq_size :: nat
  k_txpktq :: "tx_net_hdr list"
  k_txcmdq :: "u64 list"

text \<open>
  The state: the process, the pool of descriptors with its stack, and the static variables of \<^verbatim>\<open>tx_burst\<close> and \<^verbatim>\<open>cmd_rx_burst\<close>; \<^verbatim>\<open>n_bufs\<close> is the length of \<open>tx_bufs\<close>.
  \<open>rx_freed\<close> lists the receive buffers given back to DPDK.
\<close>

record io_st =
  all_ks :: "io_kthread list"
  p_exited :: bool
  next_rr :: u32
  max_overflows :: nat
  overflow_queue :: "nat list"
  pool_objs :: "nat list"
  pool_size :: nat
  tx_mbufs :: "nat \<Rightarrow> tx_mbuf"
  tx_pos :: u32
  tx_bufs :: "nat list"
  tx_n_pkts :: nat
  cmd_pos :: u32
  rx_freed :: "u64 list"

definition set_k :: "io_st \<Rightarrow> nat \<Rightarrow> io_kthread \<Rightarrow> io_st" where
  "set_k io t k = io\<lparr>all_ks := (all_ks io)[t := k]\<rparr>"

section \<open>Reception\<close>

definition rx_prepend_rx_preamble :: "io_env \<Rightarrow> rte_mbuf \<Rightarrow> rx_net_hdr" where
  "rx_prepend_rx_preamble env b =
     \<lparr>rh_completion_data = rb_addr b,
      rh_csum_type = (if rb_ol_flags b AND rx_ip_cksum_mask env = rx_ip_cksum_good env then CHECKSUM_TYPE_UNNECESSARY else CHECKSUM_TYPE_NEEDED),
      rh_payload = rb_data b\<rparr>"

text \<open>\<^verbatim>\<open>lrpc_send\<close> on the queue of a kthread.\<close>

definition rxq_send :: "io_st \<Rightarrow> nat \<Rightarrow> rx_cmd \<Rightarrow> bool \<times> io_st" where
  "rxq_send io t x =
     (let k = all_ks io ! t
      in if length (k_rxq k) < k_rxq_size k then (True, set_k io t (k\<lparr>k_rxq := k_rxq k @ [x]\<rparr>)) else (False, io))"

definition rx_send_to_runtime :: "io_st \<Rightarrow> u32 \<Rightarrow> rx_cmd \<Rightarrow> (bool \<times> io_st) option" where
  "rx_send_to_runtime io hash x = (if all_ks io = [] then None else Some (rxq_send io (unat hash mod length (all_ks io)) x))"

text \<open>A unicast and a broadcast frame go to one kthread; with one recipient the reference count of a broadcast frame stays as it is.\<close>

definition rx_one_pkt :: "io_env \<Rightarrow> io_st \<Rightarrow> rte_mbuf \<Rightarrow> io_st option" where
  "rx_one_pkt env io b =
     (if is_unicast env (take 6 (rb_data b)) \<or> is_broadcast env (take 6 (rb_data b))
      then do {
        (ok, io) \<leftarrow> rx_send_to_runtime io (rb_rss b) (RX_NET_RECV (rx_prepend_rx_preamble env b));
        Some (if ok then io else io\<lparr>rx_freed := rx_freed io @ [rb_addr b]\<rparr>)
      }
      else Some (io\<lparr>rx_freed := rx_freed io @ [rb_addr b]\<rparr>))"

fun rx_pkts :: "io_env \<Rightarrow> io_st \<Rightarrow> rte_mbuf list \<Rightarrow> io_st option" where
  "rx_pkts env io [] = Some io"
| "rx_pkts env io (b # bs) = do { io \<leftarrow> rx_one_pkt env io b; rx_pkts env io bs }"

definition rx_burst :: "io_env \<Rightarrow> io_st \<Rightarrow> rte_mbuf list \<Rightarrow> (bool \<times> io_st) option" where
  "rx_burst env io bs = map_option (Pair (bs \<noteq> [])) (rx_pkts env io bs)"

section \<open>Commands\<close>

text \<open>The order in which a burst visits the kthreads.\<close>

definition poll_order :: "u32 \<Rightarrow> nat \<Rightarrow> nat list" where
  "poll_order pos n = map (\<lambda>i. unat (pos + of_nat i) mod n) [0..<n]"

text \<open>The queue holds completions only.\<close>

definition cmd_drain_queue :: "io_st \<Rightarrow> nat \<Rightarrow> nat \<Rightarrow> u64 list \<times> io_st" where
  "cmd_drain_queue io t n = (let k = all_ks io ! t in (take n (k_txcmdq k), set_k io t (k\<lparr>k_txcmdq := drop n (k_txcmdq k)\<rparr>)))"

fun cmd_poll :: "nat list \<Rightarrow> io_st \<Rightarrow> u64 list \<Rightarrow> u64 list \<times> io_st" where
  "cmd_poll [] io got = (got, io)"
| "cmd_poll (t # ts) io got =
     (if length got \<ge> IO_CMD_BURST_SIZE then (got, io)
      else let (bs, io) = cmd_drain_queue io t (IO_CMD_BURST_SIZE - length got) in cmd_poll ts io (got @ bs))"

definition cmd_rx_burst :: "io_st \<Rightarrow> bool \<times> io_st" where
  "cmd_rx_burst io =
     (let (got, io) = cmd_poll (poll_order (cmd_pos io) (length (all_ks io))) io []
      in (got \<noteq> [], io\<lparr>cmd_pos := cmd_pos io + 1, rx_freed := rx_freed io @ got\<rparr>))"

section \<open>Completions\<close>

definition overflow_push :: "io_st \<Rightarrow> nat \<Rightarrow> bool \<times> io_st" where
  "overflow_push io d =
     (if length (overflow_queue io) = max_overflows io then (False, io) else (True, io\<lparr>overflow_queue := overflow_queue io @ [d]\<rparr>))"

definition tx_send_completion :: "io_st \<Rightarrow> nat \<Rightarrow> (bool \<times> io_st) option" where
  "tx_send_completion io obj =
     (case tm_priv (tx_mbufs io obj) of
        None \<Rightarrow> Some (True, io)
      | Some (t, d) \<Rightarrow>
          if p_exited io then Some (True, io)
          else do {
            (ok, io) \<leftarrow> (if \<not> k_parked (all_ks io ! t) then Some (rxq_send io t (RX_NET_COMPLETE d))
                         else rx_send_to_runtime (io\<lparr>next_rr := next_rr io + 1\<rparr>) (next_rr io) (RX_NET_COMPLETE d));
            Some (if ok then (True, io) else overflow_push io d)
          })"

text \<open>The last entry of the overflow queue is sent first.\<close>

fun tx_drain_completions :: "io_st \<Rightarrow> nat \<Rightarrow> (nat \<times> io_st) option" where
  "tx_drain_completions io 0 = Some (0, io)"
| "tx_drain_completions io (Suc n) =
     (if overflow_queue io = [] then Some (0, io)
      else do {
        (ok, io) \<leftarrow> rx_send_to_runtime (io\<lparr>next_rr := next_rr io + 1\<rparr>) (next_rr io) (RX_NET_COMPLETE (last (overflow_queue io)));
        if ok then do { (i, io) \<leftarrow> tx_drain_completions (io\<lparr>overflow_queue := butlast (overflow_queue io)\<rparr>) n; Some (i + 1, io) }
        else Some (0, io)
      })"

text \<open>The results of the completions are not looked at.\<close>

fun send_completions :: "io_st \<Rightarrow> nat list \<Rightarrow> io_st option" where
  "send_completions io [] = Some io"
| "send_completions io (x # xs) = do { (ok, io) \<leftarrow> tx_send_completion io x; send_completions io xs }"

definition completion_enqueue :: "io_st \<Rightarrow> nat list \<Rightarrow> (int \<times> io_st) option" where
  "completion_enqueue io objs =
     (if length (pool_objs io) + length objs > pool_size io then Some (- ENOBUFS, io)
      else do { io \<leftarrow> send_completions io objs; Some (0, io\<lparr>pool_objs := pool_objs io @ objs\<rparr>) })"

definition completion_dequeue :: "io_st \<Rightarrow> nat \<Rightarrow> (nat list \<times> io_st) option" where
  "completion_dequeue io n =
     (let len = length (pool_objs io)
      in if n > len then None else Some (drop (len - n) (pool_objs io), io\<lparr>pool_objs := take (len - n) (pool_objs io)\<rparr>))"

definition completion_get_count :: "io_st \<Rightarrow> nat" where
  "completion_get_count io = length (pool_objs io)"

section \<open>Transmission\<close>

definition tx_prepare_tx_mbuf :: "io_env \<Rightarrow> tx_mbuf \<Rightarrow> tx_net_hdr \<Rightarrow> nat \<Rightarrow> tx_mbuf" where
  "tx_prepare_tx_mbuf env m h t =
     (let ol = th_olflags h;
          m = m\<lparr>tm_payload := th_payload h,
                tm_iova := page_paddrs env (ucast (ucast (PGN_2MB (th_addr h - tx_region_base env)) :: u32)) + PGOFF_2MB (th_addr h),
                tm_refcnt := 1, tm_ol_flags := 0\<rparr>;
          m = (if ol = 0 then m
               else m\<lparr>tm_ol_flags :=
                        (if ol AND OLFLAG_IP_CHKSUM \<noteq> 0 then tx_ip_cksum env else 0) OR
                        (if ol AND OLFLAG_TCP_CHKSUM \<noteq> 0 then tx_tcp_cksum env else 0) OR
                        (if ol AND OLFLAG_IPV4 \<noteq> 0 then tx_ipv4 env else 0) OR
                        (if ol AND OLFLAG_IPV6 \<noteq> 0 then tx_ipv6 env else 0),
                      tm_l4_len := 20, tm_l3_len := 20, tm_l2_len := 14\<rparr>)
      in m\<lparr>tm_priv := Some (t, th_completion_data h)\<rparr>)"

definition tx_drain_queue :: "io_st \<Rightarrow> nat \<Rightarrow> nat \<Rightarrow> tx_net_hdr list \<times> io_st" where
  "tx_drain_queue io t n = (let k = all_ks io ! t in (take n (k_txpktq k), set_k io t (k\<lparr>k_txpktq := drop n (k_txpktq k)\<rparr>)))"

text \<open>
  The local arrays \<^verbatim>\<open>hdrs\<close> and \<^verbatim>\<open>threads\<close> as one list: \<open>None\<close> is an entry that has not been written in this call. The first result tells whether the loop is left through
  \<^verbatim>\<open>full\<close>.
\<close>

fun tx_poll :: "nat list \<Rightarrow> io_st \<Rightarrow> (tx_net_hdr \<times> nat) option list \<Rightarrow> bool \<times> io_st \<times> (tx_net_hdr \<times> nat) option list" where
  "tx_poll [] io hdrs = (False, io, hdrs)"
| "tx_poll (t # ts) io hdrs =
     (if length hdrs \<ge> IO_TX_BURST_SIZE then (True, io, hdrs)
      else let (hs, io) = tx_drain_queue io t (IO_TX_BURST_SIZE - length hdrs) in tx_poll ts io (hdrs @ map (\<lambda>h. Some (h, t)) hs))"

fun tx_fill :: "io_env \<Rightarrow> io_st \<Rightarrow> nat list \<Rightarrow> (tx_net_hdr \<times> nat) option list \<Rightarrow> io_st option" where
  "tx_fill env io (b # bs) (Some (h, t) # hs) = tx_fill env (io\<lparr>tx_mbufs := (tx_mbufs io)(b := tx_prepare_tx_mbuf env (tx_mbufs io b) h t)\<rparr>) bs hs"
| "tx_fill env io (b # bs) (None # hs) = None"
| "tx_fill env io bs hs = Some io"

text \<open>
  What follows the label \<^verbatim>\<open>full\<close>: descriptors for the packets that have none, and the hand-over to the card, which accepts \<open>acc\<close> of them. The results are the value
  returned, the descriptors accepted, and the state.
\<close>

definition tx_flush :: "io_env \<Rightarrow> io_st \<Rightarrow> (tx_net_hdr \<times> nat) option list \<Rightarrow> nat \<Rightarrow> (bool \<times> nat list \<times> io_st) option" where
  "tx_flush env io hdrs acc =
     (let n_pkts = length hdrs; n_bufs = length (tx_bufs io)
      in case (if n_pkts - n_bufs > 0 then completion_dequeue io (n_pkts - n_bufs) else Some ([], io)) of
           None \<Rightarrow> Some (True, [], io)
         | Some (objs, io) \<Rightarrow> do {
             io \<leftarrow> tx_fill env io objs (drop n_bufs hdrs);
             let got = tx_bufs io @ objs;
             let ret = min acc n_pkts;
             Some (True, take ret got, io\<lparr>tx_bufs := drop ret got, tx_n_pkts := n_pkts - ret\<rparr>)
           })"

definition tx_burst :: "io_env \<Rightarrow> io_st \<Rightarrow> nat \<Rightarrow> (bool \<times> nat list \<times> io_st) option" where
  "tx_burst env io acc =
     (let (full, io, hdrs) = tx_poll (poll_order (tx_pos io) (length (all_ks io))) io (replicate (tx_n_pkts io) None)
      in if \<not> full \<and> hdrs = [] then Some (False, [], io)
         else tx_flush env (io\<lparr>tx_pos := (if full then tx_pos io else tx_pos io + 1), tx_n_pkts := length hdrs\<rparr>) hdrs acc)"

text \<open>One round of the loop of \<^verbatim>\<open>iothread_main\<close>.\<close>

definition iothread_round :: "io_env \<Rightarrow> io_st \<Rightarrow> rte_mbuf list \<Rightarrow> nat \<Rightarrow> (nat list \<times> io_st) option" where
  "iothread_round env io bs acc = do {
     (_, io) \<leftarrow> rx_burst env io bs;
     let (_, io) = cmd_rx_burst io;
     (_, io) \<leftarrow> tx_drain_completions io IO_OVERFLOW_BATCH_DRAIN;
     (_, sent, io) \<leftarrow> tx_burst env io acc;
     Some (sent, io)
   }"

end
