(* ===== verification/Io_Run.thy ===== *)
theory Io_Run
  imports Io_Thread "HOL-Library.Multiset"
begin

text \<open>
  What the I/O thread promises the kthreads and the card, under every order of its bursts with the steps of the kthreads and of the card: packets reach the card in the order
  of each kthread, every packet sent is reported once, and no receive buffer is lost or given back twice.
\<close>

section \<open>Runs\<close>

text \<open>
  The history: the packets handed over by each kthread, the descriptors handed to the card (as they were then), those that the card still holds, the completions that kthreads have
  taken, and the receive buffers that have come from the card and those that kthreads hold.
\<close>

record io_trace =
  pushed :: "nat \<Rightarrow> tx_net_hdr list"
  wire :: "tx_mbuf list"
  flying :: "nat list"
  reported :: "nat list"
  received :: "u64 list"
  held :: "u64 list"

definition no_trace :: io_trace where
  "no_trace = \<lparr>pushed = \<lambda>t. [], wire = [], flying = [], reported = [], received = [], held = []\<rparr>"

definition io_start :: "nat \<Rightarrow> io_st \<Rightarrow> bool" where
  "io_start ring io \<longleftrightarrow> all_ks io \<noteq> [] \<and> (\<forall>k \<in> set (all_ks io). k_rxq k = [] \<and> k_txpktq k = [] \<and> k_txcmdq k = []) \<and> \<not> p_exited io \<and>
     overflow_queue io = [] \<and> distinct (pool_objs io) \<and> length (pool_objs io) = pool_size io \<and> ring + IO_TX_BURST_SIZE \<le> pool_size io \<and>
     tx_bufs io = [] \<and> tx_n_pkts io = 0 \<and> rx_freed io = []"

text \<open>The packets handed over by kthreads whose completion has not been taken.\<close>

definition queued :: "io_st \<Rightarrow> nat" where
  "queued io = length (concat (map k_txpktq (all_ks io)))"

text \<open>
  The card holds at most \<open>ring\<close> descriptors. A kthread hands over a packet only when it has a buffer for it, and the overflow queue has an entry for each of the buffers.
\<close>

inductive io_run :: "io_env \<Rightarrow> nat \<Rightarrow> io_st \<Rightarrow> io_trace \<Rightarrow> bool" for env ring where
  start: "io_start ring io \<Longrightarrow> io_run env ring io no_trace"
| push: "io_run env ring io tr \<Longrightarrow> t < length (all_ks io) \<Longrightarrow>
    length (wire tr) + length (tx_bufs io) + queued io < max_overflows io + length (reported tr) \<Longrightarrow>
    io_run env ring (set_k io t ((all_ks io ! t)\<lparr>k_txpktq := k_txpktq (all_ks io ! t) @ [h]\<rparr>)) (tr\<lparr>pushed := (pushed tr)(t := pushed tr t @ [h])\<rparr>)"
| take_completion: "io_run env ring io tr \<Longrightarrow> t < length (all_ks io) \<Longrightarrow> k_rxq (all_ks io ! t) = RX_NET_COMPLETE d # q \<Longrightarrow>
    io_run env ring (set_k io t ((all_ks io ! t)\<lparr>k_rxq := q\<rparr>)) (tr\<lparr>reported := reported tr @ [d]\<rparr>)"
| take_packet: "io_run env ring io tr \<Longrightarrow> t < length (all_ks io) \<Longrightarrow> k_rxq (all_ks io ! t) = RX_NET_RECV h # q \<Longrightarrow>
    io_run env ring (set_k io t ((all_ks io ! t)\<lparr>k_rxq := q\<rparr>)) (tr\<lparr>held := held tr @ [rh_completion_data h]\<rparr>)"
| give_back: "io_run env ring io tr \<Longrightarrow> t < length (all_ks io) \<Longrightarrow> d \<in> set (held tr) \<Longrightarrow>
    io_run env ring (set_k io t ((all_ks io ! t)\<lparr>k_txcmdq := k_txcmdq (all_ks io ! t) @ [d]\<rparr>)) (tr\<lparr>held := remove1 d (held tr)\<rparr>)"
| park: "io_run env ring io tr \<Longrightarrow> t < length (all_ks io) \<Longrightarrow> io_run env ring (set_k io t ((all_ks io ! t)\<lparr>k_parked := b\<rparr>)) tr"
| rx: "io_run env ring io tr \<Longrightarrow> rx_burst env io bs = Some (r, io') \<Longrightarrow> io_run env ring io' (tr\<lparr>received := received tr @ map rb_addr bs\<rparr>)"
| cmd: "io_run env ring io tr \<Longrightarrow> cmd_rx_burst io = (r, io') \<Longrightarrow> io_run env ring io' tr"
| drain: "io_run env ring io tr \<Longrightarrow> tx_drain_completions io n = Some (i, io') \<Longrightarrow> io_run env ring io' tr"
| burst: "io_run env ring io tr \<Longrightarrow> tx_burst env io acc = Some (r, sent, io') \<Longrightarrow> length (flying tr) + length sent \<le> ring \<Longrightarrow>
    io_run env ring io' (tr\<lparr>wire := wire tr @ map (tx_mbufs io') sent, flying := flying tr @ sent\<rparr>)"
| sent: "io_run env ring io tr \<Longrightarrow> x \<in> set (flying tr) \<Longrightarrow> completion_enqueue io [x] = Some (ret, io') \<Longrightarrow>
    io_run env ring io' (tr\<lparr>flying := remove1 x (flying tr)\<rparr>)"

section \<open>What is where\<close>

definition all_of :: "(io_kthread \<Rightarrow> 'a list) \<Rightarrow> io_st \<Rightarrow> 'a multiset" where
  "all_of f io = mset (concat (map f (all_ks io)))"

lemma mset_concat_update:
  "t < length xs \<Longrightarrow> mset (concat (map f (xs[t := k]))) + mset (f (xs ! t)) = mset (concat (map f xs)) + mset (f k)"
proof (induction xs arbitrary: t)
  case (Cons x xs)
  then show ?case by (cases t) (auto simp: ac_simps)
qed simp

lemma all_of_set_k:
  assumes "t < length (all_ks io)"
  shows "all_of f (set_k io t k) + mset (f (all_ks io ! t)) = all_of f io + mset (f k)"
  using mset_concat_update [OF assms] by (simp add: all_of_def set_k_def)

definition completes :: "io_kthread \<Rightarrow> nat list" where
  "completes k = List.map_filter (\<lambda>x. case x of RX_NET_COMPLETE d \<Rightarrow> Some d | _ \<Rightarrow> None) (k_rxq k)"

definition recvs :: "io_kthread \<Rightarrow> u64 list" where
  "recvs k = List.map_filter (\<lambda>x. case x of RX_NET_RECV h \<Rightarrow> Some (rh_completion_data h) | _ \<Rightarrow> None) (k_rxq k)"

text \<open>The steps of reception and completion leave the sending side alone.\<close>

definition tx_kept :: "io_st \<Rightarrow> io_st \<Rightarrow> bool" where
  "tx_kept io io' \<longleftrightarrow> map k_txpktq (all_ks io') = map k_txpktq (all_ks io) \<and> p_exited io' = p_exited io \<and> max_overflows io' = max_overflows io \<and>
     pool_objs io' = pool_objs io \<and> pool_size io' = pool_size io \<and> tx_mbufs io' = tx_mbufs io \<and> tx_bufs io' = tx_bufs io \<and> tx_n_pkts io' = tx_n_pkts io"

lemma tx_kept_refl [simp]: "tx_kept io io"
  by (simp add: tx_kept_def)

lemma tx_kept_trans: "tx_kept a b \<Longrightarrow> tx_kept b c \<Longrightarrow> tx_kept a c"
  by (simp add: tx_kept_def)

lemma tx_kept_length: "tx_kept a b \<Longrightarrow> length (all_ks b) = length (all_ks a)"
  unfolding tx_kept_def by (metis length_map)

lemma tx_kept_set_k: "t < length (all_ks io) \<Longrightarrow> k_txpktq k = k_txpktq (all_ks io ! t) \<Longrightarrow> tx_kept io (set_k io t k)"
  by (simp add: tx_kept_def set_k_def map_update) (metis list_update_id nth_map)

text \<open>Completions on their way to the kthreads, and receive buffers on theirs.\<close>

definition compl_way :: "io_st \<Rightarrow> nat multiset" where
  "compl_way io = all_of completes io + mset (overflow_queue io)"

definition rx_way :: "io_st \<Rightarrow> u64 multiset" where
  "rx_way io = all_of recvs io + all_of k_txcmdq io + mset (rx_freed io)"

lemma way_upd [simp]:
  "all_of f (io\<lparr>next_rr := x\<rparr>) = all_of f io" "all_of f (io\<lparr>overflow_queue := q\<rparr>) = all_of f io" "all_of f (io\<lparr>rx_freed := r\<rparr>) = all_of f io"
  "all_of f (io\<lparr>cmd_pos := x\<rparr>) = all_of f io"
  by (simp_all add: all_of_def)

text \<open>What the hand-over of a command to a kthread changes.\<close>

definition handed :: "io_st \<Rightarrow> rx_cmd \<Rightarrow> bool \<Rightarrow> io_st \<Rightarrow> bool" where
  "handed io x ok io' \<longleftrightarrow> tx_kept io io' \<and> overflow_queue io' = overflow_queue io \<and> rx_freed io' = rx_freed io \<and> all_of k_txcmdq io' = all_of k_txcmdq io \<and>
    (if ok then (case x of
         RX_NET_COMPLETE d \<Rightarrow> all_of completes io' = all_of completes io + {#d#} \<and> all_of recvs io' = all_of recvs io
       | RX_NET_RECV h \<Rightarrow> all_of completes io' = all_of completes io \<and> all_of recvs io' = all_of recvs io + {#rh_completion_data h#}
       | _ \<Rightarrow> True)
     else io' = io)"

lemma rxq_send_spec:
  assumes "rxq_send io t x = (ok, io')" "t < length (all_ks io)"
  shows "handed io x ok io'"
proof (cases ok)
  case True
  let ?k = "all_ks io ! t"
  let ?k' = "?k\<lparr>k_rxq := k_rxq ?k @ [x]\<rparr>"
  have io': "io' = set_k io t ?k'" using assms(1) True by (auto simp: rxq_send_def Let_def split: if_splits)
  have a: "all_of f io' + mset (f ?k) = all_of f io + mset (f ?k')" for f :: "io_kthread \<Rightarrow> 'a list" unfolding io' by (rule all_of_set_k [OF assms(2)])
  have "tx_kept io io'" unfolding io' by (rule tx_kept_set_k) (use assms(2) in auto)
  moreover have "overflow_queue io' = overflow_queue io" "rx_freed io' = rx_freed io" by (simp_all add: io' set_k_def)
  moreover have "all_of k_txcmdq io' = all_of k_txcmdq io" using a [of k_txcmdq] by simp
  moreover have "all_of completes io' = all_of completes io + mset (List.map_filter (\<lambda>x. case x of RX_NET_COMPLETE d \<Rightarrow> Some d | _ \<Rightarrow> None) [x])"
    using a [of completes] by (simp add: completes_def map_filter_def)
  moreover have "all_of recvs io' = all_of recvs io + mset (List.map_filter (\<lambda>x. case x of RX_NET_RECV h \<Rightarrow> Some (rh_completion_data h) | _ \<Rightarrow> None) [x])"
    using a [of recvs] by (simp add: recvs_def map_filter_def)
  ultimately show ?thesis using True by (auto simp: handed_def map_filter_def split: rx_cmd.split)
next
  case False
  then show ?thesis using assms(1) by (auto simp: handed_def rxq_send_def Let_def split: if_splits)
qed

lemma runtime_send_spec:
  assumes "all_ks io \<noteq> []"
  shows "\<exists>ok io'. rx_send_to_runtime io hash x = Some (ok, io') \<and> handed io x ok io'"
proof -
  obtain ok io' where s: "rxq_send io (unat hash mod length (all_ks io)) x = (ok, io')" by fastforce
  have "unat hash mod length (all_ks io) < length (all_ks io)" using assms by simp
  from rxq_send_spec [OF s this] show ?thesis using assms s by (auto simp: rx_send_to_runtime_def)
qed

text \<open>Received frames.\<close>

lemma rx_one_pkt_spec:
  assumes "all_ks io \<noteq> []"
  shows "\<exists>io'. rx_one_pkt env io b = Some io' \<and> tx_kept io io' \<and> compl_way io' = compl_way io \<and> rx_way io' = rx_way io + {#rb_addr b#}"
proof (cases "is_unicast env (take 6 (rb_data b)) \<or> is_broadcast env (take 6 (rb_data b))")
  case True
  let ?x = "RX_NET_RECV (rx_prepend_rx_preamble env b)"
  obtain ok io' where s: "rx_send_to_runtime io (rb_rss b) ?x = Some (ok, io')" "handed io ?x ok io'"
    using runtime_send_spec [OF assms] by blast
  then show ?thesis using True
    by (cases ok) (auto simp: rx_one_pkt_def handed_def compl_way_def rx_way_def tx_kept_def rx_prepend_rx_preamble_def)
next
  case False
  then show ?thesis by (simp add: rx_one_pkt_def compl_way_def rx_way_def tx_kept_def)
qed

lemma rx_pkts_spec:
  "all_ks io \<noteq> [] \<Longrightarrow> \<exists>io'. rx_pkts env io bs = Some io' \<and> tx_kept io io' \<and> compl_way io' = compl_way io \<and> rx_way io' = rx_way io + mset (map rb_addr bs)"
proof (induction bs arbitrary: io)
  case (Cons b bs)
  obtain io1 where a: "rx_one_pkt env io b = Some io1" "tx_kept io io1" "compl_way io1 = compl_way io" "rx_way io1 = rx_way io + {#rb_addr b#}"
    using rx_one_pkt_spec [OF Cons.prems] by blast
  have "all_ks io1 \<noteq> []" using tx_kept_length [OF a(2)] Cons.prems by auto
  from Cons.IH [OF this] a show ?case using tx_kept_trans [OF a(2)] by fastforce
qed simp

text \<open>Buffers that kthreads give back.\<close>

lemma cmd_poll_spec:
  "cmd_poll ts io got = (got', io') \<Longrightarrow> set ts \<subseteq> {..<length (all_ks io)} \<Longrightarrow>
    tx_kept io io' \<and> compl_way io' = compl_way io \<and> all_of recvs io' = all_of recvs io \<and> rx_freed io' = rx_freed io \<and>
    all_of k_txcmdq io' + mset got' = all_of k_txcmdq io + mset got"
proof (induction ts io got rule: cmd_poll.induct)
  case (2 t ts io got)
  show ?case
  proof (cases "length got \<ge> IO_CMD_BURST_SIZE")
    case False
    let ?k = "all_ks io ! t" and ?n = "IO_CMD_BURST_SIZE - length got"
    let ?k' = "?k\<lparr>k_txcmdq := drop ?n (k_txcmdq ?k)\<rparr>"
    let ?io = "set_k io t ?k'"
    have t: "t < length (all_ks io)" using 2(3) by simp
    have d: "cmd_drain_queue io t ?n = (take ?n (k_txcmdq ?k), ?io)" by (simp add: cmd_drain_queue_def Let_def)
    have k: "tx_kept io ?io" by (rule tx_kept_set_k [OF t]) simp
    have r: "cmd_poll ts ?io (got @ take ?n (k_txcmdq ?k)) = (got', io')" using 2(2) False d by simp
    have "set ts \<subseteq> {..<length (all_ks ?io)}" using 2(3) tx_kept_length [OF k] by simp
    note ih = 2(1) [OF False d [symmetric] refl r this]
    have a: "all_of f ?io + mset (f ?k) = all_of f io + mset (f ?k')" for f :: "io_kthread \<Rightarrow> 'a list" by (rule all_of_set_k [OF t])
    have "all_of completes ?io = all_of completes io" "all_of recvs ?io = all_of recvs io"
      using a [of completes] a [of recvs] by (simp_all add: completes_def recvs_def)
    moreover have "all_of k_txcmdq ?io + mset (take ?n (k_txcmdq ?k)) = all_of k_txcmdq io"
    proof -
      have "mset (k_txcmdq ?k) = mset (take ?n (k_txcmdq ?k)) + mset (drop ?n (k_txcmdq ?k))" by (metis append_take_drop_id mset_append)
      then show ?thesis using a [of k_txcmdq] by simp
    qed
    moreover have "overflow_queue ?io = overflow_queue io" "rx_freed ?io = rx_freed io" by (simp_all add: set_k_def)
    ultimately show ?thesis using ih tx_kept_trans [OF k] by (auto simp: compl_way_def ac_simps)
  qed (use 2(2) in simp)
qed simp

lemma poll_order_range: "set (poll_order pos n) \<subseteq> {..<n}"
  by (auto simp: poll_order_def)

lemma cmd_rx_burst_spec:
  assumes "cmd_rx_burst io = (r, io')"
  shows "tx_kept io io' \<and> compl_way io' = compl_way io \<and> rx_way io' = rx_way io"
proof -
  obtain got io1 where c: "cmd_poll (poll_order (cmd_pos io) (length (all_ks io))) io [] = (got, io1)" by fastforce
  have "io' = io1\<lparr>cmd_pos := cmd_pos io1 + 1, rx_freed := rx_freed io1 @ got\<rparr>" using assms c by (auto simp: cmd_rx_burst_def)
  then show ?thesis using cmd_poll_spec [OF c poll_order_range] by (auto simp: compl_way_def rx_way_def tx_kept_def ac_simps)
qed

text \<open>Completions.\<close>

lemma completion_spec:
  assumes "tm_priv (tx_mbufs io x) = Some (t, d)" "t < length (all_ks io)" "\<not> p_exited io" "length (overflow_queue io) < max_overflows io"
  shows "\<exists>io'. tx_send_completion io x = Some (True, io') \<and> tx_kept io io' \<and> compl_way io' = compl_way io + {#d#} \<and> rx_way io' = rx_way io"
proof -
  let ?io = "if k_parked (all_ks io ! t) then io\<lparr>next_rr := next_rr io + 1\<rparr> else io"
  let ?s = "if \<not> k_parked (all_ks io ! t) then Some (rxq_send io t (RX_NET_COMPLETE d))
            else rx_send_to_runtime (io\<lparr>next_rr := next_rr io + 1\<rparr>) (next_rr io) (RX_NET_COMPLETE d)"
  have ne: "all_ks (io\<lparr>next_rr := next_rr io + 1\<rparr>) \<noteq> []" using assms(2) by auto
  have "\<exists>ok io1. ?s = Some (ok, io1) \<and> handed ?io (RX_NET_COMPLETE d) ok io1"
  proof (cases "k_parked (all_ks io ! t)")
    case True
    then show ?thesis using runtime_send_spec [OF ne, of "next_rr io" "RX_NET_COMPLETE d"] by simp
  next
    case False
    obtain ok io1 where "rxq_send io t (RX_NET_COMPLETE d) = (ok, io1)" by fastforce
    from rxq_send_spec [OF this assms(2)] this show ?thesis using False by simp
  qed
  then obtain ok io1 where s: "?s = Some (ok, io1)" "handed ?io (RX_NET_COMPLETE d) ok io1" by blast
  have e: "tx_send_completion io x = Some (if ok then (True, io1) else overflow_push io1 d)"
    using s(1) assms(1,3) by (simp add: tx_send_completion_def split: if_splits)
  have k: "tx_kept io io1" by (rule tx_kept_trans [of _ ?io]) (use s(2) in \<open>auto simp: tx_kept_def handed_def\<close>)
  have v: "overflow_queue ?io = overflow_queue io" "rx_freed ?io = rx_freed io" "all_of f ?io = all_of f io" for f :: "io_kthread \<Rightarrow> 'a list" by simp_all
  show ?thesis
  proof (cases ok)
    case True
    then show ?thesis using e k s(2) v unfolding handed_def by (simp add: compl_way_def rx_way_def)
  next
    case False
    then have w: "overflow_queue io1 = overflow_queue io" "io1 = ?io" using s(2) by (simp_all add: handed_def)
    then have "overflow_push io1 d = (True, io1\<lparr>overflow_queue := overflow_queue io1 @ [d]\<rparr>)"
      using assms(4) k by (simp add: overflow_push_def tx_kept_def)
    moreover have "tx_kept io (io1\<lparr>overflow_queue := overflow_queue io1 @ [d]\<rparr>)" using k by (simp add: tx_kept_def)
    ultimately show ?thesis using e False v w(1) unfolding w(2) by (simp add: compl_way_def rx_way_def)
  qed
qed

lemma drain_completions_spec:
  "all_ks io \<noteq> [] \<Longrightarrow> \<exists>i io'. tx_drain_completions io n = Some (i, io') \<and> tx_kept io io' \<and> compl_way io' = compl_way io \<and> rx_way io' = rx_way io"
proof (induction n arbitrary: io)
  case (Suc n)
  show ?case
  proof (cases "overflow_queue io = []")
    case False
    let ?io = "io\<lparr>next_rr := next_rr io + 1\<rparr>" and ?d = "last (overflow_queue io)"
    have ne: "all_ks ?io \<noteq> []" using Suc.prems by simp
    obtain ok io1 where s: "rx_send_to_runtime ?io (next_rr io) (RX_NET_COMPLETE ?d) = Some (ok, io1)" and h: "handed ?io (RX_NET_COMPLETE ?d) ok io1"
      using runtime_send_spec [OF ne] by blast
    have k: "tx_kept io io1" by (rule tx_kept_trans [of _ ?io]) (use h in \<open>auto simp: tx_kept_def handed_def\<close>)
    show ?thesis
    proof (cases ok)
      case True
      let ?io1 = "io1\<lparr>overflow_queue := butlast (overflow_queue io1)\<rparr>"
      have k1: "tx_kept io ?io1" by (rule tx_kept_trans [OF k]) (simp add: tx_kept_def)
      have m: "mset (overflow_queue io) = mset (butlast (overflow_queue io)) + {#?d#}" using False by (metis append_butlast_last_id mset_append mset_single_iff_right)
      have w: "compl_way ?io1 = compl_way io" "rx_way ?io1 = rx_way io" using h True m by (simp_all add: handed_def compl_way_def rx_way_def)
      have "all_ks ?io1 \<noteq> []" using tx_kept_length [OF k1] Suc.prems by auto
      from Suc.IH [OF this] show ?thesis using False s True w tx_kept_trans [OF k1] by fastforce
    next
      case no: False
      then show ?thesis using False s h k by (simp add: handed_def compl_way_def rx_way_def)
    qed
  qed simp
qed simp

text \<open>Transmission. A packet is seen as its kthread, its completion data and its payload.\<close>

type_synonym pkt = "(nat \<times> nat) option \<times> u8 list"

definition desc :: "tx_mbuf \<Rightarrow> pkt" where
  "desc m = (tm_priv m, tm_payload m)"

definition packet :: "nat \<Rightarrow> tx_net_hdr \<Rightarrow> pkt" where
  "packet t h = (Some (t, th_completion_data h), th_payload h)"

definition from_k :: "nat \<Rightarrow> pkt \<Rightarrow> bool" where
  "from_k t v \<longleftrightarrow> (\<exists>d. fst v = Some (t, d))"

definition rx_kept :: "io_st \<Rightarrow> io_st \<Rightarrow> bool" where
  "rx_kept io io' \<longleftrightarrow> length (all_ks io') = length (all_ks io) \<and> compl_way io' = compl_way io \<and> rx_way io' = rx_way io \<and> p_exited io' = p_exited io \<and>
     max_overflows io' = max_overflows io \<and> pool_size io' = pool_size io \<and> overflow_queue io' = overflow_queue io"

lemma rx_kept_trans: "rx_kept a b \<Longrightarrow> rx_kept b c \<Longrightarrow> rx_kept a c"
  by (simp add: rx_kept_def)

lemma desc_prepare: "desc (tx_prepare_tx_mbuf env m h t) = packet t h"
  by (simp add: desc_def packet_def tx_prepare_tx_mbuf_def Let_def)

lemma tx_poll_spec:
  "tx_poll ts io hdrs = (full, io', hdrs') \<Longrightarrow> set ts \<subseteq> {..<length (all_ks io)} \<Longrightarrow> length hdrs \<le> IO_TX_BURST_SIZE \<Longrightarrow>
    rx_kept io io' \<and> pool_objs io' = pool_objs io \<and> tx_mbufs io' = tx_mbufs io \<and> tx_bufs io' = tx_bufs io \<and>
    (\<exists>new. hdrs' = hdrs @ map Some new \<and> length hdrs' \<le> IO_TX_BURST_SIZE \<and> (\<forall>(h, t) \<in> set new. t < length (all_ks io)) \<and>
       queued io' + length new = queued io \<and>
       (\<forall>t < length (all_ks io). map fst (filter (\<lambda>(h, u). u = t) new) @ k_txpktq (all_ks io' ! t) = k_txpktq (all_ks io ! t)))"
proof (induction ts io hdrs rule: tx_poll.induct)
  case (2 t ts io hdrs)
  show ?case
  proof (cases "length hdrs \<ge> IO_TX_BURST_SIZE")
    case True
    then show ?thesis using 2(2,4) by (auto simp: rx_kept_def intro!: exI [of _ "[]"])
  next
    case False
    let ?k = "all_ks io ! t" and ?n = "IO_TX_BURST_SIZE - length hdrs"
    let ?q = "k_txpktq ?k"
    let ?k' = "?k\<lparr>k_txpktq := drop ?n ?q\<rparr>"
    let ?io = "set_k io t ?k'" and ?hs = "map (\<lambda>h. Some (h, t)) (take ?n ?q)"
    have t: "t < length (all_ks io)" using 2(3) by simp
    have d: "tx_drain_queue io t ?n = (take ?n ?q, ?io)" by (simp add: tx_drain_queue_def Let_def)
    have r: "tx_poll ts ?io (hdrs @ ?hs) = (full, io', hdrs')" using 2(2) False d by simp
    have "set ts \<subseteq> {..<length (all_ks ?io)}" "length (hdrs @ ?hs) \<le> IO_TX_BURST_SIZE" using 2(3) False by (auto simp: set_k_def)
    from 2(1) [OF False d [symmetric] refl r this] obtain new where n: "rx_kept ?io io'" "pool_objs io' = pool_objs ?io" "tx_mbufs io' = tx_mbufs ?io" "tx_bufs io' = tx_bufs ?io"
      "hdrs' = (hdrs @ ?hs) @ map Some new" "length hdrs' \<le> IO_TX_BURST_SIZE" "\<forall>(h, u) \<in> set new. u < length (all_ks ?io)" "queued io' + length new = queued ?io"
      "\<forall>u < length (all_ks ?io). map fst (filter (\<lambda>(h, v). v = u) new) @ k_txpktq (all_ks io' ! u) = k_txpktq (all_ks ?io ! u)" by blast
    let ?new = "map (\<lambda>h. (h, t)) (take ?n ?q) @ new"
    have a: "all_of f ?io + mset (f ?k) = all_of f io + mset (f ?k')" for f :: "io_kthread \<Rightarrow> 'a list" by (rule all_of_set_k [OF t])
    have "all_of completes ?io = all_of completes io" "all_of recvs ?io = all_of recvs io" "all_of k_txcmdq ?io = all_of k_txcmdq io"
      using a [of completes] a [of recvs] a [of k_txcmdq] by (simp_all add: completes_def recvs_def)
    then have k: "rx_kept io ?io" by (simp add: rx_kept_def compl_way_def rx_way_def set_k_def)
    have "queued ?io + length ?q = queued io + length (drop ?n ?q)"
      using arg_cong [OF a [of k_txpktq], of size] by (simp add: queued_def all_of_def)
    then have q: "queued ?io + length (take ?n ?q) = queued io" by simp
    have f: "filter (\<lambda>(h, v). v = u) (map (\<lambda>h. (h, t)) xs) = (if u = t then map (\<lambda>h. (h, t)) xs else [])" for u and xs :: "tx_net_hdr list"
      by (induction xs) auto
    have "map fst (filter (\<lambda>(h, v). v = u) ?new) @ k_txpktq (all_ks io' ! u) = k_txpktq (all_ks io ! u)" if u: "u < length (all_ks io)" for u
    proof -
      have "map fst (filter (\<lambda>(h, v). v = u) new) @ k_txpktq (all_ks io' ! u) = k_txpktq (all_ks ?io ! u)" using n(9) u by (simp add: set_k_def)
      then show ?thesis using t u by (cases "u = t") (simp_all add: f set_k_def o_def)
    qed
    moreover have "rx_kept io io'" using k n(1) by (simp add: rx_kept_def)
    moreover have "hdrs' = hdrs @ map Some ?new" using n(5) by (simp add: o_def)
    moreover have "\<forall>(h, u) \<in> set ?new. u < length (all_ks io)" using n(7) t by (auto simp: set_k_def)
    moreover have "queued io' + length ?new = queued io" using n(8) q by simp
    ultimately show ?thesis using n(2,3,4,6) by (intro conjI exI [of _ ?new]) (simp_all add: set_k_def)
  qed
qed (auto simp: rx_kept_def)

lemma tx_poll_n_pkts: "tx_poll ts io hdrs = (full, io', hdrs') \<Longrightarrow> tx_n_pkts io' = tx_n_pkts io"
  by (induction ts io hdrs rule: tx_poll.induct) (auto simp: tx_drain_queue_def set_k_def Let_def split: if_splits)

lemma tx_fill_spec:
  "length bs = length new \<Longrightarrow> distinct bs \<Longrightarrow>
    \<exists>M. tx_fill env io bs (map Some new) = Some (io\<lparr>tx_mbufs := M\<rparr>) \<and> (\<forall>x. x \<notin> set bs \<longrightarrow> M x = tx_mbufs io x) \<and>
      map (\<lambda>x. desc (M x)) bs = map (\<lambda>(h, t). packet t h) new"
proof (induction bs new arbitrary: io rule: list_induct2)
  case (Cons b bs p new)
  obtain h t where p: "p = (h, t)" by fastforce
  let ?io = "io\<lparr>tx_mbufs := (tx_mbufs io)(b := tx_prepare_tx_mbuf env (tx_mbufs io b) h t)\<rparr>"
  obtain M where M: "tx_fill env ?io bs (map Some new) = Some (?io\<lparr>tx_mbufs := M\<rparr>)" "\<forall>x. x \<notin> set bs \<longrightarrow> M x = tx_mbufs ?io x"
      "map (\<lambda>x. desc (M x)) bs = map (\<lambda>(h, t). packet t h) new"
    using Cons.IH [of ?io] Cons.prems by auto
  then show ?case using Cons.prems p by (intro exI [of _ M]) (auto simp: desc_prepare)
next
  case Nil
  show ?case by (intro exI [of _ "tx_mbufs io"]) simp
qed

lemma tx_flush_spec:
  assumes "hdrs = replicate (length (tx_bufs io)) None @ map Some new" "length new \<le> length (pool_objs io)" "distinct (pool_objs io)"
  shows "\<exists>sent io' objs. tx_flush env io hdrs acc = Some (True, sent, io') \<and> tx_n_pkts io' = length (tx_bufs io') \<and> length (tx_bufs io') \<le> length hdrs \<and>
    pool_objs io = pool_objs io' @ objs \<and> sent @ tx_bufs io' = tx_bufs io @ objs \<and> (\<forall>x. x \<notin> set objs \<longrightarrow> tx_mbufs io' x = tx_mbufs io x) \<and>
    map (\<lambda>x. desc (tx_mbufs io' x)) objs = map (\<lambda>(h, t). packet t h) new \<and> all_ks io' = all_ks io \<and> rx_kept io io'"
proof -
  let ?len = "length (pool_objs io)"
  let ?objs = "drop (?len - length new) (pool_objs io)"
  let ?io = "io\<lparr>pool_objs := take (?len - length new) (pool_objs io)\<rparr>"
  have d: "(if length hdrs - length (tx_bufs io) > 0 then completion_dequeue io (length hdrs - length (tx_bufs io)) else Some ([], io)) = Some (?objs, ?io)"
    using assms(1,2) by (simp add: completion_dequeue_def Let_def)
  obtain M where M: "tx_fill env ?io ?objs (map Some new) = Some (?io\<lparr>tx_mbufs := M\<rparr>)" "\<forall>x. x \<notin> set ?objs \<longrightarrow> M x = tx_mbufs ?io x"
      "map (\<lambda>x. desc (M x)) ?objs = map (\<lambda>(h, t). packet t h) new"
    using tx_fill_spec [of ?objs new env ?io] assms(2,3) by auto
  define got ret where "got = tx_bufs io @ ?objs" and "ret = min acc (length hdrs)"
  let ?io' = "?io\<lparr>tx_mbufs := M, tx_bufs := drop ret got, tx_n_pkts := length hdrs - ret\<rparr>"
  have "drop (length (tx_bufs io)) hdrs = map Some new" using assms(1) by simp
  then have e: "tx_flush env io hdrs acc = Some (True, take ret got, ?io')"
    unfolding tx_flush_def Let_def d using M(1) by (simp add: got_def ret_def)
  have l: "length got = length hdrs" using assms(1,2) by (simp add: got_def)
  have k: "rx_kept io ?io'" by (simp add: rx_kept_def compl_way_def rx_way_def all_of_def)
  show ?thesis
    by (intro exI [of _ "take ret got"] exI [of _ ?io'] exI [of _ ?objs] conjI) (simp_all add: e l k M(2,3) got_def [symmetric] del: drop_append take_append)
qed

lemma tx_burst_spec:
  assumes "tx_n_pkts io = length (tx_bufs io)" "length (tx_bufs io) \<le> IO_TX_BURST_SIZE" "IO_TX_BURST_SIZE \<le> length (pool_objs io) + length (tx_bufs io)" "distinct (pool_objs io)"
  shows "\<exists>r sent io' objs new. tx_burst env io acc = Some (r, sent, io') \<and> rx_kept io io' \<and> tx_n_pkts io' = length (tx_bufs io') \<and>
    length (tx_bufs io') \<le> IO_TX_BURST_SIZE \<and> pool_objs io = pool_objs io' @ objs \<and> sent @ tx_bufs io' = tx_bufs io @ objs \<and>
    (\<forall>x. x \<notin> set objs \<longrightarrow> tx_mbufs io' x = tx_mbufs io x) \<and> map (\<lambda>x. desc (tx_mbufs io' x)) objs = map (\<lambda>(h, t). packet t h) new \<and>
    (\<forall>(h, t) \<in> set new. t < length (all_ks io)) \<and> queued io' + length new = queued io \<and>
    (\<forall>t < length (all_ks io). map fst (filter (\<lambda>(h, u). u = t) new) @ k_txpktq (all_ks io' ! t) = k_txpktq (all_ks io ! t))"
proof -
  obtain full io1 hdrs where p: "tx_poll (poll_order (tx_pos io) (length (all_ks io))) io (replicate (tx_n_pkts io) None) = (full, io1, hdrs)"
    by (metis prod.exhaust)
  from tx_poll_spec [OF p poll_order_range] assms(1,2) obtain new where k: "rx_kept io io1" "pool_objs io1 = pool_objs io" "tx_mbufs io1 = tx_mbufs io" "tx_bufs io1 = tx_bufs io"
    and n: "hdrs = replicate (tx_n_pkts io) None @ map Some new" "length hdrs \<le> IO_TX_BURST_SIZE" "\<forall>(h, t) \<in> set new. t < length (all_ks io)" "queued io1 + length new = queued io"
      "\<forall>t < length (all_ks io). map fst (filter (\<lambda>(h, u). u = t) new) @ k_txpktq (all_ks io1 ! t) = k_txpktq (all_ks io ! t)"
    by auto
  let ?nb = "length (tx_bufs io)" and ?len = "length (pool_objs io)"
  have h: "length hdrs = ?nb + length new" "drop ?nb hdrs = map Some new" using n(1) assms(1) by simp_all
  show ?thesis
  proof (cases "\<not> full \<and> hdrs = []")
    case True
    then have e: "new = []" "tx_bufs io = []" using h by auto
    have "tx_burst env io acc = Some (False, [], io1)" using True p by (simp add: tx_burst_def)
    moreover have "tx_n_pkts io1 = tx_n_pkts io" using tx_poll_n_pkts [OF p] .
    ultimately show ?thesis using k n e assms(1) by (intro exI [of _ False] exI [of _ "[]"] exI [of _ io1]) auto
  next
    case False
    let ?io2 = "io1\<lparr>tx_pos := (if full then tx_pos io1 else tx_pos io1 + 1), tx_n_pkts := length hdrs\<rparr>"
    have f: "hdrs = replicate (length (tx_bufs ?io2)) None @ map Some new" "length new \<le> length (pool_objs ?io2)" "distinct (pool_objs ?io2)"
      using n(1,2) k(2,4) assms h(1) by auto
    have e: "tx_burst env io acc = tx_flush env ?io2 hdrs acc" unfolding tx_burst_def p by (simp only: Let_def prod.case False if_False)
    obtain sent io' objs where t: "tx_flush env ?io2 hdrs acc = Some (True, sent, io')" "tx_n_pkts io' = length (tx_bufs io')" "length (tx_bufs io') \<le> length hdrs"
      "pool_objs ?io2 = pool_objs io' @ objs" "sent @ tx_bufs io' = tx_bufs ?io2 @ objs" "\<forall>x. x \<notin> set objs \<longrightarrow> tx_mbufs io' x = tx_mbufs ?io2 x"
      "map (\<lambda>x. desc (tx_mbufs io' x)) objs = map (\<lambda>(h, t). packet t h) new" "all_ks io' = all_ks ?io2" "rx_kept ?io2 io'"
      using tx_flush_spec [OF f, of env acc] by blast
    have "rx_kept io1 ?io2" by (simp add: rx_kept_def compl_way_def rx_way_def all_of_def)
    then have "rx_kept io io'" using k(1) t(9) rx_kept_trans by blast
    moreover have "queued io' = queued io1" using t(8) by (simp add: queued_def)
    ultimately show ?thesis using e t(1-8) k n by (intro exI [of _ True] exI [of _ sent] exI [of _ io'] exI [of _ objs] exI [of _ new]) auto
  qed
qed

section \<open>The invariant\<close>

definition compl_of :: "tx_mbuf \<Rightarrow> nat" where
  "compl_of m = (case tm_priv m of None \<Rightarrow> 0 | Some (t, d) \<Rightarrow> d)"

text \<open>What the card has, what waits for it, and what waits in the queue of a kthread, in this order, is what the kthread has handed over.\<close>

definition tx_order :: "io_st \<Rightarrow> io_trace \<Rightarrow> bool" where
  "tx_order io tr \<longleftrightarrow> (\<forall>t < length (all_ks io).
     filter (from_k t) (map desc (wire tr @ map (tx_mbufs io) (tx_bufs io))) @ map (packet t) (k_txpktq (all_ks io ! t)) = map (packet t) (pushed tr t))"

definition io_inv :: "nat \<Rightarrow> io_st \<Rightarrow> io_trace \<Rightarrow> bool" where
  "io_inv ring io tr \<longleftrightarrow> all_ks io \<noteq> [] \<and> \<not> p_exited io \<and> tx_n_pkts io = length (tx_bufs io) \<and> length (tx_bufs io) \<le> IO_TX_BURST_SIZE \<and>
     length (flying tr) \<le> ring \<and> ring + IO_TX_BURST_SIZE \<le> pool_size io \<and> distinct (pool_objs io @ tx_bufs io @ flying tr) \<and>
     length (pool_objs io) + length (tx_bufs io) + length (flying tr) = pool_size io \<and>
     (\<forall>x \<in> set (tx_bufs io @ flying tr). \<exists>t d. tm_priv (tx_mbufs io x) = Some (t, d) \<and> t < length (all_ks io)) \<and>
     tx_order io tr \<and>
     mset (map compl_of (wire tr)) = mset (map (\<lambda>x. compl_of (tx_mbufs io x)) (flying tr)) + compl_way io + mset (reported tr) \<and>
     length (wire tr) + length (tx_bufs io) + queued io \<le> max_overflows io + length (reported tr) \<and>
     mset (received tr) = rx_way io + mset (held tr)"

lemma io_inv_start:
  assumes "io_start ring io"
  shows "io_inv ring io no_trace"
proof -
  have "concat (map k_txpktq (all_ks io)) = []" using assms by (simp add: io_start_def)
  then have "queued io = 0" unfolding queued_def by simp
  then show ?thesis using assms
    by (auto simp: io_start_def io_inv_def no_trace_def tx_order_def compl_way_def rx_way_def all_of_def completes_def recvs_def map_filter_def)
qed

text \<open>Steps that leave the sending side alone.\<close>

lemma io_inv_kept:
  assumes "io_inv ring io tr" "tx_kept io io'" "compl_way io' + mset (reported tr') = compl_way io + mset (reported tr)"
    "mset (received tr') + rx_way io + mset (held tr) = mset (received tr) + rx_way io' + mset (held tr')"
    "length (reported tr) \<le> length (reported tr')" "pushed tr' = pushed tr" "wire tr' = wire tr" "flying tr' = flying tr"
  shows "io_inv ring io' tr'"
proof -
  have k: "map k_txpktq (all_ks io') = map k_txpktq (all_ks io)" "length (all_ks io') = length (all_ks io)" using assms(2) tx_kept_length [OF assms(2)] by (simp_all add: tx_kept_def)
  have q: "queued io' = queued io" unfolding queued_def k(1) by (rule refl)
  have n: "k_txpktq (all_ks io' ! t) = k_txpktq (all_ks io ! t)" if "t < length (all_ks io)" for t
    using arg_cong [OF k(1), of "\<lambda>xs. xs ! t"] that k(2) by simp
  have "mset (received tr') = rx_way io' + mset (held tr')"
    using assms(1,4) by (auto simp: io_inv_def)
  moreover have "mset (map compl_of (wire tr')) = mset (map (\<lambda>x. compl_of (tx_mbufs io' x)) (flying tr')) + compl_way io' + mset (reported tr')"
    using assms by (simp add: io_inv_def tx_kept_def add.assoc)
  moreover have "tx_order io' tr'" using assms k(2) n by (auto simp: io_inv_def tx_order_def tx_kept_def)
  moreover have "all_ks io' \<noteq> []" using assms(1) k(2) by (auto simp: io_inv_def)
  ultimately show ?thesis using assms k(2) q unfolding io_inv_def tx_kept_def by simp
qed

lemma io_inv_push:
  assumes "io_inv ring io tr" "t < length (all_ks io)" "length (wire tr) + length (tx_bufs io) + queued io < max_overflows io + length (reported tr)"
  shows "io_inv ring (set_k io t ((all_ks io ! t)\<lparr>k_txpktq := k_txpktq (all_ks io ! t) @ [h]\<rparr>)) (tr\<lparr>pushed := (pushed tr)(t := pushed tr t @ [h])\<rparr>)"
proof -
  let ?k = "(all_ks io ! t)\<lparr>k_txpktq := k_txpktq (all_ks io ! t) @ [h]\<rparr>"
  let ?io = "set_k io t ?k"
  have a: "all_of f ?io + mset (f (all_ks io ! t)) = all_of f io + mset (f ?k)" for f :: "io_kthread \<Rightarrow> 'a list" by (rule all_of_set_k [OF assms(2)])
  have "all_of completes ?io = all_of completes io" "all_of recvs ?io = all_of recvs io" "all_of k_txcmdq ?io = all_of k_txcmdq io"
    using a [of completes] a [of recvs] a [of k_txcmdq] by (simp_all add: completes_def recvs_def)
  then have w: "compl_way ?io = compl_way io" "rx_way ?io = rx_way io" by (simp_all add: compl_way_def rx_way_def set_k_def)
  have "queued ?io = queued io + 1" using arg_cong [OF a [of k_txpktq], of size] by (simp add: queued_def all_of_def)
  moreover have "tx_order ?io (tr\<lparr>pushed := (pushed tr)(t := pushed tr t @ [h])\<rparr>)"
    using assms(1,2) by (auto simp: io_inv_def tx_order_def set_k_def nth_list_update)
  ultimately show ?thesis using assms w by (auto simp: io_inv_def set_k_def)
qed

text \<open>The steps of the kthreads on their side of the receive queues.\<close>

lemma rxq_pop:
  assumes "t < length (all_ks io)" "k_rxq (all_ks io ! t) = x # q"
  shows "tx_kept io (set_k io t ((all_ks io ! t)\<lparr>k_rxq := q\<rparr>))"
    "x = RX_NET_COMPLETE d \<Longrightarrow> compl_way io = compl_way (set_k io t ((all_ks io ! t)\<lparr>k_rxq := q\<rparr>)) + {#d#} \<and>
       rx_way (set_k io t ((all_ks io ! t)\<lparr>k_rxq := q\<rparr>)) = rx_way io"
    "x = RX_NET_RECV h \<Longrightarrow> compl_way (set_k io t ((all_ks io ! t)\<lparr>k_rxq := q\<rparr>)) = compl_way io \<and>
       rx_way io = rx_way (set_k io t ((all_ks io ! t)\<lparr>k_rxq := q\<rparr>)) + {#rh_completion_data h#}"
proof -
  let ?k = "(all_ks io ! t)\<lparr>k_rxq := q\<rparr>"
  let ?io = "set_k io t ?k"
  have a: "all_of f ?io + mset (f (all_ks io ! t)) = all_of f io + mset (f ?k)" for f :: "io_kthread \<Rightarrow> 'a list" by (rule all_of_set_k [OF assms(1)])
  show "tx_kept io ?io" by (rule tx_kept_set_k [OF assms(1)]) simp
  have c: "all_of k_txcmdq ?io = all_of k_txcmdq io" using a [of k_txcmdq] by simp
  have e: "overflow_queue ?io = overflow_queue io" "rx_freed ?io = rx_freed io" by (simp_all add: set_k_def)
  show "x = RX_NET_COMPLETE d \<Longrightarrow> compl_way io = compl_way ?io + {#d#} \<and> rx_way ?io = rx_way io"
    using a [of completes] a [of recvs] c e assms(2) by (simp add: compl_way_def rx_way_def completes_def recvs_def map_filter_def)
  show "x = RX_NET_RECV h \<Longrightarrow> compl_way ?io = compl_way io \<and> rx_way io = rx_way ?io + {#rh_completion_data h#}"
    using a [of completes] a [of recvs] c e assms(2) by (simp add: compl_way_def rx_way_def completes_def recvs_def map_filter_def)
qed

lemma cmd_put:
  assumes "t < length (all_ks io)"
  shows "tx_kept io (set_k io t ((all_ks io ! t)\<lparr>k_txcmdq := k_txcmdq (all_ks io ! t) @ [d]\<rparr>)) \<and>
    compl_way (set_k io t ((all_ks io ! t)\<lparr>k_txcmdq := k_txcmdq (all_ks io ! t) @ [d]\<rparr>)) = compl_way io \<and>
    rx_way (set_k io t ((all_ks io ! t)\<lparr>k_txcmdq := k_txcmdq (all_ks io ! t) @ [d]\<rparr>)) = rx_way io + {#d#}"
proof -
  let ?k = "(all_ks io ! t)\<lparr>k_txcmdq := k_txcmdq (all_ks io ! t) @ [d]\<rparr>"
  let ?io = "set_k io t ?k"
  have a: "all_of f ?io + mset (f (all_ks io ! t)) = all_of f io + mset (f ?k)" for f :: "io_kthread \<Rightarrow> 'a list" by (rule all_of_set_k [OF assms])
  have "tx_kept io ?io" by (rule tx_kept_set_k [OF assms]) simp
  moreover have "overflow_queue ?io = overflow_queue io" "rx_freed ?io = rx_freed io" by (simp_all add: set_k_def)
  ultimately show ?thesis using a [of completes] a [of recvs] a [of k_txcmdq] by (simp add: compl_way_def rx_way_def completes_def recvs_def)
qed

lemma park_kept:
  assumes "t < length (all_ks io)"
  shows "tx_kept io (set_k io t ((all_ks io ! t)\<lparr>k_parked := b\<rparr>)) \<and> compl_way (set_k io t ((all_ks io ! t)\<lparr>k_parked := b\<rparr>)) = compl_way io \<and>
    rx_way (set_k io t ((all_ks io ! t)\<lparr>k_parked := b\<rparr>)) = rx_way io"
proof -
  let ?k = "(all_ks io ! t)\<lparr>k_parked := b\<rparr>"
  let ?io = "set_k io t ?k"
  have a: "all_of f ?io + mset (f (all_ks io ! t)) = all_of f io + mset (f ?k)" for f :: "io_kthread \<Rightarrow> 'a list" by (rule all_of_set_k [OF assms])
  have "tx_kept io ?io" by (rule tx_kept_set_k [OF assms]) simp
  moreover have "overflow_queue ?io = overflow_queue io" "rx_freed ?io = rx_freed io" by (simp_all add: set_k_def)
  ultimately show ?thesis using a [of completes] a [of recvs] a [of k_txcmdq] by (simp add: compl_way_def rx_way_def completes_def recvs_def)
qed

lemma io_inv_burst:
  assumes "io_inv ring io tr" "tx_burst env io acc = Some (r, sent, io')" "length (flying tr) + length sent \<le> ring"
  shows "io_inv ring io' (tr\<lparr>wire := wire tr @ map (tx_mbufs io') sent, flying := flying tr @ sent\<rparr>)"
proof -
  have i: "all_ks io \<noteq> []" "\<not> p_exited io" "tx_n_pkts io = length (tx_bufs io)" "length (tx_bufs io) \<le> IO_TX_BURST_SIZE" "ring + IO_TX_BURST_SIZE \<le> pool_size io"
      "distinct (pool_objs io @ tx_bufs io @ flying tr)" "length (pool_objs io) + length (tx_bufs io) + length (flying tr) = pool_size io" "tx_order io tr"
      "mset (map compl_of (wire tr)) = mset (map (\<lambda>x. compl_of (tx_mbufs io x)) (flying tr)) + compl_way io + mset (reported tr)"
      "length (wire tr) + length (tx_bufs io) + queued io \<le> max_overflows io + length (reported tr)" "mset (received tr) = rx_way io + mset (held tr)"
    and p: "\<forall>x \<in> set (tx_bufs io @ flying tr). \<exists>t d. tm_priv (tx_mbufs io x) = Some (t, d) \<and> t < length (all_ks io)"
    using assms(1) by (simp_all add: io_inv_def)
  have l: "IO_TX_BURST_SIZE \<le> length (pool_objs io) + length (tx_bufs io)" using i(5,7) assms(3) by simp
  have "distinct (pool_objs io)" using i(6) by simp
  from tx_burst_spec [OF i(3,4) l this, of env acc] assms(2) obtain objs new where t: "rx_kept io io'" "tx_n_pkts io' = length (tx_bufs io')"
      "length (tx_bufs io') \<le> IO_TX_BURST_SIZE" "pool_objs io = pool_objs io' @ objs" "sent @ tx_bufs io' = tx_bufs io @ objs"
      "\<forall>x. x \<notin> set objs \<longrightarrow> tx_mbufs io' x = tx_mbufs io x" "map (\<lambda>x. desc (tx_mbufs io' x)) objs = map (\<lambda>(h, t). packet t h) new"
      "\<forall>(h, t) \<in> set new. t < length (all_ks io)" "queued io' + length new = queued io"
      "\<forall>t < length (all_ks io). map fst (filter (\<lambda>(h, u). u = t) new) @ k_txpktq (all_ks io' ! t) = k_txpktq (all_ks io ! t)"
    by auto
  let ?tr = "tr\<lparr>wire := wire tr @ map (tx_mbufs io') sent, flying := flying tr @ sent\<rparr>"
  have n: "length (all_ks io') = length (all_ks io)" using t(1) by (simp add: rx_kept_def)
  have ln: "length objs = length new" using arg_cong [OF t(7), of length] by simp
  have d: "set objs \<inter> set (tx_bufs io @ flying tr) = {}" using i(6) t(4) by auto
  have old: "map (tx_mbufs io') (tx_bufs io) = map (tx_mbufs io) (tx_bufs io)" "map (tx_mbufs io') (flying tr) = map (tx_mbufs io) (flying tr)"
    using t(6) d by auto
  have objs: "\<exists>t d. tm_priv (tx_mbufs io' x) = Some (t, d) \<and> t < length (all_ks io)" if "x \<in> set objs" for x
  proof -
    have "desc (tx_mbufs io' x) \<in> set (map (\<lambda>(h, t). packet t h) new)" using that t(7) by (metis (no_types, lifting) image_eqI list.set_map)
    then show ?thesis using t(8) by (auto simp: desc_def packet_def)
  qed
  have w: "map (tx_mbufs io') sent @ map (tx_mbufs io') (tx_bufs io') = map (tx_mbufs io) (tx_bufs io) @ map (tx_mbufs io') objs"
    using arg_cong [OF t(5), of "map (tx_mbufs io')"] old(1) by simp
  have mem: "set sent \<union> set (tx_bufs io') = set (tx_bufs io) \<union> set objs" using arg_cong [OF t(5), of set] by simp
  have "tx_order io' ?tr"
    unfolding tx_order_def
  proof (intro allI impI)
    fix u assume "u < length (all_ks io')"
    then have u: "u < length (all_ks io)" using n by simp
    have f: "filter (from_k u) (map (\<lambda>(h, t). packet t h) new) = map (packet u) (map fst (filter (\<lambda>(h, v). v = u) new))"
      by (induction new) (auto simp: from_k_def packet_def)
    have "map desc (map (tx_mbufs io') objs) = map (\<lambda>(h, t). packet t h) new" using t(7) by (simp add: o_def)
    then have "map desc (wire ?tr @ map (tx_mbufs io') (tx_bufs io')) = map desc (wire tr @ map (tx_mbufs io) (tx_bufs io)) @ map (\<lambda>(h, t). packet t h) new"
      using arg_cong [OF w, of "map desc"] by simp
    then have "filter (from_k u) (map desc (wire ?tr @ map (tx_mbufs io') (tx_bufs io'))) =
        filter (from_k u) (map desc (wire tr @ map (tx_mbufs io) (tx_bufs io))) @ map (packet u) (map fst (filter (\<lambda>(h, v). v = u) new))"
      unfolding f [symmetric] by (simp only: filter_append)
    moreover have "map (packet u) (map fst (filter (\<lambda>(h, v). v = u) new)) @ map (packet u) (k_txpktq (all_ks io' ! u)) = map (packet u) (k_txpktq (all_ks io ! u))"
      using t(10) u by (metis map_append)
    moreover have "filter (from_k u) (map desc (wire tr @ map (tx_mbufs io) (tx_bufs io))) @ map (packet u) (k_txpktq (all_ks io ! u)) = map (packet u) (pushed tr u)"
      using i(8) u unfolding tx_order_def by blast
    moreover have "pushed ?tr u = pushed tr u" by simp
    ultimately show "filter (from_k u) (map desc (wire ?tr @ map (tx_mbufs io') (tx_bufs io'))) @ map (packet u) (k_txpktq (all_ks io' ! u)) = map (packet u) (pushed ?tr u)"
      by (simp only: append_assoc)
  qed
  moreover have "distinct (pool_objs io' @ tx_bufs io' @ flying ?tr)"
  proof -
    have "mset (pool_objs io' @ tx_bufs io' @ flying ?tr) = mset (pool_objs io @ tx_bufs io @ flying tr)"
      using arg_cong [OF t(5), of mset] t(4) by (simp add: ac_simps)
    then show ?thesis using i(6) by (metis mset_eq_imp_distinct_iff)
  qed
  moreover have "\<forall>x \<in> set (tx_bufs io' @ flying ?tr). \<exists>t d. tm_priv (tx_mbufs io' x) = Some (t, d) \<and> t < length (all_ks io')"
  proof
    fix x assume "x \<in> set (tx_bufs io' @ flying ?tr)"
    then have "x \<in> set objs \<or> x \<in> set (tx_bufs io @ flying tr)" using mem by auto
    then show "\<exists>t d. tm_priv (tx_mbufs io' x) = Some (t, d) \<and> t < length (all_ks io')" using objs p t(6) d n by fastforce
  qed
  moreover have "mset (map compl_of (wire ?tr)) = mset (map (\<lambda>x. compl_of (tx_mbufs io' x)) (flying ?tr)) + compl_way io' + mset (reported ?tr)"
  proof -
    have "image_mset (\<lambda>x. compl_of (tx_mbufs io' x)) (mset (flying tr)) = image_mset (\<lambda>x. compl_of (tx_mbufs io x)) (mset (flying tr))"
      by (rule image_mset_cong) (use t(6) d in auto)
    then show ?thesis using i(9) t(1) by (simp add: rx_kept_def o_def)
  qed
  moreover have "length (wire ?tr) + length (tx_bufs io') + queued io' \<le> max_overflows io' + length (reported ?tr)"
    using arg_cong [OF t(5), of length] i(10) t(1,9) ln by (simp add: rx_kept_def)
  moreover have "length (pool_objs io') + length (tx_bufs io') + length (flying ?tr) = pool_size io'"
    using arg_cong [OF t(5), of length] t(1,4) i(7) by (simp add: rx_kept_def)
  ultimately show ?thesis using i t(1,2,3) n assms(3) unfolding io_inv_def rx_kept_def by auto
qed

lemma io_inv_completion:
  assumes "io_inv ring io tr" "x \<in> set (flying tr)"
  shows "\<exists>io'. completion_enqueue io [x] = Some (0, io') \<and> io_inv ring io' (tr\<lparr>flying := remove1 x (flying tr)\<rparr>)"
proof -
  have i: "\<not> p_exited io" "distinct (pool_objs io @ tx_bufs io @ flying tr)" "length (pool_objs io) + length (tx_bufs io) + length (flying tr) = pool_size io"
      "mset (map compl_of (wire tr)) = mset (map (\<lambda>x. compl_of (tx_mbufs io x)) (flying tr)) + compl_way io + mset (reported tr)"
      "length (wire tr) + length (tx_bufs io) + queued io \<le> max_overflows io + length (reported tr)"
    using assms(1) by (simp_all add: io_inv_def)
  have "\<forall>x \<in> set (tx_bufs io @ flying tr). \<exists>t d. tm_priv (tx_mbufs io x) = Some (t, d) \<and> t < length (all_ks io)"
    using assms(1) unfolding io_inv_def by blast
  moreover have "x \<in> set (tx_bufs io @ flying tr)" using assms(2) by simp
  ultimately obtain t d where p: "tm_priv (tx_mbufs io x) = Some (t, d)" "t < length (all_ks io)" by blast
  have f: "mset (flying tr) = add_mset x (mset (remove1 x (flying tr)))" using assms(2) by simp
  have "length (flying tr) > 0" using assms(2) by auto
  then have "length (overflow_queue io) < max_overflows io"
    using arg_cong [OF i(4), of size] i(5) by (cases "flying tr") (simp_all add: compl_way_def)
  from completion_spec [OF p i(1) this] obtain io1 where c: "tx_send_completion io x = Some (True, io1)" "tx_kept io io1" "compl_way io1 = compl_way io + {#d#}" "rx_way io1 = rx_way io"
    by blast
  let ?io = "io1\<lparr>pool_objs := pool_objs io1 @ [x]\<rparr>" and ?tr = "tr\<lparr>flying := remove1 x (flying tr)\<rparr>"
  have "completion_enqueue io [x] = Some (0, ?io)"
    using c(1) i(3) \<open>length (flying tr) > 0\<close> by (cases "flying tr") (simp_all add: completion_enqueue_def)
  moreover have "io_inv ring ?io ?tr"
  proof -
    have k: "map k_txpktq (all_ks ?io) = map k_txpktq (all_ks io)" "length (all_ks ?io) = length (all_ks io)" using c(2) tx_kept_length [OF c(2)] by (simp_all add: tx_kept_def)
    have n: "k_txpktq (all_ks ?io ! u) = k_txpktq (all_ks io ! u)" if "u < length (all_ks io)" for u
      using arg_cong [OF k(1), of "\<lambda>xs. xs ! u"] that k(2) by simp
    have "queued ?io = queued io" unfolding queued_def k(1) by (rule refl)
    moreover have "tx_order ?io ?tr" using assms(1) c(2) k(2) n by (auto simp: io_inv_def tx_order_def tx_kept_def)
    moreover have "distinct (pool_objs ?io @ tx_bufs ?io @ flying ?tr)" using i(2) c(2) assms(2) by (auto simp: tx_kept_def)
    moreover have rl: "Suc (length (remove1 x (flying tr))) = length (flying tr)" using arg_cong [OF f, of size] by (simp del: mset_remove1)
    moreover have "length (pool_objs ?io) + length (tx_bufs ?io) + length (flying ?tr) = pool_size ?io" using rl i(3) c(2) by (simp add: tx_kept_def)
    moreover have "mset (map compl_of (wire ?tr)) = mset (map (\<lambda>x. compl_of (tx_mbufs ?io x)) (flying ?tr)) + compl_way ?io + mset (reported ?tr)"
    proof -
      have "compl_of (tx_mbufs io x) = d" using p(1) by (simp add: compl_of_def)
      then have "mset (map (\<lambda>x. compl_of (tx_mbufs io x)) (flying tr)) = add_mset d (mset (map (\<lambda>x. compl_of (tx_mbufs io x)) (remove1 x (flying tr))))"
        using f by (simp del: mset_remove1)
      moreover have "compl_way ?io = compl_way io1" by (simp add: compl_way_def all_of_def)
      ultimately show ?thesis using i(4) c(2,3) by (simp add: tx_kept_def del: mset_remove1)
    qed
    moreover have "rx_way ?io = rx_way io" using c(4) by (simp add: rx_way_def all_of_def)
    moreover have "length (remove1 x (flying tr)) \<le> length (flying tr)" by (simp add: length_remove1)
    ultimately show ?thesis using assms(1) c(2) k(2) i(5) unfolding io_inv_def tx_kept_def by (auto dest: notin_set_remove1)
  qed
  ultimately show ?thesis by blast
qed

lemma io_inv_burst_some:
  assumes "io_inv ring io tr"
  shows "\<exists>r sent io'. tx_burst env io acc = Some (r, sent, io') \<and> length sent + length (tx_bufs io') + queued io' = length (tx_bufs io) + queued io"
proof -
  have i: "tx_n_pkts io = length (tx_bufs io)" "length (tx_bufs io) \<le> IO_TX_BURST_SIZE" "IO_TX_BURST_SIZE \<le> length (pool_objs io) + length (tx_bufs io)" "distinct (pool_objs io)"
    using assms by (auto simp: io_inv_def)
  obtain r sent io' objs and new :: "(tx_net_hdr \<times> nat) list" where t: "tx_burst env io acc = Some (r, sent, io')" "sent @ tx_bufs io' = tx_bufs io @ objs"
      "map (\<lambda>x. desc (tx_mbufs io' x)) objs = map (\<lambda>(h, t). packet t h) new" "queued io' + length new = queued io"
    using tx_burst_spec [OF i, of env acc] by blast
  have "length objs = length new" using arg_cong [OF t(3), of length] by simp
  then show ?thesis using arg_cong [OF t(2), of length] t(1,4) by simp
qed

section \<open>Every run\<close>

lemma rx_burst_spec:
  assumes "all_ks io \<noteq> []"
  shows "\<exists>io'. rx_burst env io bs = Some (bs \<noteq> [], io') \<and> tx_kept io io' \<and> compl_way io' = compl_way io \<and> rx_way io' = rx_way io + mset (map rb_addr bs)"
  using rx_pkts_spec [OF assms, of env bs] by (auto simp: rx_burst_def)

lemma io_run_inv: "io_run env ring io tr \<Longrightarrow> io_inv ring io tr"
proof (induction rule: io_run.induct)
  case (start io)
  then show ?case by (rule io_inv_start)
next
  case (push io tr t h)
  then show ?case by (intro io_inv_push)
next
  case (take_completion io tr t d q)
  note r = rxq_pop(1) [OF take_completion(2,3)] rxq_pop(2) [OF take_completion(2,3) refl]
  show ?case by (rule io_inv_kept [OF take_completion.IH r(1)]) (use r(2) in simp_all)
next
  case (take_packet io tr t h q)
  note r = rxq_pop(1) [OF take_packet(2,3)] rxq_pop(3) [OF take_packet(2,3) refl]
  show ?case by (rule io_inv_kept [OF take_packet.IH r(1)]) (use r(2) in simp_all)
next
  case (give_back io tr t d)
  note r = cmd_put [OF give_back(2), of d]
  have "mset (held tr) = add_mset d (mset (remove1 d (held tr)))" using give_back(3) by simp
  then show ?case by (intro io_inv_kept [OF give_back.IH conjunct1 [OF r]]) (use r in \<open>simp_all del: mset_remove1\<close>)
next
  case (park io tr t b)
  note r = park_kept [OF park(2), of b]
  show ?case by (rule io_inv_kept [OF park.IH conjunct1 [OF r]]) (use r in simp_all)
next
  case (rx io tr bs r io')
  have "all_ks io \<noteq> []" using rx.IH by (simp add: io_inv_def)
  from rx_burst_spec [OF this, of env bs] rx(2)
  have r: "tx_kept io io'" "compl_way io' = compl_way io" "rx_way io' = rx_way io + mset (map rb_addr bs)" by auto
  show ?case by (rule io_inv_kept [OF rx.IH r(1)]) (use r in simp_all)
next
  case (cmd io tr r io')
  note r = cmd_rx_burst_spec [OF cmd(2)]
  show ?case by (rule io_inv_kept [OF cmd.IH conjunct1 [OF r]]) (use r in simp_all)
next
  case (drain io tr n i io')
  have "all_ks io \<noteq> []" using drain.IH by (simp add: io_inv_def)
  from drain_completions_spec [OF this, of n] drain(2)
  have r: "tx_kept io io'" "compl_way io' = compl_way io" "rx_way io' = rx_way io" by auto
  show ?case by (rule io_inv_kept [OF drain.IH r(1)]) (use r in simp_all)
next
  case (burst io tr acc r sent io')
  then show ?case by (intro io_inv_burst)
next
  case (sent io tr x ret io')
  then show ?case using io_inv_completion [OF sent.IH sent(2)] by auto
qed

lemma io_round_some:
  assumes "io_run env ring io tr"
  shows "\<exists>sent io'. iothread_round env io bs acc = Some (sent, io')"
proof -
  have "all_ks io \<noteq> []" using io_run_inv [OF assms] by (simp add: io_inv_def)
  from rx_burst_spec [OF this, of env bs] obtain io1 where a: "rx_burst env io bs = Some (bs \<noteq> [], io1)" by blast
  obtain r io2 where b: "cmd_rx_burst io1 = (r, io2)" by fastforce
  note run = io_run.cmd [OF io_run.rx [OF assms a] b]
  have "all_ks io2 \<noteq> []" using io_run_inv [OF run] by (simp add: io_inv_def)
  from drain_completions_spec [OF this, of IO_OVERFLOW_BATCH_DRAIN] obtain i io3 where c: "tx_drain_completions io2 IO_OVERFLOW_BATCH_DRAIN = Some (i, io3)" by blast
  from io_inv_burst_some [OF io_run_inv [OF io_run.drain [OF run c]], of env acc] show ?thesis using a b c by (auto simp: iothread_round_def)
qed

text \<open>C4: 
  In every run of the I/O thread with the kthreads and the card, the packets that the card has been given, that wait for it and that are still queued are, for each kthread and in this
  order, those that the kthread has handed over. The completions of the packets given to the card are those still held by the card, on their way, or reported, each once. The receive
  buffers are on their way or held by a kthread, each once, and the descriptors are in the pool, waiting or with the card, none of them twice. A further round of the thread does not
  fault, and the end of every packet that the card holds is accepted with result 0.
\<close>

theorem io_thread_correct:
  assumes "io_run env ring io tr"
  shows "tx_order io tr \<and>
    mset (map compl_of (wire tr)) = mset (map (\<lambda>x. compl_of (tx_mbufs io x)) (flying tr)) + compl_way io + mset (reported tr) \<and>
    mset (received tr) = rx_way io + mset (held tr) \<and>
    distinct (pool_objs io @ tx_bufs io @ flying tr) \<and> length (pool_objs io @ tx_bufs io @ flying tr) = pool_size io \<and>
    (\<exists>sent io'. iothread_round env io bs acc = Some (sent, io')) \<and>
    (\<forall>x \<in> set (flying tr). \<exists>io'. completion_enqueue io [x] = Some (0, io'))"
proof -
  note i = io_run_inv [OF assms]
  have "\<exists>io'. completion_enqueue io [x] = Some (0, io')" if "x \<in> set (flying tr)" for x using io_inv_completion [OF i that] by blast
  moreover note io_round_some [OF assms]
  ultimately show ?thesis using i unfolding io_inv_def by (simp only: length_append add.assoc) blast
qed

text \<open>An example: a kthread sends a packet, the card takes it and reports it, and the kthread takes the completion.\<close>

definition w_env :: io_env where
  "w_env = \<lparr>rx_ip_cksum_mask = 0, rx_ip_cksum_good = 0, tx_ip_cksum = 1, tx_tcp_cksum = 2, tx_ipv4 = 4, tx_ipv6 = 8, is_unicast = \<lambda>m. True, is_broadcast = \<lambda>m. False,
     tx_region_base = 0, page_paddrs = \<lambda>n. 0\<rparr>"

definition w_mbuf :: tx_mbuf where
  "w_mbuf = \<lparr>tm_payload = [], tm_iova = 0, tm_refcnt = 0, tm_ol_flags = 0, tm_l4_len = 0, tm_l3_len = 0, tm_l2_len = 0, tm_priv = None\<rparr>"

definition w_hdr :: tx_net_hdr where
  "w_hdr = \<lparr>th_completion_data = 7, th_olflags = 0, th_addr = 0, th_payload = [1, 2]\<rparr>"

definition w_io :: "tx_net_hdr list \<Rightarrow> rx_cmd list \<Rightarrow> nat list \<Rightarrow> (nat \<Rightarrow> tx_mbuf) \<Rightarrow> u32 \<Rightarrow> io_st" where
  "w_io pq rq objs M pos =
     \<lparr>all_ks = [\<lparr>k_parked = False, k_rxq = rq, k_rxq_size = 4, k_txpktq = pq, k_txcmdq = []\<rparr>], p_exited = False, next_rr = 0, max_overflows = 2, overflow_queue = [],
      pool_objs = objs, pool_size = 65, tx_mbufs = M, tx_pos = pos, tx_bufs = [], tx_n_pkts = 0, cmd_pos = 0, rx_freed = []\<rparr>"

definition w_sent :: "nat \<Rightarrow> tx_mbuf" where
  "w_sent = (\<lambda>x. w_mbuf)(64 := tx_prepare_tx_mbuf w_env w_mbuf w_hdr 0)"

lemma w_burst: "tx_burst w_env (w_io [w_hdr] [] [0..<65] (\<lambda>x. w_mbuf) 0) 1 = Some (True, [64], w_io [] [] [0..<64] w_sent 1)"
  by (simp add: tx_burst_def tx_flush_def w_io_def poll_order_def tx_drain_queue_def set_k_def completion_dequeue_def IO_TX_BURST_SIZE_def upt_rec [of 64] Let_def w_sent_def)

lemma w_complete: "completion_enqueue (w_io [] [] [0..<64] w_sent 1) [64] = Some (0, w_io [] [RX_NET_COMPLETE 7] ([0..<64] @ [64]) w_sent 1)"
  by (simp add: completion_enqueue_def tx_send_completion_def w_io_def w_sent_def tx_prepare_tx_mbuf_def w_hdr_def rxq_send_def set_k_def Let_def)

definition w_trace :: io_trace where
  "w_trace = no_trace\<lparr>pushed := (\<lambda>t. [])(0 := [w_hdr]), wire := [w_sent 64], flying := [], reported := [7]\<rparr>"

lemma w_run: "io_run w_env 1 (w_io [] [] ([0..<64] @ [64]) w_sent 1) w_trace"
proof -
  have "io_run w_env 1 (w_io [] [] [0..<65] (\<lambda>x. w_mbuf) 0) no_trace"
    by (rule io_run.start) (simp add: io_start_def w_io_def IO_TX_BURST_SIZE_def)
  from io_run.push [OF this, of 0 w_hdr] have "io_run w_env 1 (w_io [w_hdr] [] [0..<65] (\<lambda>x. w_mbuf) 0) (no_trace\<lparr>pushed := (\<lambda>t. [])(0 := [w_hdr])\<rparr>)"
    by (simp add: w_io_def set_k_def queued_def no_trace_def)
  from io_run.burst [OF this w_burst]
  have "io_run w_env 1 (w_io [] [] [0..<64] w_sent 1) (no_trace\<lparr>pushed := (\<lambda>t. [])(0 := [w_hdr]), wire := [w_sent 64], flying := [64]\<rparr>)"
    by (simp add: no_trace_def w_io_def)
  from io_run.sent [OF this _ w_complete]
  have "io_run w_env 1 (w_io [] [RX_NET_COMPLETE 7] ([0..<64] @ [64]) w_sent 1) (no_trace\<lparr>pushed := (\<lambda>t. [])(0 := [w_hdr]), wire := [w_sent 64], flying := []\<rparr>)"
    by (simp add: no_trace_def)
  from io_run.take_completion [OF this, of 0 7 "[]"] show ?thesis by (simp add: w_io_def set_k_def w_trace_def no_trace_def)
qed

theorem io_thread_correct_witness:
  "io_run w_env 1 (w_io [] [] ([0..<64] @ [64]) w_sent 1) w_trace \<and> tx_order (w_io [] [] ([0..<64] @ [64]) w_sent 1) w_trace \<and>
   map desc (wire w_trace) = [packet 0 w_hdr] \<and> reported w_trace = [7] \<and>
   (\<exists>sent io'. iothread_round w_env (w_io [] [] ([0..<64] @ [64]) w_sent 1) [] 0 = Some (sent, io'))"
  using w_run io_thread_correct [OF w_run, of "[]" 0] by (simp add: w_trace_def w_sent_def desc_prepare)

end
