(* ===== verification/Spec2Isabelle.thy ===== *)
theory Spec2Isabelle
  imports Msgq Lrpc_Concurrent Mempool Stack_Alloc Timer Rr Sq Sync Cfs Eevdf_Pick Scheduler List_Refine List_Single Sq_Lcbe Page_Small Smalloc Tcp_End Tcp_Readv Udp_Deliver Net_Resolve Transport_Refine Io_Run
begin

text \<open>
  \<^bold>\<open>Skyloft, verified in parts.\<close>

  Skyloft is a user-space scheduling framework: a library operating system (\<^verbatim>\<open>libos/\<close>) that runs the tasks of an
  application on CPUs it owns, with scheduling policies as plug-ins, its own synchronisation, timers, memory allocators
  and network stack, on top of small utilities (\<^verbatim>\<open>utils/\<close>). This development models its own logic in HOL, close to the C
  text, and proves what its parts promise each other.

  \<^bold>\<open>How the parts fit together.\<close> Applications spawn, yield, block and wake tasks (\<^verbatim>\<open>libos/sched/sched.c\<close>). Every CPU runs a
  loop that asks a policy for the next task (\<^verbatim>\<open>libos/sched/policy\<close>, reached through \<^verbatim>\<open>sched/ops.h\<close>) and switches stacks.
  Blocking synchronisation, timers and read-copy-update (\<^verbatim>\<open>libos/sync\<close>) call the scheduler. Task structures, stacks and
  buffers come from magazine caches over memory pools, stacks and slabs (\<^verbatim>\<open>libos/mm\<close>), and slabs come from pages. Rings,
  channels, lists, bit arrays and trees (\<^verbatim>\<open>utils\<close>) carry the data of all of them. The network stack (\<^verbatim>\<open>libos/net\<close>) gets its
  packets from soft interrupts (\<^verbatim>\<open>libos/sched/softirq.c\<close>), passes them up through IP and a table of sockets to TCP and UDP, and sends
  packets down through address resolution to queues that an I/O thread (\<^verbatim>\<open>libos/io\<close>) empties.

  \<^bold>\<open>Conventions.\<close> Machine integers are words of their width, and what wraps in C wraps here. A C object is a record; an
  enumeration is a datatype. An operation is a function on the state it changes; \<open>None\<close> as its value is a failed
  assertion, a \<^verbatim>\<open>BUG_ON\<close>, a \<^verbatim>\<open>panic\<close> or an access outside of an array, and a theorem that an operation gives \<open>Some\<close> shows
  that none of them happens. Error numbers are returned as in C. Sections under a spin lock are single steps, and where
  the order of finer steps matters (the channels, the single-queue policies, the scheduler, read-copy-update) there is an
  inductive step relation over all interleavings. The operating system, the clock and the outcome of allocations are
  arguments. The build is the release build, with the constants of \<^verbatim>\<open>params.h.in\<close>.

  \<^bold>\<open>Theories.\<close>

  \<^item> \<open>Prelude\<close>: integer types, macros of \<^verbatim>\<open>utils/defs.h\<close>, constants, shared lemmas.
  \<^item> \<open>Queue_Ring\<close> (\<^verbatim>\<open>utils/queue.h\<close>): both rings refine a bounded FIFO across the wrap of their counters.
  \<^item> \<open>Lrpc_Chan\<close>, \<open>Lrpc_Concurrent\<close> (\<^verbatim>\<open>utils/lrpc.h\<close>, \<^verbatim>\<open>lrpc.c\<close>): the channels, first as sequential operations, then as
    interleaved memory accesses of a sender and a receiver: FIFO, no message lost or overwritten, no false empty or full.
  \<^item> \<open>Msgq\<close> (\<^verbatim>\<open>utils/msgq.h\<close>): FIFO below the top of the counter range, and what happens there.
  \<^item> \<open>List_Heap\<close>, \<open>List_Refine\<close>, \<open>List_Single\<close> (\<^verbatim>\<open>utils/list.h\<close>, \<^verbatim>\<open>list.c\<close>): the lists as pointers in a memory; they refine
    sequences, the loops visit every entry, \<^verbatim>\<open>list_check\<close> decides well-formedness, and faults exactly where it is led
    to memory that is not mapped. Other theories use sequences for lists.
  \<^item> \<open>Bitmap\<close> (\<^verbatim>\<open>utils/bitmap.h\<close>, \<^verbatim>\<open>bitmap.c\<close>): the word-wise search is exact.
  \<^item> \<open>Rbtree\<close> (\<^verbatim>\<open>utils/rbtree.h\<close>, \<^verbatim>\<open>rbtree.c\<close>): insertion and removal with rebalancing, cached leftmost node and augmented data;
    the locale \<open>augmented\<close> is the interface of the callbacks.
  \<^item> \<open>Tcache\<close> (\<^verbatim>\<open>libos/mm/tcache.c\<close>): magazine caches over any allocator that satisfies the locale \<open>tcache_backend\<close>; it is
    interpreted by \<open>Mempool\<close> (\<^verbatim>\<open>mempool.c\<close>), \<open>Stack_Alloc\<close> (\<^verbatim>\<open>stack.c\<close>) and, through a sublocale, \<open>Slab\<close>.
  \<^item> \<open>Page\<close>, \<open>Slab\<close>, \<open>Slab_Numa\<close>, \<open>Page_Small\<close> (\<^verbatim>\<open>libos/mm/page.c\<close>, \<^verbatim>\<open>slab.c\<close>): pages and the slabs on them. The locale
    \<open>page_backend\<close> is what a slab node relies on, \<open>numa_pages\<close> what a slab with a node per NUMA node relies on; both hold of
    large pages, and of the small pages that a slab cuts from large ones on the remote path (before the threads are initialised, or for another node). The
    magazine cache in front of the small pages, which does not know the nodes, is not modelled.
  \<^item> \<open>Smalloc\<close> (\<^verbatim>\<open>libos/mm/smalloc.c\<close>): the size classes of the general allocator.
  \<^item> \<open>Timer_Heap\<close>, \<open>Timer\<close> (\<^verbatim>\<open>libos/sync/timer.c\<close>): the heap of timers and its operations, the order in which they fire.
  \<^item> \<open>Sync\<close> (\<^verbatim>\<open>libos/sync/sync.c\<close>): mutexes, condition variables, barriers, wait groups, futexes as monitors.
  \<^item> \<open>Sched_Policy\<close> with \<open>Fifo\<close>, \<open>Rr\<close> (\<^verbatim>\<open>policy/fifo.c\<close>, \<^verbatim>\<open>rr.c\<close>): the locale \<open>run_queue\<close> and the two list policies.
  \<^item> \<open>Sq\<close>, \<open>Sq_Lcbe\<close> (\<^verbatim>\<open>policy/sq.c\<close>, \<^verbatim>\<open>sq_lcbe.c\<close>): the policies with a dispatcher, as interleavings with the workers; the
    second refines the first on the latency-critical tasks.
  \<^item> \<open>Load_Weight\<close>, \<open>Fair_Queue\<close>, \<open>Cfs\<close>, \<open>Eevdf\<close>, \<open>Eevdf_Policy\<close>, \<open>Eevdf_Pick\<close> (\<^verbatim>\<open>policy/cfs.c\<close>, \<^verbatim>\<open>eevdf.c\<close>): the fair policies; the
    locale \<open>fair_policy\<close> carries the conservation of tasks for both.
  \<^item> \<open>Sched_Core\<close>, \<open>Scheduler\<close> (\<^verbatim>\<open>libos/sched/sched.c\<close>, \<^verbatim>\<open>task.c\<close>, \<^verbatim>\<open>libos/sync/rcu.c\<close>): the CPUs as interleaved steps over any policy
    that satisfies the locale \<open>sched_policy\<close>, which FIFO and round robin do: no task on two CPUs, no runnable task lost (shown for FIFO), and
    the grace periods of read-copy-update. Softirqs run in both switches; all tasks are of one application, and \<^verbatim>\<open>switch_to_app\<close> is not modelled.
  \<^item> \<open>Mbuf\<close>, \<open>Net_Bytes\<close>, \<open>Cksum\<close> (\<^verbatim>\<open>net/mbuf.h\<close>, \<^verbatim>\<open>utils/byteorder.h\<close>, \<^verbatim>\<open>net/cksum.h\<close>, \<^verbatim>\<open>utils/cksum.h\<close>): packet buffers as windows in lists of bytes,
    with 32-bit lengths that wrap around as in C; byte order and header fields; the checksum in assembly is the one's complement sum.
  \<^item> \<open>Net_Tx\<close>, \<open>Net_Rx\<close> (\<^verbatim>\<open>libos/net/core.c\<close>, \<^verbatim>\<open>arp.c\<close>, \<^verbatim>\<open>icmp.c\<close>, \<^verbatim>\<open>ping.c\<close>): the state of the stack of a host and the two directions through it;
    \<open>Net_Frame\<close>: what is on the wire after sending and what a frame becomes when it is received; \<open>Net_Resolve\<close>: packets that wait for
    an address are sent when it is learned, echo requests are answered.
  \<^item> \<open>Transport\<close>, \<open>Transport_Refine\<close> (\<^verbatim>\<open>transport.c\<close>): the table of sockets with its hashing and the choice of ephemeral ports refines a set of
    entries without conflicts.
  \<^item> \<open>Tcp_Conn\<close>, \<open>Tcp_Out\<close>, \<open>Tcp_In\<close>, \<open>Tcp_Sock\<close>, \<open>Tcp_Readv\<close> (\<^verbatim>\<open>tcp.c\<close>, \<^verbatim>\<open>tcp_out.c\<close>, \<^verbatim>\<open>tcp_in.c\<close>): connections, their timers, output, input
    and the socket operations. \<open>Tcp_Stream\<close>, \<open>Tcp_Deliver\<close>: over any series of packets and of the listed operations, \<^verbatim>\<open>tcp_read\<close> returns the stream of the
    peer in order, without gap or repetition; left out, since the code is wrong there, are \<^verbatim>\<open>tcp_readv\<close> and a FIN beyond the receive window. \<open>Tcp_Segment\<close>: what the segmenter puts on the wire, and that the parser inverts it.
    \<open>Tcp_Sender\<close>: the invariant of a sender that writes (pushed or not), keeps data pending, sends a FIN and acknowledgements, and retransmits: every frame it
    has put on the wire carries a piece of the stream. \<open>Tcp_End\<close>: both sides together, over a
    network that loses, repeats and reorders frames: what one application reads is the beginning of what the other has written.
  \<^item> \<open>Udp\<close>, \<open>Net_Stack\<close>, \<open>Udp_Deliver\<close> (\<^verbatim>\<open>udp.c\<close>, \<^verbatim>\<open>transport.c\<close>, \<^verbatim>\<open>softirq.c\<close>): sockets, the hand-over of packets and errors to them, and the soft
    interrupt of the build with the network stack; a datagram sent by one host is read on another, sockets are FIFO, the work of a soft interrupt is bounded.
  \<^item> \<open>Io_Thread\<close>, \<open>Io_Run\<close> (\<^verbatim>\<open>libos/io/rx.c\<close>, \<^verbatim>\<open>tx.c\<close>, \<^verbatim>\<open>cmd.c\<close>, \<^verbatim>\<open>completion.c\<close>, the loop of \<^verbatim>\<open>main.c\<close>): the bursts of the I/O thread, with DPDK as
    arguments; under every order of its steps with those of the kthreads and of the card packets keep their order, completions and buffers are not lost.

  \<^bold>\<open>The network model.\<close> A host is a record \<open>net\<close>: its addresses, the transmit buffers by number, the queues towards the I/O thread, the tables,
  and the answers of the clock, of \<^verbatim>\<open>smalloc\<close> and of the receive pool, in the order they are asked for. Sockets are values of their own, and \<open>stack\<close> is
  a host with its sockets. An operation that may block gives \<open>Blocks\<close> with the task on the wait queue; after the wake-up it is evaluated again. The
  packet queue is that of one kthread. Errors and releases that lower layers report to sockets are collected and delivered at the end of the
  operation. In the theorems on two hosts the network card leaves frames unchanged and reports the IP checksum as verified, since the
  stack leaves its computation to the card.

  \<^bold>\<open>Bounds and partial functions.\<close> Loops that C bounds are structural recursions or have a termination proof; those that
  need not end on arbitrary memory (\<^verbatim>\<open>tcache_reclaim\<close>, the list loops) are partial functions with value \<open>None\<close> for not
  returning, and the theorems show that they return. No definition uses fuel that a theorem leaves open.

  \<^bold>\<open>Not modelled.\<close> The assembly of context switches, the switch to another application, user interrupts, system calls and the kernel module; start-up and
  shared-memory set-up (\<^verbatim>\<open>libos.c\<close>, \<^verbatim>\<open>percpu.c\<close>, \<^verbatim>\<open>platform\<close>, the buffer pools of \<^verbatim>\<open>net_init\<close>); the set-up of DPDK (\<^verbatim>\<open>dpdk.c\<close>, \<^verbatim>\<open>iothread_init\<close>, the creation of the pools of \<^verbatim>\<open>rx.c\<close> and \<^verbatim>\<open>tx.c\<close>); the printing of
  packets (\<^verbatim>\<open>dump.c\<close>) and logging; the POSIX shim; applications and benchmarks. They are system interfaces or glue without logic of their own to state a theorem about.
\<close>

end
